(* ===== verification/Prelude.thy ===== *)
theory Prelude
  imports Main "HOL-Library.Word"
begin

text \<open>
  Shared vocabulary of the development: C characters and strings, the character
  classes of \<^verbatim>\<open>ctype.h\<close>, the status codes of \<^verbatim>\<open>vely.h\<close>, the result type of code that
  can fail, and the generic list lemmas the components share.

  A C string is modelled by its contents, a \<^typ>\<open>char list\<close> without the terminating zero
  byte; \<open>cat s i\<close> is the byte that C reads at \<open>s[i]\<close>, which is the terminating zero
  at the end.  The program is compiled with \<^verbatim>\<open>-fsigned-char\<close> (Makefile, vmakefile), so a
  \<^verbatim>\<open>char\<close> read as an integer is in \<open>-128..127\<close>: this is \<open>schar\<close>; \<open>uchar\<close> is the same
  byte read through \<^verbatim>\<open>unsigned char\<close>.
\<close>

unbundle bit_operations_syntax

section \<open>Characters\<close>

abbreviation NUL :: char where
  "NUL \<equiv> CHR 0x00"

definition uchar :: "char \<Rightarrow> int" where
  "uchar c = of_char c"

definition schar :: "char \<Rightarrow> int" where
  "schar c = (let n = of_char c in if n \<ge> 128 then n - 256 else n)"

text \<open>Storing an integer in a \<^verbatim>\<open>char\<close> keeps its low eight bits.\<close>

definition char_store :: "int \<Rightarrow> char" where
  "char_store i = char_of (i mod 256)"

definition cat :: "string \<Rightarrow> nat \<Rightarrow> char" where
  "cat s i = (if i < length s then s ! i else NUL)"

text \<open>The classes of \<^verbatim>\<open>ctype.h\<close> in the C locale.\<close>

definition isspace :: "char \<Rightarrow> bool" where
  "isspace c \<longleftrightarrow> c \<in> {CHR '' '', CHR 0x09, CHR 0x0A, CHR 0x0B, CHR 0x0C, CHR 0x0D}"

definition isdigit :: "char \<Rightarrow> bool" where
  "isdigit c \<longleftrightarrow> 48 \<le> uchar c \<and> uchar c \<le> 57"

definition isupper :: "char \<Rightarrow> bool" where
  "isupper c \<longleftrightarrow> 65 \<le> uchar c \<and> uchar c \<le> 90"

definition islower :: "char \<Rightarrow> bool" where
  "islower c \<longleftrightarrow> 97 \<le> uchar c \<and> uchar c \<le> 122"

definition isalpha :: "char \<Rightarrow> bool" where
  "isalpha c \<longleftrightarrow> isupper c \<or> islower c"

definition isalnum :: "char \<Rightarrow> bool" where
  "isalnum c \<longleftrightarrow> isalpha c \<or> isdigit c"

definition toupper :: "char \<Rightarrow> char" where
  "toupper c = (if islower c then char_store (uchar c - 32) else c)"

definition tolower :: "char \<Rightarrow> char" where
  "tolower c = (if isupper c then char_store (uchar c + 32) else c)"


section \<open>Results and status codes\<close>

text \<open>
  What can happen instead of a result: \<^verbatim>\<open>vely_report_error\<close>, which leaves the request
  (velyrt.c, \<^verbatim>\<open>_vely_report_error\<close>); a failed \<^verbatim>\<open>assert\<close>; an access outside an array;
  an overflow of a signed integer.  The text of an error is its format string.
\<close>

datatype fault = Report_error string | Assert_failed | Out_of_bounds | Signed_overflow

type_synonym 'a res = "fault + 'a"

text \<open>The largest value of an \<^verbatim>\<open>int\<close>.  A value above it that the code puts into an \<^verbatim>\<open>int\<close> is an overflow too.\<close>

definition INT_MAX :: int where "INT_MAX = 2147483647"

definition res_bind :: "'a res \<Rightarrow> ('a \<Rightarrow> 'b res) \<Rightarrow> 'b res" where
  "res_bind m f = (case m of Inl e \<Rightarrow> Inl e | Inr x \<Rightarrow> f x)"

text \<open>The same for code that may also run for ever, which is \<open>None\<close>.\<close>

definition run_bind :: "'a res option \<Rightarrow> ('a \<Rightarrow> 'b res option) \<Rightarrow> 'b res option" where
  "run_bind m f = (case m of None \<Rightarrow> None | Some (Inl e) \<Rightarrow> Some (Inl e) | Some (Inr x) \<Rightarrow> f x)"

lemma run_bind_simps [simp]:
  "run_bind None f = None" "run_bind (Some (Inl e)) f = Some (Inl e)" "run_bind (Some (Inr x)) f = f x"
  by (simp_all add: run_bind_def)

definition VV_OKAY :: int where "VV_OKAY = 0"
definition VV_ERR_EXIST :: int where "VV_ERR_EXIST = -11"
definition VV_ERR_MEMORY :: int where "VV_ERR_MEMORY = -14"

section \<open>Operations in a row\<close>

text \<open>Running an operation that gives an output a number of times.\<close>

fun outputs :: "('s \<Rightarrow> ('o \<times> 's) res) \<Rightarrow> nat \<Rightarrow> 's \<Rightarrow> ('o list \<times> 's) res" where
  "outputs f 0 s = Inr ([], s)"
| "outputs f (Suc n) s =
     res_bind (f s) (\<lambda>(y, s'). res_bind (outputs f n s') (\<lambda>(ys, s''). Inr (y # ys, s'')))"

fun inputs :: "('s \<Rightarrow> 'i \<Rightarrow> 's res) \<Rightarrow> 'i list \<Rightarrow> 's \<Rightarrow> 's res" where
  "inputs f [] s = Inr s"
| "inputs f (x # xs) s = res_bind (f s x) (inputs f xs)"

section \<open>Memory buffers\<close>

text \<open>
  Routines that write in place keep the bytes of the buffer as a list.  \<open>memput\<close> is
  \<^verbatim>\<open>memcpy\<close> into it and \<open>memmove\<close> moves bytes inside it; a range outside the buffer is a
  fault, so that memory safety is a theorem about the model and not an assumption.
\<close>

definition memput :: "'a list \<Rightarrow> nat \<Rightarrow> 'a list \<Rightarrow> 'a list res" where
  "memput buf pos xs =
     (if pos + length xs \<le> length buf
      then Inr (take pos buf @ xs @ drop (pos + length xs) buf) else Inl Out_of_bounds)"

definition memmove :: "'a list \<Rightarrow> nat \<Rightarrow> nat \<Rightarrow> nat \<Rightarrow> 'a list res" where
  "memmove buf dst src n =
     (if src + n \<le> length buf then memput buf dst (take n (drop src buf)) else Inl Out_of_bounds)"

text \<open>The string that starts at a position of a buffer.\<close>

definition cstr :: "string \<Rightarrow> string" where
  "cstr buf = takeWhile (\<lambda>c. c \<noteq> NUL) buf"

section \<open>Collections of facts\<close>

named_theorems char_defs \<open>definitions of the character classes and conversions\<close>

declare uchar_def [char_defs] schar_def [char_defs] char_store_def [char_defs]
  isspace_def [char_defs] isdigit_def [char_defs] isupper_def [char_defs]
  islower_def [char_defs] isalpha_def [char_defs] isalnum_def [char_defs]

section \<open>Lemmas on characters\<close>

lemma uchar_ge_0 [simp]: "0 \<le> uchar c"
  using of_char_mod_256 [of c, where ?'a = int]
  by (metis uchar_def pos_mod_sign zero_less_numeral)

lemma uchar_less_256 [simp]: "uchar c < 256"
  using of_char_mod_256 [of c, where ?'a = int]
  by (metis uchar_def pos_mod_bound zero_less_numeral)

lemma uchar_char_store [simp]: "uchar (char_store i) = i mod 256"
  by (simp add: uchar_def char_store_def)

lemma uchar_eq_iff: "uchar c = uchar d \<longleftrightarrow> c = d"
  by (simp add: uchar_def)

lemma char_store_uchar [simp]: "char_store (uchar c) = c"
  by (simp add: char_store_def uchar_def)

lemma schar_mod_256: "schar c mod 256 = uchar c"
  by (auto simp: schar_def uchar_def Let_def)

lemma char_store_schar [simp]: "char_store (schar c) = c"
  by (metis char_store_uchar schar_mod_256 uchar_char_store uchar_eq_iff)

lemma schar_eq_uchar: "uchar c < 128 \<Longrightarrow> schar c = uchar c"
  by (simp add: schar_def uchar_def Let_def)

lemma schar_neg: "128 \<le> uchar c \<Longrightarrow> schar c = uchar c - 256"
  by (simp add: schar_def uchar_def Let_def)

lemma schar_eq_iff: "schar c = schar d \<longleftrightarrow> c = d"
  by (metis char_store_schar)

lemma isdigit_ascii: "isdigit c \<Longrightarrow> uchar c < 128"
  by (simp add: isdigit_def)

lemma isalnum_ascii: "isalnum c \<Longrightarrow> uchar c < 128"
  by (auto simp: isalnum_def isalpha_def isdigit_def isupper_def islower_def)

lemma isspace_not_isdigit: "isspace c \<Longrightarrow> \<not> isdigit c"
  by (auto simp: isspace_def isdigit_def uchar_def)

lemma NUL_classes [simp]:
  "\<not> isspace NUL" "\<not> isdigit NUL" "\<not> isalpha NUL" "\<not> isalnum NUL"
  by (simp_all add: char_defs)

lemma uchar_le_255 [simp]: "uchar c \<le> 255"
  using uchar_less_256 [of c] by linarith

text \<open>A statement about every character of a range, checked one by one.\<close>

lemma char_range_cases:
  assumes "list_all (\<lambda>j. P (char_store j)) [a..b]" "a \<le> uchar c" "uchar c \<le> b"
  shows "P c"
proof -
  have "uchar c \<in> set [a..b]" using assms(2,3) by simp
  then have "P (char_store (uchar c))" using assms(1) unfolding list_all_iff by blast
  then show ?thesis by simp
qed

text \<open>A mask of the low eight bits sees the same byte, signed or not.\<close>

lemma and_low8:
  fixes m :: int
  assumes "0 \<le> m" "m < 256"
  shows "schar c AND m = uchar c AND m"
proof -
  have u: "uchar c = take_bit 8 (schar c)" by (simp add: take_bit_eq_mod schar_mod_256)
  have m: "take_bit 8 m = m" using assms by (simp add: take_bit_eq_mod)
  have "schar c AND take_bit 8 m = take_bit 8 (schar c) AND take_bit 8 m"
    by (rule bit_eqI) (auto simp: bit_simps)
  then show ?thesis by (simp add: m u)
qed

section \<open>Lemmas on strings\<close>

lemma cat_less [simp]: "i < length s \<Longrightarrow> cat s i = s ! i"
  by (simp add: cat_def)

lemma cat_ge [simp]: "length s \<le> i \<Longrightarrow> cat s i = NUL"
  by (simp add: cat_def)

lemma cat_Cons_0 [simp]: "cat (c # s) 0 = c"
  by (simp add: cat_def)

lemma cat_Cons_Suc [simp]: "cat (c # s) (Suc i) = cat s i"
  by (simp add: cat_def)

lemma cat_Cons_numeral [simp]: "cat (c # s) (numeral k) = cat s (pred_numeral k)"
  by (simp add: numeral_eq_Suc)

lemma cat_Nil [simp]: "cat [] i = NUL"
  by (simp add: cat_def)

lemma cat_append: "cat (s @ t) i = (if i < length s then s ! i else cat t (i - length s))"
  by (auto simp: cat_def nth_append)

lemma cat_drop: "cat (drop k s) i = cat s (k + i)"
  by (auto simp: cat_def)

lemma cat_eq_NUL_iff: "NUL \<notin> set s \<Longrightarrow> cat s i = NUL \<longleftrightarrow> length s \<le> i"
  by (auto simp: cat_def) (metis linorder_not_le nth_mem)

lemma cstr_terminated [simp]: "NUL \<notin> set s \<Longrightarrow> cstr (s @ NUL # rest) = s"
  unfolding cstr_def by (induction s) auto

lemma cstr_all [simp]: "NUL \<notin> set s \<Longrightarrow> cstr s = s"
  unfolding cstr_def by (induction s) auto

lemma memput_length: "memput buf pos xs = Inr buf' \<Longrightarrow> length buf' = length buf"
  by (auto simp: memput_def split: if_splits)

lemma memput_ok:
  "length a = pos \<Longrightarrow> length b = length xs \<Longrightarrow> memput (a @ b @ c) pos xs = Inr (a @ xs @ c)"
  by (simp add: memput_def)

text \<open>Ending the string at a position of a buffer.\<close>

lemma memput_NUL:
  assumes "e < length buf" "off \<le> e" "NUL \<notin> set (drop off (take e buf))"
  shows "\<exists>buf'. memput buf e [NUL] = Inr buf' \<and> cstr (drop off buf') = drop off (take e buf)
           \<and> length buf' = length buf"
proof -
  have "drop off (take e buf @ NUL # drop (e + 1) buf)
      = drop off (take e buf) @ NUL # drop (e + 1) buf"
    using assms by simp
  moreover have "memput buf e [NUL] = Inr (take e buf @ NUL # drop (e + 1) buf)"
    using assms(1) by (simp add: memput_def)
  ultimately show ?thesis
    using assms cstr_terminated by (intro exI [of _ "take e buf @ NUL # drop (e + 1) buf"]) simp
qed

section \<open>Numbers as text\<close>

text \<open>What \<^verbatim>\<open>printf\<close> prints for \<^verbatim>\<open>%d\<close> and \<^verbatim>\<open>%ld\<close>, and what is left of a text that \<^verbatim>\<open>snprintf\<close> writes into
  \<open>n\<close> bytes.\<close>

function decimal_digits :: "nat \<Rightarrow> string" where
  "decimal_digits n =
     (if n < 10 then [char_store (48 + int n)] else decimal_digits (n div 10) @ [char_store (48 + int (n mod 10))])"
  by pat_completeness auto
termination by (relation "measure id") auto

declare decimal_digits.simps [simp del]

definition decimal_text :: "int \<Rightarrow> string" where
  "decimal_text i = (if i < 0 then CHR ''-'' # decimal_digits (nat (- i)) else decimal_digits (nat i))"

definition snprintf_text :: "nat \<Rightarrow> string \<Rightarrow> string" where
  "snprintf_text n s = take (n - 1) s"

lemma digits_length: "n < 10 ^ k \<Longrightarrow> 0 < k \<Longrightarrow> length (decimal_digits n) \<le> k"
proof (induction k arbitrary: n)
  case (Suc k)
  show ?case
  proof (cases "n < 10")
    case False
    then have "0 < k" using Suc.prems by (cases k) auto
    moreover have "n div 10 < 10 ^ k" using Suc.prems by (simp add: less_mult_imp_div_less mult.commute)
    ultimately show ?thesis using Suc.IH [of "n div 10"] False by (simp add: decimal_digits.simps [of n])
  qed (simp add: decimal_digits.simps)
qed simp

lemma decimal_digits_no_NUL: "NUL \<notin> set (decimal_digits n)"
proof (induction n rule: less_induct)
  case (less n)
  have d: "char_store (48 + int m) \<noteq> NUL" if "m < 10" for m
  proof
    assume "char_store (48 + int m) = NUL"
    moreover have "uchar (char_store (48 + int m)) = 48 + int m" using that by simp
    moreover have "uchar NUL = 0" by (simp add: uchar_def)
    ultimately show False by simp
  qed
  show ?case using less d [of n] d [of "n mod 10"] by (subst decimal_digits.simps) auto
qed

end
