(* ===== verification/Utf8.thy ===== *)
theory Utf8
  imports Prelude
begin

text \<open>
  The UTF-8 conversions of utf8.c.  A Unicode value is a \<^verbatim>\<open>num32\<close>, a 32-bit signed
  integer, modelled as a 32-bit word and compared as the code does, through its signed
  value.  In the source's naming "encode" goes from UTF-8 bytes to the value and
  "decode" from the value to bytes.
\<close>

type_synonym num32 = "32 word"

definition num32_of_char :: "char \<Rightarrow> num32" where
  "num32_of_char c = word_of_int (schar c)"

definition VV_UTF8_ERR_ILLEGAL_CHARACTER_FEFF :: string where
  "VV_UTF8_ERR_ILLEGAL_CHARACTER_FEFF = ''Illegal character code 0xFEFF''"
definition VV_UTF8_ERR_OUT_OF_RANGE :: string where
  "VV_UTF8_ERR_OUT_OF_RANGE = ''UTF8 character out of range''"
definition VV_UTF8_ERR_SECOND_BYTE :: string where
  "VV_UTF8_ERR_SECOND_BYTE = ''Second UTF8 byte invalid''"
definition VV_UTF8_ERR_THIRD_BYTE :: string where
  "VV_UTF8_ERR_THIRD_BYTE = ''Third UTF8 byte invalid''"
definition VV_UTF8_ERR_FOURTH_BYTE :: string where
  "VV_UTF8_ERR_FOURTH_BYTE = ''Fourth UTF8 byte invalid''"
definition VV_UTF8_INVALID :: string where
  "VV_UTF8_INVALID = ''Invalid UTF8 value''"

definition vely_make_from_utf8_surrogate :: "num32 \<Rightarrow> num32 \<Rightarrow> num32" where
  "vely_make_from_utf8_surrogate u0 u1 =
     push_bit 10 u0 + u1 + (0x10000 - push_bit 10 0xD800 - 0xDC00)"

text \<open>
  The first component of a successful result is what is stored in \<open>*u\<close>, the second the
  number of bytes; an error is the text stored in \<open>*e\<close>, with the return value \<open>-1\<close>.
\<close>

definition vely_encode_utf8 :: "string \<Rightarrow> string + num32 \<times> nat" where
  "vely_encode_utf8 r =
     (let b = (\<lambda>k. num32_of_char (cat r k)) in
      if b 0 AND 128 = 0 then Inr (b 0, 1)
      else if b 0 AND 240 = 240 then
        (if b 1 AND 128 = 128 then
           if b 2 AND 128 = 128 then
             if b 3 AND 128 = 128 then
               Inr (push_bit 18 (b 0 AND 7) + push_bit 12 (b 1 AND 63)
                    + push_bit 6 (b 2 AND 63) + (b 3 AND 63), 4)
             else Inl VV_UTF8_ERR_FOURTH_BYTE
           else Inl VV_UTF8_ERR_THIRD_BYTE
         else Inl VV_UTF8_ERR_SECOND_BYTE)
      else if b 0 AND 224 = 224 then
        (if b 1 AND 128 = 128 then
           if b 2 AND 128 = 128 then
             Inr (push_bit 12 (b 0 AND 15) + push_bit 6 (b 1 AND 63) + (b 2 AND 63), 3)
           else Inl VV_UTF8_ERR_THIRD_BYTE
         else Inl VV_UTF8_ERR_SECOND_BYTE)
      else if b 0 AND 192 = 192 then
        (if b 1 AND 128 = 128 then Inr (push_bit 6 (b 0 AND 31) + (b 1 AND 63), 2)
         else Inl VV_UTF8_ERR_SECOND_BYTE)
      else Inl VV_UTF8_INVALID)"

definition vely_get_utf8_surrogate :: "num32 \<Rightarrow> num32 \<times> num32" where
  "vely_get_utf8_surrogate u =
     ((0xD800 - drop_bit 10 0x10000) + signed_drop_bit 10 u, 0xDC00 + (u AND 0x3FF))"

definition vely_decode_utf8 :: "num32 \<Rightarrow> string + string" where
  "vely_decode_utf8 u =
     (let put = (\<lambda>w::num32. char_store (sint w)) in
      if sint u \<le> 0x7F then Inr [put u]
      else if sint u \<ge> 0x80 \<and> sint u \<le> 0x7FF then
        Inr [put (192 + signed_drop_bit 6 u), put (128 + (u AND 63))]
      else if sint u \<ge> 0x800 \<and> sint u \<le> 0xFFFF then
        (if u = 0xFEFF then Inl VV_UTF8_ERR_ILLEGAL_CHARACTER_FEFF
         else Inr [put (224 + signed_drop_bit 12 u), put (128 + (signed_drop_bit 6 u AND 63)),
                   put (128 + (u AND 63))])
      else if sint u \<ge> 0x10000 \<and> sint u \<le> 0x10FFFF then
        Inr [put (240 + signed_drop_bit 18 u), put (128 + (signed_drop_bit 12 u AND 63)),
             put (128 + (signed_drop_bit 6 u AND 63)), put (128 + (u AND 63))]
      else Inl VV_UTF8_ERR_OUT_OF_RANGE)"


section \<open>Masks on bytes and on values\<close>

lemma byte_and:
  "0 \<le> m \<Longrightarrow> m < 256 \<Longrightarrow> num32_of_char c AND word_of_int m = word_of_int (uchar c AND m)"
  by (simp add: num32_of_char_def word_wi_log_defs and_low8)

lemma byte_mask_eq:
  assumes "0 \<le> m" "m < 256" "0 \<le> k" "k < 256"
  shows "num32_of_char c AND word_of_int m = word_of_int k \<longleftrightarrow> uchar c AND m = k"
proof -
  have "0 \<le> uchar c AND m" "uchar c AND m \<le> m"
    using assms by simp_all
  then have "take_bit 32 (uchar c AND m) = uchar c AND m" "take_bit 32 k = k"
    using assms by (simp_all add: take_bit_eq_mod)
  then show ?thesis
    using assms by (simp add: byte_and word_of_int_eq_iff)
qed

text \<open>The tests of the code on a byte, and the payloads it takes out of one.\<close>

lemmas byte_tests =
  byte_mask_eq [of 128 0, simplified] byte_mask_eq [of 128 128, simplified]
  byte_mask_eq [of 240 240, simplified] byte_mask_eq [of 224 224, simplified]
  byte_mask_eq [of 192 192, simplified]

lemmas byte_payloads =
  byte_and [of 7, simplified] byte_and [of 15, simplified]
  byte_and [of 31, simplified] byte_and [of 63, simplified]

lemma small_int_cases:
  assumes "list_all (\<lambda>j. P (int j)) [0..<n]" "0 \<le> k" "k < int n"
  shows "P k"
  using assms(1) [unfolded list_all_iff, rule_format, of "nat k"] assms(2,3) by simp

lemma mask_ascii: "0 \<le> k \<Longrightarrow> k < 128 \<Longrightarrow> k AND 128 = (0::int)"
  by (rule small_int_cases [of _ 128]) (code_simp, simp_all)

lemma mask_cont: "0 \<le> k \<Longrightarrow> k < 64 \<Longrightarrow> (128 + k) AND 128 = (128::int) \<and> (128 + k) AND 63 = k"
  by (rule small_int_cases [of _ 64]) (code_simp, simp_all)

lemma mask_lead2:
  "0 \<le> k \<Longrightarrow> k < 32 \<Longrightarrow> (192 + k) AND 128 = (128::int) \<and> (192 + k) AND 240 \<noteq> 240
     \<and> (192 + k) AND 224 \<noteq> 224 \<and> (192 + k) AND 192 = 192 \<and> (192 + k) AND 31 = k"
  by (rule small_int_cases [of _ 32]) (code_simp, simp_all)

lemma mask_lead3:
  "0 \<le> k \<Longrightarrow> k < 16 \<Longrightarrow> (224 + k) AND 128 = (128::int) \<and> (224 + k) AND 240 \<noteq> 240
     \<and> (224 + k) AND 224 = 224 \<and> (224 + k) AND 15 = k"
  by (rule small_int_cases [of _ 16]) (code_simp, simp_all)

lemma mask_lead4:
  "0 \<le> k \<Longrightarrow> k < 8 \<Longrightarrow>
     (240 + k) AND 128 = (128::int) \<and> (240 + k) AND 240 = 240 \<and> (240 + k) AND 7 = k"
  by (rule small_int_cases [of _ 8]) (code_simp, simp_all)

lemma uint_and_63: "uint (w AND 63 :: num32) = uint w mod 64"
  using take_bit_eq_mask [of 6 "uint w"]
  by (simp add: uint_and take_bit_eq_mod mask_eq_exp_minus_1)

lemma uint_and_1023: "uint (w AND 0x3FF :: num32) = uint w mod 1024"
  using take_bit_eq_mask [of 10 "uint w"]
  by (simp add: uint_and take_bit_eq_mod mask_eq_exp_minus_1)

lemma sint_mod_256: "sint (w :: num32) mod 256 = uint w mod 256"
proof -
  have "uint w = sint w mod 2 ^ 32"
    by (simp add: take_bit_eq_mod uint_sint)
  then have "uint w mod 256 = (sint w mod 2 ^ 32) mod 256" by simp
  also have "\<dots> = sint w mod 256" by (rule mod_mod_cancel) simp
  finally show ?thesis by simp
qed

lemma sint_nonneg: "0 \<le> sint (w :: num32) \<Longrightarrow> uint w = sint w"
  using sint_lt [of w] by (simp add: uint_sint take_bit_eq_mod)

lemma word_of_sint: "word_of_int (sint w) = (w :: num32)"
  by simp

lemma uint_shift: "0 \<le> sint (w :: num32) \<Longrightarrow> uint (signed_drop_bit k w) = sint w div 2 ^ k"
  by (subst sint_nonneg) (simp_all add: sint_signed_drop_bit_eq drop_bit_eq_div
      pos_imp_zdiv_nonneg_iff)

lemma put_add: "char_store (sint (a + b :: num32)) = char_store (uint a + uint b)"
  by (subst uchar_eq_iff [symmetric])
    (simp add: sint_mod_256 uint_word_ariths mod_mod_cancel)

section \<open>The bytes written\<close>

text \<open>The bytes of a non-negative value, over the integers.\<close>

definition utf8_bytes :: "int \<Rightarrow> string" where
  "utf8_bytes n =
     (if n \<le> 0x7F then [char_store n]
      else if n \<le> 0x7FF then [char_store (192 + n div 64), char_store (128 + n mod 64)]
      else if n \<le> 0xFFFF then
        [char_store (224 + n div 4096), char_store (128 + n div 64 mod 64), char_store (128 + n mod 64)]
      else [char_store (240 + n div 262144), char_store (128 + n div 4096 mod 64),
            char_store (128 + n div 64 mod 64), char_store (128 + n mod 64)])"

lemma decode_bytes:
  assumes "0 \<le> sint u" "sint u \<le> 0x10FFFF" "u \<noteq> 0xFEFF"
  shows "vely_decode_utf8 u = Inr (utf8_bytes (sint u))"
  using assms
  by (simp add: vely_decode_utf8_def utf8_bytes_def Let_def put_add uint_and_63 uint_shift
      sint_nonneg)

section \<open>Reading bytes back\<close>


text \<open>
  What the code does with one, two, three and four bytes whose payloads are given.
\<close>

lemmas encode_eval = vely_encode_utf8_def Let_def byte_tests byte_payloads
  numeral_2_eq_2 numeral_3_eq_3

lemma encode1:
  assumes "uchar c = k" "k < 128"
  shows "vely_encode_utf8 (c # r) = Inr (word_of_int k, 1)"
proof -
  have "num32_of_char c = word_of_int k"
    using assms by (simp add: num32_of_char_def schar_eq_uchar)
  moreover have "uchar c AND 128 = 0"
    using assms mask_ascii [of k] uchar_ge_0 [of c] by simp
  then have "vely_encode_utf8 (c # r) = Inr (num32_of_char c, 1)" by (simp add: encode_eval)
  ultimately show ?thesis by simp
qed

lemma encode2:
  assumes "uchar c0 = 192 + a" "uchar c1 = 128 + b" "0 \<le> a" "a < 32" "0 \<le> b" "b < 64"
  shows "vely_encode_utf8 (c0 # c1 # r) = Inr (word_of_int (a * 64 + b), 2)"
  using mask_lead2 [OF assms(3,4)] mask_cont [OF assms(5,6)] assms(1,2)
  by (simp add: encode_eval push_bit_eq_mult)

lemma encode3:
  assumes "uchar c0 = 224 + a" "uchar c1 = 128 + b" "uchar c2 = 128 + c"
    "0 \<le> a" "a < 16" "0 \<le> b" "b < 64" "0 \<le> c" "c < 64"
  shows "vely_encode_utf8 (c0 # c1 # c2 # r) = Inr (word_of_int (a * 4096 + b * 64 + c), 3)"
  using mask_lead3 [OF assms(4,5)] mask_cont [OF assms(6,7)] mask_cont [OF assms(8,9)] assms(1-3)
  by (simp add: encode_eval push_bit_eq_mult)

lemma encode4:
  assumes "uchar c0 = 240 + a" "uchar c1 = 128 + b" "uchar c2 = 128 + c" "uchar c3 = 128 + d"
    "0 \<le> a" "a < 8" "0 \<le> b" "b < 64" "0 \<le> c" "c < 64" "0 \<le> d" "d < 64"
  shows "vely_encode_utf8 (c0 # c1 # c2 # c3 # r)
           = Inr (word_of_int (a * 262144 + b * 4096 + c * 64 + d), 4)"
  using mask_lead4 [OF assms(5,6)] mask_cont [OF assms(7,8)] mask_cont [OF assms(9,10)]
    mask_cont [OF assms(11,12)] assms(1-4)
  by (simp add: encode_eval push_bit_eq_mult)

text \<open>The six-bit digits of a value.\<close>

lemma utf8_bytes_digits:
  "n \<le> 0x7F \<Longrightarrow> utf8_bytes n = [char_store n]"
  "0x80 \<le> n \<Longrightarrow> n \<le> 0x7FF \<Longrightarrow> utf8_bytes n = [char_store (192 + n div 64), char_store (128 + n mod 64)]"
  "0x800 \<le> n \<Longrightarrow> n \<le> 0xFFFF \<Longrightarrow> utf8_bytes n =
     [char_store (224 + n div 4096), char_store (128 + n div 64 mod 64), char_store (128 + n mod 64)]"
  "0x10000 \<le> n \<Longrightarrow> utf8_bytes n =
     [char_store (240 + n div 262144), char_store (128 + n div 4096 mod 64),
      char_store (128 + n div 64 mod 64), char_store (128 + n mod 64)]"
  by (simp_all add: utf8_bytes_def)

lemma digit_sum3: "n div 4096 * 4096 + n div 64 mod 64 * 64 + n mod 64 = (n :: int)"
proof -
  have "n div 4096 = n div 64 div 64" by (simp add: zdiv_zmult2_eq [symmetric])
  moreover have "n div 64 div 64 * 64 + n div 64 mod 64 = n div 64" "n div 64 * 64 + n mod 64 = n"
    by simp_all
  ultimately show ?thesis by linarith
qed

lemma digit_sum4:
  "n div 262144 * 262144 + n div 4096 mod 64 * 4096 + n div 64 mod 64 * 64 + n mod 64 = (n :: int)"
proof -
  have "n div 262144 = n div 4096 div 64" by (simp add: zdiv_zmult2_eq [symmetric])
  moreover have "n div 4096 div 64 * 64 + n div 4096 mod 64 = n div 4096" by simp
  ultimately show ?thesis using digit_sum3 [of n] by linarith
qed

lemma encode_utf8_bytes:
  assumes "0 \<le> n" "n \<le> 0x10FFFF"
  shows "vely_encode_utf8 (utf8_bytes n @ r) = Inr (word_of_int n, length (utf8_bytes n))"
proof -
  consider "n \<le> 0x7F" | "0x80 \<le> n" "n \<le> 0x7FF" | "0x800 \<le> n" "n \<le> 0xFFFF" | "0x10000 \<le> n"
    by linarith
  then show ?thesis
  proof cases
    case 1
    then show ?thesis using assms encode1 [of "char_store n" n r] by (simp add: utf8_bytes_digits)
  next
    case 2
    then have "0 \<le> n div 64" "n div 64 < 32" by simp_all
    then show ?thesis
      using encode2 [of "char_store (192 + n div 64)" "n div 64" "char_store (128 + n mod 64)" "n mod 64" r]
      by (simp add: utf8_bytes_digits(2) [OF 2])
  next
    case 3
    then have "0 \<le> n div 4096" "n div 4096 < 16" by simp_all
    then show ?thesis
      using encode3 [of "char_store (224 + n div 4096)" "n div 4096"
          "char_store (128 + n div 64 mod 64)" "n div 64 mod 64" "char_store (128 + n mod 64)" "n mod 64" r]
      by (simp add: utf8_bytes_digits(3) [OF 3] digit_sum3)
  next
    case 4
    then have "0 \<le> n div 262144" "n div 262144 < 8" using assms by simp_all
    then show ?thesis
      using encode4 [of "char_store (240 + n div 262144)" "n div 262144"
          "char_store (128 + n div 4096 mod 64)" "n div 4096 mod 64"
          "char_store (128 + n div 64 mod 64)" "n div 64 mod 64" "char_store (128 + n mod 64)" "n mod 64" r]
      by (simp add: utf8_bytes_digits(4) [OF 4] digit_sum4)
  qed
qed

section \<open>Properties\<close>

lemma sint_small: "0 \<le> a \<Longrightarrow> a < 2 ^ 31 \<Longrightarrow> sint (word_of_int a :: num32) = a"
  by (simp add: sint_uint uint_word_of_int take_bit_eq_mod signed_take_bit_int_eq_self_iff)

lemma surrogates_int:
  assumes "0x10000 \<le> sint u" "sint u \<le> 0x10FFFF"
  shows "vely_get_utf8_surrogate u
           = (word_of_int (0xD7C0 + sint u div 1024), word_of_int (0xDC00 + sint u mod 1024))"
proof -
  have nn: "0 \<le> sint u" using assms by simp
  have "uint (signed_drop_bit 10 u) = sint u div 1024" "uint (u AND 0x3FF) = sint u mod 1024"
    using uint_shift [OF nn, of 10] uint_and_1023 [of u] sint_nonneg [OF nn] by simp_all
  then have "signed_drop_bit 10 u = word_of_int (sint u div 1024)"
    "u AND 0x3FF = word_of_int (sint u mod 1024)"
    by (metis word_of_int_uint)+
  then show ?thesis by (simp add: vely_get_utf8_surrogate_def)
qed

text \<open>C32: a value that the code turns into UTF-8 is read back unchanged, and the number of
  bytes consumed is the number written, whatever follows them.\<close>

theorem utf8_roundtrip:
  assumes "0 \<le> sint u" "sint u \<le> 0x10FFFF" "u \<noteq> 0xFEFF"
  shows "\<exists>bs. vely_decode_utf8 u = Inr bs \<and> length bs \<in> {1..4}
           \<and> vely_encode_utf8 (bs @ rest) = Inr (u, length bs)"
proof -
  have "vely_encode_utf8 (utf8_bytes (sint u) @ rest) = Inr (u, length (utf8_bytes (sint u)))"
    using encode_utf8_bytes [OF assms(1,2), of rest] by simp
  moreover have "length (utf8_bytes (sint u)) \<in> {1..4}" by (simp add: utf8_bytes_def)
  ultimately show ?thesis using decode_bytes [OF assms] by blast
qed

theorem utf8_roundtrip_witness:
  "\<exists>bs. vely_decode_utf8 0x20AC = Inr bs \<and> length bs \<in> {1..4}
      \<and> vely_encode_utf8 (bs @ ''x'') = Inr (0x20AC, length bs)"
  by (rule utf8_roundtrip) simp_all

text \<open>Splitting a value above the basic plane into two surrogates and joining them again
  gives the value back, and the two halves lie in the surrogate ranges.\<close>

lemma surrogate_roundtrip:
  assumes "0x10000 \<le> sint u" "sint u \<le> 0x10FFFF"
  shows "case vely_get_utf8_surrogate u of (u0, u1) \<Rightarrow>
           vely_make_from_utf8_surrogate u0 u1 = u
           \<and> sint u0 \<in> {0xD800..0xDBFF} \<and> sint u1 \<in> {0xDC00..0xDFFF}"
proof -
  let ?a = "0xD7C0 + sint u div 1024" and ?b = "0xDC00 + sint u mod 1024"
  have a: "0xD800 \<le> ?a" "?a \<le> 0xDBFF" using assms by linarith+
  have b: "0xDC00 \<le> ?b" "?b \<le> 0xDFFF" by simp_all
  have "word_of_int (sint u div 1024) * 1024 + word_of_int (sint u mod 1024)
      = (word_of_int (sint u div 1024 * 1024 + sint u mod 1024) :: num32)"
    by (simp only: of_int_add of_int_mult of_int_numeral)
  then have "word_of_int (sint u div 1024) * 1024 + word_of_int (sint u mod 1024) = u"
    by (simp only: div_mult_mod_eq word_of_sint)
  then have "vely_make_from_utf8_surrogate (word_of_int ?a) (word_of_int ?b) = u"
    by (simp add: vely_make_from_utf8_surrogate_def push_bit_eq_mult)
  moreover have "sint (word_of_int ?a :: num32) = ?a"
    by (rule sint_small) (use a in simp_all)
  moreover have "sint (word_of_int ?b :: num32) = ?b"
    by (rule sint_small) (use b in simp_all)
  ultimately show ?thesis
    using a b by (simp only: surrogates_int [OF assms] prod.case atLeastAtMost_iff simp_thms)
qed

lemma surrogate_roundtrip_witness:
  "case vely_get_utf8_surrogate 0x1F600 of (u0, u1) \<Rightarrow>
     vely_make_from_utf8_surrogate u0 u1 = 0x1F600
     \<and> sint u0 \<in> {0xD800..0xDBFF} \<and> sint u1 \<in> {0xDC00..0xDFFF}"
  by (rule surrogate_roundtrip) simp_all

end
