(* ===== verification/Codec.thy ===== *)
theory Codec
  imports Prelude "HOL-Library.Signed_Division"
begin

text \<open>
  The encoders and decoders of the runtime: web and URL encoding
  (\<^verbatim>\<open>vely_encode\<close>, \<^verbatim>\<open>vely_encode_base\<close> in velyrtc.c, \<^verbatim>\<open>vely_decode\<close> in velyrt.c),
  hexadecimal conversion (\<^verbatim>\<open>vely_hex2bin\<close>, \<^verbatim>\<open>vely_bin2hex\<close>), and numbers written in a
  base (\<^verbatim>\<open>vely_topower\<close>, \<^verbatim>\<open>vely_num2str\<close>).

  Decoding works inside its argument: the model keeps the buffer, with its read and write
  positions, and a second, purely functional description is proved equal to it.
\<close>

datatype enc_type = VV_URL | VV_WEB | VV_NOENC

section \<open>Encoding\<close>

definition web_char :: "char \<Rightarrow> string" where
  "web_char c =
     (if c = CHR ''&'' then ''&amp;''
      else if c = CHR 0x22 then ''&quot;''
      else if c = CHR 0x27 then ''&apos;''
      else if c = CHR ''<'' then ''&lt;''
      else if c = CHR ''>'' then ''&gt;''
      else if c = NUL then []
      else [c])"

text \<open>The two digits after \<^verbatim>\<open>%\<close> are computed from a signed character with C division.\<close>

definition url_digit :: "int \<Rightarrow> char" where
  "url_digit h = (if h \<ge> 10 then char_store (65 + h - 10) else char_store (48 + h))"

definition url_char :: "char \<Rightarrow> string" where
  "url_char c =
     (if isalnum c \<or> c = CHR ''-'' \<or> c = CHR ''.'' \<or> c = CHR ''_'' \<or> c = CHR ''~'' then [c]
      else [CHR ''%'', url_digit (schar c sdiv 16), url_digit (schar c smod 16)])"

text \<open>\<open>v\<close> is the \<open>vLen\<close> bytes that are encoded; the result is what is written to \<open>*res\<close>
  before the zero byte, and its length is the return value.\<close>

fun encode_loop :: "(char \<Rightarrow> string) \<Rightarrow> string \<Rightarrow> string" where
  "encode_loop f [] = []"
| "encode_loop f (c # cs) = f c @ encode_loop f cs"

definition vely_encode_base :: "enc_type \<Rightarrow> string \<Rightarrow> string res" where
  "vely_encode_base enc v =
     (case enc of
        VV_WEB \<Rightarrow> Inr (encode_loop web_char v)
      | VV_URL \<Rightarrow> Inr (encode_loop url_char v)
      | VV_NOENC \<Rightarrow> Inl Assert_failed)"

definition vely_encode :: "enc_type \<Rightarrow> string \<Rightarrow> int \<Rightarrow> string res" where
  "vely_encode enc v vlen =
     vely_encode_base enc (if vlen < 0 then takeWhile (\<lambda>c. c \<noteq> NUL) v else take (nat vlen) v)"

definition VV_MAX_ENC_BLOWUP :: "nat \<Rightarrow> nat" where
  "VV_MAX_ENC_BLOWUP n = n * 6 + 1"

section \<open>Decoding in place\<close>

text \<open>\<^verbatim>\<open>strncmp (v + k, lit, strlen (lit)) == 0\<close>.\<close>

definition lit_at :: "string \<Rightarrow> nat \<Rightarrow> string \<Rightarrow> bool" where
  "lit_at v k lit \<longleftrightarrow> take (length lit) (drop k v) = lit"

text \<open>The replacement of an entity and the bytes after the ampersand it takes.\<close>

definition web_entity :: "string \<Rightarrow> nat \<Rightarrow> char \<times> nat" where
  "web_entity v i =
     (if cat v i = CHR ''&'' then
        (if lit_at v (i + 1) ''amp;'' then (CHR ''&'', 4)
         else if lit_at v (i + 1) ''quot;'' then (CHR 0x22, 5)
         else if lit_at v (i + 1) ''apos;'' then (CHR 0x27, 5)
         else if lit_at v (i + 1) ''lt;'' then (CHR ''<'', 3)
         else if lit_at v (i + 1) ''gt;'' then (CHR ''>'', 3)
         else (cat v i, 0))
      else (cat v i, 0))"

function web_decode_loop :: "string \<Rightarrow> nat \<Rightarrow> nat \<Rightarrow> nat \<Rightarrow> string \<times> nat" where
  "web_decode_loop v inlen i j =
     (if i < inlen then
        (case web_entity v i of (c, n) \<Rightarrow> web_decode_loop (v[j := c]) inlen (i + n + 1) (j + 1))
      else (v[j := NUL], j))"
  by pat_completeness auto
termination
  by (relation "measure (\<lambda>(v, inlen, i, j). inlen - i)") auto

text \<open>The macro \<^verbatim>\<open>URLDIG\<close>; \<open>None\<close> is its \<^verbatim>\<open>break\<close>.\<close>

definition URLDIG :: "char \<Rightarrow> int option" where
  "URLDIG x =
     (if 65 \<le> schar x \<and> schar x \<le> 70 then Some (schar x - 65 + 10)
      else if 97 \<le> schar x \<and> schar x \<le> 102 then Some (schar x - 97 + 10)
      else if 48 \<le> schar x \<and> schar x \<le> 57 then Some (schar x - 48)
      else None)"

function url_decode_loop :: "string \<Rightarrow> nat \<Rightarrow> nat \<Rightarrow> nat \<Rightarrow> string \<times> nat" where
  "url_decode_loop v inlen i j =
     (if i < inlen then
        (if cat v i = CHR ''%'' then
           (case URLDIG (cat v (i + 1)) of
              None \<Rightarrow> (v[j := NUL], j)
            | Some h \<Rightarrow>
                (case URLDIG (cat v (i + 2)) of
                   None \<Rightarrow> (v[j := NUL], j)
                 | Some l \<Rightarrow> url_decode_loop (v[j := char_store (h * 16 + l)]) inlen (i + 3) (j + 1)))
         else if cat v i = CHR ''+'' then url_decode_loop (v[j := CHR '' '']) inlen (i + 1) (j + 1)
         else url_decode_loop (v[j := cat v i]) inlen (i + 1) (j + 1))
      else (v[j := NUL], j))"
  by pat_completeness auto
termination
  by (relation "measure (\<lambda>(v, inlen, i, j). inlen - i)") auto

declare web_decode_loop.simps [simp del] url_decode_loop.simps [simp del]

text \<open>The buffer after the call, and the length that is returned.\<close>

definition vely_decode :: "enc_type \<Rightarrow> string \<Rightarrow> int \<Rightarrow> (string \<times> nat) res" where
  "vely_decode enc v inlen =
     (let n = (if inlen < 0 then length (takeWhile (\<lambda>c. c \<noteq> NUL) v) else nat inlen) in
      case enc of
        VV_WEB \<Rightarrow> Inr (web_decode_loop v n 0 0)
      | VV_URL \<Rightarrow> Inr (url_decode_loop v n 0 0)
      | VV_NOENC \<Rightarrow> Inl Assert_failed)"

section \<open>Hexadecimal\<close>

function hex2bin_loop :: "string \<Rightarrow> nat \<Rightarrow> nat \<Rightarrow> string" where
  "hex2bin_loop src ilen i =
     (if i < ilen then
        (case URLDIG (cat src i) of
           None \<Rightarrow> []
         | Some h \<Rightarrow>
             (case URLDIG (cat src (i + 1)) of
                None \<Rightarrow> []
              | Some l \<Rightarrow> char_store (push_bit 4 h + l) # hex2bin_loop src ilen (i + 2)))
      else [])"
  by pat_completeness auto
termination
  by (relation "measure (\<lambda>(src, ilen, i). ilen - i)") auto

declare hex2bin_loop.simps [simp del]

definition vely_hex2bin :: "string \<Rightarrow> int \<Rightarrow> string" where
  "vely_hex2bin src ilen =
     hex2bin_loop src (if ilen = -1 then length (takeWhile (\<lambda>c. c \<noteq> NUL) src) else nat ilen) 0"

definition VV_TO_HEX :: "int \<Rightarrow> char" where
  "VV_TO_HEX x = (if x \<le> 9 then char_store (48 + x) else char_store (97 - 10 + x))"

definition VV_HEX_FROM_BYTE :: "int \<Rightarrow> string" where
  "VV_HEX_FROM_BYTE x = [VV_TO_HEX (drop_bit 4 (x AND 0xF0)), VV_TO_HEX (x AND 0x0F)]"

fun bin2hex_loop :: "string \<Rightarrow> string" where
  "bin2hex_loop [] = []"
| "bin2hex_loop (c # cs) = VV_HEX_FROM_BYTE (schar c) @ bin2hex_loop cs"

definition vely_bin2hex :: "string \<Rightarrow> int \<Rightarrow> string option \<Rightarrow> string" where
  "vely_bin2hex src ilen pref =
     (case pref of None \<Rightarrow> [] | Some p \<Rightarrow> p)
     @ bin2hex_loop (if ilen = -1 then takeWhile (\<lambda>c. c \<noteq> NUL) src else take (nat ilen) src)"

section \<open>Numbers\<close>

definition in_num :: "int \<Rightarrow> bool" where
  "in_num x \<longleftrightarrow> - (2 ^ 63) \<le> x \<and> x < 2 ^ 63"

fun topower_loop :: "nat \<Rightarrow> int \<Rightarrow> int \<Rightarrow> int res" where
  "topower_loop 0 b res = Inr res"
| "topower_loop (Suc n) b res =
     (if in_num (res * b) then topower_loop n b (res * b) else Inl Signed_overflow)"

definition vely_topower :: "int \<Rightarrow> int \<Rightarrow> int res" where
  "vely_topower b p = topower_loop (nat p) b 1"

text \<open>The loop that fills \<open>mods\<close>, least significant digit first; \<open>a\<close> is not negative.\<close>

function num_mods :: "int \<Rightarrow> int \<Rightarrow> int list" where
  "num_mods a base =
     (if a > 0 \<and> base \<ge> 2 then a mod base # num_mods (a div base) base else [])"
  by pat_completeness auto
termination
  by (relation "measure (\<lambda>(a, base). nat a)") (auto intro: int_div_less_self)

declare num_mods.simps [simp del]

definition num_digits :: string where
  "num_digits = ''0123456789abcdefghijklmnopqrstuvwxyz''"

text \<open>
  The result is the string (\<open>None\<close> for \<^verbatim>\<open>NULL\<close>) and \<open>*res_len\<close>.  A \<^verbatim>\<open>num\<close> has 64 bits; the
  negation of the least one overflows.
\<close>

definition vely_num2str :: "int \<Rightarrow> int \<Rightarrow> (string option \<times> nat) res" where
  "vely_num2str al base =
     (if base < 2 \<or> base > 36 then Inr (None, 0)
      else if al = - (2 ^ 63) then Inl Signed_overflow
      else
        (let a = (if al < 0 then - al else al);
             mods = num_mods a base;
             len = (if al < 0 then 1 else 0) + (if al = 0 then 1 else length mods)
         in if al = 0 then Inr (Some ''0'', 1)
            else Inr (Some ((if al < 0 then ''-'' else []) @ map (\<lambda>m. num_digits ! nat m) (rev mods)), len)))"


section \<open>Decoding as a function of the remaining input\<close>

text \<open>
  The functional counterparts of the two loops: they read the input as a list and never
  look at the output.  Both loops agree with them because the write position never passes
  the read position (\<open>web_decode_in_place\<close>, \<open>url_decode_in_place\<close>).
\<close>

function web_dec :: "string \<Rightarrow> string" where
  "web_dec xs =
     (if xs = [] then []
      else (case web_entity xs 0 of (c, n) \<Rightarrow> c # web_dec (drop (n + 1) xs)))"
  by pat_completeness auto
termination
  by (relation "measure length") auto

fun url_dec :: "string \<Rightarrow> string" where
  "url_dec [] = []"
| "url_dec (c # cs) =
     (if c = CHR ''%'' then
        (case cs of
           a # b # ds \<Rightarrow>
             (case (URLDIG a, URLDIG b) of
                (Some h, Some l) \<Rightarrow> char_store (h * 16 + l) # url_dec ds
              | _ \<Rightarrow> [])
         | _ \<Rightarrow> [])
      else (if c = CHR ''+'' then CHR '' '' else c) # url_dec cs)"

declare web_dec.simps [simp del]

lemma web_dec_Nil [simp]: "web_dec [] = []"
  by (simp add: web_dec.simps)

lemma lit_at_drop: "lit_at (drop i v) k lit \<longleftrightarrow> lit_at v (i + k) lit"
  by (simp add: lit_at_def add.commute)

lemma web_entity_drop: "web_entity v i = web_entity (drop i v) 0"
  by (simp add: web_entity_def cat_drop lit_at_drop)

lemma lit_at_length: "lit_at xs k lit \<Longrightarrow> lit \<noteq> [] \<Longrightarrow> k + length lit \<le> length xs"
proof -
  assume "lit_at xs k lit" "lit \<noteq> []"
  then have "min (length xs - k) (length lit) = length lit" "0 < length lit"
    by (metis lit_at_def length_take length_drop min.commute) (simp add: \<open>lit \<noteq> []\<close>)
  then show ?thesis by linarith
qed

lemma lit_at_terminated:
  assumes "NUL \<notin> set lit" "lit \<noteq> []" "k \<le> length xs"
  shows "lit_at (xs @ NUL # r) k lit \<longleftrightarrow> lit_at xs k lit"
proof (cases "length lit \<le> length xs - k")
  case True
  then show ?thesis using assms(3) by (simp add: lit_at_def)
next
  case False
  then obtain m where "length lit - (length xs - k) = Suc m" by (metis Suc_diff_Suc not_le)
  then have "NUL \<in> set (take (length lit) (drop k (xs @ NUL # r)))"
    using assms(3) by simp
  then have "\<not> lit_at (xs @ NUL # r) k lit" using assms(1) unfolding lit_at_def by metis
  moreover have "\<not> lit_at xs k lit" using False lit_at_length assms(2,3) by fastforce
  ultimately show ?thesis by simp
qed

lemma web_entity_terminated: "xs \<noteq> [] \<Longrightarrow> web_entity (xs @ NUL # r) 0 = web_entity xs 0"
  by (simp add: web_entity_def lit_at_terminated cat_append Suc_le_eq del: append_Cons)

lemma web_entity_length: "web_entity xs 0 = (c, n) \<Longrightarrow> xs \<noteq> [] \<Longrightarrow> n < length xs"
  by (auto simp: web_entity_def split: if_splits dest!: lit_at_length)

text \<open>What both loops promise about the buffer they return.\<close>

definition decoded :: "string \<Rightarrow> nat \<Rightarrow> string \<Rightarrow> string \<times> nat \<Rightarrow> bool" where
  "decoded v j out r \<longleftrightarrow>
     take (snd r) (fst r) = take j v @ out \<and> snd r = j + length out
     \<and> cat (fst r) (snd r) = NUL \<and> length (fst r) = length v"

lemma decoded_step:
  assumes "decoded (v[j := c]) (j + 1) out r" "j < length v"
  shows "decoded v j (c # out) r"
  using assms by (auto simp: decoded_def take_Suc_conv_app_nth)

lemma decoded_stop: "j < length v \<Longrightarrow> decoded v j [] (v[j := NUL], j)"
  by (simp add: decoded_def)

lemma web_decode_in_place:
  assumes "drop i v = xs @ NUL # rest" "i + length xs = inlen" "j \<le> i"
  shows "decoded v j (web_dec xs) (web_decode_loop v inlen i j)"
  using assms
proof (induction v inlen i j arbitrary: xs rule: web_decode_loop.induct)
  case (1 v inlen i j)
  have len: "i + length xs < length v"
    using "1.prems"(1) by (metis add_Suc_right length_append length_Cons length_drop less_add_Suc1
        less_diff_conv add.commute)
  show ?case
  proof (cases "xs = []")
    case True
    then show ?thesis
      using "1.prems" len by (simp add: web_decode_loop.simps [of v] decoded_stop)
  next
    case False
    obtain c n where e: "web_entity xs 0 = (c, n)" by fastforce
    then have n: "n < length xs" using False web_entity_length by blast
    have ev: "web_entity v i = (c, n)"
      using e False by (simp add: web_entity_drop [of v i] "1.prems"(1) web_entity_terminated)
    have "drop (i + n + 1) v = drop (n + 1) (drop i v)" by (simp add: add.commute)
    then have "drop (i + n + 1) (v[j := c]) = drop (n + 1) xs @ NUL # rest"
      using "1.prems"(1,3) n by simp
    moreover have "(i + n + 1) + length (drop (n + 1) xs) = inlen"
      using n "1.prems"(2) by simp
    moreover have "i < inlen" using n "1.prems"(2) by simp
    ultimately have "decoded (v[j := c]) (j + 1) (web_dec (drop (n + 1) xs))
        (web_decode_loop (v[j := c]) inlen (i + n + 1) (j + 1))"
      using "1.IH" [OF _ ev [symmetric]] "1.prems"(3) by simp
    then show ?thesis
      using decoded_step ev e False \<open>i < inlen\<close> len "1.prems"(3)
      by (simp add: web_decode_loop.simps [of v] web_dec.simps [of xs])
  qed
qed

lemma URLDIG_NUL [simp]: "URLDIG NUL = None"
  by (simp add: URLDIG_def schar_def)

lemma drop_plus: "drop (i + k) v = drop k (drop i v)"
  by (simp add: add.commute)

lemma cat_plus: "cat v (i + k) = cat (drop i v) k"
  by (simp add: cat_drop)

lemma drop_non_empty: "drop i v = x # xs \<Longrightarrow> i < length v"
  by (metis drop_all list.distinct(1) not_le)

lemma url_decode_in_place:
  assumes "drop i v = xs @ NUL # rest" "i + length xs = inlen" "j \<le> i"
  shows "decoded v j (url_dec xs) (url_decode_loop v inlen i j)"
  using assms
proof (induction xs arbitrary: v i j rule: url_dec.induct)
  case (1 v i j)
  then have "i < length v" using drop_non_empty by fastforce
  then show ?case using 1 by (simp add: url_decode_loop.simps [of v] decoded_stop)
next
  case (2 c cs v i j)
  have len: "j < length v" using "2.prems"(1,3) drop_non_empty [of i v] by fastforce
  have c: "cat v i = c" using cat_plus [of v i 0] "2.prems"(1) by simp
  have at: "cat v (i + 1) = cat (cs @ NUL # rest) 0" "cat v (i + 2) = cat (cs @ NUL # rest) 1"
    using "2.prems"(1) cat_plus [of v i 1] cat_plus [of v i 2] by simp_all
  show ?case
  proof (cases "c = CHR ''%''")
    case False
    let ?d = "if c = CHR ''+'' then CHR '' '' else c"
    have "decoded (v[j := ?d]) (j + 1) (url_dec cs) (url_decode_loop (v[j := ?d]) inlen (i + 1) (j + 1))"
      using "2.prems" drop_plus [of i 1 v] by (intro "2.IH"(2) [OF False]) simp_all
    then show ?thesis
      using decoded_step [OF _ len] False "2.prems"(2)
      by (cases "c = CHR ''+''") (simp_all add: url_decode_loop.simps [of v] c)
  next
    case True
    consider a b ds h l where "cs = a # b # ds" "URLDIG a = Some h" "URLDIG b = Some l"
      | "url_dec (c # cs) = []" "URLDIG (cat v (i + 1)) = None \<or> URLDIG (cat v (i + 2)) = None"
      using True at by (cases cs; cases "tl cs"; cases "URLDIG (cat v (i + 1))";
          cases "URLDIG (cat v (i + 2))") auto
    then show ?thesis
    proof cases
      case 1
      let ?d = "char_store (h * 16 + l)"
      have "decoded (v[j := ?d]) (j + 1) (url_dec ds) (url_decode_loop (v[j := ?d]) inlen (i + 3) (j + 1))"
        using "2.prems" 1(1) drop_plus [of i 3 v]
        by (intro "2.IH"(1) [OF True 1(1) refl refl 1(2,3)]) (simp_all del: drop_drop)
      then show ?thesis
        using decoded_step [OF _ len] True "2.prems"(2) 1 at
        by (simp add: url_decode_loop.simps [of v] c)
    next
      case 2
      then show ?thesis
        using True "2.prems"(2) len
        by (auto simp: url_decode_loop.simps [of v] c decoded_stop split: option.splits)
    qed
  qed
qed

section \<open>Encoding and decoding as inverses\<close>

lemma web_decode_ok:
  "decoded (xs @ NUL # rest) 0 (web_dec xs) (web_decode_loop (xs @ NUL # rest) (length xs) 0 0)"
  by (rule web_decode_in_place) simp_all

lemma url_decode_ok:
  "decoded (xs @ NUL # rest) 0 (url_dec xs) (url_decode_loop (xs @ NUL # rest) (length xs) 0 0)"
  by (rule url_decode_in_place) simp_all

lemma takeWhile_all: "NUL \<notin> set xs \<Longrightarrow> takeWhile (\<lambda>c. c \<noteq> NUL) xs = xs"
  by (induction xs) auto

lemma takeWhile_terminated: "NUL \<notin> set xs \<Longrightarrow> takeWhile (\<lambda>c. c \<noteq> NUL) (xs @ NUL # rest) = xs"
  by (induction xs) auto

lemma web_entity_encoded: "c \<noteq> NUL \<Longrightarrow> web_entity (web_char c @ ys) 0 = (c, length (web_char c) - 1)"
  by (simp add: web_char_def web_entity_def lit_at_def)

lemma web_char_non_empty: "c \<noteq> NUL \<Longrightarrow> web_char c \<noteq> []"
  by (simp add: web_char_def)

lemma web_dec_encoded: "NUL \<notin> set s \<Longrightarrow> web_dec (encode_loop web_char s) = s"
proof (induction s)
  case (Cons c s)
  then have c: "c \<noteq> NUL" "NUL \<notin> set s" by auto
  then show ?case
    using Cons.IH web_char_non_empty [of c]
    by (subst web_dec.simps) (simp add: web_entity_encoded)
qed simp

lemma set_encode_loop: "set (encode_loop f s) = (\<Union>c\<in>set s. set (f c))"
  by (induction s) auto

lemma web_char_set: "x \<in> set (web_char c) \<Longrightarrow> x \<notin> {CHR ''<'', CHR ''>'', CHR 0x22, CHR 0x27, NUL}"
  by (auto simp: web_char_def split: if_splits)

lemma length_encode_loop: "(\<And>c. length (f c) \<le> k) \<Longrightarrow> length (encode_loop f s) \<le> length s * k"
  by (induction s) (simp_all add: add_mono)

text \<open>C30: web encoding and then decoding, in the buffer that holds the encoded text, gives any
  string without a zero byte back: the bytes, their number, and the terminating zero.\<close>

theorem web_roundtrip:
  assumes "NUL \<notin> set s" "vely_encode VV_WEB s (-1) = Inr e"
  shows "\<exists>buf. vely_decode VV_WEB (e @ NUL # rest) (-1) = Inr (buf, length s)
           \<and> take (length s) buf = s \<and> cat buf (length s) = NUL
           \<and> length buf = length (e @ NUL # rest)"
proof -
  have e: "e = encode_loop web_char s"
    using assms takeWhile_all by (simp add: vely_encode_def vely_encode_base_def)
  have "NUL \<notin> set e" using web_char_set by (auto simp: e set_encode_loop)
  then show ?thesis
    using web_decode_ok [of e rest] web_dec_encoded [OF assms(1)]
    by (cases "web_decode_loop (e @ NUL # rest) (length e) 0 0")
      (auto simp: vely_decode_def decoded_def takeWhile_terminated e)
qed

theorem web_roundtrip_witness:
  "\<exists>buf. vely_decode VV_WEB (''a&lt;&amp;b'' @ NUL # ''zz'') (-1) = Inr (buf, length ''a<&b'')
       \<and> take (length ''a<&b'') buf = ''a<&b'' \<and> cat buf (length ''a<&b'') = NUL
       \<and> length buf = length (''a&lt;&amp;b'' @ NUL # ''zz'')"
  by (rule web_roundtrip) (simp_all add: vely_encode_def vely_encode_base_def web_char_def)

text \<open>C31: web encoding makes text inert in HTML: of any input the output has no angle bracket,
  no quote and no zero byte, and every ampersand in it starts one of the five entities.\<close>

theorem web_encode_inert:
  assumes "vely_encode_base VV_WEB s = Inr e"
  shows "set e \<inter> {CHR ''<'', CHR ''>'', CHR 0x22, CHR 0x27, NUL} = {}
    \<and> {i. i < length e \<and> e ! i = CHR ''&''} \<subseteq> {i. snd (web_entity e i) > 0}"
proof -
  have e: "e = encode_loop web_char s" using assms by (simp add: vely_encode_base_def)
  have "i < length (encode_loop web_char s) \<Longrightarrow> encode_loop web_char s ! i = CHR ''&'' \<Longrightarrow>
      snd (web_entity (encode_loop web_char s) i) > 0" for i
  proof (induction s arbitrary: i)
    case (Cons c s)
    let ?w = "web_char c" and ?r = "encode_loop web_char s"
    show ?case
    proof (cases "length ?w \<le> i")
      case True
      then show ?thesis
        using Cons.prems Cons.IH [of "i - length ?w"] web_entity_drop [of "?w @ ?r" i]
          web_entity_drop [of ?r "i - length ?w"]
        by (simp add: nth_append)
    next
      case False
      then have "?w ! i = CHR ''&''" "i < length ?w" using Cons.prems by (simp_all add: nth_append)
      then have 1: "i = 0" "c \<in> {CHR ''&'', CHR ''<'', CHR ''>'', CHR 0x22, CHR 0x27}"
        by (auto simp: web_char_def nth_Cons' split: if_splits)
      then have "web_entity (?w @ ?r) 0 = (c, length ?w - 1)" "3 < length ?w"
        using web_entity_encoded [of c ?r] by (auto simp: web_char_def)
      then show ?thesis using 1 by simp
    qed
  qed simp
  then show ?thesis
    using web_char_set by (fastforce simp: e set_encode_loop)
qed

theorem web_encode_inert_witness:
  "set ''x&gt;'' \<inter> {CHR ''<'', CHR ''>'', CHR 0x22, CHR 0x27, NUL} = {}
    \<and> {i. i < length ''x&gt;'' \<and> ''x&gt;'' ! i = CHR ''&''} \<subseteq> {i. snd (web_entity ''x&gt;'' i) > 0}"
  by (rule web_encode_inert [of "''x>''"]) (simp add: vely_encode_base_def web_char_def)

text \<open>What either encoding writes, with its terminating zero, fits the buffer of
  \<open>VV_MAX_ENC_BLOWUP\<close> bytes that is allocated for it.\<close>

lemma encode_fits:
  assumes "vely_encode_base enc s = Inr e"
  shows "length e + 1 \<le> VV_MAX_ENC_BLOWUP (length s)"
proof -
  have "length (encode_loop web_char s) \<le> length s * 6" "length (encode_loop url_char s) \<le> length s * 6"
    by (rule length_encode_loop, simp add: web_char_def url_char_def)+
  then show ?thesis
    using assms by (cases enc) (auto simp: vely_encode_base_def VV_MAX_ENC_BLOWUP_def)
qed

lemma encode_fits_witness: "length ''a%20b'' + 1 \<le> VV_MAX_ENC_BLOWUP (length ''a b'')"
  by (rule encode_fits [of VV_URL]) code_simp

section \<open>URL encoding, hexadecimal and numbers\<close>

text \<open>What the decoder finds in the three bytes of an encoded character.\<close>

definition url_triple :: "string \<Rightarrow> char option" where
  "url_triple xs =
     (case xs of
        [p, a, b] \<Rightarrow>
          (if p = CHR ''%'' then
             (case (URLDIG a, URLDIG b) of
                (Some h, Some l) \<Rightarrow> Some (char_store (h * 16 + l)) | _ \<Rightarrow> None)
           else None)
      | _ \<Rightarrow> None)"

lemma url_char_ascii:
  assumes "uchar c < 128"
  shows "url_char c = [c] \<and> c \<notin> {CHR ''%'', CHR ''+''} \<or> url_triple (url_char c) = Some c"
proof -
  have "list_all (\<lambda>j. url_char (char_store j) = [char_store j]
      \<and> char_store j \<noteq> CHR ''%'' \<and> char_store j \<noteq> CHR ''+''
      \<or> url_triple (url_char (char_store j)) = Some (char_store j)) [0..127]"
    by code_simp
  from char_range_cases [OF this, of c] show ?thesis using assms by simp
qed

lemma url_char_high:
  assumes "128 \<le> uchar c"
  shows "length (url_char c) = 3 \<and> hd (url_char c) = CHR ''%'' \<and> url_triple (url_char c) = None"
proof -
  have "list_all (\<lambda>j. length (url_char (char_store j)) = 3 \<and> hd (url_char (char_store j)) = CHR ''%''
      \<and> url_triple (url_char (char_store j)) = None) [128..255]"
    by code_simp
  from char_range_cases [OF this, of c] show ?thesis using assms by simp
qed

lemma url_dec_triple:
  "url_triple xs = Some c \<Longrightarrow> url_dec (xs @ ys) = c # url_dec ys"
  "length xs = 3 \<Longrightarrow> hd xs = CHR ''%'' \<Longrightarrow> url_triple xs = None \<Longrightarrow> url_dec (xs @ ys) = []"
proof -
  assume "url_triple xs = Some c"
  then obtain a b h l where "xs = [CHR ''%'', a, b]" "URLDIG a = Some h" "URLDIG b = Some l"
      "c = char_store (h * 16 + l)"
    by (simp add: url_triple_def split: list.splits if_splits option.splits)
  then show "url_dec (xs @ ys) = c # url_dec ys" by simp
next
  assume "length xs = 3" "hd xs = CHR ''%''" "url_triple xs = None"
  then obtain a b where "xs = [CHR ''%'', a, b]" "URLDIG a = None \<or> URLDIG b = None"
    by (cases "URLDIG (xs ! 1)"; cases "URLDIG (xs ! 2)")
      (auto simp: url_triple_def numeral_3_eq_3 length_Suc_conv)
  then show "url_dec (xs @ ys) = []" by (auto split: option.split)
qed

lemma url_dec_ascii: "uchar c < 128 \<Longrightarrow> url_dec (url_char c @ ys) = c # url_dec ys"
  using url_char_ascii [of c] url_dec_triple(1) [of "url_char c" c ys]
  by (cases "url_triple (url_char c) = Some c") simp_all

lemma url_dec_high: "128 \<le> uchar c \<Longrightarrow> url_dec (url_char c @ ys) = []"
  using url_char_high [of c] url_dec_triple(2) by blast

lemma url_dec_encoded: "url_dec (encode_loop url_char s) = takeWhile (\<lambda>c. uchar c < 128) s"
  by (induction s) (simp_all add: url_dec_ascii url_dec_high)

lemma url_char_NUL: "NUL \<notin> set (url_char c)"
proof -
  have "list_all (\<lambda>j. NUL \<notin> set (url_char (char_store j))) [0..255]" by code_simp
  from char_range_cases [OF this, of c] show ?thesis by simp
qed

text \<open>URL encoding and then decoding in place gives back exactly the bytes before the first
  one above 127.  For ASCII text nothing is lost; a byte above 127 is written with digits
  computed by signed division, which no decoder reads, so the text ends there.\<close>

lemma url_roundtrip:
  assumes "vely_encode_base VV_URL s = Inr e"
  shows "\<exists>buf. vely_decode VV_URL (e @ NUL # rest) (-1)
             = Inr (buf, length (takeWhile (\<lambda>c. uchar c < 128) s))
           \<and> take (length (takeWhile (\<lambda>c. uchar c < 128) s)) buf = takeWhile (\<lambda>c. uchar c < 128) s
           \<and> length buf = length (e @ NUL # rest)"
proof -
  have e: "e = encode_loop url_char s" using assms by (simp add: vely_encode_base_def)
  have "NUL \<notin> set e" using url_char_NUL by (auto simp: e set_encode_loop)
  then show ?thesis
    using url_decode_ok [of e rest] url_dec_encoded [of s]
    by (cases "url_decode_loop (e @ NUL # rest) (length e) 0 0")
      (auto simp: vely_decode_def decoded_def takeWhile_terminated e)
qed

lemma url_roundtrip_witness:
  "\<exists>buf. vely_decode VV_URL (''a%2Fb'' @ NUL # []) (-1)
             = Inr (buf, length (takeWhile (\<lambda>c. uchar c < 128) ''a/b''))
           \<and> take (length (takeWhile (\<lambda>c. uchar c < 128) ''a/b'')) buf
               = takeWhile (\<lambda>c. uchar c < 128) ''a/b''
           \<and> length buf = length (''a%2Fb'' @ NUL # [])"
  by (rule url_roundtrip) code_simp

subsection \<open>Hexadecimal\<close>

definition hex_pair_value :: "string \<Rightarrow> char option" where
  "hex_pair_value xs =
     (case (URLDIG (xs ! 0), URLDIG (xs ! 1)) of
        (Some h, Some l) \<Rightarrow> Some (char_store (push_bit 4 h + l)) | _ \<Rightarrow> None)"

lemma hex_digits_of_byte:
  "VV_HEX_FROM_BYTE (schar c) = [VV_TO_HEX (uchar c div 16), VV_TO_HEX (uchar c mod 16)]"
proof -
  have "drop_bit 4 (uchar c AND 0xF0) = take_bit 4 (drop_bit 4 (uchar c))"
    by (simp add: take_bit_eq_mask mask_eq_exp_minus_1)
  moreover have "uchar c div 16 < 16" using uchar_less_256 [of c] by linarith
  ultimately have "drop_bit 4 (uchar c AND 0xF0) = uchar c div 16"
    by (simp add: drop_bit_eq_div take_bit_eq_mod pos_imp_zdiv_nonneg_iff)
  moreover have "uchar c AND 0x0F = uchar c mod 16"
    using take_bit_eq_mask [of 4 "uchar c"] by (simp add: take_bit_eq_mod mask_eq_exp_minus_1)
  ultimately show ?thesis by (simp add: VV_HEX_FROM_BYTE_def and_low8)
qed

lemma hex_digit:
  assumes "0 \<le> k" "k < 16"
  shows "URLDIG (VV_TO_HEX k) = Some k \<and> VV_TO_HEX k \<noteq> NUL"
proof -
  have "list_all (\<lambda>k. URLDIG (VV_TO_HEX k) = Some k \<and> VV_TO_HEX k \<noteq> NUL) [0..15]" by code_simp
  then have "\<forall>k\<in>{0..15}. URLDIG (VV_TO_HEX k) = Some k \<and> VV_TO_HEX k \<noteq> NUL"
    unfolding list_all_iff set_upto .
  then show ?thesis using assms by auto
qed

lemma hex_of_byte:
  "length (VV_HEX_FROM_BYTE (schar c)) = 2 \<and> hex_pair_value (VV_HEX_FROM_BYTE (schar c)) = Some c
     \<and> NUL \<notin> set (VV_HEX_FROM_BYTE (schar c))"
proof -
  have "uchar c div 16 < 16" using uchar_less_256 [of c] by linarith
  then have "URLDIG (VV_TO_HEX (uchar c div 16)) = Some (uchar c div 16) \<and> VV_TO_HEX (uchar c div 16) \<noteq> NUL"
    "URLDIG (VV_TO_HEX (uchar c mod 16)) = Some (uchar c mod 16) \<and> VV_TO_HEX (uchar c mod 16) \<noteq> NUL"
    by (auto simp: hex_digit pos_imp_zdiv_nonneg_iff)
  then show ?thesis by (auto simp: hex_digits_of_byte hex_pair_value_def push_bit_eq_mult)
qed

lemma length_bin2hex [simp]: "length (bin2hex_loop s) = 2 * length s"
  by (induction s) (simp_all add: hex_of_byte)

lemma bin2hex_NUL: "NUL \<notin> set (bin2hex_loop s)"
  by (induction s) (simp_all add: hex_of_byte)

lemma hex2bin_bin2hex:
  "hex2bin_loop (pre @ bin2hex_loop s) (length pre + 2 * length s) (length pre) = s"
proof (induction s arbitrary: pre)
  case (Cons c s)
  let ?h = "VV_HEX_FROM_BYTE (schar c)"
  obtain x y where xy: "?h = [x, y]"
    using hex_digits_of_byte by blast
  then obtain h l where d: "URLDIG x = Some h" "URLDIG y = Some l" "char_store (push_bit 4 h + l) = c"
    using hex_of_byte [of c] by (auto simp: hex_pair_value_def split: option.splits)
  have "hex2bin_loop ((pre @ ?h) @ bin2hex_loop s) (length (pre @ ?h) + 2 * length s) (length (pre @ ?h)) = s"
    by (rule Cons.IH)
  moreover have "cat (pre @ bin2hex_loop (c # s)) (length pre) = x"
    "cat (pre @ bin2hex_loop (c # s)) (length pre + 1) = y"
    by (simp_all add: xy cat_append)
  ultimately show ?case
    using d by (simp add: xy nth_append hex2bin_loop.simps [of _ _ "length pre"])
qed (simp add: hex2bin_loop.simps)

text \<open>Bytes written in hexadecimal by the runtime are read back as the same bytes, given
  the length or, since the text has no zero byte, without it.\<close>

lemma hex_roundtrip:
  "vely_hex2bin (vely_bin2hex s (int (length s)) None) (int (2 * length s)) = s
   \<and> vely_hex2bin (vely_bin2hex s (int (length s)) None) (-1) = s"
  using hex2bin_bin2hex [of "[]" s]
  by (simp add: vely_hex2bin_def vely_bin2hex_def takeWhile_all bin2hex_NUL nat_mult_distrib)

subsection \<open>Numbers in a base\<close>

text \<open>Reading a number back: the reference for \<open>vely_num2str\<close>.\<close>

definition digit_index :: "char \<Rightarrow> int" where
  "digit_index c = int (length (takeWhile (\<lambda>d. d \<noteq> c) num_digits))"

definition read_digits :: "int \<Rightarrow> string \<Rightarrow> int" where
  "read_digits base ds = foldl (\<lambda>acc c. acc * base + digit_index c) 0 ds"

definition read_number :: "int \<Rightarrow> string \<Rightarrow> int" where
  "read_number base s =
     (case s of c # ds \<Rightarrow> if c = CHR ''-'' then - read_digits base ds else read_digits base s
      | [] \<Rightarrow> 0)"

lemma digit_index_nth:
  assumes "0 \<le> m" "m < 36"
  shows "digit_index (num_digits ! nat m) = m \<and> num_digits ! nat m \<noteq> CHR ''-''
    \<and> (num_digits ! nat m = CHR ''0'' \<longrightarrow> m = 0)"
proof -
  have "list_all (\<lambda>m. digit_index (num_digits ! nat m) = m \<and> num_digits ! nat m \<noteq> CHR ''-''
    \<and> (num_digits ! nat m = CHR ''0'' \<longrightarrow> m = 0)) [0..35]"
    by code_simp
  then have "\<forall>m\<in>{0..35}. digit_index (num_digits ! nat m) = m \<and> num_digits ! nat m \<noteq> CHR ''-''
    \<and> (num_digits ! nat m = CHR ''0'' \<longrightarrow> m = 0)"
    unfolding list_all_iff set_upto .
  then show ?thesis using assms by auto
qed

text \<open>A power that fits 64 bits, with every smaller one, is computed.\<close>

lemma topower_loop_power:
  "(\<And>i. i \<le> n \<Longrightarrow> in_num (r * b ^ i)) \<Longrightarrow> topower_loop n b r = Inr (r * b ^ n)"
proof (induction n arbitrary: r)
  case (Suc n)
  have "topower_loop n b (r * b) = Inr (r * b * b ^ n)"
    using Suc.prems [of "Suc i" for i] by (intro Suc.IH) (simp add: mult.assoc)
  then show ?case using Suc.prems [of 1] by (simp add: mult.assoc)
qed simp

lemma vely_topower_power: "(\<And>i. i \<le> n \<Longrightarrow> in_num (b ^ i)) \<Longrightarrow> vely_topower b (int n) = Inr (b ^ n)"
  using topower_loop_power [of n 1 b] by (simp add: vely_topower_def)

lemma mods_range: "d \<in> set (num_mods a base) \<Longrightarrow> 0 \<le> d \<and> d < base"
  by (induction a base rule: num_mods.induct) (subst (asm) num_mods.simps, auto split: if_splits)

lemma mods_value:
  "0 \<le> a \<Longrightarrow> 2 \<le> base \<Longrightarrow> foldr (\<lambda>d acc. acc * base + d) (num_mods a base) 0 = a"
  by (induction a base rule: num_mods.induct) (subst num_mods.simps, auto simp: pos_imp_zdiv_nonneg_iff)

lemma mods_length: "a < 2 ^ n \<Longrightarrow> 2 \<le> base \<Longrightarrow> length (num_mods a base) \<le> n"
proof (induction n arbitrary: a)
  case 0
  then show ?case by (simp add: num_mods.simps)
next
  case (Suc n)
  have "a div base < 2 ^ n" if "0 < a"
  proof -
    have "a div base \<le> a div 2" using Suc.prems that by (intro zdiv_mono2) auto
    also have "\<dots> < 2 ^ n" using Suc.prems by simp
    finally show ?thesis .
  qed
  then show ?case using Suc.IH Suc.prems by (subst num_mods.simps) auto
qed

lemma mods_last: "0 < a \<Longrightarrow> 2 \<le> base \<Longrightarrow> num_mods a base \<noteq> [] \<and> last (num_mods a base) \<noteq> 0"
proof (induction a base rule: num_mods.induct)
  case (1 a base)
  show ?case
  proof (cases "a div base > 0")
    case True
    then show ?thesis using 1 by (subst (1 2) num_mods.simps) auto
  next
    case False
    then have "num_mods (a div base) base = []" "a mod base = a"
      using 1 by (simp_all add: num_mods.simps [of 0] num_mods.simps [of "a div base"] pos_imp_zdiv_pos_iff)
    then show ?thesis using 1 by (subst (1 2) num_mods.simps) auto
  qed
qed

lemma read_digits_mods:
  assumes "0 \<le> a" "2 \<le> base" "base \<le> 36"
  shows "read_digits base (map (\<lambda>m. num_digits ! nat m) (rev (num_mods a base))) = a"
proof -
  have "foldr (\<lambda>d acc. acc * base + digit_index (num_digits ! nat d)) ms 0
      = foldr (\<lambda>d acc. acc * base + d) ms 0" if "\<forall>d\<in>set ms. 0 \<le> d \<and> d < base" for ms
    using that assms by (induction ms) (simp_all add: digit_index_nth)
  then have "foldr (\<lambda>d acc. acc * base + digit_index (num_digits ! nat d)) (num_mods a base) 0 = a"
    using mods_range mods_value assms by metis
  then show ?thesis by (simp add: read_digits_def foldl_conv_foldr foldr_map o_def rev_map)
qed

lemma num2str_digits:
  assumes "0 < a" "2 \<le> base" "base \<le> 36"
  shows "\<exists>c ds. map (\<lambda>m. num_digits ! nat m) (rev (num_mods a base)) = c # ds
           \<and> c \<noteq> CHR ''-'' \<and> c \<noteq> CHR ''0''"
proof -
  let ?m = "num_mods a base"
  have "?m \<noteq> []" "last ?m \<noteq> 0" using mods_last assms by simp_all
  moreover from this have "0 \<le> last ?m \<and> last ?m < 36"
    using mods_range [of "last ?m" a base] assms by force
  ultimately show ?thesis
    using digit_index_nth [of "last ?m"] by (cases ?m rule: rev_cases) auto
qed

text \<open>For every 64-bit number but the least and every base from 2 to 36, the text that
  \<open>vely_num2str\<close> builds reads back as the number, it has no leading zero, its length is the
  one reported, and it fits the 70 bytes of the routine's digit buffer; outside of these
  bases there is no result.\<close>

lemma num2str_roundtrip:
  assumes "\<bar>al\<bar> < 2 ^ 63"
  shows "if 2 \<le> base \<and> base \<le> 36
    then \<exists>s. vely_num2str al base = Inr (Some s, length s) \<and> read_number base s = al
           \<and> length s \<le> 64 \<and> (al \<noteq> 0 \<longrightarrow> hd (if al < 0 then tl s else s) \<noteq> CHR ''0'')
    else vely_num2str al base = Inr (None, 0)"
proof (cases "2 \<le> base \<and> base \<le> 36")
  case True
  let ?s = "map (\<lambda>m. num_digits ! nat m) (rev (num_mods \<bar>al\<bar> base))"
  have l: "length ?s \<le> 63" using mods_length [of "\<bar>al\<bar>" 63 base] assms True by simp
  have v: "read_digits base ?s = \<bar>al\<bar>" using read_digits_mods [of "\<bar>al\<bar>" base] True by simp
  consider "al = 0" | "0 < al" | "al < 0" by linarith
  then show ?thesis
  proof cases
    case 1
    have "digit_index (CHR ''0'') = 0" by code_simp
    then show ?thesis using 1 True by (simp add: vely_num2str_def read_number_def read_digits_def)
  next
    case 2
    then obtain c ds where "?s = c # ds" "c \<noteq> CHR ''-''" "c \<noteq> CHR ''0''"
      using num2str_digits [of "\<bar>al\<bar>" base] True by auto
    moreover have "vely_num2str al base = Inr (Some ?s, length ?s)"
      using 2 True by (simp add: vely_num2str_def Let_def)
    ultimately show ?thesis using 2 True l v by (simp add: read_number_def)
  next
    case 3
    then obtain c ds where "?s = c # ds" "c \<noteq> CHR ''0''"
      using num2str_digits [of "\<bar>al\<bar>" base] True by auto
    moreover have "vely_num2str al base = Inr (Some (CHR ''-'' # ?s), length (CHR ''-'' # ?s))"
      using 3 True assms by (simp add: vely_num2str_def Let_def)
    ultimately show ?thesis using 3 True l v by (simp add: read_number_def)
  qed
next
  case False
  then show ?thesis by (auto simp: vely_num2str_def)
qed

lemma num2str_roundtrip_witness:
  "if 2 \<le> (16::int) \<and> (16::int) \<le> 36
    then \<exists>s. vely_num2str (-255) 16 = Inr (Some s, length s) \<and> read_number 16 s = -255
           \<and> length s \<le> 64 \<and> (-255 \<noteq> (0::int) \<longrightarrow> hd (if -255 < (0::int) then tl s else s) \<noteq> CHR ''0'')
    else vely_num2str (-255) 16 = Inr (None, 0)"
  by (rule num2str_roundtrip) simp

end
