(* ===== verification/Strings.thy ===== *)
theory Strings
  imports Codec
begin

text \<open>
  The string routines of the runtime (velyrtc.c, velyrt.c): counting and replacing
  substrings, trimming, case, and the checks on names and numbers.  Routines that work in
  place are given the whole buffer, and a write outside it would be a fault.
\<close>

section \<open>Searching\<close>

text \<open>\<^verbatim>\<open>strstr\<close> and \<^verbatim>\<open>strcasestr\<close>: the offset of the first occurrence.\<close>

definition same_char :: "bool \<Rightarrow> char \<Rightarrow> char \<Rightarrow> bool" where
  "same_char cs a b \<longleftrightarrow> (if cs then a = b else tolower a = tolower b)"

fun starts :: "bool \<Rightarrow> string \<Rightarrow> string \<Rightarrow> bool" where
  "starts cs s [] = True"
| "starts cs [] (f # fs) = False"
| "starts cs (c # s) (f # fs) \<longleftrightarrow> same_char cs c f \<and> starts cs s fs"

fun find_str :: "bool \<Rightarrow> string \<Rightarrow> string \<Rightarrow> nat option" where
  "find_str cs [] f = (if f = [] then Some 0 else None)"
| "find_str cs (c # s) f =
     (if starts cs (c # s) f then Some 0 else map_option Suc (find_str cs s f))"

lemma starts_length: "starts cs s f \<Longrightarrow> length f \<le> length s"
  by (induction cs s f rule: starts.induct) auto

lemma find_str_bound: "find_str cs s f = Some k \<Longrightarrow> k + length f \<le> length s"
  by (induction s arbitrary: k) (auto dest: starts_length split: if_splits)

lemma find_str_progress:
  "find_str cs s f = Some k \<Longrightarrow> f \<noteq> [] \<Longrightarrow> length s - (k + length f) < length s"
  using find_str_bound [of cs s f k] by (cases f) auto

function count_loop :: "bool \<Rightarrow> string \<Rightarrow> string \<Rightarrow> nat" where
  "count_loop cs tmp f =
     (if f = [] then 0
      else case find_str cs tmp f of
        None \<Rightarrow> 0
      | Some k \<Rightarrow> 1 + count_loop cs (drop (k + length f) tmp) f)"
  by pat_completeness auto
termination
  by (relation "measure (\<lambda>(cs, tmp, f). length tmp)") (auto dest: find_str_progress)

declare count_loop.simps [simp del]

definition vely_count_substring :: "string \<Rightarrow> string option \<Rightarrow> int \<Rightarrow> nat" where
  "vely_count_substring str fnd case_sensitive =
     (case fnd of
        None \<Rightarrow> 0
      | Some f \<Rightarrow> if f = [] then 0 else count_loop (case_sensitive = 1) str f)"

section \<open>Replacing in place\<close>

text \<open>
  The loop of \<^verbatim>\<open>vely_replace_string\<close> over the buffer \<open>buf\<close>, with the variables \<open>len\<close>,
  \<open>currsize\<close>, \<open>cur\<close> and \<open>*last\<close>.  It may not end (an empty string replaced by an empty
  string), so it is a partial function whose value is then \<open>None\<close>.  The result is the
  buffer, the returned number and \<open>*last\<close>.
\<close>

partial_function (option) replace_loop ::
  "bool \<Rightarrow> bool \<Rightarrow> int \<Rightarrow> string \<Rightarrow> string \<Rightarrow> string \<Rightarrow> nat \<Rightarrow> int \<Rightarrow> nat \<Rightarrow> nat option
     \<Rightarrow> (string \<times> int \<times> nat option) res option" where
  "replace_loop cs all strsize fnd subst buf len currsize cur lst =
     (case find_str cs (cstr (drop cur buf)) fnd of
        None \<Rightarrow> Some (Inr (buf, int len, lst))
      | Some k \<Rightarrow>
          (let f = cur + k; currsize' = currsize - int (length fnd) + int (length subst) in
           if currsize' > strsize then Some (Inr (buf, -1, lst))
           else case memmove buf (f + length subst) (f + length fnd) (len - (f + length fnd) + 1) of
             Inl e \<Rightarrow> Some (Inl e)
           | Inr buf1 \<Rightarrow>
               (case memput buf1 f subst of
                  Inl e \<Rightarrow> Some (Inl e)
                | Inr buf2 \<Rightarrow>
                    (let len' = len - length fnd + length subst; cur' = f + length subst in
                     if \<not> all then Some (Inr (buf2, int len', Some cur'))
                     else replace_loop cs all strsize fnd subst buf2 len' currsize' cur' (Some cur')))))"

definition vely_replace_string ::
  "string \<Rightarrow> int \<Rightarrow> string \<Rightarrow> string \<Rightarrow> int \<Rightarrow> int \<Rightarrow> (string \<times> int \<times> nat option) res option" where
  "vely_replace_string buf strsize fnd subst all case_sensitive =
     (let len = length (cstr buf) in
      replace_loop (case_sensitive = 1) (all \<noteq> 0) strsize fnd subst buf len (int len + 1) 0 None)"

section \<open>Trimming in place\<close>

function skip_spaces :: "string \<Rightarrow> nat \<Rightarrow> nat" where
  "skip_spaces buf i = (if isspace (cat buf i) then skip_spaces buf (i + 1) else i)"
  by pat_completeness auto
termination
  by (relation "measure (\<lambda>(buf, i). length buf - i)") (auto simp: cat_def split: if_splits)

declare skip_spaces.simps [simp del]

text \<open>The backward loop; its second argument is the index of the code plus one.\<close>

fun back_spaces :: "string \<Rightarrow> nat \<Rightarrow> nat \<Rightarrow> nat" where
  "back_spaces buf lo 0 = 0"
| "back_spaces buf lo (Suc e) =
     (if e \<ge> lo \<and> isspace (cat buf e) then back_spaces buf lo e else Suc e)"

definition vely_trim :: "string \<Rightarrow> nat \<Rightarrow> (string \<times> nat) res" where
  "vely_trim buf len =
     (let i = skip_spaces buf 0 in
      res_bind (if i \<noteq> 0 then memmove buf 0 i (len - i + 1) else Inr buf) (\<lambda>buf1.
        let e = back_spaces buf1 0 (len - i) in
        res_bind (memput buf1 e [NUL]) (\<lambda>buf2. Inr (buf2, e))))"

text \<open>\<^verbatim>\<open>vely_trim_ptr\<close> returns a pointer into the buffer, here the offset \<open>s\<close>.\<close>

definition vely_trim_ptr :: "string \<Rightarrow> nat \<Rightarrow> (string \<times> nat \<times> nat) res" where
  "vely_trim_ptr buf len =
     (let s = skip_spaces buf 0; e = back_spaces buf s len in
      res_bind (memput buf e [NUL]) (\<lambda>buf1. Inr (buf1, s, len - s - (len - e))))"

section \<open>Case, copies, names\<close>

fun vely_upper :: "string \<Rightarrow> string" where
  "vely_upper [] = []"
| "vely_upper (c # s) = (if c = NUL then c # s else toupper c # vely_upper s)"

fun vely_lower :: "string \<Rightarrow> string" where
  "vely_lower [] = []"
| "vely_lower (c # s) = (if c = NUL then c # s else tolower c # vely_lower s)"

text \<open>A \<open>max_len\<close> below one makes the size of the copy negative.\<close>

definition vely_strncpy :: "string \<Rightarrow> string \<Rightarrow> int \<Rightarrow> (string \<times> int) res" where
  "vely_strncpy dest src max_len =
     (let len = int (length src) in
      if len < max_len then res_bind (memput dest 0 (src @ [NUL])) (\<lambda>d. Inr (d, len))
      else if max_len < 1 then Inl Out_of_bounds
      else res_bind (memput dest 0 (take (nat (max_len - 1)) src)) (\<lambda>d.
             res_bind (memput d (nat (max_len - 1)) [NUL]) (\<lambda>d'. Inr (d', max_len - 1))))"

fun valid_name_loop :: "bool \<Rightarrow> string \<Rightarrow> bool" where
  "valid_name_loop hyphen [] = True"
| "valid_name_loop hyphen (c # s) =
     (if \<not> isalnum c \<and> c \<noteq> CHR ''_'' \<and> (\<not> hyphen \<or> c \<noteq> CHR ''-'') then False
      else valid_name_loop hyphen s)"

definition vely_is_valid_param_name :: "string \<Rightarrow> bool \<Rightarrow> bool" where
  "vely_is_valid_param_name name hyphen =
     (if \<not> isalpha (cat name 0) \<and> cat name 0 \<noteq> CHR ''_'' then False
      else valid_name_loop hyphen name)"

definition vely_web_name :: "string \<Rightarrow> string" where
  "vely_web_name url =
     (case find_str True url ''://'' of
        None \<Rightarrow> []
      | Some p \<Rightarrow> takeWhile (\<lambda>c. c \<noteq> CHR ''/'') (drop (p + 3) url))"

text \<open>The name of the environment variable; the environment is an argument.\<close>

definition vely_getheader :: "(string \<Rightarrow> string) \<Rightarrow> string \<Rightarrow> string" where
  "vely_getheader vely_getenv h =
     vely_getenv (''HTTP_'' @ map (\<lambda>c. if c = CHR ''-'' then CHR ''_'' else c) (vely_upper h))"

section \<open>Numbers\<close>

record number_scan =
  dot_pos :: nat
  sign :: bool
  positive :: bool

text \<open>The loop of \<^verbatim>\<open>vely_is_number\<close>: \<open>Inl\<close> is its \<^verbatim>\<open>return 0\<close>, with \<open>*positive\<close>.\<close>

fun number_loop :: "string \<Rightarrow> nat \<Rightarrow> number_scan \<Rightarrow> bool + nat \<times> number_scan" where
  "number_loop [] i st = Inr (i, st)"
| "number_loop (c # s) i st =
     (if isspace c then number_loop s (i + 1) st
      else if \<not> isdigit c then
        (if c = CHR ''+'' \<or> c = CHR ''-'' then
           (if i \<noteq> 0 then Inl (positive st)
            else number_loop s (i + 1)
              (st\<lparr>sign := True, positive := (if c = CHR ''-'' then False else positive st)\<rparr>))
         else if c = CHR ''.'' \<and> i > 0 then
           (if dot_pos st > 0 then Inl (positive st)
            else number_loop s (i + 1) (st\<lparr>dot_pos := i\<rparr>))
         else Inl (positive st))
      else number_loop s (i + 1) st)"

text \<open>The returned number, \<open>*prec\<close>, \<open>*scale\<close> and \<open>*positive\<close>.\<close>

definition vely_is_number :: "string \<Rightarrow> bool \<times> nat \<times> nat \<times> bool" where
  "vely_is_number s =
     (case number_loop s 0 \<lparr>dot_pos = 0, sign = False, positive = True\<rparr> of
        Inl p \<Rightarrow> (False, 0, 0, p)
      | Inr (i, st) \<Rightarrow>
          (let c_scale = i - dot_pos st - 1 in
           if dot_pos st > 0 \<and> c_scale = 0 then (False, 0, 0, positive st)
           else
             (let scale = (if dot_pos st > 0 then c_scale else 0);
                  i1 = (if dot_pos st > 0 then i - 1 else i);
                  i2 = (if sign st then i1 - 1 else i1)
              in (i2 \<noteq> 0, i2, scale, positive st))))"

fun vely_is_positive_num :: "string \<Rightarrow> bool" where
  "vely_is_positive_num [] = True"
| "vely_is_positive_num (c # s) = (if \<not> isdigit c then False else vely_is_positive_num s)"

section \<open>Replacing: the reference\<close>

text \<open>Every occurrence from the left, not overlapping, replaced in a string.\<close>

function replace_all :: "bool \<Rightarrow> string \<Rightarrow> string \<Rightarrow> string \<Rightarrow> string" where
  "replace_all cs f t s =
     (if f = [] then s
      else case find_str cs s f of
        None \<Rightarrow> s
      | Some k \<Rightarrow> take k s @ t @ replace_all cs f t (drop (k + length f) s))"
  by pat_completeness auto
termination
  by (relation "measure (\<lambda>(cs, f, t, s). length s)") (auto dest: find_str_progress)

declare replace_all.simps [simp del]

lemma replace_all_None: "find_str cs s f = None \<Longrightarrow> replace_all cs f t s = s"
  by (simp add: replace_all.simps)

lemma replace_all_Some:
  "find_str cs s f = Some k \<Longrightarrow> f \<noteq> [] \<Longrightarrow>
     replace_all cs f t s = take k s @ t @ replace_all cs f t (drop (k + length f) s)"
  by (simp add: replace_all.simps [of cs f t s])

lemma replace_all_longer: "length f \<le> length t \<Longrightarrow> length s \<le> length (replace_all cs f t s)"
proof (induction cs f t s rule: replace_all.induct)
  case (1 cs f t s)
  show ?case
  proof (cases "f = [] \<or> find_str cs s f = None")
    case True
    then show ?thesis by (auto simp: replace_all.simps)
  next
    case False
    then obtain k where k: "find_str cs s f = Some k" "f \<noteq> []" by auto
    then have "length (drop (k + length f) s) \<le> length (replace_all cs f t (drop (k + length f) s))"
      using 1 by simp
    then show ?thesis
      using find_str_bound [OF k(1)] "1.prems" by (simp add: replace_all_Some [OF k])
  qed
qed

lemma replace_all_NUL: "NUL \<notin> set s \<Longrightarrow> NUL \<notin> set t \<Longrightarrow> NUL \<notin> set (replace_all cs f t s)"
proof (induction cs f t s rule: replace_all.induct)
  case (1 cs f t s)
  then show ?case
    by (subst replace_all.simps) (auto split: option.split dest: in_set_takeD in_set_dropD)
qed

section \<open>One turn of the loop\<close>

text \<open>The state of the loop over a buffer: \<open>pre\<close> is done, \<open>s\<close> remains.\<close>

definition replace_inv :: "string \<Rightarrow> string \<Rightarrow> string \<Rightarrow> nat \<Rightarrow> int \<Rightarrow> nat \<Rightarrow> bool" where
  "replace_inv buf pre s len currsize cur \<longleftrightarrow>
     (\<exists>rest. buf = pre @ s @ NUL # rest) \<and> NUL \<notin> set s \<and> len = length pre + length s
     \<and> currsize = int len + 1 \<and> cur = length pre"

lemma replace_inv_cstr: "replace_inv buf pre s len currsize cur \<Longrightarrow> cstr (drop cur buf) = s"
  by (auto simp: replace_inv_def)

lemma replace_moves:
  assumes inv: "replace_inv buf pre s len currsize cur"
    and k: "k + length f \<le> length s"
    and fits: "currsize - int (length f) + int (length t) \<le> int (length buf)"
  shows "\<exists>buf1 buf2.
      memmove buf (cur + k + length t) (cur + k + length f) (len - (cur + k + length f) + 1) = Inr buf1
    \<and> memput buf1 (cur + k) t = Inr buf2 \<and> length buf2 = length buf
    \<and> replace_inv buf2 (pre @ take k s @ t) (drop (k + length f) s)
        (len - length f + length t) (currsize - int (length f) + int (length t)) (cur + k + length t)"
proof -
  obtain rest where b: "buf = pre @ s @ NUL # rest" and s: "NUL \<notin> set s"
    and v: "len = length pre + length s" "currsize = int len + 1" "cur = length pre"
    using inv by (auto simp: replace_inv_def)
  let ?d = "cur + k + length t" and ?s2 = "drop (k + length f) s"
  let ?n = "len - (cur + k + length f) + 1"
  have n: "?n = length ?s2 + 1" using k v by simp
  have room: "?d + ?n \<le> length buf" using fits k v n by (simp add: b)
  have src: "take ?n (drop (cur + k + length f) buf) = ?s2 @ [NUL]"
    using k by (simp add: n b v)
  let ?b1 = "take ?d buf @ (?s2 @ [NUL]) @ drop (?d + ?n) buf"
  have 1: "memmove buf ?d (cur + k + length f) ?n = Inr ?b1"
    using room k v n by (simp add: memmove_def memput_def src b)
  let ?b2 = "(pre @ take k s) @ t @ ?s2 @ NUL # drop (?d + ?n) buf"
  have "take (cur + k) ?b1 = pre @ take k s"
    using room k by (simp add: b v)
  moreover have "drop ?d ?b1 = ?s2 @ NUL # drop (?d + ?n) buf"
    using room by (simp only: drop_append) simp
  ultimately have 2: "memput ?b1 (cur + k) t = Inr ?b2"
    using room by (simp add: memput_def n)
  have "length ?b2 = length buf"
    using room k n by (simp add: v)
  moreover have "replace_inv ?b2 (pre @ take k s @ t) ?s2 (len - length f + length t)
      (currsize - int (length f) + int (length t)) ?d"
    using s k v by (auto simp: replace_inv_def dest: in_set_dropD)
  ultimately show ?thesis using 1 2 by blast
qed

lemma replace_loop_None:
  "replace_inv buf pre s len currsize cur \<Longrightarrow> find_str cs s f = None \<Longrightarrow>
     replace_loop cs al strsize f t buf len currsize cur lst = Some (Inr (buf, int len, lst))"
  by (simp add: replace_loop.simps [of cs al] replace_inv_cstr)

lemma replace_loop_full:
  "replace_inv buf pre s len currsize cur \<Longrightarrow> find_str cs s f = Some k \<Longrightarrow>
     strsize < currsize - int (length f) + int (length t) \<Longrightarrow>
     replace_loop cs al strsize f t buf len currsize cur lst = Some (Inr (buf, -1, lst))"
  by (simp add: replace_loop.simps [of cs al] replace_inv_cstr Let_def)

lemma replace_loop_step:
  assumes inv: "replace_inv buf pre s len currsize cur" and k: "find_str cs s f = Some k"
    and fits: "currsize - int (length f) + int (length t) \<le> strsize" "strsize \<le> int (length buf)"
  obtains buf2 where "length buf2 = length buf"
    and "replace_inv buf2 (pre @ take k s @ t) (drop (k + length f) s)
        (len - length f + length t) (currsize - int (length f) + int (length t)) (cur + k + length t)"
    and "replace_loop cs al strsize f t buf len currsize cur lst =
      (if \<not> al then Some (Inr (buf2, int (len - length f + length t), Some (cur + k + length t)))
       else replace_loop cs al strsize f t buf2 (len - length f + length t)
         (currsize - int (length f) + int (length t)) (cur + k + length t) (Some (cur + k + length t)))"
proof -
  obtain buf1 buf2 where m:
      "memmove buf (cur + k + length t) (cur + k + length f) (len - (cur + k + length f) + 1) = Inr buf1"
      "memput buf1 (cur + k) t = Inr buf2"
    and r: "length buf2 = length buf"
      "replace_inv buf2 (pre @ take k s @ t) (drop (k + length f) s)
        (len - length f + length t) (currsize - int (length f) + int (length t)) (cur + k + length t)"
    using replace_moves [OF inv find_str_bound [OF k], of t] fits by auto
  have "replace_loop cs al strsize f t buf len currsize cur lst =
      (if \<not> al then Some (Inr (buf2, int (len - length f + length t), Some (cur + k + length t)))
       else replace_loop cs al strsize f t buf2 (len - length f + length t)
         (currsize - int (length f) + int (length t)) (cur + k + length t) (Some (cur + k + length t)))"
    by (subst replace_loop.simps)
      (simp only: replace_inv_cstr [OF inv] k Let_def m option.case sum.case not_less [THEN iffD2, OF fits(1)]
        if_False)
  then show ?thesis using that r by blast
qed

text \<open>What the loop leaves: a terminated string of the buffer, within \<open>strsize\<close>.\<close>

definition replace_ok :: "string \<Rightarrow> int \<Rightarrow> (string \<times> int \<times> nat option) res \<Rightarrow> bool" where
  "replace_ok buf strsize r \<longleftrightarrow>
     (\<exists>buf' n lst p s. r = Inr (buf', n, lst) \<and> length buf' = length buf
        \<and> replace_inv buf' p s (length p + length s) (int (length p + length s) + 1) (length p)
        \<and> int (length p + length s) + 1 \<le> strsize \<and> (n = -1 \<or> n = int (length p + length s)))"

lemma replace_ok_start:
  "replace_inv buf pre s len currsize cur \<Longrightarrow> currsize \<le> strsize \<Longrightarrow>
     n = -1 \<or> n = int len \<Longrightarrow> replace_ok buf strsize (Inr (buf, n, lst))"
  unfolding replace_ok_def
  by (intro exI [of _ buf] exI [of _ n] exI [of _ lst] exI [of _ pre] exI [of _ s])
    (auto simp: replace_inv_def)

lemma replace_ok_length: "length buf' = length buf \<Longrightarrow> replace_ok buf' strsize = replace_ok buf strsize"
  by (rule ext) (simp add: replace_ok_def)

lemma replace_loop_safe:
  assumes "\<not> (f = [] \<and> t = [] \<and> al)"
    and "replace_inv buf pre s len currsize cur" "currsize \<le> strsize" "strsize \<le> int (length buf)"
  shows "\<exists>r. replace_loop cs al strsize f t buf len currsize cur lst = Some r \<and> replace_ok buf strsize r"
  using assms
proof (induction "length s + (if f = [] then nat (strsize - currsize) else 0)"
    arbitrary: buf pre s len currsize cur lst rule: less_induct)
  case less
  note inv = less.prems(2)
  show ?case
  proof (cases "find_str cs s f")
    case None
    then show ?thesis using replace_loop_None [OF inv] replace_ok_start [OF inv] less.prems by auto
  next
    case (Some k)
    let ?cs = "currsize - int (length f) + int (length t)"
    show ?thesis
    proof (cases "strsize < ?cs")
      case True
      then show ?thesis
        using replace_loop_full [OF inv Some] replace_ok_start [OF inv] less.prems by auto
    next
      case False
      then obtain buf2 where b: "length buf2 = length buf"
          "replace_inv buf2 (pre @ take k s @ t) (drop (k + length f) s)
            (len - length f + length t) ?cs (cur + k + length t)"
        and e: "replace_loop cs al strsize f t buf len currsize cur lst =
          (if \<not> al then Some (Inr (buf2, int (len - length f + length t), Some (cur + k + length t)))
           else replace_loop cs al strsize f t buf2 (len - length f + length t)
             ?cs (cur + k + length t) (Some (cur + k + length t)))"
        using replace_loop_step [OF inv Some _ less.prems(4), where al = al and t = t and lst = lst] False
        by (metis not_less)
      show ?thesis
      proof (cases al)
        case False
        then show ?thesis
          using e replace_ok_start [OF b(2)] \<open>\<not> strsize < ?cs\<close> replace_ok_length [OF b(1)] by auto
      next
        case True
        have "length (drop (k + length f) s) + (if f = [] then nat (strsize - ?cs) else 0)
            < length s + (if f = [] then nat (strsize - currsize) else 0)"
        proof (cases "f = []")
          case True
          then have "t \<noteq> []" using less.prems(1) \<open>al\<close> by simp
          then show ?thesis using True \<open>\<not> strsize < ?cs\<close> by (cases t) auto
        next
          case False
          then show ?thesis using find_str_progress [OF Some] by simp
        qed
        then obtain r where
          "replace_loop cs al strsize f t buf2 (len - length f + length t)
             ?cs (cur + k + length t) (Some (cur + k + length t)) = Some r" "replace_ok buf2 strsize r"
          using less.hyps [OF _ less.prems(1) b(2)] \<open>\<not> strsize < ?cs\<close> less.prems(4) b(1)
          by (metis not_less)
        then show ?thesis using e True replace_ok_length [OF b(1)] by auto
      qed
    qed
  qed
qed

lemma find_str_empty: "find_str cs s [] = Some 0"
  by (cases s) simp_all

text \<open>An empty string found at every position and replaced by itself: no turn changes
  anything.\<close>

lemma replace_loop_Some:
  assumes "replace_loop cs al strsize f t buf len currsize cur lst = Some y"
  shows "\<not> (al \<and> f = [] \<and> t = [] \<and> currsize \<le> strsize \<and> (\<exists>pre s. replace_inv buf pre s len currsize cur))"
proof (rule replace_loop.raw_induct [OF _ assms, of "\<lambda>cs al strsize f t buf len currsize cur lst y.
    \<not> (al \<and> f = [] \<and> t = [] \<and> currsize \<le> strsize \<and> (\<exists>pre s. replace_inv buf pre s len currsize cur))"])
  fix rec cs al strsize f t buf len currsize cur lst y
  assume IH: "\<And>cs al strsize f t buf len currsize cur lst y.
      rec cs al strsize f t buf len currsize cur lst = Some y \<Longrightarrow>
      \<not> (al \<and> f = [] \<and> t = [] \<and> currsize \<le> strsize \<and> (\<exists>pre s. replace_inv buf pre s len currsize cur))"
    and y: "(case find_str cs (cstr (drop cur buf)) f of
        None \<Rightarrow> Some (Inr (buf, int len, lst))
      | Some k \<Rightarrow>
          (let f' = cur + k; currsize' = currsize - int (length f) + int (length t) in
           if currsize' > strsize then Some (Inr (buf, -1, lst))
           else case memmove buf (f' + length t) (f' + length f) (len - (f' + length f) + 1) of
             Inl e \<Rightarrow> Some (Inl e)
           | Inr buf1 \<Rightarrow>
               (case memput buf1 f' t of
                  Inl e \<Rightarrow> Some (Inl e)
                | Inr buf2 \<Rightarrow>
                    (let len' = len - length f + length t; cur' = f' + length t in
                     if \<not> al then Some (Inr (buf2, int len', Some cur'))
                     else rec cs al strsize f t buf2 len' currsize' cur' (Some cur'))))) = Some y"
  show "\<not> (al \<and> f = [] \<and> t = [] \<and> currsize \<le> strsize \<and> (\<exists>pre s. replace_inv buf pre s len currsize cur))"
  proof (rule notI)
    assume a: "al \<and> f = [] \<and> t = [] \<and> currsize \<le> strsize \<and> (\<exists>pre s. replace_inv buf pre s len currsize cur)"
    then have m: "memmove buf cur cur (Suc (len - cur)) = Inr buf" "memput buf cur [] = Inr buf"
      by (auto simp: replace_inv_def memmove_def memput_def)
    have "rec cs al strsize f t buf len currsize cur (Some cur) = Some y"
      using y a m by (simp add: find_str_empty Let_def)
    then show False using IH a by blast
  qed
qed

lemma replace_loop_diverges:
  "replace_inv buf pre s len currsize cur \<Longrightarrow> currsize \<le> strsize \<Longrightarrow>
     replace_loop cs True strsize [] [] buf len currsize cur lst = None"
  using replace_loop_Some [of cs True strsize "[]" "[]" buf len currsize cur lst]
  by (cases "replace_loop cs True strsize [] [] buf len currsize cur lst") auto

lemma replace_loop_all:
  assumes "f \<noteq> []" "replace_inv buf pre s len currsize cur" "currsize \<le> strsize"
    and "strsize \<le> int (length buf)" "int (length pre + length (replace_all cs f t s)) + 1 \<le> strsize"
  shows "\<exists>buf' lst' rest. replace_loop cs True strsize f t buf len currsize cur lst
             = Some (Inr (buf', int (length pre + length (replace_all cs f t s)), lst'))
           \<and> length buf' = length buf \<and> buf' = pre @ replace_all cs f t s @ NUL # rest"
  using assms
proof (induction cs f t s arbitrary: buf pre len currsize cur lst rule: replace_all.induct)
  case (1 cs f t s)
  note inv = "1.prems"(2)
  show ?case
  proof (cases "find_str cs s f")
    case None
    have "int len = int (length pre + length s) \<and> (\<exists>rest. buf = pre @ s @ NUL # rest)"
      using inv by (auto simp: replace_inv_def)
    then show ?thesis using replace_loop_None [OF inv None] replace_all_None [OF None] by auto
  next
    case (Some k)
    let ?cs = "currsize - int (length f) + int (length t)" and ?s2 = "drop (k + length f) s"
    let ?pre = "pre @ take k s @ t"
    note r = replace_all_Some [OF Some "1.prems"(1), of t]
    have kb: "k + length f \<le> length s" by (rule find_str_bound [OF Some])
    have c: "?cs = int (length ?pre + length ?s2) + 1"
      using inv kb by (auto simp: replace_inv_def)
    have l: "length pre + length (replace_all cs f t s) = length ?pre + length (replace_all cs f t ?s2)"
      by (simp add: r)
    have fits: "?cs \<le> strsize"
    proof (cases "length f \<le> length t")
      case True
      then show ?thesis using replace_all_longer [OF True, of ?s2 cs] "1.prems"(5) c l by linarith
    next
      case False
      then show ?thesis using "1.prems"(3) by linarith
    qed
    obtain buf2 where b: "length buf2 = length buf"
        "replace_inv buf2 ?pre ?s2 (len - length f + length t) ?cs (cur + k + length t)"
      and e: "replace_loop cs True strsize f t buf len currsize cur lst =
          replace_loop cs True strsize f t buf2 (len - length f + length t)
             ?cs (cur + k + length t) (Some (cur + k + length t))"
      using replace_loop_step [OF inv Some fits "1.prems"(4), where al = True and lst = lst]
      by (metis (full_types))
    have "strsize \<le> int (length buf2)" using "1.prems"(4) b(1) by simp
    then obtain buf' lst' rest where
      "replace_loop cs True strsize f t buf2 (len - length f + length t) ?cs (cur + k + length t)
          (Some (cur + k + length t))
        = Some (Inr (buf', int (length ?pre + length (replace_all cs f t ?s2)), lst'))"
      "length buf' = length buf2" "buf' = ?pre @ replace_all cs f t ?s2 @ NUL # rest"
      using "1.IH" [OF "1.prems"(1) Some "1.prems"(1) b(2) fits] "1.prems"(5) unfolding l by blast
    then show ?thesis unfolding e l by (simp add: b(1) r)
  qed
qed

section \<open>Properties of replacing\<close>

lemma replace_inv_start:
  "NUL \<notin> set s \<Longrightarrow> replace_inv (s @ NUL # rest) [] s (length s) (int (length s) + 1) 0"
  by (simp add: replace_inv_def)

lemma replace_buffer_all:
  assumes "NUL \<notin> set s" "NUL \<notin> set t" "f \<noteq> []" "all \<noteq> 0" "cs \<in> {0, 1}"
    and "strsize \<le> int (length (s @ NUL # rest))" "int (length s) + 1 \<le> strsize"
    and "int (length (replace_all (cs = 1) f t s)) + 1 \<le> strsize"
  shows "\<exists>buf lst. vely_replace_string (s @ NUL # rest) strsize f t all cs
             = Some (Inr (buf, int (length (replace_all (cs = 1) f t s)), lst))
           \<and> cstr buf = replace_all (cs = 1) f t s \<and> length buf = length (s @ NUL # rest)"
proof -
  obtain buf lst rest' where "replace_loop (cs = 1) True strsize f t (s @ NUL # rest) (length s)
        (int (length s) + 1) 0 None = Some (Inr (buf, int (length (replace_all (cs = 1) f t s)), lst))"
      "length buf = length (s @ NUL # rest)" "buf = replace_all (cs = 1) f t s @ NUL # rest'"
    using replace_loop_all [OF assms(3) replace_inv_start [OF assms(1)] assms(7,6), of "cs = 1" t None]
      assms(8) by auto
  then show ?thesis
    using replace_all_NUL [OF assms(1,2)] assms(1,4) by (simp add: vely_replace_string_def)
qed

lemma replace_all_Cons:
  "f \<noteq> [] \<Longrightarrow> replace_all cs f t (c # s)
     = (if starts cs (c # s) f then t @ replace_all cs f t (drop (length f) (c # s)) else c # replace_all cs f t s)"
  by (auto simp: replace_all.simps [of cs f t "c # s"] replace_all.simps [of cs f t s] split: option.splits)

lemma replace_all_Nil [simp]: "replace_all cs f t [] = []"
  by (simp add: replace_all.simps)

lemma count_loop_Cons:
  "f \<noteq> [] \<Longrightarrow> count_loop cs (c # s) f
     = (if starts cs (c # s) f then 1 + count_loop cs (drop (length f) (c # s)) f else count_loop cs s f)"
  by (auto simp: count_loop.simps [of cs "c # s" f] count_loop.simps [of cs s f] split: option.splits)

lemma count_loop_Nil [simp]: "count_loop cs [] f = 0"
  by (simp add: count_loop.simps)

text \<open>The buffer of a string is its bytes, the zero byte and a rest.\<close>

lemma cstr_split: "length (cstr buf) < length buf \<Longrightarrow> \<exists>rest. buf = cstr buf @ NUL # rest"
proof (induction buf)
  case (Cons c buf)
  then show ?case by (cases "c = NUL") (simp_all add: cstr_def)
qed simp

lemma cstr_no_NUL [simp]: "NUL \<notin> set (cstr buf)"
  unfolding cstr_def by (auto dest: set_takeWhileD)

text \<open>Replacing the first occurrence.\<close>

lemma replace_buffer_first:
  assumes s: "NUL \<notin> set s" and k: "find_str (cs = 1) s f = Some k"
    and fits: "int (length s) + 1 - int (length f) + int (length t) \<le> strsize" "strsize \<le> int (length (s @ NUL # rest))"
  obtains rest' where "vely_replace_string (s @ NUL # rest) strsize f t 0 cs
      = Some (Inr (take k s @ t @ drop (k + length f) s @ NUL # rest', int (length s - length f + length t), Some (k + length t)))"
    and "length (take k s @ t @ drop (k + length f) s @ NUL # rest') = length (s @ NUL # rest)"
proof -
  obtain buf2 where b: "length buf2 = length (s @ NUL # rest)"
      "replace_inv buf2 ([] @ take k s @ t) (drop (k + length f) s) (length s - length f + length t)
         (int (length s) + 1 - int (length f) + int (length t)) (0 + k + length t)"
      "replace_loop (cs = 1) False strsize f t (s @ NUL # rest) (length s) (int (length s) + 1) 0 None
         = Some (Inr (buf2, int (length s - length f + length t), Some (0 + k + length t)))"
    by (rule replace_loop_step [OF replace_inv_start [OF s] k fits, of False None]) simp
  obtain rest' where r: "buf2 = take k s @ t @ drop (k + length f) s @ NUL # rest'" using b(2) by (auto simp: replace_inv_def)
  have "vely_replace_string (s @ NUL # rest) strsize f t 0 cs
      = Some (Inr (buf2, int (length s - length f + length t), Some (k + length t)))"
    using b(3) s by (simp add: vely_replace_string_def)
  then show ?thesis using that [of rest'] b(1) unfolding r by blast
qed

text \<open>Replacing all occurrences leaves in the buffer exactly the string with every
  occurrence replaced from the left, and its length is returned, whenever that string (and
  the one given) fits the stated size.\<close>

lemma replace_string_all:
  assumes "NUL \<notin> set s" "NUL \<notin> set t" "f \<noteq> []" "all \<noteq> 0" "cs \<in> {0, 1}"
    and "strsize \<le> int (length (s @ NUL # rest))" "int (length s) + 1 \<le> strsize"
    and "int (length (replace_all (cs = 1) f t s)) + 1 \<le> strsize"
  shows "\<exists>buf lst. vely_replace_string (s @ NUL # rest) strsize f t all cs
             = Some (Inr (buf, int (length (replace_all (cs = 1) f t s)), lst))
           \<and> cstr buf = replace_all (cs = 1) f t s \<and> length buf = length (s @ NUL # rest)"
  using assms by (rule replace_buffer_all)

lemma replace_string_all_witness:
  "\<exists>buf lst. vely_replace_string (''a,b,c'' @ NUL # ''xxxx'') 10 '','' ''--'' 1 1
             = Some (Inr (buf, int (length (replace_all ((1::int) = 1) '','' ''--'' ''a,b,c'')), lst))
           \<and> cstr buf = replace_all ((1::int) = 1) '','' ''--'' ''a,b,c''
           \<and> length buf = length (''a,b,c'' @ NUL # ''xxxx'')"
  by (rule replace_string_all) (simp_all add: replace_all.simps same_char_def)

text \<open>On a terminated buffer of at least \<open>strsize\<close> bytes replacing never reads or writes
  outside it and leaves a terminated string within \<open>strsize\<close>; and it returns unless both the
  text to find and the replacement are empty and all occurrences are asked for, when it
  loops forever.\<close>

lemma replace_string_safe:
  assumes "NUL \<notin> set s" "strsize \<le> int (length (s @ NUL # rest))" "int (length s) + 1 \<le> strsize"
  shows "case vely_replace_string (s @ NUL # rest) strsize f t all cs of
      None \<Rightarrow> f = [] \<and> t = [] \<and> all \<noteq> 0
    | Some r \<Rightarrow> \<not> (f = [] \<and> t = [] \<and> all \<noteq> 0)
        \<and> (\<exists>buf n lst. r = Inr (buf, n, lst) \<and> length buf = length (s @ NUL # rest)
             \<and> NUL \<in> set (take (nat strsize) buf) \<and> -1 \<le> n \<and> n < strsize)"
proof (cases "f = [] \<and> t = [] \<and> all \<noteq> 0")
  case True
  then show ?thesis
    using replace_loop_diverges [OF replace_inv_start [OF assms(1)] assms(3)] assms(1)
    by (simp add: vely_replace_string_def)
next
  case False
  then obtain r where r: "vely_replace_string (s @ NUL # rest) strsize f t all cs = Some r"
      "replace_ok (s @ NUL # rest) strsize r"
    using replace_loop_safe [OF _ replace_inv_start [OF assms(1)] assms(3,2), of f t "all \<noteq> 0"] assms(1)
    by (auto simp: vely_replace_string_def Let_def)
  then obtain buf n lst p u tl where b: "r = Inr (buf, n, lst)" "length buf = length (s @ NUL # rest)"
      "buf = (p @ u) @ NUL # tl" "int (length (p @ u)) + 1 \<le> strsize"
      "n = -1 \<or> n = int (length (p @ u))"
    unfolding replace_ok_def replace_inv_def by auto
  have "take (nat strsize) buf ! length (p @ u) = NUL" "length (p @ u) < length (take (nat strsize) buf)"
    using b(2-4) assms(2) by (auto simp: nth_append)
  then have "NUL \<in> set (take (nat strsize) buf)" by (metis nth_mem)
  then show ?thesis using r(1) b False by (auto simp del: set_append)
qed

lemma replace_string_safe_witness:
  "case vely_replace_string (''ab'' @ NUL # ''x'') 4 ''b'' ''bcd'' 0 1 of
      None \<Rightarrow> ''b'' = [] \<and> ''bcd'' = [] \<and> (0::int) \<noteq> 0
    | Some r \<Rightarrow> \<not> (''b'' = [] \<and> ''bcd'' = [] \<and> (0::int) \<noteq> 0)
        \<and> (\<exists>buf n lst. r = Inr (buf, n, lst) \<and> length buf = length (''ab'' @ NUL # ''x'')
             \<and> NUL \<in> set (take (nat 4) buf) \<and> -1 \<le> n \<and> n < 4)"
  by (rule replace_string_safe) simp_all

section \<open>Trimming\<close>

definition rstrip :: "string \<Rightarrow> string" where
  "rstrip s = rev (dropWhile isspace (rev s))"

definition strip :: "string \<Rightarrow> string" where
  "strip s = rstrip (dropWhile isspace s)"

lemma rstrip_Nil [simp]: "rstrip [] = []"
  by (simp add: rstrip_def)

lemma rstrip_snoc: "rstrip (s @ [c]) = (if isspace c then rstrip s else s @ [c])"
  by (simp add: rstrip_def)

lemma rstrip_prefix: "take (length (rstrip s)) s = rstrip s \<and> length (rstrip s) \<le> length s"
  by (induction s rule: rev_induct) (auto simp: rstrip_snoc)

lemma skip_spaces_at:
  "skip_spaces (pre @ s @ NUL # rest) (length pre) = length pre + length (takeWhile isspace s)"
proof (induction s arbitrary: pre)
  case Nil
  then show ?case by (simp add: skip_spaces.simps)
next
  case (Cons c s)
  have "skip_spaces (pre @ (c # s) @ NUL # rest) (length pre + 1)
      = length pre + 1 + length (takeWhile isspace s)"
    using Cons.IH [of "pre @ [c]"] by simp
  then show ?case by (subst skip_spaces.simps) simp
qed

lemma back_spaces_rstrip:
  assumes "lo \<le> e" "e \<le> length buf"
  shows "back_spaces buf lo e = lo + length (rstrip (drop lo (take e buf)))"
  using assms
proof (induction e)
  case (Suc e)
  show ?case
  proof (cases "lo \<le> e")
    case True
    have "drop lo (take (Suc e) buf) = drop lo (take e buf) @ [buf ! e]"
      using Suc.prems True by (simp add: take_Suc_conv_app_nth)
    then show ?thesis using Suc True by (auto simp: rstrip_snoc)
  next
    case False
    then have "lo = Suc e" using Suc.prems by simp
    then show ?thesis by simp
  qed
qed simp

lemma trim_moved:
  assumes "NUL \<notin> set s"
  defines "i \<equiv> length (takeWhile isspace s)"
  shows "\<exists>rest1. (if i \<noteq> 0 then memmove (s @ NUL # rest) 0 i (length s - i + 1) else Inr (s @ NUL # rest))
             = Inr (dropWhile isspace s @ NUL # rest1)
           \<and> length (dropWhile isspace s @ NUL # rest1) = length (s @ NUL # rest)"
proof -
  have d: "drop i s = dropWhile isspace s" by (simp add: i_def dropWhile_eq_drop)
  have l: "i \<le> length s" by (simp add: i_def length_takeWhile_le)
  have "length (dropWhile isspace s) = length s - i" by (simp add: d [symmetric])
  then have "take (length s - i + 1) (drop i (s @ NUL # rest)) = dropWhile isspace s @ [NUL]"
    using l by (simp add: d)
  then have m: "memmove (s @ NUL # rest) 0 i (length s - i + 1)
      = Inr (dropWhile isspace s @ NUL # drop (length s - i + 1) (s @ NUL # rest))"
    using l by (simp add: memmove_def memput_def d [symmetric])
  have "length (dropWhile isspace s @ NUL # drop (length s - i + 1) (s @ NUL # rest))
      = length (s @ NUL # rest)"
    using l by (simp add: d [symmetric])
  moreover have "dropWhile isspace s = s" if "i = 0" using d that by simp
  ultimately show ?thesis using m by (cases "i = 0") auto
qed

text \<open>Trimming a string in its buffer, by moving it or by returning a pointer into it, leaves
  exactly the string without its leading and trailing white space, with its length, and
  touches nothing outside the buffer.\<close>

lemma trim_correct:
  assumes "NUL \<notin> set s"
  shows "(\<exists>buf. vely_trim (s @ NUL # rest) (length s) = Inr (buf, length (strip s))
             \<and> cstr buf = strip s \<and> length buf = length (s @ NUL # rest))
    \<and> (\<exists>buf off. vely_trim_ptr (s @ NUL # rest) (length s) = Inr (buf, off, length (strip s))
             \<and> cstr (drop off buf) = strip s \<and> length buf = length (s @ NUL # rest))"
proof
  let ?d = "dropWhile isspace s" and ?i = "length (takeWhile isspace s)"
  let ?e = "length (rstrip ?d)"
  have i: "skip_spaces (s @ NUL # rest) 0 = ?i"
    using skip_spaces_at [of "[]" s rest] by simp
  have ld: "length s - ?i = length ?d" by (metis dropWhile_eq_drop length_drop)
  have n: "NUL \<notin> set (rstrip ?d)"
    using assms unfolding rstrip_def by (metis set_dropWhileD set_rev)
  note p = rstrip_prefix [of ?d]
  obtain rest1 where m: "(if ?i \<noteq> 0 then memmove (s @ NUL # rest) 0 ?i (length s - ?i + 1)
        else Inr (s @ NUL # rest)) = Inr (?d @ NUL # rest1)"
      "length (?d @ NUL # rest1) = length (s @ NUL # rest)"
    using trim_moved [OF assms] by blast
  have b: "back_spaces (?d @ NUL # rest1) 0 (length s - ?i) = ?e"
    by (simp add: back_spaces_rstrip ld)
  have "take ?e (?d @ NUL # rest1) = rstrip ?d" using p by simp
  then obtain b1 where b1: "memput (?d @ NUL # rest1) ?e [NUL] = Inr b1" "cstr b1 = rstrip ?d"
      "length b1 = length (s @ NUL # rest)"
    using memput_NUL [of ?e "?d @ NUL # rest1" 0] n p m(2) by auto
  show "\<exists>buf. vely_trim (s @ NUL # rest) (length s) = Inr (buf, length (strip s))
             \<and> cstr buf = strip s \<and> length buf = length (s @ NUL # rest)"
    using b1 m(1) b unfolding vely_trim_def i Let_def by (simp add: res_bind_def strip_def)
  have r: "?i + ?e \<le> length s" using p ld length_takeWhile_le [of isspace s] by linarith
  have b2: "back_spaces (s @ NUL # rest) ?i (length s) = ?i + ?e"
    by (simp add: back_spaces_rstrip length_takeWhile_le dropWhile_eq_drop)
  have "drop ?i (take (?i + ?e) (s @ NUL # rest)) = rstrip ?d"
    using p r by (simp add: drop_take dropWhile_eq_drop)
  then obtain b3 where b3: "memput (s @ NUL # rest) (?i + ?e) [NUL] = Inr b3"
      "cstr (drop ?i b3) = rstrip ?d" "length b3 = length (s @ NUL # rest)"
    using memput_NUL [of "?i + ?e" "s @ NUL # rest" ?i] n r by auto
  show "\<exists>buf off. vely_trim_ptr (s @ NUL # rest) (length s) = Inr (buf, off, length (strip s))
             \<and> cstr (drop off buf) = strip s \<and> length buf = length (s @ NUL # rest)"
    using b3 r unfolding vely_trim_ptr_def i Let_def b2 by (simp add: res_bind_def strip_def)
qed

lemma trim_correct_witness:
  "(\<exists>buf. vely_trim ('' a b '' @ NUL # ''x'') (length '' a b '') = Inr (buf, length (strip '' a b ''))
             \<and> cstr buf = strip '' a b '' \<and> length buf = length ('' a b '' @ NUL # ''x''))
    \<and> (\<exists>buf off. vely_trim_ptr ('' a b '' @ NUL # ''x'') (length '' a b '')
                   = Inr (buf, off, length (strip '' a b ''))
             \<and> cstr (drop off buf) = strip '' a b '' \<and> length buf = length ('' a b '' @ NUL # ''x''))"
  by (rule trim_correct) simp

section \<open>What is a number\<close>

text \<open>The texts that \<open>vely_is_number\<close> accepts, without its scan.\<close>

definition unsigned_part :: "string \<Rightarrow> string" where
  "unsigned_part s = (if s \<noteq> [] \<and> (hd s = CHR ''+'' \<or> hd s = CHR ''-'') then tl s else s)"

definition fraction_part :: "string \<Rightarrow> string" where
  "fraction_part s = tl (dropWhile (\<lambda>c. c \<noteq> CHR ''.'') s)"

definition number_text :: "string \<Rightarrow> bool" where
  "number_text s \<longleftrightarrow>
     list_all (\<lambda>c. isspace c \<or> isdigit c \<or> c = CHR ''.'') (unsigned_part s)
     \<and> count_list s (CHR ''.'') \<le> 1
     \<and> hd (s @ ''.'') \<noteq> CHR ''.'' \<and> last s \<noteq> CHR ''.''
     \<and> count_list s (CHR ''.'') < length (unsigned_part s)"

lemma number_chars [simp]:
  "\<not> isspace (CHR ''.'')" "\<not> isdigit (CHR ''.'')" "\<not> isspace (CHR ''+'')" "\<not> isdigit (CHR ''+'')"
  "\<not> isspace (CHR ''-'')" "\<not> isdigit (CHR ''-'')"
  by (simp_all add: char_defs)

lemma number_loop_tail:
  assumes "0 < i"
  shows "number_loop s i st =
     (if list_all (\<lambda>c. isspace c \<or> isdigit c \<or> c = CHR ''.'') s
         \<and> count_list s (CHR ''.'') + (if dot_pos st > 0 then 1 else 0) \<le> 1
      then Inr (i + length s,
        if CHR ''.'' \<in> set s then st\<lparr>dot_pos := i + length (takeWhile (\<lambda>c. c \<noteq> CHR ''.'') s)\<rparr> else st)
      else Inl (positive st))"
  using assms
proof (induction s arbitrary: i st)
  case (Cons c s)
  show ?case
  proof (cases "c = CHR ''.''")
    case True
    then show ?thesis
      using Cons.prems Cons.IH [of "i + 1" "st\<lparr>dot_pos := i\<rparr>"]
      by (auto simp: count_list_0_iff)
  next
    case False
    then show ?thesis
      using Cons.prems Cons.IH [of "i + 1" st] by auto
  qed
qed simp

lemma takeWhile_dot: "CHR ''.'' \<notin> set a \<Longrightarrow> takeWhile (\<lambda>c. c \<noteq> CHR ''.'') (a @ CHR ''.'' # b) = a"
  by (induction a) auto

lemma dropWhile_dot: "CHR ''.'' \<notin> set a \<Longrightarrow> dropWhile (\<lambda>c. c \<noteq> CHR ''.'') (a @ CHR ''.'' # b) = CHR ''.'' # b"
  by (induction a) auto

lemma dropWhile_no_dot: "CHR ''.'' \<notin> set a \<Longrightarrow> dropWhile (\<lambda>c. c \<noteq> CHR ''.'') a = []"
  by (induction a) auto

lemma one_dot:
  assumes "CHR ''.'' \<in> set t" "count_list t (CHR ''.'') \<le> 1"
  obtains a b where "t = a @ CHR ''.'' # b" "CHR ''.'' \<notin> set a" "CHR ''.'' \<notin> set b"
proof -
  obtain a b where "t = a @ CHR ''.'' # b" "CHR ''.'' \<notin> set a"
    using split_list_first [OF assms(1)] by blast
  moreover from this have "CHR ''.'' \<notin> set b" using assms(2) by (simp add: count_list_0_iff)
  ultimately show ?thesis by (rule that)
qed

text \<open>The scan of a text by the shape of its tail, after a first character that is accepted.\<close>

lemma number_scan_first:
  assumes "isspace c \<or> isdigit c \<or> c = CHR ''+'' \<or> c = CHR ''-''"
  defines "sg \<equiv> c = CHR ''+'' \<or> c = CHR ''-''"
  shows "number_loop (c # t) 0 \<lparr>dot_pos = 0, sign = False, positive = True\<rparr> =
    number_loop t 1 \<lparr>dot_pos = 0, sign = sg, positive = (c \<noteq> CHR ''-'')\<rparr>"
  using assms by auto

lemma is_number_bad:
  assumes "isspace c \<or> isdigit c \<or> c = CHR ''+'' \<or> c = CHR ''-''"
    and "\<not> (list_all (\<lambda>c. isspace c \<or> isdigit c \<or> c = CHR ''.'') t \<and> count_list t (CHR ''.'') \<le> 1)"
  shows "vely_is_number (c # t) = (False, 0, 0, c \<noteq> CHR ''-'')"
proof -
  have "number_loop (c # t) 0 \<lparr>dot_pos = 0, sign = False, positive = True\<rparr> = Inl (c \<noteq> CHR ''-'')"
    unfolding number_scan_first [OF assms(1)] using assms(2) by (auto simp: number_loop_tail)
  then show ?thesis by (simp add: vely_is_number_def)
qed

lemma is_number_integer:
  assumes "isspace c \<or> isdigit c \<or> c = CHR ''+'' \<or> c = CHR ''-''"
    and "list_all (\<lambda>c. isspace c \<or> isdigit c \<or> c = CHR ''.'') t" "CHR ''.'' \<notin> set t"
  shows "vely_is_number (c # t) =
    (length (unsigned_part (c # t)) \<noteq> 0, length (unsigned_part (c # t)), 0, c \<noteq> CHR ''-'')"
proof -
  have "number_loop (c # t) 0 \<lparr>dot_pos = 0, sign = False, positive = True\<rparr>
      = Inr (1 + length t,
          \<lparr>dot_pos = 0, sign = (c = CHR ''+'' \<or> c = CHR ''-''), positive = (c \<noteq> CHR ''-'')\<rparr>)"
    unfolding number_scan_first [OF assms(1)] using assms(2,3)
    by (auto simp: number_loop_tail count_list_0_iff)
  then show ?thesis by (simp add: vely_is_number_def unsigned_part_def)
qed

lemma is_number_fraction:
  assumes "isspace c \<or> isdigit c \<or> c = CHR ''+'' \<or> c = CHR ''-''"
    and "list_all (\<lambda>c. isspace c \<or> isdigit c \<or> c = CHR ''.'') t"
    and t: "t = a @ CHR ''.'' # b" "CHR ''.'' \<notin> set a" "CHR ''.'' \<notin> set b"
  shows "vely_is_number (c # t) =
    (if b = [] then (False, 0, 0, c \<noteq> CHR ''-'')
     else (True, length (unsigned_part (c # t)) - 1, length b, c \<noteq> CHR ''-''))"
proof -
  have "number_loop (c # t) 0 \<lparr>dot_pos = 0, sign = False, positive = True\<rparr>
      = Inr (1 + length t, \<lparr>dot_pos = 1 + length a,
          sign = (c = CHR ''+'' \<or> c = CHR ''-''), positive = (c \<noteq> CHR ''-'')\<rparr>)"
    unfolding number_scan_first [OF assms(1)] using assms(2) t
    by (subst number_loop_tail) (simp_all add: takeWhile_dot count_list_0_iff)
  then show ?thesis by (cases b) (auto simp: vely_is_number_def unsigned_part_def Let_def t)
qed

lemma first_not_dot: "isspace c \<or> isdigit c \<or> c = CHR ''+'' \<or> c = CHR ''-'' \<Longrightarrow> c \<noteq> CHR ''.''"
  by auto

text \<open>\<open>vely_is_number\<close> accepts exactly the texts made of an optional sign in first place and
  of digits and white space with at most one dot, which is neither the first nor the last
  character, with something besides sign and dot; and then it reports the number of
  characters without sign and dot as the precision, the number of those after the dot as
  the scale, and whether there is a minus.\<close>

lemma is_number_exact:
  "vely_is_number s =
     (if number_text s
      then (True, length (unsigned_part s) - count_list s (CHR ''.''), length (fraction_part s),
            hd (s @ '' '') \<noteq> CHR ''-'')
      else (False, 0, 0, hd (s @ '' '') \<noteq> CHR ''-''))"
proof (cases s)
  case Nil
  then show ?thesis by (simp add: vely_is_number_def number_text_def)
next
  case (Cons c t)
  consider "\<not> (isspace c \<or> isdigit c \<or> c = CHR ''+'' \<or> c = CHR ''-'')"
    | (bad) "isspace c \<or> isdigit c \<or> c = CHR ''+'' \<or> c = CHR ''-''"
        "\<not> (list_all (\<lambda>c. isspace c \<or> isdigit c \<or> c = CHR ''.'') t \<and> count_list t (CHR ''.'') \<le> 1)"
    | (ok) "isspace c \<or> isdigit c \<or> c = CHR ''+'' \<or> c = CHR ''-''"
        "list_all (\<lambda>c. isspace c \<or> isdigit c \<or> c = CHR ''.'') t" "count_list t (CHR ''.'') \<le> 1"
    by blast
  then show ?thesis
  proof cases
    case 1
    then show ?thesis using Cons
      by (auto simp: vely_is_number_def number_text_def unsigned_part_def)
  next
    case bad
    then have "\<not> number_text s"
      using Cons first_not_dot [of c] by (auto simp: number_text_def unsigned_part_def)
    then show ?thesis using Cons bad by (simp add: is_number_bad)
  next
    case ok
    have c: "c \<noteq> CHR ''.''" by (rule first_not_dot [OF ok(1)])
    show ?thesis
    proof (cases "CHR ''.'' \<in> set t")
      case False
      then have "count_list t (CHR ''.'') = 0" "last s \<noteq> CHR ''.''" "fraction_part s = []"
        using Cons c by (auto simp: fraction_part_def dropWhile_no_dot count_list_0_iff dest: last_in_set)
      moreover have "list_all (\<lambda>c. isspace c \<or> isdigit c \<or> c = CHR ''.'') (unsigned_part s)"
        using ok Cons by (auto simp: unsigned_part_def)
      ultimately show ?thesis using Cons c is_number_integer [OF ok(1,2) False]
        by (auto simp: number_text_def)
    next
      case True
      obtain a b where t: "t = a @ CHR ''.'' # b" "CHR ''.'' \<notin> set a" "CHR ''.'' \<notin> set b"
        by (rule one_dot [OF True ok(3)])
      have l: "list_all (\<lambda>c. isspace c \<or> isdigit c \<or> c = CHR ''.'') (unsigned_part s)"
        using ok Cons by (auto simp: unsigned_part_def)
      have n: "count_list s (CHR ''.'') = 1" "fraction_part s = b"
        using Cons c t by (simp_all add: count_list_0_iff fraction_part_def dropWhile_dot)
      have "last s \<noteq> CHR ''.'' \<longleftrightarrow> b \<noteq> []"
        using Cons t(1,3) by (cases b rule: rev_cases) auto
      moreover have "b \<noteq> [] \<Longrightarrow> 1 < length (unsigned_part s)"
        using Cons t(1) by (cases b) (auto simp: unsigned_part_def)
      ultimately have "number_text s \<longleftrightarrow> b \<noteq> []"
        using Cons c l n by (auto simp: number_text_def)
      then show ?thesis using Cons n is_number_fraction [OF ok(1,2) t] by simp
    qed
  qed
qed

text \<open>White space alone is a number to this check, and so are digits with blanks between.\<close>

lemma blank_is_number: "vely_is_number '' '' = (True, 1, 0, True)"
  by (simp add: vely_is_number_def isspace_def)

section \<open>Counting\<close>

text \<open>The number of occurrences counted is the number that replacing would replace.\<close>

lemma count_replace_length:
  assumes "length t = length f + 1"
  shows "length (replace_all cs f t s) = length s + count_loop cs s f"
  using assms
proof (induction cs f t s rule: replace_all.induct)
  case (1 cs f t s)
  show ?case
  proof (cases "f = [] \<or> find_str cs s f = None")
    case True
    then show ?thesis by (auto simp: replace_all.simps [of cs f] count_loop.simps [of cs s])
  next
    case False
    then obtain k where k: "find_str cs s f = Some k" "f \<noteq> []" by auto
    then show ?thesis
      using 1 find_str_bound [OF k(1)]
      by (simp add: replace_all_Some [OF k] count_loop.simps [of cs s])
  qed
qed

end
