(* ===== verification/Fifo.thy ===== *)
theory Fifo
  imports Prelude
begin

text \<open>
  The sequential list of name/value pairs (velyrtc.c, \<^verbatim>\<open>vely_store\<close> and its companions):
  pairs are kept in the order they are put in, read from the first on, and the reading
  can be started again any number of times.

  Names and values are pointers; \<^verbatim>\<open>NULL\<close> is \<^term>\<open>None\<close>.  A cell of the array that nobody
  wrote yet (\<^verbatim>\<open>realloc\<close> does not clear memory) is \<^term>\<open>None\<close> too, one level up.
\<close>

type_synonym 'a item = "'a option \<times> 'a option"

record 'a vely_fifo =
  num_of :: nat
  store_ptr :: nat
  retrieve_ptr :: nat
  item :: "'a item option list"

definition VV_FIFO_ADD :: nat where "VV_FIFO_ADD = 100"

definition vely_store_init :: "'a vely_fifo" where
  "vely_store_init =
     \<lparr>num_of = 1, store_ptr = 0, retrieve_ptr = 0, item = [Some (None, None)]\<rparr>"

definition vely_store :: "'a vely_fifo \<Rightarrow> 'a item \<Rightarrow> 'a vely_fifo res" where
  "vely_store fdata nd =
     (let fdata = (if store_ptr fdata \<ge> num_of fdata
                   then fdata\<lparr>num_of := num_of fdata + VV_FIFO_ADD,
                              item := take (num_of fdata + VV_FIFO_ADD) (item fdata)
                                @ replicate (num_of fdata + VV_FIFO_ADD - length (item fdata)) None\<rparr>
                   else fdata) in
      res_bind (memput (item fdata) (store_ptr fdata) [Some nd])
        (\<lambda>it. Inr (fdata\<lparr>item := it, store_ptr := store_ptr fdata + 1\<rparr>)))"

text \<open>What is put in \<open>*name\<close> and \<open>*data\<close>; reading a cell that was never written is a fault.\<close>

definition vely_retrieve :: "'a vely_fifo \<Rightarrow> ('a item \<times> 'a vely_fifo) res" where
  "vely_retrieve fdata =
     (if retrieve_ptr fdata \<ge> store_ptr fdata then Inr ((None, None), fdata)
      else if retrieve_ptr fdata < length (item fdata)
      then (case item fdata ! retrieve_ptr fdata of
              Some nd \<Rightarrow> Inr (nd, fdata\<lparr>retrieve_ptr := retrieve_ptr fdata + 1\<rparr>)
            | None \<Rightarrow> Inl Out_of_bounds)
      else Inl Out_of_bounds)"

definition vely_rewind :: "'a vely_fifo \<Rightarrow> 'a vely_fifo" where
  "vely_rewind fdata = fdata\<lparr>retrieve_ptr := 0\<rparr>"

text \<open>After \<^verbatim>\<open>vely_purge\<close> the list is freed (\<^term>\<open>None\<close>) or made anew.  The loop that sets the
  pairs to \<^verbatim>\<open>NULL\<close> before they are freed has no effect that outlives it.\<close>

definition vely_purge :: "'a vely_fifo \<Rightarrow> bool \<Rightarrow> 'a vely_fifo option" where
  "vely_purge fdata recreate = (if recreate then Some vely_store_init else None)"

section \<open>The contract of a sequential store\<close>

locale sequential_store =
  fixes init :: 's
    and put :: "'s \<Rightarrow> 'i \<Rightarrow> 's res"
    and get :: "'s \<Rightarrow> ('i \<times> 's) res"
    and rewind :: "'s \<Rightarrow> 's"
    and nothing :: 'i
    and invar :: "'s \<Rightarrow> bool"
    and stored :: "'s \<Rightarrow> 'i list"
    and pos :: "'s \<Rightarrow> nat"
  assumes init: "invar init" "stored init = []" "pos init = 0"
    and put: "invar s \<Longrightarrow> \<exists>s'. put s x = Inr s' \<and> invar s' \<and> stored s' = stored s @ [x] \<and> pos s' = pos s"
    and get: "invar s \<Longrightarrow> pos s < length (stored s) \<Longrightarrow>
      \<exists>s'. get s = Inr (stored s ! pos s, s') \<and> invar s' \<and> stored s' = stored s \<and> pos s' = pos s + 1"
    and get_end: "invar s \<Longrightarrow> length (stored s) \<le> pos s \<Longrightarrow> get s = Inr (nothing, s)"
    and rewind: "invar s \<Longrightarrow> invar (rewind s) \<and> stored (rewind s) = stored s \<and> pos (rewind s) = 0"
begin

lemma put_all:
  "invar s \<Longrightarrow> \<exists>s'. inputs put xs s = Inr s' \<and> invar s' \<and> stored s' = stored s @ xs \<and> pos s' = pos s"
proof (induction xs arbitrary: s)
  case (Cons x xs)
  obtain s1 where s1: "put s x = Inr s1" "invar s1" "stored s1 = stored s @ [x]" "pos s1 = pos s"
    using put [OF Cons.prems, of x] by blast
  then show ?case using Cons.IH [OF s1(2)] by (simp add: res_bind_def)
qed simp

lemma get_many:
  "invar s \<Longrightarrow> pos s + n \<le> length (stored s) \<Longrightarrow>
     \<exists>s'. outputs get n s = Inr (take n (drop (pos s) (stored s)), s')
        \<and> invar s' \<and> stored s' = stored s \<and> pos s' = pos s + n"
proof (induction n arbitrary: s)
  case (Suc n)
  obtain s1 where s1: "get s = Inr (stored s ! pos s, s1)" "invar s1" "stored s1 = stored s"
      "pos s1 = pos s + 1"
    using get [OF Suc.prems(1)] Suc.prems(2) by auto
  then obtain s2 where "outputs get n s1 = Inr (take n (drop (pos s1) (stored s1)), s2)"
      "invar s2" "stored s2 = stored s1" "pos s2 = pos s1 + n"
    using Suc.IH [OF s1(2)] Suc.prems(2) by auto
  moreover have "drop (pos s) (stored s) = stored s ! pos s # drop (pos s + 1) (stored s)"
    using Suc.prems(2) by (simp add: Cons_nth_drop_Suc)
  ultimately show ?case using s1 by (simp add: res_bind_def)
qed simp

lemma get_past_end:
  "invar s \<Longrightarrow> pos s = length (stored s) \<Longrightarrow> outputs get n s = Inr (replicate n nothing, s)"
  by (induction n) (simp_all add: get_end res_bind_def)

text \<open>A rewound store gives everything that was put in it, in order, and then nothing.\<close>

lemma outputs_add:
  "outputs get m s = Inr (xs, s1) \<Longrightarrow> outputs get n s1 = Inr (ys, s2) \<Longrightarrow>
     outputs get (m + n) s = Inr (xs @ ys, s2)"
proof (induction m arbitrary: s xs)
  case (Suc m)
  then show ?case by (auto simp: res_bind_def split: sum.splits)
qed simp

lemma replay:
  assumes "invar s"
  shows "\<exists>s'. outputs get (length (stored s) + n) (rewind s)
             = Inr (stored s @ replicate n nothing, s') \<and> invar s' \<and> stored s' = stored s"
proof -
  obtain s1 where s1: "outputs get (length (stored s)) (rewind s) = Inr (stored s, s1)" "invar s1"
      "stored s1 = stored s" "pos s1 = length (stored s)"
    using get_many [of "rewind s" "length (stored s)"] rewind [OF assms] by auto
  then have "outputs get n s1 = Inr (replicate n nothing, s1)" by (intro get_past_end) simp_all
  then show ?thesis using outputs_add [OF s1(1)] s1 by blast
qed

end

section \<open>The model keeps the contract\<close>

definition fifo_ok :: "'a vely_fifo \<Rightarrow> bool" where
  "fifo_ok f \<longleftrightarrow> length (item f) = num_of f \<and> store_ptr f \<le> num_of f
     \<and> retrieve_ptr f \<le> store_ptr f \<and> None \<notin> set (take (store_ptr f) (item f))"

definition fifo_stored :: "'a vely_fifo \<Rightarrow> 'a item list" where
  "fifo_stored f = map the (take (store_ptr f) (item f))"

lemma fifo_put:
  assumes "fifo_ok f"
  shows "\<exists>f'. vely_store f x = Inr f' \<and> fifo_ok f' \<and> fifo_stored f' = fifo_stored f @ [x]
           \<and> retrieve_ptr f' = retrieve_ptr f"
proof (cases "store_ptr f < num_of f")
  case True
  then show ?thesis
    using assms
    by (auto simp: vely_store_def fifo_ok_def fifo_stored_def memput_def res_bind_def Let_def
        min_def dest: in_set_takeD)
next
  case False
  then have "store_ptr f = num_of f" "length (item f) = num_of f"
    using assms by (simp_all add: fifo_ok_def)
  then show ?thesis
    using assms
    by (auto simp: vely_store_def fifo_ok_def fifo_stored_def memput_def res_bind_def Let_def
        VV_FIFO_ADD_def)
qed

lemma fifo_get:
  assumes "fifo_ok f" "retrieve_ptr f < length (fifo_stored f)"
  shows "\<exists>f'. vely_retrieve f = Inr (fifo_stored f ! retrieve_ptr f, f') \<and> fifo_ok f'
           \<and> fifo_stored f' = fifo_stored f \<and> retrieve_ptr f' = retrieve_ptr f + 1"
proof -
  have r: "retrieve_ptr f < store_ptr f" "store_ptr f \<le> length (item f)"
    using assms by (auto simp: fifo_ok_def fifo_stored_def)
  then have "item f ! retrieve_ptr f \<in> set (take (store_ptr f) (item f))"
    by (metis in_set_conv_nth length_take min.absorb2 nth_take)
  then obtain nd where nd: "item f ! retrieve_ptr f = Some nd"
    using assms(1) unfolding fifo_ok_def by (metis option.exhaust)
  then show ?thesis
    using assms r by (auto simp: vely_retrieve_def fifo_ok_def fifo_stored_def)
qed

interpretation fifo: sequential_store vely_store_init vely_store vely_retrieve vely_rewind
  "(None, None)" fifo_ok fifo_stored retrieve_ptr
proof unfold_locales
  show "fifo_ok vely_store_init" "fifo_stored vely_store_init = []" "retrieve_ptr vely_store_init = 0"
    by (simp_all add: vely_store_init_def fifo_ok_def fifo_stored_def)
qed (erule fifo_put | (erule fifo_get, assumption)
    | auto simp: vely_retrieve_def vely_rewind_def fifo_ok_def fifo_stored_def)+

section \<open>Properties\<close>

text \<open>C28: the list is first in, first out: after any pairs are stored, reading from the start
  gives them in the order they were put in and then null pointers, without a fault, and
  rewinding and reading again gives the same.\<close>

theorem fifo_replay:
  "\<exists>f f1 f2. inputs vely_store xs vely_store_init = Inr f
     \<and> outputs vely_retrieve (length xs + n) f = Inr (xs @ replicate n (None, None), f1)
     \<and> outputs vely_retrieve (length xs + m) (vely_rewind f1)
         = Inr (xs @ replicate m (None, None), f2)"
proof -
  obtain f where f: "inputs vely_store xs vely_store_init = Inr f" "fifo_ok f" "fifo_stored f = xs"
      "retrieve_ptr f = 0"
    using fifo.put_all [OF fifo.init(1), of xs] fifo.init by auto
  have r: "vely_rewind f = f" using f(4) by (simp add: vely_rewind_def)
  obtain f1 where "outputs vely_retrieve (length xs + n) f = Inr (xs @ replicate n (None, None), f1)"
      "fifo_ok f1" "fifo_stored f1 = xs"
    using fifo.replay [OF f(2), of n] f r by auto
  then show ?thesis using f(1) fifo.replay [of f1 m] by auto
qed

end
