(* ===== verification/Mem.thy ===== *)
theory Mem
  imports Prelude "HOL-Library.AList"
begin

text \<open>
  The memory manager of velymem.c.  Blocks come from the C library; the manager records
  each one in the table \<open>vm\<close>, writes the index of the entry in front of the block, links the
  entries of freed blocks, and at the end of a request releases everything that is not
  process-scoped and closes the files that are still open.

  The C library is an argument, \<open>os\<close>: where \<^verbatim>\<open>malloc\<close> puts a block (\<^term>\<open>None\<close> is \<^verbatim>\<open>NULL\<close>), what
  memory holds that nobody wrote, and whether the table itself can be had.  Nothing is
  assumed of it but that live blocks do not overlap (\<open>os_fresh\<close>).  A block is kept with the
  number in front of it and its bytes after that number.
\<close>

definition VV_ALIGN :: nat where "VV_ALIGN = 16"
definition VELYMSIZE :: nat where "VELYMSIZE = 512"
definition VV_MEM_FREE :: "8 word" where "VV_MEM_FREE = 1"
definition VV_MEM_FILE :: "8 word" where "VV_MEM_FILE = 2"
definition VV_MEM_PROCESS :: "8 word" where "VV_MEM_PROCESS = 4"
definition vely_out_mem_mess :: string where
  "vely_out_mem_mess = ''Out of memory for [%lld] bytes''"

record vml =
  vptr :: nat
  status :: "8 word"
  next_free :: int

record block =
  hdr :: int
  total :: nat
  bytes :: string

type_synonym heap = "(nat \<times> block) list"

record os =
  os_malloc :: "heap \<Rightarrow> nat \<Rightarrow> nat option"
  os_bytes :: "nat \<Rightarrow> string"
  os_hdr :: int
  os_vml :: vml
  os_table_ok :: "nat \<Rightarrow> bool"

record mem =
  vm :: "vml list option"
  vm_curr :: nat
  vm_tot :: nat
  vm_first_free :: int
  vm_mem_type :: bool
  vely_mem_os :: bool
  vely_mem_process :: bool
  empty_string :: nat
  mheap :: heap
  files :: "(nat \<times> nat) list"

definition os_fresh :: "os \<Rightarrow> bool" where
  "os_fresh os \<longleftrightarrow>
     (\<forall>h n p. os_malloc os h n = Some p \<longrightarrow>
        p \<noteq> 0 \<and> (\<forall>(b, blk) \<in> set h. p + n < b \<or> b + total blk < p))
     \<and> (\<forall>n. length (os_bytes os n) = n)"

section \<open>The table\<close>

definition vm_at :: "mem \<Rightarrow> nat \<Rightarrow> vml res" where
  "vm_at m r = (case vm m of
      Some v \<Rightarrow> if r < length v then Inr (v ! r) else Inl Out_of_bounds
    | None \<Rightarrow> Inl Out_of_bounds)"

definition vm_put :: "mem \<Rightarrow> nat \<Rightarrow> vml \<Rightarrow> mem res" where
  "vm_put m r e = (case vm m of
      Some v \<Rightarrow> if r < length v then Inr (m\<lparr>vm := Some (v[r := e])\<rparr>) else Inl Out_of_bounds
    | None \<Rightarrow> Inl Out_of_bounds)"

definition vely_clear_mem :: "nat \<Rightarrow> mem \<Rightarrow> mem res" where
  "vely_clear_mem ind m = res_bind (vm_at m ind) (\<lambda>e. vm_put m ind (e\<lparr>vptr := 0\<rparr>))"

definition vely_set_mem_status :: "8 word \<Rightarrow> nat \<Rightarrow> mem \<Rightarrow> mem res" where
  "vely_set_mem_status s ind m =
     res_bind (vm_at m ind) (\<lambda>e. vm_put m ind (e\<lparr>status := status e OR s\<rparr>))"

text \<open>The entry that is taken: the first free one, or the next one of the table, which grows
  when it is used up.\<close>

definition vely_add_slot :: "os \<Rightarrow> mem \<Rightarrow> (nat \<times> mem) res" where
  "vely_add_slot os m =
     (if vm_first_free m \<noteq> -1 then
        (if vm_first_free m < 0 then Inl Out_of_bounds
         else res_bind (vm_at m (nat (vm_first_free m))) (\<lambda>e.
                Inr (nat (vm_first_free m), m\<lparr>vm_first_free := next_free e\<rparr>)))
      else
        (let r = vm_curr m; m1 = m\<lparr>vm_curr := vm_curr m + 1\<rparr> in
         if vm_curr m1 \<ge> vm_tot m1 then
           (let new_tot = vm_tot m1 + VELYMSIZE;
                old = (case vm m1 of Some v \<Rightarrow> v | None \<Rightarrow> []) in
            if os_table_ok os new_tot
            then Inr (r, m1\<lparr>vm_tot := new_tot,
                   vm := Some (take (vm_tot m1) old
                     @ replicate (new_tot - vm_tot m1) ((os_vml os)\<lparr>status := 0\<rparr>))\<rparr>)
            else Inl (Report_error vely_out_mem_mess))
         else Inr (r, m1)))"

definition vely_add_mem :: "os \<Rightarrow> nat \<Rightarrow> mem \<Rightarrow> (nat \<times> mem) res" where
  "vely_add_mem os p m =
     res_bind (vely_add_slot os m) (\<lambda>(r, m1).
     res_bind (vm_at m1 r) (\<lambda>e.
       let s = status e AND NOT VV_MEM_FREE;
           s' = (if vely_mem_process m1 then s OR VV_MEM_PROCESS else s) in
       res_bind (vm_put m1 r (e\<lparr>vptr := p, status := s'\<rparr>)) (\<lambda>m2. Inr (r, m2))))"

definition vely_reg_file :: "os \<Rightarrow> nat \<Rightarrow> mem \<Rightarrow> (nat \<times> mem) res" where
  "vely_reg_file os f m =
     res_bind (vely_add_mem os f m) (\<lambda>(mind, m1).
     res_bind (vely_set_mem_status VV_MEM_FILE mind m1) (\<lambda>m2. Inr (mind, m2)))"

section \<open>Blocks\<close>

definition vely_vmset :: "nat \<Rightarrow> nat \<Rightarrow> mem \<Rightarrow> (nat \<times> mem) res" where
  "vely_vmset p r m =
     (case map_of (mheap m) p of
        None \<Rightarrow> Inl Out_of_bounds
      | Some b \<Rightarrow> Inr (p + VV_ALIGN, m\<lparr>mheap := AList.update p (b\<lparr>hdr := int r\<rparr>) (mheap m)\<rparr>))"

text \<open>A new block of \<open>n\<close> bytes in all.  With the manager the first \<open>VV_ALIGN\<close> bytes are the
  header; \<open>content\<close> is what the rest holds.\<close>

definition c_alloc :: "os \<Rightarrow> nat \<Rightarrow> string \<Rightarrow> mem \<Rightarrow> (nat \<times> mem) option" where
  "c_alloc os n content m =
     (case os_malloc os (mheap m) n of
        None \<Rightarrow> None
      | Some p \<Rightarrow> Some (p, m\<lparr>mheap := (p, \<lparr>hdr = os_hdr os, total = n, bytes = content\<rparr>) # mheap m\<rparr>))"

definition c_free :: "nat \<Rightarrow> mem \<Rightarrow> mem res" where
  "c_free p m =
     (if p = 0 then Inr m
      else case map_of (mheap m) p of
        None \<Rightarrow> Inl Out_of_bounds
      | Some b \<Rightarrow> Inr (m\<lparr>mheap := AList.delete p (mheap m)\<rparr>))"

definition vely_get_memory :: "nat \<Rightarrow> mem \<Rightarrow> int res" where
  "vely_get_memory ptr m =
     (if ptr < VV_ALIGN then Inl Out_of_bounds
      else case map_of (mheap m) (ptr - VV_ALIGN) of None \<Rightarrow> Inl Out_of_bounds | Some b \<Rightarrow> Inr (hdr b))"

definition vely_alloc :: "os \<Rightarrow> nat \<Rightarrow> string \<Rightarrow> mem \<Rightarrow> (nat \<times> mem) res" where
  "vely_alloc os sz content m =
     (if vely_mem_os m then
        (case c_alloc os sz content m of
           None \<Rightarrow> Inl (Report_error vely_out_mem_mess)
         | Some (p, m1) \<Rightarrow> Inr (p, m1))
      else
        (case c_alloc os (sz + VV_ALIGN) content m of
           None \<Rightarrow> Inl (Report_error vely_out_mem_mess)
         | Some (p, m1) \<Rightarrow>
             res_bind (vely_add_mem os p m1) (\<lambda>(r, m2). vely_vmset p r m2)))"

definition vely_malloc :: "os \<Rightarrow> nat \<Rightarrow> mem \<Rightarrow> (nat \<times> mem) res" where
  "vely_malloc os sz m = vely_alloc os sz (os_bytes os sz) m"

definition vely_calloc :: "os \<Rightarrow> nat \<Rightarrow> nat \<Rightarrow> mem \<Rightarrow> (nat \<times> mem) res" where
  "vely_calloc os nmemb sz m = vely_alloc os (nmemb * sz) (replicate (nmemb * sz) NUL) m"

definition vely_strdup :: "os \<Rightarrow> string \<Rightarrow> mem \<Rightarrow> (nat \<times> mem) res" where
  "vely_strdup os s m = vely_alloc os (length s + 1) (s @ [NUL]) m"

definition vely_set_free :: "nat \<Rightarrow> mem \<Rightarrow> mem res" where
  "vely_set_free r m =
     res_bind (vm_at m r) (\<lambda>e.
     res_bind (vm_put m r (e\<lparr>vptr := 0, status := status e OR VV_MEM_FREE,
                              next_free := vm_first_free m\<rparr>)) (\<lambda>m1.
       Inr (m1\<lparr>vm_first_free := int r\<rparr>)))"

text \<open>The check of \<open>ptr\<close> against the table, \<^verbatim>\<open>(r < 0 || r >= vm_curr) || vm[r].ptr != ptr - VV_ALIGN\<close>.\<close>

definition mem_mismatch :: "nat \<Rightarrow> int \<Rightarrow> mem \<Rightarrow> bool res" where
  "mem_mismatch ptr r m =
     (if r < 0 \<or> r \<ge> int (vm_curr m) then Inr True
      else res_bind (vm_at m (nat r)) (\<lambda>e. Inr (vptr e \<noteq> ptr - VV_ALIGN)))"

definition vely_mem_set_process :: "nat \<Rightarrow> mem \<Rightarrow> mem res" where
  "vely_mem_set_process ptr m =
     (if \<not> vely_mem_os m \<and> vely_mem_process m then
        res_bind (vely_get_memory ptr m) (\<lambda>r.
        res_bind (mem_mismatch ptr r m) (\<lambda>bad.
          if bad then Inl (Report_error ''Invalid memory attempted to be set as process-scope memory'')
          else vely_set_mem_status VV_MEM_PROCESS (nat r) m))
      else Inr m)"

definition c_realloc :: "os \<Rightarrow> nat \<Rightarrow> nat \<Rightarrow> nat \<Rightarrow> mem \<Rightarrow> (nat \<times> mem) option res" where
  "c_realloc os p n keep m =
     (case map_of (mheap m) p of
        None \<Rightarrow> Inl Out_of_bounds
      | Some b \<Rightarrow>
          Inr (c_alloc os n (take keep (bytes b @ os_bytes os keep))
                 (m\<lparr>mheap := AList.delete p (mheap m)\<rparr>)))"

definition vely_realloc :: "os \<Rightarrow> nat \<Rightarrow> nat \<Rightarrow> bool \<Rightarrow> mem \<Rightarrow> (nat \<times> mem) res" where
  "vely_realloc os ptr sz safe m =
     (if ptr = empty_string m \<or> ptr = 0 then vely_malloc os sz m
      else if vely_mem_os m then
        res_bind (c_realloc os ptr sz sz m) (\<lambda>x.
          case x of None \<Rightarrow> Inl (Report_error vely_out_mem_mess) | Some y \<Rightarrow> Inr y)
      else
        res_bind (vely_get_memory ptr m) (\<lambda>r.
        res_bind (if safe then mem_mismatch ptr r m else Inr False) (\<lambda>bad.
          if bad then Inl (Report_error ''Invalid memory to realloc'')
          else if r < 0 then Inl Out_of_bounds
          else
            res_bind (vely_set_free (nat r) m) (\<lambda>m1.
            res_bind (c_realloc os (ptr - VV_ALIGN) (sz + VV_ALIGN) sz m1) (\<lambda>x.
              case x of
                None \<Rightarrow> Inl (Report_error vely_out_mem_mess)
              | Some (p, m2) \<Rightarrow> res_bind (vely_add_mem os p m2) (\<lambda>(r', m3). vely_vmset p r' m3))))))"

definition vely_free :: "nat \<Rightarrow> bool \<Rightarrow> mem \<Rightarrow> (bool \<times> mem) res" where
  "vely_free ptr check m =
     (if ptr = empty_string m \<or> ptr = 0 then Inr (True, m)
      else if vely_mem_os m then res_bind (c_free ptr m) (\<lambda>m1. Inr (True, m1))
      else
        res_bind (vely_get_memory ptr m) (\<lambda>r.
        res_bind (if check then mem_mismatch ptr r m else Inr False) (\<lambda>bad.
          if bad then Inr (False, m)
          else if r < 0 then Inl Out_of_bounds
          else
            res_bind (vm_at m (nat r)) (\<lambda>e.
              if status e AND VV_MEM_FREE \<noteq> 0 then Inr (False, m)
              else
                res_bind (vely_set_free (nat r) m) (\<lambda>m1.
                res_bind (c_free (ptr - VV_ALIGN) m1) (\<lambda>m2. Inr (True, m2)))))))"

definition vely_safe_free :: "nat \<Rightarrow> mem \<Rightarrow> (int \<times> mem) res" where
  "vely_safe_free ptr m =
     res_bind (vely_free ptr True m) (\<lambda>(ok, m1).
       Inr (if \<not> ok then VV_ERR_MEMORY else VV_OKAY, m1))"

section \<open>The end of a request\<close>

text \<open>One turn of the loop over the table; the first component says if a process-scoped block
  was met.  Closing a file sets its pointer to null.\<close>

definition done_entry :: "nat \<Rightarrow> bool \<times> mem \<Rightarrow> (bool \<times> mem) res" where
  "done_entry i = (\<lambda>(keep_mem, m).
     res_bind (vm_at m i) (\<lambda>e.
       if status e AND VV_MEM_FREE \<noteq> 0 then Inr (keep_mem, m)
       else if vptr e \<noteq> 0 then
         (if status e AND VV_MEM_FILE \<noteq> 0 then
            (case map_of (files m) (vptr e) of
               None \<Rightarrow> Inl Out_of_bounds
             | Some f \<Rightarrow> Inr (keep_mem, m\<lparr>files := AList.update (vptr e) 0 (files m)\<rparr>))
          else if status e AND VV_MEM_PROCESS \<noteq> VV_MEM_PROCESS then
            res_bind (vely_free (vptr e + VV_ALIGN) False m) (\<lambda>(ok, m1). Inr (keep_mem, m1))
          else Inr (True, m))
       else Inr (keep_mem, m)))"

fun done_loop :: "nat list \<Rightarrow> bool \<times> mem \<Rightarrow> (bool \<times> mem) res" where
  "done_loop [] st = Inr st"
| "done_loop (i # is) st = res_bind (done_entry i st) (done_loop is)"

definition vely_done :: "os \<Rightarrow> mem \<Rightarrow> mem res" where
  "vely_done os m =
     res_bind
       (if vm m \<noteq> None
        then res_bind (done_loop [0..<vm_curr m] (False, m)) (\<lambda>(keep_mem, m1).
               Inr (if \<not> keep_mem then m1\<lparr>vm := None\<rparr> else m1))
        else Inr m)
       (\<lambda>m1.
         if vm m1 = None then
           (if os_table_ok os VELYMSIZE
            then Inr (m1\<lparr>vm := Some (replicate VELYMSIZE \<lparr>vptr = 0, status = 0, next_free = 0\<rparr>),
                         vm_tot := VELYMSIZE, vm_curr := 0, vm_first_free := -1\<rparr>)
            else Inl (Report_error ''Out of memory''))
         else Inr m1)"

definition vely_memory_init :: "os \<Rightarrow> mem \<Rightarrow> mem res" where
  "vely_memory_init os m =
     (if empty_string m = 0 then
        (case c_alloc os 1 [NUL] m of
           None \<Rightarrow> Inl (Report_error ''Out of memory'')
         | Some (p, m1) \<Rightarrow> vely_done os (m1\<lparr>empty_string := p\<rparr>))
      else vely_done os m)"

definition vely_unmanaged :: "mem \<Rightarrow> mem" where
  "vely_unmanaged m = m\<lparr>vm_mem_type := vely_mem_os m, vely_mem_os := True\<rparr>"

definition vely_managed :: "mem \<Rightarrow> mem" where
  "vely_managed m = m\<lparr>vm_mem_type := vely_mem_os m, vely_mem_os := False\<rparr>"

definition vely_mrestore :: "mem \<Rightarrow> mem" where
  "vely_mrestore m = m\<lparr>vely_mem_os := vm_mem_type m\<rparr>"

text \<open>The process starts with the values of the static variables.\<close>

definition mem_start :: mem where
  "mem_start = \<lparr>vm = None, vm_curr = 0, vm_tot = 0, vm_first_free = -1, vm_mem_type = False,
     vely_mem_os = False, vely_mem_process = False, empty_string = 0, mheap = [], files = []\<rparr>"

section \<open>Status bits\<close>

lemma status_bits [simp]:
  "bit VV_MEM_FREE n \<longleftrightarrow> n = 0" "bit VV_MEM_FILE n \<longleftrightarrow> n = 1" "bit VV_MEM_PROCESS n \<longleftrightarrow> n = 2"
  using bit_exp_iff [of 0 n, where ?'a = "8 word"] bit_exp_iff [of 1 n, where ?'a = "8 word"]
    bit_exp_iff [of 2 n, where ?'a = "8 word"]
  by (auto simp: VV_MEM_FREE_def VV_MEM_FILE_def VV_MEM_PROCESS_def bit_1_iff)

lemma and_eq_iff:
  fixes s m :: "8 word"
  shows "s AND m = 0 \<longleftrightarrow> (\<forall>n. bit m n \<longrightarrow> \<not> bit s n)" "s AND m = m \<longleftrightarrow> (\<forall>n. bit m n \<longrightarrow> bit s n)"
proof -
  have lt: "n < 8" if "bit s n \<or> bit m n" for n
    using that bit_imp_le_length [of s n] bit_imp_le_length [of m n] by auto
  show "s AND m = 0 \<longleftrightarrow> (\<forall>n. bit m n \<longrightarrow> \<not> bit s n)"
    unfolding bit_eq_iff [of "s AND m"] by (simp add: bit_and_iff) (metis lt)
  show "s AND m = m \<longleftrightarrow> (\<forall>n. bit m n \<longrightarrow> bit s n)"
    unfolding bit_eq_iff [of "s AND m"] by (simp add: bit_and_iff) (metis lt)
qed

lemma status_tests [simp]:
  "s AND VV_MEM_FREE = 0 \<longleftrightarrow> \<not> bit s 0"
  "s AND VV_MEM_FILE = 0 \<longleftrightarrow> \<not> bit s (Suc 0)"
  "s AND VV_MEM_PROCESS = VV_MEM_PROCESS \<longleftrightarrow> bit s 2"
  by (simp_all add: and_eq_iff)

section \<open>The invariant\<close>

primrec free_chain :: "vml list \<Rightarrow> int \<Rightarrow> nat list \<Rightarrow> bool" where
  "free_chain v k [] \<longleftrightarrow> k = -1"
| "free_chain v k (x # xs) \<longleftrightarrow> k = int x \<and> x < length v \<and> free_chain v (next_free (v ! x)) xs"

text \<open>An entry is free, or belongs to a file, or holds a block that has its index in front.\<close>

definition entry_ok :: "mem \<Rightarrow> nat \<Rightarrow> vml \<Rightarrow> bool" where
  "entry_ok m i e \<longleftrightarrow>
     (if bit (status e) 0 then vptr e = 0 \<and> \<not> bit (status e) 1
      else if bit (status e) 1 then vptr e = 0 \<or> vptr e \<in> fst ` set (files m)
      else vptr e \<noteq> 0 \<and> vptr e \<noteq> empty_string m \<and> vptr e + VV_ALIGN \<noteq> empty_string m
           \<and> (\<exists>b. map_of (mheap m) (vptr e) = Some b \<and> hdr b = int i))"

definition strings_ok :: "mem \<Rightarrow> bool" where
  "strings_ok m \<longleftrightarrow> empty_string m \<noteq> 0
     \<and> (\<exists>b. map_of (mheap m) (empty_string m) = Some b \<and> total b = 1)"

text \<open>The table, with an entry that is just being taken left out.\<close>

definition table_ok :: "nat set \<Rightarrow> mem \<Rightarrow> bool" where
  "table_ok holes m \<longleftrightarrow> (\<exists>v xs. vm m = Some v \<and> length v = vm_tot m \<and> vm_curr m < vm_tot m
     \<and> free_chain v (vm_first_free m) xs \<and> distinct xs
     \<and> set xs = {i. i < vm_curr m \<and> i \<notin> holes \<and> bit (status (v ! i)) 0}
     \<and> (\<forall>i<vm_curr m. i \<notin> holes \<longrightarrow> entry_ok m i (v ! i))
     \<and> (\<forall>i. vm_curr m \<le> i \<and> i < vm_tot m \<longrightarrow> status (v ! i) = 0)
     \<and> (\<forall>r\<in>holes. r < vm_curr m \<and> \<not> bit (status (v ! r)) 1))"

definition mem_ok :: "mem \<Rightarrow> bool" where
  "mem_ok m \<longleftrightarrow> table_ok {} m \<and> strings_ok m"

text \<open>The blocks that the program holds: for a pointer it was given, whether the block is
  process-scoped, and the bytes.\<close>

definition live :: "mem \<Rightarrow> nat \<Rightarrow> vml option" where
  "live m i = (case vm m of
      Some v \<Rightarrow> if i < vm_curr m \<and> \<not> bit (status (v ! i)) 0 \<and> \<not> bit (status (v ! i)) 1
               then Some (v ! i) else None
    | None \<Rightarrow> None)"

definition mem_block :: "mem \<Rightarrow> nat \<Rightarrow> (bool \<times> string) option" where
  "mem_block m ptr =
     (if ptr < VV_ALIGN then None
      else case map_of (mheap m) (ptr - VV_ALIGN) of
        None \<Rightarrow> None
      | Some b \<Rightarrow>
          (if hdr b < 0 then None
           else case live m (nat (hdr b)) of
             None \<Rightarrow> None
           | Some e \<Rightarrow> if vptr e = ptr - VV_ALIGN then Some (bit (status e) 2, bytes b) else None))"

lemma free_chain_update:
  "free_chain v k xs \<Longrightarrow> i \<notin> set xs \<Longrightarrow> free_chain (v[i := e]) k xs"
  by (induction xs arbitrary: k) auto

lemma free_chain_append: "free_chain v k xs \<Longrightarrow> free_chain (v @ w) k xs"
  by (induction xs arbitrary: k) (auto simp: nth_append)

lemma live_entry_ok:
  "mem_ok m \<Longrightarrow> live m i = Some e \<Longrightarrow> vptr e \<noteq> 0 \<and> vptr e \<noteq> empty_string m \<and> vptr e + VV_ALIGN \<noteq> empty_string m
     \<and> (\<exists>b. map_of (mheap m) (vptr e) = Some b \<and> hdr b = int i)"
  by (fastforce simp: mem_ok_def table_ok_def live_def entry_ok_def split: if_splits)

lemma mem_block_iff:
  assumes "mem_ok m"
  shows "mem_block m ptr = Some (pr, c) \<longleftrightarrow>
    (\<exists>i e b. live m i = Some e \<and> ptr = vptr e + VV_ALIGN \<and> map_of (mheap m) (vptr e) = Some b
        \<and> pr = bit (status e) 2 \<and> c = bytes b)"
proof
  assume "mem_block m ptr = Some (pr, c)"
  then obtain b e where "map_of (mheap m) (ptr - VV_ALIGN) = Some b" "live m (nat (hdr b)) = Some e"
      "vptr e = ptr - VV_ALIGN" "pr = bit (status e) 2" "c = bytes b" "\<not> ptr < VV_ALIGN"
    by (auto simp: mem_block_def split: option.splits if_splits)
  then show "\<exists>i e b. live m i = Some e \<and> ptr = vptr e + VV_ALIGN
      \<and> map_of (mheap m) (vptr e) = Some b \<and> pr = bit (status e) 2 \<and> c = bytes b"
    by (intro exI [of _ "nat (hdr b)"] exI [of _ e] exI [of _ b]) simp
next
  assume "\<exists>i e b. live m i = Some e \<and> ptr = vptr e + VV_ALIGN
      \<and> map_of (mheap m) (vptr e) = Some b \<and> pr = bit (status e) 2 \<and> c = bytes b"
  then obtain i e b where l: "live m i = Some e" "ptr = vptr e + VV_ALIGN"
      "map_of (mheap m) (vptr e) = Some b" "pr = bit (status e) 2" "c = bytes b"
    by blast
  moreover from this have "hdr b = int i" using live_entry_ok [OF assms l(1)] by auto
  ultimately show "mem_block m ptr = Some (pr, c)" by (simp add: mem_block_def)
qed

section \<open>Taking an entry\<close>

text \<open>The parts of the state that the table operations leave alone.\<close>

definition same_env :: "mem \<Rightarrow> mem \<Rightarrow> bool" where
  "same_env m m' \<longleftrightarrow> files m' = files m \<and> empty_string m' = empty_string m
     \<and> vely_mem_os m' = vely_mem_os m \<and> vely_mem_process m' = vely_mem_process m
     \<and> vm_mem_type m' = vm_mem_type m"

lemma same_env_refl [simp]: "same_env m m"
  by (simp add: same_env_def)

lemma same_env_trans: "same_env m m' \<Longrightarrow> same_env m' m'' \<Longrightarrow> same_env m m''"
  by (simp add: same_env_def)

definition slot_taken :: "mem \<Rightarrow> nat \<Rightarrow> mem \<Rightarrow> bool" where
  "slot_taken m r m1 \<longleftrightarrow> table_ok {r} m1 \<and> mheap m1 = mheap m \<and> same_env m m1
     \<and> (\<forall>i. i \<noteq> r \<longrightarrow> live m1 i = live m i) \<and> live m r = None"

lemma entry_ok_cong:
  "mheap m' = mheap m \<Longrightarrow> files m' = files m \<Longrightarrow> empty_string m' = empty_string m \<Longrightarrow>
     entry_ok m' i e = entry_ok m i e"
  by (simp add: entry_ok_def)

text \<open>The C library can be out of memory at some point.\<close>

definition oom :: "os \<Rightarrow> bool" where
  "oom os \<longleftrightarrow> (\<exists>h n. os_malloc os h n = None) \<or> (\<exists>n. \<not> os_table_ok os n)"

lemma add_slot_free:
  assumes "table_ok {} m" "vm_first_free m \<noteq> -1"
  shows "\<exists>r m1. vely_add_slot os m = Inr (r, m1) \<and> slot_taken m r m1"
proof -
  obtain v xs where v: "vm m = Some v" "length v = vm_tot m" "vm_curr m < vm_tot m"
    and xs: "free_chain v (vm_first_free m) xs" "distinct xs"
      "set xs = {i. i < vm_curr m \<and> bit (status (v ! i)) 0}"
    and en: "\<forall>i<vm_curr m. entry_ok m i (v ! i)"
    and ze: "\<forall>i. vm_curr m \<le> i \<and> i < vm_tot m \<longrightarrow> status (v ! i) = 0"
    using assms(1) by (auto simp: table_ok_def)
  obtain r ys where r: "xs = r # ys" using xs(1) assms(2) by (cases xs) auto
  then have k: "vm_first_free m = int r" "r < length v" "free_chain v (next_free (v ! r)) ys"
    using xs(1) by auto
  have rf: "r < vm_curr m" "bit (status (v ! r)) 0" using xs(3) r by auto
  let ?m1 = "m\<lparr>vm_first_free := next_free (v ! r)\<rparr>"
  have e: "vely_add_slot os m = Inr (r, ?m1)"
    using k v by (simp add: vely_add_slot_def vm_at_def res_bind_def)
  have "entry_ok ?m1 = entry_ok m" by (intro ext entry_ok_cong) simp_all
  moreover have "\<not> bit (status (v ! r)) 1" using en rf by (auto simp: entry_ok_def)
  moreover have "set ys = {i. i < vm_curr m \<and> i \<noteq> r \<and> bit (status (v ! i)) 0}"
    using xs(2,3) r by auto
  ultimately have "table_ok {r} ?m1"
    using v k en ze rf xs(2) r unfolding table_ok_def by (intro exI [of _ v] exI [of _ ys]) auto
  then show ?thesis using e rf v by (auto simp: slot_taken_def same_env_def live_def)
qed

lemma add_slot_next:
  assumes "table_ok {} m" "vm_first_free m = -1"
  shows "vely_add_slot os m = Inl (Report_error vely_out_mem_mess) \<and> oom os
    \<or> (\<exists>r m1. vely_add_slot os m = Inr (r, m1) \<and> slot_taken m r m1)"
proof -
  obtain v xs where v: "vm m = Some v" "length v = vm_tot m" "vm_curr m < vm_tot m"
    and xs: "free_chain v (vm_first_free m) xs" "distinct xs"
      "set xs = {i. i < vm_curr m \<and> bit (status (v ! i)) 0}"
    and en: "\<forall>i<vm_curr m. entry_ok m i (v ! i)"
    and ze: "\<forall>i. vm_curr m \<le> i \<and> i < vm_tot m \<longrightarrow> status (v ! i) = 0"
    using assms(1) by (auto simp: table_ok_def)
  have nil: "xs = []" using xs(1) assms(2) by (cases xs) auto
  show ?thesis
  proof (cases "vm_curr m + 1 \<ge> vm_tot m")
    case False
    let ?m1 = "m\<lparr>vm_curr := vm_curr m + 1\<rparr>"
    have e: "vely_add_slot os m = Inr (vm_curr m, ?m1)"
      using False assms(2) by (simp add: vely_add_slot_def)
    have "entry_ok ?m1 = entry_ok m" by (intro ext entry_ok_cong) simp_all
    then have "table_ok {vm_curr m} ?m1"
      using v en ze xs nil False unfolding table_ok_def
      by (intro exI [of _ v] exI [of _ xs]) (auto simp: less_Suc_eq)
    then show ?thesis
      using e v by (auto simp: slot_taken_def same_env_def live_def less_Suc_eq)
  next
    case True
    let ?new = "replicate VELYMSIZE ((os_vml os)\<lparr>status := 0\<rparr>)"
    let ?m1 = "m\<lparr>vm_curr := vm_curr m + 1, vm_tot := vm_tot m + VELYMSIZE, vm := Some (v @ ?new)\<rparr>"
    have e: "vely_add_slot os m =
        (if os_table_ok os (vm_tot m + VELYMSIZE) then Inr (vm_curr m, ?m1)
         else Inl (Report_error vely_out_mem_mess))"
      using True assms(2) v by (simp add: vely_add_slot_def Let_def)
    have "entry_ok ?m1 = entry_ok m" by (intro ext entry_ok_cong) simp_all
    then have "table_ok {vm_curr m} ?m1"
      using v en ze xs nil True unfolding table_ok_def
      by (intro exI [of _ "v @ ?new"] exI [of _ xs])
        (auto simp: less_Suc_eq VELYMSIZE_def nth_append)
    then show ?thesis
      using e v by (auto simp: slot_taken_def same_env_def live_def less_Suc_eq nth_append oom_def)
  qed
qed

lemma add_slot_ok:
  "table_ok {} m \<Longrightarrow> vely_add_slot os m = Inl (Report_error vely_out_mem_mess) \<and> oom os
    \<or> (\<exists>r m1. vely_add_slot os m = Inr (r, m1) \<and> slot_taken m r m1)"
  using add_slot_free add_slot_next by (cases "vm_first_free m = -1") blast+

text \<open>The entry taken is filled in.\<close>

lemma fill_slot:
  assumes "table_ok {r} m" "\<not> bit (status e) 0" "entry_ok m r e"
  shows "\<exists>m'. vm_put m r e = Inr m' \<and> table_ok {} m' \<and> mheap m' = mheap m \<and> same_env m m'
    \<and> (\<forall>i. i \<noteq> r \<longrightarrow> live m' i = live m i) \<and> live m' r = (if bit (status e) 1 then None else Some e)"
proof -
  obtain v xs where v: "vm m = Some v" "length v = vm_tot m" "vm_curr m < vm_tot m"
    and xs: "free_chain v (vm_first_free m) xs" "distinct xs"
      "set xs = {i. i < vm_curr m \<and> i \<noteq> r \<and> bit (status (v ! i)) 0}"
    and en: "\<forall>i<vm_curr m. i \<noteq> r \<longrightarrow> entry_ok m i (v ! i)"
    and ze: "\<forall>i. vm_curr m \<le> i \<and> i < vm_tot m \<longrightarrow> status (v ! i) = 0"
    and r: "r < vm_curr m"
    using assms(1) by (auto simp: table_ok_def)
  let ?m' = "m\<lparr>vm := Some (v[r := e])\<rparr>"
  have eo: "entry_ok ?m' = entry_ok m" by (intro ext entry_ok_cong) simp_all
  have "free_chain (v[r := e]) (vm_first_free m) xs"
    using xs by (intro free_chain_update) auto
  then have "table_ok {} ?m'"
    using v xs en ze r assms(2,3) unfolding table_ok_def eo
    by (intro exI [of _ "v[r := e]"] exI [of _ xs]) (auto simp: nth_list_update)
  moreover have "vm_put m r e = Inr ?m'" using v r by (simp add: vm_put_def)
  ultimately show ?thesis
    using v r assms(2) by (intro exI [of _ ?m']) (auto simp: same_env_def live_def nth_list_update)
qed

section \<open>Blocks and their entries\<close>

lemma option_eqI: "(\<And>y. a = Some y \<longleftrightarrow> b = Some y) \<Longrightarrow> a = b"
  by (cases a; cases b) auto

text \<open>Two states that agree on live entries and on the blocks of these hold the same.\<close>

lemma mem_block_cong:
  assumes "mem_ok m" "mem_ok m'" "\<And>i. live m' i = live m i"
    and "\<And>i e. live m i = Some e \<Longrightarrow>
      map_option bytes (map_of (mheap m') (vptr e)) = map_option bytes (map_of (mheap m) (vptr e))"
  shows "mem_block m' = mem_block m"
proof
  fix ptr
  have "mem_block m' ptr = Some y \<longleftrightarrow> mem_block m ptr = Some y" for y
  proof -
    obtain pr c where y: "y = (pr, c)" by (cases y)
    have "(\<exists>b. map_of (mheap m') (vptr e) = Some b \<and> pr = bit (status e) 2 \<and> c = bytes b)
        \<longleftrightarrow> (\<exists>b. map_of (mheap m) (vptr e) = Some b \<and> pr = bit (status e) 2 \<and> c = bytes b)"
      if "live m i = Some e" for i e
      using assms(4) [OF that]
      by (cases "map_of (mheap m') (vptr e)"; cases "map_of (mheap m) (vptr e)") auto
    then show ?thesis
      unfolding y mem_block_iff [OF assms(1)] mem_block_iff [OF assms(2)] assms(3) by blast
  qed
  then show "mem_block m' ptr = mem_block m ptr" by (rule option_eqI)
qed

lemma live_mheap [simp]: "live (m\<lparr>mheap := h\<rparr>) = live m" "live (m\<lparr>files := fs\<rparr>) = live m"
  by (simp_all add: live_def fun_eq_iff split: option.split)

lemma map_of_update: "map_of (AList.update p b h) q = (if q = p then Some b else map_of h q)"
  by (simp add: update_conv)

text \<open>Writing the number in front of a block that no entry has.\<close>

lemma retag_ok:
  assumes "table_ok {r} m" "\<And>i e. i \<noteq> r \<Longrightarrow> live m i = Some e \<Longrightarrow> vptr e \<noteq> p"
  shows "table_ok {r} (m\<lparr>mheap := AList.update p b (mheap m)\<rparr>)"
proof -
  let ?m' = "m\<lparr>mheap := AList.update p b (mheap m)\<rparr>"
  obtain w xs where w: "vm m = Some w" "length w = vm_tot m" "vm_curr m < vm_tot m"
      "free_chain w (vm_first_free m) xs" "distinct xs"
      "set xs = {i. i < vm_curr m \<and> i \<notin> {r} \<and> bit (status (w ! i)) 0}"
      "\<forall>i<vm_curr m. i \<notin> {r} \<longrightarrow> entry_ok m i (w ! i)"
      "\<forall>i. vm_curr m \<le> i \<and> i < vm_tot m \<longrightarrow> status (w ! i) = 0"
      "\<forall>k\<in>{r}. k < vm_curr m \<and> \<not> bit (status (w ! k)) 1"
    using assms(1) unfolding table_ok_def by blast
  have "entry_ok ?m' i (w ! i)" if i: "i < vm_curr m" "i \<noteq> r" for i
  proof (cases "live m i")
    case None
    then show ?thesis using w(1,7) i by (auto simp: entry_ok_def live_def split: if_splits)
  next
    case (Some f)
    then have "f = w ! i" using w(1) by (simp add: live_def split: if_splits)
    then have "vptr (w ! i) \<noteq> p" using assms(2) Some i by blast
    then show ?thesis using w(7) i by (auto simp: entry_ok_def map_of_update)
  qed
  then show ?thesis using w unfolding table_ok_def by (intro exI [of _ w] exI [of _ xs]) auto
qed

text \<open>What the program holds after one entry is added.\<close>

lemma mem_block_added:
  assumes m: "mem_ok m" and m2: "mem_ok m2"
    and lv: "\<And>i. live m2 i = (if i = r then Some e else live m i)" and "live m r = None"
    and new: "\<And>i f. live m i = Some f \<Longrightarrow> vptr f \<noteq> p"
    and h: "map_of (mheap m2) p = Some b" "\<And>q. q \<noteq> p \<Longrightarrow> map_of (mheap m2) q = map_of (mheap m) q"
    and e: "vptr e = p"
  shows "mem_block m2 = (mem_block m)(p + VV_ALIGN \<mapsto> (bit (status e) 2, bytes b))"
proof
  fix ptr
  have "mem_block m2 ptr = Some y \<longleftrightarrow>
      ((mem_block m)(p + VV_ALIGN \<mapsto> (bit (status e) 2, bytes b))) ptr = Some y" for y
  proof (cases "ptr = p + VV_ALIGN")
    case True
    have "mem_block m2 ptr = Some (bit (status e) 2, bytes b)"
      unfolding mem_block_iff [OF m2] using True h(1) e
      by (intro exI [of _ r] exI [of _ e] exI [of _ b]) (simp add: lv)
    then show ?thesis using True by auto
  next
    case False
    obtain pr c where y: "y = (pr, c)" by (cases y)
    have "mem_block m2 ptr = Some (pr, c) \<longleftrightarrow> mem_block m ptr = Some (pr, c)"
      unfolding mem_block_iff [OF m2] mem_block_iff [OF m] lv
      using False assms(4) e h(2) new by (metis (no_types, lifting) option.distinct(1) option.inject)
    then show ?thesis using False y by simp
  qed
  then show "mem_block m2 ptr = ((mem_block m)(p + VV_ALIGN \<mapsto> (bit (status e) 2, bytes b))) ptr"
    by (rule option_eqI)
qed

text \<open>A block that no entry has yet is entered in the table: the program gets a pointer to it
  and everything it held stays as it was.\<close>

lemma add_block:
  assumes m: "mem_ok m" and b: "map_of (mheap m) p = Some b" "p \<noteq> 0" "p \<noteq> empty_string m" "p + VV_ALIGN \<noteq> empty_string m"
    and new: "\<And>i e. live m i = Some e \<Longrightarrow> vptr e \<noteq> p"
  shows "vely_add_mem os p m = Inl (Report_error vely_out_mem_mess) \<and> oom os
    \<or> (\<exists>r m1 m2 pr. vely_add_mem os p m = Inr (r, m1) \<and> vely_vmset p r m1 = Inr (p + VV_ALIGN, m2)
         \<and> mem_ok m2 \<and> mem_block m2 = (mem_block m)(p + VV_ALIGN \<mapsto> (pr, bytes b))
         \<and> (vely_mem_process m \<longrightarrow> pr) \<and> same_env m m2 \<and> fst ` set (mheap m2) = fst ` set (mheap m))"
proof (cases "vely_add_slot os m = Inl (Report_error vely_out_mem_mess)")
  case True
  moreover have "oom os" using True add_slot_ok [of m os] m by (auto simp: mem_ok_def)
  ultimately show ?thesis by (simp add: vely_add_mem_def res_bind_def)
next
  case False
  have tm: "table_ok {} m" and sm: "strings_ok m" using m by (simp_all add: mem_ok_def)
  obtain r m1 where s: "vely_add_slot os m = Inr (r, m1)" and t1: "table_ok {r} m1"
      "mheap m1 = mheap m" "same_env m m1" "\<And>i. i \<noteq> r \<Longrightarrow> live m1 i = live m i" "live m r = None"
    using add_slot_ok [OF tm, of os] False by (auto simp: slot_taken_def)
  obtain v where v: "vm m1 = Some v" "r < length v" "\<not> bit (status (v ! r)) 1"
    using t1(1) by (auto simp: table_ok_def)
  let ?s = "status (v ! r) AND NOT VV_MEM_FREE"
  let ?e = "(v ! r)\<lparr>vptr := p, status := if vely_mem_process m1 then ?s OR VV_MEM_PROCESS else ?s\<rparr>"
  let ?b = "b\<lparr>hdr := int r\<rparr>" and ?h = "AList.update p (b\<lparr>hdr := int r\<rparr>) (mheap m)"
  let ?mh = "m1\<lparr>mheap := ?h\<rparr>" and ?ma = "m1\<lparr>vm := Some (v[r := ?e])\<rparr>"
  have bits: "\<not> bit (status ?e) 0" "\<not> bit (status ?e) 1"
    using v(3) by (auto simp: bit_simps)
  have th: "table_ok {r} ?mh"
    using retag_ok [OF t1(1), of p ?b] t1(2,4) new by simp
  have "entry_ok ?mh r ?e"
    using bits b t1(3) by (simp add: entry_ok_def map_of_update same_env_def)
  then obtain m2 where m2: "vm_put ?mh r ?e = Inr m2" "table_ok {} m2" "mheap m2 = ?h"
      "same_env ?mh m2" "\<And>i. i \<noteq> r \<Longrightarrow> live m2 i = live m1 i" "live m2 r = Some ?e"
    using fill_slot [OF th bits(1)] bits(2) by auto
  have "m2 = ?mh\<lparr>vm := Some (v[r := ?e])\<rparr>" using m2(1) v by (simp add: vm_put_def)
  also have "\<dots> = ?ma\<lparr>mheap := ?h\<rparr>" by (cases m1) simp
  finally have e2: "vely_vmset p r ?ma = Inr (p + VV_ALIGN, m2)"
    using b(1) t1(2) by (simp add: vely_vmset_def)
  have e1: "vely_add_mem os p m = Inr (r, ?ma)"
    using s v by (simp add: vely_add_mem_def res_bind_def vm_at_def vm_put_def Let_def)
  have env: "same_env m m2" using t1(3) m2(4) by (simp add: same_env_def)
  have lv: "live m2 i = (if i = r then Some ?e else live m i)" for i
    using m2(5,6) t1(4) by (cases "i = r") simp_all
  have "strings_ok m2"
    using sm env b(1) by (auto simp: strings_ok_def m2(3) map_of_update same_env_def)
  then have ok2: "mem_ok m2" using m2(2) by (simp add: mem_ok_def)
  have "mem_block m2 = (mem_block m)(p + VV_ALIGN \<mapsto> (bit (status ?e) 2, bytes ?b))"
    by (rule mem_block_added [OF m ok2 lv t1(5) new]) (simp_all add: m2(3) map_of_update)
  moreover have "vely_mem_process m \<longrightarrow> bit (status ?e) 2"
    using t1(3) by (auto simp: same_env_def bit_simps)
  moreover have "fst ` set (mheap m2) = fst ` set (mheap m)"
    using b(1) by (auto simp: m2(3) dom_update dest!: map_of_SomeD intro: rev_image_eqI)
  ultimately show ?thesis using e1 e2 ok2 env by force
qed

section \<open>Releasing an entry, and the heap below\<close>

lemma table_live: "vm m = Some v \<Longrightarrow> live m i = Some e \<Longrightarrow>
    e = v ! i \<and> i < vm_curr m \<and> \<not> bit (status (v ! i)) 0 \<and> \<not> bit (status (v ! i)) 1"
  by (simp add: live_def split: if_splits)

lemma live_unique:
  "mem_ok m \<Longrightarrow> live m i = Some e \<Longrightarrow> live m j = Some f \<Longrightarrow> vptr f = vptr e \<Longrightarrow> j = i"
  using live_entry_ok [of m i e] live_entry_ok [of m j f] by auto

lemma mem_block_removed:
  assumes "mem_ok m" "mem_ok m1" "live m r = Some e" "mheap m1 = mheap m"
    and lv: "\<And>i. live m1 i = (if i = r then None else live m i)"
  shows "mem_block m1 = (mem_block m)(vptr e + VV_ALIGN := None)"
proof
  fix ptr
  have ne: "i \<noteq> r \<longleftrightarrow> vptr f \<noteq> vptr e" if "live m i = Some f" for i f
    using live_unique [OF assms(1,3) that] that assms(3) by auto
  have "mem_block m1 ptr = Some (pr, c)
      \<longleftrightarrow> ((mem_block m)(vptr e + VV_ALIGN := None)) ptr = Some (pr, c)" for pr c
  proof (cases "ptr = vptr e + VV_ALIGN")
    case True
    then show ?thesis
      using ne by (simp add: mem_block_iff [OF assms(2)] lv) metis
  next
    case False
    then show ?thesis
      using ne by (simp add: mem_block_iff [OF assms(2)] mem_block_iff [OF assms(1)] lv assms(4)) metis
  qed
  then show "mem_block m1 ptr = ((mem_block m)(vptr e + VV_ALIGN := None)) ptr"
    by (intro option_eqI) (metis surj_pair)
qed

lemma set_free_ok:
  assumes "mem_ok m" "live m r = Some e"
  shows "\<exists>m1. vely_set_free r m = Inr m1 \<and> mem_ok m1 \<and> mheap m1 = mheap m \<and> same_env m m1
    \<and> (\<forall>i. live m1 i = (if i = r then None else live m i))
    \<and> mem_block m1 = (mem_block m)(vptr e + VV_ALIGN := None)"
proof -
  obtain v xs where v: "vm m = Some v" "length v = vm_tot m" "vm_curr m < vm_tot m"
    and xs: "free_chain v (vm_first_free m) xs" "distinct xs"
      "set xs = {i. i < vm_curr m \<and> bit (status (v ! i)) 0}"
    and en: "\<forall>i<vm_curr m. entry_ok m i (v ! i)"
    and ze: "\<forall>i. vm_curr m \<le> i \<and> i < vm_tot m \<longrightarrow> status (v ! i) = 0" and sm: "strings_ok m"
    using assms(1) by (auto simp: table_ok_def mem_ok_def)
  have r: "e = v ! r" "r < vm_curr m" "\<not> bit (status e) 0" "\<not> bit (status e) 1"
    using table_live [OF v(1) assms(2)] by auto
  let ?e = "e\<lparr>vptr := 0, status := status e OR VV_MEM_FREE, next_free := vm_first_free m\<rparr>"
  let ?m1 = "m\<lparr>vm := Some (v[r := ?e]), vm_first_free := int r\<rparr>"
  have s: "vely_set_free r m = Inr ?m1"
    using v r by (simp add: vely_set_free_def vm_at_def vm_put_def res_bind_def)
  have eo: "entry_ok ?m1 = entry_ok m" by (intro ext entry_ok_cong) simp_all
  have "r \<notin> set xs" using xs(3) r by simp
  then have "free_chain (v[r := ?e]) (int r) (r # xs)"
    using xs(1) r v by (simp add: free_chain_update)
  moreover have "entry_ok m r ?e" using r by (simp add: entry_ok_def bit_simps)
  ultimately have "table_ok {} ?m1"
    using v xs en ze r \<open>r \<notin> set xs\<close> unfolding table_ok_def eo
    by (intro exI [of _ "v[r := ?e]"] exI [of _ "r # xs"]) (auto simp: nth_list_update bit_simps)
  then have ok: "mem_ok ?m1" using sm by (simp add: mem_ok_def strings_ok_def)
  have lv: "live ?m1 i = (if i = r then None else live m i)" for i
    using v r by (auto simp: live_def nth_list_update bit_simps)
  have "mem_block ?m1 = (mem_block m)(vptr e + VV_ALIGN := None)"
    by (rule mem_block_removed [OF assms(1) ok assms(2) _ lv]) simp
  then show ?thesis using s ok lv by (intro exI [of _ ?m1]) (simp add: same_env_def)
qed

lemma heap_change_ok:
  assumes "mem_ok m" "map_of h (empty_string m) = map_of (mheap m) (empty_string m)"
    and "\<And>i e. live m i = Some e \<Longrightarrow> map_of h (vptr e) = map_of (mheap m) (vptr e)"
  shows "mem_ok (m\<lparr>mheap := h\<rparr>) \<and> mem_block (m\<lparr>mheap := h\<rparr>) = mem_block m"
proof -
  obtain v xs where v: "vm m = Some v" "length v = vm_tot m" "vm_curr m < vm_tot m"
      "free_chain v (vm_first_free m) xs" "distinct xs"
      "set xs = {i. i < vm_curr m \<and> bit (status (v ! i)) 0}"
    and en: "\<forall>i<vm_curr m. entry_ok m i (v ! i)"
    and ze: "\<forall>i. vm_curr m \<le> i \<and> i < vm_tot m \<longrightarrow> status (v ! i) = 0" and sm: "strings_ok m"
    using assms(1) by (auto simp: table_ok_def mem_ok_def)
  have "entry_ok (m\<lparr>mheap := h\<rparr>) i (v ! i)" if "i < vm_curr m" for i
  proof (cases "live m i")
    case None
    then show ?thesis using en that v(1) by (auto simp: live_def entry_ok_def split: if_splits)
  next
    case (Some f)
    then show ?thesis
      using en that assms(3) [OF Some] table_live [OF v(1) Some] by (auto simp: entry_ok_def)
  qed
  then have "table_ok {} (m\<lparr>mheap := h\<rparr>)"
    using v ze unfolding table_ok_def by (intro exI [of _ v] exI [of _ xs]) auto
  then have "mem_ok (m\<lparr>mheap := h\<rparr>)"
    using sm assms(2) by (simp add: mem_ok_def strings_ok_def)
  then show ?thesis using mem_block_cong [OF assms(1)] assms(3) by auto
qed

lemma c_free_ok:
  assumes "mem_ok m" "map_of (mheap m) p = Some b" "p \<noteq> empty_string m" "p \<noteq> 0"
    and "\<And>i e. live m i = Some e \<Longrightarrow> vptr e \<noteq> p"
  shows "\<exists>m1. c_free p m = Inr m1 \<and> mem_ok m1 \<and> mem_block m1 = mem_block m \<and> same_env m m1
    \<and> live m1 = live m \<and> mheap m1 = AList.delete p (mheap m)"
  using assms heap_change_ok [OF assms(1), of "AList.delete p (mheap m)"]
  by (auto simp: c_free_def delete_conv same_env_def)

text \<open>A block fresh from the C library touches nothing that is held.\<close>

lemma fresh_block:
  assumes "os_fresh os" "os_malloc os h n = Some p"
  shows "map_of h p = None" "p \<noteq> 0"
    and "VV_ALIGN \<le> n \<Longrightarrow> map_of h q = Some b \<Longrightarrow> p + VV_ALIGN \<noteq> q"
proof -
  have s: "p \<noteq> 0" "\<And>b blk. (b, blk) \<in> set h \<Longrightarrow> p + n < b \<or> b + total blk < p"
    using assms unfolding os_fresh_def by blast+
  then show "p \<noteq> 0" by simp
  show "map_of h p = None"
  proof (cases "map_of h p")
    case (Some b)
    then show ?thesis using s(2) [OF map_of_SomeD] by fastforce
  qed simp
  show "VV_ALIGN \<le> n \<Longrightarrow> map_of h q = Some b \<Longrightarrow> p + VV_ALIGN \<noteq> q"
    using s(2) [OF map_of_SomeD, of q b] by fastforce
qed

section \<open>The operations on what the program holds\<close>

text \<open>The result of giving the program a new block.\<close>

definition handed :: "os \<Rightarrow> mem \<Rightarrow> (nat \<Rightarrow> (bool \<times> string) option) \<Rightarrow> string \<Rightarrow> (nat \<times> mem) res \<Rightarrow> bool" where
  "handed os m held content r \<longleftrightarrow>
     r = Inl (Report_error vely_out_mem_mess) \<and> oom os
     \<or> (\<exists>ptr m' pr. r = Inr (ptr, m') \<and> mem_ok m' \<and> same_env m m'
          \<and> ptr \<noteq> 0 \<and> ptr \<noteq> empty_string m \<and> held ptr = None
          \<and> mem_block m' = held(ptr \<mapsto> (pr, content)) \<and> (vely_mem_process m \<longrightarrow> pr))"

lemma c_alloc_ok:
  assumes "mem_ok m" "os_fresh os" "VV_ALIGN \<le> n" "c_alloc os n c m = Some (p, m1)"
  shows "mem_ok m1 \<and> mem_block m1 = mem_block m \<and> same_env m m1
    \<and> map_of (mheap m1) p = Some \<lparr>hdr = os_hdr os, total = n, bytes = c\<rparr>
    \<and> p \<noteq> 0 \<and> p \<noteq> empty_string m \<and> p + VV_ALIGN \<noteq> empty_string m
    \<and> (\<forall>i e. live m1 i = Some e \<longrightarrow> vptr e \<noteq> p) \<and> mem_block m (p + VV_ALIGN) = None"
proof -
  have p: "os_malloc os (mheap m) n = Some p"
    and m1: "m1 = m\<lparr>mheap := (p, \<lparr>hdr = os_hdr os, total = n, bytes = c\<rparr>) # mheap m\<rparr>"
    using assms(4) by (auto simp: c_alloc_def split: option.splits)
  note f = fresh_block [OF assms(2) p]
  obtain be where be: "map_of (mheap m) (empty_string m) = Some be"
    using assms(1) by (auto simp: mem_ok_def strings_ok_def)
  have ne: "p \<noteq> empty_string m" using f(1) be by auto
  have lv: "vptr e \<noteq> p" if "live m i = Some e" for i e
    using live_entry_ok [OF assms(1) that] f(1) by auto
  then have "mem_ok m1 \<and> mem_block m1 = mem_block m"
    unfolding m1 using ne by (intro heap_change_ok [OF assms(1)]) auto
  moreover have "mem_block m (p + VV_ALIGN) = None"
    using f(1) by (simp add: mem_block_def)
  ultimately show ?thesis
    using f(2) f(3) [OF assms(3) be] ne lv by (auto simp: m1 same_env_def)
qed

lemma add_handed:
  assumes "mem_ok m" "os_fresh os" "VV_ALIGN \<le> n" "c_alloc os n c m = Some (p, m1)"
  shows "handed os m (mem_block m) c (res_bind (vely_add_mem os p m1) (\<lambda>(r, m2). vely_vmset p r m2))"
proof -
  note a = c_alloc_ok [OF assms]
  then have e: "empty_string m1 = empty_string m" "vely_mem_process m1 = vely_mem_process m"
    by (simp_all add: same_env_def)
  show ?thesis
    using add_block [of m1 p _ os] a e same_env_trans [of m m1]
    by (fastforce simp: handed_def res_bind_def VV_ALIGN_def)
qed

lemma alloc_ok:
  assumes "mem_ok m" "os_fresh os" "\<not> vely_mem_os m"
  shows "handed os m (mem_block m) content (vely_alloc os sz content m)"
proof (cases "c_alloc os (sz + VV_ALIGN) content m")
  case None
  then have "oom os" by (auto simp: c_alloc_def oom_def split: option.splits)
  then show ?thesis using None assms(3) by (simp add: vely_alloc_def handed_def)
next
  case (Some pm)
  obtain p m1 where pm: "pm = (p, m1)" by (cases pm)
  show ?thesis
    using Some assms add_handed [OF assms(1,2), of "sz + VV_ALIGN" content p m1]
    by (simp add: vely_alloc_def pm)
qed

lemma held_block:
  assumes "mem_ok m" "mem_block m ptr = Some (pr, c)"
  obtains i e b where "live m i = Some e" "ptr = vptr e + VV_ALIGN" "map_of (mheap m) (vptr e) = Some b"
    "hdr b = int i" "bytes b = c" "pr = bit (status e) 2" "vely_get_memory ptr m = Inr (int i)"
    "mem_mismatch ptr (int i) m = Inr False" "vm_at m i = Inr e" "\<not> bit (status e) 0"
    "ptr \<noteq> empty_string m" "ptr \<noteq> 0" "vptr e \<noteq> 0" "vptr e \<noteq> empty_string m"
proof -
  obtain i e b where l: "live m i = Some e" "ptr = vptr e + VV_ALIGN"
      "map_of (mheap m) (vptr e) = Some b" "pr = bit (status e) 2" "c = bytes b"
    using assms(2) unfolding mem_block_iff [OF assms(1)] by blast
  note en = live_entry_ok [OF assms(1) l(1)]
  then have h: "hdr b = int i" using l(3) by auto
  obtain v where v: "vm m = Some v" "length v = vm_tot m" "vm_curr m < vm_tot m"
    using assms(1) by (auto simp: mem_ok_def table_ok_def)
  have at: "vm_at m i = Inr e" "i < vm_curr m" "\<not> bit (status e) 0"
    using table_live [OF v(1) l(1)] v by (auto simp: vm_at_def)
  have "vely_get_memory ptr m = Inr (int i)" using l h by (simp add: vely_get_memory_def)
  moreover have "mem_mismatch ptr (int i) m = Inr False"
    using at l(2) by (simp add: mem_mismatch_def res_bind_def)
  ultimately show ?thesis using that l h at en by (auto simp: VV_ALIGN_def)
qed

text \<open>The variable that a file entry refers to.\<close>

definition file_at :: "mem \<Rightarrow> nat \<Rightarrow> nat option" where
  "file_at m i = (case vm m of
      Some v \<Rightarrow> if i < vm_curr m \<and> \<not> bit (status (v ! i)) 0 \<and> bit (status (v ! i)) 1 \<and> vptr (v ! i) \<noteq> 0
               then Some (vptr (v ! i)) else None
    | None \<Rightarrow> None)"

lemma set_free_frame:
  "vely_set_free r m = Inr m1 \<Longrightarrow> live m r = Some e \<Longrightarrow> vm_curr m1 = vm_curr m \<and> file_at m1 = file_at m"
  by (auto simp: vely_set_free_def vm_at_def vm_put_def res_bind_def file_at_def live_def fun_eq_iff
      nth_list_update bit_simps split: option.splits if_splits)

lemma c_free_frame: "c_free p m = Inr m1 \<Longrightarrow> vm_curr m1 = vm_curr m \<and> file_at m1 = file_at m"
  by (auto simp: c_free_def file_at_def fun_eq_iff split: option.splits if_splits)

lemma free_entry:
  assumes "mem_ok m" "\<not> vely_mem_os m" "live m i = Some e"
  shows "\<exists>m'. vely_free (vptr e + VV_ALIGN) check m = Inr (True, m') \<and> mem_ok m' \<and> same_env m m'
    \<and> mem_block m' = (mem_block m)(vptr e + VV_ALIGN := None)
    \<and> (\<forall>j. live m' j = (if j = i then None else live m j))
    \<and> mheap m' = AList.delete (vptr e) (mheap m) \<and> vm_curr m' = vm_curr m \<and> file_at m' = file_at m"
proof -
  have "\<exists>pr c. mem_block m (vptr e + VV_ALIGN) = Some (pr, c)"
    using live_entry_ok [OF assms(1,3)] assms(3) unfolding mem_block_iff [OF assms(1)] by blast
  then obtain pr c where "mem_block m (vptr e + VV_ALIGN) = Some (pr, c)" by blast
  then obtain k f b where h: "live m k = Some f" "vptr e + VV_ALIGN = vptr f + VV_ALIGN"
      "map_of (mheap m) (vptr f) = Some b"
      "vely_get_memory (vptr e + VV_ALIGN) m = Inr (int k)"
      "mem_mismatch (vptr e + VV_ALIGN) (int k) m = Inr False" "vm_at m k = Inr f"
      "\<not> bit (status f) 0" "vptr e + VV_ALIGN \<noteq> empty_string m" "vptr e + VV_ALIGN \<noteq> 0"
      "vptr f \<noteq> 0" "vptr f \<noteq> empty_string m"
    by (rule held_block [OF assms(1)])
  have ki: "k = i" "f = e" using live_unique [OF assms(1,3) h(1)] h(1,2) assms(3) by auto
  obtain m1 where m1: "vely_set_free i m = Inr m1" "mem_ok m1" "mheap m1 = mheap m" "same_env m m1"
      "\<And>j. live m1 j = (if j = i then None else live m j)"
      "mem_block m1 = (mem_block m)(vptr e + VV_ALIGN := None)"
    using set_free_ok [OF assms(1,3)] by auto
  have "vptr f \<noteq> vptr e" if "live m1 j = Some f" for j f
    using that m1(5) live_unique [OF assms(1,3)] by (auto split: if_splits)
  then obtain m2 where m2: "c_free (vptr e) m1 = Inr m2" "mem_ok m2" "mem_block m2 = mem_block m1"
      "same_env m1 m2" "live m2 = live m1" "mheap m2 = AList.delete (vptr e) (mheap m)"
    using c_free_ok [OF m1(2), of "vptr e" b] h ki m1(3,4) by (auto simp: same_env_def)
  have "vely_free (vptr e + VV_ALIGN) check m = Inr (True, m2)"
    using h ki m1 m2(1) assms(2) by (cases check) (auto simp: vely_free_def res_bind_def)
  then show ?thesis
    using m1 m2 same_env_trans [OF m1(4) m2(4)] set_free_frame [OF m1(1) assms(3)]
      c_free_frame [OF m2(1)] by auto
qed

lemma free_ok:
  assumes "mem_ok m" "\<not> vely_mem_os m" "mem_block m ptr = Some x"
  shows "\<exists>m'. vely_free ptr check m = Inr (True, m') \<and> mem_ok m' \<and> same_env m m'
    \<and> mem_block m' = (mem_block m)(ptr := None)"
proof -
  obtain pr c where "x = (pr, c)" by (cases x)
  then obtain i e where "live m i = Some e" "ptr = vptr e + VV_ALIGN"
    using assms(3) mem_block_iff [OF assms(1)] by auto
  then show ?thesis using free_entry [OF assms(1,2)] by blast
qed

lemma realloc_ok:
  assumes "mem_ok m" "os_fresh os" "\<not> vely_mem_os m" "mem_block m ptr = Some (pr, c)"
  shows "handed os m ((mem_block m)(ptr := None)) (take sz (c @ os_bytes os sz)) (vely_realloc os ptr sz safe m)"
proof -
  obtain i e b where h: "live m i = Some e" "ptr = vptr e + VV_ALIGN" "map_of (mheap m) (vptr e) = Some b"
      "bytes b = c" "vely_get_memory ptr m = Inr (int i)" "mem_mismatch ptr (int i) m = Inr False"
      "ptr \<noteq> empty_string m" "ptr \<noteq> 0" "vptr e \<noteq> 0" "vptr e \<noteq> empty_string m"
    by (rule held_block [OF assms(1,4)])
  obtain m1 where m1: "vely_set_free i m = Inr m1" "mem_ok m1" "mheap m1 = mheap m" "same_env m m1"
      "\<And>j. live m1 j = (if j = i then None else live m j)"
      "mem_block m1 = (mem_block m)(ptr := None)"
    using set_free_ok [OF assms(1) h(1)] h(2) by auto
  have "vptr f \<noteq> vptr e" if "live m1 j = Some f" for j f
    using that m1(5) live_unique [OF assms(1) h(1)] by (auto split: if_splits)
  moreover define m2 where "m2 = m1\<lparr>mheap := AList.delete (vptr e) (mheap m1)\<rparr>"
  ultimately have m2: "mem_ok m2" "mem_block m2 = mem_block m1" "same_env m1 m2"
    using c_free_ok [OF m1(2), of "vptr e" b] h m1(3,4) by (auto simp: same_env_def c_free_def)
  let ?new = "take sz (c @ os_bytes os sz)"
  have r: "vely_realloc os ptr sz safe m =
      (case c_alloc os (sz + VV_ALIGN) ?new m2 of
         None \<Rightarrow> Inl (Report_error vely_out_mem_mess)
       | Some (p, m3) \<Rightarrow> res_bind (vely_add_mem os p m3) (\<lambda>(r', m4). vely_vmset p r' m4))"
    using h m1(1,3) assms(3)
    by (cases safe) (simp_all add: vely_realloc_def res_bind_def c_realloc_def m2_def split: option.split)
  have env: "empty_string m2 = empty_string m" "vely_mem_process m2 = vely_mem_process m"
    using m1(4) m2(3) by (simp_all add: same_env_def)
  have "handed os m2 (mem_block m2) ?new (vely_realloc os ptr sz safe m)"
    unfolding r using add_handed [OF m2(1) assms(2), of "sz + VV_ALIGN" ?new]
    by (auto simp: handed_def c_alloc_def oom_def split: option.split)
  then show ?thesis
    using same_env_trans [OF m1(4) same_env_trans [OF m2(3)]] m2(2) m1(6) env
    unfolding handed_def by metis
qed

section \<open>The end of a request\<close>

text \<open>What one turn of the loop does.\<close>

definition releases :: "mem \<Rightarrow> nat set \<Rightarrow> mem \<Rightarrow> bool" where
  "releases m is m' \<longleftrightarrow> mem_ok m' \<and> same_env m (m'\<lparr>files := files m\<rparr>) \<and> vm_curr m' = vm_curr m
     \<and> (\<forall>j. live m' j = (case live m j of
          None \<Rightarrow> None | Some e \<Rightarrow> if j \<in> is \<and> \<not> bit (status e) 2 then None else Some e))
     \<and> (\<forall>j e. live m' j = Some e \<longrightarrow> map_of (mheap m') (vptr e) = map_of (mheap m) (vptr e))
     \<and> file_at m' = file_at m
     \<and> (\<forall>f. map_of (files m') f = (if \<exists>i\<in>is. file_at m i = Some f then Some 0 else map_of (files m) f))"

lemma files_change_ok:
  assumes "mem_ok m" "fst ` set (files m) \<subseteq> fst ` set fs"
  shows "mem_ok (m\<lparr>files := fs\<rparr>)"
proof -
  have "entry_ok (m\<lparr>files := fs\<rparr>) i e" if "entry_ok m i e" for i e
    using that subsetD [OF assms(2)] by (auto simp: entry_ok_def split: if_splits)
  then have "table_ok {} (m\<lparr>files := fs\<rparr>)"
    using assms(1) unfolding mem_ok_def table_ok_def by fastforce
  then show ?thesis using assms(1) by (simp add: mem_ok_def strings_ok_def)
qed

lemma releases_refl:
  assumes "mem_ok m" "\<And>i e. i \<in> is \<Longrightarrow> live m i = Some e \<Longrightarrow> bit (status e) 2"
    and "\<And>i. i \<in> is \<Longrightarrow> file_at m i = None"
  shows "releases m is m"
  using assms by (auto simp: releases_def split: option.split)

lemma done_entry_ok:
  assumes m: "mem_ok m" "\<not> vely_mem_os m" and i: "i < vm_curr m"
  shows "\<exists>m'. done_entry i (keep, m) = Inr (keep \<or> (\<exists>e. live m i = Some e \<and> bit (status e) 2), m')
    \<and> releases m {i} m'"
proof -
  obtain v where v: "vm m = Some v" "length v = vm_tot m" "vm_curr m < vm_tot m"
      "entry_ok m i (v ! i)"
    using m(1) i by (auto simp: mem_ok_def table_ok_def)
  then have at: "vm_at m i = Inr (v ! i)" using i by (simp add: vm_at_def)
  let ?e = "v ! i"
  consider (free_entry) "bit (status ?e) 0"
    | (none_entry) "\<not> bit (status ?e) 0" "bit (status ?e) 1" "vptr ?e = 0"
    | (file_entry) "\<not> bit (status ?e) 0" "bit (status ?e) 1" "vptr ?e \<noteq> 0"
    | (block_entry) "\<not> bit (status ?e) 0" "\<not> bit (status ?e) 1"
    by blast
  then show ?thesis
  proof cases
    case free_entry
    then have "live m i = None" "file_at m i = None" using v(1) by (simp_all add: live_def file_at_def)
    then show ?thesis using free_entry at releases_refl [OF m(1), of "{i}"]
      by (auto simp: done_entry_def res_bind_def)
  next
    case none_entry
    then have "live m i = None" "file_at m i = None" using v(1) by (simp_all add: live_def file_at_def)
    then show ?thesis using none_entry at releases_refl [OF m(1), of "{i}"]
      by (auto simp: done_entry_def res_bind_def)
  next
    case file_entry
    then have l: "live m i = None" "file_at m i = Some (vptr ?e)"
      using v(1) i by (simp_all add: live_def file_at_def)
    have "vptr ?e \<in> fst ` set (files m)" using v(4) file_entry by (auto simp: entry_ok_def)
    then obtain f where f: "map_of (files m) (vptr ?e) = Some f"
      by (metis map_of_eq_None_iff not_None_eq)
    let ?m' = "m\<lparr>files := AList.update (vptr ?e) 0 (files m)\<rparr>"
    have "done_entry i (keep, m) = Inr (keep, ?m')"
      using file_entry at f by (simp add: done_entry_def res_bind_def)
    moreover have "file_at ?m' = file_at m"
      by (simp add: file_at_def fun_eq_iff split: option.split)
    then have "releases m {i} ?m'"
      using files_change_ok [OF m(1), of "AList.update (vptr ?e) 0 (files m)"] l
      by (auto simp: releases_def same_env_def dom_update map_of_update split: option.split)
    ultimately show ?thesis using l(1) by auto
  next
    case block_entry
    then have l: "live m i = Some ?e" "file_at m i = None"
      using v(1) i by (simp_all add: live_def file_at_def)
    have p: "vptr ?e \<noteq> 0" using live_entry_ok [OF m(1) l(1)] by simp
    show ?thesis
    proof (cases "bit (status ?e) 2")
      case True
      then show ?thesis
        using block_entry at p l releases_refl [OF m(1), of "{i}"] by (auto simp: done_entry_def res_bind_def)
    next
      case False
      obtain m' where m': "vely_free (vptr ?e + VV_ALIGN) False m = Inr (True, m')" "mem_ok m'"
          "same_env m m'" "\<And>j. live m' j = (if j = i then None else live m j)"
          "mheap m' = AList.delete (vptr ?e) (mheap m)" "vm_curr m' = vm_curr m" "file_at m' = file_at m"
        using free_entry [OF m l(1), of False] by auto
      have "done_entry i (keep, m) = Inr (keep, m')"
        using block_entry at p False m'(1) by (simp add: done_entry_def res_bind_def)
      moreover have "releases m {i} m'"
        using m' l False live_unique [OF m(1) l(1)]
        by (auto simp: releases_def same_env_def delete_conv' split: option.split if_splits)
      ultimately show ?thesis using l(1) False by auto
    qed
  qed
qed

lemma releasesD:
  assumes "releases m ix m'"
  shows "mem_ok m'" "same_env m (m'\<lparr>files := files m\<rparr>)" "vm_curr m' = vm_curr m"
    and "live m' j = (case live m j of
          None \<Rightarrow> None | Some e \<Rightarrow> if j \<in> ix \<and> \<not> bit (status e) 2 then None else Some e)"
    and "live m' j = Some e \<Longrightarrow> map_of (mheap m') (vptr e) = map_of (mheap m) (vptr e)"
    and "file_at m' = file_at m"
    and "map_of (files m') f = (if \<exists>i\<in>ix. file_at m i = Some f then Some 0 else map_of (files m) f)"
  using assms unfolding releases_def by blast+

lemma releases_os: "releases m ix m' \<Longrightarrow> vely_mem_os m' = vely_mem_os m"
  using releasesD(2) by (simp add: same_env_def)

lemma releases_kept: "releases m ix m' \<Longrightarrow> live m' j = Some e \<Longrightarrow> live m j = Some e"
  using releasesD(4) [of m ix m' j] by (auto split: option.splits if_splits)

lemma releases_trans:
  assumes 1: "releases m {i} m1" and 2: "releases m1 ix m2"
  shows "releases m (insert i ix) m2"
proof -
  have "live m2 j = (case live m j of None \<Rightarrow> None
      | Some e \<Rightarrow> if j \<in> insert i ix \<and> \<not> bit (status e) 2 then None else Some e)" for j
    using releasesD(4) [OF 1, of j] releasesD(4) [OF 2, of j] by (auto split: option.split)
  moreover have "map_of (mheap m2) (vptr e) = map_of (mheap m) (vptr e)" if "live m2 j = Some e" for j e
    using releasesD(5) [OF 2 that] releasesD(5) [OF 1 releases_kept [OF 2 that]] by simp
  moreover have "same_env m (m2\<lparr>files := files m\<rparr>)"
    using releasesD(2) [OF 1] releasesD(2) [OF 2] by (simp add: same_env_def)
  moreover have "map_of (files m2) f =
      (if \<exists>k\<in>insert i ix. file_at m k = Some f then Some 0 else map_of (files m) f)" for f
    using releasesD(6,7) [OF 1] releasesD(7) [OF 2] by auto
  ultimately show ?thesis
    using releasesD(1,3,6) [OF 2] releasesD(3,6) [OF 1] unfolding releases_def by simp
qed

lemma releases_process:
  "releases m ix m' \<Longrightarrow>
     (\<exists>e. live m' j = Some e \<and> bit (status e) 2) \<longleftrightarrow> (\<exists>e. live m j = Some e \<and> bit (status e) 2)"
  using releasesD(4) [of m ix m' j] by (auto split: option.splits)

lemma done_loop_ok:
  assumes "mem_ok m" "\<not> vely_mem_os m" "set ix \<subseteq> {..<vm_curr m}"
  shows "\<exists>m'. done_loop ix (keep, m)
      = Inr (keep \<or> (\<exists>i\<in>set ix. \<exists>e. live m i = Some e \<and> bit (status e) 2), m')
    \<and> releases m (set ix) m'"
  using assms
proof (induction ix arbitrary: keep m)
  case Nil
  then show ?case using releases_refl [OF Nil(1), of "{}"] by simp
next
  case (Cons i ix)
  let ?k = "keep \<or> (\<exists>e. live m i = Some e \<and> bit (status e) 2)"
  obtain m1 where m1: "done_entry i (keep, m) = Inr (?k, m1)" "releases m {i} m1"
    using done_entry_ok [OF Cons.prems(1,2), of i keep] Cons.prems(3) by auto
  then have "mem_ok m1" "\<not> vely_mem_os m1" "set ix \<subseteq> {..<vm_curr m1}"
    using Cons.prems releases_os [OF m1(2)] releasesD(1,3) [OF m1(2)] by auto
  then obtain m2 where m2: "done_loop ix (?k, m1)
        = Inr (?k \<or> (\<exists>j\<in>set ix. \<exists>e. live m1 j = Some e \<and> bit (status e) 2), m2)"
      "releases m1 (set ix) m2"
    using Cons.IH by blast
  then show ?case
    using m1(1) releases_trans [OF m1(2) m2(2)] releases_process [OF m1(2)]
    by (intro exI [of _ m2]) (auto simp: res_bind_def)
qed

text \<open>The blocks that outlive a request.\<close>

definition process_blocks :: "(nat \<Rightarrow> (bool \<times> string) option) \<Rightarrow> nat \<Rightarrow> (bool \<times> string) option" where
  "process_blocks held ptr =
     (case held ptr of Some (pr, c) \<Rightarrow> if pr then Some (pr, c) else None | None \<Rightarrow> None)"

lemma releases_blocks:
  assumes "mem_ok m" "releases m {..<vm_curr m} m'"
  shows "mem_block m' = process_blocks (mem_block m)"
proof
  fix ptr
  have ok: "mem_ok m'" using assms(2) by (simp add: releases_def)
  obtain v where v: "vm m = Some v" using assms(1) by (auto simp: mem_ok_def table_ok_def)
  have lv: "live m' j = Some e \<longleftrightarrow> live m j = Some e \<and> bit (status e) 2" for j e
    using releasesD(4) [OF assms(2), of j] table_live [OF v, of j] by (auto split: option.splits)
  note h = releasesD(5) [OF assms(2)]
  have "mem_block m' ptr = Some (pr, c) \<longleftrightarrow> pr \<and> mem_block m ptr = Some (pr, c)" for pr c
  proof -
    have k: "live m' i = Some e \<and> ptr = vptr e + VV_ALIGN \<and> map_of (mheap m') (vptr e) = Some b
          \<and> pr = bit (status e) 2 \<and> c = bytes b
        \<longleftrightarrow> pr \<and> live m i = Some e \<and> ptr = vptr e + VV_ALIGN \<and> map_of (mheap m) (vptr e) = Some b
          \<and> pr = bit (status e) 2 \<and> c = bytes b" for i e b
      using lv [of i e] h [of i e] by auto
    show ?thesis unfolding mem_block_iff [OF ok] mem_block_iff [OF assms(1)] k by blast
  qed
  then have "mem_block m' ptr = Some y \<longleftrightarrow> fst y \<and> mem_block m ptr = Some y" for y
    by (cases y) simp
  then have "mem_block m' ptr = Some y \<longleftrightarrow> process_blocks (mem_block m) ptr = Some y" for y
    by (auto simp: process_blocks_def split: option.split)
  then show "mem_block m' ptr = process_blocks (mem_block m) ptr" by (rule option_eqI)
qed

definition registered :: "mem \<Rightarrow> nat set" where
  "registered m = {f. \<exists>i<vm_curr m. file_at m i = Some f}"

lemma empty_table_ok:
  assumes "strings_ok m"
  shows "mem_ok (m\<lparr>vm := Some (replicate VELYMSIZE \<lparr>vptr = 0, status = 0, next_free = 0\<rparr>),
      vm_tot := VELYMSIZE, vm_curr := 0, vm_first_free := -1\<rparr>)"
  using assms unfolding mem_ok_def table_ok_def
  by (intro conjI exI [of _ "replicate VELYMSIZE \<lparr>vptr = 0, status = 0, next_free = 0\<rparr>"] exI [of _ "[]"])
    (auto simp: VELYMSIZE_def strings_ok_def)

lemma done_ok:
  assumes "mem_ok m" "\<not> vely_mem_os m" "os_table_ok os VELYMSIZE"
  shows "\<exists>m'. vely_done os m = Inr m' \<and> mem_ok m' \<and> mem_block m' = process_blocks (mem_block m)
    \<and> registered m \<subseteq> {f. map_of (files m') f = Some 0} \<and> same_env m (m'\<lparr>files := files m\<rparr>)"
proof -
  obtain v where v: "vm m = Some v" using assms(1) by (auto simp: mem_ok_def table_ok_def)
  let ?k = "\<exists>i\<in>set [0..<vm_curr m]. \<exists>e. live m i = Some e \<and> bit (status e) 2"
  obtain m1 where m1: "done_loop [0..<vm_curr m] (False, m) = Inr (?k, m1)"
      "releases m (set [0..<vm_curr m]) m1"
    using done_loop_ok [OF assms(1,2), of "[0..<vm_curr m]" False]
    by (auto simp: subset_iff)
  have r: "releases m {..<vm_curr m} m1" using m1(2) by (simp add: atLeast0LessThan)
  have b: "mem_block m1 = process_blocks (mem_block m)" by (rule releases_blocks [OF assms(1) r])
  have f: "registered m \<subseteq> {f. map_of (files m1) f = Some 0}"
    using r by (auto simp: registered_def releases_def)
  have ok: "mem_ok m1" "same_env m (m1\<lparr>files := files m\<rparr>)" using r by (simp_all add: releases_def)
  obtain v1 where v1: "vm m1 = Some v1" using ok(1) by (auto simp: mem_ok_def table_ok_def)
  show ?thesis
  proof (cases ?k)
    case True
    then have "vely_done os m = Inr m1" using v v1 m1(1) by (simp add: vely_done_def res_bind_def)
    then show ?thesis using b f ok by blast
  next
    case False
    let ?m2 = "m1\<lparr>vm := Some (replicate VELYMSIZE \<lparr>vptr = 0, status = 0, next_free = 0\<rparr>),
      vm_tot := VELYMSIZE, vm_curr := 0, vm_first_free := -1\<rparr>"
    have e: "vely_done os m = Inr ?m2"
      using v m1(1) False assms(3) by (simp add: vely_done_def res_bind_def)
    have "live ?m2 i = None" for i by (simp add: live_def)
    then have "mem_block ?m2 ptr = None" for ptr
      by (simp add: mem_block_def split: option.split)
    moreover have "process_blocks (mem_block m) ptr = None" for ptr
    proof -
      have "live m1 i = None" for i
        using False r table_live [OF v] by (auto simp: releases_def split: option.split)
      then show ?thesis unfolding b [symmetric] by (simp add: mem_block_def split: option.split)
    qed
    ultimately have "mem_block ?m2 = process_blocks (mem_block m)" by (simp add: fun_eq_iff)
    then show ?thesis
      using e f ok empty_table_ok [of m1] by (auto simp: mem_ok_def same_env_def)
  qed
qed

section \<open>The contract of an allocator\<close>

text \<open>
  What a client of the manager relies on: a block that is handed out is new, everything
  that was held stays, and releasing a held block takes exactly that one.
\<close>

locale allocator =
  fixes good :: "'os \<Rightarrow> bool"
    and inv :: "'m \<Rightarrow> bool"
    and held :: "'m \<Rightarrow> nat \<Rightarrow> 'b option"
    and alloc :: "'os \<Rightarrow> nat \<Rightarrow> 'm \<Rightarrow> (nat \<times> 'm) res"
    and release :: "nat \<Rightarrow> 'm \<Rightarrow> (bool \<times> 'm) res"
  assumes alloc: "good os \<Longrightarrow> inv m \<Longrightarrow> alloc os n m = Inr (p, m') \<Longrightarrow>
      inv m' \<and> held m p = None \<and> (\<exists>x. held m' = (held m)(p \<mapsto> x))"
    and release: "inv m \<Longrightarrow> held m p = Some x \<Longrightarrow>
      \<exists>m'. release p m = Inr (True, m') \<and> inv m' \<and> held m' = (held m)(p := None)"
begin

lemma alloc_many:
  "good os \<Longrightarrow> inv m \<Longrightarrow> outputs (alloc os n) k m = Inr (ps, m') \<Longrightarrow>
     inv m' \<and> distinct ps \<and> set ps \<inter> dom (held m) = {} \<and> dom (held m') = set ps \<union> dom (held m)
     \<and> held m' |` (- set ps) = held m"
proof (induction k arbitrary: m ps)
  case 0
  then show ?case by simp
next
  case (Suc k)
  then obtain p m1 qs where a: "alloc os n m = Inr (p, m1)" "outputs (alloc os n) k m1 = Inr (qs, m')"
      "ps = p # qs"
    by (auto simp: res_bind_def split: sum.splits)
  obtain x where x: "inv m1" "held m p = None" "held m1 = (held m)(p \<mapsto> x)"
    using alloc [OF Suc.prems(1,2) a(1)] by blast
  note r = Suc.IH [OF Suc.prems(1) x(1) a(2)]
  have "held m' |` (- set ps) = (held m' |` (- set qs)) |` (- {p})"
    by (auto simp: a(3) restrict_map_def fun_eq_iff)
  also have "\<dots> = held m"
    using r x by (auto simp: restrict_map_def fun_eq_iff)
  finally show ?case using r x a(3) by auto
qed

lemma release_many:
  "inv m \<Longrightarrow> distinct ps \<Longrightarrow> set ps \<subseteq> dom (held m) \<Longrightarrow>
     \<exists>m'. inputs (\<lambda>m p. res_bind (release p m) (\<lambda>(ok, m1). Inr m1)) ps m = Inr m'
        \<and> inv m' \<and> held m' = held m |` (- set ps)"
proof (induction ps arbitrary: m)
  case Nil
  then show ?case by simp
next
  case (Cons p ps)
  then obtain x where x: "held m p = Some x" by auto
  obtain m1 where m1: "release p m = Inr (True, m1)" "inv m1" "held m1 = (held m)(p := None)"
    using release [OF Cons.prems(1) x] by blast
  have "set ps \<subseteq> dom (held m1)" using Cons.prems m1(3) by auto
  then obtain m' where m': "inputs (\<lambda>m p. res_bind (release p m) (\<lambda>(ok, m1). Inr m1)) ps m1 = Inr m'"
      "inv m'" "held m' = held m1 |` (- set ps)"
    using Cons.IH [OF m1(2)] Cons.prems by auto
  then have "held m' = held m |` (- set (p # ps))"
    using m1(3) by (auto simp: restrict_map_def fun_eq_iff)
  then show ?case using m1(1) m'(1,2) by (simp add: res_bind_def)
qed

lemma balanced:
  assumes "good os" "inv m" "outputs (alloc os n) k m = Inr (ps, m1)" "distinct qs" "set qs = set ps"
  shows "\<exists>m2. inputs (\<lambda>m p. res_bind (release p m) (\<lambda>(ok, m1). Inr m1)) qs m1 = Inr m2
    \<and> inv m2 \<and> held m2 = held m"
proof -
  note a = alloc_many [OF assms(1,2,3)]
  then have "set qs \<subseteq> dom (held m1)" using assms(5) by auto
  then show ?thesis using release_many [of m1 qs] a assms(4,5) by auto
qed

end

lemma handed_Inr:
  "handed os m held c (Inr (p, m')) \<Longrightarrow> mem_ok m' \<and> same_env m m' \<and> p \<noteq> 0 \<and> held p = None
     \<and> (\<exists>pr. mem_block m' = held(p \<mapsto> (pr, c)))"
  by (auto simp: handed_def)

interpretation vely: allocator os_fresh "\<lambda>m. mem_ok m \<and> \<not> vely_mem_os m" mem_block vely_malloc
  "\<lambda>p. vely_free p False"
proof unfold_locales
  fix os m n p m'
  assume "os_fresh os" and m: "mem_ok m \<and> \<not> vely_mem_os m" and a: "vely_malloc os n m = Inr (p, m')"
  then have "handed os m (mem_block m) (os_bytes os n) (Inr (p, m'))"
    using alloc_ok [of m os "os_bytes os n" n] unfolding vely_malloc_def by simp
  from handed_Inr [OF this]
  show "(mem_ok m' \<and> \<not> vely_mem_os m') \<and> mem_block m p = None
      \<and> (\<exists>x. mem_block m' = (mem_block m)(p \<mapsto> x))"
    using m by (auto simp: same_env_def)
next
  fix m p x
  assume "mem_ok m \<and> \<not> vely_mem_os m" "mem_block m p = Some x"
  then show "\<exists>m'. vely_free p False m = Inr (True, m') \<and> (mem_ok m' \<and> \<not> vely_mem_os m')
      \<and> mem_block m' = (mem_block m)(p := None)"
    using free_ok [of m p x False] by (auto simp: same_env_def)
qed

section \<open>Every history keeps the invariant\<close>

lemma put_ok:
  assumes "mem_ok m" "i < vm_curr m" "vm_at m i = Inr e" "entry_ok m i e'"
    and "bit (status e') 0 = bit (status e) 0" "next_free e' = next_free e"
  shows "\<exists>m'. vm_put m i e' = Inr m' \<and> mem_ok m' \<and> same_env m m'"
proof -
  obtain v xs where v: "vm m = Some v" "length v = vm_tot m" "vm_curr m < vm_tot m"
    and xs: "free_chain v (vm_first_free m) xs" "distinct xs"
      "set xs = {i. i < vm_curr m \<and> bit (status (v ! i)) 0}"
    and en: "\<forall>i<vm_curr m. entry_ok m i (v ! i)"
    and ze: "\<forall>i. vm_curr m \<le> i \<and> i < vm_tot m \<longrightarrow> status (v ! i) = 0" and sm: "strings_ok m"
    using assms(1) by (auto simp: table_ok_def mem_ok_def)
  let ?m' = "m\<lparr>vm := Some (v[i := e'])\<rparr>"
  have eo: "entry_ok ?m' = entry_ok m" by (intro ext entry_ok_cong) simp_all
  have e: "e = v ! i" using assms(2,3) v by (simp add: vm_at_def)
  have "free_chain (v[i := e']) k ys" if "free_chain v k ys" for k ys
  proof -
    have "next_free (v[i := e'] ! a) = next_free (v ! a)" for a
      using assms(2,6) e v by (cases "a = i") simp_all
    then show ?thesis using that by (induction ys arbitrary: k) auto
  qed
  then have "table_ok {} ?m'"
    using v xs en ze assms(2,4,5) e unfolding table_ok_def eo
    by (intro exI [of _ "v[i := e']"] exI [of _ xs]) (auto simp: nth_list_update)
  then show ?thesis
    using v assms(2) sm by (intro exI [of _ ?m']) (simp add: vm_put_def mem_ok_def strings_ok_def same_env_def)
qed

lemma set_process_ok:
  assumes "mem_ok m" "mem_block m ptr = Some x"
  shows "\<exists>m'. vely_mem_set_process ptr m = Inr m' \<and> mem_ok m' \<and> same_env m m'"
proof (cases "\<not> vely_mem_os m \<and> vely_mem_process m")
  case False
  then have "vely_mem_set_process ptr m = Inr m" by (auto simp: vely_mem_set_process_def)
  then show ?thesis using assms(1) by simp
next
  case True
  obtain pr c where x: "x = (pr, c)" by (cases x)
  obtain i e b where h: "live m i = Some e" "vely_get_memory ptr m = Inr (int i)"
      "mem_mismatch ptr (int i) m = Inr False" "vm_at m i = Inr e"
    by (rule held_block [OF assms(1) assms(2) [unfolded x]])
  obtain v where v: "vm m = Some v" using assms(1) by (auto simp: mem_ok_def table_ok_def)
  have l: "i < vm_curr m" "\<not> bit (status e) 0" "\<not> bit (status e) 1"
    using table_live [OF v h(1)] by auto
  let ?e = "e\<lparr>status := status e OR VV_MEM_PROCESS\<rparr>"
  have "entry_ok m i ?e"
    using live_entry_ok [OF assms(1) h(1)] l by (auto simp: entry_ok_def bit_simps)
  then obtain m' where "vm_put m i ?e = Inr m'" "mem_ok m'" "same_env m m'"
    using put_ok [OF assms(1) l(1) h(4), of ?e] by (auto simp: bit_simps)
  then show ?thesis
    using True h by (simp add: vely_mem_set_process_def vely_set_mem_status_def res_bind_def)
qed

lemma clear_ok:
  assumes "mem_ok m" "file_at m i = Some f"
  shows "\<exists>m'. vely_clear_mem i m = Inr m' \<and> mem_ok m' \<and> same_env m m'"
proof -
  obtain v where v: "vm m = Some v" "length v = vm_tot m" "vm_curr m < vm_tot m"
    using assms(1) by (auto simp: mem_ok_def table_ok_def)
  then have l: "i < vm_curr m" "\<not> bit (status (v ! i)) 0" "bit (status (v ! i)) 1"
      "vm_at m i = Inr (v ! i)"
    using assms(2) by (auto simp: file_at_def vm_at_def split: if_splits)
  have "entry_ok m i ((v ! i)\<lparr>vptr := 0\<rparr>)" using l by (simp add: entry_ok_def)
  then show ?thesis
    using put_ok [OF assms(1) l(1,4), of "(v ! i)\<lparr>vptr := 0\<rparr>"] l(4)
    by (auto simp: vely_clear_mem_def res_bind_def)
qed

lemma reg_file_ok:
  assumes "mem_ok m" "f \<in> fst ` set (files m)" "vely_reg_file os f m = Inr (i, m')"
  shows "mem_ok m' \<and> same_env m m'"
proof -
  have tm: "table_ok {} m" and sm: "strings_ok m" using assms(1) by (simp_all add: mem_ok_def)
  obtain r m1 where s: "vely_add_slot os m = Inr (r, m1)" "slot_taken m r m1"
    using add_slot_ok [OF tm, of os] assms(3)
    by (auto simp: vely_reg_file_def vely_add_mem_def res_bind_def)
  then have t1: "table_ok {r} m1" "mheap m1 = mheap m" "same_env m m1"
    by (auto simp: slot_taken_def)
  obtain v where v: "vm m1 = Some v" "r < length v"
    using t1(1) by (auto simp: table_ok_def)
  let ?s = "status (v ! r) AND NOT VV_MEM_FREE"
  let ?e = "(v ! r)\<lparr>vptr := f, status := if vely_mem_process m1 then ?s OR VV_MEM_PROCESS else ?s\<rparr>"
  let ?e' = "?e\<lparr>status := status ?e OR VV_MEM_FILE\<rparr>"
  have bits: "\<not> bit (status ?e') 0" "bit (status ?e') 1" by (auto simp: bit_simps)
  have "entry_ok m1 r ?e'" using bits assms(2) t1(3) by (simp add: entry_ok_def same_env_def)
  then obtain m2 where m2: "vm_put m1 r ?e' = Inr m2" "table_ok {} m2" "mheap m2 = mheap m1"
      "same_env m1 m2"
    using fill_slot [OF t1(1) bits(1)] by auto
  have "m' = m2"
    using assms(3) s(1) v m2(1)
    by (auto simp: vely_reg_file_def vely_add_mem_def vely_set_mem_status_def res_bind_def vm_at_def
        vm_put_def Let_def)
  then show ?thesis
    using m2 t1 sm same_env_trans by (auto simp: mem_ok_def strings_ok_def same_env_def)
qed

lemma init_start_ok:
  assumes "os_fresh os" "vely_memory_init os mem_start = Inr m"
  shows "mem_ok m \<and> \<not> vely_mem_os m \<and> mem_block m = Map.empty"
proof -
  obtain p m1 where p: "c_alloc os 1 [NUL] mem_start = Some (p, m1)"
      "vely_done os (m1\<lparr>empty_string := p\<rparr>) = Inr m"
    using assms(2) by (auto simp: vely_memory_init_def mem_start_def split: option.splits)
  let ?b = "\<lparr>hdr = os_hdr os, total = 1, bytes = [NUL]\<rparr>"
  have m1: "m1 = mem_start\<lparr>mheap := [(p, ?b)]\<rparr>" "os_malloc os [] 1 = Some p"
    using p(1) by (auto simp: c_alloc_def mem_start_def split: option.splits)
  then have "p \<noteq> 0" using assms(1) fresh_block(2) by blast
  then have s: "strings_ok (m1\<lparr>empty_string := p\<rparr>)" by (simp add: strings_ok_def m1(1))
  have "m = m1\<lparr>empty_string := p, vm := Some (replicate VELYMSIZE \<lparr>vptr = 0, status = 0, next_free = 0\<rparr>),
      vm_tot := VELYMSIZE, vm_curr := 0, vm_first_free := -1\<rparr>"
    using p(2) by (auto simp: vely_done_def res_bind_def m1(1) mem_start_def split: if_splits)
  then show ?thesis
    using empty_table_ok [OF s]
    by (auto simp: m1(1) mem_start_def mem_block_def live_def fun_eq_iff split: option.split)
qed

text \<open>
  The steps of a program that uses the manager: the calls it makes, with pointers it was
  given (or null, or the empty string), the switch of the scope, a file variable that is
  assigned, and the end of a request.
\<close>

definition usable :: "mem \<Rightarrow> nat \<Rightarrow> bool" where
  "usable m ptr \<longleftrightarrow> ptr = 0 \<or> ptr = empty_string m \<or> mem_block m ptr \<noteq> None"

inductive mem_step :: "os \<Rightarrow> mem \<Rightarrow> mem \<Rightarrow> bool" for os where
  malloc: "vely_malloc os n m = Inr (p, m') \<Longrightarrow> mem_step os m m'"
| calloc: "vely_calloc os k n m = Inr (p, m') \<Longrightarrow> mem_step os m m'"
| strdup: "vely_strdup os s m = Inr (p, m') \<Longrightarrow> mem_step os m m'"
| realloc: "usable m ptr \<Longrightarrow> vely_realloc os ptr n safe m = Inr (p, m') \<Longrightarrow> mem_step os m m'"
| free: "usable m ptr \<Longrightarrow> vely_free ptr check m = Inr (ok, m') \<Longrightarrow> mem_step os m m'"
| set_process: "mem_block m ptr \<noteq> None \<Longrightarrow> vely_mem_set_process ptr m = Inr m' \<Longrightarrow> mem_step os m m'"
| reg_file: "f \<in> fst ` set (files m) \<Longrightarrow> vely_reg_file os f m = Inr (i, m') \<Longrightarrow> mem_step os m m'"
| close_file: "file_at m i \<noteq> None \<Longrightarrow> vely_clear_mem i m = Inr m' \<Longrightarrow> mem_step os m m'"
| open_file: "mem_step os m (m\<lparr>files := AList.update f h (files m)\<rparr>)"
| scope: "mem_step os m (m\<lparr>vely_mem_process := b\<rparr>)"
| request_end: "vely_memory_init os m = Inr m' \<Longrightarrow> mem_step os m m'"

inductive_cases mem_stepE: "mem_step os m m'"

lemma alloc_step_ok:
  assumes "os_fresh os" "mem_ok m \<and> \<not> vely_mem_os m" "vely_alloc os n c m = Inr (p, m')"
  shows "mem_ok m' \<and> \<not> vely_mem_os m'"
  using alloc_ok [of m os c n] assms handed_Inr [of os m _ c p m'] by (auto simp: same_env_def)

lemma done_step_ok:
  assumes "mem_ok m \<and> \<not> vely_mem_os m" "vely_memory_init os m = Inr m'"
  shows "mem_ok m' \<and> \<not> vely_mem_os m'"
proof (cases "os_table_ok os VELYMSIZE")
  case True
  then show ?thesis
    using assms done_ok [of m os] by (auto simp: vely_memory_init_def mem_ok_def strings_ok_def same_env_def)
next
  case False
  let ?os = "os\<lparr>os_table_ok := \<lambda>_. True\<rparr>"
  have "vely_done os m = Inr m'"
    using assms by (auto simp: vely_memory_init_def mem_ok_def strings_ok_def)
  then have "vely_done ?os m = Inr m'"
    using False by (auto simp: vely_done_def res_bind_def split: sum.splits if_splits)
  then show ?thesis using assms(1) done_ok [of m ?os] by (auto simp: same_env_def)
qed

lemma mem_step_ok:
  assumes "mem_step os m m'" "os_fresh os" "mem_ok m \<and> \<not> vely_mem_os m"
  shows "mem_ok m' \<and> \<not> vely_mem_os m'"
  using assms(1)
proof (cases rule: mem_step.cases)
  case (realloc ptr n safe p)
  show ?thesis
  proof (cases "mem_block m ptr")
    case None
    then have "vely_malloc os n m = Inr (p, m')"
      using realloc by (auto simp: usable_def vely_realloc_def)
    then show ?thesis using alloc_step_ok [OF assms(2,3)] by (simp add: vely_malloc_def)
  next
    case (Some x)
    obtain pr c where "x = (pr, c)" by (cases x)
    then have "handed os m ((mem_block m)(ptr := None)) (take n (c @ os_bytes os n)) (Inr (p, m'))"
      using realloc_ok [of m os ptr pr c n safe] realloc(2) Some assms(2,3) by simp
    from handed_Inr [OF this] show ?thesis using assms(3) by (auto simp: same_env_def)
  qed
next
  case (free ptr check ok)
  show ?thesis
  proof (cases "mem_block m ptr")
    case None
    then have "m' = m" using free by (auto simp: usable_def vely_free_def)
    then show ?thesis using assms(3) by simp
  next
    case (Some x)
    then show ?thesis using free(2) free_ok [of m ptr x check] assms(3) by (auto simp: same_env_def)
  qed
next
  case (set_process ptr)
  then show ?thesis using set_process_ok [of m ptr] assms(3) by (auto simp: same_env_def)
next
  case (reg_file f i)
  then show ?thesis using reg_file_ok [of m f os i m'] assms(3) by (auto simp: same_env_def)
next
  case (close_file i)
  then show ?thesis using clear_ok [of m i] assms(3) by (auto simp: same_env_def)
next
  case (open_file f h)
  then show ?thesis
    using files_change_ok [of m "AList.update f h (files m)"] assms(3) by (auto simp: dom_update)
next
  case (scope b)
  have eo: "entry_ok (m\<lparr>vely_mem_process := b\<rparr>) = entry_ok m"
    by (intro ext entry_ok_cong) simp_all
  have "table_ok {} (m\<lparr>vely_mem_process := b\<rparr>)"
    using assms(3) unfolding mem_ok_def table_ok_def eo by simp
  then show ?thesis using assms(3) scope by (simp add: mem_ok_def strings_ok_def)
next
  case request_end
  then show ?thesis using done_step_ok assms(3) by blast
qed (use alloc_step_ok [OF assms(2,3)] in \<open>auto simp: vely_malloc_def vely_calloc_def vely_strdup_def\<close>)

section \<open>A C library for examples\<close>

text \<open>It puts every block behind all others.\<close>

fun heap_end :: "heap \<Rightarrow> nat" where
  "heap_end [] = 0"
| "heap_end ((p, b) # h) = max (p + total b) (heap_end h)"

definition os_bump :: os where
  "os_bump = \<lparr>os_malloc = \<lambda>h n. Some (heap_end h + 1), os_bytes = \<lambda>n. replicate n (CHR ''?''),
     os_hdr = 0, os_vml = \<lparr>vptr = 0, status = 0, next_free = 0\<rparr>, os_table_ok = \<lambda>_. True\<rparr>"

definition mem_ready :: mem where
  "mem_ready = (case vely_memory_init os_bump mem_start of Inr m \<Rightarrow> m | Inl e \<Rightarrow> mem_start)"

lemma heap_end_bound: "(p, b) \<in> set h \<Longrightarrow> p + total b \<le> heap_end h"
  by (induction h rule: heap_end.induct) auto

lemma os_bump_fresh: "os_fresh os_bump"
  using heap_end_bound by (force simp: os_fresh_def os_bump_def)

lemma os_bump_not_oom: "\<not> oom os_bump"
  by (simp add: oom_def os_bump_def)

lemma mem_ready_init: "vely_memory_init os_bump mem_start = Inr mem_ready"
  by (simp add: mem_ready_def vely_memory_init_def mem_start_def c_alloc_def os_bump_def
      vely_done_def res_bind_def)

lemma mem_ready_ok: "mem_ok mem_ready" "\<not> vely_mem_os mem_ready" "mem_block mem_ready = Map.empty"
  using init_start_ok [OF os_bump_fresh mem_ready_init] by simp_all

text \<open>A state in which one block is held.\<close>

definition mem_one :: "nat \<times> mem" where
  "mem_one = (case vely_strdup os_bump ''abc'' mem_ready of Inr x \<Rightarrow> x | Inl e \<Rightarrow> (0, mem_ready))"

lemma mem_one:
  obtains pr where "vely_strdup os_bump ''abc'' mem_ready = Inr mem_one" "mem_ok (snd mem_one)"
    "\<not> vely_mem_os (snd mem_one)" "mem_block (snd mem_one) (fst mem_one) = Some (pr, ''abc'' @ [NUL])"
proof -
  have "handed os_bump mem_ready (mem_block mem_ready) (''abc'' @ [NUL])
      (vely_strdup os_bump ''abc'' mem_ready)"
    unfolding vely_strdup_def by (rule alloc_ok [OF mem_ready_ok(1) os_bump_fresh mem_ready_ok(2)])
  then obtain p m pr where r: "vely_strdup os_bump ''abc'' mem_ready = Inr (p, m)" "mem_ok m"
      "same_env mem_ready m" "mem_block m = (mem_block mem_ready)(p \<mapsto> (pr, ''abc'' @ [NUL]))"
    using os_bump_not_oom unfolding handed_def by blast
  then show ?thesis using that [of pr] mem_ready_ok(2) by (simp add: mem_one_def same_env_def)
qed

section \<open>Properties\<close>

text \<open>C11: whatever a program does with the memory manager (allocating, resizing, freeing what it
  was given, registering and closing files, changing the scope, ending requests), its table
  stays consistent: the list of free entries has exactly the freed ones, once each, and
  every other entry is a registered file or a live block that carries its index.\<close>

theorem mem_reachable_ok:
  assumes "os_fresh os" "vely_memory_init os mem_start = Inr m0" "(mem_step os)\<^sup>*\<^sup>* m0 m"
  shows "mem_ok m"
proof -
  have "mem_ok m \<and> \<not> vely_mem_os m"
    using assms(3)
  proof (induction rule: rtranclp_induct)
    case base
    then show ?case using init_start_ok [OF assms(1,2)] by simp
  next
    case (step y z)
    then show ?case using mem_step_ok assms(1) by blast
  qed
  then show ?thesis by simp
qed

theorem mem_reachable_ok_witness: "mem_ok (mem_ready\<lparr>vely_mem_process := True\<rparr>)"
  by (rule mem_reachable_ok [OF os_bump_fresh mem_ready_init])
    (rule r_into_rtranclp, rule mem_step.scope)

text \<open>Allocating gives the program a pointer it did not have, to bytes with the right content
  (a copy, zeros, or what the C library left), and changes nothing it holds; it fails only
  when the C library has no memory.\<close>

lemma mem_alloc_fresh:
  assumes "mem_ok m" "os_fresh os" "\<not> vely_mem_os m"
  shows "handed os m (mem_block m) (os_bytes os n) (vely_malloc os n m)
    \<and> handed os m (mem_block m) (replicate (k * n) NUL) (vely_calloc os k n m)
    \<and> handed os m (mem_block m) (s @ [NUL]) (vely_strdup os s m)"
  using alloc_ok [OF assms] by (simp add: vely_malloc_def vely_calloc_def vely_strdup_def)

lemma mem_alloc_fresh_witness:
  "handed os_bump mem_ready (mem_block mem_ready) (os_bytes os_bump 8) (vely_malloc os_bump 8 mem_ready)
    \<and> handed os_bump mem_ready (mem_block mem_ready) (replicate (2 * 8) NUL) (vely_calloc os_bump 2 8 mem_ready)
    \<and> handed os_bump mem_ready (mem_block mem_ready) (''x'' @ [NUL]) (vely_strdup os_bump ''x'' mem_ready)"
  by (rule mem_alloc_fresh [OF mem_ready_ok(1) os_bump_fresh mem_ready_ok(2)])

text \<open>Resizing a held block gives a block that starts with its bytes, cut or extended to the
  new size, in its place among everything that is held, which is otherwise unchanged.\<close>

lemma mem_realloc_keeps:
  assumes "mem_ok m" "os_fresh os" "\<not> vely_mem_os m" "mem_block m ptr = Some (pr, c)"
  shows "handed os m ((mem_block m)(ptr := None)) (take n (c @ os_bytes os n)) (vely_realloc os ptr n safe m)"
  by (rule realloc_ok [OF assms])

lemma mem_realloc_keeps_witness:
  "handed os_bump (snd mem_one) ((mem_block (snd mem_one))(fst mem_one := None))
     (take 2 ((''abc'' @ [NUL]) @ os_bytes os_bump 2)) (vely_realloc os_bump (fst mem_one) 2 True (snd mem_one))"
  by (rule mem_one) (rule mem_realloc_keeps [OF _ os_bump_fresh])

text \<open>C5: any number of blocks that are allocated and then freed, in whatever order, leaves exactly
  what was held before.\<close>

theorem mem_balanced:
  assumes "os_fresh os" "mem_ok m" "\<not> vely_mem_os m"
    and "outputs (vely_malloc os n) k m = Inr (ps, m1)" "distinct qs" "set qs = set ps"
  shows "\<exists>m2. inputs (\<lambda>m p. res_bind (vely_free p False m) (\<lambda>(ok, m1). Inr m1)) qs m1 = Inr m2
    \<and> mem_ok m2 \<and> mem_block m2 = mem_block m"
  using vely.balanced [OF assms(1) _ assms(4-6)] assms(2,3) by blast

theorem mem_balanced_witness:
  "\<exists>p m1 m2. outputs (vely_malloc os_bump 4) 1 mem_ready = Inr ([p], m1)
    \<and> inputs (\<lambda>m p. res_bind (vely_free p False m) (\<lambda>(ok, m1). Inr m1)) [p] m1 = Inr m2
    \<and> mem_ok m2 \<and> mem_block m2 = mem_block mem_ready"
proof -
  have "handed os_bump mem_ready (mem_block mem_ready) (os_bytes os_bump 4) (vely_malloc os_bump 4 mem_ready)"
    unfolding vely_malloc_def by (rule alloc_ok [OF mem_ready_ok(1) os_bump_fresh mem_ready_ok(2)])
  then obtain p m1 where "vely_malloc os_bump 4 mem_ready = Inr (p, m1)"
    using os_bump_not_oom unfolding handed_def by blast
  then have o: "outputs (vely_malloc os_bump 4) 1 mem_ready = Inr ([p], m1)"
    by (simp add: res_bind_def)
  then show ?thesis using mem_balanced [OF os_bump_fresh mem_ready_ok(1,2) o, of "[p]"] by auto
qed

text \<open>C23: ending a request never fails on a consistent table; of what was held it keeps exactly the
  process-scoped blocks, under the same pointers and with the same bytes, and it closes every
  file that was registered and not closed.\<close>

theorem mem_done_exact:
  assumes "mem_ok m" "\<not> vely_mem_os m" "os_table_ok os VELYMSIZE"
  shows "\<exists>m'. vely_done os m = Inr m' \<and> mem_ok m' \<and> mem_block m' = process_blocks (mem_block m)
    \<and> registered m \<subseteq> {f. map_of (files m') f = Some 0}"
  using done_ok [OF assms] by blast

theorem mem_done_exact_witness:
  "\<exists>m'. vely_done os_bump mem_ready = Inr m' \<and> mem_ok m'
     \<and> mem_block m' = process_blocks (mem_block mem_ready)
     \<and> registered mem_ready \<subseteq> {f. map_of (files m') f = Some 0}"
  by (rule mem_done_exact [OF mem_ready_ok(1,2)]) (simp add: os_bump_def)

text \<open>An entry keeps its process scope when its block is freed: the next block allocated takes
  it over, and outlives the request although it was not asked to.\<close>

lemma freed_scope_inherited:
  assumes "mem_ok m" "os_fresh os" "\<not> vely_mem_os m" "mem_block m p = Some (True, c)"
    and "vely_free p check m = Inr (ok, m1)" "vely_malloc os n (m1\<lparr>vely_mem_process := False\<rparr>) = Inr (q, m2)"
  shows "\<exists>d. mem_block m2 q = Some (True, d)"
proof -
  obtain i e b where h: "live m i = Some e" "p = vptr e + VV_ALIGN" "map_of (mheap m) (vptr e) = Some b"
      "True = bit (status e) 2" "vely_get_memory p m = Inr (int i)" "mem_mismatch p (int i) m = Inr False"
      "vm_at m i = Inr e" "\<not> bit (status e) 0" "p \<noteq> empty_string m" "p \<noteq> 0" "vptr e \<noteq> 0"
    by (rule held_block [OF assms(1,4)])
  obtain v where v: "vm m = Some v" "length v = vm_tot m" "vm_curr m < vm_tot m"
    using assms(1) by (auto simp: mem_ok_def table_ok_def)
  have l: "e = v ! i" "i < vm_curr m" "\<not> bit (status e) 1" using table_live [OF v(1) h(1)] by auto
  let ?e = "e\<lparr>vptr := 0, status := status e OR VV_MEM_FREE, next_free := vm_first_free m\<rparr>"
  have "vely_set_free i m = Inr (m\<lparr>vm := Some (v[i := ?e]), vm_first_free := int i\<rparr>)"
    using h(7) l v by (simp add: vely_set_free_def vm_put_def res_bind_def)
  then have m1: "m1 = m\<lparr>vm := Some (v[i := ?e]), vm_first_free := int i,
      mheap := AList.delete (vptr e) (mheap m)\<rparr>"
    using assms(3,5) h by (cases check) (auto simp: vely_free_def res_bind_def c_free_def)
  obtain p' where p': "os_malloc os (AList.delete (vptr e) (mheap m)) (n + VV_ALIGN) = Some p'"
    using assms(3,6)
    by (auto simp: vely_malloc_def vely_alloc_def c_alloc_def m1 split: option.splits)
  have s: "q = p' + VV_ALIGN" "vm m2 = Some (v[i := ?e\<lparr>vptr := p',
        status := (status e OR VV_MEM_FREE) AND NOT VV_MEM_FREE\<rparr>])" "vm_curr m2 = vm_curr m"
      "\<exists>d. map_of (mheap m2) p' = Some d \<and> hdr d = int i"
    using assms(3,6) p' l v
    by (auto simp: vely_malloc_def vely_alloc_def c_alloc_def m1 vely_add_mem_def vely_add_slot_def
        vm_at_def vm_put_def res_bind_def vely_vmset_def Let_def map_of_update)
  then have "live m2 i = Some (?e\<lparr>vptr := p', status := (status e OR VV_MEM_FREE) AND NOT VV_MEM_FREE\<rparr>)"
    using l v h(8) by (simp add: live_def bit_simps)
  then show ?thesis using s h(4) by (auto simp: mem_block_def bit_simps)
qed

text \<open>The state in which the block held is process-scoped, and the steps after it.\<close>

definition mem_process_one :: "nat \<times> mem" where
  "mem_process_one =
     (case vely_strdup os_bump ''abc'' (mem_ready\<lparr>vely_mem_process := True\<rparr>) of
        Inr x \<Rightarrow> x | Inl e \<Rightarrow> (0, mem_ready))"

lemma mem_ready_process: "mem_ok (mem_ready\<lparr>vely_mem_process := True\<rparr>)"
  using mem_step_ok [OF mem_step.scope os_bump_fresh, of mem_ready True] mem_ready_ok by simp

lemma freed_scope_inherited_witness:
  "\<exists>p m ok m1 q m2 d. mem_process_one = (p, m) \<and> vely_free p True m = Inr (ok, m1)
     \<and> vely_malloc os_bump 9 (m1\<lparr>vely_mem_process := False\<rparr>) = Inr (q, m2)
     \<and> mem_block m2 q = Some (True, d)"
proof -
  let ?m0 = "mem_ready\<lparr>vely_mem_process := True\<rparr>"
  have os0: "\<not> vely_mem_os ?m0" using mem_ready_ok(2) by simp
  have "handed os_bump ?m0 (mem_block ?m0) (''abc'' @ [NUL]) (vely_strdup os_bump ''abc'' ?m0)"
    unfolding vely_strdup_def by (rule alloc_ok [OF mem_ready_process os_bump_fresh os0])
  then obtain p m where m: "vely_strdup os_bump ''abc'' ?m0 = Inr (p, m)" "mem_ok m" "same_env ?m0 m"
      "mem_block m p = Some (True, ''abc'' @ [NUL])"
    using os_bump_not_oom unfolding handed_def by auto
  have os1: "\<not> vely_mem_os m" using m(3) os0 by (simp add: same_env_def)
  obtain m1 where m1: "vely_free p True m = Inr (True, m1)" "mem_ok m1" "same_env m m1"
    using free_ok [OF m(2) os1 m(4), of True] by blast
  have ok2: "mem_ok (m1\<lparr>vely_mem_process := False\<rparr>)" "\<not> vely_mem_os (m1\<lparr>vely_mem_process := False\<rparr>)"
    using mem_step_ok [OF mem_step.scope os_bump_fresh, of m1 False] m1 os1 by (auto simp: same_env_def)
  have "handed os_bump (m1\<lparr>vely_mem_process := False\<rparr>) (mem_block (m1\<lparr>vely_mem_process := False\<rparr>))
      (os_bytes os_bump 9) (vely_malloc os_bump 9 (m1\<lparr>vely_mem_process := False\<rparr>))"
    unfolding vely_malloc_def by (rule alloc_ok [OF ok2(1) os_bump_fresh ok2(2)])
  then obtain q m2 where q: "vely_malloc os_bump 9 (m1\<lparr>vely_mem_process := False\<rparr>) = Inr (q, m2)"
    using os_bump_not_oom unfolding handed_def by auto
  have "mem_process_one = (p, m)" using m(1) by (simp add: mem_process_one_def)
  then show ?thesis
    using freed_scope_inherited [OF m(2) os_bump_fresh os1 m(4) m1(1) q] m1(1) q by blast
qed

end
