(* ===== verification/Maps.thy ===== *)
theory Maps
  imports Prelude
begin

text \<open>
  The contracts of the containers: a store of values under keys (the hash table and the
  tree), a store that counts its entries, and a structure whose elements can be visited
  one after the other.  What follows from a contract is proved here, once; the containers
  interpret it on their own operations.
\<close>

section \<open>A store of values under keys\<close>

text \<open>A key is the address of a string and the string: what is handed back is the pointer.\<close>

type_synonym ckey = "nat \<times> string"

datatype ('k, 'v) map_op = Put 'k 'v | Get 'k | Remove 'k

text \<open>A history of operations, with the answers, on a map and on a container.\<close>

fun map_run :: "('k \<rightharpoonup> 'v) \<Rightarrow> ('k, 'v) map_op list \<Rightarrow> 'v option list \<times> ('k \<rightharpoonup> 'v)" where
  "map_run f [] = ([], f)"
| "map_run f (Put k v # ops) = (case map_run (f(k \<mapsto> v)) ops of (ys, g) \<Rightarrow> (f k # ys, g))"
| "map_run f (Get k # ops) = (case map_run f ops of (ys, g) \<Rightarrow> (f k # ys, g))"
| "map_run f (Remove k # ops) = (case map_run (f(k := None)) ops of (ys, g) \<Rightarrow> (f k # ys, g))"

fun run_ops ::
  "('s \<Rightarrow> 'k \<Rightarrow> 'v \<Rightarrow> 'v option \<times> 's) \<Rightarrow> ('s \<Rightarrow> 'k \<Rightarrow> 'v option \<times> 's) \<Rightarrow> ('s \<Rightarrow> 'k \<Rightarrow> 'v option \<times> 's)
     \<Rightarrow> 's \<Rightarrow> ('k, 'v) map_op list \<Rightarrow> 'v option list \<times> 's" where
  "run_ops p g r s [] = ([], s)"
| "run_ops p g r s (Put k v # ops) =
     (case p s k v of (y, s1) \<Rightarrow> case run_ops p g r s1 ops of (ys, s2) \<Rightarrow> (y # ys, s2))"
| "run_ops p g r s (Get k # ops) =
     (case g s k of (y, s1) \<Rightarrow> case run_ops p g r s1 ops of (ys, s2) \<Rightarrow> (y # ys, s2))"
| "run_ops p g r s (Remove k # ops) =
     (case r s k of (y, s1) \<Rightarrow> case run_ops p g r s1 ops of (ys, s2) \<Rightarrow> (y # ys, s2))"

locale keyed_map =
  fixes inv :: "'s \<Rightarrow> bool"
    and entry :: "'s \<Rightarrow> 'k \<Rightarrow> 'v option"
    and put :: "'s \<Rightarrow> 'k \<Rightarrow> 'v \<Rightarrow> 'v option \<times> 's"
    and get :: "'s \<Rightarrow> 'k \<Rightarrow> 'v option \<times> 's"
    and remove :: "'s \<Rightarrow> 'k \<Rightarrow> 'v option \<times> 's"
  assumes put: "inv s \<Longrightarrow> put s k v = (y, s') \<Longrightarrow> y = entry s k \<and> inv s' \<and> entry s' = (entry s)(k \<mapsto> v)"
    and get: "inv s \<Longrightarrow> get s k = (y, s') \<Longrightarrow> y = entry s k \<and> inv s' \<and> entry s' = entry s"
    and remove: "inv s \<Longrightarrow> remove s k = (y, s') \<Longrightarrow>
      y = entry s k \<and> inv s' \<and> entry s' = (entry s)(k := None)"
begin

lemma simulation:
  "inv s \<Longrightarrow> run_ops put get remove s ops = (ys, s') \<Longrightarrow>
     map_run (entry s) ops = (ys, entry s') \<and> inv s'"
proof (induction ops arbitrary: s ys)
  case (Cons op ops)
  show ?case
  proof (cases op)
    case (Put k v)
    then obtain y s1 zs where r: "put s k v = (y, s1)" "run_ops put get remove s1 ops = (zs, s')"
        "ys = y # zs"
      using Cons.prems(2) by (auto split: prod.splits)
    then show ?thesis using Put put [OF Cons.prems(1) r(1)] Cons.IH [OF _ r(2)]
      by (auto simp del: fun_upd_apply)
  next
    case (Get k)
    then obtain y s1 zs where r: "get s k = (y, s1)" "run_ops put get remove s1 ops = (zs, s')"
        "ys = y # zs"
      using Cons.prems(2) by (auto split: prod.splits)
    then show ?thesis using Get get [OF Cons.prems(1) r(1)] Cons.IH [OF _ r(2)] by auto
  next
    case (Remove k)
    then obtain y s1 zs where r: "remove s k = (y, s1)" "run_ops put get remove s1 ops = (zs, s')"
        "ys = y # zs"
      using Cons.prems(2) by (auto split: prod.splits)
    then show ?thesis using Remove remove [OF Cons.prems(1) r(1)] Cons.IH [OF _ r(2)]
      by (auto simp del: fun_upd_apply)
  qed
qed simp

lemma fresh_simulation:
  "inv s \<Longrightarrow> entry s = Map.empty \<Longrightarrow> fst (run_ops put get remove s ops) = fst (map_run Map.empty ops)"
  using simulation [of s ops] by (metis fst_conv surj_pair)

end

section \<open>A store that counts its entries\<close>

locale counted_map = keyed_map +
  fixes count :: "'a \<Rightarrow> int"
  assumes count: "inv s \<Longrightarrow> finite (dom (entry s)) \<and> count s = int (card (dom (entry s)))"
begin

lemma count_history:
  assumes "inv s" "entry s = Map.empty"
  shows "count (snd (run_ops put get remove s ops)) = int (card (dom (snd (map_run Map.empty ops))))"
  using simulation [OF assms(1), of ops] assms(2) count by (metis snd_conv surj_pair)

end

section \<open>Visiting elements\<close>

locale enumerator =
  fixes inv :: "'s \<Rightarrow> bool"
    and remaining :: "'s \<Rightarrow> 'e list"
    and nxt :: "'s \<Rightarrow> ('o \<times> 's) res"
    and out :: "'e \<Rightarrow> 'o"
    and nothing :: 'o
  assumes nxt_Cons: "inv s \<Longrightarrow> remaining s = e # es \<Longrightarrow>
      \<exists>s'. nxt s = Inr (out e, s') \<and> inv s' \<and> remaining s' = es"
    and nxt_Nil: "inv s \<Longrightarrow> remaining s = [] \<Longrightarrow>
      \<exists>s'. nxt s = Inr (nothing, s') \<and> inv s' \<and> remaining s' = []"
begin

lemma visits:
  "inv s \<Longrightarrow> \<exists>s'. outputs nxt (length (remaining s) + n) s
      = Inr (map out (remaining s) @ replicate n nothing, s') \<and> inv s' \<and> remaining s' = []"
proof (induction "remaining s" arbitrary: s)
  case Nil
  then show ?case
  proof (induction n arbitrary: s)
    case (Suc n)
    obtain s1 where s1: "nxt s = Inr (nothing, s1)" "inv s1" "remaining s1 = []"
      using nxt_Nil [OF Suc.prems(2)] Suc.prems(1) by metis
    then show ?case using Suc.IH [of s1] Suc.prems(1) by (auto simp: res_bind_def)
  qed simp
next
  case (Cons e es)
  obtain s1 where s1: "nxt s = Inr (out e, s1)" "inv s1" "remaining s1 = es"
    using nxt_Cons [OF Cons.prems] Cons.hyps(2) by metis
  then obtain s2 where "outputs nxt (length es + n) s1
      = Inr (map out es @ replicate n nothing, s2)" "inv s2" "remaining s2 = []"
    using Cons.hyps(1) [of s1] by auto
  then show ?case using s1(1) by (auto simp: res_bind_def Cons.hyps(2) [symmetric])
qed

end

section \<open>Histories of a machine and of its specification\<close>

fun history :: "('s \<Rightarrow> 'o \<Rightarrow> 'a \<times> 's) \<Rightarrow> 's \<Rightarrow> 'o list \<Rightarrow> 'a list \<times> 's" where
  "history step s [] = ([], s)"
| "history step s (op # ops) =
     (case step s op of (a, s1) \<Rightarrow> case history step s1 ops of (as, s2) \<Rightarrow> (a # as, s2))"

text \<open>The invariant carries how many more steps are allowed.\<close>

locale simulation =
  fixes inv :: "nat \<Rightarrow> 's \<Rightarrow> bool"
    and abs :: "'s \<Rightarrow> 'b"
    and legal :: "'o \<Rightarrow> bool"
    and step :: "'s \<Rightarrow> 'o \<Rightarrow> 'a \<times> 's"
    and spec :: "'b \<Rightarrow> 'o \<Rightarrow> 'a \<times> 'b"
  assumes step: "inv (Suc n) s \<Longrightarrow> legal op \<Longrightarrow> step s op = (a, s') \<Longrightarrow>
      inv n s' \<and> spec (abs s) op = (a, abs s')"
begin

lemma history_refines:
  "inv (length ops + n) s \<Longrightarrow> list_all legal ops \<Longrightarrow> history step s ops = (as, s') \<Longrightarrow>
     inv n s' \<and> history spec (abs s) ops = (as, abs s')"
proof (induction ops arbitrary: s as)
  case (Cons op ops)
  obtain a s1 bs where r: "step s op = (a, s1)" "history step s1 ops = (bs, s')" "as = a # bs"
    using Cons.prems(3) by (auto split: prod.splits)
  have "inv (length ops + n) s1 \<and> spec (abs s) op = (a, abs s1)"
    using step [of "length ops + n" s op a s1] Cons.prems r(1) by simp
  then show ?case using Cons.IH [of s1 bs] Cons.prems(2) r by auto
qed simp

end

end
