(* ===== verification/HashTab.thy ===== *)
theory HashTab
  imports Mem Maps
begin

text \<open>
  The hash table of hash.c: an array of linked lists of key/data pairs, with a cursor that
  visits all of them.  An element of a list is a record with an address of its own
  (\<open>nid\<close>, taken from a supply of unused ones as \<open>vely_malloc\<close> does), because the cursor
  \<open>dcurr\<close> and the deletion work with pointers to elements.  A key is the address of a string
  and the string, because what is handed back is the pointer; data is an address, \<open>0\<close> is
  \<^verbatim>\<open>NULL\<close>.
\<close>

record hnode =
  nid :: nat
  key :: ckey
  data :: nat

record vely_hash =
  num_buckets :: nat
  table :: "hnode list list"
  tot :: int
  hits :: int
  reads :: int
  process :: bool
  dnext :: nat
  dcurr :: "nat option"
  fresh :: nat

section \<open>The hash value\<close>

definition VV_FNVPRIME :: "32 word" where "VV_FNVPRIME = 16777619"
definition VV_FNVOFFSETBASIS :: "32 word" where "VV_FNVOFFSETBASIS = 2166136261"

definition VV_FNVCOMP :: "32 word \<Rightarrow> char \<Rightarrow> 32 word" where
  "VV_FNVCOMP h c = (h XOR word_of_int (schar c)) * VV_FNVPRIME"

text \<open>With a list of keys, its end stands for the \<^verbatim>\<open>NULL\<close> that ends it.\<close>

definition vely_compute_hash :: "string \<Rightarrow> string list option \<Rightarrow> nat \<Rightarrow> nat" where
  "vely_compute_hash d dlist sz =
     (case dlist of
        None \<Rightarrow> unat (fold (\<lambda>c h. VV_FNVCOMP h c) d VV_FNVOFFSETBASIS) mod sz
      | Some ds \<Rightarrow>
          unat (fold (\<lambda>s h. fold (\<lambda>c h. VV_FNVCOMP h c) s h) ds VV_FNVOFFSETBASIS) mod sz)"

section \<open>Elements of the lists\<close>

text \<open>The list that starts with an element, found by its address, in a list or in the table.\<close>

definition tail_at :: "nat \<Rightarrow> hnode list \<Rightarrow> hnode list" where
  "tail_at i b = dropWhile (\<lambda>n. nid n \<noteq> i) b"

fun node_tail :: "nat \<Rightarrow> hnode list list \<Rightarrow> hnode list" where
  "node_tail i [] = []"
| "node_tail i (b # bs) = (case tail_at i b of [] \<Rightarrow> node_tail i bs | n # ns \<Rightarrow> n # ns)"

definition head_id :: "hnode list \<Rightarrow> nat option" where
  "head_id b = (case b of [] \<Rightarrow> None | n # ns \<Rightarrow> Some (nid n))"

text \<open>\<^verbatim>\<open>prev->next = next\<close>.\<close>

definition set_next :: "nat \<Rightarrow> hnode list \<Rightarrow> hnode list \<Rightarrow> hnode list" where
  "set_next prev next b =
     (case tail_at prev b of
        [] \<Rightarrow> b
      | p # ps \<Rightarrow> takeWhile (\<lambda>n. nid n \<noteq> prev) b @ p # next)"

section \<open>Making and deleting a table\<close>

definition vely_rewind_hash :: "vely_hash \<Rightarrow> vely_hash" where
  "vely_rewind_hash h = h\<lparr>dnext := 0, dcurr := head_id (table h ! 0)\<rparr>"

definition vely_create_hash :: "nat \<Rightarrow> int \<Rightarrow> hnode list list option \<Rightarrow> bool \<Rightarrow> vely_hash" where
  "vely_create_hash supply sz in_h pr =
     (let sz = (if sz < 10 then 10 else nat sz);
          h = (case in_h of None \<Rightarrow> replicate sz [] | Some h \<Rightarrow> h) in
      vely_rewind_hash
        \<lparr>num_buckets = sz, table = h, tot = 0, hits = 0, reads = 0, process = pr,
         dnext = 0, dcurr = None, fresh = supply\<rparr>)"

text \<open>\<^term>\<open>None\<close> is a table that is gone: it was \<^verbatim>\<open>NULL\<close> or is deleted for good.\<close>

definition vely_delete_hash :: "vely_hash option \<Rightarrow> int \<Rightarrow> vely_hash option" where
  "vely_delete_hash hp recreate =
     (case hp of
        None \<Rightarrow> None
      | Some h \<Rightarrow>
          (if recreate = 1
           then Some ((vely_create_hash (fresh h) (int (num_buckets h)) None (process h))
                        \<lparr>hits := hits h, reads := reads h\<rparr>)
           else None))"

section \<open>Finding and deleting\<close>

definition vely_del_hash_entry :: "vely_hash \<Rightarrow> hnode \<Rightarrow> nat option \<Rightarrow> int \<Rightarrow> vely_hash" where
  "vely_del_hash_entry h todel prev hashind =
     (let nxt = tl (node_tail (nid todel) (table h));
          h1 = (case prev of
                  None \<Rightarrow>
                    (let k = (if hashind = -1
                              then vely_compute_hash (snd (key todel)) None (num_buckets h)
                              else nat hashind)
                     in h\<lparr>table := (table h)[k := nxt]\<rparr>)
                | Some p \<Rightarrow> h\<lparr>table := map (set_next p nxt) (table h)\<rparr>);
          h2 = (if dcurr h1 = Some (nid todel) then h1\<lparr>dcurr := head_id nxt\<rparr> else h1)
      in h2\<lparr>tot := tot h2 - 1\<rparr>)"

text \<open>All pieces of the list, one after the other, at the start of the key.\<close>

fun pieces_match :: "string \<Rightarrow> nat \<Rightarrow> string list \<Rightarrow> bool" where
  "pieces_match k tot_len [] = True"
| "pieces_match k tot_len (el # els) =
     (if take (length el) (drop tot_len k) \<noteq> el then False
      else pieces_match k (tot_len + length el) els)"

definition is_match :: "string \<Rightarrow> string list option \<Rightarrow> hnode \<Rightarrow> bool" where
  "is_match k keylist cur =
     (case keylist of
        None \<Rightarrow> k = snd (key cur)
      | Some els \<Rightarrow> (if els \<noteq> [] then pieces_match (snd (key cur)) 0 els else False))"

text \<open>The loop of \<open>vely_find_hash\<close>: the element found with the one before it, and the number
  of elements read.\<close>

fun find_loop :: "(hnode \<Rightarrow> bool) \<Rightarrow> nat option \<Rightarrow> hnode list \<Rightarrow> (nat option \<times> hnode) option \<times> int" where
  "find_loop mt prev [] = (None, 0)"
| "find_loop mt prev (c # cs) =
     (if mt c then (Some (prev, c), 1)
      else (case find_loop mt (Some (nid c)) cs of (r, n) \<Rightarrow> (r, n + 1)))"

text \<open>The data (\<open>0\<close> for \<^verbatim>\<open>NULL\<close>), \<open>*found\<close> and \<open>*oldkey\<close>.\<close>

definition vely_find_hash ::
  "vely_hash \<Rightarrow> string \<Rightarrow> string list option \<Rightarrow> bool \<Rightarrow> (nat \<times> int \<times> ckey option) \<times> vely_hash" where
  "vely_find_hash h k keylist del =
     (let h1 = h\<lparr>hits := hits h + 1\<rparr>;
          hashind = vely_compute_hash k keylist (num_buckets h1);
          (r, n) = find_loop (is_match k keylist) None (table h1 ! hashind);
          h2 = h1\<lparr>reads := reads h1 + n\<rparr> in
      case r of
        None \<Rightarrow> ((0, VV_ERR_EXIST, None), h2)
      | Some (prev, hresult) \<Rightarrow>
          ((data hresult, VV_OKAY, Some (key hresult)),
           if del then vely_del_hash_entry h2 hresult prev (int hashind) else h2))"

section \<open>Adding\<close>

definition vely_new_hash_item :: "vely_hash \<Rightarrow> ckey \<Rightarrow> nat \<Rightarrow> hnode \<times> vely_hash" where
  "vely_new_hash_item h k d = (\<lparr>nid = fresh h, key = k, data = d\<rparr>, h\<lparr>fresh := fresh h + 1\<rparr>)"

text \<open>The key found in a list gets the new key and data; the old ones are the result.\<close>

fun replace_in :: "ckey \<Rightarrow> nat \<Rightarrow> hnode list \<Rightarrow> ((ckey \<times> nat) \<times> hnode list) option" where
  "replace_in k d [] = None"
| "replace_in k d (b # bs) =
     (if snd k = snd (key b) then Some ((key b, data b), b\<lparr>data := d, key := k\<rparr> # bs)
      else map_option (\<lambda>(old, bs'). (old, b # bs')) (replace_in k d bs))"

text \<open>The part of \<open>vely_add_hash\<close> after the scope of key and data is set.  The result is the
  old data, the status and the old key.\<close>

definition add_item ::
  "vely_hash \<Rightarrow> nat \<Rightarrow> ckey \<Rightarrow> nat \<Rightarrow> (nat \<times> int \<times> ckey option) \<times> vely_hash" where
  "add_item h hashind k d =
     (if table h ! hashind = [] then
        (case vely_new_hash_item h k d of
           (n, h1) \<Rightarrow>
             ((0, VV_OKAY, None), h1\<lparr>table := (table h1)[hashind := [n]], tot := tot h1 + 1\<rparr>))
      else
        (case replace_in k d (table h ! hashind) of
           Some ((okey, old), b) \<Rightarrow>
             ((old, VV_ERR_EXIST, Some okey), h\<lparr>table := (table h)[hashind := b]\<rparr>)
         | None \<Rightarrow>
             (case vely_new_hash_item h k d of
                (n, h1) \<Rightarrow>
                  ((0, VV_OKAY, None),
                   h1\<lparr>table := (table h1)[hashind := n # (table h1 ! hashind)], tot := tot h1 + 1\<rparr>))))"

text \<open>\<open>pkey\<close> and \<open>pdata\<close> are the flags \<open>vely_mem_process_key\<close> and \<open>vely_mem_process_data\<close>.\<close>

definition vely_add_hash ::
  "bool \<Rightarrow> bool \<Rightarrow> vely_hash \<Rightarrow> ckey \<Rightarrow> string list option \<Rightarrow> nat \<Rightarrow> mem
     \<Rightarrow> ((nat \<times> int \<times> ckey option) \<times> vely_hash \<times> mem) res" where
  "vely_add_hash pkey pdata h k keylist d m =
     res_bind (if process h \<and> \<not> pkey then vely_mem_set_process (fst k) m else Inr m) (\<lambda>m1.
     res_bind (if process h \<and> \<not> pdata then vely_mem_set_process d m1 else Inr m1) (\<lambda>m2.
       case add_item h (vely_compute_hash (snd k) keylist (num_buckets h)) k d of
         (r, h1) \<Rightarrow> Inr (r, h1, m2)))"

section \<open>Visiting all elements\<close>

function next_bucket :: "vely_hash \<Rightarrow> vely_hash \<times> bool" where
  "next_bucket h =
     (if dcurr h = None then
        (let h1 = h\<lparr>dnext := dnext h + 1\<rparr> in
         if dnext h1 = num_buckets h1 then (h1, False)
         else if dnext h1 > num_buckets h1 then (h1, False)
         else next_bucket (h1\<lparr>dcurr := head_id (table h1 ! dnext h1)\<rparr>))
      else (h, True))"
  by pat_completeness auto
termination
  by (relation "measure (\<lambda>h. num_buckets h - dnext h)") auto

declare next_bucket.simps [simp del]

text \<open>The key and data of the next element; \<^term>\<open>None\<close> is the \<^verbatim>\<open>NULL\<close> of the end.  A cursor
  to an element that is no longer there would be a fault.\<close>

definition vely_next_hash :: "vely_hash \<Rightarrow> ((ckey \<times> nat) option \<times> vely_hash) res" where
  "vely_next_hash h =
     (if dnext h = num_buckets h then Inr (None, h)
      else
        (case next_bucket h of
           (h1, False) \<Rightarrow> Inr (None, h1)
         | (h1, True) \<Rightarrow>
             (case node_tail (the (dcurr h1)) (table h1) of
                [] \<Rightarrow> Inl Out_of_bounds
              | n # ns \<Rightarrow> Inr (Some (key n, data n), h1\<lparr>dcurr := head_id ns\<rparr>))))"

section \<open>Resizing\<close>

text \<open>The loop that copies every element; it ends after at most the given number of turns,
  which is enough when it exceeds the number of elements (\<open>copy_loop_enough\<close>).\<close>

fun copy_loop :: "nat \<Rightarrow> bool \<Rightarrow> bool \<Rightarrow> vely_hash \<Rightarrow> vely_hash \<Rightarrow> mem
    \<Rightarrow> (vely_hash \<times> vely_hash \<times> mem) res option" where
  "copy_loop 0 pkey pdata h nh m = None"
| "copy_loop (Suc n) pkey pdata h nh m =
     (case vely_next_hash h of
        Inl e \<Rightarrow> Some (Inl e)
      | Inr (None, h1) \<Rightarrow> Some (Inr (h1, nh, m))
      | Inr (Some (k, d), h1) \<Rightarrow>
          (case vely_add_hash pkey pdata nh k None d m of
             Inl e \<Rightarrow> Some (Inl e)
           | Inr (r, nh1, m1) \<Rightarrow> copy_loop n pkey pdata h1 nh1 m1))"

definition vely_resize_hash :: "bool \<Rightarrow> bool \<Rightarrow> vely_hash \<Rightarrow> int \<Rightarrow> mem \<Rightarrow> (vely_hash \<times> mem) res option" where
  "vely_resize_hash pkey pdata h newsize m =
     (case copy_loop (length (concat (table h)) + 1) pkey pdata (vely_rewind_hash h)
             (vely_create_hash (fresh h) newsize None (process h)) m of
        None \<Rightarrow> None
      | Some (Inl e) \<Rightarrow> Some (Inl e)
      | Some (Inr (h1, nh, m1)) \<Rightarrow>
          (case vely_delete_hash (Some h1) 1 of
             None \<Rightarrow> Some (Inl Out_of_bounds)
           | Some h2 \<Rightarrow>
               Some (Inr (h2\<lparr>table := table nh, tot := tot nh, hits := hits nh, reads := reads nh,
                             num_buckets := num_buckets nh, process := process nh, fresh := fresh nh\<rparr>,
                          m1))))"

section \<open>Statistics\<close>

text \<open>The average number of elements read in a search, as a fraction.\<close>

definition vely_hash_reads :: "vely_hash \<Rightarrow> int \<times> int" where
  "vely_hash_reads h = (if hits h = 0 then (0, 1) else (reads h, hits h))"

definition vely_hash_size :: "vely_hash \<Rightarrow> nat" where
  "vely_hash_size h = num_buckets h"

definition vely_total_hash :: "vely_hash \<Rightarrow> int" where
  "vely_total_hash h = tot h"

section \<open>The invariant\<close>

definition hash_of :: "vely_hash \<Rightarrow> string \<Rightarrow> nat" where
  "hash_of h s = vely_compute_hash s None (num_buckets h)"

definition bucket_ok :: "vely_hash \<Rightarrow> nat \<Rightarrow> hnode list \<Rightarrow> bool" where
  "bucket_ok h i b \<longleftrightarrow> (\<forall>n\<in>set b. hash_of h (snd (key n)) = i) \<and> distinct (map (\<lambda>n. snd (key n)) b)"

definition ids_ok :: "nat \<Rightarrow> hnode list \<Rightarrow> bool" where
  "ids_ok bound ns \<longleftrightarrow> distinct (map nid ns) \<and> (\<forall>n\<in>set ns. nid n < bound)"

definition cursor_ok :: "vely_hash \<Rightarrow> bool" where
  "cursor_ok h \<longleftrightarrow> dnext h \<le> num_buckets h
     \<and> (case dcurr h of None \<Rightarrow> True
        | Some i \<Rightarrow> dnext h < num_buckets h \<and> i \<in> nid ` set (table h ! dnext h))"

definition hash_ok :: "vely_hash \<Rightarrow> bool" where
  "hash_ok h \<longleftrightarrow> length (table h) = num_buckets h \<and> 0 < num_buckets h
     \<and> (\<forall>i<num_buckets h. bucket_ok h i (table h ! i)) \<and> ids_ok (fresh h) (concat (table h))
     \<and> tot h = int (length (concat (table h))) \<and> cursor_ok h"

text \<open>What the table says of a key: the address of the key it keeps, and the data.\<close>

fun look :: "hnode list \<Rightarrow> string \<Rightarrow> (nat \<times> nat) option" where
  "look [] s = None"
| "look (n # ns) s = (if s = snd (key n) then Some (fst (key n), data n) else look ns s)"

definition entry :: "vely_hash \<Rightarrow> string \<Rightarrow> (nat \<times> nat) option" where
  "entry h s = look (table h ! hash_of h s) s"

lemma hash_of_less: "0 < num_buckets h \<Longrightarrow> hash_of h s < num_buckets h"
  by (simp add: hash_of_def vely_compute_hash_def)

lemma bucket_split:
  assumes "k < length t"
  obtains A C where "concat t = A @ t ! k @ C" "\<And>b. concat (t[k := b]) = A @ b @ C"
proof
  show "concat t = concat (take k t) @ t ! k @ concat (drop (Suc k) t)"
    by (metis assms concat.simps(2) concat_append id_take_nth_drop)
  show "concat (t[k := b]) = concat (take k t) @ b @ concat (drop (Suc k) t)" for b
    using assms by (simp add: upd_conv_take_nth_drop)
qed

text \<open>Changing one bucket.\<close>

lemma bucket_change:
  assumes "hash_ok h" "k < num_buckets h" "bucket_ok h k b" "ids_ok f b" "fresh h \<le> f"
    and "set (map nid b) \<inter> {..<fresh h} \<subseteq> set (map nid (table h ! k))"
    and "num_buckets h' = num_buckets h" "table h' = (table h)[k := b]" "fresh h' = f"
    and "tot h' = tot h + int (length b) - int (length (table h ! k))" "cursor_ok h'"
  shows "hash_ok h'"
proof -
  have len: "length (table h) = num_buckets h" using assms(1) by (simp add: hash_ok_def)
  have ho: "hash_of h' = hash_of h" "bucket_ok h' = bucket_ok h"
    using assms(7) by (simp_all add: hash_of_def bucket_ok_def fun_eq_iff)
  obtain A C where s: "concat (table h) = A @ table h ! k @ C" "\<And>b. concat ((table h)[k := b]) = A @ b @ C"
    using bucket_split [of k "table h"] assms(2) len by metis
  have ids: "ids_ok (fresh h) (A @ table h ! k @ C)" using assms(1) s by (simp add: hash_ok_def)
  then have "nid ` set A \<subseteq> {..<fresh h}" "nid ` set C \<subseteq> {..<fresh h}"
      "nid ` set (table h ! k) \<inter> nid ` set A = {}" "nid ` set (table h ! k) \<inter> nid ` set C = {}"
    by (auto simp: ids_ok_def)
  moreover have "B \<inter> F \<subseteq> K \<Longrightarrow> A' \<subseteq> F \<Longrightarrow> K \<inter> A' = {} \<Longrightarrow> B \<inter> A' = {}" for B F K A' :: "nat set"
    by blast
  ultimately have "nid ` set b \<inter> nid ` set A = {}" "nid ` set b \<inter> nid ` set C = {}"
    using assms(6) unfolding set_map by presburger+
  moreover have "nid ` set A \<inter> nid ` set C = {}" using ids by (auto simp: ids_ok_def)
  ultimately have "distinct (map nid (A @ b @ C))"
    using ids assms(4) unfolding ids_ok_def by auto
  moreover have "\<forall>n\<in>set A. nid n < fresh h" "\<forall>n\<in>set C. nid n < fresh h" "\<forall>n\<in>set b. nid n < f"
    using ids assms(4) unfolding ids_ok_def by auto
  then have "\<forall>n\<in>set (A @ b @ C). nid n < f" using assms(5) by fastforce
  ultimately have "ids_ok (fresh h') (concat (table h'))"
    unfolding assms(8,9) s(2) ids_ok_def by simp
  moreover have "bucket_ok h i (table h' ! i)" if "i < num_buckets h'" for i
    using that assms(1,2,3,7,8) len by (cases "i = k") (simp_all add: hash_ok_def)
  moreover have "tot h' = int (length (concat (table h')))"
    using assms(1,10) s unfolding assms(8) hash_ok_def by simp
  ultimately show ?thesis
    using assms(1,7,8,11) len unfolding hash_ok_def ho by simp
qed

lemma entry_change:
  assumes "hash_ok h" "k < num_buckets h" "num_buckets h' = num_buckets h" "table h' = (table h)[k := b]"
  shows "entry h' s = (if hash_of h s = k then look b s else entry h s)"
proof -
  have "hash_of h' s = hash_of h s" using assms(3) by (simp add: hash_of_def)
  moreover have "hash_of h s < length (table h)"
    using assms(1) hash_of_less by (simp add: hash_ok_def)
  ultimately show ?thesis using assms(2,4) by (auto simp: entry_def nth_list_update)
qed

section \<open>Elements by their address\<close>

lemma tail_at_hit: "c \<notin> nid ` set xs \<Longrightarrow> tail_at c (xs @ n # ys) = (if nid n = c then n # ys else tail_at c ys)"
  by (induction xs) (auto simp: tail_at_def)

lemma tail_at_miss: "c \<notin> nid ` set xs \<Longrightarrow> tail_at c xs = []"
  by (induction xs) (auto simp: tail_at_def)

lemma node_tail_hit:
  assumes "k < length t" "t ! k = xs @ n # ys" "distinct (map nid (concat t))"
  shows "node_tail (nid n) t = n # ys"
  using assms
proof (induction t arbitrary: k)
  case (Cons b t)
  show ?case
  proof (cases k)
    case 0
    then have "nid n \<notin> nid ` set xs" using Cons.prems by auto
    then show ?thesis using 0 Cons.prems by (simp add: tail_at_hit)
  next
    case (Suc j)
    then have "n \<in> set (concat t)"
      using Cons.prems nth_mem [of j t] by (auto intro!: bexI [of _ "xs @ n # ys"])
    then have "nid n \<notin> nid ` set b" using Cons.prems(3) by auto
    then have "node_tail (nid n) (b # t) = node_tail (nid n) t" by (simp add: tail_at_miss)
    also have "\<dots> = n # ys" using Cons.IH [of j] Cons.prems Suc by auto
    finally show ?thesis .
  qed
qed simp

lemma set_next_hit:
  "distinct (map nid (xs @ p # rest)) \<Longrightarrow> set_next (nid p) nxt (xs @ p # rest) = xs @ p # nxt"
proof -
  assume d: "distinct (map nid (xs @ p # rest))"
  then have x: "nid p \<notin> nid ` set xs" by auto
  then have "takeWhile (\<lambda>n. nid n \<noteq> nid p) (xs @ p # rest) = xs"
    by (induction xs) auto
  then show ?thesis using x by (simp add: set_next_def tail_at_hit)
qed

lemma set_next_miss: "p \<notin> nid ` set b \<Longrightarrow> set_next p nxt b = b"
  by (simp add: set_next_def tail_at_miss)

lemma set_next_table:
  assumes "k < length t" "t ! k = xs @ p # rest" "distinct (map nid (concat t))"
  shows "map (set_next (nid p) nxt) t = t[k := xs @ p # nxt]"
proof (rule nth_equalityI)
  fix i
  assume i: "i < length (map (set_next (nid p) nxt) t)"
  obtain A C where s: "concat t = A @ t ! k @ C" "\<And>b. concat (t[k := b]) = A @ b @ C"
    using bucket_split [OF assms(1)] by metis
  show "map (set_next (nid p) nxt) t ! i = t[k := xs @ p # nxt] ! i"
  proof (cases "i = k")
    case True
    have "distinct (map nid (t ! k))" using assms(3) s(1) by simp
    then show ?thesis using True i assms(2) by (simp add: set_next_hit)
  next
    case False
    have "set (t ! i) \<subseteq> set (concat (t[k := []]))"
      using False i nth_mem [of i "t[k := []]"] by auto
    then have "nid p \<notin> nid ` set (t ! i)" using s assms(2,3) by auto
    then show ?thesis using False i by (simp add: set_next_miss)
  qed
qed simp

section \<open>Finding\<close>

lemma find_loop_None: "fst (find_loop mt prev b) = None \<longleftrightarrow> (\<forall>n\<in>set b. \<not> mt n)"
  by (induction b arbitrary: prev) (simp_all add: split_beta)

lemma look_None: "look b s = None \<longleftrightarrow> s \<notin> (\<lambda>n. snd (key n)) ` set b"
  by (induction b) auto

lemma look_miss: "\<forall>n\<in>set b. s \<noteq> snd (key n) \<Longrightarrow> look b s = None"
  by (induction b) auto

lemma look_cut:
  "snd (key c) \<notin> (\<lambda>n. snd (key n)) ` set (xs @ ys) \<Longrightarrow>
     look (xs @ ys) s = ((look (xs @ c # ys))(snd (key c) := None)) s"
proof (induction xs)
  case Nil
  then show ?case by (auto simp: look_None)
qed auto

lemma look_append: "look (xs @ ys) s = (case look xs s of None \<Rightarrow> look ys s | Some y \<Rightarrow> Some y)"
  by (induction xs) auto

lemma find_loop_Some:
  "fst (find_loop mt prev b) = Some (q, c) \<Longrightarrow>
     \<exists>xs ys. b = xs @ c # ys \<and> mt c \<and> (\<forall>x\<in>set xs. \<not> mt x)
       \<and> q = (if xs = [] then prev else Some (nid (last xs)))"
proof (induction b arbitrary: prev)
  case (Cons a b)
  show ?case
  proof (cases "mt a")
    case True
    then show ?thesis using Cons.prems by (intro exI [of _ "[]"] exI [of _ b]) auto
  next
    case False
    then have "fst (find_loop mt (Some (nid a)) b) = Some (q, c)"
      using Cons.prems by (simp split: prod.splits)
    then obtain xs ys where "b = xs @ c # ys" "mt c" "\<forall>x\<in>set xs. \<not> mt x"
        "q = (if xs = [] then Some (nid a) else Some (nid (last xs)))"
      using Cons.IH by blast
    then show ?thesis using False by (intro exI [of _ "a # xs"] exI [of _ ys]) auto
  qed
qed simp

section \<open>Deleting an element\<close>

text \<open>In a consistent table the two ways of unlinking an element both cut it out of its list.\<close>

lemma unlink:
  assumes h: "hash_ok h" and k: "k < num_buckets h" "table h ! k = xs @ c # ys"
    and q: "q = (if xs = [] then None else Some (nid (last xs)))"
    and i: "hashind = int k"
  shows "\<exists>h'. vely_del_hash_entry h c q hashind = h' \<and> num_buckets h' = num_buckets h
    \<and> table h' = (table h)[k := xs @ ys] \<and> tot h' = tot h - 1 \<and> fresh h' = fresh h
    \<and> dnext h' = dnext h \<and> dcurr h' = (if dcurr h = Some (nid c) then head_id ys else dcurr h)
    \<and> hits h' = hits h \<and> reads h' = reads h \<and> process h' = process h"
proof -
  have len: "k < length (table h)" and d: "distinct (map nid (concat (table h)))"
    using h k by (auto simp: hash_ok_def ids_ok_def)
  have n: "node_tail (nid c) (table h) = c # ys" by (rule node_tail_hit [OF len k(2) d])
  show ?thesis
  proof (cases xs rule: rev_cases)
    case Nil
    then show ?thesis using q i n by (simp add: vely_del_hash_entry_def Let_def)
  next
    case (snoc ps p)
    have "map (set_next (nid p) ys) (table h) = (table h)[k := ps @ p # ys]"
      using k(2) snoc by (intro set_next_table [OF len _ d, where rest = "c # ys"]) simp
    then show ?thesis using q n snoc by (simp add: vely_del_hash_entry_def Let_def)
  qed
qed

lemma cursor_bucket:
  assumes "hash_ok h" "dcurr h = Some (nid c)" "k < num_buckets h" "c \<in> set (table h ! k)"
  shows "dnext h = k"
proof (rule ccontr)
  assume ne: "dnext h \<noteq> k"
  have len: "length (table h) = num_buckets h" and d: "distinct (map nid (concat (table h)))"
    using assms(1) by (auto simp: hash_ok_def ids_ok_def)
  have cur: "dnext h < num_buckets h" "nid c \<in> nid ` set (table h ! dnext h)"
    using assms(1,2) by (auto simp: hash_ok_def cursor_ok_def)
  obtain A C where s: "concat (table h) = A @ table h ! k @ C" "\<And>b. concat ((table h)[k := b]) = A @ b @ C"
    using bucket_split [of k "table h"] assms(3) len by metis
  have "table h ! dnext h \<in> set ((table h)[k := []])"
    using nth_mem [of "dnext h" "(table h)[k := []]"] ne cur(1) len by simp
  then have "set (table h ! dnext h) \<subseteq> set A \<union> set C" using s(2) [of "[]"] by (metis Union_upper
      append_Nil image_eqI set_append set_concat)
  then have "nid c \<in> nid ` set A \<union> nid ` set C" using cur(2) by auto
  moreover have "nid c \<in> nid ` set (table h ! k)" using assms(4) by simp
  moreover have "nid ` set A \<inter> nid ` set (table h ! k) = {}" "nid ` set C \<inter> nid ` set (table h ! k) = {}"
    using d unfolding s(1) by auto
  ultimately show False by blast
qed

lemma delete_ok:
  assumes h: "hash_ok h" and k: "k < num_buckets h" "table h ! k = xs @ c # ys"
    and q: "q = (if xs = [] then None else Some (nid (last xs)))"
  shows "hash_ok (vely_del_hash_entry h c q (int k))
    \<and> entry (vely_del_hash_entry h c q (int k)) = (entry h)(snd (key c) := None)"
proof -
  obtain h' where u: "vely_del_hash_entry h c q (int k) = h'" "num_buckets h' = num_buckets h"
      "table h' = (table h)[k := xs @ ys]" "tot h' = tot h - 1" "fresh h' = fresh h" "dnext h' = dnext h"
      "dcurr h' = (if dcurr h = Some (nid c) then head_id ys else dcurr h)"
    using unlink [OF h k q refl] by blast
  have len: "length (table h) = num_buckets h" using h by (simp add: hash_ok_def)
  have b: "bucket_ok h k (xs @ c # ys)" using h k by (auto simp: hash_ok_def)
  obtain A C where "concat (table h) = A @ table h ! k @ C"
    using bucket_split [of k "table h"] k len by metis
  then have ids: "ids_ok (fresh h) (xs @ c # ys)" using h k by (auto simp: hash_ok_def ids_ok_def)
  have "cursor_ok h'"
  proof (cases "dcurr h = Some (nid c)")
    case True
    then have "dnext h = k" using cursor_bucket [OF h True k(1)] k(2) by simp
    then show ?thesis using True u k(1) len h
      by (cases ys) (auto simp: cursor_ok_def head_id_def)
  next
    case False
    then show ?thesis
      using u h k len by (auto simp: hash_ok_def cursor_ok_def nth_list_update split: option.splits)
  qed
  then have "hash_ok h'"
    using b ids u k by (intro bucket_change [OF h k(1), of "xs @ ys" "fresh h"])
      (auto simp: bucket_ok_def ids_ok_def)
  moreover have "entry h' s = ((entry h)(snd (key c) := None)) s" for s
  proof -
    have "hash_of h (snd (key c)) = k" "snd (key c) \<notin> (\<lambda>n. snd (key n)) ` set (xs @ ys)"
      using b by (auto simp: bucket_ok_def)
    moreover from this have "look (xs @ ys) s = ((look (xs @ c # ys))(snd (key c) := None)) s"
      by (intro look_cut)
    ultimately show ?thesis
      using entry_change [OF h k(1) u(2,3), of s] k(2) by (auto simp: entry_def)
  qed
  ultimately show ?thesis using u(1) by auto
qed

section \<open>Operations on a consistent table\<close>

lemma find_hash_ok:
  assumes h: "hash_ok h" and f: "vely_find_hash h s None del = ((d, fnd, okey), h')"
  shows "hash_ok h' \<and> entry h' = (if del then (entry h)(s := None) else entry h)
    \<and> (case entry h s of None \<Rightarrow> d = 0 \<and> fnd = VV_ERR_EXIST \<and> okey = None
       | Some (p, v) \<Rightarrow> d = v \<and> fnd = VV_OKAY \<and> okey = Some (p, s))
    \<and> hits h' = hits h + 1"
proof -
  let ?k = "hash_of h s" and ?mt = "\<lambda>n. s = snd (key n)"
  have k: "?k < num_buckets h" using h hash_of_less by (simp add: hash_ok_def)
  obtain r n where fl: "find_loop ?mt None (table h ! ?k) = (r, n)" by fastforce
  let ?h2 = "h\<lparr>hits := hits h + 1, reads := reads h + n\<rparr>"
  have same: "hash_ok ?h2 = hash_ok h" "entry ?h2 = entry h"
    by (simp_all add: hash_ok_def bucket_ok_def cursor_ok_def hash_of_def entry_def fun_eq_iff
        split: option.split)
  have m: "is_match s None = ?mt" by (simp add: is_match_def fun_eq_iff)
  show ?thesis
  proof (cases r)
    case None
    then have "\<forall>n\<in>set (table h ! ?k). \<not> ?mt n" using find_loop_None [of ?mt None] fl by (metis fst_conv)
    then have e: "entry h s = None" by (auto simp: entry_def look_None)
    have "vely_find_hash h s None del = ((0, VV_ERR_EXIST, None), ?h2)"
      using fl None by (simp add: vely_find_hash_def Let_def m hash_of_def)
    then show ?thesis using f h e same by auto
  next
    case (Some qc)
    obtain q c where qc: "qc = (q, c)" by (cases qc)
    obtain xs ys where x: "table h ! ?k = xs @ c # ys" "?mt c" "\<forall>x\<in>set xs. \<not> ?mt x"
        "q = (if xs = [] then None else Some (nid (last xs)))"
      using find_loop_Some [of ?mt None] fl Some qc by (metis fst_conv)
    have e: "entry h s = Some (fst (key c), data c)"
      using x look_miss [of xs s] by (simp add: entry_def look_append)
    have d: "vely_find_hash h s None del = ((data c, VV_OKAY, Some (key c)),
        if del then vely_del_hash_entry ?h2 c q (int ?k) else ?h2)"
      using fl Some qc by (simp add: vely_find_hash_def Let_def m hash_of_def)
    show ?thesis
    proof (cases del)
      case False
      then show ?thesis using f d e h same x(2) by (auto simp: prod_eq_iff)
    next
      case True
      have "hits (vely_del_hash_entry ?h2 c q (int ?k)) = hits h + 1"
        by (simp add: vely_del_hash_entry_def Let_def split: option.split)
      then show ?thesis
        using f d e h same x True delete_ok [of ?h2 ?k xs c ys q] k by (auto simp: prod_eq_iff)
    qed
  qed
qed

lemma replace_in_None: "replace_in k d b = None \<longleftrightarrow> look b (snd k) = None"
  by (induction b) auto

lemma replace_in_Some:
  "replace_in k d b = Some ((okey, old), b') \<Longrightarrow>
     look b (snd k) = Some (fst okey, old) \<and> snd okey = snd k
     \<and> map nid b' = map nid b \<and> map (\<lambda>n. snd (key n)) b' = map (\<lambda>n. snd (key n)) b
     \<and> look b' = (look b)(snd k \<mapsto> (fst k, d))"
  by (induction b arbitrary: b') (auto split: if_splits simp: fun_eq_iff)

lemma add_item_ok:
  assumes h: "hash_ok h" and a: "add_item h (hash_of h (snd k)) k d = ((old, st, okey), h')"
  shows "hash_ok h' \<and> entry h' = (entry h)(snd k \<mapsto> (fst k, d)) \<and> num_buckets h' = num_buckets h
    \<and> process h' = process h
    \<and> (case entry h (snd k) of None \<Rightarrow> old = 0 \<and> st = VV_OKAY \<and> okey = None
       | Some (p, v) \<Rightarrow> old = v \<and> st = VV_ERR_EXIST \<and> okey = Some (p, snd k))"
proof -
  let ?k = "hash_of h (snd k)"
  have k: "?k < num_buckets h" and len: "length (table h) = num_buckets h"
    using h hash_of_less by (simp_all add: hash_ok_def)
  have b: "bucket_ok h ?k (table h ! ?k)" using h k by (simp add: hash_ok_def)
  obtain A C where "concat (table h) = A @ table h ! ?k @ C"
    using bucket_split [of ?k "table h"] k len by metis
  then have ids: "ids_ok (fresh h) (table h ! ?k)" using h by (auto simp: hash_ok_def ids_ok_def)
  show ?thesis
  proof (cases "look (table h ! ?k) (snd k)")
    case None
    let ?n = "\<lparr>nid = fresh h, key = k, data = d\<rparr>"
    let ?h = "h\<lparr>fresh := fresh h + 1, table := (table h)[?k := ?n # (table h ! ?k)], tot := tot h + 1\<rparr>"
    have r: "old = 0" "st = VV_OKAY" "okey = None" "h' = ?h"
      using a None by (cases "table h ! ?k = []";
          simp add: add_item_def vely_new_hash_item_def replace_in_None [THEN iffD2])+
    have new: "snd k \<notin> (\<lambda>n. snd (key n)) ` set (table h ! ?k)"
      using None by (simp add: look_None)
    have "cursor_ok ?h"
      using h k len by (auto simp: hash_ok_def cursor_ok_def nth_list_update split: option.splits)
    then have "hash_ok ?h"
      using b ids new by (intro bucket_change [OF h k, of "?n # (table h ! ?k)" "fresh h + 1"])
        (auto simp: bucket_ok_def ids_ok_def)
    moreover have "entry ?h s = ((entry h)(snd k \<mapsto> (fst k, d))) s" for s
      using entry_change [OF h k, of ?h "?n # (table h ! ?k)" s] by (auto simp: entry_def)
    moreover have "entry h (snd k) = None" using None by (simp add: entry_def)
    ultimately show ?thesis using r by auto
  next
    case (Some c)
    obtain ok1 o1 b' where rp: "replace_in k d (table h ! ?k) = Some ((ok1, o1), b')"
      using Some replace_in_None [of k d "table h ! ?k"] by (cases "replace_in k d (table h ! ?k)") auto
    note rs = replace_in_Some [OF rp]
    let ?h = "h\<lparr>table := (table h)[?k := b']\<rparr>"
    have ne: "table h ! ?k \<noteq> []" using Some by auto
    have r: "old = o1" "st = VV_ERR_EXIST" "okey = Some ok1" "h' = ?h"
      using a rp ne by (auto simp: add_item_def)
    have st: "nid ` set b' = nid ` set (table h ! ?k)" using rs by (metis set_map)
    have kst: "(\<lambda>n. snd (key n)) ` set b' = (\<lambda>n. snd (key n)) ` set (table h ! ?k)"
      using rs by (metis set_map)
    have "\<forall>n\<in>set b'. hash_of h (snd (key n)) = ?k"
    proof
      fix n assume "n \<in> set b'"
      then have "snd (key n) \<in> (\<lambda>n. snd (key n)) ` set (table h ! ?k)" using kst by blast
      then show "hash_of h (snd (key n)) = ?k" using b by (auto simp: bucket_ok_def)
    qed
    then have "bucket_ok h ?k b'" using b rs by (simp add: bucket_ok_def)
    moreover have "\<forall>n\<in>set b'. nid n < fresh h"
    proof
      fix n assume "n \<in> set b'"
      then have "nid n \<in> nid ` set (table h ! ?k)" using st by blast
      then show "nid n < fresh h" using ids by (auto simp: ids_ok_def)
    qed
    then have "ids_ok (fresh h) b'" using ids rs by (simp add: ids_ok_def)
    moreover have "length b' = length (table h ! ?k)" using rs by (metis length_map)
    moreover have "cursor_ok ?h"
      using h k len st by (auto simp: hash_ok_def cursor_ok_def nth_list_update split: option.splits)
    ultimately have "hash_ok ?h"
      using st by (intro bucket_change [OF h k, of b' "fresh h"]) auto
    moreover have "entry ?h s = ((entry h)(snd k \<mapsto> (fst k, d))) s" for s
      using entry_change [OF h k, of ?h b' s] rs by (auto simp: entry_def)
    moreover have "entry h (snd k) = Some (fst ok1, o1)" "snd ok1 = snd k"
      using rs by (simp_all add: entry_def)
    ultimately show ?thesis using r by (auto simp: prod_eq_iff)
  qed
qed

lemma create_ok:
  "hash_ok (vely_create_hash f sz None pr) \<and> entry (vely_create_hash f sz None pr) = Map.empty
    \<and> process (vely_create_hash f sz None pr) = pr"
proof -
  have "vely_compute_hash s None n < n" if "0 < n" for s n
    using that by (simp add: vely_compute_hash_def)
  then show ?thesis
    by (auto simp: vely_create_hash_def vely_rewind_hash_def hash_ok_def bucket_ok_def ids_ok_def
        cursor_ok_def head_id_def entry_def hash_of_def fun_eq_iff Let_def)
qed

section \<open>Visiting\<close>

text \<open>The elements the cursor has not passed.\<close>

definition from_cursor :: "nat option \<Rightarrow> hnode list \<Rightarrow> hnode list" where
  "from_cursor c b = (case c of None \<Rightarrow> [] | Some i \<Rightarrow> tail_at i b)"

definition remaining :: "vely_hash \<Rightarrow> hnode list" where
  "remaining h =
     (if dnext h \<ge> num_buckets h then []
      else from_cursor (dcurr h) (table h ! dnext h)
           @ concat (drop (dnext h + 1) (table h)))"

lemma hash_ok_cursor:
  "hash_ok h \<Longrightarrow> cursor_ok (h\<lparr>dnext := a, dcurr := b\<rparr>) \<Longrightarrow> hash_ok (h\<lparr>dnext := a, dcurr := b\<rparr>)"
  by (simp add: hash_ok_def bucket_ok_def hash_of_def)

lemma entry_cursor [simp]: "entry (h\<lparr>dnext := a, dcurr := b\<rparr>) = entry h"
  by (simp add: entry_def hash_of_def fun_eq_iff)

lemma tail_at_head: "distinct (map nid (n # ns)) \<Longrightarrow> tail_at (nid n) (n # ns) = n # ns"
  by (simp add: tail_at_def)

lemma bucket_ids: "hash_ok h \<Longrightarrow> i < num_buckets h \<Longrightarrow> distinct (map nid (table h ! i))"
proof -
  assume a: "hash_ok h" "i < num_buckets h"
  then obtain A C where "concat (table h) = A @ table h ! i @ C"
    using bucket_split [of i "table h"] by (metis hash_ok_def)
  then show ?thesis using a(1) by (simp add: hash_ok_def ids_ok_def)
qed

lemma tail_head_id: "distinct (map nid b) \<Longrightarrow>
    from_cursor (head_id b) b = b"
  by (cases b) (simp_all add: head_id_def tail_at_def from_cursor_def)

lemma next_bucket_ok:
  "hash_ok h \<Longrightarrow> dnext h < num_buckets h \<Longrightarrow> next_bucket h = (h1, f) \<Longrightarrow>
     (\<exists>a b. h1 = h\<lparr>dnext := a, dcurr := b\<rparr>) \<and> hash_ok h1 \<and> remaining h1 = remaining h
     \<and> (if f then dcurr h1 \<noteq> None else remaining h = [])"
proof (induction h rule: next_bucket.induct)
  case (1 h)
  have len: "length (table h) = num_buckets h" using "1.prems"(1) by (simp add: hash_ok_def)
  show ?case
  proof (cases "dcurr h")
    case (Some i)
    then have r: "h1 = h" f using "1.prems"(3) by (simp_all add: next_bucket.simps [of h])
    have "h = h\<lparr>dnext := dnext h, dcurr := dcurr h\<rparr>" by simp
    then show ?thesis using "1.prems"(1) Some unfolding r(1) using r(2) by fastforce
  next
    case None
    let ?h' = "h\<lparr>dnext := dnext h + 1\<rparr>"
    show ?thesis
    proof (cases "dnext h + 1 = num_buckets h")
      case True
      then have r: "h1 = ?h'" "\<not> f"
        using "1.prems"(3) None by (simp_all add: next_bucket.simps [of h] Let_def)
      have h1: "h1 = h\<lparr>dnext := dnext h + 1, dcurr := dcurr h\<rparr>" using r by simp
      have "cursor_ok (h\<lparr>dnext := dnext h + 1, dcurr := dcurr h\<rparr>)"
        using None True by (simp add: cursor_ok_def)
      then have "hash_ok h1" unfolding h1 by (rule hash_ok_cursor [OF "1.prems"(1)])
      moreover have "remaining h1 = []" "remaining h = []"
        using r None True len by (simp_all add: remaining_def from_cursor_def)
      moreover have "\<exists>a b. h1 = h\<lparr>dnext := a, dcurr := b\<rparr>" using h1 by blast
      ultimately show ?thesis using r(2) by simp
    next
      case False
      let ?b = "table h ! (dnext h + 1)"
      let ?h2 = "h\<lparr>dnext := dnext h + 1, dcurr := head_id ?b\<rparr>"
      have lt: "dnext h + 1 < num_buckets h" using False "1.prems"(2) by simp
      have e: "next_bucket h = next_bucket ?h2"
        using None lt by (simp add: next_bucket.simps [of h] Let_def)
      have "cursor_ok ?h2" using lt by (cases ?b) (auto simp: cursor_ok_def head_id_def)
      then have ok: "hash_ok ?h2" by (rule hash_ok_cursor [OF "1.prems"(1)])
      have "drop (dnext h + 1) (table h) = ?b # drop (dnext h + 2) (table h)"
        using lt len by (simp add: Cons_nth_drop_Suc)
      then have rem: "remaining ?h2 = remaining h"
        using None lt "1.prems"(2) tail_head_id [OF bucket_ids [OF "1.prems"(1) lt]]
        by (simp add: remaining_def from_cursor_def [of None])
      have "(\<exists>a b. h1 = ?h2\<lparr>dnext := a, dcurr := b\<rparr>) \<and> hash_ok h1 \<and> remaining h1 = remaining ?h2
          \<and> (if f then dcurr h1 \<noteq> None else remaining ?h2 = [])"
        using "1.IH" [OF None refl] ok None lt "1.prems"(3) e by (cases f) simp_all
      then show ?thesis unfolding rem by auto
    qed
  qed
qed

lemma next_hash_ok:
  assumes "hash_ok h"
  shows "remaining h = n # ns \<Longrightarrow> \<exists>a b. vely_next_hash h = Inr (Some (key n, data n), h\<lparr>dnext := a, dcurr := b\<rparr>)
      \<and> hash_ok (h\<lparr>dnext := a, dcurr := b\<rparr>) \<and> remaining (h\<lparr>dnext := a, dcurr := b\<rparr>) = ns"
    and "remaining h = [] \<Longrightarrow> \<exists>a b. vely_next_hash h = Inr (None, h\<lparr>dnext := a, dcurr := b\<rparr>)
      \<and> hash_ok (h\<lparr>dnext := a, dcurr := b\<rparr>) \<and> remaining (h\<lparr>dnext := a, dcurr := b\<rparr>) = []"
proof -
  have len: "length (table h) = num_buckets h" and le: "dnext h \<le> num_buckets h"
    using assms by (simp_all add: hash_ok_def cursor_ok_def)
  assume r: "remaining h = n # ns"
  then have lt: "dnext h < num_buckets h" by (simp add: remaining_def split: if_splits)
  obtain h1 f where nb: "next_bucket h = (h1, f)" by fastforce
  note o = next_bucket_ok [OF assms lt nb]
  then have f: "f" using r by (cases f) auto
  then obtain i a b where i: "f" "dcurr h1 = Some i" "h1 = h\<lparr>dnext := a, dcurr := b\<rparr>"
    using o by (metis not_None_eq)
  have ok: "hash_ok h1" "remaining h1 = n # ns" using o r by simp_all
  then have lt1: "dnext h1 < num_buckets h1" "i \<in> nid ` set (table h1 ! dnext h1)"
    using i(2) by (auto simp: hash_ok_def cursor_ok_def)
  then obtain xs c ys where x: "table h1 ! dnext h1 = xs @ c # ys" "nid c = i"
    by (metis imageE split_list)
  have len1: "length (table h1) = num_buckets h1" and d: "distinct (map nid (concat (table h1)))"
    using ok(1) by (auto simp: hash_ok_def ids_ok_def)
  have nt: "node_tail i (table h1) = c # ys"
    using node_tail_hit [OF _ x(1) d] lt1(1) len1 x(2) by simp
  have db: "distinct (map nid (xs @ c # ys))" using bucket_ids [OF ok(1) lt1(1)] x(1) by simp
  have "i \<notin> nid ` set xs" using db x(2) by auto
  then have ta: "tail_at i (table h1 ! dnext h1) = c # ys" using x by (simp add: tail_at_hit)
  then have c: "n = c" "ns = ys @ concat (drop (dnext h1 + 1) (table h1))"
    using ok(2) i(2) lt1(1) by (simp_all add: remaining_def from_cursor_def)
  let ?h2 = "h\<lparr>dnext := a, dcurr := head_id ys\<rparr>"
  have nx: "vely_next_hash h = Inr (Some (key n, data n), ?h2)"
    using lt nb i nt c(1) by (simp add: vely_next_hash_def)
  have "cursor_ok ?h2"
    using lt1(1) x i(3) by (cases ys) (auto simp: cursor_ok_def head_id_def)
  then have "hash_ok ?h2" by (rule hash_ok_cursor [OF assms])
  moreover have "remaining ?h2 = ns"
  proof -
    have "tail_at j (xs @ c # ys) = ys" if "head_id ys = Some j" for j
      using that db by (cases ys) (auto simp: head_id_def tail_at_hit tail_at_head)
    then have "from_cursor (head_id ys) (xs @ c # ys) = ys"
      by (cases ys) (simp_all add: head_id_def from_cursor_def)
    then show ?thesis using lt1(1) i(3) x(1) c(2) by (simp add: remaining_def)
  qed
  ultimately show "\<exists>a b. vely_next_hash h = Inr (Some (key n, data n), h\<lparr>dnext := a, dcurr := b\<rparr>)
      \<and> hash_ok (h\<lparr>dnext := a, dcurr := b\<rparr>) \<and> remaining (h\<lparr>dnext := a, dcurr := b\<rparr>) = ns"
    using nx by blast
next
  assume r: "remaining h = []"
  show "\<exists>a b. vely_next_hash h = Inr (None, h\<lparr>dnext := a, dcurr := b\<rparr>)
      \<and> hash_ok (h\<lparr>dnext := a, dcurr := b\<rparr>) \<and> remaining (h\<lparr>dnext := a, dcurr := b\<rparr>) = []"
  proof (cases "dnext h = num_buckets h")
    case True
    have hh: "h\<lparr>dnext := dnext h, dcurr := dcurr h\<rparr> = h" by simp
    have "vely_next_hash h = Inr (None, h)" using True by (simp add: vely_next_hash_def)
    then show ?thesis
      by (intro exI [of _ "dnext h"] exI [of _ "dcurr h"]) (simp only: hh assms r simp_thms)
  next
    case False
    then have lt: "dnext h < num_buckets h" using assms by (simp add: hash_ok_def cursor_ok_def)
    obtain h1 f where nb: "next_bucket h = (h1, f)" by fastforce
    note o = next_bucket_ok [OF assms lt nb]
    show ?thesis
    proof (cases f)
      case False
      then show ?thesis using o nb r \<open>dnext h \<noteq> num_buckets h\<close> by (auto simp: vely_next_hash_def)
    next
      case True
      then obtain i where i: "dcurr h1 = Some i" using o by auto
      then have "dnext h1 < num_buckets h1" "i \<in> nid ` set (table h1 ! dnext h1)"
        using o by (auto simp: hash_ok_def cursor_ok_def)
      then have "remaining h1 \<noteq> []"
        using i by (auto simp: remaining_def from_cursor_def tail_at_def)
      then show ?thesis using o r by simp
    qed
  qed
qed

section \<open>The table as a whole\<close>

lemma distinct_buckets:
  "(\<And>i. i < length t \<Longrightarrow> distinct (map K (t ! i)) \<and> (\<forall>n\<in>set (t ! i). H (K n) = off + i)) \<Longrightarrow>
     distinct (map K (concat t)) \<and> (\<forall>n\<in>set (concat t). off \<le> H (K n))"
proof (induction t arbitrary: off)
  case (Cons b t)
  have "distinct (map K (t ! i)) \<and> (\<forall>n\<in>set (t ! i). H (K n) = Suc off + i)" if "i < length t" for i
    using Cons.prems [of "Suc i"] that by simp
  note IH = Cons.IH [OF this]
  moreover have b: "distinct (map K b)" "\<forall>n\<in>set b. H (K n) = off" using Cons.prems [of 0] by auto
  moreover have "K ` set b \<inter> K ` set (concat t) = {}"
  proof -
    have "x \<noteq> y" if "x \<in> K ` set b" "y \<in> K ` set (concat t)" for x y
    proof -
      have "H x = off" "Suc off \<le> H y" using that b(2) IH by auto
      then show ?thesis by auto
    qed
    then show ?thesis by blast
  qed
  ultimately show ?case by (auto simp: Suc_leD)
qed simp

lemma table_keys:
  assumes "hash_ok h"
  shows "distinct (map (\<lambda>n. snd (key n)) (concat (table h)))"
  using assms distinct_buckets [of "table h" "\<lambda>n. snd (key n)" "hash_of h" 0]
  by (auto simp: hash_ok_def bucket_ok_def)

lemma look_iff:
  "distinct (map (\<lambda>n. snd (key n)) b) \<Longrightarrow>
     look b s = Some v \<longleftrightarrow> (\<exists>n\<in>set b. s = snd (key n) \<and> v = (fst (key n), data n))"
  by (induction b) (auto simp: image_iff)

lemma entry_concat:
  assumes "hash_ok h"
  shows "entry h s = look (concat (table h)) s"
proof -
  have b: "distinct (map (\<lambda>n. snd (key n)) (table h ! hash_of h s))"
      "hash_of h s < length (table h)"
    using assms hash_of_less [of h s] by (auto simp: hash_ok_def bucket_ok_def)
  have "(\<exists>n\<in>set (table h ! hash_of h s). s = snd (key n) \<and> v = (fst (key n), data n))
      \<longleftrightarrow> (\<exists>n\<in>set (concat (table h)). s = snd (key n) \<and> v = (fst (key n), data n))" for v
  proof
    assume "\<exists>n\<in>set (concat (table h)). s = snd (key n) \<and> v = (fst (key n), data n)"
    then obtain i n where n: "i < length (table h)" "n \<in> set (table h ! i)"
        "s = snd (key n)" "v = (fst (key n), data n)"
      by (auto simp: in_set_conv_nth) (metis nth_mem)
    then have "hash_of h s = i" using assms by (auto simp: hash_ok_def bucket_ok_def)
    then show "\<exists>n\<in>set (table h ! hash_of h s). s = snd (key n) \<and> v = (fst (key n), data n)"
      using n by blast
  next
    assume "\<exists>n\<in>set (table h ! hash_of h s). s = snd (key n) \<and> v = (fst (key n), data n)"
    then obtain n where n: "n \<in> set (table h ! hash_of h s)" "s = snd (key n) \<and> v = (fst (key n), data n)"
      by (elim bexE)
    have "n \<in> set (concat (table h))" using nth_mem [OF b(2)] n(1) unfolding set_concat by (rule UN_I)
    with n(2) show "\<exists>n\<in>set (concat (table h)). s = snd (key n) \<and> v = (fst (key n), data n)"
      by (rule bexI)
  qed
  then have "entry h s = Some v \<longleftrightarrow> look (concat (table h)) s = Some v" for v
    unfolding entry_def look_iff [OF b(1)] look_iff [OF table_keys [OF assms]] .
  then show ?thesis by (rule option_eqI)
qed

lemma entry_count:
  assumes "hash_ok h"
  shows "finite (dom (entry h)) \<and> tot h = int (card (dom (entry h)))"
proof -
  have "dom (entry h) = set (map (\<lambda>n. snd (key n)) (concat (table h)))"
    by (auto simp: dom_def entry_concat [OF assms] look_iff [OF table_keys [OF assms]])
  then show ?thesis
    using assms distinct_card [OF table_keys [OF assms]] by (simp add: hash_ok_def)
qed

section \<open>The contracts kept\<close>

text \<open>The operations of a table of request scope, as the contract has them.\<close>

definition hash_put :: "vely_hash \<Rightarrow> string \<Rightarrow> nat \<times> nat \<Rightarrow> (nat \<times> nat) option \<times> vely_hash" where
  "hash_put h s v =
     (case vely_add_hash True True h (fst v, s) None (snd v) mem_start of
        Inr ((old, st, okey), h', m) \<Rightarrow> (map_option (\<lambda>k. (fst k, old)) okey, h')
      | Inl e \<Rightarrow> (None, h))"

definition hash_find :: "bool \<Rightarrow> vely_hash \<Rightarrow> string \<Rightarrow> (nat \<times> nat) option \<times> vely_hash" where
  "hash_find del h s =
     (case vely_find_hash h s None del of
        ((d, fnd, okey), h') \<Rightarrow> (map_option (\<lambda>k. (fst k, d)) okey, h'))"

lemma hash_put_ok:
  assumes "hash_ok h" "hash_put h s v = (y, h')"
  shows "y = entry h s \<and> hash_ok h' \<and> entry h' = (entry h)(s \<mapsto> v)"
proof -
  obtain old st okey h1 where a: "add_item h (hash_of h s) (fst v, s) (snd v) = ((old, st, okey), h1)"
    by (metis surj_pair)
  then have "hash_put h s v = (map_option (\<lambda>k. (fst k, old)) okey, h1)"
    by (simp add: hash_put_def vely_add_hash_def res_bind_def hash_of_def)
  then show ?thesis
    using assms add_item_ok [of h "(fst v, s)" "snd v" old st okey h1] a
    by (auto split: option.splits)
qed

lemma hash_put_process:
  assumes "hash_ok h" "hash_put h s v = (y, h')" "\<not> process h"
  shows "\<not> process h'"
proof -
  obtain old st okey h1 where a: "add_item h (hash_of h s) (fst v, s) (snd v) = ((old, st, okey), h1)"
    by (metis surj_pair)
  then have "hash_put h s v = (map_option (\<lambda>k. (fst k, old)) okey, h1)"
    by (simp add: hash_put_def vely_add_hash_def res_bind_def hash_of_def)
  then show ?thesis
    using assms add_item_ok [of h "(fst v, s)" "snd v" old st okey h1] a by auto
qed

lemma hash_find_ok:
  assumes "hash_ok h" "hash_find del h s = (y, h')"
  shows "y = entry h s \<and> hash_ok h' \<and> entry h' = (if del then (entry h)(s := None) else entry h)"
proof -
  obtain d fnd okey h1 where f: "vely_find_hash h s None del = ((d, fnd, okey), h1)"
    by (metis surj_pair)
  then show ?thesis
    using assms find_hash_ok [OF assms(1) f] by (auto simp: hash_find_def split: option.splits)
qed

interpretation hash: counted_map hash_ok entry hash_put "hash_find False" "hash_find True" tot
proof unfold_locales
  fix h k v y h'
  show "hash_ok h \<Longrightarrow> hash_put h k v = (y, h') \<Longrightarrow>
      y = entry h k \<and> hash_ok h' \<and> entry h' = (entry h)(k \<mapsto> v)"
    by (rule hash_put_ok)
  show "hash_ok h \<Longrightarrow> hash_find False h k = (y, h') \<Longrightarrow> y = entry h k \<and> hash_ok h' \<and> entry h' = entry h"
    using hash_find_ok [of h False k y h'] by simp
  show "hash_ok h \<Longrightarrow> hash_find True h k = (y, h') \<Longrightarrow>
      y = entry h k \<and> hash_ok h' \<and> entry h' = (entry h)(k := None)"
    using hash_find_ok [of h True k y h'] by simp
  show "hash_ok h \<Longrightarrow> finite (dom (entry h)) \<and> tot h = int (card (dom (entry h)))"
    by (rule entry_count)
qed

interpretation visit: enumerator hash_ok remaining vely_next_hash "\<lambda>n. Some (key n, data n)" None
  by unfold_locales (use next_hash_ok in blast)+

section \<open>Resizing\<close>

definition put_node :: "hnode \<Rightarrow> (string \<rightharpoonup> nat \<times> nat) \<Rightarrow> (string \<rightharpoonup> nat \<times> nat)" where
  "put_node n f = f(snd (key n) \<mapsto> (fst (key n), data n))"

lemma fold_put_node:
  "distinct (map (\<lambda>n. snd (key n)) ns) \<Longrightarrow>
     fold put_node ns f s = (case look ns s of Some v \<Rightarrow> Some v | None \<Rightarrow> f s)"
proof (induction ns arbitrary: f)
  case (Cons n ns)
  then have "s = snd (key n) \<Longrightarrow> look ns s = None" by (auto simp: look_None)
  then show ?case using Cons by (auto simp: put_node_def split: option.split)
qed simp

lemma copy_loop_enough:
  assumes "hash_ok h" "hash_ok nh" "\<not> process nh \<or> pkey \<and> pdata" "length (remaining h) < n"
  shows "\<exists>nh1 a b. copy_loop n pkey pdata h nh m = Some (Inr (h\<lparr>dnext := a, dcurr := b\<rparr>, nh1, m))
    \<and> hash_ok nh1 \<and> entry nh1 = fold put_node (remaining h) (entry nh)
    \<and> num_buckets nh1 = num_buckets nh \<and> process nh1 = process nh"
  using assms
proof (induction n arbitrary: h nh)
  case (Suc n)
  show ?case
  proof (cases "remaining h")
    case Nil
    then obtain a b where "vely_next_hash h = Inr (None, h\<lparr>dnext := a, dcurr := b\<rparr>)"
      using next_hash_ok(2) [OF Suc.prems(1)] by blast
    then show ?thesis using Nil Suc.prems(2) by auto
  next
    case (Cons e es)
    then obtain a b where nx: "vely_next_hash h = Inr (Some (key e, data e), h\<lparr>dnext := a, dcurr := b\<rparr>)"
        "hash_ok (h\<lparr>dnext := a, dcurr := b\<rparr>)" "remaining (h\<lparr>dnext := a, dcurr := b\<rparr>) = es"
      using next_hash_ok(1) [OF Suc.prems(1)] by blast
    obtain old st okey nh1 where ad:
        "add_item nh (hash_of nh (snd (key e))) (key e) (data e) = ((old, st, okey), nh1)"
      by (metis surj_pair)
    have "vely_add_hash pkey pdata nh (key e) None (data e) m = Inr ((old, st, okey), nh1, m)"
      using ad Suc.prems(3) by (auto simp: vely_add_hash_def res_bind_def hash_of_def)
    moreover note ok = add_item_ok [OF Suc.prems(2) ad]
    moreover have pr: "\<not> process nh1 \<or> pkey \<and> pdata" "hash_ok nh1" using ok Suc.prems(3) by simp_all
    moreover have "length (remaining (h\<lparr>dnext := a, dcurr := b\<rparr>)) < n" using nx(3) Suc.prems(4) Cons by simp
    then obtain nh2 a' b' where "copy_loop n pkey pdata (h\<lparr>dnext := a, dcurr := b\<rparr>) nh1 m
          = Some (Inr ((h\<lparr>dnext := a, dcurr := b\<rparr>)\<lparr>dnext := a', dcurr := b'\<rparr>, nh2, m))"
        "hash_ok nh2" "entry nh2 = fold put_node es (entry nh1)"
        "num_buckets nh2 = num_buckets nh1" "process nh2 = process nh1"
      using Suc.IH [OF nx(2) pr(2,1)] unfolding nx(3) by blast
    moreover from calculation(1) have "copy_loop (Suc n) pkey pdata h nh m
        = copy_loop n pkey pdata (h\<lparr>dnext := a, dcurr := b\<rparr>) nh1 m"
      using nx(1) by simp
    moreover have "entry nh1 = put_node e (entry nh)" using ok by (simp add: put_node_def)
    ultimately show ?thesis
      using ok Cons by (intro exI [of _ nh2] exI [of _ a'] exI [of _ b']) simp
  qed
qed simp

lemma rewind_ok:
  assumes "hash_ok h"
  shows "hash_ok (vely_rewind_hash h) \<and> remaining (vely_rewind_hash h) = concat (table h)
    \<and> entry (vely_rewind_hash h) = entry h \<and> table (vely_rewind_hash h) = table h"
proof -
  have l: "0 < num_buckets h" "length (table h) = num_buckets h" using assms by (simp_all add: hash_ok_def)
  have "cursor_ok (vely_rewind_hash h)"
    using l by (cases "table h ! 0") (auto simp: cursor_ok_def vely_rewind_hash_def head_id_def)
  then have ok: "hash_ok (vely_rewind_hash h)"
    unfolding vely_rewind_hash_def by (rule hash_ok_cursor [OF assms])
  have "table h = table h ! 0 # drop 1 (table h)"
    using l by (metis Cons_nth_drop_Suc One_nat_def drop0)
  then have "concat (table h) = table h ! 0 @ concat (drop 1 (table h))" by (metis concat.simps(2))
  then have "remaining (vely_rewind_hash h) = concat (table h)"
    using l tail_head_id [OF bucket_ids [OF assms l(1)]]
    by (simp add: remaining_def vely_rewind_hash_def)
  then show ?thesis using ok by (simp add: vely_rewind_hash_def)
qed

lemma resize_ok:
  assumes h: "hash_ok h" and p: "\<not> process h \<or> pkey \<and> pdata"
  shows "\<exists>h'. vely_resize_hash pkey pdata h newsize m = Some (Inr (h', m)) \<and> hash_ok h'
    \<and> entry h' = entry h \<and> num_buckets h' = (if newsize < 10 then 10 else nat newsize)
    \<and> remaining h' = concat (tl (table h'))"
proof -
  let ?h0 = "vely_rewind_hash h" and ?n0 = "vely_create_hash (fresh h) newsize None (process h)"
  note r = rewind_ok [OF h]
  have n0: "hash_ok ?n0" "entry ?n0 = Map.empty" "process ?n0 = process h"
    using create_ok by blast+
  obtain nh a b where c: "copy_loop (length (concat (table h)) + 1) pkey pdata ?h0 ?n0 m
        = Some (Inr (?h0\<lparr>dnext := a, dcurr := b\<rparr>, nh, m))"
      "hash_ok nh" "entry nh = fold put_node (concat (table h)) (entry ?n0)"
      "num_buckets nh = num_buckets ?n0" "process nh = process ?n0"
    using copy_loop_enough [of ?h0 ?n0 pkey pdata "length (concat (table h)) + 1" m] r n0 p by auto
  have e: "entry nh = entry h"
    using fold_put_node [OF table_keys [OF h], of Map.empty] entry_concat [OF h]
    by (auto simp: c(3) n0(2) fun_eq_iff split: option.split)
  have len: "length (table nh) = num_buckets nh" "0 < num_buckets nh"
    using c(2) by (simp_all add: hash_ok_def)
  let ?h1 = "?h0\<lparr>dnext := a, dcurr := b\<rparr>"
  obtain h2 where h2: "vely_delete_hash (Some ?h1) 1 = Some h2" "dnext h2 = 0" "dcurr h2 = None"
    by (simp add: vely_delete_hash_def vely_create_hash_def vely_rewind_hash_def head_id_def Let_def)
  let ?h' = "h2\<lparr>table := table nh, tot := tot nh, hits := hits nh, reads := reads nh,
      num_buckets := num_buckets nh, process := process nh, fresh := fresh nh\<rparr>"
  have v: "vely_resize_hash pkey pdata h newsize m = Some (Inr (?h', m))"
    using c(1) h2(1) by (simp add: vely_resize_hash_def)
  have ok: "hash_ok ?h'"
    using c(2) h2(2,3) unfolding hash_ok_def
    by (simp add: bucket_ok_def hash_of_def cursor_ok_def)
  have en: "entry ?h' = entry h" using e by (simp add: entry_def hash_of_def fun_eq_iff)
  have nb: "num_buckets ?h' = (if newsize < 10 then 10 else nat newsize)"
    using c(4) by (simp add: vely_create_hash_def vely_rewind_hash_def Let_def)
  have "remaining ?h' = concat (tl (table nh))"
    using h2(2,3) len by (simp add: remaining_def from_cursor_def drop_Suc)
  then have rm: "remaining ?h' = concat (tl (table ?h'))" by simp
  show ?thesis using v ok en nb rm by blast
qed

section \<open>Properties\<close>

text \<open>C3: a hash table answers any history of additions, searches and deletions as a map from keys
  to (key pointer, data) does: each answer is what was there before, and its count of elements
  is the number of keys of that map.\<close>

theorem hash_history:
  "fst (run_ops hash_put (hash_find False) (hash_find True) (vely_create_hash f sz None False) ops)
     = fst (map_run Map.empty ops)
   \<and> vely_total_hash (snd (run_ops hash_put (hash_find False) (hash_find True)
        (vely_create_hash f sz None False) ops))
     = int (card (dom (snd (map_run (Map.empty :: string \<rightharpoonup> nat \<times> nat) ops))))"
  using hash.fresh_simulation [of "vely_create_hash f sz None False" ops]
    hash.count_history [of "vely_create_hash f sz None False" ops] create_ok [of f sz False]
  by (simp add: vely_total_hash_def)

text \<open>Adding and finding report exactly what happened: a new key gives \<^verbatim>\<open>VV_OKAY\<close> and no old
  pointers, an existing one \<^verbatim>\<open>VV_ERR_EXIST\<close> with the old data and the old key pointer; a search
  gives \<^verbatim>\<open>VV_OKAY\<close> with data and key pointer or \<^verbatim>\<open>VV_ERR_EXIST\<close> with null pointers.\<close>

lemma hash_statuses:
  assumes "hash_ok h" "\<not> process h"
  shows "(\<exists>old st okey h'. vely_add_hash pkey pdata h k None d m = Inr ((old, st, okey), h', m)
      \<and> hash_ok h' \<and> entry h' = (entry h)(snd k \<mapsto> (fst k, d))
      \<and> (case entry h (snd k) of None \<Rightarrow> old = 0 \<and> st = VV_OKAY \<and> okey = None
         | Some (p, v) \<Rightarrow> old = v \<and> st = VV_ERR_EXIST \<and> okey = Some (p, snd k)))
    \<and> (\<exists>v fnd okey h'. vely_find_hash h s None del = ((v, fnd, okey), h')
      \<and> hash_ok h' \<and> entry h' = (if del then (entry h)(s := None) else entry h)
      \<and> (case entry h s of None \<Rightarrow> v = 0 \<and> fnd = VV_ERR_EXIST \<and> okey = None
         | Some (p, w) \<Rightarrow> v = w \<and> fnd = VV_OKAY \<and> okey = Some (p, s)))"
proof
  obtain old st okey h1 where a: "add_item h (hash_of h (snd k)) k d = ((old, st, okey), h1)"
    by (metis surj_pair)
  then have "vely_add_hash pkey pdata h k None d m = Inr ((old, st, okey), h1, m)"
    using assms(2) by (simp add: vely_add_hash_def res_bind_def hash_of_def)
  then show "\<exists>old st okey h'. vely_add_hash pkey pdata h k None d m = Inr ((old, st, okey), h', m)
      \<and> hash_ok h' \<and> entry h' = (entry h)(snd k \<mapsto> (fst k, d))
      \<and> (case entry h (snd k) of None \<Rightarrow> old = 0 \<and> st = VV_OKAY \<and> okey = None
         | Some (p, v) \<Rightarrow> old = v \<and> st = VV_ERR_EXIST \<and> okey = Some (p, snd k))"
    using add_item_ok [OF assms(1) a] by blast
  obtain v fnd okey' h2 where f: "vely_find_hash h s None del = ((v, fnd, okey'), h2)"
    by (metis surj_pair)
  then show "\<exists>v fnd okey h'. vely_find_hash h s None del = ((v, fnd, okey), h')
      \<and> hash_ok h' \<and> entry h' = (if del then (entry h)(s := None) else entry h)
      \<and> (case entry h s of None \<Rightarrow> v = 0 \<and> fnd = VV_ERR_EXIST \<and> okey = None
         | Some (p, w) \<Rightarrow> v = w \<and> fnd = VV_OKAY \<and> okey = Some (p, s))"
    using find_hash_ok [OF assms(1) f] by blast
qed

text \<open>A table with two elements.\<close>

definition hash_two :: vely_hash where
  "hash_two = snd (hash_put (snd (hash_put (vely_create_hash 0 0 None False) ''ab'' (5, 7))) ''c'' (6, 8))"

lemma hash_two_ok: "hash_ok hash_two" "process hash_two = False"
proof -
  let ?h0 = "vely_create_hash 0 0 None False"
  obtain y1 h1 where 1: "hash_put ?h0 ''ab'' (5, 7) = (y1, h1)" by fastforce
  obtain y2 h2 where 2: "hash_put h1 ''c'' (6, 8) = (y2, h2)" by fastforce
  have "hash_ok h2" using hash_put_ok [OF _ 1] hash_put_ok [OF _ 2] create_ok by blast
  then show "hash_ok hash_two" by (simp add: hash_two_def 1 2)
  have "process h2 = False"
    using hash_put_process [OF _ 1] hash_put_process [OF _ 2] hash_put_ok [OF _ 1] create_ok [of 0 0 False]
    by auto
  then show "process hash_two = False" by (simp add: hash_two_def 1 2)
qed

lemma hash_statuses_witness:
  "(\<exists>old st okey h'. vely_add_hash False False hash_two (9, ''ab'') None 10 mem_start = Inr ((old, st, okey), h', mem_start)
      \<and> hash_ok h' \<and> entry h' = (entry hash_two)(snd (9::nat, ''ab'') \<mapsto> (fst (9, ''ab''), 10))
      \<and> (case entry hash_two (snd (9::nat, ''ab'')) of None \<Rightarrow> old = 0 \<and> st = VV_OKAY \<and> okey = None
         | Some (p, v) \<Rightarrow> old = v \<and> st = VV_ERR_EXIST \<and> okey = Some (p, snd (9::nat, ''ab''))))
    \<and> (\<exists>v fnd okey h'. vely_find_hash hash_two ''c'' None True = ((v, fnd, okey), h')
      \<and> hash_ok h' \<and> entry h' = (if True then (entry hash_two)(''c'' := None) else entry hash_two)
      \<and> (case entry hash_two ''c'' of None \<Rightarrow> v = 0 \<and> fnd = VV_ERR_EXIST \<and> okey = None
         | Some (p, w) \<Rightarrow> v = w \<and> fnd = VV_OKAY \<and> okey = Some (p, ''c'')))"
  by (rule hash_statuses [OF hash_two_ok(1)]) (simp add: hash_two_ok(2))

text \<open>After a rewind the cursor visits every element once and then only reports the end: the
  visited keys are distinct, as many as the table counts, and with their data they are
  exactly what a search finds.\<close>

lemma hash_visits_all:
  assumes "hash_ok h"
  shows "\<exists>es h'. outputs vely_next_hash (length es + n) (vely_rewind_hash h)
      = Inr (map Some es @ replicate n None, h')
    \<and> distinct (map (\<lambda>e. snd (fst e)) es) \<and> int (length es) = vely_total_hash h
    \<and> set es = {((p, s), d). entry h s = Some (p, d)}"
proof -
  let ?t = "concat (table h)" and ?es = "map (\<lambda>n. (key n, data n)) (concat (table h))"
  note r = rewind_ok [OF assms]
  obtain h' where v: "outputs vely_next_hash (length ?t + n) (vely_rewind_hash h)
      = Inr (map (\<lambda>n. Some (key n, data n)) ?t @ replicate n None, h')"
    using visit.visits [of "vely_rewind_hash h" n] r by auto
  have "((p, s), d) \<in> set ?es \<longleftrightarrow> ((p, s), d) \<in> {((p, s), d). entry h s = Some (p, d)}" for p s d
    unfolding entry_concat [OF assms] mem_Collect_eq prod.case look_iff [OF table_keys [OF assms]]
    by (force simp: image_iff prod_eq_iff)
  then have "set ?es = {((p, s), d). entry h s = Some (p, d)}"
    by (metis (no_types, lifting) surj_pair subsetI subset_antisym)
  moreover have "distinct (map (\<lambda>e. snd (fst e)) ?es)"
    using table_keys [OF assms] by (simp add: o_def)
  moreover have "int (length ?es) = vely_total_hash h"
    using assms by (simp add: hash_ok_def vely_total_hash_def)
  moreover have "outputs vely_next_hash (length ?es + n) (vely_rewind_hash h)
      = Inr (map Some ?es @ replicate n None, h')"
    using v by (simp add: o_def)
  ultimately show ?thesis by (intro exI [of _ ?es] exI [of _ h']) simp
qed

lemma hash_visits_all_witness:
  "\<exists>es h'. outputs vely_next_hash (length es + 3) (vely_rewind_hash hash_two)
      = Inr (map Some es @ replicate 3 None, h')
    \<and> distinct (map (\<lambda>e. snd (fst e)) es) \<and> int (length es) = vely_total_hash hash_two
    \<and> set es = {((p, s), d). entry hash_two s = Some (p, d)}"
  by (rule hash_visits_all [OF hash_two_ok(1)])

text \<open>Resizing keeps every key and its data, leaves memory alone, and gives at least ten
  buckets; but it leaves the cursor past the first bucket, so a visit that is not preceded by
  a rewind misses the elements there.\<close>

lemma hash_resize_keeps:
  assumes "hash_ok h" "\<not> process h \<or> pkey \<and> pdata"
  shows "\<exists>h'. vely_resize_hash pkey pdata h newsize m = Some (Inr (h', m)) \<and> hash_ok h'
    \<and> entry h' = entry h \<and> vely_hash_size h' = (if newsize < 10 then 10 else nat newsize)
    \<and> remaining h' = concat (tl (table h'))"
  using resize_ok [OF assms] by (simp add: vely_hash_size_def)

lemma hash_resize_keeps_witness:
  "\<exists>h'. vely_resize_hash False False hash_two 23 mem_start = Some (Inr (h', mem_start)) \<and> hash_ok h'
    \<and> entry h' = entry hash_two \<and> vely_hash_size h' = (if (23::int) < 10 then 10 else nat 23)
    \<and> remaining h' = concat (tl (table h'))"
  by (rule hash_resize_keeps [OF hash_two_ok(1)]) (simp add: hash_two_ok(2))

text \<open>A search with a list of pieces compares only as many bytes as the pieces have.\<close>

definition starts_with :: "string \<Rightarrow> string \<Rightarrow> bool" where
  "starts_with p s \<longleftrightarrow> take (length p) s = p"

lemma starts_with_append:
  "starts_with (p @ q) s \<longleftrightarrow> starts_with p s \<and> starts_with q (drop (length p) s)"
proof
  assume "starts_with (p @ q) s"
  then have "s = (p @ q) @ drop (length (p @ q)) s" by (metis append_take_drop_id starts_with_def)
  then obtain r where "s = p @ q @ r" by simp
  then show "starts_with p s \<and> starts_with q (drop (length p) s)" by (simp add: starts_with_def)
next
  assume "starts_with p s \<and> starts_with q (drop (length p) s)"
  then have "s = p @ drop (length p) s" "drop (length p) s = q @ drop (length q) (drop (length p) s)"
    by (metis append_take_drop_id starts_with_def)+
  then obtain r where "s = p @ q @ r" by metis
  then show "starts_with (p @ q) s" by (simp add: starts_with_def)
qed

lemma pieces_match_prefix: "pieces_match k n els \<longleftrightarrow> starts_with (concat els) (drop n k)"
proof (induction els arbitrary: n)
  case (Cons el els)
  then show ?case by (simp add: starts_with_append) (simp add: starts_with_def add.commute)
qed (simp add: starts_with_def)

lemma find_loop_first:
  "fst (find_loop mt prev b) = None \<and> List.find mt b = None
   \<or> (\<exists>p n. fst (find_loop mt prev b) = Some (p, n) \<and> List.find mt b = Some n)"
  by (induction mt prev b rule: find_loop.induct) (auto split: prod.splits)

text \<open>A search by a list of pieces returns the first element of the bucket of the pieces
  whose key merely \<^emph>\<open>starts\<close> with the pieces: the end of the key is not compared.\<close>

lemma hash_pieces_prefix:
  assumes "els \<noteq> []"
  shows "fst (vely_find_hash h k (Some els) del)
    = (case List.find (\<lambda>n. starts_with (concat els) (snd (key n)))
              (table h ! vely_compute_hash k (Some els) (num_buckets h)) of
         None \<Rightarrow> (0, VV_ERR_EXIST, None)
       | Some n \<Rightarrow> (data n, VV_OKAY, Some (key n)))"
proof -
  have m: "is_match k (Some els) = (\<lambda>n. starts_with (concat els) (snd (key n)))"
    using assms by (simp add: is_match_def pieces_match_prefix fun_eq_iff)
  show ?thesis
    using find_loop_first [of "\<lambda>n. starts_with (concat els) (snd (key n))" None
        "table h ! vely_compute_hash k (Some els) (num_buckets h)"]
    by (auto simp: vely_find_hash_def m Let_def split: prod.splits option.splits)
qed

lemma hash_pieces_prefix_witness:
  "fst (vely_find_hash hash_two ''a'' (Some [''a'']) False)
    = (case List.find (\<lambda>n. starts_with (concat [''a'']) (snd (key n)))
              (table hash_two ! vely_compute_hash ''a'' (Some [''a'']) (num_buckets hash_two)) of
         None \<Rightarrow> (0, VV_ERR_EXIST, None)
       | Some n \<Rightarrow> (data n, VV_OKAY, Some (key n)))"
  by (rule hash_pieces_prefix) simp

end
