(* ===== verification/AvlTree.thy ===== *)
theory AvlTree
  imports Mem Maps
begin

text \<open>
  The balanced tree of tree.c.  A node is a record with an address of its own; its two
  children are in the datatype, because a child belongs to one parent, and the pointers of
  the sorted list (\<open>dlist\<close>) are two maps from addresses to addresses in the tree's record,
  because they cross the tree.  The functions of tree.c that change \<open>tree\<close>, reached from
  \<open>parent_tree\<close> in direction \<open>dir\<close>, change the child of the parent here and return the new
  parent.  The code's global cursor \<open>vv_cursor\<close> is an argument and a result.
\<close>

section \<open>Nodes\<close>

record tnode =
  nid :: nat
  key :: ckey
  data :: nat
  height :: nat
  key_present :: bool

datatype avl = Null | Node (node: tnode) (lesser_node: avl) (greater_node: avl)
  where
    "lesser_node Null = Null"
  | "greater_node Null = Null"

datatype tree_dir = VV_TREE_LESSER | VV_TREE_GREATER

text \<open>\<open>eval\<close> gets the node's key and reads the other key from the cursor, so here it gets both.\<close>

datatype tree_type = VV_TREE_TYPE_STR | VV_TREE_TYPE_NUM

record vely_tree =
  tree :: avl
  mn :: "nat option"
  mx :: "nat option"
  count :: int
  eval :: "(string \<Rightarrow> string \<Rightarrow> int) option"
  key_type :: tree_type
  sorted_tree :: bool
  process :: bool
  lesser_list :: "nat \<Rightarrow> nat option"
  greater_list :: "nat \<Rightarrow> nat option"
  fresh :: nat

record vely_tree_cursor =
  current :: "nat option"
  ckey :: ckey
  key_len :: nat
  status :: int
  res :: nat
  rkey :: ckey

type_synonym tstate = "vely_tree \<times> vely_tree_cursor"

section \<open>Comparing keys\<close>

text \<open>The C library's \<^verbatim>\<open>strncmp\<close>: the difference of the first bytes that differ.\<close>

fun strncmp :: "string \<Rightarrow> string \<Rightarrow> nat \<Rightarrow> int" where
  "strncmp a b 0 = 0"
| "strncmp [] [] (Suc n) = 0"
| "strncmp (x # xs) [] (Suc n) = uchar x"
| "strncmp [] (y # ys) (Suc n) = - uchar y"
| "strncmp (x # xs) (y # ys) (Suc n) = (if x = y then strncmp xs ys n else uchar x - uchar y)"

definition vv_tree_compare :: "tree_type \<Rightarrow> string \<Rightarrow> nat \<Rightarrow> string \<Rightarrow> int" where
  "vv_tree_compare kt k len k2 =
     (if kt = VV_TREE_TYPE_NUM then
        (let l1 = len; l2 = length k2 in
         if l1 < l2 then -1 else if l1 > l2 then 1 else strncmp k k2 l1)
      else
        (let r = strncmp k k2 len in
         if r < 0 then -1
         else if r = 0 then (if cat k2 len \<noteq> NUL then -1 else 0)
         else 1))"

definition VV_TREE_EVAL :: "vely_tree \<Rightarrow> vely_tree_cursor \<Rightarrow> string \<Rightarrow> int" where
  "VV_TREE_EVAL t cu k2 =
     (case eval t of
        Some f \<Rightarrow> f (snd (ckey cu)) k2
      | None \<Rightarrow> vv_tree_compare (key_type t) (snd (ckey cu)) (key_len cu) k2)"

section \<open>Making nodes and trees\<close>

definition vv_tree_node_create :: "vely_tree \<Rightarrow> tnode \<times> vely_tree" where
  "vv_tree_node_create t =
     (\<lparr>nid = fresh t, key = (0, []), data = 0, height = 0, key_present = False\<rparr>,
      t\<lparr>fresh := fresh t + 1,
        lesser_list := (lesser_list t)(fresh t := None),
        greater_list := (greater_list t)(fresh t := None)\<rparr>)"

fun child :: "tree_dir \<Rightarrow> avl \<Rightarrow> avl" where
  "child VV_TREE_LESSER t = lesser_node t"
| "child VV_TREE_GREATER t = greater_node t"

fun VV_TREE_SET_PARENT :: "avl \<Rightarrow> tree_dir \<Rightarrow> avl \<Rightarrow> avl" where
  "VV_TREE_SET_PARENT Null d r = Null"
| "VV_TREE_SET_PARENT (Node n l g) VV_TREE_LESSER r = Node n r g"
| "VV_TREE_SET_PARENT (Node n l g) VV_TREE_GREATER r = Node n l r"

definition vv_tree_create_root :: "vely_tree \<Rightarrow> vely_tree" where
  "vv_tree_create_root t =
     (case vv_tree_node_create t of
        (n, t1) \<Rightarrow> t1\<lparr>tree := VV_TREE_SET_PARENT (tree t1) VV_TREE_LESSER (Node n Null Null)\<rparr>)"

definition vv_tree_create ::
  "nat \<Rightarrow> (string \<Rightarrow> string \<Rightarrow> int) option \<Rightarrow> tree_type \<Rightarrow> bool \<Rightarrow> bool \<Rightarrow> vely_tree" where
  "vv_tree_create supply ef kt srt pr =
     (case vv_tree_node_create
             \<lparr>tree = Null, mn = None, mx = None, count = 0, eval = ef, key_type = kt, sorted_tree = srt,
              process = pr, lesser_list = (\<lambda>_. None), greater_list = (\<lambda>_. None), fresh = supply\<rparr> of
        (n, t) \<Rightarrow> vv_tree_create_root (t\<lparr>tree := Node n Null Null\<rparr>))"

section \<open>Heights and rotations\<close>

text \<open>The height read through a pointer that may be \<^verbatim>\<open>NULL\<close>.  The field has 7 bits.\<close>

fun height_of :: "avl \<Rightarrow> nat" where
  "height_of Null = 0"
| "height_of (Node n l g) = height n"

fun bal_factor :: "avl \<Rightarrow> int" where
  "bal_factor Null = 0"
| "bal_factor (Node n l g) = int (height_of l) - int (height_of g)"

fun vv_tree_height :: "avl \<Rightarrow> avl" where
  "vv_tree_height Null = Null"
| "vv_tree_height (Node n l g) =
     Node (n\<lparr>height := (if height_of l > height_of g then height_of l + 1 else height_of g + 1) mod 128\<rparr>) l g"

text \<open>A rotation needs the child that comes up.  The callers have seen that it has a height.\<close>

definition vv_tree_rotate_right :: "avl \<Rightarrow> tree_dir \<Rightarrow> avl" where
  "vv_tree_rotate_right parent dir =
     (case child dir parent of
        Node n (Node ln ll lg) g \<Rightarrow>
          vv_tree_height (VV_TREE_SET_PARENT parent dir
            (Node ln ll (vv_tree_height (Node n lg g))))
      | _ \<Rightarrow> parent)"

definition vv_tree_rotate_left :: "avl \<Rightarrow> tree_dir \<Rightarrow> avl" where
  "vv_tree_rotate_left parent dir =
     (case child dir parent of
        Node n l (Node gn gl gg) \<Rightarrow>
          vv_tree_height (VV_TREE_SET_PARENT parent dir
            (Node gn (vv_tree_height (Node n l gl)) gg))
      | _ \<Rightarrow> parent)"

text \<open>After the rotation the code computes the height of \<open>tree\<close> once more; the rotation has done it
  for the same children.\<close>

definition vv_tree_balance :: "avl \<Rightarrow> tree_dir \<Rightarrow> avl" where
  "vv_tree_balance parent dir =
     (let t = vv_tree_height (child dir parent); p = VV_TREE_SET_PARENT parent dir t in
      if bal_factor t \<ge> 2 then
        (let t1 = (if height_of (greater_node (lesser_node t)) > height_of (lesser_node (lesser_node t))
                   then vv_tree_rotate_left t VV_TREE_LESSER else t)
         in vv_tree_rotate_right (VV_TREE_SET_PARENT p dir t1) dir)
      else if bal_factor t \<le> -2 then
        (let t1 = (if height_of (lesser_node (greater_node t)) > height_of (greater_node (greater_node t))
                   then vv_tree_rotate_right t VV_TREE_GREATER else t)
         in vv_tree_rotate_left (VV_TREE_SET_PARENT p dir t1) dir)
      else p)"

section \<open>Inserting\<close>

definition set_lesser :: "nat option \<Rightarrow> nat option \<Rightarrow> vely_tree \<Rightarrow> vely_tree" where
  "set_lesser i v t = (case i of None \<Rightarrow> t | Some i \<Rightarrow> t\<lparr>lesser_list := (lesser_list t)(i := v)\<rparr>)"

definition set_greater :: "nat option \<Rightarrow> nat option \<Rightarrow> vely_tree \<Rightarrow> vely_tree" where
  "set_greater i v t = (case i of None \<Rightarrow> t | Some i \<Rightarrow> t\<lparr>greater_list := (greater_list t)(i := v)\<rparr>)"

text \<open>A new child of a node, linked into the sorted list.\<close>

definition new_lesser :: "tnode \<Rightarrow> vely_tree \<Rightarrow> tnode \<times> vely_tree" where
  "new_lesser n t =
     (case vv_tree_node_create t of
        (c, t1) \<Rightarrow>
          (c, if sorted_tree t1 then
                (let t2 = set_greater (lesser_list t1 (nid n)) (Some (nid c)) t1;
                     t3 = set_lesser (Some (nid c)) (lesser_list t2 (nid n)) t2;
                     t4 = set_lesser (Some (nid n)) (Some (nid c)) t3
                 in set_greater (Some (nid c)) (Some (nid n)) t4)
              else t1))"

definition new_greater :: "tnode \<Rightarrow> vely_tree \<Rightarrow> tnode \<times> vely_tree" where
  "new_greater n t =
     (case vv_tree_node_create t of
        (c, t1) \<Rightarrow>
          (c, if sorted_tree t1 then
                (let t2 = set_lesser (greater_list t1 (nid n)) (Some (nid c)) t1;
                     t3 = set_greater (Some (nid c)) (greater_list t2 (nid n)) t2;
                     t4 = set_greater (Some (nid n)) (Some (nid c)) t3
                 in set_lesser (Some (nid c)) (Some (nid n)) t4)
              else t1))"

text \<open>Filling a node that has no key.\<close>

definition fill_node :: "nat \<Rightarrow> tnode \<Rightarrow> tstate \<Rightarrow> tnode \<times> tstate" where
  "fill_node d n s =
     (case s of (t, cu) \<Rightarrow>
        (let t1 = (if sorted_tree t then
                     (let t2 = (if lesser_list t (nid n) = None then t\<lparr>mn := Some (nid n)\<rparr> else t)
                      in if greater_list t2 (nid n) = None then t2\<lparr>mx := Some (nid n)\<rparr> else t2)
                   else t)
         in (n\<lparr>key := ckey cu, data := d, height := 1, key_present := True\<rparr>,
             t1\<lparr>count := count t1 + 1\<rparr>, cu\<lparr>current := Some (nid n), status := VV_OKAY\<rparr>)))"

fun keyed :: "avl \<Rightarrow> nat" where
  "keyed Null = 0"
| "keyed (Node n l g) = keyed l + keyed g + (if key_present n then 1 else 0)"

lemma new_key_absent:
  "(c, t') = new_lesser n t \<Longrightarrow> \<not> key_present c" "(c, t') = new_greater n t \<Longrightarrow> \<not> key_present c"
  by (auto simp: new_lesser_def new_greater_def vv_tree_node_create_def)

text \<open>\<open>ev\<close> is \<open>VV_TREE_EVAL\<close> with the cursor's key.\<close>

function vv_tree_insert ::
  "(string \<Rightarrow> int) \<Rightarrow> nat \<Rightarrow> avl \<Rightarrow> tree_dir \<Rightarrow> tstate \<Rightarrow> avl \<times> tstate" where
  "vv_tree_insert ev d parent dir s =
     (case child dir parent of
        Null \<Rightarrow> (parent, s)
      | Node n l g \<Rightarrow>
          (if \<not> key_present n then
             (case fill_node d n s of (n1, s1) \<Rightarrow> (VV_TREE_SET_PARENT parent dir (Node n1 l g), s1))
           else if ev (snd (key n)) < 0 then
             (if l = Null then
                (case new_lesser n (fst s) of
                   (c, t1) \<Rightarrow>
                     (case vv_tree_insert ev d (Node n (Node c Null Null) g) VV_TREE_LESSER (t1, snd s) of
                        (p1, s1) \<Rightarrow> (VV_TREE_SET_PARENT parent dir p1, s1)))
              else
                (case vv_tree_insert ev d (Node n l g) VV_TREE_LESSER s of
                   (p1, s1) \<Rightarrow>
                     (vv_tree_balance
                        (VV_TREE_SET_PARENT parent dir (vv_tree_balance p1 VV_TREE_LESSER)) dir, s1)))
           else if ev (snd (key n)) = 0 then (parent, fst s, (snd s)\<lparr>status := VV_ERR_EXIST\<rparr>)
           else
             (if g = Null then
                (case new_greater n (fst s) of
                   (c, t1) \<Rightarrow>
                     (case vv_tree_insert ev d (Node n l (Node c Null Null)) VV_TREE_GREATER (t1, snd s) of
                        (p1, s1) \<Rightarrow> (VV_TREE_SET_PARENT parent dir p1, s1)))
              else
                (case vv_tree_insert ev d (Node n l g) VV_TREE_GREATER s of
                   (p1, s1) \<Rightarrow>
                     (vv_tree_balance
                        (VV_TREE_SET_PARENT parent dir (vv_tree_balance p1 VV_TREE_GREATER)) dir, s1)))))"
  by pat_completeness auto

termination
  by (relation "measure (\<lambda>(ev, d, parent, dir, s). keyed (child dir parent))")
    (auto dest: new_key_absent)

declare vv_tree_insert.simps [simp del]

section \<open>Searching\<close>

text \<open>Going down: the node found, or the last one on the other side.\<close>

fun search_loop :: "(string \<Rightarrow> int) \<Rightarrow> avl \<Rightarrow> tnode option" where
  "search_loop ev Null = None"
| "search_loop ev (Node n l g) =
     (if ev (snd (key n)) = 0 then Some n
      else if ev (snd (key n)) < 0 then search_loop ev l
      else search_loop ev g)"

fun search_lesser_loop :: "(string \<Rightarrow> int) \<Rightarrow> bool \<Rightarrow> avl \<Rightarrow> tnode option \<Rightarrow> tnode option" where
  "search_lesser_loop ev equal Null prev = prev"
| "search_lesser_loop ev equal (Node n l g) prev =
     (let cmp = ev (snd (key n)) in
      if cmp = 0 \<and> equal then Some n
      else (let cmp = (if cmp = 0 then -1 else cmp) in
        if cmp < 0 then search_lesser_loop ev equal l prev
        else search_lesser_loop ev equal g (Some n)))"

fun search_greater_loop :: "(string \<Rightarrow> int) \<Rightarrow> bool \<Rightarrow> avl \<Rightarrow> tnode option \<Rightarrow> tnode option" where
  "search_greater_loop ev equal Null prev = prev"
| "search_greater_loop ev equal (Node n l g) prev =
     (let cmp = ev (snd (key n)) in
      if cmp = 0 \<and> equal then Some n
      else (let cmp = (if cmp = 0 then 1 else cmp) in
        if cmp < 0 then search_greater_loop ev equal l (Some n)
        else search_greater_loop ev equal g prev))"

definition has_keys :: "avl \<Rightarrow> bool" where
  "has_keys t = (case t of Null \<Rightarrow> False | Node n l g \<Rightarrow> key_present n)"

definition set_found :: "tnode option \<Rightarrow> vely_tree_cursor \<Rightarrow> vely_tree_cursor" where
  "set_found r cu =
     (case r of
        Some n \<Rightarrow> cu\<lparr>status := VV_OKAY, current := Some (nid n)\<rparr>
      | None \<Rightarrow> cu\<lparr>status := VV_ERR_EXIST\<rparr>)"

definition vv_tree_search_lesser_equal :: "(string \<Rightarrow> int) \<Rightarrow> avl \<Rightarrow> bool \<Rightarrow> vely_tree_cursor \<Rightarrow> vely_tree_cursor" where
  "vv_tree_search_lesser_equal ev t equal cu =
     set_found (if has_keys t then search_lesser_loop ev equal t None else None) cu"

definition vv_tree_search_greater_equal :: "(string \<Rightarrow> int) \<Rightarrow> avl \<Rightarrow> bool \<Rightarrow> vely_tree_cursor \<Rightarrow> vely_tree_cursor" where
  "vv_tree_search_greater_equal ev t equal cu =
     set_found (if has_keys t then search_greater_loop ev equal t None else None) cu"

definition vv_tree_search :: "(string \<Rightarrow> int) \<Rightarrow> avl \<Rightarrow> vely_tree_cursor \<Rightarrow> vely_tree_cursor" where
  "vv_tree_search ev t cu = set_found (if has_keys t then search_loop ev t else None) cu"

fun leftmost :: "avl \<Rightarrow> tnode option" where
  "leftmost Null = None"
| "leftmost (Node n l g) = (if l = Null then Some n else leftmost l)"

fun rightmost :: "avl \<Rightarrow> tnode option" where
  "rightmost Null = None"
| "rightmost (Node n l g) = (if g = Null then Some n else rightmost g)"

definition vv_tree_min_f :: "vely_tree_cursor \<Rightarrow> vely_tree \<Rightarrow> vely_tree_cursor" where
  "vv_tree_min_f cu t =
     (if count t = 0 then cu\<lparr>status := VV_ERR_EXIST\<rparr>
      else cu\<lparr>status := VV_OKAY,
               current := if sorted_tree t then mn t else map_option nid (leftmost (lesser_node (tree t)))\<rparr>)"

definition vv_tree_max_f :: "vely_tree_cursor \<Rightarrow> vely_tree \<Rightarrow> vely_tree_cursor" where
  "vv_tree_max_f cu t =
     (if count t = 0 then cu\<lparr>status := VV_ERR_EXIST\<rparr>
      else cu\<lparr>status := VV_OKAY,
               current := if sorted_tree t then mx t else map_option nid (rightmost (lesser_node (tree t)))\<rparr>)"

section \<open>Deleting\<close>

text \<open>Taking a node out of the sorted list, and putting \<open>found\<close> in the place of \<open>leaf\<close>.\<close>

definition unlink_node :: "nat \<Rightarrow> vely_tree \<Rightarrow> vely_tree" where
  "unlink_node f t =
     (let t1 = (if lesser_list t f \<noteq> None then set_greater (lesser_list t f) (greater_list t f) t
                else t\<lparr>mn := greater_list t f\<rparr>)
      in if greater_list t1 f \<noteq> None then set_lesser (greater_list t1 f) (lesser_list t1 f) t1
         else t1\<lparr>mx := lesser_list t1 f\<rparr>)"

definition relink_node :: "nat \<Rightarrow> nat \<Rightarrow> vely_tree \<Rightarrow> vely_tree" where
  "relink_node f leaf t =
     (let t1 = set_lesser (Some f) (lesser_list t leaf) t;
          t2 = set_greater (Some f) (greater_list t1 leaf) t1;
          t3 = (if lesser_list t2 leaf \<noteq> None then set_greater (lesser_list t2 leaf) (Some f) t2
                else t2\<lparr>mn := Some f\<rparr>)
      in if greater_list t3 leaf \<noteq> None then set_lesser (greater_list t3 leaf) (Some f) t3
         else t3\<lparr>mx := Some f\<rparr>)"

text \<open>The leaf's key and data go to the node \<open>found\<close>; here the leaf is the result, and the caller,
  which has that node, puts them there.\<close>

function vv_tree_find_leaf_del ::
  "avl \<Rightarrow> tree_dir \<Rightarrow> nat \<Rightarrow> vely_tree \<Rightarrow> (avl \<times> tnode option) \<times> vely_tree" where
  "vv_tree_find_leaf_del parent dir found t =
     (case child dir parent of
        Null \<Rightarrow> ((parent, None), t)
      | Node n l g \<Rightarrow>
          (if l = Null then
             ((VV_TREE_SET_PARENT parent dir g, Some n),
              if sorted_tree t then relink_node found (nid n) (unlink_node found t) else t)
           else
             (case vv_tree_find_leaf_del (Node n l g) VV_TREE_LESSER found t of
                ((p1, leaf), t1) \<Rightarrow>
                  (let p2 = (if lesser_node p1 \<noteq> Null then vv_tree_balance p1 VV_TREE_LESSER else p1)
                   in ((vv_tree_balance (VV_TREE_SET_PARENT parent dir p2) dir, leaf), t1)))))"
  by pat_completeness auto
termination
  by (relation "measure (\<lambda>(parent, dir, found, t). size (child dir parent))") auto

declare vv_tree_find_leaf_del.simps [simp del]

fun set_node :: "tnode option \<Rightarrow> avl \<Rightarrow> avl" where
  "set_node (Some leaf) (Node n l g) = Node (n\<lparr>key := key leaf, data := data leaf\<rparr>) l g"
| "set_node r t = t"

definition delete_found :: "avl \<Rightarrow> tree_dir \<Rightarrow> vely_tree \<Rightarrow> avl \<times> vely_tree" where
  "delete_found parent dir t =
     (case child dir parent of
        Null \<Rightarrow> (parent, t)
      | Node n l g \<Rightarrow>
          (if g = Null then
             (VV_TREE_SET_PARENT parent dir l,
              if sorted_tree t then unlink_node (nid n) t else t)
           else
             (case vv_tree_find_leaf_del (Node n l g) VV_TREE_GREATER (nid n) t of
                ((p1, leaf), t1) \<Rightarrow>
                  (let p2 = set_node leaf p1;
                       p3 = (if greater_node p2 \<noteq> Null then vv_tree_balance p2 VV_TREE_GREATER else p2)
                   in (vv_tree_balance (VV_TREE_SET_PARENT parent dir p3) dir, t1)))))"

function vv_tree_delete :: "(string \<Rightarrow> int) \<Rightarrow> avl \<Rightarrow> tree_dir \<Rightarrow> tstate \<Rightarrow> avl \<times> tstate" where
  "vv_tree_delete ev parent dir s =
     (case child dir parent of
        Null \<Rightarrow> (parent, s)
      | Node n l g \<Rightarrow>
          (if ev (snd (key n)) = 0 then
             (case delete_found parent dir (fst s) of
                (p1, t1) \<Rightarrow>
                  (p1, t1\<lparr>count := count t1 - 1\<rparr>,
                   (snd s)\<lparr>status := VV_OKAY, res := data n, rkey := key n\<rparr>))
           else if ev (snd (key n)) < 0 \<and> l \<noteq> Null then
             (case vv_tree_delete ev (Node n l g) VV_TREE_LESSER s of
                (p1, s1) \<Rightarrow>
                  (let p2 = (if lesser_node p1 \<noteq> Null then vv_tree_balance p1 VV_TREE_LESSER else p1)
                   in (vv_tree_balance (VV_TREE_SET_PARENT parent dir p2) dir, s1)))
           else if ev (snd (key n)) > 0 \<and> g \<noteq> Null then
             (case vv_tree_delete ev (Node n l g) VV_TREE_GREATER s of
                (p1, s1) \<Rightarrow>
                  (let p2 = (if greater_node p1 \<noteq> Null then vv_tree_balance p1 VV_TREE_GREATER else p1)
                   in (vv_tree_balance (VV_TREE_SET_PARENT parent dir p2) dir, s1)))
           else (parent, fst s, (snd s)\<lparr>status := VV_ERR_EXIST\<rparr>)))"
  by pat_completeness auto
termination
  by (relation "measure (\<lambda>(ev, parent, dir, s). size (child dir parent))") auto

declare vv_tree_delete.simps [simp del]

text \<open>How many nodes are out of balance.\<close>

fun vv_tree_bal :: "avl \<Rightarrow> int" where
  "vv_tree_bal Null = 0"
| "vv_tree_bal (Node n l g) =
     vv_tree_bal l + vv_tree_bal g + (if bal_factor (Node n l g) < -1 \<or> bal_factor (Node n l g) > 1 then 1 else 0)"

section \<open>What a program calls\<close>

definition set_key :: "ckey \<Rightarrow> int \<Rightarrow> vely_tree_cursor \<Rightarrow> vely_tree_cursor" where
  "set_key k len cu =
     cu\<lparr>key_len := (if len = -1 then length (snd k) else nat len), ckey := k\<rparr>"

definition vv_tree_search_f :: "vely_tree_cursor \<Rightarrow> vely_tree \<Rightarrow> ckey \<Rightarrow> int \<Rightarrow> vely_tree_cursor" where
  "vv_tree_search_f cu t k len =
     (let cu1 = set_key k len cu in
      vv_tree_search (VV_TREE_EVAL t cu1) (lesser_node (tree t)) cu1)"

definition vv_tree_search_lesser_equal_f ::
  "vely_tree_cursor \<Rightarrow> vely_tree \<Rightarrow> bool \<Rightarrow> ckey \<Rightarrow> int \<Rightarrow> vely_tree_cursor" where
  "vv_tree_search_lesser_equal_f cu t equal k len =
     (let cu1 = set_key k len cu in
      vv_tree_search_lesser_equal (VV_TREE_EVAL t cu1) (lesser_node (tree t)) equal cu1)"

definition vv_tree_search_greater_equal_f ::
  "vely_tree_cursor \<Rightarrow> vely_tree \<Rightarrow> bool \<Rightarrow> ckey \<Rightarrow> int \<Rightarrow> vely_tree_cursor" where
  "vv_tree_search_greater_equal_f cu t equal k len =
     (let cu1 = set_key k len cu in
      vv_tree_search_greater_equal (VV_TREE_EVAL t cu1) (lesser_node (tree t)) equal cu1)"

definition vv_tree_delete_f :: "vely_tree_cursor \<Rightarrow> vely_tree \<Rightarrow> ckey \<Rightarrow> int \<Rightarrow> tstate" where
  "vv_tree_delete_f cu t k len =
     (let cu1 = set_key k len cu in
      if has_keys (lesser_node (tree t)) then
        (case vv_tree_delete (VV_TREE_EVAL t cu1) (tree t) VV_TREE_LESSER (t, cu1) of
           (p, t1, cu2) \<Rightarrow>
             (let t2 = t1\<lparr>tree := p\<rparr> in
              (if lesser_node p = Null then vv_tree_create_root t2 else t2, cu2)))
      else (t, cu1\<lparr>status := VV_ERR_EXIST\<rparr>))"

text \<open>\<open>pkey\<close> and \<open>pdata\<close> are the flags \<open>vely_mem_process_key\<close> and \<open>vely_mem_process_data\<close>.\<close>

definition vv_tree_insert_f ::
  "bool \<Rightarrow> bool \<Rightarrow> vely_tree_cursor \<Rightarrow> vely_tree \<Rightarrow> ckey \<Rightarrow> int \<Rightarrow> nat \<Rightarrow> mem \<Rightarrow> (tstate \<times> mem) res" where
  "vv_tree_insert_f pkey pdata cu t k len d m =
     (let cu1 = set_key k len cu in
      res_bind (if process t \<and> \<not> pkey then vely_mem_set_process (fst k) m else Inr m) (\<lambda>m1.
      res_bind (if process t \<and> \<not> pdata then vely_mem_set_process d m1 else Inr m1) (\<lambda>m2.
        case vv_tree_insert (VV_TREE_EVAL t cu1) d (tree t) VV_TREE_LESSER (t, cu1) of
          (p, t1, cu2) \<Rightarrow> Inr ((t1\<lparr>tree := p\<rparr>, cu2), m2))))"

text \<open>Purging gives nothing back; a tree with elements is a reported error.\<close>

definition vv_tree_purge_f :: "vely_tree \<Rightarrow> unit res" where
  "vv_tree_purge_f t =
     (if count t \<noteq> 0
      then Inl (Report_error ''Cannot purge non-empty tree. Delete all nodes first.'') else Inr ())"

text \<open>The node a cursor points to, and the statement \<open>use-cursor\<close> that moves a cursor to the next
  lesser or greater key, as the preprocessor v1.c writes it.\<close>

fun node_at :: "nat \<Rightarrow> avl \<Rightarrow> tnode option" where
  "node_at i Null = None"
| "node_at i (Node n l g) =
     (if nid n = i then Some n
      else (case node_at i l of Some m \<Rightarrow> Some m | None \<Rightarrow> node_at i g))"

definition use_cursor :: "tree_dir \<Rightarrow> vely_tree_cursor \<Rightarrow> vely_tree \<Rightarrow> vely_tree_cursor res" where
  "use_cursor dir cu t =
     (case current cu of
        None \<Rightarrow> Inr cu
      | Some i \<Rightarrow>
          (if sorted_tree t then
             (case (if dir = VV_TREE_LESSER then lesser_list t i else greater_list t i) of
                Some j \<Rightarrow> Inr (cu\<lparr>current := Some j, status := VV_OKAY\<rparr>)
              | None \<Rightarrow> Inr (cu\<lparr>status := VV_ERR_EXIST\<rparr>))
           else
             (case node_at i (lesser_node (tree t)) of
                None \<Rightarrow> Inl Out_of_bounds
              | Some n \<Rightarrow>
                  Inr (if dir = VV_TREE_LESSER
                       then vv_tree_search_lesser_equal_f cu t False (key n) (-1)
                       else vv_tree_search_greater_equal_f cu t False (key n) (-1)))))"

section \<open>Balance\<close>

text \<open>A parent with the child in a direction, and the other one.\<close>

fun plug :: "tree_dir \<Rightarrow> tnode \<Rightarrow> avl \<Rightarrow> avl \<Rightarrow> avl" where
  "plug VV_TREE_LESSER n r ot = Node n r ot"
| "plug VV_TREE_GREATER n r ot = Node n ot r"

lemma plug_simps [simp]:
  "child dir (plug dir n r ot) = r" "VV_TREE_SET_PARENT (plug dir n r ot) dir r' = plug dir n r' ot"
  "plug dir n r ot \<noteq> Null" "plug dir n r ot = plug dir n' r' ot' \<longleftrightarrow> n = n' \<and> r = r' \<and> ot = ot'"
  by (cases dir; auto)+

text \<open>Balancing as a function of the child alone.\<close>

fun rot_right :: "avl \<Rightarrow> avl" where
  "rot_right (Node n (Node ln ll lg) g) = Node ln ll (vv_tree_height (Node n lg g))"
| "rot_right t = t"

fun rot_left :: "avl \<Rightarrow> avl" where
  "rot_left (Node n l (Node gn gl gg)) = Node gn (vv_tree_height (Node n l gl)) gg"
| "rot_left t = t"

definition rebalance :: "avl \<Rightarrow> avl" where
  "rebalance t =
     (let t = vv_tree_height t in
      if bal_factor t \<ge> 2 then
        rot_right (case t of Null \<Rightarrow> t | Node n l g \<Rightarrow>
          if height_of (greater_node l) > height_of (lesser_node l) then vv_tree_height (Node n (rot_left l) g) else t)
      else if bal_factor t \<le> -2 then
        rot_left (case t of Null \<Rightarrow> t | Node n l g \<Rightarrow>
          if height_of (lesser_node g) > height_of (greater_node g) then vv_tree_height (Node n l (rot_right g)) else t)
      else t)"

lemma height_plug: "\<exists>h. vv_tree_height (plug dir n t ot) = plug dir (n\<lparr>height := h\<rparr>) t ot"
  by (cases dir) auto

lemma rotate_plug:
  "\<exists>h. vv_tree_rotate_right (plug dir n t ot) dir = plug dir (n\<lparr>height := h\<rparr>) (rot_right t) ot"
  "\<exists>h. vv_tree_rotate_left (plug dir n t ot) dir = plug dir (n\<lparr>height := h\<rparr>) (rot_left t) ot"
proof -
  have n: "\<exists>h. (n::tnode) = n\<lparr>height := h\<rparr>" by (rule exI [of _ "height n"]) simp
  show "\<exists>h. vv_tree_rotate_right (plug dir n t ot) dir = plug dir (n\<lparr>height := h\<rparr>) (rot_right t) ot"
    using height_plug n by (cases t rule: rot_right.cases) (auto simp: vv_tree_rotate_right_def)
  show "\<exists>h. vv_tree_rotate_left (plug dir n t ot) dir = plug dir (n\<lparr>height := h\<rparr>) (rot_left t) ot"
    using height_plug n by (cases t rule: rot_left.cases) (auto simp: vv_tree_rotate_left_def)
qed

lemma rotate_inner:
  "greater_node l \<noteq> Null \<Longrightarrow> vv_tree_rotate_left (Node n l g) VV_TREE_LESSER = vv_tree_height (Node n (rot_left l) g)"
  "lesser_node g \<noteq> Null \<Longrightarrow> vv_tree_rotate_right (Node n l g) VV_TREE_GREATER = vv_tree_height (Node n l (rot_right g))"
  by (cases l rule: rot_left.cases; auto simp: vv_tree_rotate_left_def)
    (cases g rule: rot_right.cases; auto simp: vv_tree_rotate_right_def)

lemma balance_plug: "\<exists>h. vv_tree_balance (plug dir n t ot) dir = plug dir (n\<lparr>height := h\<rparr>) (rebalance t) ot"
proof (cases "vv_tree_height t")
  case Null
  have "n = n\<lparr>height := height n\<rparr>" by simp
  with Null show ?thesis
    by (auto simp: vv_tree_balance_def rebalance_def intro!: exI [of _ "height n"])
next
  case (Node m l g)
  have n: "\<exists>h. (n::tnode) = n\<lparr>height := h\<rparr>" by (rule exI [of _ "height n"]) simp
  have "height_of (lesser_node l) < height_of (greater_node l) \<Longrightarrow> greater_node l \<noteq> Null"
    "height_of (greater_node g) < height_of (lesser_node g) \<Longrightarrow> lesser_node g \<noteq> Null" by auto
  then show ?thesis
    using n rotate_plug by (auto simp: vv_tree_balance_def rebalance_def Node rotate_inner Let_def)
qed

text \<open>The height of a tree as a tree; a tree is \<open>bal\<close> when every node has the right height and is
  balanced, and \<open>bal_root\<close> when only the height in its root may be out of date.\<close>

fun rh :: "avl \<Rightarrow> nat" where
  "rh Null = 0"
| "rh (Node n l g) = max (rh l) (rh g) + 1"

definition close :: "nat \<Rightarrow> nat \<Rightarrow> nat \<Rightarrow> bool" where
  "close k a b \<longleftrightarrow> a \<le> b + k \<and> b \<le> a + k"

fun bal :: "avl \<Rightarrow> bool" where
  "bal Null = True"
| "bal (Node n l g) = (bal l \<and> bal g \<and> close 1 (rh l) (rh g) \<and> height n = rh (Node n l g))"

fun bal_root :: "avl \<Rightarrow> bool" where
  "bal_root Null = True"
| "bal_root (Node n l g) = (bal l \<and> bal g \<and> close 1 (rh l) (rh g))"

lemma bal_height: "bal t \<Longrightarrow> height_of t = rh t"
  by (cases t) auto

lemma bal_imp_root: "bal t \<Longrightarrow> bal_root t"
  by (cases t) auto

lemma rh_eq_0 [simp]: "rh t = 0 \<longleftrightarrow> t = Null"
  by (cases t) auto

text \<open>The nodes in order, without their heights.\<close>

type_synonym item = "nat \<times> ckey \<times> nat"

definition item_of :: "tnode \<Rightarrow> item" where
  "item_of n = (nid n, key n, data n)"

fun items :: "avl \<Rightarrow> item list" where
  "items Null = []"
| "items (Node n l g) = items l @ item_of n # items g"

fun all_keyed :: "avl \<Rightarrow> bool" where
  "all_keyed Null = True"
| "all_keyed (Node n l g) = (key_present n \<and> all_keyed l \<and> all_keyed g)"

lemma item_of_height [simp]: "item_of (n\<lparr>height := h\<rparr>) = item_of n"
  by (simp add: item_of_def)

lemma items_height [simp]: "items (vv_tree_height t) = items t" "all_keyed (vv_tree_height t) = all_keyed t"
  by (cases t; simp)+

lemma items_rotate [simp]:
  "items (rot_right t) = items t" "items (rot_left t) = items t"
  "all_keyed (rot_right t) = all_keyed t" "all_keyed (rot_left t) = all_keyed t"
     apply (cases t rule: rot_right.cases; auto)
    apply (cases t rule: rot_left.cases; auto)
   apply (cases t rule: rot_right.cases; auto)
  apply (cases t rule: rot_left.cases; auto)
  done

lemma items_rebalance [simp]: "items (rebalance t) = items t" "all_keyed (rebalance t) = all_keyed t"
  by (cases t; simp add: rebalance_def Let_def)+

lemma rebalance_Null [simp]: "rebalance Null = Null"
  by (simp add: rebalance_def)

lemma rebalance_not_Null [simp]: "rebalance t = Null \<longleftrightarrow> t = Null"
proof
  show "rebalance t = Null \<Longrightarrow> t = Null"
    using items_rebalance(1) [of t] by (cases t) auto
qed simp

lemma rh_height [simp]: "rh (vv_tree_height t) = rh t"
  by (cases t) auto

lemma bal_height_upd: "bal l \<Longrightarrow> bal g \<Longrightarrow> close 1 (rh l) (rh g) \<Longrightarrow> max (rh l) (rh g) < 127
    \<Longrightarrow> bal (vv_tree_height (Node n l g))"
  by (auto simp: bal_height)

lemma height_set: "bal l \<Longrightarrow> bal g \<Longrightarrow> max (rh l) (rh g) < 127 \<Longrightarrow>
    vv_tree_height (Node n l g) = Node (n\<lparr>height := max (rh l) (rh g) + 1\<rparr>) l g"
  by (auto simp: bal_height)

lemma rot_right_ok:
  assumes "bal ll" "bal lg" "bal g" "rh ll = rh g + 1" "rh lg = rh g \<or> rh lg = rh g + 1" "rh g < 120"
  shows "bal_root (rot_right (Node n (Node ln ll lg) g))
    \<and> rh (rot_right (Node n (Node ln ll lg) g)) = (if rh lg = rh g then rh g + 2 else rh g + 3)"
  using assms by (auto simp: bal_height close_def max_def)

lemma rot_left_ok:
  assumes "bal gg" "bal gl" "bal l" "rh gg = rh l + 1" "rh gl = rh l \<or> rh gl = rh l + 1" "rh l < 120"
  shows "bal_root (rot_left (Node n l (Node gn gl gg)))
    \<and> rh (rot_left (Node n l (Node gn gl gg))) = (if rh gl = rh l then rh l + 2 else rh l + 3)"
  using assms by (auto simp: bal_height close_def max_def)

text \<open>A double rotation.  The height in the node that comes up is out of date and not looked at.\<close>

lemma rot_lr_ok:
  assumes "bal ll" "bal a" "bal b" "bal g" "rh ll = rh g" "max (rh a) (rh b) = rh g" "close 1 (rh a) (rh b)"
    "rh g < 120"
  shows "bal_root (rot_right (vv_tree_height (Node n (rot_left (Node ln ll (Node m a b))) g)))
    \<and> rh (rot_right (vv_tree_height (Node n (rot_left (Node ln ll (Node m a b))) g))) = rh g + 2"
  using assms by (auto simp: bal_height close_def max_def)

lemma rot_rl_ok:
  assumes "bal gg" "bal a" "bal b" "bal l" "rh gg = rh l" "max (rh a) (rh b) = rh l" "close 1 (rh a) (rh b)"
    "rh l < 120"
  shows "bal_root (rot_left (vv_tree_height (Node n l (rot_right (Node gn (Node m a b) gg)))))
    \<and> rh (rot_left (vv_tree_height (Node n l (rot_right (Node gn (Node m a b) gg))))) = rh l + 2"
  using assms by (auto simp: bal_height close_def max_def)

definition rebalanced :: "avl \<Rightarrow> avl \<Rightarrow> bool" where
  "rebalanced t t' \<longleftrightarrow> bal_root t' \<and> rh t' \<le> rh t \<and> rh t \<le> rh t' + 1"

lemma rebalance_right:
  assumes l: "bal l" and g: "bal g" and h: "rh l = rh g + 2" "rh g < 110"
  shows "rebalanced (Node n l g) (rebalance (Node n l g))"
proof -
  obtain ln ll lg where [simp]: "l = Node ln ll lg" using h by (cases l) auto
  have [simp]: "height ln = rh g + 2" "height_of g = rh g" using l g h by (auto simp: bal_height)
  have ll: "bal ll" "bal lg" "close 1 (rh ll) (rh lg)" "max (rh ll) (rh lg) = rh g + 1"
    using l h(1) by auto
  have e: "rebalance (Node n l g) =
      rot_right (if rh lg > rh ll then vv_tree_height (Node (n\<lparr>height := (rh g + 3) mod 128\<rparr>) (rot_left l) g)
                 else Node (n\<lparr>height := (rh g + 3) mod 128\<rparr>) l g)"
    using ll h by (simp add: rebalance_def bal_height Let_def)
  show ?thesis
  proof (cases "rh lg > rh ll")
    case True
    then obtain m a b where m: "lg = Node m a b" by (cases lg) auto
    have "rh ll = rh g" "max (rh a) (rh b) = rh g" "bal a" "bal b" "close 1 (rh a) (rh b)"
      using True ll by (auto simp: m close_def max_def split: if_splits)
    then have "bal_root (rebalance (Node n l g)) \<and> rh (rebalance (Node n l g)) = rh g + 2"
      unfolding e if_P [OF True] unfolding m \<open>l = Node ln ll lg\<close>
      by (intro rot_lr_ok) (use ll(1) g h in auto)
    then show ?thesis using h by (auto simp only: rebalanced_def rh.simps max_def split: if_splits)
  next
    case False
    then have "rh ll = rh g + 1" "rh lg = rh g \<or> rh lg = rh g + 1"
      using ll(3,4) by (auto simp: close_def)
    then have "bal_root (rebalance (Node n l g))
        \<and> rh (rebalance (Node n l g)) = (if rh lg = rh g then rh g + 2 else rh g + 3)"
      unfolding e if_not_P [OF False] unfolding \<open>l = Node ln ll lg\<close>
      by (intro rot_right_ok) (use ll(1,2) g h in auto)
    then show ?thesis using h by (auto simp only: rebalanced_def rh.simps max_def split: if_splits)
  qed
qed

lemma rebalance_left:
  assumes l: "bal l" and g: "bal g" and h: "rh g = rh l + 2" "rh l < 110"
  shows "rebalanced (Node n l g) (rebalance (Node n l g))"
proof -
  obtain gn gl gg where [simp]: "g = Node gn gl gg" using h by (cases g) auto
  have [simp]: "height gn = rh l + 2" "height_of l = rh l" using l g h by (auto simp: bal_height)
  have gg: "bal gl" "bal gg" "close 1 (rh gl) (rh gg)" "max (rh gl) (rh gg) = rh l + 1"
    using g h(1) by auto
  have e: "rebalance (Node n l g) =
      rot_left (if rh gl > rh gg then vv_tree_height (Node (n\<lparr>height := (rh l + 3) mod 128\<rparr>) l (rot_right g))
                else Node (n\<lparr>height := (rh l + 3) mod 128\<rparr>) l g)"
    using gg h by (simp add: rebalance_def bal_height Let_def)
  show ?thesis
  proof (cases "rh gl > rh gg")
    case True
    then obtain m a b where m: "gl = Node m a b" by (cases gl) auto
    have "rh gg = rh l" "max (rh a) (rh b) = rh l" "bal a" "bal b" "close 1 (rh a) (rh b)"
      using True gg by (auto simp: m close_def max_def split: if_splits)
    then have "bal_root (rebalance (Node n l g)) \<and> rh (rebalance (Node n l g)) = rh l + 2"
      unfolding e if_P [OF True] unfolding m \<open>g = Node gn gl gg\<close>
      by (intro rot_rl_ok) (use gg(2) l h in auto)
    then show ?thesis using h by (auto simp only: rebalanced_def rh.simps max_def split: if_splits)
  next
    case False
    then have "rh gg = rh l + 1" "rh gl = rh l \<or> rh gl = rh l + 1"
      using gg(3,4) by (auto simp: close_def)
    then have "bal_root (rebalance (Node n l g))
        \<and> rh (rebalance (Node n l g)) = (if rh gl = rh l then rh l + 2 else rh l + 3)"
      unfolding e if_not_P [OF False] unfolding \<open>g = Node gn gl gg\<close>
      by (intro rot_left_ok) (use gg(1,2) l h in auto)
    then show ?thesis using h by (auto simp only: rebalanced_def rh.simps max_def split: if_splits)
  qed
qed

lemma rebalance_fix:
  assumes "bal_root t" "rh t < 120"
  shows "bal (rebalance t) \<and> rh (rebalance t) = rh t"
proof (cases t)
  case (Node n l g)
  then have "rebalance t = vv_tree_height t"
    using assms by (auto simp: rebalance_def bal_height close_def)
  then show ?thesis using assms Node by (simp only: rh_height) (auto simp: bal_height)
qed simp

lemma rebalance_ok:
  assumes "bal l" "bal g" "close 2 (rh l) (rh g)" "rh (Node n l g) < 110"
  shows "rebalanced (Node n l g) (rebalance (Node n l g))"
proof -
  consider "close 1 (rh l) (rh g)" | "rh l = rh g + 2" | "rh g = rh l + 2"
    using assms(3) by (fastforce simp: close_def)
  then show ?thesis
  proof cases
    case 1
    then show ?thesis
      using rebalance_fix [of "Node n l g"] assms bal_imp_root by (auto simp: rebalanced_def)
  next
    case 2
    then show ?thesis using rebalance_right assms by simp
  next
    case 3
    then show ?thesis using rebalance_left assms by simp
  qed
qed

text \<open>A balanced tree has enough nodes for its height.\<close>

lemma bal_size: "bal t \<Longrightarrow> 2 ^ (rh t div 2) \<le> length (items t) + 1"
proof (induction t)
  case (Node n l g)
  have *: "2 ^ (rh a div 2) \<le> length (items a) + 1 \<Longrightarrow> close 1 (rh a) (rh b) \<Longrightarrow>
      2 ^ (rh b div 2) \<le> length (items b) + 1 \<Longrightarrow> rh b \<le> rh a \<Longrightarrow>
      2 ^ (Suc (rh a) div 2) \<le> length (items a) + length (items b) + 2" for a b
  proof -
    assume a: "2 ^ (rh a div 2) \<le> length (items a) + 1" "2 ^ (rh b div 2) \<le> length (items b) + 1"
      "close 1 (rh a) (rh b)" "rh b \<le> rh a"
    then have "Suc (rh a) div 2 \<le> rh b div 2 + 1" by (auto simp: close_def)
    then have "(2::nat) ^ (Suc (rh a) div 2) \<le> 2 ^ (rh b div 2 + 1)" by (intro power_increasing) auto
    moreover have "(2::nat) ^ (rh b div 2) \<le> 2 ^ (rh a div 2)" using a(4) by (intro power_increasing div_le_mono) auto
    ultimately show ?thesis using a(1,2) by (simp only: power_add power_one_right)
  qed
  show ?case
    using Node * [of l g] * [of g l] by (cases "rh l \<le> rh g") (auto simp: max_def close_def)
qed simp

section \<open>The sorted list\<close>

definition head_opt :: "'a list \<Rightarrow> 'a option" where
  "head_opt xs = (case xs of [] \<Rightarrow> None | x # _ \<Rightarrow> Some x)"

definition last_opt :: "'a list \<Rightarrow> 'a option" where
  "last_opt xs = head_opt (rev xs)"

lemma head_opt_simps [simp]:
  "head_opt [] = None" "head_opt (x # xs) = Some x" "last_opt [] = None" "last_opt (xs @ [x]) = Some x"
  "last_opt [x] = Some x" "head_opt xs = None \<longleftrightarrow> xs = []" "last_opt xs = None \<longleftrightarrow> xs = []"
  by (auto simp: head_opt_def last_opt_def split: list.splits)

lemma head_opt_append: "head_opt (xs @ ys) = (if xs = [] then head_opt ys else head_opt xs)"
  by (cases xs) auto

lemma last_opt_append: "last_opt (xs @ ys) = (if ys = [] then last_opt xs else last_opt ys)"
  by (simp add: last_opt_def head_opt_append)

lemma last_opt_Cons [simp]: "last_opt (x # xs) = (if xs = [] then Some x else last_opt xs)"
  using last_opt_append [of "[x]" xs] by simp

lemma opt_in: "head_opt xs = Some x \<Longrightarrow> x \<in> set xs" "last_opt xs = Some x \<Longrightarrow> x \<in> set xs"
  by (auto simp: head_opt_def last_opt_def split: list.splits)

text \<open>The element after a given one, in a list without repetition.\<close>

fun next_in :: "'a list \<Rightarrow> 'a \<Rightarrow> 'a option" where
  "next_in [] x = None"
| "next_in (y # ys) x = (if x = y then head_opt ys else next_in ys x)"

definition follows :: "('a \<Rightarrow> 'a option) \<Rightarrow> 'a list \<Rightarrow> bool" where
  "follows f xs \<longleftrightarrow> (\<forall>x\<in>set xs. f x = next_in xs x)"

definition upd :: "('a \<Rightarrow> 'b) \<Rightarrow> 'a option \<Rightarrow> 'b \<Rightarrow> 'a \<Rightarrow> 'b" where
  "upd f i v = (case i of None \<Rightarrow> f | Some i \<Rightarrow> f(i := v))"

lemma next_in_insert:
  "distinct (xs @ c # ys) \<Longrightarrow>
     next_in (xs @ c # ys) x = ((upd (next_in (xs @ ys)) (last_opt xs) (Some c))(c := head_opt ys)) x"
proof (induction xs)
  case (Cons z zs)
  then have "last_opt zs \<noteq> Some z" "last_opt zs \<noteq> Some c" using opt_in(2) [of zs] by auto
  then show ?case using Cons by (auto simp: upd_def head_opt_append split: option.splits)
qed (simp add: upd_def)

lemma next_in_remove:
  "distinct (xs @ c # ys) \<Longrightarrow> x \<noteq> c \<Longrightarrow>
     next_in (xs @ ys) x = upd (next_in (xs @ c # ys)) (last_opt xs) (head_opt ys) x"
proof (induction xs)
  case (Cons z zs)
  then have "last_opt zs \<noteq> Some z" using opt_in(2) [of zs] by auto
  then show ?case using Cons by (auto simp: upd_def head_opt_append split: option.splits)
qed (simp add: upd_def)

lemma follows_insert:
  assumes "follows f (xs @ ys)" "distinct (xs @ c # ys)"
  shows "follows ((upd f (last_opt xs) (Some c))(c := head_opt ys)) (xs @ c # ys)"
  using assms(1) opt_in(2) [of xs]
  by (auto simp: follows_def next_in_insert [OF assms(2)] upd_def split: option.splits)

lemma follows_remove:
  assumes "follows f (xs @ c # ys)" "distinct (xs @ c # ys)"
  shows "follows (upd f (last_opt xs) (head_opt ys)) (xs @ ys)"
proof -
  have "x \<in> set (xs @ ys) \<Longrightarrow> x \<noteq> c" for x using assms(2) by auto
  then show ?thesis using assms(1) next_in_remove [OF assms(2)]
    by (auto simp: follows_def upd_def split: option.splits)
qed

lemma next_in_middle: "c \<notin> set xs \<Longrightarrow> next_in (xs @ c # ys) c = head_opt ys"
  by (induction xs) auto

lemma follows_at: "follows f (xs @ c # ys) \<Longrightarrow> c \<notin> set xs \<Longrightarrow> f c = head_opt ys"
  by (simp add: follows_def next_in_middle)

text \<open>Both directions.\<close>

definition linked :: "('a \<Rightarrow> 'a option) \<Rightarrow> ('a \<Rightarrow> 'a option) \<Rightarrow> 'a list \<Rightarrow> bool" where
  "linked ll gl xs \<longleftrightarrow> follows gl xs \<and> follows ll (rev xs)"

lemma linked_at:
  assumes "linked ll gl (xs @ c # ys)" "distinct (xs @ c # ys)"
  shows "gl c = head_opt ys" "ll c = last_opt xs"
  using assms follows_at [of gl xs c ys] follows_at [of ll "rev ys" c "rev xs"]
  by (auto simp: linked_def last_opt_def)

lemma linked_insert:
  assumes "linked ll gl (xs @ ys)" "distinct (xs @ c # ys)"
  shows "linked ((upd ll (head_opt ys) (Some c))(c := last_opt xs))
    ((upd gl (last_opt xs) (Some c))(c := head_opt ys)) (xs @ c # ys)"
  using assms follows_insert [of gl xs ys c] follows_insert [of ll "rev ys" "rev xs" c]
  by (auto simp: linked_def last_opt_def)

lemma linked_remove:
  assumes "linked ll gl (xs @ c # ys)" "distinct (xs @ c # ys)"
  shows "linked (upd ll (head_opt ys) (last_opt xs)) (upd gl (last_opt xs) (head_opt ys)) (xs @ ys)"
  using assms follows_remove [of gl xs c ys] follows_remove [of ll "rev ys" c "rev xs"]
  by (auto simp: linked_def last_opt_def)

lemma linked_cong: "(\<And>x. x \<in> set xs \<Longrightarrow> ll x = ll' x \<and> gl x = gl' x) \<Longrightarrow> linked ll gl xs = linked ll' gl' xs"
  by (simp add: linked_def follows_def)

definition links_ok :: "vely_tree \<Rightarrow> nat list \<Rightarrow> bool" where
  "links_ok t ids \<longleftrightarrow>
     (sorted_tree t \<longrightarrow> linked (lesser_list t) (greater_list t) ids \<and> mn t = head_opt ids \<and> mx t = last_opt ids)"

definition same_kind :: "vely_tree \<Rightarrow> vely_tree \<Rightarrow> bool" where
  "same_kind t t' \<longleftrightarrow> eval t' = eval t \<and> key_type t' = key_type t \<and> sorted_tree t' = sorted_tree t
     \<and> process t' = process t \<and> tree t' = tree t"

lemma same_kind_refl [simp]: "same_kind t t"
  by (simp add: same_kind_def)

text \<open>One more node with the cursor's key.\<close>

definition one_more :: "nat \<Rightarrow> tstate \<Rightarrow> tstate \<Rightarrow> bool" where
  "one_more d s s' \<longleftrightarrow> same_kind (fst s) (fst s') \<and> count (fst s') = count (fst s) + 1
     \<and> fresh (fst s') = fresh (fst s) + 1
     \<and> snd s' = (snd s)\<lparr>current := Some (fresh (fst s)), status := VV_OKAY\<rparr>"

lemma upd_simps [simp]: "upd f None v = f" "upd f (Some i) v = f(i := v)"
  by (simp_all add: upd_def)

lemma set_links:
  "set_lesser i v t = t\<lparr>lesser_list := upd (lesser_list t) i v\<rparr>"
  "set_greater i v t = t\<lparr>greater_list := upd (greater_list t) i v\<rparr>"
  by (auto simp: set_lesser_def set_greater_def split: option.split)

lemma upd_apply: "upd f i v x = (if i = Some x then v else f x)"
  by (cases i) auto

lemma linked_fresh:
  assumes l: "linked ll gl (xs @ ys)" "distinct (xs @ c # ys)"
    and ll: "\<And>x. ll' x = (if x = c then last_opt xs else if head_opt ys = Some x then Some c else ll x)"
    and gl: "\<And>x. gl' x = (if x = c then head_opt ys else if last_opt xs = Some x then Some c else gl x)"
  shows "linked ll' gl' (xs @ c # ys)"
proof -
  have "ll' = (upd ll (head_opt ys) (Some c))(c := last_opt xs)"
    "gl' = (upd gl (last_opt xs) (Some c))(c := head_opt ys)"
    by (auto simp: fun_eq_iff ll gl upd_apply)
  then show ?thesis using linked_insert [OF l] by simp
qed

lemma new_lesser_fill:
  assumes n: "new_lesser n t = (c, t1)" and f: "fill_node d c (t1, cu) = (c1, s2)"
    and l: "links_ok t (xs @ nid n # ys)" and di: "distinct (xs @ nid n # ys)" "fresh t \<notin> set (xs @ nid n # ys)"
  shows "one_more d (t, cu) s2 \<and> item_of c1 = (fresh t, ckey cu, d) \<and> height c1 = 1 \<and> key_present c1
    \<and> links_ok (fst s2) (xs @ fresh t # nid n # ys)"
proof (cases "sorted_tree t")
  case False
  then show ?thesis using n f
    by (auto simp: new_lesser_def fill_node_def vv_tree_node_create_def one_more_def same_kind_def
        item_of_def links_ok_def)
next
  case True
  note a = linked_at [of "lesser_list t" "greater_list t" xs "nid n" ys]
  have l2: "linked (lesser_list t) (greater_list t) (xs @ nid n # ys)" "mn t = head_opt (xs @ nid n # ys)"
      "mx t = last_opt (xs @ nid n # ys)"
    using l True by (auto simp: links_ok_def)
  have a2: "lesser_list t (nid n) = last_opt xs" "greater_list t (nid n) = head_opt ys"
    using linked_at [OF l2(1) di(1)] by auto
  have ne: "last_opt xs \<noteq> Some (fresh t)" "last_opt xs \<noteq> Some (nid n)" "nid n \<noteq> fresh t"
    using di opt_in(2) [of xs] by auto
  have li: "linked ((lesser_list t)(nid n := Some (fresh t), fresh t := last_opt xs))
      (upd ((greater_list t)(fresh t := Some (nid n))) (last_opt xs) (Some (fresh t))) (xs @ fresh t # nid n # ys)"
    by (rule linked_fresh [OF l2(1)]) (use di ne in \<open>auto simp: upd_apply\<close>)
  have e: "nid c = fresh t" "t1 = t\<lparr>fresh := fresh t + 1,
      lesser_list := (lesser_list t)(nid n := Some (fresh t), fresh t := last_opt xs),
      greater_list := upd ((greater_list t)(fresh t := Some (nid n))) (last_opt xs) (Some (fresh t))\<rparr>"
    using n True ne
    by (auto simp: new_lesser_def vv_tree_node_create_def set_links Let_def a2 fun_eq_iff upd_apply)
  have h: "head_opt (xs @ fresh t # nid n # ys) = (if xs = [] then Some (fresh t) else mn t)"
      "last_opt (xs @ fresh t # nid n # ys) = mx t"
    using l2(2,3) by (auto simp: head_opt_append last_opt_append)
  show ?thesis using f True li ne
    by (auto simp: fill_node_def e one_more_def same_kind_def item_of_def links_ok_def h upd_apply Let_def
        split: if_splits)
qed

lemma new_greater_fill:
  assumes n: "new_greater n t = (c, t1)" and f: "fill_node d c (t1, cu) = (c1, s2)"
    and l: "links_ok t (xs @ nid n # ys)" and di: "distinct (xs @ nid n # ys)" "fresh t \<notin> set (xs @ nid n # ys)"
  shows "one_more d (t, cu) s2 \<and> item_of c1 = (fresh t, ckey cu, d) \<and> height c1 = 1 \<and> key_present c1
    \<and> links_ok (fst s2) (xs @ nid n # fresh t # ys)"
proof (cases "sorted_tree t")
  case False
  then show ?thesis using n f
    by (auto simp: new_greater_def fill_node_def vv_tree_node_create_def one_more_def same_kind_def
        item_of_def links_ok_def)
next
  case True
  have l2: "linked (lesser_list t) (greater_list t) (xs @ nid n # ys)" "mn t = head_opt (xs @ nid n # ys)"
      "mx t = last_opt (xs @ nid n # ys)"
    using l True by (auto simp: links_ok_def)
  have a2: "lesser_list t (nid n) = last_opt xs" "greater_list t (nid n) = head_opt ys"
    using linked_at [OF l2(1) di(1)] by auto
  have ne: "head_opt ys \<noteq> Some (fresh t)" "head_opt ys \<noteq> Some (nid n)" "nid n \<noteq> fresh t"
    using di opt_in(1) [of ys] by auto
  have l3: "linked (lesser_list t) (greater_list t) ((xs @ [nid n]) @ ys)" using l2(1) by simp
  have li: "linked (upd ((lesser_list t)(fresh t := Some (nid n))) (head_opt ys) (Some (fresh t)))
      ((greater_list t)(nid n := Some (fresh t), fresh t := head_opt ys)) ((xs @ [nid n]) @ fresh t # ys)"
    by (rule linked_fresh [OF l3]) (use di ne in \<open>auto simp: upd_apply\<close>)
  have e: "nid c = fresh t" "t1 = t\<lparr>fresh := fresh t + 1,
      greater_list := (greater_list t)(nid n := Some (fresh t), fresh t := head_opt ys),
      lesser_list := upd ((lesser_list t)(fresh t := Some (nid n))) (head_opt ys) (Some (fresh t))\<rparr>"
    using n True ne
    by (auto simp: new_greater_def vv_tree_node_create_def set_links Let_def a2 fun_eq_iff upd_apply)
  have h: "last_opt (xs @ nid n # fresh t # ys) = (if ys = [] then Some (fresh t) else mx t)"
      "head_opt (xs @ nid n # fresh t # ys) = mn t"
    using l2(2,3) by (auto simp: head_opt_append last_opt_append)
  show ?thesis using f True li ne
    by (auto simp: fill_node_def e one_more_def same_kind_def item_of_def links_ok_def h upd_apply Let_def
        split: if_splits)
qed

section \<open>Insertion keeps order and balance\<close>

fun ikey :: "item \<Rightarrow> string" where
  "ikey (i, k, d) = snd k"

lemma ikey_item [simp]: "ikey (item_of n) = snd (key n)" "fst (item_of n) = nid n"
  by (simp_all add: item_of_def)

text \<open>An evaluation is positive up to some place, and negative after it.\<close>

definition cuts :: "(string \<Rightarrow> int) \<Rightarrow> item list \<Rightarrow> bool" where
  "cuts ev es \<longleftrightarrow> sorted_wrt (\<lambda>x y. ev (ikey y) \<ge> 0 \<longrightarrow> ev (ikey x) > 0) es"

definition below :: "(string \<Rightarrow> int) \<Rightarrow> item list \<Rightarrow> item list" where
  "below ev es = [e\<leftarrow>es. ev (ikey e) > 0]"

definition above :: "(string \<Rightarrow> int) \<Rightarrow> item list \<Rightarrow> item list" where
  "above ev es = [e\<leftarrow>es. ev (ikey e) < 0]"

definition hit :: "(string \<Rightarrow> int) \<Rightarrow> item list \<Rightarrow> item option" where
  "hit ev es = List.find (\<lambda>e. ev (ikey e) = 0) es"

lemma cuts_append: "cuts ev (es @ x # fs) \<longleftrightarrow> cuts ev es \<and> cuts ev fs
    \<and> (ev (ikey x) \<ge> 0 \<longrightarrow> (\<forall>e\<in>set es. ev (ikey e) > 0))
    \<and> (\<forall>e\<in>set fs. ev (ikey e) \<ge> 0 \<longrightarrow> ev (ikey x) > 0 \<and> (\<forall>e'\<in>set es. ev (ikey e') > 0))"
  by (auto simp: cuts_def sorted_wrt_append)

lemma below_append [simp]: "below ev (es @ fs) = below ev es @ below ev fs"
  "below ev (x # es) = (if ev (ikey x) > 0 then x # below ev es else below ev es)" "below ev [] = []"
  by (simp_all add: below_def)

lemma above_append [simp]: "above ev (es @ fs) = above ev es @ above ev fs"
  "above ev (x # es) = (if ev (ikey x) < 0 then x # above ev es else above ev es)" "above ev [] = []"
  by (simp_all add: above_def)

lemma below_all: "\<forall>e\<in>set es. ev (ikey e) > 0 \<Longrightarrow> below ev es = es \<and> above ev es = []"
  by (auto simp: below_def above_def filter_id_conv filter_empty_conv)

lemma above_all: "\<forall>e\<in>set es. ev (ikey e) < 0 \<Longrightarrow> above ev es = es \<and> below ev es = []"
  by (auto simp: below_def above_def filter_id_conv filter_empty_conv)

lemma hit_append [simp]: "hit ev (es @ fs) = (case hit ev es of None \<Rightarrow> hit ev fs | Some e \<Rightarrow> Some e)"
  "hit ev (x # es) = (if ev (ikey x) = 0 then Some x else hit ev es)" "hit ev [] = None"
  by (induction es) (auto simp: hit_def)

lemma hit_None: "hit ev es = None \<longleftrightarrow> (\<forall>e\<in>set es. ev (ikey e) \<noteq> 0)"
  unfolding hit_def find_None_iff by blast

lemma cuts_lesser:
  assumes "cuts ev (es @ x # fs)" "ev (ikey x) < 0"
  shows "cuts ev es" "above ev fs = fs" "below ev fs = []" "hit ev fs = None"
proof -
  have "\<forall>e\<in>set fs. ev (ikey e) < 0" using assms by (fastforce simp: cuts_append)
  then show "cuts ev es" "above ev fs = fs" "below ev fs = []" "hit ev fs = None"
    using assms above_all [of fs ev] by (auto simp: cuts_append hit_None)
qed

lemma cuts_greater:
  assumes "cuts ev (es @ x # fs)" "ev (ikey x) > 0"
  shows "cuts ev fs" "below ev es = es" "above ev es = []" "hit ev es = None"
proof -
  have "\<forall>e\<in>set es. ev (ikey e) > 0" using assms by (auto simp: cuts_append)
  then show "cuts ev fs" "below ev es = es" "above ev es = []" "hit ev es = None"
    using assms below_all [of es ev] by (auto simp: cuts_append hit_None)
qed

text \<open>What an insertion into the child of a node does.\<close>

definition inserted :: "(string \<Rightarrow> int) \<Rightarrow> nat \<Rightarrow> avl \<Rightarrow> avl \<Rightarrow> tstate \<Rightarrow> tstate \<Rightarrow> nat list \<Rightarrow> nat list \<Rightarrow> bool" where
  "inserted ev d t t' s s' xs ys \<longleftrightarrow> t' \<noteq> Null \<and> all_keyed t'
     \<and> (if hit ev (items t) \<noteq> None
        then items t' = items t \<and> s' = (fst s, (snd s)\<lparr>status := VV_ERR_EXIST\<rparr>)
        else items t' = below ev (items t) @ (fresh (fst s), ckey (snd s), d) # above ev (items t)
          \<and> one_more d s s' \<and> links_ok (fst s') (xs @ map fst (items t') @ ys))
     \<and> (bal_root t \<and> rh t < 105 \<longrightarrow> bal_root t' \<and> (rh t' = rh t \<or> rh t' = rh t + 1))"

lemma insert_new_node:
  assumes "\<not> key_present c"
  shows "vv_tree_insert ev d (plug dir m (Node c Null Null) ot) dir s
    = (case fill_node d c s of (c1, s1) \<Rightarrow> (plug dir m (Node c1 Null Null) ot, s1))"
  using assms by (simp add: vv_tree_insert.simps)

text \<open>Coming back up: the child is balanced, and then the node itself.\<close>

lemma balance_up:
  assumes b: "bal_root (Node m l g)" "rh (Node m l g) < 105"
  shows "bal_root l' \<Longrightarrow> rh l' = rh l \<or> rh l' = rh l + 1 \<Longrightarrow>
      bal_root (rebalance (Node m' (rebalance l') g))
      \<and> (rh (rebalance (Node m' (rebalance l') g)) = rh (Node m l g)
         \<or> rh (rebalance (Node m' (rebalance l') g)) = rh (Node m l g) + 1)"
    and "bal_root g' \<Longrightarrow> rh g' = rh g \<or> rh g' = rh g + 1 \<Longrightarrow>
      bal_root (rebalance (Node m' l (rebalance g')))
      \<and> (rh (rebalance (Node m' l (rebalance g'))) = rh (Node m l g)
         \<or> rh (rebalance (Node m' l (rebalance g'))) = rh (Node m l g) + 1)"
proof -
  have lg: "bal l" "bal g" "close 1 (rh l) (rh g)" "rh l < 104" "rh g < 104" using b by auto
  show "bal_root (rebalance (Node m' (rebalance l') g))
      \<and> (rh (rebalance (Node m' (rebalance l') g)) = rh (Node m l g)
         \<or> rh (rebalance (Node m' (rebalance l') g)) = rh (Node m l g) + 1)"
    if l': "bal_root l'" "rh l' = rh l \<or> rh l' = rh l + 1"
  proof -
    let ?l = "rebalance l'"
    have f: "bal ?l" "rh ?l = rh l'" using rebalance_fix [OF l'(1)] l'(2) lg(4) by auto
    show ?thesis
    proof (cases "close 1 (rh ?l) (rh g)")
      case True
      have r: "rh (Node m' ?l g) = rh (Node m l g) \<or> rh (Node m' ?l g) = rh (Node m l g) + 1"
        using l'(2) f(2) by auto
      have "bal_root (Node m' ?l g)" using True f(1) lg(2) by simp
      then have "bal (rebalance (Node m' ?l g)) \<and> rh (rebalance (Node m' ?l g)) = rh (Node m' ?l g)"
        by (rule rebalance_fix) (use r b(2) in linarith)
      then show ?thesis using r bal_imp_root by metis
    next
      case False
      then have "rh ?l = rh g + 2" using l'(2) f(2) lg(3) by (auto simp: close_def)
      then have "rebalanced (Node m' ?l g) (rebalance (Node m' ?l g))" "rh (Node m' ?l g) = rh (Node m l g) + 1"
        using rebalance_ok [of ?l g m'] f lg l'(2) by (auto simp: close_def max_def)
      then show ?thesis by (auto simp only: rebalanced_def)
    qed
  qed
  show "bal_root (rebalance (Node m' l (rebalance g')))
      \<and> (rh (rebalance (Node m' l (rebalance g'))) = rh (Node m l g)
         \<or> rh (rebalance (Node m' l (rebalance g'))) = rh (Node m l g) + 1)"
    if g': "bal_root g'" "rh g' = rh g \<or> rh g' = rh g + 1"
  proof -
    let ?g = "rebalance g'"
    have f: "bal ?g" "rh ?g = rh g'" using rebalance_fix [OF g'(1)] g'(2) lg(5) by auto
    show ?thesis
    proof (cases "close 1 (rh l) (rh ?g)")
      case True
      have r: "rh (Node m' l ?g) = rh (Node m l g) \<or> rh (Node m' l ?g) = rh (Node m l g) + 1"
        using g'(2) f(2) by auto
      have "bal_root (Node m' l ?g)" using True f(1) lg(1) by simp
      then have "bal (rebalance (Node m' l ?g)) \<and> rh (rebalance (Node m' l ?g)) = rh (Node m' l ?g)"
        by (rule rebalance_fix) (use r b(2) in linarith)
      then show ?thesis using r bal_imp_root by metis
    next
      case False
      then have "rh ?g = rh l + 2" using g'(2) f(2) lg(3) by (auto simp: close_def)
      then have "rebalanced (Node m' l ?g) (rebalance (Node m' l ?g))" "rh (Node m' l ?g) = rh (Node m l g) + 1"
        using rebalance_ok [of l ?g m'] f lg g'(2) by (auto simp: close_def max_def)
      then show ?thesis by (auto simp only: rebalanced_def)
    qed
  qed
qed

lemma plug_lesser: "Node m l g = plug VV_TREE_LESSER m l g"
  and plug_greater: "Node m l g = plug VV_TREE_GREATER m g l"
  by simp_all

text \<open>One turn of the code in the four situations of a node with a key.\<close>

lemma insert_turn:
  assumes "key_present m"
  shows "ev (snd (key m)) = 0 \<Longrightarrow> vv_tree_insert ev d (plug dir n (Node m l g) ot) dir s
      = (plug dir n (Node m l g) ot, fst s, (snd s)\<lparr>status := VV_ERR_EXIST\<rparr>)"
    and "ev (snd (key m)) < 0 \<Longrightarrow> l = Null \<Longrightarrow> new_lesser m (fst s) = (c, t1) \<Longrightarrow>
      fill_node d c (t1, snd s) = (c1, s2) \<Longrightarrow>
      vv_tree_insert ev d (plug dir n (Node m l g) ot) dir s = (plug dir n (Node m (Node c1 Null Null) g) ot, s2)"
    and "ev (snd (key m)) > 0 \<Longrightarrow> g = Null \<Longrightarrow> new_greater m (fst s) = (c, t1) \<Longrightarrow>
      fill_node d c (t1, snd s) = (c1, s2) \<Longrightarrow>
      vv_tree_insert ev d (plug dir n (Node m l g) ot) dir s = (plug dir n (Node m l (Node c1 Null Null)) ot, s2)"
    and "ev (snd (key m)) < 0 \<Longrightarrow> l \<noteq> Null \<Longrightarrow>
      vv_tree_insert ev d (Node m l g) VV_TREE_LESSER s = (plug VV_TREE_LESSER (m\<lparr>height := h\<rparr>) l' g, s2) \<Longrightarrow>
      \<exists>h1 h2. vv_tree_insert ev d (plug dir n (Node m l g) ot) dir s
        = (plug dir (n\<lparr>height := h1\<rparr>) (rebalance (Node (m\<lparr>height := h2\<rparr>) (rebalance l') g)) ot, s2)"
    and "ev (snd (key m)) > 0 \<Longrightarrow> g \<noteq> Null \<Longrightarrow>
      vv_tree_insert ev d (Node m l g) VV_TREE_GREATER s = (plug VV_TREE_GREATER (m\<lparr>height := h\<rparr>) g' l, s2) \<Longrightarrow>
      \<exists>h1 h2. vv_tree_insert ev d (plug dir n (Node m l g) ot) dir s
        = (plug dir (n\<lparr>height := h1\<rparr>) (rebalance (Node (m\<lparr>height := h2\<rparr>) l (rebalance g'))) ot, s2)"
proof -
  show "ev (snd (key m)) = 0 \<Longrightarrow> vv_tree_insert ev d (plug dir n (Node m l g) ot) dir s
      = (plug dir n (Node m l g) ot, fst s, (snd s)\<lparr>status := VV_ERR_EXIST\<rparr>)"
    using assms by (simp add: vv_tree_insert.simps)
  show "vv_tree_insert ev d (plug dir n (Node m l g) ot) dir s
      = (plug dir n (Node m (Node c1 Null Null) g) ot, s2)"
    if "ev (snd (key m)) < 0" "l = Null" "new_lesser m (fst s) = (c, t1)" "fill_node d c (t1, snd s) = (c1, s2)"
    using that assms insert_new_node [OF new_key_absent(1), of c t1 m "fst s" ev d VV_TREE_LESSER m g "(t1, snd s)"]
    by (subst vv_tree_insert.simps) simp
  show "vv_tree_insert ev d (plug dir n (Node m l g) ot) dir s
      = (plug dir n (Node m l (Node c1 Null Null)) ot, s2)"
    if "ev (snd (key m)) > 0" "g = Null" "new_greater m (fst s) = (c, t1)" "fill_node d c (t1, snd s) = (c1, s2)"
    using that assms insert_new_node [OF new_key_absent(2), of c t1 m "fst s" ev d VV_TREE_GREATER m l "(t1, snd s)"]
    by (subst vv_tree_insert.simps) simp
  show "\<exists>h1 h2. vv_tree_insert ev d (plug dir n (Node m l g) ot) dir s
      = (plug dir (n\<lparr>height := h1\<rparr>) (rebalance (Node (m\<lparr>height := h2\<rparr>) (rebalance l') g)) ot, s2)"
    if r: "ev (snd (key m)) < 0" "l \<noteq> Null"
      "vv_tree_insert ev d (Node m l g) VV_TREE_LESSER s = (plug VV_TREE_LESSER (m\<lparr>height := h\<rparr>) l' g, s2)"
  proof -
    obtain h2 where "vv_tree_balance (plug VV_TREE_LESSER (m\<lparr>height := h\<rparr>) l' g) VV_TREE_LESSER
        = Node (m\<lparr>height := h2\<rparr>) (rebalance l') g"
      using balance_plug [of VV_TREE_LESSER "m\<lparr>height := h\<rparr>" l' g] by auto
    then show ?thesis
      using r assms balance_plug [of dir n "Node (m\<lparr>height := h2\<rparr>) (rebalance l') g" ot]
      by (auto simp: vv_tree_insert.simps [of ev d "plug dir n (Node m l g) ot"] simp del: plug.simps)
  qed
  show "\<exists>h1 h2. vv_tree_insert ev d (plug dir n (Node m l g) ot) dir s
      = (plug dir (n\<lparr>height := h1\<rparr>) (rebalance (Node (m\<lparr>height := h2\<rparr>) l (rebalance g'))) ot, s2)"
    if r: "ev (snd (key m)) > 0" "g \<noteq> Null"
      "vv_tree_insert ev d (Node m l g) VV_TREE_GREATER s = (plug VV_TREE_GREATER (m\<lparr>height := h\<rparr>) g' l, s2)"
  proof -
    obtain h2 where "vv_tree_balance (plug VV_TREE_GREATER (m\<lparr>height := h\<rparr>) g' l) VV_TREE_GREATER
        = Node (m\<lparr>height := h2\<rparr>) l (rebalance g')"
      using balance_plug [of VV_TREE_GREATER "m\<lparr>height := h\<rparr>" g' l] by auto
    then show ?thesis
      using r assms balance_plug [of dir n "Node (m\<lparr>height := h2\<rparr>) l (rebalance g')" ot]
      by (auto simp: vv_tree_insert.simps [of ev d "plug dir n (Node m l g) ot"] simp del: plug.simps)
  qed
qed

lemma one_more_simps: "one_more d s s' \<Longrightarrow> fresh (fst s') = fresh (fst s) + 1 \<and> same_kind (fst s) (fst s')"
  by (simp add: one_more_def)

lemma map_fst_below: "set (below ev es) \<subseteq> set es" "set (above ev es) \<subseteq> set es"
  by (auto simp: below_def above_def)

lemma grow_leaf:
  "bal_root (Node m Null g) \<Longrightarrow> bal c \<Longrightarrow> rh c = 1 \<Longrightarrow> bal_root (Node m c g)
     \<and> (rh (Node m c g) = rh (Node m Null g) \<or> rh (Node m c g) = rh (Node m Null g) + 1)"
  "bal_root (Node m l Null) \<Longrightarrow> bal c \<Longrightarrow> rh c = 1 \<Longrightarrow> bal_root (Node m l c)
     \<and> (rh (Node m l c) = rh (Node m l Null) \<or> rh (Node m l c) = rh (Node m l Null) + 1)"
  using rh_eq_0 [of g] rh_eq_0 [of l] by (simp_all add: close_def le_Suc_eq) auto

lemma insert_ok:
  assumes "t \<noteq> Null" "all_keyed t" "cuts ev (items t)" "links_ok (fst s) (xs @ map fst (items t) @ ys)"
    "distinct (xs @ map fst (items t) @ ys)" "fresh (fst s) \<notin> set (xs @ map fst (items t) @ ys)"
  shows "\<exists>h t' s'. vv_tree_insert ev d (plug dir n t ot) dir s = (plug dir (n\<lparr>height := h\<rparr>) t' ot, s')
    \<and> inserted ev d t t' s s' xs ys"
  using assms
proof (induction t arbitrary: dir n ot s xs ys)
  case (Node m l g)
  have k: "key_present m" "all_keyed l" "all_keyed g" and c: "cuts ev (items l @ item_of m # items g)"
    using Node.prems by auto
  have li: "links_ok (fst s) (xs @ map fst (items l) @ nid m # map fst (items g) @ ys)"
      "distinct (xs @ map fst (items l) @ nid m # map fst (items g) @ ys)"
      "fresh (fst s) \<notin> set (xs @ map fst (items l) @ nid m # map fst (items g) @ ys)"
    using Node.prems by auto
  consider (eq) "ev (snd (key m)) = 0" | (ln) "ev (snd (key m)) < 0" "l = Null" | (l) "ev (snd (key m)) < 0" "l \<noteq> Null"
    | (gn) "ev (snd (key m)) > 0" "g = Null" | (g) "ev (snd (key m)) > 0" "g \<noteq> Null" by linarith
  then show ?case
  proof cases
    case eq
    then have "hit ev (items (Node m l g)) \<noteq> None"
      using hit_None [of ev "items (Node m l g)"] by simp
    then have "inserted ev d (Node m l g) (Node m l g) s (fst s, (snd s)\<lparr>status := VV_ERR_EXIST\<rparr>) xs ys"
      using k by (simp add: inserted_def)
    then show ?thesis
      using insert_turn(1) [of m ev d dir n l g ot s, OF k(1) eq] by (intro exI [of _ "height n"] exI) simp
  next
    case ln
    obtain c t1 c1 s2 where n: "new_lesser m (fst s) = (c, t1)" "fill_node d c (t1, snd s) = (c1, s2)"
      by (meson surj_pair)
    have f: "one_more d s s2 \<and> item_of c1 = (fresh (fst s), ckey (snd s), d) \<and> height c1 = 1 \<and> key_present c1
        \<and> links_ok (fst s2) (xs @ fresh (fst s) # nid m # map fst (items g) @ ys)"
      using new_lesser_fill [OF n, of xs "map fst (items g) @ ys"] li ln by simp
    have "inserted ev d (Node m l g) (Node m (Node c1 Null Null) g) s s2 xs ys"
      using f ln k cuts_lesser [OF c] grow_leaf(1) [of m g "Node c1 Null Null"]
      unfolding inserted_def by (simp add: close_def)
    then show ?thesis
      using insert_turn(2) [where ev = ev, OF k(1) ln n, of dir n g ot] by (intro exI [of _ "height n"] exI) simp
  next
    case gn
    obtain c t1 c1 s2 where n: "new_greater m (fst s) = (c, t1)" "fill_node d c (t1, snd s) = (c1, s2)"
      by (meson surj_pair)
    have f: "one_more d s s2 \<and> item_of c1 = (fresh (fst s), ckey (snd s), d) \<and> height c1 = 1 \<and> key_present c1
        \<and> links_ok (fst s2) ((xs @ map fst (items l)) @ nid m # fresh (fst s) # ys)"
      using new_greater_fill [OF n, of "xs @ map fst (items l)" ys] li gn by simp
    have "inserted ev d (Node m l g) (Node m l (Node c1 Null Null)) s s2 xs ys"
      using f gn k cuts_greater [OF c] grow_leaf(2) [of m l "Node c1 Null Null"]
      unfolding inserted_def by (simp add: close_def)
    then show ?thesis
      using insert_turn(3) [where ev = ev, OF k(1) gn n, of dir n l ot] by (intro exI [of _ "height n"] exI) simp
  next
    case l
    obtain h l' s2 where r: "vv_tree_insert ev d (Node m l g) VV_TREE_LESSER s
        = (plug VV_TREE_LESSER (m\<lparr>height := h\<rparr>) l' g, s2)"
      and i: "inserted ev d l l' s s2 xs (nid m # map fst (items g) @ ys)"
      using Node.IH(1) [of s xs "nid m # map fst (items g) @ ys" VV_TREE_LESSER m g] l k li cuts_lesser [OF c]
      by auto
    obtain h1 h2 where e: "vv_tree_insert ev d (plug dir n (Node m l g) ot) dir s
        = (plug dir (n\<lparr>height := h1\<rparr>) (rebalance (Node (m\<lparr>height := h2\<rparr>) (rebalance l') g)) ot, s2)"
      using insert_turn(4) [where ev = ev, OF k(1) l r] by blast
    let ?t = "rebalance (Node (m\<lparr>height := h2\<rparr>) (rebalance l') g)"
    have b: "bal_root (Node m l g) \<and> rh (Node m l g) < 105 \<longrightarrow>
        bal_root ?t \<and> (rh ?t = rh (Node m l g) \<or> rh ?t = rh (Node m l g) + 1)"
    proof
      assume a: "bal_root (Node m l g) \<and> rh (Node m l g) < 105"
      then have "bal_root l \<and> rh l < 105" using bal_imp_root [of l] by auto
      then have "bal_root l' \<and> (rh l' = rh l \<or> rh l' = rh l + 1)" using i by (simp add: inserted_def)
      then show "bal_root ?t \<and> (rh ?t = rh (Node m l g) \<or> rh ?t = rh (Node m l g) + 1)"
        using balance_up(1) [of m l g l' "m\<lparr>height := h2\<rparr>"] a by blast
    qed
    have "inserted ev d (Node m l g) ?t s s2 xs ys"
      unfolding inserted_def using b
      by (cases "hit ev (items l)")
        (use i l k cuts_lesser [OF c] in \<open>auto simp: inserted_def simp del: rh.simps bal_root.simps\<close>)
    then show ?thesis using e by blast
  next
    case g
    obtain h g' s2 where r: "vv_tree_insert ev d (Node m l g) VV_TREE_GREATER s
        = (plug VV_TREE_GREATER (m\<lparr>height := h\<rparr>) g' l, s2)"
      and i: "inserted ev d g g' s s2 (xs @ map fst (items l) @ [nid m]) ys"
      using Node.IH(2) [of s "xs @ map fst (items l) @ [nid m]" ys VV_TREE_GREATER m l] g k li cuts_greater [OF c]
      by auto
    obtain h1 h2 where e: "vv_tree_insert ev d (plug dir n (Node m l g) ot) dir s
        = (plug dir (n\<lparr>height := h1\<rparr>) (rebalance (Node (m\<lparr>height := h2\<rparr>) l (rebalance g'))) ot, s2)"
      using insert_turn(5) [where ev = ev, OF k(1) g r] by blast
    let ?t = "rebalance (Node (m\<lparr>height := h2\<rparr>) l (rebalance g'))"
    have b: "bal_root (Node m l g) \<and> rh (Node m l g) < 105 \<longrightarrow>
        bal_root ?t \<and> (rh ?t = rh (Node m l g) \<or> rh ?t = rh (Node m l g) + 1)"
    proof
      assume a: "bal_root (Node m l g) \<and> rh (Node m l g) < 105"
      then have "bal_root g \<and> rh g < 105" using bal_imp_root [of g] by auto
      then have "bal_root g' \<and> (rh g' = rh g \<or> rh g' = rh g + 1)" using i by (simp add: inserted_def)
      then show "bal_root ?t \<and> (rh ?t = rh (Node m l g) \<or> rh ?t = rh (Node m l g) + 1)"
        using balance_up(2) [of m l g g' "m\<lparr>height := h2\<rparr>"] a by blast
    qed
    have "inserted ev d (Node m l g) ?t s s2 xs ys"
      unfolding inserted_def using b
      by (cases "hit ev (items g)")
        (use i g k cuts_greater [OF c] in \<open>auto simp: inserted_def simp del: rh.simps bal_root.simps\<close>)
    then show ?thesis using e by blast
  qed
qed simp

section \<open>Searching finds what is there\<close>

definition or_else :: "'a option \<Rightarrow> 'a option \<Rightarrow> 'a option" where
  "or_else a b = (case a of None \<Rightarrow> b | Some x \<Rightarrow> Some x)"

lemma or_else_simps [simp]: "or_else None b = b" "or_else (Some x) b = Some x" "or_else a None = a"
  by (simp_all add: or_else_def split: option.split)

lemma or_else_assoc [simp]: "or_else (or_else a b) c = or_else a (or_else b c)"
  by (cases a) auto

lemma hit_or: "hit ev (es @ fs) = or_else (hit ev es) (hit ev fs)"
  by (simp add: or_else_def)

lemma last_opt_or: "last_opt (xs @ ys) = or_else (last_opt ys) (last_opt xs)"
  by (cases "last_opt ys") (auto simp: last_opt_append)

lemma head_opt_or: "head_opt (xs @ ys) = or_else (head_opt xs) (head_opt ys)"
  by (cases "head_opt xs") (auto simp: head_opt_append)

lemma cuts_equal:
  assumes "cuts ev (es @ x # fs)" "ev (ikey x) = 0"
  shows "hit ev es = None" "below ev es = es" "above ev es = []" "above ev fs = fs" "below ev fs = []"
proof -
  have "\<forall>e\<in>set es. ev (ikey e) > 0" "\<forall>e\<in>set fs. ev (ikey e) < 0"
    using assms by (auto simp: cuts_append not_le [symmetric])
  then show "hit ev es = None" "below ev es = es" "above ev es = []" "above ev fs = fs" "below ev fs = []"
    using below_all [of es ev] above_all [of fs ev] by (auto simp: hit_None)
qed

lemma search_loop_hit: "cuts ev (items t) \<Longrightarrow> map_option item_of (search_loop ev t) = hit ev (items t)"
proof (induction t)
  case (Node m l g)
  then show ?case
    using cuts_equal [of ev "items l" "item_of m" "items g"] cuts_lesser [of ev "items l" "item_of m" "items g"]
      cuts_greater [of ev "items l" "item_of m" "items g"]
    by (cases "ev (snd (key m)) = 0"; cases "ev (snd (key m)) < 0") (auto simp: hit_or simp del: hit_append(1))
qed simp

lemma search_lesser_loop_last:
  "cuts ev (items t) \<Longrightarrow> map_option item_of (search_lesser_loop ev equal t prev)
    = or_else (if equal then hit ev (items t) else None)
        (or_else (last_opt (below ev (items t))) (map_option item_of prev))"
proof (induction t arbitrary: prev)
  case (Node m l g)
  consider "ev (snd (key m)) = 0" | "ev (snd (key m)) < 0" | "ev (snd (key m)) > 0" by linarith
  then show ?case
  proof cases
    case 1
    then show ?thesis
      using Node cuts_equal [of ev "items l" "item_of m" "items g"]
      by (auto simp: Let_def cuts_append)
  next
    case 2
    then show ?thesis
      using Node cuts_lesser [of ev "items l" "item_of m" "items g"]
      by (auto simp: Let_def hit_or simp del: hit_append(1))
  next
    case 3
    then show ?thesis
      using Node cuts_greater [of ev "items l" "item_of m" "items g"]
      by (cases "last_opt (below ev (items g))") (auto simp: Let_def last_opt_or hit_or simp del: hit_append(1))
  qed
qed simp

lemma search_greater_loop_head:
  "cuts ev (items t) \<Longrightarrow> map_option item_of (search_greater_loop ev equal t prev)
    = or_else (if equal then hit ev (items t) else None)
        (or_else (head_opt (above ev (items t))) (map_option item_of prev))"
proof (induction t arbitrary: prev)
  case (Node m l g)
  consider "ev (snd (key m)) = 0" | "ev (snd (key m)) < 0" | "ev (snd (key m)) > 0" by linarith
  then show ?case
  proof cases
    case 1
    then show ?thesis
      using Node cuts_equal [of ev "items l" "item_of m" "items g"]
      by (auto simp: Let_def cuts_append)
  next
    case 2
    then show ?thesis
      using Node cuts_lesser [of ev "items l" "item_of m" "items g"]
      by (auto simp: Let_def head_opt_or hit_or simp del: hit_append(1))
  next
    case 3
    then show ?thesis
      using Node cuts_greater [of ev "items l" "item_of m" "items g"]
      by (auto simp: Let_def)
  qed
qed simp

lemma leftmost_head: "map_option item_of (leftmost t) = head_opt (items t)"
  by (induction t) (auto simp: head_opt_append neq_Nil_conv elim: items.elims)

lemma rightmost_last: "map_option item_of (rightmost t) = last_opt (items t)"
proof (induction t)
  case (Node m l g)
  then show ?case by (cases g) (auto simp: last_opt_append)
qed simp

section \<open>Deletion keeps order and balance\<close>

lemma items_Nil [simp]: "items t = [] \<longleftrightarrow> t = Null"
  by (cases t) auto

lemma unlink_ok:
  assumes l: "links_ok t (xs @ f # ys)" and di: "distinct (xs @ f # ys)" and s: "sorted_tree t"
  shows "links_ok (unlink_node f t) (xs @ ys)" "same_kind t (unlink_node f t)"
    "count (unlink_node f t) = count t" "fresh (unlink_node f t) = fresh t"
proof -
  have l2: "linked (lesser_list t) (greater_list t) (xs @ f # ys)" "mn t = head_opt (xs @ f # ys)"
      "mx t = last_opt (xs @ f # ys)" using l s by (auto simp: links_ok_def)
  have a: "lesser_list t f = last_opt xs" "greater_list t f = head_opt ys"
    using linked_at [OF l2(1) di] by auto
  have ne: "last_opt xs \<noteq> Some f" "head_opt ys \<noteq> Some f"
    using di opt_in(2) [of xs f] opt_in(1) [of ys f] by auto
  have e: "lesser_list (unlink_node f t) = upd (lesser_list t) (head_opt ys) (last_opt xs)"
    "greater_list (unlink_node f t) = upd (greater_list t) (last_opt xs) (head_opt ys)"
    "mn (unlink_node f t) = (if xs = [] then head_opt ys else mn t)"
    "mx (unlink_node f t) = (if ys = [] then last_opt xs else mx t)"
    using ne by (auto simp: unlink_node_def set_links a upd_apply Let_def)
  show "same_kind t (unlink_node f t)"
    "count (unlink_node f t) = count t" "fresh (unlink_node f t) = fresh t"
    by (auto simp: unlink_node_def same_kind_def set_links Let_def)
  then have "sorted_tree (unlink_node f t)" using s by (simp add: same_kind_def)
  then show "links_ok (unlink_node f t) (xs @ ys)"
    using linked_remove [OF l2(1) di] by (simp add: links_ok_def e l2(2,3) head_opt_append last_opt_append)
qed

lemma relink_ok:
  assumes l: "links_ok t (xs @ leaf # ys)" and di: "distinct (xs @ leaf # ys)" "f \<notin> set (xs @ leaf # ys)"
    and s: "sorted_tree t"
  shows "links_ok (relink_node f leaf t) (xs @ f # ys)" "same_kind t (relink_node f leaf t)"
    "count (relink_node f leaf t) = count t" "fresh (relink_node f leaf t) = fresh t"
proof -
  have l2: "linked (lesser_list t) (greater_list t) (xs @ leaf # ys)" "mn t = head_opt (xs @ leaf # ys)"
      "mx t = last_opt (xs @ leaf # ys)" using l s by (auto simp: links_ok_def)
  have a: "lesser_list t leaf = last_opt xs" "greater_list t leaf = head_opt ys"
    using linked_at [OF l2(1) di(1)] by auto
  have ne: "last_opt xs \<noteq> Some leaf" "head_opt ys \<noteq> Some leaf" "last_opt xs \<noteq> Some f" "head_opt ys \<noteq> Some f"
      "f \<noteq> leaf"
    using di opt_in(2) [of xs] opt_in(1) [of ys] by auto
  have e: "lesser_list (relink_node f leaf t) = upd ((lesser_list t)(f := last_opt xs)) (head_opt ys) (Some f)"
    "greater_list (relink_node f leaf t) = upd ((greater_list t)(f := head_opt ys)) (last_opt xs) (Some f)"
    "mn (relink_node f leaf t) = (if xs = [] then Some f else mn t)"
    "mx (relink_node f leaf t) = (if ys = [] then Some f else mx t)"
    using ne by (auto simp: relink_node_def set_links a upd_apply Let_def)
  show "same_kind t (relink_node f leaf t)"
    "count (relink_node f leaf t) = count t" "fresh (relink_node f leaf t) = fresh t"
    by (auto simp: relink_node_def same_kind_def set_links Let_def)
  then have "sorted_tree (relink_node f leaf t)" using s by (simp add: same_kind_def)
  moreover have "linked (lesser_list (relink_node f leaf t)) (greater_list (relink_node f leaf t)) (xs @ f # ys)"
    by (rule linked_fresh [OF linked_remove [OF l2(1) di(1)]])
      (use di ne in \<open>auto simp: e upd_apply\<close>)
  ultimately show "links_ok (relink_node f leaf t) (xs @ f # ys)"
    by (simp add: links_ok_def e l2(2,3) head_opt_append last_opt_append)
qed

definition shrunk :: "avl \<Rightarrow> avl \<Rightarrow> bool" where
  "shrunk t t' \<longleftrightarrow> all_keyed t'
     \<and> (bal_root t \<and> rh t < 105 \<longrightarrow> bal_root t' \<and> (rh t' = rh t \<or> rh t = rh t' + 1))"

lemma balance_down:
  assumes b: "bal_root (Node m l g)" "rh (Node m l g) < 105"
  shows "bal_root l' \<Longrightarrow> rh l' = rh l \<or> rh l = rh l' + 1 \<Longrightarrow>
      bal_root (rebalance (Node m' (rebalance l') g))
      \<and> (rh (rebalance (Node m' (rebalance l') g)) = rh (Node m l g)
         \<or> rh (Node m l g) = rh (rebalance (Node m' (rebalance l') g)) + 1)"
    and "bal_root g' \<Longrightarrow> rh g' = rh g \<or> rh g = rh g' + 1 \<Longrightarrow>
      bal_root (rebalance (Node m' l (rebalance g')))
      \<and> (rh (rebalance (Node m' l (rebalance g'))) = rh (Node m l g)
         \<or> rh (Node m l g) = rh (rebalance (Node m' l (rebalance g'))) + 1)"
proof -
  have lg: "bal l" "bal g" "close 1 (rh l) (rh g)" "rh l < 104" "rh g < 104" using b by auto
  show "bal_root (rebalance (Node m' (rebalance l') g))
      \<and> (rh (rebalance (Node m' (rebalance l') g)) = rh (Node m l g)
         \<or> rh (Node m l g) = rh (rebalance (Node m' (rebalance l') g)) + 1)"
    if l': "bal_root l'" "rh l' = rh l \<or> rh l = rh l' + 1"
  proof -
    let ?l = "rebalance l'"
    have f: "bal ?l" "rh ?l = rh l'" using rebalance_fix [OF l'(1)] l'(2) lg(4) by auto
    show ?thesis
    proof (cases "close 1 (rh ?l) (rh g)")
      case True
      have r: "rh (Node m' ?l g) = rh (Node m l g) \<or> rh (Node m l g) = rh (Node m' ?l g) + 1"
        using l'(2) f(2) by auto
      have "bal_root (Node m' ?l g)" using True f(1) lg(2) by simp
      then have "bal (rebalance (Node m' ?l g)) \<and> rh (rebalance (Node m' ?l g)) = rh (Node m' ?l g)"
        by (rule rebalance_fix) (use r b(2) in linarith)
      then show ?thesis using r bal_imp_root by metis
    next
      case False
      then have "rh g = rh ?l + 2" using l'(2) f(2) lg(3) by (auto simp: close_def)
      then have "rebalanced (Node m' ?l g) (rebalance (Node m' ?l g))" "rh (Node m' ?l g) = rh (Node m l g)"
        using rebalance_ok [of ?l g m'] f lg l'(2) by (auto simp: close_def max_def)
      then show ?thesis by (auto simp only: rebalanced_def)
    qed
  qed
  show "bal_root (rebalance (Node m' l (rebalance g')))
      \<and> (rh (rebalance (Node m' l (rebalance g'))) = rh (Node m l g)
         \<or> rh (Node m l g) = rh (rebalance (Node m' l (rebalance g'))) + 1)"
    if g': "bal_root g'" "rh g' = rh g \<or> rh g = rh g' + 1"
  proof -
    let ?g = "rebalance g'"
    have f: "bal ?g" "rh ?g = rh g'" using rebalance_fix [OF g'(1)] g'(2) lg(5) by auto
    show ?thesis
    proof (cases "close 1 (rh l) (rh ?g)")
      case True
      have r: "rh (Node m' l ?g) = rh (Node m l g) \<or> rh (Node m l g) = rh (Node m' l ?g) + 1"
        using g'(2) f(2) by auto
      have "bal_root (Node m' l ?g)" using True f(1) lg(1) by simp
      then have "bal (rebalance (Node m' l ?g)) \<and> rh (rebalance (Node m' l ?g)) = rh (Node m' l ?g)"
        by (rule rebalance_fix) (use r b(2) in linarith)
      then show ?thesis using r bal_imp_root by metis
    next
      case False
      then have "rh l = rh ?g + 2" using g'(2) f(2) lg(3) by (auto simp: close_def)
      then have "rebalanced (Node m' l ?g) (rebalance (Node m' l ?g))" "rh (Node m' l ?g) = rh (Node m l g)"
        using rebalance_ok [of l ?g m'] f lg g'(2) by (auto simp: close_def max_def)
      then show ?thesis by (auto simp only: rebalanced_def)
    qed
  qed
qed

lemma shrunk_refl [simp]: "shrunk t t \<longleftrightarrow> all_keyed t"
  by (auto simp: shrunk_def)

lemma shrunk_up:
  assumes "key_present m'" "all_keyed l" "all_keyed g"
  shows "shrunk l l' \<Longrightarrow> shrunk (Node m l g) (rebalance (Node m' (rebalance l') g))"
    and "shrunk g g' \<Longrightarrow> shrunk (Node m l g) (rebalance (Node m' l (rebalance g')))"
proof -
  show "shrunk (Node m l g) (rebalance (Node m' (rebalance l') g))" if l': "shrunk l l'"
    unfolding shrunk_def
  proof (intro conjI impI; (elim conjE)?)
    show "all_keyed (rebalance (Node m' (rebalance l') g))" using l' assms by (simp add: shrunk_def)
    assume a: "bal_root (Node m l g)" "rh (Node m l g) < 105"
    then have "bal_root l' \<and> (rh l' = rh l \<or> rh l = rh l' + 1)"
      using l' bal_imp_root [of l] by (auto simp: shrunk_def)
    then have "bal_root (rebalance (Node m' (rebalance l') g))
      \<and> (rh (rebalance (Node m' (rebalance l') g)) = rh (Node m l g)
         \<or> rh (Node m l g) = rh (rebalance (Node m' (rebalance l') g)) + 1)"
      using balance_down(1) [OF a, of l' m'] by blast
    then show "bal_root (rebalance (Node m' (rebalance l') g))"
      "rh (rebalance (Node m' (rebalance l') g)) = rh (Node m l g)
         \<or> rh (Node m l g) = rh (rebalance (Node m' (rebalance l') g)) + 1" by blast+
  qed
  show "shrunk (Node m l g) (rebalance (Node m' l (rebalance g')))" if g': "shrunk g g'"
    unfolding shrunk_def
  proof (intro conjI impI; (elim conjE)?)
    show "all_keyed (rebalance (Node m' l (rebalance g')))" using g' assms by (simp add: shrunk_def)
    assume a: "bal_root (Node m l g)" "rh (Node m l g) < 105"
    then have "bal_root g' \<and> (rh g' = rh g \<or> rh g = rh g' + 1)"
      using g' bal_imp_root [of g] by (auto simp: shrunk_def)
    then have "bal_root (rebalance (Node m' l (rebalance g')))
      \<and> (rh (rebalance (Node m' l (rebalance g'))) = rh (Node m l g)
         \<or> rh (Node m l g) = rh (rebalance (Node m' l (rebalance g'))) + 1)"
      using balance_down(2) [OF a, of g' m'] by blast
    then show "bal_root (rebalance (Node m' l (rebalance g')))"
      "rh (rebalance (Node m' l (rebalance g'))) = rh (Node m l g)
         \<or> rh (Node m l g) = rh (rebalance (Node m' l (rebalance g'))) + 1" by blast+
  qed
qed

lemma shrunk_child:
  "all_keyed l \<Longrightarrow> shrunk (Node m l Null) l" "all_keyed g \<Longrightarrow> shrunk (Node m Null g) g"
  using bal_imp_root by (auto simp: shrunk_def)

lemma balance_if:
  "\<exists>h. (if t \<noteq> Null then vv_tree_balance (plug dir n t ot) dir else plug dir n t ot)
    = plug dir (n\<lparr>height := h\<rparr>) (rebalance t) ot"
  using balance_plug [of dir n t ot] by (auto intro: exI [of _ "height n"])

lemma find_leaf_ok:
  assumes "t \<noteq> Null" "all_keyed t"
  shows "\<exists>h t' leaf. vv_tree_find_leaf_del (plug dir n t ot) dir f T
      = ((plug dir (n\<lparr>height := h\<rparr>) t' ot, Some leaf),
         if sorted_tree T then relink_node f (nid leaf) (unlink_node f T) else T)
    \<and> items t = item_of leaf # items t' \<and> shrunk t t'"
  using assms
proof (induction t arbitrary: dir n ot)
  case (Node m l g)
  show ?case
  proof (cases "l = Null")
    case True
    then show ?thesis using Node.prems shrunk_child(2) [of g m]
      by (intro exI [of _ "height n"] exI [of _ g] exI [of _ m]) (simp add: vv_tree_find_leaf_del.simps)
  next
    case False
    obtain h l' leaf where r: "vv_tree_find_leaf_del (Node m l g) VV_TREE_LESSER f T
        = ((plug VV_TREE_LESSER (m\<lparr>height := h\<rparr>) l' g, Some leaf),
           if sorted_tree T then relink_node f (nid leaf) (unlink_node f T) else T)"
      and i: "items l = item_of leaf # items l'" "shrunk l l'"
      using Node.IH(1) [of VV_TREE_LESSER m g] False Node.prems by auto
    obtain h2 where b: "(if l' \<noteq> Null then vv_tree_balance (plug VV_TREE_LESSER (m\<lparr>height := h\<rparr>) l' g) VV_TREE_LESSER
        else plug VV_TREE_LESSER (m\<lparr>height := h\<rparr>) l' g) = Node (m\<lparr>height := h2\<rparr>) (rebalance l') g"
      using balance_if [of l' VV_TREE_LESSER "m\<lparr>height := h\<rparr>" g] by auto
    obtain h1 where "vv_tree_balance (plug dir n (Node (m\<lparr>height := h2\<rparr>) (rebalance l') g) ot) dir
        = plug dir (n\<lparr>height := h1\<rparr>) (rebalance (Node (m\<lparr>height := h2\<rparr>) (rebalance l') g)) ot"
      using balance_plug by blast
    then have "vv_tree_find_leaf_del (plug dir n (Node m l g) ot) dir f T
      = ((plug dir (n\<lparr>height := h1\<rparr>) (rebalance (Node (m\<lparr>height := h2\<rparr>) (rebalance l') g)) ot, Some leaf),
         if sorted_tree T then relink_node f (nid leaf) (unlink_node f T) else T)"
      using False r b
      by (cases "l' = Null") (simp_all add: vv_tree_find_leaf_del.simps [of "plug dir n (Node m l g) ot"])
    moreover have "shrunk (Node m l g) (rebalance (Node (m\<lparr>height := h2\<rparr>) (rebalance l') g))"
      using shrunk_up(1) [of "m\<lparr>height := h2\<rparr>" l g l' m] Node.prems i(2) by simp
    ultimately show ?thesis using i(1) by fastforce
  qed
qed simp

text \<open>What a deletion of the node in the child does to the tree's record.\<close>

definition one_less :: "vely_tree \<Rightarrow> vely_tree \<Rightarrow> bool" where
  "one_less T T' \<longleftrightarrow> same_kind T T' \<and> count T' = count T \<and> fresh T' = fresh T"

lemma delete_found_ok:
  assumes k: "all_keyed (Node m l g)" and li: "links_ok T (xs @ map fst (items (Node m l g)) @ ys)"
    and di: "distinct (xs @ map fst (items (Node m l g)) @ ys)"
  shows "\<exists>h t' T'. delete_found (plug dir n (Node m l g) ot) dir T = (plug dir (n\<lparr>height := h\<rparr>) t' ot, T')
    \<and> map snd (items t') = map snd (items l @ items g) \<and> shrunk (Node m l g) t' \<and> one_less T T'
    \<and> links_ok T' (xs @ map fst (items t') @ ys) \<and> distinct (xs @ map fst (items t') @ ys)
    \<and> set (map fst (items t')) \<subseteq> set (map fst (items (Node m l g)))"
proof (cases "g = Null")
  case True
  have "links_ok (if sorted_tree T then unlink_node (nid m) T else T) (xs @ map fst (items l) @ ys)
      \<and> one_less T (if sorted_tree T then unlink_node (nid m) T else T)"
    using unlink_ok [of T "xs @ map fst (items l)" "nid m" ys] li di True
    by (auto simp: one_less_def links_ok_def)
  then show ?thesis
    using True k di shrunk_child(1) [of l m]
    by (intro exI [of _ "height n"] exI [of _ l]
        exI [of _ "if sorted_tree T then unlink_node (nid m) T else T"]) (auto simp: delete_found_def)
next
  case False
  obtain h g' leaf where r: "vv_tree_find_leaf_del (Node m l g) VV_TREE_GREATER (nid m) T
      = ((plug VV_TREE_GREATER (m\<lparr>height := h\<rparr>) g' l, Some leaf),
         if sorted_tree T then relink_node (nid m) (nid leaf) (unlink_node (nid m) T) else T)"
    and i: "items g = item_of leaf # items g'" "shrunk g g'"
    using find_leaf_ok [of g VV_TREE_GREATER m l "nid m" T] False k by auto
  let ?m = "m\<lparr>height := h, key := key leaf, data := data leaf\<rparr>"
  obtain h2 where b: "(if g' \<noteq> Null then vv_tree_balance (plug VV_TREE_GREATER ?m g' l) VV_TREE_GREATER
        else plug VV_TREE_GREATER ?m g' l) = Node (?m\<lparr>height := h2\<rparr>) l (rebalance g')"
    using balance_if [of g' VV_TREE_GREATER ?m l] by auto
  let ?t = "rebalance (Node (?m\<lparr>height := h2\<rparr>) l (rebalance g'))"
    and ?T = "if sorted_tree T then relink_node (nid m) (nid leaf) (unlink_node (nid m) T) else T"
  obtain h1 where "vv_tree_balance (plug dir n (Node (?m\<lparr>height := h2\<rparr>) l (rebalance g')) ot) dir
      = plug dir (n\<lparr>height := h1\<rparr>) ?t ot"
    using balance_plug by blast
  then have e: "delete_found (plug dir n (Node m l g) ot) dir T = (plug dir (n\<lparr>height := h1\<rparr>) ?t ot, ?T)"
    using False r b by (cases "g' = Null") (simp_all add: delete_found_def)
  have s: "shrunk (Node m l g) ?t"
    using shrunk_up(2) [of "?m\<lparr>height := h2\<rparr>" l g g' m] k i(2) by simp
  have it: "items ?t = items l @ (nid m, key leaf, data leaf) # items g'" by (simp add: item_of_def)
  have li2: "links_ok T ((xs @ map fst (items l)) @ nid m # (nid leaf # map fst (items g') @ ys))"
    "distinct ((xs @ map fst (items l)) @ nid m # (nid leaf # map fst (items g') @ ys))"
    using li di i(1) by simp_all
  have "links_ok ?T ((xs @ map fst (items l)) @ nid m # map fst (items g') @ ys) \<and> one_less T ?T"
  proof (cases "sorted_tree T")
    case True
    note u = unlink_ok [OF li2 True]
    have "sorted_tree (unlink_node (nid m) T)" using u(2) True by (simp add: same_kind_def)
    then show ?thesis
      using relink_ok [OF u(1), of "nid m"] li2(2) u(2-) True by (simp add: one_less_def same_kind_def)
  qed (simp add: links_ok_def one_less_def)
  moreover have "map snd (items ?t) = map snd (items l @ items g)" by (simp only: it i(1)) (simp add: item_of_def)
  moreover have "distinct (xs @ map fst (items ?t) @ ys)" unfolding it using li2(2) by simp
  moreover have "set (map fst (items ?t)) \<subseteq> set (map fst (items (Node m l g)))" unfolding it using i(1) by auto
  ultimately show ?thesis using e s it by (intro exI [of _ h1] exI [of _ ?t] exI [of _ ?T]) simp
qed

definition deleted :: "(string \<Rightarrow> int) \<Rightarrow> avl \<Rightarrow> avl \<Rightarrow> tstate \<Rightarrow> tstate \<Rightarrow> nat list \<Rightarrow> nat list \<Rightarrow> bool" where
  "deleted ev t t' s s' xs ys \<longleftrightarrow> shrunk t t'
     \<and> links_ok (fst s') (xs @ map fst (items t') @ ys) \<and> distinct (xs @ map fst (items t') @ ys)
     \<and> set (map fst (items t')) \<subseteq> set (map fst (items t))
     \<and> same_kind (fst s) (fst s') \<and> fresh (fst s') = fresh (fst s)
     \<and> (case hit ev (items t) of
          None \<Rightarrow> items t' = items t \<and> s' = (fst s, (snd s)\<lparr>status := VV_ERR_EXIST\<rparr>)
        | Some e \<Rightarrow> map snd (items t') = map snd (below ev (items t) @ above ev (items t))
            \<and> count (fst s') = count (fst s) - 1
            \<and> snd s' = (snd s)\<lparr>status := VV_OKAY, res := snd (snd e), rkey := fst (snd e)\<rparr>)"

lemma delete_turn:
  shows "ev (snd (key m)) = 0 \<Longrightarrow> delete_found (plug dir n (Node m l g) ot) dir (fst s) = (p1, T1) \<Longrightarrow>
      vv_tree_delete ev (plug dir n (Node m l g) ot) dir s
      = (p1, T1\<lparr>count := count T1 - 1\<rparr>, (snd s)\<lparr>status := VV_OKAY, res := data m, rkey := key m\<rparr>)"
    and "ev (snd (key m)) \<noteq> 0 \<Longrightarrow> (ev (snd (key m)) < 0 \<longrightarrow> l = Null) \<Longrightarrow> (ev (snd (key m)) > 0 \<longrightarrow> g = Null) \<Longrightarrow>
      vv_tree_delete ev (plug dir n (Node m l g) ot) dir s
      = (plug dir n (Node m l g) ot, fst s, (snd s)\<lparr>status := VV_ERR_EXIST\<rparr>)"
    and "ev (snd (key m)) < 0 \<Longrightarrow> l \<noteq> Null \<Longrightarrow>
      vv_tree_delete ev (Node m l g) VV_TREE_LESSER s = (plug VV_TREE_LESSER (m\<lparr>height := h\<rparr>) l' g, s2) \<Longrightarrow>
      \<exists>h1 h2. vv_tree_delete ev (plug dir n (Node m l g) ot) dir s
        = (plug dir (n\<lparr>height := h1\<rparr>) (rebalance (Node (m\<lparr>height := h2\<rparr>) (rebalance l') g)) ot, s2)"
    and "ev (snd (key m)) > 0 \<Longrightarrow> g \<noteq> Null \<Longrightarrow>
      vv_tree_delete ev (Node m l g) VV_TREE_GREATER s = (plug VV_TREE_GREATER (m\<lparr>height := h\<rparr>) g' l, s2) \<Longrightarrow>
      \<exists>h1 h2. vv_tree_delete ev (plug dir n (Node m l g) ot) dir s
        = (plug dir (n\<lparr>height := h1\<rparr>) (rebalance (Node (m\<lparr>height := h2\<rparr>) l (rebalance g'))) ot, s2)"
proof -
  show "ev (snd (key m)) = 0 \<Longrightarrow> delete_found (plug dir n (Node m l g) ot) dir (fst s) = (p1, T1) \<Longrightarrow>
      vv_tree_delete ev (plug dir n (Node m l g) ot) dir s
      = (p1, T1\<lparr>count := count T1 - 1\<rparr>, (snd s)\<lparr>status := VV_OKAY, res := data m, rkey := key m\<rparr>)"
    by (subst vv_tree_delete.simps) simp
  show "ev (snd (key m)) \<noteq> 0 \<Longrightarrow> (ev (snd (key m)) < 0 \<longrightarrow> l = Null) \<Longrightarrow> (ev (snd (key m)) > 0 \<longrightarrow> g = Null) \<Longrightarrow>
      vv_tree_delete ev (plug dir n (Node m l g) ot) dir s
      = (plug dir n (Node m l g) ot, fst s, (snd s)\<lparr>status := VV_ERR_EXIST\<rparr>)"
    by (subst vv_tree_delete.simps) auto
  show "\<exists>h1 h2. vv_tree_delete ev (plug dir n (Node m l g) ot) dir s
        = (plug dir (n\<lparr>height := h1\<rparr>) (rebalance (Node (m\<lparr>height := h2\<rparr>) (rebalance l') g)) ot, s2)"
    if r: "ev (snd (key m)) < 0" "l \<noteq> Null"
      "vv_tree_delete ev (Node m l g) VV_TREE_LESSER s = (plug VV_TREE_LESSER (m\<lparr>height := h\<rparr>) l' g, s2)"
  proof -
    obtain h2 where "(if l' \<noteq> Null then vv_tree_balance (plug VV_TREE_LESSER (m\<lparr>height := h\<rparr>) l' g) VV_TREE_LESSER
        else plug VV_TREE_LESSER (m\<lparr>height := h\<rparr>) l' g) = Node (m\<lparr>height := h2\<rparr>) (rebalance l') g"
      using balance_if [of l' VV_TREE_LESSER "m\<lparr>height := h\<rparr>" g] by auto
    then show ?thesis
      using r balance_plug [of dir n "Node (m\<lparr>height := h2\<rparr>) (rebalance l') g" ot]
      by (cases "l' = Null") (auto simp: vv_tree_delete.simps [of ev "plug dir n (Node m l g) ot"])
  qed
  show "\<exists>h1 h2. vv_tree_delete ev (plug dir n (Node m l g) ot) dir s
        = (plug dir (n\<lparr>height := h1\<rparr>) (rebalance (Node (m\<lparr>height := h2\<rparr>) l (rebalance g'))) ot, s2)"
    if r: "ev (snd (key m)) > 0" "g \<noteq> Null"
      "vv_tree_delete ev (Node m l g) VV_TREE_GREATER s = (plug VV_TREE_GREATER (m\<lparr>height := h\<rparr>) g' l, s2)"
  proof -
    obtain h2 where "(if g' \<noteq> Null then vv_tree_balance (plug VV_TREE_GREATER (m\<lparr>height := h\<rparr>) g' l) VV_TREE_GREATER
        else plug VV_TREE_GREATER (m\<lparr>height := h\<rparr>) g' l) = Node (m\<lparr>height := h2\<rparr>) l (rebalance g')"
      using balance_if [of g' VV_TREE_GREATER "m\<lparr>height := h\<rparr>" l] by auto
    then show ?thesis
      using r balance_plug [of dir n "Node (m\<lparr>height := h2\<rparr>) l (rebalance g')" ot]
      by (cases "g' = Null") (auto simp: vv_tree_delete.simps [of ev "plug dir n (Node m l g) ot"])
  qed
qed

lemma hit_at:
  "hit ev es = None \<Longrightarrow> ev (ikey x) = 0 \<Longrightarrow> hit ev (es @ x # fs) = Some x"
  by simp

lemma tree_delete_ok:
  assumes "t \<noteq> Null" "all_keyed t" "cuts ev (items t)" "links_ok (fst s) (xs @ map fst (items t) @ ys)"
    "distinct (xs @ map fst (items t) @ ys)"
  shows "\<exists>h t' s'. vv_tree_delete ev (plug dir n t ot) dir s = (plug dir (n\<lparr>height := h\<rparr>) t' ot, s')
    \<and> deleted ev t t' s s' xs ys"
  using assms
proof (induction t arbitrary: dir n ot s xs ys)
  case (Node m l g)
  have k: "key_present m" "all_keyed l" "all_keyed g" and c: "cuts ev (items l @ item_of m # items g)"
    using Node.prems by auto
  have li: "links_ok (fst s) (xs @ map fst (items l) @ nid m # map fst (items g) @ ys)"
      "distinct (xs @ map fst (items l) @ nid m # map fst (items g) @ ys)"
    using Node.prems by auto
  consider (eq) "ev (snd (key m)) = 0" | (l) "ev (snd (key m)) < 0" "l \<noteq> Null" | (g) "ev (snd (key m)) > 0" "g \<noteq> Null"
    | (no) "ev (snd (key m)) \<noteq> 0" "ev (snd (key m)) < 0 \<longrightarrow> l = Null" "ev (snd (key m)) > 0 \<longrightarrow> g = Null" by linarith
  then show ?case
  proof cases
    case eq
    obtain h t' T' where d: "delete_found (plug dir n (Node m l g) ot) dir (fst s) = (plug dir (n\<lparr>height := h\<rparr>) t' ot, T')"
      "map snd (items t') = map snd (items l @ items g)" "shrunk (Node m l g) t'" "one_less (fst s) T'"
      "links_ok T' (xs @ map fst (items t') @ ys)" "distinct (xs @ map fst (items t') @ ys)"
      "set (map fst (items t')) \<subseteq> set (map fst (items (Node m l g)))"
      using delete_found_ok [OF Node.prems(2,4,5), of dir n ot] by blast
    have "hit ev (items (Node m l g)) = Some (item_of m)"
      using hit_at cuts_equal(1) [OF c] eq by simp
    moreover have "below ev (items (Node m l g)) @ above ev (items (Node m l g)) = items l @ items g"
      using cuts_equal [OF c] eq by simp
    ultimately have "deleted ev (Node m l g) t' s (T'\<lparr>count := count T' - 1\<rparr>,
        (snd s)\<lparr>status := VV_OKAY, res := data m, rkey := key m\<rparr>) xs ys"
      using d(2-) unfolding deleted_def
      by (auto simp: one_less_def same_kind_def links_ok_def item_of_def simp del: items.simps)
    then show ?thesis using delete_turn(1) [where ev = ev, OF eq d(1)] by blast
  next
    case no
    have "hit ev (items (Node m l g)) = None"
      using no cuts_lesser(4) [OF c] cuts_greater(4) [OF c]
      by (cases "ev (snd (key m)) < 0") (auto simp: hit_or simp del: hit_append(1))
    then have "deleted ev (Node m l g) (Node m l g) s (fst s, (snd s)\<lparr>status := VV_ERR_EXIST\<rparr>) xs ys"
      unfolding deleted_def using Node.prems by simp
    then show ?thesis
      using delete_turn(2) [of ev m l g dir n ot s, OF no] by (intro exI [of _ "height n"] exI) simp
  next
    case l
    obtain h l' s2 where r: "vv_tree_delete ev (Node m l g) VV_TREE_LESSER s
        = (plug VV_TREE_LESSER (m\<lparr>height := h\<rparr>) l' g, s2)"
      and i: "deleted ev l l' s s2 xs (nid m # map fst (items g) @ ys)"
      using Node.IH(1) [of s xs "nid m # map fst (items g) @ ys" VV_TREE_LESSER m g] l k li cuts_lesser [OF c]
      by auto
    obtain h1 h2 where e: "vv_tree_delete ev (plug dir n (Node m l g) ot) dir s
        = (plug dir (n\<lparr>height := h1\<rparr>) (rebalance (Node (m\<lparr>height := h2\<rparr>) (rebalance l') g)) ot, s2)"
      using delete_turn(3) [where ev = ev, OF l r] by blast
    let ?t = "rebalance (Node (m\<lparr>height := h2\<rparr>) (rebalance l') g)"
    have "shrunk (Node m l g) ?t"
      using shrunk_up(1) [of "m\<lparr>height := h2\<rparr>" l g l' m] k i by (simp add: deleted_def)
    then have "deleted ev (Node m l g) ?t s s2 xs ys"
      unfolding deleted_def using i l cuts_lesser [OF c]
      by (auto simp: deleted_def split: option.splits)
    then show ?thesis using e by blast
  next
    case g
    obtain h g' s2 where r: "vv_tree_delete ev (Node m l g) VV_TREE_GREATER s
        = (plug VV_TREE_GREATER (m\<lparr>height := h\<rparr>) g' l, s2)"
      and i: "deleted ev g g' s s2 (xs @ map fst (items l) @ [nid m]) ys"
      using Node.IH(2) [of s "xs @ map fst (items l) @ [nid m]" ys VV_TREE_GREATER m l] g k li cuts_greater [OF c]
      by auto
    obtain h1 h2 where e: "vv_tree_delete ev (plug dir n (Node m l g) ot) dir s
        = (plug dir (n\<lparr>height := h1\<rparr>) (rebalance (Node (m\<lparr>height := h2\<rparr>) l (rebalance g'))) ot, s2)"
      using delete_turn(4) [where ev = ev, OF g r] by blast
    let ?t = "rebalance (Node (m\<lparr>height := h2\<rparr>) l (rebalance g'))"
    have "shrunk (Node m l g) ?t"
      using shrunk_up(2) [of "m\<lparr>height := h2\<rparr>" l g g' m] k i by (simp add: deleted_def)
    then have "deleted ev (Node m l g) ?t s s2 xs ys"
      unfolding deleted_def using i g cuts_greater [OF c]
      by (auto simp: deleted_def split: option.splits)
    then show ?thesis using e by blast
  qed
qed simp

end
