(* ===== verification/AvlStore.thy ===== *)
theory AvlStore
  imports AvlTree
begin

text \<open>
  What the tree of tree.c promises to a program: it is a sorted list of keys and data.  The
  order of the keys is a contract (the locale \<open>key_order\<close>) that both built-in ways of comparing
  keys meet; the tree keeps to the specification for every such order, with or without the
  linked list, stays balanced, and its cursors move to the next key.
\<close>

section \<open>Orders of keys\<close>

definition sorted_keys :: "(string \<Rightarrow> string \<Rightarrow> int) \<Rightarrow> (string \<Rightarrow> bool) \<Rightarrow> string list \<Rightarrow> bool" where
  "sorted_keys cmp valid ks \<longleftrightarrow> sorted_wrt (\<lambda>a b. cmp a b < 0) ks \<and> (\<forall>k\<in>set ks. valid k)"

locale key_order =
  fixes cmp :: "string \<Rightarrow> string \<Rightarrow> int"
    and valid :: "string \<Rightarrow> bool"
  assumes cmp_eq: "valid a \<Longrightarrow> valid b \<Longrightarrow> cmp a b = 0 \<longleftrightarrow> a = b"
    and cmp_swap: "valid a \<Longrightarrow> valid b \<Longrightarrow> cmp a b < 0 \<longleftrightarrow> 0 < cmp b a"
    and cmp_trans: "valid a \<Longrightarrow> valid b \<Longrightarrow> valid c \<Longrightarrow> cmp a b < 0 \<Longrightarrow> cmp b c < 0 \<Longrightarrow> cmp a c < 0"
begin

lemma cuts_sorted:
  assumes "sorted_keys cmp valid (map ikey es)" "valid k"
  shows "cuts (cmp k) es"
proof -
  have "cmp k b \<ge> 0 \<longrightarrow> cmp k a > 0" if "cmp a b < 0" "valid a" "valid b" for a b
  proof
    assume "cmp k b \<ge> 0"
    then have "k = b \<or> cmp b k < 0" using cmp_eq [OF assms(2) that(3)] cmp_swap [OF that(3) assms(2)] by linarith
    then have "cmp a k < 0" using that cmp_trans [OF that(2,3) assms(2)] by auto
    then show "cmp k a > 0" using cmp_swap [OF that(2) assms(2)] by simp
  qed
  then show ?thesis
    using assms(1) unfolding cuts_def sorted_keys_def sorted_wrt_map
    by (auto elim!: sorted_wrt_mono_rel [rotated])
qed

lemma sorted_insert:
  assumes "sorted_keys cmp valid (map ikey es)" "valid k" "hit (cmp k) es = None"
  shows "sorted_keys cmp valid (map ikey (below (cmp k) es) @ k # map ikey (above (cmp k) es))"
proof -
  have v: "valid (ikey e)" if "e \<in> set es" for e using assms(1) that by (auto simp: sorted_keys_def)
  have b: "cmp (ikey e) k < 0" if "e \<in> set es" "cmp k (ikey e) > 0" for e
    using cmp_swap [OF v [OF that(1)] assms(2)] that(2) by simp
  have f: "sorted_wrt (\<lambda>x y. cmp (ikey x) (ikey y) < 0) (filter P es)" for P
    using assms(1) by (simp add: sorted_keys_def sorted_wrt_map sorted_wrt_filter)
  have "cmp (ikey x) (ikey y) < 0" if "x \<in> set (below (cmp k) es)" "y \<in> set (above (cmp k) es)" for x y
    using that b [of x] v cmp_trans [of "ikey x" k "ikey y"] assms(2) by (auto simp: below_def above_def)
  then show ?thesis
    using f b v assms(2)
    by (auto simp: sorted_keys_def sorted_wrt_append sorted_wrt_map below_def above_def)
qed

lemma sorted_delete:
  assumes "sorted_keys cmp valid (map ikey es)" "valid k"
  shows "sorted_keys cmp valid (map ikey (below (cmp k) es @ above (cmp k) es))"
proof -
  have v: "valid (ikey e)" if "e \<in> set es" for e using assms(1) that by (auto simp: sorted_keys_def)
  have f: "sorted_wrt (\<lambda>x y. cmp (ikey x) (ikey y) < 0) (filter P es)" for P
    using assms(1) by (simp add: sorted_keys_def sorted_wrt_map sorted_wrt_filter)
  have "cmp (ikey x) (ikey y) < 0" if "x \<in> set (below (cmp k) es)" "y \<in> set (above (cmp k) es)" for x y
    using that v [of x] v [of y] cmp_swap [of "ikey x" k] cmp_trans [of "ikey x" k "ikey y"] assms(2)
    by (auto simp: below_def above_def)
  then show ?thesis using f v
    by (auto simp: sorted_keys_def sorted_wrt_append sorted_wrt_map below_def above_def)
qed

end

section \<open>Both ways to compare keys\<close>

text \<open>The order of C strings.\<close>

fun lex_cmp :: "string \<Rightarrow> string \<Rightarrow> int" where
  "lex_cmp [] [] = 0"
| "lex_cmp [] (y # ys) = -1"
| "lex_cmp (x # xs) [] = 1"
| "lex_cmp (x # xs) (y # ys) = (if x = y then lex_cmp xs ys else if uchar x < uchar y then -1 else 1)"

definition c_string :: "string \<Rightarrow> bool" where
  "c_string s \<longleftrightarrow> NUL \<notin> set s"

lemma uchar_pos: "x \<noteq> NUL \<Longrightarrow> 0 < uchar x"
proof -
  have "uchar NUL = 0" by (simp add: uchar_def)
  then show "x \<noteq> NUL \<Longrightarrow> 0 < uchar x" using uchar_eq_iff [of x NUL] uchar_ge_0 [of x] by linarith
qed

lemma lex_cmp_eq: "lex_cmp a b = 0 \<longleftrightarrow> a = b"
  by (induction a b rule: lex_cmp.induct) auto

lemma lex_cmp_swap: "lex_cmp b a = - lex_cmp a b"
  using uchar_eq_iff by (induction a b rule: lex_cmp.induct) (auto simp: not_less order.order_iff_strict)

lemma lex_cmp_trans: "lex_cmp a b < 0 \<Longrightarrow> lex_cmp b c < 0 \<Longrightarrow> lex_cmp a c < 0"
proof (induction a b arbitrary: c rule: lex_cmp.induct)
  case (2 y ys)
  then show ?case by (cases c) auto
next
  case (4 x xs y ys)
  then show ?case by (cases c) (auto split: if_splits)
qed auto

lemma sgn_strncmp: "c_string a \<Longrightarrow> c_string b \<Longrightarrow> sgn (strncmp a b n) = lex_cmp (take n a) (take n b)"
proof (induction a b n rule: strncmp.induct)
  case (5 x xs y ys n)
  have "x \<noteq> y \<Longrightarrow> uchar x < uchar y \<or> uchar y < uchar x" using uchar_eq_iff [of x y] by linarith
  then show ?case using 5 by (auto simp: c_string_def)
qed (auto simp: c_string_def uchar_pos)

lemma lex_cmp_take:
  "lex_cmp a b = (if lex_cmp a (take (length a) b) = 0 then (if length a < length b then -1 else 0)
    else lex_cmp a (take (length a) b))"
  by (induction a b rule: lex_cmp.induct) auto

lemma lex_cmp_range: "lex_cmp a b \<in> {-1, 0, 1}"
  by (induction a b rule: lex_cmp.induct) auto

lemma cat_end: "c_string b \<Longrightarrow> cat b n \<noteq> NUL \<longleftrightarrow> n < length b"
  by (auto simp: cat_def c_string_def) (metis nth_mem)

lemma str_compare:
  assumes "c_string a" "c_string b"
  shows "vv_tree_compare VV_TREE_TYPE_STR a (length a) b = lex_cmp a b"
proof -
  let ?r = "strncmp a b (length a)" and ?x = "lex_cmp a (take (length a) b)"
  have s: "sgn ?r = ?x" using sgn_strncmp [OF assms, of "length a"] by simp
  consider "?r < 0" "?x = -1" | "?r = 0" "?x = 0" | "?r > 0" "?x = 1"
    using s by (cases "?r = 0"; cases "?r < 0") auto
  then show ?thesis
    using lex_cmp_take [of a b] cat_end [OF assms(2), of "length a"]
    by cases (simp_all add: vv_tree_compare_def Let_def)
qed

lemma num_compare:
  assumes "c_string a" "c_string b"
  shows "sgn (vv_tree_compare VV_TREE_TYPE_NUM a (length a) b)
    = (if length a < length b then -1 else if length b < length a then 1 else lex_cmp a b)"
  using sgn_strncmp [OF assms, of "length a"] by (auto simp: vv_tree_compare_def Let_def)

lemma sgn_sign: "(sgn (i::int) < 0) = (i < 0)" "(sgn i = 0) = (i = 0)" "(0 < sgn i) = (0 < i)"
  by (auto simp: sgn_if)

interpretation str_keys: key_order "\<lambda>a b. vv_tree_compare VV_TREE_TYPE_STR a (length a) b" c_string
proof
  fix a b c assume v: "c_string a" "c_string b"
  show "vv_tree_compare VV_TREE_TYPE_STR a (length a) b = 0 \<longleftrightarrow> a = b"
    using v by (simp add: str_compare lex_cmp_eq)
  show "vv_tree_compare VV_TREE_TYPE_STR a (length a) b < 0 \<longleftrightarrow> 0 < vv_tree_compare VV_TREE_TYPE_STR b (length b) a"
    using v lex_cmp_swap [of a b] by (simp add: str_compare)
  assume "c_string c"
  then show "vv_tree_compare VV_TREE_TYPE_STR a (length a) b < 0 \<Longrightarrow>
      vv_tree_compare VV_TREE_TYPE_STR b (length b) c < 0 \<Longrightarrow>
      vv_tree_compare VV_TREE_TYPE_STR a (length a) c < 0"
    using v lex_cmp_trans by (simp add: str_compare)
qed

interpretation num_keys: key_order "\<lambda>a b. vv_tree_compare VV_TREE_TYPE_NUM a (length a) b" c_string
proof
  let ?c = "\<lambda>a b. vv_tree_compare VV_TREE_TYPE_NUM a (length a) b"
  fix a b c assume v: "c_string a" "c_string b"
  show "?c a b = 0 \<longleftrightarrow> a = b"
    using num_compare [OF v] sgn_sign(2) [of "?c a b"] lex_cmp_eq [of a b] by (auto split: if_splits)
  show "?c a b < 0 \<longleftrightarrow> 0 < ?c b a"
    using num_compare [OF v] num_compare [OF v(2,1)] sgn_sign [of "?c a b"] sgn_sign [of "?c b a"]
      lex_cmp_swap [of a b] by (auto split: if_splits)
  assume c: "c_string c"
  assume "?c a b < 0" "?c b c < 0"
  then show "?c a c < 0"
    using num_compare [OF v] num_compare [OF v(2) c] num_compare [OF v(1) c]
      sgn_sign(1) [of "?c a b"] sgn_sign(1) [of "?c b c"] sgn_sign(1) [of "?c a c"] lex_cmp_trans [of a b c]
    by (auto split: if_splits)
qed

section \<open>The tree as a sorted list\<close>

definition root :: "vely_tree \<Rightarrow> avl" where
  "root T = lesser_node (tree T)"

definition tree_items :: "vely_tree \<Rightarrow> item list" where
  "tree_items T = (if has_keys (root T) then items (root T) else [])"

definition entries :: "vely_tree \<Rightarrow> (ckey \<times> nat) list" where
  "entries T = map snd (tree_items T)"

text \<open>The order in which a tree keeps its keys.\<close>

definition tree_order :: "vely_tree \<Rightarrow> string \<Rightarrow> string \<Rightarrow> int" where
  "tree_order T = (case eval T of Some f \<Rightarrow> f | None \<Rightarrow> (\<lambda>a b. vv_tree_compare (key_type T) a (length a) b))"

lemma eval_order: "VV_TREE_EVAL T (set_key k (-1) cu) = tree_order T (snd k)"
  by (auto simp: VV_TREE_EVAL_def tree_order_def set_key_def split: option.split)

text \<open>A tree that has no key yet has one node; otherwise all nodes have keys, in balance.\<close>

definition root_ok :: "vely_tree \<Rightarrow> avl \<Rightarrow> bool" where
  "root_ok T r \<longleftrightarrow>
     (if has_keys r then all_keyed r \<and> bal_root r \<and> links_ok T (map fst (items r)) \<and> distinct (map fst (items r))
        \<and> (\<forall>i\<in>set (map fst (items r)). i < fresh T)
      else (\<exists>n. r = Node n Null Null \<and> nid n < fresh T
        \<and> (sorted_tree T \<longrightarrow> lesser_list T (nid n) = None \<and> greater_list T (nid n) = None \<and> mn T = None \<and> mx T = None)))"

definition tree_ok :: "(string \<Rightarrow> bool) \<Rightarrow> vely_tree \<Rightarrow> bool" where
  "tree_ok valid T \<longleftrightarrow> (\<exists>n r. tree T = Node n r Null \<and> r \<noteq> Null \<and> root_ok T r)
     \<and> sorted_keys (tree_order T) valid (map ikey (tree_items T))
     \<and> count T = int (length (tree_items T))"

lemma ikey_snd: "ikey e = snd (fst (snd e))"
  by (cases e) auto

lemma has_keys_keyed: "all_keyed t \<Longrightarrow> has_keys t \<longleftrightarrow> t \<noteq> Null"
  by (cases t) (auto simp: has_keys_def)

lemma bal_root_size:
  assumes "bal_root t" "rh t < 120"
  shows "2 ^ (rh t div 2) \<le> length (items t) + 1"
  using bal_size [of "rebalance t"] rebalance_fix [OF assms] by simp

lemma small_height:
  assumes "bal_root t" "length (items t) < 2 ^ 51"
  shows "rh t < 105"
proof (cases t)
  case (Node m l g)
  have b: "rh a < 104" if "bal a" "length (items a) < 2 ^ 51" for a
  proof -
    have "(2::nat) ^ (rh a div 2) < 2 ^ 52" using bal_size [OF that(1)] that(2) by simp
    then have "rh a div 2 < 52" using power_less_imp_less_exp by (metis one_less_numeral_iff semiring_norm(76))
    then show ?thesis by linarith
  qed
  have "rh l < 104" "rh g < 104" using b [of l] b [of g] assms Node by auto
  then show ?thesis by (simp add: Node)
qed simp

text \<open>A new tree.\<close>

lemma tree_create_ok:
  "tree_ok valid (vv_tree_create f ef kt srt pr) \<and> entries (vv_tree_create f ef kt srt pr) = []
    \<and> count (vv_tree_create f ef kt srt pr) = 0"
  by (simp add: vv_tree_create_def vv_tree_create_root_def vv_tree_node_create_def tree_ok_def root_ok_def
      tree_items_def root_def has_keys_def entries_def sorted_keys_def)

section \<open>Operations and their answers\<close>

datatype tree_op = Insert ckey nat | Search ckey | Delete ckey | Below bool ckey | Above bool ckey | Least | Greatest

text \<open>The key and data a cursor points to.\<close>

definition at_cursor :: "vely_tree \<Rightarrow> vely_tree_cursor \<Rightarrow> (ckey \<times> nat) option" where
  "at_cursor T cu =
     (case current cu of None \<Rightarrow> None | Some i \<Rightarrow> map_option (\<lambda>n. (key n, data n)) (node_at i (root T)))"

definition answer :: "vely_tree \<Rightarrow> vely_tree_cursor \<Rightarrow> (ckey \<times> nat) option" where
  "answer T cu = (if status cu = VV_OKAY then at_cursor T cu else None)"

fun tree_step :: "tstate \<Rightarrow> tree_op \<Rightarrow> (ckey \<times> nat) option \<times> tstate" where
  "tree_step (T, cu) (Insert k d) =
     (case vv_tree_insert_f False False cu T k (-1) d mem_start of
        Inl e \<Rightarrow> (None, T, cu)
      | Inr ((T', cu'), m) \<Rightarrow> (answer T' cu', T', cu'))"
| "tree_step (T, cu) (Search k) = (let cu' = vv_tree_search_f cu T k (-1) in (answer T cu', T, cu'))"
| "tree_step (T, cu) (Delete k) =
     (case vv_tree_delete_f cu T k (-1) of
        (T', cu') \<Rightarrow> (if status cu' = VV_OKAY then Some (rkey cu', res cu') else None, T', cu'))"
| "tree_step (T, cu) (Below equal k) =
     (let cu' = vv_tree_search_lesser_equal_f cu T equal k (-1) in (answer T cu', T, cu'))"
| "tree_step (T, cu) (Above equal k) =
     (let cu' = vv_tree_search_greater_equal_f cu T equal k (-1) in (answer T cu', T, cu'))"
| "tree_step (T, cu) Least = (let cu' = vv_tree_min_f cu T in (answer T cu', T, cu'))"
| "tree_step (T, cu) Greatest = (let cu' = vv_tree_max_f cu T in (answer T cu', T, cu'))"

text \<open>The same on a sorted list of keys and data.\<close>

type_synonym entry = "ckey \<times> nat"

definition lesser_part :: "(string \<Rightarrow> string \<Rightarrow> int) \<Rightarrow> ckey \<Rightarrow> entry list \<Rightarrow> entry list" where
  "lesser_part cmp k es = [e\<leftarrow>es. cmp (snd k) (snd (fst e)) > 0]"

definition greater_part :: "(string \<Rightarrow> string \<Rightarrow> int) \<Rightarrow> ckey \<Rightarrow> entry list \<Rightarrow> entry list" where
  "greater_part cmp k es = [e\<leftarrow>es. cmp (snd k) (snd (fst e)) < 0]"

definition lookup :: "(string \<Rightarrow> string \<Rightarrow> int) \<Rightarrow> ckey \<Rightarrow> entry list \<Rightarrow> entry option" where
  "lookup cmp k es = List.find (\<lambda>e. cmp (snd k) (snd (fst e)) = 0) es"

fun list_step :: "(string \<Rightarrow> string \<Rightarrow> int) \<Rightarrow> entry list \<Rightarrow> tree_op \<Rightarrow> entry option \<times> entry list" where
  "list_step cmp es (Insert k d) =
     (case lookup cmp k es of
        Some e \<Rightarrow> (None, es)
      | None \<Rightarrow> (Some (k, d), lesser_part cmp k es @ (k, d) # greater_part cmp k es))"
| "list_step cmp es (Search k) = (lookup cmp k es, es)"
| "list_step cmp es (Delete k) =
     (case lookup cmp k es of
        Some e \<Rightarrow> (Some e, lesser_part cmp k es @ greater_part cmp k es)
      | None \<Rightarrow> (None, es))"
| "list_step cmp es (Below equal k) =
     (or_else (if equal then lookup cmp k es else None) (last_opt (lesser_part cmp k es)), es)"
| "list_step cmp es (Above equal k) =
     (or_else (if equal then lookup cmp k es else None) (head_opt (greater_part cmp k es)), es)"
| "list_step cmp es Least = (head_opt es, es)"
| "list_step cmp es Greatest = (last_opt es, es)"

fun legal :: "(string \<Rightarrow> bool) \<Rightarrow> tree_op \<Rightarrow> bool" where
  "legal valid (Insert k d) = valid (snd k)"
| "legal valid (Search k) = valid (snd k)"
| "legal valid (Delete k) = valid (snd k)"
| "legal valid (Below equal k) = valid (snd k)"
| "legal valid (Above equal k) = valid (snd k)"
| "legal valid Least = True"
| "legal valid Greatest = True"

lemma parts_items:
  "lesser_part cmp k (map snd es) = map snd (below (cmp (snd k)) es)"
  "greater_part cmp k (map snd es) = map snd (above (cmp (snd k)) es)"
  "lookup cmp k (map snd es) = map_option snd (hit (cmp (snd k)) es)"
  by (simp_all add: lesser_part_def greater_part_def below_def above_def filter_map o_def ikey_snd)
    (induction es, auto simp: lookup_def hit_def ikey_snd)

lemma head_opt_map: "head_opt (map f xs) = map_option f (head_opt xs)" "last_opt (map f xs) = map_option f (last_opt xs)"
  by (cases xs, simp, simp) (simp add: last_opt_def head_opt_def rev_map split: list.split)

lemma map_or_else: "map_option f (or_else a b) = or_else (map_option f a) (map_option f b)"
  by (cases a) auto

section \<open>Each operation\<close>

lemma node_at_item:
  assumes "distinct (map fst (items t))" "e \<in> set (items t)"
  shows "\<exists>n. node_at (fst e) t = Some n \<and> item_of n = e"
proof -
  have none: "i \<notin> fst ` set (items t) \<Longrightarrow> node_at i t = None" for i t
    by (induction t) (auto simp: item_of_def image_Un)
  show ?thesis using assms
  proof (induction t)
    case (Node m l g)
    then show ?case
      using none [of "fst e" l] by (auto split: option.splits) (force simp: image_iff)+
  qed simp
qed

lemma root_items: "tree_ok valid T \<Longrightarrow> has_keys (root T) \<Longrightarrow> tree_items T = items (root T) \<and> root_ok T (root T)
    \<and> (\<exists>n. tree T = plug VV_TREE_LESSER n (root T) Null)"
  by (auto simp: tree_ok_def tree_items_def root_def)

lemma answer_found:
  assumes "tree_ok valid T" "current cu = Some (fst e)" "status cu = VV_OKAY" "e \<in> set (tree_items T)"
  shows "answer T cu = Some (snd e)"
proof -
  have "has_keys (root T)" using assms(4) by (auto simp: tree_items_def split: if_splits)
  then have r: "distinct (map fst (items (root T)))" "e \<in> set (items (root T))"
    using root_items [OF assms(1)] assms(4) by (auto simp: root_ok_def)
  then show ?thesis using node_at_item [OF r] assms(2,3)
    by (auto simp: answer_def at_cursor_def item_of_def)
qed

lemma set_found_answer:
  assumes "tree_ok valid T" "map_option item_of r = e" "set_option e \<subseteq> set (tree_items T)"
  shows "answer T (set_found r cu) = map_option snd e"
proof (cases r)
  case None
  then show ?thesis using assms(2) by (auto simp: set_found_def answer_def VV_OKAY_def VV_ERR_EXIST_def)
next
  case (Some n)
  then show ?thesis
    using answer_found [of valid T "set_found r cu" "item_of n"] assms by (auto simp: set_found_def)
qed

text \<open>A tree with room for more operations, that keeps an order.\<close>

definition ordered :: "(string \<Rightarrow> string \<Rightarrow> int) \<Rightarrow> (string \<Rightarrow> bool) \<Rightarrow> nat \<Rightarrow> vely_tree \<Rightarrow> bool" where
  "ordered cmp valid n T \<longleftrightarrow> tree_order T = cmp \<and> tree_ok valid T \<and> count T + int n \<le> 2 ^ 51 \<and> \<not> process T"

lemma found_set:
  "set_option (hit ev es) \<subseteq> set es" "set_option (last_opt (below ev es)) \<subseteq> set es"
  "set_option (head_opt (above ev es)) \<subseteq> set es"
  by (auto simp: hit_def find_Some_iff below_def above_def dest!: opt_in)

lemma or_else_set: "set_option a \<subseteq> s \<Longrightarrow> set_option b \<subseteq> s \<Longrightarrow> set_option (or_else a b) \<subseteq> s"
  by (cases a) auto

context key_order
begin

lemma keys_cut: "ordered cmp valid n T \<Longrightarrow> valid (snd k) \<Longrightarrow> cuts (cmp (snd k)) (tree_items T)"
  using cuts_sorted by (auto simp: ordered_def tree_ok_def)

lemma search_answer:
  assumes "ordered cmp valid n T" "valid (snd k)"
  shows "answer T (vv_tree_search_f cu T k (-1)) = lookup cmp k (entries T)"
proof -
  let ?r = "if has_keys (root T) then search_loop (cmp (snd k)) (root T) else None"
  have o: "tree_ok valid T" "tree_order T = cmp" using assms(1) by (auto simp: ordered_def)
  have "map_option item_of ?r = hit (cmp (snd k)) (tree_items T)"
    using search_loop_hit [of "cmp (snd k)" "root T"] keys_cut [OF assms] by (auto simp: tree_items_def)
  from set_found_answer [OF o(1) this found_set(1)] show ?thesis
    by (cases "has_keys (root T)") (simp_all add: vv_tree_search_f_def vv_tree_search_def Let_def eval_order o root_def [symmetric]
        entries_def parts_items)
qed

lemma below_answer:
  assumes "ordered cmp valid n T" "valid (snd k)"
  shows "answer T (vv_tree_search_lesser_equal_f cu T equal k (-1))
    = or_else (if equal then lookup cmp k (entries T) else None) (last_opt (lesser_part cmp k (entries T)))"
proof -
  let ?r = "if has_keys (root T) then search_lesser_loop (cmp (snd k)) equal (root T) None else None"
    and ?e = "or_else (if equal then hit (cmp (snd k)) (tree_items T) else None)
        (last_opt (below (cmp (snd k)) (tree_items T)))"
  have o: "tree_ok valid T" "tree_order T = cmp" using assms(1) by (auto simp: ordered_def)
  have e: "map_option item_of ?r = ?e"
    using search_lesser_loop_last [of "cmp (snd k)" "root T" equal None] keys_cut [OF assms]
    by (auto simp: tree_items_def)
  have "set_option ?e \<subseteq> set (tree_items T)" by (intro or_else_set found_set) (simp add: found_set)
  from set_found_answer [OF o(1) e this] show ?thesis
    by (cases "has_keys (root T)"; cases equal) (simp_all add: vv_tree_search_lesser_equal_f_def vv_tree_search_lesser_equal_def Let_def eval_order o
        root_def [symmetric] entries_def parts_items map_or_else head_opt_map)
qed

lemma above_answer:
  assumes "ordered cmp valid n T" "valid (snd k)"
  shows "answer T (vv_tree_search_greater_equal_f cu T equal k (-1))
    = or_else (if equal then lookup cmp k (entries T) else None) (head_opt (greater_part cmp k (entries T)))"
proof -
  let ?r = "if has_keys (root T) then search_greater_loop (cmp (snd k)) equal (root T) None else None"
    and ?e = "or_else (if equal then hit (cmp (snd k)) (tree_items T) else None)
        (head_opt (above (cmp (snd k)) (tree_items T)))"
  have o: "tree_ok valid T" "tree_order T = cmp" using assms(1) by (auto simp: ordered_def)
  have e: "map_option item_of ?r = ?e"
    using search_greater_loop_head [of "cmp (snd k)" "root T" equal None] keys_cut [OF assms]
    by (auto simp: tree_items_def)
  have "set_option ?e \<subseteq> set (tree_items T)" by (intro or_else_set found_set) (simp add: found_set)
  from set_found_answer [OF o(1) e this] show ?thesis
    by (cases "has_keys (root T)"; cases equal) (simp_all add: vv_tree_search_greater_equal_f_def vv_tree_search_greater_equal_def Let_def eval_order o
        root_def [symmetric] entries_def parts_items map_or_else head_opt_map)
qed

end

lemma ends_answer:
  assumes ok: "tree_ok valid T"
  shows "answer T (vv_tree_min_f cu T) = head_opt (entries T)" "answer T (vv_tree_max_f cu T) = last_opt (entries T)"
proof -
  have c: "count T = 0 \<longleftrightarrow> tree_items T = []" using ok by (auto simp: tree_ok_def)
  have l: "sorted_tree T \<Longrightarrow> tree_items T \<noteq> [] \<Longrightarrow>
      mn T = map_option fst (head_opt (tree_items T)) \<and> mx T = map_option fst (last_opt (tree_items T))"
    using root_items [OF ok] by (auto simp: tree_items_def root_ok_def links_ok_def head_opt_map split: if_splits)
  have u: "tree_items T \<noteq> [] \<Longrightarrow> map_option nid (leftmost (root T)) = map_option fst (head_opt (tree_items T))
      \<and> map_option nid (rightmost (root T)) = map_option fst (last_opt (tree_items T))"
    by (auto simp: tree_items_def leftmost_head [symmetric] rightmost_last [symmetric] option.map_comp o_def split: if_splits)
  show "answer T (vv_tree_min_f cu T) = head_opt (entries T)"
  proof (cases "head_opt (tree_items T)")
    case None
    then show ?thesis using c by (auto simp: vv_tree_min_f_def answer_def VV_OKAY_def VV_ERR_EXIST_def entries_def)
  next
    case (Some e)
    then show ?thesis
      using answer_found [OF ok, of "vv_tree_min_f cu T" e] c l u opt_in(1) [OF Some]
      by (auto simp: vv_tree_min_f_def entries_def head_opt_map root_def [symmetric])
  qed
  show "answer T (vv_tree_max_f cu T) = last_opt (entries T)"
  proof (cases "last_opt (tree_items T)")
    case None
    then show ?thesis using c by (auto simp: vv_tree_max_f_def answer_def VV_OKAY_def VV_ERR_EXIST_def entries_def)
  next
    case (Some e)
    then show ?thesis
      using answer_found [OF ok, of "vv_tree_max_f cu T" e] c l u opt_in(2) [OF Some]
      by (auto simp: vv_tree_max_f_def entries_def head_opt_map root_def [symmetric])
  qed
qed

lemma distinct_parts: "distinct (map fst es) \<Longrightarrow> distinct (map fst (below ev es) @ map fst (above ev es))"
  by (induction es) (auto simp: below_def above_def)

text \<open>Inserting.\<close>

lemma fill_root:
  assumes n: "root T = Node n Null Null" "\<not> key_present n" and r: "root_ok T (root T)"
    and f: "fill_node d n (T, cu) = (n1, T1, cu1)"
  shows "root_ok T1 (Node n1 Null Null) \<and> same_kind T T1 \<and> count T1 = count T + 1 \<and> fresh T1 = fresh T
    \<and> item_of n1 = (nid n, ckey cu, d) \<and> key_present n1 \<and> cu1 = cu\<lparr>current := Some (nid n), status := VV_OKAY\<rparr>"
  using assms
  by (auto simp: fill_node_def root_ok_def has_keys_def same_kind_def item_of_def close_def links_ok_def
      linked_def follows_def Let_def split: if_splits)

lemma kind_order: "same_kind T T1 \<Longrightarrow> tree_order (T1\<lparr>tree := p\<rparr>) = tree_order T"
  by (auto simp: same_kind_def tree_order_def split: option.split)

lemma links_tree [simp]: "links_ok (T\<lparr>tree := p\<rparr>) ids = links_ok T ids"
  by (simp add: links_ok_def)

lemma root_ok_tree [simp]: "root_ok (T\<lparr>tree := p\<rparr>) r = root_ok T r"
  by (simp add: root_ok_def)

lemma insert_f_run:
  assumes "\<not> process T" "tree T = plug VV_TREE_LESSER n (root T) Null"
    "vv_tree_insert (tree_order T (snd k)) d (plug VV_TREE_LESSER n (root T) Null) VV_TREE_LESSER (T, set_key k (-1) cu)
      = (p, T1, cu1)"
  shows "vv_tree_insert_f pk pd cu T k (-1) d m = Inr ((T1\<lparr>tree := p\<rparr>, cu1), m)"
  using assms by (simp add: vv_tree_insert_f_def res_bind_def eval_order)

text \<open>The root after an insertion.\<close>

lemma insert_root:
  assumes ok: "tree_ok valid T" and c: "cuts (tree_order T (snd k)) (tree_items T)" and s: "count T < 2 ^ 51"
    and np: "\<not> process T"
  shows "\<exists>n' r' T1 cu1. vv_tree_insert_f pk pd cu T k (-1) d m = Inr ((T1\<lparr>tree := Node n' r' Null\<rparr>, cu1), m)
    \<and> same_kind T T1 \<and> root_ok T1 r' \<and> r' \<noteq> Null
    \<and> (if hit (tree_order T (snd k)) (tree_items T) \<noteq> None
       then T1 = T \<and> items r' = tree_items T \<and> status cu1 = VV_ERR_EXIST \<and> has_keys r'
       else \<exists>i. items r' = below (tree_order T (snd k)) (tree_items T) @ (i, k, d) # above (tree_order T (snd k)) (tree_items T)
         \<and> has_keys r' \<and> count T1 = count T + 1 \<and> current cu1 = Some i \<and> status cu1 = VV_OKAY)"
proof -
  let ?ev = "tree_order T (snd k)" and ?cu = "set_key k (-1) cu"
  have ck: "ckey ?cu = k" by (simp add: set_key_def)
  obtain n where tr: "tree T = plug VV_TREE_LESSER n (root T) Null" and ro: "root_ok T (root T)" and nn: "root T \<noteq> Null"
    using ok by (auto simp: tree_ok_def root_def)
  show ?thesis
  proof (cases "has_keys (root T)")
    case False
    then obtain m where m: "root T = Node m Null Null" "\<not> key_present m"
      using ro by (auto simp: root_ok_def has_keys_def)
    obtain n1 T1 cu1 where f: "fill_node d m (T, ?cu) = (n1, T1, cu1)" by (metis surj_pair)
    have "vv_tree_insert ?ev d (plug VV_TREE_LESSER n (root T) Null) VV_TREE_LESSER (T, ?cu)
        = (Node n (Node n1 Null Null) Null, T1, cu1)"
      using insert_new_node [OF m(2), of ?ev d VV_TREE_LESSER n Null "(T, ?cu)"] m(1) f by simp
    from insert_f_run [OF np tr this] show ?thesis
      using fill_root [OF m ro f] False m(2) ck
      by (intro exI [of _ n] exI [of _ "Node n1 Null Null"] exI [of _ T1] exI [of _ cu1])
        (auto simp: tree_items_def has_keys_def m(1))
  next
    case True
    then have it: "tree_items T = items (root T)" and k: "all_keyed (root T)" "bal_root (root T)"
        "links_ok T (map fst (items (root T)))" "distinct (map fst (items (root T)))"
        "\<forall>i\<in>set (map fst (items (root T))). i < fresh T"
      using ro by (auto simp: tree_items_def root_ok_def)
    have fr: "fresh T \<notin> set (map fst (items (root T)))" using k(5) by blast
    obtain h r' s' where i: "vv_tree_insert ?ev d (plug VV_TREE_LESSER n (root T) Null) VV_TREE_LESSER (T, ?cu)
        = (plug VV_TREE_LESSER (n\<lparr>height := h\<rparr>) r' Null, s')" "inserted ?ev d (root T) r' (T, ?cu) s' [] []"
      using insert_ok [of "root T" ?ev "(T, ?cu)" "[]" "[]" d VV_TREE_LESSER n Null] nn k c it fr by auto
    obtain T1 cu1 where s': "s' = (T1, cu1)" by (cases s')
    have hk: "has_keys r'" using i(2) has_keys_keyed [of r'] by (simp add: inserted_def)
    have len: "length (items (root T)) < 2 ^ 51" using ok s it by (simp add: tree_ok_def)
    have b: "bal_root r'" using i(2) small_height [OF k(2) len] k(2) by (simp add: inserted_def)
    show ?thesis
    proof (cases "hit ?ev (items (root T))")
      case None
      then have o: "one_more d (T, ?cu) (T1, cu1)" "links_ok T1 (map fst (items r'))" "all_keyed r'"
          "items r' = below ?ev (items (root T)) @ (fresh T, k, d) # above ?ev (items (root T))"
        using i(2) ck by (auto simp: inserted_def s')
      have d: "distinct (map fst (items r'))"
        unfolding o(4) using distinct_parts [OF k(4), of ?ev] fr map_fst_below [of ?ev "items (root T)"] by auto
      have lt: "\<forall>i\<in>set (map fst (items r')). i < fresh T1"
      proof
        fix i assume "i \<in> set (map fst (items r'))"
        then have "i = fresh T \<or> i \<in> set (map fst (items (root T)))"
          unfolding o(4) using map_fst_below [of ?ev "items (root T)"] by auto
        then have "i = fresh T \<or> i < fresh T" using k(5) by blast
        then show "i < fresh T1" using o(1) by (auto simp: one_more_def)
      qed
      show ?thesis
        using insert_f_run [OF np tr i(1) [unfolded s']] None o b hk d lt True it i(2)
        by (intro exI [of _ "n\<lparr>height := h\<rparr>"] exI [of _ r'] exI [of _ T1] exI [of _ cu1])
          (auto simp: root_ok_def one_more_def inserted_def)
    next
      case (Some e)
      then have o: "items r' = items (root T)" "T1 = T" "cu1 = ?cu\<lparr>status := VV_ERR_EXIST\<rparr>" "all_keyed r'" "r' \<noteq> Null"
        using i(2) by (simp_all add: inserted_def s')
      show ?thesis
        using insert_f_run [OF np tr i(1) [unfolded s']] Some o b hk k True it
        by (intro exI [of _ "n\<lparr>height := h\<rparr>"] exI [of _ r'] exI [of _ T1] exI [of _ cu1])
          (auto simp: root_ok_def)
    qed
  qed
qed

text \<open>Deleting.\<close>

definition keyed_items :: "avl \<Rightarrow> item list" where
  "keyed_items r = (if has_keys r then items r else [])"

lemma keyed_items_all: "all_keyed r \<Longrightarrow> keyed_items r = items r"
  by (cases r) (auto simp: keyed_items_def has_keys_def)

lemma delete_f_run:
  assumes "has_keys (root T)" "tree T = plug VV_TREE_LESSER n (root T) Null"
    "vv_tree_delete (tree_order T (snd k)) (plug VV_TREE_LESSER n (root T) Null) VV_TREE_LESSER (T, set_key k (-1) cu)
      = (plug VV_TREE_LESSER n1 r1 Null, T1, cu1)"
  shows "vv_tree_delete_f cu T k (-1) = (if r1 = Null then vv_tree_create_root (T1\<lparr>tree := Node n1 r1 Null\<rparr>)
      else T1\<lparr>tree := Node n1 r1 Null\<rparr>, cu1)"
  using assms by (simp add: vv_tree_delete_f_def Let_def eval_order root_def [symmetric])

lemma create_root_ok:
  assumes "links_ok T []"
  shows "\<exists>c T2. vv_tree_create_root (T\<lparr>tree := Node n Null Null\<rparr>) = T2\<lparr>tree := Node n (Node c Null Null) Null\<rparr>
    \<and> same_kind T T2 \<and> root_ok T2 (Node c Null Null) \<and> \<not> key_present c \<and> count T2 = count T"
proof (intro exI conjI)
  let ?c = "\<lparr>nid = fresh T, key = (0, []), data = 0, height = 0, key_present = False\<rparr>"
    and ?T = "T\<lparr>fresh := fresh T + 1, lesser_list := (lesser_list T)(fresh T := None),
      greater_list := (greater_list T)(fresh T := None)\<rparr>"
  show "vv_tree_create_root (T\<lparr>tree := Node n Null Null\<rparr>) = ?T\<lparr>tree := Node n (Node ?c Null Null) Null\<rparr>"
    by (simp add: vv_tree_create_root_def vv_tree_node_create_def)
  show "same_kind T ?T" by (simp add: same_kind_def)
  show "root_ok ?T (Node ?c Null Null)"
    using assms by (auto simp: root_ok_def has_keys_def links_ok_def)
qed simp_all

lemma delete_root:
  assumes ok: "tree_ok valid T" and c: "cuts (tree_order T (snd k)) (tree_items T)" and s: "count T < 2 ^ 51"
  shows "\<exists>n' r' T1 cu1. vv_tree_delete_f cu T k (-1) = (T1\<lparr>tree := Node n' r' Null\<rparr>, cu1)
    \<and> same_kind T T1 \<and> root_ok T1 r' \<and> r' \<noteq> Null
    \<and> (case hit (tree_order T (snd k)) (tree_items T) of
         None \<Rightarrow> map snd (keyed_items r') = map snd (tree_items T) \<and> count T1 = count T \<and> status cu1 = VV_ERR_EXIST
       | Some e \<Rightarrow> map snd (keyed_items r')
             = map snd (below (tree_order T (snd k)) (tree_items T) @ above (tree_order T (snd k)) (tree_items T))
           \<and> count T1 = count T - 1 \<and> status cu1 = VV_OKAY \<and> rkey cu1 = fst (snd e) \<and> res cu1 = snd (snd e))"
proof -
  let ?ev = "tree_order T (snd k)" and ?cu = "set_key k (-1) cu"
  obtain n where tr: "tree T = plug VV_TREE_LESSER n (root T) Null" and ro: "root_ok T (root T)" and nn: "root T \<noteq> Null"
    using ok by (auto simp: tree_ok_def root_def)
  show ?thesis
  proof (cases "has_keys (root T)")
    case False
    have "T\<lparr>tree := plug VV_TREE_LESSER n (root T) Null\<rparr> = T" unfolding tr [symmetric] by simp
    then have "vv_tree_delete_f cu T k (-1) = (T\<lparr>tree := Node n (root T) Null\<rparr>, ?cu\<lparr>status := VV_ERR_EXIST\<rparr>)"
      using False by (simp add: vv_tree_delete_f_def Let_def root_def [symmetric])
    then show ?thesis using False ro nn
      by (intro exI [of _ n] exI [of _ "root T"] exI [of _ T] exI) (auto simp: tree_items_def keyed_items_def)
  next
    case True
    then have it: "tree_items T = items (root T)" and k: "all_keyed (root T)" "bal_root (root T)"
        "links_ok T (map fst (items (root T)))" "distinct (map fst (items (root T)))"
        "\<forall>i\<in>set (map fst (items (root T))). i < fresh T"
      using ro by (auto simp: tree_items_def root_ok_def)
    obtain h r1 s' where i: "vv_tree_delete ?ev (plug VV_TREE_LESSER n (root T) Null) VV_TREE_LESSER (T, ?cu)
        = (plug VV_TREE_LESSER (n\<lparr>height := h\<rparr>) r1 Null, s')" "deleted ?ev (root T) r1 (T, ?cu) s' [] []"
      using tree_delete_ok [of "root T" ?ev "(T, ?cu)" "[]" "[]" VV_TREE_LESSER n Null] nn k c it by auto
    obtain T1 cu1 where s': "s' = (T1, cu1)" by (cases s')
    note run = delete_f_run [OF True tr i(1) [unfolded s']]
    have len: "length (items (root T)) < 2 ^ 51" using ok s it by (simp add: tree_ok_def)
    have b: "bal_root r1" "all_keyed r1"
      using i(2) small_height [OF k(2) len] k(2) by (simp_all add: deleted_def shrunk_def)
    have d: "same_kind T T1" "links_ok T1 (map fst (items r1))" "distinct (map fst (items r1))" "fresh T1 = fresh T"
        "set (map fst (items r1)) \<subseteq> set (map fst (items (root T)))"
      using i(2) by (simp_all add: deleted_def s')
    have a: "case hit ?ev (tree_items T) of
         None \<Rightarrow> map snd (items r1) = map snd (tree_items T) \<and> count T1 = count T \<and> status cu1 = VV_ERR_EXIST
       | Some e \<Rightarrow> map snd (items r1) = map snd (below ?ev (tree_items T) @ above ?ev (tree_items T))
           \<and> count T1 = count T - 1 \<and> status cu1 = VV_OKAY \<and> rkey cu1 = fst (snd e) \<and> res cu1 = snd (snd e)"
      using i(2) by (auto simp: deleted_def s' it split: option.splits)
    show ?thesis
    proof (cases "r1 = Null")
      case r1: True
      then have "links_ok T1 []" using d(2) by simp
      from create_root_ok [OF this, of "n\<lparr>height := h\<rparr>"] obtain c T2 where
        c: "vv_tree_create_root (T1\<lparr>tree := Node (n\<lparr>height := h\<rparr>) Null Null\<rparr>)
              = T2\<lparr>tree := Node (n\<lparr>height := h\<rparr>) (Node c Null Null) Null\<rparr>"
          "same_kind T1 T2" "root_ok T2 (Node c Null Null)" "\<not> key_present c" "count T2 = count T1"
        by blast
      have ki: "keyed_items (Node c Null Null) = items r1" using c(4) r1 by (simp add: keyed_items_def has_keys_def)
      have e: "vv_tree_delete_f cu T k (-1) = (T2\<lparr>tree := Node (n\<lparr>height := h\<rparr>) (Node c Null Null) Null\<rparr>, cu1)"
        using run r1 c(1) by simp
      have "same_kind T T2" using d(1) c(2) by (simp add: same_kind_def)
      then show ?thesis using e c(3) a unfolding ki [symmetric] c(5) [symmetric] by blast
    next
      case r1: False
      have "\<forall>i\<in>set (map fst (items r1)). i < fresh T1" using d(4,5) k(5) by (metis subsetD)
      then have "root_ok T1 r1" using b d r1 has_keys_keyed [OF b(2)] unfolding root_ok_def by simp
      moreover have "vv_tree_delete_f cu T k (-1) = (T1\<lparr>tree := Node (n\<lparr>height := h\<rparr>) r1 Null\<rparr>, cu1)"
        using run r1 by simp
      ultimately show ?thesis using r1 a d(1) unfolding keyed_items_all [OF b(2), symmetric] by blast
    qed
  qed
qed

section \<open>The tree refines the sorted list\<close>

lemma tree_items_root: "tree_items (T\<lparr>tree := Node n r Null\<rparr>) = keyed_items r"
  by (simp add: tree_items_def keyed_items_def root_def)

lemma map_ikey: "map ikey es = map (\<lambda>e. snd (fst e)) (map snd es)"
  by (simp add: ikey_snd o_def)

lemma ordered_step:
  assumes k: "same_kind T T1" and o: "ordered cmp valid (Suc n) T" and r: "root_ok T1 r" "r \<noteq> Null"
    and s: "sorted_keys cmp valid (map ikey (keyed_items r))" and c: "count T1 = int (length (keyed_items r))"
    and le: "count T1 \<le> count T + 1"
  shows "ordered cmp valid n (T1\<lparr>tree := Node m r Null\<rparr>)"
proof -
  have t: "tree_order (T1\<lparr>tree := Node m r Null\<rparr>) = cmp"
    using kind_order [OF k] o by (simp add: ordered_def)
  have p: "\<not> process T1" using k o by (simp add: same_kind_def ordered_def)
  show ?thesis using r s c le o p unfolding ordered_def tree_ok_def t
    by (auto simp: tree_items_root)
qed

lemma ordered_Suc: "ordered cmp valid (Suc n) T \<Longrightarrow> ordered cmp valid n T"
  by (simp add: ordered_def)

context key_order
begin

lemma insert_step:
  assumes o: "ordered cmp valid (Suc n) T" and v: "valid (snd k)"
    and st: "tree_step (T, cu) (Insert k d) = (a, T', cu')"
  shows "ordered cmp valid n T' \<and> list_step cmp (entries T) (Insert k d) = (a, entries T')"
proof -
  have ok: "tree_ok valid T" "tree_order T = cmp" "count T < 2 ^ 51" "\<not> process T"
    using o by (auto simp: ordered_def)
  have sk: "sorted_keys cmp valid (map ikey (tree_items T))" using ok by (simp add: tree_ok_def)
  note cu = keys_cut [OF o v]
  from insert_root [OF ok(1) cu [folded ok(2)] ok(3,4), of False False cu d mem_start] obtain n' r' T1 cu1 where
    i: "vv_tree_insert_f False False cu T k (-1) d mem_start = Inr ((T1\<lparr>tree := Node n' r' Null\<rparr>, cu1), mem_start)"
      "same_kind T T1" "root_ok T1 r'" "r' \<noteq> Null" and
    h: "if hit (cmp (snd k)) (tree_items T) \<noteq> None
       then T1 = T \<and> items r' = tree_items T \<and> status cu1 = VV_ERR_EXIST \<and> has_keys r'
       else \<exists>i. items r' = below (cmp (snd k)) (tree_items T) @ (i, k, d) # above (cmp (snd k)) (tree_items T)
         \<and> has_keys r' \<and> count T1 = count T + 1 \<and> current cu1 = Some i \<and> status cu1 = VV_OKAY"
    unfolding ok(2) by blast
  let ?T = "T1\<lparr>tree := Node n' r' Null\<rparr>"
  have e: "T' = ?T" "cu' = cu1" "a = answer ?T cu1" using st i(1) by auto
  have hk: "keyed_items r' = items r'" using h by (auto simp: keyed_items_def split: if_splits)
  show ?thesis
  proof (cases "hit (cmp (snd k)) (tree_items T)")
    case None
    then obtain j where j: "items r' = below (cmp (snd k)) (tree_items T) @ (j, k, d) # above (cmp (snd k)) (tree_items T)"
        "count T1 = count T + 1" "current cu1 = Some j" "status cu1 = VV_OKAY"
      using h by auto
    have len: "length (items r') = length (tree_items T) + 1"
    proof -
      have "length (below ev es) + length (above ev es) = length es" if "hit ev es = None" for ev es
        using that by (induction es) (auto split: if_splits)
      then show ?thesis using None by (simp add: j(1))
    qed
    have "ordered cmp valid n ?T"
      using ordered_step [OF i(2) o i(3,4)] sorted_insert [OF sk v None] len ok(1)
      by (simp add: hk j(1,2) tree_ok_def)
    moreover from this have "answer ?T cu1 = Some (k, d)"
      using answer_found [of valid ?T cu1 "(j, k, d)"] j(1,3,4) hk by (simp add: ordered_def tree_items_root)
    moreover have "list_step cmp (entries T) (Insert k d) = (Some (k, d), entries ?T)"
      using None by (simp add: entries_def parts_items tree_items_root hk j(1))
    ultimately show ?thesis using e by simp
  next
    case (Some x)
    then have j: "T1 = T" "items r' = tree_items T" "status cu1 = VV_ERR_EXIST" using h by auto
    have "ordered cmp valid n ?T"
      using ordered_step [OF i(2) o i(3,4)] sk ok(1) by (simp add: hk j tree_ok_def)
    moreover have "answer ?T cu1 = None" using j(3) by (simp add: answer_def VV_OKAY_def VV_ERR_EXIST_def)
    moreover have "list_step cmp (entries T) (Insert k d) = (None, entries ?T)"
      using Some by (simp add: entries_def parts_items tree_items_root hk j)
    ultimately show ?thesis using e by simp
  qed
qed

lemma delete_step:
  assumes o: "ordered cmp valid (Suc n) T" and v: "valid (snd k)"
    and st: "tree_step (T, cu) (Delete k) = (a, T', cu')"
  shows "ordered cmp valid n T' \<and> list_step cmp (entries T) (Delete k) = (a, entries T')"
proof -
  have ok: "tree_ok valid T" "tree_order T = cmp" "count T < 2 ^ 51" using o by (auto simp: ordered_def)
  have sk: "sorted_keys cmp valid (map ikey (tree_items T))" and ct: "count T = int (length (tree_items T))"
    using ok by (simp_all add: tree_ok_def)
  note cu = keys_cut [OF o v]
  from delete_root [OF ok(1) cu [folded ok(2)] ok(3), of cu] obtain n' r' T1 cu1 where
    i: "vv_tree_delete_f cu T k (-1) = (T1\<lparr>tree := Node n' r' Null\<rparr>, cu1)"
      "same_kind T T1" "root_ok T1 r'" "r' \<noteq> Null" and
    h: "case hit (cmp (snd k)) (tree_items T) of
         None \<Rightarrow> map snd (keyed_items r') = map snd (tree_items T) \<and> count T1 = count T \<and> status cu1 = VV_ERR_EXIST
       | Some e \<Rightarrow> map snd (keyed_items r')
             = map snd (below (cmp (snd k)) (tree_items T) @ above (cmp (snd k)) (tree_items T))
           \<and> count T1 = count T - 1 \<and> status cu1 = VV_OKAY \<and> rkey cu1 = fst (snd e) \<and> res cu1 = snd (snd e)"
    unfolding ok(2) by blast
  let ?T = "T1\<lparr>tree := Node n' r' Null\<rparr>"
  have e: "T' = ?T" "cu' = cu1" "a = (if status cu1 = VV_OKAY then Some (rkey cu1, res cu1) else None)"
    using st i(1) by auto
  show ?thesis
  proof (cases "hit (cmp (snd k)) (tree_items T)")
    case None
    then have j: "map snd (keyed_items r') = map snd (tree_items T)" "count T1 = count T" "status cu1 = VV_ERR_EXIST"
      using h by auto
    have "length (keyed_items r') = length (tree_items T)" using j(1) by (metis length_map)
    then have "ordered cmp valid n ?T"
      using ordered_step [OF i(2) o i(3,4)] sk ct j(2) unfolding map_ikey j(1) by simp
    moreover have "list_step cmp (entries T) (Delete k) = (None, entries ?T)"
      using None by (simp add: entries_def parts_items tree_items_root j)
    ultimately show ?thesis using e j(3) by (simp add: VV_OKAY_def VV_ERR_EXIST_def)
  next
    case (Some x)
    then have j: "map snd (keyed_items r')
          = map snd (below (cmp (snd k)) (tree_items T) @ above (cmp (snd k)) (tree_items T))"
        "count T1 = count T - 1" "status cu1 = VV_OKAY" "rkey cu1 = fst (snd x)" "res cu1 = snd (snd x)"
      using h by auto
    have len: "length (below (cmp (snd k)) (tree_items T) @ above (cmp (snd k)) (tree_items T)) + 1
        = length (tree_items T)"
    proof -
      have "length (below ev es) + length (above ev es) + 1 = length es"
        if "hit ev es = Some x" "cuts ev es" for ev es
        using that
      proof (induction es)
        case (Cons y ys)
        then show ?case
          using cuts_equal [of ev "[]" y ys] cuts_append [of ev "[]" y ys] by (auto split: if_splits)
      qed simp
      from this [OF Some cu] show ?thesis by simp
    qed
    then have "length (keyed_items r') + 1 = length (tree_items T)" using j(1) by (metis length_map)
    then have "ordered cmp valid n ?T"
      using ordered_step [OF i(2) o i(3,4)] sorted_delete [OF sk v] ct j(2) unfolding map_ikey j(1) by simp
    moreover have "list_step cmp (entries T) (Delete k) = (Some (snd x), entries ?T)"
      using Some by (simp add: entries_def parts_items tree_items_root j)
    ultimately show ?thesis using e j(3-5) by simp
  qed
qed

lemma tree_step_ok:
  assumes o: "ordered cmp valid (Suc n) T" and l: "legal valid op" and st: "tree_step (T, cu) op = (a, T', cu')"
  shows "ordered cmp valid n T' \<and> list_step cmp (entries T) op = (a, entries T')"
proof (cases op)
  case (Insert k d)
  then show ?thesis using insert_step [OF o, of k cu d a T' cu'] l st by simp
next
  case (Delete k)
  then show ?thesis using delete_step [OF o, of k cu a T' cu'] l st by simp
next
  case (Search k)
  then show ?thesis using search_answer [OF o] ordered_Suc [OF o] l st by auto
next
  case (Below equal k)
  then show ?thesis using below_answer [OF o, of k cu equal] ordered_Suc [OF o] l st by auto
next
  case (Above equal k)
  then show ?thesis using above_answer [OF o, of k cu equal] ordered_Suc [OF o] l st by auto
next
  case Least
  then show ?thesis using ends_answer(1) [of valid T cu] o ordered_Suc [OF o] st by (auto simp: ordered_def)
next
  case Greatest
  then show ?thesis using ends_answer(2) [of valid T cu] o ordered_Suc [OF o] st by (auto simp: ordered_def)
qed

end

sublocale key_order < sim: simulation "\<lambda>n s. ordered cmp valid n (fst s)" "\<lambda>s. entries (fst s)"
    "legal valid" tree_step "list_step cmp"
  by unfold_locales (metis fst_conv surj_pair tree_step_ok)

context key_order
begin

lemma tree_refines:
  "ordered cmp valid (length ops + n) T \<Longrightarrow> list_all (legal valid) ops \<Longrightarrow>
     history tree_step (T, cu) ops = (as, s') \<Longrightarrow>
     ordered cmp valid n (fst s') \<and> history (list_step cmp) (entries T) ops = (as, entries (fst s'))"
  using sim.history_refines [of ops n "(T, cu)"] by simp

end

lemma ordered_create:
  assumes "n \<le> 2 ^ 51"
  shows "ordered (case ef of Some f \<Rightarrow> f | None \<Rightarrow> (\<lambda>a b. vv_tree_compare kt a (length a) b)) valid n
    (vv_tree_create f ef kt srt False)"
proof -
  have "int n \<le> 2 ^ 51" using assms by (metis of_nat_le_iff of_nat_numeral of_nat_power)
  then show ?thesis
    using tree_create_ok [of valid f ef kt srt False]
    by (auto simp: ordered_def tree_order_def vv_tree_create_def vv_tree_create_root_def vv_tree_node_create_def
        split: option.split)
qed

lemma create_entries: "entries (vv_tree_create f ef kt srt pr) = []"
  using tree_create_ok by blast

section \<open>Moving a cursor\<close>

lemma set_found_current:
  "map_option item_of r = e \<Longrightarrow> current (set_found r cu) = (case e of None \<Rightarrow> current cu | Some x \<Rightarrow> Some (fst x))
     \<and> status (set_found r cu) = (if e = None then VV_ERR_EXIST else VV_OKAY)"
  by (cases r) (auto simp: set_found_def item_of_def)

lemma linked_items:
  assumes "tree_ok valid T" "sorted_tree T" "tree_items T = es @ e # fs"
  shows "greater_list T (fst e) = map_option fst (head_opt fs)" "lesser_list T (fst e) = map_option fst (last_opt es)"
proof -
  have "has_keys (root T)" using assms(3) by (auto simp: tree_items_def split: if_splits)
  then have it: "items (root T) = es @ e # fs" and r: "root_ok T (root T)" "has_keys (root T)"
    using root_items [OF assms(1)] assms(3) by auto
  have "linked (lesser_list T) (greater_list T) (map fst (items (root T)))" "distinct (map fst (items (root T)))"
    using r assms(2) by (auto simp: root_ok_def links_ok_def)
  then have "linked (lesser_list T) (greater_list T) (map fst es @ fst e # map fst fs)"
      "distinct (map fst es @ fst e # map fst fs)" unfolding it by simp_all
  then show "greater_list T (fst e) = map_option fst (head_opt fs)"
    "lesser_list T (fst e) = map_option fst (last_opt es)"
    using linked_at [of "lesser_list T" "greater_list T" "map fst es" "fst e" "map fst fs"]
    by (simp_all add: head_opt_map)
qed

definition moved :: "item option \<Rightarrow> vely_tree_cursor \<Rightarrow> vely_tree_cursor \<Rightarrow> bool" where
  "moved e cu cu' \<longleftrightarrow> status cu' = (if e = None then VV_ERR_EXIST else VV_OKAY)
     \<and> current cu' = (case e of None \<Rightarrow> current cu | Some x \<Rightarrow> Some (fst x))"

context key_order
begin

lemma unsorted_move:
  assumes o: "ordered cmp valid n T" and e: "tree_items T = es @ e # fs"
  shows "moved (head_opt fs) cu (vv_tree_search_greater_equal_f cu T False (fst (snd e)) (-1))"
    and "moved (last_opt es) cu (vv_tree_search_lesser_equal_f cu T False (fst (snd e)) (-1))"
proof -
  have v: "valid (ikey e)" and ok: "tree_order T = cmp"
    using o e by (auto simp: ordered_def tree_ok_def sorted_keys_def)
  have hk: "has_keys (root T)" using e by (auto simp: tree_items_def split: if_splits)
  then have it: "items (root T) = es @ e # fs" using e by (simp add: tree_items_def)
  have k: "snd (fst (snd e)) = ikey e" by (simp add: ikey_snd)
  have c: "cuts (cmp (ikey e)) (es @ e # fs)" using keys_cut [OF o, of "fst (snd e)"] v e k by simp
  have z: "cmp (ikey e) (ikey e) = 0" using cmp_eq [OF v v] by simp
  note ce = cuts_equal [OF c z]
  show "moved (head_opt fs) cu (vv_tree_search_greater_equal_f cu T False (fst (snd e)) (-1))"
    using set_found_current [OF search_greater_loop_head [of "cmp (ikey e)" "root T" False None]] c ce z hk
    by (simp add: it vv_tree_search_greater_equal_f_def vv_tree_search_greater_equal_def Let_def eval_order ok k
        root_def [symmetric] moved_def) (auto simp: set_key_def split: option.split)
  show "moved (last_opt es) cu (vv_tree_search_lesser_equal_f cu T False (fst (snd e)) (-1))"
    using set_found_current [OF search_lesser_loop_last [of "cmp (ikey e)" "root T" False None]] c ce z hk
    by (simp add: it vv_tree_search_lesser_equal_f_def vv_tree_search_lesser_equal_def Let_def eval_order ok k
        root_def [symmetric] moved_def) (auto simp: set_key_def split: option.split)
qed

lemma cursor_moves:
  assumes o: "ordered cmp valid n T" and e: "tree_items T = es @ e # fs" and c: "current cu = Some (fst e)"
  shows "\<exists>cu'. use_cursor VV_TREE_GREATER cu T = Inr cu' \<and> moved (head_opt fs) cu cu'"
    and "\<exists>cu'. use_cursor VV_TREE_LESSER cu T = Inr cu' \<and> moved (last_opt es) cu cu'"
proof -
  have ok: "tree_ok valid T" using o by (simp add: ordered_def)
  have hk: "has_keys (root T)" using e by (auto simp: tree_items_def split: if_splits)
  then obtain n where n: "node_at (fst e) (root T) = Some n" "item_of n = e"
    using node_at_item [of "root T" e] root_items [OF ok] e by (auto simp: root_ok_def tree_items_def)
  have kn: "key n = fst (snd e)" using n(2) by (auto simp: item_of_def)
  show "\<exists>cu'. use_cursor VV_TREE_GREATER cu T = Inr cu' \<and> moved (head_opt fs) cu cu'"
    using unsorted_move(1) [OF o e, of cu] linked_items(1) [OF ok _ e] c n(1) kn
    by (cases "sorted_tree T"; cases "head_opt fs")
      (auto simp: use_cursor_def moved_def root_def [symmetric] VV_OKAY_def VV_ERR_EXIST_def)
  show "\<exists>cu'. use_cursor VV_TREE_LESSER cu T = Inr cu' \<and> moved (last_opt es) cu cu'"
    using unsorted_move(2) [OF o e, of cu] linked_items(2) [OF ok _ e] c n(1) kn
    by (cases "sorted_tree T"; cases "last_opt es")
      (auto simp: use_cursor_def moved_def root_def [symmetric] VV_OKAY_def VV_ERR_EXIST_def)
qed

end

text \<open>Walking from one key to the next greater one.\<close>

definition walk :: "tstate \<Rightarrow> (entry option \<times> tstate) res" where
  "walk s =
     (case use_cursor VV_TREE_GREATER (snd s) (fst s) of
        Inl e \<Rightarrow> Inl e
      | Inr cu' \<Rightarrow> Inr (answer (fst s) cu', fst s, cu'))"

definition ahead :: "tstate \<Rightarrow> entry list" where
  "ahead s = map snd (tl (dropWhile (\<lambda>e. Some (fst e) \<noteq> current (snd s)) (tree_items (fst s))))"

definition on_tree :: "tstate \<Rightarrow> bool" where
  "on_tree s \<longleftrightarrow> (\<exists>cmp valid n. key_order cmp valid \<and> ordered cmp valid n (fst s))
     \<and> (\<exists>e\<in>set (tree_items (fst s)). current (snd s) = Some (fst e))"

lemma ids_distinct: "tree_ok valid T \<Longrightarrow> distinct (map fst (tree_items T))"
  using root_items [of valid T] by (auto simp: tree_items_def root_ok_def)

lemma ahead_at:
  assumes "tree_ok valid T" "tree_items T = es @ e # fs" "current cu = Some (fst e)"
  shows "ahead (T, cu) = map snd fs"
proof -
  have "dropWhile (\<lambda>x. Some (fst x) \<noteq> Some (fst e)) (es @ e # fs) = e # fs"
    using ids_distinct [OF assms(1)] assms(2) by (subst dropWhile_append2) (auto simp: image_iff)
  then show ?thesis using assms(2,3) by (simp add: ahead_def)
qed

lemma walk_step:
  assumes "on_tree (T, cu)"
  shows "\<exists>cu'. walk (T, cu) = Inr (head_opt (ahead (T, cu)), T, cu') \<and> on_tree (T, cu')
    \<and> ahead (T, cu') = tl (ahead (T, cu))"
proof -
  obtain cmp valid n e where o: "key_order cmp valid" "ordered cmp valid n T" "e \<in> set (tree_items T)"
      "current cu = Some (fst e)"
    using assms by (auto simp: on_tree_def)
  obtain es fs where it: "tree_items T = es @ e # fs" using o(3) by (auto simp: in_set_conv_decomp)
  have ok: "tree_ok valid T" using o(2) by (simp add: ordered_def)
  obtain cu' where cu': "use_cursor VV_TREE_GREATER cu T = Inr cu'" "moved (head_opt fs) cu cu'"
    using key_order.cursor_moves(1) [OF o(1,2) it o(4)] by blast
  have a: "ahead (T, cu) = map snd fs" by (rule ahead_at [OF ok it o(4)])
  show ?thesis
  proof (cases fs)
    case Nil
    then have "current cu' = current cu" "answer T cu' = None"
      using cu'(2) by (simp_all add: moved_def answer_def VV_OKAY_def VV_ERR_EXIST_def)
    then show ?thesis using cu'(1) a Nil assms ahead_at [OF ok it, of cu'] o(4)
      by (auto simp: walk_def on_tree_def)
  next
    case (Cons x xs)
    then have m: "current cu' = Some (fst x)" "status cu' = VV_OKAY" using cu'(2) by (simp_all add: moved_def)
    have x: "x \<in> set (tree_items T)" "tree_items T = (es @ [e]) @ x # xs" using it Cons by auto
    have "answer T cu' = Some (snd x)" by (rule answer_found [OF ok m x(1)])
    then show ?thesis using cu'(1) a Cons ahead_at [OF ok x(2) m(1)] m(1) x(1) o(1,2)
      by (auto simp: walk_def on_tree_def)
  qed
qed

interpretation walking: enumerator on_tree ahead walk Some None
proof
  fix s :: tstate and e es
  assume "on_tree s" "ahead s = e # es"
  then show "\<exists>s'. walk s = Inr (Some e, s') \<and> on_tree s' \<and> ahead s' = es"
    using walk_step [of "fst s" "snd s"] by fastforce
next
  fix s :: tstate
  assume "on_tree s" "ahead s = []"
  then show "\<exists>s'. walk s = Inr (None, s') \<and> on_tree s' \<and> ahead s' = []"
    using walk_step [of "fst s" "snd s"] by fastforce
qed

section \<open>Properties\<close>

definition no_cursor :: vely_tree_cursor where
  "no_cursor = \<lparr>current = None, ckey = (0, []), key_len = 0, status = VV_OKAY, res = 0, rkey = (0, [])\<rparr>"

text \<open>The tree after a history of operations on a new one.\<close>

definition tree_after ::
  "(string \<Rightarrow> string \<Rightarrow> int) option \<Rightarrow> tree_type \<Rightarrow> bool \<Rightarrow> tree_op list \<Rightarrow> entry option list \<times> tstate" where
  "tree_after ef kt srt ops =
     history tree_step (vv_tree_create 0 ef kt srt False, no_cursor) ops"

definition order_of :: "(string \<Rightarrow> string \<Rightarrow> int) option \<Rightarrow> tree_type \<Rightarrow> string \<Rightarrow> string \<Rightarrow> int" where
  "order_of ef kt = (case ef of Some f \<Rightarrow> f | None \<Rightarrow> (\<lambda>a b. vv_tree_compare kt a (length a) b))"

lemma built_in_order: "key_order (order_of None kt) c_string"
  using str_keys.key_order_axioms num_keys.key_order_axioms by (cases kt) (simp_all add: order_of_def)

lemma after_history:
  assumes "key_order (order_of ef kt) valid" "list_all (legal valid) ops" "length ops \<le> 2 ^ 51"
  shows "ordered (order_of ef kt) valid 0 (fst (snd (tree_after ef kt srt ops)))
    \<and> history (list_step (order_of ef kt)) [] ops
        = (fst (tree_after ef kt srt ops), entries (fst (snd (tree_after ef kt srt ops))))"
proof -
  obtain as s' where h: "tree_after ef kt srt ops = (as, s')" by (meson surj_pair)
  have "ordered (order_of ef kt) valid (length ops + 0) (vv_tree_create 0 ef kt srt False)"
    using ordered_create [OF assms(3), where ef = ef and kt = kt and srt = srt and valid = valid and f = 0]
    by (simp add: order_of_def)
  from key_order.tree_refines [OF assms(1) this assms(2) h [unfolded tree_after_def]] show ?thesis
    by (simp add: h create_entries)
qed

text \<open>C4: whatever is inserted, searched and deleted, in whatever order, the tree answers as a list
  of keys and data sorted by the tree's order does: exact searches, the nearest lesser and
  greater keys, the least and the greatest, with and without the linked list, for both built-in
  orders and for a custom evaluation that orders the keys.\<close>

theorem tree_history:
  assumes "key_order (order_of ef kt) valid" "list_all (legal valid) ops" "length ops \<le> 2 ^ 51"
  shows "fst (tree_after ef kt srt ops) = fst (history (list_step (order_of ef kt)) [] ops)
    \<and> entries (fst (snd (tree_after ef kt srt ops))) = snd (history (list_step (order_of ef kt)) [] ops)"
  using after_history [OF assms, of srt] by simp

theorem tree_history_witness:
  "fst (tree_after None VV_TREE_TYPE_NUM True [Insert (1, ''10'') 7, Insert (2, ''9'') 8, Least, Below False (3, ''10'')])
     = fst (history (list_step (order_of None VV_TREE_TYPE_NUM)) []
         [Insert (1, ''10'') 7, Insert (2, ''9'') 8, Least, Below False (3, ''10'')])
   \<and> entries (fst (snd (tree_after None VV_TREE_TYPE_NUM True
         [Insert (1, ''10'') 7, Insert (2, ''9'') 8, Least, Below False (3, ''10'')])))
     = snd (history (list_step (order_of None VV_TREE_TYPE_NUM)) []
         [Insert (1, ''10'') 7, Insert (2, ''9'') 8, Least, Below False (3, ''10'')])"
  by (rule tree_history [OF built_in_order]) (simp_all add: c_string_def)

text \<open>C21: after any history every node is balanced, so the height is at most about twice the
  logarithm of the number of elements, the count is exact, and purging succeeds exactly on an
  empty tree.\<close>

theorem tree_balanced:
  assumes "key_order (order_of ef kt) valid" "list_all (legal valid) ops" "length ops \<le> 2 ^ 51"
    and "T = fst (snd (tree_after ef kt srt ops))"
  shows "vv_tree_bal (root T) = 0 \<and> 2 ^ (rh (root T) div 2) \<le> 2 * (length (entries T) + 1)
    \<and> count T = int (length (entries T)) \<and> (vv_tree_purge_f T = Inr () \<longleftrightarrow> entries T = [])"
proof -
  have o: "ordered (order_of ef kt) valid 0 T" using after_history [OF assms(1-3), of srt] assms(4) by simp
  then have ok: "tree_ok valid T" and small: "count T \<le> 2 ^ 51" by (auto simp: ordered_def)
  have c: "count T = int (length (tree_items T))" using ok by (simp add: tree_ok_def)
  have b: "bal t \<Longrightarrow> vv_tree_bal t = 0" for t
    by (induction t) (auto simp: bal_height close_def)
  have r: "bal_root t \<Longrightarrow> vv_tree_bal t = 0" for t
    by (cases t) (auto simp: b bal_height close_def)
  have l: "bal_root t \<Longrightarrow> (2::nat) ^ (rh t div 2) \<le> 2 * (length (items t) + 1)" for t
  proof (cases t)
    case (Node m l g)
    assume "bal_root t"
    then have b2: "bal l" "bal g" by (simp_all add: Node)
    have m: "(2::nat) ^ (rh t div 2) \<le> 2 * 2 ^ (max (rh l) (rh g) div 2)"
      by (simp add: Node power_Suc [symmetric] del: power_Suc)
    have "(2::nat) ^ (max (rh l) (rh g) div 2) \<le> length (items l) + length (items g) + 1"
      using bal_size [OF b2(1)] bal_size [OF b2(2)] by (cases "rh l \<le> rh g") (auto simp: max_def)
    then show ?thesis using m by (simp add: Node)
  qed simp
  have root: "vv_tree_bal (root T) = 0 \<and> 2 ^ (rh (root T) div 2) \<le> 2 * (length (entries T) + 1)"
  proof (cases "has_keys (root T)")
    case True
    then have "bal_root (root T)" "entries T = map snd (items (root T))"
      using root_items [OF ok] by (auto simp: root_ok_def entries_def)
    then show ?thesis using r l by simp
  next
    case False
    then obtain n where "root T = Node n Null Null"
      using ok by (auto simp: tree_ok_def root_def root_ok_def)
    then show ?thesis by simp
  qed
  then show ?thesis using c by (simp add: entries_def vv_tree_purge_f_def)
qed

theorem tree_balanced_witness:
  "vv_tree_bal (root (fst (snd (tree_after None VV_TREE_TYPE_STR False [Insert (1, ''a'') 2])))) = 0
    \<and> 2 ^ (rh (root (fst (snd (tree_after None VV_TREE_TYPE_STR False [Insert (1, ''a'') 2])))) div 2)
       \<le> 2 * (length (entries (fst (snd (tree_after None VV_TREE_TYPE_STR False [Insert (1, ''a'') 2])))) + 1)
    \<and> count (fst (snd (tree_after None VV_TREE_TYPE_STR False [Insert (1, ''a'') 2])))
       = int (length (entries (fst (snd (tree_after None VV_TREE_TYPE_STR False [Insert (1, ''a'') 2])))))
    \<and> (vv_tree_purge_f (fst (snd (tree_after None VV_TREE_TYPE_STR False [Insert (1, ''a'') 2]))) = Inr ()
       \<longleftrightarrow> entries (fst (snd (tree_after None VV_TREE_TYPE_STR False [Insert (1, ''a'') 2]))) = [])"
  by (rule tree_balanced [OF built_in_order _ _ refl]) (simp_all add: c_string_def)

text \<open>C22: starting from the least key and moving to the next greater one again and again gives all
  keys in order, each once, and then only the end; with the linked list and without it.\<close>

theorem tree_walk:
  assumes "key_order (order_of ef kt) valid" "list_all (legal valid) ops" "length ops \<le> 2 ^ 51"
    and "T = fst (snd (tree_after ef kt srt ops))" and "entries T = e # es"
  shows "answer T (vv_tree_min_f cu T) = Some e
    \<and> (\<exists>s'. outputs walk (length es + m) (T, vv_tree_min_f cu T) = Inr (map Some es @ replicate m None, s'))"
proof -
  have o: "ordered (order_of ef kt) valid 0 T" using after_history [OF assms(1-3), of srt] assms(4) by simp
  then have ok: "tree_ok valid T" by (simp add: ordered_def)
  obtain x xs where it: "tree_items T = x # xs" "snd x = e" "map snd xs = es"
    using assms(5) by (auto simp: entries_def)
  have c: "count T \<noteq> 0" using ok it by (simp add: tree_ok_def)
  have a: "answer T (vv_tree_min_f cu T) = Some e" using ends_answer(1) [OF ok, of cu] assms(5) by simp
  have cur: "current (vv_tree_min_f cu T) = Some (fst x)"
  proof -
    have hk: "has_keys (root T)" using it by (auto simp: tree_items_def split: if_splits)
    then have i: "items (root T) = x # xs" using it by (simp add: tree_items_def)
    have "map_option nid (leftmost (root T)) = map_option fst (head_opt (items (root T)))"
      by (simp add: leftmost_head [symmetric] option.map_comp o_def)
    moreover have "sorted_tree T \<Longrightarrow> mn T = head_opt (map fst (items (root T)))"
      using root_items [OF ok hk] hk by (auto simp: root_ok_def links_ok_def)
    ultimately show ?thesis using c by (simp add: vv_tree_min_f_def root_def [symmetric] i)
  qed
  have on: "on_tree (T, vv_tree_min_f cu T)"
    using assms(1) o cur it(1) by (auto simp: on_tree_def)
  have "ahead (T, vv_tree_min_f cu T) = es"
    using ahead_at [OF ok, of "[]" x xs] it cur by simp
  then show ?thesis using walking.visits [OF on, of m] a by auto
qed

text \<open>A tree with one key, for which everything can be computed.\<close>

lemma one_key:
  "entries (fst (snd (tree_after None VV_TREE_TYPE_STR True [Insert (1, ''a'') 2]))) = [((1, ''a''), 2)]"
  using after_history [OF built_in_order, of "[Insert (1, ''a'') 2]" VV_TREE_TYPE_STR True]
  by (simp add: c_string_def lookup_def lesser_part_def greater_part_def)

theorem tree_walk_witness:
  "answer (fst (snd (tree_after None VV_TREE_TYPE_STR True [Insert (1, ''a'') 2])))
      (vv_tree_min_f no_cursor (fst (snd (tree_after None VV_TREE_TYPE_STR True [Insert (1, ''a'') 2])))) = Some ((1, ''a''), 2)
    \<and> (\<exists>s'. outputs walk (length ([] :: entry list) + 1) (fst (snd (tree_after None VV_TREE_TYPE_STR True [Insert (1, ''a'') 2])),
        vv_tree_min_f no_cursor (fst (snd (tree_after None VV_TREE_TYPE_STR True [Insert (1, ''a'') 2]))))
      = Inr (map Some ([] :: entry list) @ replicate 1 None, s'))"
  by (rule tree_walk [OF built_in_order _ _ refl one_key]) (simp_all add: c_string_def)

text \<open>The order of number keys is the order of the numbers.\<close>

definition decimal :: "string \<Rightarrow> int" where
  "decimal s = foldl (\<lambda>n c. 10 * n + (uchar c - 48)) 0 s"

definition canonical :: "string \<Rightarrow> bool" where
  "canonical s \<longleftrightarrow> s \<noteq> [] \<and> list_all isdigit s \<and> (hd s = CHR ''0'' \<longrightarrow> length s = 1)"

lemma decimal_foldl:
  "foldl (\<lambda>n c. 10 * n + (uchar c - 48)) m s = m * 10 ^ length s + foldl (\<lambda>n c. 10 * n + (uchar c - 48)) 0 s"
proof (induction s arbitrary: m)
  case (Cons c s)
  show ?case using Cons.IH [of "10 * m + (uchar c - 48)"] Cons.IH [of "uchar c - 48"] by (simp add: algebra_simps)
qed simp

lemma decimal_Cons: "decimal (c # s) = (uchar c - 48) * 10 ^ length s + decimal s"
  using decimal_foldl [of "uchar c - 48" s] by (simp add: decimal_def)

lemma decimal_bounds: "list_all isdigit s \<Longrightarrow> 0 \<le> decimal s \<and> decimal s < 10 ^ length s"
proof (induction s)
  case (Cons c s)
  then have d: "0 \<le> uchar c - 48" "uchar c - 48 \<le> 9" and s: "0 \<le> decimal s" "decimal s < 10 ^ length s"
    by (auto simp: isdigit_def)
  have "(uchar c - 48) * 10 ^ length s \<le> 9 * 10 ^ length s" using d(2) by (intro mult_right_mono) auto
  moreover have "0 \<le> (uchar c - 48) * 10 ^ length s" using d(1) by simp
  ultimately have "0 \<le> (uchar c - 48) * 10 ^ length s + decimal s
      \<and> (uchar c - 48) * 10 ^ length s + decimal s < 10 * 10 ^ length s"
    using s by linarith
  then show ?case by (simp add: decimal_Cons)
qed (simp add: decimal_def)

lemma lex_cmp_decimal:
  "length a = length b \<Longrightarrow> list_all isdigit a \<Longrightarrow> list_all isdigit b \<Longrightarrow> lex_cmp a b = sgn (decimal a - decimal b)"
proof (induction a b rule: lex_cmp.induct)
  case (4 x xs y ys)
  then have b: "0 \<le> decimal xs" "decimal xs < 10 ^ length xs" "0 \<le> decimal ys" "decimal ys < 10 ^ length xs"
    using decimal_bounds [of xs] decimal_bounds [of ys] by auto
  have lt: "(i - 48) * 10 ^ length xs + p < (j - 48) * 10 ^ length xs + q"
    if "i < j" "p < 10 ^ length xs" "0 \<le> q" for i j p q :: int
  proof -
    have "(i + 1 - 48) * 10 ^ length xs \<le> (j - 48) * 10 ^ length xs" using that(1) by (intro mult_right_mono) auto
    then show ?thesis using that by (simp add: algebra_simps)
  qed
  consider "x = y" | "uchar x < uchar y" | "uchar y < uchar x" using uchar_eq_iff [of x y] by linarith
  then show ?case
  proof cases
    case 1
    then show ?thesis using 4 by (simp add: decimal_Cons)
  next
    case 2
    then have "decimal (x # xs) < decimal (y # ys)" using lt b 4(2) by (simp add: decimal_Cons)
    then show ?thesis using 2 by auto
  next
    case 3
    then have "decimal (y # ys) < decimal (x # xs)" using lt b 4(2) by (simp add: decimal_Cons)
    then show ?thesis using 3 by auto
  qed
qed (auto simp: decimal_def)

lemma canonical_longer:
  assumes "canonical a" "canonical b" "length a < length b"
  shows "decimal a < decimal b"
proof -
  obtain c s where b: "b = c # s" using assms(3) by (cases b) auto
  have "a \<noteq> []" using assms(1) by (simp add: canonical_def)
  then have "s \<noteq> []" using assms(3) b by (cases a) auto
  then have c0: "c \<noteq> CHR ''0''" using assms(2) b by (auto simp: canonical_def)
  have "uchar CHR ''0'' = 48" by (simp add: uchar_def)
  then have "1 \<le> uchar c - 48"
    using c0 uchar_eq_iff [of c "CHR ''0''"] assms(2) b by (auto simp: canonical_def isdigit_def)
  then have "1 * 10 ^ length s \<le> (uchar c - 48) * 10 ^ length s" by (intro mult_right_mono) auto
  moreover have "(10::int) ^ length a \<le> 10 ^ length s" using assms(3) b by (intro power_increasing) auto
  moreover have "decimal a < 10 ^ length a" "0 \<le> decimal s"
    using decimal_bounds [of a] decimal_bounds [of s] assms b by (auto simp: canonical_def)
  ultimately show ?thesis unfolding b decimal_Cons by linarith
qed

text \<open>Number keys are compared as numbers although the code never converts them: for texts of
  decimal digits without leading zeros the sign of the comparison is the sign of the difference
  of the numbers.\<close>

lemma number_keys:
  assumes "canonical a" "canonical b"
  shows "sgn (vv_tree_compare VV_TREE_TYPE_NUM a (length a) b) = sgn (decimal a - decimal b)"
proof -
  have "c_string a" "c_string b"
    using assms by (auto simp: canonical_def c_string_def list_all_iff isdigit_def uchar_def)
  note c = num_compare [OF this]
  consider "length a < length b" | "length b < length a" | "length a = length b" by linarith
  then show ?thesis
    using c canonical_longer [OF assms] canonical_longer [OF assms(2,1)] lex_cmp_decimal [of a b] assms
    by cases (auto simp: canonical_def)
qed

lemma number_keys_witness:
  "sgn (vv_tree_compare VV_TREE_TYPE_NUM ''10'' (length ''10'') ''9'') = sgn (decimal ''10'' - decimal ''9'')"
  by (rule number_keys) (simp_all add: canonical_def isdigit_def uchar_def)

end
