(* ===== verification/JsonText.thy ===== *)
theory JsonText
  imports Utf8 Codec
begin

unbundle bit_operations_syntax

text \<open>
  The texts inside JSON documents, from json.c: numbers, strings with escapes read into
  binary UTF-8 in place, and binary UTF-8 written as JSON.  An error is the text that the code
  stores; positions are offsets in the buffer.
\<close>

definition VV_ERR_JSON_NUMBER :: string where "VV_ERR_JSON_NUMBER = ''Cannot parse a number''"
definition VV_ERR_JSON_BADUTF :: string where "VV_ERR_JSON_BADUTF = ''Bad UTF character''"
definition VV_ERR_JSON_BADESCAPE :: string where "VV_ERR_JSON_BADESCAPE = ''Unknown escape sequence''"
definition VV_ERR_JSON_NOQUOTE :: string where "VV_ERR_JSON_NOQUOTE = ''Double quote is missing''"
definition VV_ERR_JSON_SURROGATE :: string where "VV_ERR_JSON_SURROGATE = ''Surrogate UTF-8 value missing''"

section \<open>Numbers\<close>

function skip_digits :: "string \<Rightarrow> nat \<Rightarrow> nat" where
  "skip_digits v i = (if isdigit (cat v i) then skip_digits v (i + 1) else i)"
  by pat_completeness auto
termination
proof (relation "measure (\<lambda>(v, i). length v - i)", goal_cases)
  case (2 v i)
  have "isdigit (cat v i) \<Longrightarrow> i < length v" by (cases "i < length v") auto
  with 2 show ?case by simp
qed simp

declare skip_digits.simps [simp del]

text \<open>The end of the number and whether it is a real one.\<close>

definition json_exponent :: "string \<Rightarrow> nat \<Rightarrow> bool \<Rightarrow> string + nat \<times> bool" where
  "json_exponent v i isdbl =
     (if cat v i = CHR ''e'' \<or> cat v i = CHR ''E'' then
        (let exp = (if cat v (i + 1) = CHR ''+'' then i + 2
                    else if cat v (i + 1) = CHR ''-'' then i + 2 else i + 1)
         in if \<not> isdigit (cat v exp) then Inl VV_ERR_JSON_NUMBER else Inr (skip_digits v exp, True))
      else Inr (i, isdbl))"

definition vely_json_num :: "string \<Rightarrow> string + nat \<times> bool" where
  "vely_json_num v =
     (let dig = (if cat v 0 = CHR ''-'' then 1 else 0);
          edig = skip_digits v dig in
      if \<not> isdigit (cat v dig) then Inl VV_ERR_JSON_NUMBER
      else if cat v dig = CHR ''0'' \<and> edig \<noteq> dig + 1 then Inl VV_ERR_JSON_NUMBER
      else if cat v edig = CHR ''.'' then
        (if \<not> isdigit (cat v (edig + 1)) then Inl VV_ERR_JSON_NUMBER
         else json_exponent v (skip_digits v (edig + 1)) True)
      else json_exponent v edig False)"

section \<open>Reading strings\<close>

definition hex_value :: "char \<Rightarrow> int option" where
  "hex_value c =
     (if uchar CHR ''0'' \<le> schar c \<and> schar c \<le> uchar CHR ''9'' then Some (schar c - uchar CHR ''0'')
      else if uchar CHR ''a'' \<le> schar c \<and> schar c \<le> uchar CHR ''f'' then Some (schar c - uchar CHR ''a'' + 10)
      else if uchar CHR ''A'' \<le> schar c \<and> schar c \<le> uchar CHR ''F'' then Some (schar c - uchar CHR ''A'' + 10)
      else None)"

function get_hex_loop :: "nat \<Rightarrow> int \<Rightarrow> string \<Rightarrow> (string + int) res" where
  "get_hex_loop k r v =
     (if k < 4 then
        (case hex_value (cat v 0) of
           None \<Rightarrow> Inr (Inl VV_ERR_JSON_BADUTF)
         | Some x \<Rightarrow>
             (case vely_topower 16 (3 - int k) of
                Inl f \<Rightarrow> Inl f
              | Inr p \<Rightarrow> get_hex_loop (k + 1) (r + x * p) (drop 1 v)))
      else Inr (Inr r))"
  by pat_completeness auto
termination
  by (relation "measure (\<lambda>(k, r, v). 4 - k)") auto

declare get_hex_loop.simps [simp del]

definition vely_get_hex :: "string \<Rightarrow> (string + int) res" where
  "vely_get_hex v = get_hex_loop 0 0 v"

text \<open>One escape, whose backslash is at position \<open>p\<close>: the bytes it stands for and how many it takes.\<close>

definition simple_escape :: "char \<Rightarrow> char option" where
  "simple_escape c =
     (if c = CHR 0x22 \<or> c = CHR 0x5C \<or> c = CHR ''/'' then Some c
      else if c = CHR ''b'' then Some CHR 0x08
      else if c = CHR ''f'' then Some CHR 0x0C
      else if c = CHR ''n'' then Some CHR 0x0A
      else if c = CHR ''r'' then Some CHR 0x0D
      else if c = CHR ''t'' then Some CHR 0x09
      else None)"

definition hex_bytes :: "num32 \<Rightarrow> nat \<Rightarrow> string + string \<times> nat" where
  "hex_bytes rtot totjv =
     (case vely_decode_utf8 rtot of Inl e \<Rightarrow> Inl e | Inr bytes \<Rightarrow> Inr (bytes, totjv))"

definition json_escape :: "string \<Rightarrow> nat \<Rightarrow> (string + string \<times> nat) res" where
  "json_escape v p =
     (case simple_escape (cat v (p + 1)) of
        Some c \<Rightarrow> Inr (Inr ([c], 2))
      | None \<Rightarrow>
          (if cat v (p + 1) = CHR ''u'' then
             (case vely_get_hex (drop (p + 2) v) of
                Inl f \<Rightarrow> Inl f
              | Inr (Inl e) \<Rightarrow> Inr (Inl e)
              | Inr (Inr r) \<Rightarrow>
                  (if r \<ge> 0xD800 \<and> r \<le> 0xDFFF then
                     (if cat v (p + 6) \<noteq> CHR 0x5C \<or> cat v (p + 7) \<noteq> CHR ''u'' then Inr (Inl VV_ERR_JSON_SURROGATE)
                      else (case vely_get_hex (drop (p + 8) v) of
                              Inl f \<Rightarrow> Inl f
                            | Inr (Inl e) \<Rightarrow> Inr (Inl e)
                            | Inr (Inr r1) \<Rightarrow>
                                Inr (hex_bytes (vely_make_from_utf8_surrogate (word_of_int r) (word_of_int r1)) 12)))
                   else Inr (hex_bytes (word_of_int r) 6)))
           else Inr (Inl VV_ERR_JSON_BADESCAPE)))"

text \<open>
  The string that starts at position \<open>b\<close>, decoded in place: \<open>i\<close> reads, \<open>i - pull\<close> writes.  An error
  comes with the buffer as it is then.
\<close>

lemma json_escape_takes: "json_escape v p = Inr (Inr (bytes, n)) \<Longrightarrow> 0 < n"
  by (auto simp: json_escape_def hex_bytes_def split: option.splits if_splits sum.splits)

function json_decode_loop :: "string \<Rightarrow> nat \<Rightarrow> nat \<Rightarrow> nat \<Rightarrow> (string \<times> string + string \<times> nat \<times> nat) res" where
  "json_decode_loop v b i pull =
     (if cat v (b + i) \<noteq> CHR 0x22 \<and> cat v (b + i) \<noteq> NUL then
        (if cat v (b + i) = CHR 0x5C then
           (case json_escape v (b + i) of
              Inl f \<Rightarrow> Inl f
            | Inr (Inl e) \<Rightarrow> Inr (Inl (e, v))
            | Inr (Inr (bytes, n)) \<Rightarrow>
                (case memput v (b + i - pull) bytes of
                   Inl f \<Rightarrow> Inl f
                 | Inr v1 \<Rightarrow> json_decode_loop v1 b (i + n) (pull + n - length bytes)))
         else
           (case (if pull \<noteq> 0 then memput v (b + i - pull) [cat v (b + i)] else Inr v) of
              Inl f \<Rightarrow> Inl f
            | Inr v1 \<Rightarrow> json_decode_loop v1 b (i + 1) pull))
      else Inr (Inr (v, i, pull)))"
  by pat_completeness auto
termination
proof (relation "measure (\<lambda>(v, b, i, pull). length v - (b + i))", goal_cases)
  case (2 v b i pull x2 x2a bytes n v1)
  then have "length v1 = length v" "0 < n" "b + i < length v"
    using memput_length [of v "b + i - pull" bytes v1] json_escape_takes
    by (auto simp: cat_def split: if_splits)
  then show ?case by simp
next
  case (3 v b i pull v1)
  then have "length v1 = length v" "b + i < length v"
    using memput_length [of v "b + i - pull" "[cat v (b + i)]" v1]
    by (auto simp: cat_def split: if_splits)
  then show ?case by simp
qed simp

declare json_decode_loop.simps [simp del]

text \<open>Without decoding: to the closing quote.  A quote in a text that is not quoted is never passed.\<close>

partial_function (option) json_skip_loop :: "string \<Rightarrow> nat \<Rightarrow> bool \<Rightarrow> nat \<Rightarrow> nat option" where
  "json_skip_loop v b quoted i =
     (if cat v (b + i) = NUL then Some i
      else if cat v (b + i) = CHR 0x5C \<and> cat v (b + i + 1) \<noteq> NUL then json_skip_loop v b quoted (i + 2)
      else if cat v (b + i) = CHR 0x22 then
        (if quoted then Some i else json_skip_loop v b quoted i)
      else json_skip_loop v b quoted (i + 1))"

declare json_skip_loop.simps [code]

text \<open>The new buffer and where the string ends.  \<^term>\<open>None\<close>: the code does not return.\<close>

definition vely_json_to_utf8 :: "string \<Rightarrow> nat \<Rightarrow> bool \<Rightarrow> bool \<Rightarrow> (string \<times> string + string \<times> nat) res option" where
  "vely_json_to_utf8 v b quoted enc =
     (let finish = (\<lambda>v i pull.
            (case (if pull \<noteq> 0 then memput v (b + i - pull) [NUL] else Inr v) of
               Inl f \<Rightarrow> Inl f
             | Inr v1 \<Rightarrow> (if cat v1 (b + i) = NUL \<and> quoted then Inr (Inl (VV_ERR_JSON_NOQUOTE, v1))
                          else Inr (Inr (v1, b + i)))));
          start = (if quoted then 1 else 0) in
      if enc then
        Some (case json_decode_loop v b start 0 of
                Inl f \<Rightarrow> Inl f
              | Inr (Inl e) \<Rightarrow> Inr (Inl e)
              | Inr (Inr (v1, i, pull)) \<Rightarrow> finish v1 i pull)
      else map_option (\<lambda>i. finish v i 0) (json_skip_loop v b quoted start))"

section \<open>Writing strings\<close>

definition VV_HEX_FROM_INT16 :: "int \<Rightarrow> string" where
  "VV_HEX_FROM_INT16 x =
     VV_HEX_FROM_BYTE (drop_bit 8 (x AND 0xFF00)) @ VV_HEX_FROM_BYTE (x AND 0xFF)"

definition json_unicode :: "num32 \<Rightarrow> string" where
  "json_unicode u = CHR 0x5C # CHR ''u'' # VV_HEX_FROM_INT16 (sint u)"

definition json_char :: "char \<Rightarrow> string" where
  "json_char c =
     (if c = CHR 0x22 then [CHR 0x5C, CHR 0x22]
      else if c = CHR 0x5C then [CHR 0x5C, CHR 0x5C]
      else if c = CHR 0x08 then [CHR 0x5C, CHR ''b'']
      else if c = CHR 0x0C then [CHR 0x5C, CHR ''f'']
      else if c = CHR 0x0A then [CHR 0x5C, CHR ''n'']
      else if c = CHR 0x0D then [CHR 0x5C, CHR ''r'']
      else if c = CHR 0x09 then [CHR 0x5C, CHR ''t'']
      else [c])"

text \<open>Adding bytes to a result of limited size; an escaped value is followed by a null byte.\<close>

definition put_result :: "nat \<Rightarrow> string \<Rightarrow> string \<Rightarrow> nat \<Rightarrow> string res" where
  "put_result cap res s extra =
     (if length res + length s + extra \<le> cap then Inr (res @ s) else Inl Out_of_bounds)"

lemma encode_takes: "vely_encode_utf8 r = Inr (u, n) \<Longrightarrow> 0 < n"
  by (auto simp: vely_encode_utf8_def Let_def split: if_splits)

function utf8_to_json_loop :: "string \<Rightarrow> nat \<Rightarrow> nat \<Rightarrow> nat \<Rightarrow> string \<Rightarrow> (string + string) res" where
  "utf8_to_json_loop v len cap i res =
     (if i < len then
        (if num32_of_char (cat v i) AND 192 = 192 then
           (case vely_encode_utf8 (drop i v) of
              Inl e \<Rightarrow> Inr (Inl e)
            | Inr (u, bytes) \<Rightarrow>
                (case put_result cap res
                        (if sint u \<ge> 0x10000
                         then (case vely_get_utf8_surrogate u of (u0, u1) \<Rightarrow> json_unicode u0 @ json_unicode u1)
                         else json_unicode u) 1 of
                   Inl f \<Rightarrow> Inl f
                 | Inr res1 \<Rightarrow> utf8_to_json_loop v len cap (i + bytes) res1))
         else
           (case put_result cap res (json_char (cat v i)) 0 of
              Inl f \<Rightarrow> Inl f
            | Inr res1 \<Rightarrow> utf8_to_json_loop v len cap (i + 1) res1))
      else (case put_result cap res [] 1 of Inl f \<Rightarrow> Inl f | Inr res1 \<Rightarrow> Inr (Inr res1)))"
  by pat_completeness auto
termination
  by (relation "measure (\<lambda>(v, len, cap, i, res). len - i)") (auto dest: encode_takes)

declare utf8_to_json_loop.simps [simp del]

definition vely_utf8_to_json :: "string \<Rightarrow> int \<Rightarrow> (string + string) res" where
  "vely_utf8_to_json v len =
     (let len = (if len = -1 then length v else nat len)
      in utf8_to_json_loop v len (3 * len + 1) 0 [])"

section \<open>Which texts are numbers\<close>

lemma skip_digits_eq: "skip_digits v i = i + length (takeWhile isdigit (drop i v))"
proof (induction v i rule: skip_digits.induct)
  case (1 v i)
  show ?case
  proof (cases "i < length v")
    case True
    then have "drop i v = v ! i # drop (Suc i) v" by (simp add: Cons_nth_drop_Suc)
    then show ?thesis using 1 True by (subst skip_digits.simps) simp
  next
    case False
    then show ?thesis by (subst skip_digits.simps) simp
  qed
qed

definition digits :: "string \<Rightarrow> bool" where
  "digits ds \<longleftrightarrow> ds \<noteq> [] \<and> list_all isdigit ds"

definition fraction :: "string \<Rightarrow> bool" where
  "fraction s \<longleftrightarrow> s = [] \<or> (hd s = CHR ''.'' \<and> digits (tl s))"

definition exponent :: "string \<Rightarrow> bool" where
  "exponent s \<longleftrightarrow> s = [] \<or> (hd s \<in> set ''eE''
     \<and> (digits (tl s) \<or> (tl s \<noteq> [] \<and> hd (tl s) \<in> set ''+-'' \<and> digits (tl (tl s)))))"

text \<open>The grammar of the standard: sign, integer part without leading zeros, fraction, exponent.\<close>

definition json_number :: "string \<Rightarrow> bool \<Rightarrow> bool" where
  "json_number s real \<longleftrightarrow> (\<exists>sg ip fp ep. s = sg @ ip @ fp @ ep \<and> sg \<in> {[], ''-''} \<and> digits ip
     \<and> (hd ip = CHR ''0'' \<longrightarrow> length ip = 1) \<and> fraction fp \<and> exponent ep
     \<and> real = (fp \<noteq> [] \<or> ep \<noteq> []))"

text \<open>What may follow a number.\<close>

definition number_ends :: "string \<Rightarrow> bool" where
  "number_ends r \<longleftrightarrow> r = [] \<or> (\<not> isdigit (hd r) \<and> hd r \<notin> set ''.eE'')"

lemma digits_take:
  "digits (takeWhile isdigit v) \<longleftrightarrow> isdigit (cat v 0)"
  by (cases v) (auto simp: digits_def list_all_iff dest: set_takeWhileD)

lemma takeWhile_digits: "list_all isdigit ds \<Longrightarrow> r = [] \<or> \<not> isdigit (hd r) \<Longrightarrow> takeWhile isdigit (ds @ r) = ds"
  by (induction ds) (auto intro: takeWhile_eq_Nil_iff [THEN iffD2])

lemma isdigit_chars: "\<not> isdigit CHR ''.''" "\<not> isdigit CHR ''e''" "\<not> isdigit CHR ''E''" "\<not> isdigit CHR ''+''" "\<not> isdigit CHR ''-''"
  by (simp_all add: isdigit_def uchar_def)

lemma exponent_sound:
  assumes "json_exponent v i isdbl = Inr (n, b)" "i \<le> length v"
  shows "\<exists>ep. exponent ep \<and> take n v = take i v @ ep \<and> i \<le> n \<and> n \<le> length v \<and> b = (isdbl \<or> ep \<noteq> [])"
proof (cases "cat v i = CHR ''e'' \<or> cat v i = CHR ''E''")
  case False
  then show ?thesis using assms by (auto simp: json_exponent_def exponent_def)
next
  case True
  then have i: "i < length v" "v ! i = CHR ''e'' \<or> v ! i = CHR ''E''" by (auto simp: cat_def split: if_splits)
  define e where "e = (if cat v (i + 1) = CHR ''+'' then i + 2 else if cat v (i + 1) = CHR ''-'' then i + 2 else i + 1)"
  have n: "isdigit (cat v e)" "n = skip_digits v e" "b = True"
  proof -
    have "json_exponent v i isdbl
        = (if \<not> isdigit (cat v e) then Inl VV_ERR_JSON_NUMBER else Inr (skip_digits v e, True))"
      unfolding json_exponent_def e_def Let_def if_P [OF True] ..
    then show "isdigit (cat v e)" "n = skip_digits v e" "b = True" using assms(1) by (simp_all split: if_splits)
  qed
  let ?ds = "takeWhile isdigit (drop e v)"
  have ds: "digits ?ds" using n(1) digits_take [of "drop e v"] by (simp add: cat_drop)
  have e: "e \<le> length v" using n(1) by (auto simp: cat_def split: if_splits)
  have n': "n = e + length ?ds" by (simp add: n(2) skip_digits_eq)
  have tk: "take n v = take e v @ ?ds"
    unfolding n' take_add using takeWhile_eq_take [of isdigit "drop e v"] by simp
  have le: "n \<le> length v" using n' e length_takeWhile_le [of isdigit "drop e v"] by simp
  have t1: "take (i + 1) v = take i v @ [v ! i]" using i(1) by (simp add: take_Suc_conv_app_nth)
  show ?thesis
  proof (cases "e = i + 1")
    case True
    then show ?thesis using tk t1 ds i le n(3) n'
      by (intro exI [of _ "v ! i # ?ds"]) (auto simp: exponent_def)
  next
    case False
    then have e2: "e = i + 2" "v ! (i + 1) = CHR ''+'' \<or> v ! (i + 1) = CHR ''-''" "i + 1 < length v"
      by (auto simp: e_def cat_def split: if_splits)
    then have "take e v = take i v @ [v ! i, v ! (i + 1)]"
      using t1 by (simp add: take_Suc_conv_app_nth)
    then show ?thesis using tk ds i le n(3) n' e2
      by (intro exI [of _ "v ! i # v ! (i + 1) # ?ds"]) (auto simp: exponent_def)
  qed
qed

lemma json_numberI:
  "s = sg @ ip @ fp @ ep \<Longrightarrow> sg \<in> {[], ''-''} \<Longrightarrow> digits ip \<Longrightarrow> (hd ip = CHR ''0'' \<longrightarrow> length ip = 1) \<Longrightarrow>
     fraction fp \<Longrightarrow> exponent ep \<Longrightarrow> real = (fp \<noteq> [] \<or> ep \<noteq> []) \<Longrightarrow> json_number s real"
  unfolding json_number_def by blast

lemma json_num_sound:
  assumes "vely_json_num v = Inr (n, real)"
  shows "n \<le> length v \<and> json_number (take n v) real"
proof -
  define dig where "dig = (if cat v 0 = CHR ''-'' then 1 else 0 :: nat)"
  define edig where "edig = skip_digits v dig"
  have run: "vely_json_num v =
     (if \<not> isdigit (cat v dig) then Inl VV_ERR_JSON_NUMBER
      else if cat v dig = CHR ''0'' \<and> edig \<noteq> dig + 1 then Inl VV_ERR_JSON_NUMBER
      else if cat v edig = CHR ''.'' then
        (if \<not> isdigit (cat v (edig + 1)) then Inl VV_ERR_JSON_NUMBER
         else json_exponent v (skip_digits v (edig + 1)) True)
      else json_exponent v edig False)"
    unfolding vely_json_num_def Let_def dig_def edig_def ..
  have d: "isdigit (cat v dig)" "cat v dig = CHR ''0'' \<longrightarrow> edig = dig + 1"
    using assms run by (auto split: if_splits)
  have dl: "dig < length v" using d(1) by (auto simp: cat_def split: if_splits)
  let ?sg = "take dig v" and ?ip = "takeWhile isdigit (drop dig v)"
  have sg: "?sg \<in> {[], ''-''}" using dl by (cases v) (auto simp: dig_def split: if_splits)
  have ip: "digits ?ip" "hd ?ip = CHR ''0'' \<longrightarrow> length ?ip = 1" "edig = dig + length ?ip"
  proof -
    show "digits ?ip" using d(1) digits_take [of "drop dig v"] by (simp add: cat_drop)
    show e: "edig = dig + length ?ip" by (simp add: edig_def skip_digits_eq)
    have "drop dig v = v ! dig # drop (Suc dig) v" using dl by (simp add: Cons_nth_drop_Suc)
    then have "hd ?ip = cat v dig" using d(1) dl by simp
    then show "hd ?ip = CHR ''0'' \<longrightarrow> length ?ip = 1" using d(2) e by simp
  qed
  have tk: "take edig v = ?sg @ ?ip"
    unfolding ip(3) take_add using takeWhile_eq_take [of isdigit "drop dig v"] by simp
  have el: "edig \<le> length v" using ip(3) dl length_takeWhile_le [of isdigit "drop dig v"] by simp
  show ?thesis
  proof (cases "cat v edig = CHR ''.''")
    case True
    let ?fs = "takeWhile isdigit (drop (edig + 1) v)"
    have f: "isdigit (cat v (edig + 1))" "json_exponent v (skip_digits v (edig + 1)) True = Inr (n, real)"
      using assms run True d by (auto split: if_splits)
    have fl: "edig + 1 < length v" using f(1) by (auto simp: cat_def split: if_splits)
    have fd: "digits ?fs" using f(1) digits_take [of "drop (edig + 1) v"] by (simp add: cat_drop)
    have fe: "skip_digits v (edig + 1) = edig + 1 + length ?fs" by (simp add: skip_digits_eq)
    have "take (edig + 1) v = take edig v @ [v ! edig]" using fl by (simp add: take_Suc_conv_app_nth)
    then have tf: "take (skip_digits v (edig + 1)) v = ?sg @ ?ip @ (v ! edig # ?fs)"
      unfolding fe take_add [of "edig + 1"] using takeWhile_eq_take [of isdigit "drop (edig + 1) v"] tk by simp
    have sl: "skip_digits v (edig + 1) \<le> length v"
      using fe fl length_takeWhile_le [of isdigit "drop (edig + 1) v"] by simp
    obtain ep where ep: "exponent ep" "take n v = take (skip_digits v (edig + 1)) v @ ep" "n \<le> length v" "real"
      using exponent_sound [OF f(2) sl] by auto
    have "v ! edig = CHR ''.''" using True fl by simp
    then have "fraction (v ! edig # ?fs)" using fd by (simp add: fraction_def)
    from json_numberI [OF _ sg ip(1,2) this ep(1)] show ?thesis using ep tf by simp
  next
    case False
    then have "json_exponent v edig False = Inr (n, real)" using assms run d by (auto split: if_splits)
    from exponent_sound [OF this el] obtain ep where
      ep: "exponent ep" "take n v = take edig v @ ep" "n \<le> length v" "real = (ep \<noteq> [])" by auto
    have "fraction []" by (simp add: fraction_def)
    from json_numberI [OF _ sg ip(1,2) this ep(1)] show ?thesis using ep tk by simp
  qed
qed

lemma exponent_complete:
  assumes "exponent ep" "number_ends r" "i = length a"
  shows "json_exponent (a @ ep @ r) i isdbl = Inr (i + length ep, isdbl \<or> ep \<noteq> [])"
proof (cases ep)
  case Nil
  have "cat r 0 \<noteq> CHR ''e'' \<and> cat r 0 \<noteq> CHR ''E''" using assms(2) by (cases r) (auto simp: number_ends_def)
  then show ?thesis using Nil assms(3) by (simp add: json_exponent_def cat_append)
next
  case (Cons e ds)
  have e: "e = CHR ''e'' \<or> e = CHR ''E''" using assms(1) Cons by (auto simp: exponent_def)
  have r: "r = [] \<or> \<not> isdigit (hd r)" using assms(2) by (auto simp: number_ends_def)
  have sk: "skip_digits (p @ q @ r) (length p) = length p + length q" "isdigit (cat (p @ q @ r) (length p))"
    if "digits q" for p q
    using that takeWhile_digits [of q r] r
    by (cases q; simp add: skip_digits_eq digits_def cat_append)+
  consider (plain) "digits ds" | (sign) s qs where "ds = s # qs" "s = CHR ''+'' \<or> s = CHR ''-''" "digits qs"
    using assms(1) Cons by (cases ds) (auto simp: exponent_def)
  then show ?thesis
  proof cases
    case plain
    then obtain d qs where "ds = d # qs" "isdigit d" by (cases ds) (auto simp: digits_def)
    then have "cat (a @ ep @ r) (i + 1) \<noteq> CHR ''+''" "cat (a @ ep @ r) (i + 1) \<noteq> CHR ''-''"
      using Cons assms(3) isdigit_chars by (auto simp: cat_append)
    then show ?thesis
      using sk [OF plain, of "a @ [e]"] Cons e assms(3) by (auto simp: json_exponent_def cat_append)
  next
    case sign
    then have "cat (a @ ep @ r) (i + 1) = s" using Cons assms(3) by (simp add: cat_append)
    then show ?thesis
      using sk [OF sign(3), of "a @ [e, s]"] Cons e sign(1,2) assms(3)
      by (auto simp: json_exponent_def cat_append numeral_2_eq_2)
  qed
qed

lemma json_num_complete:
  assumes "number_ends r" "json_number s real"
  shows "vely_json_num (s @ r) = Inr (length s, real)"
proof -
  from assms(2) obtain sg ip fp ep where s: "s = sg @ ip @ fp @ ep" "sg \<in> {[], ''-''}" "digits ip"
      "hd ip = CHR ''0'' \<longrightarrow> length ip = 1" "fraction fp" "exponent ep" "real = (fp \<noteq> [] \<or> ep \<noteq> [])"
    by (auto simp: json_number_def)
  note r = assms(1)
  obtain d ds where ip: "ip = d # ds" "isdigit d" "list_all isdigit ds" using s(3) by (cases ip) (auto simp: digits_def)
  let ?v = "s @ r"
  have dig: "(if cat ?v 0 = CHR ''-'' then 1 else 0) = length sg"
    using s(1,2) ip isdigit_chars by (auto simp: cat_append)
  have cd: "cat ?v (length sg) = d" using s(1) ip by (simp add: cat_append)
  have tail: "fp @ ep @ r = [] \<or> \<not> isdigit (hd (fp @ ep @ r))"
    using s(5,6) r isdigit_chars by (cases fp; cases ep) (auto simp: fraction_def exponent_def number_ends_def)
  have edig: "skip_digits ?v (length sg) = length sg + length ip"
    using takeWhile_digits [OF _ tail, of ip] s(3) by (simp add: skip_digits_eq s(1) digits_def)
  have z: "\<not> (d = CHR ''0'' \<and> length ip \<noteq> 1)" using s(4) ip by auto
  show "vely_json_num (s @ r) = Inr (length s, real)"
  proof (cases fp)
    case Nil
    have "cat ?v (length sg + length ip) = cat (ep @ r) 0" using s(1) Nil by (simp add: cat_append)
    moreover have "cat (ep @ r) 0 \<noteq> CHR ''.''"
      using s(6) r by (cases ep; cases r) (auto simp: exponent_def number_ends_def)
    ultimately have "vely_json_num ?v = json_exponent ?v (length sg + length ip) False"
      unfolding vely_json_num_def Let_def dig edig cd using z ip(2) by auto
    then show ?thesis using exponent_complete [OF s(6) r, of _ "sg @ ip" False] s(1,7) Nil by simp
  next
    case (Cons c fs)
    then have c: "c = CHR ''.''" "digits fs" using s(5) by (auto simp: fraction_def)
    obtain g gs where fs: "fs = g # gs" "isdigit g" using c(2) by (cases fs) (auto simp: digits_def)
    have t2: "ep @ r = [] \<or> \<not> isdigit (hd (ep @ r))"
      using s(6) r isdigit_chars by (cases ep) (auto simp: exponent_def number_ends_def)
    have "cat ?v (length sg + length ip) = CHR ''.''" "cat ?v (length sg + length ip + 1) = g"
      using s(1) Cons c(1) fs(1) by (simp_all add: cat_append)
    moreover have "skip_digits ?v (length sg + length ip + 1) = length (sg @ ip @ fp)"
      using takeWhile_digits [OF _ t2, of fs] c(2) s(1) Cons by (simp add: skip_digits_eq digits_def)
    ultimately have "vely_json_num ?v = json_exponent ?v (length (sg @ ip @ fp)) True"
      unfolding vely_json_num_def Let_def dig edig cd using z ip(2) fs(2) by auto
    then show ?thesis using exponent_complete [OF s(6) r, of _ "sg @ ip @ fp" True] s(1,7) Cons by simp
  qed
qed

text \<open>A JSON number is read exactly: the text before something that cannot continue a number is
  accepted, to its end, just when it is a number of the standard's grammar, and it is called
  real exactly when it has a fraction or an exponent.\<close>

lemma json_number_exact:
  assumes "number_ends r"
  shows "vely_json_num (s @ r) = Inr (length s, real) \<longleftrightarrow> json_number s real"
  using json_num_sound [of "s @ r" "length s" real] json_num_complete [OF assms, of s real] by auto

lemma json_number_exact_witness:
  "vely_json_num (''-1.5e3'' @ ''}'') = Inr (length ''-1.5e3'', True) \<longleftrightarrow> json_number ''-1.5e3'' True"
  by (rule json_number_exact) (simp add: number_ends_def isdigit_def uchar_def)

section \<open>What is written is read back\<close>

text \<open>Code points that a document can carry, and how they are written.\<close>

definition code_point :: "int \<Rightarrow> bool" where
  "code_point n \<longleftrightarrow> 0 < n \<and> n \<le> 0x10FFFF \<and> \<not> (0xD800 \<le> n \<and> n \<le> 0xDFFF) \<and> n \<noteq> 0xFEFF"

definition hex4 :: "int \<Rightarrow> string" where
  "hex4 k = map VV_TO_HEX [k div 4096, k div 256 mod 16, k div 16 mod 16, k mod 16]"

definition escaped :: "int \<Rightarrow> string" where
  "escaped k = CHR 0x5C # CHR ''u'' # hex4 k"

definition written :: "int \<Rightarrow> string" where
  "written n =
     (if 0x10000 \<le> n then escaped (0xD7C0 + n div 1024) @ escaped (0xDC00 + n mod 1024)
      else if 0x80 \<le> n then escaped n else json_char (char_store n))"

lemma hex_byte:
  assumes "0 \<le> k" "k < 256"
  shows "VV_HEX_FROM_BYTE k = [VV_TO_HEX (k div 16), VV_TO_HEX (k mod 16)]"
  using hex_digits_of_byte [of "char_store k"] assms
  by (auto simp: VV_HEX_FROM_BYTE_def and_low8)

lemma hex_from_int16:
  assumes "0 \<le> k" "k < 65536"
  shows "VV_HEX_FROM_INT16 k = hex4 k"
proof -
  have "drop_bit 8 (k AND 0xFF00) = take_bit 8 (drop_bit 8 k)"
    by (simp add: take_bit_eq_mask mask_eq_exp_minus_1)
  moreover have "k AND 0xFF = take_bit 8 k"
    by (simp add: take_bit_eq_mask mask_eq_exp_minus_1)
  moreover have "k div 256 div 16 = k div 4096" "k mod 256 mod 16 = k mod 16"
    by (simp_all add: zdiv_zmult2_eq [symmetric] mod_mod_cancel)
  moreover have "k mod 256 div 16 = k div 16 mod 16"
    using zmod_zmult2_eq [of 16 k 16] by simp
  moreover have "0 \<le> k div 256" "k div 256 < 256" using assms by simp_all
  ultimately show ?thesis
    using hex_byte [of "k div 256"] hex_byte [of "k mod 256"] assms
    by (simp add: VV_HEX_FROM_INT16_def hex4_def take_bit_eq_mod drop_bit_eq_div)
qed

lemma hex4_length [simp]: "length (hex4 k) = 4"
  by (simp add: hex4_def)

lemma escaped_length [simp]: "length (escaped k) = 6"
  by (simp add: escaped_def)

lemma json_char_length: "length (json_char c) \<le> 2" "json_char c \<noteq> []"
  by (auto simp: json_char_def)

lemma written_length: "length (written n) \<le> 3 * length (utf8_bytes n)"
  using json_char_length(1) [of "char_store n"] by (auto simp: written_def utf8_bytes_def)

lemma json_unicode_escaped: "0 \<le> k \<Longrightarrow> k < 65536 \<Longrightarrow> json_unicode (word_of_int k) = escaped k"
  by (simp add: json_unicode_def escaped_def hex_from_int16 sint_small)

lemma lead_byte:
  "0 < n \<Longrightarrow> n \<le> 0x7F \<Longrightarrow> num32_of_char (char_store n) AND 192 \<noteq> 192"
  "0x80 \<le> n \<Longrightarrow> n \<le> 0x10FFFF \<Longrightarrow> num32_of_char (cat (utf8_bytes n @ r) 0) AND 192 = 192"
proof -
  have hi: "(192 + k) AND 192 = (192::int)" if "0 \<le> k" "k < 64" for k
    using small_int_cases [of "\<lambda>k. (192 + k) AND 192 = (192::int)" 64 k] that by (simp add: upt_rec)
  show "num32_of_char (cat (utf8_bytes n @ r) 0) AND 192 = 192" if "0x80 \<le> n" "n \<le> 0x10FFFF"
  proof -
    consider "n \<le> 0x7FF" | "0x800 \<le> n" "n \<le> 0xFFFF" | "0x10000 \<le> n" by linarith
    then show ?thesis
    proof cases
      case 1
      then show ?thesis using that hi [of "n div 64"] by (simp add: utf8_bytes_digits byte_tests)
    next
      case 2
      then show ?thesis using that hi [of "32 + n div 4096"] by (simp add: utf8_bytes_digits byte_tests)
    next
      case 3
      then show ?thesis using that hi [of "48 + n div 262144"] by (simp add: utf8_bytes_digits byte_tests)
    qed
  qed
  show "num32_of_char (char_store n) AND 192 \<noteq> 192" if "0 < n" "n \<le> 0x7F"
    using small_int_cases [of "\<lambda>k. k AND 192 \<noteq> (192::int)" 128 n] that by (simp add: byte_tests upt_rec)
qed

lemma put_result_ok: "length res + length s + extra \<le> cap \<Longrightarrow> put_result cap res s extra = Inr (res @ s)"
  by (simp add: put_result_def)

lemma write_step:
  assumes "code_point n" "length res + length (written n) + 1 \<le> cap" "length pre + length (utf8_bytes n) \<le> len"
  shows "utf8_to_json_loop (pre @ utf8_bytes n @ r) len cap (length pre) res
       = utf8_to_json_loop (pre @ utf8_bytes n @ r) len cap (length pre + length (utf8_bytes n)) (res @ written n)"
proof (cases "n \<le> 0x7F")
  case True
  then have b: "utf8_bytes n = [char_store n]" by (simp add: utf8_bytes_digits)
  have "cat (pre @ utf8_bytes n @ r) (length pre) = char_store n" by (simp add: b cat_append)
  then show ?thesis
    using True assms lead_byte(1) [of n] put_result_ok [of res "json_char (char_store n)" 0 cap]
    by (subst utf8_to_json_loop.simps) (simp add: b code_point_def written_def)
next
  case False
  let ?v = "pre @ utf8_bytes n @ r"
  have n: "0 \<le> n" "n \<le> 0x10FFFF" "0x80 \<le> n" using False assms(1) by (simp_all add: code_point_def)
  have s: "sint (word_of_int n :: num32) = n" using n by (simp add: sint_small)
  have l: "length pre < len" using assms(3) by (simp add: utf8_bytes_def split: if_splits)
  have e: "vely_encode_utf8 (drop (length pre) ?v) = Inr (word_of_int n, length (utf8_bytes n))"
    using encode_utf8_bytes [OF n(1,2)] by simp
  have b: "num32_of_char (cat ?v (length pre)) AND 192 = 192"
    using lead_byte(2) [OF n(3,2), of r] by (simp add: cat_append)
  have w: "(if sint (word_of_int n :: num32) \<ge> 0x10000
           then (case vely_get_utf8_surrogate (word_of_int n) of (u0, u1) \<Rightarrow> json_unicode u0 @ json_unicode u1)
           else json_unicode (word_of_int n)) = written n"
  proof (cases "0x10000 \<le> n")
    case True
    then have "vely_get_utf8_surrogate (word_of_int n) = (word_of_int (0xD7C0 + n div 1024), word_of_int (0xDC00 + n mod 1024))"
      using n surrogates_int [of "word_of_int n"] by (simp only: s)
    moreover have "0 \<le> n div 1024" "n div 1024 \<le> 1087" using n by simp_all
    moreover have "0 \<le> n mod 1024" "n mod 1024 < 1024" by simp_all
    ultimately show ?thesis
      using True json_unicode_escaped [of "0xD7C0 + n div 1024"] json_unicode_escaped [of "0xDC00 + n mod 1024"]
      by (simp only: s if_True prod.case written_def)
  qed (use n in \<open>simp add: s written_def json_unicode_escaped\<close>)
  show ?thesis
    using l b assms(2) put_result_ok [of res "written n" 1 cap]
    by (subst utf8_to_json_loop.simps) (simp only: e w if_True sum.case prod.case refl)
qed

lemma write_all:
  assumes "list_all code_point cs"
    "length res + length (concat (map written cs)) + 1 \<le> cap"
  shows "utf8_to_json_loop (pre @ concat (map utf8_bytes cs)) (length pre + length (concat (map utf8_bytes cs))) cap (length pre) res
       = Inr (Inr (res @ concat (map written cs)))"
  using assms
proof (induction cs arbitrary: pre res)
  case Nil
  then show ?case by (subst utf8_to_json_loop.simps) (simp add: put_result_def)
next
  case (Cons n cs)
  then show ?case
    using write_step [of n res cap pre "length pre + length (utf8_bytes n) + length (concat (map utf8_bytes cs))" "concat (map utf8_bytes cs)"]
      Cons.IH [of "res @ written n" "pre @ utf8_bytes n"]
    by (simp add: add.assoc)
qed

lemma written_total: "length (concat (map written cs)) \<le> 3 * length (concat (map utf8_bytes cs))"
proof (induction cs)
  case (Cons n cs)
  then show ?case using written_length [of n] by simp
qed simp

lemma write_text:
  assumes "list_all code_point cs"
  shows "vely_utf8_to_json (concat (map utf8_bytes cs)) (-1) = Inr (Inr (concat (map written cs)))"
  using write_all [OF assms, of "[]" _ "[]"] written_total [of cs] by (simp add: vely_utf8_to_json_def)

section \<open>Reading\<close>

lemma hex_value_digit: "0 \<le> k \<Longrightarrow> k < 16 \<Longrightarrow> hex_value (VV_TO_HEX k) = Some k"
proof -
  have "list_all (\<lambda>k. hex_value (VV_TO_HEX k) = Some k) [0..15]" by code_simp
  then have "\<forall>k\<in>{0..15}. hex_value (VV_TO_HEX k) = Some k" unfolding list_all_iff set_upto .
  then show "0 \<le> k \<Longrightarrow> k < 16 \<Longrightarrow> hex_value (VV_TO_HEX k) = Some k" by auto
qed

lemma get_hex4:
  assumes "0 \<le> k" "k < 65536"
  shows "vely_get_hex (hex4 k @ r) = Inr (Inr k)"
proof -
  have p: "vely_topower 16 3 = Inr 4096" "vely_topower 16 2 = Inr 256" "vely_topower 16 1 = Inr 16" "vely_topower 16 0 = Inr 1"
    by code_simp+
  have h: "hex_value (VV_TO_HEX (k div 4096)) = Some (k div 4096)"
    "hex_value (VV_TO_HEX (k div 256 mod 16)) = Some (k div 256 mod 16)"
    "hex_value (VV_TO_HEX (k div 16 mod 16)) = Some (k div 16 mod 16)"
    "hex_value (VV_TO_HEX (k mod 16)) = Some (k mod 16)"
    using assms by (simp_all add: hex_value_digit)
  have "k div 4096 = k div 256 div 16" "k div 256 = k div 16 div 16" by (simp_all add: zdiv_zmult2_eq [symmetric])
  moreover have "x div 16 * 16 + x mod 16 = x" for x :: int by simp
  ultimately have "k div 4096 * 4096 + k div 256 mod 16 * 256 + k div 16 mod 16 * 16 + k mod 16 = k"
    using div_mult_mod_eq [of "k div 256" 16] div_mult_mod_eq [of "k div 16" 16] div_mult_mod_eq [of k 16] by linarith
  then show ?thesis
    by (simp add: vely_get_hex_def hex4_def get_hex_loop.simps p h)
qed

lemma escape_hex:
  assumes "0 \<le> k" "k < 65536" "\<not> (0xD800 \<le> k \<and> k \<le> 0xDFFF)"
  shows "json_escape (a @ escaped k @ r) (length a) = Inr (hex_bytes (word_of_int k) 6)"
proof -
  have "drop (length a + 2) (a @ escaped k @ r) = hex4 k @ r" by (simp add: escaped_def)
  moreover have "cat (a @ escaped k @ r) (length a + 1) = CHR ''u''" by (simp add: cat_append escaped_def)
  ultimately show ?thesis
    using assms get_hex4 [OF assms(1,2), of r] by (auto simp: json_escape_def simple_escape_def)
qed

lemma escape_pair:
  assumes "0xD800 \<le> h" "h \<le> 0xDFFF" "0 \<le> l" "l < 65536"
  shows "json_escape (a @ escaped h @ escaped l @ r) (length a)
       = Inr (hex_bytes (vely_make_from_utf8_surrogate (word_of_int h) (word_of_int l)) 12)"
proof -
  let ?v = "a @ escaped h @ escaped l @ r"
  have "drop (length a + 2) ?v = hex4 h @ escaped l @ r" by (simp add: escaped_def)
  moreover have "drop (length a + 8) ?v = hex4 l @ r" by (simp add: escaped_def hex4_def)
  moreover have "cat ?v (length a + 1) = CHR ''u''" "cat ?v (length a + 6) = CHR 0x5C" "cat ?v (length a + 7) = CHR ''u''"
    by (simp_all add: cat_append escaped_def hex4_def)
  moreover have "vely_get_hex (hex4 h @ escaped l @ r) = Inr (Inr h)" "vely_get_hex (hex4 l @ r) = Inr (Inr l)"
    using assms by (simp_all only: get_hex4)
  moreover have "simple_escape CHR ''u'' = None" by (simp add: simple_escape_def)
  ultimately show ?thesis using assms(1,2) by (simp add: json_escape_def)
qed

text \<open>A character that is not copied is one escape, which stands for its bytes.\<close>

definition copied :: "int \<Rightarrow> bool" where
  "copied n \<longleftrightarrow> written n = utf8_bytes n"

lemma escape_written:
  assumes "code_point n" "\<not> copied n"
  shows "json_escape (a @ written n @ r) (length a) = Inr (Inr (utf8_bytes n, length (written n)))
    \<and> cat (a @ written n @ r) (length a) = CHR 0x5C"
proof -
  have n: "0 \<le> n" "n \<le> 0x10FFFF" "n \<noteq> 0xFEFF" using assms(1) by (simp_all add: code_point_def)
  have s: "sint (word_of_int n :: num32) = n" using n by (simp add: sint_small)
  have "word_of_int n \<noteq> (0xFEFF :: num32)"
  proof
    assume "word_of_int n = (0xFEFF :: num32)"
    then have "sint (word_of_int n :: num32) = sint (0xFEFF :: num32)" by simp
    then show False using s n by simp
  qed
  then have h: "hex_bytes (word_of_int n) k = Inr (utf8_bytes n, k)" for k
    using decode_bytes [of "word_of_int n"] n by (simp add: hex_bytes_def s)
  consider "n \<le> 0x7F" | "0x80 \<le> n" "n \<le> 0xFFFF" | "0x10000 \<le> n" by linarith
  then show ?thesis
  proof cases
    case 1
    let ?c = "char_store n"
    have w: "written n = json_char ?c" "utf8_bytes n = [?c]" using 1 by (simp_all add: written_def utf8_bytes_def)
    with assms(2) have "json_char ?c \<noteq> [?c]" by (simp add: copied_def)
    then obtain x where x: "json_char ?c = [CHR 0x5C, x]" "simple_escape x = Some ?c"
      by (auto simp: json_char_def simple_escape_def split: if_splits)
    then show ?thesis by (simp add: w json_escape_def cat_append)
  next
    case 2
    then show ?thesis using escape_hex [of n a r] assms(1) h [of 6]
      by (auto simp: written_def code_point_def cat_append escaped_def)
  next
    case 3
    have "word_of_int (n div 1024) * 1024 + word_of_int (n mod 1024)
        = (word_of_int (n div 1024 * 1024 + n mod 1024) :: num32)"
      by (simp only: of_int_add of_int_mult of_int_numeral)
    then have "word_of_int (n div 1024) * 1024 + word_of_int (n mod 1024) = (word_of_int n :: num32)"
      by (simp only: div_mult_mod_eq)
    then have j: "vely_make_from_utf8_surrogate (word_of_int (0xD7C0 + n div 1024)) (word_of_int (0xDC00 + n mod 1024)) = word_of_int n"
      by (simp add: vely_make_from_utf8_surrogate_def push_bit_eq_mult)
    have "0 \<le> n mod 1024" "n mod 1024 < 1024" "64 \<le> n div 1024" "n div 1024 \<le> 1087" using 3 n by simp_all
    then have "json_escape (a @ written n @ r) (length a) = Inr (Inr (utf8_bytes n, 12))"
      using escape_pair [of "0xD7C0 + n div 1024" "0xDC00 + n mod 1024" a r] h [of 12] 3
      by (simp only: j written_def if_True append_assoc)
    then show ?thesis using 3 by (simp add: written_def cat_append escaped_def)
  qed
qed

text \<open>Characters are read to the left of where they stand, over the room the escapes left.\<close>

lemma pulled:
  assumes "length t \<le> length g + length e"
  shows "\<exists>g'. memput (d @ g @ e @ r) (length d) t = Inr (d @ t @ g' @ r) \<and> length g' = length g + length e - length t"
proof -
  have "drop (length d + length t) (d @ g @ e @ r) = drop (length t) (g @ e) @ r" using assms by simp
  then show ?thesis using assms
    by (intro exI [of _ "drop (length t) (g @ e)"]) (simp add: memput_def)
qed

lemma copied_char:
  assumes "code_point n" "copied n"
  obtains c where "utf8_bytes n = [c]" "written n = [c]" "c \<noteq> CHR 0x22" "c \<noteq> CHR 0x5C" "c \<noteq> NUL"
proof -
  have w: "written n = utf8_bytes n" using assms(2) by (simp add: copied_def)
  have l: "n \<le> 0x7F"
  proof (rule ccontr)
    assume "\<not> n \<le> 0x7F"
    then have "length (written n) \<ge> 6" by (simp add: written_def)
    then show False using w by (simp add: utf8_bytes_def split: if_splits)
  qed
  let ?c = "char_store n"
  have "json_char ?c = [?c]" using w l by (simp add: written_def utf8_bytes_def)
  moreover have "?c \<noteq> NUL" using assms(1) l uchar_char_store [of n] by (auto simp: code_point_def uchar_def)
  ultimately show ?thesis using that [of ?c] w l by (auto simp: json_char_def utf8_bytes_def split: if_splits)
qed

lemma shorter: "code_point n \<Longrightarrow> length (utf8_bytes n) \<le> length (written n)"
  using json_char_length(2) [of "char_store n"] by (auto simp: written_def utf8_bytes_def Suc_le_eq)

lemma read_step:
  assumes "code_point n"
  shows "\<exists>g'. json_decode_loop (d @ g @ written n @ r) 0 (length d + length g) (length g)
      = json_decode_loop (d @ utf8_bytes n @ g' @ r) 0 (length d + length (utf8_bytes n) + length g') (length g')
    \<and> length g' + length (utf8_bytes n) = length g + length (written n)"
proof -
  let ?v = "d @ g @ written n @ r"
  obtain g' where g': "memput ?v (length d) (utf8_bytes n) = Inr (d @ utf8_bytes n @ g' @ r)"
      "length g' = length g + length (written n) - length (utf8_bytes n)"
    using pulled [of "utf8_bytes n" g "written n" d r] shorter [OF assms] by auto
  have le: "length (utf8_bytes n) \<le> length g + length (written n)" using shorter [OF assms] by simp
  show ?thesis
  proof (cases "copied n")
    case True
    from copied_char [OF assms True] obtain c where
      c: "utf8_bytes n = [c]" "written n = [c]" "c \<noteq> CHR 0x22" "c \<noteq> CHR 0x5C" "c \<noteq> NUL" .
    have cat: "cat ?v (length d + length g) = c" by (simp add: cat_append c)
    show ?thesis
    proof (cases "g = []")
      case True
      then show ?thesis using c cat
        by (intro exI [of _ "[]"]) (subst json_decode_loop.simps, simp)
    next
      case False
      then show ?thesis using c cat g'
        by (intro exI [of _ g']) (subst json_decode_loop.simps, simp)
    qed
  next
    case False
    from escape_written [OF assms False, of "d @ g" r] have
      e: "json_escape ?v (length d + length g) = Inr (Inr (utf8_bytes n, length (written n)))"
        "cat ?v (length d + length g) = CHR 0x5C" by simp_all
    have "json_decode_loop ?v 0 (length d + length g) (length g)
        = json_decode_loop (d @ utf8_bytes n @ g' @ r) 0 (length d + length g + length (written n))
            (length g + length (written n) - length (utf8_bytes n))"
      by (subst json_decode_loop.simps) (simp add: e g'(1))
    then show ?thesis using g'(2) le by (intro exI [of _ g']) (simp add: algebra_simps)
  qed
qed

lemma read_all:
  assumes "list_all code_point cs" "cat r 0 = CHR 0x22"
  shows "\<exists>g'. json_decode_loop (d @ g @ concat (map written cs) @ r) 0 (length d + length g) (length g)
      = Inr (Inr (d @ concat (map utf8_bytes cs) @ g' @ r, length d + length g + length (concat (map written cs)), length g'))
      \<and> length d + length g + length (concat (map written cs)) = length d + length (concat (map utf8_bytes cs)) + length g'"
  using assms(1)
proof (induction cs arbitrary: d g)
  case Nil
  have "cat (d @ g @ r) (length d + length g) = CHR 0x22" using assms(2) by (simp add: cat_append)
  then show ?case by (intro exI [of _ g]) (simp add: json_decode_loop.simps)
next
  case (Cons n cs)
  let ?R = "concat (map written cs) @ r"
  obtain g1 where g1: "json_decode_loop (d @ g @ written n @ ?R) 0 (length d + length g) (length g)
      = json_decode_loop (d @ utf8_bytes n @ g1 @ ?R) 0 (length d + length (utf8_bytes n) + length g1) (length g1)"
      "length g1 + length (utf8_bytes n) = length g + length (written n)"
    using read_step [of n d g ?R] Cons.prems by auto
  obtain g2 where g2: "json_decode_loop ((d @ utf8_bytes n) @ g1 @ ?R) 0 (length (d @ utf8_bytes n) + length g1) (length g1)
      = Inr (Inr ((d @ utf8_bytes n) @ concat (map utf8_bytes cs) @ g2 @ r,
            length (d @ utf8_bytes n) + length g1 + length (concat (map written cs)), length g2))"
      "length (d @ utf8_bytes n) + length g1 + length (concat (map written cs))
         = length (d @ utf8_bytes n) + length (concat (map utf8_bytes cs)) + length g2"
    using Cons.IH [of "d @ utf8_bytes n" g1] Cons.prems by auto
  show ?case using g1 g2 by (intro exI [of _ g2]) simp
qed

lemma utf8_bytes_not_NUL:
  assumes "code_point n"
  shows "NUL \<notin> set (utf8_bytes n)"
proof -
  have c: "char_store k \<noteq> NUL" if "0 < k" "k < 256" for k
    using that uchar_char_store [of k] by (auto simp: uchar_def)
  have n: "0 < n" "n \<le> 0x10FFFF" using assms by (simp_all add: code_point_def)
  have m: "char_store (128 + x mod 64) \<noteq> NUL" for x
    by (rule c) (simp_all add: add_pos_nonneg add_strict_increasing)
  consider "n \<le> 0x7F" | "0x80 \<le> n" "n \<le> 0x7FF" | "0x800 \<le> n" "n \<le> 0xFFFF" | "0x10000 \<le> n" by linarith
  then show ?thesis
  proof cases
    case 1
    then show ?thesis using c [of n] n by (simp add: utf8_bytes_digits)
  next
    case 2
    then have "char_store (192 + n div 64) \<noteq> NUL" by (intro c) linarith+
    then show ?thesis using m [of n] 2 by (simp add: utf8_bytes_digits)
  next
    case 3
    then have "char_store (224 + n div 4096) \<noteq> NUL" by (intro c) linarith+
    then show ?thesis using m [of n] m [of "n div 64"] 3 by (simp add: utf8_bytes_digits)
  next
    case 4
    then have "char_store (240 + n div 262144) \<noteq> NUL" using n by (intro c) linarith+
    then show ?thesis using m [of n] m [of "n div 64"] m [of "n div 4096"] 4 by (simp add: utf8_bytes_digits)
  qed
qed

lemma utf8_no_NUL: "list_all code_point cs \<Longrightarrow> NUL \<notin> set (concat (map utf8_bytes cs))"
  using utf8_bytes_not_NUL by (auto simp: list_all_iff)

text \<open>C18: text written as JSON and read back is the same text: for every sequence of characters
  that UTF-8 can carry (not the null character, a surrogate or U+FEFF), the written form, in quotes,
  is read to its closing quote, and what stands there once the caller ends the string is the text.\<close>

theorem json_text_roundtrip:
  assumes "list_all code_point cs" "text = concat (map utf8_bytes cs)"
  shows "\<exists>j v. vely_utf8_to_json text (-1) = Inr (Inr j)
    \<and> vely_json_to_utf8 (CHR 0x22 # j @ [CHR 0x22, NUL]) 0 True True = Some (Inr (Inr (v, length j + 1)))
    \<and> cstr (drop 1 (v[length j + 1 := NUL])) = text"
proof -
  let ?j = "concat (map written cs)" and ?r = "[CHR 0x22, NUL]"
  obtain g where g: "json_decode_loop ([CHR 0x22] @ [] @ ?j @ ?r) 0 (length [CHR 0x22] + length []) (length [])
      = Inr (Inr ([CHR 0x22] @ text @ g @ ?r, length [CHR 0x22] + length [] + length ?j, length g))"
      "length ?j = length text + length g"
    using read_all [OF assms(1), of ?r "[CHR 0x22]" "[]"] assms(2) by auto
  have run: "json_decode_loop (CHR 0x22 # ?j @ ?r) 0 1 0 = Inr (Inr (CHR 0x22 # text @ g @ ?r, Suc (length ?j), length g))"
    using g(1) by simp
  have n: "NUL \<notin> set text" using utf8_no_NUL [OF assms(1)] assms(2) by simp
  define v where "v = (if g = [] then CHR 0x22 # text @ ?r else CHR 0x22 # text @ NUL # tl g @ ?r)"
  have put: "g \<noteq> [] \<Longrightarrow> memput (CHR 0x22 # text @ g @ ?r) (Suc (length text)) [NUL] = Inr v"
    using memput_ok [of "CHR 0x22 # text" "Suc (length text)" "[hd g]" "[NUL]" "tl g @ ?r"]
    by (cases g) (simp_all add: v_def)
  have at: "cat v (Suc (length ?j)) = CHR 0x22"
    using g(2) by (cases g) (simp_all add: v_def cat_append)
  have "vely_json_to_utf8 (CHR 0x22 # ?j @ ?r) 0 True True = Some (Inr (Inr (v, length ?j + 1)))"
  proof (cases "g = []")
    case True
    then have "v = CHR 0x22 # text @ ?r" by (simp add: v_def)
    then show ?thesis using run at True by (simp add: vely_json_to_utf8_def)
  next
    case False
    have "Suc (length ?j) - length g = Suc (length text)" using g(2) by simp
    then show ?thesis using run put [OF False] at False by (simp add: vely_json_to_utf8_def)
  qed
  moreover have "cstr (drop 1 (v[length ?j + 1 := NUL])) = text"
    using n g(2) by (cases g) (simp_all add: v_def list_update_append)
  ultimately show ?thesis
    using write_text [OF assms(1)] unfolding assms(2) by (intro exI conjI)
qed

theorem json_text_roundtrip_witness:
  "\<exists>j v. vely_utf8_to_json (concat (map utf8_bytes [0x22, 0x41, 0xE9, 0x20AC, 0x1F600])) (-1) = Inr (Inr j)
    \<and> vely_json_to_utf8 (CHR 0x22 # j @ [CHR 0x22, NUL]) 0 True True = Some (Inr (Inr (v, length j + 1)))
    \<and> cstr (drop 1 (v[length j + 1 := NUL])) = concat (map utf8_bytes [0x22, 0x41, 0xE9, 0x20AC, 0x1F600])"
  by (rule json_text_roundtrip [OF _ refl]) (simp add: code_point_def)

text \<open>A character cut by the given length overflows the result: its escape needs more than
  the three bytes of every byte counted.\<close>

lemma json_cut_overflows:
  assumes "0x80 \<le> n" "n \<le> 0x10FFFF" "\<not> (0xD800 \<le> n \<and> n \<le> 0xDFFF)" "n \<noteq> 0xFEFF"
  shows "vely_utf8_to_json (utf8_bytes n) 1 = Inl Out_of_bounds"
proof -
  have n: "0 \<le> n" "code_point n" using assms by (simp_all add: code_point_def)
  have s: "sint (word_of_int n :: num32) = n" using n assms by (simp add: sint_small)
  have e: "vely_encode_utf8 (drop 0 (utf8_bytes n)) = Inr (word_of_int n, length (utf8_bytes n))"
    using encode_utf8_bytes [OF n(1) assms(2), of "[]"] by simp
  have b: "num32_of_char (cat (utf8_bytes n) 0) AND 192 = 192"
    using lead_byte(2) [OF assms(1,2), of "[]"] by simp
  have "length (if sint (word_of_int n :: num32) \<ge> 0x10000
           then (case vely_get_utf8_surrogate (word_of_int n) of (u0, u1) \<Rightarrow> json_unicode u0 @ json_unicode u1)
           else json_unicode (word_of_int n)) \<ge> 6"
    by (auto simp: json_unicode_def VV_HEX_FROM_INT16_def VV_HEX_FROM_BYTE_def split: prod.splits)
  then have "put_result 4 [] (if sint (word_of_int n :: num32) \<ge> 0x10000
           then (case vely_get_utf8_surrogate (word_of_int n) of (u0, u1) \<Rightarrow> json_unicode u0 @ json_unicode u1)
           else json_unicode (word_of_int n)) 1 = Inl Out_of_bounds"
    unfolding put_result_def by simp
  then have "utf8_to_json_loop (utf8_bytes n) 1 4 0 [] = Inl Out_of_bounds"
    by (subst utf8_to_json_loop.simps) (simp only: e b sum.case prod.case, simp)
  then show ?thesis by (simp add: vely_utf8_to_json_def)
qed

lemma json_cut_overflows_witness: "vely_utf8_to_json (utf8_bytes 0xE9) 1 = Inl Out_of_bounds"
  by (rule json_cut_overflows) simp_all

lemma skip_no_quote:
  assumes "json_skip_loop v b quoted i = Some n"
  shows "\<not> quoted \<longrightarrow> cat v (b + i) \<noteq> CHR 0x22"
  using assms
  by (rule json_skip_loop.raw_induct [rotated]) (auto split: if_splits)

lemma skip_plain:
  "CHR 0x5C \<notin> set a \<Longrightarrow> CHR 0x22 \<notin> set a \<Longrightarrow> NUL \<notin> set a \<Longrightarrow>
   json_skip_loop (p @ a @ r) 0 quoted (length p) = json_skip_loop (p @ a @ r) 0 quoted (length p + length a)"
proof (induction a arbitrary: p)
  case (Cons c a)
  let ?v = "p @ (c # a) @ r"
  have "cat ?v (0 + length p) = c" by (simp add: cat_append)
  moreover have "c \<noteq> CHR 0x5C" "c \<noteq> CHR 0x22" "c \<noteq> NUL" using Cons.prems by auto
  ultimately have "json_skip_loop ?v 0 quoted (length p) = json_skip_loop ?v 0 quoted (length p + 1)"
    using json_skip_loop.simps [of ?v 0 quoted "length p"] by simp
  then have "json_skip_loop (p @ (c # a) @ r) 0 quoted (length p) = json_skip_loop ((p @ [c]) @ a @ r) 0 quoted (length (p @ [c]))"
    by simp
  also have "\<dots> = json_skip_loop ((p @ [c]) @ a @ r) 0 quoted (length (p @ [c]) + length a)"
    using Cons.prems by (intro Cons.IH) auto
  finally show ?case by simp
qed simp

text \<open>Without decoding, a text that is not quoted is passed to its end exactly when it has no
  double quote; at a quote the loop never moves, and the call does not return.\<close>

lemma json_skip_returns:
  assumes "CHR 0x5C \<notin> set s" "NUL \<notin> set s"
  shows "vely_json_to_utf8 (s @ [NUL]) 0 False False
       = (if CHR 0x22 \<in> set s then None else Some (Inr (Inr (s @ [NUL], length s))))"
proof (cases "CHR 0x22 \<in> set s")
  case True
  then obtain a r where s: "s = a @ CHR 0x22 # r" "CHR 0x22 \<notin> set a" by (meson split_list_first)
  have "json_skip_loop (s @ [NUL]) 0 False 0 = json_skip_loop (s @ [NUL]) 0 False (length a)"
    using skip_plain [of a "[]" "CHR 0x22 # r @ [NUL]" False] assms s by simp
  moreover have "json_skip_loop (s @ [NUL]) 0 False (length a) = None"
    using skip_no_quote [of "s @ [NUL]" 0 False "length a"] s
    by (cases "json_skip_loop (s @ [NUL]) 0 False (length a)") (simp_all add: cat_append)
  ultimately show ?thesis using True by (simp add: vely_json_to_utf8_def)
next
  case False
  have "json_skip_loop (s @ [NUL]) 0 False 0 = Some (length s)"
    using skip_plain [of s "[]" "[NUL]" False] assms False
    by (simp add: json_skip_loop.simps [of _ _ _ "length s"] cat_append)
  then show ?thesis using False by (simp add: vely_json_to_utf8_def cat_append)
qed

section \<open>The strings of a document\<close>

text \<open>A hexadecimal digit, in either case, and four of them.\<close>

definition hex_digit :: "char \<Rightarrow> int \<Rightarrow> bool" where
  "hex_digit c k \<longleftrightarrow> 0 \<le> k \<and> k < 16 \<and> (c = ''0123456789abcdef'' ! nat k \<or> c = ''0123456789ABCDEF'' ! nat k)"

definition four_digits :: "string \<Rightarrow> int \<Rightarrow> bool" where
  "four_digits h k \<longleftrightarrow> (\<exists>c3 c2 c1 c0 k3 k2 k1 k0. h = [c3, c2, c1, c0] \<and> hex_digit c3 k3 \<and> hex_digit c2 k2 \<and> hex_digit c1 k1 \<and>
     hex_digit c0 k0 \<and> k = k3 * 4096 + k2 * 256 + k1 * 16 + k0)"

text \<open>The escapes of JSON and the texts between quotes, each with the bytes it stands for.\<close>

inductive escape_of :: "string \<Rightarrow> string \<Rightarrow> bool" where
  one_letter: "(x, c) \<in> set (zip (CHR 0x22 # CHR 0x5C # ''/bfnrt'')
      [CHR 0x22, CHR 0x5C, CHR ''/'', CHR 0x08, CHR 0x0C, CHR 0x0A, CHR 0x0D, CHR 0x09]) \<Longrightarrow> escape_of [CHR 0x5C, x] [c]"
| one_value: "four_digits h n \<Longrightarrow> code_point n \<Longrightarrow> escape_of (CHR 0x5C # CHR ''u'' # h) (utf8_bytes n)"
| surrogates: "four_digits h (0xD800 + a) \<Longrightarrow> four_digits l (0xDC00 + b) \<Longrightarrow> 0 \<le> a \<Longrightarrow> a < 1024 \<Longrightarrow> 0 \<le> b \<Longrightarrow> b < 1024 \<Longrightarrow>
    escape_of (CHR 0x5C # CHR ''u'' # h @ CHR 0x5C # CHR ''u'' # l) (utf8_bytes (0x10000 + a * 1024 + b))"

inductive quoted_text :: "string \<Rightarrow> string \<Rightarrow> bool" where
  no_more: "quoted_text [] []"
| one_byte: "c \<notin> {CHR 0x22, CHR 0x5C, NUL} \<Longrightarrow> quoted_text t s \<Longrightarrow> quoted_text (c # t) (c # s)"
| one_escape: "escape_of e b \<Longrightarrow> quoted_text t s \<Longrightarrow> quoted_text (e @ t) (b @ s)"

lemma hex_digit_value:
  assumes "hex_digit c k"
  shows "hex_value c = Some k" "c \<notin> {CHR 0x22, CHR 0x5C, NUL}"
proof -
  have "list_all (\<lambda>k. hex_value (''0123456789abcdef'' ! nat k) = Some k \<and> hex_value (''0123456789ABCDEF'' ! nat k) = Some k) [0..15]"
    by code_simp
  then have "\<forall>k\<in>{0..15}. hex_value (''0123456789abcdef'' ! nat k) = Some k \<and> hex_value (''0123456789ABCDEF'' ! nat k) = Some k"
    unfolding list_all_iff set_upto .
  then show v: "hex_value c = Some k" using assms by (auto simp: hex_digit_def)
  have "hex_value CHR 0x22 = None" "hex_value CHR 0x5C = None" "hex_value NUL = None"
    by (simp_all add: hex_value_def schar_def uchar_def)
  then show "c \<notin> {CHR 0x22, CHR 0x5C, NUL}" using v by auto
qed

lemma four_digits_read:
  assumes "four_digits h k"
  shows "vely_get_hex (h @ r) = Inr (Inr k)" "0 \<le> k" "k < 65536" "length h = 4" "list_all (\<lambda>c. c \<notin> {CHR 0x22, CHR 0x5C, NUL}) h"
proof -
  obtain c3 c2 c1 c0 k3 k2 k1 k0 where h: "h = [c3, c2, c1, c0]" "hex_digit c3 k3" "hex_digit c2 k2" "hex_digit c1 k1" "hex_digit c0 k0"
      "k = k3 * 4096 + k2 * 256 + k1 * 16 + k0"
    using assms unfolding four_digits_def by blast
  have p: "vely_topower 16 3 = Inr 4096" "vely_topower 16 2 = Inr 256" "vely_topower 16 1 = Inr 16" "vely_topower 16 0 = Inr 1"
    by code_simp+
  note v = hex_digit_value(1) [OF h(2)] hex_digit_value(1) [OF h(3)] hex_digit_value(1) [OF h(4)] hex_digit_value(1) [OF h(5)]
  show "vely_get_hex (h @ r) = Inr (Inr k)"
    by (simp add: vely_get_hex_def h(1,6) get_hex_loop.simps p v)
  have "0 \<le> k3" "k3 < 16" "0 \<le> k2" "k2 < 16" "0 \<le> k1" "k1 < 16" "0 \<le> k0" "k0 < 16"
    using h(2-5) by (simp_all add: hex_digit_def)
  then show "0 \<le> k" "k < 65536" unfolding h(6) by linarith+
  show "length h = 4" by (simp add: h(1))
  show "list_all (\<lambda>c. c \<notin> {CHR 0x22, CHR 0x5C, NUL}) h"
    using hex_digit_value(2) [OF h(2)] hex_digit_value(2) [OF h(3)] hex_digit_value(2) [OF h(4)] hex_digit_value(2) [OF h(5)]
    unfolding h(1) by simp
qed

lemma decoded_value: "0 < n \<Longrightarrow> n \<le> 0x10FFFF \<Longrightarrow> \<not> (0xD800 \<le> n \<and> n \<le> 0xDFFF) \<Longrightarrow> n \<noteq> 0xFEFF \<Longrightarrow>
    hex_bytes (word_of_int n) k = Inr (utf8_bytes n, k)"
proof -
  assume n: "0 < n" "n \<le> 0x10FFFF" "\<not> (0xD800 \<le> n \<and> n \<le> 0xDFFF)" "n \<noteq> 0xFEFF"
  have s: "sint (word_of_int n :: num32) = n" using n by (simp add: sint_small)
  have "word_of_int n \<noteq> (0xFEFF :: num32)"
  proof
    assume "word_of_int n = (0xFEFF :: num32)"
    then have "sint (word_of_int n :: num32) = sint (0xFEFF :: num32)" by simp
    then show False using s n by simp
  qed
  then show ?thesis using decode_bytes [of "word_of_int n"] n by (simp add: hex_bytes_def s)
qed

text \<open>Every escape is read as what it stands for, and takes more room than that.\<close>

lemma escape_read:
  assumes "escape_of e b"
  shows "json_escape (a @ e @ r) (length a) = Inr (Inr (b, length e))" "cat (a @ e @ r) (length a) = CHR 0x5C"
    "length b \<le> length e" "NUL \<notin> set b" "NUL \<notin> set e"
proof -
  have u: "simple_escape CHR ''u'' = None" by (simp add: simple_escape_def)
  have all: "json_escape (a @ e @ r) (length a) = Inr (Inr (b, length e)) \<and> cat (a @ e @ r) (length a) = CHR 0x5C
    \<and> length b \<le> length e \<and> NUL \<notin> set b \<and> NUL \<notin> set e"
    using assms
  proof cases
    case (one_letter x c)
    then have "simple_escape x = Some c \<and> c \<noteq> NUL \<and> x \<noteq> NUL" by (auto simp: simple_escape_def)
    then show ?thesis using one_letter(1,2) by (auto simp: json_escape_def cat_append)
  next
    case (one_value h n)
    note d = four_digits_read [OF one_value(3)]
    have n: "0 < n" "n \<le> 0x10FFFF" "\<not> (0xD800 \<le> n \<and> n \<le> 0xDFFF)" "n \<noteq> 0xFEFF" using one_value(4) by (simp_all add: code_point_def)
    have "drop (length a + 2) (a @ e @ r) = h @ r" by (simp add: one_value(1))
    moreover have "cat (a @ e @ r) (length a + 1) = CHR ''u''" "cat (a @ e @ r) (length a) = CHR 0x5C"
      by (simp_all add: one_value(1) cat_append)
    moreover have "length b \<le> 4" by (simp add: one_value(2) utf8_bytes_def)
    moreover have "NUL \<notin> set h" using d(5) by (auto simp: list_all_iff)
    ultimately show ?thesis
      using d(1) [of r] d(4) n u decoded_value [OF n] utf8_bytes_not_NUL [OF one_value(4)]
      by (auto simp: json_escape_def one_value(1,2))
  next
    case (surrogates h x l y)
    note d = four_digits_read [OF surrogates(3)] and f = four_digits_read [OF surrogates(4)]
    let ?n = "0x10000 + x * 1024 + y"
    have xy: "0 \<le> x" "x < 1024" "0 \<le> y" "y < 1024" using surrogates(5-8) by simp_all
    have n: "0 < ?n" "?n \<le> 0x10FFFF" "\<not> (0xD800 \<le> ?n \<and> ?n \<le> 0xDFFF)" "?n \<noteq> 0xFEFF" using xy by linarith+
    define H L where HL: "H = 0xD800 + x" "L = 0xDC00 + y"
    have range: "0xD800 \<le> H" "H \<le> 0xDFFF" using xy by (simp_all add: HL)
    have "vely_make_from_utf8_surrogate (word_of_int H) (word_of_int L) = word_of_int ?n"
      by (simp add: HL vely_make_from_utf8_surrogate_def push_bit_eq_mult algebra_simps)
    then have bytes: "hex_bytes (vely_make_from_utf8_surrogate (word_of_int H) (word_of_int L)) 12 = Inr (b, 12)"
      using decoded_value [OF n, of 12] by (simp only: surrogates(2))
    have "drop (length a + 2) (a @ e @ r) = h @ CHR 0x5C # CHR ''u'' # l @ r" by (simp add: surrogates(1))
    moreover have "drop (length a + 8) (a @ e @ r) = l @ r" using d(4) by (simp add: surrogates(1))
    moreover have "cat (a @ e @ r) (length a + 1) = CHR ''u''" "cat (a @ e @ r) (length a) = CHR 0x5C"
        "cat (a @ e @ r) (length a + 6) = CHR 0x5C" "cat (a @ e @ r) (length a + 7) = CHR ''u''"
      using d(4) by (simp_all add: surrogates(1) cat_append)
    moreover have "vely_get_hex (h @ CHR 0x5C # CHR ''u'' # l @ r) = Inr (Inr H)" unfolding HL by (rule d(1))
    moreover have "vely_get_hex (l @ r) = Inr (Inr L)" unfolding HL by (rule f(1))
    moreover have "length b \<le> 4" by (simp add: surrogates(2) utf8_bytes_def)
    moreover have "NUL \<notin> set h" "NUL \<notin> set l" using d(5) f(5) by (auto simp: list_all_iff)
    moreover have "NUL \<notin> set b" unfolding surrogates(2) by (rule utf8_bytes_not_NUL) (use n in \<open>simp add: code_point_def\<close>)
    moreover have "length e = 12" using d(4) f(4) by (simp add: surrogates(1))
    ultimately show ?thesis
      using u range bytes surrogates(1) by (auto simp: json_escape_def)
  qed
  then show "json_escape (a @ e @ r) (length a) = Inr (Inr (b, length e))" "cat (a @ e @ r) (length a) = CHR 0x5C"
    "length b \<le> length e" "NUL \<notin> set b" "NUL \<notin> set e" by simp_all
qed


lemma quoted_no_NUL: "quoted_text t s \<Longrightarrow> NUL \<notin> set s \<and> NUL \<notin> set t"
  by (induction rule: quoted_text.induct) (auto dest: escape_read(4,5))

lemma pulled_along:
  assumes "length b \<le> length g + length e"
  obtains g' where "memput (d @ g @ e @ r) (length d) b = Inr (d @ b @ g' @ r)" "length g' + length b = length g + length e"
  using pulled [OF assms, of d r] assms by auto

text \<open>Decoding in place: the text moves to the left, over a gap that grows with every escape.\<close>

lemma decode_quoted:
  assumes "quoted_text t s"
  shows "b + i = length d + length g \<Longrightarrow>
    \<exists>g'. json_decode_loop (d @ g @ t @ CHR 0x22 # r) b i (length g) = Inr (Inr (d @ s @ g' @ CHR 0x22 # r, i + length t, length g'))
      \<and> length g' + length s = length g + length t"
  using assms
proof (induction arbitrary: d g i rule: quoted_text.induct)
  case no_more
  have "cat (d @ g @ CHR 0x22 # r) (length d + length g) = CHR 0x22" by (simp add: cat_append)
  then show ?case using no_more by (intro exI [of _ g]) (simp add: json_decode_loop.simps)
next
  case (one_byte c t s)
  let ?v = "d @ g @ c # t @ CHR 0x22 # r"
  have at: "cat ?v (b + i) = c" using one_byte.prems by (simp add: cat_append)
  obtain g1 where g1: "memput (d @ g @ [c] @ t @ CHR 0x22 # r) (length d) [c] = Inr (d @ [c] @ g1 @ t @ CHR 0x22 # r)"
      "length g1 + length [c] = length g + length [c]"
    by (rule pulled_along [of "[c]" g "[c]"]) simp
  have g0: "g = [] \<Longrightarrow> g1 = []" using g1(2) by simp
  have pos: "b + i - length g = length d" using one_byte.prems by simp
  have step: "json_decode_loop ?v b i (length g) = json_decode_loop ((d @ [c]) @ g1 @ t @ CHR 0x22 # r) b (i + 1) (length g1)"
  proof (cases "g = []")
    case True
    then show ?thesis using at one_byte.hyps(1) g0 by (subst json_decode_loop.simps) simp
  next
    case False
    then show ?thesis using at one_byte.hyps(1) g1 pos by (subst json_decode_loop.simps) simp
  qed
  obtain g' where "json_decode_loop ((d @ [c]) @ g1 @ t @ CHR 0x22 # r) b (i + 1) (length g1)
      = Inr (Inr ((d @ [c]) @ s @ g' @ CHR 0x22 # r, i + 1 + length t, length g'))" "length g' + length s = length g1 + length t"
    using one_byte.IH [of "i + 1" "d @ [c]" g1] one_byte.prems g1(2) by auto
  then show ?case using step g1(2) by (intro exI [of _ g']) simp
next
  case (one_escape e c t s)
  let ?v = "d @ g @ e @ t @ CHR 0x22 # r"
  note read = escape_read(1,2) [OF one_escape.hyps(1), of "d @ g" "t @ CHR 0x22 # r"] escape_read(3) [OF one_escape.hyps(1)]
  have at: "cat ?v (b + i) = CHR 0x5C" "json_escape ?v (b + i) = Inr (Inr (c, length e))"
    using read(1,2) one_escape.prems by simp_all
  have pos: "b + i - length g = length d" using one_escape.prems by simp
  have le: "length c \<le> length g + length e" using read(3) by simp
  obtain g1 where g1: "memput ?v (length d) c = Inr (d @ c @ g1 @ t @ CHR 0x22 # r)" "length g1 + length c = length g + length e"
    by (rule pulled_along [OF le])
  have "length g + length e - length c = length g1" using g1(2) by simp
  then have step: "json_decode_loop ?v b i (length g) = json_decode_loop ((d @ c) @ g1 @ t @ CHR 0x22 # r) b (i + length e) (length g1)"
    using at g1(1) pos by (subst json_decode_loop.simps) simp
  obtain g' where "json_decode_loop ((d @ c) @ g1 @ t @ CHR 0x22 # r) b (i + length e) (length g1)
      = Inr (Inr ((d @ c) @ s @ g' @ CHR 0x22 # r, i + length e + length t, length g'))" "length g' + length s = length g1 + length t"
    using one_escape.IH [of "i + length e" "d @ c" g1] one_escape.prems g1(2) by auto
  then show ?case using step g1(2) by (intro exI [of _ g']) simp
qed

text \<open>Passing without decoding.\<close>

lemma skip_bytes:
  "list_all (\<lambda>c. c \<notin> {CHR 0x22, CHR 0x5C, NUL}) h \<Longrightarrow> b + i = length d \<Longrightarrow>
   json_skip_loop (d @ h @ r) b quoted i = json_skip_loop (d @ h @ r) b quoted (i + length h)"
proof (induction h arbitrary: d i)
  case (Cons c h)
  have "cat (d @ (c # h) @ r) (b + i) = c" using Cons.prems(2) by (simp add: cat_append)
  then have "json_skip_loop (d @ (c # h) @ r) b quoted i = json_skip_loop ((d @ [c]) @ h @ r) b quoted (i + 1)"
    using Cons.prems(1) by (subst json_skip_loop.simps) simp
  also have "\<dots> = json_skip_loop ((d @ [c]) @ h @ r) b quoted (i + 1 + length h)"
    using Cons.prems by (intro Cons.IH) simp_all
  finally show ?case by simp
qed simp

lemma skip_letters:
  assumes "b + i = length d" "x \<noteq> NUL" "list_all (\<lambda>c. c \<notin> {CHR 0x22, CHR 0x5C, NUL}) h"
  shows "json_skip_loop (d @ (CHR 0x5C # x # h) @ r) b quoted i = json_skip_loop (d @ (CHR 0x5C # x # h) @ r) b quoted (i + 2 + length h)"
proof -
  let ?v = "(d @ [CHR 0x5C, x]) @ h @ r"
  have "cat ?v (b + i) = CHR 0x5C" "cat ?v (b + i + 1) = x" using assms(1) by (simp_all add: cat_append)
  then have "json_skip_loop ?v b quoted i = json_skip_loop ?v b quoted (i + 2)"
    using assms(2) by (subst json_skip_loop.simps) simp
  also have "\<dots> = json_skip_loop ?v b quoted (i + 2 + length h)"
    by (rule skip_bytes [OF assms(3)]) (use assms(1) in simp)
  finally show ?thesis by simp
qed

lemma skip_escape:
  assumes "escape_of e c" "b + i = length d"
  shows "json_skip_loop (d @ e @ r) b quoted i = json_skip_loop (d @ e @ r) b quoted (i + length e)"
  using assms(1)
proof cases
  case (one_letter x y)
  then have "x \<noteq> NUL" by auto
  then show ?thesis using skip_letters [OF assms(2), of x "[]"] one_letter(1) by simp
next
  case (one_value h n)
  then show ?thesis using skip_letters [OF assms(2), of "CHR ''u''" h] four_digits_read(5) by simp
next
  case (surrogates h x l y)
  note d = four_digits_read(4,5) [OF surrogates(3)] and f = four_digits_read(4,5) [OF surrogates(4)]
  let ?v = "d @ e @ r"
  have "json_skip_loop ?v b quoted i = json_skip_loop ?v b quoted (i + 6)"
    using skip_letters [OF assms(2) _ d(2), of "CHR ''u''" "CHR 0x5C # CHR ''u'' # l @ r" quoted] d(1)
    by (simp add: surrogates(1) add.commute)
  moreover have "b + (i + 6) = length (d @ CHR 0x5C # CHR ''u'' # h)" using assms(2) d(1) by simp
  from skip_letters [OF this _ f(2), of "CHR ''u''" r quoted]
  have "json_skip_loop ?v b quoted (i + 6) = json_skip_loop ?v b quoted (i + 12)"
    using f(1) by (simp add: surrogates(1) add.commute)
  ultimately show ?thesis using d(1) f(1) by (simp add: surrogates(1))
qed

lemma skip_quoted_text:
  assumes "quoted_text t s"
  shows "b + i = length d \<Longrightarrow> json_skip_loop (d @ t @ CHR 0x22 # r) b True i = Some (i + length t)"
  using assms
proof (induction arbitrary: d i rule: quoted_text.induct)
  case no_more
  then show ?case by (subst json_skip_loop.simps) (simp add: cat_append)
next
  case (one_byte c t s)
  have "json_skip_loop (d @ [c] @ t @ CHR 0x22 # r) b True i = json_skip_loop (d @ [c] @ t @ CHR 0x22 # r) b True (i + length [c])"
    by (rule skip_bytes) (use one_byte in simp_all)
  then show ?case using one_byte.IH [of "i + 1" "d @ [c]"] one_byte.prems by simp
next
  case (one_escape e c t s)
  show ?case
    using skip_escape [OF one_escape.hyps(1) one_escape.prems, of "t @ CHR 0x22 # r" True] one_escape.IH [of "i + length e" "d @ e"] one_escape.prems
    by simp
qed

text \<open>A text between quotes is read to its closing quote; what stands there then is the text it spells, or the text as it is
  written when it is not decoded.\<close>

lemma quoted_text_read:
  assumes "quoted_text t s"
  obtains x where "vely_json_to_utf8 (a @ CHR 0x22 # t @ CHR 0x22 # r) (length a) True enc
      = Some (Inr (Inr (a @ CHR 0x22 # x @ CHR 0x22 # r, length a + 1 + length t)))"
    "length x = length t" "cstr (x @ NUL # r') = (if enc then s else t)"
proof (cases enc)
  case False
  have "json_skip_loop (a @ CHR 0x22 # t @ CHR 0x22 # r) (length a) True 1 = Some (1 + length t)"
    using skip_quoted_text [OF assms, of "length a" 1 "a @ [CHR 0x22]" r] by simp
  then show ?thesis using False quoted_no_NUL [OF assms] cstr_terminated [of t r']
    by (intro that [of t]) (simp_all add: vely_json_to_utf8_def cat_append)
next
  case True
  obtain g where g: "json_decode_loop (a @ CHR 0x22 # t @ CHR 0x22 # r) (length a) 1 0
      = Inr (Inr (a @ CHR 0x22 # s @ g @ CHR 0x22 # r, 1 + length t, length g))" "length g + length s = length t"
    using decode_quoted [OF assms, of "length a" 1 "a @ [CHR 0x22]" "[]" r] by auto
  define x where "x = s @ (if g = [] then [] else NUL # tl g)"
  have x: "length x = length t" using g(2) by (cases g) (simp_all add: x_def)
  have "cstr (x @ NUL # r') = s"
    using quoted_no_NUL [OF assms] cstr_terminated [of s r'] cstr_terminated [of s "tl g @ NUL # r'"] by (simp add: x_def)
  moreover have "vely_json_to_utf8 (a @ CHR 0x22 # t @ CHR 0x22 # r) (length a) True enc
      = Some (Inr (Inr (a @ CHR 0x22 # x @ CHR 0x22 # r, length a + 1 + length t)))"
  proof (cases g)
    case Nil
    then show ?thesis using True g x by (simp add: vely_json_to_utf8_def x_def cat_append)
  next
    case (Cons y g')
    have pos: "length a + (1 + length t) - length g = length a + 1 + length s" using g(2) by simp
    have "memput ((a @ CHR 0x22 # s) @ [y] @ g' @ CHR 0x22 # r) (length a + 1 + length s) [NUL]
        = Inr ((a @ CHR 0x22 # s) @ [NUL] @ g' @ CHR 0x22 # r)"
      by (rule memput_ok) simp_all
    then have "memput (a @ CHR 0x22 # s @ g @ CHR 0x22 # r) (length a + (1 + length t) - length g) [NUL]
        = Inr (a @ CHR 0x22 # x @ CHR 0x22 # r)" unfolding pos by (simp add: x_def Cons)
    moreover have "cat (a @ CHR 0x22 # x @ CHR 0x22 # r) (length a + (1 + length t)) = CHR 0x22" using x by (simp add: cat_append)
    ultimately show ?thesis using True g(1) Cons by (simp add: vely_json_to_utf8_def)
  qed
  ultimately show ?thesis using that [of x] x True by simp
qed

end
