(* ===== verification/Json.thy ===== *)
theory Json
  imports JsonText HashTab
begin

unbundle bit_operations_syntax

text \<open>
  The JSON parser and the parsed document, from json.c.  The parser's static variables are the
  record \<open>jp\<close>, which lives from one document to the next; its text is a buffer that ends with
  a null byte, into which the parser writes null bytes to end names and values, and names and
  values are positions in it.  The recursion of \<^verbatim>\<open>vely_json_new\<close> is bounded by fuel, which
  \<open>json_returns\<close> shows to be enough.
\<close>

section \<open>Types, statuses and texts\<close>

definition VV_JSON_TYPE_STRING :: int where "VV_JSON_TYPE_STRING = 0"
definition VV_JSON_TYPE_NUMBER :: int where "VV_JSON_TYPE_NUMBER = 1"
definition VV_JSON_TYPE_REAL :: int where "VV_JSON_TYPE_REAL = 2"
definition VV_JSON_TYPE_BOOL :: int where "VV_JSON_TYPE_BOOL = 3"
definition VV_JSON_TYPE_NULL :: int where "VV_JSON_TYPE_NULL = 4"

definition VV_ERR_JSON_UNKNOWN :: string where "VV_ERR_JSON_UNKNOWN = ''Unknown entity (true, false or null)''"
definition VV_ERR_JSON_COLON_EXPECTED :: string where "VV_ERR_JSON_COLON_EXPECTED = ''Colon is expected here''"
definition VV_ERR_JSON_NAME_EXPECTED :: string where "VV_ERR_JSON_NAME_EXPECTED = ''Name is expected here''"
definition VV_ERR_JSON_COMMA_END_OBJECT_EXPECTED :: string where
  "VV_ERR_JSON_COMMA_END_OBJECT_EXPECTED = ''Comma or end of object is expected here''"
definition VV_ERR_JSON_COMMA_END_ARRAY_EXPECTED :: string where
  "VV_ERR_JSON_COMMA_END_ARRAY_EXPECTED = ''Comma or end of array is expected here''"
definition VV_ERR_JSON_UNRECOGNIZED :: string where "VV_ERR_JSON_UNRECOGNIZED = ''Unrecognized token''"
definition VV_ERR_JSON_SYNTAX :: string where "VV_ERR_JSON_SYNTAX = ''Extra characters remaining unparsed''"
definition VV_ERR_JSON_DEPTH :: string where "VV_ERR_JSON_DEPTH = ''Depth of leaf node too great''"
definition VV_ERR_JSON_INTERRUPTED :: string where
  "VV_ERR_JSON_INTERRUPTED = ''JSON parsing interrupted by a request handler''"

definition VV_JSON_NODES :: int where "VV_JSON_NODES = 32"
definition VV_JSON_MAX_NESTED :: nat where "VV_JSON_MAX_NESTED = 32"

text \<open>An element of the path of names: the name is a position in the buffer.\<close>

record json_node =
  name :: "nat option"
  name_len :: nat
  index :: int
  index_len :: int

text \<open>A value with its normalized name; the value is a position in the buffer.\<close>

record vely_jsonn =
  nname :: string
  ntype :: int
  nstr :: "nat option"

text \<open>The static variables of the parser, the text and the position in it, and the calls made so far to
  a node handler: the path and its length, the value and its type.\<close>

type_synonym node_call = "int \<times> json_node list \<times> nat \<times> int"

record jp =
  val :: string
  pos :: nat
  jlist :: "json_node list"
  list_c :: int
  node_tot :: int
  node_c :: int
  nodes :: "vely_jsonn list"
  incby :: int
  nulled :: char
  errm :: string
  ec :: int
  depth :: int
  calls :: "node_call list"

text \<open>
  What a run depends on: whether names go to a hash, the handler of nodes (code of the caller,
  which sees the text, the earlier calls and this one), whether strings are decoded, the length.
\<close>

record jenv =
  usehash :: bool
  node_handler :: "(string \<Rightarrow> node_call list \<Rightarrow> node_call \<Rightarrow> int) option"
  dec :: bool
  jlen :: nat

definition json_error :: "string \<Rightarrow> jp \<Rightarrow> jp" where
  "json_error e s = s\<lparr>ec := int (pos s), errm := e\<rparr>"

text \<open>An element of the path; outside it is a fault.\<close>

definition path_at :: "jp \<Rightarrow> int \<Rightarrow> json_node res" where
  "path_at s i = (if 0 \<le> i \<and> i < int (length (jlist s)) then Inr (jlist s ! nat i) else Inl Out_of_bounds)"

definition path_put :: "int \<Rightarrow> json_node \<Rightarrow> jp \<Rightarrow> jp res" where
  "path_put i n s =
     (if 0 \<le> i \<and> i < int (length (jlist s)) then Inr (s\<lparr>jlist := (jlist s)[nat i := n]\<rparr>) else Inl Out_of_bounds)"

section \<open>Normalized names\<close>

function index_digits :: "int \<Rightarrow> int" where
  "index_digits a = (if a > 0 then 1 + index_digits (a div 10) else 0)"
  by pat_completeness auto
termination by (relation "measure nat") auto

declare index_digits.simps [simp del]

text \<open>The digits of an index, written from the last place backwards.\<close>

function put_digits :: "string \<Rightarrow> int \<Rightarrow> int \<Rightarrow> int \<Rightarrow> string \<times> int" where
  "put_digits buf lst k al =
     (if al > 0
      then put_digits (buf[nat (lst - k) := char_store (48 + al mod 10)]) lst (k + 1) (al div 10)
      else (buf, k))"
  by pat_completeness auto
termination by (relation "measure (\<lambda>(buf, lst, k, al). nat al)") auto

declare put_digits.simps [simp del]

text \<open>
  The bytes of a name in the buffer: a null name has none, and copying from it is a fault
  otherwise.  One element of the normalized name, after the dot.
\<close>

definition name_bytes :: "string \<Rightarrow> json_node \<Rightarrow> string res" where
  "name_bytes v n =
     (case name n of
        None \<Rightarrow> (if name_len n = 0 then Inr [] else Inl Out_of_bounds)
      | Some off \<Rightarrow> (if off + name_len n \<le> length v then Inr (take (name_len n) (drop off v)) else Inl Out_of_bounds))"

definition index_text :: "json_node \<Rightarrow> string" where
  "index_text n =
     (if index n = -1 then []
      else let al = (if index n = 0 then 1 else index_digits (index n)) in
        ''['' @ (if index n = 0 then ''0''
                 else case put_digits (replicate (nat al) NUL) (al - 1) 0 (index n) of (ds, k) \<Rightarrow> take (nat k) ds) @ '']'')"

definition name_part :: "string \<Rightarrow> json_node \<Rightarrow> string res" where
  "name_part v n = res_bind (name_bytes v n) (\<lambda>b. Inr (CHR 0x22 # b @ CHR 0x22 # index_text n))"

fun name_parts :: "string \<Rightarrow> bool \<Rightarrow> json_node list \<Rightarrow> string res" where
  "name_parts v first [] = Inr []"
| "name_parts v first (n # ns) =
     res_bind (name_part v n) (\<lambda>p.
     res_bind (name_parts v False ns) (\<lambda>ps. Inr ((if first then [] else ''.'') @ p @ ps)))"

text \<open>The lengths of the indexes are left in the path.\<close>

definition set_index_len :: "json_node \<Rightarrow> json_node" where
  "set_index_len n =
     (if index n = -1 then n
      else n\<lparr>index_len := (if index n = 0 then 1 else index_digits (index n))\<rparr>)"

definition vely_json_fullname :: "int \<Rightarrow> jp \<Rightarrow> (string \<times> jp) res" where
  "vely_json_fullname lc s =
     (if lc = 0 then Inr ([CHR 0x22, CHR 0x22], s)
      else if lc > int (length (jlist s)) then Inl Out_of_bounds
      else res_bind (name_parts (val s) True (take (nat lc) (jlist s))) (\<lambda>n.
             Inr (n, s\<lparr>jlist := map set_index_len (take (nat lc) (jlist s)) @ drop (nat lc) (jlist s)\<rparr>)))"

section \<open>Recording a value\<close>

definition empty_node :: vely_jsonn where
  "empty_node = \<lparr>nname = [], ntype = VV_JSON_TYPE_STRING, nstr = None\<rparr>"

definition vely_add_json :: "jp \<Rightarrow> jp" where
  "vely_add_json s =
     (let inc = (if node_tot s = 0 then VV_JSON_NODES div 2 else incby s) in
      if node_c s \<ge> node_tot s then
        (let inc = (if inc < 4096 then inc * 2 else inc);
             total = node_tot s + inc;
             block = (if total = VV_JSON_NODES then replicate (nat total) empty_node
                      else take (nat total) (nodes s) @ replicate (nat (total - int (length (nodes s)))) empty_node)
         in s\<lparr>incby := inc, node_tot := total,
              nodes := take (nat (node_c s)) block @ replicate (nat (total - node_c s)) empty_node\<rparr>)
      else s\<lparr>incby := inc\<rparr>)"

definition record_node :: "int \<Rightarrow> nat \<Rightarrow> string \<Rightarrow> jp \<Rightarrow> jp res" where
  "record_node tp str n s =
     (if 0 \<le> node_c s \<and> node_c s < int (length (nodes s))
      then Inr (s\<lparr>nodes := (nodes s)[nat (node_c s) := \<lparr>nname = n, ntype = tp, nstr = Some str\<rparr>],
                  node_c := node_c s + 1\<rparr>)
      else Inl Out_of_bounds)"

text \<open>The value at position \<open>str\<close>; \<^term>\<open>False\<close>: the handler has interrupted the parsing.\<close>

definition VV_ADD_JSON :: "jenv \<Rightarrow> int \<Rightarrow> nat \<Rightarrow> jp \<Rightarrow> (bool \<times> jp) res" where
  "VV_ADD_JSON env tp str s =
     res_bind (if usehash env then
                 (let s1 = vely_add_json s in
                  res_bind (vely_json_fullname (list_c s1) s1) (\<lambda>(n, s2). record_node tp str n s2))
               else Inr s) (\<lambda>s.
     case node_handler env of
       None \<Rightarrow> Inr (True, s)
     | Some h \<Rightarrow>
         res_bind (path_at s (list_c s)) (\<lambda>e.
         res_bind (path_put (list_c s) (e\<lparr>name := None\<rparr>) s) (\<lambda>s1.
           let call = (list_c s1, jlist s1, str, tp);
               s2 = s1\<lparr>calls := calls s1 @ [call]\<rparr> in
           if h (val s1) (calls s1) call \<noteq> VV_OKAY
           then Inr (False, json_error VV_ERR_JSON_INTERRUPTED s2) else Inr (True, s2))))"

section \<open>The parser\<close>

text \<open>What one invocation of the parser expects, and what it is inside of.\<close>

record frame =
  expected_comma_or_end_array :: bool
  expected_comma_or_end_object :: bool
  expected_colon :: bool
  expected_name :: bool
  isarr :: bool
  isobj :: bool

definition new_frame :: frame where
  "new_frame = \<lparr>expected_comma_or_end_array = False, expected_comma_or_end_object = False,
     expected_colon = False, expected_name = False, isarr = False, isobj = False\<rparr>"

text \<open>How a character is dealt with: the invocation ends, goes on, or parses a value and, unless that
  fails, goes on.\<close>

datatype json_turn = Stop jp | Continue frame jp | Invoke frame jp

fun first_error :: "(bool \<times> string) list \<Rightarrow> string option" where
  "first_error [] = None"
| "first_error ((b, e) # r) = (if b then Some e else first_error r)"

text \<open>The checks of a character, in their order.\<close>

definition checked :: "(bool \<times> string) list \<Rightarrow> jp \<Rightarrow> json_turn res \<Rightarrow> json_turn res" where
  "checked cs s t = (case first_error cs of Some e \<Rightarrow> Inr (Stop (json_error e s)) | None \<Rightarrow> t)"

abbreviation if_colon :: "frame \<Rightarrow> bool \<times> string" where
  "if_colon f \<equiv> (expected_colon f, VV_ERR_JSON_COLON_EXPECTED)"

abbreviation if_name :: "frame \<Rightarrow> bool \<times> string" where
  "if_name f \<equiv> (expected_name f, VV_ERR_JSON_NAME_EXPECTED)"

abbreviation if_array :: "frame \<Rightarrow> bool \<times> string" where
  "if_array f \<equiv> (expected_comma_or_end_array f, VV_ERR_JSON_COMMA_END_ARRAY_EXPECTED)"

abbreviation if_object :: "frame \<Rightarrow> bool \<times> string" where
  "if_object f \<equiv> (expected_comma_or_end_object f, VV_ERR_JSON_COMMA_END_OBJECT_EXPECTED)"

abbreviation advance :: "nat \<Rightarrow> jp \<Rightarrow> jp" where
  "advance n s \<equiv> s\<lparr>pos := pos s + n\<rparr>"

abbreviation shallower :: "jp \<Rightarrow> jp" where
  "shallower s \<equiv> s\<lparr>list_c := list_c s - 1\<rparr>"

text \<open>One value is found at the position: it is ended there, recorded, and passed.\<close>

definition leaf :: "jenv \<Rightarrow> int \<Rightarrow> nat \<Rightarrow> jp \<Rightarrow> json_turn res" where
  "leaf env tp n s =
     res_bind (memput (val s) (pos s + n) [NUL]) (\<lambda>v.
     res_bind (VV_ADD_JSON env tp (pos s) (s\<lparr>val := v, nulled := cat (val s) (pos s + n)\<rparr>)) (\<lambda>(ok, s1).
       if ok then Inr (Stop (shallower (advance n s1))) else Inr (Stop s1)))"

definition literal :: "jenv \<Rightarrow> frame \<Rightarrow> int \<Rightarrow> string \<Rightarrow> jp \<Rightarrow> json_turn res" where
  "literal env f tp w s =
     checked [if_colon f, if_array f, if_object f, if_name f] s
       (if take (length w) (drop (pos s) (val s)) \<noteq> w then Inr (Stop (json_error VV_ERR_JSON_UNKNOWN s))
        else leaf env tp (length w) s)"

text \<open>A name or a value in quotes.  \<^term>\<open>None\<close>: the routine that reads it does not return.  Its length goes into an
  \<^verbatim>\<open>int\<close>, for which it must not be too long.\<close>

definition string_read :: "jenv \<Rightarrow> frame \<Rightarrow> jp \<Rightarrow> (string \<times> string + string \<times> nat) res \<Rightarrow> json_turn res" where
  "string_read env f s r =
     (case r of
        Inl flt \<Rightarrow> Inl flt
      | Inr (Inl (e, v)) \<Rightarrow> Inr (Stop (s\<lparr>val := v, errm := e\<rparr>))
      | Inr (Inr (v, e)) \<Rightarrow>
          (let lstr = e - pos s in
           if int lstr > INT_MAX then Inl Signed_overflow
           else res_bind (memput v e [NUL]) (\<lambda>v1.
             let str = pos s + 1;
                 s1 = (advance lstr s)\<lparr>val := v1, errm := []\<rparr> in
             if expected_name f then
               res_bind (path_at s1 (list_c s1)) (\<lambda>n.
               res_bind (path_put (list_c s1) (n\<lparr>name := Some str, name_len := lstr - 1\<rparr>) s1) (\<lambda>s2.
                 Inr (Continue (f\<lparr>expected_name := False, expected_colon := True\<rparr>) (advance 1 s2))))
             else
               res_bind (VV_ADD_JSON env VV_JSON_TYPE_STRING str s1) (\<lambda>(ok, s2).
                 if ok then Inr (Stop (shallower (advance 1 s2))) else Inr (Stop s2)))))"

definition json_string :: "jenv \<Rightarrow> frame \<Rightarrow> jp \<Rightarrow> json_turn res option" where
  "json_string env f s =
     (case first_error [if_colon f, if_array f, if_object f] of
        Some e \<Rightarrow> Some (Inr (Stop (json_error e s)))
      | None \<Rightarrow> map_option (string_read env f s) (vely_json_to_utf8 (val s) (pos s) True (dec env)))"

definition json_number_value :: "jenv \<Rightarrow> frame \<Rightarrow> jp \<Rightarrow> json_turn res" where
  "json_number_value env f s =
     checked [if_colon f, if_array f, if_object f, if_name f] s
       (case vely_json_num (drop (pos s) (val s)) of
          Inl e \<Rightarrow> Inr (Stop (json_error e s))
        | Inr (n, real) \<Rightarrow> leaf env (if real then VV_JSON_TYPE_REAL else VV_JSON_TYPE_NUMBER) n s)"

definition begin_object :: "frame \<Rightarrow> jp \<Rightarrow> json_turn res" where
  "begin_object f s =
     checked [if_colon f, if_name f, if_array f, if_object f] s
       (Inr (Continue (f\<lparr>expected_name := True, isobj := True\<rparr>) (advance 1 s)))"

definition end_object :: "frame \<Rightarrow> jp \<Rightarrow> json_turn res" where
  "end_object f s =
     checked [if_colon f, if_array f, if_name f] s (Inr (Stop (shallower (advance 1 s))))"

definition begin_array :: "frame \<Rightarrow> jp \<Rightarrow> json_turn res" where
  "begin_array f s =
     checked [if_colon f, if_array f, if_object f, if_name f] s
       (let s1 = shallower (advance 1 s) in
        res_bind (path_at s1 (list_c s1)) (\<lambda>n.
        res_bind (path_put (list_c s1) (n\<lparr>index := index n + 1\<rparr>) s1) (\<lambda>s2.
          Inr (Invoke (f\<lparr>isarr := True, expected_comma_or_end_array := True\<rparr>) s2))))"

definition end_array :: "frame \<Rightarrow> jp \<Rightarrow> json_turn res" where
  "end_array f s =
     checked [if_colon f, if_object f, if_name f] s
       (let s1 = advance 1 s in
        res_bind (path_at s1 (list_c s1)) (\<lambda>n.
        res_bind (path_put (list_c s1) (n\<lparr>index := -1\<rparr>) s1) (\<lambda>s2. Inr (Stop s2))))"

definition colon :: "frame \<Rightarrow> jp \<Rightarrow> json_turn res" where
  "colon f s =
     checked [if_array f, if_object f, if_name f] s
       (Inr (Invoke (f\<lparr>expected_colon := False, expected_comma_or_end_object := True\<rparr>) (advance 1 s)))"

definition comma :: "frame \<Rightarrow> jp \<Rightarrow> json_turn res" where
  "comma f s =
     checked [if_colon f, if_name f] s
       (let f1 = f\<lparr>expected_comma_or_end_array := False, expected_comma_or_end_object := False\<rparr>;
            s1 = advance 1 s in
        if isobj f then Inr (Continue (f1\<lparr>expected_name := True\<rparr>) s1)
        else if isarr f then
          res_bind (path_at s1 (list_c s1)) (\<lambda>n.
          res_bind (path_put (list_c s1) (n\<lparr>index := index n + 1\<rparr>) s1) (\<lambda>s2.
            Inr (Invoke (f1\<lparr>expected_comma_or_end_array := True\<rparr>) s2)))
        else Inr (Stop (json_error VV_ERR_JSON_UNRECOGNIZED s1)))"

text \<open>The next character is the one that was replaced by a null byte, if there is one.\<close>

definition json_next :: "jp \<Rightarrow> char \<times> jp" where
  "json_next s = (if nulled s \<noteq> NUL then (nulled s, s\<lparr>nulled := NUL\<rparr>) else (cat (val s) (pos s), s))"

definition json_case :: "jenv \<Rightarrow> frame \<Rightarrow> char \<Rightarrow> jp \<Rightarrow> json_turn res option" where
  "json_case env f c s =
     (if c = CHR ''{'' then Some (begin_object f s)
      else if c = CHR ''}'' then Some (end_object f s)
      else if c = CHR ''['' then Some (begin_array f s)
      else if c = CHR '']'' then Some (end_array f s)
      else if c = CHR '':'' then Some (colon f s)
      else if c = CHR '','' then Some (comma f s)
      else if c \<in> {CHR '' '', CHR 0x09, CHR 0x0A, CHR 0x0D} then Some (Inr (Continue f (advance 1 s)))
      else if c = CHR 0x22 then json_string env f s
      else if c = CHR ''-'' \<or> isdigit c then Some (json_number_value env f s)
      else if c = CHR ''t'' then Some (literal env f VV_JSON_TYPE_BOOL ''true'' s)
      else if c = CHR ''f'' then Some (literal env f VV_JSON_TYPE_BOOL ''false'' s)
      else if c = CHR ''n'' then Some (literal env f VV_JSON_TYPE_NULL ''null'' s)
      else Some (Inr (Stop (json_error VV_ERR_JSON_UNRECOGNIZED s))))"

definition json_step :: "jenv \<Rightarrow> frame \<Rightarrow> jp \<Rightarrow> json_turn res option" where
  "json_step env f s = (case json_next s of (c, s1) \<Rightarrow> json_case env f c s1)"

text \<open>Entering an invocation, unless too many are nested, and leaving it.\<close>

definition json_enter :: "jp \<Rightarrow> bool \<times> jp" where
  "json_enter s =
     (let s1 = s\<lparr>depth := depth s + 1\<rparr> in
      if depth s1 \<ge> int VV_JSON_MAX_NESTED then (False, json_error VV_ERR_JSON_DEPTH s1)
      else (let s2 = s1\<lparr>list_c := list_c s1 + 1\<rparr> in
            if list_c s2 \<ge> int VV_JSON_MAX_NESTED - 1 then (False, json_error VV_ERR_JSON_DEPTH s2)
            else (True, s2)))"

definition json_leave :: "jp \<Rightarrow> jp" where
  "json_leave s = s\<lparr>depth := depth s - 1\<rparr>"

fun json_loop :: "nat \<Rightarrow> jenv \<Rightarrow> frame \<Rightarrow> jp \<Rightarrow> jp res option" where
  "json_loop 0 env f s = None"
| "json_loop (Suc n) env f s =
     (if pos s < jlen env then
        (case json_step env f s of
           None \<Rightarrow> None
         | Some (Inl flt) \<Rightarrow> Some (Inl flt)
         | Some (Inr (Stop s1)) \<Rightarrow> Some (Inr (json_leave s1))
         | Some (Inr (Continue f1 s1)) \<Rightarrow> json_loop n env f1 s1
         | Some (Inr (Invoke f1 s1)) \<Rightarrow>
             (case (case json_enter s1 of
                      (False, s2) \<Rightarrow> Some (Inr (json_leave s2))
                    | (True, s2) \<Rightarrow> json_loop n env new_frame s2) of
                None \<Rightarrow> None
              | Some (Inl flt) \<Rightarrow> Some (Inl flt)
              | Some (Inr s3) \<Rightarrow>
                  (if ec s3 \<noteq> -1 then Some (Inr (json_leave s3)) else json_loop n env f1 s3)))
      else Some (Inr (json_leave (shallower s))))"

text \<open>The outermost invocation.\<close>

definition json_root :: "jenv \<Rightarrow> string \<Rightarrow> jp \<Rightarrow> jp" where
  "json_root env v s =
     (let s1 = s\<lparr>val := v, pos := 0, errm := [], ec := -1, depth := 0, list_c := -1,
                 jlist := map (\<lambda>n. n\<lparr>index := -1, name := None\<rparr>) (jlist s), node_c := 0, node_tot := 0, calls := []\<rparr>
      in if usehash env then vely_add_json s1 else s1)"

function skip_white :: "string \<Rightarrow> nat \<Rightarrow> nat" where
  "skip_white v i = (if isspace (cat v i) then skip_white v (i + 1) else i)"
  by pat_completeness auto
termination
proof (relation "measure (\<lambda>(v, i). length v - i)", goal_cases)
  case (2 v i)
  have "isspace (cat v i) \<Longrightarrow> i < length v" by (cases "i < length v") auto
  with 2 show ?case by simp
qed simp

declare skip_white.simps [simp del]

definition json_parse :: "nat \<Rightarrow> jenv \<Rightarrow> string \<Rightarrow> jp \<Rightarrow> jp res option" where
  "json_parse fuel env v s =
     (case (case json_enter (json_root env v s) of
              (False, s1) \<Rightarrow> Some (Inr (json_leave s1))
            | (True, s1) \<Rightarrow> json_loop fuel env new_frame s1) of
        None \<Rightarrow> None
      | Some (Inl flt) \<Rightarrow> Some (Inl flt)
      | Some (Inr s2) \<Rightarrow>
          (let s3 = s2\<lparr>pos := skip_white (val s2) (pos s2)\<rparr> in
           Some (Inr (if ec s3 = -1 \<and> pos s3 < jlen env then json_error VV_ERR_JSON_SYNTAX s3 else s3))))"

section \<open>The document\<close>

record vely_json =
  jnodes :: "vely_jsonn list"
  jnode_c :: int
  jhash :: "vely_hash option"
  maxhash :: int
  jdnext :: int
  jusehash :: bool
  jhandler :: "(string \<Rightarrow> node_call list \<Rightarrow> node_call \<Rightarrow> int) option"

text \<open>A new document; its list of nodes is not set yet.\<close>

definition vely_set_json :: "int \<Rightarrow> bool \<Rightarrow> (string \<Rightarrow> node_call list \<Rightarrow> node_call \<Rightarrow> int) option \<Rightarrow> vely_json" where
  "vely_set_json mh uh nodeh =
     (let mh = (if mh = -1 then 10000 else mh);
          mh = (if mh < 10 then 10 else mh) in
      \<lparr>jnodes = [], jnode_c = 0, jhash = None, maxhash = mh, jdnext = 0, jusehash = uh, jhandler = nodeh\<rparr>)"

text \<open>Every name goes into the table, with the number of its node; the last of equal names stays.\<close>

fun add_json_loop :: "vely_jsonn list \<Rightarrow> nat \<Rightarrow> vely_hash \<Rightarrow> mem \<Rightarrow> (vely_hash \<times> mem) res" where
  "add_json_loop [] i h m = Inr (h, m)"
| "add_json_loop (n # ns) i h m =
     res_bind (vely_add_hash False False h (i, nname n) None i m) (\<lambda>(r, h1, m1). add_json_loop ns (i + 1) h1 m1)"

definition vely_add_json_hash :: "nat \<Rightarrow> vely_json \<Rightarrow> mem \<Rightarrow> (vely_json \<times> mem) res" where
  "vely_add_json_hash supply j m =
     (let h = vely_create_hash supply (if jnode_c j > maxhash j then maxhash j else jnode_c j) None False in
      res_bind (add_json_loop (take (nat (jnode_c j)) (jnodes j)) 0 h m) (\<lambda>(h1, m1). Inr (j\<lparr>jhash := Some h1\<rparr>, m1)))"

text \<open>
  Parsing into a document: \<^term>\<open>None\<close> is a parse that does not return, the result the place of
  the error or \<open>-1\<close>.
\<close>

definition vely_json_new ::
  "nat \<Rightarrow> vely_json \<Rightarrow> string \<Rightarrow> int \<Rightarrow> bool \<Rightarrow> jp \<Rightarrow> mem \<Rightarrow> (int \<times> vely_json \<times> jp \<times> mem) res option" where
  "vely_json_new supply j v ln dc s m =
     (let l = (if ln = -1 then length (cstr v) else nat ln);
          env = \<lparr>usehash = jusehash j, node_handler = jhandler j, dec = dc, jlen = l\<rparr> in
      map_option (\<lambda>r. res_bind r (\<lambda>s1.
          let j1 = j\<lparr>jnodes := nodes s1, jnode_c := node_c s1\<rparr> in
          res_bind (if jusehash j then vely_add_json_hash supply j1 m else Inr (j1, m)) (\<lambda>(j2, m1).
            Inr (ec s1, j2, s1, m1))))
        (json_parse (l + 1) env v s))"

text \<open>Reading by name; there is no table to search before the first parse.\<close>

definition vely_read_json ::
  "vely_json \<Rightarrow> string \<Rightarrow> string list option \<Rightarrow> ((int \<times> vely_jsonn option) \<times> vely_json) res" where
  "vely_read_json j k keylist =
     (if \<not> jusehash j then Inr ((VV_ERR_EXIST, None), j)
      else (case jhash j of
              None \<Rightarrow> Inl Out_of_bounds
            | Some h \<Rightarrow>
                (case vely_find_hash h k keylist False of
                   ((d, st, okey), h1) \<Rightarrow>
                     (let j1 = j\<lparr>jhash := Some h1\<rparr> in
                      if st = VV_ERR_EXIST then Inr ((VV_ERR_EXIST, None), j1)
                      else if d < length (jnodes j) then Inr ((VV_OKAY, Some (jnodes j ! d)), j1)
                      else Inl Out_of_bounds))))"

text \<open>Deleting: the names and the table are freed, and no node is left.\<close>

definition vely_del_json :: "vely_json \<Rightarrow> vely_json" where
  "vely_del_json j = j\<lparr>jhash := (if jusehash j then vely_delete_hash (jhash j) 0 else jhash j), jnode_c := 0\<rparr>"

definition vely_begin_json :: "vely_json \<Rightarrow> vely_json" where
  "vely_begin_json j = j\<lparr>jdnext := 0\<rparr>"

definition vely_next_json :: "vely_json \<Rightarrow> vely_jsonn option \<times> vely_json" where
  "vely_next_json j =
     (if \<not> jusehash j then (None, j)
      else if jdnext j \<ge> jnode_c j then (None, j)
      else (Some (jnodes j ! nat (jdnext j)), j\<lparr>jdnext := jdnext j + 1\<rparr>))"

section \<open>Parsing ends\<close>

lemma skip_quoted: "\<exists>i'. json_skip_loop v b True i = Some i'"
proof (induction "length v + 2 - (b + i)" arbitrary: i rule: less_induct)
  case less
  show ?case
  proof (cases "cat v (b + i) = NUL")
    case True
    then show ?thesis by (simp add: json_skip_loop.simps)
  next
    case False
    then have "b + i < length v" by (auto simp: cat_def split: if_splits)
    then have "\<exists>i'. json_skip_loop v b True (i + 2) = Some i'" "\<exists>i'. json_skip_loop v b True (i + 1) = Some i'"
      using less [of "i + 2"] less [of "i + 1"] by simp_all
    then show ?thesis by (subst json_skip_loop.simps) auto
  qed
qed

lemma skip_forward:
  assumes "json_skip_loop v b quoted i = Some n"
  shows "i \<le> n"
  using assms
  by (rule json_skip_loop.raw_induct [rotated])
    (auto split: if_splits, (meson Suc_leD)+)

lemma decode_forward: "json_decode_loop v b i pull = Inr (Inr (v1, i1, p1)) \<Longrightarrow> i \<le> i1"
proof (induction v b i pull rule: json_decode_loop.induct)
  case (1 v b i pull)
  let ?c = "cat v (b + i)"
  note run = 1(3) [unfolded json_decode_loop.simps [of v b i pull]]
  show ?case
  proof (cases "?c \<noteq> CHR 0x22 \<and> ?c \<noteq> NUL")
    case False
    then show ?thesis using run by auto
  next
    case going: True
    show ?thesis
    proof (cases "?c = CHR 0x5C")
      case True
      then obtain bytes n v2 where e: "json_escape v (b + i) = Inr (Inr (bytes, n))"
          "memput v (b + i - pull) bytes = Inr v2"
          "json_decode_loop v2 b (i + n) (pull + n - length bytes) = Inr (Inr (v1, i1, p1))"
        using run going by (auto split: sum.splits)
      from 1(1) [OF going True e(1) refl refl e(2,3)] show ?thesis by simp
    next
      case False
      then obtain v2 where e: "(if pull \<noteq> 0 then memput v (b + i - pull) [?c] else Inr v) = Inr v2"
          "json_decode_loop v2 b (i + 1) pull = Inr (Inr (v1, i1, p1))"
        using run going by (auto split: sum.splits if_splits)
      from 1(2) [OF going False e] show ?thesis by simp
    qed
  qed
qed

lemma quoted_returns: "\<exists>r. vely_json_to_utf8 v b True enc = Some r"
  using skip_quoted [of v b 1] by (auto simp: vely_json_to_utf8_def)

lemma quoted_forward:
  assumes "vely_json_to_utf8 v b True enc = Some (Inr (Inr (v1, e)))"
  shows "b < e"
proof -
  obtain i where "e = b + i" "1 \<le> i"
    using assms skip_forward [of v b True 1] decode_forward [of v b 1 0]
    by (auto simp: vely_json_to_utf8_def Let_def split: if_splits sum.splits)
  then show ?thesis by simp
qed

lemma res_bind_Inr: "res_bind m f = Inr y \<longleftrightarrow> (\<exists>x. m = Inr x \<and> f x = Inr y)"
  by (cases m) (simp_all add: res_bind_def)

lemma path_put_pos: "path_put i n s = Inr s' \<Longrightarrow> pos s' = pos s"
  by (auto simp: path_put_def split: if_splits)

lemma add_json_pos [simp]: "pos (vely_add_json s) = pos s"
  by (simp add: vely_add_json_def Let_def)

lemma fullname_pos: "vely_json_fullname lc s = Inr (n, s') \<Longrightarrow> pos s' = pos s"
  by (auto simp: vely_json_fullname_def res_bind_Inr split: if_splits)

lemma record_pos: "record_node tp str n s = Inr s' \<Longrightarrow> pos s' = pos s"
  by (auto simp: record_node_def split: if_splits)

lemma json_error_pos [simp]: "pos (json_error e s) = pos s"
  by (simp add: json_error_def)

lemma ADD_JSON_pos: "VV_ADD_JSON env tp str s = Inr (ok, s') \<Longrightarrow> pos s' = pos s"
  by (auto simp: VV_ADD_JSON_def res_bind_Inr Let_def split: if_splits option.splits
      dest!: path_put_pos fullname_pos record_pos)

definition moved :: "nat \<Rightarrow> json_turn \<Rightarrow> bool" where
  "moved p t = (case t of Stop s \<Rightarrow> p \<le> pos s | Continue f s \<Rightarrow> p < pos s | Invoke f s \<Rightarrow> p < pos s)"

lemma checked_moved:
  "checked cs s t = Inr u \<Longrightarrow> (t = Inr u \<Longrightarrow> moved (pos s) u) \<Longrightarrow> moved (pos s) u"
  by (auto simp: checked_def moved_def split: option.splits)

lemma leaf_moved: "leaf env tp n s = Inr t \<Longrightarrow> moved (pos s) t"
  by (auto simp: leaf_def res_bind_Inr moved_def split: if_splits dest!: ADD_JSON_pos)

lemma string_read_moved:
  assumes "string_read env f s r = Inr t" "\<And>v e. r = Inr (Inr (v, e)) \<Longrightarrow> pos s < e"
  shows "moved (pos s) t"
  using assms unfolding string_read_def
  by (auto simp: res_bind_Inr moved_def Let_def split: sum.splits if_splits dest!: ADD_JSON_pos path_put_pos)

lemma option_elim: "(case x of Some e \<Rightarrow> p e | None \<Rightarrow> q) = z \<Longrightarrow> (q = z \<Longrightarrow> P) \<Longrightarrow> (\<And>e. p e = z \<Longrightarrow> P) \<Longrightarrow> P"
  by (cases x) simp_all

lemma string_moved: "json_string env f s = Some (Inr t) \<Longrightarrow> moved (pos s) t"
  unfolding json_string_def
  by (erule option_elim) (auto intro: string_read_moved quoted_forward, simp add: moved_def)

lemma string_returns: "\<exists>r. json_string env f s = Some r"
  using quoted_returns [of "val s" "pos s" "dec env"] by (auto simp: json_string_def split: option.splits)

lemma number_moved: "json_number_value env f s = Inr t \<Longrightarrow> moved (pos s) t"
  unfolding json_number_value_def
  by (erule checked_moved)
    (auto simp: moved_def split: sum.splits dest!: leaf_moved)

lemma literal_moved: "literal env f tp w s = Inr t \<Longrightarrow> moved (pos s) t"
  unfolding literal_def
  by (erule checked_moved) (auto simp: moved_def split: if_splits dest!: leaf_moved)

lemma if_elim: "(if b then x else y) = z \<Longrightarrow> (x = z \<Longrightarrow> P) \<Longrightarrow> (y = z \<Longrightarrow> P) \<Longrightarrow> P"
  by (cases b) simp_all

lemma punctuation_moved:
  "begin_object f s = Inr t \<Longrightarrow> moved (pos s) t" "end_object f s = Inr t \<Longrightarrow> moved (pos s) t"
  "begin_array f s = Inr t \<Longrightarrow> moved (pos s) t" "end_array f s = Inr t \<Longrightarrow> moved (pos s) t"
  "colon f s = Inr t \<Longrightarrow> moved (pos s) t" "comma f s = Inr t \<Longrightarrow> moved (pos s) t"
  unfolding begin_object_def end_object_def begin_array_def end_array_def colon_def comma_def
  by (erule checked_moved;
      auto simp: res_bind_Inr moved_def Let_def split: if_splits dest!: path_put_pos)+

lemma step_moved:
  assumes "json_step env f s = Some (Inr t)"
  shows "moved (pos s) t"
proof -
  obtain c s1 where c: "json_next s = (c, s1)" by fastforce
  then have p: "pos s1 = pos s" by (auto simp: json_next_def split: if_splits)
  have "json_case env f c s1 = Some (Inr t)" using assms c by (simp add: json_step_def)
  then have "moved (pos s1) t"
    unfolding json_case_def
    by (elim if_elim)
      (unfold option.inject, (erule punctuation_moved string_moved number_moved literal_moved | force simp: moved_def)+)
  then show ?thesis by (simp add: p)
qed

text \<open>A step returns because the string it may read is in quotes: the loop that passes it ends at the end of the text, if not
  before.\<close>

lemma step_returns: "\<exists>r. json_step env f s = Some r"
proof -
  obtain c s1 where "json_next s = (c, s1)" by fastforce
  then show ?thesis using string_returns [of env f s1] by (simp add: json_step_def json_case_def)
qed

lemma enter_pos: "json_enter s = (ok, s') \<Longrightarrow> pos s' = pos s"
  by (auto simp: json_enter_def Let_def split: if_splits)

lemma loop_returns:
  "jlen env - pos s < n \<Longrightarrow> \<exists>r. json_loop n env f s = Some r \<and> (\<forall>s'. r = Inr s' \<longrightarrow> pos s \<le> pos s')"
proof (induction n arbitrary: f s)
  case (Suc n)
  show ?case
  proof (cases "pos s < jlen env")
    case False
    then show ?thesis by (simp add: json_leave_def)
  next
    case True
    obtain step where step: "json_step env f s = Some step" using step_returns by blast
    show ?thesis
    proof (cases step)
      case (Inl flt)
      then show ?thesis using True step by simp
    next
      case (Inr t)
      have st: "json_step env f s = Some (Inr t)" using step Inr by simp
      have m: "moved (pos s) t" using st by (rule step_moved)
      show ?thesis
      proof (cases t)
        case (Stop s1)
        then show ?thesis using True st m by (simp add: moved_def json_leave_def)
      next
        case (Continue f1 s1)
        then have "pos s < pos s1" using m by (simp add: moved_def)
        then show ?thesis using Suc.IH [of s1 f1] Suc.prems True st Continue by fastforce
      next
        case (Invoke f1 s1)
        then have lt: "pos s < pos s1" using m by (simp add: moved_def)
        obtain ok s2 where e: "json_enter s1 = (ok, s2)" by (meson surj_pair)
        have p2: "pos s2 = pos s1" using e by (rule enter_pos)
        obtain r where r: "(case json_enter s1 of (False, s2) \<Rightarrow> Some (Inr (json_leave s2))
            | (True, s2) \<Rightarrow> json_loop n env new_frame s2) = Some r" "\<And>s3. r = Inr s3 \<Longrightarrow> pos s1 \<le> pos s3"
        proof (cases ok)
          case True
          have "jlen env - pos s2 < n" using Suc.prems lt p2 \<open>pos s < jlen env\<close> by linarith
          from Suc.IH [OF this, of new_frame] obtain r
            where "json_loop n env new_frame s2 = Some r" "\<forall>s3. r = Inr s3 \<longrightarrow> pos s2 \<le> pos s3" by blast
          then show ?thesis using that [of r] e True p2 by simp
        next
          case False
          then show ?thesis using that [of "Inr (json_leave s2)"] e p2 by (simp add: json_leave_def)
        qed
        show ?thesis
        proof (cases r)
          case (Inl flt)
          then show ?thesis using True st Invoke r(1) by simp
        next
          case (Inr s3)
          have p3: "pos s1 \<le> pos s3" using r(2) Inr by blast
          then have "\<exists>r. json_loop n env f1 s3 = Some r \<and> (\<forall>s'. r = Inr s' \<longrightarrow> pos s3 \<le> pos s')"
            using Suc.prems lt True by (intro Suc.IH) simp
          then show ?thesis
            using True st Invoke r(1) Inr lt p3 by (fastforce simp: json_leave_def)
        qed
      qed
    qed
  qed
qed simp

text \<open>C17: parsing always comes to an end, with a result or with a fault, whatever the text, the length given, the handler and
  what earlier documents have left behind: the fuel, one more than the length, is never used up, and every string that is
  read, decoded or not, is passed in finitely many steps.  A call of \<^verbatim>\<open>vely_json_to_utf8\<close> that did not return would make
  the result \<^term>\<open>None\<close>.\<close>

theorem json_returns: "vely_json_new supply j v ln dc s m \<noteq> None"
proof -
  define l where "l = (if ln = -1 then length (cstr v) else nat ln)"
  define env where "env = \<lparr>usehash = jusehash j, node_handler = jhandler j, dec = dc, jlen = l\<rparr>"
  obtain ok s1 where e: "json_enter (json_root env v s) = (ok, s1)" by (meson surj_pair)
  have "json_parse (l + 1) env v s \<noteq> None"
  proof (cases ok)
    case True
    have "jlen env - pos s1 < l + 1" by (simp add: env_def)
    from loop_returns [OF this, of new_frame] obtain r where "json_loop (l + 1) env new_frame s1 = Some r" by blast
    then show ?thesis using e True by (simp only: json_parse_def prod.case bool.case) (simp add: Let_def split: sum.split)
  next
    case False
    then show ?thesis using e by (simp add: json_parse_def Let_def)
  qed
  then show ?thesis unfolding vely_json_new_def Let_def l_def [symmetric] env_def [symmetric] by simp
qed

end
