(* ===== verification/JsonDoc.thy ===== *)
theory JsonDoc
  imports Json
begin

text \<open>
  What the JSON parser makes of documents: a grammar of documents, which leaves out what the parser does not deal with
  (empty objects and arrays, arrays of arrays, documents that are arrays, names with escapes), the nodes a document stands
  for (its flattened names, types and texts), and the proof that the parser records exactly these; then reading the nodes
  back, and what becomes of the documents left out.
\<close>

section \<open>Documents and their nodes\<close>

datatype json = Text string | Number string bool | Truth bool | Null
  | Object "(string \<times> json) list" | Array "json list"

text \<open>Names without escapes, white space, and a mark after white space.  The text of a string has escapes (\<open>quoted_text\<close>),
  which are decoded if the document is parsed that way (\<open>dc\<close>).\<close>

definition plain :: "string \<Rightarrow> bool" where
  "plain s \<longleftrightarrow> set s \<inter> {CHR 0x22, CHR 0x5C, NUL} = {}"

definition white :: "char \<Rightarrow> bool" where
  "white c \<longleftrightarrow> c \<in> {CHR '' '', CHR 0x09, CHR 0x0A, CHR 0x0D}"

definition spaced :: "char \<Rightarrow> string \<Rightarrow> bool" where
  "spaced c t \<longleftrightarrow> (\<exists>w. t = w @ [c] \<and> list_all white w)"

inductive spelled :: "bool \<Rightarrow> json \<Rightarrow> string \<Rightarrow> bool"
  and members :: "bool \<Rightarrow> (string \<times> json) list \<Rightarrow> string \<Rightarrow> bool"
  and elements :: "bool \<Rightarrow> json list \<Rightarrow> string \<Rightarrow> bool"
  for dc
where
  sp_white: "white c \<Longrightarrow> spelled dc j t \<Longrightarrow> spelled dc j (c # t)"
| sp_text: "quoted_text t s \<Longrightarrow> spelled dc (Text (if dc then s else t)) (CHR 0x22 # t @ [CHR 0x22])"
| sp_number: "json_number s r \<Longrightarrow> spelled dc (Number s r) s"
| sp_truth: "spelled dc (Truth b) (if b then ''true'' else ''false'')"
| sp_null: "spelled dc Null ''null''"
| sp_object: "members dc ms t \<Longrightarrow> spelled dc (Object ms) (CHR ''{'' # t)"
| sp_array: "elements dc vs t \<Longrightarrow> spelled dc (Array vs) (CHR ''['' # t)"
| last_member: "spaced CHR 0x22 q \<Longrightarrow> plain n \<Longrightarrow> spaced CHR '':'' c \<Longrightarrow> spelled dc v t \<Longrightarrow> spaced CHR ''}'' e \<Longrightarrow>
    members dc [(n, v)] (q @ n @ CHR 0x22 # c @ t @ e)"
| more_members: "spaced CHR 0x22 q \<Longrightarrow> plain n \<Longrightarrow> spaced CHR '':'' c \<Longrightarrow> spelled dc v t \<Longrightarrow> spaced CHR '','' k \<Longrightarrow>
    members dc ms u \<Longrightarrow> members dc ((n, v) # ms) (q @ n @ CHR 0x22 # c @ t @ k @ u)"
| last_element: "spelled dc v t \<Longrightarrow> spaced CHR '']'' e \<Longrightarrow> elements dc [v] (t @ e)"
| more_elements: "spelled dc v t \<Longrightarrow> spaced CHR '','' k \<Longrightarrow> elements dc vs u \<Longrightarrow> elements dc (v # vs) (t @ k @ u)"

text \<open>The nodes: a path is the names that lead to a value, each with its index if that is an array.\<close>

fun decimal :: "nat \<Rightarrow> string" where
  "decimal n = (if n < 10 then [char_store (48 + int n)]
                else decimal (n div 10) @ [char_store (48 + int (n mod 10))])"

declare decimal.simps [simp del]

definition part :: "string \<times> int \<Rightarrow> string" where
  "part = (\<lambda>(n, i). CHR 0x22 # n @ CHR 0x22 # (if i = -1 then [] else ''['' @ decimal (nat i) @ '']''))"

fun joined :: "string list \<Rightarrow> string" where
  "joined [] = []"
| "joined [x] = x"
| "joined (x # xs) = x @ ''.'' @ joined xs"

definition full_name :: "(string \<times> int) list \<Rightarrow> string" where
  "full_name p = (if p = [] then [CHR 0x22, CHR 0x22] else joined (map part p))"

fun flat :: "(string \<times> int) list \<Rightarrow> json \<Rightarrow> (string \<times> int \<times> string) list"
  and flat_members :: "(string \<times> int) list \<Rightarrow> (string \<times> json) list \<Rightarrow> (string \<times> int \<times> string) list"
  and flat_elements :: "(string \<times> int) list \<Rightarrow> string \<Rightarrow> int \<Rightarrow> json list \<Rightarrow> (string \<times> int \<times> string) list"
where
  "flat p (Text s) = [(full_name p, VV_JSON_TYPE_STRING, s)]"
| "flat p (Number s r) = [(full_name p, if r then VV_JSON_TYPE_REAL else VV_JSON_TYPE_NUMBER, s)]"
| "flat p (Truth b) = [(full_name p, VV_JSON_TYPE_BOOL, if b then ''true'' else ''false'')]"
| "flat p Null = [(full_name p, VV_JSON_TYPE_NULL, ''null'')]"
| "flat p (Object ms) = flat_members p ms"
| "flat p (Array vs) = flat_elements (butlast p) (fst (last p)) 0 vs"
| "flat_members p [] = []"
| "flat_members p ((n, v) # ms) = flat (p @ [(n, -1)]) v @ flat_members p ms"
| "flat_elements p n i [] = []"
| "flat_elements p n i (v # vs) = flat (p @ [(n, i)]) v @ flat_elements p n (i + 1) vs"

text \<open>How deep the parser goes, and where it can deal with an array: as the value of a name.\<close>

fun height :: "json \<Rightarrow> nat" where
  "height (Object ms) = Suc (Max (insert 0 (set (map (\<lambda>(n, v). height v) ms))))"
| "height (Array vs) = Suc (Max (insert 0 (set (map height vs))))"
| "height j = 1"

fun arrays_ok :: "bool \<Rightarrow> json \<Rightarrow> bool" where
  "arrays_ok b (Object ms) = list_all (\<lambda>(n, v). arrays_ok True v) ms"
| "arrays_ok b (Array vs) = (b \<and> list_all (arrays_ok False) vs)"
| "arrays_ok b j = True"

section \<open>Runs\<close>

lemma loop_mono: "json_loop n env f s = Some r \<Longrightarrow> n \<le> k \<Longrightarrow> json_loop k env f s = Some r"
proof (induction n arbitrary: k f s r)
  case (Suc n)
  then obtain k' where k: "k = Suc k'" "n \<le> k'" by (cases k) auto
  show ?case
  proof (cases "pos s < jlen env")
    case False
    then show ?thesis using Suc.prems k by simp
  next
    case True
    obtain step where step: "json_step env f s = Some step" using step_returns by blast
    show ?thesis
    proof (cases step)
      case (Inl flt)
      then show ?thesis using Suc.prems k True step by simp
    next
      case (Inr t)
      then have st: "json_step env f s = Some (Inr t)" using step by simp
      show ?thesis
      proof (cases t)
        case (Stop s1)
        then show ?thesis using Suc.prems k True st by simp
      next
        case (Continue f1 s1)
        then show ?thesis using Suc.prems Suc.IH [of f1 s1 r k'] k True st by simp
      next
        case (Invoke f1 s1)
        obtain ok s2 where e: "json_enter s1 = (ok, s2)" by (meson surj_pair)
        let ?call = "\<lambda>n. case json_enter s1 of (False, s2) \<Rightarrow> Some (Inr (json_leave s2))
            | (True, s2) \<Rightarrow> json_loop n env new_frame s2"
        obtain r1 where r1: "?call n = Some r1"
          using Suc.prems(1) True st Invoke by (cases "?call n") simp_all
        have "?call k' = Some r1"
          using r1 e Suc.IH [of new_frame s2 r1 k'] k(2) by (cases ok) simp_all
        then show ?thesis
          using Suc.prems(1) True st Invoke r1 k Suc.IH [of f1 _ r k'] by (cases r1) (auto split: if_splits)
      qed
    qed
  qed
qed simp

definition runs :: "jenv \<Rightarrow> frame \<Rightarrow> jp \<Rightarrow> jp \<Rightarrow> bool" where
  "runs env f s s' \<longleftrightarrow> (\<exists>n. json_loop n env f s = Some (Inr s'))"

lemma runs_stop:
  assumes "pos s < jlen env" "json_step env f s = Some (Inr (Stop s1))"
  shows "runs env f s (json_leave s1)"
  unfolding runs_def by (rule exI [of _ 1]) (simp add: assms)

lemma runs_continue:
  assumes "pos s < jlen env" "json_step env f s = Some (Inr (Continue f1 s1))" "runs env f1 s1 s'"
  shows "runs env f s s'"
proof -
  obtain n where "json_loop n env f1 s1 = Some (Inr s')" using assms(3) by (auto simp: runs_def)
  then show ?thesis unfolding runs_def by (intro exI [of _ "Suc n"]) (simp add: assms)
qed

lemma runs_invoke:
  assumes "pos s < jlen env" "json_step env f s = Some (Inr (Invoke f1 s1))" "json_enter s1 = (True, s2)"
    "runs env new_frame s2 s3" "ec s3 = -1" "runs env f1 s3 s'"
  shows "runs env f s s'"
proof -
  obtain n m where "json_loop n env new_frame s2 = Some (Inr s3)" "json_loop m env f1 s3 = Some (Inr s')"
    using assms(4,6) by (auto simp: runs_def)
  then have "json_loop (max n m) env new_frame s2 = Some (Inr s3)" "json_loop (max n m) env f1 s3 = Some (Inr s')"
    using loop_mono by (meson max.cobounded1 max.cobounded2)+
  then show ?thesis unfolding runs_def by (intro exI [of _ "Suc (max n m)"]) (simp add: assms)
qed


section \<open>States of a parse\<close>

text \<open>The rest of the text, in which the character that a null byte replaced is put back; the bytes
  that do not change any more; the nodes recorded.\<close>

definition view :: "jp \<Rightarrow> string \<Rightarrow> bool" where
  "view s R \<longleftrightarrow> pos s \<le> length (val s)
     \<and> (if nulled s = NUL then drop (pos s) (val s) = R
        else R \<noteq> [] \<and> hd R = nulled s \<and> drop (pos s) (val s) = NUL # tl R)"

definition settled :: "jp \<Rightarrow> nat" where
  "settled s = pos s + (if pos s < length (val s) \<and> val s ! pos s = NUL then 1 else 0)"

definition keeps :: "jp \<Rightarrow> jp \<Rightarrow> bool" where
  "keeps s s' \<longleftrightarrow> length (val s') = length (val s) \<and> settled s \<le> settled s'
     \<and> take (settled s) (val s') = take (settled s) (val s)"

abbreviation taken :: "jp \<Rightarrow> vely_jsonn list" where
  "taken s \<equiv> take (nat (node_c s)) (nodes s)"

definition node_ok :: "jp \<Rightarrow> vely_jsonn \<Rightarrow> bool" where
  "node_ok s n \<longleftrightarrow> (\<exists>a q. nstr n = Some a \<and> a \<le> q \<and> q < settled s \<and> q < length (val s) \<and> val s ! q = NUL)"

definition render :: "jp \<Rightarrow> vely_jsonn \<Rightarrow> string \<times> int \<times> string" where
  "render s n = (nname n, ntype n, cstr (drop (the (nstr n)) (val s)))"

definition rendered :: "jp \<Rightarrow> (string \<times> int \<times> string) list" where
  "rendered s = map (render s) (taken s)"

definition room :: "jp \<Rightarrow> bool" where
  "room s \<longleftrightarrow> length (jlist s) = 32 \<and> 0 \<le> node_c s \<and> node_c s \<le> node_tot s \<and> node_tot s = int (length (nodes s))
     \<and> 32 \<le> node_tot s \<and> 0 < incby s"

definition good :: "jp \<Rightarrow> bool" where
  "good s \<longleftrightarrow> room s \<and> ec s = -1 \<and> (\<forall>n\<in>set (taken s). node_ok s n)"

text \<open>The path of names that leads to the position.\<close>

definition step_of :: "jp \<Rightarrow> nat \<Rightarrow> string \<times> int \<Rightarrow> bool" where
  "step_of s i x \<longleftrightarrow> (\<exists>a. name (jlist s ! i) = Some a \<and> a + name_len (jlist s ! i) \<le> settled s
      \<and> a + name_len (jlist s ! i) \<le> length (val s)
      \<and> take (name_len (jlist s ! i)) (drop a (val s)) = fst x \<and> index (jlist s ! i) = snd x)"

definition path_ok :: "jp \<Rightarrow> (string \<times> int) list \<Rightarrow> bool" where
  "path_ok s p \<longleftrightarrow> length p < 32 \<and> length (jlist s) = 32 \<and> (\<forall>i<length p. step_of s i (p ! i) \<and> -1 \<le> snd (p ! i))
     \<and> (\<forall>i<32. length p \<le> i \<longrightarrow> index (jlist s ! i) = -1)"

lemma take_nth: "take n v' = take n v \<Longrightarrow> i < n \<Longrightarrow> length v' = length v \<Longrightarrow> v' ! i = v ! i"
  by (metis nth_take)

lemma cstr_upto:
  assumes "a \<le> q" "q < n" "q < length v" "v ! q = NUL" "take n v' = take n v" "length v' = length v"
  shows "cstr (drop a v') = cstr (drop a v)"
proof -
  have split: "cstr (drop a w) = cstr (drop a (take n w))" if "w ! q = NUL" "length w = length v" for w
  proof -
    have "drop a w = drop a (take n w @ drop n w)" by (simp only: append_take_drop_id)
    also have "\<dots> = drop a (take n w) @ drop n w"
      using assms(1-3) that(2) by (simp del: append_take_drop_id)
    finally have "drop a w = drop a (take n w) @ drop n w" .
    moreover have "NUL \<in> set (drop a (take n w))"
      using that assms(1-3) by (auto simp: in_set_conv_nth intro!: exI [of _ "q - a"])
    ultimately show ?thesis by (simp add: cstr_def takeWhile_append1)
  qed
  have "v' ! q = NUL" using assms take_nth [of n v' v q] by simp
  then show ?thesis using split [of v] split [of v'] assms(4-6) by simp
qed

lemma keeps_refl [simp]: "keeps s s"
  by (simp add: keeps_def)

lemma keeps_trans: "keeps s t \<Longrightarrow> keeps t u \<Longrightarrow> keeps s u"
  unfolding keeps_def by (metis le_trans take_take min.absorb1)

lemma node_ok_keeps: "node_ok s n \<Longrightarrow> keeps s s' \<Longrightarrow> node_ok s' n"
  unfolding node_ok_def keeps_def
  by (metis order_less_le_trans take_nth)

lemma render_keeps:
  assumes "node_ok s n" "keeps s s'"
  shows "render s' n = render s n"
proof -
  obtain a q where "nstr n = Some a" "a \<le> q" "q < settled s" "q < length (val s)" "val s ! q = NUL"
    using assms(1) unfolding node_ok_def by blast
  then show ?thesis
    using cstr_upto [of a q "settled s" "val s" "val s'"] assms(2) by (simp add: keeps_def render_def)
qed

lemma step_of_keeps:
  assumes "step_of s i x" "keeps s s'" "name (jlist s' ! i) = name (jlist s ! i)"
    "name_len (jlist s' ! i) = name_len (jlist s ! i)" "index (jlist s' ! i) = index (jlist s ! i)"
  shows "step_of s' i x"
proof -
  obtain a where a: "name (jlist s ! i) = Some a" "a + name_len (jlist s ! i) \<le> settled s"
      "a + name_len (jlist s ! i) \<le> length (val s)"
      "take (name_len (jlist s ! i)) (drop a (val s)) = fst x" "index (jlist s ! i) = snd x"
    using assms(1) by (auto simp: step_of_def)
  have "take (name_len (jlist s ! i)) (drop a w) = drop a (take (a + name_len (jlist s ! i)) (take (settled s) w))" for w :: string
    using a(2) by (simp add: take_drop add.commute min_absorb1)
  then have "take (name_len (jlist s ! i)) (drop a (val s')) = take (name_len (jlist s ! i)) (drop a (val s))"
    using assms(2) unfolding keeps_def by metis
  then show ?thesis using a assms(2-) by (auto simp: step_of_def keeps_def)
qed

lemma drop_eq_Cons:
  assumes "drop k v = c # R"
  shows "k < length v" "v ! k = c" "drop (Suc k) v = R" "cat v k = c"
proof -
  show k: "k < length v" using assms by (metis drop_all linorder_not_le list.distinct(1))
  show "v ! k = c" "drop (Suc k) v = R" "cat v k = c" using Cons_nth_drop_Suc [OF k] assms k by simp_all
qed

text \<open>The levels do not matter for these.\<close>

lemma render_level: "render (s\<lparr>list_c := a\<rparr>) = render s" "render (json_leave s) = render s"
  by (simp_all add: render_def fun_eq_iff json_leave_def)

lemma node_ok_level: "node_ok (s\<lparr>list_c := a\<rparr>) = node_ok s" "node_ok (json_leave s) = node_ok s"
  by (simp_all add: node_ok_def fun_eq_iff settled_def json_leave_def)

lemma level_irrelevant [simp]:
  "good (s\<lparr>list_c := a\<rparr>) = good s" "good (json_leave s) = good s"
  "view (s\<lparr>list_c := a\<rparr>) R = view s R" "view (json_leave s) R = view s R"
  "keeps s0 (s\<lparr>list_c := a\<rparr>) = keeps s0 s" "keeps s0 (json_leave s) = keeps s0 s"
  "rendered (s\<lparr>list_c := a\<rparr>) = rendered s" "rendered (json_leave s) = rendered s"
  "path_ok (s\<lparr>list_c := a\<rparr>) p = path_ok s p" "path_ok (json_leave s) p = path_ok s p"
  by (simp_all add: good_def node_ok_level room_def rendered_def render_level)
    (simp_all add: json_leave_def view_def keeps_def settled_def path_ok_def step_of_def)

text \<open>Taking the next character.\<close>

abbreviation eat :: "jp \<Rightarrow> jp" where
  "eat s \<equiv> s\<lparr>nulled := NUL, pos := Suc (pos s)\<rparr>"

lemma view_next: "view s (c # R) \<Longrightarrow> json_next s = (c, s\<lparr>nulled := NUL\<rparr>)"
  by (cases "nulled s = NUL") (auto simp: view_def json_next_def dest: drop_eq_Cons)

lemma view_eat: "view s (c # R) \<Longrightarrow> view (eat s) R"
  by (cases "nulled s = NUL") (auto simp: view_def dest: drop_eq_Cons)

lemma keeps_eat: "keeps s (eat s)"
  by (simp add: keeps_def settled_def)

lemma view_less: "view s (c # d # R) \<Longrightarrow> length (val s) = Suc n \<Longrightarrow> pos s < n"
  by (auto simp: view_def split: if_splits dest!: arg_cong [where f = length])


section \<open>Recording a leaf\<close>

lemma index_digits_decimal: "0 < a \<Longrightarrow> index_digits a = int (length (decimal (nat a)))"
proof (induction a rule: index_digits.induct)
  case (1 a)
  show ?case
  proof (cases "a < 10")
    case True
    have "a div 10 = 0" using True 1(2) by simp
    then have "index_digits (a div 10) = 0" using index_digits.simps [of "a div 10"] by simp
    then show ?thesis using 1(2) True by (simp add: index_digits.simps [of a] decimal.simps)
  next
    case False
    then have "index_digits (a div 10) = int (length (decimal (nat (a div 10))))" using 1 by simp
    moreover have "\<not> nat a < 10" using False by simp
    ultimately show ?thesis using 1(2) False by (simp add: index_digits.simps [of a] decimal.simps [of "nat a"] nat_div_distrib)
  qed
qed

lemma put_digits_decimal:
  "0 < a \<Longrightarrow> buf = x @ y @ z \<Longrightarrow> length y = length (decimal (nat a)) \<Longrightarrow> lst = int (length buf) - 1 \<Longrightarrow> k = int (length z) \<Longrightarrow>
   put_digits buf lst k a = (x @ decimal (nat a) @ z, k + int (length y))"
proof (induction buf lst k a arbitrary: y z rule: put_digits.induct)
  case (1 buf lst k a)
  let ?c = "char_store (48 + a mod 10)"
  have n: "nat (a mod 10) = nat a mod 10" "nat (a div 10) = nat a div 10" using 1(2) by (simp_all add: nat_mod_distrib nat_div_distrib)
  have ne: "y \<noteq> []" using 1(4) by (subst (asm) decimal.simps) (auto split: if_splits)
  then obtain y0 yl where y: "y = y0 @ [yl]" by (metis append_butlast_last_id)
  have at: "nat (lst - k) = length (x @ y0)" using 1(3,5,6) y by simp
  have upd: "buf[nat (lst - k) := ?c] = x @ y0 @ ?c # z"
    unfolding at using 1(3) y by (simp add: list_update_append)
  show ?case
  proof (cases "a < 10")
    case True
    have "a div 10 = 0" using True 1(2) by simp
    then have "put_digits (buf[nat (lst - k) := ?c]) lst (k + 1) (a div 10) = (buf[nat (lst - k) := ?c], k + 1)"
      by (subst put_digits.simps) simp
    moreover have "decimal (nat a) = [?c]" using True 1(2) by (simp add: decimal.simps)
    moreover have "y0 = []" "length y = 1" using 1(4) y \<open>decimal (nat a) = [?c]\<close> by simp_all
    ultimately show ?thesis using 1(2) upd by (subst put_digits.simps) simp
  next
    case False
    have d: "decimal (nat a) = decimal (nat (a div 10)) @ [?c]"
    proof -
      have "\<not> nat a < 10" using False by simp
      then show ?thesis using n 1(2) by (simp add: decimal.simps [of "nat a"] flip: n(1))
    qed
    have "put_digits (buf[nat (lst - k) := ?c]) lst (k + 1) (a div 10)
        = (x @ decimal (nat (a div 10)) @ ?c # z, k + 1 + int (length y0))"
      by (rule 1(1)) (use False 1(2,3,4,5,6) d y upd in simp_all)
    then show ?thesis using 1(2) d y by (subst put_digits.simps) simp
  qed
qed

lemma index_text_decimal:
  assumes "-1 \<le> index n"
  shows "index_text n = (if index n = -1 then [] else ''['' @ decimal (nat (index n)) @ '']'')"
proof -
  consider "index n = -1" | "index n = 0" | "0 < index n" using assms by linarith
  then show ?thesis
  proof cases
    case 2
    have "decimal 0 = ''0''" by code_simp
    then show ?thesis using 2 by (simp add: index_text_def)
  next
    case 3
    let ?d = "decimal (nat (index n))"
    have "put_digits (replicate (length ?d) NUL) (int (length ?d) - 1) 0 (index n) = ([] @ ?d @ [], 0 + int (length (replicate (length ?d) NUL)))"
      by (rule put_digits_decimal [OF 3]) simp_all
    then show ?thesis using 3 by (simp add: index_text_def index_digits_decimal Let_def)
  qed (simp add: index_text_def)
qed

lemma name_part_part:
  assumes "step_of s i x" "-1 \<le> snd x"
  shows "name_part (val s) (jlist s ! i) = Inr (part x)"
  using assms index_text_decimal [of "jlist s ! i"]
  by (auto simp: step_of_def name_part_def name_bytes_def res_bind_def part_def split: prod.splits)

lemma joined_Cons: "joined (x # xs) = x @ concat (map (\<lambda>y. CHR ''.'' # y) xs)"
  by (induction xs arbitrary: x) simp_all

lemma name_parts_joined:
  assumes "list_all2 (\<lambda>n x. name_part v n = Inr x) ns xs"
  shows "name_parts v True ns = Inr (joined xs)"
proof -
  have "name_parts v False ns = Inr (concat (map (\<lambda>y. CHR ''.'' # y) xs))"
    if "list_all2 (\<lambda>n x. name_part v n = Inr x) ns xs" for ns xs
    using that by (induction rule: list_all2_induct) (simp_all add: res_bind_def)
  note rest = this
  show ?thesis using assms
  proof (cases rule: list.rel_cases [consumes 1, case_names Nil Cons])
    case (Cons n ns' x xs')
    then show ?thesis using rest by (simp add: res_bind_def joined_Cons)
  qed simp
qed

definition same_path :: "jp \<Rightarrow> jp \<Rightarrow> bool" where
  "same_path s s' \<longleftrightarrow> length (jlist s') = length (jlist s) \<and> (\<forall>i<length (jlist s).
     name (jlist s' ! i) = name (jlist s ! i) \<and> name_len (jlist s' ! i) = name_len (jlist s ! i)
     \<and> index (jlist s' ! i) = index (jlist s ! i))"

lemma path_ok_keeps: "path_ok s p \<Longrightarrow> same_path s s' \<Longrightarrow> keeps s s' \<Longrightarrow> path_ok s' p"
  unfolding path_ok_def same_path_def
  by (auto intro!: step_of_keeps [of s _ _ s'])

lemma fullname_path:
  assumes "path_ok s p" "lc = int (length p)"
  shows "\<exists>l. vely_json_fullname lc s = Inr (full_name p, s\<lparr>jlist := l\<rparr>) \<and> same_path s (s\<lparr>jlist := l\<rparr>)"
proof (cases "p = []")
  case True
  then show ?thesis using assms(2)
    by (intro exI [of _ "jlist s"]) (simp add: vely_json_fullname_def full_name_def same_path_def)
next
  case False
  have l: "length (jlist s) = 32" "length p < 32" using assms(1) by (simp_all add: path_ok_def)
  have "list_all2 (\<lambda>n x. name_part (val s) n = Inr x) (take (length p) (jlist s)) (map part p)"
    using assms(1) l by (auto simp: list_all2_conv_all_nth path_ok_def name_part_part)
  then have n: "name_parts (val s) True (take (length p) (jlist s)) = Inr (joined (map part p))"
    by (rule name_parts_joined)
  let ?l = "map set_index_len (take (length p) (jlist s)) @ drop (length p) (jlist s)"
  have "same_path s (s\<lparr>jlist := ?l\<rparr>)"
    using l by (auto simp: same_path_def set_index_len_def nth_append)
  then show ?thesis using n assms(2) False l
    by (intro exI [of _ ?l]) (simp add: vely_json_fullname_def res_bind_def full_name_def)
qed

lemma add_json_room:
  assumes "room s"
  obtains ns inc tt where "vely_add_json s = s\<lparr>incby := inc, node_tot := tt, nodes := ns\<rparr>" "0 < inc" "32 \<le> tt"
    "tt = int (length ns)" "node_c s < tt" "take (nat (node_c s)) ns = taken s"
proof -
  have g: "0 \<le> node_c s" "node_c s \<le> node_tot s" "node_tot s = int (length (nodes s))" "32 \<le> node_tot s" "0 < incby s"
    using assms by (simp_all add: room_def)
  show ?thesis
  proof (cases "node_c s \<ge> node_tot s")
    case False
    have "node_tot s \<noteq> 0" using g by linarith
    then have "vely_add_json s = s\<lparr>incby := incby s, node_tot := node_tot s, nodes := nodes s\<rparr>"
      using False by (simp add: vely_add_json_def Let_def)
    from that [OF this] g False show ?thesis by simp
  next
    case True
    define inc where "inc = (if incby s < 4096 then incby s * 2 else incby s)"
    have i: "0 < inc" using g by (simp add: inc_def)
    have c: "node_c s = int (length (nodes s))" using True g by simp
    have nt: "node_tot s + inc \<noteq> VV_JSON_NODES" using g i by (simp add: VV_JSON_NODES_def)
    have n: "nat (int (length (nodes s)) + inc) = length (nodes s) + nat inc" using i by simp
    have nz: "node_tot s \<noteq> 0" using g by linarith
    have "vely_add_json s = s\<lparr>incby := inc, node_tot := node_tot s + inc,
        nodes := take (nat (node_c s)) (take (nat (node_tot s + inc)) (nodes s)
            @ replicate (nat (node_tot s + inc - int (length (nodes s)))) empty_node)
          @ replicate (nat (node_tot s + inc - node_c s)) empty_node\<rparr>"
      unfolding vely_add_json_def Let_def if_not_P [OF nz] if_P [OF True] inc_def [symmetric] if_not_P [OF nt] ..
    then have "vely_add_json s = s\<lparr>incby := inc, node_tot := node_tot s + inc, nodes := nodes s @ replicate (nat inc) empty_node\<rparr>"
      using c g n by simp
    from that [OF this i] show ?thesis using g i c by simp
  qed
qed

lemma ADD_JSON_leaf:
  assumes "room s" "path_ok s p" "list_c s = int (length p)" "usehash env" "node_handler env = None"
  obtains ns inc tt l where
    "VV_ADD_JSON env tp str s = Inr (True, s\<lparr>incby := inc, node_tot := tt, nodes := ns, node_c := node_c s + 1, jlist := l\<rparr>)"
    "0 < inc" "32 \<le> tt" "tt = int (length ns)" "node_c s + 1 \<le> tt" "same_path s (s\<lparr>jlist := l\<rparr>)"
    "take (nat (node_c s + 1)) ns = taken s @ [\<lparr>nname = full_name p, ntype = tp, nstr = Some str\<rparr>]"
proof -
  from add_json_room [OF assms(1)] obtain ns inc tt where
    a: "vely_add_json s = s\<lparr>incby := inc, node_tot := tt, nodes := ns\<rparr>" "0 < inc" "32 \<le> tt"
    "tt = int (length ns)" "node_c s < tt" "take (nat (node_c s)) ns = taken s" by blast
  let ?s1 = "s\<lparr>incby := inc, node_tot := tt, nodes := ns\<rparr>"
  let ?n = "\<lparr>nname = full_name p, ntype = tp, nstr = Some str\<rparr>"
  have "path_ok ?s1 p" using assms(2) by (simp add: path_ok_def step_of_def settled_def)
  from fullname_path [OF this assms(3)] obtain l where
    l: "vely_json_fullname (list_c s) ?s1 = Inr (full_name p, ?s1\<lparr>jlist := l\<rparr>)" "same_path ?s1 (?s1\<lparr>jlist := l\<rparr>)" by blast
  have c: "0 \<le> node_c s" using assms(1) by (simp add: room_def)
  have "take (nat (node_c s + 1)) (ns[nat (node_c s) := ?n]) = taken s @ [?n]"
    using a(4,5,6) c by (simp add: nat_add_distrib take_Suc_conv_app_nth)
  moreover have "VV_ADD_JSON env tp str s = Inr (True, s\<lparr>incby := inc, node_tot := tt, nodes := ns[nat (node_c s) := ?n], node_c := node_c s + 1, jlist := l\<rparr>)"
    using assms(4,5) a l(1) c by (simp add: VV_ADD_JSON_def res_bind_def Let_def record_node_def)
  ultimately show ?thesis
    by (intro that) (use a l(2) in \<open>simp_all only: same_path_def zless_imp_add1_zle\<close>, simp_all)
qed


text \<open>A value has been dealt with: the nodes are added, the path is as before, one level less.\<close>

definition done_value :: "(string \<times> int) list \<Rightarrow> string \<Rightarrow> (string \<times> int \<times> string) list \<Rightarrow> jp \<Rightarrow> jp \<Rightarrow> bool" where
  "done_value p R ns s s' \<longleftrightarrow> good s' \<and> view s' R \<and> keeps s s' \<and> rendered s' = rendered s @ ns
     \<and> list_c s' = list_c s - 1 \<and> depth s' = depth s - 1 \<and> path_ok s' p"

text \<open>The state in which a value may begin.\<close>

definition ready :: "jenv \<Rightarrow> (string \<times> int) list \<Rightarrow> string \<Rightarrow> jp \<Rightarrow> bool" where
  "ready env p R s \<longleftrightarrow> good s \<and> view s R \<and> path_ok s p \<and> list_c s = int (length p)
     \<and> usehash env \<and> node_handler env = None \<and> length (val s) = Suc (jlen env)"

lemma view_split:
  assumes "view s (c # R)" "nulled s = NUL"
  obtains a where "val s = a @ c # R" "length a = pos s"
  using assms that [of "take (pos s) (val s)"] append_take_drop_id [of "pos s" "val s"]
  by (auto simp: view_def)

lemma settled_start: "view s (c # R) \<Longrightarrow> nulled s = NUL \<Longrightarrow> c \<noteq> NUL \<Longrightarrow> settled s = pos s"
  by (auto simp: settled_def view_def dest: drop_eq_Cons)

text \<open>The value at position \<open>a\<close>, ended at \<open>q\<close>, is recorded.\<close>

lemma add_done:
  assumes s: "good s" "path_ok s p" "list_c s = int (length p)" "usehash env" "node_handler env = None"
    and m: "length v = length (val s)" "take (settled s) v = take (settled s) (val s)"
      "settled s \<le> q" "a \<le> q" "q < length v" "v ! q = NUL" "q < settled (s\<lparr>val := v, pos := e, nulled := c\<rparr>)"
      "view (s\<lparr>val := v, pos := e, nulled := c\<rparr>) R" "settled s \<le> settled (s\<lparr>val := v, pos := x\<rparr>)"
  shows "\<exists>s1. VV_ADD_JSON env tp a (s\<lparr>val := v, pos := x, nulled := c, errm := er\<rparr>) = Inr (True, s1)
    \<and> pos s1 = x \<and> done_value p R [(full_name p, tp, cstr (drop a v))] s (json_leave (shallower (s1\<lparr>pos := e\<rparr>)))"
proof -
  let ?u = "s\<lparr>val := v, pos := x, nulled := c, errm := er\<rparr>"
  have ku: "keeps s ?u" using m(1,2,9) by (simp add: keeps_def settled_def)
  have "room ?u" using s(1) by (simp add: good_def room_def)
  moreover have "path_ok ?u p" by (rule path_ok_keeps [OF s(2) _ ku]) (simp add: same_path_def)
  moreover have "list_c ?u = int (length p)" using s(3) by simp
  ultimately obtain ns inc tt l where
    add: "VV_ADD_JSON env tp a ?u = Inr (True, ?u\<lparr>incby := inc, node_tot := tt, nodes := ns, node_c := node_c ?u + 1, jlist := l\<rparr>)"
    "0 < inc" "32 \<le> tt" "tt = int (length ns)" "node_c ?u + 1 \<le> tt" "same_path ?u (?u\<lparr>jlist := l\<rparr>)"
    "take (nat (node_c ?u + 1)) ns = taken ?u @ [\<lparr>nname = full_name p, ntype = tp, nstr = Some a\<rparr>]"
    by (rule ADD_JSON_leaf [OF _ _ _ s(4,5)])
  let ?s1 = "?u\<lparr>incby := inc, node_tot := tt, nodes := ns, node_c := node_c ?u + 1, jlist := l\<rparr>"
  let ?f = "json_leave (shallower (?s1\<lparr>pos := e\<rparr>))" and ?n = "\<lparr>nname = full_name p, ntype = tp, nstr = Some a\<rparr>"
  have sf: "settled ?f = settled (s\<lparr>val := v, pos := e, nulled := c\<rparr>)" by (simp add: settled_def json_leave_def)
  have kf: "keeps s ?f" using m(1-3,7) sf by (simp add: keeps_def json_leave_def)
  have tf: "taken ?f = taken s @ [?n]" using add(7) by (simp add: json_leave_def)
  have new: "node_ok ?f ?n" using m(4,5,6,7) sf by (auto simp: node_ok_def json_leave_def)
  have old: "\<forall>n\<in>set (taken s). node_ok ?f n" using s(1) kf node_ok_keeps by (auto simp: good_def)
  have "room ?f" using s(1) add(2-6) by (simp add: good_def room_def json_leave_def same_path_def)
  moreover have "ec ?f = -1" using s(1) by (simp add: good_def json_leave_def)
  ultimately have "good ?f" unfolding good_def tf using new old by simp
  moreover have "view ?f R" using m(8) by (cases "c = NUL") (simp_all add: view_def json_leave_def)
  moreover have "rendered ?f = rendered s @ [(full_name p, tp, cstr (drop a v))]"
  proof -
    have "map (render ?f) (taken s) = rendered s" using s(1) kf by (simp add: rendered_def good_def render_keeps)
    then show ?thesis unfolding rendered_def tf by (simp add: rendered_def render_def json_leave_def)
  qed
  moreover have "path_ok ?f p"
  proof (rule path_ok_keeps [OF s(2) _ kf])
    show "same_path s ?f" using add(6) by (simp add: same_path_def json_leave_def)
  qed
  ultimately have "done_value p R [(full_name p, tp, cstr (drop a v))] s ?f"
    using kf by (simp add: done_value_def json_leave_def)
  then show ?thesis using add(1) by (intro exI [of _ ?s1]) simp
qed


lemma leaf_done:
  assumes r: "ready env p (w @ R) s" and n: "nulled s = NUL" and w: "w \<noteq> []" "NUL \<notin> set w" "R \<noteq> []"
  shows "\<exists>s1. leaf env tp (length w) s = Inr (Stop s1) \<and> done_value p R [(full_name p, tp, w)] s (json_leave s1)"
proof -
  obtain c R' where R: "R = c # R'" using w(3) by (cases R) auto
  obtain x w' where x: "w = x # w'" "x \<noteq> NUL" using w by (cases w) auto
  obtain a where a: "val s = a @ w @ c # R'" "length a = pos s"
    using view_split [of s x "w' @ R"] r n x R by (auto simp: ready_def)
  let ?v = "a @ w @ NUL # R'" and ?q = "pos s + length w"
  have put: "memput (val s) (pos s + length w) [NUL] = Inr ?v"
    using memput_ok [of "a @ w" ?q "[c]" "[NUL]" R'] a by simp
  have cat: "cat (val s) ?q = c" using a by (simp add: cat_append)
  have st: "settled s = pos s" using settled_start [of s x "w' @ R"] r n x by (simp add: ready_def)
  have at: "?v ! ?q = NUL" "?v ! pos s = x" using a x by (simp_all add: nth_append)
  have "\<exists>s1. VV_ADD_JSON env tp (pos s) (s\<lparr>val := ?v, pos := pos s, nulled := c, errm := errm s\<rparr>) = Inr (True, s1)
    \<and> pos s1 = pos s \<and> done_value p R [(full_name p, tp, cstr (drop (pos s) ?v))] s (json_leave (shallower (s1\<lparr>pos := ?q\<rparr>)))"
  proof (rule add_done [where q = ?q])
    show "take (settled s) ?v = take (settled s) (val s)" using st a by simp
    show "?q < settled (s\<lparr>val := ?v, pos := ?q, nulled := c\<rparr>)" using at(1) a by (simp add: settled_def)
    show "view (s\<lparr>val := ?v, pos := ?q, nulled := c\<rparr>) R" using a R by (simp add: view_def)
    show "settled s \<le> settled (s\<lparr>val := ?v, pos := pos s\<rparr>)" using st by (simp add: settled_def)
  qed (use r st at a in \<open>simp_all add: ready_def\<close>)
  then obtain s1 where "VV_ADD_JSON env tp (pos s) (s\<lparr>val := ?v, nulled := c\<rparr>) = Inr (True, s1)" "pos s1 = pos s"
      "done_value p R [(full_name p, tp, cstr (drop (pos s) ?v))] s (json_leave (shallower (s1\<lparr>pos := ?q\<rparr>)))" by auto
  moreover have "cstr (drop (pos s) ?v) = w" using w a(2) by simp
  ultimately show ?thesis by (simp add: leaf_def put cat res_bind_def)
qed

lemma skip_over:
  "(\<And>k. k < n \<Longrightarrow> cat v (b + i + k) \<notin> {CHR 0x22, CHR 0x5C, NUL}) \<Longrightarrow>
   json_skip_loop v b quoted i = json_skip_loop v b quoted (i + n)"
proof (induction n arbitrary: i)
  case (Suc n)
  have "json_skip_loop v b quoted i = json_skip_loop v b quoted (i + 1)"
    using Suc.prems [of 0] by (subst json_skip_loop.simps) simp
  also have "\<dots> = json_skip_loop v b quoted (i + 1 + n)"
    using Suc.prems [of "Suc k" for k] by (intro Suc.IH) (simp add: add.assoc)
  finally show ?case by simp
qed simp

lemma decode_over:
  "(\<And>k. k < n \<Longrightarrow> cat v (b + i + k) \<notin> {CHR 0x22, CHR 0x5C, NUL}) \<Longrightarrow>
   json_decode_loop v b i 0 = json_decode_loop v b (i + n) 0"
proof (induction n arbitrary: i)
  case (Suc n)
  have "json_decode_loop v b i 0 = json_decode_loop v b (i + 1) 0"
    using Suc.prems [of 0] by (subst json_decode_loop.simps) simp
  also have "\<dots> = json_decode_loop v b (i + 1 + n) 0"
    using Suc.prems [of "Suc k" for k] by (intro Suc.IH) (simp add: add.assoc)
  finally show ?case by simp
qed simp

lemma plain_string:
  assumes "plain t" "v = a @ CHR 0x22 # t @ CHR 0x22 # r"
  shows "vely_json_to_utf8 v (length a) True enc = Some (Inr (Inr (v, length a + 1 + length t)))"
proof -
  have c: "cat v (length a + 1 + k) \<notin> {CHR 0x22, CHR 0x5C, NUL}" if "k < length t" for k
  proof -
    have "cat v (length a + 1 + k) = t ! k" using assms(2) that by (simp add: cat_append nth_append)
    then show ?thesis using assms(1) nth_mem [OF that] by (auto simp: plain_def)
  qed
  have e: "cat v (length a + (1 + length t)) = CHR 0x22" by (simp add: assms(2) cat_append)
  have "json_skip_loop v (length a) True 1 = Some (1 + length t)"
    using skip_over [of "length t" v "length a" 1 True] c e by (simp add: json_skip_loop.simps [of _ _ _ "Suc (length t)"])
  moreover have "json_decode_loop v (length a) 1 0 = Inr (Inr (v, 1 + length t, 0))"
    using decode_over [of "length t" v "length a" 1] c e by (simp add: json_decode_loop.simps [of _ _ "Suc (length t)"])
  ultimately show ?thesis using e by (simp add: vely_json_to_utf8_def)
qed

lemma string_found:
  assumes "vely_json_to_utf8 (val s) (pos s) True (dec env) = Some (Inr (Inr (v, e)))" "memput v e [NUL] = Inr v1"
    "\<not> expected_colon f" "\<not> expected_comma_or_end_array f" "\<not> expected_comma_or_end_object f" "pos s \<le> e" "int (e - pos s) \<le> INT_MAX"
  shows "json_string env f s = Some
    (let s1 = s\<lparr>val := v1, pos := e, errm := []\<rparr> in
     if expected_name f then
       res_bind (path_at s1 (list_c s1)) (\<lambda>n.
       res_bind (path_put (list_c s1) (n\<lparr>name := Some (pos s + 1), name_len := e - pos s - 1\<rparr>) s1) (\<lambda>s2.
         Inr (Continue (f\<lparr>expected_name := False, expected_colon := True\<rparr>) (advance 1 s2))))
     else res_bind (VV_ADD_JSON env VV_JSON_TYPE_STRING (pos s + 1) s1) (\<lambda>(ok, s2).
            if ok then Inr (Stop (shallower (advance 1 s2))) else Inr (Stop s2)))"
proof -
  have "(advance (e - pos s) s)\<lparr>val := v1, errm := []\<rparr> = s\<lparr>val := v1, pos := e, errm := []\<rparr>"
    using assms(6) by simp
  moreover have "\<not> int (e - pos s) > INT_MAX" using assms(7) by simp
  ultimately show ?thesis using assms(1-5) by (simp only: json_string_def string_read_def first_error.simps if_False option.case
      option.map sum.case prod.case Let_def res_bind_def)
qed

lemma string_done:
  assumes r: "ready env p (CHR 0x22 # t @ CHR 0x22 # R) s" and n: "nulled s = NUL" and t: "quoted_text t u"
    and b: "int (jlen env) \<le> INT_MAX"
  shows "\<exists>s1. json_string env new_frame s = Some (Inr (Stop s1))
    \<and> done_value p R [(full_name p, VV_JSON_TYPE_STRING, if dec env then u else t)] s (json_leave s1)"
proof -
  obtain a where a: "val s = a @ CHR 0x22 # t @ CHR 0x22 # R" "length a = pos s"
    using view_split [of s "CHR 0x22" "t @ CHR 0x22 # R"] r n by (auto simp: ready_def)
  obtain x where x: "vely_json_to_utf8 (a @ CHR 0x22 # t @ CHR 0x22 # R) (length a) True (dec env)
      = Some (Inr (Inr (a @ CHR 0x22 # x @ CHR 0x22 # R, length a + 1 + length t)))"
    "length x = length t" "cstr (x @ NUL # R) = (if dec env then u else t)"
    by (rule quoted_text_read [OF t])
  let ?v = "a @ CHR 0x22 # x @ NUL # R" and ?q = "pos s + 1 + length t"
  have put: "memput (a @ CHR 0x22 # x @ CHR 0x22 # R) ?q [NUL] = Inr ?v"
    using memput_ok [of "a @ CHR 0x22 # x" ?q "[CHR 0x22]" "[NUL]" R] a x(2) by simp
  have js: "vely_json_to_utf8 (val s) (pos s) True (dec env) = Some (Inr (Inr (a @ CHR 0x22 # x @ CHR 0x22 # R, ?q)))"
    using x(1) a by simp
  have st: "settled s = pos s" using settled_start [of s "CHR 0x22" "t @ CHR 0x22 # R"] r n by (simp add: ready_def)
  have at: "?v ! ?q = NUL" using a x(2) by (simp add: nth_append)
  have lim: "int (?q - pos s) \<le> INT_MAX" using r b a by (simp add: ready_def)
  have "\<exists>s1. VV_ADD_JSON env VV_JSON_TYPE_STRING (pos s + 1) (s\<lparr>val := ?v, pos := ?q, nulled := NUL, errm := []\<rparr>) = Inr (True, s1)
    \<and> pos s1 = ?q \<and> done_value p R [(full_name p, VV_JSON_TYPE_STRING, cstr (drop (pos s + 1) ?v))] s (json_leave (shallower (s1\<lparr>pos := ?q + 1\<rparr>)))"
  proof (rule add_done [where q = ?q])
    show "take (settled s) ?v = take (settled s) (val s)" using st a by simp
    show "?q < settled (s\<lparr>val := ?v, pos := ?q + 1, nulled := NUL\<rparr>)" by (simp add: settled_def)
    show "view (s\<lparr>val := ?v, pos := ?q + 1, nulled := NUL\<rparr>) R" using a x(2) by (simp add: view_def)
    show "settled s \<le> settled (s\<lparr>val := ?v, pos := ?q\<rparr>)" using st by (simp add: settled_def)
  qed (use r st at a x(2) in \<open>simp_all add: ready_def\<close>)
  then obtain s1 where s1: "VV_ADD_JSON env VV_JSON_TYPE_STRING (pos s + 1) (s\<lparr>val := ?v, pos := ?q, nulled := NUL, errm := []\<rparr>) = Inr (True, s1)"
      "pos s1 = ?q"
      "done_value p R [(full_name p, VV_JSON_TYPE_STRING, cstr (drop (pos s + 1) ?v))] s (json_leave (shallower (s1\<lparr>pos := ?q + 1\<rparr>)))" by blast
  have v: "s\<lparr>val := ?v, pos := ?q, nulled := NUL, errm := []\<rparr> = s\<lparr>val := ?v, pos := ?q, errm := []\<rparr>"
    using n by simp
  have "json_string env new_frame s = Some (Inr (Stop (shallower (advance 1 s1))))"
    using string_found [OF js put, of new_frame] s1(1) lim unfolding v
    by (simp add: new_frame_def res_bind_def)
  moreover have "shallower (advance 1 s1) = shallower (s1\<lparr>pos := ?q + 1\<rparr>)" using s1(2) by simp
  moreover have "cstr (drop (pos s + 1) ?v) = (if dec env then u else t)" using x(3) a(2) by simp
  ultimately show ?thesis using s1(3) by (intro exI [of _ "shallower (advance 1 s1)"]) simp
qed

lemma name_done:
  assumes r: "ready env p (CHR 0x22 # t @ CHR 0x22 # R) s" and n: "nulled s = NUL" and t: "plain t"
    and f: "f = \<lparr>expected_comma_or_end_array = False, expected_comma_or_end_object = False,
       expected_colon = False, expected_name = True, isarr = False, isobj = True\<rparr>" and l: "length p < 31"
    and b: "int (jlen env) \<le> INT_MAX"
  shows "\<exists>s1. json_string env f s = Some (Inr (Continue (f\<lparr>expected_name := False, expected_colon := True\<rparr>) s1))
    \<and> good s1 \<and> view s1 R \<and> nulled s1 = NUL \<and> keeps s s1 \<and> rendered s1 = rendered s
    \<and> list_c s1 = list_c s \<and> depth s1 = depth s \<and> path_ok s1 (p @ [(t, -1)])"
proof -
  obtain a where a: "val s = a @ CHR 0x22 # t @ CHR 0x22 # R" "length a = pos s"
    using view_split [of s "CHR 0x22" "t @ CHR 0x22 # R"] r n by (auto simp: ready_def)
  let ?v = "a @ CHR 0x22 # t @ NUL # R" and ?q = "pos s + 1 + length t"
  have put: "memput (val s) ?q [NUL] = Inr ?v"
    using memput_ok [of "a @ CHR 0x22 # t" ?q "[CHR 0x22]" "[NUL]" R] a by simp
  have js: "vely_json_to_utf8 (val s) (pos s) True (dec env) = Some (Inr (Inr (val s, ?q)))"
    using plain_string [OF t a(1)] a(2) by simp
  have st: "settled s = pos s" using settled_start [of s "CHR 0x22" "t @ CHR 0x22 # R"] r n by (simp add: ready_def)
  let ?n = "(jlist s ! length p)\<lparr>name := Some (pos s + 1), name_len := length t\<rparr>"
  let ?s1 = "s\<lparr>val := ?v, pos := ?q + 1, errm := [], jlist := (jlist s)[length p := ?n]\<rparr>"
  have lc: "list_c s = int (length p)" "length (jlist s) = 32" using r by (simp_all add: ready_def path_ok_def)
  have lim: "int (?q - pos s) \<le> INT_MAX" using r b a by (simp add: ready_def)
  have run: "json_string env f s = Some (Inr (Continue (f\<lparr>expected_name := False, expected_colon := True\<rparr>) ?s1))"
    using string_found [OF js put, of f] lc l lim
    by (simp add: f res_bind_def Let_def path_at_def path_put_def)
  have k: "keeps s ?s1" using st a by (simp add: keeps_def settled_def)
  have g: "good s" "path_ok s p" using r by (simp_all add: ready_def)
  have old: "\<forall>n\<in>set (taken s). node_ok ?s1 n" using g(1) k node_ok_keeps by (auto simp: good_def)
  have "good ?s1" using g(1) old by (simp add: good_def room_def)
  moreover have "rendered ?s1 = rendered s" using g(1) k by (simp add: rendered_def good_def render_keeps)
  moreover have "path_ok ?s1 (p @ [(t, -1)])"
  proof -
    have "step_of ?s1 i (p ! i)" if i: "i < length p" for i
      using step_of_keeps [of s i "p ! i" ?s1] k g(2) i lc by (simp add: path_ok_def nth_list_update)
    moreover have "step_of ?s1 (length p) (t, -1)"
      using g(2) lc l a by (auto simp: step_of_def path_ok_def settled_def)
    ultimately show ?thesis using g(2) lc l
      by (auto simp: path_ok_def nth_append nth_list_update less_Suc_eq)
  qed
  moreover have "view ?s1 R" "nulled ?s1 = NUL" using a n by (simp_all add: view_def)
  ultimately show ?thesis using run k by (intro exI [of _ ?s1]) simp
qed


section \<open>Marks and white space\<close>

lemma step_at: "view s (c # R) \<Longrightarrow> json_step env f s = json_case env f c (s\<lparr>nulled := NUL\<rparr>)"
  by (simp add: json_step_def view_next)

text \<open>Only the position has changed.\<close>

definition shifted :: "jp \<Rightarrow> jp \<Rightarrow> bool" where
  "shifted s s1 \<longleftrightarrow> s1 = s\<lparr>pos := pos s1, nulled := nulled s1\<rparr> \<and> keeps s s1"

lemma shifted_refl: "shifted s s"
  by (simp add: shifted_def)

lemma shifted_eat: "shifted s (eat s)"
  by (simp add: shifted_def keeps_eat)

lemma shifted_trans:
  assumes "shifted s t" "shifted t u"
  shows "shifted s u"
proof -
  have "u = s\<lparr>pos := pos u, nulled := nulled u\<rparr>"
    using assms by (cases s; cases t; cases u) (simp add: shifted_def)
  moreover have "keeps s u" using assms by (auto simp: shifted_def intro: keeps_trans)
  ultimately show ?thesis by (simp add: shifted_def)
qed

lemma shifted_fields:
  assumes "shifted s s1"
  shows "list_c s1 = list_c s" "depth s1 = depth s" "jlist s1 = jlist s" "val s1 = val s" "ec s1 = ec s" "keeps s s1"
  using assms by (cases s; cases s1; simp add: shifted_def)+

lemma shifted_good:
  assumes "shifted s s1" "good s"
  shows "good s1" "rendered s1 = rendered s"
proof -
  have f: "taken s1 = taken s" "room s1 = room s" "ec s1 = ec s"
    using assms(1) by (cases s; cases s1; simp add: shifted_def room_def)+
  have k: "keeps s s1" using assms(1) by (simp add: shifted_def)
  show "good s1" using assms(2) k node_ok_keeps by (auto simp: good_def f)
  show "rendered s1 = rendered s" using assms(2) k by (simp add: rendered_def f good_def render_keeps)
qed

lemma shifted_path: "shifted s s1 \<Longrightarrow> path_ok s p \<Longrightarrow> path_ok s1 p"
  by (rule path_ok_keeps [of s]) (simp_all add: shifted_fields same_path_def)

lemma shifted_done: "shifted s s1 \<Longrightarrow> good s \<Longrightarrow> done_value p R ns s1 s' \<Longrightarrow> done_value p R ns s s'"
  using shifted_fields [of s s1] shifted_good [of s s1] by (auto simp: done_value_def intro: keeps_trans)

lemma shifted_ready: "shifted s s1 \<Longrightarrow> ready env p R s \<Longrightarrow> view s1 R1 \<Longrightarrow> ready env p R1 s1"
  using shifted_fields [of s s1] shifted_good [of s s1] shifted_path [of s s1 p] by (simp add: ready_def)

lemma eat_ready: "ready env p (c # R) s \<Longrightarrow> ready env p R (eat s)"
  by (rule shifted_ready [OF shifted_eat]) (auto simp: ready_def intro: view_eat)

lemma white_step:
  assumes "white c" "view s (c # R)"
  shows "json_step env f s = Some (Inr (Continue f (eat s)))"
  using assms by (auto simp: step_at white_def json_case_def)

lemma over_white:
  assumes "list_all white w" "view s (w @ c # d # R)" "length (val s) = Suc (jlen env)"
  obtains s1 where "shifted s s1" "view s1 (c # d # R)" "nulled s = NUL \<Longrightarrow> nulled s1 = NUL"
    "\<And>s'. runs env f s1 s' \<Longrightarrow> runs env f s s'"
  using assms
proof (induction w arbitrary: s thesis)
  case Nil
  from Nil.prems(1) [OF shifted_refl] Nil.prems(3) show ?case by simp
next
  case (Cons x w)
  have v: "view s (x # w @ c # d # R)" using Cons.prems by simp
  have lt: "pos s < jlen env" using view_less [of s x] v Cons.prems(4) by (cases w) auto
  have st: "json_step env f s = Some (Inr (Continue f (eat s)))" using Cons.prems(2) v by (intro white_step) auto
  obtain s1 where s1: "shifted (eat s) s1" "view s1 (c # d # R)" "nulled s1 = NUL"
      "\<And>s'. runs env f s1 s' \<Longrightarrow> runs env f (eat s) s'"
    using Cons.IH [of "eat s"] Cons.prems(2,4) view_eat [OF v] by auto
  show ?case
    using Cons.prems(1) [OF shifted_trans [OF shifted_eat s1(1)] s1(2)] runs_continue [OF lt st] s1(3,4) by blast
qed

text \<open>What ends a value.\<close>

definition closes :: "string \<Rightarrow> bool" where
  "closes R \<longleftrightarrow> R \<noteq> [] \<and> (white (hd R) \<or> hd R \<in> {CHR '','', CHR ''}'', CHR '']'', NUL})"

lemma spaced_closes: "spaced c e \<Longrightarrow> c \<in> {CHR '','', CHR ''}'', CHR '']''} \<Longrightarrow> closes (e @ R)"
  by (auto simp: spaced_def closes_def hd_append list_all_iff split: if_splits)

lemma closes_number: "closes R \<Longrightarrow> number_ends R"
  by (auto simp: closes_def number_ends_def white_def isdigit_def uchar_def)

text \<open>The last step of a path: leaving it, and changing its index.\<close>

lemma path_ok_leave: "path_ok s (p @ [(n, -1)]) \<Longrightarrow> path_ok s p"
proof -
  assume p: "path_ok s (p @ [(n, -1)])"
  then have st: "step_of s j ((p @ [(n, -1)]) ! j) \<and> -1 \<le> snd ((p @ [(n, -1)]) ! j)" if "j < Suc (length p)" for j
    using that by (simp add: path_ok_def)
  have "index (jlist s ! j) = -1" if "length p \<le> j" "j < 32" for j
    using that p st [of "length p"] by (cases "j = length p") (auto simp: path_ok_def step_of_def)
  moreover have "step_of s j (p ! j) \<and> -1 \<le> snd (p ! j)" if "j < length p" for j
    using st [of j] that by (simp add: nth_append)
  ultimately show "path_ok s p" using p by (simp add: path_ok_def)
qed

lemma path_index:
  assumes "path_ok s (p @ [(n, i)])" "list_c s = int (length p)" "-1 \<le> k"
  obtains nd l where "path_at s (list_c s) = Inr nd" "index nd = i"
    "path_put (list_c s) (nd\<lparr>index := k\<rparr>) s = Inr (s\<lparr>jlist := l\<rparr>)" "path_ok (s\<lparr>jlist := l\<rparr>) (p @ [(n, k)])"
proof -
  have l: "length p < 31" "length (jlist s) = 32" using assms(1) by (simp_all add: path_ok_def)
  let ?nd = "jlist s ! length p"
  let ?l = "(jlist s)[length p := ?nd\<lparr>index := k\<rparr>]"
  have st: "step_of s j ((p @ [(n, i)]) ! j)" if "j < Suc (length p)" for j using assms(1) that by (simp add: path_ok_def)
  have "step_of (s\<lparr>jlist := ?l\<rparr>) j (p ! j)" if "j < length p" for j
    using st [of j] that by (simp add: step_of_def settled_def nth_append)
  moreover have "step_of (s\<lparr>jlist := ?l\<rparr>) (length p) (n, k)" "index ?nd = i"
    using st [of "length p"] l by (auto simp: step_of_def settled_def)
  moreover have "-1 \<le> snd (p ! j)" if "j < length p" for j
    using assms(1) that unfolding path_ok_def by (auto simp: nth_append dest!: spec [of _ j])
  moreover have "index (jlist s ! j) = -1" if "length p < j" "j < 32" for j using assms(1) that by (simp add: path_ok_def)
  ultimately show ?thesis
    using that [of ?nd ?l] l assms(2,3)
    by (auto simp: path_at_def path_put_def path_ok_def nth_append less_Suc_eq nth_list_update)
qed


section \<open>Every document is parsed\<close>

abbreviation object_frame :: "bool \<Rightarrow> bool \<Rightarrow> bool \<Rightarrow> frame" where
  "object_frame nam col com \<equiv> \<lparr>expected_comma_or_end_array = False, expected_comma_or_end_object = com,
     expected_colon = col, expected_name = nam, isarr = False, isobj = True\<rparr>"

abbreviation array_frame :: frame where
  "array_frame \<equiv> \<lparr>expected_comma_or_end_array = True, expected_comma_or_end_object = False,
     expected_colon = False, expected_name = False, isarr = True, isobj = False\<rparr>"

text \<open>After an object no null byte stands for the next character.\<close>

definition closed :: "json \<Rightarrow> jp \<Rightarrow> bool" where
  "closed j s \<longleftrightarrow> (case j of Object ms \<Rightarrow> nulled s = NUL | _ \<Rightarrow> True)"

definition value_parsed :: "jenv \<Rightarrow> json \<Rightarrow> string \<Rightarrow> bool" where
  "value_parsed env j t \<longleftrightarrow> (\<forall>s p R. ready env p (t @ R) s \<longrightarrow> nulled s = NUL \<longrightarrow> closes R \<longrightarrow>
     depth s + int (height j) \<le> 32 \<longrightarrow> list_c s < depth s \<longrightarrow> arrays_ok (p \<noteq> [] \<and> snd (last p) = -1) j \<longrightarrow>
     (\<exists>s'. runs env new_frame s s' \<and> done_value p R (flat p j) s s' \<and> closed j s'))"

definition members_parsed :: "jenv \<Rightarrow> (string \<times> json) list \<Rightarrow> string \<Rightarrow> bool" where
  "members_parsed env ms t \<longleftrightarrow> (\<forall>s p R. ready env p (t @ R) s \<longrightarrow> nulled s = NUL \<longrightarrow> R \<noteq> [] \<longrightarrow>
     (\<forall>m\<in>set ms. depth s + int (height (snd m)) \<le> 31 \<and> arrays_ok True (snd m)) \<longrightarrow> list_c s < depth s \<longrightarrow>
     (\<exists>s'. runs env (object_frame True False False) s s' \<and> done_value p R (flat_members p ms) s s' \<and> nulled s' = NUL))"

text \<open>The elements of an array, from the invocation that parses the first of them.\<close>

definition elements_parsed :: "jenv \<Rightarrow> json list \<Rightarrow> string \<Rightarrow> bool" where
  "elements_parsed env vs t \<longleftrightarrow> (\<forall>s p n i R. good s \<longrightarrow> view s (t @ R) \<longrightarrow> nulled s = NUL \<longrightarrow> path_ok s (p @ [(n, i)]) \<longrightarrow>
     0 \<le> i \<longrightarrow> list_c s = int (length p) \<longrightarrow> usehash env \<longrightarrow> node_handler env = None \<longrightarrow>
     length (val s) = Suc (jlen env) \<longrightarrow> R \<noteq> [] \<longrightarrow>
     (\<forall>v\<in>set vs. depth s + int (height v) \<le> 31 \<and> arrays_ok False v) \<longrightarrow> list_c s < depth s \<longrightarrow>
     (\<exists>s2 s3 s'. json_enter s = (True, s2) \<and> runs env new_frame s2 s3 \<and> ec s3 = -1 \<and> runs env array_frame s3 s'
        \<and> good s' \<and> view s' R \<and> keeps s s' \<and> rendered s' = rendered s @ flat_elements p n i vs
        \<and> list_c s' = list_c s \<and> depth s' = depth s - 1 \<and> path_ok s' (p @ [(n, -1)])))"

lemma ready_less: "ready env p (c # d # R) s \<Longrightarrow> pos s < jlen env"
  using view_less by (auto simp: ready_def)

lemma stop_parsed:
  assumes "ready env p (c # d # R) s" "json_step env f s = Some (Inr (Stop s1))" "done_value p R' ns s (json_leave s1)"
  shows "\<exists>s'. runs env f s s' \<and> done_value p R' ns s s'"
  using runs_stop [OF ready_less [OF assms(1)] assms(2)] assms(3) by blast

lemma step_same:
  assumes "view s (c # R)" "nulled s = NUL"
  shows "json_step env f s = json_case env f c s"
proof -
  have "s\<lparr>nulled := NUL\<rparr> = s" using assms(2) by simp
  then show ?thesis using step_at [OF assms(1)] by simp
qed

lemma text_parsed:
  assumes t: "quoted_text t u" and b: "int (jlen env) \<le> INT_MAX"
  shows "value_parsed env (Text (if dec env then u else t)) (CHR 0x22 # t @ [CHR 0x22])"
proof -
  have "\<exists>s'. runs env new_frame s s' \<and> done_value p R (flat p (Text (if dec env then u else t))) s s'"
    if r: "ready env p ((CHR 0x22 # t @ [CHR 0x22]) @ R) s" and n: "nulled s = NUL" for s p R
  proof -
    have r': "ready env p (CHR 0x22 # t @ CHR 0x22 # R) s" using r by simp
    obtain s1 where s1: "json_string env new_frame s = Some (Inr (Stop s1))"
        "done_value p R [(full_name p, VV_JSON_TYPE_STRING, if dec env then u else t)] s (json_leave s1)"
      using string_done [OF r' n t b] by blast
    have v: "view s (CHR 0x22 # t @ CHR 0x22 # R)" using r' by (simp add: ready_def)
    have "json_step env new_frame s = Some (Inr (Stop s1))"
      using step_same [OF v n] s1(1) by (simp add: json_case_def)
    moreover obtain d R2 where "t @ CHR 0x22 # R = d # R2" by (cases t) auto
    ultimately show ?thesis using stop_parsed [of env p "CHR 0x22" d R2 s] r' s1(2) by simp
  qed
  then show ?thesis by (simp add: value_parsed_def closed_def)
qed

lemma word_parsed:
  assumes w: "w \<noteq> []" "NUL \<notin> set w"
    and step: "\<And>R s. closes R \<Longrightarrow> nulled s = NUL \<Longrightarrow> view s (w @ R) \<Longrightarrow> json_step env new_frame s = Some (leaf env tp (length w) s)"
    and j: "\<And>p. flat p j = [(full_name p, tp, w)]" "\<And>s. closed j s"
  shows "value_parsed env j w"
proof -
  have "\<exists>s'. runs env new_frame s s' \<and> done_value p R (flat p j) s s'"
    if r: "ready env p (w @ R) s" and n: "nulled s = NUL" and c: "closes R" for s p R
  proof -
    have R: "R \<noteq> []" using c by (simp add: closes_def)
    obtain s1 where s1: "leaf env tp (length w) s = Inr (Stop s1)" "done_value p R [(full_name p, tp, w)] s (json_leave s1)"
      using leaf_done [OF r n w R] by blast
    have "json_step env new_frame s = Some (Inr (Stop s1))" using step [OF c n] r s1(1) by (simp add: ready_def)
    moreover obtain x d R2 where "w @ R = x # d # R2" using w(1) R by (cases w; cases "tl w"; cases R) auto
    ultimately show ?thesis using stop_parsed [of env p x d R2 s] r s1(2) j by simp
  qed
  then show ?thesis using j(2) by (simp add: value_parsed_def)
qed

lemma view_drop: "view s R \<Longrightarrow> nulled s = NUL \<Longrightarrow> drop (pos s) (val s) = R"
  by (simp add: view_def)

lemma literal_step:
  assumes "view s (w @ R)" "nulled s = NUL"
  shows "literal env new_frame tp w s = leaf env tp (length w) s"
  using view_drop [OF assms] by (simp add: literal_def checked_def new_frame_def)

lemma truth_parsed: "value_parsed env (Truth b) (if b then ''true'' else ''false'')"
proof (rule word_parsed [where tp = VV_JSON_TYPE_BOOL])
  fix R s
  assume v: "nulled s = NUL" "view s ((if b then ''true'' else ''false'') @ R)"
  show "json_step env new_frame s = Some (leaf env VV_JSON_TYPE_BOOL (length (if b then ''true'' else ''false'')) s)"
    using v literal_step [OF v(2,1)]
    by (cases b) (auto simp: step_same json_case_def isdigit_def uchar_def)
qed (auto simp: closed_def)

lemma null_parsed: "value_parsed env Null ''null''"
proof (rule word_parsed [where tp = VV_JSON_TYPE_NULL])
  fix R s
  assume v: "nulled s = NUL" "view s (''null'' @ R)"
  show "json_step env new_frame s = Some (leaf env VV_JSON_TYPE_NULL (length ''null'') s)"
    using v literal_step [OF v(2,1)]
    by (auto simp: step_same json_case_def isdigit_def uchar_def)
qed (auto simp: closed_def)

lemma json_number_chars:
  assumes "json_number t r"
  shows "t \<noteq> [] \<and> (hd t = CHR ''-'' \<or> isdigit (hd t)) \<and> NUL \<notin> set t"
proof -
  obtain sg ip fp ep where t: "t = sg @ ip @ fp @ ep" "sg \<in> {[], ''-''}" "digits ip" "fraction fp" "exponent ep"
    using assms by (auto simp: json_number_def)
  have d: "NUL \<notin> set ds" if "digits ds" for ds using that by (auto simp: digits_def list_all_iff)
  note ds = this
  have "NUL \<notin> set fp" using t(4) ds [of "tl fp"] by (cases fp) (auto simp: fraction_def)
  moreover have "NUL \<notin> set ep"
  proof (cases ep)
    case (Cons c e)
    then have c: "c \<noteq> NUL" "digits e \<or> e \<noteq> [] \<and> hd e \<noteq> NUL \<and> digits (tl e)"
      using t(5) by (auto simp: exponent_def)
    then show ?thesis using Cons ds [of e] ds [of "tl e"] by (cases e) auto
  qed simp
  ultimately have "NUL \<notin> set t" using t ds [of ip] by auto
  then show ?thesis using t by (cases ip) (auto simp: digits_def)
qed

lemma number_parsed: "json_number t r \<Longrightarrow> value_parsed env (Number t r) t"
proof (rule word_parsed [where tp = "if r then VV_JSON_TYPE_REAL else VV_JSON_TYPE_NUMBER"])
  assume j: "json_number t r"
  show "t \<noteq> []" "NUL \<notin> set t" using json_number_chars [OF j] by simp_all
  fix R s
  assume c: "closes R" and n: "nulled s = NUL" and v: "view s (t @ R)"
  obtain x t' where x: "t = x # t'" "x = CHR ''-'' \<or> isdigit x" using json_number_chars [OF j] by (cases t) auto
  have "vely_json_num (drop (pos s) (val s)) = Inr (length t, r)"
    using json_num_complete [OF closes_number [OF c] j] view_drop [OF v n] by simp
  then have "json_number_value env new_frame s = leaf env (if r then VV_JSON_TYPE_REAL else VV_JSON_TYPE_NUMBER) (length t) s"
    by (simp add: json_number_value_def checked_def new_frame_def)
  moreover have "json_step env new_frame s = Some (json_number_value env new_frame s)"
  proof -
    have "x \<notin> set ''{}[]:, '' \<union> {CHR 0x09, CHR 0x0A, CHR 0x0D, CHR 0x22}"
      using x(2) by (auto simp: isdigit_def uchar_def)
    then show ?thesis using v x n step_same [of s x "t' @ R" env new_frame] by (simp add: json_case_def)
  qed
  ultimately show "json_step env new_frame s = Some (leaf env (if r then VV_JSON_TYPE_REAL else VV_JSON_TYPE_NUMBER) (length t) s)"
    by simp
qed (simp_all add: closed_def)

lemma white_parsed:
  assumes "white c" "value_parsed env j t"
  shows "value_parsed env j (c # t)"
proof -
  have "\<exists>s'. runs env new_frame s s' \<and> done_value p R (flat p j) s s' \<and> closed j s'"
    if r: "ready env p ((c # t) @ R) s" and n: "nulled s = NUL" and a: "closes R"
      "depth s + int (height j) \<le> 32" "list_c s < depth s" "arrays_ok (p \<noteq> [] \<and> snd (last p) = -1) j" for s p R
  proof -
    have r': "ready env p (c # t @ R) s" using r by simp
    obtain d R2 where d: "t @ R = d # R2" using a(1) by (cases t; cases R) (auto simp: closes_def)
    have "json_step env new_frame s = Some (Inr (Continue new_frame (eat s)))"
      using white_step [OF assms(1)] r' unfolding ready_def by blast
    moreover have lt: "pos s < jlen env" using ready_less r' d by simp
    moreover obtain s' where "runs env new_frame (eat s) s'" "done_value p R (flat p j) (eat s) s'" "closed j s'"
      using assms(2) a eat_ready [OF r'] by (fastforce simp: value_parsed_def)
    ultimately show ?thesis
      using runs_continue shifted_done [OF shifted_eat] r by (meson ready_def)
  qed
  then show ?thesis by (simp add: value_parsed_def)
qed


subsection \<open>Objects\<close>

lemma height_positive [simp]: "0 < height j"
  by (cases j) simp_all

lemma height_member: "m \<in> set ms \<Longrightarrow> height (snd m) < height (Object ms)"
  by (cases m) (auto simp: less_Suc_eq_le intro!: Max_ge)

lemma height_element: "v \<in> set vs \<Longrightarrow> height v < height (Array vs)"
  by (auto simp: less_Suc_eq_le intro!: Max_ge)

lemma at_mark:
  assumes "spaced c e" "view s (e @ R)" "R \<noteq> []" "length (val s) = Suc (jlen env)"
  obtains s1 where "shifted s s1" "view s1 (c # R)" "nulled s = NUL \<Longrightarrow> nulled s1 = NUL" "pos s1 < jlen env"
    "\<And>s'. runs env f s1 s' \<Longrightarrow> runs env f s s'"
proof -
  obtain w where w: "e = w @ [c]" "list_all white w" using assms(1) by (auto simp: spaced_def)
  obtain d R' where R: "R = d # R'" using assms(3) by (cases R) auto
  have "view s (w @ c # d # R')" using assms(2) w R by simp
  from over_white [OF w(2) this assms(4)] obtain s1 where
    s1: "shifted s s1" "view s1 (c # d # R')" "nulled s = NUL \<Longrightarrow> nulled s1 = NUL"
      "\<And>s'. runs env f s1 s' \<Longrightarrow> runs env f s s'" by blast
  have "pos s1 < jlen env" using view_less [OF s1(2)] shifted_fields [OF s1(1)] assms(4) by simp
  then show ?thesis using that s1 R by blast
qed

lemma enter_value:
  assumes "depth s + int (height v) \<le> 31" "list_c s < depth s"
  shows "json_enter s = (True, s\<lparr>depth := depth s + 1, list_c := list_c s + 1\<rparr>)"
proof -
  have "0 < height v" by simp
  then have "depth s \<le> 30" using assms(1) by linarith
  then show ?thesis using assms(2) by (simp add: json_enter_def VV_JSON_MAX_NESTED_def Let_def)
qed

lemma entered_ready:
  assumes "good s" "view s R" "path_ok s q" "list_c s + 1 = int (length q)" "usehash env" "node_handler env = None"
    "length (val s) = Suc (jlen env)"
  shows "ready env q R (s\<lparr>depth := depth s + 1, list_c := list_c s + 1\<rparr>)"
  using assms by (simp add: ready_def good_def room_def node_ok_def settled_def view_def path_ok_def step_of_def)

text \<open>A value invoked from a frame, and the state that its frame goes on with.\<close>

lemma invoked_value:
  assumes v: "value_parsed env v t" and s: "good s" "view s (t @ R)" "nulled s = NUL" "path_ok s q" "list_c s + 1 = int (length q)"
      "usehash env" "node_handler env = None" "length (val s) = Suc (jlen env)"
    and a: "closes R" "depth s + int (height v) \<le> 31" "list_c s < depth s" "arrays_ok (q \<noteq> [] \<and> snd (last q) = -1) v"
  obtains s2 s3 where "json_enter s = (True, s2)" "runs env new_frame s2 s3" "good s3" "view s3 R" "keeps s s3"
    "rendered s3 = rendered s @ flat q v" "list_c s3 = list_c s" "depth s3 = depth s" "path_ok s3 q"
proof -
  let ?s2 = "s\<lparr>depth := depth s + 1, list_c := list_c s + 1\<rparr>"
  have r: "ready env q (t @ R) ?s2" using s by (intro entered_ready)
  have "depth ?s2 + int (height v) \<le> 32" "list_c ?s2 < depth ?s2" "nulled ?s2 = NUL" using a s(3) by simp_all
  then obtain s3 where s3: "runs env new_frame ?s2 s3" "done_value q R (flat q v) ?s2 s3"
    using v r a(1,4) unfolding value_parsed_def by blast
  have k: "keeps s ?s2" by (simp add: keeps_def settled_def)
  have d: "good s3" "view s3 R" "keeps ?s2 s3" "rendered s3 = rendered ?s2 @ flat q v" "list_c s3 = list_c ?s2 - 1"
      "depth s3 = depth ?s2 - 1" "path_ok s3 q"
    using s3(2) by (simp_all only: done_value_def)
  have "rendered ?s2 = rendered s" by (simp add: rendered_def render_def)
  then have "rendered s3 = rendered s @ flat q v" using d(4) by simp
  from that [OF enter_value [OF a(2,3)] s3(1) d(1,2) keeps_trans [OF k d(3)] this _ _ d(7)]
  show ?thesis using d(5,6) by simp
qed

lemma member_head:
  assumes m: "spaced CHR 0x22 q" "plain n" "spaced CHR '':'' c" "value_parsed env v t" "int (jlen env) \<le> INT_MAX"
    and r: "ready env p (q @ n @ CHR 0x22 # c @ t @ R) s" "nulled s = NUL"
    and a: "closes R" "depth s + int (height v) \<le> 31"
      "arrays_ok True v" "list_c s < depth s"
  obtains s5 where "\<And>s'. runs env (object_frame False False True) s5 s' \<Longrightarrow> runs env (object_frame True False False) s s'"
    "ready env p R s5" "keeps s s5" "rendered s5 = rendered s @ flat (p @ [(n, -1)]) v" "list_c s5 = list_c s" "depth s5 = depth s"
proof -
  have R: "R \<noteq> []" using a(1) by (simp add: closes_def)
  have env: "usehash env" "node_handler env = None" "length (val s) = Suc (jlen env)" "list_c s = int (length p)" "good s"
    using r(1) by (simp_all add: ready_def)
  have pl: "length p < 31"
  proof -
    have "0 < height v" by simp
    then show ?thesis using a(2,4) env(4) by linarith
  qed
  have v0: "view s (q @ n @ CHR 0x22 # c @ t @ R)" using r(1) by (simp add: ready_def)
  obtain s1 where s1: "shifted s s1" "view s1 (CHR 0x22 # n @ CHR 0x22 # c @ t @ R)" "nulled s1 = NUL" "pos s1 < jlen env"
      "\<And>s'. runs env (object_frame True False False) s1 s' \<Longrightarrow> runs env (object_frame True False False) s s'"
    using at_mark [OF m(1) v0 _ env(3), of "object_frame True False False"] r(2) by auto
  note f1 = shifted_fields [OF s1(1)] shifted_good [OF s1(1) env(5)]
  obtain s2 where s2: "json_string env (object_frame True False False) s1 = Some (Inr (Continue (object_frame False True False) s2))"
      "good s2" "view s2 (c @ t @ R)" "nulled s2 = NUL" "keeps s1 s2" "rendered s2 = rendered s1"
      "list_c s2 = list_c s1" "depth s2 = depth s1" "path_ok s2 (p @ [(n, -1)])"
    using name_done [OF shifted_ready [OF s1(1) r(1) s1(2)] s1(3) m(2) refl pl m(5)] by auto
  have "json_step env (object_frame True False False) s1 = Some (Inr (Continue (object_frame False True False) s2))"
    using step_same [OF s1(2,3)] s2(1) by (simp add: json_case_def)
  then have go1: "runs env (object_frame False True False) s2 s' \<Longrightarrow> runs env (object_frame True False False) s s'" for s'
    using runs_continue [OF s1(4)] s1(5) by blast
  have l2: "length (val s2) = Suc (jlen env)" using env(3) f1(4) s2(5) by (simp add: keeps_def)
  obtain s3 where s3: "shifted s2 s3" "view s3 (CHR '':'' # t @ R)" "pos s3 < jlen env"
      "\<And>s'. runs env (object_frame False True False) s3 s' \<Longrightarrow> runs env (object_frame False True False) s2 s'"
    using at_mark [OF m(3) s2(3) _ l2, of "object_frame False True False"] R by auto
  have st3: "json_step env (object_frame False True False) s3 = Some (Inr (Invoke (object_frame False False True) (eat s3)))"
    using step_at [OF s3(2)] by (simp add: json_case_def colon_def checked_def)
  have sh: "shifted s2 (eat s3)" by (rule shifted_trans [OF s3(1) shifted_eat])
  note f3 = shifted_fields [OF sh] shifted_good [OF sh s2(2)]
  obtain s4 s5 where s5: "json_enter (eat s3) = (True, s4)" "runs env new_frame s4 s5" "good s5" "view s5 R"
      "keeps (eat s3) s5" "rendered s5 = rendered (eat s3) @ flat (p @ [(n, -1)]) v" "list_c s5 = list_c (eat s3)"
      "depth s5 = depth (eat s3)" "path_ok s5 (p @ [(n, -1)])"
    by (rule invoked_value [OF m(4) f3(7) view_eat [OF s3(2)] _ shifted_path [OF sh s2(9)] _ env(1,2) _ a(1)])
      (use f1 f3 s2 l2 a env(4) in simp_all)
  have "runs env (object_frame False False True) s5 s' \<Longrightarrow> runs env (object_frame True False False) s s'" for s'
    using runs_invoke [OF s3(3) st3 s5(1,2)] s5(3) s3(4) go1 by (simp add: good_def)
  moreover have "keeps s s5" using f1(6) s2(5) f3(6) s5(5) keeps_trans by blast
  moreover have "ready env p R s5"
    using s5(3,4,7) path_ok_leave [OF s5(9)] env f1 f3 s2(7) \<open>keeps s s5\<close> by (simp add: ready_def keeps_def)
  moreover have "rendered s5 = rendered s @ flat (p @ [(n, -1)]) v" "list_c s5 = list_c s" "depth s5 = depth s"
    using s5(6,7,8) f1 f3 s2(6-8) by simp_all
  ultimately show ?thesis using that by blast
qed

lemma object_parsed:
  assumes "members_parsed env ms t"
  shows "value_parsed env (Object ms) (CHR ''{'' # t)"
proof -
  have "\<exists>s'. runs env new_frame s s' \<and> done_value p R (flat p (Object ms)) s s' \<and> closed (Object ms) s'"
    if r: "ready env p ((CHR ''{'' # t) @ R) s" and n: "nulled s = NUL" and a: "closes R"
      "depth s + int (height (Object ms)) \<le> 32" "list_c s < depth s" "arrays_ok (p \<noteq> [] \<and> snd (last p) = -1) (Object ms)" for s p R
  proof -
    have r': "ready env p (CHR ''{'' # t @ R) s" using r by simp
    obtain d R2 where d: "t @ R = d # R2" using a(1) by (cases t; cases R) (auto simp: closes_def)
    have v: "view s (CHR ''{'' # t @ R)" using r' by (simp add: ready_def)
    have "json_step env new_frame s = Some (Inr (Continue (object_frame True False False) (eat s)))"
      using step_at [OF v] by (simp add: json_case_def begin_object_def checked_def new_frame_def)
    moreover have lt: "pos s < jlen env" using ready_less r' d by simp
    moreover have "\<forall>m\<in>set ms. depth s + int (height (snd m)) \<le> 31 \<and> arrays_ok True (snd m)"
      using a(2,4) height_member [of _ ms] by (fastforce simp: list_all_iff)
    then obtain s' where "runs env (object_frame True False False) (eat s) s'" "done_value p R (flat_members p ms) (eat s) s'" "nulled s' = NUL"
      using assms a eat_ready [OF r'] by (fastforce simp: members_parsed_def closes_def)
    ultimately show ?thesis
      using runs_continue shifted_done [OF shifted_eat] r by (simp add: ready_def closed_def) blast
  qed
  then show ?thesis by (simp add: value_parsed_def)
qed


lemma last_member_parsed:
  assumes m: "spaced CHR 0x22 q" "plain n" "spaced CHR '':'' c" "value_parsed env v t" "int (jlen env) \<le> INT_MAX"
    and e: "spaced CHR ''}'' e"
  shows "members_parsed env [(n, v)] (q @ n @ CHR 0x22 # c @ t @ e)"
proof -
  have "\<exists>s'. runs env (object_frame True False False) s s' \<and> done_value p R (flat_members p [(n, v)]) s s' \<and> nulled s' = NUL"
    if r: "ready env p ((q @ n @ CHR 0x22 # c @ t @ e) @ R) s" and n: "nulled s = NUL" and R: "R \<noteq> []"
      and a: "depth s + int (height v) \<le> 31" "arrays_ok True v" "list_c s < depth s" for s p R
  proof -
    have r': "ready env p (q @ n @ CHR 0x22 # c @ t @ (e @ R)) s" using r by simp
    have cl: "closes (e @ R)" by (rule spaced_closes [OF e]) simp
    obtain s5 where s5: "\<And>s'. runs env (object_frame False False True) s5 s' \<Longrightarrow> runs env (object_frame True False False) s s'"
        "ready env p (e @ R) s5" "keeps s s5" "rendered s5 = rendered s @ flat (p @ [(n, -1)]) v" "list_c s5 = list_c s" "depth s5 = depth s"
      using member_head [OF m r' n cl a] by blast
    have g5: "good s5" "view s5 (e @ R)" "length (val s5) = Suc (jlen env)" "path_ok s5 p" using s5(2) by (simp_all add: ready_def)
    obtain s6 where s6: "shifted s5 s6" "view s6 (CHR ''}'' # R)" "pos s6 < jlen env"
        "\<And>s'. runs env (object_frame False False True) s6 s' \<Longrightarrow> runs env (object_frame False False True) s5 s'"
      using at_mark [OF e g5(2) R g5(3), of "object_frame False False True"] by blast
    have st: "json_step env (object_frame False False True) s6 = Some (Inr (Stop (shallower (eat s6))))"
      using step_at [OF s6(2)] by (simp add: json_case_def end_object_def checked_def)
    have sh: "shifted s5 (eat s6)" by (rule shifted_trans [OF s6(1) shifted_eat])
    note f6 = shifted_fields [OF sh] shifted_good [OF sh g5(1)] shifted_path [OF sh g5(4)]
    let ?f = "json_leave (shallower (eat s6))"
    have "good ?f" "view ?f R" "keeps s5 ?f" "rendered ?f = rendered s5" "path_ok ?f p"
      using f6 view_eat [OF s6(2)] by simp_all
    then have "done_value p R (flat_members p [(n, v)]) s ?f"
      using s5 f6 keeps_trans [OF s5(3)] by (simp add: done_value_def json_leave_def)
    moreover have "nulled ?f = NUL" by (simp add: json_leave_def)
    ultimately show ?thesis using runs_stop [OF s6(3) st] s6(4) s5(1) by blast
  qed
  then show ?thesis by (simp add: members_parsed_def)
qed

lemma more_members_parsed:
  assumes m: "spaced CHR 0x22 q" "plain n" "spaced CHR '':'' c" "value_parsed env v t" "int (jlen env) \<le> INT_MAX"
    and k: "spaced CHR '','' k" and u: "members_parsed env ms u"
  shows "members_parsed env ((n, v) # ms) (q @ n @ CHR 0x22 # c @ t @ k @ u)"
proof -
  have "\<exists>s'. runs env (object_frame True False False) s s' \<and> done_value p R (flat_members p ((n, v) # ms)) s s' \<and> nulled s' = NUL"
    if r: "ready env p ((q @ n @ CHR 0x22 # c @ t @ k @ u) @ R) s" and n: "nulled s = NUL" and R: "R \<noteq> []"
      and a: "depth s + int (height v) \<le> 31" "arrays_ok True v" "list_c s < depth s"
      and b: "\<forall>m\<in>set ms. depth s + int (height (snd m)) \<le> 31 \<and> arrays_ok True (snd m)" for s p R
  proof -
    have r': "ready env p (q @ n @ CHR 0x22 # c @ t @ (k @ u @ R)) s" using r by simp
    have cl: "closes (k @ u @ R)" by (rule spaced_closes [OF k]) simp
    obtain s5 where s5: "\<And>s'. runs env (object_frame False False True) s5 s' \<Longrightarrow> runs env (object_frame True False False) s s'"
        "ready env p (k @ u @ R) s5" "keeps s s5" "rendered s5 = rendered s @ flat (p @ [(n, -1)]) v" "list_c s5 = list_c s" "depth s5 = depth s"
      using member_head [OF m r' n cl a] by blast
    have g5: "view s5 (k @ u @ R)" "length (val s5) = Suc (jlen env)" "good s5" using s5(2) by (simp_all add: ready_def)
    obtain s6 where s6: "shifted s5 s6" "view s6 (CHR '','' # u @ R)" "pos s6 < jlen env"
        "\<And>s'. runs env (object_frame False False True) s6 s' \<Longrightarrow> runs env (object_frame False False True) s5 s'"
      using at_mark [OF k g5(1) _ g5(2), of "object_frame False False True"] R by blast
    have st: "json_step env (object_frame False False True) s6 = Some (Inr (Continue (object_frame True False False) (eat s6)))"
      using step_at [OF s6(2)] by (simp add: json_case_def comma_def checked_def Let_def)
    have sh: "shifted s5 (eat s6)" by (rule shifted_trans [OF s6(1) shifted_eat])
    note f6 = shifted_fields [OF sh]
    have "ready env p (u @ R) (eat s6)" using shifted_ready [OF sh s5(2) view_eat [OF s6(2)]] .
    moreover have "\<forall>m\<in>set ms. depth (eat s6) + int (height (snd m)) \<le> 31 \<and> arrays_ok True (snd m)" "list_c (eat s6) < depth (eat s6)"
      using b a(3) f6 s5(5,6) by simp_all
    moreover have "nulled (eat s6) = NUL" by simp
    ultimately obtain s' where s': "runs env (object_frame True False False) (eat s6) s'" "done_value p R (flat_members p ms) (eat s6) s'" "nulled s' = NUL"
      using u R unfolding members_parsed_def by blast
    have "done_value p R (flat_members p ms) s5 s'" by (rule shifted_done [OF sh g5(3) s'(2)])
    then have "done_value p R (flat_members p ((n, v) # ms)) s s'"
      using s5 keeps_trans [OF s5(3)] by (simp add: done_value_def)
    then show ?thesis using runs_continue [OF s6(3) st s'(1)] s6(4) s5(1) s'(3) by blast
  qed
  then show ?thesis by (simp add: members_parsed_def)
qed

subsection \<open>Arrays\<close>

lemma array_parsed:
  assumes "elements_parsed env vs t"
  shows "value_parsed env (Array vs) (CHR ''['' # t)"
proof -
  have "\<exists>s'. runs env new_frame s s' \<and> done_value p R (flat p (Array vs)) s s'"
    if r: "ready env p ((CHR ''['' # t) @ R) s" and n: "nulled s = NUL" and a: "closes R"
      "depth s + int (height (Array vs)) \<le> 32" "list_c s < depth s" "arrays_ok (p \<noteq> [] \<and> snd (last p) = -1) (Array vs)" for s p R
  proof -
    have r': "ready env p (CHR ''['' # t @ R) s" using r by simp
    obtain d R2 where d: "t @ R = d # R2" using a(1) by (cases t; cases R) (auto simp: closes_def)
    have R: "R \<noteq> []" using a(1) by (simp add: closes_def)
    have v: "view s (CHR ''['' # t @ R)" using r' by (simp add: ready_def)
    obtain b nm where p: "p = b @ [(nm, -1)]" using a(4) by (cases p rule: rev_cases) auto
    have g: "good s" "path_ok s (b @ [(nm, -1)])" "list_c s = int (length p)" using r' p by (simp_all add: ready_def)
    have sh: "shifted s (eat s)" by (rule shifted_eat)
    let ?s1 = "shallower (eat s)"
    note f = shifted_good [OF sh g(1)] shifted_path [OF sh g(2)]
    have p1: "path_ok ?s1 (b @ [(nm, -1)])" "list_c ?s1 = int (length b)" using f(3) g(3) p by simp_all
    obtain nd l where l: "path_at ?s1 (list_c ?s1) = Inr nd" "index nd = -1"
        "path_put (list_c ?s1) (nd\<lparr>index := 0\<rparr>) ?s1 = Inr (?s1\<lparr>jlist := l\<rparr>)" "path_ok (?s1\<lparr>jlist := l\<rparr>) (b @ [(nm, 0)])"
      using path_index [OF p1, of 0] by auto
    let ?s2 = "?s1\<lparr>jlist := l\<rparr>"
    have st: "json_step env new_frame s = Some (Inr (Invoke array_frame ?s2))"
      using step_at [OF v] l(1,2,3) by (simp add: json_case_def begin_array_def checked_def new_frame_def Let_def res_bind_def)
    have lt: "pos s < jlen env" using ready_less r' d by simp
    have s2: "good ?s2" "view ?s2 (t @ R)" "nulled ?s2 = NUL" "keeps s ?s2" "rendered ?s2 = rendered s" "length (val ?s2) = Suc (jlen env)"
      using f(1,2) view_eat [OF v] sh r l(4)
      by (simp_all add: good_def room_def node_ok_def settled_def view_def keeps_def rendered_def render_def path_ok_def ready_def shifted_def)
    have "\<forall>v\<in>set vs. depth ?s2 + int (height v) \<le> 31 \<and> arrays_ok False v" "list_c ?s2 < depth ?s2"
      using a(2,3,4) height_element [of _ vs] by (fastforce simp: list_all_iff)+
    moreover have "list_c ?s2 = int (length b)" "usehash env" "node_handler env = None" using p1(2) r by (simp_all add: ready_def)
    ultimately obtain s3 s4 s' where s': "json_enter ?s2 = (True, s3)" "runs env new_frame s3 s4" "ec s4 = -1" "runs env array_frame s4 s'"
        "good s'" "view s' R" "keeps ?s2 s'" "rendered s' = rendered ?s2 @ flat_elements b nm 0 vs"
        "list_c s' = list_c ?s2" "depth s' = depth ?s2 - 1" "path_ok s' (b @ [(nm, -1)])"
      using assms [unfolded elements_parsed_def, rule_format, of ?s2 R b nm 0] s2 l(4) R by auto
    have "done_value p R (flat p (Array vs)) s s'"
      using s' s2 p keeps_trans [OF s2(4) s'(7)] by (simp add: done_value_def)
    then show ?thesis using runs_invoke [OF lt st s'(1-4)] by blast
  qed
  then show ?thesis by (simp add: value_parsed_def closed_def)
qed


lemma path_irrelevant:
  "length l = 32 \<Longrightarrow> good s \<Longrightarrow> good (s\<lparr>jlist := l\<rparr>)" "view (s\<lparr>jlist := l\<rparr>) R = view s R"
  "keeps s0 (s\<lparr>jlist := l\<rparr>) = keeps s0 s" "rendered (s\<lparr>jlist := l\<rparr>) = rendered s"
  by (simp_all add: good_def room_def node_ok_def settled_def view_def keeps_def rendered_def render_def)

lemma element_mark:
  assumes s: "good s" "view s (e @ R)" "path_ok s (p @ [(n, i)])" "list_c s = int (length p)" "length (val s) = Suc (jlen env)"
    and e: "spaced c e" "R \<noteq> []" "-1 \<le> k"
  obtains s1 nd l where "pos s1 < jlen env" "\<forall>s'. runs env array_frame s1 s' \<longrightarrow> runs env array_frame s s'"
    "view s1 (c # R)" "shifted s (eat s1)" "path_at (eat s1) (list_c (eat s1)) = Inr nd" "index nd = i"
    "path_put (list_c (eat s1)) (nd\<lparr>index := k\<rparr>) (eat s1) = Inr ((eat s1)\<lparr>jlist := l\<rparr>)"
    "path_ok ((eat s1)\<lparr>jlist := l\<rparr>) (p @ [(n, k)])" "good ((eat s1)\<lparr>jlist := l\<rparr>)" "view ((eat s1)\<lparr>jlist := l\<rparr>) R"
    "keeps s ((eat s1)\<lparr>jlist := l\<rparr>)" "rendered ((eat s1)\<lparr>jlist := l\<rparr>) = rendered s"
    "list_c (eat s1) = list_c s" "depth (eat s1) = depth s"
proof -
  obtain s1 where s1: "shifted s s1" "view s1 (c # R)" "pos s1 < jlen env"
      "\<forall>s'. runs env array_frame s1 s' \<longrightarrow> runs env array_frame s s'"
    using at_mark [OF e(1) s(2) e(2) s(5), of array_frame] by blast
  have sh: "shifted s (eat s1)" by (rule shifted_trans [OF s1(1) shifted_eat])
  note f = shifted_fields [OF sh] shifted_good [OF sh s(1)] shifted_path [OF sh s(3)]
  obtain nd l where l: "path_at (eat s1) (list_c (eat s1)) = Inr nd" "index nd = i"
      "path_put (list_c (eat s1)) (nd\<lparr>index := k\<rparr>) (eat s1) = Inr ((eat s1)\<lparr>jlist := l\<rparr>)"
      "path_ok ((eat s1)\<lparr>jlist := l\<rparr>) (p @ [(n, k)])"
    using path_index [OF f(9) _ e(3)] f(1) s(4) by metis
  have len: "length l = 32" using l(4) by (simp add: path_ok_def)
  from that [OF s1(3,4,2) sh l] path_irrelevant(1) [OF len f(7)] path_irrelevant(2-4) [where s = "eat s1" and l = l] view_eat [OF s1(2)] f
  show ?thesis by simp
qed

lemma last_element_parsed:
  assumes v: "value_parsed env v t" and e: "spaced CHR '']'' e"
  shows "elements_parsed env [v] (t @ e)"
  unfolding elements_parsed_def
proof (intro allI impI)
  fix s p n i R
  assume s: "good s" "view s ((t @ e) @ R)" "nulled s = NUL" "path_ok s (p @ [(n, i)])" "0 \<le> i" "list_c s = int (length p)"
    "usehash env" "node_handler env = None" "length (val s) = Suc (jlen env)" "R \<noteq> []"
    and a: "\<forall>v\<in>set [v]. depth s + int (height v) \<le> 31 \<and> arrays_ok False v" "list_c s < depth s"
  have cl: "closes (e @ R)" by (rule spaced_closes [OF e]) simp
  obtain s2 s3 where s3: "json_enter s = (True, s2)" "runs env new_frame s2 s3" "good s3" "view s3 (e @ R)" "keeps s s3"
    "rendered s3 = rendered s @ flat (p @ [(n, i)]) v" "list_c s3 = list_c s" "depth s3 = depth s" "path_ok s3 (p @ [(n, i)])"
    by (rule invoked_value [OF v s(1) _ s(3,4) _ s(7,8,9) cl]) (use s a in simp_all)
  have c3: "list_c s3 = int (length p)" "length (val s3) = Suc (jlen env)" using s3(5,7) s by (simp_all add: keeps_def)
  obtain s4 nd l where s4: "pos s4 < jlen env" "\<forall>s'. runs env array_frame s4 s' \<longrightarrow> runs env array_frame s3 s'"
    "view s4 (CHR '']'' # R)" "shifted s3 (eat s4)" "path_at (eat s4) (list_c (eat s4)) = Inr nd" "index nd = i"
    "path_put (list_c (eat s4)) (nd\<lparr>index := -1\<rparr>) (eat s4) = Inr ((eat s4)\<lparr>jlist := l\<rparr>)"
    "path_ok ((eat s4)\<lparr>jlist := l\<rparr>) (p @ [(n, -1)])" "good ((eat s4)\<lparr>jlist := l\<rparr>)" "view ((eat s4)\<lparr>jlist := l\<rparr>) R"
    "keeps s3 ((eat s4)\<lparr>jlist := l\<rparr>)" "rendered ((eat s4)\<lparr>jlist := l\<rparr>) = rendered s3"
    "list_c (eat s4) = list_c s3" "depth (eat s4) = depth s3"
    by (rule element_mark [OF s3(3,4,9) c3 e s(10) order_refl])
  let ?f = "json_leave ((eat s4)\<lparr>jlist := l\<rparr>)"
  have st: "json_step env array_frame s4 = Some (Inr (Stop ((eat s4)\<lparr>jlist := l\<rparr>)))"
    using step_at [OF s4(3)] s4(5,7) by (simp add: json_case_def end_array_def checked_def Let_def res_bind_def)
  have "runs env array_frame s3 ?f" using s4(2) runs_stop [OF s4(1) st] by blast
  moreover have "ec s3 = -1" using s3(3) by (simp add: good_def)
  moreover have "keeps s ?f" using keeps_trans [OF s3(5) s4(11)] by simp
  moreover have "list_c ?f = list_c s" "depth ?f = depth s - 1" using s4(13,14) s3(7,8) by (simp_all add: json_leave_def)
  ultimately show "\<exists>s2 s3 s'. json_enter s = (True, s2) \<and> runs env new_frame s2 s3 \<and> ec s3 = -1 \<and> runs env array_frame s3 s'
        \<and> good s' \<and> view s' R \<and> keeps s s' \<and> rendered s' = rendered s @ flat_elements p n i [v]
        \<and> list_c s' = list_c s \<and> depth s' = depth s - 1 \<and> path_ok s' (p @ [(n, -1)])"
    using s3 s4(8-12) by (intro exI [of _ s2] exI [of _ s3] exI [of _ ?f]) simp
qed

lemma more_elements_parsed:
  assumes v: "value_parsed env v t" and k: "spaced CHR '','' k" and u: "elements_parsed env vs u"
  shows "elements_parsed env (v # vs) (t @ k @ u)"
  unfolding elements_parsed_def
proof (intro allI impI)
  fix s p n i R
  assume s: "good s" "view s ((t @ k @ u) @ R)" "nulled s = NUL" "path_ok s (p @ [(n, i)])" "0 \<le> i" "list_c s = int (length p)"
    "usehash env" "node_handler env = None" "length (val s) = Suc (jlen env)" "R \<noteq> []"
    and a: "\<forall>v\<in>set (v # vs). depth s + int (height v) \<le> 31 \<and> arrays_ok False v" "list_c s < depth s"
  have cl: "closes (k @ u @ R)" by (rule spaced_closes [OF k]) simp
  obtain s2 s3 where s3: "json_enter s = (True, s2)" "runs env new_frame s2 s3" "good s3" "view s3 (k @ u @ R)" "keeps s s3"
    "rendered s3 = rendered s @ flat (p @ [(n, i)]) v" "list_c s3 = list_c s" "depth s3 = depth s" "path_ok s3 (p @ [(n, i)])"
    by (rule invoked_value [OF v s(1) _ s(3,4) _ s(7,8,9) cl]) (use s a in simp_all)
  have c3: "list_c s3 = int (length p)" "length (val s3) = Suc (jlen env)" using s3(5,7) s by (simp_all add: keeps_def)
  have R: "u @ R \<noteq> []" and i1: "-1 \<le> i + 1" using s(5,10) by simp_all
  obtain s4 nd l where s4: "pos s4 < jlen env" "\<forall>s'. runs env array_frame s4 s' \<longrightarrow> runs env array_frame s3 s'"
    "view s4 (CHR '','' # u @ R)" "shifted s3 (eat s4)" "path_at (eat s4) (list_c (eat s4)) = Inr nd" "index nd = i"
    "path_put (list_c (eat s4)) (nd\<lparr>index := i + 1\<rparr>) (eat s4) = Inr ((eat s4)\<lparr>jlist := l\<rparr>)"
    "path_ok ((eat s4)\<lparr>jlist := l\<rparr>) (p @ [(n, i + 1)])" "good ((eat s4)\<lparr>jlist := l\<rparr>)" "view ((eat s4)\<lparr>jlist := l\<rparr>) (u @ R)"
    "keeps s3 ((eat s4)\<lparr>jlist := l\<rparr>)" "rendered ((eat s4)\<lparr>jlist := l\<rparr>) = rendered s3"
    "list_c (eat s4) = list_c s3" "depth (eat s4) = depth s3"
    by (rule element_mark [OF s3(3,4,9) c3 k R i1])
  let ?s5 = "(eat s4)\<lparr>jlist := l\<rparr>"
  have st: "json_step env array_frame s4 = Some (Inr (Invoke array_frame ?s5))"
    using step_at [OF s4(3)] s4(5,6,7) by (simp add: json_case_def comma_def checked_def Let_def res_bind_def)
  have k5: "keeps s ?s5" by (rule keeps_trans [OF s3(5) s4(11)])
  have "nulled ?s5 = NUL" "0 \<le> i + 1" "list_c ?s5 = int (length p)" "length (val ?s5) = Suc (jlen env)"
      "\<forall>v\<in>set vs. depth ?s5 + int (height v) \<le> 31 \<and> arrays_ok False v" "list_c ?s5 < depth ?s5"
    using s s3(7,8) s4(13,14) a k5 by (simp_all add: keeps_def)
  then obtain s6 s7 s' where s': "json_enter ?s5 = (True, s6)" "runs env new_frame s6 s7" "ec s7 = -1" "runs env array_frame s7 s'"
      "good s'" "view s' R" "keeps ?s5 s'" "rendered s' = rendered ?s5 @ flat_elements p n (i + 1) vs"
      "list_c s' = list_c ?s5" "depth s' = depth ?s5 - 1" "path_ok s' (p @ [(n, -1)])"
    using u [unfolded elements_parsed_def, rule_format, of ?s5 R p n "i + 1"] s4(8-10) s(7,8,10) by blast
  have "runs env array_frame s3 s'" using s4(2) runs_invoke [OF s4(1) st s'(1-4)] by blast
  moreover have "ec s3 = -1" using s3(3) by (simp add: good_def)
  moreover have "keeps s s'" by (rule keeps_trans [OF k5 s'(7)])
  moreover have "list_c s' = list_c s" "depth s' = depth s - 1" using s'(9,10) s4(13,14) s3(7,8) by simp_all
  moreover have "rendered s' = rendered s @ flat_elements p n i (v # vs)" using s'(8) s4(12) s3(6) by simp
  ultimately show "\<exists>s2 s3 s'. json_enter s = (True, s2) \<and> runs env new_frame s2 s3 \<and> ec s3 = -1 \<and> runs env array_frame s3 s'
        \<and> good s' \<and> view s' R \<and> keeps s s' \<and> rendered s' = rendered s @ flat_elements p n i (v # vs)
        \<and> list_c s' = list_c s \<and> depth s' = depth s - 1 \<and> path_ok s' (p @ [(n, -1)])"
    using s3(1,2) s'(5,6,11) by blast
qed

lemma documents_parsed:
  assumes "dec env = dc" "int (jlen env) \<le> INT_MAX"
  shows "spelled dc j t \<Longrightarrow> value_parsed env j t" "members dc ms t \<Longrightarrow> members_parsed env ms t"
    "elements dc vs t \<Longrightarrow> elements_parsed env vs t"
proof (induction rule: spelled_members_elements.inducts)
  case (sp_text t s)
  then show ?case using text_parsed [of t s env] assms by simp
qed (use assms(2) in \<open>simp_all only: white_parsed number_parsed truth_parsed null_parsed object_parsed array_parsed
      last_member_parsed more_members_parsed last_element_parsed more_elements_parsed\<close>)


section \<open>Properties\<close>

lemma plain_no_NUL: "plain s \<Longrightarrow> NUL \<notin> set s"
  by (simp add: plain_def)

lemma white_no_NUL: "\<not> white NUL"
  by (simp add: white_def)

lemma spaced_no_NUL: "spaced c t \<Longrightarrow> c \<noteq> NUL \<Longrightarrow> NUL \<notin> set t"
  using white_no_NUL by (auto simp: spaced_def list_all_iff)

lemma spelled_no_NUL:
  "spelled dc j t \<Longrightarrow> NUL \<notin> set t" "members dc ms t \<Longrightarrow> NUL \<notin> set t" "elements dc vs t \<Longrightarrow> NUL \<notin> set t"
proof (induction rule: spelled_members_elements.inducts)
  case (sp_number s r)
  then show ?case using json_number_chars by blast
next
  case (sp_white c j t)
  then show ?case using white_no_NUL by auto
next
  case (sp_text t s)
  then show ?case using quoted_no_NUL [of t s] by simp
qed (simp_all add: plain_no_NUL spaced_no_NUL)

lemma skip_white_all: "list_all white w \<Longrightarrow> drop i v = w @ [NUL] \<Longrightarrow> skip_white v i = i + length w"
proof (induction w arbitrary: i)
  case Nil
  then have "cat v i = NUL" using drop_eq_Cons(4) [of i v NUL "[]"] by simp
  then show ?case by (simp add: skip_white.simps)
next
  case (Cons c w)
  have "cat v i = c" "drop (Suc i) v = w @ [NUL]" using Cons.prems(2) drop_eq_Cons [of i v c "w @ [NUL]"] by simp_all
  moreover have "isspace c" using Cons.prems(1) by (auto simp: white_def isspace_def)
  ultimately show ?case using Cons by (simp add: skip_white.simps [of v i])
qed

lemma root_ready:
  assumes "length (jlist s) = 32" "nulled s = NUL" "usehash env" "node_handler env = None" "length v = Suc (jlen env)"
  obtains s1 where "json_enter (json_root env v s) = (True, s1)" "ready env [] v s1" "nulled s1 = NUL" "depth s1 = 1"
    "rendered s1 = []" "list_c s1 = 0"
proof -
  let ?r = "s\<lparr>val := v, pos := 0, errm := [], ec := -1, depth := 0, list_c := -1,
                 jlist := map (\<lambda>n. n\<lparr>index := -1, name := None\<rparr>) (jlist s), node_c := 0, node_tot := 0, calls := []\<rparr>"
  let ?r1 = "?r\<lparr>incby := 32, node_tot := 32, nodes := replicate 32 empty_node\<rparr>"
  have r: "json_root env v s = ?r1"
    using assms(3) by (simp add: json_root_def vely_add_json_def Let_def VV_JSON_NODES_def)
  let ?s1 = "?r1\<lparr>depth := 1, list_c := 0\<rparr>"
  have "json_enter (json_root env v s) = (True, ?s1)" unfolding r by (simp add: json_enter_def VV_JSON_MAX_NESTED_def)
  moreover have "good ?s1" using assms(1) by (simp add: good_def room_def)
  moreover have "path_ok ?s1 []" using assms(1) by (simp add: path_ok_def)
  moreover have "view ?s1 v" using assms(2) by (simp add: view_def)
  ultimately show ?thesis using that [of ?s1] assms by (simp add: ready_def rendered_def)
qed

lemma document_parsed:
  assumes j: "spelled (dec env) j t" "list_all white w" "w = [] \<or> (\<exists>ms. j = Object ms)" "height j \<le> 31" "arrays_ok False j"
    and s: "length (jlist s) = 32" "nulled s = NUL" and env: "usehash env" "node_handler env = None" "jlen env = length (t @ w)"
      "int (jlen env) \<le> INT_MAX"
    and f: "jlen env < fuel"
  obtains s' where "json_parse fuel env (t @ w @ [NUL]) s = Some (Inr s')" "ec s' = -1" "rendered s' = flat [] j"
    "0 \<le> node_c s'" "node_c s' \<le> int (length (nodes s'))"
proof -
  have "length (t @ w @ [NUL]) = Suc (jlen env)" using env(3) by simp
  from root_ready [OF s env(1,2) this] obtain s1 where
    s1: "json_enter (json_root env (t @ w @ [NUL]) s) = (True, s1)" "ready env [] (t @ w @ [NUL]) s1" "nulled s1 = NUL"
      "depth s1 = 1" "rendered s1 = []" "list_c s1 = 0" by blast
  have cl: "closes (w @ [NUL])" using j(2) by (cases w) (auto simp: closes_def)
  have "value_parsed env j t" by (rule documents_parsed(1) [OF refl env(4) j(1)])
  moreover have "depth s1 + int (height j) \<le> 32" "list_c s1 < depth s1" "arrays_ok ([] \<noteq> [] \<and> snd (last []) = -1) j"
    using s1(4,6) j(4,5) by simp_all
  ultimately obtain s2 where s2: "runs env new_frame s1 s2" "done_value [] (w @ [NUL]) (flat [] j) s1 s2" "closed j s2"
    using s1(2,3) cl unfolding value_parsed_def by blast
  have d: "good s2" "view s2 (w @ [NUL])" "keeps s1 s2" "rendered s2 = flat [] j" using s2(2) s1(5) by (simp_all add: done_value_def)
  have n: "nulled s2 = NUL"
  proof (cases w)
    case Nil
    then show ?thesis using d(2) by (auto simp: view_def split: if_splits)
  next
    case (Cons c w')
    then show ?thesis using j(3) s2(3) by (auto simp: closed_def)
  qed
  have dr: "drop (pos s2) (val s2) = w @ [NUL]" by (rule view_drop [OF d(2) n])
  have sk: "skip_white (val s2) (pos s2) = pos s2 + length w" by (rule skip_white_all [OF j(2) dr])
  have "length (val s2) = Suc (jlen env)" using d(3) s1(2) by (simp add: keeps_def ready_def)
  then have at: "pos s2 + length w = jlen env" using arg_cong [OF dr, of length] d(2) by (simp add: view_def)
  obtain k where k: "json_loop k env new_frame s1 = Some (Inr s2)" using s2(1) by (auto simp: runs_def)
  have "jlen env - pos s1 < fuel" using f by simp
  from loop_returns [OF this, of new_frame] obtain r where r: "json_loop fuel env new_frame s1 = Some r" by blast
  have "json_loop (max k fuel) env new_frame s1 = Some (Inr s2)" "json_loop (max k fuel) env new_frame s1 = Some r"
    by (rule loop_mono [OF k], simp) (rule loop_mono [OF r], simp)
  then have r2: "json_loop fuel env new_frame s1 = Some (Inr s2)" using r by simp
  have ec: "ec s2 = -1" using d(1) by (simp add: good_def)
  let ?s3 = "s2\<lparr>pos := pos s2 + length w\<rparr>"
  have "json_parse fuel env (t @ w @ [NUL]) s = Some (Inr ?s3)"
    using s1(1) r2 sk at ec by (simp add: json_parse_def Let_def)
  moreover have "render ?s3 = render s2" by (simp add: render_def fun_eq_iff)
  then have "rendered ?s3 = flat [] j" using d(4) by (simp add: rendered_def)
  moreover have "0 \<le> node_c s2" "node_c s2 \<le> int (length (nodes s2))" using d(1) by (simp_all add: good_def room_def)
  ultimately show ?thesis using that [of ?s3] ec by simp
qed

text \<open>The table of names: the last node of a name.\<close>

fun named :: "string \<Rightarrow> nat \<Rightarrow> vely_jsonn list \<Rightarrow> (nat \<times> nat) option \<Rightarrow> (nat \<times> nat) option" where
  "named k i [] r = r"
| "named k i (n # ns) r = named k (i + 1) ns (if nname n = k then Some (i, i) else r)"

lemma add_json_loop_ok:
  "hash_ok h \<Longrightarrow> \<not> process h \<Longrightarrow> \<exists>h'. add_json_loop ns i h m = Inr (h', m) \<and> hash_ok h'
     \<and> (\<forall>k. entry h' k = named k i ns (entry h k))"
proof (induction ns arbitrary: i h)
  case (Cons n ns)
  obtain old st okey h1 where a: "add_item h (hash_of h (snd (i, nname n))) (i, nname n) i = ((old, st, okey), h1)"
    by (metis surj_pair)
  note o = add_item_ok [OF Cons.prems(1) a]
  obtain h' where h': "add_json_loop ns (i + 1) h1 m = Inr (h', m)" "hash_ok h'" "\<forall>k. entry h' k = named k (i + 1) ns (entry h1 k)"
    using Cons.IH [of h1 "i + 1"] o Cons.prems(2) by auto
  have "entry h1 k = (if nname n = k then Some (i, i) else entry h k)" for k using o by simp
  then show ?case using a h' Cons.prems(2) by (simp add: vely_add_hash_def res_bind_def hash_of_def)
qed simp

lemma add_json_hash_ok:
  "\<exists>h. vely_add_json_hash supply d m = Inr (d\<lparr>jhash := Some h\<rparr>, m) \<and> hash_ok h
     \<and> (\<forall>k. entry h k = named k 0 (take (nat (jnode_c d)) (jnodes d)) None)"
proof -
  let ?h = "vely_create_hash supply (if jnode_c d > maxhash d then maxhash d else jnode_c d) None False"
  have "hash_ok ?h" "\<not> process ?h" "\<forall>k. entry ?h k = None" using create_ok by simp_all
  then show ?thesis
    using add_json_loop_ok [of ?h "take (nat (jnode_c d)) (jnodes d)" 0 m]
    by (auto simp: vely_add_json_hash_def res_bind_def Let_def)
qed

text \<open>C2: a document of the part of JSON that the parser deals with is parsed to its end without error, with or without
  decoding, and the nodes recorded are exactly those of the document, in order, each with its normalized name, its type and
  its text.  This part has values that are strings with any escapes, numbers, truth values, null, objects with at least one
  member, and arrays with at least one element; names have no escapes, an array is the value of a name, and so neither an
  element of an array nor the whole document, the nesting is less than 32 deep, and the text has at most 2147483647 bytes.
  White space may be anywhere, after the document only if it is an object.  The null character and U+FEFF are not in a string.
  What the parser makes of other documents is in the lemmas \<open>json_grammar_gaps\<close>, \<open>json_root_array\<close>, \<open>json_nested_arrays\<close>,
  \<open>json_escaped_name\<close> and \<open>json_left_over\<close>.\<close>

theorem json_document:
  assumes "spelled dc j t" "list_all white w" "w = [] \<or> (\<exists>ms. j = Object ms)" "height j \<le> 31" "arrays_ok False j"
    "length (jlist s) = 32" "nulled s = NUL" "jusehash d" "jhandler d = None" "int (length (t @ w)) \<le> INT_MAX"
  shows "\<exists>d' s'. vely_json_new supply d (t @ w @ [NUL]) (-1) dc s m = Some (Inr (-1, d', s', m))
    \<and> rendered s' = flat [] j \<and> jnodes d' = nodes s' \<and> jnode_c d' = node_c s'"
proof -
  let ?env = "\<lparr>usehash = jusehash d, node_handler = jhandler d, dec = dc, jlen = length (t @ w)\<rparr>"
  have "NUL \<notin> set w" using assms(2) by (induction w) (auto simp: white_def)
  then have "NUL \<notin> set (t @ w)" using spelled_no_NUL(1) [OF assms(1)] by simp
  then have len: "length (cstr (t @ w @ [NUL])) = length (t @ w)" using cstr_terminated [of "t @ w" "[]"] by simp
  obtain s' where s': "json_parse (length (t @ w) + 1) ?env (t @ w @ [NUL]) s = Some (Inr s')" "ec s' = -1" "rendered s' = flat [] j"
  proof (rule document_parsed [OF _ assms(2-7)])
    show "spelled (dec ?env) j t" using assms(1) by simp
    show "usehash ?env" "node_handler ?env = None" "int (jlen ?env) \<le> INT_MAX" using assms(8-10) by simp_all
    show "jlen ?env = length (t @ w)" "jlen ?env < length (t @ w) + 1" by simp_all
  qed
  let ?d = "d\<lparr>jnodes := nodes s', jnode_c := node_c s'\<rparr>"
  obtain h where "vely_add_json_hash supply ?d m = Inr (?d\<lparr>jhash := Some h\<rparr>, m)" using add_json_hash_ok by blast
  then have "vely_json_new supply d (t @ w @ [NUL]) (-1) dc s m = Some (Inr (-1, ?d\<lparr>jhash := Some h\<rparr>, s', m))"
    using assms(8) unfolding vely_json_new_def Let_def if_P [OF refl] len s'(1)
    by (simp add: res_bind_def s'(2))
  then show ?thesis using s'(3) by (intro exI [of _ "?d\<lparr>jhash := Some h\<rparr>"] exI [of _ s']) simp
qed

text \<open>The static variables when the process starts.\<close>

definition json_start :: jp where
  "json_start = \<lparr>val = [], pos = 0,
     jlist = replicate VV_JSON_MAX_NESTED \<lparr>name = None, name_len = 0, index = 0, index_len = 0\<rparr>,
     list_c = -1, node_tot = 0, node_c = 0, nodes = [], incby = 0, nulled = NUL, errm = [], ec = -1,
     depth = 0, calls = []\<rparr>"

lemma small_document:
  "spelled True (Object [(''a'', Array [Number ''1'' False, Text (CHR 0x0A # utf8_bytes 0xE9)])])
     (''{'' @ [CHR 0x22] @ ''a'' @ [CHR 0x22] @ '':[1, '' @ [CHR 0x22, CHR 0x5C, CHR ''n'', CHR 0x5C] @ ''u00e9'' @ [CHR 0x22] @ '']}'')"
proof -
  have sp: "spaced c [c]" for c by (simp add: spaced_def)
  have "json_number ''1'' False"
    unfolding json_number_def
    by (intro exI [of _ "[]"] exI [of _ "''1''"])
      (simp add: digits_def fraction_def exponent_def isdigit_def uchar_def)
  then have n: "spelled True (Number ''1'' False) ''1''" by (rule sp_number)
  have "four_digits ''00e9'' 0xE9" unfolding four_digits_def
    by (intro exI [of _ "CHR ''0''"] exI [of _ "CHR ''e''"] exI [of _ "CHR ''9''"] exI [of _ 0] exI [of _ 14] exI [of _ 9] conjI)
      (simp_all add: hex_digit_def)
  then have "escape_of (CHR 0x5C # CHR ''u'' # ''00e9'') (utf8_bytes 0xE9)" by (rule one_value) (simp add: code_point_def)
  then have u: "quoted_text ((CHR 0x5C # CHR ''u'' # ''00e9'') @ []) (utf8_bytes 0xE9 @ [])" using no_more by (rule one_escape)
  have "escape_of [CHR 0x5C, CHR ''n''] [CHR 0x0A]" by (rule one_letter) simp
  from sp_text [OF one_escape [OF this u], of True]
  have "spelled True (Text (CHR 0x0A # utf8_bytes 0xE9)) ([CHR 0x22, CHR 0x5C, CHR ''n'', CHR 0x5C] @ ''u00e9'' @ [CHR 0x22])" by simp
  then have "spelled True (Text (CHR 0x0A # utf8_bytes 0xE9)) (CHR '' '' # [CHR 0x22, CHR 0x5C, CHR ''n'', CHR 0x5C] @ ''u00e9'' @ [CHR 0x22])"
    by (rule sp_white [rotated]) (simp add: white_def)
  from more_elements [OF n sp last_element [OF this sp]]
  have a: "spelled True (Array [Number ''1'' False, Text (CHR 0x0A # utf8_bytes 0xE9)])
      (CHR ''['' # ''1'' @ '','' @ (CHR '' '' # [CHR 0x22, CHR 0x5C, CHR ''n'', CHR 0x5C] @ ''u00e9'' @ [CHR 0x22]) @ '']'')"
    by (rule sp_array)
  have "plain ''a''" by (simp add: plain_def)
  from sp_object [OF last_member [OF sp this sp a sp]] show ?thesis by simp
qed

theorem json_document_witness:
  "\<exists>d' s'. vely_json_new 0 (vely_set_json (-1) True None)
      ((''{'' @ [CHR 0x22] @ ''a'' @ [CHR 0x22] @ '':[1, '' @ [CHR 0x22, CHR 0x5C, CHR ''n'', CHR 0x5C] @ ''u00e9'' @ [CHR 0x22] @ '']}'')
        @ '' '' @ [NUL]) (-1) True json_start mem_start
       = Some (Inr (-1, d', s', mem_start))
    \<and> rendered s' = flat [] (Object [(''a'', Array [Number ''1'' False, Text (CHR 0x0A # utf8_bytes 0xE9)])])
    \<and> jnodes d' = nodes s' \<and> jnode_c d' = node_c s'"
  by (rule json_document [OF small_document])
    (simp_all add: white_def json_start_def VV_JSON_MAX_NESTED_def vely_set_json_def INT_MAX_def)

lemma named_last:
  "if filter (\<lambda>n. nname n = k) ns = [] then named k i ns r = r
   else \<exists>x<length ns. named k i ns r = Some (i + x, i + x) \<and> ns ! x = last (filter (\<lambda>n. nname n = k) ns)"
proof (induction ns arbitrary: i r)
  case (Cons n ns)
  let ?r = "if nname n = k then Some (i, i) else r"
  show ?case
  proof (cases "filter (\<lambda>n. nname n = k) ns = []")
    case True
    then show ?thesis using Cons.IH [of "i + 1" ?r] by (auto intro!: exI [of _ 0])
  next
    case False
    then obtain x where "x < length ns" "named k (i + 1) ns ?r = Some (i + 1 + x, i + 1 + x)"
        "ns ! x = last (filter (\<lambda>n. nname n = k) ns)"
      using Cons.IH [of "i + 1" ?r] by auto
    then show ?thesis using False by (auto intro!: exI [of _ "Suc x"])
  qed
qed simp

text \<open>C19: once its nodes are in the table, a document is read by name: a name that no node has is
  reported as not existing, and for any other the last node with that name is given.\<close>

theorem json_lookup:
  assumes "jusehash d" "jnode_c d \<le> int (length (jnodes d))"
  shows "\<exists>d1 d2 r. vely_add_json_hash supply d m = Inr (d1, m) \<and> vely_read_json d1 k None = Inr (r, d2)
    \<and> (let ns = filter (\<lambda>n. nname n = k) (take (nat (jnode_c d)) (jnodes d)) in
       r = (if ns = [] then (VV_ERR_EXIST, None) else (VV_OKAY, Some (last ns))))"
proof -
  let ?ns = "take (nat (jnode_c d)) (jnodes d)" and ?f = "\<lambda>n. nname n = k"
  obtain h where h: "vely_add_json_hash supply d m = Inr (d\<lparr>jhash := Some h\<rparr>, m)" "hash_ok h"
      "entry h k = named k 0 ?ns None"
    using add_json_hash_ok by blast
  obtain v st okey h1 where f: "vely_find_hash h k None False = ((v, st, okey), h1)" by (metis surj_pair)
  note o = find_hash_ok [OF h(2) f]
  show ?thesis
  proof (cases "filter ?f ?ns = []")
    case True
    then have "entry h k = None" using named_last [of k ?ns 0 None] h(3) by simp
    then have "st = VV_ERR_EXIST" using o by simp
    then show ?thesis using h(1) f assms(1) True by (simp add: vely_read_json_def Let_def)
  next
    case False
    then obtain x where x: "x < length ?ns" "entry h k = Some (x, x)" "?ns ! x = last (filter ?f ?ns)"
      using named_last [of k ?ns 0 None] h(3) by auto
    then have "st = VV_OKAY" "v = x" using o by simp_all
    moreover have "jnodes d ! x = last (filter ?f ?ns)" "x < length (jnodes d)" using x by simp_all
    ultimately show ?thesis using h(1) f assms(1) False
      by (simp add: vely_read_json_def Let_def VV_OKAY_def VV_ERR_EXIST_def)
  qed
qed

definition two_nodes :: vely_json where
  "two_nodes = (vely_set_json 10 True None)\<lparr>jnodes := [\<lparr>nname = ''a'', ntype = VV_JSON_TYPE_NUMBER, nstr = Some 1\<rparr>,
      \<lparr>nname = ''a'', ntype = VV_JSON_TYPE_NULL, nstr = Some 5\<rparr>], jnode_c := 2\<rparr>"

theorem json_lookup_witness:
  "\<exists>d1 d2 r. vely_add_json_hash 0 two_nodes mem_start = Inr (d1, mem_start) \<and> vely_read_json d1 ''a'' None = Inr (r, d2)
    \<and> (let ns = filter (\<lambda>n. nname n = ''a'') (take (nat (jnode_c two_nodes)) (jnodes two_nodes)) in
       r = (if ns = [] then (VV_ERR_EXIST, None) else (VV_OKAY, Some (last ns))))"
  by (rule json_lookup) (simp_all add: two_nodes_def vely_set_json_def Let_def)

text \<open>Reading one node after another.\<close>

interpretation node_list: enumerator "\<lambda>d. jusehash d \<and> 0 \<le> jdnext d \<and> jnode_c d \<le> int (length (jnodes d))"
  "\<lambda>d. drop (nat (jdnext d)) (take (nat (jnode_c d)) (jnodes d))" "\<lambda>d. Inr (vely_next_json d)" Some None
proof unfold_locales
  fix d :: vely_json and e es
  assume d: "jusehash d \<and> 0 \<le> jdnext d \<and> jnode_c d \<le> int (length (jnodes d))"
    and r: "drop (nat (jdnext d)) (take (nat (jnode_c d)) (jnodes d)) = e # es"
  have lt: "jdnext d < jnode_c d"
  proof (rule ccontr)
    assume "\<not> jdnext d < jnode_c d"
    then have "length (take (nat (jnode_c d)) (jnodes d)) \<le> nat (jdnext d)" by simp
    then show False using r by (metis drop_all list.distinct(1))
  qed
  have e: "take (nat (jnode_c d)) (jnodes d) ! nat (jdnext d) = e" "drop (Suc (nat (jdnext d))) (take (nat (jnode_c d)) (jnodes d)) = es"
    using r by (metis Cons_nth_drop_Suc drop_all linorder_not_le list.distinct(1) list.inject)+
  show "\<exists>d'. Inr (vely_next_json d) = Inr (Some e, d') \<and> (jusehash d' \<and> 0 \<le> jdnext d' \<and> jnode_c d' \<le> int (length (jnodes d')))
      \<and> drop (nat (jdnext d')) (take (nat (jnode_c d')) (jnodes d')) = es"
    using d lt e by (simp add: vely_next_json_def nat_add_distrib)
next
  fix d :: vely_json
  assume "jusehash d \<and> 0 \<le> jdnext d \<and> jnode_c d \<le> int (length (jnodes d))"
    "drop (nat (jdnext d)) (take (nat (jnode_c d)) (jnodes d)) = []"
  then show "\<exists>d'. Inr (vely_next_json d) = Inr (None, d') \<and> (jusehash d' \<and> 0 \<le> jdnext d' \<and> jnode_c d' \<le> int (length (jnodes d')))
      \<and> drop (nat (jdnext d')) (take (nat (jnode_c d')) (jnodes d')) = []"
    by (auto simp: vely_next_json_def min_def split: if_splits)
qed


text \<open>Reading from the start gives every node of the document, in the order of the document, and
  then reports, as often as it is asked, that there are no more.\<close>

lemma json_traverse:
  assumes "jusehash d" "jnode_c d \<le> int (length (jnodes d))"
  shows "\<exists>d'. outputs (\<lambda>d. Inr (vely_next_json d)) (nat (jnode_c d) + n) (vely_begin_json d)
    = Inr (map Some (take (nat (jnode_c d)) (jnodes d)) @ replicate n None, d')"
proof -
  have "length (take (nat (jnode_c d)) (jnodes d)) = nat (jnode_c d)" using assms(2) by simp
  then show ?thesis
    using node_list.visits [of "vely_begin_json d" n] assms by (auto simp: vely_begin_json_def)
qed

text \<open>A document that is an array makes the parser write before the start of its list of names,
  whatever the array holds.\<close>

lemma json_root_array:
  assumes "nulled s = NUL"
  shows "vely_json_new memory d (CHR ''['' # r) (-1) dc s m = Some (Inl Out_of_bounds)"
proof -
  let ?v = "CHR ''['' # r"
  let ?env = "\<lparr>usehash = jusehash d, node_handler = jhandler d, dec = dc, jlen = length (cstr ?v)\<rparr>"
  obtain s1 where s1: "json_enter (json_root ?env ?v s) = (True, s1)" "pos s1 = 0" "val s1 = ?v" "nulled s1 = NUL" "list_c s1 = 0"
    using assms by (cases "jusehash d") (auto simp: json_enter_def json_root_def Let_def VV_JSON_MAX_NESTED_def vely_add_json_def)
  have n: "json_next s1 = (CHR ''['', s1)" using s1 by (simp add: json_next_def)
  have l: "0 < jlen ?env" by (simp add: cstr_def)
  have "json_step ?env new_frame s1 = Some (Inl Out_of_bounds)"
    using s1(5) n by (simp add: json_step_def json_case_def begin_array_def checked_def new_frame_def Let_def path_at_def res_bind_def)
  then have "json_loop (length (cstr ?v) + 1) ?env new_frame s1 = Some (Inl Out_of_bounds)" using l s1(2) by simp
  then have "json_parse (length (cstr ?v) + 1) ?env ?v s = Some (Inl Out_of_bounds)"
    using s1(1) by (simp only: json_parse_def prod.case bool.case option.case sum.case)
  then show ?thesis unfolding vely_json_new_def Let_def if_P [OF refl] by (simp only: option.map res_bind_def sum.case)
qed

lemma json_root_array_witness:
  "vely_json_new 0 (vely_set_json (-1) True None) (CHR ''['' # ''1]'' @ [NUL]) (-1) True json_start mem_start
     = Some (Inl Out_of_bounds)"
  by (rule json_root_array) (simp add: json_start_def)

text \<open>A text parsed from a given state: the place of the error and the nodes.\<close>

definition parsed :: "jp \<Rightarrow> string \<Rightarrow> (int \<times> (string \<times> int \<times> string) list) option" where
  "parsed s t =
     (case json_parse (length t + 1) \<lparr>usehash = True, node_handler = None, dec = True, jlen = length t\<rparr> (t @ [NUL]) s of
        Some (Inr s1) \<Rightarrow> Some (ec s1, rendered s1) | _ \<Rightarrow> None)"

abbreviation dq :: string where "dq \<equiv> [CHR 0x22]"

text \<open>The grammar accepted is not that of JSON.  Accepted are a lone end of an object or of an array, a
  value after a colon without a name, and an object or an array that is not ended; refused are an
  empty object, an empty array as a value, and white space after a document that is a number.\<close>

lemma json_grammar_gaps:
  "map (\<lambda>t. map_option fst (parsed json_start t))
     [''}'', '']'', '':1'', ''{'' @ dq @ ''a'' @ dq @ '':1'', ''{'' @ dq @ ''a'' @ dq @ '':[1,2'']
       = replicate 5 (Some (-1))
   \<and> map (\<lambda>t. map_option fst (parsed json_start t)) [''{}'', ''{'' @ dq @ ''a'' @ dq @ '':[]}'', ''1 '']
       = [Some 1, Some 7, Some 1]"
  by code_simp

text \<open>Elements of arrays inside an array get the same normalized name.\<close>

lemma json_nested_arrays:
  "parsed json_start (''{'' @ dq @ ''a'' @ dq @ '':[[1],[2]]}'')
     = Some (-1, [(dq @ ''a'' @ dq @ ''[1]'', VV_JSON_TYPE_NUMBER, ''1''), (dq @ ''a'' @ dq @ ''[1]'', VV_JSON_TYPE_NUMBER, ''2'')])"
  by code_simp

text \<open>What a first document leaves for the next.\<close>

definition parsed_after :: "string \<Rightarrow> string \<Rightarrow> (int \<times> (string \<times> int \<times> string) list) option" where
  "parsed_after t u =
     (case json_parse (length t + 1) \<lparr>usehash = True, node_handler = None, dec = True, jlen = length t\<rparr> (t @ [NUL]) json_start of
        Some (Inr s1) \<Rightarrow> parsed s1 u | _ \<Rightarrow> None)"

text \<open>A parse depends on the document before it: the character after a last number stays for the next
  document, whose first character is then not seen, so that a well-formed document is refused;
  and a value without a name, accepted at first, is read through a null pointer after a document
  that had a name there.\<close>

lemma json_left_over:
  "map_option fst (parsed json_start (''{'' @ dq @ ''a'' @ dq @ '':1}'')) = Some (-1)
   \<and> map_option fst (parsed_after ''1 '' (''{'' @ dq @ ''a'' @ dq @ '':1}'')) = Some 4
   \<and> map_option fst (parsed json_start '':1'') = Some (-1)
   \<and> parsed_after (''{'' @ dq @ ''abc'' @ dq @ '':1}'') '':1'' = None"
  by code_simp

text \<open>The length of a name with an escape is that of its undecoded text: the null byte that ends
  the decoded name gets into the normalized name, which C then reads only up to it.\<close>

lemma json_escaped_name:
  "map_option (map (\<lambda>(n, tp, v). cstr n) \<circ> snd) (parsed json_start (''{'' @ dq @ [CHR 0x5C] @ ''tb'' @ dq @ '':1}''))
     = Some [dq @ [CHR 0x09] @ ''b'']"
  by code_simp

end
