(* ===== verification/SqlText.thy ===== *)
theory SqlText
  imports Strings
begin

text \<open>
  The text of SQL statements (db.c): a statement built at run time from a format with
  quoted \<^verbatim>\<open>'%s'\<close> arguments (\<^verbatim>\<open>vely_make_SQL\<close>, and \<^verbatim>\<open>vely_lite_escape\<close> of lite.c),
  the text of a prepared statement (\<^verbatim>\<open>vely_db_prep_text\<close>), and the first word of a statement
  (\<^verbatim>\<open>vely_firstword\<close>).

  Buffers are modelled with their bytes; \<open>x\<close> is whatever byte is in memory that was just
  allocated.  The routine that escapes is an argument here; theory SqlRun has the choice of it by the type of the
  connection, and the connection that it needs.
\<close>

definition VV_DB_MARIADB :: int where "VV_DB_MARIADB = 0"
definition VV_DB_POSTGRES :: int where "VV_DB_POSTGRES = 1"
definition VV_DB_SQLITE :: int where "VV_DB_SQLITE = 2"

abbreviation quote :: char where "quote \<equiv> CHR 0x27"
abbreviation backslash :: char where "backslash \<equiv> CHR 0x5C"
abbreviation quoted_arg :: string where "quoted_arg \<equiv> [CHR 0x27, CHR ''%'', CHR ''s'', CHR 0x27]"

section \<open>Escaping\<close>

text \<open>An escaping routine is given the text, the buffer for the result and the length of the
  text; it returns a status, the buffer and the length of the result.\<close>

type_synonym escape_fn = "string \<Rightarrow> string \<Rightarrow> nat \<Rightarrow> (int \<times> string \<times> int) res option"

definition vely_lite_escape :: escape_fn where
  "vely_lite_escape from tobuf len =
     (case memput tobuf 0 (take (len + 1) (from @ [NUL])) of
        Inl e \<Rightarrow> Some (Inl e)
      | Inr to1 \<Rightarrow>
          run_bind (vely_replace_string to1 (2 * int len + 1) [backslash] [backslash, backslash] 1 1)
            (\<lambda>(to2, n2, _). if n2 = -1 then Some (Inr (1, to2, int len))
             else run_bind (vely_replace_string to2 (2 * int len + 1) [quote] [quote, quote] 1 1)
               (\<lambda>(to3, n3, _). Some (Inr (if n3 = -1 then 1 else 0, to3, n3)))))"

section \<open>Building a statement\<close>

text \<open>The escaped argument is trimmed where it is: the bytes, and the offset of its text.\<close>

definition trim_arg :: "string \<Rightarrow> nat \<Rightarrow> (string \<times> nat \<times> nat) res" where
  "trim_arg arg n =
     (let len_of = back_spaces arg 0 n in
      res_bind (if n \<noteq> 0 then memput arg len_of [NUL] else Inr arg) (\<lambda>arg1.
        Inr (arg1, skip_spaces arg1 0, len_of)))"

text \<open>The loop over the arguments, each a string or a null pointer, with the buffer \<open>*dest\<close>, whose
  length is \<open>destSize\<close>, the offset \<open>cur\<close> (\<^verbatim>\<open>curr\<close>) and the countdown \<open>num_of_percents\<close>.\<close>

fun sql_args :: "escape_fn \<Rightarrow> char \<Rightarrow> string option list \<Rightarrow> string \<Rightarrow> nat \<Rightarrow> int \<Rightarrow> (string \<times> int) res option" where
  "sql_args esc x [] dest cur percents = Some (Inr (dest, percents))"
| "sql_args esc x (None # args) dest cur percents = sql_args esc x args dest cur percents"
| "sql_args esc x (Some a # args) dest cur percents =
     (if percents - 1 < 0 then Some (Inl (Report_error ''Too many non-NULL input parameters''))
      else run_bind (esc a (replicate (2 * length a + 1) x) (length a)) (\<lambda>(st, arg, n).
        if st \<noteq> 0 then Some (Inl (Report_error ''Argument cannot be escaped''))
        else run_bind (Some (trim_arg arg (nat n))) (\<lambda>(arg1, off, len_of).
          let dest1 = dest @ replicate (len_of + 1) x in
          run_bind (vely_replace_string (drop cur dest1) (int (length dest1) - 1 - (int cur + 1)) ''%s''
                      (cstr (drop off arg1)) 0 1) (\<lambda>(tl, r, lst).
            if r = -1 then Some (Inl (Report_error ''SQL too large''))
            else sql_args esc x args (take cur dest1 @ tl)
                   (case lst of Some l \<Rightarrow> cur + l | None \<Rightarrow> cur) (percents - 1)))))"

definition vely_make_SQL :: "escape_fn \<Rightarrow> char \<Rightarrow> string option list \<Rightarrow> string \<Rightarrow> string res option" where
  "vely_make_SQL esc x args format =
     (let count_percents = vely_count_substring format (Some ''%s'') 1;
          count_single_quote = vely_count_substring format (Some [quote]) 1;
          numPlaceWithQuotes = vely_count_substring format (Some quoted_arg) 1 in
      if count_single_quote mod 2 \<noteq> 0
      then Some (Inl (Report_error ''Incorrect number of single quotes''))
      else if numPlaceWithQuotes \<noteq> count_percents
      then Some (Inl (Report_error ''All arguments in SQL statement must be quoted''))
      else run_bind (sql_args esc x args (format @ [NUL]) 0 (int count_percents)) (\<lambda>(dest, percents).
        if percents \<noteq> 0 then Some (Inl (Report_error ''Too few non-NULL input parameters''))
        else Some (Inr dest)))"

section \<open>Prepared statements\<close>

text \<open>What takes the place of the \<open>p\<close>-th argument.\<close>

definition marker :: "int \<Rightarrow> nat \<Rightarrow> string" where
  "marker db_type p =
     (if db_type = VV_DB_MARIADB \<or> db_type = VV_DB_SQLITE then ''?''
      else if db_type = VV_DB_POSTGRES then ''$'' @ decimal_digits p
      else [])"

text \<open>The loop writes at the offset \<open>n\<close> of the new buffer.\<close>

function prep_loop :: "int \<Rightarrow> string \<Rightarrow> string \<Rightarrow> nat \<Rightarrow> nat \<Rightarrow> string res" where
  "prep_loop db_type t buf n p =
     (case find_str True t quoted_arg of
        None \<Rightarrow> memput buf n (t @ [NUL])
      | Some f \<Rightarrow>
          res_bind (memput buf n (take f t)) (\<lambda>buf1.
            let k = if db_type = VV_DB_MARIADB \<or> db_type = VV_DB_SQLITE \<or> db_type = VV_DB_POSTGRES then n + f else n in
            res_bind (memput buf1 k (marker db_type p @ [NUL])) (\<lambda>buf2.
              if p + 1 > 65535 then Inr buf2
              else prep_loop db_type (drop (f + 4) t) buf2 (k + length (marker db_type p)) (p + 1))))"
  by pat_completeness auto
termination
  by (relation "measure (\<lambda>(db, t, buf, n, p). length t)") (auto dest: find_str_progress)

declare prep_loop.simps [simp del]

text \<open>The result is the statement itself if it has no arguments.\<close>

definition vely_db_prep_text :: "int \<Rightarrow> char \<Rightarrow> string \<Rightarrow> string res" where
  "vely_db_prep_text db_type x t =
     (let tot = vely_count_substring t (Some quoted_arg) 0; len = length t in
      if tot = 0 then Inr (t @ [NUL])
      else prep_loop db_type t
        (replicate (if db_type = VV_DB_MARIADB \<or> db_type = VV_DB_SQLITE then len + 1
                    else if db_type = VV_DB_POSTGRES then len + tot * 6 + 1 else 1) x) 0 1)"

section \<open>The first word\<close>

definition vely_firstword :: "string \<Rightarrow> string \<Rightarrow> bool" where
  "vely_firstword w s =
     (let mbeg = dropWhile (\<lambda>c. isspace c \<or> c = CHR 0x22) s; l = length w in
      starts False mbeg w \<and> (cat mbeg l = NUL \<or> cat mbeg l = CHR 0x22 \<or> isspace (cat mbeg l)))"

section \<open>Escaping: the reference\<close>

text \<open>Every backslash and every single quote twice.\<close>

definition doubled :: "char set \<Rightarrow> string \<Rightarrow> string" where
  "doubled C v = concat (map (\<lambda>c. if c \<in> C then [c, c] else [c]) v)"

definition escaped :: "string \<Rightarrow> string" where
  "escaped v = doubled {backslash, quote} v"

lemma doubled_simps [simp]:
  "doubled C [] = []" "doubled C (c # v) = (if c \<in> C then [c, c] else [c]) @ doubled C v"
  "doubled C (v @ w) = doubled C v @ doubled C w"
  by (simp_all add: doubled_def)

lemma doubled_length: "length v \<le> length (doubled C v)" "length (doubled C v) \<le> 2 * length v"
  by (induction v) simp_all

lemma doubled_no_NUL: "NUL \<notin> set v \<Longrightarrow> NUL \<notin> set (doubled C v)"
  by (induction v) auto

lemma replace_all_doubled: "replace_all True [c] [c, c] v = doubled {c} v"
  by (induction v) (simp_all add: replace_all_Cons same_char_def)

lemma doubled_twice: "doubled {quote} (doubled {backslash} v) = escaped v"
  unfolding escaped_def by (induction v) simp_all

lemma lite_escape_exact:
  assumes v: "NUL \<notin> set v" and l: "length buf = 2 * length v + 1"
  shows "\<exists>buf'. vely_lite_escape v buf (length v) = Some (Inr (0, buf', int (length (escaped v))))
           \<and> cstr buf' = escaped v \<and> length buf' = length buf"
proof -
  let ?n = "2 * int (length v) + 1" and ?w = "doubled {backslash} v"
  have m: "memput buf 0 (take (length v + 1) (v @ [NUL])) = Inr (v @ NUL # drop (length v + 1) buf)"
    using l by (simp add: memput_def)
  have b0: "length (v @ NUL # drop (length v + 1) buf) = length buf" using l by simp
  have wv: "int (length ?w) + 1 \<le> ?n" "int (length (escaped v)) + 1 \<le> ?n"
    using doubled_length(2) [of "{backslash}" v] doubled_length(2) [of "{backslash, quote}" v] by (simp_all add: escaped_def)
  obtain b1 l1 where b1: "vely_replace_string (v @ NUL # drop (length v + 1) buf) ?n [backslash] [backslash, backslash] 1 1
        = Some (Inr (b1, int (length ?w), l1))" "cstr b1 = ?w" "length b1 = length buf"
    using replace_buffer_all [OF v, of "[backslash, backslash]" "[backslash]" 1 1 ?n "drop (length v + 1) buf"] wv l b0
    by (auto simp: replace_all_doubled)
  have "length ?w < length b1" using b1(3) l wv by linarith
  then obtain r1 where r1: "b1 = ?w @ NUL # r1" using cstr_split [of b1] b1(2) by auto
  have wn: "NUL \<notin> set ?w" by (rule doubled_no_NUL [OF v])
  obtain b2 l2 where b2: "vely_replace_string (?w @ NUL # r1) ?n [quote] [quote, quote] 1 1
        = Some (Inr (b2, int (length (escaped v)), l2))" "cstr b2 = escaped v" "length b2 = length buf"
    using replace_buffer_all [OF wn, of "[quote, quote]" "[quote]" 1 1 ?n r1] wv l b1(3) r1
    by (auto simp: replace_all_doubled doubled_twice)
  show ?thesis
    unfolding vely_lite_escape_def m using b1(1) b2 by (simp add: r1)
qed

section \<open>What escaping promises to the statement\<close>

text \<open>The text outside the string literals of a statement, each literal with its quotes; two
  quotes inside a literal are a character of it.\<close>

fun outside :: "bool \<Rightarrow> string \<Rightarrow> string" where
  "outside lit [] = []"
| "outside False (c # s) = c # outside (c = quote) s"
| "outside True (c # s) =
     (if c = quote
      then (case s of [] \<Rightarrow> [quote] | d # s' \<Rightarrow> if d = quote then outside True s' else quote # outside False s)
      else outside True s)"

text \<open>Every argument of a format is inside a literal.\<close>

fun inside :: "bool \<Rightarrow> string \<Rightarrow> bool" where
  "inside lit [] = True"
| "inside False (c # s) \<longleftrightarrow> \<not> starts True (c # s) ''%s'' \<and> inside (c = quote) s"
| "inside True (c # s) =
     (if c = quote
      then (case s of [] \<Rightarrow> True | d # s' \<Rightarrow> if d = quote then inside True s' else inside False s)
      else inside True s)"

text \<open>A text that leaves a literal as it is.\<close>

definition inert :: "string \<Rightarrow> bool" where
  "inert w \<longleftrightarrow> (\<forall>r. outside True (w @ r) = outside True r)"

text \<open>White space removed at the end and then at the beginning.\<close>

definition trimmed :: "string \<Rightarrow> string" where
  "trimmed v = dropWhile isspace (rstrip v)"

text \<open>Arguments put in the place of the successive \<^verbatim>\<open>%s\<close> of a format.\<close>

fun fill :: "string \<Rightarrow> string list \<Rightarrow> string" where
  "fill fmt [] = fmt"
| "fill fmt (v # vs) =
     (case find_str True fmt ''%s'' of
        None \<Rightarrow> fmt
      | Some k \<Rightarrow> take k fmt @ v @ fill (drop (k + 2) fmt) vs)"

definition arguments :: "nat \<Rightarrow> string \<Rightarrow> bool" where
  "arguments n fmt \<longleftrightarrow> count_loop True fmt ''%s'' = n"

lemma starts_pct: "starts True (c # s) ''%s'' \<longleftrightarrow> c = CHR ''%'' \<and> (\<exists>s'. s = CHR ''s'' # s')"
  by (cases s) (simp_all add: same_char_def)

lemma fill_Nil [simp]: "fill [] vs = []"
  by (cases vs) simp_all

lemma fill_Cons:
  "fill (c # s) (v # vs) = (if starts True (c # s) ''%s'' then v @ fill (drop 2 (c # s)) vs else c # fill s (v # vs))"
  by (auto split: option.splits simp del: starts.simps)

lemma fill_quote: "fill (quote # s) vs = quote # fill s vs"
  by (cases vs) (simp_all add: fill_Cons starts_pct del: fill.simps(2) starts.simps)

lemma outside_fill:
  "inside lit s \<Longrightarrow> list_all inert vs \<Longrightarrow> outside lit (fill s vs) = outside lit s"
proof (induction lit s arbitrary: vs rule: inside.induct)
  case (2 c s)
  then show ?case
    by (cases vs) (simp_all add: fill_Cons del: fill.simps(2) starts.simps)
next
  case (3 c s)
  show ?case
  proof (cases "c = quote")
    case q: True
    show ?thesis
    proof (cases s)
      case (Cons d s')
      show ?thesis
      proof (cases "d = quote")
        case True
        then show ?thesis using 3 q Cons by (simp add: fill_quote)
      next
        case False
        then have "inside False s" "outside False (fill s vs) = outside False s" using 3 q Cons by simp_all
        moreover have "\<exists>t. fill s vs = d # t"
          using calculation(1) Cons by (cases vs) (simp_all add: fill_Cons del: fill.simps(2) starts.simps)
        ultimately show ?thesis using q Cons False by (auto simp: fill_quote)
      qed
    qed (simp add: q fill_quote)
  next
    case False
    then have i: "inside True s" "\<And>vs. list_all inert vs \<Longrightarrow> outside True (fill s vs) = outside True s" using 3 by auto
    show ?thesis
    proof (cases vs)
      case (Cons v vs')
      show ?thesis
      proof (cases "starts True (c # s) ''%s''")
        case True
        then obtain s' where s': "c = CHR ''%''" "s = CHR ''s'' # s'" using True unfolding starts_pct by blast
        then have "outside True (fill (c # s) vs) = outside True (fill s' vs')"
          using Cons "3.prems"(2) True by (simp add: fill_Cons inert_def del: fill.simps(2) starts.simps)
        also have "\<dots> = outside True s'" using i(2) [of vs'] s' Cons "3.prems"(2)
          by (cases vs') (simp_all add: fill_Cons starts_pct del: fill.simps(2) starts.simps)
        finally show ?thesis using s' by simp
      next
        case f: False
        then show ?thesis using i(2) [OF "3.prems"(2)] Cons False by (simp add: fill_Cons del: fill.simps(2) starts.simps)
      qed
    qed simp
  qed
qed simp

lemma inert_Nil: "inert []" and inert_append: "inert v \<Longrightarrow> inert w \<Longrightarrow> inert (v @ w)"
  by (simp_all add: inert_def)

lemma inert_doubled: "quote \<in> C \<Longrightarrow> inert (doubled C v)"
proof (induction v)
  case (Cons c v)
  have "inert (if c \<in> C then [c, c] else [c])" using Cons.prems by (auto simp: inert_def)
  then show ?case using Cons inert_append by simp
qed (simp add: inert_Nil)

lemma rstrip_doubled: "C \<inter> Collect isspace = {} \<Longrightarrow> rstrip (doubled C v) = doubled C (rstrip v)"
proof (induction v rule: rev_induct)
  case (snoc c v)
  have "rstrip (w @ [c, c]) = w @ [c, c]" if "c \<in> C" for w
    using rstrip_snoc [of "w @ [c]" c] snoc.prems that by auto
  then show ?case using snoc by (auto simp: rstrip_snoc)
qed simp

lemma trimmed_doubled: "C \<inter> Collect isspace = {} \<Longrightarrow> trimmed (doubled C v) = doubled C (trimmed v)"
proof -
  assume C: "C \<inter> Collect isspace = {}"
  have "dropWhile isspace (doubled C w) = doubled C (dropWhile isspace w)" for w using C by (induction w) auto
  then show ?thesis using rstrip_doubled [OF C] by (simp add: trimmed_def)
qed

lemma trimmed_escaped: "trimmed (escaped v) = escaped (trimmed v)"
  unfolding escaped_def by (rule trimmed_doubled) (auto simp: isspace_def)

lemma rstrip_no_NUL: "NUL \<notin> set v \<Longrightarrow> NUL \<notin> set (rstrip v)"
  unfolding rstrip_def by (metis set_dropWhileD set_rev)

lemma trimmed_no_NUL: "NUL \<notin> set v \<Longrightarrow> NUL \<notin> set (trimmed v)"
  unfolding trimmed_def using rstrip_no_NUL by (metis set_dropWhileD)

section \<open>Trimming an argument\<close>

lemma trim_arg_trimmed:
  assumes "cstr arg = w" "length w < length arg"
  shows "\<exists>arg1 off. trim_arg arg (length w) = Inr (arg1, off, length (rstrip w)) \<and> cstr (drop off arg1) = trimmed w"
proof -
  obtain rest where r: "arg = w @ NUL # rest" using cstr_split [of arg] assms by auto
  have w: "NUL \<notin> set w" using assms(1) cstr_no_NUL by blast
  have b: "back_spaces arg 0 (length w) = length (rstrip w)" by (simp add: back_spaces_rstrip r)
  note p = rstrip_prefix [of w]
  obtain r2 where r2: "(if length w \<noteq> 0 then memput arg (length (rstrip w)) [NUL] else Inr arg) = Inr (rstrip w @ NUL # r2)"
  proof (cases "w = []")
    case False
    have "memput arg (length (rstrip w)) [NUL] = Inr (rstrip w @ NUL # drop (length (rstrip w) + 1) arg)"
      using p by (simp add: memput_def r)
    then show ?thesis using that False by simp
  qed (use that r in simp)
  have "skip_spaces (rstrip w @ NUL # r2) 0 = length (takeWhile isspace (rstrip w))"
    using skip_spaces_at [of "[]" "rstrip w" r2] by simp
  moreover have "drop (length (takeWhile isspace (rstrip w))) (rstrip w @ NUL # r2) = trimmed w @ NUL # r2"
    by (simp add: trimmed_def dropWhile_eq_drop length_takeWhile_le)
  ultimately have "cstr (drop (skip_spaces (rstrip w @ NUL # r2) 0) (rstrip w @ NUL # r2)) = trimmed w"
    using trimmed_no_NUL [OF w] by (simp only: cstr_terminated not_False_eq_True)
  then show ?thesis unfolding trim_arg_def b Let_def r2 by (simp add: res_bind_def)
qed

section \<open>The interface of escaping\<close>

text \<open>What the construction of a statement relies on: a text of \<open>n\<close> bytes is escaped into a buffer of
  \<open>2 n + 1\<close>; and, that an argument is harmless, that the result, trimmed, does not end the literal it is put in.\<close>

fun somes :: "'a option list \<Rightarrow> 'a list" where
  "somes [] = []"
| "somes (None # xs) = somes xs"
| "somes (Some x # xs) = x # somes xs"

text \<open>What a statement must be: an error, or the format with its arguments.\<close>

definition sql_text :: "(string \<Rightarrow> string) \<Rightarrow> string list \<Rightarrow> string \<Rightarrow> string res" where
  "sql_text out args fmt =
     (if odd (count_loop True fmt [quote]) then Inl (Report_error ''Incorrect number of single quotes'')
      else if count_loop True fmt quoted_arg \<noteq> count_loop True fmt ''%s''
      then Inl (Report_error ''All arguments in SQL statement must be quoted'')
      else if count_loop True fmt ''%s'' < length args
      then Inl (Report_error ''Too many non-NULL input parameters'')
      else if length args < count_loop True fmt ''%s''
      then Inl (Report_error ''Too few non-NULL input parameters'')
      else Inr (fill fmt (map (\<lambda>a. trimmed (out a)) args)))"

lemma count_loop_find:
  "find_str cs s f = Some k \<Longrightarrow> f \<noteq> [] \<Longrightarrow> count_loop cs s f = 1 + count_loop cs (drop (k + length f) s) f"
  "find_str cs s f = None \<Longrightarrow> count_loop cs s f = 0"
  by (simp_all add: count_loop.simps [of cs s f])

locale escape_contract =
  fixes esc :: escape_fn and out :: "string \<Rightarrow> string"
  assumes exact: "NUL \<notin> set v \<Longrightarrow> length buf = 2 * length v + 1 \<Longrightarrow>
      \<exists>buf'. esc v buf (length v) = Some (Inr (0, buf', int (length (out v)))) \<and> cstr buf' = out v \<and> length buf' = length buf"
    and fits: "NUL \<notin> set v \<Longrightarrow> length (out v) \<le> 2 * length v"
begin

lemma sql_args_run:
  assumes "NUL \<notin> set s" "\<forall>a\<in>set (somes args). NUL \<notin> set a"
  shows "if length (somes args) \<le> count_loop True s ''%s''
     then \<exists>rest'. sql_args esc x args (pre @ s @ NUL # rest) (length pre) (int (count_loop True s ''%s''))
            = Some (Inr (pre @ fill s (map (\<lambda>a. trimmed (out a)) (somes args)) @ NUL # rest',
                         int (count_loop True s ''%s'') - int (length (somes args))))
     else sql_args esc x args (pre @ s @ NUL # rest) (length pre) (int (count_loop True s ''%s''))
            = Some (Inl (Report_error ''Too many non-NULL input parameters''))"
  using assms
proof (induction args arbitrary: pre s rest rule: somes.induct)
  case (3 a args)
  let ?dest = "pre @ s @ NUL # rest" and ?n = "count_loop True s ''%s''"
  show ?case
  proof (cases "find_str True s ''%s''")
    case None
    then show ?thesis by (simp add: count_loop_find(2))
  next
    case (Some k)
    have c: "?n = 1 + count_loop True (drop (k + 2) s) ''%s''" using count_loop_find(1) [OF Some] by (simp add: numeral_2_eq_2)
    have a: "NUL \<notin> set a" using "3.prems"(2) by simp
    obtain arg where arg: "esc a (replicate (2 * length a + 1) x) (length a) = Some (Inr (0, arg, int (length (out a))))"
        "cstr arg = out a" "length arg = 2 * length a + 1"
      using exact [OF a, of "replicate (2 * length a + 1) x"] by auto
    have "length (out a) < length arg" using fits [OF a] arg(3) by simp
    then obtain arg1 off where t: "trim_arg arg (length (out a)) = Inr (arg1, off, length (rstrip (out a)))"
        "cstr (drop off arg1) = trimmed (out a)"
      using trim_arg_trimmed [OF arg(2)] by blast
    let ?v = "trimmed (out a)" and ?m = "length (rstrip (out a))"
    let ?rest = "rest @ replicate (?m + 1) x"
    have kb: "k + 2 \<le> length s" using find_str_bound [OF Some] by simp
    have vl: "length ?v \<le> ?m" by (simp add: trimmed_def length_dropWhile_le)
    let ?size = "int (length (?dest @ replicate (?m + 1) x)) - 1 - (int (length pre) + 1)"
    obtain rest' where r: "vely_replace_string (s @ NUL # ?rest) ?size ''%s'' ?v 0 1
        = Some (Inr (take k s @ ?v @ drop (k + 2) s @ NUL # rest', int (length s - 2 + length ?v), Some (k + length ?v)))"
      by (rule replace_buffer_first [of s 1 "''%s''" k ?v ?size ?rest]) (use "3.prems"(1) Some vl in simp_all)
    have e: "sql_args esc x (Some a # args) ?dest (length pre) (int ?n)
        = sql_args esc x args ((pre @ take k s @ ?v) @ drop (k + 2) s @ NUL # rest') (length (pre @ take k s @ ?v))
            (int (count_loop True (drop (k + 2) s) ''%s''))"
      using kb r arg(1) by (simp add: c t Let_def add.assoc del: replicate.simps)
    have f: "fill s (map (\<lambda>a. trimmed (out a)) (somes (Some a # args)))
        = take k s @ ?v @ fill (drop (k + 2) s) (map (\<lambda>a. trimmed (out a)) (somes args))" by (simp add: Some)
    have "NUL \<notin> set (drop (k + 2) s)" using "3.prems"(1) by (meson in_set_dropD)
    then show ?thesis
      using "3.IH" [of "drop (k + 2) s" "pre @ take k s @ ?v" rest'] "3.prems"(2)
      unfolding e f by (simp add: c cong: if_cong)
  qed
qed simp_all

lemma make_SQL_text:
  assumes "NUL \<notin> set fmt" "\<forall>a\<in>set (somes args). NUL \<notin> set a"
  shows "map_option (map_sum id cstr) (vely_make_SQL esc x args fmt) = Some (sql_text out (somes args) fmt)"
proof -
  have fn: "NUL \<notin> set (fill s vs)" if "NUL \<notin> set s" "\<forall>v\<in>set vs. NUL \<notin> set v" for s vs
    using that
  proof (induction vs arbitrary: s)
    case (Cons v vs)
    then show ?case by (auto split: option.split dest: in_set_takeD in_set_dropD)
  qed simp
  have "NUL \<notin> set (trimmed (out a))" if "a \<in> set (somes args)" for a
  proof -
    have a: "NUL \<notin> set a" using that assms(2) by blast
    then have "\<exists>buf'. cstr buf' = out a" using exact [OF a, of "replicate (2 * length a + 1) x"] by auto
    then show ?thesis by (metis cstr_no_NUL trimmed_no_NUL)
  qed
  then have n: "NUL \<notin> set (fill fmt (map (\<lambda>a. trimmed (out a)) (somes args)))" using fn assms(1) by simp
  have q: "even (count_loop True fmt [quote]) \<longleftrightarrow> int (count_loop True fmt [quote]) mod 2 = 0" by presburger
  show ?thesis
    using sql_args_run [OF assms, of x "[]" "[]"] n
    by (auto simp: vely_make_SQL_def vely_count_substring_def sql_text_def Let_def split: if_splits)
qed

end

text \<open>The databases that have no other escape in a literal than a quote twice promise more.\<close>

locale escaper = escape_contract +
  assumes harmless: "inert (trimmed (out v))"
begin

lemma make_SQL_harmless:
  assumes "NUL \<notin> set fmt" "\<forall>a\<in>set (somes args). NUL \<notin> set a" "inside False fmt"
    and "vely_make_SQL esc x args fmt = Some (Inr dest)"
  shows "outside False (cstr dest) = outside False fmt"
proof -
  have "sql_text out (somes args) fmt = Inr (cstr dest)" using make_SQL_text [OF assms(1,2), of x] assms(4) by simp
  then have "cstr dest = fill fmt (map (\<lambda>a. trimmed (out a)) (somes args))" by (auto simp: sql_text_def split: if_splits)
  moreover have "list_all inert (map (\<lambda>a. trimmed (out a)) (somes args))" using harmless by (simp add: list_all_iff)
  ultimately show ?thesis using outside_fill [OF assms(3)] by simp
qed

end

interpretation lite: escaper vely_lite_escape escaped
proof unfold_locales
  show "\<exists>buf'. vely_lite_escape v buf (length v) = Some (Inr (0, buf', int (length (escaped v)))) \<and> cstr buf' = escaped v
      \<and> length buf' = length buf" if "NUL \<notin> set v" "length buf = 2 * length v + 1" for v buf
    by (rule lite_escape_exact [OF that])
  show "length (escaped v) \<le> 2 * length v" for v by (simp add: escaped_def doubled_length)
  show "inert (trimmed (escaped v))" for v unfolding trimmed_escaped unfolding escaped_def by (rule inert_doubled) simp
qed

section \<open>Statements built for SQLite\<close>

lemma map_run_Inr: "map_option (map_sum id f) m = Some (Inr y) \<Longrightarrow> \<exists>d. m = Some (Inr d) \<and> f d = y"
  by (cases m; cases "the m") auto

text \<open>C6: no argument, whatever its text, changes a statement outside the string literals: if the arguments of the
  format are all inside literals, the statement that is sent has the same text outside them as the format.\<close>

theorem sql_no_injection:
  assumes "NUL \<notin> set fmt" "\<forall>a\<in>set (somes args). NUL \<notin> set a" "inside False fmt"
    and "vely_make_SQL vely_lite_escape x args fmt = Some (Inr dest)"
  shows "outside False (cstr dest) = outside False fmt"
  using assms by (rule lite.make_SQL_harmless)

theorem sql_no_injection_witness:
  "\<exists>dest. vely_make_SQL vely_lite_escape (CHR ''x'') [Some (CHR 0x27 # ''; drop'')] (''f '' @ quoted_arg) = Some (Inr dest)
     \<and> outside False (cstr dest) = outside False (''f '' @ quoted_arg)"
proof -
  let ?f = "''f '' @ quoted_arg" and ?a = "[Some (CHR 0x27 # ''; drop'')]"
  have t: "sql_text escaped (somes ?a) ?f
      = Inr (''f '' @ CHR 0x27 # trimmed (escaped (CHR 0x27 # ''; drop'')) @ [CHR 0x27])"
    by (simp add: sql_text_def count_loop_Cons same_char_def)
  have r: "map_option (map_sum id cstr) (vely_make_SQL vely_lite_escape (CHR ''x'') ?a ?f) = Some (sql_text escaped (somes ?a) ?f)"
    by (rule lite.make_SQL_text) simp_all
  obtain dest where d: "vely_make_SQL vely_lite_escape (CHR ''x'') ?a ?f = Some (Inr dest)"
    using map_run_Inr [OF r [unfolded t]] by blast
  have "outside False (cstr dest) = outside False ?f"
    by (rule sql_no_injection [OF _ _ _ d]) (simp_all add: same_char_def)
  then show ?thesis using d by blast
qed

text \<open>The characters of a literal, from the text after its first quote.\<close>

fun literal_text :: "string \<Rightarrow> string" where
  "literal_text [] = []"
| "literal_text (c # s) =
     (if c = quote then (case s of [] \<Rightarrow> [] | d # s' \<Rightarrow> if d = quote then quote # literal_text s' else [])
      else c # literal_text s)"

lemma literal_text_escaped: "literal_text (escaped v @ [quote]) = doubled {backslash} v"
  unfolding escaped_def by (induction v) simp_all

text \<open>SQLite stores an argument of a run-time statement with every backslash twice: in a literal a backslash
  is no escape there, but \<^verbatim>\<open>vely_lite_escape\<close> doubles it as for the other databases.  What is read back is the
  trimmed argument only if it has no backslash.\<close>

lemma lite_backslash_twice:
  assumes "NUL \<notin> set v"
  shows "\<exists>dest. vely_make_SQL vely_lite_escape x [Some v] (''select '' @ quoted_arg) = Some (Inr dest)
     \<and> literal_text (drop 8 (cstr dest)) = doubled {backslash} (trimmed v)
     \<and> (literal_text (drop 8 (cstr dest)) = trimmed v \<longleftrightarrow> backslash \<notin> set (trimmed v))"
proof -
  let ?f = "''select '' @ quoted_arg" and ?t = "trimmed (escaped v)"
  have d: "doubled {backslash} w = w \<longleftrightarrow> backslash \<notin> set w" for w
  proof (induction w)
    case (Cons c w)
    show ?case
    proof (cases "c = backslash")
      case True
      then show ?thesis using doubled_length(1) [of w "{backslash}"] by (auto dest: arg_cong [of _ _ length])
    qed (use Cons in simp)
  qed simp
  have t: "sql_text escaped (somes [Some v]) ?f = Inr (''select '' @ CHR 0x27 # ?t @ [CHR 0x27])"
    by (simp add: sql_text_def count_loop_Cons same_char_def)
  have r: "map_option (map_sum id cstr) (vely_make_SQL vely_lite_escape x [Some v] ?f) = Some (sql_text escaped (somes [Some v]) ?f)"
    by (rule lite.make_SQL_text) (use assms in simp_all)
  obtain dest where "vely_make_SQL vely_lite_escape x [Some v] ?f = Some (Inr dest)"
      "cstr dest = ''select '' @ CHR 0x27 # ?t @ [CHR 0x27]"
    using map_run_Inr [OF r [unfolded t]] by blast
  then show ?thesis
    using literal_text_escaped [of "trimmed v"] d [of "trimmed v"] by (simp add: trimmed_escaped)
qed

lemma lite_backslash_twice_witness:
  "\<exists>dest. vely_make_SQL vely_lite_escape NUL [Some (''a'' @ [CHR 0x5C])] (''select '' @ quoted_arg) = Some (Inr dest)
     \<and> literal_text (drop 8 (cstr dest)) = doubled {backslash} (trimmed (''a'' @ [CHR 0x5C]))
     \<and> (literal_text (drop 8 (cstr dest)) = trimmed (''a'' @ [CHR 0x5C]) \<longleftrightarrow> backslash \<notin> set (trimmed (''a'' @ [CHR 0x5C])))"
  by (rule lite_backslash_twice) simp

section \<open>Prepared statements: the reference\<close>

text \<open>Each quoted argument replaced by its marker, numbered from \<open>p\<close>.\<close>

function marked :: "int \<Rightarrow> nat \<Rightarrow> string \<Rightarrow> string" where
  "marked db_type p t =
     (case find_str True t quoted_arg of
        None \<Rightarrow> t
      | Some f \<Rightarrow> take f t @ marker db_type p @ marked db_type (p + 1) (drop (f + 4) t))"
  by pat_completeness auto
termination
  by (relation "measure (\<lambda>(db, p, t). length t)") (auto dest: find_str_progress)

declare marked.simps [simp del]

lemma marked_None: "find_str True t quoted_arg = None \<Longrightarrow> marked db p t = t"
  by (simp add: marked.simps)

lemma marked_Some:
  "find_str True t quoted_arg = Some f \<Longrightarrow> marked db p t = take f t @ marker db p @ marked db (p + 1) (drop (f + 4) t)"
  by (simp add: marked.simps [of db p t])

lemma quoted_count:
  "find_str True t quoted_arg = Some f \<Longrightarrow> count_loop True t quoted_arg = 1 + count_loop True (drop (f + 4) t) quoted_arg"
  using count_loop_find(1) [of True t quoted_arg f] by (simp add: numeral_eq_Suc)

lemma prep_loop_None: "find_str True t quoted_arg = None \<Longrightarrow> prep_loop db t buf n p = memput buf n (t @ [NUL])"
  by (simp add: prep_loop.simps)

lemma prep_loop_Some:
  assumes "find_str True t quoted_arg = Some f" "db \<in> {VV_DB_MARIADB, VV_DB_SQLITE, VV_DB_POSTGRES}" "p + 1 \<le> 65535"
    and "length pre + f + length (marker db p) + 1 \<le> length (pre @ r)"
  shows "\<exists>r'. length r' + f + length (marker db p) = length r
     \<and> prep_loop db t (pre @ r) (length pre) p
         = prep_loop db (drop (f + 4) t) ((pre @ take f t @ marker db p) @ r') (length (pre @ take f t @ marker db p)) (p + 1)"
proof -
  have f: "f + 4 \<le> length t" using find_str_bound [OF assms(1)] by simp
  let ?r1 = "drop f r" and ?m = "marker db p"
  have 1: "memput (pre @ r) (length pre) (take f t) = Inr ((pre @ take f t) @ ?r1)"
    using assms(4) f by (simp add: memput_def)
  have 2: "memput ((pre @ take f t) @ ?r1) (length pre + f) (?m @ [NUL])
      = Inr ((pre @ take f t @ ?m) @ NUL # drop (length ?m + 1) ?r1)"
    using assms(4) f by (simp add: memput_def)
  have "prep_loop db t (pre @ r) (length pre) p
      = prep_loop db (drop (f + 4) t) ((pre @ take f t @ ?m) @ NUL # drop (length ?m + 1) ?r1) (length (pre @ take f t @ ?m)) (p + 1)"
    using assms(2,3) f by (subst prep_loop.simps) (auto simp: assms(1) res_bind_def 1 2 [unfolded append_assoc] Let_def min_def add.assoc)
  then show ?thesis using assms(4) by (intro exI [of _ "NUL # drop (length ?m + 1) ?r1"]) simp
qed

lemma prep_loop_run:
  assumes "db \<in> {VV_DB_MARIADB, VV_DB_SQLITE, VV_DB_POSTGRES}" "p + count_loop True t quoted_arg \<le> 65535"
    and "length pre + length (marked db p t) + 1 \<le> length (pre @ r)"
  shows "\<exists>rest. prep_loop db t (pre @ r) (length pre) p = Inr (pre @ marked db p t @ NUL # rest)"
  using assms(2,3)
proof (induction "length t" arbitrary: t pre r p rule: less_induct)
  case less
  show ?case
  proof (cases "find_str True t quoted_arg")
    case None
    then show ?thesis using less.prems(2) by (simp add: prep_loop_None marked_None memput_def)
  next
    case (Some f)
    let ?t = "drop (f + 4) t" and ?pre = "pre @ take f t @ marker db p"
    have f: "f + 4 \<le> length t" using find_str_bound [OF Some] by simp
    have ft: "length ?t < length t" using f by simp
    have p: "p + 1 + count_loop True ?t quoted_arg \<le> 65535" using less.prems(1) quoted_count [OF Some] by simp
    have l: "length pre + f + length (marker db p) + length (marked db (p + 1) ?t) + 1 \<le> length (pre @ r)"
      using less.prems(2) f by (simp add: marked_Some [OF Some])
    obtain r' where r': "length r' + f + length (marker db p) = length r"
        "prep_loop db t (pre @ r) (length pre) p = prep_loop db ?t (?pre @ r') (length ?pre) (p + 1)"
      using prep_loop_Some [OF Some assms(1), of p pre r] p l by auto
    have "length ?pre + length (marked db (p + 1) ?t) + 1 \<le> length (?pre @ r')" using l r'(1) f by simp
    then obtain rest where "prep_loop db ?t (?pre @ r') (length ?pre) (p + 1) = Inr (?pre @ marked db (p + 1) ?t @ NUL # rest)"
      using less.hyps [OF ft p, of ?pre r'] by blast
    then show ?thesis using r'(2) by (simp add: marked_Some [OF Some])
  qed
qed

lemma marked_length:
  "p + count_loop True t quoted_arg \<le> 65535 \<Longrightarrow>
     length (marked db p t) \<le> length t + (if db = VV_DB_POSTGRES then 2 * count_loop True t quoted_arg else 0)"
proof (induction "length t" arbitrary: t p rule: less_induct)
  case less
  show ?case
  proof (cases "find_str True t quoted_arg")
    case (Some f)
    have f: "f + 4 \<le> length t" using find_str_bound [OF Some] by simp
    have p: "p + 1 + count_loop True (drop (f + 4) t) quoted_arg \<le> 65535" using less.prems quoted_count [OF Some] by simp
    have "length (decimal_digits p) \<le> 5" using digits_length [of p 5] p by simp
    then have m: "length (marker db p) \<le> (if db = VV_DB_POSTGRES then 6 else 4)" by (simp add: marker_def)
    have "length (marked db (p + 1) (drop (f + 4) t)) \<le> length (drop (f + 4) t)
        + (if db = VV_DB_POSTGRES then 2 * count_loop True (drop (f + 4) t) quoted_arg else 0)"
      by (rule less.hyps) (use p f in simp_all)
    then show ?thesis using m f quoted_count [OF Some] by (auto simp: marked_Some [OF Some] split: if_splits)
  qed (simp add: marked_None)
qed

lemma marked_no_NUL: "NUL \<notin> set t \<Longrightarrow> NUL \<notin> set (marked db p t)"
proof (induction "length t" arbitrary: t p rule: less_induct)
  case less
  show ?case
  proof (cases "find_str True t quoted_arg")
    case (Some f)
    have f: "f + 4 \<le> length t" using find_str_bound [OF Some] by simp
    have n: "NUL \<notin> set (take f t)" "NUL \<notin> set (drop (f + 4) t)" using less.prems by (auto dest: in_set_takeD in_set_dropD)
    have "NUL \<notin> set (marked db (p + 1) (drop (f + 4) t))" by (rule less.hyps) (use n f in simp_all)
    moreover have "NUL \<notin> set (marker db p)" using decimal_digits_no_NUL by (simp add: marker_def)
    ultimately show ?thesis using n(1) by (simp add: marked_Some [OF Some])
  qed (use less.prems in \<open>simp add: marked_None\<close>)
qed

text \<open>Searching without regard to case finds at least as many.\<close>

lemma count_loop_drop:
  assumes "f \<noteq> []"
  shows "(\<forall>j\<le>length f. count_loop cs s f \<le> count_loop cs (drop j s) f + 1) \<and> (\<forall>j. count_loop cs (drop j s) f \<le> count_loop cs s f)"
proof (induction "length s" arbitrary: s rule: less_induct)
  case less
  show ?case
  proof (cases s)
    case (Cons c s')
    let ?n = "\<lambda>s. count_loop cs s f"
    have IH: "\<And>j. j \<le> length f \<Longrightarrow> ?n s' \<le> ?n (drop j s') + 1" "\<And>j. ?n (drop j s') \<le> ?n s'" using less [of s'] Cons by simp_all
    have up: "?n s' \<le> ?n s"
    proof (cases "starts cs (c # s') f")
      case True
      have "drop (length f) s = drop (length f - 1) s'" using Cons assms by (cases f) simp_all
      then have "?n s = 1 + ?n (drop (length f - 1) s')" using count_loop_Cons [OF assms, of cs c s'] True Cons by simp
      then show ?thesis using IH(1) [of "length f - 1"] by simp
    qed (use count_loop_Cons [OF assms, of cs c s'] Cons in simp)
    have mono: "?n (drop j s) \<le> ?n s" for j using up IH(2) [of "j - 1"] Cons by (cases j) simp_all
    have "?n s \<le> ?n (drop j s) + 1" if "j \<le> length f" for j
    proof (cases j)
      case (Suc i)
      show ?thesis
      proof (cases "starts cs (c # s') f")
        case True
        then have "?n s = 1 + ?n (drop (length f) s)" using count_loop_Cons [OF assms, of cs c s'] Cons by simp
        moreover have "drop (length f) s = drop (length f - j) (drop j s)" using that by simp
        moreover have "\<forall>k. ?n (drop k (drop j s)) \<le> ?n (drop j s)" using less [of "drop j s"] Cons Suc by simp
        ultimately show ?thesis by simp
      next
        case False
        then have "?n s = ?n s'" using count_loop_Cons [OF assms, of cs c s'] Cons by simp
        then show ?thesis using IH(1) [of i] Suc that Cons by simp
      qed
    qed simp
    then show ?thesis using mono by blast
  qed simp
qed

lemma starts_nocase: "starts True s f \<Longrightarrow> starts False s f"
  by (induction True s f rule: starts.induct) (auto simp: same_char_def)

lemma count_loop_nocase: "f \<noteq> [] \<Longrightarrow> count_loop True s f \<le> count_loop False s f"
proof (induction "length s" arbitrary: s rule: less_induct)
  case less
  show ?case
  proof (cases s)
    case (Cons c s')
    have 1: "count_loop True (drop (length f) s) f \<le> count_loop False (drop (length f) s) f"
      by (rule less.hyps) (use Cons less.prems in simp_all)
    have 2: "count_loop True s' f \<le> count_loop False s' f" by (rule less.hyps) (use Cons less.prems in simp_all)
    have 3: "count_loop False s' f \<le> count_loop False (drop (length f - 1) s') f + 1"
      using count_loop_drop [OF less.prems, of False s'] by simp
    have 4: "drop (length f) s = drop (length f - 1) s'" using Cons less.prems by (cases f) simp_all
    show ?thesis
    proof (cases "starts True (c # s') f")
      case True
      then show ?thesis
        using 1 starts_nocase [OF True] Cons count_loop_Cons [OF less.prems, of True c s'] count_loop_Cons [OF less.prems, of False c s']
        by simp
    next
      case False
      then have "count_loop True s f \<le> count_loop False s' f" using 2 Cons count_loop_Cons [OF less.prems, of True c s'] by simp
      also have "\<dots> \<le> count_loop False s f"
        using 3 4 Cons count_loop_Cons [OF less.prems, of False c s'] by (cases "starts False (c # s') f") simp_all
      finally show ?thesis .
    qed
  qed simp
qed

text \<open>The text of a prepared statement is the statement with its quoted arguments replaced, in order, by the
  markers of the database (\<^verbatim>\<open>?\<close>, or \<^verbatim>\<open>$1\<close>, \<^verbatim>\<open>$2\<close>, ...), and it fits the buffer computed for it, for up to
  65534 arguments.\<close>

lemma prep_text_exact:
  assumes "db \<in> {VV_DB_MARIADB, VV_DB_SQLITE, VV_DB_POSTGRES}" "NUL \<notin> set t" "count_loop True t quoted_arg < 65535"
  shows "map_sum id cstr (vely_db_prep_text db x t) = Inr (marked db 1 t)"
proof (cases "count_loop False t quoted_arg = 0")
  case True
  then have "find_str True t quoted_arg = None"
    using count_loop_nocase [of quoted_arg t] count_loop_find(1) [of True t quoted_arg] by (cases "find_str True t quoted_arg") auto
  then show ?thesis
    using True assms(2) by (simp add: vely_db_prep_text_def vely_count_substring_def marked_None Let_def)
next
  case False
  let ?size = "if db = VV_DB_MARIADB \<or> db = VV_DB_SQLITE then length t + 1
               else if db = VV_DB_POSTGRES then length t + count_loop False t quoted_arg * 6 + 1 else 1"
  have c: "1 + count_loop True t quoted_arg \<le> 65535" using assms(3) by simp
  have "length (marked db 1 t) + 1 \<le> ?size"
    using marked_length [OF c, of db] count_loop_nocase [of quoted_arg t] assms(1)
    by (auto simp: VV_DB_MARIADB_def VV_DB_SQLITE_def VV_DB_POSTGRES_def)
  then obtain rest where "prep_loop db t ([] @ replicate ?size x) (length []) 1 = Inr ([] @ marked db 1 t @ NUL # rest)"
    using prep_loop_run [OF assms(1) c, of "[]" "replicate ?size x"] by auto
  moreover have "vely_db_prep_text db x t = prep_loop db t (replicate ?size x) 0 1"
    using False by (simp add: vely_db_prep_text_def vely_count_substring_def Let_def)
  ultimately show ?thesis using marked_no_NUL [OF assms(2)] by simp
qed

lemma prep_text_exact_witness:
  "map_sum id cstr (vely_db_prep_text VV_DB_POSTGRES NUL (''a='' @ quoted_arg)) = Inr (marked VV_DB_POSTGRES 1 (''a='' @ quoted_arg))"
  by (rule prep_text_exact) (simp_all add: count_loop_Cons same_char_def)

end
