(* ===== verification/Req.thy ===== *)
theory Req
  imports Prelude
begin

text \<open>
  The data of a request (vely.h): input parameters, the stack of strings being written, cookies,
  custom headers and the request itself, with their initialization (\<^verbatim>\<open>vely_init_input_req\<close>,
  \<^verbatim>\<open>vely_init_header\<close> in velyrt.c).  Null pointers are \<open>None\<close>; fields that no modelled code uses are left
  out.
\<close>

definition VV_MAX_NESTED_WRITE_STRING :: nat where "VV_MAX_NESTED_WRITE_STRING = 5"
definition VV_MAX_HTTP_HEADER :: nat where "VV_MAX_HTTP_HEADER = 32"
definition VV_MAX_COOKIES :: nat where "VV_MAX_COOKIES = 256"
definition VV_MAX_COOKIE_SIZE :: nat where "VV_MAX_COOKIE_SIZE = 2048"
definition VV_HEADER_FILE :: int where "VV_HEADER_FILE = 0"
definition VV_HEADER_PAGE :: int where "VV_HEADER_PAGE = 1"
definition VV_WRSTR_ADD_MIN :: nat where "VV_WRSTR_ADD_MIN = 128"
definition VV_WRSTR_ADD_MAX :: nat where "VV_WRSTR_ADD_MAX = 8192"

section \<open>Data\<close>

text \<open>An input parameter; \<open>found\<close> is 1 once it was asked for.\<close>

record vely_ipar =
  found :: int
  pname :: string
  pvalue :: string

text \<open>A string being written: its buffer, the variable of the program it is for, the allocated length,
  the position of the next byte, whether it is trimmed at the end, and by how much it grows.\<close>

record vely_write_string =
  wstring :: "string option"
  user_string :: nat
  wlength :: nat
  buf_pos :: nat
  notrim :: int
  wlen :: nat

record vely_cookie =
  cdata :: string
  is_set_by_program :: int

record vely_header =
  ctype :: "string option"
  disp :: "string option"
  file_name :: "string option"
  cache_control :: "string option"
  etag :: int
  status_id :: int
  status_text :: "string option"
  control :: "string option list"
  control_value :: "string option list"

text \<open>The array of cookies is \<open>None\<close> until the request is read.\<close>

record vely_input_req =
  sent_header :: int
  data_was_output :: int
  if_none_match :: "string option"
  disable_output :: int
  write_string_arr :: "vely_write_string list"
  curr_write_to_string :: int
  cookies :: "vely_cookie list option"
  num_of_cookies :: nat
  ipars :: "vely_ipar list"
  header :: "vely_header option"
  silent :: int
  is_shut :: int
  ec :: int
  rname :: string
  task :: int

section \<open>Initialization\<close>

definition new_write_string :: vely_write_string where
  "new_write_string = \<lparr>wstring = None, user_string = 0, wlength = 0, buf_pos = 0, notrim = 0, wlen = VV_WRSTR_ADD_MIN\<rparr>"

definition vely_init_input_req :: vely_input_req where
  "vely_init_input_req =
     \<lparr>sent_header = 0, data_was_output = 0, if_none_match = None, disable_output = 0,
      write_string_arr = replicate VV_MAX_NESTED_WRITE_STRING new_write_string, curr_write_to_string = -1,
      cookies = None, num_of_cookies = 0, ipars = [], header = None, silent = 0, is_shut = 0, ec = 0,
      rname = [], task = -1\<rparr>"

definition vely_init_header :: "int \<Rightarrow> bool \<Rightarrow> vely_header res" where
  "vely_init_header init_type is_request =
     (if init_type \<noteq> VV_HEADER_FILE \<and> init_type \<noteq> VV_HEADER_PAGE
      then Inl (Report_error ''Unknown initialization type argument'')
      else Inr \<lparr>ctype = (if is_request then None else Some ''text/html;charset=utf-8''),
                disp = None, file_name = None,
                cache_control = Some (if init_type = VV_HEADER_FILE
                  then ''public, max-age=2000000000, post-check=2000000000, pre-check=2000000000''
                  else ''max-age=0, no-cache''),
                etag = (if init_type = VV_HEADER_FILE then 1 else 0), status_id = 0, status_text = None,
                control = replicate (VV_MAX_HTTP_HEADER + 1) None,
                control_value = replicate (VV_MAX_HTTP_HEADER + 1) None\<rparr>)"

end
