(* ===== verification/Cookies.thy ===== *)
theory Cookies
  imports Req Strings
begin

text \<open>
  Cookies of a request (velyrt.c): reading them from the client (the loop of \<^verbatim>\<open>vely_get_input\<close>), checking, setting,
  finding and deleting them.  They are kept in an array of \<open>VV_MAX_COOKIES\<close> entries; an access outside of
  it, or to an array that is not there, is a fault.
\<close>

section \<open>Checks\<close>

text \<open>A character is signed, so those above 127 are below 33.\<close>

definition name_char :: "char \<Rightarrow> bool" where
  "name_char c \<longleftrightarrow> \<not> (schar c < 33 \<or> schar c = 127 \<or>
     c \<in> {CHR ''('', CHR '')'', CHR ''@'', CHR '','', CHR '';'', CHR '':'', CHR 0x5C, CHR 0x22, CHR ''/'',
          CHR ''['', CHR '']'', CHR ''?'', CHR ''='', CHR ''{'', CHR ''}''})"

text \<open>A double quote is allowed as the first character and as the last.\<close>

fun value_scan :: "bool \<Rightarrow> string \<Rightarrow> bool" where
  "value_scan first [] = True"
| "value_scan first (c # s) =
     (if schar c < 33 \<or> schar c = 127 \<or> c = CHR '','' \<or> c = CHR '';'' \<or> c = CHR 0x5C
         \<or> (c = CHR 0x22 \<and> \<not> first \<and> s \<noteq> [])
      then False else value_scan False s)"

text \<open>The result is the safety clause, in a buffer of the given length.\<close>

definition vely_check_set_cookie ::
  "string \<Rightarrow> string \<Rightarrow> string \<Rightarrow> string \<Rightarrow> string \<Rightarrow> nat \<Rightarrow> string res" where
  "vely_check_set_cookie name val secure samesite httponly safety_clause_len =
     (if \<not> list_all name_char name then Inl (Report_error ''Cookie name [%s] is invalid at [%s]'')
      else if name = [] then Inl (Report_error ''Cookie name is empty'')
      else if \<not> value_scan True val then Inl (Report_error ''Cookie value [%s] is invalid at [%s]'')
      else if val = [] then Inl (Report_error ''Cookie value is empty'')
      else if secure \<noteq> ''Secure; '' \<and> secure \<noteq> []
      then Inl (Report_error ''Cookie secure can be only on or off, it is [%s]'')
      else if httponly \<noteq> ''HttpOnly; '' \<and> httponly \<noteq> []
      then Inl (Report_error ''Cookie HttpOnly can be only on or off, it is [%s]'')
      else if samesite \<noteq> [] \<and> samesite \<noteq> ''Strict'' \<and> samesite \<noteq> ''Lax'' \<and> samesite \<noteq> ''None''
      then Inl (Report_error ''Cookie SameSite can be only empty, Strict, Lax or None'')
      else Inr (snprintf_text safety_clause_len
             (if samesite \<noteq> [] then ''; '' @ secure @ httponly @ ''SameSite='' @ samesite
              else ''; '' @ secure @ httponly)))"

section \<open>The array\<close>

definition cookie_at :: "vely_input_req \<Rightarrow> nat \<Rightarrow> vely_cookie res" where
  "cookie_at req i =
     (case cookies req of
        None \<Rightarrow> Inl Out_of_bounds
      | Some cs \<Rightarrow> if i < length cs then Inr (cs ! i) else Inl Out_of_bounds)"

definition put_cookie :: "vely_input_req \<Rightarrow> nat \<Rightarrow> vely_cookie \<Rightarrow> vely_input_req res" where
  "put_cookie req i c =
     (case cookies req of
        None \<Rightarrow> Inl Out_of_bounds
      | Some cs \<Rightarrow> if i < length cs then Inr (req\<lparr>cookies := Some (cs[i := c])\<rparr>) else Inl Out_of_bounds)"

section \<open>Finding\<close>

text \<open>A cookie is found with its value, its index, and its path and expiration if it has them.  The string is cut at
  semicolons for the copies and restored.\<close>

definition cookie_field :: "string \<Rightarrow> string \<Rightarrow> string option" where
  "cookie_field val label =
     map_option (\<lambda>p. takeWhile (\<lambda>c. c \<noteq> CHR '';'') (drop (p + length label) val)) (find_str False val label)"

function find_cookie_loop ::
  "vely_input_req \<Rightarrow> string \<Rightarrow> nat \<Rightarrow> (string \<times> int \<times> string option \<times> string option) res" where
  "find_cookie_loop req cookie_name ci =
     (if ci < num_of_cookies req then
        res_bind (cookie_at req ci) (\<lambda>c.
          if starts True (cdata c) cookie_name \<and> cat (cdata c) (length cookie_name) = CHR ''='' then
            (let val = drop (length cookie_name + 1) (cdata c) in
             Inr (takeWhile (\<lambda>c. c \<noteq> CHR '';'') val, int ci,
                  cookie_field val ''; Path='', cookie_field val ''; Expires=''))
          else find_cookie_loop req cookie_name (ci + 1))
      else Inr ([], -1, None, None))"
  by pat_completeness auto
termination by (relation "measure (\<lambda>(req, nm, ci). num_of_cookies req - ci)") auto

declare find_cookie_loop.simps [simp del]

definition vely_find_cookie :: "vely_input_req \<Rightarrow> string \<Rightarrow> (string \<times> int \<times> string option \<times> string option) res" where
  "vely_find_cookie req cookie_name = find_cookie_loop req cookie_name 0"

section \<open>Setting and deleting\<close>

definition unset :: "string option \<Rightarrow> bool" where
  "unset s \<longleftrightarrow> s = None \<or> s = Some []"

definition cookie_text :: "string \<Rightarrow> string \<Rightarrow> string option \<Rightarrow> string option \<Rightarrow> string \<Rightarrow> string" where
  "cookie_text cookie_name cookie_value path expires safety_clause =
     (if unset expires then
        (if unset path then cookie_name @ ''='' @ cookie_value @ safety_clause
         else cookie_name @ ''='' @ cookie_value @ ''; Path='' @ the path @ safety_clause)
      else
        (if unset path then cookie_name @ ''='' @ cookie_value @ ''; Expires='' @ the expires @ safety_clause
         else cookie_name @ ''='' @ cookie_value @ ''; Path='' @ the path @ ''; Expires='' @ the expires @ safety_clause))"

definition vely_set_cookie ::
  "vely_input_req \<Rightarrow> string \<Rightarrow> string \<Rightarrow> string option \<Rightarrow> string option \<Rightarrow> string \<Rightarrow> string \<Rightarrow> string
     \<Rightarrow> vely_input_req res" where
  "vely_set_cookie req cookie_name cookie_value path expires samesite httponly secure =
     (if data_was_output req = 1
      then Inl (Report_error ''Cookie can only be set before any data is output'')
      else res_bind (vely_check_set_cookie cookie_name cookie_value secure samesite httponly 200) (\<lambda>safety_clause.
        res_bind (vely_find_cookie req cookie_name) (\<lambda>(_, ind, _, _).
          res_bind (if ind = -1 then
                      (if num_of_cookies req + 1 \<ge> VV_MAX_COOKIES then Inl (Report_error ''Too many cookies [%lld]'')
                       else Inr (num_of_cookies req, req\<lparr>num_of_cookies := num_of_cookies req + 1\<rparr>))
                    else Inr (nat ind, req)) (\<lambda>(i, req1).
            put_cookie req1 i
              \<lparr>cdata = snprintf_text (VV_MAX_COOKIE_SIZE + 1) (cookie_text cookie_name cookie_value path expires safety_clause),
               is_set_by_program = 1\<rparr>))))"

definition deleted_text :: "string \<Rightarrow> string option \<Rightarrow> string \<Rightarrow> string" where
  "deleted_text cookie_name rpath safety_clause =
     (case rpath of
        Some p \<Rightarrow> cookie_name @ ''=deleted; Path='' @ p
          @ ''; Max-Age=0; Expires=Thu, 01 Jan 1970 01:01:01 GMT'' @ safety_clause
      | None \<Rightarrow> cookie_name @ ''=deleted; Max-Age=0; Expires=Thu, 01 Jan 1970 01:01:01 GMT'' @ safety_clause)"

definition vely_delete_cookie ::
  "vely_input_req \<Rightarrow> string \<Rightarrow> string option \<Rightarrow> string \<Rightarrow> (int \<times> vely_input_req) res" where
  "vely_delete_cookie req cookie_name path secure =
     res_bind (vely_find_cookie req cookie_name) (\<lambda>(_, ci, rpath, _).
       if ci \<noteq> -1 then
         res_bind (vely_check_set_cookie cookie_name ''deleted'' secure [] [] 200) (\<lambda>safety_clause.
           let rpath = (if path \<noteq> None then path else rpath) in
           res_bind (put_cookie req (nat ci)
             \<lparr>cdata = snprintf_text 300 (deleted_text cookie_name rpath safety_clause), is_set_by_program = 1\<rparr>)
             (\<lambda>req1. Inr (ci, req1)))
       else Inr (-1, req))"

section \<open>Cookies of the client\<close>

text \<open>The value of the header is cut at semicolons, and white space after one is skipped.\<close>

function input_cookies_loop :: "string \<Rightarrow> nat \<Rightarrow> vely_cookie list \<Rightarrow> (nat \<times> vely_cookie list) res" where
  "input_cookies_loop cookie tot cs =
     (if tot \<ge> VV_MAX_COOKIES then Inl (Report_error ''Too many cookies [%lld]'')
      else if tot < length cs then
        (let one = takeWhile (\<lambda>c. c \<noteq> CHR '';'') cookie; cs1 = cs[tot := (cs ! tot)\<lparr>cdata := one\<rparr>] in
         case dropWhile (\<lambda>c. c \<noteq> CHR '';'') cookie of
           [] \<Rightarrow> Inr (tot + 1, cs1)
         | _ # ew \<Rightarrow> input_cookies_loop (dropWhile isspace ew) (tot + 1) cs1)
      else Inl Out_of_bounds)"
  by pat_completeness auto
termination by (relation "measure (\<lambda>(cookie, tot, cs). VV_MAX_COOKIES - tot)") auto

declare input_cookies_loop.simps [simp del]

definition read_cookies :: "(string \<Rightarrow> string) \<Rightarrow> vely_input_req \<Rightarrow> vely_input_req res" where
  "read_cookies getenv req =
     (if cookies req \<noteq> None then Inr req
      else
        (let cookie = getenv ''HTTP_COOKIE''; cs = replicate VV_MAX_COOKIES \<lparr>cdata = [], is_set_by_program = 0\<rparr> in
         if cookie \<noteq> [] then
           res_bind (input_cookies_loop cookie 0 cs) (\<lambda>(tot, cs1).
             Inr (req\<lparr>cookies := Some cs1, num_of_cookies := tot\<rparr>))
         else Inr (req\<lparr>cookies := Some cs, num_of_cookies := 0\<rparr>)))"

section \<open>The search as a search in a list\<close>

definition matches :: "string \<Rightarrow> string \<Rightarrow> bool" where
  "matches d n \<longleftrightarrow> starts True d n \<and> cat d (length n) = CHR ''=''"

definition cookie_value :: "string \<Rightarrow> string \<Rightarrow> string" where
  "cookie_value d n = takeWhile (\<lambda>c. c \<noteq> CHR '';'') (drop (length n + 1) d)"

text \<open>The cookies of a request, with the rule that the array is complete and its used part within it.\<close>

definition cookies_ok :: "vely_input_req \<Rightarrow> bool" where
  "cookies_ok req \<longleftrightarrow> (case cookies req of
     None \<Rightarrow> num_of_cookies req = 0
   | Some cs \<Rightarrow> length cs = VV_MAX_COOKIES \<and> num_of_cookies req \<le> VV_MAX_COOKIES)"

definition cookie_list :: "vely_input_req \<Rightarrow> string list" where
  "cookie_list req = (case cookies req of None \<Rightarrow> [] | Some cs \<Rightarrow> map cdata (take (num_of_cookies req) cs))"

definition first_index :: "string \<Rightarrow> string list \<Rightarrow> nat option" where
  "first_index n ds = List.find (\<lambda>i. matches (ds ! i) n) [0..<length ds]"

lemma starts_True: "starts True s f \<longleftrightarrow> (\<exists>r. s = f @ r)"
  by (induction True s f rule: starts.induct) (auto simp: same_char_def)

lemma matches_iff: "matches d n \<longleftrightarrow> (\<exists>v. d = n @ CHR ''='' # v)"
proof
  assume "matches d n"
  then obtain r where r: "d = n @ r" "cat r 0 = CHR ''=''" by (auto simp: matches_def starts_True cat_append)
  then show "\<exists>v. d = n @ CHR ''='' # v" by (cases r) auto
next
  assume "\<exists>v. d = n @ CHR ''='' # v"
  then show "matches d n" by (auto simp: matches_def starts_True cat_append)
qed

lemma matches_unique:
  assumes "matches d n" "matches d m" "CHR ''='' \<notin> set n" "CHR ''='' \<notin> set m"
  shows "n = m"
proof -
  have w: "takeWhile (\<lambda>c. c \<noteq> CHR ''='') (n @ CHR ''='' # v) = n" if "CHR ''='' \<notin> set n" for n v :: string
    using that by (induction n) auto
  obtain v u where "d = n @ CHR ''='' # v" "d = m @ CHR ''='' # u" using assms(1,2) unfolding matches_iff by blast
  then show ?thesis using w [of n v] w [of m u] assms(3,4) by simp
qed

lemma cookie_list_length: "cookies_ok req \<Longrightarrow> length (cookie_list req) = num_of_cookies req"
  by (simp add: cookies_ok_def cookie_list_def split: option.splits)

lemma cookie_list_nth:
  "cookies_ok req \<Longrightarrow> i < num_of_cookies req \<Longrightarrow> \<exists>c. cookie_at req i = Inr c \<and> cdata c = cookie_list req ! i"
  by (auto simp: cookies_ok_def cookie_list_def cookie_at_def split: option.splits)

definition cookie_found :: "string \<Rightarrow> string list \<Rightarrow> nat option \<Rightarrow> (string \<times> int \<times> string option \<times> string option)" where
  "cookie_found n ds r = (case r of
     None \<Rightarrow> ([], -1, None, None)
   | Some i \<Rightarrow> (cookie_value (ds ! i) n, int i, cookie_field (drop (length n + 1) (ds ! i)) ''; Path='',
               cookie_field (drop (length n + 1) (ds ! i)) ''; Expires=''))"

lemma find_cookie_loop_list:
  assumes "cookies_ok req"
  shows "find_cookie_loop req n ci = Inr (cookie_found n (cookie_list req)
     (List.find (\<lambda>i. matches (cookie_list req ! i) n) [ci..<num_of_cookies req]))"
proof (induction "num_of_cookies req - ci" arbitrary: ci)
  case 0
  then show ?case by (simp add: find_cookie_loop.simps [of req n ci] cookie_found_def)
next
  case (Suc k)
  then have ci: "ci < num_of_cookies req" by simp
  obtain c where c: "cookie_at req ci = Inr c" "cdata c = cookie_list req ! ci" using cookie_list_nth [OF assms ci] by blast
  have IH: "find_cookie_loop req n (Suc ci) = Inr (cookie_found n (cookie_list req)
     (List.find (\<lambda>i. matches (cookie_list req ! i) n) [Suc ci..<num_of_cookies req]))"
    using Suc.hyps by simp
  show ?case
    using ci IH by (subst find_cookie_loop.simps)
      (simp add: c res_bind_def upt_conv_Cons cookie_found_def cookie_value_def matches_def [symmetric] Let_def)
qed

lemma find_cookie_list:
  "cookies_ok req \<Longrightarrow> vely_find_cookie req n = Inr (cookie_found n (cookie_list req) (first_index n (cookie_list req)))"
  by (simp add: vely_find_cookie_def find_cookie_loop_list first_index_def cookie_list_length)

section \<open>The first cookie of a name\<close>

lemma first_index_None: "first_index n ds = None \<longleftrightarrow> (\<forall>d\<in>set ds. \<not> matches d n)"
  using nth_mem by (fastforce simp: first_index_def find_None_iff in_set_conv_nth)

lemma first_index_Some: "first_index n ds = Some i \<Longrightarrow> i < length ds \<and> matches (ds ! i) n"
  by (auto simp: first_index_def find_Some_iff)

lemma first_index_snoc:
  "first_index n (ds @ [d]) = (case first_index n ds of Some i \<Rightarrow> Some i | None \<Rightarrow> if matches d n then Some (length ds) else None)"
proof -
  have fa: "List.find P (xs @ ys) = (case List.find P xs of Some x \<Rightarrow> Some x | None \<Rightarrow> List.find P ys)"
    for P :: "nat \<Rightarrow> bool" and xs ys by (induction xs) auto
  have "List.find (\<lambda>i. matches ((ds @ [d]) ! i) n) [0..<length ds] = first_index n ds"
    unfolding first_index_def by (rule find_cong) (simp_all add: nth_append)
  then show ?thesis by (simp add: first_index_def [of n "ds @ [d]"] fa split: option.split)
qed

lemma first_index_update:
  assumes "\<And>j. j < length ds \<Longrightarrow> matches (ds[i := d] ! j) n = matches (ds ! j) n"
  shows "first_index n (ds[i := d]) = first_index n ds"
  unfolding first_index_def by (rule find_cong) (use assms in simp_all)

section \<open>What setting and deleting do to the list\<close>

lemma check_set_cookie_Inr:
  assumes "vely_check_set_cookie n v secure samesite httponly 200 = Inr clause"
  shows "list_all name_char n" "n \<noteq> []" "value_scan True v" "v \<noteq> []" "\<exists>r. clause = CHR '';'' # r"
  using assms by (auto simp: vely_check_set_cookie_def snprintf_text_def split: if_splits)

lemma check_set_cookie_cases:
  "(\<exists>e. vely_check_set_cookie n v secure samesite httponly len = Inl (Report_error e))
     \<or> (\<exists>clause. vely_check_set_cookie n v secure samesite httponly len = Inr clause)"
  by (simp add: vely_check_set_cookie_def)

lemma name_no_eq: "list_all name_char n \<Longrightarrow> CHR ''='' \<notin> set n"
  by (auto simp: list_all_iff name_char_def)

lemma value_no_semi: "value_scan first v \<Longrightarrow> CHR '';'' \<notin> set v"
  by (induction first v rule: value_scan.induct) (auto split: if_splits)

text \<open>A cookie of a name put in place of the first of that name, or at the end.\<close>

definition put_first :: "string \<Rightarrow> string \<Rightarrow> string list \<Rightarrow> string list" where
  "put_first n d ds = (case first_index n ds of Some i \<Rightarrow> ds[i := d] | None \<Rightarrow> ds @ [d])"

lemma first_index_put_first:
  assumes "matches d n" "CHR ''='' \<notin> set n" "CHR ''='' \<notin> set m"
  shows "map_option (\<lambda>i. put_first n d ds ! i) (first_index m (put_first n d ds))
    = (if m = n then Some d else map_option (\<lambda>i. ds ! i) (first_index m ds))"
proof (cases "first_index n ds")
  case None
  have d: "matches d m \<longleftrightarrow> m = n" using matches_unique [OF _ assms(1,3,2)] assms(1) by blast
  have "first_index m ds = None" if "m = n" using None that by simp
  then show ?thesis
    using first_index_Some [of m ds] assms(1)
    by (auto simp: put_first_def None first_index_snoc d nth_append split: option.split)
next
  case (Some i)
  then have i: "i < length ds" "matches (ds ! i) n" by (simp_all add: first_index_Some)
  have d: "matches d m \<longleftrightarrow> m = n" "matches (ds ! i) m \<longleftrightarrow> m = n"
    using matches_unique [OF _ assms(1,3,2)] matches_unique [OF _ i(2) assms(3,2)] assms(1) i(2) by blast+
  have e: "first_index m (ds[i := d]) = first_index m ds"
  proof (rule first_index_update)
    fix j
    assume "j < length ds"
    then show "matches (ds[i := d] ! j) m = matches (ds ! j) m" using d i(1) by (cases "j = i") simp_all
  qed
  have "first_index m ds \<noteq> Some i" if "m \<noteq> n" using first_index_Some [of m ds i] d(2) that by blast
  then show ?thesis using Some i by (cases "first_index m ds") (auto simp: put_first_def e)
qed

lemma put_cookie_list:
  assumes "cookies_ok req" "cookies req \<noteq> None" "i < num_of_cookies req"
  shows "\<exists>req'. put_cookie req i c = Inr req' \<and> cookies_ok req' \<and> cookies req' \<noteq> None
     \<and> cookie_list req' = (cookie_list req)[i := cdata c] \<and> num_of_cookies req' = num_of_cookies req"
  using assms by (auto simp: cookies_ok_def put_cookie_def cookie_list_def map_update take_update_swap)

lemma set_cookie_cases:
  assumes "cookies_ok req" "cookies req \<noteq> None"
  obtains e where "vely_set_cookie req n v path expires samesite httponly secure = Inl (Report_error e)"
  | clause req' where "vely_set_cookie req n v path expires samesite httponly secure = Inr req'"
      "vely_check_set_cookie n v secure samesite httponly 200 = Inr clause" "cookies_ok req'" "cookies req' \<noteq> None"
      "cookie_list req' = put_first n (snprintf_text (VV_MAX_COOKIE_SIZE + 1) (cookie_text n v path expires clause)) (cookie_list req)"
      "data_was_output req \<noteq> 1"
proof -
  let ?r = "vely_set_cookie req n v path expires samesite httponly secure"
  note f = find_cookie_list [OF assms(1), of n]
  consider (early) "\<exists>e. ?r = Inl (Report_error e)" | (checked) clause where "data_was_output req \<noteq> 1" "vely_check_set_cookie n v secure samesite httponly 200 = Inr clause"
  proof (cases "data_was_output req = 1")
    case False
    show ?thesis
      using check_set_cookie_cases [of n v secure samesite httponly 200]
    proof
      assume "\<exists>e. vely_check_set_cookie n v secure samesite httponly 200 = Inl (Report_error e)"
      then show ?thesis using that(1) False by (auto simp: vely_set_cookie_def res_bind_def)
    qed (use that(2) False in blast)
  qed (use that(1) in \<open>simp add: vely_set_cookie_def\<close>)
  then show ?thesis
  proof cases
    case early
    then show ?thesis using that(1) by blast
  next
    case (checked clause)
    let ?d = "snprintf_text (VV_MAX_COOKIE_SIZE + 1) (cookie_text n v path expires clause)"
    let ?c = "\<lparr>cdata = ?d, is_set_by_program = 1\<rparr>"
    show ?thesis
    proof (cases "first_index n (cookie_list req)")
      case None
      then have r: "?r = (if num_of_cookies req + 1 \<ge> VV_MAX_COOKIES then Inl (Report_error ''Too many cookies [%lld]'')
          else put_cookie (req\<lparr>num_of_cookies := num_of_cookies req + 1\<rparr>) (num_of_cookies req) ?c)"
        using checked f by (simp add: vely_set_cookie_def res_bind_def cookie_found_def)
      show ?thesis
      proof (cases "num_of_cookies req + 1 \<ge> VV_MAX_COOKIES")
        case False
        obtain cs where cs: "cookies req = Some cs" "length cs = VV_MAX_COOKIES" using assms(1,2) by (auto simp: cookies_ok_def)
        let ?req = "(req\<lparr>num_of_cookies := num_of_cookies req + 1\<rparr>)\<lparr>cookies := Some (cs[num_of_cookies req := ?c])\<rparr>"
        have "?r = Inr ?req" using r False cs by (simp add: put_cookie_def)
        moreover have "cookies_ok ?req" "cookies ?req \<noteq> None" using cs False by (simp_all add: cookies_ok_def)
        moreover have "cookie_list ?req = cookie_list req @ [?d]"
          using cs False by (simp add: cookie_list_def take_Suc_conv_app_nth)
        ultimately show ?thesis using that(2) [OF _ checked(2) _ _ _ checked(1)] None by (simp add: put_first_def)
      qed (use r that(1) in simp)
    next
      case (Some i)
      then have i: "i < num_of_cookies req" using first_index_Some cookie_list_length [OF assms(1)] by fastforce
      have "?r = put_cookie req i ?c"
        using checked f Some by (simp add: vely_set_cookie_def res_bind_def cookie_found_def)
      then show ?thesis
        using put_cookie_list [OF assms(1,2) i, of ?c] that(2) [OF _ checked(2) _ _ _ checked(1)] Some by (auto simp: put_first_def)
    qed
  qed
qed

section \<open>Properties\<close>

lemma cookie_text_split: "\<exists>r. clause = CHR '';'' # r \<Longrightarrow> \<exists>r. cookie_text n v path expires clause = n @ ''='' @ v @ CHR '';'' # r"
  by (auto simp: cookie_text_def)

lemma cut_cookie:
  assumes "CHR '';'' \<notin> set v" "length n + 1 + length v \<le> k"
  shows "matches (take k (n @ ''='' @ v @ CHR '';'' # r)) n" "cookie_value (take k (n @ ''='' @ v @ CHR '';'' # r)) n = v"
proof -
  have "take k (n @ ''='' @ v @ CHR '';'' # r) = n @ CHR ''='' # v @ take (k - (length n + 1 + length v)) (CHR '';'' # r)"
    using assms(2) by (simp add: take_Cons')
  moreover have "takeWhile (\<lambda>c. c \<noteq> CHR '';'') (v @ take j (CHR '';'' # r)) = v" for j
    using assms(1) by (cases j) (auto simp: takeWhile_append takeWhile_eq_all_conv split: if_splits)
  ultimately show "matches (take k (n @ ''='' @ v @ CHR '';'' # r)) n"
    "cookie_value (take k (n @ ''='' @ v @ CHR '';'' # r)) n = v"
    by (auto simp: matches_iff cookie_value_def)
qed

lemma found_value: "fst (cookie_found m ds (first_index m ds))
    = (case map_option (\<lambda>i. ds ! i) (first_index m ds) of None \<Rightarrow> [] | Some d \<Rightarrow> cookie_value d m)"
  by (simp add: cookie_found_def split: option.split)

text \<open>C24: a cookie that was set is found again with its value, whatever its path, expiration and flags, and all
  other cookies keep their values, if its name and value fit the longest cookie.\<close>

theorem set_cookie_found:
  assumes "cookies_ok req" "cookies req \<noteq> None" "length n + 1 + length v \<le> VV_MAX_COOKIE_SIZE"
    and "vely_set_cookie req n v path expires samesite httponly secure = Inr req'" and "CHR ''='' \<notin> set m"
  shows "map_sum id fst (vely_find_cookie req' m) = (if m = n then Inr v else map_sum id fst (vely_find_cookie req m))"
proof -
  obtain clause where c: "vely_check_set_cookie n v secure samesite httponly 200 = Inr clause" "cookies_ok req'"
      "cookie_list req' = put_first n (snprintf_text (VV_MAX_COOKIE_SIZE + 1) (cookie_text n v path expires clause)) (cookie_list req)"
    by (rule set_cookie_cases [OF assms(1,2), of n v path expires samesite httponly secure]) (use assms(4) in simp_all)
  note k = check_set_cookie_Inr [OF c(1)]
  obtain r where r: "cookie_text n v path expires clause = n @ ''='' @ v @ CHR '';'' # r" using cookie_text_split [OF k(5)] by blast
  let ?d = "take VV_MAX_COOKIE_SIZE (n @ ''='' @ v @ CHR '';'' # r)"
  have d: "matches ?d n" "cookie_value ?d n = v" using cut_cookie [OF value_no_semi [OF k(3)] assms(3)] by blast+
  have "fst (cookie_found m (put_first n ?d (cookie_list req)) (first_index m (put_first n ?d (cookie_list req))))
      = (if m = n then v else fst (cookie_found m (cookie_list req) (first_index m (cookie_list req))))"
    unfolding found_value first_index_put_first [OF d(1) name_no_eq [OF k(1)] assms(5)] using d(2) by simp
  then show ?thesis
    using find_cookie_list [OF c(2), of m] find_cookie_list [OF assms(1), of m] c(3) by (simp add: snprintf_text_def r)
qed

definition no_cookies :: vely_input_req where
  "no_cookies = vely_init_input_req\<lparr>cookies := Some (replicate VV_MAX_COOKIES \<lparr>cdata = [], is_set_by_program = 0\<rparr>)\<rparr>"

lemma no_cookies_ok: "cookies_ok no_cookies" "cookies no_cookies \<noteq> None" "num_of_cookies no_cookies = 0" "data_was_output no_cookies = 0"
  by (simp_all add: no_cookies_def cookies_ok_def vely_init_input_req_def)

lemma set_first_cookie:
  "\<exists>req'. vely_set_cookie no_cookies ''a'' ''1'' (Some ''/'') None [] [] ''Secure; '' = Inr req'"
proof -
  have "vely_find_cookie no_cookies ''a'' = Inr ([], -1, None, None)"
    by (simp add: vely_find_cookie_def find_cookie_loop.simps no_cookies_ok)
  moreover have "vely_check_set_cookie ''a'' ''1'' ''Secure; '' [] [] 200 = Inr ''; Secure; ''"
    by (simp add: vely_check_set_cookie_def name_char_def snprintf_text_def schar_def)
  ultimately show ?thesis
    using no_cookies_ok by (simp add: vely_set_cookie_def res_bind_def put_cookie_def no_cookies_def VV_MAX_COOKIES_def)
qed

theorem set_cookie_found_witness:
  "\<exists>req'. vely_set_cookie no_cookies ''a'' ''1'' (Some ''/'') None [] [] ''Secure; '' = Inr req'
     \<and> map_sum id fst (vely_find_cookie req' ''a'')
         = (if ''a'' = ''a'' then Inr ''1'' else map_sum id fst (vely_find_cookie no_cookies ''a''))"
proof -
  obtain req' where r: "vely_set_cookie no_cookies ''a'' ''1'' (Some ''/'') None [] [] ''Secure; '' = Inr req'"
    using set_first_cookie by blast
  have "map_sum id fst (vely_find_cookie req' ''a'')
      = (if ''a'' = ''a'' then Inr ''1'' else map_sum id fst (vely_find_cookie no_cookies ''a''))"
    by (rule set_cookie_found [OF no_cookies_ok(1,2) _ r]) (simp_all add: VV_MAX_COOKIE_SIZE_def)
  then show ?thesis using r by blast
qed

section \<open>Any sequence of operations\<close>

datatype cookie_call =
  Set_cookie string string "string option" "string option" string string string
| Delete_cookie string "string option" string

fun cookie_op :: "vely_input_req \<Rightarrow> cookie_call \<Rightarrow> vely_input_req res" where
  "cookie_op req (Set_cookie n v path expires samesite httponly secure) =
     vely_set_cookie req n v path expires samesite httponly secure"
| "cookie_op req (Delete_cookie n path secure) = res_bind (vely_delete_cookie req n path secure) (\<lambda>(_, req'). Inr req')"

lemma delete_cookie_cases:
  assumes "cookies_ok req" "cookies req \<noteq> None"
  obtains (error) e where "vely_delete_cookie req n path secure = Inl (Report_error e)"
  | (absent) "first_index n (cookie_list req) = None" "vely_delete_cookie req n path secure = Inr (-1, req)"
  | (deleted) i clause req' where "first_index n (cookie_list req) = Some i"
      "vely_delete_cookie req n path secure = Inr (int i, req')"
      "vely_check_set_cookie n ''deleted'' secure [] [] 200 = Inr clause" "cookies_ok req'" "cookies req' \<noteq> None"
      "cookie_list req' = (cookie_list req)[i := snprintf_text 300 (deleted_text n (if path \<noteq> None then path
          else cookie_field (drop (length n + 1) (cookie_list req ! i)) ''; Path='') clause)]"
proof (cases "first_index n (cookie_list req)")
  case None
  then show ?thesis
    using find_cookie_list [OF assms(1), of n] absent by (simp add: vely_delete_cookie_def res_bind_def cookie_found_def)
next
  case (Some i)
  then have i: "i < num_of_cookies req" using first_index_Some cookie_list_length [OF assms(1)] by fastforce
  show ?thesis
    using check_set_cookie_cases [of n "''deleted''" secure "[]" "[]" 200]
  proof
    assume "\<exists>e. vely_check_set_cookie n ''deleted'' secure [] [] 200 = Inl (Report_error e)"
    then show ?thesis
      using find_cookie_list [OF assms(1), of n] Some error
      by (auto simp: vely_delete_cookie_def res_bind_def cookie_found_def)
  next
    assume "\<exists>clause. vely_check_set_cookie n ''deleted'' secure [] [] 200 = Inr clause"
    then obtain clause where c: "vely_check_set_cookie n ''deleted'' secure [] [] 200 = Inr clause" by blast
    let ?p = "if path \<noteq> None then path else cookie_field (drop (length n + 1) (cookie_list req ! i)) ''; Path=''"
    let ?c = "\<lparr>cdata = snprintf_text 300 (deleted_text n ?p clause), is_set_by_program = 1\<rparr>"
    obtain req' where r: "put_cookie req i ?c = Inr req'" "cookies_ok req'" "cookies req' \<noteq> None"
        "cookie_list req' = (cookie_list req)[i := cdata ?c]"
      using put_cookie_list [OF assms i] by blast
    have "vely_delete_cookie req n path secure = Inr (int i, req')"
      using find_cookie_list [OF assms(1), of n] Some c r(1)
      by (cases path) (simp_all add: vely_delete_cookie_def res_bind_def cookie_found_def Let_def)
    then show ?thesis using deleted [OF Some _ c r(2,3)] r(4) by simp
  qed
qed

definition cookies_safe :: "vely_input_req res \<Rightarrow> bool" where
  "cookies_safe r \<longleftrightarrow> (case r of Inl e \<Rightarrow> \<exists>t. e = Report_error t | Inr req \<Rightarrow> cookies_ok req \<and> cookies req \<noteq> None)"

lemma cookie_op_safe: "cookies_ok req \<Longrightarrow> cookies req \<noteq> None \<Longrightarrow> cookies_safe (cookie_op req x)"
proof (induction req x rule: cookie_op.induct)
  case (1 req n v path expires samesite httponly secure)
  then show ?case
    by (auto simp: cookies_safe_def intro: set_cookie_cases [of req n v path expires samesite httponly secure])
next
  case (2 req n path secure)
  then show ?case
    by (auto simp: cookies_safe_def res_bind_def intro: delete_cookie_cases [of req n path secure])
qed

lemma cookie_ops_safe: "cookies_ok req \<Longrightarrow> cookies req \<noteq> None \<Longrightarrow> cookies_safe (inputs cookie_op xs req)"
proof (induction xs arbitrary: req)
  case (Cons x xs)
  note safe = cookie_op_safe [OF Cons.prems, of x]
  show ?case
  proof (cases "cookie_op req x")
    case (Inr req')
    then have "cookies_safe (inputs cookie_op xs req')" using safe Cons.IH by (simp add: cookies_safe_def)
    then show ?thesis using Inr by (simp add: res_bind_def)
  qed (use safe in \<open>simp add: cookies_safe_def res_bind_def\<close>)
qed (simp add: cookies_safe_def)

lemma input_cookies_ok:
  "length cs = VV_MAX_COOKIES \<Longrightarrow>
     (case input_cookies_loop cookie tot cs of Inl e \<Rightarrow> \<exists>t. e = Report_error t
      | Inr (n, cs') \<Rightarrow> n \<le> VV_MAX_COOKIES \<and> length cs' = VV_MAX_COOKIES)"
proof (induction cookie tot cs rule: input_cookies_loop.induct)
  case (1 cookie tot cs)
  then show ?case
    by (subst input_cookies_loop.simps) (auto simp: Let_def split: list.split)
qed

lemma read_cookies_safe: "cookies_safe (read_cookies getenv vely_init_input_req)"
proof -
  have n: "cookies vely_init_input_req = None" "num_of_cookies vely_init_input_req = 0" by (simp_all add: vely_init_input_req_def)
  show ?thesis
    using input_cookies_ok [of "replicate VV_MAX_COOKIES \<lparr>cdata = [], is_set_by_program = 0\<rparr>" "getenv ''HTTP_COOKIE''" 0]
    by (auto simp: read_cookies_def n cookies_safe_def cookies_ok_def Let_def res_bind_def split: sum.splits)
qed

lemma read_cookies_frame: "read_cookies getenv req = Inr req' \<Longrightarrow> \<exists>cs n. req' = req\<lparr>cookies := cs, num_of_cookies := n\<rparr>"
proof -
  assume r: "read_cookies getenv req = Inr req'"
  then consider "req' = req" | cs n where "req' = req\<lparr>cookies := cs, num_of_cookies := n\<rparr>"
    by (auto simp: read_cookies_def Let_def res_bind_def split: sum.splits if_splits)
  then show ?thesis
  proof cases
    case 1
    then show ?thesis by (intro exI [of _ "cookies req"] exI [of _ "num_of_cookies req"]) simp
  qed blast
qed

text \<open>C26: after the cookies of the client are read, any sequence of setting and deleting cookies stays within the array
  of \<open>VV_MAX_COOKIES\<close> entries: it ends with a reported error or with a request whose count of cookies
  is within the array.\<close>

theorem cookies_stay_in_array:
  "cookies_safe (res_bind (read_cookies getenv vely_init_input_req) (inputs cookie_op xs))"
  using cookie_ops_safe read_cookies_safe [of getenv]
  by (cases "read_cookies getenv vely_init_input_req") (simp_all add: cookies_safe_def res_bind_def)

section \<open>Deleted cookies\<close>

lemma same_semi: "same_char False c CHR '';'' \<longleftrightarrow> c = CHR '';''"
proof (cases "isupper c")
  case True
  then have "uchar (tolower c) = uchar c + 32" by (simp add: tolower_def isupper_def)
  moreover have "uchar CHR '';'' = 59" by (simp add: uchar_def)
  ultimately have "tolower c \<noteq> CHR '';''" "c \<noteq> CHR '';''" using True by (auto simp: isupper_def)
  then show ?thesis by (simp add: same_char_def tolower_def isupper_def uchar_def)
next
  case False
  then have "tolower c = c" by (simp add: tolower_def)
  then show ?thesis by (simp add: same_char_def tolower_def isupper_def uchar_def)
qed

lemma find_str_skip:
  "CHR '';'' \<notin> set a \<Longrightarrow>
     find_str False (a @ b) (CHR '';'' # f) = map_option ((+) (length a)) (find_str False b (CHR '';'' # f))"
proof (induction a)
  case Nil
  show ?case by (cases "find_str False b (CHR '';'' # f)") simp_all
next
  case (Cons c a)
  then show ?case by (cases "find_str False b (CHR '';'' # f)") (auto simp: same_semi)
qed

lemma find_next:
  "CHR '';'' \<notin> set a \<Longrightarrow> find_str False (a @ CHR '';'' # b) (CHR '';'' # f)
     = (if starts False b f then Some (length a) else map_option (\<lambda>k. length a + 1 + k) (find_str False b (CHR '';'' # f)))"
  using find_str_skip [of a "CHR '';'' # b" f]
  by (cases "find_str False b (CHR '';'' # f)") (auto simp: same_semi)

lemma other_labels:
  "\<not> starts False (('' Path='' @ p) @ s) '' Expires=''" "\<not> starts False ('' Max-Age=0'' @ s) '' Expires=''"
  "starts False ('' Expires='' @ s) '' Expires=''"
  by (simp_all add: same_char_def tolower_def isupper_def uchar_def)

definition epoch :: string where
  "epoch = ''Thu, 01 Jan 1970 01:01:01 GMT''"

lemma deleted_field:
  assumes "CHR '';'' \<notin> set p" "length n + length p + 65 \<le> 299" "\<exists>r. clause = CHR '';'' # r"
  shows "cookie_field (drop (length n + 1) (take 299 (deleted_text n (Some p) clause))) ''; Expires='' = Some epoch"
proof -
  let ?t = "take (299 - (length n + 65 + length p)) clause"
  have "take 299 (deleted_text n (Some p) clause)
      = n @ ''=deleted; Path='' @ p @ ''; Max-Age=0'' @ ''; Expires='' @ epoch @ ?t"
    using assms(2) by (simp add: deleted_text_def epoch_def take_Cons')
  then have d: "drop (length n + 1) (take 299 (deleted_text n (Some p) clause))
      = ''deleted'' @ ''; Path='' @ p @ ''; Max-Age=0'' @ ''; Expires='' @ epoch @ ?t" by simp
  have f: "find_str False (''deleted'' @ ''; Path='' @ p @ ''; Max-Age=0'' @ ''; Expires='' @ epoch @ ?t) ''; Expires=''
      = Some (25 + length p)"
  proof -
    let ?x3 = "'' Expires='' @ epoch @ ?t"
    let ?x2 = "'' Max-Age=0'' @ CHR '';'' # ?x3"
    let ?x1 = "('' Path='' @ p) @ CHR '';'' # ?x2"
    have 3: "find_str False ?x2 ''; Expires='' = Some (length '' Max-Age=0'')"
      by (subst find_next) (simp, simp only: other_labels if_True)
    have 2: "find_str False ?x1 ''; Expires='' = Some (length ('' Path='' @ p) + 1 + length '' Max-Age=0'')"
      by (subst find_next) (use assms(1) in simp, simp only: other_labels if_False 3 option.map)
    have "find_str False (''deleted'' @ CHR '';'' # ?x1) ''; Expires=''
        = Some (length ''deleted'' + 1 + (length ('' Path='' @ p) + 1 + length '' Max-Age=0''))"
      by (subst find_next) (simp, simp only: other_labels if_False 2 option.map)
    then show ?thesis by simp
  qed
  have e: "''deleted'' @ ''; Path='' @ p @ ''; Max-Age=0'' @ ''; Expires='' @ epoch @ ?t
      = (''deleted; Path='' @ p @ ''; Max-Age=0; Expires='') @ (epoch @ ?t)" by simp
  have drop: "drop k (a @ b) = b" if "length a = k" for k and a b :: string using that by simp
  have r: "drop (25 + length p + length ''; Expires='') (''deleted'' @ ''; Path='' @ p @ ''; Max-Age=0'' @ ''; Expires='' @ epoch @ ?t)
      = epoch @ ?t"
    unfolding e by (rule drop) simp
  have "takeWhile (\<lambda>c. c \<noteq> CHR '';'') (epoch @ ?t) = epoch"
    using assms(3) by (cases "299 - (length n + 65 + length p)") (auto simp: epoch_def)
  then show ?thesis unfolding cookie_field_def d f option.map r by (rule arg_cong)
qed

lemma find_str_none: "CHR '';'' \<notin> set a \<Longrightarrow> find_str False a (CHR '';'' # f) = None"
  using find_str_skip [of a "[]" f] by simp

lemma cut_field:
  assumes "CHR '';'' \<notin> set p" "length n \<le> 290" "length n + length p \<ge> 284"
  shows "cookie_field (drop (length n + 1) (take 299 (deleted_text n (Some p) clause))) ''; Expires='' = None"
proof -
  let ?b = "take (290 - length n) ('' Path='' @ p)"
  have "take 299 (deleted_text n (Some p) clause) = n @ ''='' @ ''deleted'' @ CHR '';'' # ?b"
    using assms(2,3) by (simp add: deleted_text_def take_Cons')
  then have d: "drop (length n + 1) (take 299 (deleted_text n (Some p) clause)) = ''deleted'' @ CHR '';'' # ?b" by simp
  have "\<not> starts False ?b '' Expires=''"
  proof
    assume "starts False ?b '' Expires=''"
    moreover from this have "9 \<le> length ?b" using starts_length by fastforce
    then have n: "length n \<le> 281" unfolding length_take by (simp, arith)
    have "take (290 - length n) '' Path='' = '' Path=''" using n by (intro take_all) simp
    then have "?b = ('' Path='' @ take (284 - length n) p) @ []" unfolding take_append by simp
    ultimately show False using other_labels(1) by metis
  qed
  moreover have "CHR '';'' \<notin> set ?b" using assms(1) by (auto dest: in_set_takeD)
  ultimately have nn: "find_str False ?b ''; Expires='' = None" "\<not> starts False ?b '' Expires=''"
    using find_str_none by blast+
  have "find_str False (''deleted'' @ CHR '';'' # ?b) ''; Expires='' = None"
    by (subst find_next) (simp, simp only: if_False nn option.map)
  then show ?thesis unfolding cookie_field_def d by simp
qed

lemma deleted_value:
  assumes "length n \<le> 290"
  shows "matches (take 299 (deleted_text n (Some p) clause)) n" "cookie_value (take 299 (deleted_text n (Some p) clause)) n = ''deleted''"
proof -
  obtain r where r: "deleted_text n (Some p) clause = n @ ''='' @ ''deleted'' @ CHR '';'' # r" by (simp add: deleted_text_def)
  show "matches (take 299 (deleted_text n (Some p) clause)) n" "cookie_value (take 299 (deleted_text n (Some p) clause)) n = ''deleted''"
    unfolding r by (rule cut_cookie, simp, use assms in simp)+
qed

text \<open>A deleted cookie is sent with the value \<^verbatim>\<open>deleted\<close> and an expiration in the past as long as its name and path have at most
  234 characters; with a path so long that the buffer of 300 bytes is full with it, it is sent without any
  expiration, so that the client keeps it.\<close>

lemma delete_cookie_expires:
  assumes "cookies_ok req" "cookies req \<noteq> None" "first_index n (cookie_list req) = Some i" "CHR '';'' \<notin> set p" "length n \<le> 290"
    and "vely_delete_cookie req n (Some p) secure = Inr (ci, req')"
  shows "ci = int i \<and> map_sum id fst (vely_find_cookie req' n) = Inr ''deleted''
    \<and> (length n + length p \<le> 234 \<longrightarrow> map_sum id (snd \<circ> snd \<circ> snd) (vely_find_cookie req' n) = Inr (Some epoch))
    \<and> (284 \<le> length n + length p \<longrightarrow> map_sum id (snd \<circ> snd \<circ> snd) (vely_find_cookie req' n) = Inr None)"
proof -
  obtain clause where c: "ci = int i" "vely_check_set_cookie n ''deleted'' secure [] [] 200 = Inr clause" "cookies_ok req'"
      "cookie_list req' = (cookie_list req)[i := take 299 (deleted_text n (Some p) clause)]"
    by (rule delete_cookie_cases [OF assms(1,2), of n "Some p" secure]) (use assms(3,6) in \<open>auto simp: snprintf_text_def\<close>)
  note d = deleted_value [OF assms(5), of p clause] and i = first_index_Some [OF assms(3)]
  have "first_index n (cookie_list req') = first_index n (cookie_list req)"
    unfolding c(4)
  proof (rule first_index_update)
    fix j
    assume "j < length (cookie_list req)"
    then show "matches ((cookie_list req)[i := take 299 (deleted_text n (Some p) clause)] ! j) n = matches (cookie_list req ! j) n"
      using d(1) i by (cases "j = i") simp_all
  qed
  then have f: "vely_find_cookie req' n = Inr (cookie_found n (cookie_list req') (Some i))"
    using find_cookie_list [OF c(3), of n] assms(3) by simp
  have e: "cookie_list req' ! i = take 299 (deleted_text n (Some p) clause)" using i by (simp add: c(4))
  show ?thesis
    using c(1) d(2) deleted_field [OF assms(4) _ check_set_cookie_Inr(5) [OF c(2)], of n] cut_field [OF assms(4,5), of clause]
    by (simp add: f cookie_found_def e)
qed

lemma set_and_delete:
  "\<exists>req' req''. vely_set_cookie no_cookies ''a'' ''1'' (Some ''/'') None [] [] ''Secure; '' = Inr req'
     \<and> cookies_ok req' \<and> cookies req' \<noteq> None \<and> first_index ''a'' (cookie_list req') = Some 0
     \<and> vely_delete_cookie req' ''a'' (Some ''/'') ''Secure; '' = Inr (0, req'')"
proof -
  obtain req' where r: "vely_set_cookie no_cookies ''a'' ''1'' (Some ''/'') None [] [] ''Secure; '' = Inr req'"
    using set_first_cookie by blast
  have e: "cookie_list no_cookies = []" by (simp add: cookie_list_def no_cookies_ok split: option.split)
  obtain clause where c: "vely_check_set_cookie ''a'' ''1'' ''Secure; '' [] [] 200 = Inr clause" "cookies_ok req'" "cookies req' \<noteq> None"
      "cookie_list req' = [take 2048 (cookie_text ''a'' ''1'' (Some ''/'') None clause)]"
    by (rule set_cookie_cases [OF no_cookies_ok(1,2), of "''a''" "''1''" "Some ''/''" None "[]" "[]" "''Secure; ''"])
      (use r in \<open>auto simp: snprintf_text_def VV_MAX_COOKIE_SIZE_def e put_first_def first_index_def\<close>)
  have "matches (take 2048 (cookie_text ''a'' ''1'' (Some ''/'') None clause)) ''a''"
    by (simp add: cookie_text_def unset_def matches_iff)
  then have f: "first_index ''a'' (cookie_list req') = Some 0" by (simp add: first_index_def c(4))
  have k: "vely_check_set_cookie ''a'' ''deleted'' ''Secure; '' [] [] 200 = Inr ''; Secure; ''"
    by (simp add: vely_check_set_cookie_def name_char_def snprintf_text_def schar_def)
  have "num_of_cookies req' = 1" using cookie_list_length [OF c(2)] c(4) by simp
  then obtain req'' where "put_cookie req' 0 \<lparr>cdata = snprintf_text 300 (deleted_text ''a'' (Some ''/'') ''; Secure; ''),
      is_set_by_program = 1\<rparr> = Inr req''"
    using put_cookie_list [OF c(2,3), of 0 "\<lparr>cdata = snprintf_text 300 (deleted_text ''a'' (Some ''/'') ''; Secure; ''), is_set_by_program = 1\<rparr>"]
    by auto
  then have "vely_delete_cookie req' ''a'' (Some ''/'') ''Secure; '' = Inr (0, req'')"
    using find_cookie_list [OF c(2), of "''a''"] f k by (simp add: vely_delete_cookie_def res_bind_def cookie_found_def Let_def)
  then show ?thesis using r c(2,3) f by blast
qed

lemma delete_cookie_expires_witness:
  "\<exists>req' req''. vely_set_cookie no_cookies ''a'' ''1'' (Some ''/'') None [] [] ''Secure; '' = Inr req'
     \<and> vely_delete_cookie req' ''a'' (Some ''/'') ''Secure; '' = Inr (0, req'')
     \<and> map_sum id fst (vely_find_cookie req'' ''a'') = Inr ''deleted''
     \<and> map_sum id (snd \<circ> snd \<circ> snd) (vely_find_cookie req'' ''a'') = Inr (Some epoch)"
proof -
  obtain req' req'' where r: "vely_set_cookie no_cookies ''a'' ''1'' (Some ''/'') None [] [] ''Secure; '' = Inr req'"
      "cookies_ok req'" "cookies req' \<noteq> None" "first_index ''a'' (cookie_list req') = Some 0"
      "vely_delete_cookie req' ''a'' (Some ''/'') ''Secure; '' = Inr (0, req'')"
    using set_and_delete by blast
  have "0 = int 0 \<and> map_sum id fst (vely_find_cookie req'' ''a'') = Inr ''deleted''
    \<and> (length ''a'' + length ''/'' \<le> 234 \<longrightarrow> map_sum id (snd \<circ> snd \<circ> snd) (vely_find_cookie req'' ''a'') = Inr (Some epoch))
    \<and> (284 \<le> length ''a'' + length ''/'' \<longrightarrow> map_sum id (snd \<circ> snd \<circ> snd) (vely_find_cookie req'' ''a'') = Inr None)"
    by (rule delete_cookie_expires [OF r(2-4) _ _ r(5)]) simp_all
  then show ?thesis using r by auto
qed

section \<open>The cookies of the client\<close>

fun client_header :: "(string \<times> string) list \<Rightarrow> string" where
  "client_header [] = []"
| "client_header [(n, v)] = n @ ''='' @ v"
| "client_header ((n, v) # p # ps) = n @ ''='' @ v @ ''; '' @ client_header (p # ps)"

definition pair_text :: "string \<times> string \<Rightarrow> string" where
  "pair_text p = fst p @ ''='' @ snd p"

definition pair_ok :: "string \<times> string \<Rightarrow> bool" where
  "pair_ok p \<longleftrightarrow> list_all name_char (fst p) \<and> CHR '';'' \<notin> set (snd p)"

lemma first_value: "map_option (\<lambda>i. ds ! i) (first_index m ds) = List.find (\<lambda>d. matches d m) ds"
proof (induction ds rule: rev_induct)
  case Nil
  then show ?case by (simp add: first_index_def)
next
  case (snoc d ds)
  have fa: "List.find P (xs @ ys) = (case List.find P xs of Some x \<Rightarrow> Some x | None \<Rightarrow> List.find P ys)"
    for P :: "string \<Rightarrow> bool" and xs ys by (induction xs) auto
  show ?case
    using first_index_Some [of m ds]
    by (cases "first_index m ds") (simp_all add: first_index_snoc fa snoc.IH [symmetric] nth_append)
qed

lemma pair_text_semi: "pair_ok p \<Longrightarrow> CHR '';'' \<notin> set (pair_text p)"
  by (auto simp: pair_ok_def pair_text_def list_all_iff name_char_def)

lemma space_low: "isspace c \<Longrightarrow> schar c < 33"
  by (auto simp: isspace_def schar_def)

lemma client_header_hd: "pair_ok p \<Longrightarrow> dropWhile isspace (client_header (p # ps)) = client_header (p # ps)"
proof -
  assume p: "pair_ok p"
  obtain n v where nv: "p = (n, v)" by (cases p)
  have "\<exists>c s. client_header (p # ps) = c # s \<and> \<not> isspace c"
  proof (cases n)
    case Nil
    then show ?thesis using nv by (cases ps) (simp_all add: isspace_def)
  next
    case (Cons c n')
    then have "name_char c" using p nv by (simp add: pair_ok_def)
    then have "\<not> isspace c" using space_low by (auto simp: name_char_def)
    then show ?thesis using nv Cons by (cases ps) simp_all
  qed
  then obtain c s where "client_header (p # ps) = c # s" "\<not> isspace c" by blast
  then show ?thesis by (simp del: client_header.simps)
qed

lemma input_cookies_pairs:
  assumes "list_all pair_ok ps" "ps \<noteq> []" "length cs = VV_MAX_COOKIES" "tot + length ps \<le> VV_MAX_COOKIES"
  shows "\<exists>cs'. input_cookies_loop (client_header ps) tot cs = Inr (tot + length ps, cs') \<and> length cs' = VV_MAX_COOKIES
     \<and> map cdata (take (tot + length ps) cs') = map cdata (take tot cs) @ map pair_text ps"
  using assms
proof (induction ps arbitrary: tot cs rule: client_header.induct)
  case (2 n v)
  let ?cs = "cs[tot := (cs ! tot)\<lparr>cdata := pair_text (n, v)\<rparr>]"
  have s: "CHR '';'' \<notin> set (n @ ''='' @ v)" using pair_text_semi [of "(n, v)"] 2 by (simp add: pair_text_def)
  have t: "client_header [(n, v)] = n @ ''='' @ v" by simp
  have w: "takeWhile (\<lambda>c. c \<noteq> CHR '';'') (client_header [(n, v)]) = n @ ''='' @ v"
      "dropWhile (\<lambda>c. c \<noteq> CHR '';'') (client_header [(n, v)]) = []"
    unfolding t using s by (auto simp: takeWhile_eq_all_conv dropWhile_eq_Nil_conv)
  have "input_cookies_loop (client_header [(n, v)]) tot cs = Inr (tot + 1, ?cs)"
    using 2 by (subst input_cookies_loop.simps) (simp add: w pair_text_def Let_def del: client_header.simps)
  then show ?case using 2 by (simp add: take_Suc_conv_app_nth)
next
  case (3 n v p ps)
  let ?cs = "cs[tot := (cs ! tot)\<lparr>cdata := pair_text (n, v)\<rparr>]" and ?h = "client_header (p # ps)"
  have s: "CHR '';'' \<notin> set (n @ ''='' @ v)" using pair_text_semi [of "(n, v)"] 3 by (simp add: pair_text_def)
  have t: "client_header ((n, v) # p # ps) = (n @ ''='' @ v) @ CHR '';'' # CHR '' '' # ?h" by simp
  have w: "takeWhile (\<lambda>c. c \<noteq> CHR '';'') (client_header ((n, v) # p # ps)) = n @ ''='' @ v"
      "dropWhile (\<lambda>c. c \<noteq> CHR '';'') (client_header ((n, v) # p # ps)) = CHR '';'' # CHR '' '' # ?h"
    unfolding t using s by (auto simp: takeWhile_append dropWhile_append)
  have sp: "isspace CHR '' ''" "dropWhile isspace ?h = ?h" using client_header_hd 3 by (simp_all add: isspace_def)
  have e: "input_cookies_loop (client_header ((n, v) # p # ps)) tot cs = input_cookies_loop ?h (tot + 1) ?cs"
    using 3 by (subst input_cookies_loop.simps) (simp add: w sp pair_text_def Let_def del: client_header.simps)
  obtain cs' where cs': "input_cookies_loop ?h (tot + 1) ?cs = Inr (tot + 1 + length (p # ps), cs')" "length cs' = VV_MAX_COOKIES"
      "map cdata (take (tot + 1 + length (p # ps)) cs') = map cdata (take (tot + 1) ?cs) @ map pair_text (p # ps)"
    using "3.IH" [of ?cs "tot + 1"] "3.prems" by auto
  show ?case using cs' "3.prems" unfolding e by (simp add: take_Suc_conv_app_nth)
qed simp

text \<open>C25: a client that sends cookies with the names and values \<open>ps\<close> (at most \<open>VV_MAX_COOKIES\<close>) is understood: finding a cookie
  gives the value of the first pair of that name, and an empty string if there is none.\<close>

theorem client_cookies_found:
  assumes "list_all pair_ok ps" "length ps \<le> VV_MAX_COOKIES" "getenv ''HTTP_COOKIE'' = client_header ps" "CHR ''='' \<notin> set m"
  shows "\<exists>req. read_cookies getenv vely_init_input_req = Inr req
    \<and> map_sum id fst (vely_find_cookie req m) = Inr (case map_of ps m of None \<Rightarrow> [] | Some v \<Rightarrow> v)"
proof -
  let ?cs = "replicate VV_MAX_COOKIES \<lparr>cdata = [], is_set_by_program = 0\<rparr>"
  have v: "(case List.find (\<lambda>d. matches d m) (map pair_text ps) of None \<Rightarrow> [] | Some d \<Rightarrow> cookie_value d m)
      = (case map_of ps m of None \<Rightarrow> [] | Some v \<Rightarrow> v)"
    using assms(1)
  proof (induction ps)
    case (Cons p ps)
    obtain n v where p: "p = (n, v)" by (cases p)
    have ok: "CHR ''='' \<notin> set n" "CHR '';'' \<notin> set v" using Cons.prems name_no_eq p by (auto simp: pair_ok_def)
    have "matches (pair_text p) n" by (simp add: p matches_iff pair_text_def)
    then have e: "matches (pair_text p) m \<longleftrightarrow> m = n" using matches_unique [OF _ _ assms(4) ok(1)] by blast
    have "cookie_value (pair_text p) n = v" using ok(2) by (auto simp: p cookie_value_def pair_text_def takeWhile_eq_all_conv)
    then show ?case using Cons e by (simp add: p)
  qed simp
  show ?thesis
  proof (cases "ps = []")
    case True
    then have "read_cookies getenv vely_init_input_req = Inr no_cookies"
      using assms(3) by (simp add: read_cookies_def no_cookies_def vely_init_input_req_def)
    then show ?thesis using True by (simp add: vely_find_cookie_def find_cookie_loop.simps no_cookies_ok)
  next
    case False
    obtain cs' where cs': "input_cookies_loop (client_header ps) 0 ?cs = Inr (length ps, cs')" "length cs' = VV_MAX_COOKIES"
        "map cdata (take (length ps) cs') = map pair_text ps"
      using input_cookies_pairs [OF assms(1) False, of ?cs 0] assms(2) by auto
    let ?req = "vely_init_input_req\<lparr>cookies := Some cs', num_of_cookies := length ps\<rparr>"
    have "client_header ps \<noteq> []" using False by (cases ps rule: client_header.cases) auto
    then have r: "read_cookies getenv vely_init_input_req = Inr ?req"
      using cs'(1) assms(3) by (simp add: read_cookies_def vely_init_input_req_def res_bind_def)
    have ok: "cookies_ok ?req" "cookie_list ?req = map pair_text ps"
      using cs'(2,3) assms(2) by (simp_all add: cookies_ok_def cookie_list_def)
    have "map_sum id fst (vely_find_cookie ?req m) = Inr (case map_of ps m of None \<Rightarrow> [] | Some v \<Rightarrow> v)"
      using find_cookie_list [OF ok(1), of m] v by (simp add: found_value first_value ok(2))
    then show ?thesis using r by blast
  qed
qed

theorem client_cookies_found_witness:
  "\<exists>req. read_cookies (\<lambda>_. client_header [(''a'', ''1''), (''b'', ''2'')]) vely_init_input_req = Inr req
    \<and> map_sum id fst (vely_find_cookie req ''b'') = Inr (case map_of [(''a'', ''1''), (''b'', ''2'')] ''b'' of None \<Rightarrow> [] | Some v \<Rightarrow> v)"
  by (rule client_cookies_found) (simp_all add: pair_ok_def name_char_def schar_def VV_MAX_COOKIES_def)

end
