(* ===== verification/Output.thy ===== *)
theory Output
  imports Cookies
begin

text \<open>
  The output of a request (velyrt.c): headers and the end of them with the cookies
  (\<^verbatim>\<open>vely_output_http_header\<close>, \<^verbatim>\<open>vely_send_header\<close>, \<^verbatim>\<open>vely_gen_header_end\<close>), data written to the web or to a string
  that is being built (\<^verbatim>\<open>vely_puts\<close>, \<^verbatim>\<open>vely_printf\<close>, \<^verbatim>\<open>vely_write_to_string\<close>), error pages and files
  (\<^verbatim>\<open>vely_server_error\<close>, \<^verbatim>\<open>vely_out_file\<close>), reported errors, and the end of a request
  (\<^verbatim>\<open>vely_shut\<close>, \<^verbatim>\<open>vely_FCGI_Finish\<close>).

  The state is the request with the process variables that concern output.  The streams are seen as
  the sequence of calls on them: \<open>Line\<close> for \<^verbatim>\<open>FCGX_FPrintF\<close> (\<^verbatim>\<open>fprintf\<close> in a command-line program),
  \<open>Bytes\<close> for \<^verbatim>\<open>FCGX_PutStr\<close> (\<^verbatim>\<open>fwrite\<close>), to the error stream or not.  Whether such a call writes
  everything is a parameter \<open>dev\<close>.  An operation gives a value and a state, or a fault and the state
  in which it happened.
\<close>

section \<open>State\<close>

datatype event = Line string | Bytes bool string

record web =
  req :: vely_input_req
  finished_output :: int
  stream :: bool
  in_report :: int
  events :: "event list"
  vars :: "nat \<Rightarrow> string"

type_synonym 'a act = "web \<Rightarrow> (fault \<times> web) + ('a \<times> web)"

definition act_bind :: "'a act \<Rightarrow> ('a \<Rightarrow> 'b act) \<Rightarrow> 'b act" where
  "act_bind m f w = (case m w of Inl e \<Rightarrow> Inl e | Inr (x, w') \<Rightarrow> f x w')"

definition act_return :: "'a \<Rightarrow> 'a act" where
  "act_return x w = Inr (x, w)"

definition act_fault :: "fault \<Rightarrow> 'a act" where
  "act_fault e w = Inl (e, w)"

text \<open>A computation that does not touch the state.\<close>

definition act_res :: "'a res \<Rightarrow> 'a act" where
  "act_res r w = (case r of Inl e \<Rightarrow> Inl (e, w) | Inr x \<Rightarrow> Inr (x, w))"

text \<open>A computation that looks at the state.\<close>

definition act_get :: "(web \<Rightarrow> 'a act) \<Rightarrow> 'a act" where
  "act_get f w = f w w"

definition act_do :: "(web \<Rightarrow> web) \<Rightarrow> unit act" where
  "act_do f w = Inr ((), f w)"

abbreviation crlf :: string where "crlf \<equiv> [CHR 0x0D, CHR 0x0A]"

definition emit :: "event \<Rightarrow> web \<Rightarrow> web" where
  "emit e w = w\<lparr>events := events w @ [e]\<rparr>"

definition set_req :: "(vely_input_req \<Rightarrow> vely_input_req) \<Rightarrow> web \<Rightarrow> web" where
  "set_req f w = w\<lparr>req := f (req w)\<rparr>"

section \<open>Writing on the streams\<close>

text \<open>The four header routines share their guard.\<close>

definition header_line :: "string \<Rightarrow> web \<Rightarrow> web" where
  "header_line s w =
     (if finished_output w = 0 \<and> silent (req w) = 0 then (if stream w then emit (Line s) w else w) else w)"

definition vely_gen_set_content_length :: "string \<Rightarrow> web \<Rightarrow> web" where
  "vely_gen_set_content_length v = header_line (''Content-length: '' @ v @ crlf)"

definition vely_gen_add_header :: "string \<Rightarrow> string \<Rightarrow> web \<Rightarrow> web" where
  "vely_gen_add_header n v = header_line (n @ '': '' @ v @ crlf)"

definition vely_gen_set_content_type :: "string \<Rightarrow> web \<Rightarrow> web" where
  "vely_gen_set_content_type v = header_line (''Content-Type: '' @ v @ crlf)"

definition vely_gen_set_status :: "int \<Rightarrow> string \<Rightarrow> web \<Rightarrow> web" where
  "vely_gen_set_status st line = header_line (''Status: '' @ decimal_text st @ '' '' @ line @ crlf)"

type_synonym device = "bool \<Rightarrow> string \<Rightarrow> bool"

definition vely_gen_write :: "device \<Rightarrow> bool \<Rightarrow> string \<Rightarrow> web \<Rightarrow> int \<times> web" where
  "vely_gen_write dev is_error s w =
     (if finished_output w = 0 then
        (if stream w then (if dev is_error s then int (length s) else -1, emit (Bytes is_error s) w)
         else (int (length s), w))
      else (int (length s), w))"

section \<open>Headers\<close>

fun send_cookies :: "vely_cookie list \<Rightarrow> web \<Rightarrow> web" where
  "send_cookies [] w = w"
| "send_cookies (c # cs) w =
     send_cookies cs (if is_set_by_program c = 1 then vely_gen_add_header ''Set-Cookie'' (cdata c) w else w)"

definition vely_gen_header_end :: "device \<Rightarrow> web \<Rightarrow> web" where
  "vely_gen_header_end dev w =
     (if data_was_output (req w) = 0 then
        set_req (\<lambda>r. r\<lparr>data_was_output := 1\<rparr>)
          (if silent (req w) = 0 then
             snd (vely_gen_write dev False crlf
               (send_cookies (case cookies (req w) of None \<Rightarrow> [] | Some cs \<Rightarrow> take (num_of_cookies (req w)) cs) w))
           else w)
      else w)"

text \<open>The custom headers, up to the first that is not complete.\<close>

fun custom_headers :: "(string option \<times> string option) list \<Rightarrow> web \<Rightarrow> web" where
  "custom_headers [] w = w"
| "custom_headers ((c, v) # hs) w =
     (if c \<noteq> None \<and> v \<noteq> None then custom_headers hs (vely_gen_add_header (the c) (the v) w) else w)"

definition header_pairs :: "vely_header \<Rightarrow> (string option \<times> string option) list" where
  "header_pairs h = zip (take VV_MAX_HTTP_HEADER (control h)) (take VV_MAX_HTTP_HEADER (control_value h))"

definition vely_send_header :: "vely_header option \<Rightarrow> web \<Rightarrow> web" where
  "vely_send_header h w =
     (let w1 = vely_gen_set_content_type
            (case h of Some x \<Rightarrow> (case ctype x of Some t \<Rightarrow> t | None \<Rightarrow> ''text/html;charset=utf-8'')
             | None \<Rightarrow> ''text/html;charset=utf-8'') w;
          w2 = (case (case h of Some x \<Rightarrow> cache_control x | None \<Rightarrow> None) of
                  Some c \<Rightarrow> vely_gen_add_header ''Cache-Control'' c w1
                | None \<Rightarrow> vely_gen_add_header ''Pragma'' ''no-cache''
                    (vely_gen_add_header ''Cache-Control'' ''max-age=0, no-cache'' w1));
          w3 = (case h of
                  Some x \<Rightarrow> if status_id x \<noteq> 0 \<and> status_text x \<noteq> None
                            then vely_gen_set_status (status_id x) (the (status_text x)) w2
                            else vely_gen_set_status 200 ''OK'' w2
                | None \<Rightarrow> vely_gen_set_status 200 ''OK'' w2)
      in case h of Some x \<Rightarrow> custom_headers (header_pairs x) w3 | None \<Rightarrow> w3)"

definition vely_output_http_header :: "web \<Rightarrow> web" where
  "vely_output_http_header w =
     (if sent_header (req w) = 1 then w
      else if disable_output (req w) = 1 then w
      else vely_send_header (header (req w)) (set_req (\<lambda>r. r\<lparr>sent_header := 1\<rparr>) w))"

section \<open>Data to the web\<close>

definition vely_write_web :: "device \<Rightarrow> bool \<Rightarrow> string \<Rightarrow> int act" where
  "vely_write_web dev iserr s w =
     (if sent_header (req w) = 1
      then Inr (vely_gen_write dev iserr s (if data_was_output (req w) = 0 then vely_gen_header_end dev w else w))
      else if in_report w = 0
      then Inl (Report_error ''Attempting to write to web without outputting header first'', w)
      else Inr (vely_gen_write dev iserr s w))"

section \<open>Error pages\<close>

definition vely_header_err :: "device \<Rightarrow> web \<Rightarrow> int \<times> web" where
  "vely_header_err dev w =
     (if sent_header (req w) = 1
      then (0, if data_was_output (req w) = 0 then vely_gen_header_end dev w else w)
      else (1, set_req (\<lambda>r. r\<lparr>sent_header := 1\<rparr>) w))"

definition vely_server_error :: "device \<Rightarrow> web \<Rightarrow> web" where
  "vely_server_error dev w =
     (case vely_header_err dev w of (ok, w1) \<Rightarrow>
        if ok \<noteq> 1 then w1
        else vely_gen_header_end dev (vely_gen_set_content_type ''text/html;charset=utf-8''
               (vely_gen_set_status 500 ''Internal Server Error'' w1)))"

definition vely_cant_find_file :: "device \<Rightarrow> web \<Rightarrow> web" where
  "vely_cant_find_file dev w =
     (case vely_header_err dev w of (ok, w1) \<Rightarrow>
        if ok \<noteq> 1 then w1
        else vely_gen_header_end dev (vely_gen_set_content_type ''text/html;charset=utf-8''
               (vely_gen_set_status 404 ''Not Found'' w1)))"

definition vely_bad_request :: "device \<Rightarrow> web \<Rightarrow> web" where
  "vely_bad_request dev w =
     (case vely_header_err dev w of (ok, w1) \<Rightarrow>
        if ok \<noteq> 1 then w1
        else vely_gen_header_end dev (vely_gen_set_content_type ''text/html;charset=utf-8''
               (vely_gen_set_status 400 ''Bad Request'' w1)))"

definition VV_MAX_ERR_LEN :: nat where "VV_MAX_ERR_LEN = 12000"

text \<open>What reporting an error does before it leaves the request.  The text is formatted into a buffer of
  \<open>VV_MAX_ERR_LEN + 1\<close> bytes but written with its full length.  An error while an error is reported
  ends the process, here \<open>Assert_failed\<close>.  The backtrace file and the rollback of transactions
  are not part of the output.\<close>

definition vely_report_error :: "device \<Rightarrow> string \<Rightarrow> unit act" where
  "vely_report_error dev errtext w =
     (if in_report w = 1 then Inl (Assert_failed, w)
      else
        (let w1 = vely_server_error dev (w\<lparr>in_report := 1\<rparr>) in
         if length errtext > VV_MAX_ERR_LEN + 1 then Inl (Out_of_bounds, w1)
         else Inr ((), snd (vely_gen_write dev True [CHR 0x0A] (snd (vely_gen_write dev True errtext w1))))))"

section \<open>The end of a request\<close>

definition vely_shut :: "device \<Rightarrow> web \<Rightarrow> web" where
  "vely_shut dev w =
     (if is_shut (req w) = 1 then w
      else
        (let w1 = set_req (\<lambda>r. r\<lparr>is_shut := 1\<rparr>) w in
         if sent_header (req w1) = 1 \<and> data_was_output (req w1) = 0 then vely_gen_header_end dev w1 else w1))"

text \<open>A FastCGI program closes its streams, a command-line program does not.\<close>

definition vely_FCGI_Finish :: "bool \<Rightarrow> web \<Rightarrow> web" where
  "vely_FCGI_Finish command w =
     (if finished_output w = 0 \<and> \<not> command then w\<lparr>stream := False, finished_output := 1\<rparr>
      else w\<lparr>finished_output := 1\<rparr>)"

section \<open>Strings being written\<close>

definition vely_validate_output :: "web \<Rightarrow> bool" where
  "vely_validate_output w \<longleftrightarrow> \<not> (disable_output (req w) = 1 \<and> curr_write_to_string (req w) = -1)"

definition vely_disable_output :: "web \<Rightarrow> web" where
  "vely_disable_output = set_req (\<lambda>r. r\<lparr>disable_output := 1\<rparr>)"

text \<open>The entry \<open>write_string_arr[i]\<close>.\<close>

definition wrstr :: "int \<Rightarrow> vely_write_string act" where
  "wrstr i w =
     (if 0 \<le> i \<and> nat i < length (write_string_arr (req w))
      then Inr (write_string_arr (req w) ! nat i, w) else Inl (Out_of_bounds, w))"

definition put_wrstr :: "int \<Rightarrow> vely_write_string \<Rightarrow> unit act" where
  "put_wrstr i s w =
     (if 0 \<le> i \<and> nat i < length (write_string_arr (req w))
      then Inr ((), set_req (\<lambda>r. r\<lparr>write_string_arr := (write_string_arr r)[nat i := s]\<rparr>) w)
      else Inl (Out_of_bounds, w))"

definition cur :: "web \<Rightarrow> int" where
  "cur w = curr_write_to_string (req w)"

definition vely_write_to_string_notrim :: "unit act" where
  "vely_write_to_string_notrim =
     act_get (\<lambda>w. if cur w < int VV_MAX_NESTED_WRITE_STRING
       then act_bind (wrstr (cur w)) (\<lambda>s. put_wrstr (cur w) (s\<lparr>notrim := 1\<rparr>))
       else act_fault Assert_failed)"

definition vely_write_to_string_length :: "nat act" where
  "vely_write_to_string_length =
     act_get (\<lambda>w. if cur w < int VV_MAX_NESTED_WRITE_STRING
       then act_bind (wrstr (cur w + 1)) (\<lambda>s. act_return (buf_pos s))
       else act_fault Assert_failed)"

text \<open>The loop that goes back over white space reads the byte before the position; before the first byte of the
  buffer that is the padding between the index of the block and its data (velymem.c), which nothing sets.
  \<open>x\<close> is the byte in memory that was just allocated.\<close>

fun trim_back :: "char \<Rightarrow> string \<Rightarrow> nat \<Rightarrow> nat res" where
  "trim_back x buf 0 = (if isspace x then Inl Out_of_bounds else Inr 0)"
| "trim_back x buf (Suc p) = (if isspace (cat buf p) then trim_back x buf p else Inr (Suc p))"

definition stop_string :: "char \<Rightarrow> unit act" where
  "stop_string x =
     act_get (\<lambda>w. if cur w < 0 then act_fault (Report_error ''Cannot stop writing to string if it was never initiated'')
       else act_bind (wrstr (cur w)) (\<lambda>s.
         case wstring s of
           None \<Rightarrow> act_fault (Report_error ''Cannot find write-string data block'')
         | Some buf \<Rightarrow>
             act_bind (act_res (if notrim s = 0 then
                 res_bind (trim_back x buf (buf_pos s)) (\<lambda>p. res_bind (memput buf p [NUL]) (\<lambda>buf1. Inr (buf1, p)))
               else Inr (buf, buf_pos s))) (\<lambda>(buf1, p).
             act_bind (put_wrstr (cur w) (s\<lparr>wstring := None, buf_pos := p, notrim := 0\<rparr>)) (\<lambda>_.
             act_do (\<lambda>w1. set_req (\<lambda>r. r\<lparr>curr_write_to_string := curr_write_to_string r - 1\<rparr>)
                (w1\<lparr>vars := (vars w1)(user_string s := take (p + 1) buf1)\<rparr>))))))"

definition start_string :: "char \<Rightarrow> nat \<Rightarrow> unit act" where
  "start_string x v =
     act_bind (act_do (set_req (\<lambda>r. r\<lparr>curr_write_to_string := curr_write_to_string r + 1\<rparr>))) (\<lambda>_.
       act_get (\<lambda>w. if cur w \<ge> int VV_MAX_NESTED_WRITE_STRING
         then act_fault (Report_error ''Too many nesting levels of writing to string in progress'')
         else act_bind (act_do (\<lambda>w1. w1\<lparr>vars := (vars w1)(v := [NUL])\<rparr>)) (\<lambda>_.
           act_bind (wrstr (cur w)) (\<lambda>s.
             put_wrstr (cur w) (s\<lparr>user_string := v, wlen := VV_WRSTR_ADD_MIN, wlength := VV_WRSTR_ADD_MIN,
                                  wstring := Some (replicate VV_WRSTR_ADD_MIN x), buf_pos := 0\<rparr>)))))"

definition vely_write_to_string :: "char \<Rightarrow> nat option \<Rightarrow> unit act" where
  "vely_write_to_string x str = (case str of None \<Rightarrow> stop_string x | Some v \<Rightarrow> start_string x v)"

text \<open>More memory for \<open>need\<close> bytes: the buffer grows by them and by an amount that doubles.\<close>

definition grow :: "char \<Rightarrow> nat \<Rightarrow> string \<Rightarrow> vely_write_string \<Rightarrow> string \<times> vely_write_string" where
  "grow x need buf s =
     (let len = wlength s + need + wlen s in
      (take len (buf @ replicate (len - length buf) x),
       s\<lparr>wlength := len, wlen := (if wlen s < VV_WRSTR_ADD_MAX then 2 * wlen s else wlen s)\<rparr>))"

text \<open>\<open>src\<close> is the memory from \<open>final_out\<close> on; one byte more than the text is copied.\<close>

definition vely_puts_to_string :: "char \<Rightarrow> string \<Rightarrow> nat \<Rightarrow> nat act" where
  "vely_puts_to_string x src final_len =
     act_get (\<lambda>w. act_bind (wrstr (cur w)) (\<lambda>s.
       case wstring s of
         None \<Rightarrow> act_fault Out_of_bounds
       | Some buf \<Rightarrow>
           (case (if int final_len > int (wlength s) - 1 - int (buf_pos s) then grow x final_len buf s else (buf, s)) of
              (buf1, s1) \<Rightarrow>
                if final_len + 1 \<le> length src then
                  act_bind (act_res (memput buf1 (buf_pos s1) (take (final_len + 1) src))) (\<lambda>buf2.
                  act_bind (put_wrstr (cur w) (s1\<lparr>wstring := Some buf2, buf_pos := buf_pos s1 + final_len\<rparr>)) (\<lambda>_.
                  act_return final_len))
                else act_fault Out_of_bounds)))"

text \<open>Encoding directly into the buffer of the string.  The memory it may need is computed in an \<^verbatim>\<open>int\<close>.\<close>

definition encode_to_string :: "char \<Rightarrow> enc_type \<Rightarrow> string \<Rightarrow> nat act" where
  "encode_to_string x enc_type s =
     act_get (\<lambda>w. act_bind (wrstr (cur w)) (\<lambda>ws.
       case wstring ws of
         None \<Rightarrow> act_fault Out_of_bounds
       | Some buf \<Rightarrow>
           if int (VV_MAX_ENC_BLOWUP (length s)) > INT_MAX then act_fault Signed_overflow else
           (case (if int (VV_MAX_ENC_BLOWUP (length s)) > int (wlength ws) - 1 - int (buf_pos ws)
                  then grow x (VV_MAX_ENC_BLOWUP (length s)) buf ws else (buf, ws)) of
              (buf1, ws1) \<Rightarrow>
                act_bind (act_res (vely_encode_base enc_type s)) (\<lambda>t.
                act_bind (act_res (memput buf1 (buf_pos ws1) (t @ [NUL]))) (\<lambda>buf2.
                act_bind (put_wrstr (cur w) (ws1\<lparr>wstring := Some buf2, buf_pos := buf_pos ws1 + length t\<rparr>)) (\<lambda>_.
                act_return (length t)))))))"

text \<open>The position in the string being written is read before the code knows whether there is one.  Without one the index of the
  entry is \<open>-1\<close>, and what is read is the field that lies 24 bytes before the array in the structure (vely.h), which is
  \<open>data_was_output\<close>; nothing but the trace uses the value.\<close>

definition read_wrstr_pos :: "int act" where
  "read_wrstr_pos =
     act_get (\<lambda>w. if cur w = -1 then act_return (data_was_output (req w))
       else act_bind (wrstr (cur w)) (\<lambda>s. act_return (int (buf_pos s))))"

definition vely_puts :: "device \<Rightarrow> char \<Rightarrow> enc_type \<Rightarrow> string \<Rightarrow> nat \<Rightarrow> int act" where
  "vely_puts dev x enc_type src len =
     act_get (\<lambda>w. if \<not> vely_validate_output w
       then act_fault (Report_error ''Cannot send file because output is disabled, or file already output'')
       else act_bind read_wrstr_pos (\<lambda>buf_pos_start.
         let vLen = (if len \<noteq> 0 then len else length (cstr src)) in
          if vLen > length src then act_fault Out_of_bounds
          else if enc_type = VV_NOENC then
            (if cur w = -1 then vely_write_web dev False (take vLen src)
             else act_bind (vely_puts_to_string x src vLen) (\<lambda>n. act_return (int n)))
          else if cur w = -1 then
            act_bind (act_res (vely_encode_base enc_type (take vLen src))) (vely_write_web dev False)
          else act_bind (encode_to_string x enc_type (take vLen src)) (\<lambda>n. act_return (int n))))"

text \<open>\<open>out\<close> is what the format and its arguments print, whose length is the \<^verbatim>\<open>int\<close> that \<^verbatim>\<open>vsnprintf\<close> returns; it is printed
  into the string, and encoded from there.
  The text cut to the memory left, which is printed first if there is not enough, is overwritten.\<close>

definition print_to_string :: "char \<Rightarrow> enc_type \<Rightarrow> string \<Rightarrow> nat act" where
  "print_to_string x enc_type out =
     act_get (\<lambda>w. act_bind (wrstr (cur w)) (\<lambda>s.
        case wstring s of
          None \<Rightarrow> act_fault Out_of_bounds
        | Some buf \<Rightarrow>
            (case (if int (length out) \<ge> int (wlength s) - int (buf_pos s) then grow x (length out) buf s else (buf, s)) of
               (buf1, s1) \<Rightarrow>
                 act_bind (act_res (memput buf1 (buf_pos s1) (out @ [NUL]))) (\<lambda>buf2.
                 if enc_type = VV_NOENC
                 then act_bind (put_wrstr (cur w) (s1\<lparr>wstring := Some buf2, buf_pos := buf_pos s1 + length out\<rparr>)) (\<lambda>_.
                      act_return (length out))
                 else act_bind (put_wrstr (cur w) (s1\<lparr>wstring := Some buf2\<rparr>)) (\<lambda>_.
                      act_bind (act_res (vely_encode enc_type (cstr (drop (buf_pos s1) buf2)) (-1))) (\<lambda>t.
                      vely_puts_to_string x (t @ [NUL]) (length t)))))))"

definition vely_printf :: "device \<Rightarrow> char \<Rightarrow> bool \<Rightarrow> enc_type \<Rightarrow> string \<Rightarrow> int act" where
  "vely_printf dev x iserr enc_type out =
     act_get (\<lambda>w. if \<not> vely_validate_output w
       then act_fault (Report_error ''Cannot send file because output is disabled, or file already output'')
       else if int (length out) > INT_MAX then act_fault Signed_overflow
       else if cur w = -1 then
         (if enc_type = VV_WEB \<or> enc_type = VV_URL
          then act_bind (act_res (vely_encode enc_type out (-1))) (vely_write_web dev iserr)
          else vely_write_web dev iserr out)
       else act_bind (print_to_string x enc_type out) (\<lambda>n. act_return (int n)))"

section \<open>Files\<close>

text \<open>The file system: the modification time of a file, and its contents if it can be opened and read.
  A failed read of an empty file is the code's own: it asks \<^verbatim>\<open>fread\<close> for one item of no bytes.\<close>

record files =
  stat_time :: "string \<Rightarrow> int option"
  contents :: "string \<Rightarrow> string option"

definition atol :: "string \<Rightarrow> int" where
  "atol s =
     (let t = dropWhile isspace s; d = (\<lambda>u. fold (\<lambda>c n. n * 10 + (uchar c - 48)) (takeWhile isdigit u) 0) in
      case t of [] \<Rightarrow> 0 | c # u \<Rightarrow> if c = CHR ''-'' then - d u else if c = CHR ''+'' then d u else d t)"

definition cache_lines :: "vely_header \<Rightarrow> web \<Rightarrow> web" where
  "cache_lines h w =
     (case cache_control h of
        Some c \<Rightarrow> vely_gen_add_header ''Cache-Control'' c w
      | None \<Rightarrow> vely_gen_add_header ''Pragma'' ''no-cache''
                  (vely_gen_add_header ''Cache-Control'' ''max-age=0, no-cache'' w))"

definition etag_line :: "vely_header \<Rightarrow> int \<Rightarrow> web \<Rightarrow> web" where
  "etag_line h tstamp w = (if etag h = 1 then vely_gen_add_header ''Etag'' (decimal_text tstamp) w else w)"

definition disposition_line :: "vely_header \<Rightarrow> web \<Rightarrow> web" where
  "disposition_line h w =
     (case disp h of
        None \<Rightarrow> w
      | Some d \<Rightarrow> vely_gen_add_header ''Content-Disposition''
          (snprintf_text 500 (case file_name h of
             Some f \<Rightarrow> d @ ''; filename*=UTF8'' @ [CHR 0x27, CHR 0x27] @ encode_loop url_char f
           | None \<Rightarrow> d)) w)"

definition file_lines :: "vely_header \<Rightarrow> string \<Rightarrow> int \<Rightarrow> nat \<Rightarrow> web \<Rightarrow> web" where
  "file_lines h t tstamp fsize w =
     custom_headers (header_pairs h) (etag_line h tstamp (cache_lines h (disposition_line h
       (vely_gen_set_content_length (decimal_text (int fsize)) (vely_gen_set_content_type t w)))))"

text \<open>A file without a content type is sent with the header of a page, for which output is allowed for a moment.\<close>

definition file_header :: "vely_header \<Rightarrow> string \<Rightarrow> int \<Rightarrow> nat \<Rightarrow> web \<Rightarrow> web" where
  "file_header h t tstamp fsize w =
     (if t = [] then
        set_req (\<lambda>r. r\<lparr>disable_output := disable_output (req w)\<rparr>)
          (vely_output_http_header (set_req (\<lambda>r. r\<lparr>disable_output := 0\<rparr>) (etag_line h tstamp w)))
      else set_req (\<lambda>r. r\<lparr>sent_header := 1\<rparr>) (file_lines h t tstamp fsize w))"

definition vely_out_file :: "device \<Rightarrow> files \<Rightarrow> string \<Rightarrow> vely_header \<Rightarrow> unit act" where
  "vely_out_file dev fs fname h =
     act_get (\<lambda>w.
       if \<not> vely_validate_output w
       then act_fault (Report_error ''Cannot send file because output is disabled, or file already output'')
       else if sent_header (req w) = 1
       then act_fault (Report_error ''HTTP header has already been output; you must not output header prior to sending file'')
       else act_bind (act_do vely_disable_output) (\<lambda>_.
         if find_str True fname ''..'' \<noteq> None then act_do (vely_cant_find_file dev)
         else case stat_time fs fname of
           None \<Rightarrow> act_do (vely_cant_find_file dev)
         | Some tstamp \<Rightarrow>
             (case contents fs fname of
                None \<Rightarrow> act_do (vely_cant_find_file dev)
              | Some str \<Rightarrow>
                  if int (length str) \<ge> 2 ^ 31 - 1 then act_do (vely_cant_find_file dev)
                  else if (case if_none_match (req w) of None \<Rightarrow> False | Some t \<Rightarrow> tstamp = atol t)
                  then act_do (\<lambda>v. vely_gen_header_end dev
                         (cache_lines h (vely_gen_add_header ''Status'' ''304 Not Modified'' v)))
                  else if str = [] then act_do (vely_cant_find_file dev)
                  else case ctype h of
                    None \<Rightarrow> act_fault Out_of_bounds
                  | Some t \<Rightarrow> act_bind (act_do (file_header h t tstamp (length str))) (\<lambda>_.
                      act_bind (vely_write_web dev False str) (\<lambda>_. act_return ())))))"

end
