(* ===== verification/Response.thy ===== *)
theory Response
  imports Output
begin

text \<open>
  A whole request: the program of the request as the calls it makes of the runtime, and the main loop around
  it that \<^verbatim>\<open>v1.c\<close> generates, which reports an error, shuts the request and finishes its output.  The
  theorems are on the protocol of the response: headers, the end of them, data.
\<close>

section \<open>The program of a request\<close>

datatype call =
  Out_header "vely_header option"
| Silent_header
| Puts enc_type string nat
| Printf bool enc_type string
| Begin_string nat
| No_trim
| End_string
| Out_file string vely_header
| Cookie cookie_call
| Finish_output

definition act_cookie :: "cookie_call \<Rightarrow> unit act" where
  "act_cookie c w = (case cookie_op (req w) c of Inl e \<Rightarrow> Inl (e, w) | Inr r \<Rightarrow> Inr ((), w\<lparr>req := r\<rparr>))"

text \<open>What the statements of a program become; \<open>command\<close> tells a command-line program.\<close>

fun do_call :: "device \<Rightarrow> char \<Rightarrow> bool \<Rightarrow> files \<Rightarrow> call \<Rightarrow> unit act" where
  "do_call dev x command fs (Out_header h) =
     act_do (\<lambda>w. vely_output_http_header (if h = None then w else set_req (\<lambda>r. r\<lparr>header := h\<rparr>) w))"
| "do_call dev x command fs Silent_header = act_do (set_req (\<lambda>r. r\<lparr>silent := 1\<rparr>))"
| "do_call dev x command fs (Puts enc src len) = act_bind (vely_puts dev x enc src len) (\<lambda>_. act_return ())"
| "do_call dev x command fs (Printf iserr enc out) = act_bind (vely_printf dev x iserr enc out) (\<lambda>_. act_return ())"
| "do_call dev x command fs (Begin_string v) = vely_write_to_string x (Some v)"
| "do_call dev x command fs No_trim = vely_write_to_string_notrim"
| "do_call dev x command fs End_string = vely_write_to_string x None"
| "do_call dev x command fs (Out_file fname h) = vely_out_file dev fs fname h"
| "do_call dev x command fs (Cookie c) = act_cookie c"
| "do_call dev x command fs Finish_output = act_do (\<lambda>w. vely_disable_output (vely_FCGI_Finish command w))"

fun do_calls :: "device \<Rightarrow> char \<Rightarrow> bool \<Rightarrow> files \<Rightarrow> call list \<Rightarrow> unit act" where
  "do_calls dev x command fs [] = act_return ()"
| "do_calls dev x command fs (c # cs) = act_bind (do_call dev x command fs c) (\<lambda>_. do_calls dev x command fs cs)"

text \<open>A request from the input that was read to the end of its output; \<open>msg\<close> is the message that the format of an error
  and its arguments make.  A fault that is not a reported error is the result.\<close>

definition start_request :: "vely_input_req \<Rightarrow> web \<Rightarrow> web" where
  "start_request r w = w\<lparr>req := r, finished_output := 0, stream := True, in_report := 0, events := []\<rparr>"

definition end_request :: "device \<Rightarrow> bool \<Rightarrow> web \<Rightarrow> web" where
  "end_request dev command w = vely_FCGI_Finish command (vely_shut dev w)"

definition handle_request ::
  "device \<Rightarrow> char \<Rightarrow> bool \<Rightarrow> files \<Rightarrow> (string \<Rightarrow> string) \<Rightarrow> vely_input_req \<Rightarrow> call list \<Rightarrow> web \<Rightarrow> (fault \<times> web) + web" where
  "handle_request dev x command fs msg r cs w =
     (case do_calls dev x command fs cs (start_request r w) of
        Inr (_, w1) \<Rightarrow> Inr (end_request dev command w1)
      | Inl (Report_error t, w1) \<Rightarrow>
          (case vely_report_error dev (msg t) w1 of
             Inr (_, w2) \<Rightarrow> Inr (end_request dev command w2)
           | Inl e \<Rightarrow> Inl e)
      | Inl e \<Rightarrow> Inl e)"

section \<open>The form of a response\<close>

text \<open>What is written to the client, without the error stream.\<close>

definition client_event :: "event \<Rightarrow> bool" where
  "client_event e = (case e of Line s \<Rightarrow> True | Bytes is_error s \<Rightarrow> \<not> is_error)"

definition sent_to_client :: "web \<Rightarrow> event list" where
  "sent_to_client w = filter client_event (events w)"

definition is_line :: "event \<Rightarrow> bool" where
  "is_line e = (case e of Line s \<Rightarrow> True | Bytes is_error s \<Rightarrow> False)"

definition is_data :: "event \<Rightarrow> bool" where
  "is_data e = (case e of Line s \<Rightarrow> False | Bytes is_error s \<Rightarrow> \<not> is_error)"

definition all_lines :: "event list \<Rightarrow> bool" where
  "all_lines es = list_all is_line es"

text \<open>Header lines, one empty line, and data.\<close>

definition complete :: "event list \<Rightarrow> bool" where
  "complete es =
     (case dropWhile is_line es of [] \<Rightarrow> False | e # bs \<Rightarrow> e = Bytes False crlf \<and> list_all is_data bs)"

definition live :: "web \<Rightarrow> bool" where
  "live w \<longleftrightarrow> finished_output w = 0 \<and> stream w \<and> silent (req w) = 0"

definition in_headers :: "web \<Rightarrow> bool" where
  "in_headers w \<longleftrightarrow> live w \<and> data_was_output (req w) = 0 \<and> all_lines (sent_to_client w)"

definition in_body :: "web \<Rightarrow> bool" where
  "in_body w \<longleftrightarrow> live w \<and> data_was_output (req w) = 1 \<and> complete (sent_to_client w)"

text \<open>The invariant of a running request.\<close>

definition protocol :: "web \<Rightarrow> bool" where
  "protocol w \<longleftrightarrow>
     (sent_header (req w) = 0 \<and> in_headers w \<and> sent_to_client w = [])
     \<or> (sent_header (req w) = 1 \<and> (in_headers w \<or> in_body w))"

definition running :: "web \<Rightarrow> bool" where
  "running w \<longleftrightarrow> protocol w \<and> in_report w = 0 \<and> if_none_match (req w) = None \<and> is_shut (req w) = 0"

lemma sent_to_client_emit [simp]:
  "sent_to_client (emit (Line s) w) = sent_to_client w @ [Line s]"
  "sent_to_client (emit (Bytes False s) w) = sent_to_client w @ [Bytes False s]"
  "sent_to_client (emit (Bytes True s) w) = sent_to_client w"
  by (simp_all add: sent_to_client_def emit_def client_event_def)

lemma emit_fields [simp]:
  "req (emit e w) = req w" "finished_output (emit e w) = finished_output w" "stream (emit e w) = stream w"
  "in_report (emit e w) = in_report w" "live (emit e w) = live w"
  by (simp_all add: emit_def live_def)

lemma set_req_fields [simp]:
  "req (set_req f w) = f (req w)" "finished_output (set_req f w) = finished_output w" "stream (set_req f w) = stream w"
  "in_report (set_req f w) = in_report w" "sent_to_client (set_req f w) = sent_to_client w"
  by (simp_all add: set_req_def sent_to_client_def)

lemma all_lines_snoc [simp]: "all_lines (es @ [Line s]) \<longleftrightarrow> all_lines es"
  by (simp add: all_lines_def is_line_def)

lemma all_lines_Nil [simp]: "all_lines []"
  by (simp add: all_lines_def)

lemma complete_end: "all_lines es \<Longrightarrow> complete (es @ [Bytes False crlf])"
  by (simp add: all_lines_def complete_def list_all_iff dropWhile_append2 is_line_def)

lemma complete_more: "complete es \<Longrightarrow> complete (es @ [Bytes False s])"
proof -
  assume c: "complete es"
  then obtain e bs where "dropWhile is_line es = e # bs" by (auto simp: complete_def split: list.splits)
  then have "dropWhile is_line (es @ [Bytes False s]) = (e # bs) @ [Bytes False s]"
    by (metis dropWhile_append dropWhile_eq_Nil_conv list.distinct(1))
  then show ?thesis using c \<open>dropWhile is_line es = e # bs\<close> by (simp add: complete_def is_data_def)
qed

section \<open>Header operations\<close>

text \<open>Operations that write header lines only: they keep all but the lines.\<close>

definition lines_only :: "(web \<Rightarrow> web) \<Rightarrow> bool" where
  "lines_only f \<longleftrightarrow> (\<forall>w. (in_headers w \<longrightarrow> in_headers (f w)) \<and> req (f w) = req w \<and> finished_output (f w) = finished_output w
     \<and> stream (f w) = stream w \<and> in_report (f w) = in_report w)"

lemma header_line_only: "lines_only (header_line s)"
  by (auto simp: lines_only_def header_line_def in_headers_def)

lemma lines_only_comp: "lines_only f \<Longrightarrow> lines_only g \<Longrightarrow> lines_only (\<lambda>w. f (g w))"
  by (simp add: lines_only_def)

lemma lines_only_id: "lines_only (\<lambda>w. w)"
  by (simp add: lines_only_def)

lemma add_header_only: "lines_only (vely_gen_add_header n v)" "lines_only (vely_gen_set_content_type v)"
  "lines_only (vely_gen_set_status st s)" "lines_only (vely_gen_set_content_length v)"
  by (simp_all add: vely_gen_add_header_def vely_gen_set_content_type_def vely_gen_set_status_def
      vely_gen_set_content_length_def header_line_only)

lemma lines_only_if: "lines_only f \<Longrightarrow> lines_only g \<Longrightarrow> lines_only (\<lambda>w. if c then f w else g w)"
  by (simp add: lines_only_def)

lemma custom_headers_only: "lines_only (custom_headers hs)"
proof (induction hs)
  case (Cons h hs)
  then show ?case
    using add_header_only by (cases h) (auto simp: lines_only_def)
qed (simp add: lines_only_def)

lemma send_cookies_only: "lines_only (send_cookies cs)"
proof (induction cs)
  case (Cons c cs)
  then show ?case using add_header_only by (auto simp: lines_only_def)
qed (simp add: lines_only_def)

lemma send_header_only: "lines_only (vely_send_header h)"
  using add_header_only custom_headers_only
  by (auto simp: vely_send_header_def lines_only_def Let_def split: option.splits)

section \<open>The end of the headers, data, errors\<close>

lemma header_end_protocol:
  assumes "in_headers w"
  shows "in_body (vely_gen_header_end dev w)" "sent_header (req (vely_gen_header_end dev w)) = sent_header (req w)"
    "in_report (vely_gen_header_end dev w) = in_report w" "if_none_match (req (vely_gen_header_end dev w)) = if_none_match (req w)"
    "is_shut (req (vely_gen_header_end dev w)) = is_shut (req w)"
proof -
  let ?cs = "case cookies (req w) of None \<Rightarrow> [] | Some cs \<Rightarrow> take (num_of_cookies (req w)) cs"
  let ?w = "send_cookies ?cs w"
  have k: "in_headers ?w" "req ?w = req w" "in_report ?w = in_report w" "finished_output ?w = finished_output w" "stream ?w = stream w"
    using send_cookies_only [of ?cs] assms by (simp_all add: lines_only_def)
  have e: "vely_gen_header_end dev w = set_req (\<lambda>r. r\<lparr>data_was_output := 1\<rparr>) (emit (Bytes False crlf) ?w)"
    using assms k by (simp add: vely_gen_header_end_def vely_gen_write_def in_headers_def live_def)
  show "in_body (vely_gen_header_end dev w)"
    using k complete_end by (simp add: e in_body_def in_headers_def live_def)
  show "sent_header (req (vely_gen_header_end dev w)) = sent_header (req w)"
    "in_report (vely_gen_header_end dev w) = in_report w" "if_none_match (req (vely_gen_header_end dev w)) = if_none_match (req w)"
    "is_shut (req (vely_gen_header_end dev w)) = is_shut (req w)"
    using k by (simp_all add: e)
qed

lemma gen_write_body: "in_body w \<Longrightarrow> in_body (snd (vely_gen_write dev iserr s w))"
  by (cases iserr) (auto simp: vely_gen_write_def in_body_def live_def complete_more)

lemma gen_write_fields [simp]:
  "req (snd (vely_gen_write dev iserr s w)) = req w" "in_report (snd (vely_gen_write dev iserr s w)) = in_report w"
  by (simp_all add: vely_gen_write_def)

lemma write_web_running:
  assumes "running w"
  shows "case vely_write_web dev iserr s w of Inl (_, w') \<Rightarrow> running w' | Inr (_, w') \<Rightarrow> running w'"
proof (cases "sent_header (req w) = 1")
  case True
  let ?w = "if data_was_output (req w) = 0 then vely_gen_header_end dev w else w"
  have "in_body ?w \<and> sent_header (req ?w) = 1 \<and> in_report ?w = 0 \<and> if_none_match (req ?w) = None
      \<and> is_shut (req ?w) = 0"
    using assms True header_end_protocol [of w dev] by (auto simp: running_def protocol_def in_headers_def in_body_def)
  then have "running (snd (vely_gen_write dev iserr s ?w))" using gen_write_body by (simp add: running_def protocol_def)
  then show ?thesis using True by (simp add: vely_write_web_def split: prod.split) (metis snd_conv)
next
  case False
  then show ?thesis using assms by (simp add: vely_write_web_def running_def)
qed

section \<open>Calls that keep a request running\<close>

definition keeps :: "'a act \<Rightarrow> web \<Rightarrow> bool" where
  "keeps m w \<longleftrightarrow> (case m w of Inl (_, w') \<Rightarrow> running w' | Inr (_, w') \<Rightarrow> running w')"

definition safe :: "'a act \<Rightarrow> bool" where
  "safe m \<longleftrightarrow> (\<forall>w. running w \<longrightarrow> keeps m w)"

named_theorems safe_intros \<open>actions that keep a request running\<close>

lemma keeps_act_bind: "keeps m w \<Longrightarrow> (\<And>x. safe (f x)) \<Longrightarrow> keeps (act_bind m f) w"
proof -
  assume m: "keeps m w" and f: "\<And>x. safe (f x)"
  show "keeps (act_bind m f) w"
  proof (cases "m w")
    case (Inl e)
    then show ?thesis using m by (simp add: keeps_def act_bind_def)
  next
    case (Inr y)
    obtain x w' where y: "y = (x, w')" by (cases y)
    then have "keeps (f x) w'" using m f [of x] Inr by (simp add: keeps_def safe_def)
    then show ?thesis using Inr y by (simp add: keeps_def act_bind_def)
  qed
qed

lemma safe_bind [safe_intros]: "safe m \<Longrightarrow> (\<And>x. safe (f x)) \<Longrightarrow> safe (act_bind m f)"
  by (meson keeps_act_bind safe_def)

lemma keepsI [safe_intros]: "safe m \<Longrightarrow> running w \<Longrightarrow> keeps m w"
  by (simp add: safe_def)

lemma safe_get [safe_intros]: "(\<And>w. safe (f w)) \<Longrightarrow> safe (act_get f)"
  by (simp add: safe_def keeps_def act_get_def)

lemma safe_basic [safe_intros]: "safe (act_return x)" "safe (act_fault e)" "safe (act_res r)" "safe (wrstr i)"
  by (auto simp: safe_def keeps_def act_return_def act_fault_def act_res_def wrstr_def split: sum.splits)

lemma safe_cases [safe_intros]:
  "safe a \<Longrightarrow> (\<And>y. safe (g y)) \<Longrightarrow> safe (case m of None \<Rightarrow> a | Some y \<Rightarrow> g y)"
  "(\<And>a b. safe (h a b)) \<Longrightarrow> safe (case p of (a, b) \<Rightarrow> h a b)"
  "safe a \<Longrightarrow> safe b \<Longrightarrow> safe (if c then a else b)"
  by (auto split: option.split prod.split)

lemma running_set_req:
  assumes "running w" "sent_header (f (req w)) = sent_header (req w)" "data_was_output (f (req w)) = data_was_output (req w)"
    "silent (f (req w)) = silent (req w)" "if_none_match (f (req w)) = if_none_match (req w)" "is_shut (f (req w)) = is_shut (req w)"
  shows "running (set_req f w)"
  using assms by (simp add: running_def protocol_def in_headers_def in_body_def live_def)

lemma running_vars [simp]: "running (w\<lparr>vars := v\<rparr>) = running w"
  by (simp add: running_def protocol_def in_headers_def in_body_def live_def sent_to_client_def)

lemma safe_put_wrstr [safe_intros]: "safe (put_wrstr i s)"
  by (auto simp: safe_def keeps_def put_wrstr_def intro: running_set_req)

lemma safe_do [safe_intros]: "(\<And>w. running w \<Longrightarrow> running (f w)) \<Longrightarrow> safe (act_do f)"
  by (simp add: safe_def keeps_def act_do_def)

lemma safe_write_web [safe_intros]: "safe (vely_write_web dev iserr s)"
  using write_web_running by (simp add: safe_def keeps_def)

lemma running_cur: "running w \<Longrightarrow> running (set_req (\<lambda>r. r\<lparr>curr_write_to_string := i r\<rparr>) w)"
  by (rule running_set_req) simp_all

lemma safe_puts_to_string [safe_intros]: "safe (vely_puts_to_string x src n)"
  unfolding vely_puts_to_string_def by (intro safe_intros)

lemma safe_encode_to_string [safe_intros]: "safe (encode_to_string x enc s)"
  unfolding encode_to_string_def by (intro safe_intros)

lemma safe_print_to_string [safe_intros]: "safe (print_to_string x enc out)"
  unfolding print_to_string_def by (intro safe_intros)

lemma safe_read_wrstr_pos [safe_intros]: "safe read_wrstr_pos"
  unfolding read_wrstr_pos_def by (intro safe_intros)

lemma safe_puts [safe_intros]: "safe (vely_puts dev x enc src len)"
  unfolding vely_puts_def Let_def by (intro safe_intros)

lemma safe_printf [safe_intros]: "safe (vely_printf dev x iserr enc out)"
  unfolding vely_printf_def by (intro safe_intros)

lemma safe_notrim [safe_intros]: "safe vely_write_to_string_notrim"
  unfolding vely_write_to_string_notrim_def by (intro safe_intros)

lemma safe_stop_string: "safe (stop_string x)"
  unfolding stop_string_def by (intro safe_intros running_cur) simp

lemma safe_start_string: "safe (start_string x v)"
  unfolding start_string_def by (intro safe_intros running_cur) simp_all

lemma safe_write_to_string [safe_intros]: "safe (vely_write_to_string x str)"
  unfolding vely_write_to_string_def using safe_stop_string safe_start_string by (cases str) simp_all

lemma lines_only_running: "lines_only f \<Longrightarrow> running w \<Longrightarrow> in_headers w \<Longrightarrow> sent_header (req w) = 1 \<Longrightarrow> running (f w)"
  by (simp add: lines_only_def running_def protocol_def)

lemma output_header_running: "running w \<Longrightarrow> running (vely_output_http_header w)"
proof (cases "sent_header (req w) = 1 \<or> disable_output (req w) = 1")
  case False
  assume w: "running w"
  let ?w = "set_req (\<lambda>r. r\<lparr>sent_header := 1\<rparr>) w"
  have h: "in_headers ?w" "running ?w"
    using w False by (simp_all add: running_def protocol_def in_headers_def live_def)
  have "running (vely_send_header (header (req w)) ?w)" by (rule lines_only_running [OF send_header_only h(2,1)]) simp
  then show ?thesis using False by (simp add: vely_output_http_header_def)
qed (auto simp: vely_output_http_header_def)

lemma put_cookie_frame: "put_cookie r i c = Inr r' \<Longrightarrow> \<exists>cs. r' = r\<lparr>cookies := cs\<rparr>"
  by (auto simp: put_cookie_def split: option.splits if_splits)

lemma cookie_op_frame: "cookie_op r c = Inr r' \<Longrightarrow> \<exists>cs n. r' = r\<lparr>cookies := cs, num_of_cookies := n\<rparr>"
proof (induction r c rule: cookie_op.induct)
  case (1 r n v path expires samesite httponly secure)
  then obtain i r1 c where "put_cookie r1 i c = Inr r'" "r1 = r \<or> r1 = r\<lparr>num_of_cookies := num_of_cookies r + 1\<rparr>"
    by (auto simp: vely_set_cookie_def res_bind_def split: sum.splits prod.splits if_splits)
  then obtain cs where "r' = r1\<lparr>cookies := cs\<rparr>" using put_cookie_frame by blast
  then show ?case using \<open>r1 = r \<or> r1 = r\<lparr>num_of_cookies := num_of_cookies r + 1\<rparr>\<close>
    by (intro exI [of _ cs] exI [of _ "num_of_cookies r1"]) auto
next
  case (2 r n path secure)
  then have "r' = r \<or> (\<exists>i c. put_cookie r i c = Inr r')"
    by (auto simp: vely_delete_cookie_def res_bind_def Let_def split: sum.splits prod.splits if_splits)
  then obtain cs where "r' = r\<lparr>cookies := cs\<rparr>"
    using put_cookie_frame by (metis vely_input_req.surjective vely_input_req.update_convs(7))
  then show ?case by (intro exI [of _ cs] exI [of _ "num_of_cookies r"]) simp
qed

lemma safe_cookie: "safe (act_cookie c)"
proof -
  have "running (w\<lparr>req := r'\<rparr>)" if w: "running w" and r: "cookie_op (req w) c = Inr r'" for w r'
  proof -
    obtain cs n where "r' = (req w)\<lparr>cookies := cs, num_of_cookies := n\<rparr>" using cookie_op_frame [OF r] by blast
    then show ?thesis using running_set_req [OF w, of "\<lambda>_. r'"] by (simp add: set_req_def)
  qed
  then show ?thesis by (auto simp: safe_def keeps_def act_cookie_def split: sum.splits)
qed

section \<open>Error pages and files\<close>

lemma error_page_protocol:
  assumes "protocol w"
  shows "in_body (vely_server_error dev w) \<and> sent_header (req (vely_server_error dev w)) = 1"
    and "is_shut (req (vely_server_error dev w)) = is_shut (req w)"
    and "in_body (vely_cant_find_file dev w) \<and> sent_header (req (vely_cant_find_file dev w)) = 1
       \<and> in_report (vely_cant_find_file dev w) = in_report w
       \<and> if_none_match (req (vely_cant_find_file dev w)) = if_none_match (req w)
       \<and> is_shut (req (vely_cant_find_file dev w)) = is_shut (req w)"
proof -
  let ?w1 = "snd (vely_header_err dev w)"
  have sent: "in_body ?w1 \<and> sent_header (req ?w1) = 1 \<and> in_report ?w1 = in_report w
      \<and> if_none_match (req ?w1) = if_none_match (req w) \<and> is_shut (req ?w1) = is_shut (req w)"
    if "sent_header (req w) = 1"
    using that assms header_end_protocol [of w dev] by (auto simp: vely_header_err_def protocol_def in_headers_def in_body_def)
  let ?w2 = "set_req (\<lambda>r. r\<lparr>sent_header := 1\<rparr>) w"
  have page: "in_body (vely_gen_header_end dev (f ?w2)) \<and> sent_header (req (vely_gen_header_end dev (f ?w2))) = 1
      \<and> in_report (vely_gen_header_end dev (f ?w2)) = in_report w
      \<and> if_none_match (req (vely_gen_header_end dev (f ?w2))) = if_none_match (req w)
      \<and> is_shut (req (vely_gen_header_end dev (f ?w2))) = is_shut (req w)"
    if "sent_header (req w) \<noteq> 1" "lines_only f" for f
  proof -
    have "in_headers ?w2" using that(1) assms by (simp add: protocol_def in_headers_def live_def)
    then have "in_headers (f ?w2)" "req (f ?w2) = req ?w2" "in_report (f ?w2) = in_report w" using that(2) by (simp_all add: lines_only_def)
    then show ?thesis using header_end_protocol [of "f ?w2" dev] by simp
  qed
  note l = lines_only_comp [OF add_header_only(2) add_header_only(3)]
  show "in_body (vely_server_error dev w) \<and> sent_header (req (vely_server_error dev w)) = 1"
    using sent page [OF _ l] by (auto simp: vely_server_error_def vely_header_err_def)
  show "is_shut (req (vely_server_error dev w)) = is_shut (req w)"
    using sent page [OF _ l] by (auto simp: vely_server_error_def vely_header_err_def)
  show "in_body (vely_cant_find_file dev w) \<and> sent_header (req (vely_cant_find_file dev w)) = 1
       \<and> in_report (vely_cant_find_file dev w) = in_report w
       \<and> if_none_match (req (vely_cant_find_file dev w)) = if_none_match (req w)
       \<and> is_shut (req (vely_cant_find_file dev w)) = is_shut (req w)"
    using sent page [OF _ l] by (auto simp: vely_cant_find_file_def vely_header_err_def)
qed

lemma cant_find_file_running: "running w \<Longrightarrow> running (vely_cant_find_file dev w)"
  using error_page_protocol(3) [of w dev] by (simp add: running_def protocol_def)

lemma lines_only_req: "lines_only f \<Longrightarrow> req (f w) = req w"
  by (simp add: lines_only_def)

lemma disable_running: "running w \<Longrightarrow> running (vely_disable_output w)"
  unfolding vely_disable_output_def by (rule running_set_req) simp_all

text \<open>The headers of a file are written before the flag that says so is set.\<close>

lemma in_headers_set_req:
  "in_headers w \<Longrightarrow> data_was_output (f (req w)) = data_was_output (req w) \<Longrightarrow> silent (f (req w)) = silent (req w)
     \<Longrightarrow> in_headers (set_req f w)"
  by (simp add: in_headers_def live_def)

lemma running_in_headers:
  "in_headers w \<Longrightarrow> in_report w = 0 \<Longrightarrow> if_none_match (req w) = None \<Longrightarrow> is_shut (req w) = 0 \<Longrightarrow>
     sent_header (req w) = 1 \<Longrightarrow> running w"
  by (simp add: running_def protocol_def)

lemma file_headers_running:
  assumes w: "running w" "sent_header (req w) = 0" and f: "lines_only f"
  shows "running (set_req (\<lambda>r. r\<lparr>sent_header := 1\<rparr>) (f w))"
    and "running (vely_output_http_header (set_req (\<lambda>r. r\<lparr>disable_output := 0\<rparr>) (f w)))"
proof -
  have h: "in_headers w" "in_report w = 0" "if_none_match (req w) = None" "is_shut (req w) = 0" using w by (simp_all add: running_def protocol_def)
  have k: "in_headers (f w)" "req (f w) = req w" "in_report (f w) = 0" using f h by (simp_all add: lines_only_def)
  show "running (set_req (\<lambda>r. r\<lparr>sent_header := 1\<rparr>) (f w))"
    by (rule running_in_headers) (rule in_headers_set_req, use k h in simp_all)
  let ?w = "set_req (\<lambda>r. r\<lparr>sent_header := 1\<rparr>) (set_req (\<lambda>r. r\<lparr>disable_output := 0\<rparr>) (f w))"
  have i: "in_headers ?w" by (intro in_headers_set_req) (use k h in simp_all)
  have r: "running ?w" by (rule running_in_headers [OF i]) (use k h in simp_all)
  have "running (vely_send_header (header (req w)) ?w)" by (rule lines_only_running [OF send_header_only r i]) simp
  then show "running (vely_output_http_header (set_req (\<lambda>r. r\<lparr>disable_output := 0\<rparr>) (f w)))"
    using w(2) k(2) by (simp add: vely_output_http_header_def)
qed

lemma cache_lines_only: "lines_only (cache_lines h)"
  using add_header_only by (auto simp: cache_lines_def lines_only_def split: option.split)

lemma etag_line_only: "lines_only (etag_line h t)"
  using add_header_only by (simp add: etag_line_def lines_only_def)

lemma disposition_line_only: "lines_only (disposition_line h)"
  using add_header_only by (auto simp: disposition_line_def lines_only_def split: option.split)

lemma file_lines_only: "lines_only (file_lines h t tstamp n)"
  using custom_headers_only [of "header_pairs h"] etag_line_only [of h tstamp] cache_lines_only [of h]
    disposition_line_only [of h] add_header_only(2) [of t] add_header_only(4) [of "decimal_text (int n)"]
  by (simp add: lines_only_def file_lines_def)

lemma file_header_running: "running w \<Longrightarrow> sent_header (req w) = 0 \<Longrightarrow> running (file_header h t tstamp n w)"
  using file_headers_running(1) [OF _ _ file_lines_only] file_headers_running(2) [OF _ _ etag_line_only]
  by (auto simp: file_header_def intro!: running_set_req)

lemma running_sent: "running w \<Longrightarrow> sent_header (req w) \<noteq> 1 \<Longrightarrow> sent_header (req w) = 0"
  by (auto simp: running_def protocol_def)

lemma safe_out_file: "safe (vely_out_file dev fs fname h)"
  unfolding safe_def
proof (intro allI impI)
  fix w
  assume w: "running w"
  show "keeps (vely_out_file dev fs fname h) w"
  proof (cases "vely_validate_output w \<and> sent_header (req w) \<noteq> 1")
    case False
    then show ?thesis using w by (auto simp: vely_out_file_def act_get_def act_fault_def keeps_def)
  next
    case True
    let ?w = "vely_disable_output w"
    have r: "running ?w" "sent_header (req ?w) = 0"
      using disable_running [OF w] running_sent [OF w] True by (simp_all add: vely_disable_output_def)
    have n: "if_none_match (req w) = None" using w by (simp add: running_def)
    have f: "keeps (act_bind (act_do (file_header h t ts k)) (\<lambda>_. act_bind (vely_write_web dev False str) (\<lambda>_. act_return ()))) ?w"
      for t ts k str
    proof (rule keeps_act_bind)
      show "keeps (act_do (file_header h t ts k)) ?w"
        using file_header_running [OF r] by (simp add: keeps_def act_do_def)
    qed (intro safe_intros)
    have c: "keeps (act_do (vely_cant_find_file dev)) ?w" using cant_find_file_running [OF r(1)] by (simp add: keeps_def act_do_def)
    have o: "keeps (act_fault Out_of_bounds :: unit act) ?w" using r by (simp add: keeps_def act_fault_def)
    have "vely_out_file dev fs fname h w = (if find_str True fname ''..'' \<noteq> None then act_do (vely_cant_find_file dev)
         else case stat_time fs fname of
           None \<Rightarrow> act_do (vely_cant_find_file dev)
         | Some tstamp \<Rightarrow>
             (case contents fs fname of
                None \<Rightarrow> act_do (vely_cant_find_file dev)
              | Some str \<Rightarrow>
                  if int (length str) \<ge> 2 ^ 31 - 1 then act_do (vely_cant_find_file dev)
                  else if str = [] then act_do (vely_cant_find_file dev)
                  else case ctype h of
                    None \<Rightarrow> act_fault Out_of_bounds
                  | Some t \<Rightarrow> act_bind (act_do (file_header h t tstamp (length str))) (\<lambda>_.
                      act_bind (vely_write_web dev False str) (\<lambda>_. act_return ())))) ?w"
      using True n by (simp add: vely_out_file_def act_get_def act_bind_def [of "act_do vely_disable_output"] act_do_def [of vely_disable_output]
          cong: option.case_cong if_cong)
    then show ?thesis using f c o by (auto simp: keeps_def split: option.splits)
  qed
qed

section \<open>Whole requests\<close>

text \<open>The programs of the theorem: all calls but those that silence the headers or finish the output themselves.\<close>

fun plain_call :: "call \<Rightarrow> bool" where
  "plain_call Silent_header = False"
| "plain_call Finish_output = False"
| "plain_call _ = True"

lemma safe_do_call: "plain_call c \<Longrightarrow> safe (do_call dev x command fs c)"
proof (induction c)
  case (Out_header h)
  have "running (vely_output_http_header (if h = None then w else set_req (\<lambda>r. r\<lparr>header := h\<rparr>) w))" if "running w" for w
    using that output_header_running running_set_req [OF that, of "\<lambda>r. r\<lparr>header := h\<rparr>"] by simp
  then show ?case by (auto intro: safe_intros)
qed (auto intro!: safe_intros safe_out_file safe_cookie)

lemma safe_do_calls: "list_all plain_call cs \<Longrightarrow> safe (do_calls dev x command fs cs)"
proof (induction cs)
  case (Cons c cs)
  then show ?case using safe_do_call [of c] by (auto intro: safe_intros)
qed (auto intro: safe_intros)

text \<open>What is left when a request ends.\<close>

definition answered :: "web \<Rightarrow> bool" where
  "answered w \<longleftrightarrow> finished_output w = 1 \<and> is_shut (req w) = 1 \<and>
     (sent_header (req w) = 0 \<and> sent_to_client w = []
      \<or> sent_header (req w) = 1 \<and> data_was_output (req w) = 1 \<and> complete (sent_to_client w))"

definition new_request :: "vely_input_req \<Rightarrow> bool" where
  "new_request r \<longleftrightarrow> sent_header r = 0 \<and> data_was_output r = 0 \<and> silent r = 0 \<and> if_none_match r = None \<and> is_shut r = 0"

lemma start_running: "new_request r \<Longrightarrow> running (start_request r w)"
  by (simp add: new_request_def start_request_def running_def protocol_def in_headers_def live_def sent_to_client_def)

lemma finish_fields:
  "req (vely_FCGI_Finish command w) = req w" "sent_to_client (vely_FCGI_Finish command w) = sent_to_client w"
  "finished_output (vely_FCGI_Finish command w) = 1"
  by (simp_all add: vely_FCGI_Finish_def sent_to_client_def)

lemma shut_answered:
  assumes "protocol w" "is_shut (req w) = 0"
  shows "answered (end_request dev command w)"
proof -
  let ?w = "set_req (\<lambda>r. r\<lparr>is_shut := 1\<rparr>) w"
  have h: "in_headers ?w \<longleftrightarrow> in_headers w" "in_body ?w \<longleftrightarrow> in_body w" by (simp_all add: in_headers_def in_body_def live_def)
  have e: "is_shut (req (vely_gen_header_end dev ?w)) = 1" if "in_headers w"
  proof -
    let ?cs = "case cookies (req ?w) of None \<Rightarrow> [] | Some cs \<Rightarrow> take (num_of_cookies (req ?w)) cs"
    have "req (send_cookies ?cs ?w) = req ?w" by (rule lines_only_req [OF send_cookies_only])
    then show ?thesis by (simp add: vely_gen_header_end_def)
  qed
  consider "sent_header (req w) = 0" "sent_to_client w = []" | "sent_header (req w) = 1" "in_headers w" | "sent_header (req w) = 1" "in_body w"
    using assms(1) by (auto simp: protocol_def)
  then show ?thesis
  proof cases
    case 1
    then show ?thesis using assms(2) by (simp add: end_request_def vely_shut_def answered_def finish_fields Let_def)
  next
    case 2
    then show ?thesis
      using assms(2) e header_end_protocol [of ?w dev] h
      by (simp add: end_request_def vely_shut_def answered_def finish_fields Let_def in_headers_def in_body_def)
  next
    case 3
    then show ?thesis
      using assms(2) by (simp add: end_request_def vely_shut_def answered_def finish_fields Let_def in_body_def)
  qed
qed

text \<open>Reporting an error leaves the error page, or the end of the headers that were already sent.\<close>

lemma report_error_protocol:
  assumes "running w" "length t \<le> VV_MAX_ERR_LEN + 1"
  shows "\<exists>w'. vely_report_error dev t w = Inr ((), w') \<and> protocol w' \<and> is_shut (req w') = 0 \<and> sent_header (req w') = 1"
proof -
  let ?w1 = "vely_server_error dev (w\<lparr>in_report := 1\<rparr>)"
  have "protocol (w\<lparr>in_report := 1\<rparr>)" "is_shut (req (w\<lparr>in_report := 1\<rparr>)) = 0"
    using assms(1) by (simp_all add: running_def protocol_def in_headers_def in_body_def live_def sent_to_client_def)
  then have b: "in_body ?w1" "sent_header (req ?w1) = 1" "is_shut (req ?w1) = 0"
    using error_page_protocol [of "w\<lparr>in_report := 1\<rparr>" dev] by simp_all
  let ?w2 = "snd (vely_gen_write dev True [CHR 0x0A] (snd (vely_gen_write dev True t ?w1)))"
  have "in_body ?w2" "req ?w2 = req ?w1" using gen_write_body [OF gen_write_body [OF b(1)]] by simp_all
  then show ?thesis
    using assms b by (auto simp: vely_report_error_def running_def protocol_def Let_def)
qed

text \<open>C1: for a request in which the client does not ask whether a file was modified (\<open>new_request\<close>: no If-None-Match header,
  nothing sent yet), and a program that outputs headers, data, strings, cookies and files, in any order, whether or not it
  reports an error, the response is either nothing, or header lines, one empty line and then data; and if a header was
  output, the headers were ended.  Only an access outside memory or a number that does not fit its type has no result.
  Two calls are left out (\<open>plain_call\<close>), those that silence the headers and that finish the output: a program that finishes
  its own output may leave the headers without an end (lemma \<open>finish_output_gap\<close> in Answer).  With If-None-Match the
  response may have another form: a file that was not modified is answered with an end of the headers that the variable
  \<open>sent_header\<close> does not show, and a reported error then writes header lines after it (velyrt.c:3465).\<close>

theorem response_form:
  assumes "new_request r" "list_all plain_call cs" "\<forall>t. length (msg t) \<le> VV_MAX_ERR_LEN + 1"
  shows "case handle_request dev x command fs msg r cs w of
      Inl (e, w') \<Rightarrow> \<forall>t. e \<noteq> Report_error t
    | Inr w' \<Rightarrow> answered w'"
proof -
  have k: "keeps (do_calls dev x command fs cs) (start_request r w)"
    using safe_do_calls [OF assms(2)] start_running [OF assms(1)] by (simp add: safe_def)
  show ?thesis
  proof (cases "do_calls dev x command fs cs (start_request r w)")
    case (Inl y)
    obtain e w1 where y: "y = (e, w1)" by (cases y)
    then have r1: "running w1" using k Inl by (simp add: keeps_def)
    show ?thesis
    proof (cases e)
      case (Report_error t)
      obtain w2 where "vely_report_error dev (msg t) w1 = Inr ((), w2)" "protocol w2" "is_shut (req w2) = 0"
        using report_error_protocol [OF r1] assms(3) by blast
      then show ?thesis using Inl y Report_error shut_answered by (simp add: handle_request_def)
    qed (simp_all add: handle_request_def Inl y)
  next
    case (Inr y)
    obtain u w1 where y: "y = (u, w1)" by (cases y)
    then have "running w1" using k Inr by (simp add: keeps_def)
    then show ?thesis using Inr y shut_answered by (simp add: handle_request_def running_def)
  qed
qed

text \<open>A process before its first request.\<close>

definition idle :: web where
  "idle = \<lparr>req = vely_init_input_req, finished_output = 0, stream = False, in_report = 0, events = [], vars = \<lambda>_. []\<rparr>"

theorem response_form_witness:
  "case handle_request (\<lambda>_ _. True) NUL False \<lparr>stat_time = \<lambda>_. None, contents = \<lambda>_. None\<rparr> (\<lambda>_. ''oops'') vely_init_input_req
      [Out_header None, Begin_string 1, Puts VV_WEB ''<'' 0, End_string, Printf False VV_NOENC ''hi''] idle of
      Inl (e, w') \<Rightarrow> \<forall>t. e \<noteq> Report_error t
    | Inr w' \<Rightarrow> answered w'"
  by (rule response_form) (simp_all add: new_request_def vely_init_input_req_def VV_MAX_ERR_LEN_def)

end
