(* ===== verification/Answer.thy ===== *)
theory Answer
  imports Response
begin

text \<open>
  Further properties of a whole request: what a client sees of a reported error, and what is missing when a program
  finishes its own output.
\<close>

section \<open>What a client sees of an error\<close>

text \<open>The lines of the cookies that the program set.\<close>

definition cookie_events :: "vely_input_req \<Rightarrow> event list" where
  "cookie_events r =
     List.map (\<lambda>c. Line (''Set-Cookie: '' @ cdata c @ crlf))
       (filter (\<lambda>c. is_set_by_program c = 1) (case cookies r of None \<Rightarrow> [] | Some cs \<Rightarrow> take (num_of_cookies r) cs))"

lemma sent_header_line: "live w \<Longrightarrow> sent_to_client (header_line s w) = sent_to_client w @ [Line s]"
  by (simp add: live_def header_line_def)

lemma live_header_line [simp]: "live (header_line s w) = live w" "req (header_line s w) = req w"
  by (simp_all add: header_line_def live_def)

lemma live_status [simp]:
  "live (vely_gen_set_status i s w) = live w" "req (vely_gen_set_status i s w) = req w"
  "live (vely_gen_set_content_type v w) = live w" "req (vely_gen_set_content_type v w) = req w"
  by (simp_all add: vely_gen_set_status_def vely_gen_set_content_type_def)

lemma sent_status:
  "live w \<Longrightarrow> sent_to_client (vely_gen_set_content_type v (vely_gen_set_status i s w)) =
     sent_to_client w @ [Line (''Status: '' @ decimal_text i @ '' '' @ s @ crlf), Line (''Content-Type: '' @ v @ crlf)]"
  by (simp add: vely_gen_set_status_def vely_gen_set_content_type_def sent_header_line)

lemma live_set_req: "silent (f (req w)) = silent (req w) \<Longrightarrow> live (set_req f w) = live w"
  by (simp add: live_def)

lemma sent_cookies:
  "live w \<Longrightarrow> sent_to_client (send_cookies cs w) = sent_to_client w @
     List.map (\<lambda>c. Line (''Set-Cookie: '' @ cdata c @ crlf)) (filter (\<lambda>c. is_set_by_program c = 1) cs)"
  by (induction cs arbitrary: w) (simp_all add: vely_gen_add_header_def sent_header_line)

lemma live_cookies: "live (send_cookies cs w) = live w"
  by (induction cs arbitrary: w) (simp_all add: vely_gen_add_header_def)

lemma sent_header_end:
  assumes "live w" "data_was_output (req w) = 0"
  shows "sent_to_client (vely_gen_header_end dev w) = sent_to_client w @ cookie_events (req w) @ [Bytes False crlf]"
proof -
  let ?cs = "case cookies (req w) of None \<Rightarrow> [] | Some cs \<Rightarrow> take (num_of_cookies (req w)) cs"
  have "live (send_cookies ?cs w)" using assms(1) live_cookies by simp
  then show ?thesis
    using assms sent_cookies [OF assms(1), of ?cs]
    by (simp add: vely_gen_header_end_def cookie_events_def vely_gen_write_def live_def)
qed

lemma header_end_once: "data_was_output (req w) \<noteq> 0 \<Longrightarrow> vely_gen_header_end dev w = w"
  by (simp add: vely_gen_header_end_def)

text \<open>What an error adds: an error page without a text if no header was output, the end of the headers if only they
  were output, nothing otherwise.\<close>

definition error_page :: "vely_input_req \<Rightarrow> event list" where
  "error_page r =
     (if sent_header r = 0 then [Line (''Status: '' @ decimal_text 500 @ '' Internal Server Error'' @ crlf),
                                 Line (''Content-Type: text/html;charset=utf-8'' @ crlf)]
      else []) @ (if data_was_output r = 0 then cookie_events r @ [Bytes False crlf] else [])"

lemma sent_server_error:
  assumes "protocol w"
  shows "sent_to_client (vely_server_error dev w) = sent_to_client w @ error_page (req w)"
proof -
  have l: "live w" using assms by (auto simp: protocol_def in_headers_def in_body_def)
  show ?thesis
  proof (cases "sent_header (req w) = 1")
    case True
    then show ?thesis
      using l sent_header_end [OF l] assms
      by (auto simp: vely_server_error_def vely_header_err_def error_page_def protocol_def in_body_def)
  next
    case False
    let ?w = "vely_gen_set_content_type ''text/html;charset=utf-8''
        (vely_gen_set_status 500 ''Internal Server Error'' (set_req (\<lambda>r. r\<lparr>sent_header := 1\<rparr>) w))"
    have d: "live ?w" "data_was_output (req ?w) = 0" "data_was_output (req w) = 0" "sent_header (req w) = 0"
      using assms False l by (auto simp: protocol_def in_headers_def live_set_req)
    have "sent_to_client ?w = sent_to_client w @ [Line (''Status: '' @ decimal_text 500 @ '' Internal Server Error'' @ crlf),
        Line (''Content-Type: text/html;charset=utf-8'' @ crlf)]"
      using sent_status [of "set_req (\<lambda>r. r\<lparr>sent_header := 1\<rparr>) w"] l by (simp add: live_set_req)
    moreover have "cookie_events (req ?w) = cookie_events (req w)" by (simp add: cookie_events_def split: option.split)
    ultimately show ?thesis
      using sent_header_end [OF d(1,2), of dev] d False
      by (simp add: vely_server_error_def vely_header_err_def error_page_def)
  qed
qed

lemma sent_write_error: "sent_to_client (snd (vely_gen_write dev True s w)) = sent_to_client w"
  by (simp add: vely_gen_write_def)

lemma shut_sent:
  "data_was_output (req w) \<noteq> 0 \<Longrightarrow> sent_to_client (end_request dev command w) = sent_to_client w"
  by (simp add: end_request_def vely_shut_def finish_fields Let_def)

text \<open>C33: an error that a program reports is seen by the client as an error page without the text of the error,
  if no header was output before it; else only as the end of the headers, or as nothing when there was data.\<close>

theorem error_seen_by_client:
  assumes "new_request r" "list_all plain_call cs" "\<forall>t. length (msg t) \<le> VV_MAX_ERR_LEN + 1"
    and "do_calls dev x command fs cs (start_request r w) = Inl (Report_error t, w1)"
  shows "\<exists>w'. handle_request dev x command fs msg r cs w = Inr w' \<and>
    sent_to_client w' = sent_to_client w1 @ error_page (req w1)"
proof -
  have "keeps (do_calls dev x command fs cs) (start_request r w)"
    using safe_do_calls [OF assms(2)] start_running [OF assms(1)] by (simp add: safe_def)
  then have w1: "running w1" using assms(4) by (simp add: keeps_def)
  let ?v = "w1\<lparr>in_report := 1\<rparr>"
  let ?w2 = "vely_server_error dev ?v"
  let ?w3 = "snd (vely_gen_write dev True [CHR 0x0A] (snd (vely_gen_write dev True (msg t) ?w2)))"
  have p: "protocol ?v" using w1 by (simp add: running_def protocol_def in_headers_def in_body_def live_def sent_to_client_def)
  have "vely_report_error dev (msg t) w1 = Inr ((), ?w3)"
    using w1 assms(3) by (simp add: vely_report_error_def running_def Let_def not_less)
  moreover have "data_was_output (req ?w3) \<noteq> 0" using error_page_protocol(1) [OF p, of dev] by (simp add: in_body_def)
  moreover have "sent_to_client ?w3 = sent_to_client w1 @ error_page (req w1)"
    using sent_server_error [OF p, of dev] by (simp add: sent_write_error) (simp add: sent_to_client_def)
  ultimately show ?thesis using assms(4) shut_sent by (simp add: handle_request_def)
qed

text \<open>A program that prints without a header.\<close>

lemma print_without_header:
  "int (length s) \<le> INT_MAX \<Longrightarrow> do_calls dev x command fs [Printf False VV_NOENC s] (start_request vely_init_input_req w) =
     Inl (Report_error ''Attempting to write to web without outputting header first'', start_request vely_init_input_req w)"
  by (simp add: act_bind_def act_return_def vely_printf_def act_get_def vely_validate_output_def cur_def start_request_def
      vely_init_input_req_def vely_write_web_def)

lemma text_500: "decimal_text 500 = ''500''"
  by code_simp

theorem error_seen_by_client_witness:
  "\<exists>w'. handle_request (\<lambda>_ _. True) NUL False \<lparr>stat_time = \<lambda>_. None, contents = \<lambda>_. None\<rparr> (\<lambda>_. ''secret'')
      vely_init_input_req [Printf False VV_NOENC ''hi''] idle = Inr w' \<and>
    sent_to_client w' = [Line (''Status: 500 Internal Server Error'' @ crlf),
      Line (''Content-Type: text/html;charset=utf-8'' @ crlf), Bytes False crlf]"
proof -
  have e: "sent_to_client (start_request vely_init_input_req idle) @ error_page (req (start_request vely_init_input_req idle)) =
      [Line (''Status: 500 Internal Server Error'' @ crlf), Line (''Content-Type: text/html;charset=utf-8'' @ crlf), Bytes False crlf]"
    by (simp add: error_page_def cookie_events_def start_request_def vely_init_input_req_def sent_to_client_def text_500)
  show ?thesis
    unfolding e [symmetric]
    by (rule error_seen_by_client [OF _ _ _ print_without_header])
      (simp_all add: new_request_def vely_init_input_req_def VV_MAX_ERR_LEN_def INT_MAX_def)
qed

section \<open>Output finished by the program\<close>

lemma cookies_finished: "finished_output w = 1 \<Longrightarrow> send_cookies cs w = w"
  by (induction cs) (simp_all add: vely_gen_add_header_def header_line_def)

lemma end_finished: "finished_output w = 1 \<Longrightarrow> sent_to_client (end_request dev command w) = sent_to_client w"
  by (simp add: end_request_def vely_shut_def finish_fields vely_gen_header_end_def cookies_finished vely_gen_write_def Let_def)

lemma some_sent: "sent_to_client w \<noteq> [] \<Longrightarrow> sent_to_client (header_line s w) \<noteq> []"
  by (simp add: header_line_def)

lemma some_custom: "sent_to_client w \<noteq> [] \<Longrightarrow> sent_to_client (custom_headers hs w) \<noteq> []"
  by (induction hs w rule: custom_headers.induct) (simp_all add: vely_gen_add_header_def some_sent)

lemma some_header: "live w \<Longrightarrow> sent_to_client (vely_send_header h w) \<noteq> []"
proof -
  assume l: "live w"
  have "sent_to_client (vely_gen_set_content_type v w) \<noteq> []" for v
    using sent_header_line [OF l] by (simp add: vely_gen_set_content_type_def)
  then show ?thesis
    by (auto simp: vely_send_header_def vely_gen_add_header_def vely_gen_set_status_def Let_def some_sent some_custom split: option.split)
qed

lemma header_page:
  assumes "new_request r" "disable_output r = 0"
  shows "\<exists>w1. do_call dev x command fs (Out_header None) (start_request r w) = Inr ((), w1) \<and> sent_header (req w1) = 1 \<and>
    all_lines (sent_to_client w1) \<and> sent_to_client w1 \<noteq> [] \<and> curr_write_to_string (req w1) = curr_write_to_string r \<and>
    is_shut (req w1) = 0 \<and> data_was_output (req w1) = 0 \<and> finished_output w1 = 0"
proof -
  let ?w = "set_req (\<lambda>r. r\<lparr>sent_header := 1\<rparr>) (start_request r w)"
  let ?w1 = "vely_send_header (header r) ?w"
  have h: "in_headers ?w" "is_shut (req ?w) = 0" "curr_write_to_string (req ?w) = curr_write_to_string r"
    using assms start_running [OF assms(1), of w]
    by (simp_all add: new_request_def running_def protocol_def in_headers_def live_def) (simp_all add: start_request_def)
  have l: "in_headers ?w1" "req ?w1 = req ?w" "finished_output ?w1 = 0"
    using send_header_only [of "header r"] h(1) by (simp_all add: lines_only_def in_headers_def live_def)
  have "sent_to_client ?w1 \<noteq> []"
    using h(1) some_header by (simp add: in_headers_def)
  then show ?thesis
    using assms h l by (simp add: act_do_def vely_output_http_header_def start_request_def in_headers_def new_request_def)
qed

text \<open>A program that outputs a header and finishes the output has sent header lines without the empty line that ends
  them, and nothing of the end of the request adds it.\<close>

lemma finish_output_gap:
  assumes "new_request r" "disable_output r = 0"
  shows "\<exists>w'. handle_request dev x False fs msg r [Out_header None, Finish_output] w = Inr w' \<and>
      sent_to_client w' \<noteq> [] \<and> all_lines (sent_to_client w')"
proof -
  obtain w1 where w1: "do_call dev x False fs (Out_header None) (start_request r w) = Inr ((), w1)" "sent_header (req w1) = 1"
      "all_lines (sent_to_client w1)" "sent_to_client w1 \<noteq> []" "is_shut (req w1) = 0" "data_was_output (req w1) = 0" 
    using header_page [OF assms] by metis
  let ?w2 = "vely_disable_output (vely_FCGI_Finish False w1)"
  have "do_calls dev x False fs [Out_header None, Finish_output] (start_request r w) = Inr ((), ?w2)"
    using w1(1) by (simp add: act_bind_def act_return_def act_do_def)
  moreover have "finished_output ?w2 = 1" "sent_to_client ?w2 = sent_to_client w1"
    by (simp_all add: vely_disable_output_def finish_fields)
  ultimately show ?thesis using w1 end_finished [of ?w2] by (simp add: handle_request_def)
qed

lemma finish_output_gap_witness:
  "\<exists>w'. handle_request (\<lambda>_ _. True) NUL False \<lparr>stat_time = \<lambda>_. None, contents = \<lambda>_. None\<rparr> (\<lambda>t. t)
      vely_init_input_req [Out_header None, Finish_output] idle = Inr w' \<and>
      sent_to_client w' \<noteq> [] \<and> all_lines (sent_to_client w')"
  by (rule finish_output_gap) (simp_all add: new_request_def vely_init_input_req_def)

text \<open>Printing after the output is finished is a reported error.\<close>

lemma print_after_finish:
  assumes "curr_write_to_string (req w) = -1"
  shows "\<exists>t w'. do_calls dev x False fs [Finish_output, Printf False VV_NOENC s] w = Inl (Report_error t, w')"
  using assms
  by (simp add: act_bind_def act_do_def vely_printf_def act_get_def act_fault_def vely_validate_output_def cur_def
      vely_disable_output_def vely_FCGI_Finish_def)

end
