(* ===== verification/WriteString.thy ===== *)
theory WriteString
  imports Response
begin

text \<open>
  The stack of strings that are being written, and the output of a program that uses it: a
  refinement of a stack of texts.  A program puts text on the top string, or sends it to the client
  if there is none.
\<close>

section \<open>The stack of texts\<close>

text \<open>A string being written: the variable it is for, its text, whether it is kept untrimmed, and the byte after the
  text, which ends up in the variable when it is not trimmed.\<close>

type_synonym entry = "nat \<times> string \<times> bool \<times> char"

type_synonym view = "entry list \<times> (nat \<Rightarrow> string) \<times> event list"

text \<open>What a formatted text becomes.\<close>

definition encoder :: "enc_type \<Rightarrow> string \<Rightarrow> string" where
  "encoder enc s = (case enc of VV_NOENC \<Rightarrow> s | VV_WEB \<Rightarrow> encode_loop web_char (cstr s) | VV_URL \<Rightarrow> encode_loop url_char (cstr s))"

definition put_text :: "bool \<Rightarrow> string \<Rightarrow> char \<Rightarrow> view \<Rightarrow> view" where
  "put_text iserr t b p =
     (case p of
        ([], vs, es) \<Rightarrow> ([], vs, es @ [Bytes iserr t])
      | ((v, u, n, c) # st, vs, es) \<Rightarrow> ((v, u @ t, n, b) # st, vs, es))"

text \<open>Texts of more than 357913941 bytes cannot be encoded into a string: six times their length does not fit an \<^verbatim>\<open>int\<close>.\<close>

definition too_long :: "nat \<Rightarrow> bool" where
  "too_long n \<longleftrightarrow> 6 * int n + 1 > INT_MAX"

fun spec_call :: "char \<Rightarrow> view \<Rightarrow> call \<Rightarrow> view res" where
  "spec_call x (st, vs, es) (Begin_string v) =
     (if length st < VV_MAX_NESTED_WRITE_STRING then Inr ((v, [], False, x) # st, vs(v := [NUL]), es)
      else Inl (Report_error ''Too many nesting levels of writing to string in progress''))"
| "spec_call x (st, vs, es) No_trim =
     (case st of [] \<Rightarrow> Inl Out_of_bounds | (v, t, n, b) # st' \<Rightarrow> Inr ((v, t, True, b) # st', vs, es))"
| "spec_call x (st, vs, es) End_string =
     (case st of
        [] \<Rightarrow> Inl (Report_error ''Cannot stop writing to string if it was never initiated'')
      | (v, t, n, b) # st' \<Rightarrow>
          (if n then Inr (st', vs(v := t @ [b]), es)
           else if rstrip t = [] \<and> isspace x then Inl Out_of_bounds
           else Inr (st', vs(v := rstrip t @ [NUL]), es)))"
| "spec_call x (st, vs, es) (Puts enc src len) =
     (let n = (if len \<noteq> 0 then len else length (cstr src)) in
      if n > length src then Inl Out_of_bounds
      else case enc of
        VV_NOENC \<Rightarrow>
          (if st \<noteq> [] \<and> n = length src then Inl Out_of_bounds
           else Inr (put_text False (take n src) (cat src n) (st, vs, es)))
      | VV_WEB \<Rightarrow>
          (if st \<noteq> [] \<and> too_long n then Inl Signed_overflow
           else Inr (put_text False (encode_loop web_char (take n src)) NUL (st, vs, es)))
      | VV_URL \<Rightarrow>
          (if st \<noteq> [] \<and> too_long n then Inl Signed_overflow
           else Inr (put_text False (encode_loop url_char (take n src)) NUL (st, vs, es))))"
| "spec_call x (st, vs, es) (Printf iserr enc out) =
     (if int (length out) > INT_MAX then Inl Signed_overflow else Inr (put_text iserr (encoder enc out) NUL (st, vs, es)))"
| "spec_call x p _ = Inr p"

fun spec_calls :: "char \<Rightarrow> view \<Rightarrow> call list \<Rightarrow> view res" where
  "spec_calls x p [] = Inr p"
| "spec_calls x p (c # cs) = res_bind (spec_call x p c) (\<lambda>p'. spec_calls x p' cs)"

section \<open>The strings of a request\<close>

definition string_ok :: "vely_write_string \<Rightarrow> bool" where
  "string_ok s \<longleftrightarrow> (case wstring s of None \<Rightarrow> False | Some buf \<Rightarrow> length buf = wlength s \<and> buf_pos s < wlength s)"

definition entry_of :: "vely_write_string \<Rightarrow> entry" where
  "entry_of s = (user_string s, take (buf_pos s) (the (wstring s)), notrim s \<noteq> 0, the (wstring s) ! buf_pos s)"

definition level :: "web \<Rightarrow> nat" where
  "level w = nat (cur w + 1)"

definition strings_ok :: "web \<Rightarrow> bool" where
  "strings_ok w \<longleftrightarrow>
     (let arr = write_string_arr (req w) in
      length arr = VV_MAX_NESTED_WRITE_STRING \<and> -1 \<le> cur w \<and> cur w < int VV_MAX_NESTED_WRITE_STRING
      \<and> list_all string_ok (take (level w) arr) \<and> list_all (\<lambda>s. notrim s = 0) (drop (level w) arr))"

definition stack :: "web \<Rightarrow> entry list" where
  "stack w = rev (List.map entry_of (take (level w) (write_string_arr (req w))))"

definition view_of :: "web \<Rightarrow> view" where
  "view_of w = (stack w, vars w, events w)"

text \<open>The headers are out, and output is not disabled.\<close>

definition open_body :: "web \<Rightarrow> bool" where
  "open_body w \<longleftrightarrow> strings_ok w \<and> sent_header (req w) = 1 \<and> data_was_output (req w) = 1 \<and> disable_output (req w) = 0
     \<and> finished_output w = 0 \<and> stream w"

text \<open>The outcome of an action: what happened, and the view of the state.\<close>

definition does :: "'a act \<Rightarrow> web \<Rightarrow> view res \<Rightarrow> bool" where
  "does m w r \<longleftrightarrow>
     (case m w of
        Inl (e, w') \<Rightarrow> r = Inl e
      | Inr (_, w') \<Rightarrow> open_body w' \<and> r = Inr (view_of w'))"


section \<open>The top string\<close>

lemma top_string:
  assumes "open_body w" "cur w \<noteq> -1"
  obtains s buf where "wrstr (cur w) w = Inr (s, w)" "wstring s = Some buf" "length buf = wlength s" "buf_pos s < wlength s"
    "stack w = entry_of s # tl (stack w)"
    "\<forall>s'. string_ok s' \<longrightarrow> (\<exists>w'. put_wrstr (cur w) s' w = Inr ((), w') \<and> open_body w'
       \<and> view_of w' = (entry_of s' # tl (stack w), vars w, events w))"
proof -
  let ?arr = "write_string_arr (req w)" and ?k = "nat (cur w)"
  have a: "length ?arr = VV_MAX_NESTED_WRITE_STRING" "0 \<le> cur w" "?k < length ?arr" "level w = Suc ?k"
    using assms by (auto simp: open_body_def strings_ok_def level_def Let_def)
  have ok: "list_all string_ok (take (level w) ?arr)" "list_all (\<lambda>s. notrim s = 0) (drop (level w) ?arr)"
    using assms(1) by (simp_all add: open_body_def strings_ok_def Let_def)
  have t: "take (level w) ?arr = take ?k ?arr @ [?arr ! ?k]" using a by (simp add: take_Suc_conv_app_nth)
  have s: "string_ok (?arr ! ?k)" using ok(1) by (simp add: t)
  have st: "stack w = entry_of (?arr ! ?k) # rev (List.map entry_of (take ?k ?arr))" by (simp add: stack_def t)
  have put: "\<exists>w'. put_wrstr (cur w) s' w = Inr ((), w') \<and> open_body w'
       \<and> view_of w' = (entry_of s' # tl (stack w), vars w, events w)" if "string_ok s'" for s'
  proof -
    let ?w = "set_req (\<lambda>r. r\<lparr>write_string_arr := (write_string_arr r)[?k := s']\<rparr>) w"
    have t': "take (level ?w) (write_string_arr (req ?w)) = take ?k ?arr @ [s']"
      using a by (simp add: level_def cur_def take_Suc_conv_app_nth)
    moreover have "drop (level ?w) (write_string_arr (req ?w)) = drop (level w) ?arr"
      using a by (simp add: level_def cur_def)
    moreover have "cur ?w = cur w" "list_all string_ok (take ?k ?arr)" using ok(1) by (simp_all add: cur_def t)
    ultimately have "open_body ?w \<and> view_of ?w = (entry_of s' # tl (stack w), vars w, events w)"
      using assms ok a that st
      by (simp add: open_body_def strings_ok_def view_of_def stack_def) (simp add: set_req_def)
    then show ?thesis using a by (intro exI [of _ ?w]) (simp add: put_wrstr_def)
  qed
  show ?thesis
    by (rule that [of "?arr ! ?k" "the (wstring (?arr ! ?k))"])
      (use a s st put in \<open>auto simp: wrstr_def string_ok_def split: option.splits\<close>)
qed

lemma stack_empty: "strings_ok w \<Longrightarrow> stack w = [] \<longleftrightarrow> cur w = -1"
  by (auto simp: stack_def strings_ok_def level_def Let_def)

lemma stack_length: "strings_ok w \<Longrightarrow> length (stack w) = nat (cur w + 1)"
  by (auto simp: stack_def strings_ok_def level_def Let_def)

section \<open>Room in the buffer\<close>

lemma room:
  assumes "length buf = wlength s" "buf_pos s < wlength s" "\<not> c \<Longrightarrow> buf_pos s + need < wlength s"
    and "(if c then grow x need buf s else (buf, s)) = (buf1, s1)"
  shows "length buf1 = wlength s1" "buf_pos s1 + need < wlength s1" "take (buf_pos s1) buf1 = take (buf_pos s) buf"
    "buf_pos s1 = buf_pos s" "user_string s1 = user_string s" "notrim s1 = notrim s"
  using assms by (auto simp: grow_def Let_def split: if_splits)

lemma text_put:
  assumes "length buf = wlength s" "buf_pos s + length t < wlength s"
  shows "\<exists>buf'. memput buf (buf_pos s) (t @ [b]) = Inr buf' \<and> length buf' = length buf \<and>
    string_ok (s\<lparr>wstring := Some buf', buf_pos := buf_pos s + length t\<rparr>) \<and>
    entry_of (s\<lparr>wstring := Some buf', buf_pos := buf_pos s + length t\<rparr>) =
      (user_string s, take (buf_pos s) buf @ t, notrim s \<noteq> 0, b)"
  using assms by (simp add: memput_def string_ok_def entry_of_def nth_append)

lemma trim_back_rstrip:
  "p \<le> length buf \<Longrightarrow> trim_back x buf p =
     (if rstrip (take p buf) = [] \<and> isspace x then Inl Out_of_bounds else Inr (length (rstrip (take p buf))))"
proof (induction p)
  case (Suc p)
  then show ?case
    by (simp add: take_Suc_conv_app_nth rstrip_snoc cat_def)
qed (simp add: rstrip_def)


section \<open>Each call\<close>

lemma open_top: "open_body w \<Longrightarrow> cur w \<noteq> -1 \<Longrightarrow> 0 \<le> cur w \<and> cur w < int VV_MAX_NESTED_WRITE_STRING"
  by (auto simp: open_body_def strings_ok_def Let_def)

lemma open_valid: "open_body w \<Longrightarrow> vely_validate_output w"
  by (simp add: open_body_def vely_validate_output_def)

lemma put_text_top:
  "stack w = (v, u, n, c) # st \<Longrightarrow> put_text iserr t b (view_of w) = ((v, u @ t, n, b) # st, vars w, events w)"
  by (simp add: put_text_def view_of_def)

text \<open>Text put on the top string.\<close>

lemma does_bind_return:
  "does m w r \<Longrightarrow> does (act_bind m (\<lambda>a. act_return (f a))) w r"
  by (auto simp: does_def act_bind_def act_return_def split: sum.splits)

lemma puts_to_string_does:
  assumes w: "open_body w" "cur w \<noteq> -1"
  shows "does (vely_puts_to_string x src n) w
    (if n < length src then Inr (put_text e (take n src) (src ! n) (view_of w)) else Inl Out_of_bounds)"
proof -
  obtain s buf where s: "wrstr (cur w) w = Inr (s, w)" "wstring s = Some buf" "length buf = wlength s" "buf_pos s < wlength s"
    "stack w = entry_of s # tl (stack w)"
    and put: "\<forall>s'. string_ok s' \<longrightarrow> (\<exists>w'. put_wrstr (cur w) s' w = Inr ((), w') \<and> open_body w'
       \<and> view_of w' = (entry_of s' # tl (stack w), vars w, events w))"
    by (rule top_string [OF w])
  let ?c = "int n > int (wlength s) - 1 - int (buf_pos s)"
  obtain buf1 s1 where r: "(if ?c then grow x n buf s else (buf, s)) = (buf1, s1)" by (cases "if ?c then grow x n buf s else (buf, s)")
  have m: "length buf1 = wlength s1" "buf_pos s1 + n < wlength s1" "take (buf_pos s1) buf1 = take (buf_pos s) buf"
    "buf_pos s1 = buf_pos s" "user_string s1 = user_string s" "notrim s1 = notrim s"
    using room [OF s(3,4) _ r] by auto
  show ?thesis
  proof (cases "n < length src")
    case True
    then have src: "take (n + 1) src = take n src @ [src ! n]" by (simp add: take_Suc_conv_app_nth)
    obtain buf2 where b: "memput buf1 (buf_pos s1) (take n src @ [src ! n]) = Inr buf2"
        "string_ok (s1\<lparr>wstring := Some buf2, buf_pos := buf_pos s1 + n\<rparr>)"
        "entry_of (s1\<lparr>wstring := Some buf2, buf_pos := buf_pos s1 + n\<rparr>) =
          (user_string s1, take (buf_pos s1) buf1 @ take n src, notrim s1 \<noteq> 0, src ! n)"
      using text_put [of buf1 s1 "take n src" "src ! n"] m True by auto
    obtain w' where w': "put_wrstr (cur w) (s1\<lparr>wstring := Some buf2, buf_pos := buf_pos s1 + n\<rparr>) w = Inr ((), w')" "open_body w'"
        "view_of w' = ((user_string s, take (buf_pos s) buf @ take n src, notrim s \<noteq> 0, src ! n) # tl (stack w), vars w, events w)"
      using put b(2,3) m by auto
    have "stack w = (user_string s, take (buf_pos s) buf, notrim s \<noteq> 0, buf ! buf_pos s) # tl (stack w)"
      using s(2,5) by (simp add: entry_of_def)
    note p = put_text_top [OF this, of e "take n src" "src ! n"]
    show ?thesis
      using True s r b(1) w' src p
      by (simp add: does_def vely_puts_to_string_def act_get_def act_bind_def act_res_def act_return_def)
  next
    case False
    then show ?thesis
      using s r by (simp add: does_def vely_puts_to_string_def act_get_def act_bind_def act_fault_def)
  qed
qed

lemma encode_to_string_does:
  assumes w: "open_body w" "cur w \<noteq> -1" and e: "vely_encode_base enc src = Inr t"
  shows "does (encode_to_string x enc src) w
    (if too_long (length src) then Inl Signed_overflow else Inr (put_text er t NUL (view_of w)))"
proof -
  obtain s buf where s: "wrstr (cur w) w = Inr (s, w)" "wstring s = Some buf" "length buf = wlength s" "buf_pos s < wlength s"
    "stack w = entry_of s # tl (stack w)"
    and put: "\<forall>s'. string_ok s' \<longrightarrow> (\<exists>w'. put_wrstr (cur w) s' w = Inr ((), w') \<and> open_body w'
       \<and> view_of w' = (entry_of s' # tl (stack w), vars w, events w))"
    by (rule top_string [OF w])
  let ?n = "VV_MAX_ENC_BLOWUP (length src)"
  let ?c = "int ?n > int (wlength s) - 1 - int (buf_pos s)"
  obtain buf1 s1 where r: "(if ?c then grow x ?n buf s else (buf, s)) = (buf1, s1)" by (cases "if ?c then grow x ?n buf s else (buf, s)")
  have m: "length buf1 = wlength s1" "buf_pos s1 + ?n < wlength s1" "take (buf_pos s1) buf1 = take (buf_pos s) buf"
    "buf_pos s1 = buf_pos s" "user_string s1 = user_string s" "notrim s1 = notrim s"
    using room [OF s(3,4) _ r] by auto
  obtain buf2 where b: "memput buf1 (buf_pos s1) (t @ [NUL]) = Inr buf2"
      "string_ok (s1\<lparr>wstring := Some buf2, buf_pos := buf_pos s1 + length t\<rparr>)"
      "entry_of (s1\<lparr>wstring := Some buf2, buf_pos := buf_pos s1 + length t\<rparr>) =
        (user_string s1, take (buf_pos s1) buf1 @ t, notrim s1 \<noteq> 0, NUL)"
    using text_put [of buf1 s1 t NUL] m encode_fits [OF e] by auto
  obtain w' where w': "put_wrstr (cur w) (s1\<lparr>wstring := Some buf2, buf_pos := buf_pos s1 + length t\<rparr>) w = Inr ((), w')" "open_body w'"
      "view_of w' = ((user_string s, take (buf_pos s) buf @ t, notrim s \<noteq> 0, NUL) # tl (stack w), vars w, events w)"
    using put b(2,3) m by auto
  have "stack w = (user_string s, take (buf_pos s) buf, notrim s \<noteq> 0, buf ! buf_pos s) # tl (stack w)"
    using s(2,5) by (simp add: entry_of_def)
  note p = put_text_top [OF this, of er t NUL]
  have long: "too_long (length src) \<longleftrightarrow> int ?n > INT_MAX" by (simp add: too_long_def VV_MAX_ENC_BLOWUP_def) presburger
  show ?thesis
    unfolding long using s r b(1) w' p e
    by (simp add: does_def act_fault_def encode_to_string_def act_get_def act_bind_def act_res_def act_return_def)
qed

text \<open>A formatted text is printed into the buffer, and encoded from there.\<close>

lemma encode_cstr: "enc \<noteq> VV_NOENC \<Longrightarrow> vely_encode enc s (-1) = Inr (encoder enc s)"
  by (cases enc) (simp_all add: vely_encode_def vely_encode_base_def encoder_def cstr_def)

lemma printed_again:
  assumes "open_body w'" "view_of w' = ((v, u, n, b') # st, vs, es)" "stack w = (v, u, n, b) # st" "vars w = vs" "events w = es"
  shows "does (vely_puts_to_string x (t @ [NUL]) (length t)) w' (Inr (put_text er t NUL (view_of w)))"
proof -
  have s: "stack w' = (v, u, n, b') # st" "vars w' = vs" "events w' = es" using assms(2) by (simp_all add: view_of_def)
  have "cur w' \<noteq> -1" using stack_empty [of w'] assms(1) s(1) by (auto simp: open_body_def)
  then show ?thesis
    using puts_to_string_does [OF assms(1), of x "t @ [NUL]" "length t" er] put_text_top [OF s(1)] put_text_top [OF assms(3)] s assms(4,5)
    by (simp add: nth_append)
qed

lemma print_to_string_does:
  assumes w: "open_body w" "cur w \<noteq> -1"
  shows "does (print_to_string x enc out) w (Inr (put_text er (encoder enc out) NUL (view_of w)))"
proof -
  obtain s buf where s: "wrstr (cur w) w = Inr (s, w)" "wstring s = Some buf" "length buf = wlength s" "buf_pos s < wlength s"
    "stack w = entry_of s # tl (stack w)"
    and put: "\<forall>s'. string_ok s' \<longrightarrow> (\<exists>w'. put_wrstr (cur w) s' w = Inr ((), w') \<and> open_body w'
       \<and> view_of w' = (entry_of s' # tl (stack w), vars w, events w))"
    by (rule top_string [OF w])
  let ?c = "int (length out) \<ge> int (wlength s) - int (buf_pos s)"
  obtain buf1 s1 where r: "(if ?c then grow x (length out) buf s else (buf, s)) = (buf1, s1)"
    by (cases "if ?c then grow x (length out) buf s else (buf, s)")
  have m: "length buf1 = wlength s1" "buf_pos s1 + length out < wlength s1" "take (buf_pos s1) buf1 = take (buf_pos s) buf"
    "buf_pos s1 = buf_pos s" "user_string s1 = user_string s" "notrim s1 = notrim s"
    using room [OF s(3,4) _ r] by auto
  obtain buf2 where b: "memput buf1 (buf_pos s1) (out @ [NUL]) = Inr buf2" "length buf2 = length buf1"
      "string_ok (s1\<lparr>wstring := Some buf2, buf_pos := buf_pos s1 + length out\<rparr>)"
      "entry_of (s1\<lparr>wstring := Some buf2, buf_pos := buf_pos s1 + length out\<rparr>) =
        (user_string s1, take (buf_pos s1) buf1 @ out, notrim s1 \<noteq> 0, NUL)"
    using text_put [of buf1 s1 out NUL] m by auto
  have top: "stack w = (user_string s, take (buf_pos s) buf, notrim s \<noteq> 0, buf ! buf_pos s) # tl (stack w)"
    using s(2,5) by (simp add: entry_of_def)
  show ?thesis
  proof (cases "enc = VV_NOENC")
    case True
    obtain w' where w': "put_wrstr (cur w) (s1\<lparr>wstring := Some buf2, buf_pos := buf_pos s1 + length out\<rparr>) w = Inr ((), w')" "open_body w'"
        "view_of w' = ((user_string s, take (buf_pos s) buf @ out, notrim s \<noteq> 0, NUL) # tl (stack w), vars w, events w)"
      using put b(3,4) m by auto
    then show ?thesis
      using s r b(1) True put_text_top [OF top, of er out NUL]
      by (simp add: does_def print_to_string_def act_get_def act_bind_def act_res_def act_return_def encoder_def)
  next
    case False
    have l: "buf_pos s1 < length buf1" "take (buf_pos s1) buf2 = take (buf_pos s) buf"
      "drop (buf_pos s1) buf2 = out @ NUL # drop (buf_pos s1 + length out + 1) buf1"
      using b(1) m s(3,4) by (auto simp: memput_def split: if_splits)
    have e: "vely_encode enc (cstr (drop (buf_pos s1) buf2)) (-1) = Inr (encoder enc out)"
    proof -
      have "cstr (cstr (out @ NUL # r)) = cstr out" for r by (induction out) (simp_all add: cstr_def)
      then show ?thesis using False l(3) encode_cstr [of enc "cstr (drop (buf_pos s1) buf2)"] by (cases enc) (simp_all add: encoder_def)
    qed
    obtain w' where w': "put_wrstr (cur w) (s1\<lparr>wstring := Some buf2\<rparr>) w = Inr ((), w')" "open_body w'"
        "view_of w' = ((user_string s, take (buf_pos s) buf, notrim s \<noteq> 0, buf2 ! buf_pos s) # tl (stack w), vars w, events w)"
      using put [rule_format, of "s1\<lparr>wstring := Some buf2\<rparr>"] l b(2) m by (auto simp: string_ok_def entry_of_def)
    show ?thesis
      using printed_again [OF w'(2,3) top refl refl, of x "encoder enc out" er] s r b(1) e w'(1) False
      by (simp add: does_def print_to_string_def act_get_def act_bind_def act_res_def act_return_def)
  qed
qed

lemma write_web_does:
  "open_body w \<Longrightarrow> cur w = -1 \<Longrightarrow> does (vely_write_web dev iserr t) w (Inr (put_text iserr t b (view_of w)))"
  using stack_empty [of w]
  by (simp add: does_def vely_write_web_def vely_gen_write_def open_body_def view_of_def put_text_def)
    (simp add: emit_def strings_ok_def stack_def level_def cur_def)

text \<open>The calls of a program.\<close>

lemma cat_at: "n < length s \<Longrightarrow> cat s n = s ! n"
  by (simp add: cat_def)

lemma read_pos:
  assumes "open_body w"
  obtains k where "read_wrstr_pos w = Inr (k, w)"
proof (cases "cur w = -1")
  case True
  then show ?thesis using that by (simp add: read_wrstr_pos_def act_get_def act_return_def)
next
  case False
  from top_string [OF assms False] obtain s where "wrstr (cur w) w = Inr (s, w)" by metis
  then show ?thesis using False that by (simp add: read_wrstr_pos_def act_get_def act_bind_def act_return_def)
qed

lemma puts_does:
  assumes "open_body w"
  shows "does (vely_puts dev x enc src len) w (spec_call x (view_of w) (Puts enc src len))"
proof -
  have st: "stack w = [] \<longleftrightarrow> cur w = -1" using assms stack_empty by (simp add: open_body_def)
  obtain n where n: "n = (if len \<noteq> 0 then len else length (cstr src))" by blast
  obtain k where k: "read_wrstr_pos w = Inr (k, w)" using read_pos [OF assms] .
  have p: "vely_puts dev x enc src len w =
      (if n > length src then Inl (Out_of_bounds, w)
       else if enc = VV_NOENC then (if cur w = -1 then vely_write_web dev False (take n src) w
         else act_bind (vely_puts_to_string x src n) (\<lambda>n. act_return (int n)) w)
       else if cur w = -1 then act_bind (act_res (vely_encode_base enc (take n src))) (vely_write_web dev False) w
       else act_bind (encode_to_string x enc (take n src)) (\<lambda>n. act_return (int n)) w)"
    using open_valid [OF assms] k by (simp add: vely_puts_def act_get_def act_bind_def act_fault_def Let_def n)
  have s: "spec_call x (view_of w) (Puts enc src len) =
      (if n > length src then Inl Out_of_bounds
       else if enc = VV_NOENC then (if stack w \<noteq> [] \<and> n = length src then Inl Out_of_bounds
         else Inr (put_text False (take n src) (cat src n) (view_of w)))
       else if stack w \<noteq> [] \<and> too_long n then Inl Signed_overflow
       else Inr (put_text False (encode_loop (if enc = VV_WEB then web_char else url_char) (take n src)) NUL (view_of w)))"
    by (cases enc) (simp_all add: view_of_def n Let_def)
  have e: "vely_encode_base enc (take n src) = Inr (encode_loop (if enc = VV_WEB then web_char else url_char) (take n src))"
    if "enc \<noteq> VV_NOENC"
    using that by (cases enc) (simp_all add: vely_encode_base_def)
  consider "n > length src" | "n \<le> length src" "cur w = -1" | "n \<le> length src" "cur w \<noteq> -1" by linarith
  then show ?thesis
  proof cases
    case 1
    then show ?thesis by (simp add: does_def p s)
  next
    case 2
    then show ?thesis
      using e st write_web_does [OF assms 2(2), of dev False]
      by (simp add: does_def p s act_bind_def act_res_def)
  next
    case 3
    have k: "n < length src \<or> n = length src" using 3(1) by linarith
    show ?thesis
    proof (cases "enc = VV_NOENC")
      case True
      then show ?thesis
        unfolding does_def p s
        using 3 k st does_bind_return [where f = int, OF puts_to_string_does [OF assms 3(2), of x src n False]]
        by (cases "n < length src") (simp_all add: does_def cat_at split: sum.splits prod.splits)
    next
      case False
      have l: "length (take n src) = n" using 3(1) by simp
      note d = does_bind_return [where f = int, OF encode_to_string_does [OF assms 3(2) e [OF False], of x False, unfolded l]]
      have "stack w \<noteq> []" using 3(2) st by simp
      then have r: "spec_call x (view_of w) (Puts enc src len) = (if too_long n then Inl Signed_overflow
          else Inr (put_text False (encode_loop (if enc = VV_WEB then web_char else url_char) (take n src)) NUL (view_of w)))"
        using s 3 False by simp
      have "vely_puts dev x enc src len w = act_bind (encode_to_string x enc (take n src)) (\<lambda>n. act_return (int n)) w"
        using p 3 False by simp
      then show ?thesis using d unfolding does_def r by simp
    qed
  qed
qed

lemma printf_does:
  assumes "open_body w"
  shows "does (vely_printf dev x iserr enc out) w
    (if int (length out) > INT_MAX then Inl Signed_overflow else Inr (put_text iserr (encoder enc out) NUL (view_of w)))"
proof (cases "int (length out) > INT_MAX")
  case True
  then show ?thesis using open_valid [OF assms] by (simp add: vely_printf_def act_get_def act_fault_def does_def)
next
  case short: False
  show ?thesis
  proof (cases "cur w = -1")
    case True
    then show ?thesis
      using short open_valid [OF assms] write_web_does [OF assms True, of dev iserr "encoder enc out" NUL] encode_cstr [of enc out]
      by (cases enc) (simp_all add: vely_printf_def act_get_def act_bind_def act_res_def act_fault_def does_def encoder_def)
  next
    case False
    then show ?thesis
      using short open_valid [OF assms] does_bind_return [where f = int, OF print_to_string_does [OF assms False, of x enc out iserr]]
      by (simp add: vely_printf_def act_get_def act_fault_def does_def)
  qed
qed

lemma notrim_does:
  assumes "open_body w"
  shows "does vely_write_to_string_notrim w (spec_call x (view_of w) No_trim)"
proof (cases "cur w = -1")
  case True
  then show ?thesis
    using stack_empty [of w] assms
    by (simp add: vely_write_to_string_notrim_def act_get_def act_bind_def wrstr_def does_def view_of_def open_body_def)
next
  case False
  obtain s buf where s: "wrstr (cur w) w = Inr (s, w)" "wstring s = Some buf" "length buf = wlength s" "buf_pos s < wlength s"
    "stack w = entry_of s # tl (stack w)"
    and put: "\<forall>s'. string_ok s' \<longrightarrow> (\<exists>w'. put_wrstr (cur w) s' w = Inr ((), w') \<and> open_body w'
       \<and> view_of w' = (entry_of s' # tl (stack w), vars w, events w))"
    by (rule top_string [OF assms False])
  obtain w' where "put_wrstr (cur w) (s\<lparr>notrim := 1\<rparr>) w = Inr ((), w')" "open_body w'"
    "view_of w' = ((user_string s, take (buf_pos s) buf, True, buf ! buf_pos s) # tl (stack w), vars w, events w)"
    using put [rule_format, of "s\<lparr>notrim := 1\<rparr>"] s by (auto simp: string_ok_def entry_of_def)
  moreover have "stack w = (user_string s, take (buf_pos s) buf, notrim s \<noteq> 0, buf ! buf_pos s) # tl (stack w)"
    using s(2,5) by (simp add: entry_of_def)
  then have "spec_call x (view_of w) No_trim =
      Inr ((user_string s, take (buf_pos s) buf, True, buf ! buf_pos s) # tl (stack w), vars w, events w)"
    by (cases "stack w") (simp_all add: view_of_def)
  ultimately show ?thesis
    using s(1) open_top [OF assms False]
    by (simp add: vely_write_to_string_notrim_def act_get_def act_bind_def does_def)
qed

lemma begin_does:
  assumes "open_body w"
  shows "does (vely_write_to_string x (Some v)) w (spec_call x (view_of w) (Begin_string v))"
proof -
  let ?arr = "write_string_arr (req w)" and ?k = "nat (cur w + 1)"
  let ?s = "\<lambda>s. s\<lparr>user_string := v, wlen := VV_WRSTR_ADD_MIN, wlength := VV_WRSTR_ADD_MIN,
                 wstring := Some (replicate VV_WRSTR_ADD_MIN x), buf_pos := 0\<rparr>"
  have ok: "length ?arr = VV_MAX_NESTED_WRITE_STRING" "-1 \<le> cur w" "cur w < int VV_MAX_NESTED_WRITE_STRING"
    "list_all string_ok (take ?k ?arr)" "list_all (\<lambda>s. notrim s = 0) (drop ?k ?arr)"
    using assms by (simp_all add: open_body_def strings_ok_def level_def Let_def)
  have st: "length (stack w) = ?k" using stack_length [of w] assms by (simp add: open_body_def)
  show ?thesis
  proof (cases "?k < VV_MAX_NESTED_WRITE_STRING")
    case False
    then have "cur w + 1 \<ge> int VV_MAX_NESTED_WRITE_STRING" using ok by linarith
    then show ?thesis
      using False st
      by (simp add: vely_write_to_string_def start_string_def act_bind_def act_do_def act_get_def act_fault_def cur_def does_def view_of_def)
  next
    case True
    let ?t = "?s (?arr ! ?k)"
    let ?w = "set_req (\<lambda>r. r\<lparr>write_string_arr := (write_string_arr r)[?k := ?t]\<rparr>)
      ((set_req (\<lambda>r. r\<lparr>curr_write_to_string := curr_write_to_string r + 1\<rparr>) w)\<lparr>vars := (vars w)(v := [NUL])\<rparr>)"
    have room: "\<not> int VV_MAX_NESTED_WRITE_STRING \<le> curr_write_to_string (req w) + 1" using True ok(2) by (simp add: cur_def)
    have r: "vely_write_to_string x (Some v) w = Inr ((), ?w)"
      using True ok room
      by (simp add: vely_write_to_string_def start_string_def act_bind_def act_do_def act_get_def cur_def wrstr_def put_wrstr_def
          set_req_def VV_WRSTR_ADD_MIN_def)
    obtain w' where w': "w' = ?w" by blast
    have l: "level w' = Suc ?k" "cur w' = cur w + 1" "write_string_arr (req w') = ?arr[?k := ?t]"
      using ok by (simp_all add: w' level_def cur_def set_req_def nat_add_distrib)
    have "drop ?k ?arr = ?arr ! ?k # drop (Suc ?k) ?arr" using True ok(1) by (simp add: Cons_nth_drop_Suc)
    then have n: "notrim (?arr ! ?k) = 0" and d: "list_all (\<lambda>s. notrim s = 0) (drop (Suc ?k) ?arr)" using ok(5) by simp_all
    have t: "take (Suc ?k) (?arr[?k := ?t]) = take ?k ?arr @ [?t]" using True ok by (simp add: take_Suc_conv_app_nth)
    have s: "string_ok ?t" "entry_of ?t = (v, [], False, x)"
      using n by (simp_all add: string_ok_def entry_of_def VV_WRSTR_ADD_MIN_def)
    have "strings_ok w'" using ok True d s(1) by (simp add: strings_ok_def l t Let_def)
    then have "open_body w'" using assms by (simp add: open_body_def w' set_req_def)
    moreover have "stack w' = (v, [], False, x) # stack w"
      by (simp only: stack_def l(1,3) t) (simp add: s level_def)
    then have "view_of w' = ((v, [], False, x) # stack w, (vars w)(v := [NUL]), events w)"
      by (simp add: view_of_def) (simp add: w' set_req_def)
    ultimately show ?thesis using True st r [folded w'] by (simp add: does_def view_of_def)
  qed
qed

lemma take_rstrip: "take (length (rstrip t) + 1) (take (length (rstrip t)) t @ b # r) = rstrip t @ [b]"
  using rstrip_prefix [of t] by simp

lemma end_does:
  assumes "open_body w"
  shows "does (vely_write_to_string x None) w (spec_call x (view_of w) End_string)"
proof (cases "cur w = -1")
  case True
  then show ?thesis
    using stack_empty [of w] assms
    by (simp add: vely_write_to_string_def stop_string_def act_get_def act_fault_def does_def view_of_def open_body_def)
next
  case False
  let ?arr = "write_string_arr (req w)" and ?k = "nat (cur w)"
  let ?s = "?arr ! ?k"
  have ok: "length ?arr = VV_MAX_NESTED_WRITE_STRING" "0 \<le> cur w" "?k < length ?arr" "level w = Suc ?k"
    "list_all string_ok (take (Suc ?k) ?arr)" "list_all (\<lambda>s. notrim s = 0) (drop (Suc ?k) ?arr)"
    using assms False open_top [OF assms False] by (auto simp: open_body_def strings_ok_def level_def Let_def nat_add_distrib)
  have t: "take (Suc ?k) ?arr = take ?k ?arr @ [?s]" using ok by (simp add: take_Suc_conv_app_nth)
  obtain buf where s: "wstring ?s = Some buf" "length buf = wlength ?s" "buf_pos ?s < wlength ?s"
    using ok(5) by (auto simp: t string_ok_def split: option.splits)
  have st: "stack w = (user_string ?s, take (buf_pos ?s) buf, notrim ?s \<noteq> 0, buf ! buf_pos ?s) # rev (List.map entry_of (take ?k ?arr))"
    by (simp add: stack_def ok(4) t entry_of_def s(1))
  have wr: "wrstr (cur w) w = Inr (?s, w)" using ok by (simp add: wrstr_def)
  define pop where "pop = (\<lambda>p b. set_req (\<lambda>r. r\<lparr>curr_write_to_string := curr_write_to_string r - 1\<rparr>)
        ((set_req (\<lambda>r. r\<lparr>write_string_arr := (write_string_arr r)[?k := ?s\<lparr>wstring := None, buf_pos := p, notrim := 0\<rparr>]\<rparr>) w)
          \<lparr>vars := (vars w)(user_string ?s := b)\<rparr>))"
  have popped: "open_body (pop p b)"
    "view_of (pop p b) = (rev (List.map entry_of (take ?k ?arr)), (vars w)(user_string ?s := b), events w)" for p b
  proof -
    obtain v where v: "v = pop p b" by blast
    let ?t = "?s\<lparr>wstring := None, buf_pos := p, notrim := 0\<rparr>"
    have l: "write_string_arr (req v) = ?arr[?k := ?t]" "cur v = cur w - 1" "level v = ?k"
      using ok(2) by (simp_all add: v pop_def set_req_def cur_def level_def)
    have "drop ?k (?arr[?k := ?t]) = ?t # drop (Suc ?k) ?arr"
      using ok(3) by (simp add: drop_update_swap Cons_nth_drop_Suc [symmetric])
    then have "list_all (\<lambda>s. notrim s = 0) (drop ?k (?arr[?k := ?t]))" using ok(6) by simp
    moreover have "list_all string_ok (take ?k ?arr)" using ok(5) by (simp add: t)
    ultimately have "strings_ok v" using ok open_top [OF assms False] by (simp add: strings_ok_def l Let_def)
    then show "open_body (pop p b)" using assms by (simp add: open_body_def v pop_def set_req_def)
    have "stack v = rev (List.map entry_of (take ?k ?arr))" by (simp add: stack_def l)
    then show "view_of (pop p b) = (rev (List.map entry_of (take ?k ?arr)), (vars w)(user_string ?s := b), events w)"
      by (simp add: view_of_def v) (simp add: pop_def set_req_def)
  qed
  have put: "put_wrstr (cur w) e w = Inr ((), set_req (\<lambda>r. r\<lparr>write_string_arr := (write_string_arr r)[?k := e]\<rparr>) w)" for e
    using ok by (simp add: put_wrstr_def)
  have n: "\<not> cur w < 0" using ok(2) by simp
  show ?thesis
  proof (cases "notrim ?s = 0")
    case False
    have "take (buf_pos ?s + 1) buf = take (buf_pos ?s) buf @ [buf ! buf_pos ?s]"
      using s(2,3) by (simp add: take_Suc_conv_app_nth)
    then have "vely_write_to_string x None w = Inr ((), pop (buf_pos ?s) (take (buf_pos ?s) buf @ [buf ! buf_pos ?s]))"
      using False s(1) wr n
      by (simp add: vely_write_to_string_def stop_string_def act_get_def act_bind_def act_res_def act_do_def put pop_def set_req_def)
    then show ?thesis using False by (simp add: does_def popped) (simp add: view_of_def st)
  next
    case True
    let ?u = "rstrip (take (buf_pos ?s) buf)"
    have tb: "trim_back x buf (buf_pos ?s) = (if ?u = [] \<and> isspace x then Inl Out_of_bounds else Inr (length ?u))"
      using s by (intro trim_back_rstrip) simp
    have u: "length ?u < length buf" using rstrip_prefix [of "take (buf_pos ?s) buf"] s by simp
    obtain buf1 where m: "memput buf (length ?u) [NUL] = Inr buf1" "take (length ?u + 1) buf1 = ?u @ [NUL]"
    proof (rule that)
      show "memput buf (length ?u) [NUL] = Inr (take (length ?u) buf @ NUL # drop (length ?u + 1) buf)"
        using u by (simp add: memput_def)
      have "take (length ?u) (take (buf_pos ?s) buf) = ?u" "length ?u \<le> buf_pos ?s"
        using rstrip_prefix [of "take (buf_pos ?s) buf"] by auto
      then have "take (length ?u) buf = ?u" by (simp add: min_absorb1)
      then show "take (length ?u + 1) (take (length ?u) buf @ NUL # drop (length ?u + 1) buf) = ?u @ [NUL]"
        using u by simp
    qed
    show ?thesis
    proof (cases "?u = [] \<and> isspace x")
      case blank: True
      then show ?thesis
        using True s(1) wr n tb
        by (simp add: vely_write_to_string_def stop_string_def act_get_def act_bind_def act_res_def res_bind_def does_def)
          (simp add: view_of_def st)
    next
      case False
      then have "vely_write_to_string x None w = Inr ((), pop (length ?u) (?u @ [NUL]))"
        using True s(1) wr n tb m
        by (simp add: vely_write_to_string_def stop_string_def act_get_def act_bind_def act_res_def act_do_def put res_bind_def
            pop_def set_req_def)
      then show ?thesis using True False by (simp add: does_def popped) (auto simp: view_of_def st)
    qed
  qed
qed


section \<open>Programs that print\<close>

fun output_call :: "call \<Rightarrow> bool" where
  "output_call (Puts enc src len) = True"
| "output_call (Printf iserr enc out) = True"
| "output_call (Begin_string v) = True"
| "output_call No_trim = True"
| "output_call End_string = True"
| "output_call _ = False"

lemma call_does: "open_body w \<Longrightarrow> output_call c \<Longrightarrow> does (do_call dev x command fs c) w (spec_call x (view_of w) c)"
proof (induction c)
  case (Puts enc src len)
  then show ?case using does_bind_return [OF puts_does] by simp
next
  case (Printf iserr enc out)
  have "spec_call x (view_of w) (Printf iserr enc out) =
      (if int (length out) > INT_MAX then Inl Signed_overflow else Inr (put_text iserr (encoder enc out) NUL (view_of w)))"
    by (simp add: view_of_def)
  then show ?case using does_bind_return [where f = "\<lambda>_. ()", OF printf_does [OF Printf(1)]] by (simp only: do_call.simps)
qed (simp_all add: begin_does notrim_does end_does)

lemma calls_do:
  "open_body w \<Longrightarrow> list_all output_call cs \<Longrightarrow> does (do_calls dev x command fs cs) w (spec_calls x (view_of w) cs)"
proof (induction cs arbitrary: w)
  case (Cons c cs)
  have d: "does (do_call dev x command fs c) w (spec_call x (view_of w) c)" using call_does Cons.prems by simp
  show ?case
  proof (cases "do_call dev x command fs c w")
    case (Inl y)
    then show ?thesis using d by (cases y) (simp add: does_def act_bind_def res_bind_def)
  next
    case (Inr y)
    obtain u w1 where y: "y = (u, w1)" by (cases y)
    then have "does (do_calls dev x command fs cs) w1 (spec_calls x (view_of w1) cs)" "spec_call x (view_of w) c = Inr (view_of w1)"
      using d Inr Cons by (simp_all add: does_def)
    then show ?thesis using Inr y by (simp add: does_def act_bind_def res_bind_def)
  qed
qed (simp add: does_def act_return_def)

text \<open>What a program leaves to be seen: the strings in progress, its variables, what was sent.\<close>

definition seen :: "(fault \<times> web) + (unit \<times> web) \<Rightarrow> view res" where
  "seen r = (case r of Inl (e, w) \<Rightarrow> Inl e | Inr (_, w) \<Rightarrow> Inr (view_of w))"

text \<open>C10: once the headers are out, a program that prints and builds strings, nested as it likes, behaves as the stack
  of texts: the same strings, variables and output to the client, and the same errors.  Among the errors are a printed text
  of more than 2147483647 bytes, and a text of more than 357913941 bytes that is encoded into a string.\<close>

theorem output_history:
  assumes "open_body w" "list_all output_call cs"
  shows "seen (do_calls dev x command fs cs w) = spec_calls x (view_of w) cs"
  using calls_do [OF assms, of dev x command fs] by (auto simp: does_def seen_def split: sum.splits)

text \<open>A request that has sent its headers.\<close>

definition sent :: web where
  "sent = idle\<lparr>req := vely_init_input_req\<lparr>sent_header := 1, data_was_output := 1\<rparr>, stream := True\<rparr>"

lemma sent_open: "open_body sent" "view_of sent = ([], \<lambda>_. [], [])"
  by (simp_all add: open_body_def strings_ok_def view_of_def stack_def level_def cur_def sent_def idle_def vely_init_input_req_def
      new_write_string_def list_all_length)

theorem output_history_witness:
  "seen (do_calls (\<lambda>_ _. True) NUL False \<lparr>stat_time = \<lambda>_. None, contents = \<lambda>_. None\<rparr>
      [Begin_string 1, Printf False VV_WEB ''<'', Begin_string 2, Puts VV_NOENC ''b '' 1, No_trim, End_string, End_string,
       Printf False VV_NOENC ''c''] sent)
    = Inr ([], (\<lambda>_. [])(1 := ''&lt;'' @ [NUL], 2 := ''b ''), [Bytes False ''c''])"
proof -
  have "spec_calls NUL (view_of sent)
      [Begin_string 1, Printf False VV_WEB ''<'', Begin_string 2, Puts VV_NOENC ''b '' 1, No_trim, End_string, End_string,
       Printf False VV_NOENC ''c''] = Inr ([], (\<lambda>_. [])(1 := ''&lt;'' @ [NUL], 2 := ''b ''), [Bytes False ''c''])"
    unfolding sent_open by (simp add: res_bind_def put_text_def VV_MAX_NESTED_WRITE_STRING_def encoder_def cstr_def rstrip_def web_char_def
        isspace_def cat_def fun_upd_twist INT_MAX_def too_long_def)
  then show ?thesis by (subst output_history) (simp_all add: sent_open(1))
qed

text \<open>Two strings that go wrong: one that is never written and not trimmed is not terminated, and the end of one without
  text depends on a byte before its buffer.\<close>

lemma empty_untrimmed:
  assumes "open_body w" "stack w = []"
  shows "seen (do_calls dev x command fs [Begin_string v, No_trim, End_string] w) = Inr ([], (vars w)(v := [x]), events w)"
    and "seen (do_calls dev x command fs [Begin_string v, End_string] w) =
      (if isspace x then Inl Out_of_bounds else Inr ([], (vars w)(v := [NUL]), events w))"
  using calls_do [OF assms(1), of "[Begin_string v, No_trim, End_string]" dev x command fs]
    calls_do [OF assms(1), of "[Begin_string v, End_string]" dev x command fs] assms(2)
  by (simp_all add: does_def seen_def view_of_def res_bind_def VV_MAX_NESTED_WRITE_STRING_def split: sum.splits prod.splits if_splits)

text \<open>The length of a string is read from the entry above, which the last level does not have.\<close>

lemma length_last_level:
  assumes "strings_ok w" "cur w = int VV_MAX_NESTED_WRITE_STRING - 1"
  shows "vely_write_to_string_length w = Inl (Out_of_bounds, w)"
  using assms
  by (simp add: vely_write_to_string_length_def act_get_def act_bind_def wrstr_def strings_ok_def VV_MAX_NESTED_WRITE_STRING_def Let_def)

end
