(* ===== verification/Params.thy ===== *)
theory Params
  imports Req Codec Strings
begin

text \<open>
  Input parameters (velyrt.c, \<^verbatim>\<open>vely_get_input\<close> from the query string on, \<^verbatim>\<open>vely_get_input_param\<close>,
  \<^verbatim>\<open>vely_set_input\<close>): the text of a query is decoded where it is into names and values that end with a zero
  byte, these are collected, and looked for by name.
\<close>

section \<open>Decoding in place\<close>

definition VV_CHAR_FROM_HEX :: "char \<Rightarrow> int" where
  "VV_CHAR_FROM_HEX c =
     (if schar c > 57 then (if schar c \<ge> 97 then schar c - 97 + 10 else schar c - 65 + 10) else schar c - 48)"

text \<open>The memory of the text: the body of the request if it is a query, and the query string; \<open>x\<close> is the byte in
  memory that was just allocated.\<close>

definition input_content :: "char \<Rightarrow> string \<Rightarrow> string \<Rightarrow> string" where
  "input_content x body qry =
     (if qry = [] then (if body = [] then [NUL, x] else body @ [NUL, NUL])
      else if body = [] then qry @ [NUL, x, x]
      else body @ ''&'' @ qry @ [NUL, x])"

text \<open>The loop reads at \<open>i\<close> and writes at \<open>j\<close>.\<close>

function split_loop :: "string \<Rightarrow> nat \<Rightarrow> nat \<Rightarrow> bool \<Rightarrow> bool \<Rightarrow> nat \<Rightarrow> (string \<times> nat \<times> nat) res" where
  "split_loop buf i j had_equal isname n =
     (if i \<ge> length buf then Inl Out_of_bounds
      else if buf ! i = NUL then Inr (buf, j, n)
      else
        (let c = (if buf ! i = CHR ''+'' then CHR '' '' else buf ! i); b = buf[i := c] in
         if isname \<and> c = CHR ''-'' then split_loop (b[j := CHR ''_'']) (i + 1) (j + 1) had_equal isname n
         else if c = CHR ''%'' then
           (if i + 2 < length b
            then split_loop (b[j := char_store (VV_CHAR_FROM_HEX (b ! (i + 1)) * 16 + VV_CHAR_FROM_HEX (b ! (i + 2)))])
                   (i + 3) (j + 1) had_equal isname n
            else Inl Out_of_bounds)
         else if c = CHR ''&'' then
           (if \<not> had_equal then Inl (Report_error ''Malformed URL request, encountered ampersand without prior name=value'')
            else split_loop (b[j := NUL]) (i + 1) (j + 1) False True n)
         else if c = CHR ''='' then split_loop (b[j := NUL]) (i + 1) (j + 1) True False (n + 1)
         else split_loop (b[j := c]) (i + 1) (j + 1) had_equal isname n))"
  by pat_completeness auto
termination
  by (relation "measure (\<lambda>(buf, i, j, h, isn, n). length buf - i)") (auto simp: Let_def)

declare split_loop.simps [simp del]

section \<open>Names and values\<close>

text \<open>The string at an offset of a memory.\<close>

definition string_at :: "string \<Rightarrow> nat \<Rightarrow> string res" where
  "string_at buf j = (if NUL \<in> set (drop j buf) then Inr (cstr (drop j buf)) else Inl Out_of_bounds)"

fun param_loop :: "nat \<Rightarrow> string \<Rightarrow> nat \<Rightarrow> vely_ipar list res" where
  "param_loop 0 buf j = Inr []"
| "param_loop (Suc k) buf j =
     res_bind (string_at buf j) (\<lambda>name.
       if \<not> vely_is_valid_param_name name False then Inl (Report_error ''Invalid input parameter name [%s]'')
       else
         (let j1 = j + length name + 1 in
          res_bind (string_at buf j1) (\<lambda>v.
            res_bind (vely_trim_ptr (drop j1 buf) (length v)) (\<lambda>(t, off, n).
              res_bind (param_loop k (take j1 buf @ t) (j1 + length v + 1)) (\<lambda>ps.
                Inr (\<lparr>found = 0, pname = name, pvalue = cstr (drop off t)\<rparr> # ps))))))"

text \<open>The whole: two zero bytes are put after the text that was decoded.\<close>

definition url_params :: "string \<Rightarrow> vely_ipar list res" where
  "url_params content =
     res_bind (split_loop content 0 0 False True 0) (\<lambda>(buf, j, n).
       res_bind (memput buf j [NUL, NUL]) (\<lambda>buf1. param_loop n buf1 0))"

text \<open>The name of the request is the last value of \<open>req\<close>, for old programs.\<close>

definition req_param :: "string \<Rightarrow> vely_ipar list \<Rightarrow> string" where
  "req_param name ps = fold (\<lambda>p r. if pname p = ''req'' then pvalue p else r) ps name"

definition read_params :: "char \<Rightarrow> string \<Rightarrow> string \<Rightarrow> vely_input_req \<Rightarrow> vely_input_req res" where
  "read_params x body qry req =
     res_bind (url_params (input_content x body qry)) (\<lambda>ps.
       Inr (req\<lparr>ipars := ps, rname := req_param (rname req) ps\<rparr>))"

section \<open>Looking for a parameter\<close>

text \<open>The first parameter with this name that was, or was not, asked for.\<close>

fun param_index :: "int \<Rightarrow> string \<Rightarrow> nat \<Rightarrow> vely_ipar list \<Rightarrow> nat option" where
  "param_index want name i [] = None"
| "param_index want name i (p # ps) =
     (if found p = want \<and> pname p = name then Some i else param_index want name (i + 1) ps)"

text \<open>The value, the index in \<open>found_input_param\<close>, and the request.\<close>

definition vely_get_input_param :: "vely_input_req \<Rightarrow> string \<Rightarrow> bool \<Rightarrow> string \<times> int \<times> vely_input_req" where
  "vely_get_input_param req name is_task =
     (case (case param_index 0 name 0 (ipars req) of None \<Rightarrow> param_index 1 name 0 (ipars req) | Some i \<Rightarrow> Some i) of
        Some i \<Rightarrow> (pvalue (ipars req ! i), int i,
          req\<lparr>task := (if is_task then int i else task req), ipars := (ipars req)[i := (ipars req ! i)\<lparr>found := 1\<rparr>]\<rparr>)
      | None \<Rightarrow> ([], -1, req\<lparr>task := (if is_task then -1 else task req)\<rparr>))"

definition vely_set_input :: "vely_input_req \<Rightarrow> string \<Rightarrow> string \<Rightarrow> int \<times> vely_input_req" where
  "vely_set_input req name val =
     (case vely_get_input_param req name False of
        (_, i, r) \<Rightarrow>
          if i \<noteq> -1 then (i, r\<lparr>ipars := (ipars r)[nat i := (ipars r ! nat i)\<lparr>pvalue := val, found := 0\<rparr>]\<rparr>)
          else (int (length (ipars r)), r\<lparr>ipars := ipars r @ [\<lparr>found = 0, pname = name, pvalue = val\<rparr>]\<rparr>))"


section \<open>Decoding what a client encodes\<close>

text \<open>Before the write position is what was decoded, from the read position on is what is left.\<close>

definition split_at :: "string \<Rightarrow> nat \<Rightarrow> nat \<Rightarrow> string \<Rightarrow> string \<Rightarrow> bool" where
  "split_at buf i j out rest \<longleftrightarrow> j \<le> i \<and> i \<le> length buf \<and> take j buf = out \<and> drop i buf = rest"

lemma split_at_step:
  assumes "split_at buf i j out (c # rest)"
  shows "i < length buf" "buf ! i = c" "split_at (buf[i := c', j := d]) (i + 1) (j + 1) (out @ [d]) rest"
    "length (buf[i := c', j := d]) = length buf"
proof -
  show i: "i < length buf" using assms by (cases "i < length buf") (simp_all add: split_at_def)
  then have d: "c = buf ! i" "rest = drop (Suc i) buf" using assms Cons_nth_drop_Suc [OF i] by (simp_all add: split_at_def)
  then show "buf ! i = c" by simp
  have j: "j \<le> i" using assms by (simp add: split_at_def)
  then show "split_at (buf[i := c', j := d]) (i + 1) (j + 1) (out @ [d]) rest"
    using assms i d by (simp add: split_at_def take_Suc_conv_app_nth)
  show "length (buf[i := c', j := d]) = length buf" by simp
qed

lemma split_at_three:
  assumes "split_at buf i j out (c # a # b # rest)"
  shows "i + 2 < length buf" "buf ! (i + 1) = a" "buf ! (i + 2) = b"
    "split_at (buf[i := c', j := d]) (i + 3) (j + 1) (out @ [d]) rest"
proof -
  have d: "drop i buf = c # a # b # rest" and j: "j \<le> i" "take j buf = out" using assms by (simp_all add: split_at_def)
  have "length (drop i buf) \<ge> 3" by (simp add: d)
  then show l: "i + 2 < length buf" by simp
  have n: "drop i buf ! 1 = a" "drop i buf ! 2 = b" "drop 3 (drop i buf) = rest" by (simp_all add: d)
  show "buf ! (i + 1) = a" "buf ! (i + 2) = b" using n(1,2) l by simp_all
  show "split_at (buf[i := c', j := d]) (i + 3) (j + 1) (out @ [d]) rest"
    using n(3) j l by (simp add: split_at_def take_Suc_conv_app_nth add.commute)
qed

text \<open>Characters of a name, and of a value, that stand for themselves.\<close>

definition plain_char :: "char \<Rightarrow> bool" where
  "plain_char c \<longleftrightarrow> c \<notin> {NUL, CHR ''+'', CHR ''%'', CHR ''&'', CHR ''='', CHR ''-''}"

text \<open>One decoded character: the rest of the loop starts after it.\<close>

definition resumes :: "string \<Rightarrow> nat \<Rightarrow> nat \<Rightarrow> bool \<Rightarrow> bool \<Rightarrow> nat \<Rightarrow> string \<Rightarrow> string \<Rightarrow> bool \<Rightarrow> bool \<Rightarrow> nat \<Rightarrow> bool" where
  "resumes buf i j had isname n out rest had' isname' n' \<longleftrightarrow>
     (\<exists>buf' i' j'. split_loop buf i j had isname n = split_loop buf' i' j' had' isname' n' \<and> split_at buf' i' j' out rest
        \<and> length buf' = length buf)"

lemma resumesI:
  "split_loop buf i j had isname n = split_loop buf' i' j' had' isname' n' \<Longrightarrow> split_at buf' i' j' out rest \<Longrightarrow>
     length buf' = length buf \<Longrightarrow> resumes buf i j had isname n out rest had' isname' n'"
  by (auto simp: resumes_def)

lemma resumes_trans:
  assumes "resumes buf i j had isname n out rest had1 isname1 n1"
    and "\<And>buf' i' j'. split_at buf' i' j' out rest \<Longrightarrow> resumes buf' i' j' had1 isname1 n1 out2 rest2 had2 isname2 n2"
  shows "resumes buf i j had isname n out2 rest2 had2 isname2 n2"
  using assms unfolding resumes_def by metis

lemma plain_char_step:
  assumes "split_at buf i j out (c # rest)" "plain_char c \<or> c = CHR ''-'' \<and> \<not> isname"
  shows "resumes buf i j had isname n (out @ [c]) rest had isname n"
proof -
  note s = split_at_step(1,2) [OF assms(1)] split_at_step(3) [OF assms(1), of c c]
  have u: "buf[i := c] = buf" using s(1,2) by (metis list_update_id)
  show ?thesis
    by (rule resumesI [OF _ s(3)])
      (subst split_loop.simps, use s(1,2) assms(2) u in \<open>auto simp: Let_def plain_char_def\<close>)
qed

lemma dash_step:
  assumes "split_at buf i j out (CHR ''-'' # rest)"
  shows "resumes buf i j had True n (out @ [CHR ''_'']) rest had True n"
proof -
  note s = split_at_step(1,2) [OF assms(1)] split_at_step(3) [OF assms(1), of "CHR ''-''" "CHR ''_''"]
  show ?thesis
    by (rule resumesI [OF _ s(3)]) (subst split_loop.simps, use s(1,2) in \<open>auto simp: Let_def\<close>)
qed

lemma equal_step:
  assumes "split_at buf i j out (CHR ''='' # rest)"
  shows "resumes buf i j had isname n (out @ [NUL]) rest True False (n + 1)"
proof -
  note s = split_at_step(1,2) [OF assms(1)] split_at_step(3) [OF assms(1), of "CHR ''=''" NUL]
  show ?thesis
    by (rule resumesI [OF _ s(3)]) (subst split_loop.simps, use s(1,2) in \<open>auto simp: Let_def\<close>)
qed


lemma percent_step:
  assumes "split_at buf i j out (CHR ''%'' # a # b # rest)"
  shows "resumes buf i j had isname n (out @ [char_store (VV_CHAR_FROM_HEX a * 16 + VV_CHAR_FROM_HEX b)]) rest had isname n"
proof -
  let ?d = "char_store (VV_CHAR_FROM_HEX a * 16 + VV_CHAR_FROM_HEX b)"
  note s = split_at_step(1,2) [OF assms(1)] split_at_step(3) [OF assms(1), of "CHR ''%''" ?d] and t = split_at_three(1-3) [OF assms(1)] split_at_three(4) [OF assms(1), of "CHR ''%''" ?d]
  show ?thesis
    by (rule resumesI [OF _ t(4)]) (subst split_loop.simps, use s(1,2) t(1-3) in \<open>auto simp: Let_def\<close>)
qed


text \<open>A text \<open>t\<close> in which a client has written the value \<open>v\<close>: a character stands for itself, if it is none of those that separate
  or escape, a plus sign for a space, and a percent sign with two hexadecimal digits, in either case, for any byte.\<close>

definition query_hex :: "char \<Rightarrow> int option" where
  "query_hex c =
     (if 0x30 \<le> uchar c \<and> uchar c \<le> 0x39 then Some (uchar c - 0x30)
      else if 0x61 \<le> uchar c \<and> uchar c \<le> 0x66 then Some (uchar c - 0x61 + 10)
      else if 0x41 \<le> uchar c \<and> uchar c \<le> 0x46 then Some (uchar c - 0x41 + 10)
      else None)"

fun writes :: "string \<Rightarrow> string \<Rightarrow> bool" where
  "writes [] t \<longleftrightarrow> t = []"
| "writes (c # v) [] \<longleftrightarrow> False"
| "writes (c # v) (p # t) \<longleftrightarrow>
     p = c \<and> (plain_char c \<or> c = CHR ''-'') \<and> writes v t
     \<or> p = CHR ''+'' \<and> c = CHR '' '' \<and> writes v t
     \<or> p = CHR ''%'' \<and>
       (case t of
          a # b # t1 \<Rightarrow> (case (query_hex a, query_hex b) of (Some h, Some l) \<Rightarrow> uchar c = 16 * h + l | _ \<Rightarrow> False) \<and> writes v t1
        | _ \<Rightarrow> False)"



text \<open>The encoder of the program writes so for texts of characters below 128.\<close>

lemma url_char_writes: "list_all (\<lambda>c. uchar c < 128) v \<Longrightarrow> writes v (encode_loop url_char v)"
proof (induction v)
  case (Cons c v)
  have "list_all (\<lambda>j. writes [char_store j] (url_char (char_store j)) \<and> url_char (char_store j) \<noteq> []) [0..127]"
    by code_simp
  from char_range_cases [OF this, of c] have "writes [c] (url_char c)" "url_char c \<noteq> []" using Cons.prems by simp_all
  moreover have "writes [c] e \<Longrightarrow> e \<noteq> [] \<Longrightarrow> writes v t \<Longrightarrow> writes (c # v) (e @ t)" for e t
    by (cases e) (auto split: list.splits option.splits)
  ultimately show ?case using Cons by simp
qed simp

lemma name_steps:
  "list_all (\<lambda>c. plain_char c \<or> c = CHR ''-'') v \<Longrightarrow> split_at buf i j out (v @ rest) \<Longrightarrow>
     resumes buf i j had True n (out @ List.map (\<lambda>c. if c = CHR ''-'' then CHR ''_'' else c) v) rest had True n"
proof (induction v arbitrary: buf i j out)
  case Nil
  then show ?case by (auto intro: resumesI)
next
  case (Cons c v)
  let ?m = "List.map (\<lambda>c. if c = CHR ''-'' then CHR ''_'' else c)"
  have "resumes buf i j had True n (out @ ?m [c]) (v @ rest) had True n"
    using Cons.prems plain_char_step [of buf i j out c "v @ rest" True had n] dash_step [of buf i j out "v @ rest" had n] by auto
  then have "resumes buf i j had True n ((out @ ?m [c]) @ ?m v) rest had True n"
    by (rule resumes_trans) (use Cons.IH [where out = "out @ ?m [c]"] Cons.prems(1) in simp)
  then show ?case by simp
qed

section \<open>Queries\<close>











section \<open>Collecting the parameters\<close>



















section \<open>Parameters as a map\<close>

definition params_map :: "vely_input_req \<Rightarrow> string \<rightharpoonup> string" where
  "params_map req = map_of (List.map (\<lambda>p. (pname p, pvalue p)) (ipars req))"

definition params_ok :: "vely_ipar list \<Rightarrow> bool" where
  "params_ok ps \<longleftrightarrow> distinct (List.map pname ps) \<and> list_all (\<lambda>p. found p = 0 \<or> found p = 1) ps"

text \<open>Both passes together look for the name.\<close>

lemma param_index_absent: "name \<notin> pname ` set ps \<Longrightarrow> param_index want name i ps = None"
  by (induction ps arbitrary: i) auto

lemma param_index_found:
  "distinct (List.map pname ps) \<Longrightarrow> k < length ps \<Longrightarrow> pname (ps ! k) = name \<Longrightarrow>
     param_index want name i ps = (if found (ps ! k) = want then Some (i + k) else None)"
proof (induction ps arbitrary: i k)
  case (Cons p ps)
  show ?case
  proof (cases k)
    case 0
    then have "name \<notin> pname ` set ps" using Cons.prems by auto
    then show ?thesis using 0 Cons.prems by (auto simp: param_index_absent)
  next
    case (Suc m)
    have "pname p \<noteq> name" using Cons.prems Suc by auto
    then show ?thesis using Suc Cons by simp
  qed
qed simp

lemma params_map_Some:
  assumes "params_ok (ipars req)" "k < length (ipars req)" "pname (ipars req ! k) = name"
  shows "params_map req name = Some (pvalue (ipars req ! k))"
proof -
  let ?l = "List.map (\<lambda>p. (pname p, pvalue p)) (ipars req)"
  have "distinct (List.map fst ?l)" using assms(1) by (simp add: params_ok_def comp_def)
  moreover have "(name, pvalue (ipars req ! k)) \<in> set ?l"
    using assms(2,3) by (metis (no_types, lifting) in_set_conv_nth length_map nth_map)
  ultimately show ?thesis by (simp add: params_map_def)
qed

lemma params_map_None: "name \<notin> pname ` set (ipars req) \<Longrightarrow> params_map req name = None"
  by (auto simp: params_map_def map_of_eq_None_iff)

text \<open>Asking for a parameter.\<close>

lemma get_input_cases:
  assumes "params_ok (ipars req)"
  obtains (absent) "name \<notin> pname ` set (ipars req)"
      "vely_get_input_param req name t = ([], -1, req\<lparr>task := (if t then -1 else task req)\<rparr>)"
    | (present) k where "k < length (ipars req)" "pname (ipars req ! k) = name"
      "vely_get_input_param req name t = (pvalue (ipars req ! k), int k,
         req\<lparr>task := (if t then int k else task req), ipars := (ipars req)[k := (ipars req ! k)\<lparr>found := 1\<rparr>]\<rparr>)"
proof (cases "name \<in> pname ` set (ipars req)")
  case False
  then show ?thesis using absent by (simp add: vely_get_input_param_def param_index_absent)
next
  case True
  then obtain k where k: "k < length (ipars req)" "pname (ipars req ! k) = name"
    by (metis imageE in_set_conv_nth)
  have "found (ipars req ! k) = 0 \<or> found (ipars req ! k) = 1"
    using assms k(1) by (simp add: params_ok_def list_all_length)
  moreover have "distinct (List.map pname (ipars req))" using assms by (simp add: params_ok_def)
  ultimately show ?thesis
    using present [OF k] param_index_found [of "ipars req" k name _ 0] k
    by (auto simp: vely_get_input_param_def)
qed

lemma params_ok_update:
  "params_ok ps \<Longrightarrow> k < length ps \<Longrightarrow> pname p = pname (ps ! k) \<Longrightarrow> found p = 0 \<or> found p = 1 \<Longrightarrow> params_ok (ps[k := p])"
  by (simp add: params_ok_def map_update list_all_length nth_list_update) (metis list_update_id nth_map)

lemma params_map_update:
  assumes "params_ok (ipars req)" "k < length (ipars req)" "pname p = pname (ipars req ! k)"
  shows "params_map (req\<lparr>ipars := (ipars req)[k := p]\<rparr>) = (params_map req)(pname p \<mapsto> pvalue p)"
proof
  fix n
  let ?ps = "ipars req"
  have split: "?ps = take k ?ps @ ?ps ! k # drop (Suc k) ?ps" by (rule id_take_nth_drop [OF assms(2)])
  have "distinct (List.map pname (take k ?ps @ ?ps ! k # drop (Suc k) ?ps))"
    using assms(1) split by (simp add: params_ok_def)
  then have u: "pname (?ps ! k) \<notin> pname ` set (take k ?ps)" by auto
  let ?m = "\<lambda>ps. map_of (List.map (\<lambda>p. (pname p, pvalue p)) ps)"
  have "params_map req n = ((?m (drop (Suc k) ?ps)) (pname (?ps ! k) := Some (pvalue (?ps ! k))) ++ ?m (take k ?ps)) n"
    unfolding params_map_def by (subst split) simp
  moreover have "params_map (req\<lparr>ipars := ?ps[k := p]\<rparr>) n
      = ((?m (drop (Suc k) ?ps)) (pname p := Some (pvalue p)) ++ ?m (take k ?ps)) n"
    using assms(2) by (simp add: params_map_def upd_conv_take_nth_drop)
  moreover have "map_of (List.map (\<lambda>p. (pname p, pvalue p)) (take k ?ps)) (pname p) = None"
    using u assms(3) by (auto simp: map_of_eq_None_iff)
  ultimately show "params_map (req\<lparr>ipars := ?ps[k := p]\<rparr>) n = ((params_map req)(pname p \<mapsto> pvalue p)) n"
    using assms(3) by (auto simp: map_add_def split: option.split)
qed

datatype input_op = Ask string bool | Give string string

fun input_step :: "vely_input_req \<Rightarrow> input_op \<Rightarrow> string \<times> vely_input_req" where
  "input_step req (Ask name t) = (case vely_get_input_param req name t of (v, _, r) \<Rightarrow> (v, r))"
| "input_step req (Give name v) = ([], snd (vely_set_input req name v))"

fun map_step :: "(string \<rightharpoonup> string) \<Rightarrow> input_op \<Rightarrow> string \<times> (string \<rightharpoonup> string)" where
  "map_step m (Ask name t) = (case m name of None \<Rightarrow> [] | Some v \<Rightarrow> v, m)"
| "map_step m (Give name v) = ([], m(name \<mapsto> v))"

fun answers :: "('s \<Rightarrow> 'i \<Rightarrow> 'o \<times> 's) \<Rightarrow> 's \<Rightarrow> 'i list \<Rightarrow> 'o list \<times> 's" where
  "answers f s [] = ([], s)"
| "answers f s (x # xs) = (case f s x of (y, s1) \<Rightarrow> (case answers f s1 xs of (ys, s2) \<Rightarrow> (y # ys, s2)))"

lemma task_frame [simp]: "params_map (req\<lparr>task := t\<rparr>) = params_map req"
  by (simp add: params_map_def)

lemma params_map_asked:
  assumes "params_ok (ipars req)" "k < length (ipars req)" "pname p = pname (ipars req ! k)"
  shows "params_map (req\<lparr>task := t, ipars := (ipars req)[k := p]\<rparr>) = (params_map req)(pname p \<mapsto> pvalue p)"
  using params_map_update [OF assms] by (simp add: params_map_def)

lemma get_input_step:
  assumes "params_ok (ipars req)"
  shows "case input_step req (Ask name t) of (v, r) \<Rightarrow> params_ok (ipars r) \<and> (v, params_map r) = map_step (params_map req) (Ask name t)"
proof (rule get_input_cases [OF assms, of name t])
  assume "name \<notin> pname ` set (ipars req)"
    "vely_get_input_param req name t = ([], -1, req\<lparr>task := (if t then -1 else task req)\<rparr>)"
  then show ?thesis using assms params_map_None by simp
next
  fix k
  assume k: "k < length (ipars req)" "pname (ipars req ! k) = name"
    "vely_get_input_param req name t = (pvalue (ipars req ! k), int k,
         req\<lparr>task := (if t then int k else task req), ipars := (ipars req)[k := (ipars req ! k)\<lparr>found := 1\<rparr>]\<rparr>)"
  let ?p = "(ipars req ! k)\<lparr>found := 1\<rparr>"
  have "params_ok ((ipars req)[k := ?p])" by (rule params_ok_update [OF assms k(1)]) simp_all
  moreover have "params_map (req\<lparr>task := (if t then int k else task req), ipars := (ipars req)[k := ?p]\<rparr>) = params_map req"
    using params_map_asked [OF assms k(1), of ?p] params_map_Some [OF assms k(1) refl] k(2) by (simp add: fun_upd_idem)
  ultimately show ?thesis using params_map_Some [OF assms k(1,2)] k(3) by simp
qed

lemma set_input_step:
  assumes "params_ok (ipars req)"
  shows "case input_step req (Give name v) of (u, r) \<Rightarrow> params_ok (ipars r) \<and> (u, params_map r) = map_step (params_map req) (Give name v)"
proof (rule get_input_cases [OF assms, of name False])
  assume a: "name \<notin> pname ` set (ipars req)"
    "vely_get_input_param req name False = ([], -1, req\<lparr>task := (if False then -1 else task req)\<rparr>)"
  have "params_map (req\<lparr>ipars := ipars req @ [\<lparr>found = 0, pname = name, pvalue = v\<rparr>]\<rparr>) = (params_map req)(name \<mapsto> v)"
    using params_map_None [OF a(1)] by (auto simp: params_map_def map_add_def fun_eq_iff split: option.split)
  then show ?thesis using a assms by (simp add: vely_set_input_def params_ok_def)
next
  fix k
  assume k: "k < length (ipars req)" "pname (ipars req ! k) = name"
    "vely_get_input_param req name False = (pvalue (ipars req ! k), int k,
         req\<lparr>task := (if False then int k else task req), ipars := (ipars req)[k := (ipars req ! k)\<lparr>found := 1\<rparr>]\<rparr>)"
  let ?p = "(ipars req ! k)\<lparr>pvalue := v, found := 0\<rparr>"
  have "params_ok ((ipars req)[k := ?p])" by (rule params_ok_update [OF assms k(1)]) simp_all
  moreover have "params_map (req\<lparr>ipars := (ipars req)[k := ?p]\<rparr>) = (params_map req)(name \<mapsto> v)"
    using params_map_update [OF assms k(1), of ?p] k(2) by simp
  moreover have "snd (vely_set_input req name v) = req\<lparr>ipars := (ipars req)[k := ?p]\<rparr>"
    using k(1,3) by (simp add: vely_set_input_def)
  ultimately show ?thesis by simp
qed

text \<open>With distinct names that is a map: every question has the answer of the map.\<close>

lemma params_are_a_map:
  assumes "params_ok (ipars req)"
  shows "map_prod id params_map (answers input_step req ops) = answers map_step (params_map req) ops"
  using assms
proof (induction ops arbitrary: req)
  case (Cons op ops)
  obtain v r where s: "input_step req op = (v, r)" by (cases "input_step req op")
  have "params_ok (ipars r) \<and> (v, params_map r) = map_step (params_map req) op"
  proof (cases op)
    case (Ask n t)
    then show ?thesis using get_input_step [OF Cons.prems, of n t] s by simp
  next
    case (Give n w)
    then show ?thesis using set_input_step [OF Cons.prems, of n w] s by simp
  qed
  then show ?case using Cons.IH [of r] s by (cases "answers input_step r ops") (auto split: prod.splits)
qed simp

section \<open>Parameters with any names\<close>

text \<open>What was given for each name, in order, with the mark of what was asked for.\<close>

definition given :: "vely_ipar list \<Rightarrow> string \<Rightarrow> (string \<times> bool) list" where
  "given ps name = List.map (\<lambda>p. (pvalue p, found p = 1)) (List.filter (\<lambda>p. pname p = name) ps)"

text \<open>The one whose turn it is: the first that was not asked for, or the first of all.\<close>

definition turn :: "(string \<times> bool) list \<Rightarrow> nat" where
  "turn vs = (if list_all snd vs then 0 else length (takeWhile snd vs))"

fun given_step :: "(string \<Rightarrow> (string \<times> bool) list) \<Rightarrow> input_op \<Rightarrow> string \<times> (string \<Rightarrow> (string \<times> bool) list)" where
  "given_step g (Ask n t) =
     (if g n = [] then ([], g) else (let v = fst (g n ! turn (g n)) in (v, g(n := (g n)[turn (g n) := (v, True)]))))"
| "given_step g (Give n v) = ([], g(n := (if g n = [] then [(v, False)] else (g n)[turn (g n) := (v, False)])))"

definition marks_ok :: "vely_ipar list \<Rightarrow> bool" where
  "marks_ok ps \<longleftrightarrow> list_all (\<lambda>p. found p = 0 \<or> found p = 1) ps"

lemma given_append [simp]: "given (ps @ qs) n = given ps n @ given qs n"
  by (simp add: given_def)

lemma given_Cons [simp]: "given (p # ps) n = (if pname p = n then (pvalue p, found p = 1) # given ps n else given ps n)"
  by (simp add: given_def)

lemma given_Nil [simp]: "given [] n = []"
  by (simp add: given_def)

lemma param_index_Some:
  "param_index want name i ps = Some k \<Longrightarrow> \<exists>ps1 p ps2. ps = ps1 @ p # ps2 \<and> k = i + length ps1 \<and> found p = want \<and> pname p = name
     \<and> (\<forall>q\<in>set ps1. pname q = name \<longrightarrow> found q \<noteq> want)"
proof (induction ps arbitrary: i)
  case (Cons p ps)
  show ?case
  proof (cases "found p = want \<and> pname p = name")
    case True
    then show ?thesis using Cons.prems by (intro exI [of _ "[]"] exI [of _ p] exI [of _ ps]) simp
  next
    case False
    then obtain ps1 q ps2 where "ps = ps1 @ q # ps2" "k = i + 1 + length ps1" "found q = want" "pname q = name"
      "\<forall>r\<in>set ps1. pname r = name \<longrightarrow> found r \<noteq> want" using Cons.IH [of "i + 1"] Cons.prems by auto
    then show ?thesis using False by (intro exI [of _ "p # ps1"] exI [of _ q] exI [of _ ps2]) auto
  qed
qed simp

lemma param_index_None: "param_index want name i ps = None \<Longrightarrow> p \<in> set ps \<Longrightarrow> pname p = name \<Longrightarrow> found p \<noteq> want"
  by (induction ps arbitrary: i) (auto split: if_splits)

lemma given_none: "given ps n = [] \<longleftrightarrow> (\<forall>p\<in>set ps. pname p \<noteq> n)"
  by (induction ps) auto

lemma given_asked: "list_all snd (given ps n) \<longleftrightarrow> (\<forall>p\<in>set ps. pname p = n \<longrightarrow> found p = 1)"
  by (induction ps) auto

lemma takeWhile_asked: "list_all snd xs \<Longrightarrow> takeWhile snd (xs @ ys) = xs @ takeWhile snd ys"
  by (induction xs) auto

text \<open>The parameter that is found is the one whose turn it is.\<close>

lemma get_input_given:
  assumes "marks_ok (ipars req)"
  obtains (absent) "given (ipars req) name = []"
      "vely_get_input_param req name t = ([], -1, req\<lparr>task := (if t then -1 else task req)\<rparr>)"
    | (present) ps1 p ps2 where "ipars req = ps1 @ p # ps2" "pname p = name" "length (given ps1 name) = turn (given (ipars req) name)"
      "vely_get_input_param req name t = (pvalue p, int (length ps1),
         req\<lparr>task := (if t then int (length ps1) else task req), ipars := ps1 @ p\<lparr>found := 1\<rparr> # ps2\<rparr>)"
proof -
  have m: "found p = 0 \<or> found p = 1" if "p \<in> set (ipars req)" for p using assms that by (auto simp: marks_ok_def list_all_iff)
  consider (first) k where "param_index 0 name 0 (ipars req) = Some k"
    | (second) k where "param_index 0 name 0 (ipars req) = None" "param_index 1 name 0 (ipars req) = Some k"
    | (none) "param_index 0 name 0 (ipars req) = None" "param_index 1 name 0 (ipars req) = None" by fastforce
  then show ?thesis
  proof cases
    case first
    then obtain ps1 p ps2 where s: "ipars req = ps1 @ p # ps2" "k = length ps1" "found p = 0" "pname p = name"
      "\<forall>q\<in>set ps1. pname q = name \<longrightarrow> found q \<noteq> 0" using param_index_Some [OF first] by auto
    have a: "list_all snd (given ps1 name)" using s(1,5) m by (auto simp: given_asked)
    then have "turn (given (ipars req) name) = length (given ps1 name)"
      using s(1,3,4) by (simp add: turn_def takeWhile_asked)
    then show ?thesis using present [OF s(1,4)] first s(1,2) by (simp add: vely_get_input_param_def)
  next
    case second
    then obtain ps1 p ps2 where s: "ipars req = ps1 @ p # ps2" "k = length ps1" "found p = 1" "pname p = name"
      "\<forall>q\<in>set ps1. pname q = name \<longrightarrow> found q \<noteq> 1" using param_index_Some [OF second(2)] by auto
    have z: "\<forall>q\<in>set (ipars req). pname q = name \<longrightarrow> found q = 1" using param_index_None [OF second(1)] m by blast
    then have "given ps1 name = []" using s(1,5) by (auto simp: given_none)
    moreover have "turn (given (ipars req) name) = 0" using z by (simp add: turn_def given_asked)
    ultimately show ?thesis using present [OF s(1,4)] second s(1,2) by (simp add: vely_get_input_param_def)
  next
    case none
    have "given (ipars req) name = []"
      using param_index_None [OF none(1)] param_index_None [OF none(2)] m unfolding given_none by blast
    then show ?thesis using absent none by (simp add: vely_get_input_param_def)
  qed
qed

lemma given_at_turn:
  assumes "ps = ps1 @ p # ps2" "pname p = n" "length (given ps1 n) = turn (given ps n)" "pname p' = n"
  shows "given ps n \<noteq> []" "fst (given ps n ! turn (given ps n)) = pvalue p"
    "given (ps1 @ p' # ps2) = (given ps)(n := (given ps n)[turn (given ps n) := (pvalue p', found p' = 1)])"
proof -
  show "given ps n \<noteq> []" using assms(1,2) by simp
  show "fst (given ps n ! turn (given ps n)) = pvalue p"
    unfolding assms(3) [symmetric] using assms(1,2) by simp
  show "given (ps1 @ p' # ps2) = (given ps)(n := (given ps n)[turn (given ps n) := (pvalue p', found p' = 1)])"
    unfolding assms(3) [symmetric] using assms(1,2,4) by (auto simp: fun_eq_iff)
qed

lemma given_refines:
  assumes "marks_ok (ipars req)"
  shows "case input_step req op of (v, r) \<Rightarrow> marks_ok (ipars r) \<and> (v, given (ipars r)) = given_step (given (ipars req)) op"
proof (cases op)
  case (Ask n t)
  from assms show ?thesis
  proof (rule get_input_given [of req n t])
    fix ps1 p ps2
    assume s: "ipars req = ps1 @ p # ps2" "pname p = n" "length (given ps1 n) = turn (given (ipars req) n)"
      "vely_get_input_param req n t = (pvalue p, int (length ps1),
         req\<lparr>task := (if t then int (length ps1) else task req), ipars := ps1 @ p\<lparr>found := 1\<rparr> # ps2\<rparr>)"
    note g = given_at_turn [OF s(1-3), of "p\<lparr>found := 1\<rparr>"]
    show ?thesis
      using assms g s(2) unfolding Ask by (simp add: s(4) Let_def) (simp add: s(1) marks_ok_def)
  qed (use assms Ask in simp)
next
  case (Give n v)
  from assms show ?thesis
  proof (rule get_input_given [of req n False])
    fix ps1 p ps2
    assume s: "ipars req = ps1 @ p # ps2" "pname p = n" "length (given ps1 n) = turn (given (ipars req) n)"
      "vely_get_input_param req n False = (pvalue p, int (length ps1),
         req\<lparr>task := (if False then int (length ps1) else task req), ipars := ps1 @ p\<lparr>found := 1\<rparr> # ps2\<rparr>)"
    have r: "ipars (snd (vely_set_input req n v)) = ps1 @ p\<lparr>pvalue := v, found := 0\<rparr> # ps2"
      by (simp add: vely_set_input_def s(4))
    note g = given_at_turn [OF s(1-3), of "p\<lparr>pvalue := v, found := 0\<rparr>"]
    have "marks_ok (ps1 @ p\<lparr>pvalue := v, found := 0\<rparr> # ps2)" using assms s(1) by (simp add: marks_ok_def)
    then show ?thesis using g s(2) by (simp add: Give r)
  next
    assume "given (ipars req) n = []"
      "vely_get_input_param req n False = ([], -1, req\<lparr>task := (if False then -1 else task req)\<rparr>)"
    then show ?thesis using assms by (auto simp: Give vely_set_input_def marks_ok_def fun_eq_iff)
  qed
qed

text \<open>C20: asking for parameters and setting them, in any order and with any names, also with a name that was given more than
  once, answers as this abstract state does: for each name the list of its values with a mark on those that were asked for; a
  question takes the first one without a mark, or the first of all, and marks it; setting replaces that one and takes its mark off,
  or adds the name.  (With distinct names that is a map: \<open>params_are_a_map\<close>.)\<close>

theorem params_history:
  assumes "marks_ok (ipars req)"
  shows "map_prod id (\<lambda>r. given (ipars r)) (answers input_step req ops) = answers given_step (given (ipars req)) ops"
  using assms
proof (induction ops arbitrary: req)
  case (Cons op ops)
  obtain v r where s: "input_step req op = (v, r)" by (cases "input_step req op")
  show ?case using given_refines [OF Cons.prems, of op] Cons.IH [of r] s
    by (cases "answers input_step r ops") (auto split: prod.splits)
qed simp

theorem params_history_witness:
  "map_prod id (\<lambda>r. given (ipars r)) (answers input_step
      (vely_init_input_req\<lparr>ipars := [\<lparr>found = 0, pname = ''a'', pvalue = ''1''\<rparr>, \<lparr>found = 1, pname = ''b'', pvalue = ''2''\<rparr>,
         \<lparr>found = 0, pname = ''a'', pvalue = ''3''\<rparr>]\<rparr>)
      [Ask ''a'' False, Ask ''a'' True, Give ''b'' ''4'', Give ''c'' ''5'', Ask ''a'' False]) =
    answers given_step (given
      (ipars (vely_init_input_req\<lparr>ipars := [\<lparr>found = 0, pname = ''a'', pvalue = ''1''\<rparr>, \<lparr>found = 1, pname = ''b'', pvalue = ''2''\<rparr>,
         \<lparr>found = 0, pname = ''a'', pvalue = ''3''\<rparr>]\<rparr>)))
      [Ask ''a'' False, Ask ''a'' True, Give ''b'' ''4'', Give ''c'' ''5'', Ask ''a'' False]"
  by (rule params_history) (simp add: marks_ok_def)

section \<open>Queries and names that go wrong\<close>

text \<open>A name that a query gives twice has its values in turn: the mark of the first hides it from the second search.\<close>

lemma twice_given:
  "fst (answers input_step (req\<lparr>ipars := [\<lparr>found = 0, pname = n, pvalue = v\<rparr>, \<lparr>found = 0, pname = n, pvalue = w\<rparr>]\<rparr>)
     [Ask n False, Ask n False, Ask n False]) = [v, w, v]"
  by (simp add: vely_get_input_param_def)

lemma hex_zero: "char_store (17 * VV_CHAR_FROM_HEX (CHR ''0'')) = NUL"
  by code_simp

lemma last_byte:
  assumes "split_at buf i j out [x]" "x \<noteq> NUL"
  shows "split_loop buf i j True False n = Inl Out_of_bounds"
proof -
  have "length (drop i buf) = 1" using assms(1) by (simp add: split_at_def)
  then have l: "length buf = i + 1" by simp
  have "split_loop b (i + 1) (j + 1) had isname k = Inl Out_of_bounds" if "length b = i + 1" for b had isname k
    by (subst split_loop.simps) (simp add: that)
  then show ?thesis
    using l split_at_step(2) [OF assms(1)] assms(2) by (subst split_loop.simps) (simp add: Let_def)
qed

text \<open>C39: three queries that are read past their end or out of step: a percent sign with fewer than two characters after
  it, four equal signs in one parameter, and an encoded zero byte, after which a part of a value is a name.\<close>

theorem query_gaps:
  assumes "x \<noteq> NUL"
  shows "url_params (input_content x [] ''a=%'') = Inl Out_of_bounds
     \<and> url_params (input_content x [] ''a=b=c=d=e'') = Inl Out_of_bounds
     \<and> url_params (input_content x [] ''a=%00b&c=d'') =
      Inr [\<lparr>found = 0, pname = ''a'', pvalue = []\<rparr>, \<lparr>found = 0, pname = ''b'', pvalue = ''c''\<rparr>]"
proof (intro conjI)
  show "url_params (input_content x [] ''a=%'') = Inl Out_of_bounds"
  proof -
    let ?c = "''a=%'' @ [NUL, x, x]"
    have "resumes ?c 0 0 False True 0 ''a'' (''=%'' @ [NUL, x, x]) False True 0"
      using name_steps [of "''a''" ?c 0 0 "[]" "''=%'' @ [NUL, x, x]" False 0] by (simp add: split_at_def plain_char_def)
    then have "resumes ?c 0 0 False True 0 (''a'' @ [NUL]) (CHR ''%'' # NUL # x # [x]) True False (0 + 1)"
      by (rule resumes_trans) (rule equal_step, simp)
    then have "resumes ?c 0 0 False True 0
        ((''a'' @ [NUL]) @ [char_store (VV_CHAR_FROM_HEX NUL * 16 + VV_CHAR_FROM_HEX x)]) [x] True False (0 + 1)"
      by (rule resumes_trans) (rule percent_step)
    then obtain buf i j out where b: "split_loop ?c 0 0 False True 0 = split_loop buf i j True False 1" "split_at buf i j out [x]"
      unfolding resumes_def by auto
    show ?thesis using last_byte [OF b(2) assms] b(1) by (simp add: url_params_def input_content_def res_bind_def)
  qed
  show "url_params (input_content x [] ''a=b=c=d=e'') = Inl Out_of_bounds"
    using assms by (simp add: url_params_def input_content_def split_loop.simps res_bind_def Let_def memput_def string_at_def
        vely_is_valid_param_name_def isalnum_def isalpha_def islower_def isupper_def uchar_def vely_trim_ptr_def skip_spaces.simps cstr_def isspace_def hex_zero)
  show "url_params (input_content x [] ''a=%00b&c=d'') =
      Inr [\<lparr>found = 0, pname = ''a'', pvalue = []\<rparr>, \<lparr>found = 0, pname = ''b'', pvalue = ''c''\<rparr>]"
    by (simp add: url_params_def input_content_def split_loop.simps res_bind_def Let_def memput_def string_at_def
        vely_is_valid_param_name_def isalnum_def isalpha_def islower_def isupper_def uchar_def vely_trim_ptr_def skip_spaces.simps cstr_def isspace_def hex_zero)
qed

theorem query_gaps_witness:
  "url_params (input_content (CHR ''x'') [] ''a=%'') = Inl Out_of_bounds
     \<and> url_params (input_content (CHR ''x'') [] ''a=b=c=d=e'') = Inl Out_of_bounds
     \<and> url_params (input_content (CHR ''x'') [] ''a=%00b&c=d'') =
      Inr [\<lparr>found = 0, pname = ''a'', pvalue = []\<rparr>, \<lparr>found = 0, pname = ''b'', pvalue = ''c''\<rparr>]"
  by (rule query_gaps) simp

end
