(* ===== verification/Path.thy ===== *)
theory Path
  imports Params
begin

text \<open>
  The path of a URL (velyrt.c, the last part of \<^verbatim>\<open>vely_get_input\<close>; velyrtc.c, \<^verbatim>\<open>vely_decorate_path\<close>):
  after the application path it holds the name of the request, as one segment or as a hierarchical path between
  \<^verbatim>\<open>/_\<close> and \<^verbatim>\<open>_/\<close>, and parameters as \<^verbatim>\<open>/name/value\<close> or \<^verbatim>\<open>/name=value\<close>.
\<close>

definition VV_MAX_PATH :: nat where "VV_MAX_PATH = 2512"
definition VV_MAX_REQ_NAME_LEN :: nat where "VV_MAX_REQ_NAME_LEN = 256"

section \<open>Hierarchical names\<close>

text \<open>The characters copied while the index \<open>i\<close> is at most \<open>lim\<close>.\<close>

fun copy_path :: "nat \<Rightarrow> nat \<Rightarrow> string \<Rightarrow> string" where
  "copy_path lim i [] = []"
| "copy_path lim i (c # s) =
     (if i \<le> lim then
        (if c = CHR ''/'' then ''__'' @ copy_path lim (i + 2) s
         else if c = CHR ''-'' then CHR ''_'' # copy_path lim (i + 1) s
         else c # copy_path lim (i + 1) s)
      else [])"

definition cut_underscores :: "string \<Rightarrow> string" where
  "cut_underscores s =
     (if length s > 1 \<and> s ! (length s - 1) = CHR ''_'' \<and> s ! (length s - 2) = CHR ''_'' then take (length s - 2) s else s)"

text \<open>The name from offset \<open>off\<close> to the zero byte that is put at \<open>ereq\<close>.\<close>

definition path_name :: "nat \<Rightarrow> string \<Rightarrow> nat \<Rightarrow> nat \<Rightarrow> string" where
  "path_name reqname_len p off ereq =
     cut_underscores (copy_path (reqname_len - 3) 0 (if off \<le> ereq then take (ereq - off) (drop off p) else drop off p))"

text \<open>The status, the name, and the offset of the pointer \<open>*p\<close> after the call.\<close>

definition vely_decorate_path :: "nat \<Rightarrow> string \<Rightarrow> nat \<Rightarrow> bool \<Rightarrow> (int \<times> string \<times> nat) res" where
  "vely_decorate_path reqname_len p p_len is_dash =
     (if is_dash \<and> (cat p 0 \<noteq> CHR ''/'' \<or> cat p 1 \<noteq> CHR ''_'') then Inr (0, [], 0)
      else if \<not> is_dash \<and> cat p 0 \<noteq> CHR ''/'' then
        (if CHR ''/'' \<notin> set p then Inr (3, take (reqname_len - 1) p, 0) else Inr (0, [], 0))
      else
        (let p_off = (if is_dash \<or> cat p 1 = CHR ''_'' then 2 else 1);
             off = (if p_off = 2 \<and> cat p 2 = CHR ''/'' then 3 else p_off) in
         case find_str True (drop off p) ''_/'' of
           Some k \<Rightarrow> Inr (1, path_name reqname_len p off (off + k), off + k + 1)
         | None \<Rightarrow>
             (if p_len = 0 \<or> p_len - 1 > length p then Inl Out_of_bounds
              else if cat p (p_len - 1) = CHR ''_'' then Inr (1, path_name reqname_len p off (p_len - 1), p_len - 1)
              else if is_dash then Inr (2, [], 0)
              else Inr (1, path_name reqname_len p off p_len, p_len))))"

section \<open>Parameters in the path\<close>

definition dash :: "char \<Rightarrow> char" where
  "dash c = (if c = CHR ''-'' then CHR ''_'' else c)"

text \<open>In a command-line program a value is decoded where it is.\<close>

definition path_value :: "bool \<Rightarrow> string \<Rightarrow> string res" where
  "path_value command v =
     (if command then map_sum id (\<lambda>(buf, n). cstr buf) (vely_decode VV_URL (v @ [NUL]) (int (length v))) else Inr v)"

lemma rest_shorter: "dropWhile P s = c # s1 \<Longrightarrow> length s1 < length s"
  using length_dropWhile_le [of P s] by simp

text \<open>\<open>s\<close> is the text after a slash; \<open>leading\<close> tells that the name of the request is next.\<close>

function path_loop :: "bool \<Rightarrow> bool \<Rightarrow> string \<Rightarrow> string \<Rightarrow> vely_ipar list \<Rightarrow> (string \<times> vely_ipar list) res" where
  "path_loop command leading s name ps =
     (let seg = takeWhile (\<lambda>c. c \<noteq> CHR ''/'') s; rest = dropWhile (\<lambda>c. c \<noteq> CHR ''/'') s in
      if leading then
        (case rest of [] \<Rightarrow> Inr (map dash seg, ps) | _ # s1 \<Rightarrow> path_loop command False s1 (map dash seg) ps)
      else
        (let n = map dash (takeWhile (\<lambda>c. c \<noteq> CHR ''='') seg);
             add = (\<lambda>v. map_sum id (\<lambda>v1. ps @ [\<lparr>found = 0, pname = n, pvalue = v1\<rparr>]) (path_value command v)) in
         case dropWhile (\<lambda>c. c \<noteq> CHR ''='') seg of
           _ # v \<Rightarrow>
             res_bind (add v) (\<lambda>ps1. case rest of [] \<Rightarrow> Inr (name, ps1) | _ # s1 \<Rightarrow> path_loop command False s1 name ps1)
         | [] \<Rightarrow>
             (case rest of
                [] \<Rightarrow> res_bind (add ''true'') (\<lambda>ps1. Inr (name, ps1))
              | _ # s1 \<Rightarrow>
                  res_bind (add (takeWhile (\<lambda>c. c \<noteq> CHR ''/'') s1)) (\<lambda>ps1.
                    case dropWhile (\<lambda>c. c \<noteq> CHR ''/'') s1 of
                      [] \<Rightarrow> Inr (name, ps1)
                    | _ # s2 \<Rightarrow> path_loop command False s2 name ps1))))"
  by pat_completeness auto
termination
proof (relation "measure (\<lambda>(command, leading, s, name, ps). length s)", goal_cases)
  case 1
  show ?case by simp
next
  case (2 command leading s name ps x xa c s1)
  then show ?case using rest_shorter [of _ s c s1] by simp
next
  case (3 command leading s name ps x xa xb xc c v y d s1)
  then show ?case
    using less_trans [OF rest_shorter [of _ v d s1] rest_shorter [OF sym, of c v _ s]] by simp
next
  case (4 command leading s name ps x xa xb xc c v y d s1)
  then show ?case using rest_shorter [OF sym, of d s1 _ s] by simp
qed

declare path_loop.simps [simp del]


section \<open>The path of a request\<close>

text \<open>The path, without a slash at the end of the name of the script; it is printed into a buffer of
  \<open>VV_MAX_PATH\<close> bytes, but its length is that of the whole.\<close>

definition whole_path :: "(string \<Rightarrow> string) \<Rightarrow> string" where
  "whole_path getenv =
     (let script_name = getenv ''SCRIPT_NAME'' in
      (if script_name \<noteq> [] \<and> List.last script_name = CHR ''/'' then butlast script_name else script_name) @ getenv ''PATH_INFO'')"

definition read_path :: "bool \<Rightarrow> string \<Rightarrow> (string \<Rightarrow> string) \<Rightarrow> vely_input_req \<Rightarrow> vely_input_req res" where
  "read_path command vely_app_path getenv req =
     (let full_path = take (VV_MAX_PATH - 1) (whole_path getenv);
          p = drop (length vely_app_path) full_path;
          p_len = length (whole_path getenv) - length vely_app_path;
          params = (\<lambda>leading name s. res_bind (path_loop command leading s name (ipars req)) (\<lambda>(name1, ps).
            Inr (req\<lparr>rname := name1, ipars := ps\<rparr>))) in
      if starts False full_path vely_app_path then
        (if cat p 0 \<noteq> CHR ''/'' \<or> cat p 1 = NUL \<or> cat p 1 = CHR ''?'' then
           (if rname req \<noteq> [] then Inr req else Inl (Report_error ''URL path [%s] is missing a request name''))
         else
           res_bind (vely_decorate_path VV_MAX_REQ_NAME_LEN p p_len True) (\<lambda>(decres, reqname, pos).
             if decres = 1 then params False reqname (drop (pos + 1) p)
             else if decres = 3 then Inl (Report_error ''URL path [%s] is incorrect'')
             else if decres = 2
             then Inl (Report_error ''URL path [%s] has opened hierarchical request path with /_ but has not closed with _/'')
             else params True (rname req) (drop 1 p)))
      else Inl (Report_error ''URL path [%s] must begin with application path [%s]''))"

text \<open>The input of a request: its parameters from the query, its name and more parameters from the path.\<close>

definition read_input ::
  "char \<Rightarrow> bool \<Rightarrow> string \<Rightarrow> (string \<Rightarrow> string) \<Rightarrow> string \<Rightarrow> vely_input_req \<Rightarrow> vely_input_req res" where
  "read_input x command vely_app_path getenv body req =
     res_bind (read_params x body (getenv ''QUERY_STRING'') req) (read_path command vely_app_path getenv)"


section \<open>Names\<close>

text \<open>The name that a path stands for.\<close>

fun dash_path :: "string \<Rightarrow> string" where
  "dash_path [] = []"
| "dash_path (c # s) = (if c = CHR ''/'' then ''__'' else [dash c]) @ dash_path s"

lemma copy_path_all: "i + length (dash_path s) \<le> lim + 1 \<Longrightarrow> copy_path lim i s = dash_path s"
  by (induction s arbitrary: i) (auto simp: dash_def)

lemma find_end:
  "find_str True T ''_/'' = None \<Longrightarrow> T = [] \<or> List.last T \<noteq> CHR ''_'' \<Longrightarrow> find_str True (T @ CHR ''_'' # CHR ''/'' # r) ''_/'' = Some (length T)"
proof (induction T)
  case (Cons c T)
  then show ?case by (cases T) (auto simp: same_char_def split: if_splits)
qed (simp add: same_char_def)

text \<open>C29: the hierarchical path of a URL and the path that a program writes for its request handler stand for the same
  name, that of the segments joined by two underscores, with underscores for hyphens; the pointer
  into the URL is left at the slash that the parameters follow.\<close>

theorem decorate_agrees:
  assumes "T \<noteq> []" "hd T \<noteq> CHR ''_''" "hd T \<noteq> CHR ''/''" "List.last T \<noteq> CHR ''_''" "find_str True T ''_/'' = None"
    and "length (dash_path T) + 2 \<le> n" "3 \<le> n"
  shows "vely_decorate_path n (''/_'' @ T @ ''_/'' @ r) k True = Inr (1, cut_underscores (dash_path T), length T + 3)
    \<and> vely_decorate_path n (''/'' @ T) (length T + 1) False = Inr (1, cut_underscores (dash_path T), length T + 1)"
proof
  obtain c s where T: "T = c # s" using assms(1) by (cases T) auto
  have cp: "copy_path (n - 3) 0 T = dash_path T" by (rule copy_path_all) (use assms(6,7) in simp)
  have f: "find_str True (T @ ''_/'' @ r) ''_/'' = Some (length T)" using find_end [OF assms(5), of r] assms(4) by simp
  have p: "path_name n (''/_'' @ T @ ''_/'' @ r) 2 (2 + length T) = cut_underscores (dash_path T)"
    by (simp add: path_name_def cp [simplified])
  show "vely_decorate_path n (''/_'' @ T @ ''_/'' @ r) k True = Inr (1, cut_underscores (dash_path T), length T + 3)"
    using f p assms(3) by (simp add: vely_decorate_path_def Let_def T)
  have q: "path_name n (''/'' @ T) 1 (length T + 1) = cut_underscores (dash_path T)"
    by (simp add: path_name_def cp [simplified])
  have l: "cat (''/'' @ T) (length T) \<noteq> CHR ''_''"
    using assms(4) last_conv_nth [OF assms(1)] by (simp add: cat_def T)
  show "vely_decorate_path n (''/'' @ T) (length T + 1) False = Inr (1, cut_underscores (dash_path T), length T + 1)"
    using q l assms(2,5) by (simp add: vely_decorate_path_def Let_def T)
qed

theorem decorate_agrees_witness:
  "vely_decorate_path 256 (''/_'' @ ''items/red-wine'' @ ''_/'' @ ''id/7'') 24 True =
      Inr (1, cut_underscores (dash_path ''items/red-wine''), length ''items/red-wine'' + 3)
    \<and> vely_decorate_path 256 (''/'' @ ''items/red-wine'') (length ''items/red-wine'' + 1) False =
      Inr (1, cut_underscores (dash_path ''items/red-wine''), length ''items/red-wine'' + 1)"
  by (rule decorate_agrees) (simp_all add: same_char_def)

section \<open>Paths and parameters\<close>

text \<open>A parameter is written as \<open>/name/value\<close>, or, if marked, as \<open>/name=value\<close>.\<close>

fun path_text :: "(string \<times> string \<times> bool) list \<Rightarrow> string" where
  "path_text [] = []"
| "path_text ((n, v, e) # ps) = CHR ''/'' # n @ (if e then CHR ''='' else CHR ''/'') # v @ path_text ps"

definition path_ok :: "(string \<times> string \<times> bool) list \<Rightarrow> bool" where
  "path_ok ps \<longleftrightarrow> list_all (\<lambda>(n, v, e). CHR ''/'' \<notin> set n \<and> CHR ''='' \<notin> set n \<and> CHR ''/'' \<notin> set v) ps"

definition path_param :: "string \<times> string \<times> bool \<Rightarrow> vely_ipar" where
  "path_param p = (case p of (n, v, e) \<Rightarrow> \<lparr>found = 0, pname = map dash n, pvalue = v\<rparr>)"

lemma path_text_cases: "path_text ps = [] \<and> ps = [] \<or> (\<exists>s. path_text ps = CHR ''/'' # s \<and> ps \<noteq> [])"
  by (cases ps rule: path_text.cases) auto

lemma take_segment: "c \<notin> set a \<Longrightarrow> takeWhile (\<lambda>d. d \<noteq> c) (a @ c # s) = a" "c \<notin> set a \<Longrightarrow> dropWhile (\<lambda>d. d \<noteq> c) (a @ c # s) = c # s"
  "c \<notin> set a \<Longrightarrow> takeWhile (\<lambda>d. d \<noteq> c) a = a" "c \<notin> set a \<Longrightarrow> dropWhile (\<lambda>d. d \<noteq> c) a = []"
  by (induction a) auto

lemma segment_append: "c \<notin> set a \<Longrightarrow> takeWhile (\<lambda>d. d \<noteq> c) (a @ s) = a @ takeWhile (\<lambda>d. d \<noteq> c) s"
  "c \<notin> set a \<Longrightarrow> dropWhile (\<lambda>d. d \<noteq> c) (a @ s) = dropWhile (\<lambda>d. d \<noteq> c) s"
  by (induction a) auto

lemma path_params:
  "path_ok ps \<Longrightarrow> path_text ps = CHR ''/'' # s \<Longrightarrow> path_loop False False s name acc = Inr (name, acc @ map path_param ps)"
proof (induction ps arbitrary: s acc)
  case (Cons p ps)
  obtain n v e where p: "p = (n, v, e)" by (cases p)
  have ok: "CHR ''/'' \<notin> set n" "CHR ''='' \<notin> set n" "CHR ''/'' \<notin> set v" "path_ok ps"
    using Cons.prems(1) by (simp_all add: path_ok_def p)
  let ?acc = "acc @ [\<lparr>found = 0, pname = map dash n, pvalue = v\<rparr>]"
  have s: "s = n @ (if e then CHR ''='' else CHR ''/'') # v @ path_text ps" using Cons.prems(2) by (simp add: p)
  have rest: "(case path_text ps of [] \<Rightarrow> Inr (name, ?acc) | c # s1 \<Rightarrow> path_loop False False s1 name ?acc) = Inr (name, ?acc @ map path_param ps)"
    using path_text_cases [of ps] Cons.IH [OF ok(4), of _ ?acc] by auto
  have tv: "takeWhile (\<lambda>c. c \<noteq> CHR ''/'') (v @ path_text ps) = v" "dropWhile (\<lambda>c. c \<noteq> CHR ''/'') (v @ path_text ps) = path_text ps"
    using path_text_cases [of ps] ok(3) by (auto simp: take_segment)
  show ?case
  proof (cases e)
    case True
    have "takeWhile (\<lambda>c. c \<noteq> CHR ''/'') s = n @ CHR ''='' # v" "dropWhile (\<lambda>c. c \<noteq> CHR ''/'') s = path_text ps"
      using ok(1) tv segment_append [of "CHR ''/''" "n @ [CHR ''='']" "v @ path_text ps"] by (simp_all add: s True)
    then show ?thesis
      using rest ok(2) by (subst path_loop.simps) (simp add: take_segment path_value_def res_bind_def path_param_def p Let_def)
  next
    case False
    obtain w where w: "w = v @ path_text ps" by blast
    have tw: "takeWhile (\<lambda>c. c \<noteq> CHR ''/'') w = v" "dropWhile (\<lambda>c. c \<noteq> CHR ''/'') w = path_text ps" using tv by (simp_all add: w)
    have "takeWhile (\<lambda>c. c \<noteq> CHR ''/'') s = n" "dropWhile (\<lambda>c. c \<noteq> CHR ''/'') s = CHR ''/'' # w"
      using ok(1) by (simp_all add: s w False take_segment)
    then show ?thesis
      using rest ok(2) by (subst path_loop.simps) (simp add: tw path_value_def res_bind_def path_param_def p Let_def take_segment cong: list.case_cong)
  qed
qed simp

lemma starts_prefix: "starts True (a @ s) a" "starts False (a @ s) a"
  by (induction a) (simp_all add: same_char_def)

text \<open>C13: a path after that of the application is read as the name of the request and exactly the parameters it was written
  with, in either form, after those of the query.\<close>

theorem path_roundtrip:
  assumes "whole_path getenv = app @ CHR ''/'' # n @ path_text ps" "path_ok ps" "CHR ''/'' \<notin> set n" "NUL \<notin> set n"
    and "n \<noteq> []" "hd n \<noteq> CHR ''_''" "hd n \<noteq> CHR ''?''" "length (whole_path getenv) < VV_MAX_PATH"
  shows "read_path False app getenv req = Inr (req\<lparr>rname := map dash n, ipars := ipars req @ map path_param ps\<rparr>)"
proof -
  obtain c m where n: "n = c # m" "c \<noteq> NUL" "c \<noteq> CHR ''_''" "c \<noteq> CHR ''?''" using assms(4-7) by (cases n) auto
  have f: "take (VV_MAX_PATH - 1) (whole_path getenv) = app @ CHR ''/'' # n @ path_text ps"
    using assms(1,8) by simp
  have l: "path_loop False True (n @ path_text ps) (rname req) (ipars req) = Inr (map dash n, ipars req @ map path_param ps)"
  proof (cases "ps = []")
    case True
    then show ?thesis using assms(3) by (subst path_loop.simps) (simp add: take_segment)
  next
    case False
    then obtain s where s: "path_text ps = CHR ''/'' # s" using path_text_cases [of ps] by auto
    then show ?thesis using path_params [OF assms(2) s] assms(3) by (subst path_loop.simps) (simp add: take_segment)
  qed
  have d: "vely_decorate_path VV_MAX_REQ_NAME_LEN (CHR ''/'' # n @ path_text ps) k True = Inr (0, [], 0)" for k
    using n by (simp add: vely_decorate_path_def)
  show ?thesis
    unfolding read_path_def Let_def f using d l n by (simp add: starts_prefix res_bind_def)
qed

theorem path_roundtrip_witness:
  "read_path False ''/shop'' (\<lambda>v. if v = ''SCRIPT_NAME'' then ''/shop/buy-item'' else ''/color/red/qty=2'') vely_init_input_req =
     Inr (vely_init_input_req\<lparr>rname := map dash ''buy-item'',
       ipars := ipars vely_init_input_req @ map path_param [(''color'', ''red'', False), (''qty'', ''2'', True)]\<rparr>)"
  by (rule path_roundtrip) (simp_all add: whole_path_def path_ok_def VV_MAX_PATH_def)

section \<open>Paths that go wrong\<close>

text \<open>A slash at the end of a path is read as a parameter without a name, whose value is \<open>true\<close>; a name in the path is
  not checked as those of a query are.\<close>

lemma slash_at_end:
  "path_loop False False [] name acc = Inr (name, acc @ [\<lparr>found = 0, pname = [], pvalue = ''true''\<rparr>])"
  by (subst path_loop.simps) (simp add: path_value_def res_bind_def)

lemma starts_prefix_of: "\<not> starts cs s f \<Longrightarrow> \<not> starts cs (take k s) f"
  by (induction cs s f arbitrary: k rule: starts.induct) (auto simp: take_Cons' split: if_splits)

lemma find_prefix: "find_str cs s f = None \<Longrightarrow> find_str cs (take k s) f = None"
proof (induction s arbitrary: k)
  case (Cons c s)
  then show ?case using starts_prefix_of [of cs "c # s" f k] by (cases k) (auto split: if_splits)
qed simp

text \<open>C37: a path that is longer than its buffer, and that begins a hierarchical name which does not end in it, is read
  past the end of the buffer.\<close>

theorem long_path_overread:
  assumes "whole_path getenv = app @ ''/_'' @ T" "find_str True T ''_/'' = None" "T \<noteq> []" "hd T \<noteq> CHR ''/''"
    and "length app + 3 < VV_MAX_PATH" "VV_MAX_PATH < length (whole_path getenv)"
  shows "read_path command app getenv req = Inl Out_of_bounds"
proof -
  obtain c s where T: "T = c # s" using assms(3) by (cases T) auto
  define k where "k = VV_MAX_PATH - 1 - length app - 2"
  obtain j where j: "k = Suc j" using assms(5) by (cases k) (auto simp: k_def)
  obtain U where U: "U = take k T" "cat U 0 \<noteq> CHR ''/''" using assms(4) by (simp add: T j)
  have p: "take (VV_MAX_PATH - 1) (whole_path getenv) = app @ ''/_'' @ U"
  proof -
    have "VV_MAX_PATH - 1 = length app + 2 + k" using assms(5) by (simp add: k_def)
    then show ?thesis by (simp add: U(1) assms(1))
  qed
  have n: "find_str True U ''_/'' = None" unfolding U(1) by (rule find_prefix [OF assms(2)])
  have len: "length (whole_path getenv) - length app - 1 > length (''/_'' @ U)"
    unfolding U(1) using assms(5,6) by (simp add: k_def)
  have "vely_decorate_path VV_MAX_REQ_NAME_LEN (''/_'' @ U) (length (whole_path getenv) - length app) True = Inl Out_of_bounds"
    using n len U(2) by (simp add: vely_decorate_path_def Let_def)
  then show ?thesis
    unfolding read_path_def Let_def p by (simp add: starts_prefix res_bind_def)
qed

theorem long_path_overread_witness:
  "read_path False ''/shop'' (\<lambda>v. if v = ''SCRIPT_NAME'' then ''/shop'' else ''/_'' @ replicate 2600 (CHR ''a'')) vely_init_input_req = Inl Out_of_bounds"
proof -
  have "find_str True (replicate n (CHR ''a'')) ''_/'' = None" for n by (induction n) (simp_all add: same_char_def)
  then show ?thesis by (intro long_path_overread [of _ _ "replicate 2600 (CHR ''a'')"]) (simp_all add: whole_path_def VV_MAX_PATH_def)
qed

end
