(* ===== verification/DbBase.thy ===== *)
theory DbBase
  imports SqlText
begin

text \<open>
  Database connections (vely.h, \<^verbatim>\<open>one_db\<close>, \<^verbatim>\<open>vely_db_connections\<close>): the state that the
  operations of db.c and of the drivers share, and what a driver offers.  A driver is a group of functions with the
  same names in lite.c, pg.c and mys.c; db.c chooses one by the type of the connection.
\<close>

definition VV_ON_ERROR_CONTINUE :: int where "VV_ON_ERROR_CONTINUE = 1"
definition VV_ON_ERROR_EXIT :: int where "VV_ON_ERROR_EXIT = 2"

section \<open>State\<close>

text \<open>\<open>dbc\<close> tells that the pointer to the connection is not null; what it points to is kept by the driver.\<close>

record one_db =
  dbc :: bool
  is_begin_transaction :: int
  num_inp :: int
  need_copy :: int
  has_connected :: int
  db_name :: string
  db_type :: int
  exit_on_error :: int

text \<open>The location of a statement and the list of prepared statements are static variables of db.c; a prepared statement
  is a place of the program, which holds a statement of the driver or null.  \<open>env\<close> is what the drivers and the servers
  keep.\<close>

record 'e dbs =
  conn :: "one_db list"
  ind_current_db :: int
  location :: "string \<times> int"
  allpreps :: "(nat \<times> int) list"
  prep_at :: "nat \<Rightarrow> nat option"
  env :: 'e

section \<open>Operations\<close>

text \<open>An operation has a result, or is left by a fault, which keeps the state; \<open>None\<close> is an operation that does not
  return.\<close>

type_synonym ('a, 'e) db_act = "'e dbs \<Rightarrow> ((fault \<times> 'e dbs) + ('a \<times> 'e dbs)) option"

definition db_bind :: "('a, 'e) db_act \<Rightarrow> ('a \<Rightarrow> ('b, 'e) db_act) \<Rightarrow> ('b, 'e) db_act" where
  "db_bind m f w =
     (case m w of None \<Rightarrow> None | Some (Inl e) \<Rightarrow> Some (Inl e) | Some (Inr (x, w')) \<Rightarrow> f x w')"

definition db_return :: "'a \<Rightarrow> ('a, 'e) db_act" where
  "db_return x w = Some (Inr (x, w))"

definition db_fault :: "fault \<Rightarrow> ('a, 'e) db_act" where
  "db_fault e w = Some (Inl (e, w))"

definition db_do :: "('e dbs \<Rightarrow> 'e dbs) \<Rightarrow> (unit, 'e) db_act" where
  "db_do g w = Some (Inr ((), g w))"

definition db_get :: "('e dbs \<Rightarrow> ('a, 'e) db_act) \<Rightarrow> ('a, 'e) db_act" where
  "db_get f w = f w w"

definition db_res :: "'a res \<Rightarrow> ('a, 'e) db_act" where
  "db_res r = (case r of Inl e \<Rightarrow> db_fault e | Inr x \<Rightarrow> db_return x)"

abbreviation db_report :: "string \<Rightarrow> ('a, 'e) db_act" where
  "db_report s \<equiv> db_fault (Report_error s)"

text \<open>The connection in use; the index is that of an array.\<close>

definition curr_ok :: "'e dbs \<Rightarrow> bool" where
  "curr_ok w \<longleftrightarrow> 0 \<le> ind_current_db w \<and> nat (ind_current_db w) < length (conn w)"

definition VV_CURR_DB :: "(one_db \<Rightarrow> ('a, 'e) db_act) \<Rightarrow> ('a, 'e) db_act" where
  "VV_CURR_DB f w = (if curr_ok w then f (conn w ! nat (ind_current_db w)) w else db_fault Out_of_bounds w)"

definition set_curr :: "(one_db \<Rightarrow> one_db) \<Rightarrow> (unit, 'e) db_act" where
  "set_curr g = VV_CURR_DB (\<lambda>c. db_do (\<lambda>w. w\<lparr>conn := (conn w)[nat (ind_current_db w) := g c]\<rparr>))"

section \<open>Drivers\<close>

text \<open>
  The functions of a driver.  The flag of a call is whether the statement is a prepared one; \<open>drv_rows\<close> has the
  fields of a row, as the memory they are in, and their lengths.  A function that a driver does not have does nothing
  there.
\<close>

record 'e driver =
  drv_connect :: "int \<Rightarrow> (bool, 'e) db_act"
  drv_close :: "(unit, 'e) db_act"
  drv_checkc :: "(int, 'e) db_act"
  drv_exec :: "string \<Rightarrow> int \<Rightarrow> bool \<Rightarrow> nat option \<Rightarrow> string list \<Rightarrow> (int, 'e) db_act"
  drv_error :: "string \<Rightarrow> bool \<Rightarrow> (string, 'e) db_act"
  drv_errm :: "string \<Rightarrow> string \<times> int \<Rightarrow> string \<Rightarrow> bool \<Rightarrow> (string, 'e) db_act"
  drv_affected :: "bool \<Rightarrow> (int, 'e) db_act"
  drv_store :: "bool \<Rightarrow> (int, 'e) db_act"
  drv_use :: "bool \<Rightarrow> (int, 'e) db_act"
  drv_nfield :: "(nat, 'e) db_act"
  drv_nrows :: "bool \<Rightarrow> (int, 'e) db_act"
  drv_fieldname :: "bool \<Rightarrow> nat \<Rightarrow> (string, 'e) db_act"
  drv_rows :: "bool \<Rightarrow> nat \<Rightarrow> nat \<Rightarrow> (int \<times> string option list \<times> nat list, 'e) db_act"
  drv_free :: "bool \<Rightarrow> (unit, 'e) db_act"
  drv_close_stmt :: "nat option \<Rightarrow> (unit, 'e) db_act"

definition with_driver :: "(int \<Rightarrow> 'e driver) \<Rightarrow> ('e driver \<Rightarrow> ('a, 'e) db_act) \<Rightarrow> ('a, 'e) db_act" where
  "with_driver drv f =
     VV_CURR_DB (\<lambda>c. if db_type c = VV_DB_POSTGRES \<or> db_type c = VV_DB_MARIADB \<or> db_type c = VV_DB_SQLITE
       then f (drv (db_type c)) else db_report ''Unknown database type [%lld]'')"

section \<open>What drivers use of db.c\<close>

text \<open>The end of a connection; the structure it is in is freed.  The function to close it depends on its type.\<close>

definition vely_end_connection :: "(int \<Rightarrow> (unit, 'e) db_act) \<Rightarrow> bool \<Rightarrow> (unit, 'e) db_act" where
  "vely_end_connection close close_db =
     VV_CURR_DB (\<lambda>c. if dbc c
       then db_bind
         (if close_db \<and> (db_type c = VV_DB_POSTGRES \<or> db_type c = VV_DB_MARIADB \<or> db_type c = VV_DB_SQLITE)
          then close (db_type c) else db_return ())
         (\<lambda>_. set_curr (\<lambda>c. c\<lparr>dbc := False, is_begin_transaction := 0\<rparr>))
       else db_return ())"

text \<open>Where a statement of the program is.\<close>

definition vely_location :: "(string \<times> int) option \<Rightarrow> (string \<times> int, 'e) db_act" where
  "vely_location set_to =
     (case set_to of
        Some l \<Rightarrow> db_bind (db_do (\<lambda>w. w\<lparr>location := l\<rparr>)) (\<lambda>_. db_return l)
      | None \<Rightarrow> db_get (\<lambda>w. db_return (location w)))"

text \<open>The list of prepared statements: those of the type of the connection are closed, or one is added.\<close>

fun reset_preps :: "(int \<Rightarrow> nat option \<Rightarrow> (unit, 'e) db_act) \<Rightarrow> int \<Rightarrow> (nat \<times> int) list \<Rightarrow> (unit, 'e) db_act" where
  "reset_preps close t [] = db_return ()"
| "reset_preps close t ((p, db) # ps) =
     db_bind
       (if db = t then
          (if t = VV_DB_POSTGRES \<or> t = VV_DB_MARIADB \<or> t = VV_DB_SQLITE
           then db_bind (db_get (\<lambda>w. close t (prep_at w p))) (\<lambda>_. db_do (\<lambda>w. w\<lparr>prep_at := (prep_at w)(p := None)\<rparr>))
           else db_report ''Unknown database type [%lld]'')
        else db_return ())
       (\<lambda>_. reset_preps close t ps)"

definition vely_db_prep :: "(int \<Rightarrow> nat option \<Rightarrow> (unit, 'e) db_act) \<Rightarrow> nat option \<Rightarrow> (unit, 'e) db_act" where
  "vely_db_prep close prep =
     VV_CURR_DB (\<lambda>c. case prep of
       None \<Rightarrow> db_get (\<lambda>w. reset_preps close (db_type c) (allpreps w))
     | Some p \<Rightarrow> db_do (\<lambda>w. w\<lparr>allpreps := allpreps w @ [(p, db_type c)]\<rparr>))"

section \<open>Numbers in texts\<close>

definition atol :: "string \<Rightarrow> int" where
  "atol s =
     (let t = dropWhile isspace s; neg = (t \<noteq> [] \<and> hd t = CHR ''-'');
          d = takeWhile isdigit (if t \<noteq> [] \<and> (hd t = CHR ''-'' \<or> hd t = CHR ''+'') then tl t else t);
          n = foldl (\<lambda>n c. 10 * n + (schar c - 48)) 0 d in
      if neg then - n else n)"

end
