(* ===== verification/Db.thy ===== *)
theory Db
  imports DbBase
begin

text \<open>
  Database operations (db.c): connections that are made when they are needed and made again when they were lost,
  transactions, statements and queries, and what is done about their errors.  \<open>drv\<close> is the driver for a type of
  connections.
\<close>

section \<open>Connections\<close>

text \<open>The result tells whether the pointer to the connection is not null.\<close>

definition vely_get_db_connection :: "(int \<Rightarrow> 'e driver) \<Rightarrow> int \<Rightarrow> (bool, 'e) db_act" where
  "vely_get_db_connection drv abort_if_bad =
     db_get (\<lambda>w. if ind_current_db w = -1 then db_report ''No active database in use, yet database operation attempted''
       else VV_CURR_DB (\<lambda>c.
         if dbc c then db_return True
         else if has_connected c = 1 \<and> is_begin_transaction c = 1 then db_report ''The connection to database has been lost''
         else db_bind (with_driver drv (\<lambda>d. drv_connect d abort_if_bad)) (\<lambda>connected.
           if \<not> connected then db_return False
           else db_bind (set_curr (\<lambda>c. c\<lparr>has_connected := 1, is_begin_transaction := 0\<rparr>)) (\<lambda>_.
             VV_CURR_DB (\<lambda>c. db_return (dbc c))))))"

definition vely_retry_db :: "(int \<Rightarrow> 'e driver) \<Rightarrow> (int, 'e) db_act" where
  "vely_retry_db drv =
     db_bind (vely_end_connection (\<lambda>t. drv_close (drv t)) True) (\<lambda>_.
       db_bind (vely_get_db_connection drv 1) (\<lambda>ok. db_return (if ok then 1 else 0)))"

section \<open>Errors\<close>

text \<open>The settings of a connection and of a statement.\<close>

definition error_exits :: "one_db \<Rightarrow> int \<Rightarrow> bool" where
  "error_exits c erract = (if exit_on_error c = 1 then erract \<noteq> VV_ON_ERROR_CONTINUE else erract = VV_ON_ERROR_EXIT)"

definition connlost_text :: string where
  "connlost_text = ''Database connection lost or cannot be (re)established''"

text \<open>Whether the connection was made again, the error code and its text.\<close>

definition vely_handle_error ::
  "(int \<Rightarrow> 'e driver) \<Rightarrow> string \<Rightarrow> bool \<Rightarrow> bool \<Rightarrow> int \<Rightarrow> (int \<times> string \<times> string, 'e) db_act" where
  "vely_handle_error drv s retry is_prep erract =
     db_bind (with_driver drv (\<lambda>d. drv_error d s is_prep)) (\<lambda>local_error.
     db_bind (with_driver drv drv_checkc) (\<lambda>up.
     db_bind (vely_location None) (\<lambda>loc.
       let finish = (\<lambda>er errm. VV_CURR_DB (\<lambda>c.
             if error_exits c erract then db_report ''Database operation failed: [%s], error code [%s]''
             else db_return (0, er, errm))) in
       if up \<noteq> 1 then
         db_bind (if retry then vely_retry_db drv else db_return 0) (\<lambda>again.
           if again = 1 then db_return (1, [], []) else finish ''-1'' connlost_text)
       else
         db_bind (with_driver drv (\<lambda>d. drv_errm d s loc local_error is_prep)) (\<lambda>errm. finish local_error errm))))"

section \<open>Statements\<close>

definition vely_arows :: "(int \<Rightarrow> 'e driver) \<Rightarrow> bool \<Rightarrow> (int, 'e) db_act" where
  "vely_arows drv is_prep = with_driver drv (\<lambda>d. drv_affected d is_prep)"

text \<open>The outcome of a statement: whether it is without error, the number of rows, the error code and its text.
  \<open>want\<close> tells that the number of rows is asked for.\<close>

record outcome =
  okay :: bool
  arows :: "int option"
  o_er :: string
  o_errm :: string

definition vely_execute_SQL ::
  "(int \<Rightarrow> 'e driver) \<Rightarrow> string \<Rightarrow> bool \<Rightarrow> int \<Rightarrow> bool \<Rightarrow> bool \<Rightarrow> nat option \<Rightarrow> string list \<Rightarrow> int
     \<Rightarrow> (outcome, 'e) db_act" where
  "vely_execute_SQL drv s want returns_tuple user_check is_prep prep params erract =
     (if s = [] then db_report ''Query cannot be empty, reading file [%s] at line [%lld]''
      else if user_check \<and> (vely_firstword ''BEGIN'' s \<or> vely_firstword ''START'' s \<or> vely_firstword ''COMMIT'' s
          \<or> vely_firstword ''ROLLBACK'' s)
      then db_report ''Use Vely begin-transaction, commit-transaction or rollback-transaction instead of direct database SQL''
      else
        db_bind (vely_get_db_connection drv 1) (\<lambda>con.
          let exec = with_driver drv (\<lambda>d. drv_exec d s returns_tuple is_prep prep params);
              failed = (\<lambda>(r, e, m). db_return \<lparr>okay = False, arows = (if want then Some 0 else None), o_er = e, o_errm = m\<rparr>);
              fine = (if want then db_bind (vely_arows drv is_prep) (\<lambda>n.
                        db_return \<lparr>okay = con, arows = Some n, o_er = ''0'', o_errm = []\<rparr>)
                      else db_return \<lparr>okay = con, arows = None, o_er = ''0'', o_errm = []\<rparr>) in
          db_bind exec (\<lambda>execres.
            if execres = 0 then fine
            else VV_CURR_DB (\<lambda>c.
              if is_begin_transaction c = 0 then
                db_bind (vely_handle_error drv s True is_prep erract) (\<lambda>(r, e, m).
                  if r = 0 then failed (r, e, m)
                  else db_bind exec (\<lambda>execres1.
                    if execres1 = 0 then fine
                    else db_bind (vely_handle_error drv s False is_prep erract) failed))
              else db_bind (vely_handle_error drv s False is_prep erract) failed))))"

section \<open>Transactions\<close>

text \<open>The status, and the error code and its text, which are not set where the status is 0.\<close>

type_synonym transaction_out = "int \<times> (string \<times> string) option"

definition vely_begin_transaction :: "(int \<Rightarrow> 'e driver) \<Rightarrow> string \<Rightarrow> int \<Rightarrow> (transaction_out, 'e) db_act" where
  "vely_begin_transaction drv t erract =
     VV_CURR_DB (\<lambda>c.
       db_bind (vely_execute_SQL drv (take 511 ((if db_type c = VV_DB_SQLITE then ''begin '' else ''start transaction '') @ t))
           True 0 False False None [] erract) (\<lambda>out.
         if \<not> okay out then db_bind (set_curr (\<lambda>c. c\<lparr>is_begin_transaction := 0\<rparr>)) (\<lambda>_. db_return (0, None))
         else db_bind (set_curr (\<lambda>c. c\<lparr>is_begin_transaction := 1\<rparr>)) (\<lambda>_. db_return (1, Some (o_er out, o_errm out)))))"

definition end_transaction :: "(int \<Rightarrow> 'e driver) \<Rightarrow> string \<Rightarrow> int \<Rightarrow> (transaction_out, 'e) db_act" where
  "end_transaction drv s erract =
     db_bind (set_curr (\<lambda>c. c\<lparr>is_begin_transaction := 0\<rparr>)) (\<lambda>_.
       db_bind (vely_execute_SQL drv (take 511 s) True 0 False False None [] erract) (\<lambda>out.
         if \<not> okay out then db_return (0, None) else db_return (1, Some (o_er out, o_errm out))))"

definition vely_commit :: "(int \<Rightarrow> 'e driver) \<Rightarrow> string \<Rightarrow> int \<Rightarrow> (transaction_out, 'e) db_act" where
  "vely_commit drv t erract = end_transaction drv (''commit '' @ t) erract"

definition vely_rollback :: "(int \<Rightarrow> 'e driver) \<Rightarrow> string \<Rightarrow> int \<Rightarrow> (transaction_out, 'e) db_act" where
  "vely_rollback drv t erract = end_transaction drv (''rollback '' @ t) erract"

text \<open>The loop over the connections, from the index \<open>i\<close>; the result is the last one that had a transaction.\<close>

fun check_loop :: "(int \<Rightarrow> 'e driver) \<Rightarrow> int \<Rightarrow> nat \<Rightarrow> nat \<Rightarrow> int \<Rightarrow> (int, 'e) db_act" where
  "check_loop drv savedb 0 i errdb = db_return errdb"
| "check_loop drv savedb (Suc n) i errdb =
     db_get (\<lambda>w. if is_begin_transaction (conn w ! i) = 1
       then db_bind (db_do (\<lambda>w. w\<lparr>ind_current_db := int i\<rparr>)) (\<lambda>_.
            db_bind (vely_rollback drv [] VV_OKAY) (\<lambda>_.
            db_bind (db_do (\<lambda>w. w\<lparr>ind_current_db := savedb\<rparr>)) (\<lambda>_. check_loop drv savedb n (i + 1) (int i))))
       else check_loop drv savedb n (i + 1) errdb)"

definition vely_check_transaction :: "(int \<Rightarrow> 'e driver) \<Rightarrow> int \<Rightarrow> (unit, 'e) db_act" where
  "vely_check_transaction drv check_mode =
     db_get (\<lambda>w. db_bind (check_loop drv (ind_current_db w) (length (conn w)) 0 (-1)) (\<lambda>errdb.
       if errdb \<noteq> -1 \<and> check_mode \<noteq> 1
       then db_report ''Started transaction database [%s], but was never committed or rollbacked''
       else db_return ()))"

fun end_loop :: "(int \<Rightarrow> 'e driver) \<Rightarrow> nat \<Rightarrow> nat \<Rightarrow> (unit, 'e) db_act" where
  "end_loop drv 0 i = db_return ()"
| "end_loop drv (Suc n) i =
     db_bind (db_do (\<lambda>w. w\<lparr>ind_current_db := int i\<rparr>)) (\<lambda>_.
     db_bind (vely_end_connection (\<lambda>t. drv_close (drv t)) True) (\<lambda>_. end_loop drv n (i + 1)))"

definition vely_end_all_db :: "(int \<Rightarrow> 'e driver) \<Rightarrow> (unit, 'e) db_act" where
  "vely_end_all_db drv = db_get (\<lambda>w. end_loop drv (length (conn w)) 0)"

section \<open>Queries\<close>

definition VV_INITIAL_QUERY_BATCH :: nat where "VV_INITIAL_QUERY_BATCH = 200"

text \<open>What a query gives.  A field of \<open>data\<close> is the memory it is in; \<open>None\<close> is one that was not set.\<close>

record selected =
  s_arow :: int
  s_nrow :: int
  s_ncol :: nat
  col_names :: "string list"
  sdata :: "string option list"
  dlen :: "nat option list"
  s_er :: string
  s_errm :: string

text \<open>A field of a row: with \<open>need_copy\<close> its bytes are copied, else it is already in memory of the program; a zero byte
  is put after it.\<close>

definition field_memory :: "int \<Rightarrow> string option \<Rightarrow> nat \<Rightarrow> string res" where
  "field_memory copy f n =
     (if copy = 1 then
        (let bytes = (case f of None \<Rightarrow> [NUL] | Some b \<Rightarrow> b) in
         if n \<le> length bytes then Inr (take n bytes @ [NUL]) else Inl Out_of_bounds)
      else (case f of None \<Rightarrow> Inl Out_of_bounds | Some b \<Rightarrow> memput b n [NUL]))"

fun store_fields :: "int \<Rightarrow> string option list \<Rightarrow> nat list \<Rightarrow> nat \<Rightarrow> nat \<Rightarrow> string option list \<times> nat option list
    \<Rightarrow> (string option list \<times> nat option list) res" where
  "store_fields copy row lens i 0 (dat, dl) = Inr (dat, dl)"
| "store_fields copy row lens cpos (Suc n) (dat, dl) =
     (case (row, lens) of
        (f # row1, l # lens1) \<Rightarrow>
          res_bind (field_memory copy f l) (\<lambda>b.
          res_bind (memput dat cpos [Some b]) (\<lambda>dat1.
          res_bind (memput dl cpos [Some l]) (\<lambda>dl1. store_fields copy row1 lens1 (cpos + 1) n (dat1, dl1))))
      | _ \<Rightarrow> Inl Out_of_bounds)"

text \<open>The rows from the index \<open>r\<close>; \<open>None\<close> is an error of the driver.\<close>

fun select_rows :: "(int \<Rightarrow> 'e driver) \<Rightarrow> bool \<Rightarrow> nat \<Rightarrow> nat \<Rightarrow> nat \<Rightarrow> nat \<Rightarrow> string option list \<times> nat option list
    \<Rightarrow> (bool \<times> string option list \<times> nat option list, 'e) db_act" where
  "select_rows drv is_prep num_fields batch 0 r (dat, dl) = db_return (True, dat, dl)"
| "select_rows drv is_prep num_fields batch (Suc n) r (dat, dl) =
     db_bind (with_driver drv (\<lambda>d. drv_rows d is_prep num_fields r)) (\<lambda>(st, row, lens).
       if st \<noteq> 0 then db_return (False, dat, dl)
       else
         (let grow = r \<ge> batch;
              batch1 = (if grow then batch + VV_INITIAL_QUERY_BATCH else batch);
              dat1 = (if grow then dat @ replicate (batch1 * num_fields - length dat) None else dat);
              dl1 = (if grow then dl @ replicate (batch1 * num_fields - length dl) None else dl) in
          VV_CURR_DB (\<lambda>c.
            db_bind (db_res (store_fields (need_copy c) row lens (r * num_fields) num_fields (dat1, dl1))) (\<lambda>d.
              select_rows drv is_prep num_fields batch1 n (r + 1) d))))"

fun select_names :: "(int \<Rightarrow> 'e driver) \<Rightarrow> bool \<Rightarrow> nat \<Rightarrow> nat \<Rightarrow> (string list, 'e) db_act" where
  "select_names drv is_prep 0 i = db_return []"
| "select_names drv is_prep (Suc n) i =
     db_bind (with_driver drv (\<lambda>d. drv_fieldname d is_prep i)) (\<lambda>f.
       db_bind (select_names drv is_prep n (i + 1)) (\<lambda>fs. db_return (f # fs)))"

text \<open>\<open>want_names\<close> and \<open>want_data\<close> tell that these are asked for; \<open>out\<close> is what the variables for the results hold
  before.\<close>

definition vely_select_table ::
  "(int \<Rightarrow> 'e driver) \<Rightarrow> string \<Rightarrow> bool \<Rightarrow> bool \<Rightarrow> bool \<Rightarrow> nat option \<Rightarrow> string list \<Rightarrow> int \<Rightarrow> selected
     \<Rightarrow> (selected, 'e) db_act" where
  "vely_select_table drv s want_names want_data is_prep prep params erract out =
     db_bind (vely_execute_SQL drv s False 1 True is_prep prep params erract) (\<lambda>res.
       let out1 = out\<lparr>s_er := o_er res, s_errm := o_errm res\<rparr>;
           failed = (\<lambda>o1. db_bind (vely_handle_error drv s False is_prep erract) (\<lambda>(r, e, m).
             db_return (o1\<lparr>s_er := e, s_errm := m\<rparr>))) in
       if \<not> okay res then db_return (out1\<lparr>s_nrow := 0\<rparr>)
       else
         db_bind (VV_CURR_DB (\<lambda>c. if db_type c = VV_DB_MARIADB
             then with_driver drv (\<lambda>d. if want_data then drv_store d is_prep else drv_use d is_prep)
             else db_return 0)) (\<lambda>got.
         if got \<noteq> 0 then failed out1
         else
           db_bind (with_driver drv drv_nfield) (\<lambda>num_fields.
           db_bind (vely_arows drv is_prep) (\<lambda>n.
           db_bind (if want_names then select_names drv is_prep num_fields 0 else db_return (col_names out)) (\<lambda>names.
             let out2 = out1\<lparr>s_arow := n, s_ncol := num_fields, col_names := names\<rparr> in
             if \<not> want_data then db_return (out2\<lparr>s_nrow := 0\<rparr>)
             else
               db_bind (with_driver drv (\<lambda>d. drv_nrows d is_prep)) (\<lambda>nrow.
               let cells = VV_INITIAL_QUERY_BATCH * num_fields in
               db_bind (select_rows drv is_prep num_fields VV_INITIAL_QUERY_BATCH (nat nrow) 0
                   (replicate cells None, replicate cells None)) (\<lambda>(good, dat, dl).
                 let out3 = out2\<lparr>s_nrow := nrow, sdata := dat, dlen := dl\<rparr> in
                 if good then db_return out3 else failed out3)))))))"

definition vely_db_free_result :: "(int \<Rightarrow> 'e driver) \<Rightarrow> bool \<Rightarrow> (unit, 'e) db_act" where
  "vely_db_free_result drv is_prep = with_driver drv (\<lambda>d. drv_free d is_prep)"

section \<open>Programs\<close>

text \<open>The statements of a program about databases, as the calls that are generated for them (v1.c).\<close>

datatype db_op =
    Use_db int
  | On_error bool
  | Located string int
  | Prepare nat
  | Begin string int
  | Commit string int
  | Rollback string int
  | Run string int bool "nat option" "string list" int
  | Query string bool bool "nat option" "string list" int

definition no_rows :: selected where
  "no_rows = \<lparr>s_arow = 0, s_nrow = 0, s_ncol = 0, col_names = [], sdata = [], dlen = [], s_er = [], s_errm = []\<rparr>"

definition db_ignore :: "('a, 'e) db_act \<Rightarrow> (unit, 'e) db_act" where
  "db_ignore m = db_bind m (\<lambda>_. db_return ())"

fun do_db :: "(int \<Rightarrow> 'e driver) \<Rightarrow> db_op \<Rightarrow> (unit, 'e) db_act" where
  "do_db drv (Use_db i) = db_do (\<lambda>w. w\<lparr>ind_current_db := i\<rparr>)"
| "do_db drv (On_error exit) = set_curr (\<lambda>c. c\<lparr>exit_on_error := (if exit then 1 else 0)\<rparr>)"
| "do_db drv (Located fname lnum) = db_ignore (vely_location (Some (fname, lnum)))"
| "do_db drv (Prepare p) = vely_db_prep (\<lambda>t. drv_close_stmt (drv t)) (Some p)"
| "do_db drv (Begin t erract) = db_ignore (vely_begin_transaction drv t erract)"
| "do_db drv (Commit t erract) = db_ignore (vely_commit drv t erract)"
| "do_db drv (Rollback t erract) = db_ignore (vely_rollback drv t erract)"
| "do_db drv (Run s returns_tuple is_prep prep params erract) =
     db_bind (vely_execute_SQL drv s True returns_tuple True is_prep prep params erract) (\<lambda>_. vely_db_free_result drv is_prep)"
| "do_db drv (Query s want_names is_prep prep params erract) =
     db_bind (vely_select_table drv s want_names True is_prep prep params erract no_rows) (\<lambda>_. vely_db_free_result drv is_prep)"

fun run_db :: "(int \<Rightarrow> 'e driver) \<Rightarrow> db_op list \<Rightarrow> (unit, 'e) db_act" where
  "run_db drv [] = db_return ()"
| "run_db drv (op # ops) = db_bind (do_db drv op) (\<lambda>_. run_db drv ops)"

text \<open>A request: after the program, or after the error it reports, open transactions are rolled back; the process ends if
  that reports an error again (velyrt.c, \<^verbatim>\<open>_vely_report_error\<close>).\<close>

datatype 'e process = Next "'e dbs" | Ended | Broken fault

definition db_request :: "(int \<Rightarrow> 'e driver) \<Rightarrow> db_op list \<Rightarrow> 'e dbs \<Rightarrow> 'e process option" where
  "db_request drv ops w =
     (case db_bind (run_db drv ops) (\<lambda>_. vely_check_transaction drv 0) w of
        None \<Rightarrow> None
      | Some (Inr (_, w1)) \<Rightarrow> Some (Next w1)
      | Some (Inl (Report_error m, w1)) \<Rightarrow>
          (case vely_check_transaction drv 1 w1 of
             None \<Rightarrow> None
           | Some (Inr (_, w2)) \<Rightarrow> Some (Next w2)
           | Some (Inl (Report_error m1, _)) \<Rightarrow> Some Ended
           | Some (Inl (f, _)) \<Rightarrow> Some (Broken f))
      | Some (Inl (f, _)) \<Rightarrow> Some (Broken f))"

fun db_requests :: "(int \<Rightarrow> 'e driver) \<Rightarrow> db_op list list \<Rightarrow> 'e dbs \<Rightarrow> 'e process option" where
  "db_requests drv [] w = Some (Next w)"
| "db_requests drv (ops # rest) w =
     (case db_request drv ops w of Some (Next w1) \<Rightarrow> db_requests drv rest w1 | r \<Rightarrow> r)"

text \<open>At the start of the process nothing is connected, and all errors end a request.\<close>

definition init_dbs :: "(string \<times> int) list \<Rightarrow> 'e \<Rightarrow> 'e dbs" where
  "init_dbs dbs e =
     \<lparr>conn = map (\<lambda>(name, t). \<lparr>dbc = False, is_begin_transaction = 0, num_inp = 0, need_copy = 0, has_connected = 0,
        db_name = name, db_type = t, exit_on_error = 1\<rparr>) dbs,
      ind_current_db = -1, location = ([], 0), allpreps = [], prep_at = (\<lambda>_. None), env = e\<rparr>"

end
