(* ===== verification/Contract.thy ===== *)
theory Contract
  imports Db
begin

text \<open>
  The contract between db.c and the drivers, as a locale, and what db.c keeps of the state under it: its operations
  never start a transaction on their own, and never go on in a new connection while one is open.
\<close>

section \<open>What operations keep\<close>

text \<open>\<open>P\<close> before, then \<open>Q\<close> for the result and the state after, or \<open>E\<close> if a fault left the operation.\<close>

definition hoare :: "('e dbs \<Rightarrow> bool) \<Rightarrow> ('a, 'e) db_act \<Rightarrow> ('a \<Rightarrow> 'e dbs \<Rightarrow> bool) \<Rightarrow> ('e dbs \<Rightarrow> bool) \<Rightarrow> bool" where
  "hoare P m Q E \<longleftrightarrow>
     (\<forall>w. P w \<longrightarrow> (case m w of None \<Rightarrow> True | Some (Inl (e, w')) \<Rightarrow> E w' | Some (Inr (x, w')) \<Rightarrow> Q x w'))"

abbreviation keeps :: "('e dbs \<Rightarrow> bool) \<Rightarrow> ('a, 'e) db_act \<Rightarrow> bool" where
  "keeps I m \<equiv> hoare I m (\<lambda>_. I) I"

lemma hoareI:
  "(\<And>w. P w \<Longrightarrow> case m w of None \<Rightarrow> True | Some (Inl (e, w')) \<Rightarrow> E w' | Some (Inr (x, w')) \<Rightarrow> Q x w') \<Longrightarrow> hoare P m Q E"
  by (simp add: hoare_def)

lemma hoareD:
  "hoare P m Q E \<Longrightarrow> P w \<Longrightarrow> m w = Some (Inr (x, w')) \<Longrightarrow> Q x w'"
  "hoare P m Q E \<Longrightarrow> P w \<Longrightarrow> m w = Some (Inl (f, w')) \<Longrightarrow> E w'"
  by (force simp: hoare_def)+

lemma hoare_weaken:
  "hoare P m Q E \<Longrightarrow> (\<And>w. P' w \<Longrightarrow> P w) \<Longrightarrow> (\<And>x w. Q x w \<Longrightarrow> Q' x w) \<Longrightarrow> (\<And>w. E w \<Longrightarrow> E' w) \<Longrightarrow> hoare P' m Q' E'"
  by (fastforce simp: hoare_def split: option.splits sum.splits)

lemma hoare_bind:
  "hoare P m R E \<Longrightarrow> (\<And>x. hoare (R x) (f x) Q E) \<Longrightarrow> hoare P (db_bind m f) Q E"
  by (fastforce simp: hoare_def db_bind_def split: option.splits sum.splits)

lemma hoare_return: "(\<And>w. P w \<Longrightarrow> Q x w) \<Longrightarrow> hoare P (db_return x) Q E"
  by (simp add: hoare_def db_return_def)

lemma hoare_fault: "(\<And>w. P w \<Longrightarrow> E w) \<Longrightarrow> hoare P (db_fault e) Q E"
  by (simp add: hoare_def db_fault_def)

lemma hoare_do: "(\<And>w. P w \<Longrightarrow> Q () (g w)) \<Longrightarrow> hoare P (db_do g) Q E"
  by (simp add: hoare_def db_do_def)

lemma hoare_get: "(\<And>s. hoare (\<lambda>w. P w \<and> w = s) (f s) Q E) \<Longrightarrow> hoare P (db_get f) Q E"
  by (simp add: hoare_def db_get_def)

lemma hoare_curr:
  "(\<And>c. hoare (\<lambda>w. P w \<and> curr_ok w \<and> c = conn w ! nat (ind_current_db w)) (f c) Q E) \<Longrightarrow> (\<And>w. P w \<Longrightarrow> E w)
    \<Longrightarrow> hoare P (VV_CURR_DB f) Q E"
  by (simp add: hoare_def VV_CURR_DB_def db_fault_def)

lemma hoare_set_curr:
  "(\<And>w. P w \<Longrightarrow> curr_ok w \<Longrightarrow> Q () (w\<lparr>conn := (conn w)[nat (ind_current_db w) := g (conn w ! nat (ind_current_db w))]\<rparr>))
    \<Longrightarrow> (\<And>w. P w \<Longrightarrow> E w) \<Longrightarrow> hoare P (set_curr g) Q E"
  by (simp add: hoare_def set_curr_def VV_CURR_DB_def db_do_def db_fault_def)

named_theorems keeping \<open>operations that keep a condition on the state\<close>

lemma keeps_basic [keeping]:
  "keeps I (db_return x)" "keeps I (db_fault e)" "keeps I (db_res r)"
  by (auto simp: hoare_def db_return_def db_fault_def db_res_def split: sum.splits)

lemma keeps_bind [keeping]: "keeps I m \<Longrightarrow> (\<And>x. keeps I (f x)) \<Longrightarrow> keeps I (db_bind m f)"
  by (rule hoare_bind)

lemma keeps_get [keeping]: "(\<And>s. keeps I (f s)) \<Longrightarrow> keeps I (db_get f)"
  by (simp add: hoare_def db_get_def)

lemma keeps_curr [keeping]: "(\<And>c. keeps I (f c)) \<Longrightarrow> keeps I (VV_CURR_DB f)"
  by (simp add: hoare_def VV_CURR_DB_def db_fault_def)

lemma keeps_if [keeping]: "(b \<Longrightarrow> hoare P m Q E) \<Longrightarrow> (\<not> b \<Longrightarrow> hoare P n Q E) \<Longrightarrow> hoare P (if b then m else n) Q E"
  by simp

lemma keeps_pair [keeping]: "(\<And>a b. hoare P (f a b) Q E) \<Longrightarrow> hoare P (case p of (a, b) \<Rightarrow> f a b) Q E"
  by (simp split: prod.split)

lemma keeps_option [keeping]:
  "hoare P m Q E \<Longrightarrow> (\<And>x. hoare P (f x) Q E) \<Longrightarrow> hoare P (case p of None \<Rightarrow> m | Some x \<Rightarrow> f x) Q E"
  by (simp split: option.split)

lemma keeps_with [keeping]: "(\<And>t. keeps I (f (drv t))) \<Longrightarrow> keeps I (with_driver drv f)"
  unfolding with_driver_def by (intro keeping)

lemma keeps_location [keeping]: "(\<And>w l. I w \<Longrightarrow> I (w\<lparr>location := l\<rparr>)) \<Longrightarrow> keeps I (vely_location l)"
  by (auto simp: hoare_def vely_location_def db_bind_def db_do_def db_get_def db_return_def split: option.split)

section \<open>The contract\<close>

text \<open>What a driver may do to a connection; nothing but the number of arguments and how rows are taken.\<close>

definition stable :: "one_db \<Rightarrow> one_db \<Rightarrow> bool" where
  "stable c c' \<longleftrightarrow> (\<exists>n k. c' = c\<lparr>num_inp := n, need_copy := k\<rparr>)"

definition same_conns :: "'e dbs \<Rightarrow> 'e dbs \<Rightarrow> bool" where
  "same_conns w w' \<longleftrightarrow> list_all2 stable (conn w) (conn w') \<and> ind_current_db w' = ind_current_db w"

definition quiet :: "('a, 'e) db_act \<Rightarrow> bool" where
  "quiet m \<longleftrightarrow> (\<forall>w0. keeps (same_conns w0) m)"

text \<open>Connecting may also set the pointer to the connection, and end a transaction; in another connection it may change
  nothing.\<close>

definition connects :: "'e dbs \<Rightarrow> 'e dbs \<Rightarrow> bool" where
  "connects w w' \<longleftrightarrow>
     (\<exists>b f. f \<in> {is_begin_transaction (conn w ! nat (ind_current_db w)), 0} \<and>
        same_conns (w\<lparr>conn := (conn w)[nat (ind_current_db w) :=
          (conn w ! nat (ind_current_db w))\<lparr>dbc := b, is_begin_transaction := f\<rparr>]\<rparr>) w')"

abbreviation cur :: "'e dbs \<Rightarrow> one_db" where
  "cur w \<equiv> conn w ! nat (ind_current_db w)"

locale database =
  fixes drv :: "int \<Rightarrow> 'e driver"
  assumes connect: "hoare (\<lambda>w. w = w0 \<and> curr_ok w) (drv_connect (drv t) a)
      (\<lambda>ok w. connects w0 w \<and> (ok \<longrightarrow> dbc (cur w))) (connects w0)"
    and close: "quiet (drv_close (drv t))"
    and checkc: "quiet (drv_checkc (drv t))"
    and exec: "quiet (drv_exec (drv t) s n p pr ps)"
    and error: "quiet (drv_error (drv t) s p)"
    and errm: "quiet (drv_errm (drv t) s l er p)"
    and affected: "quiet (drv_affected (drv t) p)"
    and store: "quiet (drv_store (drv t) p)"
    and use_result: "quiet (drv_use (drv t) p)"
    and nfield: "quiet (drv_nfield (drv t))"
    and nrows: "quiet (drv_nrows (drv t) p)"
    and fieldname: "quiet (drv_fieldname (drv t) p i)"
    and rows: "quiet (drv_rows (drv t) p k r)"
    and free: "quiet (drv_free (drv t) p)"
    and close_stmt: "quiet (drv_close_stmt (drv t) st)"

text \<open>A condition that everything but connecting and closing keeps.\<close>

definition driver_keeps :: "(int \<Rightarrow> 'e driver) \<Rightarrow> ('e dbs \<Rightarrow> bool) \<Rightarrow> bool" where
  "driver_keeps drv I \<longleftrightarrow> (\<forall>t. keeps I (drv_checkc (drv t)) \<and> (\<forall>s n p pr ps. keeps I (drv_exec (drv t) s n p pr ps))
     \<and> (\<forall>s p. keeps I (drv_error (drv t) s p)) \<and> (\<forall>s l er p. keeps I (drv_errm (drv t) s l er p))
     \<and> (\<forall>p. keeps I (drv_affected (drv t) p)) \<and> (\<forall>p. keeps I (drv_store (drv t) p)) \<and> (\<forall>p. keeps I (drv_use (drv t) p))
     \<and> keeps I (drv_nfield (drv t)) \<and> (\<forall>p. keeps I (drv_nrows (drv t) p)) \<and> (\<forall>p i. keeps I (drv_fieldname (drv t) p i))
     \<and> (\<forall>p k r. keeps I (drv_rows (drv t) p k r)) \<and> (\<forall>p. keeps I (drv_free (drv t) p)))
     \<and> (\<forall>w l. I w \<longrightarrow> I (w\<lparr>location := l\<rparr>))"

lemma driver_keepsD [keeping]:
  assumes "driver_keeps drv I"
  shows "keeps I (drv_checkc (drv t))" "keeps I (drv_exec (drv t) s n p pr ps)" "keeps I (drv_error (drv t) s p)"
    "keeps I (drv_errm (drv t) s l er p)" "keeps I (drv_affected (drv t) p)" "keeps I (drv_store (drv t) p)"
    "keeps I (drv_use (drv t) p)" "keeps I (drv_nfield (drv t))" "keeps I (drv_nrows (drv t) p)"
    "keeps I (drv_fieldname (drv t) p i)" "keeps I (drv_rows (drv t) p k r)" "keeps I (drv_free (drv t) p)"
    "keeps I (vely_location loc)"
  using assms by (simp_all add: driver_keeps_def keeps_location del: split_paired_All)

text \<open>A statement keeps what the driver keeps, if making the connection keeps it and, unless a transaction is open,
  making it again does.\<close>

lemma handle_error_keeps:
  assumes "driver_keeps drv I" "\<not> retry \<or> keeps I (vely_retry_db drv)"
  shows "keeps I (vely_handle_error drv s retry is_prep erract)"
  unfolding vely_handle_error_def Let_def using assms by (auto intro!: keeping)

definition reconnects_ok :: "(int \<Rightarrow> 'e driver) \<Rightarrow> ('e dbs \<Rightarrow> bool) \<Rightarrow> bool" where
  "reconnects_ok drv I \<longleftrightarrow> driver_keeps drv I \<and> keeps I (vely_get_db_connection drv 1)
     \<and> (keeps I (vely_retry_db drv) \<or> (\<forall>w. I w \<longrightarrow> is_begin_transaction (cur w) \<noteq> 0))"

lemma execute_keeps [keeping]:
  fixes I :: "'e dbs \<Rightarrow> bool"
  assumes "reconnects_ok drv I"
  shows "keeps I (vely_execute_SQL drv s want returns_tuple user_check is_prep prep params erract)"
proof -
  have d: "driver_keeps drv I" and g: "keeps I (vely_get_db_connection drv 1)"
    and r: "keeps I (vely_retry_db drv) \<or> (\<forall>w. I w \<longrightarrow> is_begin_transaction (cur w) \<noteq> 0)"
    using assms by (simp_all add: reconnects_ok_def)
  note h = handle_error_keeps [OF d]
  have e: "keeps I (with_driver drv (\<lambda>d. drv_exec d s returns_tuple is_prep prep params))" by (intro keeping d)
  have fine: "keeps I (if want then db_bind (vely_arows drv is_prep) f else db_return y)"
    if "\<And>n. keeps I (f n)" for f :: "int \<Rightarrow> (outcome, 'e) db_act" and y
    unfolding vely_arows_def by (intro keeping d that)
  have failed: "keeps I (db_bind (vely_handle_error drv s False is_prep erract) f)"
    if "\<And>x. keeps I (f x)" for f :: "int \<times> string \<times> string \<Rightarrow> (outcome, 'e) db_act"
    by (intro keeps_bind h that) simp
  show ?thesis
    using r
  proof
    assume "keeps I (vely_retry_db drv)"
    then have "keeps I (vely_handle_error drv s True is_prep erract)" by (intro h) simp
    then show ?thesis
      unfolding vely_execute_SQL_def Let_def
      by (intro keeps_if keeps_basic keeps_bind [OF g] keeps_bind [OF e] fine failed keeps_curr keeps_bind keeps_pair | assumption)+
  next
    assume no: "\<forall>w. I w \<longrightarrow> is_begin_transaction (cur w) \<noteq> 0"
    have curr: "keeps I (VV_CURR_DB (\<lambda>c. if is_begin_transaction c = 0 then m c else n c))"
      if "\<And>c. keeps I (n c)" for m n :: "one_db \<Rightarrow> (outcome, 'e) db_act"
      using that no by (auto simp: hoare_def VV_CURR_DB_def db_fault_def)
    show ?thesis
      unfolding vely_execute_SQL_def Let_def
      by (intro keeps_if keeps_basic keeps_bind [OF g] keeps_bind [OF e] fine failed curr keeps_pair)
  qed
qed

lemma select_names_keeps [keeping]: "driver_keeps drv I \<Longrightarrow> keeps I (select_names drv p n i)"
  by (induction n arbitrary: i) (auto intro!: keeping)

lemma select_rows_keeps [keeping]: "driver_keeps drv I \<Longrightarrow> keeps I (select_rows drv p k b n r (d, l))"
  by (induction n arbitrary: b r d l) (auto simp: Let_def intro!: keeping split: prod.split)

lemma select_keeps [keeping]:
  assumes "reconnects_ok drv I"
  shows "keeps I (vely_select_table drv s want_names want_data is_prep prep params erract out)"
proof -
  have d: "driver_keeps drv I" using assms by (simp add: reconnects_ok_def)
  show ?thesis
    unfolding vely_select_table_def Let_def vely_arows_def
    by (intro keeping d assms handle_error_keeps) simp_all
qed


section \<open>Conditions on the connections\<close>

text \<open>A condition that does not depend on what drivers change, and one that lost and made connections keep as well.\<close>

definition closed :: "('e dbs \<Rightarrow> bool) \<Rightarrow> bool" where
  "closed I \<longleftrightarrow> (\<forall>w w'. I w \<and> same_conns w w' \<longrightarrow> I w')"

definition with_cur :: "(one_db \<Rightarrow> one_db) \<Rightarrow> 'e dbs \<Rightarrow> 'e dbs" where
  "with_cur g w = w\<lparr>conn := (conn w)[nat (ind_current_db w) := g (cur w)]\<rparr>"

definition resettable :: "('e dbs \<Rightarrow> bool) \<Rightarrow> bool" where
  "resettable I \<longleftrightarrow> closed I
     \<and> (\<forall>w b f. I w \<and> curr_ok w \<and> \<not> dbc (cur w) \<and> f \<in> {is_begin_transaction (cur w), 0}
          \<longrightarrow> I (with_cur (\<lambda>c. c\<lparr>dbc := b, is_begin_transaction := f\<rparr>) w))
     \<and> (\<forall>w. I w \<and> curr_ok w \<longrightarrow> I (with_cur (\<lambda>c. c\<lparr>has_connected := 1, is_begin_transaction := 0\<rparr>) w)
          \<and> I (with_cur (\<lambda>c. c\<lparr>dbc := False, is_begin_transaction := 0\<rparr>) w))"

lemma stableI [intro]: "stable c c" "stable c (c\<lparr>num_inp := n\<rparr>)" "stable c (c\<lparr>need_copy := k\<rparr>)"
  unfolding stable_def by (rule exI [of _ "num_inp c"], rule exI [of _ "need_copy c"], simp)
    (rule exI [of _ n], rule exI [of _ "need_copy c"], simp, rule exI [of _ "num_inp c"], rule exI [of _ k], simp)

lemma stable_refl [simp]: "stable c c"
  by (rule stableI)

lemma stable_iff:
  "stable c c' \<longleftrightarrow> dbc c' = dbc c \<and> is_begin_transaction c' = is_begin_transaction c \<and> has_connected c' = has_connected c
     \<and> db_name c' = db_name c \<and> db_type c' = db_type c \<and> exit_on_error c' = exit_on_error c"
  by (cases c; cases c') (auto simp: stable_def)

lemma stable_trans: "stable c c' \<Longrightarrow> stable c' c'' \<Longrightarrow> stable c c''"
  unfolding stable_def by (elim exE, rule exI, rule exI, simp)

lemma stableD:
  assumes "stable c c'"
  shows "dbc c' = dbc c" "is_begin_transaction c' = is_begin_transaction c" "has_connected c' = has_connected c"
    "db_name c' = db_name c" "db_type c' = db_type c" "exit_on_error c' = exit_on_error c"
  using assms by (auto simp: stable_def)

lemma all_stable [simp]: "list_all2 stable cs cs"
  by (simp add: list_all2_refl)

lemma same_conns_refl [simp]: "same_conns w w"
  by (simp add: same_conns_def)

lemma same_conns_trans: "same_conns w w' \<Longrightarrow> same_conns w' w'' \<Longrightarrow> same_conns w w''"
  unfolding same_conns_def by (auto intro: list_all2_trans [of stable stable stable, OF stable_trans])

lemma same_conns_cur:
  assumes "same_conns w w'" "curr_ok w"
  shows "curr_ok w'" "stable (cur w) (cur w')" "ind_current_db w' = ind_current_db w"
  using assms by (auto simp: same_conns_def curr_ok_def list_all2_lengthD list_all2_nthD)

lemma with_cur_simps [simp]:
  "curr_ok (with_cur g w) = curr_ok w" "ind_current_db (with_cur g w) = ind_current_db w"
  "curr_ok w \<Longrightarrow> conn (with_cur g w) ! nat (ind_current_db w) = g (cur w)" "env (with_cur g w) = env w"
  by (simp_all add: with_cur_def curr_ok_def)

lemma set_curr_with: "set_curr g w = (if curr_ok w then Some (Inr ((), with_cur g w)) else Some (Inl (Out_of_bounds, w)))"
  by (simp add: set_curr_def VV_CURR_DB_def db_do_def db_fault_def with_cur_def)

lemma closedD: "closed I \<Longrightarrow> I w \<Longrightarrow> same_conns w w' \<Longrightarrow> I w'"
  by (auto simp: closed_def)

lemma quiet_keeps: "quiet m \<Longrightarrow> closed I \<Longrightarrow> keeps I m"
proof (rule hoareI)
  fix w assume q: "quiet m" "closed I" "I w"
  have "keeps (same_conns w) m" using q(1) by (simp add: quiet_def)
  then show "case m w of None \<Rightarrow> True | Some (Inl (e, w')) \<Rightarrow> I w' | Some (Inr (x, w')) \<Rightarrow> I w'"
    using closedD [OF q(2,3)] hoareD [of "same_conns w" m "\<lambda>_. same_conns w" "same_conns w" w]
    by (simp split: option.split sum.split)
qed

lemma closed_location: "closed I \<Longrightarrow> I w \<Longrightarrow> I (w\<lparr>location := l\<rparr>)"
  using closedD [of I w "w\<lparr>location := l\<rparr>"] by (simp add: same_conns_def)

lemma hoare_conj:
  "hoare P m Q E \<Longrightarrow> hoare P' m Q' E' \<Longrightarrow> hoare (\<lambda>w. P w \<and> P' w) m (\<lambda>x w. Q x w \<and> Q' x w) (\<lambda>w. E w \<and> E' w)"
proof (rule hoareI)
  fix w assume h: "hoare P m Q E" "hoare P' m Q' E'" "P w \<and> P' w"
  note d = hoareD [OF h(1)] hoareD [OF h(2)]
  show "case m w of None \<Rightarrow> True | Some (Inl (e, w)) \<Rightarrow> E w \<and> E' w | Some (Inr (x, w)) \<Rightarrow> Q x w \<and> Q' x w"
    using h(3) by (auto split: option.splits sum.splits dest: d)
qed

text \<open>Quiet operations: those of which a driver is made.\<close>

named_theorems quiets \<open>operations of drivers that leave connections as they are\<close>

lemma quiet_basic [quiets]:
  "quiet (db_return x)" "quiet (db_fault e)" "quiet (db_res r)" "quiet (\<lambda>_. None)"
  by (simp_all add: quiet_def keeping) (simp add: hoare_def)

lemma quiet_bind [quiets]: "quiet m \<Longrightarrow> (\<And>x. quiet (f x)) \<Longrightarrow> quiet (db_bind m f)"
  and quiet_do: "(\<And>w. same_conns w (g w)) \<Longrightarrow> quiet (db_do g)"
  by (auto simp: quiet_def intro: keeping hoare_do same_conns_trans)

lemma quiet_get [quiets]: "(\<And>s. quiet (f s)) \<Longrightarrow> quiet (db_get f)"
  by (auto simp: quiet_def intro: keeping)

lemma quiet_curr [quiets]: "(\<And>c. quiet (f c)) \<Longrightarrow> quiet (VV_CURR_DB f)"
  by (auto simp: quiet_def intro: keeping)

lemma quiet_cases [quiets]:
  "quiet m \<Longrightarrow> quiet n \<Longrightarrow> quiet (if b then m else n)"
  "quiet m \<Longrightarrow> (\<And>x. quiet (f x)) \<Longrightarrow> quiet (case p of None \<Rightarrow> m | Some x \<Rightarrow> f x)"
  "(\<And>x y. quiet (h x y)) \<Longrightarrow> quiet (case q of (x, y) \<Rightarrow> h x y)"
  "(\<And>x. quiet (k x)) \<Longrightarrow> (\<And>y. quiet (l y)) \<Longrightarrow> quiet (case r of Inl x \<Rightarrow> k x | Inr y \<Rightarrow> l y)"
  by (auto split: option.split prod.split sum.split)

lemma quiet_env [quiets]: "quiet (db_do (\<lambda>w. w\<lparr>env := g w\<rparr>))" "quiet (db_do (\<lambda>w. w\<lparr>prep_at := h w\<rparr>))"
  by (rule quiet_do, simp add: same_conns_def)+

lemma same_conns_with_cur: "same_conns w0 w \<Longrightarrow> (\<And>c. stable c (g c)) \<Longrightarrow> curr_ok w \<Longrightarrow> same_conns w0 (with_cur g w)"
  by (rule same_conns_trans, assumption) (auto simp: same_conns_def with_cur_def curr_ok_def list_all2_conv_all_nth nth_list_update)

lemma quiet_set_curr [quiets]:
  "quiet (set_curr (\<lambda>c. c\<lparr>need_copy := k\<rparr>))" "quiet (set_curr (\<lambda>c. c\<lparr>num_inp := n\<rparr>))"
  by (auto simp: quiet_def hoare_def set_curr_with intro: same_conns_with_cur)

context database
begin

lemma driver_closed: "closed I \<Longrightarrow> driver_keeps drv I"
  unfolding driver_keeps_def
  by (intro conjI allI impI;
      (rule quiet_keeps, rule checkc exec error errm affected store use_result nfield nrows fieldname rows free, assumption
        | rule closed_location, assumption, assumption))

text \<open>Connecting, where a connection is needed.\<close>

lemma connect_at:
  assumes "drv_connect (drv t) a w = Some out" "curr_ok w"
  shows "connects w (case out of Inl (e, w') \<Rightarrow> w' | Inr (x, w') \<Rightarrow> w')"
    "out = Inr (True, w') \<Longrightarrow> dbc (cur w')"
  using connect [of w t a] assms by (auto simp: hoare_def split: sum.splits)

lemma end_connection_keeps:
  assumes "resettable I"
  shows "keeps I (vely_end_connection (\<lambda>t. drv_close (drv t)) b)"
proof -
  have "keeps I (set_curr (\<lambda>c. c\<lparr>dbc := False, is_begin_transaction := 0\<rparr>))"
    using assms by (simp add: hoare_def set_curr_with resettable_def)
  moreover have "keeps I (drv_close (drv t))" for t using quiet_keeps [OF close] assms by (simp add: resettable_def)
  ultimately show ?thesis unfolding vely_end_connection_def by (intro keeping)
qed

lemma get_connection_keeps:
  assumes "resettable I"
  shows "keeps I (vely_get_db_connection drv a)"
proof -
  have closed: "closed I" using assms by (simp add: resettable_def)
  have con: "hoare (\<lambda>w. I w \<and> curr_ok w \<and> \<not> dbc (cur w)) (drv_connect (drv t) a) (\<lambda>_. I) I" for t
  proof (rule hoareI)
    fix w assume w: "I w \<and> curr_ok w \<and> \<not> dbc (cur w)"
    show "case drv_connect (drv t) a w of None \<Rightarrow> True | Some (Inl (e, w')) \<Rightarrow> I w' | Some (Inr (x, w')) \<Rightarrow> I w'"
    proof (cases "drv_connect (drv t) a w")
      case (Some out)
      obtain b f where f: "f \<in> {is_begin_transaction (cur w), 0}"
        "same_conns (with_cur (\<lambda>c. c\<lparr>dbc := b, is_begin_transaction := f\<rparr>) w)
           (case out of Inl (e, w') \<Rightarrow> w' | Inr (x, w') \<Rightarrow> w')"
        using connect_at(1) [OF Some] w by (auto simp: connects_def with_cur_def)
      have "I (with_cur (\<lambda>c. c\<lparr>dbc := b, is_begin_transaction := f\<rparr>) w)"
        using assms w f(1) by (simp add: resettable_def)
      then show ?thesis using closedD [OF closed _ f(2)] Some by (auto split: sum.splits)
    qed simp
  qed
  have set: "keeps I (set_curr (\<lambda>c. c\<lparr>has_connected := 1, is_begin_transaction := 0\<rparr>))"
    using assms by (simp add: hoare_def set_curr_with resettable_def)
  have "hoare (\<lambda>w. I w \<and> curr_ok w \<and> \<not> dbc (cur w)) (with_driver drv (\<lambda>d. drv_connect d a)) (\<lambda>_. I) I"
    unfolding with_driver_def
    by (rule hoare_curr, rule keeps_if) (auto intro: hoare_weaken [OF con] hoare_fault)
  then show ?thesis
    unfolding vely_get_db_connection_def
    by (intro keeps_get keeps_if keeps_basic hoare_curr hoare_return hoare_fault hoare_bind [where R = "\<lambda>_. I"])
      (auto intro!: keeping set elim: hoare_weaken)
qed

lemma resettable_reconnects: "resettable I \<Longrightarrow> reconnects_ok drv I"
  unfolding reconnects_ok_def vely_retry_db_def
  by (auto intro!: keeping end_connection_keeps get_connection_keeps driver_closed simp: resettable_def [of I])

lemmas resettable_keeps [keeping] = execute_keeps [OF resettable_reconnects] select_keeps [OF resettable_reconnects]

end

section \<open>Connecting\<close>

lemma connects_same: "connects w0 w \<Longrightarrow> same_conns w w' \<Longrightarrow> connects w0 w'"
  unfolding connects_def by (blast intro: same_conns_trans)

lemma connects_start: "curr_ok w \<Longrightarrow> connects w w"
  unfolding connects_def by (rule exI [of _ "dbc (cur w)"], rule exI [of _ "is_begin_transaction (cur w)"]) simp

lemma same_conns_both:
  "same_conns w w' \<Longrightarrow> curr_ok w \<Longrightarrow> (\<And>c c'. stable c c' \<Longrightarrow> stable (g c) (g c')) \<Longrightarrow> same_conns (with_cur g w) (with_cur g w')"
  by (auto simp: same_conns_def with_cur_def curr_ok_def list_all2_conv_all_nth nth_list_update)

lemma connects_with_cur:
  assumes "connects w0 w" "curr_ok w0"
  shows "connects w0 (with_cur (\<lambda>c. c\<lparr>dbc := b\<rparr>) w)" "connects w0 (with_cur (\<lambda>c. c\<lparr>dbc := b, is_begin_transaction := 0\<rparr>) w)"
proof -
  obtain b0 f where f: "f \<in> {is_begin_transaction (cur w0), 0}"
    "same_conns (with_cur (\<lambda>c. c\<lparr>dbc := b0, is_begin_transaction := f\<rparr>) w0) w"
    using assms(1) by (auto simp: connects_def with_cur_def)
  have both: "same_conns (with_cur g (with_cur (\<lambda>c. c\<lparr>dbc := b0, is_begin_transaction := f\<rparr>) w0)) (with_cur g w)"
    if "\<And>c c'. stable c c' \<Longrightarrow> stable (g c) (g c')" for g
    using assms(2) by (intro same_conns_both [OF f(2)] that) simp_all
  have again: "with_cur g (with_cur h w0) = with_cur (\<lambda>c. g (h c)) w0" for g h
    using assms(2) by (simp add: with_cur_def curr_ok_def)
  have "(\<lambda>c. c\<lparr>dbc := b0, is_begin_transaction := f, dbc := b\<rparr>) = (\<lambda>c::one_db. c\<lparr>dbc := b, is_begin_transaction := f\<rparr>)"
    "(\<lambda>c. c\<lparr>dbc := b0, is_begin_transaction := f, dbc := b, is_begin_transaction := 0\<rparr>)
       = (\<lambda>c::one_db. c\<lparr>dbc := b, is_begin_transaction := 0\<rparr>)" by (rule ext, simp)+
  note same = again [of "\<lambda>c. c\<lparr>dbc := b\<rparr>" "\<lambda>c. c\<lparr>dbc := b0, is_begin_transaction := f\<rparr>", unfolded this]
    again [of "\<lambda>c. c\<lparr>dbc := b, is_begin_transaction := 0\<rparr>" "\<lambda>c. c\<lparr>dbc := b0, is_begin_transaction := f\<rparr>", unfolded this]
  have "same_conns (with_cur (\<lambda>c. c\<lparr>dbc := b, is_begin_transaction := f\<rparr>) w0) (with_cur (\<lambda>c. c\<lparr>dbc := b\<rparr>) w)"
    by (rule both [of "\<lambda>c. c\<lparr>dbc := b\<rparr>", unfolded same]) (simp add: stable_iff)
  moreover have "same_conns (with_cur (\<lambda>c. c\<lparr>dbc := b, is_begin_transaction := 0\<rparr>) w0)
      (with_cur (\<lambda>c. c\<lparr>dbc := b, is_begin_transaction := 0\<rparr>) w)"
    by (rule both [of "\<lambda>c. c\<lparr>dbc := b, is_begin_transaction := 0\<rparr>", unfolded same]) (simp add: stable_iff)
  ultimately show "connects w0 (with_cur (\<lambda>c. c\<lparr>dbc := b\<rparr>) w)"
    "connects w0 (with_cur (\<lambda>c. c\<lparr>dbc := b, is_begin_transaction := 0\<rparr>) w)"
    using f(1) unfolding connects_def with_cur_def by blast+
qed

text \<open>While a driver connects; then also with the structure for the connection.\<close>

definition connecting :: "'e dbs \<Rightarrow> 'e dbs \<Rightarrow> bool" where
  "connecting w0 w \<longleftrightarrow> connects w0 w \<and> curr_ok w \<and> curr_ok w0"

lemma connecting_closed: "closed (connecting w0)" "closed (\<lambda>w. connecting w0 w \<and> dbc (cur w))"
  by (auto simp: closed_def connecting_def stableD intro: connects_same dest: same_conns_cur)

lemma connecting_set:
  "hoare (connecting w0) (set_curr (\<lambda>c. c\<lparr>dbc := True\<rparr>)) (\<lambda>_ w. connecting w0 w \<and> dbc (cur w)) (connecting w0)"
  "keeps (connecting w0) (vely_end_connection close False)"
  by (auto simp: hoare_def set_curr_with connecting_def vely_end_connection_def VV_CURR_DB_def db_bind_def db_return_def connects_with_cur)

text \<open>Resetting prepared statements changes no connection.\<close>

lemma quiet_reset_preps: "(\<And>st. quiet (close t st)) \<Longrightarrow> quiet (reset_preps close t ps)"
  by (induction ps) (auto intro!: quiets)

text \<open>The parts of a function that connects.\<close>

lemma connecting_start:
  assumes "quiet m" "\<And>x. hoare (connecting w0) (f x) Q (connects w0)"
  shows "hoare (\<lambda>w. w = w0 \<and> curr_ok w) (db_bind m f) Q (connects w0)"
  by (rule hoare_bind [where R = "\<lambda>_. connecting w0"], rule hoare_weaken [OF quiet_keeps [OF assms(1) connecting_closed(1)]])
    (auto simp: connecting_def connects_start intro: assms(2))

lemma connecting_step:
  assumes "quiet m" "\<And>w. P w \<Longrightarrow> connecting w0 w \<and> dbc (cur w)"
  shows "hoare P m (\<lambda>_ w. connecting w0 w \<and> dbc (cur w)) (connects w0)"
  by (rule hoare_weaken [OF quiet_keeps [OF assms(1) connecting_closed(2)]]) (use assms(2) in \<open>auto simp: connecting_def\<close>)

lemma connecting_alloc:
  "quiet m \<Longrightarrow> hoare (connecting w0) (db_bind (set_curr (\<lambda>c. c\<lparr>dbc := True\<rparr>)) (\<lambda>_. m)) (\<lambda>_ w. connecting w0 w \<and> dbc (cur w)) (connects w0)"
  by (rule hoare_bind, rule hoare_weaken, rule connecting_set, assumption, assumption, simp add: connecting_def, rule connecting_step)

lemma connecting_leave:
  assumes "keeps (connecting w0) e"
  shows "hoare (\<lambda>w. connecting w0 w \<and> dbc (cur w)) (if a = 1 then db_report m else db_bind e (\<lambda>_. db_return False))
      (\<lambda>ok w. connects w0 w \<and> (ok \<longrightarrow> dbc (cur w))) (connects w0)"
  by (intro keeps_if hoare_bind [where R = "\<lambda>_. connecting w0"] hoare_fault hoare_return hoare_weaken [OF assms])
    (simp_all add: connecting_def)

lemma connecting_done:
  "hoare (\<lambda>w. connecting w0 w \<and> dbc (cur w)) (VV_CURR_DB (\<lambda>c. db_return (dbc c)))
     (\<lambda>ok w. connects w0 w \<and> (ok \<longrightarrow> dbc (cur w))) (connects w0)"
  by (rule hoare_curr, rule hoare_return) (simp_all add: connecting_def)

end
