(* ===== verification/Trans.thy ===== *)
theory Trans
  imports Contract
begin

text \<open>
  Transactions under the contract of the drivers: the state of the connections stays well formed, a request leaves no
  transaction behind that it knows of, and a transaction stays in its session.
\<close>

section \<open>Conditions on every connection\<close>

lemma stable_all:
  assumes "list_all2 R xs (conn w)" "same_conns w w'" "\<And>x c c'. R x c \<Longrightarrow> stable c c' \<Longrightarrow> R x c'"
  shows "list_all2 R xs (conn w')"
  using assms(1,2) by (simp add: same_conns_def list_all2_conv_all_nth) (metis assms(3))

text \<open>A relation of each connection to something fixed, such as its configuration or what it was before.\<close>

lemma all_with_cur:
  "list_all2 R xs (conn w) \<Longrightarrow> curr_ok w \<Longrightarrow> (\<And>x. R x (cur w) \<Longrightarrow> R x (g (cur w))) \<Longrightarrow> list_all2 R xs (conn (with_cur g w))"
  by (auto simp: with_cur_def list_all2_conv_all_nth curr_ok_def nth_list_update)

lemma resettable_all:
  assumes "\<And>x c c'. R x c \<Longrightarrow> stable c c' \<Longrightarrow> R x c'"
    and "\<And>x c b f. R x c \<Longrightarrow> \<not> dbc c \<Longrightarrow> f \<in> {is_begin_transaction c, 0} \<Longrightarrow> R x (c\<lparr>dbc := b, is_begin_transaction := f\<rparr>)"
    and "\<And>x c. R x c \<Longrightarrow> R x (c\<lparr>has_connected := 1, is_begin_transaction := 0\<rparr>)"
    and "\<And>x c. R x c \<Longrightarrow> R x (c\<lparr>dbc := False, is_begin_transaction := 0\<rparr>)"
  shows "resettable (\<lambda>w. list_all2 R xs (conn w))"
  unfolding resettable_def closed_def using assms stable_all [of R xs] by (blast intro: all_with_cur)

definition config_of :: "string \<times> int \<Rightarrow> one_db \<Rightarrow> bool" where
  "config_of = (\<lambda>(name, t) c. db_name c = name \<and> db_type c = t \<and> has_connected c \<in> {0, 1} \<and> exit_on_error c \<in> {0, 1}
     \<and> is_begin_transaction c \<in> {0, 1} \<and> (is_begin_transaction c = 1 \<longrightarrow> dbc c))"

definition connections_ok :: "(string \<times> int) list \<Rightarrow> 'e dbs \<Rightarrow> bool" where
  "connections_ok dbs w \<longleftrightarrow> list_all2 config_of dbs (conn w)"

lemma connections_ok_init: "connections_ok dbs (init_dbs dbs e)"
  by (auto simp: connections_ok_def init_dbs_def list_all2_conv_all_nth config_of_def split: prod.splits)

lemma connections_ok_resettable: "resettable (connections_ok dbs)"
  unfolding connections_ok_def by (rule resettable_all) (auto simp: config_of_def stableD)

text \<open>The transactions of the first \<open>i\<close> connections are over.\<close>

definition none_below :: "nat \<Rightarrow> 'e dbs \<Rightarrow> bool" where
  "none_below i w \<longleftrightarrow> (\<forall>k < length (conn w). k < i \<longrightarrow> is_begin_transaction (conn w ! k) \<noteq> 1)"

lemma none_below_resettable: "resettable (none_below i)"
proof -
  have "closed (none_below i)"
    by (auto simp: closed_def none_below_def same_conns_def list_all2_conv_all_nth stableD)
  then show ?thesis by (auto simp: resettable_def none_below_def with_cur_def curr_ok_def nth_list_update split: if_splits)
qed

definition conns_are :: "nat \<Rightarrow> 'e dbs \<Rightarrow> bool" where
  "conns_are n w \<longleftrightarrow> length (conn w) = n"

lemma conns_are_resettable: "resettable (conns_are n)"
  by (auto simp: resettable_def closed_def conns_are_def with_cur_def same_conns_def dest: list_all2_lengthD)

lemma resettable_conj: "resettable I \<Longrightarrow> resettable J \<Longrightarrow> resettable (\<lambda>w. I w \<and> J w)"
  by (auto simp: resettable_def closed_def)

text \<open>The connection in use exists.\<close>

definition connected :: "'e dbs \<Rightarrow> bool" where
  "connected w \<longleftrightarrow> curr_ok w \<and> dbc (cur w)"

lemma connected_closed: "closed connected" "closed (\<lambda>w. b \<longrightarrow> connected w)"
  by (auto simp: closed_def connected_def stableD dest: same_conns_cur)


section \<open>Programs\<close>

context database
begin

text \<open>A statement without error has a connection.\<close>

lemma get_connected: "hoare (\<lambda>_. True) (vely_get_db_connection drv a) (\<lambda>ok w. ok \<longrightarrow> connected w) (\<lambda>_. True)"
proof -
  have "hoare (\<lambda>_. True) (VV_CURR_DB (\<lambda>c. db_return (dbc c))) (\<lambda>ok w. ok \<longrightarrow> connected w) (\<lambda>_. True)"
    by (simp add: hoare_def VV_CURR_DB_def db_return_def db_fault_def connected_def)
  then show ?thesis
    unfolding vely_get_db_connection_def
    by (intro hoare_get keeps_if hoare_fault hoare_curr hoare_return hoare_bind [where R = "\<lambda>_ _. True"])
      (auto simp: connected_def hoare_def split: option.splits sum.splits)
qed

lemma hoare_bind3:
  "hoare P m (\<lambda>(r, _) w. R r w) E \<Longrightarrow> (\<And>r e t. hoare (R r) (f r e t) Q E) \<Longrightarrow> hoare P (db_bind m (\<lambda>(r, e, t). f r e t)) Q E"
  by (rule hoare_bind) auto

lemma retry_connected:
  "hoare (\<lambda>_. True) (vely_handle_error drv s retry p a) (\<lambda>(r, _) w. r \<noteq> 0 \<longrightarrow> connected w) (\<lambda>_. True)"
proof -
  have any: "hoare (\<lambda>_. True) m (\<lambda>_ _. True) (\<lambda>_. True)" for m :: "('b, 'e) db_act"
    by (simp add: hoare_def split: option.split sum.split)
  have "hoare (\<lambda>_. True) (vely_retry_db drv) (\<lambda>r w. r = 1 \<longrightarrow> connected w) (\<lambda>_. True)"
    unfolding vely_retry_db_def by (rule hoare_bind, rule any, rule hoare_bind, rule get_connected, rule hoare_return) simp
  then have "hoare (\<lambda>_. True) (if retry then vely_retry_db drv else db_return 0) (\<lambda>r w. r = 1 \<longrightarrow> connected w) (\<lambda>_. True)"
    by (intro keeps_if hoare_return) simp_all
  note again = hoare_bind [OF this]
  have fin: "hoare P (VV_CURR_DB (\<lambda>c. if error_exits c a then db_report m else db_return (0, e, t)))
      (\<lambda>(r, _) w. r \<noteq> 0 \<longrightarrow> connected w) (\<lambda>_. True)" for P m and e t :: string
    by (simp add: hoare_def VV_CURR_DB_def db_fault_def db_return_def)
  have r: "hoare (\<lambda>w. b = 1 \<longrightarrow> connected w) (if b = 1 then db_return (1, [], []) else VV_CURR_DB f)
      (\<lambda>(r, _) w. r \<noteq> 0 \<longrightarrow> connected w) (\<lambda>_. True)"
    if "\<And>P. hoare P (VV_CURR_DB f) (\<lambda>(r, _) w. r \<noteq> 0 \<longrightarrow> connected w) (\<lambda>_. True)" for b :: int and f
    using that by (auto intro: hoare_return)
  show ?thesis
    unfolding vely_handle_error_def Let_def
    by (rule hoare_bind [OF any], rule hoare_bind [OF any], rule hoare_bind [OF any], rule keeps_if,
        rule again, rule r, rule fin, rule hoare_bind [OF any], rule fin)
qed

text \<open>A statement that was executed without error has been executed over a connection that is still there.\<close>

lemma execute_connected:
  "hoare (\<lambda>_. True) (vely_execute_SQL drv s want n user p pr ps a) (\<lambda>out w. okay out \<longrightarrow> connected w) (\<lambda>_. True)"
proof -
  let ?Q = "\<lambda>out w. okay out \<longrightarrow> connected w"
  have keep: "driver_keeps drv (\<lambda>w. b \<longrightarrow> connected w)" for b by (rule driver_closed [OF connected_closed(2)])
  have rows: "keeps (\<lambda>w. b \<longrightarrow> connected w) (vely_arows drv p)" for b
    unfolding vely_arows_def by (intro keeps_with driver_keepsD keep)
  have exec: "keeps (\<lambda>w. b \<longrightarrow> connected w) (with_driver drv (\<lambda>d. drv_exec d s n p pr ps))" for b
    by (intro keeps_with driver_keepsD keep)
  have fine: "hoare (\<lambda>w. b \<longrightarrow> connected w) (if want then db_bind (vely_arows drv p) (\<lambda>k. db_return (f k)) else db_return g) ?Q (\<lambda>_. True)"
    if "\<And>k. okay (f k) \<Longrightarrow> b" "okay g \<Longrightarrow> b" for b f g
    by (intro keeps_if hoare_bind [where R = "\<lambda>_ w. b \<longrightarrow> connected w"] hoare_return hoare_weaken [OF rows]) (auto dest: that)
  have failed: "hoare P (db_bind (vely_handle_error drv s r p a) (\<lambda>(r, e, m). db_return (f e m))) ?Q (\<lambda>_. True)"
    if "\<And>e m. \<not> okay (f e m)" for P r f
    using that by (auto simp: hoare_def db_bind_def db_return_def split: option.split sum.split)
  show ?thesis
    unfolding vely_execute_SQL_def Let_def
  proof (rule keeps_if, rule hoare_fault, simp, rule keeps_if, rule hoare_fault, simp, rule hoare_bind, rule get_connected, rule hoare_bind,
      rule hoare_weaken, rule exec, assumption, assumption, simp, rule keeps_if, rule fine, simp, simp, rule hoare_curr, rule keeps_if,
      rule hoare_bind3, rule hoare_weaken, rule retry_connected, simp, assumption, simp, rule keeps_if, goal_cases)
    case (1 con st c r e m)
    then show ?case by (auto intro: hoare_return)
  next
    case (2 con st c r e m)
    show ?case
      by (rule hoare_bind [where R = "\<lambda>_. connected"], rule hoare_weaken, rule exec [of True], simp add: 2, simp, simp,
          rule keeps_if, rule hoare_weaken, rule fine [of _ True], simp, simp, simp, assumption, simp, rule failed, simp)
  next
    case (3 con st c)
    show ?case by (rule failed) simp
  qed simp
qed

section \<open>Well-formed connections\<close>

lemma set_flag_keeps:
  "(\<And>w. I w \<Longrightarrow> curr_ok w \<Longrightarrow> I (with_cur g w)) \<Longrightarrow> keeps I (set_curr g)"
  by (simp add: hoare_def set_curr_with)

lemma config_step:
  "connections_ok dbs w \<Longrightarrow> curr_ok w \<Longrightarrow> connections_ok dbs (with_cur (\<lambda>c. c\<lparr>is_begin_transaction := 0\<rparr>) w)"
  "connections_ok dbs w \<Longrightarrow> connected w \<Longrightarrow> connections_ok dbs (with_cur (\<lambda>c. c\<lparr>is_begin_transaction := 1\<rparr>) w)"
  "connections_ok dbs w \<Longrightarrow> curr_ok w \<Longrightarrow> connections_ok dbs (with_cur (\<lambda>c. c\<lparr>exit_on_error := 1\<rparr>) w)"
  "connections_ok dbs w \<Longrightarrow> curr_ok w \<Longrightarrow> connections_ok dbs (with_cur (\<lambda>c. c\<lparr>exit_on_error := 0\<rparr>) w)"
  unfolding connections_ok_def connected_def by (auto intro!: all_with_cur simp: config_of_def)

lemma ignore_keeps [keeping]: "keeps I m \<Longrightarrow> keeps I (db_ignore m)"
  unfolding db_ignore_def by (intro keeping)

lemma free_keeps [keeping]: "driver_keeps drv I \<Longrightarrow> keeps I (vely_db_free_result drv p)"
  unfolding vely_db_free_result_def by (intro keeping)

lemmas config_keeps = resettable_keeps [OF connections_ok_resettable]

lemma begin_ok: "keeps (connections_ok dbs) (vely_begin_transaction drv t a)"
proof -
  have ex: "hoare (connections_ok dbs) (vely_execute_SQL drv s want n user p pr ps a)
      (\<lambda>out w. connections_ok dbs w \<and> (okay out \<longrightarrow> connected w)) (connections_ok dbs)" for s want n user p pr ps
    by (rule hoare_weaken, rule hoare_conj [OF config_keeps(1) execute_connected]) simp_all
  have f: "hoare (\<lambda>w. connections_ok dbs w \<and> (okay out \<longrightarrow> connected w)) (if \<not> okay out
      then db_bind (set_curr (\<lambda>c. c\<lparr>is_begin_transaction := 0\<rparr>)) (\<lambda>_. db_return x)
      else db_bind (set_curr (\<lambda>c. c\<lparr>is_begin_transaction := 1\<rparr>)) (\<lambda>_. db_return y)) (\<lambda>_. connections_ok dbs) (connections_ok dbs)" for out x y
    by (intro keeps_if hoare_bind [where R = "\<lambda>_. connections_ok dbs"] keeping hoare_set_curr)
      (auto simp: config_step with_cur_def [symmetric])
  show ?thesis unfolding vely_begin_transaction_def by (rule keeps_curr, rule hoare_bind, rule ex, rule f)
qed

lemma end_transaction_ok: "keeps (connections_ok dbs) (end_transaction drv s a)"
  unfolding end_transaction_def by (intro keeping config_keeps set_flag_keeps config_step)

lemma do_db_ok: "keeps (connections_ok dbs) (do_db drv op)"
proof -
  have d: "driver_keeps drv (connections_ok dbs)"
    using connections_ok_resettable [of dbs] by (auto simp: resettable_def intro: driver_closed)
  have g: "connections_ok dbs w \<Longrightarrow> connections_ok dbs (w\<lparr>ind_current_db := i\<rparr>)"
    "connections_ok dbs w \<Longrightarrow> connections_ok dbs (w\<lparr>location := l\<rparr>)"
    "connections_ok dbs w \<Longrightarrow> connections_ok dbs (w\<lparr>allpreps := ps\<rparr>)" for w i l ps
    by (simp_all add: connections_ok_def)
  show ?thesis
    by (cases op) (auto simp: vely_db_prep_def vely_commit_def vely_rollback_def
        intro!: keeping hoare_do g begin_ok end_transaction_ok config_keeps set_flag_keeps config_step d)
qed

lemma run_db_ok: "keeps (connections_ok dbs) (run_db drv ops)"
  by (induction ops) (auto intro!: keeping do_db_ok)

lemma check_ok: "keeps (connections_ok dbs) (vely_check_transaction drv mode)"
proof -
  have "keeps (connections_ok dbs) (check_loop drv savedb n i e)" for savedb n i e
    by (induction n arbitrary: i e)
      (auto intro!: keeping hoare_do end_transaction_ok simp: vely_rollback_def connections_ok_def [of dbs "_\<lparr>ind_current_db := _\<rparr>"]
        simp flip: connections_ok_def)
  then show ?thesis unfolding vely_check_transaction_def by (intro keeping)
qed

section \<open>The end of a request\<close>

lemma check_loop_none:
  "hoare (\<lambda>w. none_below i w \<and> conns_are (i + n) w) (check_loop drv savedb n i e) (\<lambda>_ w. none_below (i + n) w \<and> conns_are (i + n) w)
     (\<lambda>_. True)"
proof (induction n arbitrary: i e)
  case (Suc n)
  define J :: "'e dbs \<Rightarrow> bool" where "J = (\<lambda>w. none_below (Suc i) w \<and> conns_are (Suc i + n) w)"
  have J: "resettable J"
    unfolding J_def by (intro resettable_conj none_below_resettable conns_are_resettable)
  have next_one: "hoare J (check_loop drv savedb n (i + 1) e) (\<lambda>_ w. none_below (i + Suc n) w \<and> conns_are (i + Suc n) w) (\<lambda>_. True)" for e
    using Suc.IH [of "Suc i" e] by (simp add: J_def)
  have skip: "J (w\<lparr>ind_current_db := k\<rparr>) = J w" for w k by (simp add: J_def none_below_def conns_are_def)
  have roll: "hoare (\<lambda>w. none_below i w \<and> conns_are (i + Suc n) w \<and> ind_current_db w = int i) (vely_rollback drv [] VV_OKAY) (\<lambda>_. J) (\<lambda>_. True)"
    unfolding vely_rollback_def end_transaction_def
  proof (rule hoare_bind [where R = "\<lambda>_. J"], rule hoare_set_curr)
    show "J (w\<lparr>conn := (conn w)[nat (ind_current_db w) := (cur w)\<lparr>is_begin_transaction := 0\<rparr>]\<rparr>)"
      if "none_below i w \<and> conns_are (i + Suc n) w \<and> ind_current_db w = int i" "curr_ok w" for w
      using that by (auto simp: J_def none_below_def conns_are_def curr_ok_def nth_list_update)
    show "hoare J (db_bind (vely_execute_SQL drv s True 0 False False None [] VV_OKAY)
        (\<lambda>out. if \<not> okay out then db_return (0, None) else db_return (1, Some (o_er out, o_errm out)))) (\<lambda>_. J) (\<lambda>_. True)" for s
      by (rule hoare_weaken [of J _ "\<lambda>_. J" J], intro keeping resettable_keeps [OF J]) simp_all
  qed simp
  have stay: "none_below i w \<and> conns_are (i + Suc n) w \<and> w = s \<Longrightarrow> is_begin_transaction (conn s ! i) \<noteq> 1 \<Longrightarrow> J w" for w s
    by (auto simp: J_def none_below_def conns_are_def less_Suc_eq)
  have go: "hoare (\<lambda>w. (none_below i w \<and> conns_are (i + Suc n) w) \<and> w = s) (db_do (\<lambda>w. w\<lparr>ind_current_db := int i\<rparr>))
      (\<lambda>_ w. none_below i w \<and> conns_are (i + Suc n) w \<and> ind_current_db w = int i) (\<lambda>_. True)" for s
    by (rule hoare_do) (simp add: none_below_def conns_are_def)
  have put_back: "hoare J (db_do (\<lambda>w. w\<lparr>ind_current_db := savedb\<rparr>)) (\<lambda>_. J) (\<lambda>_. True)"
    by (rule hoare_do) (simp add: skip)
  show ?case
    unfolding check_loop.simps
  proof (rule hoare_get, rule keeps_if, rule hoare_bind [OF go], rule hoare_bind [OF roll], rule hoare_bind [OF put_back])
    show "hoare J (check_loop drv savedb n (i + 1) (int i)) (\<lambda>_ w. none_below (i + Suc n) w \<and> conns_are (i + Suc n) w) (\<lambda>_. True)"
      by (rule next_one)
    fix s :: "'e dbs" assume "is_begin_transaction (conn s ! i) \<noteq> 1"
    then show "hoare (\<lambda>w. (none_below i w \<and> conns_are (i + Suc n) w) \<and> w = s) (check_loop drv savedb n (i + 1) e)
        (\<lambda>_ w. none_below (i + Suc n) w \<and> conns_are (i + Suc n) w) (\<lambda>_. True)"
      by (intro hoare_weaken [OF next_one]) (rule stay, simp_all)
  qed
qed (simp add: hoare_return)

lemma check_none:
  "vely_check_transaction drv mode w = Some (Inr (x, w')) \<Longrightarrow> \<forall>c \<in> set (conn w'). is_begin_transaction c \<noteq> 1"
proof -
  assume r: "vely_check_transaction drv mode w = Some (Inr (x, w'))"
  then obtain e where "check_loop drv (ind_current_db w) (length (conn w)) 0 (-1) w = Some (Inr (e, w'))"
    by (auto simp: vely_check_transaction_def db_get_def db_bind_def db_fault_def db_return_def split: option.splits sum.splits if_splits)
  then have "none_below (length (conn w)) w' \<and> conns_are (length (conn w)) w'"
    using hoareD(1) [OF check_loop_none, of 0 w "length (conn w)"] by (simp add: none_below_def conns_are_def)
  then show ?thesis by (auto simp: none_below_def conns_are_def in_set_conv_nth)
qed

text \<open>What is left after requests.\<close>

lemma request_next:
  assumes "connections_ok dbs w" "db_request drv ops w = Some (Next w')"
  shows "connections_ok dbs w'" "\<forall>c \<in> set (conn w'). is_begin_transaction c \<noteq> 1"
proof -
  let ?m = "db_bind (run_db drv ops) (\<lambda>_. vely_check_transaction drv 0)"
  have ok: "keeps (connections_ok dbs) ?m" by (intro keeping run_db_ok check_ok)
  have last: "?m w = Some (Inr (x, w')) \<Longrightarrow> \<exists>w1. vely_check_transaction drv 0 w1 = Some (Inr (x, w'))" for x
    by (auto simp: db_bind_def split: option.splits sum.splits)
  have "connections_ok dbs w' \<and> (\<exists>w1 mode. vely_check_transaction drv mode w1 = Some (Inr ((), w')))"
    using assms(2) hoareD [OF ok assms(1)] hoareD(1) [OF check_ok] last
    by (auto simp: db_request_def split: option.splits sum.splits fault.splits) blast
  then show "connections_ok dbs w'" "\<forall>c \<in> set (conn w'). is_begin_transaction c \<noteq> 1"
    using check_none by blast+
qed

lemma requests_next:
  assumes "connections_ok dbs w" "\<forall>c \<in> set (conn w). is_begin_transaction c \<noteq> 1" "db_requests drv reqs w = Some (Next w')"
  shows "connections_ok dbs w' \<and> (\<forall>c \<in> set (conn w'). is_begin_transaction c \<noteq> 1)"
  using assms
proof (induction reqs arbitrary: w)
  case (Cons ops reqs)
  then obtain w1 where "db_request drv ops w = Some (Next w1)" "db_requests drv reqs w1 = Some (Next w')"
    by (auto split: option.splits process.splits)
  then show ?case using Cons.IH [of w1] request_next [OF Cons.prems(1)] by blast
qed simp

end

section \<open>Sessions\<close>

definition reaches :: "('a, 'e) db_act \<Rightarrow> 'e dbs \<Rightarrow> 'e dbs \<Rightarrow> bool" where
  "reaches m w w' \<longleftrightarrow> (\<exists>e. m w = Some (Inl (e, w'))) \<or> (\<exists>x. m w = Some (Inr (x, w')))"

text \<open>Calls of a driver, of which none makes or closes the connection \<open>i\<close>: another connection has to be in use for that.  A
  session of the connection \<open>i\<close> is a number of them.\<close>

inductive calls :: "(int \<Rightarrow> 'e driver) \<Rightarrow> int \<Rightarrow> 'e dbs \<Rightarrow> 'e dbs \<Rightarrow> bool" for drv i where
  "reaches (drv_exec (drv t) s n p pr ps) w w' \<Longrightarrow> calls drv i w w'"
| "reaches (drv_checkc (drv t)) w w' \<Longrightarrow> calls drv i w w'"
| "reaches (drv_error (drv t) s p) w w' \<Longrightarrow> calls drv i w w'"
| "reaches (drv_errm (drv t) s l er p) w w' \<Longrightarrow> calls drv i w w'"
| "reaches (drv_affected (drv t) p) w w' \<Longrightarrow> calls drv i w w'"
| "reaches (drv_store (drv t) p) w w' \<Longrightarrow> calls drv i w w'"
| "reaches (drv_use (drv t) p) w w' \<Longrightarrow> calls drv i w w'"
| "reaches (drv_nfield (drv t)) w w' \<Longrightarrow> calls drv i w w'"
| "reaches (drv_nrows (drv t) p) w w' \<Longrightarrow> calls drv i w w'"
| "reaches (drv_fieldname (drv t) p k) w w' \<Longrightarrow> calls drv i w w'"
| "reaches (drv_rows (drv t) p k r) w w' \<Longrightarrow> calls drv i w w'"
| "reaches (drv_free (drv t) p) w w' \<Longrightarrow> calls drv i w w'"
| made_other: "reaches (drv_connect (drv t) a) w w' \<Longrightarrow> ind_current_db w \<noteq> i \<Longrightarrow> calls drv i w w'"
| closed_other: "reaches (drv_close (drv t)) w w' \<Longrightarrow> ind_current_db w \<noteq> i \<Longrightarrow> calls drv i w w'"

inductive session :: "(int \<Rightarrow> 'e driver) \<Rightarrow> int \<Rightarrow> 'e \<Rightarrow> 'e \<Rightarrow> bool" for drv i where
  session_start: "session drv i e e"
| session_call: "session drv i e (env w) \<Longrightarrow> calls drv i w w' \<Longrightarrow> session drv i e (env w')"

text \<open>The connection \<open>i\<close> is there and marked as being in a transaction, and all calls since \<open>e\<close> are of its session.\<close>

definition marked_open :: "int \<Rightarrow> 'e dbs \<Rightarrow> bool" where
  "marked_open i w \<longleftrightarrow> 0 \<le> i \<and> nat i < length (conn w) \<and> dbc (conn w ! nat i) \<and> is_begin_transaction (conn w ! nat i) = 1"

definition in_transaction :: "(int \<Rightarrow> 'e driver) \<Rightarrow> 'e \<Rightarrow> int \<Rightarrow> 'e dbs \<Rightarrow> bool" where
  "in_transaction drv e i w \<longleftrightarrow> marked_open i w \<and> session drv i e (env w)"

text \<open>The operations of a program while the transaction of the connection \<open>i\<close> is open, from where the connection \<open>j\<close> is in
  use: any, and changes of the connection in use, but none that ends the transaction of \<open>i\<close> or begins one in it.\<close>

fun statement_op :: "db_op \<Rightarrow> bool" where
  "statement_op (Begin t a) = False"
| "statement_op (Commit t a) = False"
| "statement_op (Rollback t a) = False"
| "statement_op op = True"

fun within :: "int \<Rightarrow> int \<Rightarrow> db_op list \<Rightarrow> bool" where
  "within i j [] = True"
| "within i j (Use_db k # ops) = within i k ops"
| "within i j (op # ops) = ((j \<noteq> i \<or> statement_op op) \<and> within i j ops)"

definition at_use :: "(int \<Rightarrow> 'e driver) \<Rightarrow> 'e \<Rightarrow> int \<Rightarrow> int \<Rightarrow> 'e dbs \<Rightarrow> bool" where
  "at_use drv e i j w \<longleftrightarrow> (ind_current_db w = j \<and> marked_open i w) \<and> session drv i e (env w)"

lemma marked_open_same: "marked_open i w \<Longrightarrow> same_conns w w' \<Longrightarrow> marked_open i w'"
  using list_all2_nthD [of stable "conn w" "conn w'" "nat i"]
  by (auto simp: marked_open_def same_conns_def stableD dest: list_all2_lengthD)

lemma marked_open_closed: "closed (\<lambda>w. ind_current_db w = j \<and> marked_open i w)"
  using marked_open_same by (auto simp: closed_def same_conns_def)

lemma marked_open_other: "marked_open i w \<Longrightarrow> curr_ok w \<Longrightarrow> ind_current_db w \<noteq> i \<Longrightarrow> marked_open i (with_cur g w)"
  by (auto simp: marked_open_def with_cur_def curr_ok_def nth_list_update nat_eq_iff)

lemma marked_open_use: "at_use drv e i i w \<Longrightarrow> curr_ok w \<and> dbc (cur w) \<and> is_begin_transaction (cur w) = 1"
  by (auto simp: at_use_def marked_open_def curr_ok_def)

lemma session_keeps:
  assumes "quiet m" "\<And>w w'. A w \<Longrightarrow> reaches m w w' \<Longrightarrow> calls drv i w w'" "closed A"
  shows "keeps (\<lambda>w. A w \<and> session drv i e (env w)) m"
proof (rule hoareI)
  fix w assume w: "A w \<and> session drv i e (env w)"
  have "session drv i e (env w')" if "reaches m w w'" for w'
    using session_call [OF _ assms(2) [OF _ that]] w by blast
  moreover have "A w'" if "reaches m w w'" for w'
    using that w hoareD [OF quiet_keeps [OF assms(1,3)], of w] unfolding reaches_def by blast
  ultimately show "case m w of None \<Rightarrow> True | Some (Inl (f, w')) \<Rightarrow> A w' \<and> session drv i e (env w')
      | Some (Inr (x, w')) \<Rightarrow> A w' \<and> session drv i e (env w')"
    by (simp add: reaches_def split: option.split sum.split prod.split)
qed

lemma other_set_curr: "j \<noteq> i \<Longrightarrow> keeps (at_use drv e i j) (set_curr g)"
  using marked_open_other by (fastforce simp: hoare_def set_curr_with at_use_def)

context database
begin

lemma use_driver: "driver_keeps drv (at_use drv e i j)"
proof -
  have I: "at_use drv e i j = (\<lambda>w. (ind_current_db w = j \<and> marked_open i w) \<and> session drv i e (env w))"
    by (simp add: at_use_def fun_eq_iff)
  show ?thesis
    unfolding driver_keeps_def I
    by (intro conjI allI impI;
        (rule session_keeps, rule checkc exec error errm affected store use_result nfield nrows fieldname rows free,
          erule calls.intros, rule marked_open_closed
          | auto simp: marked_open_def))
qed

text \<open>Another connection may be made and closed.\<close>

lemma other_close: "j \<noteq> i \<Longrightarrow> keeps (at_use drv e i j) (drv_close (drv t))"
proof -
  assume "j \<noteq> i"
  then have "keeps (\<lambda>w. (ind_current_db w = j \<and> marked_open i w) \<and> session drv i e (env w)) (drv_close (drv t))"
    by (intro session_keeps close marked_open_closed) (auto intro: closed_other)
  then show ?thesis by (simp add: at_use_def [abs_def])
qed

lemma other_connect:
  assumes "j \<noteq> i"
  shows "hoare (\<lambda>w. at_use drv e i j w \<and> curr_ok w) (drv_connect (drv t) a) (\<lambda>_. at_use drv e i j) (at_use drv e i j)"
proof (rule hoareI)
  fix w assume w: "at_use drv e i j w \<and> curr_ok w"
  have "at_use drv e i j w'" if r: "reaches (drv_connect (drv t) a) w w'" for w'
  proof -
    have "connects w w'"
      using r w connect_at(1) [of t a w] by (auto simp: reaches_def split: sum.splits)
    then obtain b f where s: "same_conns (with_cur (\<lambda>c. c\<lparr>dbc := b, is_begin_transaction := f\<rparr>) w) w'"
      by (auto simp: connects_def with_cur_def)
    have "marked_open i (with_cur (\<lambda>c. c\<lparr>dbc := b, is_begin_transaction := f\<rparr>) w)"
      using w assms by (intro marked_open_other) (auto simp: at_use_def)
    then have "ind_current_db w' = j \<and> marked_open i w'"
      using marked_open_same [OF _ s] s w by (simp add: same_conns_def at_use_def)
    moreover have "calls drv i w w'"
      by (rule made_other [where t = t and a = a and w = w], rule r) (use w assms in \<open>simp add: at_use_def\<close>)
    then have "session drv i e (env w')" using session_call [of drv i e w w'] w by (simp add: at_use_def)
    ultimately show ?thesis by (simp add: at_use_def)
  qed
  then show "case drv_connect (drv t) a w of None \<Rightarrow> True | Some (Inl (f, w')) \<Rightarrow> at_use drv e i j w'
      | Some (Inr (x, w')) \<Rightarrow> at_use drv e i j w'"
    by (simp add: reaches_def split: option.split sum.split prod.split)
qed

lemma other_get_connection:
  assumes "j \<noteq> i"
  shows "keeps (at_use drv e i j) (vely_get_db_connection drv a)"
proof -
  let ?I = "at_use drv e i j"
  have con: "keeps ?I (with_driver drv (\<lambda>d. drv_connect d a))"
    unfolding with_driver_def
    by (rule hoare_curr, rule keeps_if) (auto intro: hoare_weaken [OF other_connect [OF assms]] hoare_fault)
  show ?thesis
    unfolding vely_get_db_connection_def
    by (intro keeps_get keeps_if keeps_basic keeps_curr keeps_bind [OF con] keeps_bind [OF other_set_curr [OF assms]])
qed

lemma use_reconnects: "reconnects_ok drv (at_use drv e i j)"
proof (cases "j = i")
  case True
  then have u: "curr_ok w \<and> dbc (cur w) \<and> is_begin_transaction (cur w) = 1" if "at_use drv e i j w" for w
    using marked_open_use that by simp
  then have "keeps (at_use drv e i j) (vely_get_db_connection drv 1)"
    by (auto simp: hoare_def vely_get_db_connection_def db_get_def db_fault_def VV_CURR_DB_def db_return_def)
  then show ?thesis using use_driver u by (simp add: reconnects_ok_def)
next
  case False
  have "keeps (at_use drv e i j) (vely_end_connection (\<lambda>t. drv_close (drv t)) True)"
    unfolding vely_end_connection_def by (intro keeping other_close [OF False] other_set_curr [OF False])
  then show ?thesis
    using use_driver other_get_connection [OF False] unfolding reconnects_ok_def vely_retry_db_def
    by (auto intro!: keeping)
qed

lemma operation_keeps:
  assumes "j \<noteq> i \<or> statement_op op" "\<And>k. op \<noteq> Use_db k"
  shows "keeps (at_use drv e i j) (do_db drv op)"
proof -
  note k = execute_keeps [OF use_reconnects] select_keeps [OF use_reconnects] use_driver
  have p: "keeps (at_use drv e i j) (db_do (\<lambda>w. w\<lparr>allpreps := ps w\<rparr>))" for ps
    by (rule hoare_do) (simp add: at_use_def marked_open_def)
  have f: "keeps (at_use drv e i j) (set_curr (\<lambda>c. c\<lparr>exit_on_error := b\<rparr>))" for b
    by (rule set_flag_keeps) (auto simp: at_use_def marked_open_def with_cur_def curr_ok_def nth_list_update)
  show ?thesis
  proof (cases "statement_op op")
    case True
    then show ?thesis
      using assms(2) by (cases op) (auto simp: vely_db_prep_def intro!: keeping k p f)
  next
    case False
    then have j: "j \<noteq> i" using assms(1) by simp
    show ?thesis
      using False by (cases op) (auto simp: vely_begin_transaction_def vely_commit_def vely_rollback_def end_transaction_def
          intro!: keeping k other_set_curr [OF j])
  qed
qed

lemma use_keeps: "hoare (at_use drv e i j) (do_db drv (Use_db k)) (\<lambda>_. at_use drv e i k) (in_transaction drv e i)"
  by (simp, rule hoare_do) (simp add: at_use_def marked_open_def)

lemma begin_in_transaction:
  assumes "vely_begin_transaction drv t a w = Some (Inr ((1, msg), w1))"
  shows "at_use drv (env w1) (ind_current_db w1) (ind_current_db w1) w1"
proof -
  have "hoare (\<lambda>_. True) (vely_begin_transaction drv t a)
      (\<lambda>(r, _) w. r = 1 \<longrightarrow> connected w \<and> is_begin_transaction (cur w) = 1) (\<lambda>_. True)"
    unfolding vely_begin_transaction_def
  proof (rule hoare_curr, rule hoare_bind, rule hoare_weaken, rule execute_connected, simp, assumption, simp, rule keeps_if, goal_cases)
    case (2 c out)
    show ?case
      by (rule hoare_bind [where R = "\<lambda>_ w. connected w \<and> is_begin_transaction (cur w) = 1"])
        (use 2 in \<open>auto intro!: hoare_set_curr hoare_return simp: with_cur_def [symmetric] connected_def\<close>)
  next
    case (1 c out)
    show ?case by (rule hoare_bind [where R = "\<lambda>_ _. True"], rule hoare_set_curr, simp, simp, rule hoare_return, simp)
  qed
  from hoareD(1) [OF this TrueI assms] show ?thesis
    by (simp add: at_use_def marked_open_def connected_def curr_ok_def session_start)
qed

lemma then_in_transaction:
  assumes "j \<noteq> i \<or> statement_op op" "\<And>k. op \<noteq> Use_db k"
    and "hoare (at_use drv e i j) m (\<lambda>_. in_transaction drv e i) (in_transaction drv e i)"
  shows "hoare (at_use drv e i j) (db_bind (do_db drv op) (\<lambda>_. m)) (\<lambda>_. in_transaction drv e i) (in_transaction drv e i)"
  by (rule hoare_bind [OF hoare_weaken [OF operation_keeps [OF assms(1,2)]] assms(3)]) (auto simp: at_use_def in_transaction_def)

lemma run_in_transaction:
  "within i j ops \<Longrightarrow> hoare (at_use drv e i j) (run_db drv ops) (\<lambda>_. in_transaction drv e i) (in_transaction drv e i)"
proof (induction i j ops rule: within.induct)
  case (1 i j)
  then show ?case by (auto simp: at_use_def in_transaction_def intro!: hoare_return)
next
  case (2 i j k ops)
  then show ?case unfolding run_db.simps by (intro hoare_bind [OF use_keeps]) simp
qed (simp_all only: run_db.simps, (rule then_in_transaction; simp)+)

end

end
