(* ===== verification/Lite.thy ===== *)
theory Lite
  imports Contract
begin

text \<open>
  The SQLite driver (lite.c).  SQLite itself is a parameter, one function for each function of its interface that the
  driver calls; a statement may be null there.  Files are a parameter as well.
\<close>

section \<open>The interface of SQLite\<close>

datatype stepped = Row | Finished | Failed

record 's sqlite =
  sq_open :: "string \<Rightarrow> 's \<Rightarrow> bool \<times> nat \<times> 's"
  sq_close :: "nat \<Rightarrow> 's \<Rightarrow> 's"
  sq_prepare :: "nat \<Rightarrow> string \<Rightarrow> 's \<Rightarrow> bool \<times> nat option \<times> 's"
  sq_parameter_count :: "nat option \<Rightarrow> 's \<Rightarrow> nat"
  sq_bind_text :: "nat option \<Rightarrow> nat \<Rightarrow> string \<Rightarrow> 's \<Rightarrow> bool \<times> 's"
  sq_step :: "nat option \<Rightarrow> 's \<Rightarrow> stepped \<times> 's"
  sq_column_count :: "nat option \<Rightarrow> 's \<Rightarrow> nat"
  sq_column_text :: "nat option \<Rightarrow> nat \<Rightarrow> 's \<Rightarrow> string option"
  sq_column_bytes :: "nat option \<Rightarrow> nat \<Rightarrow> 's \<Rightarrow> nat"
  sq_column_name :: "nat option \<Rightarrow> nat \<Rightarrow> 's \<Rightarrow> string option"
  sq_reset :: "nat option \<Rightarrow> 's \<Rightarrow> 's"
  sq_clear_bindings :: "nat option \<Rightarrow> 's \<Rightarrow> 's"
  sq_finalize :: "nat \<Rightarrow> 's \<Rightarrow> 's"
  sq_errcode :: "nat \<Rightarrow> 's \<Rightarrow> int"
  sq_no_memory :: "nat \<Rightarrow> 's \<Rightarrow> bool"
  sq_errmsg :: "nat \<Rightarrow> 's \<Rightarrow> string"
  sq_changes :: "nat \<Rightarrow> 's \<Rightarrow> int"
  sq_parse_error :: int

text \<open>The static variables of the driver; what the pointers to connections hold, by the index of the connection, where
  \<open>None\<close> is memory that nothing has set; and the state of SQLite.\<close>

record 's lite_env =
  cerror :: "string option"
  qnumrows :: nat
  qnumfields :: nat
  qrownow :: nat
  qrows :: "string option list option"
  qlens :: "nat list option"
  qcolid :: nat
  vely_stmt_cached :: int
  con_of :: "int \<Rightarrow> nat option"
  stmt_of :: "int \<Rightarrow> nat option option"
  sq :: 's

type_synonym ('a, 's) lite_act = "('a, 's lite_env) db_act"

definition lite_do :: "('s lite_env \<Rightarrow> 's lite_env) \<Rightarrow> (unit, 's) lite_act" where
  "lite_do g = db_do (\<lambda>w. w\<lparr>env := g (env w)\<rparr>)"

definition lite_error :: "string \<Rightarrow> (int, 's) lite_act" where
  "lite_error m = db_bind (lite_do (\<lambda>e. e\<lparr>cerror := Some m\<rparr>)) (\<lambda>_. db_return 1)"

text \<open>A call of SQLite that changes its state.\<close>

definition sq_do :: "('s \<Rightarrow> 's) \<Rightarrow> (unit, 's) lite_act" where
  "sq_do g = lite_do (\<lambda>e. e\<lparr>sq := g (sq e)\<rparr>)"

text \<open>The connection and the statement of the connection in use.\<close>

definition lite_con :: "(nat \<Rightarrow> ('a, 's) lite_act) \<Rightarrow> ('a, 's) lite_act" where
  "lite_con f = VV_CURR_DB (\<lambda>c. db_get (\<lambda>w.
     case (if dbc c then con_of (env w) (ind_current_db w) else None) of Some k \<Rightarrow> f k | None \<Rightarrow> db_fault Out_of_bounds))"

definition lite_stmt :: "(nat option \<Rightarrow> ('a, 's) lite_act) \<Rightarrow> ('a, 's) lite_act" where
  "lite_stmt f = VV_CURR_DB (\<lambda>c. db_get (\<lambda>w.
     case (if dbc c then stmt_of (env w) (ind_current_db w) else None) of Some st \<Rightarrow> f st | None \<Rightarrow> db_fault Out_of_bounds))"

definition set_stmt :: "nat option \<Rightarrow> (unit, 's) lite_act" where
  "set_stmt st = VV_CURR_DB (\<lambda>c. if dbc c
     then db_do (\<lambda>w. w\<lparr>env := (env w)\<lparr>stmt_of := (stmt_of (env w))(ind_current_db w := Some st)\<rparr>\<rparr>)
     else db_fault Out_of_bounds)"

section \<open>Errors\<close>

definition vely_lite_checkc :: "(int, 's) lite_act" where
  "vely_lite_checkc = db_return 1"

definition vely_lite_errm ::
  "'s sqlite \<Rightarrow> nat \<Rightarrow> string \<Rightarrow> string \<times> int \<Rightarrow> string \<Rightarrow> bool \<Rightarrow> (string, 's) lite_act" where
  "vely_lite_errm S errmsize s loc er is_prep =
     lite_con (\<lambda>k. db_get (\<lambda>w. db_return (take (errmsize - 1)
       (''Error during query ['' @ s @ ''], additional ['' @ (case cerror (env w) of None \<Rightarrow> [] | Some m \<Rightarrow> m) @ ''] file ['' @
        fst loc @ ''], line ['' @ decimal_text (snd loc) @ ''] : ['' @ er @ '']'' @
        (if atol er = sq_parse_error S then ''Problem with parsing SQL statement'' else sq_errmsg S k (sq (env w)))))))"

definition vely_lite_error :: "'s sqlite \<Rightarrow> string \<Rightarrow> bool \<Rightarrow> (string, 's) lite_act" where
  "vely_lite_error S s is_prep =
     lite_con (\<lambda>k. db_get (\<lambda>w. db_return (take 29 (decimal_text (sq_errcode S k (sq (env w)))))))"

section \<open>Rows\<close>

definition vely_lite_stmt_rows :: "(int \<times> string option list \<times> nat list, 's) lite_act" where
  "vely_lite_stmt_rows =
     db_get (\<lambda>w. case (qrows (env w), qlens (env w)) of
       (Some rows, Some lens) \<Rightarrow>
         (let n = qnumfields (env w) * qrownow (env w) in
          db_bind (lite_do (\<lambda>e. e\<lparr>qrownow := qrownow e + 1\<rparr>)) (\<lambda>_. db_return (0, drop n rows, drop n lens)))
     | _ \<Rightarrow> db_bind (lite_error ''Cannot get row field and length data'') (\<lambda>st. db_return (st, [], [])))"

definition vely_lite_rows :: "(int \<times> string option list \<times> nat list, 's) lite_act" where
  "vely_lite_rows =
     db_bind (set_curr (\<lambda>c. c\<lparr>need_copy := 0\<rparr>)) (\<lambda>_.
       db_bind vely_lite_stmt_rows (\<lambda>(st, row, lens). db_return (if st \<noteq> 0 then 1 else 0, row, lens)))"

text \<open>The fields of the row at hand, from field \<open>i\<close>; the arrays of fields and lengths hold all rows, and \<open>cdata\<close> is the
  place in them.  \<open>None\<close> is that there is no memory.\<close>

fun lite_fields :: "'s sqlite \<Rightarrow> nat \<Rightarrow> nat option \<Rightarrow> 's \<Rightarrow> nat \<Rightarrow> nat \<Rightarrow> nat \<Rightarrow> string option list \<times> nat list
    \<Rightarrow> (string option list \<times> nat list) option res" where
  "lite_fields S con st s 0 i cdata (cells, lens) = Inr (Some (cells, lens))"
| "lite_fields S con st s (Suc n) i cdata (cells, lens) =
     (let k = sq_column_bytes S st i s in
      res_bind (memput lens cdata [k]) (\<lambda>lens1.
        case sq_column_text S st i s of
          None \<Rightarrow>
            (if sq_no_memory S con s then Inr None
             else res_bind (memput cells cdata [Some [NUL]]) (\<lambda>cells1. lite_fields S con st s n (i + 1) (cdata + 1) (cells1, lens1)))
        | Some b \<Rightarrow>
            (if k > length b then Inl Out_of_bounds
             else res_bind (memput cells cdata [Some (take k b @ [NUL])]) (\<lambda>cells1.
               lite_fields S con st s n (i + 1) (cdata + 1) (cells1, lens1)))))"

text \<open>One row: the arrays are allocated for the first one and grow for the others; what fills them is set before it is
  read.\<close>

definition lite_row :: "'s sqlite \<Rightarrow> nat \<Rightarrow> nat option \<Rightarrow> bool \<Rightarrow> nat \<Rightarrow> nat \<Rightarrow> 's lite_env
    \<Rightarrow> (bool \<times> nat \<times> nat \<times> 's lite_env) res" where
  "lite_row S con st firstr initr cdata e =
     (let e1 = (if firstr then e
                else (let n = sq_column_count S st (sq e) in
                      e\<lparr>qnumfields := n, qrows := Some (replicate (n * initr) None), qlens := Some (replicate (n * initr) 0)\<rparr>));
          grow = qnumrows e1 \<ge> initr;
          initr1 = (if grow then qnumrows e1 + 1 else initr);
          m = qnumfields e1 * initr1 in
      case (qrows e1, qlens e1) of
        (Some cells, Some lens) \<Rightarrow>
          res_bind (lite_fields S con st (sq e1) (qnumfields e1) 0 cdata
              (if grow then cells @ replicate (m - length cells) None else cells,
               if grow then lens @ replicate (m - length lens) 0 else lens)) (\<lambda>r.
            case r of
              None \<Rightarrow> Inr (False, initr1, cdata, e1\<lparr>cerror := Some ''Out of memory when obtaining query result''\<rparr>)
            | Some (cells1, lens1) \<Rightarrow>
                Inr (True, initr1, cdata + qnumfields e1,
                  e1\<lparr>qrows := Some cells1, qlens := Some lens1, qnumrows := qnumrows e1 + 1\<rparr>))
      | _ \<Rightarrow> Inl Out_of_bounds)"

text \<open>All rows.  After an error they are freed, and not read any more.\<close>

partial_function (option) data_loop :: "'s sqlite \<Rightarrow> nat \<Rightarrow> nat option \<Rightarrow> bool \<Rightarrow> nat \<Rightarrow> nat \<Rightarrow> 's lite_env
    \<Rightarrow> (int \<times> 's lite_env) res option" where
  "data_loop S con st firstr initr cdata e =
     (case sq_step S st (sq e) of (r, s1) \<Rightarrow>
        (case r of
           Row \<Rightarrow>
             (case lite_row S con st firstr initr cdata (e\<lparr>sq := s1\<rparr>) of
                Inl f \<Rightarrow> Some (Inl f)
              | Inr (good, initr1, cdata1, e2) \<Rightarrow>
                  if good then data_loop S con st True initr1 cdata1 e2 else Some (Inr (1, e2)))
         | Finished \<Rightarrow> Some (Inr (0, e\<lparr>sq := s1, qcolid := 0\<rparr>))
         | Failed \<Rightarrow> Some (Inr (1, e\<lparr>sq := s1, qrows := None, qlens := None\<rparr>))))"

declare data_loop.simps [code]

definition vely_lite_get_data :: "'s sqlite \<Rightarrow> (int, 's) lite_act" where
  "vely_lite_get_data S =
     lite_con (\<lambda>con. lite_stmt (\<lambda>st. db_get (\<lambda>w.
       case data_loop S con st False 1 0 ((env w)\<lparr>qrows := None, qlens := None, qnumrows := 0\<rparr>) of
         None \<Rightarrow> (\<lambda>_. None)
       | Some (Inl f) \<Rightarrow> db_fault f
       | Some (Inr (r, e)) \<Rightarrow> db_bind (lite_do (\<lambda>_. e)) (\<lambda>_. db_return r))))"

definition vely_lite_nrows :: "(int, 's) lite_act" where
  "vely_lite_nrows = db_get (\<lambda>w. db_return (int (qnumrows (env w))))"

definition vely_lite_nfield :: "(nat, 's) lite_act" where
  "vely_lite_nfield = db_get (\<lambda>w. db_return (qnumfields (env w)))"

definition vely_lite_fieldname :: "'s sqlite \<Rightarrow> (string, 's) lite_act" where
  "vely_lite_fieldname S =
     lite_stmt (\<lambda>st. db_get (\<lambda>w. db_bind (lite_do (\<lambda>e. e\<lparr>qcolid := qcolid e + 1\<rparr>)) (\<lambda>_.
       case sq_column_name S st (qcolid (env w)) (sq (env w)) of Some f \<Rightarrow> db_return f | None \<Rightarrow> db_fault Out_of_bounds)))"

definition vely_lite_use :: "bool \<Rightarrow> (int, 's) lite_act" where
  "vely_lite_use is_prep = db_return 0"

definition vely_lite_store :: "bool \<Rightarrow> (int, 's) lite_act" where
  "vely_lite_store is_prep = db_return 0"

definition vely_lite_affected :: "'s sqlite \<Rightarrow> bool \<Rightarrow> (int, 's) lite_act" where
  "vely_lite_affected S is_prep = lite_con (\<lambda>k. db_get (\<lambda>w. db_return (sq_changes S k (sq (env w)))))"

section \<open>Connections\<close>

definition vely_lite_close :: "'s sqlite \<Rightarrow> (unit, 's) lite_act" where
  "vely_lite_close S = lite_con (\<lambda>k. sq_do (sq_close S k))"

definition vely_lite_close_stmt :: "'s sqlite \<Rightarrow> nat option \<Rightarrow> (unit, 's) lite_act" where
  "vely_lite_close_stmt S st =
     (case st of None \<Rightarrow> db_return ()
      | Some k \<Rightarrow> VV_CURR_DB (\<lambda>c. if dbc c then sq_do (sq_finalize S k) else db_return ()))"

definition vely_lite_free :: "'s sqlite \<Rightarrow> bool \<Rightarrow> (unit, 's) lite_act" where
  "vely_lite_free S is_prep = (if is_prep then db_return () else lite_stmt (vely_lite_close_stmt S))"

text \<open>The structure of the connection is allocated; nothing sets it until SQLite has opened the database.\<close>

definition alloc_dbc :: "(unit, 's) lite_act" where
  "alloc_dbc =
     db_bind (set_curr (\<lambda>c. c\<lparr>dbc := True\<rparr>)) (\<lambda>_.
       db_do (\<lambda>w. w\<lparr>env := (env w)\<lparr>con_of := (con_of (env w))(ind_current_db w := None),
                                     stmt_of := (stmt_of (env w))(ind_current_db w := None)\<rparr>\<rparr>))"

definition vely_lite_connect ::
  "'s sqlite \<Rightarrow> (string \<Rightarrow> string option) \<Rightarrow> string \<Rightarrow> int \<Rightarrow> (bool, 's) lite_act" where
  "vely_lite_connect S vely_read_file dbconf_dir abort_if_bad =
     db_bind (vely_db_prep (\<lambda>_. vely_lite_close_stmt S) None) (\<lambda>_.
     db_bind alloc_dbc (\<lambda>_.
     let bad = (\<lambda>m end. if abort_if_bad = 1 then db_report m else db_bind end (\<lambda>_. db_return False));
         end0 = vely_end_connection (\<lambda>_. db_return ()) False in
     VV_CURR_DB (\<lambda>c.
       case vely_read_file (take 149 (dbconf_dir @ ''/'' @ db_name c)) of
         None \<Rightarrow> bad ''Cannot read database configuration file [%s]'' end0
       | Some text \<Rightarrow>
           db_bind (db_res (vely_trim_ptr (cstr text @ [NUL]) (length (cstr text)))) (\<lambda>(buf, off, n).
             let ts = cstr (drop off buf) in
             if CHR 0x0A \<in> set ts then bad ''Database file [%s] cannot have new line'' (db_return ())
             else db_get (\<lambda>w.
               case sq_open S ts (sq (env w)) of (ok, k, s1) \<Rightarrow>
                 db_bind (lite_do (\<lambda>e. e\<lparr>sq := s1, con_of := (con_of e)(ind_current_db w := Some k)\<rparr>)) (\<lambda>_.
                   if \<not> ok then bad ''Cannot cannot open database [%s]'' end0
                   else VV_CURR_DB (\<lambda>c. db_return (dbc c))))))))"

section \<open>Statements\<close>

text \<open>The status; \<open>x\<close> is the byte in memory that was just allocated.\<close>

definition vely_lite_prep_stmt ::
  "'s sqlite \<Rightarrow> char \<Rightarrow> bool \<Rightarrow> nat option \<Rightarrow> string \<Rightarrow> nat \<Rightarrow> (int, 's) lite_act" where
  "vely_lite_prep_stmt S x is_prep prep stmt num_of_args =
     db_bind
       (db_get (\<lambda>w. case (if is_prep then Option.bind prep (prep_at w) else None) of
          Some k \<Rightarrow> db_bind (lite_do (\<lambda>e. e\<lparr>vely_stmt_cached := 1\<rparr>)) (\<lambda>_. db_bind (set_stmt (Some k)) (\<lambda>_. db_return 0))
        | None \<Rightarrow>
            VV_CURR_DB (\<lambda>c. db_bind (db_res (vely_db_prep_text (db_type c) x stmt)) (\<lambda>t.
              lite_con (\<lambda>con. db_get (\<lambda>w.
                case sq_prepare S con (cstr t) (sq (env w)) of (ok, st, s1) \<Rightarrow>
                  db_bind (sq_do (\<lambda>_. s1)) (\<lambda>_. db_bind (set_stmt st) (\<lambda>_.
                    if \<not> ok then lite_error ''Cannot prepare statement''
                    else db_bind (case prep of None \<Rightarrow> db_return ()
                        | Some p \<Rightarrow> db_do (\<lambda>w. w\<lparr>prep_at := (prep_at w)(p := st)\<rparr>)) (\<lambda>_. db_return 0)))))))))
       (\<lambda>st. if st \<noteq> 0 then db_return st
         else db_bind (set_curr (\<lambda>c. c\<lparr>num_inp := int num_of_args\<rparr>)) (\<lambda>_.
           lite_stmt (\<lambda>k. db_get (\<lambda>w.
             if sq_parameter_count S k (sq (env w)) \<noteq> num_of_args then lite_error ''Wrong number of input parameters''
             else db_return 0))))"

definition vely_lite_add_input :: "'s sqlite \<Rightarrow> nat \<Rightarrow> string \<Rightarrow> (int, 's) lite_act" where
  "vely_lite_add_input S i arg =
     lite_stmt (\<lambda>st. db_get (\<lambda>w. case sq_bind_text S st (i + 1) arg (sq (env w)) of (ok, s1) \<Rightarrow>
       db_bind (sq_do (\<lambda>_. s1)) (\<lambda>_. if \<not> ok then lite_error ''Cannot bind input parameter'' else db_return 0)))"

fun add_inputs :: "'s sqlite \<Rightarrow> nat \<Rightarrow> string list \<Rightarrow> (int, 's) lite_act" where
  "add_inputs S i [] = db_return 0"
| "add_inputs S i (p # ps) =
     db_bind (vely_lite_add_input S i p) (\<lambda>st. if st \<noteq> 0 then db_return 1 else add_inputs S (i + 1) ps)"

definition vely_lite_exec ::
  "'s sqlite \<Rightarrow> char \<Rightarrow> string \<Rightarrow> bool \<Rightarrow> nat option \<Rightarrow> string list \<Rightarrow> (int, 's) lite_act" where
  "vely_lite_exec S x s is_prep prep params =
     db_bind (vely_lite_prep_stmt S x is_prep prep s (length params)) (\<lambda>st.
     if st \<noteq> 0 then db_return 1
     else db_bind (add_inputs S 0 params) (\<lambda>st1.
       if st1 \<noteq> 0 then db_return 1
       else db_bind (vely_lite_get_data S) (\<lambda>st2.
         if st2 \<noteq> 0 then db_return 1
         else db_bind (lite_do (\<lambda>e. e\<lparr>qrownow := 0\<rparr>)) (\<lambda>_.
           lite_stmt (\<lambda>st. db_bind (sq_do (sq_reset S st)) (\<lambda>_. db_bind (sq_do (sq_clear_bindings S st)) (\<lambda>_. db_return 0)))))))"

text \<open>The driver; the buffer for the text of an error has 8192 bytes (db.c, \<^verbatim>\<open>vely_handle_error\<close>).\<close>

definition lite_driver :: "'s sqlite \<Rightarrow> (string \<Rightarrow> string option) \<Rightarrow> string \<Rightarrow> char \<Rightarrow> 's lite_env driver" where
  "lite_driver S vely_read_file dbconf_dir x =
     \<lparr>drv_connect = vely_lite_connect S vely_read_file dbconf_dir,
      drv_close = vely_lite_close S,
      drv_checkc = vely_lite_checkc,
      drv_exec = (\<lambda>s returns_tuple. vely_lite_exec S x s),
      drv_error = vely_lite_error S,
      drv_errm = vely_lite_errm S 8192,
      drv_affected = vely_lite_affected S,
      drv_store = vely_lite_store,
      drv_use = vely_lite_use,
      drv_nfield = vely_lite_nfield,
      drv_nrows = (\<lambda>_. vely_lite_nrows),
      drv_fieldname = (\<lambda>_ _. vely_lite_fieldname S),
      drv_rows = (\<lambda>_ _ _. vely_lite_rows),
      drv_free = vely_lite_free S,
      drv_close_stmt = vely_lite_close_stmt S\<rparr>"

section \<open>The contract\<close>

lemma quiet_lite_do [quiets]: "quiet (lite_do g)" "quiet (lite_error m)" "quiet (sq_do h)" "quiet (set_stmt st)"
  unfolding lite_error_def lite_do_def sq_do_def set_stmt_def by (intro quiets)+

lemma quiet_lite_con [quiets]: "(\<And>k. quiet (f k)) \<Longrightarrow> quiet (lite_con f)"
  and quiet_lite_stmt [quiets]: "(\<And>st. quiet (g st)) \<Longrightarrow> quiet (lite_stmt g)"
  unfolding lite_con_def lite_stmt_def by (intro quiets; assumption)+

lemma quiet_rows: "quiet vely_lite_rows"
  unfolding vely_lite_rows_def vely_lite_stmt_rows_def Let_def by (auto intro!: quiets split: option.split)

lemma quiet_get_data: "quiet (vely_lite_get_data S)"
  unfolding vely_lite_get_data_def by (intro quiets)

lemma quiet_prep_stmt: "quiet (vely_lite_prep_stmt S x p pr t n)"
  unfolding vely_lite_prep_stmt_def by (intro quiets)

lemma quiet_add_inputs: "quiet (add_inputs S i ps)"
  by (induction ps arbitrary: i) (auto simp: vely_lite_add_input_def intro!: quiets)

lemma quiet_exec: "quiet (vely_lite_exec S x s p pr ps)"
  unfolding vely_lite_exec_def by (intro quiets quiet_prep_stmt quiet_add_inputs quiet_get_data)

lemma quiet_close_stmt: "quiet (vely_lite_close_stmt S st)"
  unfolding vely_lite_close_stmt_def by (intro quiets)

lemma quiet_small:
  "quiet (vely_lite_close S)" "quiet vely_lite_checkc" "quiet (vely_lite_error S s p)" "quiet (vely_lite_errm S n s l er p)"
  "quiet (vely_lite_affected S p)" "quiet (vely_lite_store p)" "quiet (vely_lite_use p)" "quiet vely_lite_nfield"
  "quiet vely_lite_nrows" "quiet (vely_lite_fieldname S)" "quiet (vely_lite_free S p)"
  unfolding vely_lite_close_def vely_lite_checkc_def vely_lite_error_def vely_lite_errm_def vely_lite_affected_def vely_lite_store_def
    vely_lite_use_def vely_lite_nfield_def vely_lite_nrows_def vely_lite_fieldname_def vely_lite_free_def
  by (intro quiets quiet_close_stmt)+

lemma lite_connect:
  "hoare (\<lambda>w. w = w0 \<and> curr_ok w) (vely_lite_connect S files dir a) (\<lambda>ok w. connects w0 w \<and> (ok \<longrightarrow> dbc (cur w))) (connects w0)"
proof -
  have prep: "quiet (vely_db_prep (\<lambda>_. vely_lite_close_stmt S) None)"
    by (auto simp: vely_db_prep_def intro!: quiets quiet_reset_preps quiet_close_stmt)
  have alloc: "hoare (connecting w0) alloc_dbc (\<lambda>_ w. connecting w0 w \<and> dbc (cur w)) (connects w0)"
    unfolding alloc_dbc_def by (rule connecting_alloc, rule quiets)
  note end0 = connecting_set(2) [of w0]
  show ?thesis
    unfolding vely_lite_connect_def Let_def
  proof (rule connecting_start [OF prep], rule hoare_bind [OF alloc], rule hoare_curr, rule keeps_option,
      rule hoare_weaken [OF connecting_leave [OF end0]], simp, assumption, assumption, rule hoare_bind, rule connecting_step,
      rule quiet_basic, simp, rule keeps_pair, rule keeps_pair, rule keeps_if, rule connecting_leave, rule keeping, rule hoare_get,
      rule keeps_pair, rule keeps_pair, rule hoare_bind, rule connecting_step, rule quiets, simp, rule keeps_if, rule connecting_leave,
      rule end0, rule connecting_done)
  qed (simp add: connecting_def)
qed

lemma lite_driver_simps [simp]:
  "drv_connect (lite_driver S files dir x) = vely_lite_connect S files dir" "drv_close (lite_driver S files dir x) = vely_lite_close S"
  "drv_checkc (lite_driver S files dir x) = vely_lite_checkc" "drv_exec (lite_driver S files dir x) s n = vely_lite_exec S x s"
  "drv_error (lite_driver S files dir x) = vely_lite_error S" "drv_errm (lite_driver S files dir x) = vely_lite_errm S 8192"
  "drv_affected (lite_driver S files dir x) = vely_lite_affected S" "drv_store (lite_driver S files dir x) = vely_lite_store"
  "drv_use (lite_driver S files dir x) = vely_lite_use" "drv_nfield (lite_driver S files dir x) = vely_lite_nfield"
  "drv_nrows (lite_driver S files dir x) p = vely_lite_nrows" "drv_fieldname (lite_driver S files dir x) p i = vely_lite_fieldname S"
  "drv_rows (lite_driver S files dir x) p i j = vely_lite_rows" "drv_free (lite_driver S files dir x) = vely_lite_free S"
  "drv_close_stmt (lite_driver S files dir x) = vely_lite_close_stmt S"
  by (simp_all add: lite_driver_def)

interpretation lite_db: database "\<lambda>_. lite_driver S files dir x" for S files dir x
  by unfold_locales (simp_all add: lite_connect quiet_small quiet_exec quiet_rows quiet_close_stmt)

section \<open>What is left of a connection that could not be made\<close>

text \<open>After the error the pointer to the connection is not null, so that the next use takes it for a connection; nothing
  set what it points to.\<close>

lemma failed_connect:
  assumes "curr_ok w" "\<not> dbc (cur w)" "is_begin_transaction (cur w) = 0" "db_type (cur w) = VV_DB_SQLITE" "allpreps w = []"
    and "files (take 149 (dir @ ''/'' @ db_name (cur w))) = None"
  obtains w1 where
    "vely_get_db_connection (\<lambda>_. lite_driver S files dir x) 1 w
       = Some (Inl (Report_error ''Cannot read database configuration file [%s]'', w1))"
    "vely_get_db_connection (\<lambda>_. lite_driver S files dir x) 1 w1 = Some (Inr (True, w1))"
    "curr_ok w1" "con_of (env w1) (ind_current_db w1) = None" "ind_current_db w1 = ind_current_db w"
    "conn w1 = (conn w)[nat (ind_current_db w) := (cur w)\<lparr>dbc := True\<rparr>]"
proof -
  let ?w = "with_cur (\<lambda>c. c\<lparr>dbc := True\<rparr>) w"
  let ?w1 = "?w\<lparr>env := (env ?w)\<lparr>con_of := (con_of (env ?w))(ind_current_db w := None),
                                     stmt_of := (stmt_of (env ?w))(ind_current_db w := None)\<rparr>\<rparr>"
  have "ind_current_db w \<noteq> -1" using assms(1) by (simp add: curr_ok_def)
  have c: "curr_ok ?w1" "cur ?w1 = (cur w)\<lparr>dbc := True\<rparr>" using assms(1) by (simp_all add: curr_ok_def with_cur_def)
  show ?thesis
  proof (rule that [of ?w1])
    show "vely_get_db_connection (\<lambda>_. lite_driver S files dir x) 1 w
       = Some (Inl (Report_error ''Cannot read database configuration file [%s]'', ?w1))"
      using assms c \<open>ind_current_db w \<noteq> -1\<close>
      by (simp add: vely_get_db_connection_def db_get_def VV_CURR_DB_def with_driver_def lite_driver_def vely_lite_connect_def
          vely_db_prep_def db_return_def db_bind_def alloc_dbc_def set_curr_with db_do_def db_fault_def VV_DB_SQLITE_def)
  qed (use c \<open>ind_current_db w \<noteq> -1\<close> in
      \<open>simp_all add: vely_get_db_connection_def db_get_def VV_CURR_DB_def db_return_def with_cur_def\<close>)
qed

end
