(* ===== verification/LiteRows.thy ===== *)
theory LiteRows
  imports Lite Trans
begin

text \<open>
  The rows of a query, from SQLite through its driver (lite.c) and the database operations (db.c) to the program, and
  the properties of requests that use databases.
\<close>

section \<open>What SQLite answers\<close>

text \<open>The value of a field: its text, or nothing for a null.\<close>

definition field_value :: "'s sqlite \<Rightarrow> nat \<Rightarrow> nat option \<Rightarrow> 's \<Rightarrow> nat \<Rightarrow> string option" where
  "field_value S con st s i =
     (case sq_column_text S st i s of
        None \<Rightarrow> (if sq_no_memory S con s \<or> sq_column_bytes S st i s \<noteq> 0 then None else Some [])
      | Some b \<Rightarrow> (if sq_column_bytes S st i s \<le> length b then Some (take (sq_column_bytes S st i s) b) else None))"

definition row_value :: "'s sqlite \<Rightarrow> nat \<Rightarrow> nat option \<Rightarrow> 's \<Rightarrow> nat \<Rightarrow> string list \<Rightarrow> bool" where
  "row_value S con st s i r \<longleftrightarrow> (\<forall>k < length r. field_value S con st s (i + k) = Some (r ! k))"

inductive answer :: "'s sqlite \<Rightarrow> nat \<Rightarrow> nat option \<Rightarrow> nat \<Rightarrow> 's \<Rightarrow> string list list \<Rightarrow> 's \<Rightarrow> bool" for S con st n where
  no_more: "sq_step S st s = (Finished, s') \<Longrightarrow> answer S con st n s [] s'"
| one_more: "sq_step S st s = (Row, s1) \<Longrightarrow> sq_column_count S st s1 = n \<Longrightarrow> length r = n \<Longrightarrow> row_value S con st s1 0 r
     \<Longrightarrow> answer S con st n s1 rows s' \<Longrightarrow> answer S con st n s (r # rows) s'"

text \<open>The memory and the lengths of fields.\<close>

definition cells_of :: "string list \<Rightarrow> string option list" where
  "cells_of vs = map (\<lambda>v. Some (v @ [NUL])) vs"

definition lens_of :: "string list \<Rightarrow> nat list" where
  "lens_of vs = map length vs"

lemma cells_of_simps [simp]:
  "cells_of [] = []" "cells_of (v # vs) = Some (v @ [NUL]) # cells_of vs" "cells_of (vs @ ws) = cells_of vs @ cells_of ws"
  "length (cells_of vs) = length vs" "lens_of [] = []" "lens_of (v # vs) = length v # lens_of vs"
  "lens_of (vs @ ws) = lens_of vs @ lens_of ws" "length (lens_of vs) = length vs"
  by (simp_all add: cells_of_def lens_of_def)

section \<open>Rows in the driver\<close>

lemma row_value_Cons:
  "row_value S con st s i (v # r) \<longleftrightarrow> field_value S con st s i = Some v \<and> row_value S con st s (i + 1) r"
  by (auto simp: row_value_def less_Suc_eq_0_disj)

lemma lite_fields_row:
  "row_value S con st s i r \<Longrightarrow> cdata + length r \<le> length cells \<Longrightarrow> length lens = length cells
    \<Longrightarrow> lite_fields S con st s (length r) i cdata (cells, lens)
       = Inr (Some (take cdata cells @ cells_of r @ drop (cdata + length r) cells,
                    take cdata lens @ lens_of r @ drop (cdata + length r) lens))"
proof (induction r arbitrary: i cdata cells lens)
  case (Cons v r)
  have v: "field_value S con st s i = Some v" and r: "row_value S con st s (i + 1) r"
    using Cons.prems(1) by (simp_all add: row_value_Cons)
  have len: "cdata < length cells" "length lens = length cells" using Cons.prems by simp_all
  let ?lens = "take cdata lens @ [length v] @ drop (cdata + 1) lens" and ?cells = "take cdata cells @ [Some (v @ [NUL])] @ drop (cdata + 1) cells"
  have k: "sq_column_bytes S st i s = length v" and
    t: "sq_column_text S st i s = None \<Longrightarrow> \<not> sq_no_memory S con s \<and> v = []"
    "sq_column_text S st i s = Some b \<Longrightarrow> length v \<le> length b \<and> take (length v) b = v" for b
    using v by (auto simp: field_value_def split: option.splits if_splits)
  have "lite_fields S con st s (length (v # r)) i cdata (cells, lens)
      = lite_fields S con st s (length r) (i + 1) (cdata + 1) (?cells, ?lens)"
    using len t by (cases "sq_column_text S st i s") (auto simp: k memput_def res_bind_def Let_def)
  then show ?case
    using Cons.IH [OF r, of "cdata + 1" ?cells ?lens] Cons.prems(2) len by (simp add: drop_drop add.commute)
qed simp

text \<open>The arrays hold the rows that were read.\<close>

definition rows_read :: "nat \<Rightarrow> nat \<Rightarrow> string list \<Rightarrow> 's lite_env \<Rightarrow> bool" where
  "rows_read n initr vs e \<longleftrightarrow> (\<exists>cells lens. qrows e = Some cells \<and> qlens e = Some lens \<and> qnumfields e = n
     \<and> length cells = n * initr \<and> length lens = n * initr \<and> qnumrows e \<le> initr \<and> length vs = n * qnumrows e
     \<and> take (length vs) cells = cells_of vs \<and> take (length vs) lens = lens_of vs)"

lemma lite_row_step:
  assumes "if firstr then rows_read n initr vs e else vs = [] \<and> initr = 1 \<and> qnumrows e = 0"
    and "sq_column_count S st (sq e) = n" "length r = n" "row_value S con st (sq e) 0 r"
  obtains initr1 e1 where "lite_row S con st firstr initr (length vs) e = Inr (True, initr1, length (vs @ r), e1)"
    "rows_read n initr1 (vs @ r) e1" "sq e1 = sq e" "qnumrows e1 = qnumrows e + 1"
    "e1 = e\<lparr>qnumfields := n, qrows := qrows e1, qlens := qlens e1, qnumrows := qnumrows e + 1\<rparr>"
proof -
  define e0 where "e0 = (if firstr then e
    else e\<lparr>qnumfields := n, qrows := Some (replicate (n * initr) None), qlens := Some (replicate (n * initr) 0)\<rparr>)"
  have "rows_read n initr vs e0"
    using assms(1) by (auto simp: e0_def rows_read_def split: if_splits)
  then obtain cells lens where e0: "qrows e0 = Some cells" "qlens e0 = Some lens" "qnumfields e0 = n" "length cells = n * initr"
    "length lens = n * initr" "qnumrows e0 \<le> initr" "length vs = n * qnumrows e0" "take (length vs) cells = cells_of vs"
    "take (length vs) lens = lens_of vs" by (auto simp: rows_read_def)
  have same: "sq e0 = sq e" "qnumrows e0 = qnumrows e" by (simp_all add: e0_def)
  define grow where "grow = (qnumrows e0 \<ge> initr)"
  define initr1 where "initr1 = (if grow then qnumrows e0 + 1 else initr)"
  define cells1 where "cells1 = (if grow then cells @ replicate (n * initr1 - length cells) None else cells)"
  define lens1 where "lens1 = (if grow then lens @ replicate (n * initr1 - length lens) 0 else lens)"
  have len: "length cells1 = n * initr1" "length lens1 = n * initr1" "qnumrows e0 + 1 \<le> initr1"
    using e0(4,5,6) by (auto simp: cells1_def lens1_def initr1_def grow_def)
  have fits: "length vs + length r \<le> n * initr1"
    using len(3) mult_le_mono2 [OF len(3), of n] by (simp add: e0(7) assms(3))
  have pre: "take (length vs) cells1 = cells_of vs" "take (length vs) lens1 = lens_of vs"
    using e0(4-9) by (auto simp: cells1_def lens1_def)
  let ?cells = "cells_of vs @ cells_of r @ drop (length vs + length r) cells1"
    and ?lens = "lens_of vs @ lens_of r @ drop (length vs + length r) lens1"
  let ?e1 = "e0\<lparr>qrows := Some ?cells, qlens := Some ?lens, qnumrows := qnumrows e0 + 1\<rparr>"
  have f: "lite_fields S con st (sq e0) n 0 (length vs) (cells1, lens1) = Inr (Some (?cells, ?lens))"
    using lite_fields_row [of S con st "sq e0" 0 r "length vs" cells1 lens1] assms(3,4) fits len(1,2) pre by (simp add: same)
  show ?thesis
  proof (rule that [of initr1 ?e1])
    have "(if firstr then e else (let n = sq_column_count S st (sq e) in
        e\<lparr>qnumfields := n, qrows := Some (replicate (n * initr) None), qlens := Some (replicate (n * initr) 0)\<rparr>)) = e0"
      by (simp add: e0_def assms(2))
    then show "lite_row S con st firstr initr (length vs) e = Inr (True, initr1, length (vs @ r), ?e1)"
      unfolding lite_row_def using f e0(1-3)
      by (cases "initr \<le> qnumrows e0")
        (simp_all add: Let_def cells1_def lens1_def initr1_def grow_def res_bind_def assms(3) add.commute)
    show "rows_read n initr1 (vs @ r) ?e1"
      unfolding rows_read_def using len fits e0(3,7) assms(3) by simp
    show "?e1 = e\<lparr>qnumfields := n, qrows := qrows ?e1, qlens := qlens ?e1, qnumrows := qnumrows e + 1\<rparr>"
      using assms(1) same by (auto simp: e0_def rows_read_def split: if_splits)
  qed (simp_all add: same)
qed

text \<open>All rows of an answer.\<close>

lemma data_loop_answer:
  assumes "answer S con st n s rows s'"
  shows "(if firstr then rows_read n initr vs e else vs = [] \<and> initr = 1 \<and> qnumrows e = 0) \<Longrightarrow> sq e = s \<Longrightarrow>
    \<exists>e'. data_loop S con st firstr initr (length vs) e = Some (Inr (0, e')) \<and> sq e' = s' \<and> qnumrows e' = qnumrows e + length rows
      \<and> (if firstr \<or> rows \<noteq> [] then \<exists>initr'. rows_read n initr' (vs @ concat rows) e'
         else qrows e' = qrows e \<and> qlens e' = qlens e \<and> qnumfields e' = qnumfields e)
      \<and> con_of e' = con_of e \<and> stmt_of e' = stmt_of e"
  using assms
proof (induction arbitrary: firstr initr vs e rule: answer.induct)
  case (no_more s s')
  then show ?case
    by (subst data_loop.simps) (auto simp: rows_read_def)
next
  case (one_more s s1 r rows s')
  let ?e = "e\<lparr>sq := s1\<rparr>"
  have pre: "if firstr then rows_read n initr vs ?e else vs = [] \<and> initr = 1 \<and> qnumrows ?e = 0"
    using one_more.prems(1) by (cases firstr) (simp_all add: rows_read_def)
  have h: "sq_column_count S st (sq ?e) = n" "row_value S con st (sq ?e) 0 r" using one_more.hyps by simp_all
  obtain initr1 e1 where e1: "lite_row S con st firstr initr (length vs) ?e = Inr (True, initr1, length (vs @ r), e1)"
    "rows_read n initr1 (vs @ r) e1" "sq e1 = sq ?e" "qnumrows e1 = qnumrows ?e + 1"
    "e1 = ?e\<lparr>qnumfields := n, qrows := qrows e1, qlens := qlens e1, qnumrows := qnumrows ?e + 1\<rparr>"
    by (rule lite_row_step [OF pre h(1) one_more.hyps(3) h(2)])
  have same: "con_of e1 = con_of e" "stmt_of e1 = stmt_of e" by (subst e1(5), simp)+
  have "data_loop S con st firstr initr (length vs) e = data_loop S con st True initr1 (length (vs @ r)) e1"
    using one_more.hyps(1) one_more.prems(2) e1(1) by (subst data_loop.simps) simp
  moreover obtain e' where "data_loop S con st True initr1 (length (vs @ r)) e1 = Some (Inr (0, e'))" "sq e' = s'"
    "qnumrows e' = qnumrows e1 + length rows" "\<exists>initr'. rows_read n initr' ((vs @ r) @ concat rows) e'"
    "con_of e' = con_of e1" "stmt_of e' = stmt_of e1"
    using one_more.IH [of True initr1 "vs @ r" e1] e1(2,3) by auto
  ultimately show ?case using e1(4) same by auto
qed

section \<open>Rows in a query\<close>

lemma store_fields_row:
  "take (length r) row = cells_of r \<Longrightarrow> take (length r) lens = lens_of r \<Longrightarrow> cpos + length r \<le> length dat \<Longrightarrow> length dl = length dat
    \<Longrightarrow> store_fields 0 row lens cpos (length r) (dat, dl)
       = Inr (take cpos dat @ cells_of r @ drop (cpos + length r) dat, take cpos dl @ map Some (lens_of r) @ drop (cpos + length r) dl)"
proof (induction r arbitrary: row lens cpos dat dl)
  case (Cons v r)
  obtain row1 lens1 where row: "row = Some (v @ [NUL]) # row1" "take (length r) row1 = cells_of r"
    "lens = length v # lens1" "take (length r) lens1 = lens_of r"
    using Cons.prems(1,2) by (cases row; cases lens) auto
  let ?dat = "take cpos dat @ [Some (v @ [NUL])] @ drop (cpos + 1) dat" and ?dl = "take cpos dl @ [Some (length v)] @ drop (cpos + 1) dl"
  have "store_fields 0 row lens cpos (length (v # r)) (dat, dl) = store_fields 0 row1 lens1 (cpos + 1) (length r) (?dat, ?dl)"
    using Cons.prems(3,4) by (simp add: row field_memory_def memput_def res_bind_def)
  then show ?case
    using Cons.IH [OF row(2,4), of "cpos + 1" ?dat ?dl] Cons.prems(3,4) by (simp add: drop_drop add.commute)
qed simp

text \<open>The driver serves the rows it holds, one at a time.\<close>

definition serving :: "nat \<Rightarrow> string option list \<Rightarrow> nat list \<Rightarrow> nat \<Rightarrow> 's lite_env dbs \<Rightarrow> bool" where
  "serving n cells lens r w \<longleftrightarrow> curr_ok w \<and> db_type (cur w) = VV_DB_SQLITE \<and> qrows (env w) = Some cells
     \<and> qlens (env w) = Some lens \<and> qnumfields (env w) = n \<and> qrownow (env w) = r"

lemma serve_row:
  assumes "serving n cells lens r w"
  obtains w1 where
    "with_driver (\<lambda>_. lite_driver S files dir x) (\<lambda>d. drv_rows d p k j) w = Some (Inr ((0, drop (n * r) cells, drop (n * r) lens), w1))"
    "serving n cells lens (r + 1) w1" "need_copy (cur w1) = 0" "sq (env w1) = sq (env w)"
proof
  let ?w1 = "with_cur (\<lambda>c. c\<lparr>need_copy := 0\<rparr>) w\<lparr>env := (env w)\<lparr>qrownow := r + 1\<rparr>\<rparr>"
  have c: "curr_ok ?w1" "cur ?w1 = (cur w)\<lparr>need_copy := 0\<rparr>" using assms by (simp_all add: serving_def curr_ok_def with_cur_def)
  show "with_driver (\<lambda>_. lite_driver S files dir x) (\<lambda>d. drv_rows d p k j) w
      = Some (Inr ((0, drop (n * r) cells, drop (n * r) lens), ?w1))"
    using assms by (simp add: serving_def with_driver_def VV_CURR_DB_def lite_driver_def vely_lite_rows_def vely_lite_stmt_rows_def
        db_bind_def set_curr_with db_get_def lite_do_def db_do_def db_return_def Let_def)
  show "serving n cells lens (r + 1) ?w1" using assms c unfolding serving_def by simp
  show "need_copy (cur ?w1) = 0" unfolding c(2) by simp
qed simp

lemma select_rows_answer:
  assumes "\<forall>r \<in> set rows. length r = n"
  shows "serving n cells lens r w \<Longrightarrow> take (length (vs @ concat rows)) cells = cells_of (vs @ concat rows)
    \<Longrightarrow> take (length (vs @ concat rows)) lens = lens_of (vs @ concat rows) \<Longrightarrow> length vs = n * r \<Longrightarrow> r \<le> batch
    \<Longrightarrow> length dat = batch * n \<Longrightarrow> length dl = batch * n \<Longrightarrow> take (length vs) dat = cells_of vs
    \<Longrightarrow> take (length vs) dl = map Some (lens_of vs)
    \<Longrightarrow> \<exists>dat' dl' w'. select_rows (\<lambda>_. lite_driver S files dir x) p n batch (length rows) r (dat, dl) w = Some (Inr ((True, dat', dl'), w'))
      \<and> take (length (vs @ concat rows)) dat' = cells_of (vs @ concat rows)
      \<and> take (length (vs @ concat rows)) dl' = map Some (lens_of (vs @ concat rows)) \<and> sq (env w') = sq (env w)"
  using assms
proof (induction rows arbitrary: r w vs batch dat dl)
  case Nil
  then show ?case by (simp add: db_return_def)
next
  case (Cons row rows)
  let ?drv = "\<lambda>_. lite_driver S files dir x"
  obtain w1 where w1: "with_driver ?drv (\<lambda>d. drv_rows d p n r) w = Some (Inr ((0, drop (n * r) cells, drop (n * r) lens), w1))"
    "serving n cells lens (r + 1) w1" "need_copy (cur w1) = 0" "sq (env w1) = sq (env w)"
    by (rule serve_row [OF Cons.prems(1)])
  have ok: "curr_ok w1" using w1(2) by (simp add: serving_def)
  have row: "length row = n" using Cons.prems(10) by simp
  define batch1 where "batch1 = (if r \<ge> batch then batch + VV_INITIAL_QUERY_BATCH else batch)"
  define dat1 where "dat1 = (if r \<ge> batch then dat @ replicate (batch1 * n - length dat) None else dat)"
  define dl1 where "dl1 = (if r \<ge> batch then dl @ replicate (batch1 * n - length dl) None else dl)"
  have b: "r + 1 \<le> batch1" using Cons.prems(5) by (simp add: batch1_def VV_INITIAL_QUERY_BATCH_def)
  have len: "length dat1 = batch1 * n" "length dl1 = batch1 * n"
    using Cons.prems(6,7) by (simp_all add: dat1_def dl1_def batch1_def algebra_simps)
  have vs: "length vs \<le> length dat" "length vs \<le> length dl"
    using Cons.prems(4-7) by (simp_all add: mult.commute)
  have pre: "take (length vs) dat1 = cells_of vs" "take (length vs) dl1 = map Some (lens_of vs)"
    using Cons.prems(8,9) vs by (simp_all add: dat1_def dl1_def)
  have fits: "r * n + n \<le> batch1 * n" using mult_le_mono1 [OF b, of n] by (simp add: algebra_simps)
  have at: "r * n = length vs" using Cons.prems(4) by (simp add: mult.commute)
  have "drop (n * r) (take (length vs + n) cells) = cells_of row" "drop (n * r) (take (length vs + n) lens) = lens_of row"
    using arg_cong [OF Cons.prems(2), of "take (length vs + n)"] arg_cong [OF Cons.prems(3), of "take (length vs + n)"]
      Cons.prems(4) row by (simp_all add: min_absorb1)
  then have here: "take n (drop (n * r) cells) = cells_of row" "take n (drop (n * r) lens) = lens_of row"
    using Cons.prems(4) by (simp_all add: take_drop add.commute)
  let ?dat = "take (length vs) dat1 @ cells_of row @ drop (length vs + n) dat1"
    and ?dl = "take (length vs) dl1 @ map Some (lens_of row) @ drop (length vs + n) dl1"
  have st: "store_fields 0 (drop (n * r) cells) (drop (n * r) lens) (r * n) n (dat1, dl1) = Inr (?dat, ?dl)"
    using store_fields_row [of row "drop (n * r) cells" "drop (n * r) lens" "r * n" dat1 dl1] here fits len row at by simp
  have "select_rows ?drv p n batch (length (row # rows)) r (dat, dl) w = select_rows ?drv p n batch1 (length rows) (r + 1) (?dat, ?dl) w1"
    using st w1(1,3) ok
    by (cases "batch \<le> r")
      (simp_all add: db_bind_def Let_def batch1_def dat1_def dl1_def VV_CURR_DB_def db_res_def db_return_def)
  moreover obtain dat' dl' w' where
    "select_rows ?drv p n batch1 (length rows) (r + 1) (?dat, ?dl) w1 = Some (Inr ((True, dat', dl'), w'))"
    "take (length ((vs @ row) @ concat rows)) dat' = cells_of ((vs @ row) @ concat rows)"
    "take (length ((vs @ row) @ concat rows)) dl' = map Some (lens_of ((vs @ row) @ concat rows))" "sq (env w') = sq (env w1)"
    using Cons.IH [OF w1(2), of "vs @ row" batch1 ?dat ?dl] Cons.prems(2-4,10) b len fits row at pre
    by (auto simp: algebra_simps)
  ultimately show ?case using w1(4) by auto
qed

section \<open>A query\<close>

text \<open>SQLite holds the connection in use, and it answers a statement without arguments.\<close>

definition lite_connected :: "nat \<Rightarrow> 's lite_env dbs \<Rightarrow> bool" where
  "lite_connected con w \<longleftrightarrow> connected w \<and> db_type (cur w) = VV_DB_SQLITE \<and> con_of (env w) (ind_current_db w) = Some con"

definition answers_query :: "'s sqlite \<Rightarrow> nat \<Rightarrow> string \<Rightarrow> 's \<Rightarrow> nat option \<Rightarrow> nat \<Rightarrow> string list list \<Rightarrow> 's \<Rightarrow> bool" where
  "answers_query S con s s0 st n rows s2 \<longleftrightarrow>
     (\<exists>s1. sq_prepare S con s s0 = (True, st, s1) \<and> sq_parameter_count S st s1 = 0 \<and> answer S con st n s1 rows s2)"

lemma no_arguments:
  assumes "find_str False s quoted_arg = None"
  shows "vely_db_prep_text db x s = Inr (s @ [NUL])"
  using assms count_loop_find(2) [of False s quoted_arg]
  by (simp add: vely_db_prep_text_def vely_count_substring_def Let_def)

lemma prepare_answer:
  assumes "lite_connected con w" "find_str False s quoted_arg = None" "NUL \<notin> set s"
    and "sq_prepare S con s (sq (env w)) = (True, st, s1)" "sq_parameter_count S st s1 = 0"
  obtains w1 where "vely_lite_prep_stmt S x False pr s 0 w = Some (Inr (0, w1))" "lite_connected con w1" "sq (env w1) = s1"
    "stmt_of (env w1) (ind_current_db w1) = Some st" "qnumfields (env w1) = qnumfields (env w)"
proof
  let ?w0 = "w\<lparr>env := (env w)\<lparr>sq := s1, stmt_of := (stmt_of (env w))(ind_current_db w := Some st)\<rparr>,
    prep_at := (case pr of None \<Rightarrow> prep_at w | Some p \<Rightarrow> (prep_at w)(p := st))\<rparr>"
  let ?w1 = "with_cur (\<lambda>c. c\<lparr>num_inp := 0\<rparr>) ?w0"
  have c: "curr_ok w" "dbc (cur w)" "con_of (env w) (ind_current_db w) = Some con" "db_type (cur w) = VV_DB_SQLITE"
    using assms(1) by (simp_all add: lite_connected_def connected_def)
  have "takeWhile (\<lambda>c. c \<noteq> NUL) (s @ [NUL]) = s" using assms(3) by (induction s) auto
  then have t: "cstr (s @ [NUL]) = s" by (simp add: cstr_def)
  have c1: "curr_ok ?w1" "cur ?w1 = (cur w)\<lparr>num_inp := 0\<rparr>" using c(1) by (simp_all add: curr_ok_def with_cur_def)
  show "vely_lite_prep_stmt S x False pr s 0 w = Some (Inr (0, ?w1))"
    using c c1 assms(4,5)
    by (cases pr) (simp_all add: vely_lite_prep_stmt_def db_bind_def db_get_def VV_CURR_DB_def db_res_def no_arguments [OF assms(2)] t
        db_return_def lite_con_def lite_stmt_def sq_do_def lite_do_def db_do_def set_stmt_def set_curr_with curr_ok_def with_cur_def)
  show "lite_connected con ?w1"
    using c c1 by (simp add: lite_connected_def connected_def with_cur_def curr_ok_def)
qed simp_all

lemma exec_answer:
  assumes "lite_connected con w" "find_str False s quoted_arg = None" "NUL \<notin> set s"
    and "answers_query S con s (sq (env w)) st n rows s2"
  obtains w' where "vely_lite_exec S x s False pr [] w = Some (Inr (0, w'))" "lite_connected con w'"
    "sq (env w') = sq_clear_bindings S st (sq_reset S st s2)" "qrownow (env w') = 0" "qnumrows (env w') = length rows"
    "if rows \<noteq> [] then \<exists>initr. rows_read n initr (concat rows) (env w') else qnumfields (env w') = qnumfields (env w)"
proof -
  obtain s1 where s1: "sq_prepare S con s (sq (env w)) = (True, st, s1)" "sq_parameter_count S st s1 = 0" "answer S con st n s1 rows s2"
    using assms(4) by (auto simp: answers_query_def)
  obtain w1 where w1: "vely_lite_prep_stmt S x False pr s 0 w = Some (Inr (0, w1))" "lite_connected con w1" "sq (env w1) = s1"
    "stmt_of (env w1) (ind_current_db w1) = Some st" "qnumfields (env w1) = qnumfields (env w)"
    by (rule prepare_answer [OF assms(1-3) s1(1,2)])
  let ?e = "(env w1)\<lparr>qrows := None, qlens := None, qnumrows := 0\<rparr>"
  obtain e' where e': "data_loop S con st False 1 0 ?e = Some (Inr (0, e'))" "sq e' = s2" "qnumrows e' = length rows"
    "if rows \<noteq> [] then \<exists>initr. rows_read n initr (concat rows) e' else qnumfields e' = qnumfields ?e"
    "con_of e' = con_of (env w1)" "stmt_of e' = stmt_of (env w1)"
    using data_loop_answer [OF s1(3), of False 1 "[]" ?e] w1(3) by (cases "rows = []") auto
  let ?w' = "w1\<lparr>env := e'\<lparr>qrownow := 0, sq := sq_clear_bindings S st (sq_reset S st s2)\<rparr>\<rparr>"
  have c: "curr_ok w1" "dbc (cur w1)" "con_of (env w1) (ind_current_db w1) = Some con"
    using w1(2) by (simp_all add: lite_connected_def connected_def)
  show ?thesis
  proof (rule that [of ?w'])
    have "curr_ok (w1\<lparr>env := y\<rparr>)" for y using c(1) by (simp add: curr_ok_def)
    then show "vely_lite_exec S x s False pr [] w = Some (Inr (0, ?w'))"
      using w1(1,4) c e'
      by (simp add: vely_lite_exec_def db_bind_def db_return_def vely_lite_get_data_def lite_con_def lite_stmt_def VV_CURR_DB_def
          db_get_def lite_do_def db_do_def sq_do_def)
    show "if rows \<noteq> [] then \<exists>initr. rows_read n initr (concat rows) (env ?w') else qnumfields (env ?w') = qnumfields (env w)"
      using e'(4) w1(5) by (cases "rows = []") (simp_all add: rows_read_def)
    show "lite_connected con ?w'"
      using w1(2) e'(5) by (simp add: lite_connected_def connected_def curr_ok_def)
  qed (use e' in simp_all)
qed

text \<open>The statement of a program is none about transactions.\<close>

definition plain_statement :: "string \<Rightarrow> bool" where
  "plain_statement s \<longleftrightarrow> s \<noteq> [] \<and> NUL \<notin> set s \<and> find_str False s quoted_arg = None
     \<and> \<not> (vely_firstword ''BEGIN'' s \<or> vely_firstword ''START'' s \<or> vely_firstword ''COMMIT'' s \<or> vely_firstword ''ROLLBACK'' s)"

lemma with_lite:
  "lite_connected con w \<Longrightarrow> with_driver (\<lambda>_. lite_driver S files dir x) f w = f (lite_driver S files dir x) w"
  by (simp add: lite_connected_def connected_def with_driver_def VV_CURR_DB_def)

lemma got_connection: "lite_connected con w \<Longrightarrow> vely_get_db_connection drv a w = Some (Inr (True, w))"
  by (auto simp: lite_connected_def connected_def curr_ok_def vely_get_db_connection_def db_get_def VV_CURR_DB_def db_return_def)

lemma execute_answer:
  assumes "lite_connected con w" "plain_statement s" "answers_query S con s (sq (env w)) st n rows s2"
  obtains w' where "vely_execute_SQL (\<lambda>_. lite_driver S files dir x) s False 1 True False pr [] a w
      = Some (Inr (\<lparr>okay = True, arows = None, o_er = ''0'', o_errm = []\<rparr>, w'))" "lite_connected con w'"
    "sq (env w') = sq_clear_bindings S st (sq_reset S st s2)" "qrownow (env w') = 0" "qnumrows (env w') = length rows"
    "if rows \<noteq> [] then \<exists>initr. rows_read n initr (concat rows) (env w') else qnumfields (env w') = qnumfields (env w)"
proof -
  have s: "s \<noteq> []" "NUL \<notin> set s" "find_str False s quoted_arg = None" "\<not> (vely_firstword ''BEGIN'' s \<or> vely_firstword ''START'' s
      \<or> vely_firstword ''COMMIT'' s \<or> vely_firstword ''ROLLBACK'' s)" using assms(2) by (simp_all add: plain_statement_def)
  obtain w' where w': "vely_lite_exec S x s False pr [] w = Some (Inr (0, w'))" "lite_connected con w'"
    "sq (env w') = sq_clear_bindings S st (sq_reset S st s2)" "qrownow (env w') = 0" "qnumrows (env w') = length rows"
    "if rows \<noteq> [] then \<exists>initr. rows_read n initr (concat rows) (env w') else qnumfields (env w') = qnumfields (env w)"
    by (rule exec_answer [OF assms(1) s(3,2) assms(3)])
  have "with_driver (\<lambda>_. lite_driver S files dir x) (\<lambda>d. drv_exec d s 1 False pr []) w = Some (Inr (0, w'))"
    using w'(1) by (simp add: with_lite [OF assms(1)])
  then show ?thesis
    by (intro that [OF _ w'(2-6)])
      (use s in \<open>simp add: vely_execute_SQL_def db_bind_def got_connection [OF assms(1)] db_return_def Let_def\<close>)
qed

text \<open>C15: for a query that is made when the program runs and has no arguments (not a prepared one), the program gets exactly
  the rows that SQLite gives, in order, each field with a zero byte after it and with its length, for any number of rows.
  The number of columns is that of the query, unless it has no rows: then it is what the query before it left (lite.c:111).\<close>

theorem query_rows_exact:
  assumes "lite_connected con w" "plain_statement s" "answers_query S con s (sq (env w)) st n rows s2"
    and "\<forall>r \<in> set rows. length r = n"
  shows "\<exists>out w'. vely_select_table (\<lambda>_. lite_driver S files dir x) s False True False pr [] a no_rows w = Some (Inr (out, w'))
    \<and> s_nrow out = int (length rows) \<and> s_ncol out = (if rows = [] then qnumfields (env w) else n) \<and> s_er out = ''0''
    \<and> take (length (concat rows)) (sdata out) = cells_of (concat rows)
    \<and> take (length (concat rows)) (dlen out) = map Some (lens_of (concat rows))
    \<and> sq (env w') = sq_clear_bindings S st (sq_reset S st s2)"
proof -
  let ?drv = "\<lambda>_. lite_driver S files dir x" and ?m = "if rows = [] then qnumfields (env w) else n"
  obtain w1 where w1: "vely_execute_SQL ?drv s False 1 True False pr [] a w
      = Some (Inr (\<lparr>okay = True, arows = None, o_er = ''0'', o_errm = []\<rparr>, w1))" "lite_connected con w1"
    "sq (env w1) = sq_clear_bindings S st (sq_reset S st s2)" "qrownow (env w1) = 0" "qnumrows (env w1) = length rows"
    "if rows \<noteq> [] then \<exists>initr. rows_read n initr (concat rows) (env w1) else qnumfields (env w1) = qnumfields (env w)"
    by (rule execute_answer [OF assms(1-3)])
  have m: "qnumfields (env w1) = ?m" using w1(6) by (auto simp: rows_read_def)
  let ?k = "VV_INITIAL_QUERY_BATCH * ?m"
  obtain dat dl w' where d: "select_rows ?drv False ?m VV_INITIAL_QUERY_BATCH (length rows) 0 (replicate ?k None, replicate ?k None) w1
      = Some (Inr ((True, dat, dl), w'))" "take (length (concat rows)) dat = cells_of (concat rows)"
    "take (length (concat rows)) dl = map Some (lens_of (concat rows))" "sq (env w') = sq (env w1)"
  proof (cases "rows = []")
    case True
    then show ?thesis using that [of "replicate ?k None" "replicate ?k None" w1] by (simp add: db_return_def)
  next
    case False
    then obtain cells lens where c: "qrows (env w1) = Some cells" "qlens (env w1) = Some lens" "qnumfields (env w1) = n"
      "take (length (concat rows)) cells = cells_of (concat rows)" "take (length (concat rows)) lens = lens_of (concat rows)"
      using w1(6) by (auto simp: rows_read_def)
    have serve: "serving n cells lens 0 w1"
      using w1(2,4) c by (simp add: serving_def lite_connected_def connected_def)
    show ?thesis
      using select_rows_answer [OF assms(4) serve, of "[]" VV_INITIAL_QUERY_BATCH "replicate ?k None" "replicate ?k None" S files dir x False]
        c(4,5) that False by auto
  qed
  have "curr_ok w1" "db_type (cur w1) \<noteq> VV_DB_MARIADB" "dbc (cur w1)" "con_of (env w1) (ind_current_db w1) = Some con"
    using w1(2) by (simp_all add: lite_connected_def connected_def VV_DB_SQLITE_def VV_DB_MARIADB_def)
  then have "vely_select_table ?drv s False True False pr [] a no_rows w = Some (Inr (no_rows\<lparr>s_er := ''0'', s_errm := [],
      s_arow := sq_changes S con (sq (env w1)), s_ncol := ?m, s_nrow := int (length rows), sdata := dat, dlen := dl\<rparr>, w'))"
    using w1(1,5) m d(1)
    by (simp add: vely_select_table_def db_bind_def VV_CURR_DB_def db_return_def with_lite [OF w1(2)] vely_arows_def
        vely_lite_nfield_def vely_lite_affected_def vely_lite_nrows_def db_get_def lite_con_def Let_def no_rows_def)
  then show ?thesis using d w1(3) by simp
qed

text \<open>A library that answers every query with two rows of a text and a null, to apply the properties at.\<close>

definition demo_sqlite :: "nat sqlite" where
  "demo_sqlite =
     \<lparr>sq_open = (\<lambda>p s. (True, 7, s)), sq_close = (\<lambda>k s. s),
      sq_prepare = (\<lambda>k t s. (True, Some 3, if t = ''select'' then 2 else 0)),
      sq_parameter_count = (\<lambda>st s. 0), sq_bind_text = (\<lambda>st i v s. (True, s)),
      sq_step = (\<lambda>st s. if s = 0 then (Finished, 0) else (Row, s - 1)),
      sq_column_count = (\<lambda>st s. 2), sq_column_text = (\<lambda>st i s. if i = 0 then Some ''ab'' else None),
      sq_column_bytes = (\<lambda>st i s. if i = 0 then 2 else 0), sq_column_name = (\<lambda>st i s. Some ''c''),
      sq_reset = (\<lambda>st s. s), sq_clear_bindings = (\<lambda>st s. s), sq_finalize = (\<lambda>k s. s),
      sq_errcode = (\<lambda>k s. 0), sq_no_memory = (\<lambda>k s. False), sq_errmsg = (\<lambda>k s. []), sq_changes = (\<lambda>k s. 0),
      sq_parse_error = 1064\<rparr>"

definition demo_env :: "nat lite_env" where
  "demo_env = \<lparr>cerror = None, qnumrows = 0, qnumfields = 0, qrownow = 0, qrows = None, qlens = None, qcolid = 0,
     vely_stmt_cached = 0, con_of = (\<lambda>_. Some 7), stmt_of = (\<lambda>_. None), sq = 0\<rparr>"

definition demo_dbs :: "nat lite_env dbs" where
  "demo_dbs = (init_dbs [(''db'', VV_DB_SQLITE)] demo_env)\<lparr>ind_current_db := 0,
     conn := [\<lparr>dbc = True, is_begin_transaction = 0, num_inp = 0, need_copy = 0, has_connected = 1, db_name = ''db'',
       db_type = VV_DB_SQLITE, exit_on_error = 1\<rparr>]\<rparr>"

abbreviation demo_rows :: "string list list" where
  "demo_rows \<equiv> [[''ab'', []], [''ab'', []]]"

theorem query_rows_exact_witness:
  "\<exists>out w'. vely_select_table (\<lambda>_. lite_driver demo_sqlite (\<lambda>_. None) [] NUL) ''select'' False True False None [] VV_OKAY no_rows demo_dbs
      = Some (Inr (out, w')) \<and> s_nrow out = int (length demo_rows)
    \<and> s_ncol out = (if demo_rows = [] then qnumfields (env demo_dbs) else 2) \<and> s_er out = ''0''
    \<and> take (length (concat demo_rows)) (sdata out) = cells_of (concat demo_rows)
    \<and> take (length (concat demo_rows)) (dlen out) = map Some (lens_of (concat demo_rows))
    \<and> sq (env w') = sq_clear_bindings demo_sqlite (Some 3) (sq_reset demo_sqlite (Some 3) 0)"
proof (rule query_rows_exact)
  have step: "sq_step demo_sqlite st (Suc s) = (Row, s)" "sq_step demo_sqlite st 0 = (Finished, 0)"
    "sq_column_count demo_sqlite st s = 2" for st s by (simp_all add: demo_sqlite_def)
  have row: "row_value demo_sqlite con st s 0 [''ab'', []]" for con st s
    by (simp add: row_value_Cons) (simp add: row_value_def field_value_def demo_sqlite_def)
  have "answer demo_sqlite 7 (Some 3) 2 (Suc (Suc 0)) demo_rows 0"
    by (rule one_more, rule step, rule step, simp, rule row, rule one_more, rule step, rule step, simp, rule row, rule no_more, rule step)
  then show "answers_query demo_sqlite 7 ''select'' (sq (env demo_dbs)) (Some 3) 2 demo_rows 0"
    unfolding answers_query_def by (intro exI [of _ "Suc (Suc 0)"])
      (simp add: demo_sqlite_def demo_dbs_def init_dbs_def demo_env_def)
  show "lite_connected 7 demo_dbs"
    by (simp add: lite_connected_def connected_def curr_ok_def demo_dbs_def init_dbs_def demo_env_def)
  show "plain_statement ''select''" by code_simp
qed simp_all

end
