(* ===== verification/DbRequests.thy ===== *)
theory DbRequests
  imports LiteRows
begin

text \<open>
  Properties of requests that use databases, for every driver that keeps the contract, applied to the SQLite driver.
\<close>

text \<open>A program and a database to apply the properties at.\<close>

definition demo_drv :: "int \<Rightarrow> nat lite_env driver" where
  "demo_drv = (\<lambda>_. lite_driver demo_sqlite (\<lambda>_. Some ''file'') ''dir'' NUL)"

definition demo_ops :: "db_op list" where
  "demo_ops = [Use_db 0, Begin [] 0, Query ''select'' False False None [] 0]"

lemma demo_database: "database demo_drv"
  unfolding demo_drv_def by (rule lite_db.database_axioms)

fun is_next :: "'e process option \<Rightarrow> bool" where
  "is_next (Some (Next w)) = True"
| "is_next _ = False"

lemma demo_runs: "is_next (db_requests demo_drv [demo_ops, demo_ops] (init_dbs [(''db'', VV_DB_SQLITE)] demo_env))"
  by code_simp


section \<open>Requests\<close>

lemma config_marks: "config_of x c \<Longrightarrow> is_begin_transaction c = 0 \<or> is_begin_transaction c = 1 \<and> dbc c"
  by (cases x) (auto simp: config_of_def)

text \<open>C14: after any requests that leave the process running, whatever their programs do and whatever the databases answer,
  no connection is marked as being in a transaction.\<close>

theorem requests_end_transactions:
  assumes "database drv" "db_requests drv reqs (init_dbs dbs e) = Some (Next w)"
  shows "map is_begin_transaction (conn w) = replicate (length dbs) 0"
proof -
  have "\<forall>c \<in> set (conn (init_dbs dbs e)). is_begin_transaction c \<noteq> 1" by (auto simp: init_dbs_def)
  then have "connections_ok dbs w" and none: "\<forall>c \<in> set (conn w). is_begin_transaction c \<noteq> 1"
    using database.requests_next [OF assms(1) connections_ok_init _ assms(2)] by blast+
  then have "length (conn w) = length dbs" "\<forall>k < length (conn w). config_of (dbs ! k) (conn w ! k)"
    by (simp_all add: connections_ok_def list_all2_conv_all_nth)
  then show ?thesis
    using none by (intro nth_equalityI) (auto dest!: spec dest: config_marks nth_mem)
qed

theorem requests_end_transactions_witness:
  "\<exists>w. db_requests demo_drv [demo_ops, demo_ops] (init_dbs [(''db'', VV_DB_SQLITE)] demo_env) = Some (Next w)
     \<and> map is_begin_transaction (conn w) = replicate (length [(''db'', VV_DB_SQLITE)]) 0"
proof -
  obtain w where w: "db_requests demo_drv [demo_ops, demo_ops] (init_dbs [(''db'', VV_DB_SQLITE)] demo_env) = Some (Next w)"
    using demo_runs by (auto elim: is_next.elims)
  show ?thesis using w requests_end_transactions [OF demo_database w] by blast
qed

text \<open>The state after an operation that returned or was left by a fault.\<close>

fun state_after :: "(fault \<times> 'e dbs) + ('a \<times> 'e dbs) \<Rightarrow> 'e dbs" where
  "state_after (Inl (f, w)) = w"
| "state_after (Inr (x, w)) = w"

lemma keeps_after: "keeps I m \<Longrightarrow> I w \<Longrightarrow> m w = Some out \<Longrightarrow> I (state_after out)"
  by (cases out rule: state_after.cases) (auto dest: hoareD)

text \<open>C38: at any point of any request the connections are well formed: they are those of the configuration, with their names
  and types, every mark is 0 or 1, and a connection marked as being in a transaction has its structure.\<close>

theorem connections_well_formed:
  assumes "database drv" "db_requests drv reqs (init_dbs dbs e) = Some (Next w)" "run_db drv ops w = Some out"
  shows "connections_ok dbs (state_after out)"
proof -
  have "\<forall>c \<in> set (conn (init_dbs dbs e)). is_begin_transaction c \<noteq> 1" by (auto simp: init_dbs_def)
  then have "connections_ok dbs w"
    using database.requests_next [OF assms(1) connections_ok_init _ assms(2)] by blast
  then show ?thesis by (rule keeps_after [OF database.run_db_ok [OF assms(1)] _ assms(3)])
qed

theorem connections_well_formed_witness:
  "\<exists>w out. db_requests demo_drv [demo_ops, demo_ops] (init_dbs [(''db'', VV_DB_SQLITE)] demo_env) = Some (Next w)
     \<and> run_db demo_drv [] w = Some out \<and> connections_ok [(''db'', VV_DB_SQLITE)] (state_after out)"
proof -
  obtain w where w: "db_requests demo_drv [demo_ops, demo_ops] (init_dbs [(''db'', VV_DB_SQLITE)] demo_env) = Some (Next w)"
    using demo_runs by (auto elim: is_next.elims)
  have r: "run_db demo_drv [] w = Some (Inr ((), w))" by (simp add: db_return_def)
  show ?thesis using w r connections_well_formed [OF demo_database w r] by blast
qed

text \<open>A connection marked as being in a transaction has its structure, so connecting never meets the error for a connection
  that was lost in a transaction: the mark is gone by then.\<close>

lemma lost_in_transaction_unreachable:
  assumes "connections_ok dbs w" "curr_ok w" "\<not> dbc (cur w)"
  shows "is_begin_transaction (cur w) = 0"
  using assms config_marks [of "dbs ! nat (ind_current_db w)" "cur w"]
  by (simp add: connections_ok_def curr_ok_def list_all2_conv_all_nth)

section \<open>Transactions\<close>

text \<open>C9: once a transaction has begun on the connection \<open>i\<close>, the operations that follow leave it in its session, as long as none
  of them ends it or begins another in it (\<open>within\<close>): the connection is neither closed nor made again, the transaction stays
  marked, and no call that reaches a driver makes or closes a connection while \<open>i\<close> is in use, even when statements fail or
  the connection is lost.  The operations are those of any program, with the choice of the connection that the preprocessor
  puts before each statement (v1.c:1804); on other connections they may also begin, commit and roll back transactions.\<close>

theorem transaction_in_one_session:
  assumes "database drv" "vely_begin_transaction drv t a w = Some (Inr ((1, msg), w1))"
    and "within (ind_current_db w1) (ind_current_db w1) ops" "run_db drv ops w1 = Some out"
  shows "in_transaction drv (env w1) (ind_current_db w1) (state_after out)"
proof -
  note run = database.run_in_transaction [OF assms(1,3), of "env w1"]
  note begun = database.begin_in_transaction [OF assms(1,2)]
  show ?thesis
    using hoareD [OF run begun] assms(4) by (cases out rule: state_after.cases) auto
qed

text \<open>Two databases, and a transaction of the second one inside that of the first.\<close>

definition two_dbs :: "nat lite_env dbs" where
  "two_dbs = (init_dbs [(''a'', VV_DB_SQLITE), (''b'', VV_DB_SQLITE)] demo_env)\<lparr>ind_current_db := 0\<rparr>"

definition two_ops :: "db_op list" where
  "two_ops = [Use_db 0, Query ''select'' False False None [] 0, Use_db 1, Begin [] 0, Run ''insert'' 0 False None [] 0,
     Commit [] 0, Use_db 0, Run ''update'' 0 False None [] 0]"

definition demo_begin :: "((transaction_out \<times> nat lite_env dbs) option)" where
  "demo_begin = (case vely_begin_transaction demo_drv [] 0 two_dbs of Some (Inr r) \<Rightarrow> Some r | _ \<Rightarrow> None)"

lemma demo_begin_ok:
  "(case demo_begin of Some ((st, _), w1) \<Rightarrow> st = 1 \<and> ind_current_db w1 = 0 \<and> run_db demo_drv two_ops w1 \<noteq> None | None \<Rightarrow> False)"
  by code_simp

theorem transaction_in_one_session_witness:
  "\<exists>msg w1 out. vely_begin_transaction demo_drv [] 0 two_dbs = Some (Inr ((1, msg), w1))
     \<and> run_db demo_drv two_ops w1 = Some out \<and> in_transaction demo_drv (env w1) (ind_current_db w1) (state_after out)"
proof -
  obtain msg w1 out where b: "vely_begin_transaction demo_drv [] 0 two_dbs = Some (Inr ((1, msg), w1))"
    and i: "ind_current_db w1 = 0" and r: "run_db demo_drv two_ops w1 = Some out"
    using demo_begin_ok by (fastforce simp: demo_begin_def split: option.splits sum.splits prod.splits)
  have s: "within (ind_current_db w1) (ind_current_db w1) two_ops" by (simp add: i two_ops_def)
  show ?thesis using b r transaction_in_one_session [OF demo_database b s r] by blast
qed

section \<open>A connection that could not be made\<close>

text \<open>C34: when the configuration of an SQLite database cannot be read, the request ends with an error, but the next request
  takes the structure that was allocated for a connection and passes a pointer that nothing has set to SQLite.\<close>

theorem failed_connect_breaks:
  assumes "plain_statement s" "files (take 149 (dir @ ''/'' @ name)) = None"
  shows "db_requests (\<lambda>_. lite_driver S files dir x) [[Use_db 0, Run s 0 False None [] a], [Use_db 0, Run s 0 False None [] a]]
      (init_dbs [(name, VV_DB_SQLITE)] e) = Some (Broken Out_of_bounds)"
proof -
  let ?drv = "\<lambda>_. lite_driver S files dir x" and ?w = "(init_dbs [(name, VV_DB_SQLITE)] e)\<lparr>ind_current_db := 0\<rparr>"
  have i: "ind_current_db ?w = 0" "curr_ok ?w" "\<not> dbc (cur ?w)" "is_begin_transaction (cur ?w) = 0" "db_type (cur ?w) = VV_DB_SQLITE"
    "allpreps ?w = []" "files (take 149 (dir @ ''/'' @ db_name (cur ?w))) = None"
    using assms(2) by (simp_all add: init_dbs_def curr_ok_def)
  obtain w1 where w1: "vely_get_db_connection ?drv 1 ?w
       = Some (Inl (Report_error ''Cannot read database configuration file [%s]'', w1))"
    "vely_get_db_connection ?drv 1 w1 = Some (Inr (True, w1))" "curr_ok w1" "con_of (env w1) (ind_current_db w1) = None"
    "ind_current_db w1 = ind_current_db ?w" "conn w1 = (conn ?w)[nat (ind_current_db ?w) := (cur ?w)\<lparr>dbc := True\<rparr>]"
    by (rule failed_connect [of ?w files dir S x, OF i(2-7)])
  have c: "conn w1 = [(cur ?w)\<lparr>dbc := True\<rparr>]" "ind_current_db w1 = 0" "w1\<lparr>ind_current_db := 0\<rparr> = w1"
    using w1(5,6) i(1) by (simp_all add: init_dbs_def)
  have s: "s \<noteq> []" "find_str False s quoted_arg = None" "\<not> (vely_firstword ''BEGIN'' s \<or> vely_firstword ''START'' s
      \<or> vely_firstword ''COMMIT'' s \<or> vely_firstword ''ROLLBACK'' s)" using assms(1) by (simp_all add: plain_statement_def)
  have check: "vely_check_transaction ?drv m w1 = Some (Inr ((), w1))" for m
    using c(1) i(4) by (simp add: vely_check_transaction_def db_get_def db_bind_def db_return_def)
  have first: "vely_execute_SQL ?drv s True 0 True False None [] a ?w
      = Some (Inl (Report_error ''Cannot read database configuration file [%s]'', w1))"
    using s w1(1) by (simp add: vely_execute_SQL_def db_bind_def Let_def)
  have "vely_lite_exec S x s False None [] w1 = Some (Inl (Out_of_bounds, w1))"
    using w1(3,4) c i(5) no_arguments [OF s(2)]
    by (simp add: vely_lite_exec_def vely_lite_prep_stmt_def db_bind_def db_get_def VV_CURR_DB_def db_res_def db_return_def lite_con_def db_fault_def)
  then have "with_driver ?drv (\<lambda>d. drv_exec d s 0 False None []) w1 = Some (Inl (Out_of_bounds, w1))"
    using w1(3) c i(5) by (simp add: with_driver_def VV_CURR_DB_def)
  then have second: "vely_execute_SQL ?drv s True 0 True False None [] a w1 = Some (Inl (Out_of_bounds, w1))"
    using s w1(2) by (simp add: vely_execute_SQL_def db_bind_def Let_def)
  have start: "(init_dbs [(name, VV_DB_SQLITE)] e)\<lparr>ind_current_db := 0\<rparr> = ?w" by simp
  show ?thesis
    using first second check c(3) by (simp add: db_request_def db_bind_def db_do_def)
qed

theorem failed_connect_breaks_witness:
  "db_requests (\<lambda>_. lite_driver demo_sqlite (\<lambda>_. None) ''dir'' NUL)
     [[Use_db 0, Run ''insert'' 0 False None [] 0], [Use_db 0, Run ''insert'' 0 False None [] 0]]
     (init_dbs [(''db'', VV_DB_SQLITE)] demo_env) = Some (Broken Out_of_bounds)"
  by (rule failed_connect_breaks, code_simp) simp

end
