(* ===== verification/Pg.thy ===== *)
theory Pg
  imports Trans
begin

text \<open>
  The PostgreSQL driver (pg.c).  The client library is a parameter, one function for each of its functions that the
  driver calls; a result may be null there.  Files and the text of a pointer are parameters as well.
\<close>

section \<open>The interface of the client library\<close>

datatype pg_status = Tuples_ok | Command_ok | Other_status

record 'p libpq =
  pq_connectdb :: "string \<Rightarrow> 'p \<Rightarrow> nat \<times> 'p"
  pq_connection_ok :: "nat \<Rightarrow> 'p \<Rightarrow> bool"
  pq_error_message :: "nat \<Rightarrow> 'p \<Rightarrow> string"
  pq_finish :: "nat \<Rightarrow> 'p \<Rightarrow> 'p"
  pq_exec :: "nat \<Rightarrow> string \<Rightarrow> 'p \<Rightarrow> nat option \<times> 'p"
  pq_prepare :: "nat \<Rightarrow> string \<Rightarrow> string \<Rightarrow> nat \<Rightarrow> 'p \<Rightarrow> nat option \<times> 'p"
  pq_exec_prepared :: "nat \<Rightarrow> string \<Rightarrow> string list \<Rightarrow> 'p \<Rightarrow> nat option \<times> 'p"
  pq_result_status :: "nat option \<Rightarrow> 'p \<Rightarrow> pg_status"
  pq_sqlstate :: "nat option \<Rightarrow> 'p \<Rightarrow> string option"
  pq_detail :: "nat option \<Rightarrow> 'p \<Rightarrow> string option"
  pq_getvalue :: "nat option \<Rightarrow> nat \<Rightarrow> nat \<Rightarrow> 'p \<Rightarrow> string"
  pq_getlength :: "nat option \<Rightarrow> nat \<Rightarrow> nat \<Rightarrow> 'p \<Rightarrow> nat"
  pq_ntuples :: "nat option \<Rightarrow> 'p \<Rightarrow> nat"
  pq_nfields :: "nat option \<Rightarrow> 'p \<Rightarrow> nat"
  pq_fname :: "nat option \<Rightarrow> nat \<Rightarrow> 'p \<Rightarrow> string option"
  pq_cmd_tuples :: "nat option \<Rightarrow> 'p \<Rightarrow> string"
  pq_clear :: "nat option \<Rightarrow> 'p \<Rightarrow> 'p"

text \<open>The static variables of the driver; what the pointers to connections hold, by the index of the connection, where
  \<open>None\<close> is memory that nothing has set; the names of prepared statements, by their address; and the state of the
  library.\<close>

record 'p pg_env =
  pg_cerror :: "string option"
  pg_stmt_cached :: int
  con_at :: "int \<Rightarrow> nat option"
  res_at :: "int \<Rightarrow> nat option option"
  name_at :: "int \<Rightarrow> nat option"
  names :: "nat \<Rightarrow> string"
  next_name :: nat
  pq :: 'p

type_synonym ('a, 'p) pg_act = "('a, 'p pg_env) db_act"

definition pg_do :: "('p pg_env \<Rightarrow> 'p pg_env) \<Rightarrow> (unit, 'p) pg_act" where
  "pg_do g = db_do (\<lambda>w. w\<lparr>env := g (env w)\<rparr>)"

definition pg_error :: "string \<Rightarrow> (int, 'p) pg_act" where
  "pg_error m = db_bind (pg_do (\<lambda>e. e\<lparr>pg_cerror := Some m\<rparr>)) (\<lambda>_. db_return 1)"

definition pq_do :: "('p \<Rightarrow> 'p) \<Rightarrow> (unit, 'p) pg_act" where
  "pq_do g = pg_do (\<lambda>e. e\<lparr>pq := g (pq e)\<rparr>)"

text \<open>A member of the structure of the connection in use.\<close>

definition pg_member :: "('p pg_env \<Rightarrow> int \<Rightarrow> 'm option) \<Rightarrow> ('m \<Rightarrow> ('a, 'p) pg_act) \<Rightarrow> ('a, 'p) pg_act" where
  "pg_member m f = VV_CURR_DB (\<lambda>c. db_get (\<lambda>w.
     case (if dbc c then m (env w) (ind_current_db w) else None) of Some k \<Rightarrow> f k | None \<Rightarrow> db_fault Out_of_bounds))"

abbreviation pg_con :: "(nat \<Rightarrow> ('a, 'p) pg_act) \<Rightarrow> ('a, 'p) pg_act" where "pg_con \<equiv> pg_member con_at"
abbreviation pg_res :: "(nat option \<Rightarrow> ('a, 'p) pg_act) \<Rightarrow> ('a, 'p) pg_act" where "pg_res \<equiv> pg_member res_at"

definition set_res :: "nat option \<Rightarrow> (unit, 'p) pg_act" where
  "set_res r = VV_CURR_DB (\<lambda>c. if dbc c
     then db_do (\<lambda>w. w\<lparr>env := (env w)\<lparr>res_at := (res_at (env w))(ind_current_db w := Some r)\<rparr>\<rparr>)
     else db_fault Out_of_bounds)"

definition set_name :: "nat \<Rightarrow> (unit, 'p) pg_act" where
  "set_name k = VV_CURR_DB (\<lambda>c. if dbc c
     then db_do (\<lambda>w. w\<lparr>env := (env w)\<lparr>name_at := (name_at (env w))(ind_current_db w := Some k)\<rparr>\<rparr>)
     else db_fault Out_of_bounds)"

section \<open>Errors\<close>

definition vely_pg_checkc :: "'p libpq \<Rightarrow> (int, 'p) pg_act" where
  "vely_pg_checkc P = pg_con (\<lambda>k. db_get (\<lambda>w. db_return (if \<not> pq_connection_ok P k (pq (env w)) then 0 else 1)))"

definition vely_pg_errm :: "'p libpq \<Rightarrow> nat \<Rightarrow> string \<Rightarrow> string \<times> int \<Rightarrow> string \<Rightarrow> (string, 'p) pg_act" where
  "vely_pg_errm P errmsize s loc er =
     pg_res (\<lambda>r. pg_con (\<lambda>k. db_get (\<lambda>w.
       let txt = (\<lambda>m. case m of None \<Rightarrow> [] | Some t \<Rightarrow> t) in
       db_return (take (errmsize - 1)
         (''Error during query ['' @ s @ ''], additional ['' @ txt (pg_cerror (env w)) @ ''], detail ['' @
          txt (pq_detail P r (pq (env w))) @ ''], file ['' @ fst loc @ ''], line ['' @ decimal_text (snd loc) @ ''] : ['' @ er @ '']'' @
          pq_error_message P k (pq (env w)))))))"

definition vely_pg_error :: "'p libpq \<Rightarrow> string \<Rightarrow> (string, 'p) pg_act" where
  "vely_pg_error P s =
     pg_res (\<lambda>r. db_get (\<lambda>w. db_return (case pq_sqlstate P r (pq (env w)) of None \<Rightarrow> [] | Some t \<Rightarrow> t)))"

section \<open>Rows\<close>

definition vely_pg_rows :: "'p libpq \<Rightarrow> nat \<Rightarrow> nat \<Rightarrow> (int \<times> string option list \<times> nat list, 'p) pg_act" where
  "vely_pg_rows P num_fields nrow =
     db_bind (set_curr (\<lambda>c. c\<lparr>need_copy := 1\<rparr>)) (\<lambda>_.
       pg_res (\<lambda>r. db_get (\<lambda>w. db_return (0, map (\<lambda>i. Some (pq_getvalue P r nrow i (pq (env w)))) [0..<num_fields],
         map (\<lambda>i. pq_getlength P r nrow i (pq (env w))) [0..<num_fields]))))"

definition vely_pg_nrows :: "'p libpq \<Rightarrow> (int, 'p) pg_act" where
  "vely_pg_nrows P = pg_res (\<lambda>r. db_get (\<lambda>w. db_return (int (pq_ntuples P r (pq (env w))))))"

definition vely_pg_free :: "'p libpq \<Rightarrow> (unit, 'p) pg_act" where
  "vely_pg_free P = pg_res (\<lambda>r. db_bind (if r \<noteq> None then pq_do (pq_clear P r) else db_return ()) (\<lambda>_. set_res None))"

definition vely_pg_fieldname :: "'p libpq \<Rightarrow> nat \<Rightarrow> (string, 'p) pg_act" where
  "vely_pg_fieldname P fnum =
     pg_res (\<lambda>r. db_get (\<lambda>w. case pq_fname P r fnum (pq (env w)) of Some f \<Rightarrow> db_return f | None \<Rightarrow> db_fault Out_of_bounds))"

definition vely_pg_nfield :: "'p libpq \<Rightarrow> (nat, 'p) pg_act" where
  "vely_pg_nfield P = pg_res (\<lambda>r. db_get (\<lambda>w. db_return (pq_nfields P r (pq (env w)))))"

definition vely_pg_affected :: "'p libpq \<Rightarrow> (int, 'p) pg_act" where
  "vely_pg_affected P = pg_res (\<lambda>r. db_get (\<lambda>w. db_return (atol (pq_cmd_tuples P r (pq (env w))))))"

section \<open>Connections\<close>

definition vely_pg_close :: "'p libpq \<Rightarrow> (unit, 'p) pg_act" where
  "vely_pg_close P = pg_res (\<lambda>r. db_bind (pq_do (pq_clear P r)) (\<lambda>_. pg_con (\<lambda>k. pq_do (pq_finish P k))))"

text \<open>The statement is deallocated at the server if there is a connection; its name is freed, and not read any more.\<close>

definition vely_pg_close_stmt :: "'p libpq \<Rightarrow> nat option \<Rightarrow> (unit, 'p) pg_act" where
  "vely_pg_close_stmt P st =
     (case st of None \<Rightarrow> db_return ()
      | Some a \<Rightarrow> VV_CURR_DB (\<lambda>c. if dbc c
          then pg_con (\<lambda>k. db_get (\<lambda>w. pq_do (\<lambda>s. snd (pq_exec P k (take 59 (''DEALLOCATE '' @ names (env w) a)) s))))
          else db_return ()))"

definition alloc_pg :: "(unit, 'p) pg_act" where
  "alloc_pg =
     db_bind (set_curr (\<lambda>c. c\<lparr>dbc := True\<rparr>)) (\<lambda>_.
       db_do (\<lambda>w. w\<lparr>env := (env w)\<lparr>con_at := (con_at (env w))(ind_current_db w := None),
         res_at := (res_at (env w))(ind_current_db w := None), name_at := (name_at (env w))(ind_current_db w := None)\<rparr>\<rparr>))"

definition vely_pg_connect :: "'p libpq \<Rightarrow> (string \<Rightarrow> string option) \<Rightarrow> string \<Rightarrow> int \<Rightarrow> (bool, 'p) pg_act" where
  "vely_pg_connect P vely_read_file dbconf_dir abort_if_bad =
     db_bind (vely_db_prep (\<lambda>_. vely_pg_close_stmt P) None) (\<lambda>_.
     db_bind alloc_pg (\<lambda>_.
     let bad = (\<lambda>m. if abort_if_bad = 1 then db_report m
           else db_bind (vely_end_connection (\<lambda>_. db_return ()) False) (\<lambda>_. db_return False)) in
     VV_CURR_DB (\<lambda>c.
       case vely_read_file (take 149 (dbconf_dir @ ''/'' @ db_name c)) of
         None \<Rightarrow> bad ''Cannot read database configuration file [%s]''
       | Some text \<Rightarrow>
           db_get (\<lambda>w. case pq_connectdb P (cstr text) (pq (env w)) of (k, s1) \<Rightarrow>
             db_bind (pg_do (\<lambda>e. e\<lparr>pq := s1, con_at := (con_at e)(ind_current_db w := Some k),
                 res_at := (res_at e)(ind_current_db w := Some None)\<rparr>)) (\<lambda>_.
               if \<not> pq_connection_ok P k s1 then bad ''Cannot initialize database connection [%s]''
               else VV_CURR_DB (\<lambda>c. db_return (dbc c)))))))"

section \<open>Statements\<close>

text \<open>The name of a statement, from the text of its address.\<close>

definition vely_pg_stmt :: "(nat \<Rightarrow> string) \<Rightarrow> nat \<Rightarrow> string" where
  "vely_pg_stmt pointer_text prep =
     (let tmp = take 29 (pointer_text prep); t = (if tmp \<noteq> [] \<and> \<not> isalpha (hd tmp) then CHR ''A'' # tl tmp else tmp) in
      map (\<lambda>c. if \<not> isalnum c then CHR ''A'' else c) t)"

definition vely_pg_prep_stmt ::
  "'p libpq \<Rightarrow> (nat \<Rightarrow> string) \<Rightarrow> char \<Rightarrow> nat \<Rightarrow> string \<Rightarrow> nat \<Rightarrow> (int, 'p) pg_act" where
  "vely_pg_prep_stmt P pointer_text x prep stmt num_of_args =
     db_get (\<lambda>w. case prep_at w prep of
       Some a \<Rightarrow> db_bind (pg_do (\<lambda>e. e\<lparr>pg_stmt_cached := 1\<rparr>)) (\<lambda>_. db_bind (set_name a) (\<lambda>_. db_return 0))
     | None \<Rightarrow>
         (let a = next_name (env w); name = vely_pg_stmt pointer_text prep in
          db_bind (pg_do (\<lambda>e. e\<lparr>names := (names e)(a := name), next_name := a + 1\<rparr>)) (\<lambda>_.
          db_bind (set_name a) (\<lambda>_.
          VV_CURR_DB (\<lambda>c. db_bind (db_res (vely_db_prep_text (db_type c) x stmt)) (\<lambda>t.
            pg_con (\<lambda>k. db_get (\<lambda>w. case pq_prepare P k name (cstr t) num_of_args (pq (env w)) of (r, s1) \<Rightarrow>
              db_bind (pq_do (\<lambda>_. s1)) (\<lambda>_.
                if pq_result_status P r s1 \<noteq> Command_ok then pg_error ''Cannot prepare statement''
                else db_bind (db_do (\<lambda>w. w\<lparr>prep_at := (prep_at w)(prep := Some a)\<rparr>)) (\<lambda>_. db_return 0))))))))))"

definition vely_pg_exec ::
  "'p libpq \<Rightarrow> (nat \<Rightarrow> string) \<Rightarrow> char \<Rightarrow> string \<Rightarrow> int \<Rightarrow> bool \<Rightarrow> nat option \<Rightarrow> string list \<Rightarrow> (int, 'p) pg_act" where
  "vely_pg_exec P pointer_text x s returns_tuple is_prep prep params =
     db_bind (pg_do (\<lambda>e. e\<lparr>pg_stmt_cached := 0\<rparr>)) (\<lambda>_.
     let run = (\<lambda>r s1. db_bind (pq_do (\<lambda>_. s1)) (\<lambda>_. db_bind (set_res r) (\<lambda>_.
           db_return (if pq_result_status P r s1 \<noteq> (if returns_tuple = 1 then Tuples_ok else Command_ok) then 1 else 0)))) in
     if \<not> is_prep then
       pg_con (\<lambda>k. db_get (\<lambda>w. case pq_exec P k s (pq (env w)) of (r, s1) \<Rightarrow> run r s1))
     else
       (case prep of None \<Rightarrow> db_fault Out_of_bounds
        | Some p \<Rightarrow>
            db_bind (vely_pg_prep_stmt P pointer_text x p s (length params)) (\<lambda>st.
              if st \<noteq> 0 then db_return 1
              else pg_con (\<lambda>k. pg_member name_at (\<lambda>a. db_get (\<lambda>w.
                case pq_exec_prepared P k (names (env w) a) params (pq (env w)) of (r, s1) \<Rightarrow> run r s1))))))"

text \<open>The driver; the buffer for the text of an error has 8192 bytes (db.c, \<^verbatim>\<open>vely_handle_error\<close>).\<close>

definition pg_driver :: "'p libpq \<Rightarrow> (string \<Rightarrow> string option) \<Rightarrow> string \<Rightarrow> (nat \<Rightarrow> string) \<Rightarrow> char \<Rightarrow> 'p pg_env driver" where
  "pg_driver P vely_read_file dbconf_dir pointer_text x =
     \<lparr>drv_connect = vely_pg_connect P vely_read_file dbconf_dir,
      drv_close = vely_pg_close P,
      drv_checkc = vely_pg_checkc P,
      drv_exec = vely_pg_exec P pointer_text x,
      drv_error = (\<lambda>s _. vely_pg_error P s),
      drv_errm = (\<lambda>s loc er _. vely_pg_errm P 8192 s loc er),
      drv_affected = (\<lambda>_. vely_pg_affected P),
      drv_store = (\<lambda>_. db_return 0),
      drv_use = (\<lambda>_. db_return 0),
      drv_nfield = vely_pg_nfield P,
      drv_nrows = (\<lambda>_. vely_pg_nrows P),
      drv_fieldname = (\<lambda>_. vely_pg_fieldname P),
      drv_rows = (\<lambda>_. vely_pg_rows P),
      drv_free = (\<lambda>_. vely_pg_free P),
      drv_close_stmt = vely_pg_close_stmt P\<rparr>"

section \<open>The contract\<close>

lemma quiet_pg_do [quiets]: "quiet (pg_do g)" "quiet (pg_error m)" "quiet (pq_do h)" "quiet (set_res r)" "quiet (set_name k)"
  unfolding pg_error_def pg_do_def pq_do_def set_res_def set_name_def by (intro quiets)+

lemma quiet_member [quiets]: "(\<And>k. quiet (f k)) \<Longrightarrow> quiet (pg_member m f)"
  unfolding pg_member_def by (intro quiets; assumption)

lemma quiet_pg_exec: "quiet (vely_pg_exec P pt x s n p pr ps)"
  unfolding vely_pg_exec_def vely_pg_prep_stmt_def Let_def by (intro quiets)

lemma quiet_pg_close_stmt: "quiet (vely_pg_close_stmt P st)"
  unfolding vely_pg_close_stmt_def by (intro quiets)

lemma quiet_pg_small:
  "quiet (vely_pg_close P)" "quiet (vely_pg_checkc P)" "quiet (vely_pg_error P s)" "quiet (vely_pg_errm P n s l er)"
  "quiet (vely_pg_affected P)" "quiet (vely_pg_nfield P)" "quiet (vely_pg_nrows P)" "quiet (vely_pg_fieldname P i)"
  "quiet (vely_pg_rows P k r)" "quiet (vely_pg_free P)"
  unfolding vely_pg_close_def vely_pg_checkc_def vely_pg_error_def vely_pg_errm_def vely_pg_affected_def vely_pg_nfield_def
    vely_pg_nrows_def vely_pg_fieldname_def vely_pg_rows_def vely_pg_free_def Let_def
  by (intro quiets)+

lemma pg_connect:
  "hoare (\<lambda>w. w = w0 \<and> curr_ok w) (vely_pg_connect P files dir a) (\<lambda>ok w. connects w0 w \<and> (ok \<longrightarrow> dbc (cur w))) (connects w0)"
proof -
  have prep: "quiet (vely_db_prep (\<lambda>_. vely_pg_close_stmt P) None)"
    by (auto simp: vely_db_prep_def intro!: quiets quiet_reset_preps quiet_pg_close_stmt)
  have alloc: "hoare (connecting w0) alloc_pg (\<lambda>_ w. connecting w0 w \<and> dbc (cur w)) (connects w0)"
    unfolding alloc_pg_def by (rule connecting_alloc, rule quiets)
  note leave = connecting_leave [of w0, OF connecting_set(2)]
  show ?thesis
    unfolding vely_pg_connect_def Let_def
  proof (rule connecting_start [OF prep], rule hoare_bind [OF alloc], rule hoare_curr, rule keeps_option,
      rule hoare_weaken [OF leave], simp, assumption, assumption, rule hoare_get, rule keeps_pair, rule hoare_bind, rule connecting_step,
      rule quiets, simp, rule keeps_if, rule leave, rule connecting_done)
  qed (simp add: connecting_def)
qed

lemma pg_driver_simps [simp]:
  "drv_connect (pg_driver P files dir pt x) = vely_pg_connect P files dir" "drv_close (pg_driver P files dir pt x) = vely_pg_close P"
  "drv_checkc (pg_driver P files dir pt x) = vely_pg_checkc P" "drv_exec (pg_driver P files dir pt x) = vely_pg_exec P pt x"
  "drv_error (pg_driver P files dir pt x) s p = vely_pg_error P s"
  "drv_errm (pg_driver P files dir pt x) s l er p = vely_pg_errm P 8192 s l er"
  "drv_affected (pg_driver P files dir pt x) p = vely_pg_affected P" "drv_store (pg_driver P files dir pt x) p = db_return 0"
  "drv_use (pg_driver P files dir pt x) p = db_return 0" "drv_nfield (pg_driver P files dir pt x) = vely_pg_nfield P"
  "drv_nrows (pg_driver P files dir pt x) p = vely_pg_nrows P" "drv_fieldname (pg_driver P files dir pt x) p = vely_pg_fieldname P"
  "drv_rows (pg_driver P files dir pt x) p = vely_pg_rows P" "drv_free (pg_driver P files dir pt x) p = vely_pg_free P"
  "drv_close_stmt (pg_driver P files dir pt x) = vely_pg_close_stmt P"
  by (simp_all add: pg_driver_def)

interpretation pg_db: database "\<lambda>_. pg_driver P files dir pt x" for P files dir pt x
  by unfold_locales (simp_all add: pg_connect quiet_pg_small quiet_pg_exec quiet_pg_close_stmt quiet_basic)

end
