(* ===== verification/PgCommit.thy ===== *)
theory PgCommit
  imports Pg
begin

text \<open>
  A transaction whose connection is lost when it is committed, with the PostgreSQL driver.
\<close>

lemma pg_lost_exec:
  assumes "curr_ok w" "dbc (cur w)" "con_at (env w) (ind_current_db w) = Some k"
    and "pq_exec P k s (pq (env w)) = (r, s1)"
  shows "vely_pg_exec P pt x s 0 False None [] w = Some (Inr (if pq_result_status P r s1 \<noteq> Command_ok then 1 else 0,
      w\<lparr>env := (env w)\<lparr>pg_stmt_cached := 0, pq := s1, res_at := (res_at (env w))(ind_current_db w := Some r)\<rparr>\<rparr>))"
  using assms
  by (simp add: vely_pg_exec_def pg_do_def pq_do_def db_do_def db_bind_def db_return_def pg_member_def VV_CURR_DB_def db_get_def
      set_res_def curr_ok_def Let_def)

text \<open>PostgreSQL holds the connection in use.\<close>

definition pg_connected :: "nat \<Rightarrow> 'p pg_env dbs \<Rightarrow> bool" where
  "pg_connected k w \<longleftrightarrow> connected w \<and> db_type (cur w) = VV_DB_POSTGRES \<and> con_at (env w) (ind_current_db w) = Some k
     \<and> res_at (env w) (ind_current_db w) \<noteq> None"

text \<open>The library makes a connection again, in the place of the one that was lost.\<close>

definition reconnects :: "'p libpq \<Rightarrow> nat \<Rightarrow> nat option \<Rightarrow> 'p \<Rightarrow> string \<Rightarrow> nat \<Rightarrow> 'p \<Rightarrow> bool" where
  "reconnects P k r s1 config k2 s3 \<longleftrightarrow>
     pq_connectdb P (cstr config) (pq_finish P k (pq_clear P r s1)) = (k2, s3) \<and> pq_connection_ok P k2 s3"

lemma with_cur_twice: "curr_ok w \<Longrightarrow> with_cur f (with_cur g w) = with_cur (\<lambda>c. f (g c)) w"
  by (simp add: with_cur_def curr_ok_def)

lemma with_cur_env: "with_cur f (w\<lparr>env := e\<rparr>) = (with_cur f w)\<lparr>env := e\<rparr>" "curr_ok (w\<lparr>env := e\<rparr>) = curr_ok w"
  "allpreps (with_cur f w) = allpreps w"
  by (simp_all add: with_cur_def curr_ok_def)

lemma pg_end_connection:
  assumes "pg_connected k w" "res_at (env w) (ind_current_db w) = Some r"
  shows "vely_end_connection (\<lambda>t. drv_close (pg_driver P files dir pt x)) True w = Some (Inr ((),
      (with_cur (\<lambda>c. c\<lparr>dbc := False, is_begin_transaction := 0\<rparr>) w)\<lparr>env := (env w)\<lparr>pq := pq_finish P k (pq_clear P r (pq (env w)))\<rparr>\<rparr>))"
  using assms
  by (simp add: vely_end_connection_def pg_connected_def connected_def VV_CURR_DB_def db_bind_def vely_pg_close_def pg_member_def
      db_get_def pq_do_def pg_do_def db_do_def set_curr_with with_cur_env)

lemma pg_retry:
  assumes "pg_connected k w" "res_at (env w) (ind_current_db w) = Some r" "allpreps w = []"
    and "files (take 149 (dir @ ''/'' @ db_name (cur w))) = Some config" "reconnects P k r (pq (env w)) config k2 s3"
  obtains w2 where "vely_retry_db (\<lambda>_. pg_driver P files dir pt x) w = Some (Inr (1, w2))" "pg_connected k2 w2" "pq (env w2) = s3"
proof -
  let ?drv = "\<lambda>_. pg_driver P files dir pt x"
  let ?e1 = "(env w)\<lparr>pq := pq_finish P k (pq_clear P r (pq (env w)))\<rparr>"
  let ?w1 = "(with_cur (\<lambda>c. c\<lparr>dbc := False, is_begin_transaction := 0\<rparr>) w)\<lparr>env := ?e1\<rparr>"
  let ?i = "ind_current_db w"
  let ?e2 = "?e1\<lparr>name_at := (name_at ?e1)(?i := None), pq := s3, con_at := (con_at ?e1)(?i := Some k2), res_at := (res_at ?e1)(?i := Some None)\<rparr>"
  let ?w2 = "(with_cur (\<lambda>c. c\<lparr>dbc := True, has_connected := 1, is_begin_transaction := 0\<rparr>) w)\<lparr>env := ?e2\<rparr>"
  have c: "curr_ok w" "ind_current_db w \<noteq> -1" "db_type (cur w) = VV_DB_POSTGRES"
    using assms(1) by (auto simp: pg_connected_def connected_def curr_ok_def)
  have c1: "curr_ok ?w1" "cur ?w1 = (cur w)\<lparr>dbc := False, is_begin_transaction := 0\<rparr>"
    using c(1) by (simp_all add: with_cur_env)
  have r: "pq_connectdb P (cstr config) (pq_finish P k (pq_clear P r (pq (env w)))) = (k2, s3)" "pq_connection_ok P k2 s3"
    using assms(5) by (simp_all add: reconnects_def)
  have connect: "vely_pg_connect P files dir 1 ?w1
      = Some (Inr (True, (with_cur (\<lambda>c. c\<lparr>is_begin_transaction := 0, dbc := True\<rparr>) w)\<lparr>env := ?e2\<rparr>))"
    using c c1 r assms(3,4)
    by (simp add: vely_pg_connect_def vely_db_prep_def VV_CURR_DB_def db_get_def db_return_def db_bind_def alloc_pg_def set_curr_with
        db_do_def pg_do_def with_cur_env with_cur_twice Let_def)
  have get: "vely_get_db_connection ?drv 1 ?w1 = Some (Inr (True, ?w2))"
    using c c1 connect
    by (simp add: vely_get_db_connection_def db_get_def VV_CURR_DB_def db_bind_def with_driver_def set_curr_with with_cur_env
        with_cur_twice db_return_def)
  show ?thesis
  proof (rule that [of ?w2])
    show "vely_retry_db ?drv w = Some (Inr (1, ?w2))"
      using pg_end_connection [OF assms(1,2), of P files dir pt x] get by (simp add: vely_retry_db_def db_bind_def db_return_def)
    show "pg_connected k2 ?w2" using c by (simp add: pg_connected_def connected_def with_cur_env)
  qed simp
qed

lemma with_pg:
  "pg_connected k w \<Longrightarrow> with_driver (\<lambda>_. pg_driver P files dir pt x) f w = f (pg_driver P files dir pt x) w"
  by (simp add: pg_connected_def connected_def with_driver_def VV_CURR_DB_def)

lemma pg_got_connection: "pg_connected k w \<Longrightarrow> vely_get_db_connection drv a w = Some (Inr (True, w))"
  by (auto simp: pg_connected_def connected_def curr_ok_def vely_get_db_connection_def db_get_def VV_CURR_DB_def db_return_def)

text \<open>A statement without transaction whose connection is lost is executed again over a new one.\<close>

lemma pg_statement_again:
  assumes w: "pg_connected k w" "is_begin_transaction (cur w) = 0" "allpreps w = []"
    and s: "s \<noteq> []" "pq_exec P k s (pq (env w)) = (r1, s1)" "pq_result_status P r1 s1 \<noteq> Command_ok" "\<not> pq_connection_ok P k s1"
    and again: "files (take 149 (dir @ ''/'' @ db_name (cur w))) = Some config" "reconnects P k r1 s1 config k2 s3"
      "pq_exec P k2 s s3 = (r2, s4)" "pq_result_status P r2 s4 = Command_ok"
  shows "\<exists>n w'. vely_execute_SQL (\<lambda>_. pg_driver P files dir pt x) s True 0 False False None [] a w
      = Some (Inr (\<lparr>okay = True, arows = Some n, o_er = ''0'', o_errm = []\<rparr>, w')) \<and> pg_connected k2 w' \<and> pq (env w') = s4"
proof -
  let ?drv = "\<lambda>_. pg_driver P files dir pt x" and ?i = "ind_current_db w"
  let ?w1 = "w\<lparr>env := (env w)\<lparr>pg_stmt_cached := 0, pq := s1, res_at := (res_at (env w))(?i := Some r1)\<rparr>\<rparr>"
  have c: "curr_ok w" "dbc (cur w)" "con_at (env w) ?i = Some k"
    using w(1) by (simp_all add: pg_connected_def connected_def)
  have w1: "pg_connected k ?w1" "res_at (env ?w1) (ind_current_db ?w1) = Some r1"
    using w(1) by (simp_all add: pg_connected_def connected_def with_cur_env)
  have c1: "curr_ok ?w1" "is_begin_transaction (cur ?w1) = 0" using c(1) w(2) by (simp_all add: with_cur_env)
  have exec1: "with_driver ?drv (\<lambda>d. drv_exec d s 0 False None []) w = Some (Inr (1, ?w1))"
    using pg_lost_exec [OF c s(2), of pt x] s(3) by (simp add: with_pg [OF w(1)])
  obtain w2 where w2: "vely_retry_db ?drv ?w1 = Some (Inr (1, w2))" "pg_connected k2 w2" "pq (env w2) = s3"
    by (rule pg_retry [OF w1, of files dir config P k2 s3 pt x]) (use w(3) again(1,2) in simp_all)
  have handle: "vely_handle_error ?drv s True False a ?w1 = Some (Inr ((1, [], []), w2))"
  proof -
    have "with_driver ?drv (\<lambda>d. drv_error d s False) ?w1 = Some (Inr (case pq_sqlstate P r1 s1 of None \<Rightarrow> [] | Some t \<Rightarrow> t, ?w1))"
      using w1(2) c c1(1) by (simp add: with_pg [OF w1(1)] vely_pg_error_def pg_member_def VV_CURR_DB_def db_get_def db_return_def)
    moreover have "with_driver ?drv drv_checkc ?w1 = Some (Inr (0, ?w1))"
      using c c1(1) s(4) by (simp add: with_pg [OF w1(1)] vely_pg_checkc_def pg_member_def VV_CURR_DB_def db_get_def db_return_def)
    ultimately show ?thesis
      using w2(1) by (simp add: vely_handle_error_def db_bind_def vely_location_def db_get_def db_return_def Let_def)
  qed
  let ?w3 = "w2\<lparr>env := (env w2)\<lparr>pg_stmt_cached := 0, pq := s4, res_at := (res_at (env w2))(ind_current_db w2 := Some r2)\<rparr>\<rparr>"
  have c2: "curr_ok w2" "dbc (cur w2)" "con_at (env w2) (ind_current_db w2) = Some k2"
    using w2(2) by (simp_all add: pg_connected_def connected_def)
  have exec2: "with_driver ?drv (\<lambda>d. drv_exec d s 0 False None []) w2 = Some (Inr (0, ?w3))"
    using pg_lost_exec [OF c2, of P s r2 s4 pt x] again(3,4) w2(3) by (simp add: with_pg [OF w2(2)])
  have w3: "pg_connected k2 ?w3"
    using w2(2) by (simp add: pg_connected_def connected_def with_cur_env)
  have rows: "vely_arows ?drv False ?w3 = Some (Inr (atol (pq_cmd_tuples P r2 s4), ?w3))"
    using w3 c2 by (simp add: vely_arows_def with_pg [OF w3] vely_pg_affected_def pg_member_def VV_CURR_DB_def db_get_def db_return_def with_cur_env)
  have "vely_execute_SQL ?drv s True 0 False False None [] a w
      = Some (Inr (\<lparr>okay = True, arows = Some (atol (pq_cmd_tuples P r2 s4)), o_er = ''0'', o_errm = []\<rparr>, ?w3))"
    using s(1) exec1 handle exec2 rows c1 pg_got_connection [OF w(1)]
    by (simp add: vely_execute_SQL_def db_bind_def Let_def VV_CURR_DB_def db_return_def)
  then show ?thesis using w3 by auto
qed

text \<open>C35: when the connection is lost at the commit of a transaction, the commit is executed again over a new connection, which
  has no transaction, and is reported as a success with the error code 0.\<close>

theorem lost_commit_succeeds:
  assumes "pg_connected k w" "allpreps w = []"
    and "pq_exec P k ''commit '' (pq (env w)) = (r1, s1)" "pq_result_status P r1 s1 \<noteq> Command_ok" "\<not> pq_connection_ok P k s1"
    and "files (take 149 (dir @ ''/'' @ db_name (cur w))) = Some config" "reconnects P k r1 s1 config k2 s3"
    and "pq_exec P k2 ''commit '' s3 = (r2, s4)" "pq_result_status P r2 s4 = Command_ok"
  shows "\<exists>w'. vely_commit (\<lambda>_. pg_driver P files dir pt x) [] a w = Some (Inr ((1, Some (''0'', [])), w')) \<and> pq (env w') = s4"
proof -
  let ?w0 = "with_cur (\<lambda>c. c\<lparr>is_begin_transaction := 0\<rparr>) w"
  have c: "curr_ok w" using assms(1) by (simp add: pg_connected_def connected_def)
  have w0: "pg_connected k ?w0" "is_begin_transaction (cur ?w0) = 0" "allpreps ?w0 = []" "env ?w0 = env w" "db_name (cur ?w0) = db_name (cur w)"
    using assms(1,2) c by (simp_all add: pg_connected_def connected_def with_cur_env)
  obtain n w' where "vely_execute_SQL (\<lambda>_. pg_driver P files dir pt x) ''commit '' True 0 False False None [] a ?w0
      = Some (Inr (\<lparr>okay = True, arows = Some n, o_er = ''0'', o_errm = []\<rparr>, w'))" "pq (env w') = s4"
    using pg_statement_again [OF w0(1-3), of "''commit ''" P r1 s1 files dir config k2 s3 r2 s4 pt x a] assms(3-9) w0(4,5) by auto
  then show ?thesis
    using c by (simp add: vely_commit_def end_transaction_def db_bind_def set_curr_with db_return_def)
qed

text \<open>A server with changes of an open transaction and changes that are committed: it loses the connection 1, and with it the
  open changes, and takes the connection 2.\<close>

definition demo_libpq :: "(nat \<times> nat) libpq" where
  "demo_libpq =
     \<lparr>pq_connectdb = (\<lambda>t s. (2, s)), pq_connection_ok = (\<lambda>k s. k = 2), pq_error_message = (\<lambda>k s. []), pq_finish = (\<lambda>k s. s),
      pq_exec = (\<lambda>k t (open_changes, kept). if k = 2 then (Some 2, (0, kept + open_changes)) else (Some 1, (0, kept))),
      pq_prepare = (\<lambda>k a t n s. (None, s)), pq_exec_prepared = (\<lambda>k a ps s. (None, s)),
      pq_result_status = (\<lambda>r s. if r = Some 2 then Command_ok else Other_status), pq_sqlstate = (\<lambda>r s. None), pq_detail = (\<lambda>r s. None),
      pq_getvalue = (\<lambda>r i j s. []), pq_getlength = (\<lambda>r i j s. 0), pq_ntuples = (\<lambda>r s. 0), pq_nfields = (\<lambda>r s. 0),
      pq_fname = (\<lambda>r i s. None), pq_cmd_tuples = (\<lambda>r s. []), pq_clear = (\<lambda>r s. s)\<rparr>"

definition demo_pg :: "(nat \<times> nat) pg_env dbs" where
  "demo_pg = (init_dbs [(''db'', VV_DB_POSTGRES)] \<lparr>pg_cerror = None, pg_stmt_cached = 0, con_at = (\<lambda>_. Some 1), res_at = (\<lambda>_. Some None),
       name_at = (\<lambda>_. None), names = (\<lambda>_. []), next_name = 0, pq = (3, 5)\<rparr>)
     \<lparr>ind_current_db := 0, conn := [\<lparr>dbc = True, is_begin_transaction = 1, num_inp = 0, need_copy = 0, has_connected = 1,
       db_name = ''db'', db_type = VV_DB_POSTGRES, exit_on_error = 1\<rparr>]\<rparr>"

theorem lost_commit_succeeds_witness:
  "\<exists>w'. vely_commit (\<lambda>_. pg_driver demo_libpq (\<lambda>_. Some ''conf'') ''dir'' (\<lambda>_. ''0x1'') NUL) [] VV_OKAY demo_pg
     = Some (Inr ((1, Some (''0'', [])), w')) \<and> pq (env w') = (0, 5)"
  by (rule lost_commit_succeeds [where k = 1 and ?r1.0 = "Some 1" and ?s1.0 = "(0, 5)" and config = "''conf''" and ?k2.0 = 2
        and ?s3.0 = "(0, 5)" and ?r2.0 = "Some 2"])
    (simp_all add: pg_connected_def connected_def curr_ok_def demo_pg_def init_dbs_def demo_libpq_def reconnects_def)

end
