(* ===== verification/Maria.thy ===== *)
theory Maria
  imports Trans
begin

text \<open>
  The MariaDB driver (mys.c).  The client library is a parameter, one function for each of its functions that the driver
  calls; a connection, a result or a statement may be null there.
\<close>

section \<open>The interface of the client library\<close>

text \<open>A row of a statement is fetched first into no memory at all: then it is one that has no field with a byte, or it is
  reported as cut off, with the lengths of its fields.  A field is then fetched into a buffer, which has a size.\<close>

datatype fetched = Row_complete | Row_truncated | Row_failed

record 's mysql =
  my_ping :: "nat option \<Rightarrow> 's \<Rightarrow> bool \<times> 's"
  my_init :: "'s \<Rightarrow> nat option \<times> 's"
  my_read_config :: "nat option \<Rightarrow> string \<Rightarrow> 's \<Rightarrow> 's"
  my_real_connect :: "nat option \<Rightarrow> 's \<Rightarrow> bool \<times> 's"
  my_set_charset :: "nat option \<Rightarrow> string \<Rightarrow> 's \<Rightarrow> bool \<times> 's"
  my_close :: "nat option \<Rightarrow> 's \<Rightarrow> 's"
  my_query :: "nat option \<Rightarrow> string \<Rightarrow> 's \<Rightarrow> int \<times> 's"
  my_error :: "nat option \<Rightarrow> 's \<Rightarrow> string"
  my_errno :: "nat option \<Rightarrow> 's \<Rightarrow> int"
  my_affected :: "nat option \<Rightarrow> 's \<Rightarrow> int"
  my_store_result :: "nat option \<Rightarrow> 's \<Rightarrow> nat option \<times> 's"
  my_use_result :: "nat option \<Rightarrow> 's \<Rightarrow> nat option \<times> 's"
  my_fetch_row :: "nat option \<Rightarrow> 's \<Rightarrow> string option list option \<times> 's"
  my_fetch_lengths :: "nat option \<Rightarrow> 's \<Rightarrow> nat list"
  my_num_fields :: "nat option \<Rightarrow> 's \<Rightarrow> nat"
  my_num_rows :: "nat option \<Rightarrow> 's \<Rightarrow> int"
  my_fetch_field :: "nat option \<Rightarrow> 's \<Rightarrow> string option \<times> 's"
  my_free_result :: "nat \<Rightarrow> 's \<Rightarrow> 's"
  my_stmt_init :: "nat option \<Rightarrow> 's \<Rightarrow> nat option \<times> 's"
  my_stmt_prepare :: "nat option \<Rightarrow> string \<Rightarrow> 's \<Rightarrow> bool \<times> 's"
  my_stmt_param_count :: "nat option \<Rightarrow> 's \<Rightarrow> int"
  my_stmt_bind_param :: "nat option \<Rightarrow> string option list \<Rightarrow> 's \<Rightarrow> 's"
  my_stmt_execute :: "nat option \<Rightarrow> 's \<Rightarrow> int \<times> 's"
  my_stmt_metadata :: "nat option \<Rightarrow> 's \<Rightarrow> nat option \<times> 's"
  my_stmt_max_length :: "nat option \<Rightarrow> 's \<Rightarrow> 's"
  my_stmt_store :: "nat option \<Rightarrow> 's \<Rightarrow> bool \<times> 's"
  my_stmt_bind_result :: "nat option \<Rightarrow> nat \<Rightarrow> 's \<Rightarrow> bool \<times> 's"
  my_stmt_fetch :: "nat option \<Rightarrow> 's \<Rightarrow> (fetched \<times> nat list) \<times> 's"
  my_stmt_fetch_column :: "nat option \<Rightarrow> nat \<Rightarrow> nat \<Rightarrow> 's \<Rightarrow> string option \<times> 's"
  my_stmt_num_rows :: "nat option \<Rightarrow> 's \<Rightarrow> int"
  my_stmt_affected :: "nat option \<Rightarrow> 's \<Rightarrow> int"
  my_stmt_error :: "nat option \<Rightarrow> 's \<Rightarrow> string"
  my_stmt_errno :: "nat option \<Rightarrow> 's \<Rightarrow> int"
  my_stmt_close :: "nat \<Rightarrow> 's \<Rightarrow> 's"
  my_parse_error :: int

text \<open>The static variables of the driver; what the structures of connections hold, by the index of the connection, where
  \<open>None\<close> is memory that nothing has set; and the state of the library.  \<open>m_bind\<close> are the arguments of a statement, each a
  text or not set.\<close>

record 's maria_env =
  m_cerror :: "string option"
  m_stmt_cached :: int
  m_con :: "int \<Rightarrow> nat option option"
  m_res :: "int \<Rightarrow> nat option option"
  m_stmt :: "int \<Rightarrow> nat option option"
  m_bind :: "int \<Rightarrow> string option list option option"
  my :: 's

type_synonym ('a, 's) maria_act = "('a, 's maria_env) db_act"

definition maria_do :: "('s maria_env \<Rightarrow> 's maria_env) \<Rightarrow> (unit, 's) maria_act" where
  "maria_do g = db_do (\<lambda>w. w\<lparr>env := g (env w)\<rparr>)"

definition maria_error :: "string \<Rightarrow> (int, 's) maria_act" where
  "maria_error m = db_bind (maria_do (\<lambda>e. e\<lparr>m_cerror := Some m\<rparr>)) (\<lambda>_. db_return 1)"

text \<open>A call of the library, and one that changes nothing.\<close>

definition my_call :: "('s \<Rightarrow> 'a \<times> 's) \<Rightarrow> ('a, 's) maria_act" where
  "my_call f = db_get (\<lambda>w. case f (my (env w)) of (x, s1) \<Rightarrow> db_bind (maria_do (\<lambda>e. e\<lparr>my := s1\<rparr>)) (\<lambda>_. db_return x))"

definition my_do :: "('s \<Rightarrow> 's) \<Rightarrow> (unit, 's) maria_act" where
  "my_do g = maria_do (\<lambda>e. e\<lparr>my := g (my e)\<rparr>)"

definition my_get :: "('s \<Rightarrow> 'a) \<Rightarrow> ('a, 's) maria_act" where
  "my_get f = db_get (\<lambda>w. db_return (f (my (env w))))"

text \<open>A member of the structure of the connection in use.\<close>

definition maria_member :: "('s maria_env \<Rightarrow> int \<Rightarrow> 'm option) \<Rightarrow> ('m \<Rightarrow> ('a, 's) maria_act) \<Rightarrow> ('a, 's) maria_act" where
  "maria_member m f = VV_CURR_DB (\<lambda>c. db_get (\<lambda>w.
     case (if dbc c then m (env w) (ind_current_db w) else None) of Some k \<Rightarrow> f k | None \<Rightarrow> db_fault Out_of_bounds))"

abbreviation maria_con :: "(nat option \<Rightarrow> ('a, 's) maria_act) \<Rightarrow> ('a, 's) maria_act" where "maria_con \<equiv> maria_member m_con"
abbreviation maria_res :: "(nat option \<Rightarrow> ('a, 's) maria_act) \<Rightarrow> ('a, 's) maria_act" where "maria_res \<equiv> maria_member m_res"
abbreviation maria_stmt :: "(nat option \<Rightarrow> ('a, 's) maria_act) \<Rightarrow> ('a, 's) maria_act" where "maria_stmt \<equiv> maria_member m_stmt"

definition set_member :: "(int \<Rightarrow> 's maria_env \<Rightarrow> 's maria_env) \<Rightarrow> (unit, 's) maria_act" where
  "set_member g = VV_CURR_DB (\<lambda>c. if dbc c then db_do (\<lambda>w. w\<lparr>env := g (ind_current_db w) (env w)\<rparr>) else db_fault Out_of_bounds)"

abbreviation set_maria_res :: "nat option \<Rightarrow> (unit, 's) maria_act" where
  "set_maria_res r \<equiv> set_member (\<lambda>i e. e\<lparr>m_res := (m_res e)(i := Some r)\<rparr>)"
abbreviation set_maria_stmt :: "nat option \<Rightarrow> (unit, 's) maria_act" where
  "set_maria_stmt st \<equiv> set_member (\<lambda>i e. e\<lparr>m_stmt := (m_stmt e)(i := Some st)\<rparr>)"
abbreviation set_maria_bind :: "string option list option \<Rightarrow> (unit, 's) maria_act" where
  "set_maria_bind b \<equiv> set_member (\<lambda>i e. e\<lparr>m_bind := (m_bind e)(i := Some b)\<rparr>)"

section \<open>Errors\<close>

definition vely_maria_checkc :: "'s mysql \<Rightarrow> (int, 's) maria_act" where
  "vely_maria_checkc M = maria_con (\<lambda>k. db_bind (my_call (my_ping M k)) (\<lambda>good. db_return (if good then 1 else 0)))"

definition vely_maria_errm :: "'s mysql \<Rightarrow> nat \<Rightarrow> string \<Rightarrow> string \<times> int \<Rightarrow> string \<Rightarrow> bool \<Rightarrow> (string, 's) maria_act" where
  "vely_maria_errm M errmsize s loc er is_prep =
     db_get (\<lambda>w.
       let txt = (case m_cerror (env w) of None \<Rightarrow> [] | Some t \<Rightarrow> t);
           out = (\<lambda>e. db_return (take (errmsize - 1)
             (''Error during query ['' @ s @ ''], additional ['' @ txt @ ''] file ['' @ fst loc @ ''], line ['' @
              decimal_text (snd loc) @ ''] : ['' @ er @ '']'' @ e))) in
       if atol er = my_parse_error M then out ''Problem with parsing SQL statement''
       else if \<not> is_prep then maria_con (\<lambda>k. db_bind (my_get (my_error M k)) out)
       else maria_stmt (\<lambda>st. db_bind (my_get (my_stmt_error M st)) out))"

definition vely_maria_error :: "'s mysql \<Rightarrow> string \<Rightarrow> bool \<Rightarrow> (string, 's) maria_act" where
  "vely_maria_error M s is_prep =
     (if \<not> is_prep then maria_con (\<lambda>k. db_bind (my_get (my_errno M k)) (\<lambda>n. db_return (take 29 (decimal_text n))))
      else maria_stmt (\<lambda>st. db_bind (my_get (my_stmt_errno M st)) (\<lambda>n. db_return (take 29 (decimal_text n)))))"

section \<open>Rows\<close>

text \<open>The fields of a row of a statement, from the index \<open>i\<close>, into buffers that have two bytes more than the field.\<close>

fun fetch_columns :: "'s mysql \<Rightarrow> char \<Rightarrow> nat option \<Rightarrow> nat list \<Rightarrow> nat \<Rightarrow> (string option list option, 's) maria_act" where
  "fetch_columns M x st [] i = db_return (Some [])"
| "fetch_columns M x st (n # ns) i =
     db_bind (my_call (my_stmt_fetch_column M st (n + 1) i)) (\<lambda>got. case got of
       None \<Rightarrow> db_bind (maria_error ''Cannot fetch data for column'') (\<lambda>_. db_return None)
     | Some b \<Rightarrow> db_bind (db_res (memput (replicate (n + 2) x) 0 b)) (\<lambda>buffer.
         db_bind (fetch_columns M x st ns (i + 1)) (\<lambda>rest. db_return (map_option (\<lambda>r. Some buffer # r) rest))))"

text \<open>Without truncation the fields stay in a local variable of the function, which is none any more when it returns:
  \<open>None\<close> is this memory.\<close>

definition vely_maria_stmt_rows :: "'s mysql \<Rightarrow> char \<Rightarrow> (int \<times> string option list \<times> nat list, 's) maria_act" where
  "vely_maria_stmt_rows M x =
     maria_res (\<lambda>res. maria_stmt (\<lambda>st.
       db_bind (my_get (my_num_fields M res)) (\<lambda>nf.
       let failed = (\<lambda>m. db_bind (maria_error m) (\<lambda>_. db_return (1, [], []))) in
       db_bind (my_call (my_stmt_bind_result M st nf)) (\<lambda>good.
         if \<not> good then failed ''Cannot initialize statement'' else
         db_bind (my_call (my_stmt_fetch M st)) (\<lambda>(got, l).
           let rlen = take nf (l @ replicate nf 0) in
           case got of
             Row_failed \<Rightarrow> failed ''Cannot fetch row''
           | Row_complete \<Rightarrow> db_return (0, replicate nf None, rlen)
           | Row_truncated \<Rightarrow> db_bind (fetch_columns M x st rlen 0) (\<lambda>row.
               case row of None \<Rightarrow> db_return (1, [], []) | Some r \<Rightarrow> db_return (0, r, rlen)))))))"

definition vely_maria_rows :: "'s mysql \<Rightarrow> char \<Rightarrow> bool \<Rightarrow> (int \<times> string option list \<times> nat list, 's) maria_act" where
  "vely_maria_rows M x is_prep =
     (if \<not> is_prep then
        db_bind (set_curr (\<lambda>c. c\<lparr>need_copy := 1\<rparr>)) (\<lambda>_. maria_res (\<lambda>res.
          db_bind (my_call (my_fetch_row M res)) (\<lambda>row.
          db_bind (my_get (my_fetch_lengths M res)) (\<lambda>lens.
            db_return (case row of None \<Rightarrow> (0, [], []) | Some r \<Rightarrow> (0, r, lens))))))
      else
        db_bind (set_curr (\<lambda>c. c\<lparr>need_copy := 0\<rparr>)) (\<lambda>_. vely_maria_stmt_rows M x))"

definition vely_maria_nrows :: "'s mysql \<Rightarrow> bool \<Rightarrow> (int, 's) maria_act" where
  "vely_maria_nrows M is_prep =
     (if \<not> is_prep then maria_res (\<lambda>res. my_get (my_num_rows M res)) else maria_stmt (\<lambda>st. my_get (my_stmt_num_rows M st)))"

definition vely_maria_free :: "'s mysql \<Rightarrow> (unit, 's) maria_act" where
  "vely_maria_free M = maria_res (\<lambda>res.
     db_bind (case res of None \<Rightarrow> db_return () | Some r \<Rightarrow> my_do (my_free_result M r)) (\<lambda>_. set_maria_res None))"

definition vely_maria_fieldname :: "'s mysql \<Rightarrow> (string, 's) maria_act" where
  "vely_maria_fieldname M = maria_res (\<lambda>res. db_bind (my_call (my_fetch_field M res)) (\<lambda>f.
     case f of None \<Rightarrow> db_fault Out_of_bounds | Some n \<Rightarrow> db_return n))"

definition vely_maria_nfield :: "'s mysql \<Rightarrow> (nat, 's) maria_act" where
  "vely_maria_nfield M = maria_res (\<lambda>res. my_get (my_num_fields M res))"

definition vely_maria_use :: "'s mysql \<Rightarrow> bool \<Rightarrow> (int, 's) maria_act" where
  "vely_maria_use M is_prep =
     (if \<not> is_prep then maria_con (\<lambda>k. db_bind (my_call (my_use_result M k)) (\<lambda>r. db_bind (set_maria_res r) (\<lambda>_.
        if r = None then maria_error ''Error storing obtained data'' else db_return 0)))
      else maria_stmt (\<lambda>st. db_bind (my_call (my_stmt_metadata M st)) (\<lambda>r. db_bind (set_maria_res r) (\<lambda>_.
        if r = None then maria_error ''Error storing obtained data (1)'' else db_return 0))))"

definition vely_maria_store :: "'s mysql \<Rightarrow> bool \<Rightarrow> (int, 's) maria_act" where
  "vely_maria_store M is_prep =
     (if \<not> is_prep then maria_con (\<lambda>k. db_bind (my_call (my_store_result M k)) (\<lambda>r. db_bind (set_maria_res r) (\<lambda>_.
        if r = None then maria_error ''Error storing obtained data (2)'' else db_return 0)))
      else db_bind (vely_maria_use M is_prep) (\<lambda>_. maria_stmt (\<lambda>st.
        db_bind (my_do (my_stmt_max_length M st)) (\<lambda>_.
        db_bind (my_call (my_stmt_store M st)) (\<lambda>good.
          if \<not> good then maria_error ''Error storing obtained data (3)'' else db_return 0)))))"

definition vely_maria_affected :: "'s mysql \<Rightarrow> bool \<Rightarrow> (int, 's) maria_act" where
  "vely_maria_affected M is_prep =
     (if \<not> is_prep then maria_con (\<lambda>k. my_get (my_affected M k)) else maria_stmt (\<lambda>st. my_get (my_stmt_affected M st)))"

section \<open>Connections\<close>

definition vely_maria_close :: "'s mysql \<Rightarrow> (unit, 's) maria_act" where
  "vely_maria_close M = maria_con (\<lambda>k. my_do (my_close M k))"

definition vely_maria_close_stmt :: "'s mysql \<Rightarrow> nat option \<Rightarrow> (unit, 's) maria_act" where
  "vely_maria_close_stmt M st =
     (case st of None \<Rightarrow> db_return ()
      | Some a \<Rightarrow> VV_CURR_DB (\<lambda>c. if dbc c then my_do (my_stmt_close M a) else db_return ()))"

text \<open>The structure of a connection, in which the statement is not set.\<close>

definition alloc_maria :: "'s mysql \<Rightarrow> (unit, 's) maria_act" where
  "alloc_maria M =
     db_bind (set_curr (\<lambda>c. c\<lparr>dbc := True\<rparr>)) (\<lambda>_.
     db_bind (my_call (my_init M)) (\<lambda>k.
       db_do (\<lambda>w. w\<lparr>env := (env w)\<lparr>m_con := (m_con (env w))(ind_current_db w := Some k),
         m_res := (m_res (env w))(ind_current_db w := Some None), m_bind := (m_bind (env w))(ind_current_db w := Some None),
         m_stmt := (m_stmt (env w))(ind_current_db w := None)\<rparr>\<rparr>)))"

definition vely_maria_connect :: "'s mysql \<Rightarrow> string \<Rightarrow> int \<Rightarrow> (bool, 's) maria_act" where
  "vely_maria_connect M dbconf_dir abort_if_bad =
     db_bind (vely_db_prep (\<lambda>_. vely_maria_close_stmt M) None) (\<lambda>_.
     db_bind (alloc_maria M) (\<lambda>_.
     let bad = (\<lambda>m. if abort_if_bad = 1 then db_report m
           else db_bind (vely_end_connection (\<lambda>_. db_return ()) False) (\<lambda>_. db_return False));
         worse = (\<lambda>m. db_bind (vely_end_connection (\<lambda>_. vely_maria_close M) True) (\<lambda>_.
           if abort_if_bad = 1 then db_report m else db_return False)) in
     maria_con (\<lambda>k.
       if k = None then bad ''Cannot initialize database connection''
       else VV_CURR_DB (\<lambda>c.
         db_bind (my_do (my_read_config M k (take 149 (dbconf_dir @ ''/'' @ db_name c)))) (\<lambda>_.
         db_bind (my_call (my_real_connect M k)) (\<lambda>good.
           if \<not> good then bad ''Error in logging in to database: error [%s], using config file [%s]'' else
           db_bind (my_call (my_set_charset M k ''utf8'')) (\<lambda>good.
             if \<not> good then worse ''Cannot set character set to utf8'' else
             db_bind (my_call (my_query M k ''set session sql_mode=ansi_quotes'')) (\<lambda>st.
               if st \<noteq> 0 then worse ''Cannot set sql_mode to ansi_quotes''
               else VV_CURR_DB (\<lambda>c. db_return (dbc c))))))))))"

section \<open>Statements\<close>

definition vely_maria_prep_stmt :: "'s mysql \<Rightarrow> char \<Rightarrow> nat \<Rightarrow> string \<Rightarrow> nat \<Rightarrow> (int, 's) maria_act" where
  "vely_maria_prep_stmt M x prep stmt num_of_args =
     (let check = db_bind (set_curr (\<lambda>c. c\<lparr>num_inp := int num_of_args\<rparr>)) (\<lambda>_. maria_stmt (\<lambda>st.
            db_bind (my_get (my_stmt_param_count M st)) (\<lambda>count.
              if count \<noteq> int num_of_args then maria_error ''Wrong number of input parameters''
              else if num_of_args \<noteq> 0
              then db_bind (set_maria_bind (Some (replicate num_of_args None))) (\<lambda>_. db_return 0) else db_return 0))) in
      db_get (\<lambda>w. case prep_at w prep of
        Some a \<Rightarrow> db_bind (maria_do (\<lambda>e. e\<lparr>m_stmt_cached := 1\<rparr>)) (\<lambda>_. db_bind (set_maria_stmt (Some a)) (\<lambda>_. check))
      | None \<Rightarrow>
          VV_CURR_DB (\<lambda>c. db_bind (db_res (vely_db_prep_text (db_type c) x stmt)) (\<lambda>t. maria_con (\<lambda>k.
            db_bind (my_call (my_stmt_init M k)) (\<lambda>st. db_bind (set_maria_stmt st) (\<lambda>_.
              if st = None then maria_error ''Cannot initialize statement'' else
              db_bind (my_call (my_stmt_prepare M st (cstr t))) (\<lambda>good.
                if \<not> good then maria_error ''Cannot prepare statement''
                else db_bind (db_do (\<lambda>w. w\<lparr>prep_at := (prep_at w)(prep := st)\<rparr>)) (\<lambda>_. check)))))))))"

definition vely_maria_add_input :: "nat \<Rightarrow> string \<Rightarrow> (unit, 's) maria_act" where
  "vely_maria_add_input i arg = maria_member m_bind (\<lambda>b. case b of
     None \<Rightarrow> db_fault Out_of_bounds
   | Some bs \<Rightarrow> db_bind (db_res (memput bs i [Some arg])) (\<lambda>bs1. set_maria_bind (Some bs1)))"

fun add_arguments :: "nat \<Rightarrow> string list \<Rightarrow> (unit, 's) maria_act" where
  "add_arguments i [] = db_return ()"
| "add_arguments i (p # ps) = db_bind (vely_maria_add_input i p) (\<lambda>_. add_arguments (i + 1) ps)"

definition vely_maria_bind_input :: "'s mysql \<Rightarrow> (unit, 's) maria_act" where
  "vely_maria_bind_input M = VV_CURR_DB (\<lambda>c. if num_inp c \<noteq> 0
     then maria_stmt (\<lambda>st. maria_member m_bind (\<lambda>b. case b of None \<Rightarrow> db_fault Out_of_bounds
       | Some bs \<Rightarrow> my_do (my_stmt_bind_param M st bs)))
     else db_return ())"

definition vely_maria_stmt_exec :: "'s mysql \<Rightarrow> (int, 's) maria_act" where
  "vely_maria_stmt_exec M = maria_stmt (\<lambda>st. db_bind (my_call (my_stmt_execute M st)) (\<lambda>res.
     maria_member m_bind (\<lambda>b. if b \<noteq> None then db_bind (set_maria_bind None) (\<lambda>_. db_return res) else db_return res)))"

definition vely_maria_exec :: "'s mysql \<Rightarrow> char \<Rightarrow> string \<Rightarrow> bool \<Rightarrow> nat option \<Rightarrow> string list \<Rightarrow> (int, 's) maria_act" where
  "vely_maria_exec M x s is_prep prep params =
     db_bind (maria_do (\<lambda>e. e\<lparr>m_stmt_cached := 0\<rparr>)) (\<lambda>_.
     if \<not> is_prep then maria_con (\<lambda>k. my_call (my_query M k s))
     else
       (case prep of None \<Rightarrow> db_fault Out_of_bounds
        | Some p \<Rightarrow>
            db_bind (vely_maria_prep_stmt M x p s (length params)) (\<lambda>st.
              if st \<noteq> 0 then db_return 1
              else db_bind (add_arguments 0 params) (\<lambda>_.
                db_bind (vely_maria_bind_input M) (\<lambda>_. vely_maria_stmt_exec M)))))"

text \<open>The driver; the buffer for the text of an error has 8192 bytes (db.c, \<^verbatim>\<open>vely_handle_error\<close>).\<close>

definition maria_driver :: "'s mysql \<Rightarrow> string \<Rightarrow> char \<Rightarrow> 's maria_env driver" where
  "maria_driver M dbconf_dir x =
     \<lparr>drv_connect = vely_maria_connect M dbconf_dir,
      drv_close = vely_maria_close M,
      drv_checkc = vely_maria_checkc M,
      drv_exec = (\<lambda>s _. vely_maria_exec M x s),
      drv_error = vely_maria_error M,
      drv_errm = vely_maria_errm M 8192,
      drv_affected = vely_maria_affected M,
      drv_store = vely_maria_store M,
      drv_use = vely_maria_use M,
      drv_nfield = vely_maria_nfield M,
      drv_nrows = vely_maria_nrows M,
      drv_fieldname = (\<lambda>_ _. vely_maria_fieldname M),
      drv_rows = (\<lambda>p _ _. vely_maria_rows M x p),
      drv_free = (\<lambda>_. vely_maria_free M),
      drv_close_stmt = vely_maria_close_stmt M\<rparr>"

section \<open>The contract\<close>

lemma quiet_my [quiets]:
  "quiet (maria_do g)" "quiet (maria_error m)" "quiet (my_call c)" "quiet (my_do h)" "quiet (my_get f)" "quiet (set_member u)"
  unfolding maria_error_def maria_do_def my_call_def my_do_def my_get_def set_member_def by (intro quiets)+

lemma quiet_maria_member [quiets]: "(\<And>k. quiet (f k)) \<Longrightarrow> quiet (maria_member m f)"
  unfolding maria_member_def by (intro quiets; assumption)

lemma quiet_fetch_columns [quiets]: "quiet (fetch_columns M x st ns i)"
  by (induction ns arbitrary: i) (auto intro!: quiets split: option.splits)

lemma quiet_maria_rows: "quiet (vely_maria_rows M x p)"
  unfolding vely_maria_rows_def vely_maria_stmt_rows_def Let_def
  by (auto intro!: quiets split: fetched.splits option.splits)

lemma quiet_maria_exec: "quiet (vely_maria_exec M x s p pr ps)"
proof -
  have "quiet (add_arguments i ps)" for i and ps :: "string list"
    by (induction ps arbitrary: i) (auto simp: vely_maria_add_input_def intro!: quiets)
  then show ?thesis
    unfolding vely_maria_exec_def vely_maria_prep_stmt_def vely_maria_bind_input_def vely_maria_stmt_exec_def Let_def
    by (intro quiets)
qed

lemma quiet_maria_close_stmt: "quiet (vely_maria_close_stmt M st)"
  unfolding vely_maria_close_stmt_def by (intro quiets)

lemma quiet_maria_small:
  "quiet (vely_maria_close M)" "quiet (vely_maria_checkc M)" "quiet (vely_maria_error M s p)" "quiet (vely_maria_errm M n s l er p)"
  "quiet (vely_maria_affected M p)" "quiet (vely_maria_nfield M)" "quiet (vely_maria_nrows M p)" "quiet (vely_maria_fieldname M)"
  "quiet (vely_maria_free M)" "quiet (vely_maria_use M p)" "quiet (vely_maria_store M p)"
  unfolding vely_maria_close_def vely_maria_checkc_def vely_maria_error_def vely_maria_errm_def vely_maria_affected_def
    vely_maria_nfield_def vely_maria_nrows_def vely_maria_fieldname_def vely_maria_free_def vely_maria_store_def
    vely_maria_use_def Let_def
  by (intro quiets)+

text \<open>A connection that is closed while the driver connects.\<close>

lemma connecting_end:
  assumes "\<And>t. quiet (close t)"
  shows "keeps (connecting w0) (vely_end_connection close True)"
proof -
  have close: "keeps (connecting w0) (close t)" for t by (rule quiet_keeps [OF assms connecting_closed(1)])
  have reset: "keeps (connecting w0) (set_curr (\<lambda>c. c\<lparr>dbc := False, is_begin_transaction := 0\<rparr>))"
    by (auto simp: hoare_def set_curr_with connecting_def connects_with_cur)
  show ?thesis unfolding vely_end_connection_def by (intro keeping close reset)
qed

lemma connecting_worse:
  assumes "\<And>t. quiet (close t)"
  shows "hoare (\<lambda>w. connecting w0 w \<and> dbc (cur w)) (db_bind (vely_end_connection close True) (\<lambda>_.
      if a = 1 then db_report m else db_return False)) (\<lambda>ok w. connects w0 w \<and> (ok \<longrightarrow> dbc (cur w))) (connects w0)"
  by (intro hoare_bind [where R = "\<lambda>_. connecting w0"] keeps_if hoare_fault hoare_return
      hoare_weaken [OF connecting_end [OF assms]])
    (auto simp: connecting_def)

lemma maria_connect:
  "hoare (\<lambda>w. w = w0 \<and> curr_ok w) (vely_maria_connect M dir a) (\<lambda>ok w. connects w0 w \<and> (ok \<longrightarrow> dbc (cur w))) (connects w0)"
proof -
  have prep: "quiet (vely_db_prep (\<lambda>_. vely_maria_close_stmt M) None)"
    by (auto simp: vely_db_prep_def intro!: quiets quiet_reset_preps quiet_maria_close_stmt)
  have alloc: "hoare (connecting w0) (alloc_maria M) (\<lambda>_ w. connecting w0 w \<and> dbc (cur w)) (connects w0)"
    unfolding alloc_maria_def by (rule connecting_alloc, intro quiets)
  have step: "hoare (\<lambda>w. connecting w0 w \<and> dbc (cur w)) (db_bind m f) Q (connects w0)"
    if "quiet m" "\<And>y. hoare (\<lambda>w. connecting w0 w \<and> dbc (cur w)) (f y) Q (connects w0)"
    for m :: "('b, 'a maria_env) db_act" and f :: "'b \<Rightarrow> ('c, 'a maria_env) db_act" and Q
    by (rule hoare_bind [OF connecting_step [OF that(1)] that(2)]) simp
  have member: "hoare (\<lambda>w. connecting w0 w \<and> dbc (cur w)) (maria_member m f) Q (connects w0)"
    if "\<And>k. hoare (\<lambda>w. connecting w0 w \<and> dbc (cur w)) (f k) Q (connects w0)"
    for m :: "'a maria_env \<Rightarrow> int \<Rightarrow> 'b option" and f :: "'b \<Rightarrow> ('c, 'a maria_env) db_act" and Q
    unfolding maria_member_def
    by (rule hoare_curr, rule hoare_get, rule keeps_option, rule hoare_fault, simp add: connecting_def,
        rule hoare_weaken [OF that]) (simp_all add: connecting_def)
  have curr: "hoare (\<lambda>w. connecting w0 w \<and> dbc (cur w)) (VV_CURR_DB f) Q (connects w0)"
    if "\<And>c. hoare (\<lambda>w. connecting w0 w \<and> dbc (cur w)) (f c) Q (connects w0)" for f :: "one_db \<Rightarrow> (bool, 'a maria_env) db_act" and Q
    by (rule hoare_curr, rule hoare_weaken [OF that]) (simp_all add: connecting_def)
  note bad = connecting_leave [OF connecting_set(2)] and worse = connecting_worse [OF quiet_maria_small(1)]
  show ?thesis
    unfolding vely_maria_connect_def Let_def
    by (rule connecting_start [OF prep], rule hoare_bind [OF alloc], rule member, rule keeps_if, rule bad, rule curr, rule step,
        rule quiets, rule step, rule quiets, rule keeps_if, rule bad, rule step, rule quiets, rule keeps_if, rule worse, rule step,
        rule quiets, rule keeps_if, rule worse, rule connecting_done)
qed

lemma maria_driver_simps [simp]:
  "drv_connect (maria_driver M dir x) = vely_maria_connect M dir" "drv_close (maria_driver M dir x) = vely_maria_close M"
  "drv_checkc (maria_driver M dir x) = vely_maria_checkc M" "drv_exec (maria_driver M dir x) s n = vely_maria_exec M x s"
  "drv_error (maria_driver M dir x) = vely_maria_error M" "drv_errm (maria_driver M dir x) = vely_maria_errm M 8192"
  "drv_affected (maria_driver M dir x) = vely_maria_affected M" "drv_store (maria_driver M dir x) = vely_maria_store M"
  "drv_use (maria_driver M dir x) = vely_maria_use M" "drv_nfield (maria_driver M dir x) = vely_maria_nfield M"
  "drv_nrows (maria_driver M dir x) = vely_maria_nrows M" "drv_fieldname (maria_driver M dir x) p i = vely_maria_fieldname M"
  "drv_rows (maria_driver M dir x) p i j = vely_maria_rows M x p" "drv_free (maria_driver M dir x) p = vely_maria_free M"
  "drv_close_stmt (maria_driver M dir x) = vely_maria_close_stmt M"
  by (simp_all add: maria_driver_def)

interpretation maria_db: database "\<lambda>_. maria_driver M dir x" for M dir x
  by unfold_locales (simp_all add: maria_connect quiet_maria_small quiet_maria_exec quiet_maria_rows quiet_maria_close_stmt)

end
