(* ===== verification/MariaRows.thy ===== *)
theory MariaRows
  imports Maria LiteRows
begin

text \<open>
  The rows of a prepared query with the MariaDB driver: what the client library gives reaches the program, as long as every
  row has a byte in one of its fields.
\<close>

section \<open>What the library gives\<close>

text \<open>The fields of a row from the index \<open>i\<close>, each fetched into a buffer that has one byte more than it.\<close>

fun columns :: "'s mysql \<Rightarrow> nat option \<Rightarrow> nat \<Rightarrow> string list \<Rightarrow> 's \<Rightarrow> 's \<Rightarrow> bool" where
  "columns M st i [] s s' \<longleftrightarrow> s' = s"
| "columns M st i (v # vs) s s' \<longleftrightarrow> (\<exists>b s1. my_stmt_fetch_column M st (length v + 1) i s = (Some b, s1) \<and>
     take (length v) b = v \<and> length b \<le> length v + 1 \<and> columns M st (i + 1) vs s1 s')"

text \<open>A row that is reported as cut off, and one that is not.\<close>

definition row_given :: "'s mysql \<Rightarrow> nat \<Rightarrow> nat \<Rightarrow> nat \<Rightarrow> string list \<Rightarrow> 's \<Rightarrow> 's \<Rightarrow> bool" where
  "row_given M st res n r s s' \<longleftrightarrow> my_num_fields M (Some res) s = n \<and> length r = n \<and>
     (\<exists>s1 s2. my_stmt_bind_result M (Some st) n s = (True, s1) \<and>
       my_stmt_fetch M (Some st) s1 = ((Row_truncated, lens_of r), s2) \<and> columns M (Some st) 0 r s2 s')"

definition empty_row_given :: "'s mysql \<Rightarrow> nat \<Rightarrow> nat \<Rightarrow> nat \<Rightarrow> 's \<Rightarrow> bool" where
  "empty_row_given M st res n s \<longleftrightarrow> my_num_fields M (Some res) s = n \<and>
     (\<exists>s1 s2. my_stmt_bind_result M (Some st) n s = (True, s1) \<and>
       my_stmt_fetch M (Some st) s1 = ((Row_complete, replicate n 0), s2))"

inductive rows_given :: "'s mysql \<Rightarrow> nat \<Rightarrow> nat \<Rightarrow> nat \<Rightarrow> string list list \<Rightarrow> 's \<Rightarrow> 's \<Rightarrow> bool" for M st res n where
  no_row: "rows_given M st res n [] s s"
| next_row: "row_given M st res n r s s1 \<Longrightarrow> rows_given M st res n rows s1 s' \<Longrightarrow> rows_given M st res n (r # rows) s s'"

text \<open>A statement that is prepared, or was prepared before, and executed with its arguments.\<close>

definition runs_prepared :: "'s mysql \<Rightarrow> char \<Rightarrow> nat \<Rightarrow> string \<Rightarrow> nat option \<Rightarrow> string list \<Rightarrow> nat \<Rightarrow> 's \<Rightarrow> 's \<Rightarrow> bool" where
  "runs_prepared M x con s cached params st s0 s3 \<longleftrightarrow>
     (\<exists>s2. (case cached of
              Some a \<Rightarrow> a = st \<and> s2 = s0
            | None \<Rightarrow> \<exists>t s1. vely_db_prep_text VV_DB_MARIADB x s = Inr t \<and> my_stmt_init M (Some con) s0 = (Some st, s1) \<and>
                my_stmt_prepare M (Some st) (cstr t) s1 = (True, s2)) \<and>
       my_stmt_param_count M (Some st) s2 = int (length params) \<and>
       my_stmt_execute M (Some st) (if params = [] then s2 else my_stmt_bind_param M (Some st) (map Some params) s2) = (0, s3))"

text \<open>Its result, which is stored by the library.\<close>

definition result_stored :: "'s mysql \<Rightarrow> nat \<Rightarrow> nat \<Rightarrow> 's \<Rightarrow> 's \<Rightarrow> bool" where
  "result_stored M st res s s' \<longleftrightarrow>
     (\<exists>s1. my_stmt_metadata M (Some st) s = (Some res, s1) \<and> my_stmt_store M (Some st) (my_stmt_max_length M (Some st) s1) = (True, s'))"

section \<open>Running the driver\<close>

abbreviation with_my :: "'s maria_env dbs \<Rightarrow> 's \<Rightarrow> 's maria_env dbs" where
  "with_my w s \<equiv> w\<lparr>env := (env w)\<lparr>my := s\<rparr>\<rparr>"

lemma my_runs [simp]:
  "my_call f w = (case f (my (env w)) of (y, s) \<Rightarrow> Some (Inr (y, with_my w s)))"
  "my_do g w = Some (Inr ((), with_my w (g (my (env w)))))"
  "my_get h w = Some (Inr (h (my (env w)), w))"
  "maria_do u w = Some (Inr ((), w\<lparr>env := u (env w)\<rparr>))"
  by (simp_all add: my_call_def my_do_def my_get_def maria_do_def db_get_def db_bind_def db_do_def db_return_def split: prod.split)

text \<open>The connection in use is one of MariaDB, with its structure, a statement and a result.\<close>

definition maria_connected :: "nat \<Rightarrow> 's maria_env dbs \<Rightarrow> bool" where
  "maria_connected con w \<longleftrightarrow> connected w \<and> db_type (cur w) = VV_DB_MARIADB \<and> m_con (env w) (ind_current_db w) = Some (Some con)
     \<and> m_bind (env w) (ind_current_db w) = Some None"

definition reading :: "nat \<Rightarrow> nat \<Rightarrow> 's maria_env dbs \<Rightarrow> bool" where
  "reading st res w \<longleftrightarrow> curr_ok w \<and> dbc (cur w) \<and> db_type (cur w) = VV_DB_MARIADB
     \<and> m_stmt (env w) (ind_current_db w) = Some (Some st) \<and> m_res (env w) (ind_current_db w) = Some (Some res)"

lemma curr_ok_env [simp]: "curr_ok (w\<lparr>env := e\<rparr>) = curr_ok w" "curr_ok (with_cur g w) = curr_ok w"
  "connected (w\<lparr>env := e\<rparr>) = connected w"
  by (simp_all add: curr_ok_def with_cur_def connected_def)

section \<open>A row\<close>

text \<open>A buffer that begins with a field and has room for a zero byte, and one where this byte is.\<close>

definition room :: "string option \<Rightarrow> string \<Rightarrow> bool" where
  "room c v \<longleftrightarrow> (\<exists>b. c = Some b \<and> take (length v) b = v \<and> length v < length b)"

definition holds :: "string option \<Rightarrow> string \<Rightarrow> bool" where
  "holds c v \<longleftrightarrow> (\<exists>b. c = Some (v @ NUL # b))"

lemma fetch_columns_given:
  "columns M st i r (my (env w)) s' \<Longrightarrow>
    \<exists>cells. fetch_columns M x st (lens_of r) i w = Some (Inr (Some cells, with_my w s')) \<and> list_all2 room cells r"
proof (induction r arbitrary: i w)
  case Nil
  then show ?case by (simp add: db_return_def)
next
  case (Cons v vs)
  then obtain b s1 where b: "my_stmt_fetch_column M st (length v + 1) i (my (env w)) = (Some b, s1)" "take (length v) b = v"
    "length b \<le> length v + 1" "columns M st (i + 1) vs s1 s'" by auto
  let ?b = "b @ drop (length b) (replicate (length v + 2) x)"
  have put: "memput (replicate (length v + 2) x) 0 b = Inr ?b" using b(3) by (simp add: memput_def)
  have len: "length v \<le> length b" using arg_cong [OF b(2), of length] by simp
  have room: "room (Some ?b) v" using b(2,3) len by (simp add: room_def)
  obtain cells where cells: "fetch_columns M x st (lens_of vs) (i + 1) (with_my w s1) = Some (Inr (Some cells, with_my w s'))"
    "list_all2 room cells vs"
    using Cons.IH [of "i + 1" "with_my w s1"] b(4) by auto
  have "fetch_columns M x st (lens_of (v # vs)) i w = Some (Inr (Some (Some ?b # cells), with_my w s'))"
    using b(1) put cells(1) by (simp add: db_bind_def db_res_def db_return_def del: replicate.simps replicate_Suc)
  then show ?case using cells(2) room by auto
qed

lemma row_read:
  assumes "reading st res w" "row_given M st res n r (my (env w)) s'"
  obtains cells w1 where
    "with_driver (\<lambda>_. maria_driver M dir x) (\<lambda>d. drv_rows d True k j) w = Some (Inr ((0, cells, lens_of r), w1))"
    "list_all2 room cells r" "reading st res w1" "need_copy (cur w1) = 0" "my (env w1) = s'"
proof -
  obtain s1 s2 where g: "my_num_fields M (Some res) (my (env w)) = n" "length r = n"
    "my_stmt_bind_result M (Some st) n (my (env w)) = (True, s1)"
    "my_stmt_fetch M (Some st) s1 = ((Row_truncated, lens_of r), s2)" "columns M (Some st) 0 r s2 s'"
    using assms(2) by (auto simp: row_given_def)
  let ?w = "with_cur (\<lambda>c. c\<lparr>need_copy := 0\<rparr>) w"
  have w: "curr_ok w" "dbc (cur w)" "db_type (cur w) = VV_DB_MARIADB" "m_stmt (env w) (ind_current_db w) = Some (Some st)"
    "m_res (env w) (ind_current_db w) = Some (Some res)" using assms(1) by (simp_all add: reading_def)
  obtain cells where cells: "fetch_columns M x (Some st) (lens_of r) 0 (with_my ?w s2) = Some (Inr (Some cells, with_my ?w s'))"
    "list_all2 room cells r"
    using fetch_columns_given [of M "Some st" 0 r "with_my ?w s2" s' x] g(5) by auto
  show ?thesis
  proof (rule that [of cells "with_my ?w s'"])
    show "with_driver (\<lambda>_. maria_driver M dir x) (\<lambda>d. drv_rows d True k j) w = Some (Inr ((0, cells, lens_of r), with_my ?w s'))"
      using w g cells(1)
      by (simp add: with_driver_def VV_CURR_DB_def vely_maria_rows_def set_curr_with db_bind_def vely_maria_stmt_rows_def
          maria_member_def db_get_def db_return_def Let_def)
  qed (use w cells in \<open>simp_all add: reading_def\<close>)
qed


lemma empty_row_read:
  assumes "reading st res w" "empty_row_given M st res n (my (env w))"
  obtains w1 where
    "with_driver (\<lambda>_. maria_driver M dir x) (\<lambda>d. drv_rows d True k j) w = Some (Inr ((0, replicate n None, replicate n 0), w1))"
    "curr_ok w1" "need_copy (cur w1) = 0"
proof -
  obtain s1 s2 where g: "my_num_fields M (Some res) (my (env w)) = n" "my_stmt_bind_result M (Some st) n (my (env w)) = (True, s1)"
    "my_stmt_fetch M (Some st) s1 = ((Row_complete, replicate n 0), s2)" using assms(2) by (auto simp: empty_row_given_def)
  have w: "curr_ok w" "dbc (cur w)" "db_type (cur w) = VV_DB_MARIADB" "m_stmt (env w) (ind_current_db w) = Some (Some st)"
    "m_res (env w) (ind_current_db w) = Some (Some res)" using assms(1) by (simp_all add: reading_def)
  let ?w = "with_cur (\<lambda>c. c\<lparr>need_copy := 0\<rparr>) w"
  show ?thesis
    by (rule that [of "with_my ?w s2"])
      (use w g in \<open>simp_all add: with_driver_def VV_CURR_DB_def vely_maria_rows_def set_curr_with db_bind_def vely_maria_stmt_rows_def
        maria_member_def db_get_def db_return_def Let_def\<close>)
qed

section \<open>The rows\<close>

lemma store_fields_room:
  "list_all2 room row r \<Longrightarrow> cpos + length r \<le> length dat \<Longrightarrow> length dl = length dat \<Longrightarrow>
    \<exists>cells. store_fields 0 row (lens_of r) cpos (length r) (dat, dl)
        = Inr (take cpos dat @ cells @ drop (cpos + length r) dat, take cpos dl @ map Some (lens_of r) @ drop (cpos + length r) dl)
      \<and> list_all2 holds cells r"
proof (induction r arbitrary: row cpos dat dl)
  case Nil
  then show ?case by simp
next
  case (Cons v r)
  obtain c row1 where "row = c # row1" "room c v" "list_all2 room row1 r" using Cons.prems(1) by (auto simp: list_all2_Cons2)
  then obtain b where row: "row = Some b # row1" "take (length v) b = v" "length v < length b" "list_all2 room row1 r"
    by (auto simp: room_def)
  let ?cell = "v @ NUL # drop (length v + 1) b"
  let ?dat = "take cpos dat @ [Some ?cell] @ drop (cpos + 1) dat" and ?dl = "take cpos dl @ [Some (length v)] @ drop (cpos + 1) dl"
  have fits: "cpos + 1 + length r \<le> length ?dat" "length ?dl = length ?dat" using Cons.prems(2,3) by auto
  have "field_memory 0 (Some b) (length v) = Inr ?cell"
    using row(2,3) by (simp add: field_memory_def memput_def)
  then have "store_fields 0 row (lens_of (v # r)) cpos (length (v # r)) (dat, dl)
      = store_fields 0 row1 (lens_of r) (cpos + 1) (length r) (?dat, ?dl)"
    using Cons.prems(2,3) by (simp add: row(1) memput_def res_bind_def)
  moreover obtain cells where "store_fields 0 row1 (lens_of r) (cpos + 1) (length r) (?dat, ?dl)
      = Inr (take (cpos + 1) ?dat @ cells @ drop (cpos + 1 + length r) ?dat,
          take (cpos + 1) ?dl @ map Some (lens_of r) @ drop (cpos + 1 + length r) ?dl)" "list_all2 holds cells r"
    using Cons.IH [OF row(4) fits] by blast
  moreover have "holds (Some ?cell) v" by (simp add: holds_def)
  ultimately show ?case
    using Cons.prems(2,3) by (intro exI [of _ "Some ?cell # cells"]) (simp add: drop_drop add.commute)
qed

text \<open>The arrays hold the fields \<open>vs\<close>, with their lengths.\<close>

definition filled :: "nat \<Rightarrow> nat \<Rightarrow> string option list \<Rightarrow> nat option list \<Rightarrow> string list \<Rightarrow> bool" where
  "filled n batch dat dl vs \<longleftrightarrow> length dat = batch * n \<and> length dl = batch * n \<and> length vs \<le> batch * n
     \<and> list_all2 holds (take (length vs) dat) vs \<and> take (length vs) dl = map Some (lens_of vs)"

lemma filled_row:
  assumes "filled n batch dat dl vs" "length vs = n * r" "r \<le> batch" "length row = n" "list_all2 room got row"
    and "batch1 = (if r \<ge> batch then batch + VV_INITIAL_QUERY_BATCH else batch)"
    and "dat1 = (if r \<ge> batch then dat @ replicate (batch1 * n - length dat) None else dat)"
    and "dl1 = (if r \<ge> batch then dl @ replicate (batch1 * n - length dl) None else dl)"
  obtains dat2 dl2 where "store_fields 0 got (lens_of row) (r * n) n (dat1, dl1) = Inr (dat2, dl2)"
    "filled n batch1 dat2 dl2 (vs @ row)" "r + 1 \<le> batch1"
proof -
  have b: "r + 1 \<le> batch1" using assms(3,6) by (simp add: VV_INITIAL_QUERY_BATCH_def)
  have f: "length dat = batch * n" "length dl = batch * n" "length vs \<le> batch * n" "list_all2 holds (take (length vs) dat) vs"
    "take (length vs) dl = map Some (lens_of vs)" using assms(1) by (simp_all add: filled_def)
  have len: "length dat1 = batch1 * n" "length dl1 = batch1 * n"
    using f(1,2) assms(6) by (simp_all add: assms(7,8) algebra_simps)
  have pre: "take (length vs) dat1 = take (length vs) dat" "take (length vs) dl1 = take (length vs) dl"
    using f(1-3) by (simp_all add: assms(7,8))
  have fits: "length vs + n \<le> batch1 * n" using mult_le_mono1 [OF b, of n] assms(2) by (simp add: algebra_simps)
  have at: "r * n = length vs" using assms(2) by (simp add: mult.commute)
  obtain cells where c: "store_fields 0 got (lens_of row) (length vs) (length row) (dat1, dl1)
      = Inr (take (length vs) dat1 @ cells @ drop (length vs + length row) dat1,
          take (length vs) dl1 @ map Some (lens_of row) @ drop (length vs + length row) dl1)" "list_all2 holds cells row"
    using store_fields_room [OF assms(5), of "length vs" dat1 dl1] fits len assms(4) by auto
  have k: "length cells = n" using list_all2_lengthD [OF c(2)] assms(4) by simp
  show ?thesis
  proof (rule that [OF _ _ b])
    show "store_fields 0 got (lens_of row) (r * n) n (dat1, dl1)
        = Inr (take (length vs) dat1 @ cells @ drop (length vs + n) dat1,
            take (length vs) dl1 @ map Some (lens_of row) @ drop (length vs + n) dl1)"
      using c(1) at assms(4) by simp
    show "filled n batch1 (take (length vs) dat1 @ cells @ drop (length vs + n) dat1)
        (take (length vs) dl1 @ map Some (lens_of row) @ drop (length vs + n) dl1) (vs @ row)"
      unfolding filled_def using f pre len fits k c(2) assms(4) by (simp add: list_all2_appendI min_absorb2)
  qed
qed

lemma select_rows_given:
  assumes "rows_given M st res n rows s s'"
  shows "reading st res w \<Longrightarrow> my (env w) = s \<Longrightarrow> filled n batch dat dl vs \<Longrightarrow> length vs = n * r \<Longrightarrow> r \<le> batch \<Longrightarrow>
    \<exists>batch' dat' dl' w'. select_rows (\<lambda>_. maria_driver M dir x) True n batch (length rows + k) r (dat, dl) w
        = select_rows (\<lambda>_. maria_driver M dir x) True n batch' k (r + length rows) (dat', dl') w'
      \<and> reading st res w' \<and> my (env w') = s' \<and> filled n batch' dat' dl' (vs @ concat rows) \<and> r + length rows \<le> batch'"
  using assms
proof (induction arbitrary: w batch dat dl vs r rule: rows_given.induct)
  case (no_row s)
  then show ?case by auto
next
  case (next_row row s s1 rows s')
  let ?drv = "\<lambda>_. maria_driver M dir x"
  have g: "row_given M st res n row (my (env w)) s1" using next_row.hyps(1) next_row.prems(2) by simp
  then have row: "length row = n" by (simp add: row_given_def)
  obtain cells w1 where w1: "with_driver ?drv (\<lambda>d. drv_rows d True n r) w = Some (Inr ((0, cells, lens_of row), w1))"
    "list_all2 room cells row" "reading st res w1" "need_copy (cur w1) = 0" "my (env w1) = s1"
    by (rule row_read [OF next_row.prems(1) g])
  define batch1 where "batch1 = (if r \<ge> batch then batch + VV_INITIAL_QUERY_BATCH else batch)"
  define dat1 where "dat1 = (if r \<ge> batch then dat @ replicate (batch1 * n - length dat) None else dat)"
  define dl1 where "dl1 = (if r \<ge> batch then dl @ replicate (batch1 * n - length dl) None else dl)"
  obtain dat2 dl2 where st: "store_fields 0 cells (lens_of row) (r * n) n (dat1, dl1) = Inr (dat2, dl2)"
    "filled n batch1 dat2 dl2 (vs @ row)" "r + 1 \<le> batch1"
    by (rule filled_row [OF next_row.prems(3-5) row w1(2) batch1_def dat1_def dl1_def])
  have ok: "curr_ok w1" using w1(3) by (simp add: reading_def)
  have "select_rows ?drv True n batch (length (row # rows) + k) r (dat, dl) w
      = select_rows ?drv True n batch1 (length rows + k) (r + 1) (dat2, dl2) w1"
    using st(1) w1(1,4) ok
    by (cases "batch \<le> r")
      (simp_all add: db_bind_def Let_def batch1_def dat1_def dl1_def VV_CURR_DB_def db_res_def db_return_def)
  moreover have "length (vs @ row) = n * (r + 1)" using next_row.prems(4) row by simp
  ultimately show ?case
    using next_row.IH [OF w1(3,5) st(2) _ st(3)] by auto
qed


section \<open>The statement\<close>

text \<open>The arguments that are set so far.\<close>

definition bound :: "nat \<Rightarrow> nat \<Rightarrow> string option list option \<Rightarrow> 's maria_env dbs \<Rightarrow> bool" where
  "bound con st b w \<longleftrightarrow> connected w \<and> db_type (cur w) = VV_DB_MARIADB \<and> m_con (env w) (ind_current_db w) = Some (Some con)
     \<and> m_stmt (env w) (ind_current_db w) = Some (Some st) \<and> m_bind (env w) (ind_current_db w) = Some b"

lemma checked:
  assumes "bound con st None w" "my_stmt_param_count M (Some st) (my (env w)) = int n"
  obtains w1 where "db_bind (set_curr (\<lambda>c. c\<lparr>num_inp := int n\<rparr>)) (\<lambda>_. maria_stmt (\<lambda>st.
        db_bind (my_get (my_stmt_param_count M st)) (\<lambda>count.
          if count \<noteq> int n then maria_error m
          else if n \<noteq> 0 then db_bind (set_maria_bind (Some (replicate n None))) (\<lambda>_. db_return 0) else db_return 0))) w
      = Some (Inr (0, w1))"
    "bound con st (if n = 0 then None else Some (replicate n None)) w1" "my (env w1) = my (env w)" "num_inp (cur w1) = int n"
proof -
  have w: "curr_ok w" "dbc (cur w)" "m_stmt (env w) (ind_current_db w) = Some (Some st)"
    using assms(1) by (simp_all add: bound_def connected_def)
  let ?w = "with_cur (\<lambda>c. c\<lparr>num_inp := int n\<rparr>) w"
  let ?w1 = "if n = 0 then ?w else ?w\<lparr>env := (env w)\<lparr>m_bind := (m_bind (env w))(ind_current_db w := Some (Some (replicate n None)))\<rparr>\<rparr>"
  have c: "curr_ok ?w1" "cur ?w1 = (cur w)\<lparr>num_inp := int n\<rparr>" using w(1) by (simp_all add: with_cur_def curr_ok_def)
  show ?thesis
  proof (rule that [of ?w1])
    show "db_bind (set_curr (\<lambda>c. c\<lparr>num_inp := int n\<rparr>)) (\<lambda>_. maria_stmt (\<lambda>st.
        db_bind (my_get (my_stmt_param_count M st)) (\<lambda>count.
          if count \<noteq> int n then maria_error m
          else if n \<noteq> 0 then db_bind (set_maria_bind (Some (replicate n None))) (\<lambda>_. db_return 0) else db_return 0))) w
      = Some (Inr (0, ?w1))"
      using w assms(2)
      by (simp add: db_bind_def set_curr_with maria_member_def VV_CURR_DB_def db_get_def set_member_def db_do_def db_return_def)
    show "bound con st (if n = 0 then None else Some (replicate n None)) ?w1"
      using assms(1) c by (cases "n = 0") (simp_all add: bound_def connected_def)
    show "num_inp (cur ?w1) = int n" unfolding c(2) by simp
  qed simp
qed

lemma prepared:
  assumes "maria_connected con w" "(case prep_at w p of
      Some a \<Rightarrow> a = st \<and> s2 = my (env w)
    | None \<Rightarrow> \<exists>t s1. vely_db_prep_text VV_DB_MARIADB x s = Inr t \<and> my_stmt_init M (Some con) (my (env w)) = (Some st, s1) \<and>
        my_stmt_prepare M (Some st) (cstr t) s1 = (True, s2))"
    and "my_stmt_param_count M (Some st) s2 = int n"
  obtains w1 where "vely_maria_prep_stmt M x p s n w = Some (Inr (0, w1))"
    "bound con st (if n = 0 then None else Some (replicate n None)) w1" "my (env w1) = s2" "num_inp (cur w1) = int n"
proof -
  have w: "curr_ok w" "dbc (cur w)" "db_type (cur w) = VV_DB_MARIADB" "m_con (env w) (ind_current_db w) = Some (Some con)"
    using assms(1) by (simp_all add: maria_connected_def connected_def)
  let ?stmt = "(m_stmt (env w))(ind_current_db w := Some (Some st))"
  show ?thesis
  proof (cases "prep_at w p")
    case None
    then obtain t s1 where t: "vely_db_prep_text VV_DB_MARIADB x s = Inr t" "my_stmt_init M (Some con) (my (env w)) = (Some st, s1)"
      "my_stmt_prepare M (Some st) (cstr t) s1 = (True, s2)" using assms(2) by auto
    let ?w = "w\<lparr>env := (env w)\<lparr>m_stmt := ?stmt, my := s2\<rparr>, prep_at := (prep_at w)(p := Some st)\<rparr>"
    have b: "bound con st None ?w" "my_stmt_param_count M (Some st) (my (env ?w)) = int n"
      using assms(1,3) by (simp_all add: bound_def maria_connected_def connected_def curr_ok_def)
    show ?thesis
      by (rule checked [OF b, of "''Wrong number of input parameters''"])
        (use None w t in \<open>intro that; simp add: vely_maria_prep_stmt_def db_get_def VV_CURR_DB_def db_res_def db_bind_def db_return_def
          maria_member_def set_member_def db_do_def Let_def\<close>)
  next
    case (Some a)
    then have a: "a = st" "s2 = my (env w)" using assms(2) by simp_all
    let ?w = "w\<lparr>env := (env w)\<lparr>m_stmt_cached := 1, m_stmt := ?stmt\<rparr>\<rparr>"
    have b: "bound con st None ?w" "my_stmt_param_count M (Some st) (my (env ?w)) = int n"
      using assms(1,3) a by (simp_all add: bound_def maria_connected_def connected_def curr_ok_def)
    show ?thesis
      by (rule checked [OF b, of "''Wrong number of input parameters''"])
        (use Some a w in \<open>intro that; simp add: vely_maria_prep_stmt_def db_get_def VV_CURR_DB_def db_bind_def db_return_def
          set_member_def db_do_def Let_def\<close>)
  qed
qed

lemma arguments_added:
  "bound con st (Some (map Some qs @ replicate (length ps) None)) w \<Longrightarrow>
    \<exists>w1. add_arguments (length qs) ps w = Some (Inr ((), w1)) \<and> bound con st (Some (map Some (qs @ ps))) w1
      \<and> my (env w1) = my (env w) \<and> cur w1 = cur w"
proof (induction ps arbitrary: qs w)
  case Nil
  then show ?case by (auto simp: db_return_def)
next
  case (Cons a ps)
  have w: "curr_ok w" "dbc (cur w)" "m_bind (env w) (ind_current_db w) = Some (Some (map Some qs @ replicate (length (a # ps)) None))"
    using Cons.prems by (simp_all add: bound_def connected_def)
  let ?b = "map Some (qs @ [a]) @ replicate (length ps) None"
  let ?w = "w\<lparr>env := (env w)\<lparr>m_bind := (m_bind (env w))(ind_current_db w := Some (Some ?b))\<rparr>\<rparr>"
  have "vely_maria_add_input (length qs) a w = Some (Inr ((), ?w))"
    using w by (simp add: vely_maria_add_input_def maria_member_def VV_CURR_DB_def db_get_def db_res_def memput_def db_bind_def
        db_return_def set_member_def db_do_def)
  moreover have "bound con st (Some ?b) ?w" using Cons.prems by (simp add: bound_def connected_def curr_ok_def)
  ultimately show ?case using Cons.IH [of "qs @ [a]" ?w] by (simp add: db_bind_def)
qed

lemma executed:
  assumes "maria_connected con w" "runs_prepared M x con s (prep_at w p) params st (my (env w)) s3"
  obtains w1 where "vely_maria_exec M x s True (Some p) params w = Some (Inr (0, w1))" "bound con st None w1" "my (env w1) = s3"
proof -
  let ?w = "w\<lparr>env := (env w)\<lparr>m_stmt_cached := 0\<rparr>\<rparr>" and ?n = "length params"
  have same: "my (env ?w) = my (env w)" "prep_at ?w p = prep_at w p" by simp_all
  have con: "maria_connected con ?w" using assms(1) by (simp add: maria_connected_def)
  obtain s2 where s2: "case prep_at ?w p of Some a \<Rightarrow> a = st \<and> s2 = my (env ?w)
      | None \<Rightarrow> \<exists>t s1. vely_db_prep_text VV_DB_MARIADB x s = Inr t \<and> my_stmt_init M (Some con) (my (env ?w)) = (Some st, s1) \<and>
          my_stmt_prepare M (Some st) (cstr t) s1 = (True, s2)" "my_stmt_param_count M (Some st) s2 = int ?n"
    "my_stmt_execute M (Some st) (if params = [] then s2 else my_stmt_bind_param M (Some st) (map Some params) s2) = (0, s3)"
    unfolding same using assms(2) by (auto simp: runs_prepared_def)
  obtain w1 where w1: "vely_maria_prep_stmt M x p s ?n ?w = Some (Inr (0, w1))"
    "bound con st (if ?n = 0 then None else Some (replicate ?n None)) w1" "my (env w1) = s2" "num_inp (cur w1) = int ?n"
    by (rule prepared [OF con s2(1,2)])
  obtain w2 where w2: "add_arguments 0 params w1 = Some (Inr ((), w2))"
    "bound con st (if params = [] then None else Some (map Some params)) w2" "my (env w2) = s2" "num_inp (cur w2) = int ?n"
  proof (cases "params = []")
    case True
    then show ?thesis using w1 by (intro that [of w1]) (simp_all add: db_return_def)
  next
    case False
    then show ?thesis using arguments_added [of con st "[]" params w1] w1(2-4) that by auto
  qed
  let ?s = "if params = [] then s2 else my_stmt_bind_param M (Some st) (map Some params) s2"
  have c: "curr_ok w2" "dbc (cur w2)" "m_stmt (env w2) (ind_current_db w2) = Some (Some st)"
    "m_bind (env w2) (ind_current_db w2) = Some (if params = [] then None else Some (map Some params))"
    using w2(2) by (simp_all add: bound_def connected_def)
  have bind: "vely_maria_bind_input M w2 = Some (Inr ((), with_my w2 ?s))"
    using c w2(3,4)
    by (cases "params = []") (auto simp: vely_maria_bind_input_def VV_CURR_DB_def db_return_def maria_member_def db_get_def)
  let ?w3 = "with_my w2 s3\<lparr>env := (env w2)\<lparr>my := s3, m_bind := (m_bind (env w2))(ind_current_db w2 := Some None)\<rparr>\<rparr>"
  have exec: "vely_maria_stmt_exec M (with_my w2 ?s) = Some (Inr (0, ?w3))"
    using c s2(3)
    by (cases "params = []") (auto simp: vely_maria_stmt_exec_def VV_CURR_DB_def db_bind_def db_return_def maria_member_def db_get_def
        set_member_def db_do_def fun_upd_idem)
  show ?thesis
  proof (rule that [of ?w3])
    show "vely_maria_exec M x s True (Some p) params w = Some (Inr (0, ?w3))"
      using w1(1) w2(1) bind exec by (simp add: vely_maria_exec_def db_bind_def)
    show "bound con st None ?w3" using w2(2) by (simp add: bound_def)
  qed simp
qed


section \<open>A query\<close>

lemma stored:
  assumes "bound con st None w" "result_stored M st res (my (env w)) s'"
  obtains w1 where "vely_maria_store M True w = Some (Inr (0, w1))" "reading st res w1" "my (env w1) = s'"
proof -
  obtain s1 where s1: "my_stmt_metadata M (Some st) (my (env w)) = (Some res, s1)"
    "my_stmt_store M (Some st) (my_stmt_max_length M (Some st) s1) = (True, s')" using assms(2) by (auto simp: result_stored_def)
  have w: "curr_ok w" "dbc (cur w)" "m_stmt (env w) (ind_current_db w) = Some (Some st)" "db_type (cur w) = VV_DB_MARIADB"
    using assms(1) by (simp_all add: bound_def connected_def)
  let ?w1 = "w\<lparr>env := (env w)\<lparr>m_res := (m_res (env w))(ind_current_db w := Some (Some res)), my := s'\<rparr>\<rparr>"
  show ?thesis
  proof (rule that [of ?w1])
    show "vely_maria_store M True w = Some (Inr (0, ?w1))"
      using w s1 by (simp add: vely_maria_store_def vely_maria_use_def maria_member_def VV_CURR_DB_def db_get_def db_bind_def
          set_member_def db_do_def db_return_def)
    show "reading st res ?w1" using w by (simp add: reading_def)
  qed simp
qed

definition no_transaction_word :: "string \<Rightarrow> bool" where
  "no_transaction_word s \<longleftrightarrow> s \<noteq> [] \<and> \<not> (vely_firstword ''BEGIN'' s \<or> vely_firstword ''START'' s
     \<or> vely_firstword ''COMMIT'' s \<or> vely_firstword ''ROLLBACK'' s)"

lemma with_maria:
  "bound con st b w \<Longrightarrow> with_driver (\<lambda>_. maria_driver M dir x) f w = f (maria_driver M dir x) w"
  "reading st res w \<Longrightarrow> with_driver (\<lambda>_. maria_driver M dir x) f w = f (maria_driver M dir x) w"
  "maria_connected con w \<Longrightarrow> with_driver (\<lambda>_. maria_driver M dir x) f w = f (maria_driver M dir x) w"
  by (simp_all add: bound_def reading_def maria_connected_def connected_def with_driver_def VV_CURR_DB_def)

text \<open>A query up to its rows.\<close>

lemma query_start:
  assumes "maria_connected con w" "no_transaction_word s"
    and "runs_prepared M x con s (prep_at w p) params st (my (env w)) s1" "result_stored M st res s1 s2"
    and "my_num_fields M (Some res) s2 = n"
  obtains w1 F where "reading st res w1" "my (env w1) = s2"
    "vely_select_table (\<lambda>_. maria_driver M dir x) s False True True (Some p) params a no_rows w
      = db_bind (select_rows (\<lambda>_. maria_driver M dir x) True n VV_INITIAL_QUERY_BATCH (nat (my_stmt_num_rows M (Some st) s2)) 0
          (replicate (VV_INITIAL_QUERY_BATCH * n) None, replicate (VV_INITIAL_QUERY_BATCH * n) None)) F w1"
    "\<And>dat dl. F (True, dat, dl) = db_return (no_rows\<lparr>s_er := ''0'', s_errm := [], s_arow := my_stmt_affected M (Some st) s2,
      s_ncol := n, s_nrow := my_stmt_num_rows M (Some st) s2, sdata := dat, dlen := dl\<rparr>)"
proof -
  let ?drv = "\<lambda>_. maria_driver M dir x"
  obtain w1 where w1: "vely_maria_exec M x s True (Some p) params w = Some (Inr (0, w1))" "bound con st None w1" "my (env w1) = s1"
    by (rule executed [OF assms(1,3)])
  obtain w2 where w2: "vely_maria_store M True w1 = Some (Inr (0, w2))" "reading st res w2" "my (env w2) = s2"
    by (rule stored [OF w1(2)]) (use assms(4) w1(3) in auto)
  have "vely_get_db_connection ?drv 1 w = Some (Inr (True, w))"
    using assms(1) by (auto simp: maria_connected_def connected_def curr_ok_def vely_get_db_connection_def db_get_def VV_CURR_DB_def db_return_def)
  then have run: "vely_execute_SQL ?drv s False 1 True True (Some p) params a w
      = Some (Inr (\<lparr>okay = True, arows = None, o_er = ''0'', o_errm = []\<rparr>, w1))"
    using assms(2) w1(1) by (simp add: no_transaction_word_def vely_execute_SQL_def db_bind_def Let_def with_maria(3) [OF assms(1)]
        db_return_def)
  have ty: "curr_ok w1" "db_type (cur w1) = VV_DB_MARIADB" using w1(2) by (simp_all add: bound_def connected_def)
  have at: "curr_ok w2" "dbc (cur w2)" "m_stmt (env w2) (ind_current_db w2) = Some (Some st)"
    "m_res (env w2) (ind_current_db w2) = Some (Some res)" using w2(2) by (simp_all add: reading_def)
  have get: "maria_stmt (\<lambda>st. my_get (f st)) w2 = Some (Inr (f (Some st) s2, w2))"
    "maria_res (\<lambda>res. my_get (g res)) w2 = Some (Inr (g (Some res) s2, w2))"
    for f :: "nat option \<Rightarrow> 'a \<Rightarrow> int" and g :: "nat option \<Rightarrow> 'a \<Rightarrow> nat"
    using at w2(3) by (simp_all add: maria_member_def VV_CURR_DB_def db_get_def)
  show ?thesis
    by (rule that [of w2, OF w2(2,3)])
      (use run ty w2(1) assms(5) in \<open>simp add: vely_select_table_def db_bind_def VV_CURR_DB_def db_return_def Let_def no_rows_def
        with_maria(1) [OF w1(2)] with_maria(2) [OF w2(2)] vely_maria_nfield_def vely_arows_def vely_maria_affected_def
        vely_maria_nrows_def get\<close>, simp add: db_return_def no_rows_def fun_eq_iff)
qed


text \<open>C16: what the library gives for a prepared query is what the program gets, when every row has a byte in one of its fields:
  all rows in order, each field with a zero byte after it and with its length, for any number of rows and of arguments,
  whether the statement was prepared before or not.\<close>

theorem prepared_rows_exact:
  assumes "maria_connected con w" "no_transaction_word s"
    and "runs_prepared M x con s (prep_at w p) params st (my (env w)) s1" "result_stored M st res s1 s2"
    and "my_num_fields M (Some res) s2 = n" "my_stmt_num_rows M (Some st) s2 = int (length rows)" "rows_given M st res n rows s2 s3"
  shows "\<exists>out w'. vely_select_table (\<lambda>_. maria_driver M dir x) s False True True (Some p) params a no_rows w = Some (Inr (out, w'))
    \<and> s_nrow out = int (length rows) \<and> s_ncol out = n \<and> s_er out = ''0''
    \<and> list_all2 holds (take (length (concat rows)) (sdata out)) (concat rows)
    \<and> take (length (concat rows)) (dlen out) = map Some (lens_of (concat rows)) \<and> my (env w') = s3"
proof -
  obtain w1 F where q: "reading st res w1" "my (env w1) = s2"
    "vely_select_table (\<lambda>_. maria_driver M dir x) s False True True (Some p) params a no_rows w
      = db_bind (select_rows (\<lambda>_. maria_driver M dir x) True n VV_INITIAL_QUERY_BATCH (nat (my_stmt_num_rows M (Some st) s2)) 0
          (replicate (VV_INITIAL_QUERY_BATCH * n) None, replicate (VV_INITIAL_QUERY_BATCH * n) None)) F w1"
    "\<And>dat dl. F (True, dat, dl) = db_return (no_rows\<lparr>s_er := ''0'', s_errm := [], s_arow := my_stmt_affected M (Some st) s2,
      s_ncol := n, s_nrow := my_stmt_num_rows M (Some st) s2, sdata := dat, dlen := dl\<rparr>)"
    by (rule query_start [OF assms(1-5), where dir = dir and a = a]) (rule that)
  have "filled n VV_INITIAL_QUERY_BATCH (replicate (VV_INITIAL_QUERY_BATCH * n) None) (replicate (VV_INITIAL_QUERY_BATCH * n) None) []"
    by (simp add: filled_def)
  from select_rows_given [OF assms(7) q(1,2) this, of 0 dir x 0] obtain batch dat dl w2 where
    "select_rows (\<lambda>_. maria_driver M dir x) True n VV_INITIAL_QUERY_BATCH (length rows) 0
        (replicate (VV_INITIAL_QUERY_BATCH * n) None, replicate (VV_INITIAL_QUERY_BATCH * n) None) w1 = Some (Inr ((True, dat, dl), w2))"
    "my (env w2) = s3" "filled n batch dat dl (concat rows)"
    by (auto simp: db_return_def)
  then show ?thesis
    using q(3,4) assms(6) by (simp add: db_bind_def db_return_def filled_def)
qed

text \<open>C40: a row of which every field is null or empty cannot be taken from a prepared query.  The driver leaves such a row
  in a local variable of a function that has returned, and the query writes there, whatever the rows before it are.\<close>

theorem empty_row_lost:
  assumes "maria_connected con w" "no_transaction_word s"
    and "runs_prepared M x con s (prep_at w p) params st (my (env w)) s1" "result_stored M st res s1 s2"
    and "my_num_fields M (Some res) s2 = n" "0 < n" "my_stmt_num_rows M (Some st) s2 > int (length rows)"
    and "rows_given M st res n rows s2 s3" "empty_row_given M st res n s3"
  shows "\<exists>w'. vely_select_table (\<lambda>_. maria_driver M dir x) s False True True (Some p) params a no_rows w
    = Some (Inl (Out_of_bounds, w'))"
proof -
  let ?drv = "\<lambda>_. maria_driver M dir x"
  obtain w1 F where q: "reading st res w1" "my (env w1) = s2"
    "vely_select_table ?drv s False True True (Some p) params a no_rows w
      = db_bind (select_rows ?drv True n VV_INITIAL_QUERY_BATCH (nat (my_stmt_num_rows M (Some st) s2)) 0
          (replicate (VV_INITIAL_QUERY_BATCH * n) None, replicate (VV_INITIAL_QUERY_BATCH * n) None)) F w1"
    by (rule query_start [OF assms(1-5), where dir = dir and a = a]) (rule that)
  have f: "filled n VV_INITIAL_QUERY_BATCH (replicate (VV_INITIAL_QUERY_BATCH * n) None) (replicate (VV_INITIAL_QUERY_BATCH * n) None) []"
    by (simp add: filled_def)
  obtain k where k: "nat (my_stmt_num_rows M (Some st) s2) = length rows + Suc k"
    using assms(7) by (intro that [of "nat (my_stmt_num_rows M (Some st) s2) - length rows - 1"]) simp
  from select_rows_given [OF assms(8) q(1,2) f, of 0 dir x "Suc k"] obtain batch dat dl w2 where
    r: "select_rows ?drv True n VV_INITIAL_QUERY_BATCH (length rows + Suc k) 0
        (replicate (VV_INITIAL_QUERY_BATCH * n) None, replicate (VV_INITIAL_QUERY_BATCH * n) None) w1
      = select_rows ?drv True n batch (Suc k) (length rows) (dat, dl) w2" and w2: "reading st res w2" "my (env w2) = s3"
    by auto
  obtain w3 where w3: "with_driver ?drv (\<lambda>d. drv_rows d True n (length rows)) w2
      = Some (Inr ((0, replicate n None, replicate n 0), w3))" "curr_ok w3" "need_copy (cur w3) = 0"
    by (rule empty_row_read [OF w2(1)]) (use assms(9) w2(2) in auto)
  have none: "store_fields 0 (replicate n None) (replicate n 0) cpos n (d, l) = Inl Out_of_bounds" for cpos d l
    using assms(6) by (cases n) (simp_all add: field_memory_def res_bind_def)
  have "\<exists>w'. select_rows ?drv True n batch (Suc k) (length rows) (dat, dl) w2 = Some (Inl (Out_of_bounds, w'))"
    using w3 by (simp add: db_bind_def Let_def VV_CURR_DB_def db_res_def none db_fault_def)
  then show ?thesis using q(3) r k by (auto simp: db_bind_def)
qed

section \<open>A library to apply the properties at\<close>

text \<open>It has a row with a text and a null, and then one with nulls only; the state is the number of rows with a text.\<close>

definition demo_mysql :: "int \<Rightarrow> nat mysql" where
  "demo_mysql rows =
     \<lparr>my_ping = (\<lambda>k s. (True, s)), my_init = (\<lambda>s. (Some 7, s)), my_read_config = (\<lambda>k t s. s), my_real_connect = (\<lambda>k s. (True, s)),
      my_set_charset = (\<lambda>k t s. (True, s)), my_close = (\<lambda>k s. s), my_query = (\<lambda>k t s. (0, s)), my_error = (\<lambda>k s. []),
      my_errno = (\<lambda>k s. 0), my_affected = (\<lambda>k s. 0), my_store_result = (\<lambda>k s. (Some 5, s)), my_use_result = (\<lambda>k s. (Some 5, s)),
      my_fetch_row = (\<lambda>r s. (None, s)), my_fetch_lengths = (\<lambda>r s. []), my_num_fields = (\<lambda>r s. 2), my_num_rows = (\<lambda>r s. 0),
      my_fetch_field = (\<lambda>r s. (None, s)), my_free_result = (\<lambda>r s. s), my_stmt_init = (\<lambda>k s. (Some 3, s)),
      my_stmt_prepare = (\<lambda>st t s. (True, s)), my_stmt_param_count = (\<lambda>st s. 1), my_stmt_bind_param = (\<lambda>st ps s. s),
      my_stmt_execute = (\<lambda>st s. (0, 1)), my_stmt_metadata = (\<lambda>st s. (Some 5, s)), my_stmt_max_length = (\<lambda>st s. s),
      my_stmt_store = (\<lambda>st s. (True, s)), my_stmt_bind_result = (\<lambda>st n s. (True, s)),
      my_stmt_fetch = (\<lambda>st s. if s = 0 then ((Row_complete, [0, 0]), 0) else ((Row_truncated, [2, 0]), s - 1)),
      my_stmt_fetch_column = (\<lambda>st n i s. (Some (if i = 0 then take n (''ab'' @ [NUL]) else take n [NUL]), s)),
      my_stmt_num_rows = (\<lambda>st s. rows), my_stmt_affected = (\<lambda>st s. 0), my_stmt_error = (\<lambda>st s. []), my_stmt_errno = (\<lambda>st s. 0),
      my_stmt_close = (\<lambda>st s. s), my_parse_error = 1064\<rparr>"

definition demo_maria :: "nat maria_env dbs" where
  "demo_maria = (init_dbs [(''db'', VV_DB_MARIADB)] \<lparr>m_cerror = None, m_stmt_cached = 0, m_con = (\<lambda>_. Some (Some 7)),
       m_res = (\<lambda>_. Some None), m_stmt = (\<lambda>_. None), m_bind = (\<lambda>_. Some None), my = 4\<rparr>)
     \<lparr>ind_current_db := 0, conn := [\<lparr>dbc = True, is_begin_transaction = 0, num_inp = 0, need_copy = 0, has_connected = 1,
       db_name = ''db'', db_type = VV_DB_MARIADB, exit_on_error = 1\<rparr>]\<rparr>"

abbreviation demo_query :: string where
  "demo_query \<equiv> ''select where k=' '' @ [CHR 0x27, CHR ''%'', CHR ''s'', CHR 0x27]"

lemma demo_maria_facts:
  "maria_connected 7 demo_maria" "no_transaction_word demo_query"
  "runs_prepared (demo_mysql k) NUL 7 demo_query (prep_at demo_maria 0) [''v''] 3 (my (env demo_maria)) 1"
  "result_stored (demo_mysql k) 3 5 1 1" "my_num_fields (demo_mysql k) (Some 5) 1 = 2"
  "rows_given (demo_mysql k) 3 5 2 [[''ab'', []]] 1 0" "empty_row_given (demo_mysql k) 3 5 2 0"
proof -
  show "maria_connected 7 demo_maria"
    by (simp add: maria_connected_def connected_def curr_ok_def demo_maria_def init_dbs_def)
  show "no_transaction_word demo_query" by code_simp
  have "map_sum id cstr (vely_db_prep_text VV_DB_MARIADB NUL demo_query) = Inr (marked VV_DB_MARIADB 1 demo_query)"
    by (rule prep_text_exact) (simp_all add: count_loop_Cons same_char_def)
  then obtain t where "vely_db_prep_text VV_DB_MARIADB NUL demo_query = Inr t"
    by (cases "vely_db_prep_text VV_DB_MARIADB NUL demo_query") simp_all
  then show "runs_prepared (demo_mysql k) NUL 7 demo_query (prep_at demo_maria 0) [''v''] 3 (my (env demo_maria)) 1"
    by (auto simp: runs_prepared_def demo_mysql_def demo_maria_def init_dbs_def)
  show "result_stored (demo_mysql k) 3 5 1 1" "my_num_fields (demo_mysql k) (Some 5) 1 = 2"
    by (simp_all add: result_stored_def demo_mysql_def)
  have "row_given (demo_mysql k) 3 5 2 [''ab'', []] 1 0"
    by (simp add: row_given_def demo_mysql_def)
  then show "rows_given (demo_mysql k) 3 5 2 [[''ab'', []]] 1 0" by (rule next_row [OF _ no_row])
  have "replicate 2 (0::nat) = [0, 0]" by (simp add: eval_nat_numeral)
  then show "empty_row_given (demo_mysql k) 3 5 2 0" by (simp add: empty_row_given_def demo_mysql_def)
qed

theorem prepared_rows_exact_witness:
  "\<exists>out w'. vely_select_table (\<lambda>_. maria_driver (demo_mysql 1) [] NUL) demo_query False True True (Some 0) [''v''] VV_OKAY no_rows demo_maria
      = Some (Inr (out, w')) \<and> s_nrow out = int (length [[''ab'', []]]) \<and> s_ncol out = 2 \<and> s_er out = ''0''
    \<and> list_all2 holds (take (length (concat [[''ab'', []]])) (sdata out)) (concat [[''ab'', []]])
    \<and> take (length (concat [[''ab'', []]])) (dlen out) = map Some (lens_of (concat [[''ab'', []]])) \<and> my (env w') = 0"
  by (rule prepared_rows_exact [OF demo_maria_facts(1-5) _ demo_maria_facts(6)]) (simp add: demo_mysql_def)

theorem empty_row_lost_witness:
  "\<exists>w'. vely_select_table (\<lambda>_. maria_driver (demo_mysql 2) [] NUL) demo_query False True True (Some 0) [''v''] VV_OKAY no_rows demo_maria
    = Some (Inl (Out_of_bounds, w'))"
  by (rule empty_row_lost [OF demo_maria_facts(1-5) _ _ demo_maria_facts(6,7)]) (simp_all add: demo_mysql_def)

end
