(* ===== verification/SqlRun.thy ===== *)
theory SqlRun
  imports DbRequests MariaRows
begin

text \<open>
  A statement built at run time on a connection (db.c, \<^verbatim>\<open>vely_db_escape\<close>, \<^verbatim>\<open>vely_make_SQL\<close>; mys.c and pg.c for their
  escaping): the first argument that is escaped makes the connection if there is none, and the routine that escapes is
  chosen by the type of the connection.  Theory SqlText has the construction for a routine that needs no connection.
\<close>

section \<open>Escaping on a connection\<close>



definition db_run :: "'a res option \<Rightarrow> ('a, 'e) db_act" where
  "db_run m w = (case m of None \<Rightarrow> None | Some r \<Rightarrow> db_res r w)"





section \<open>Building a statement\<close>



section \<open>What a statement is\<close>





lemma run_simps [simp]:
  "db_run None w = None" "db_run (Some (Inl e)) w = Some (Inl (e, w))" "db_run (Some (Inr y)) w = Some (Inr (y, w))"
  by (simp_all add: db_run_def db_res_def db_fault_def db_return_def)



















section \<open>Statements on a connection\<close>

















end
