(* ===== verification/Fcgi.thy ===== *)
theory Fcgi
  imports Prelude
begin

text \<open>
  The FastCGI client (fcli.c): a request to an application server, and the reply.  \<open>vv_fc\<close> is what the caller gives and
  gets back, \<open>fc_local\<close> the data of one call, which also has the state of the operating system; the system is a parameter,
  one function for each of its functions that the client calls.  A hook is a function of the caller, which may change the
  state of the system and nothing else here.  Lengths and counts are the integers of the code; an overflow of one is a fault.
\<close>

section \<open>Codes\<close>

definition VV_FC_ERR_SOCK_READ :: int where "VV_FC_ERR_SOCK_READ = -1"
definition VV_FC_ERR_PROT_ERR :: int where "VV_FC_ERR_PROT_ERR = -2"
definition VV_FC_ERR_BAD_VER :: int where "VV_FC_ERR_BAD_VER = -3"
definition VV_FC_ERR_SRV :: int where "VV_FC_ERR_SRV = -4"
definition VV_FC_ERR_UNK :: int where "VV_FC_ERR_UNK = -5"
definition VV_FC_ERR_OUT_MEM :: int where "VV_FC_ERR_OUT_MEM = -6"
definition VV_FC_ERR_RESOLVE_ADDR :: int where "VV_FC_ERR_RESOLVE_ADDR = -7"
definition VV_FC_ERR_PATH_TOO_LONG :: int where "VV_FC_ERR_PATH_TOO_LONG = -8"
definition VV_FC_ERR_CONNECT :: int where "VV_FC_ERR_CONNECT = -9"
definition VV_FC_ERR_TIMEOUT :: int where "VV_FC_ERR_TIMEOUT = -10"
definition VV_FC_ERR_SOCK_WRITE :: int where "VV_FC_ERR_SOCK_WRITE = -11"
definition VV_FC_ERR_INTERNAL :: int where "VV_FC_ERR_INTERNAL = -12"
definition VV_FC_ERR_ENV_TOO_LONG :: int where "VV_FC_ERR_ENV_TOO_LONG = -13"
definition VV_FC_ERR_BAD_TIMEOUT :: int where "VV_FC_ERR_BAD_TIMEOUT = -14"
definition VV_FC_ERR_ENV_ODD :: int where "VV_FC_ERR_ENV_ODD = -15"
definition VV_FC_ERR_SOCKET :: int where "VV_FC_ERR_SOCKET = -16"

definition VV_FC_RESPONDER :: int where "VV_FC_RESPONDER = 1"
definition VV_FC_VER_1 :: int where "VV_FC_VER_1 = 1"
definition VV_FC_BEG_REQ :: int where "VV_FC_BEG_REQ = 1"
definition VV_FC_END_REQ :: int where "VV_FC_END_REQ = 3"
definition VV_FC_PARAM :: int where "VV_FC_PARAM = 4"
definition VV_FC_STDIN :: int where "VV_FC_STDIN = 5"
definition VV_FC_STDOUT :: int where "VV_FC_STDOUT = 6"
definition VV_FC_STDERR :: int where "VV_FC_STDERR = 7"
definition VV_FC_UNK_TYPE :: int where "VV_FC_UNK_TYPE = 11"
definition VV_FC_REQ_DONE :: int where "VV_FC_REQ_DONE = 0"
definition VV_FC_MAX_LEN :: int where "VV_FC_MAX_LEN = 65535"

definition EINTR :: int where "EINTR = 4"

section \<open>The operating system\<close>

record timeval =
  tv_sec :: int
  tv_usec :: int

text \<open>An address is a host with its port, the path of a socket, or of a family that the client does not look at.\<close>

datatype sockaddr = Inet nat string | Inet6 nat string | Unix_path string | Other_family

datatype 'a sysres = Sys_ok 'a | Sys_err int

text \<open>\<open>sys_junk\<close> is what memory has that nobody wrote.  The first argument of \<open>sys_sockopt\<close> tells the timeout of reading from
  that of writing, that of \<open>sys_socket\<close> a host from a path.\<close>

record 's fc_os =
  sys_read :: "int \<Rightarrow> nat \<Rightarrow> 's \<Rightarrow> string sysres \<times> 's"
  sys_write :: "int \<Rightarrow> string \<Rightarrow> 's \<Rightarrow> nat sysres \<times> 's"
  sys_time :: "'s \<Rightarrow> timeval \<times> 's"
  sys_sockopt :: "int \<Rightarrow> bool \<Rightarrow> timeval \<Rightarrow> 's \<Rightarrow> bool \<times> 's"
  sys_resolve :: "string \<Rightarrow> string \<Rightarrow> 's \<Rightarrow> sockaddr list option \<times> 's"
  sys_socket :: "bool \<Rightarrow> 's \<Rightarrow> int sysres \<times> 's"
  sys_connect :: "int \<Rightarrow> sockaddr \<Rightarrow> 's \<Rightarrow> unit sysres \<times> 's"
  sys_close :: "int \<Rightarrow> 's \<Rightarrow> 's"
  sys_memory :: "nat \<Rightarrow> 's \<Rightarrow> bool \<times> 's"
  sys_junk :: char

section \<open>State\<close>

text \<open>A null pointer is \<open>None\<close>; the server, the method, the application and the request name are strings.  The buffers of
  the reply are what is allocated for them, after the place for the index of the memory manager.\<close>

record 's vv_fc =
  fcgi_server :: string
  req_method :: string
  app_path :: string
  fc_req :: string
  url_payload :: "string option"
  fc_content_type :: "string option"
  fc_content_len :: int
  req_body :: "string option"
  fc_env :: "string list option"
  fc_timeout :: int
  req_status :: int
  data_len :: int
  error_len :: int
  other :: "string option"
  other_len :: int
  fc_errm :: "string option"
  out_hook :: "(string \<Rightarrow> 's \<Rightarrow> 's) option"
  err_hook :: "(string \<Rightarrow> 's \<Rightarrow> 's) option"
  done_hook :: "(string \<Rightarrow> string \<Rightarrow> 's \<Rightarrow> 's) option"
  fc_done :: bool
  return_code :: int
  fc_data :: "string option"
  fc_error :: "string option"
  read_status :: int

record fc_header =
  ver :: char
  ftype :: char
  req_id_1 :: char
  req_id_0 :: char
  cont_len_1 :: char
  cont_len_0 :: char
  pad_len :: char
  future_use :: char

text \<open>\<open>path_owned\<close> tells that the path is memory of the call and not the name that the caller gave; \<open>header\<close> is a local
  variable of the function that reads the reply.\<close>

record 's fc_local =
  param_len :: int
  fc_env_mem :: string
  env_lens :: "(nat \<times> nat) list"
  env_p :: nat
  sock :: int
  done_header :: bool
  msg_remain :: int
  padding_len :: int
  fc_req_id :: int
  read_done :: bool
  tout :: timeval
  remaining :: timeval
  begin_time :: timeval
  interrupted :: bool
  fc :: "'s vv_fc"
  just_query_path :: bool
  path_owned :: bool
  fc_query_string :: "string option"
  fc_path_info :: string
  header :: fc_header
  errno :: int
  sys :: 's

text \<open>An operation has a result or a fault; \<open>None\<close> is an operation that does not return.\<close>

type_synonym ('a, 's) fc_act = "'s fc_local \<Rightarrow> ('a \<times> 's fc_local) res option"

definition fc_bind :: "('a, 's) fc_act \<Rightarrow> ('a \<Rightarrow> ('b, 's) fc_act) \<Rightarrow> ('b, 's) fc_act" where
  "fc_bind m f l = run_bind (m l) (\<lambda>(x, l1). f x l1)"

definition fc_return :: "'a \<Rightarrow> ('a, 's) fc_act" where
  "fc_return x l = Some (Inr (x, l))"

definition fc_fault :: "fault \<Rightarrow> ('a, 's) fc_act" where
  "fc_fault e l = Some (Inl e)"

definition fc_get :: "('s fc_local \<Rightarrow> ('a, 's) fc_act) \<Rightarrow> ('a, 's) fc_act" where
  "fc_get f l = f l l"

definition fc_do :: "('s fc_local \<Rightarrow> 's fc_local) \<Rightarrow> (unit, 's) fc_act" where
  "fc_do g l = Some (Inr ((), g l))"

definition fc_lift :: "('s fc_local \<Rightarrow> 'a \<times> 's fc_local) \<Rightarrow> ('a, 's) fc_act" where
  "fc_lift g l = Some (Inr (g l))"

definition set_fc :: "('s vv_fc \<Rightarrow> 's vv_fc) \<Rightarrow> (unit, 's) fc_act" where
  "set_fc g = fc_do (\<lambda>l. l\<lparr>fc := g (fc l)\<rparr>)"

definition fc_sys :: "('s \<Rightarrow> 'a \<times> 's) \<Rightarrow> 's fc_local \<Rightarrow> 'a \<times> 's fc_local" where
  "fc_sys g l = (case g (sys l) of (x, s) \<Rightarrow> (x, l\<lparr>sys := s\<rparr>))"

definition fc_res :: "'a res \<Rightarrow> ('a, 's) fc_act" where
  "fc_res r = (case r of Inl e \<Rightarrow> fc_fault e | Inr x \<Rightarrow> fc_return x)"

section \<open>Time\<close>

definition timersub :: "timeval \<Rightarrow> timeval \<Rightarrow> timeval" where
  "timersub a b =
     (let s = tv_sec a - tv_sec b; u = tv_usec a - tv_usec b in
      if u < 0 then \<lparr>tv_sec = s - 1, tv_usec = u + 1000000\<rparr> else \<lparr>tv_sec = s, tv_usec = u\<rparr>)"

definition timer_less :: "timeval \<Rightarrow> timeval \<Rightarrow> bool" where
  "timer_less a b = (if tv_sec a = tv_sec b then tv_usec a < tv_usec b else tv_sec a < tv_sec b)"

definition vv_check_timeout :: "'s fc_os \<Rightarrow> bool \<Rightarrow> 's fc_local \<Rightarrow> bool \<times> 's fc_local" where
  "vv_check_timeout S startup l =
     (if fc_timeout (fc l) = 0 then (True, l)
      else if startup then (True, l\<lparr>remaining := tout l\<rparr>)
      else (case fc_sys (sys_time S) l of (now, l1) \<Rightarrow>
        let elapsed = timersub now (begin_time l1) in
        if timer_less elapsed (tout l1) then (True, l1\<lparr>remaining := timersub (tout l1) elapsed\<rparr>)
        else (False, l1\<lparr>interrupted := True\<rparr>)))"

definition vv_set_timeout :: "'s fc_os \<Rightarrow> 's fc_local \<Rightarrow> bool \<times> 's fc_local" where
  "vv_set_timeout S l =
     (if fc_timeout (fc l) = 0 then (True, l)
      else (case fc_sys (sys_sockopt S (sock l) True (remaining l)) l of (good, l1) \<Rightarrow>
        if good then fc_sys (sys_sockopt S (sock l1) False (remaining l1)) l1 else (False, l1)))"

section \<open>Sockets\<close>

definition shut_sock :: "'s fc_os \<Rightarrow> 's fc_local \<Rightarrow> 's fc_local" where
  "shut_sock S l =
     (if sock l \<noteq> -1 then l\<lparr>sys := sys_close S (sock l) (sys l), sock := -1\<rparr> else l\<lparr>sock := -1\<rparr>)"

definition check_read :: "int \<Rightarrow> 's fc_local \<Rightarrow> 's fc_local" where
  "check_read read_len l =
     (if read_len < 0 then l\<lparr>fc := (fc l)\<lparr>read_status := VV_FC_ERR_SOCK_READ\<rparr>\<rparr>
      else if read_len = 0 then
        (if done_header l \<or> msg_remain l > 0 \<or> padding_len l > 0
         then l\<lparr>fc := (fc l)\<lparr>read_status := VV_FC_ERR_PROT_ERR\<rparr>\<rparr>
         else if \<not> read_done l then l\<lparr>fc := (fc l)\<lparr>read_status := VV_FC_ERR_PROT_ERR\<rparr>\<rparr>
         else l)
      else l)"

text \<open>A read that failed or met the end.\<close>

definition read_failed :: "'s fc_os \<Rightarrow> int \<Rightarrow> string \<Rightarrow> 's fc_local \<Rightarrow> (int \<times> string) \<times> 's fc_local" where
  "read_failed S r got l =
     (case vv_check_timeout S False l of (intime, l1) \<Rightarrow>
        if \<not> intime then ((-1, got), l1) else ((r, got), check_read r l1))"

text \<open>Reading \<open>len\<close> bytes, the first ones of which are \<open>got\<close>: the result and what was read.  \<open>errno\<close> keeps the reason of
  the last call that failed.\<close>

partial_function (option) read_loop ::
  "'s fc_os \<Rightarrow> nat \<Rightarrow> string \<Rightarrow> 's fc_local \<Rightarrow> ((int \<times> string) \<times> 's fc_local) option" where
  "read_loop S len got l =
     (case fc_sys (sys_read S (sock l) (len - length got)) l of (r, l1) \<Rightarrow>
        (case r of
           Sys_err e \<Rightarrow>
             (if e = EINTR then read_loop S len got (l1\<lparr>errno := e\<rparr>)
              else Some (read_failed S (-1) got (l1\<lparr>errno := e\<rparr>)))
         | Sys_ok bs \<Rightarrow>
             (if bs = [] then
                (if errno l1 = EINTR then read_loop S len got l1 else Some (read_failed S 0 got l1))
              else if length (got @ bs) \<ge> len then Some ((int len, got @ bs), l1)
              else (case vv_check_timeout S False l1 of (intime, l2) \<Rightarrow>
                if \<not> intime then Some ((-1, got @ bs), l2)
                else (case vv_set_timeout S l2 of (good, l3) \<Rightarrow>
                  if \<not> good then Some ((-1, got @ bs), check_read (-1) l3)
                  else read_loop S len (got @ bs) l3)))))"

declare read_loop.simps [code]

definition vv_read_socket :: "'s fc_os \<Rightarrow> int \<Rightarrow> (int \<times> string, 's) fc_act" where
  "vv_read_socket S len l = map_option Inr (read_loop S (nat len) [] l)"

text \<open>Writing, from byte \<open>written\<close>.\<close>

partial_function (option) write_loop :: "'s fc_os \<Rightarrow> string \<Rightarrow> nat \<Rightarrow> 's fc_local \<Rightarrow> (int \<times> 's fc_local) option" where
  "write_loop S buf written l =
     (case fc_sys (sys_write S (sock l) (drop written buf)) l of (r, l1) \<Rightarrow>
        (case r of
           Sys_err e \<Rightarrow>
             (if e = EINTR then write_loop S buf written (l1\<lparr>errno := e\<rparr>)
              else Some (-1, snd (vv_check_timeout S False (l1\<lparr>errno := e\<rparr>))))
         | Sys_ok n \<Rightarrow>
             (if written + n \<ge> length buf then Some (int (length buf), l1)
              else (case vv_check_timeout S False l1 of (intime, l2) \<Rightarrow>
                if \<not> intime then Some (-1, l2)
                else (case vv_set_timeout S l2 of (good, l3) \<Rightarrow>
                  if \<not> good then Some (-1, l3) else write_loop S buf (written + n) l3)))))"

declare write_loop.simps [code]

definition vv_write_socket :: "'s fc_os \<Rightarrow> string \<Rightarrow> (int, 's) fc_act" where
  "vv_write_socket S buf l = map_option Inr (write_loop S buf 0 l)"

section \<open>Records\<close>

definition build_hdr :: "int \<Rightarrow> int \<Rightarrow> 's fc_local \<Rightarrow> fc_header" where
  "build_hdr content_len type l =
     \<lparr>ver = char_store VV_FC_VER_1, ftype = char_store type, req_id_1 = NUL, req_id_0 = char_store (fc_req_id l),
      cont_len_1 = char_store (drop_bit 8 content_len AND 255), cont_len_0 = char_store (content_len AND 255),
      pad_len = NUL, future_use = NUL\<rparr>"

text \<open>The bytes of a header, and the header of eight bytes.\<close>

definition header_bytes :: "fc_header \<Rightarrow> string" where
  "header_bytes h =
     [ver h, ftype h, req_id_1 h, req_id_0 h, cont_len_1 h, cont_len_0 h, pad_len h, future_use h]"

definition header_of :: "string \<Rightarrow> fc_header" where
  "header_of b = \<lparr>ver = b ! 0, ftype = b ! 1, req_id_1 = b ! 2, req_id_0 = b ! 3, cont_len_1 = b ! 4, cont_len_0 = b ! 5,
     pad_len = b ! 6, future_use = b ! 7\<rparr>"

text \<open>The body of the first record: the role, and that the connection ends with the request.\<close>

definition begin_request :: string where
  "begin_request = [char_store (drop_bit 8 VV_FC_RESPONDER AND 255), char_store (VV_FC_RESPONDER AND 255), NUL]
     @ replicate 5 NUL"

text \<open>The lengths in front of a name and its value, and the record of parameters, which is built in memory.\<close>

definition vv_size_env :: "nat \<Rightarrow> nat \<Rightarrow> (unit, 's) fc_act" where
  "vv_size_env name_len val_len =
     fc_get (\<lambda>l.
       let n = param_len l + (if name_len < 128 then 1 else 4) + (if val_len < 128 then 1 else 4)
               + int name_len + int val_len in
       if n > INT_MAX then fc_fault Signed_overflow else fc_do (\<lambda>l. l\<lparr>param_len := n\<rparr>))"

definition env_length :: "nat \<Rightarrow> string" where
  "env_length n =
     (if n < 128 then [char_store (int n)]
      else [char_store (drop_bit 24 (int n) OR 128), char_store (drop_bit 16 (int n)), char_store (drop_bit 8 (int n)),
            char_store (int n)])"

definition env_put :: "string \<Rightarrow> (unit, 's) fc_act" where
  "env_put b = fc_get (\<lambda>l. fc_bind (fc_res (memput (fc_env_mem l) (env_p l) b))
     (\<lambda>mem. fc_do (\<lambda>l. l\<lparr>fc_env_mem := mem, env_p := env_p l + length b\<rparr>)))"

definition vv_send_env :: "string \<Rightarrow> nat \<Rightarrow> string \<Rightarrow> nat \<Rightarrow> (unit, 's) fc_act" where
  "vv_send_env name name_len val val_len =
     fc_bind (env_put (env_length name_len @ env_length val_len)) (\<lambda>_.
     fc_bind (if name_len \<le> length name + 1 then env_put (take name_len (name @ [NUL])) else fc_fault Out_of_bounds) (\<lambda>_.
       if val_len \<le> length val + 1 then env_put (take val_len (val @ [NUL])) else fc_fault Out_of_bounds))"

section \<open>The path and the query string\<close>

text \<open>The place where the path ends: the first question mark after the last slash, or the end.  Zero if there is no
  slash.\<close>

fun question_loop :: "string \<Rightarrow> nat \<Rightarrow> nat" where
  "question_loop [] p = p"
| "question_loop (c # cs) p = (if c \<noteq> CHR ''?'' then question_loop cs (p + 1) else p)"

fun slash_loop :: "string \<Rightarrow> nat \<Rightarrow> nat" where
  "slash_loop q 0 = 0"
| "slash_loop q (Suc n) = (if cat q n = CHR ''/'' then question_loop (drop (Suc n) q) (Suc n) else slash_loop q n)"

text \<open>Memory of the system, which it may not have.\<close>

definition fc_alloc :: "'s fc_os \<Rightarrow> nat \<Rightarrow> (bool, 's) fc_act" where
  "fc_alloc S n = fc_lift (fc_sys (sys_memory S n))"

definition parse_payload :: "'s fc_os \<Rightarrow> nat \<Rightarrow> nat \<Rightarrow> (int \<times> nat \<times> nat, 's) fc_act" where
  "parse_payload S query_string_l path_info_l =
     fc_get (\<lambda>l. case fc_query_string l of
       None \<Rightarrow> fc_return (VV_OKAY, query_string_l, path_info_l)
     | Some [] \<Rightarrow> fc_return (VV_OKAY, query_string_l, path_info_l)
     | Some q \<Rightarrow>
         (let l_payload = slash_loop q (length q) in
          if l_payload > 0 then
            (let q1 = (if l_payload < length q then drop (l_payload + 1) q else []) in
             fc_bind (fc_do (\<lambda>l. l\<lparr>just_query_path := True\<rparr>)) (\<lambda>_.
             fc_bind (fc_alloc S (length q1 + 1)) (\<lambda>good.
               if \<not> good then fc_bind (fc_do (\<lambda>l. shut_sock S (l\<lparr>fc_query_string := None\<rparr>)))
                 (\<lambda>_. fc_return (VV_FC_ERR_OUT_MEM, length q1, path_info_l))
               else
                 fc_bind (fc_do (\<lambda>l. l\<lparr>fc_query_string := Some q1\<rparr>)) (\<lambda>_.
                 fc_bind (fc_alloc S (path_info_l + l_payload + 1)) (\<lambda>good.
                   if \<not> good then fc_bind (fc_do (shut_sock S))
                     (\<lambda>_. fc_return (VV_FC_ERR_OUT_MEM, length q1, path_info_l + l_payload))
                   else fc_bind (fc_do (\<lambda>l. l\<lparr>fc_path_info := take path_info_l (fc_path_info l) @ take l_payload q,
                       path_owned := True\<rparr>))
                     (\<lambda>_. fc_return (VV_OKAY, length q1, path_info_l + l_payload)))))))
          else fc_return (VV_OKAY, length q, path_info_l)))"

section \<open>The start and the end of a call\<close>

definition fc_message :: "nat \<Rightarrow> string option" where
  "fc_message n =
     (if n = 1 then Some ''Error reading from server'' else if n = 2 then Some ''Protocol error''
      else if n = 3 then Some ''Bad FastCGI version'' else if n = 4 then Some ''Server cannot complete request''
      else if n = 5 then Some ''Unknown record type'' else if n = 6 then Some ''Out of memory''
      else if n = 7 then Some ''Cannot resolve host address'' else if n = 8 then Some ''Unix socket path too long''
      else if n = 9 then Some ''Cannot connect to server'' else if n = 10 then Some ''Request timed out''
      else if n = 11 then Some ''Error writing to server'' else if n = 12 then Some ''Internal error''
      else if n = 13 then Some ''Environment variables too long'' else if n = 14 then Some ''Invalid timeout value''
      else if n = 15 then Some ''Name or value missing in environment variables'' else None)"

definition fc_arm :: "'s fc_os \<Rightarrow> int \<Rightarrow> (int, 's) fc_act" where
  "fc_arm S timeout =
     fc_bind (fc_do (\<lambda>l. l\<lparr>read_done := False, fc_env_mem := [], env_lens := [], sock := -1, fc_req_id := 1,
         done_header := False, tout := \<lparr>tv_sec = 0, tv_usec = 0\<rparr>, interrupted := False,
         fc := (fc l)\<lparr>other_len := 0, fc_done := False, return_code := VV_OKAY\<rparr>\<rparr>)) (\<lambda>_.
       if timeout \<noteq> 0 then
         (if timeout < 1 \<or> timeout > 86400 then fc_return VV_FC_ERR_BAD_TIMEOUT
          else fc_bind (fc_do (\<lambda>l. l\<lparr>tout := \<lparr>tv_sec = timeout, tv_usec = 0\<rparr>\<rparr>)) (\<lambda>_.
               fc_bind (fc_lift (vv_check_timeout S True)) (\<lambda>_. fc_return VV_OKAY)))
       else fc_return VV_OKAY)"

definition fc_edge_start :: "'s fc_os \<Rightarrow> int \<Rightarrow> (int, 's) fc_act" where
  "fc_edge_start S timeout =
     fc_bind (set_fc (\<lambda>c. c\<lparr>read_status := VV_OKAY, fc_data := None\<rparr>)) (\<lambda>_.
     fc_bind (fc_alloc S 1) (\<lambda>good. if \<not> good then fc_return VV_FC_ERR_OUT_MEM else
       fc_bind (set_fc (\<lambda>c. c\<lparr>fc_data := Some [NUL], data_len := 0, fc_error := None\<rparr>)) (\<lambda>_.
       fc_bind (fc_alloc S 1) (\<lambda>good. if \<not> good then fc_return VV_FC_ERR_OUT_MEM else
         fc_bind (set_fc (\<lambda>c. c\<lparr>fc_error := Some [NUL], error_len := 0, other := None\<rparr>)) (\<lambda>_.
         fc_bind (fc_alloc S 1) (\<lambda>good. if \<not> good then fc_return VV_FC_ERR_OUT_MEM else
           fc_bind (set_fc (\<lambda>c. c\<lparr>other := Some [NUL]\<rparr>)) (\<lambda>_. fc_arm S timeout)))))))"

text \<open>The memory of the call is freed, and that of the other records with it, which the caller cannot read any more; a path
  that is not memory of the call must not be freed.\<close>

definition fc_edge_end :: "'s fc_os \<Rightarrow> (unit, 's) fc_act" where
  "fc_edge_end S =
     fc_bind (fc_do (shut_sock S)) (\<lambda>_. fc_get (\<lambda>l.
       if just_query_path l \<and> \<not> path_owned l then fc_fault Out_of_bounds
       else set_fc (\<lambda>c. c\<lparr>other := None, fc_done := True\<rparr>)))"

definition buffer_text :: "string option \<Rightarrow> int \<Rightarrow> string" where
  "buffer_text b n = (case b of None \<Rightarrow> [] | Some s \<Rightarrow> take (nat n) s)"

definition VV_FC_RET :: "'s fc_os \<Rightarrow> int \<Rightarrow> (int, 's) fc_act" where
  "VV_FC_RET S rc =
     fc_bind (fc_edge_end S) (\<lambda>_. fc_get (\<lambda>l.
       let r = (if interrupted l then VV_FC_ERR_TIMEOUT else rc) in
       fc_bind (set_fc (\<lambda>c. c\<lparr>return_code := r, fc_errm := (if r \<noteq> VV_OKAY then fc_message (nat (- r)) else Some [])\<rparr>)) (\<lambda>_.
       fc_bind (fc_do (\<lambda>l. if r \<noteq> VV_OKAY then l
         else (case done_hook (fc l) of None \<Rightarrow> l
               | Some h \<Rightarrow> l\<lparr>sys := h (buffer_text (fc_data (fc l)) (data_len (fc l)))
                   (buffer_text (fc_error (fc l)) (error_len (fc l))) (sys l)\<rparr>))) (\<lambda>_. fc_return r))))"

section \<open>The connection\<close>

definition fc_errno :: "('a sysres \<times> 's fc_local) \<Rightarrow> 'a sysres \<times> 's fc_local" where
  "fc_errno = (\<lambda>(r, l). case r of Sys_ok x \<Rightarrow> (r, l) | Sys_err e \<Rightarrow> (r, l\<lparr>errno := e\<rparr>))"

text \<open>A socket, and the connection of it to an address.\<close>

definition fc_connect :: "'s fc_os \<Rightarrow> bool \<Rightarrow> sockaddr \<Rightarrow> (int, 's) fc_act" where
  "fc_connect S inet addr =
     fc_bind (fc_lift (\<lambda>l. fc_errno (fc_sys (sys_socket S inet) l))) (\<lambda>k. case k of
       Sys_err e \<Rightarrow> fc_return VV_FC_ERR_SOCKET
     | Sys_ok fd \<Rightarrow>
         fc_bind (fc_do (\<lambda>l. l\<lparr>sock := fd\<rparr>)) (\<lambda>_.
         fc_bind (fc_lift (vv_check_timeout S False)) (\<lambda>intime.
           if \<not> intime then fc_return VV_FC_ERR_TIMEOUT else
           fc_bind (fc_lift (vv_set_timeout S)) (\<lambda>good.
             if \<not> good then fc_return VV_FC_ERR_SOCKET else
             fc_bind (fc_lift (\<lambda>l. fc_errno (fc_sys (sys_connect S (sock l) addr) l))) (\<lambda>st. case st of
               Sys_ok _ \<Rightarrow> fc_return VV_OKAY
             | Sys_err e \<Rightarrow> fc_bind (fc_lift (vv_check_timeout S False)) (\<lambda>intime.
                 if \<not> intime then fc_return VV_FC_ERR_TIMEOUT
                 else fc_bind (fc_do (shut_sock S)) (\<lambda>_. fc_return VV_FC_ERR_CONNECT)))))))"

fun inet_address :: "sockaddr list \<Rightarrow> sockaddr option" where
  "inet_address [] = None"
| "inet_address (Inet p a # as) = (if p = 0 then None else Some (Inet p a))"
| "inet_address (Inet6 p a # as) = (if p = 0 then None else Some (Inet6 p a))"
| "inet_address (a # as) = inet_address as"

definition vv_connect_socket :: "'s fc_os \<Rightarrow> string \<Rightarrow> (int, 's) fc_act" where
  "vv_connect_socket S conn_string =
     fc_bind (fc_do (\<lambda>l. l\<lparr>sock := -1\<rparr>)) (\<lambda>_.
       if CHR '':'' \<in> set conn_string then
         fc_bind (fc_alloc S (length conn_string + 1)) (\<lambda>good. if \<not> good then fc_return VV_FC_ERR_OUT_MEM else
           fc_bind (fc_lift (fc_sys (sys_resolve S (takeWhile (\<lambda>c. c \<noteq> CHR '':'') conn_string)
               (drop 1 (dropWhile (\<lambda>c. c \<noteq> CHR '':'') conn_string))))) (\<lambda>found. case found of
             None \<Rightarrow> fc_return VV_FC_ERR_RESOLVE_ADDR
           | Some addrs \<Rightarrow> (case inet_address addrs of
               None \<Rightarrow> fc_return VV_FC_ERR_RESOLVE_ADDR
             | Some a \<Rightarrow> fc_connect S True a)))
       else if length conn_string > 108 then fc_return VV_FC_ERR_PATH_TOO_LONG
       else fc_connect S False (Unix_path conn_string))"

section \<open>The reply\<close>

definition set_status :: "int \<Rightarrow> (bool, 's) fc_act" where
  "set_status st = fc_bind (set_fc (\<lambda>c. c\<lparr>read_status := st\<rparr>)) (\<lambda>_. fc_return False)"

text \<open>A buffer with \<open>n\<close> bytes of which nobody wrote the last ones, and bytes put into one.\<close>

definition resized :: "'s fc_os \<Rightarrow> string option \<Rightarrow> nat \<Rightarrow> string option" where
  "resized S b n = Some (case b of None \<Rightarrow> replicate n (sys_junk S) | Some s \<Rightarrow> take n s @ replicate (n - length s) (sys_junk S))"

definition buffer_put :: "string option \<Rightarrow> int \<Rightarrow> string \<Rightarrow> string option res" where
  "buffer_put b off bs =
     (case b of None \<Rightarrow> Inl Out_of_bounds
      | Some s \<Rightarrow> if off < 0 then Inl Out_of_bounds else res_bind (memput s (nat off) bs) (\<lambda>s1. Inr (Some s1)))"

definition length_add :: "int \<Rightarrow> int \<Rightarrow> int res" where
  "length_add a b = (if a + b > INT_MAX then Inl Signed_overflow else Inr (a + b))"

text \<open>The header of a record: the buffer that it is for grows by its content.\<close>

definition grow_reply :: "'s fc_os \<Rightarrow> (bool, 's) fc_act" where
  "grow_reply S = fc_get (\<lambda>l.
     let t = uchar (ftype (header l)); c = fc l in
     if t = VV_FC_STDOUT then
       (let n = nat (data_len c + msg_remain l + 1) in
        fc_bind (fc_alloc S n) (\<lambda>good.
          if good then fc_bind (set_fc (\<lambda>c. c\<lparr>fc_data := resized S (fc_data c) n\<rparr>)) (\<lambda>_. fc_return True)
          else fc_bind (set_fc (\<lambda>c. c\<lparr>fc_data := None\<rparr>)) (\<lambda>_. set_status VV_FC_ERR_OUT_MEM)))
     else if t = VV_FC_STDERR then
       (let n = nat (error_len c + msg_remain l + 1) in
        fc_bind (fc_alloc S n) (\<lambda>good.
          if good then fc_bind (set_fc (\<lambda>c. c\<lparr>fc_error := resized S (fc_error c) n\<rparr>)) (\<lambda>_. fc_return True)
          else fc_bind (set_fc (\<lambda>c. c\<lparr>fc_error := None\<rparr>)) (\<lambda>_. set_status VV_FC_ERR_OUT_MEM)))
     else
       fc_bind (fc_res (length_add (other_len c + msg_remain l) 1)) (\<lambda>k. let n = nat k in
        fc_bind (fc_alloc S n) (\<lambda>good.
          if good then fc_bind (set_fc (\<lambda>c. c\<lparr>other := resized S (other c) n\<rparr>)) (\<lambda>_. fc_return True)
          else fc_bind (set_fc (\<lambda>c. c\<lparr>other := None\<rparr>)) (\<lambda>_. set_status VV_FC_ERR_OUT_MEM))))"

definition fc_take_header :: "'s fc_os \<Rightarrow> int \<times> string \<Rightarrow> (bool, 's) fc_act" where
  "fc_take_header S = (\<lambda>(cnt, bs).
     if cnt \<le> 0 then fc_return False else
     let h = header_of bs in
     fc_bind (fc_do (\<lambda>l. l\<lparr>header := h\<rparr>)) (\<lambda>_. fc_get (\<lambda>l.
       if uchar (ver h) \<noteq> VV_FC_VER_1 then set_status VV_FC_ERR_BAD_VER
       else if uchar (req_id_0 h) + push_bit 8 (uchar (req_id_1 h)) \<noteq> fc_req_id l then set_status VV_FC_ERR_PROT_ERR
       else
         fc_bind (fc_do (\<lambda>l. l\<lparr>msg_remain := uchar (cont_len_0 h) + push_bit 8 (uchar (cont_len_1 h)),
             padding_len := uchar (pad_len h)\<rparr>)) (\<lambda>_.
         fc_bind (grow_reply S) (\<lambda>good.
           if \<not> good then fc_return False
           else fc_bind (fc_do (\<lambda>l. l\<lparr>done_header := True\<rparr>)) (\<lambda>_. fc_return True))))))"

definition fc_read_header :: "'s fc_os \<Rightarrow> (bool, 's) fc_act" where
  "fc_read_header S = fc_bind (vv_read_socket S 8) (fc_take_header S)"

definition run_hook :: "(string \<Rightarrow> 's \<Rightarrow> 's) option \<Rightarrow> string \<Rightarrow> (unit, 's) fc_act" where
  "run_hook h bs = fc_do (\<lambda>l. case h of None \<Rightarrow> l | Some f \<Rightarrow> l\<lparr>sys := f bs (sys l)\<rparr>)"

text \<open>The status of the request is a 32-bit integer, the highest byte of which is shifted into the sign.\<close>

definition app_status :: "string \<Rightarrow> int" where
  "app_status b =
     (let n = push_bit 24 (uchar (b ! 0)) + push_bit 16 (uchar (b ! 1)) + push_bit 8 (uchar (b ! 2)) + uchar (b ! 3) in
      if n > INT_MAX then n - 4294967296 else n)"

definition end_reply :: "int \<Rightarrow> string \<Rightarrow> (bool, 's) fc_act" where
  "end_reply cnt bs = fc_get (\<lambda>l.
     fc_bind (fc_res (buffer_put (fc_data (fc l)) (data_len (fc l)) [NUL])) (\<lambda>d.
     fc_bind (fc_res (buffer_put (fc_error (fc l)) (error_len (fc l)) [NUL])) (\<lambda>e.
     fc_bind (set_fc (\<lambda>c. c\<lparr>fc_data := d, fc_error := e\<rparr>)) (\<lambda>_.
       if cnt \<noteq> 8 then set_status VV_FC_ERR_PROT_ERR else
       fc_bind (fc_do (\<lambda>l. l\<lparr>read_done := True\<rparr>)) (\<lambda>_.
         if uchar (bs ! 4) \<noteq> VV_FC_REQ_DONE then set_status VV_FC_ERR_SRV else
         fc_bind (set_fc (\<lambda>c. c\<lparr>req_status := app_status bs\<rparr>)) (\<lambda>_.
         fc_bind (run_hook (out_hook (fc l)) []) (\<lambda>_. fc_return True)))))))"

text \<open>What is read goes into the buffer even if it is not all of it.\<close>

definition put_content :: "int \<Rightarrow> string \<Rightarrow> (unit, 's) fc_act" where
  "put_content t bs = fc_get (\<lambda>l.
     if t = VV_FC_STDOUT then
       fc_bind (fc_res (buffer_put (fc_data (fc l)) (data_len (fc l)) bs)) (\<lambda>b. set_fc (\<lambda>c. c\<lparr>fc_data := b\<rparr>))
     else if t = VV_FC_STDERR then
       fc_bind (fc_res (buffer_put (fc_error (fc l)) (error_len (fc l)) bs)) (\<lambda>b. set_fc (\<lambda>c. c\<lparr>fc_error := b\<rparr>))
     else fc_bind (fc_res (buffer_put (other (fc l)) (other_len (fc l)) bs)) (\<lambda>b. set_fc (\<lambda>c. c\<lparr>other := b\<rparr>)))"

definition fc_take_content :: "int \<Rightarrow> int \<times> string \<Rightarrow> (bool, 's) fc_act" where
  "fc_take_content t = (\<lambda>(cnt, bs).
     fc_bind (put_content t bs) (\<lambda>_.
     if cnt \<le> 0 then fc_return False else
     fc_bind
       (fc_get (\<lambda>l.
        if t = VV_FC_STDOUT then
          fc_bind (fc_res (length_add (data_len (fc l)) cnt)) (\<lambda>n.
          fc_bind (set_fc (\<lambda>c. c\<lparr>data_len := n\<rparr>)) (\<lambda>_.
          fc_bind (run_hook (out_hook (fc l)) bs) (\<lambda>_. fc_return True)))
        else if t = VV_FC_STDERR then
          fc_bind (fc_res (length_add (error_len (fc l)) cnt)) (\<lambda>n.
          fc_bind (set_fc (\<lambda>c. c\<lparr>error_len := n\<rparr>)) (\<lambda>_.
          fc_bind (run_hook (err_hook (fc l)) bs) (\<lambda>_. fc_return True)))
        else if t = VV_FC_END_REQ then end_reply cnt bs
        else
          fc_bind (fc_res (length_add (other_len (fc l)) cnt)) (\<lambda>n.
          fc_bind (set_fc (\<lambda>c. c\<lparr>other_len := n\<rparr>)) (\<lambda>_. fc_return True)))) (\<lambda>good.
     if \<not> good then fc_return False
     else fc_bind (fc_do (\<lambda>l. l\<lparr>msg_remain := 0\<rparr>)) (\<lambda>_. fc_return True))))"

definition fc_read_content :: "'s fc_os \<Rightarrow> (bool, 's) fc_act" where
  "fc_read_content S = fc_get (\<lambda>l.
     fc_bind (vv_read_socket S (msg_remain l)) (fc_take_content (uchar (ftype (header l)))))"

definition fc_read_padding :: "'s fc_os \<Rightarrow> (bool, 's) fc_act" where
  "fc_read_padding S = fc_get (\<lambda>l.
     if padding_len l > 0 then
       fc_bind (vv_read_socket S (padding_len l)) (\<lambda>(cnt, bs).
         if cnt \<le> 0 then fc_return False
         else fc_bind (fc_do (\<lambda>l. l\<lparr>padding_len := 0\<rparr>)) (\<lambda>_. fc_return True))
     else fc_return True)"

definition fc_read_body :: "'s fc_os \<Rightarrow> (bool, 's) fc_act" where
  "fc_read_body S = fc_get (\<lambda>l.
     fc_bind (if msg_remain l > 0 then fc_read_content S else fc_return True) (\<lambda>good.
       if \<not> good then fc_return False
       else if uchar (ftype (header l)) = VV_FC_UNK_TYPE then set_status VV_FC_ERR_UNK
       else fc_bind (fc_read_padding S) (\<lambda>good.
         if \<not> good then fc_return False
         else fc_bind (fc_do (\<lambda>l. l\<lparr>done_header := False\<rparr>)) (\<lambda>_. fc_return True))))"

text \<open>One turn of the loop, which says if there is another one.\<close>

definition fc_read_turn :: "'s fc_os \<Rightarrow> (bool, 's) fc_act" where
  "fc_read_turn S =
     fc_bind (fc_get (\<lambda>l. if done_header l then fc_read_body S else fc_read_header S))
       (\<lambda>good. fc_get (\<lambda>l. fc_return (good \<and> \<not> read_done l)))"

partial_function (option) fc_server_read :: "'s fc_os \<Rightarrow> 's fc_local \<Rightarrow> (unit \<times> 's fc_local) res option" where
  "fc_server_read S l =
     (case fc_read_turn S l of
        None \<Rightarrow> None
      | Some (Inl e) \<Rightarrow> Some (Inl e)
      | Some (Inr (again, l1)) \<Rightarrow> if again then fc_server_read S l1 else Some (Inr ((), l1)))"

declare fc_server_read.simps [code]

section \<open>A request\<close>

text \<open>What a step of the request gives is a code; after another one than \<open>VV_OKAY\<close> the call returns with it.\<close>

definition fc_then :: "(int, 's) fc_act \<Rightarrow> (int, 's) fc_act \<Rightarrow> (int, 's) fc_act" where
  "fc_then m k = fc_bind m (\<lambda>st. if st \<noteq> VV_OKAY then fc_return st else k)"

definition fc_shut :: "'s fc_os \<Rightarrow> int \<Rightarrow> (int, 's) fc_act" where
  "fc_shut S st = fc_bind (fc_do (shut_sock S)) (\<lambda>_. fc_return st)"

text \<open>Writing with the socket shut after an error, and without.\<close>

definition fc_write :: "'s fc_os \<Rightarrow> string \<Rightarrow> (int, 's) fc_act" where
  "fc_write S b = fc_bind (vv_write_socket S b) (\<lambda>r. if r < 0 then fc_shut S VV_FC_ERR_SOCK_WRITE else fc_return VV_OKAY)"

definition fc_write_body :: "'s fc_os \<Rightarrow> string \<Rightarrow> (int, 's) fc_act" where
  "fc_write_body S b = fc_bind (vv_write_socket S b) (\<lambda>r. fc_return (if r < 0 then VV_FC_ERR_SOCK_WRITE else VV_OKAY))"

definition fc_send_begin :: "'s fc_os \<Rightarrow> (int, 's) fc_act" where
  "fc_send_begin S = fc_get (\<lambda>l. fc_write S (header_bytes (build_hdr 8 VV_FC_BEG_REQ l) @ begin_request))"

text \<open>There is a body only with its length and its type.\<close>

definition has_body :: "'s vv_fc \<Rightarrow> bool" where
  "has_body c \<longleftrightarrow> req_body c \<noteq> None \<and> fc_content_len c \<noteq> 0 \<and> fc_content_type c \<noteq> None \<and> fc_content_type c \<noteq> Some []"

definition fc_check_body :: "(bool, 's) fc_act" where
  "fc_check_body = fc_get (\<lambda>l.
     if has_body (fc l) then fc_return True
     else fc_bind (set_fc (\<lambda>c. c\<lparr>fc_content_len := 0, fc_content_type := None\<rparr>)) (\<lambda>_. fc_return False))"

definition has_query :: "'s fc_local \<Rightarrow> bool" where
  "has_query l \<longleftrightarrow> fc_query_string l \<noteq> None \<and> fc_query_string l \<noteq> Some []"

text \<open>The pairs of the environment of the caller, with the lengths that are kept for them.\<close>

fun size_pairs :: "string list \<Rightarrow> (unit, 's) fc_act" where
  "size_pairs (n # v # ps) =
     fc_bind (fc_do (\<lambda>l. l\<lparr>env_lens := env_lens l @ [(length n, length v)]\<rparr>)) (\<lambda>_.
     fc_bind (vv_size_env (length n) (length v)) (\<lambda>_. size_pairs ps))"
| "size_pairs ps = fc_return ()"

fun send_pairs :: "string list \<Rightarrow> (nat \<times> nat) list \<Rightarrow> (unit, 's) fc_act" where
  "send_pairs (n # v # ps) lens =
     (case lens of [] \<Rightarrow> fc_fault Out_of_bounds
      | (nl, vl) # ls \<Rightarrow> fc_bind (vv_send_env n nl v vl) (\<lambda>_. send_pairs ps ls))"
| "send_pairs ps lens = fc_return ()"

definition size_params :: "bool \<Rightarrow> string \<Rightarrow> nat \<Rightarrow> nat \<Rightarrow> (unit, 's) fc_act" where
  "size_params body clen query_string_l path_info_l =
     fc_bind (fc_do (\<lambda>l. l\<lparr>param_len := 0\<rparr>)) (\<lambda>_. fc_get (\<lambda>l. let c = fc l in
     fc_bind (vv_size_env (length ''REQUEST_METHOD'') (length (req_method c))) (\<lambda>_.
     fc_bind (vv_size_env (length ''SCRIPT_NAME'') (length (app_path c))) (\<lambda>_.
     fc_bind (vv_size_env (length ''PATH_INFO'') path_info_l) (\<lambda>_.
     fc_bind (if has_query l then vv_size_env (length ''QUERY_STRING'') query_string_l else fc_return ()) (\<lambda>_.
       if body then
         fc_bind (vv_size_env (length ''CONTENT_LENGTH'') (length clen)) (\<lambda>_.
           vv_size_env (length ''CONTENT_TYPE'') (length (the (fc_content_type c))))
       else fc_return ()))))))"

definition size_env :: "'s fc_os \<Rightarrow> (int, 's) fc_act" where
  "size_env S = fc_get (\<lambda>l. case fc_env (fc l) of
     None \<Rightarrow> fc_return VV_OKAY
   | Some ps \<Rightarrow>
       if length ps mod 2 \<noteq> 0 then fc_return VV_FC_ERR_ENV_ODD
       else fc_bind (fc_alloc S (length ps div 2 * 4)) (\<lambda>good1.
            fc_bind (fc_alloc S (length ps div 2 * 4)) (\<lambda>good2.
              if \<not> good1 \<or> \<not> good2 then fc_shut S VV_FC_ERR_OUT_MEM
              else fc_bind (size_pairs ps) (\<lambda>_. fc_return VV_OKAY))))"

definition send_params :: "bool \<Rightarrow> string \<Rightarrow> nat \<Rightarrow> nat \<Rightarrow> (unit, 's) fc_act" where
  "send_params body clen query_string_l path_info_l = fc_get (\<lambda>l. let c = fc l in
     fc_bind (vv_send_env ''REQUEST_METHOD'' (length ''REQUEST_METHOD'') (req_method c) (length (req_method c))) (\<lambda>_.
     fc_bind (vv_send_env ''SCRIPT_NAME'' (length ''SCRIPT_NAME'') (app_path c) (length (app_path c))) (\<lambda>_.
     fc_bind (vv_send_env ''PATH_INFO'' (length ''PATH_INFO'') (fc_path_info l) path_info_l) (\<lambda>_.
     fc_bind (if has_query l
       then vv_send_env ''QUERY_STRING'' (length ''QUERY_STRING'') (the (fc_query_string l)) query_string_l
       else fc_return ()) (\<lambda>_.
     fc_bind (if body then
         fc_bind (vv_send_env ''CONTENT_LENGTH'' (length ''CONTENT_LENGTH'') clen (length clen)) (\<lambda>_.
           vv_send_env ''CONTENT_TYPE'' (length ''CONTENT_TYPE'') (the (fc_content_type c)) (length (the (fc_content_type c))))
       else fc_return ()) (\<lambda>_.
       case fc_env c of None \<Rightarrow> fc_return () | Some ps \<Rightarrow> send_pairs ps (env_lens l)))))))"

text \<open>The record of parameters and the empty one that ends them.\<close>

definition fc_send_env :: "'s fc_os \<Rightarrow> bool \<Rightarrow> string \<Rightarrow> nat \<Rightarrow> nat \<Rightarrow> (int, 's) fc_act" where
  "fc_send_env S body clen query_string_l path_info_l = fc_get (\<lambda>l.
     if param_len l \<ge> VV_FC_MAX_LEN - 8 then fc_shut S VV_FC_ERR_ENV_TOO_LONG
     else fc_then (fc_write S (header_bytes (build_hdr (param_len l) VV_FC_PARAM l)))
       (fc_bind (fc_alloc S (nat (param_len l))) (\<lambda>good. if \<not> good then fc_shut S VV_FC_ERR_OUT_MEM else
        fc_bind (fc_do (\<lambda>l. l\<lparr>fc_env_mem := replicate (nat (param_len l)) (sys_junk S), env_p := 0\<rparr>)) (\<lambda>_.
        fc_bind (send_params body clen query_string_l path_info_l) (\<lambda>_. fc_get (\<lambda>l.
        fc_then (fc_write S (take (env_p l) (fc_env_mem l))) (fc_get (\<lambda>l.
          fc_write S (header_bytes (build_hdr 0 VV_FC_PARAM l))))))))))"

text \<open>The body, in records that are not too long, and an empty one.\<close>

function body_loop :: "'s fc_os \<Rightarrow> string \<Rightarrow> int \<Rightarrow> (int, 's) fc_act" where
  "body_loop S ibody req_body_len =
     (if req_body_len > 0 then
        (let len = (if req_body_len > VV_FC_MAX_LEN - 8 then VV_FC_MAX_LEN - 8 else req_body_len) in
         fc_get (\<lambda>l.
           fc_then (fc_write_body S (header_bytes (build_hdr len VV_FC_STDIN l)))
             (if nat len > length ibody then fc_fault Out_of_bounds
              else fc_then (fc_write_body S (take (nat len) ibody))
                (body_loop S (drop (nat len) ibody) (req_body_len - len)))))
      else fc_return VV_OKAY)"
  by pat_completeness auto
termination by (relation "measure (\<lambda>(S, b, n). nat n)") (auto simp: VV_FC_MAX_LEN_def)

declare body_loop.simps [simp del]

definition fc_send_body :: "'s fc_os \<Rightarrow> string option \<Rightarrow> (int, 's) fc_act" where
  "fc_send_body S ibody = fc_get (\<lambda>l. case ibody of
     None \<Rightarrow> fc_return VV_OKAY
   | Some b \<Rightarrow> fc_then (body_loop S b (fc_content_len (fc l))) (fc_get (\<lambda>l.
       fc_write_body S (header_bytes (build_hdr 0 VV_FC_STDIN l)))))"

definition fc_send :: "'s fc_os \<Rightarrow> (int, 's) fc_act" where
  "fc_send S = fc_get (\<lambda>l0. let ibody = req_body (fc l0) in
     fc_bind fc_check_body (\<lambda>body. fc_get (\<lambda>l. let c = fc l;
         clen = (if body then snprintf_text 30 (decimal_text (fc_content_len c)) else []) in
     fc_bind (fc_do (\<lambda>l. l\<lparr>just_query_path := False, path_owned := False, fc_query_string := url_payload c,
       fc_path_info := fc_req c\<rparr>)) (\<lambda>_.
     fc_bind (parse_payload S 0 (length (fc_req c))) (\<lambda>(rp, query_string_l, path_info_l).
       if rp \<noteq> VV_OKAY then fc_return rp else
       fc_bind (size_params body clen query_string_l path_info_l) (\<lambda>_.
       fc_then (size_env S)
         (fc_then (fc_send_env S body clen query_string_l path_info_l)
           (fc_send_body S (if body then ibody else None)))))))))"

definition vv_fc_request_act :: "'s fc_os \<Rightarrow> (int, 's) fc_act" where
  "vv_fc_request_act S =
     fc_bind (fc_lift (fc_sys (sys_time S))) (\<lambda>now.
     fc_bind (fc_do (\<lambda>l. l\<lparr>begin_time := now\<rparr>)) (\<lambda>_. fc_get (\<lambda>l.
     fc_bind (fc_edge_start S (fc_timeout (fc l))) (\<lambda>init. if init \<noteq> VV_OKAY then fc_return init else
     fc_bind (fc_then (vv_connect_socket S (fcgi_server (fc l))) (fc_then (fc_send_begin S) (fc_send S))) (\<lambda>st.
       if st \<noteq> VV_OKAY then VV_FC_RET S st
       else fc_bind (fc_server_read S) (\<lambda>_. fc_get (\<lambda>l. VV_FC_RET S (read_status (fc l)))))))))"

text \<open>The data of a call are zero at first; \<open>errno\<close> is what the last call of the system left.\<close>

definition no_header :: fc_header where
  "no_header = \<lparr>ver = NUL, ftype = NUL, req_id_1 = NUL, req_id_0 = NUL, cont_len_1 = NUL, cont_len_0 = NUL, pad_len = NUL,
     future_use = NUL\<rparr>"

definition fc_start :: "'s vv_fc \<Rightarrow> int \<Rightarrow> 's \<Rightarrow> 's fc_local" where
  "fc_start c e s =
     \<lparr>param_len = 0, fc_env_mem = [], env_lens = [], env_p = 0, sock = 0, done_header = False, msg_remain = 0,
      padding_len = 0, fc_req_id = 0, read_done = False, tout = \<lparr>tv_sec = 0, tv_usec = 0\<rparr>,
      remaining = \<lparr>tv_sec = 0, tv_usec = 0\<rparr>, begin_time = \<lparr>tv_sec = 0, tv_usec = 0\<rparr>, interrupted = False, fc = c,
      just_query_path = False, path_owned = False, fc_query_string = None, fc_path_info = [], header = no_header,
      errno = e, sys = s\<rparr>"

definition vv_fc_request :: "'s fc_os \<Rightarrow> 's vv_fc \<Rightarrow> int \<Rightarrow> 's \<Rightarrow> (int \<times> 's fc_local) res option" where
  "vv_fc_request S fc_in e s = vv_fc_request_act S (fc_start fc_in e s)"

end
