(* ===== verification/FcgiPeer.thy ===== *)
theory FcgiPeer
  imports Fcgi
begin

text \<open>
  A call of the FastCGI client that returns: what must hold of the state before it so that it ends without a fault in a
  state with a property, and the systems for which it does.  \<open>sent\<close> is what the system has sent to the server, \<open>inbox\<close>
  what the server has for the client.
\<close>

named_theorems totals \<open>when an operation of the client ends with a property\<close>

section \<open>Operations that end\<close>

definition total :: "('a, 's) fc_act \<Rightarrow> ('a \<Rightarrow> 's fc_local \<Rightarrow> bool) \<Rightarrow> 's fc_local \<Rightarrow> bool" where
  "total m Q l \<longleftrightarrow> (\<exists>x l1. m l = Some (Inr (x, l1)) \<and> Q x l1)"

lemma total_return [totals]: "total (fc_return x) Q = Q x"
  by (rule ext) (simp add: total_def fc_return_def)

lemma total_get [totals]: "total (fc_get f) Q = (\<lambda>l. total (f l) Q l)"
  by (rule ext) (simp add: total_def fc_get_def)

lemma total_lift [totals]: "total (fc_lift h) Q = (\<lambda>l. Q (fst (h l)) (snd (h l)))"
  by (rule ext) (metis (no_types, lifting) fc_lift_def Inr_inject option.inject prod.collapse prod.inject total_def)

lemma total_do [totals]: "total (fc_do g) Q = (\<lambda>l. Q () (g l))" "total (set_fc c) Q = (\<lambda>l. Q () (l\<lparr>fc := c (fc l)\<rparr>))"
  by (simp_all add: fun_eq_iff total_def fc_do_def set_fc_def)

lemma total_bind [totals]: "total (fc_bind m f) Q = total m (\<lambda>x. total (f x) Q)"
  by (rule ext) (auto simp: total_def fc_bind_def run_bind_def split: option.splits sum.splits)

lemma total_if [totals]: "total (if b then m else n) Q = (if b then total m Q else total n Q)"
  by simp

lemma total_case [totals]:
  "total (case x of (a, b) \<Rightarrow> f a b) Q = (case x of (a, b) \<Rightarrow> total (f a b) Q)"
  "total (case y of (a, b, c) \<Rightarrow> g a b c) Q = (case y of (a, b, c) \<Rightarrow> total (g a b c) Q)"
  by (simp_all split: prod.split)

lemma if_at [totals]: "(if b then f else g) x = (if b then f x else g x)"
  by simp

lemma total_res [totals]: "total (fc_res (Inr x)) Q = Q x"
  by (simp add: fc_res_def total_return)

lemma total_mono: "total m Q l \<Longrightarrow> (\<And>x l1. Q x l1 \<Longrightarrow> R x l1) \<Longrightarrow> total m R l"
  by (auto simp: total_def)

lemma total_then [totals]: "total (fc_then m k) Q = total m (\<lambda>st. if st \<noteq> VV_OKAY then Q st else total k Q)"
  unfolding fc_then_def total_bind total_if total_return ..

section \<open>A system that does its work\<close>

definition usecs :: "timeval \<Rightarrow> int" where
  "usecs t = tv_sec t * 1000000 + tv_usec t"

definition proper :: "timeval \<Rightarrow> bool" where
  "proper t \<longleftrightarrow> 0 \<le> tv_usec t \<and> tv_usec t < 1000000"

lemma timersub_usecs:
  assumes "proper a" "proper b"
  shows "usecs (timersub a b) = usecs a - usecs b" "proper (timersub a b)"
  using assms by (auto simp: timersub_def usecs_def proper_def Let_def algebra_simps)

lemma timer_less_usecs:
  assumes "proper a" "proper b"
  shows "timer_less a b \<longleftrightarrow> usecs a < usecs b"
proof -
  have "tv_sec a < tv_sec b \<longleftrightarrow> usecs a < usecs b" if "tv_sec a \<noteq> tv_sec b"
  proof
    assume "tv_sec a < tv_sec b"
    then have "tv_sec a + 1 \<le> tv_sec b" by simp
    then have "(tv_sec a + 1) * 1000000 \<le> tv_sec b * 1000000" by simp
    then show "usecs a < usecs b" using assms by (simp add: usecs_def proper_def)
  next
    assume l: "usecs a < usecs b"
    show "tv_sec a < tv_sec b"
    proof (rule ccontr)
      assume "\<not> tv_sec a < tv_sec b"
      then have "tv_sec b + 1 \<le> tv_sec a" using that by simp
      then have "(tv_sec b + 1) * 1000000 \<le> tv_sec a * 1000000" by simp
      then show False using l assms by (simp add: usecs_def proper_def)
    qed
  qed
  then show ?thesis by (auto simp: timer_less_def usecs_def)
qed

text \<open>The clock: the call starts at \<open>b\<close>, and never sees a time that is past its timeout.\<close>

definition timely :: "'s fc_os \<Rightarrow> int \<Rightarrow> timeval \<Rightarrow> timeval \<Rightarrow> bool" where
  "timely S timeout t b \<longleftrightarrow>
     timeout = 0 \<or>
     proper t \<and> proper b \<and> (\<forall>s. proper (fst (sys_time S s)) \<and> usecs (fst (sys_time S s)) < usecs b + usecs t)"

text \<open>A call that has no effect on what was sent and on what is there to read.\<close>

definition quiet :: "('s \<Rightarrow> string) \<Rightarrow> ('s \<Rightarrow> string) \<Rightarrow> 's \<Rightarrow> 's \<Rightarrow> bool" where
  "quiet sent inbox s s1 \<longleftrightarrow> sent s1 = sent s \<and> inbox s1 = inbox s"

definition peer :: "'s fc_os \<Rightarrow> ('s \<Rightarrow> string) \<Rightarrow> ('s \<Rightarrow> string) \<Rightarrow> bool" where
  "peer S sent inbox \<longleftrightarrow>
     (\<forall>k b s. b \<noteq> [] \<longrightarrow> (\<exists>n s1. sys_write S k b s = (Sys_ok n, s1) \<and> 0 < n \<and> n \<le> length b \<and>
        sent s1 = sent s @ take n b \<and> inbox s1 = inbox s)) \<and>
     (\<forall>k n s. 0 < n \<longrightarrow> (\<exists>bs s1. sys_read S k n s = (Sys_ok bs, s1) \<and> length bs \<le> n \<and> (bs = [] \<longleftrightarrow> inbox s = []) \<and>
        inbox s = bs @ inbox s1 \<and> sent s1 = sent s)) \<and>
     (\<forall>s. quiet sent inbox s (snd (sys_time S s))) \<and>
     (\<forall>k b t s. fst (sys_sockopt S k b t s) \<and> quiet sent inbox s (snd (sys_sockopt S k b t s))) \<and>
     (\<forall>h p s. (\<exists>as. fst (sys_resolve S h p s) = Some as \<and> inet_address as \<noteq> None) \<and> quiet sent inbox s (snd (sys_resolve S h p s))) \<and>
     (\<forall>b s. (\<exists>k. fst (sys_socket S b s) = Sys_ok k) \<and> quiet sent inbox s (snd (sys_socket S b s))) \<and>
     (\<forall>k a s. (\<exists>u. fst (sys_connect S k a s) = Sys_ok u) \<and> quiet sent inbox s (snd (sys_connect S k a s))) \<and>
     (\<forall>k s. quiet sent inbox s (sys_close S k s)) \<and>
     (\<forall>n s. fst (sys_memory S n s) \<and> quiet sent inbox s (snd (sys_memory S n s)))"

lemma quiet_refl [simp]: "quiet sent inbox s s"
  by (simp add: quiet_def)

lemma quiet_trans: "quiet sent inbox s s1 \<Longrightarrow> quiet sent inbox s1 s2 \<Longrightarrow> quiet sent inbox s s2"
  by (simp add: quiet_def)

lemma peerD:
  assumes "peer S sent inbox"
  shows "quiet sent inbox s (snd (sys_time S s))"
    "fst (sys_sockopt S k b t s)" "quiet sent inbox s (snd (sys_sockopt S k b t s))"
    "quiet sent inbox s (snd (sys_resolve S h p s))" "quiet sent inbox s (snd (sys_socket S b s))"
    "quiet sent inbox s (snd (sys_connect S k a s))" "quiet sent inbox s (sys_close S k s)"
    "fst (sys_memory S n s)" "quiet sent inbox s (snd (sys_memory S n s))"
  using assms by (simp_all add: peer_def)

lemma peer_write:
  assumes "peer S sent inbox" "b \<noteq> []"
  obtains n s1 where "sys_write S k b s = (Sys_ok n, s1)" "0 < n" "n \<le> length b" "sent s1 = sent s @ take n b"
    "inbox s1 = inbox s"
  using assms unfolding peer_def by meson

lemma peer_read:
  assumes "peer S sent inbox" "0 < n"
  obtains bs s1 where "sys_read S k n s = (Sys_ok bs, s1)" "length bs \<le> n" "bs = [] \<longleftrightarrow> inbox s = []"
    "inbox s = bs @ inbox s1" "sent s1 = sent s"
  using assms unfolding peer_def by meson

section \<open>Sockets\<close>

text \<open>The client moves: it has sent and read some bytes, and the state of the system and the time left are other ones.\<close>

definition moved :: "('s \<Rightarrow> string) \<Rightarrow> ('s \<Rightarrow> string) \<Rightarrow> 's fc_local \<Rightarrow> string \<Rightarrow> string \<Rightarrow> 's fc_local \<Rightarrow> bool" where
  "moved sent inbox l out inp l1 \<longleftrightarrow>
     (\<exists>r s. l1 = l\<lparr>remaining := r, sys := s\<rparr> \<and> sent s = sent (sys l) @ out \<and> inbox (sys l) = inp @ inbox s)"

lemma moved_trans: "moved sent inbox l o1 i1 l1 \<Longrightarrow> moved sent inbox l1 o2 i2 l2 \<Longrightarrow> moved sent inbox l (o1 @ o2) (i1 @ i2) l2"
  unfolding moved_def by (elim exE conjE) (simp, metis append.assoc)

lemma moved_refl: "moved sent inbox l [] [] l"
  unfolding moved_def by (intro exI [of _ "remaining l"] exI [of _ "sys l"]) simp

definition on_time :: "'s fc_os \<Rightarrow> 's fc_local \<Rightarrow> bool" where
  "on_time S l \<longleftrightarrow> timely S (fc_timeout (fc l)) (tout l) (begin_time l)"

lemma moved_on_time: "moved sent inbox l a b l1 \<Longrightarrow> on_time S l1 = on_time S l"
  by (auto simp: moved_def on_time_def)

lemma check_timeout_peer:
  assumes "peer S sent inbox" "on_time S l"
  obtains l1 where "vv_check_timeout S False l = (True, l1)" "moved sent inbox l [] [] l1"
proof (cases "fc_timeout (fc l) = 0")
  case True
  then show ?thesis using that by (simp add: vv_check_timeout_def moved_refl)
next
  case False
  let ?now = "fst (sys_time S (sys l))" and ?s = "snd (sys_time S (sys l))"
  let ?d = "timersub ?now (begin_time l)"
  have t: "proper (tout l)" "proper (begin_time l)" "proper ?now" "usecs ?now < usecs (begin_time l) + usecs (tout l)"
    using assms(2) False by (auto simp: on_time_def timely_def)
  then have "timer_less ?d (tout l)" by (simp add: timer_less_usecs timersub_usecs)
  then have "vv_check_timeout S False l = (True, l\<lparr>sys := ?s, remaining := timersub (tout l) ?d\<rparr>)"
    using False by (cases "sys_time S (sys l)") (simp add: vv_check_timeout_def fc_sys_def Let_def)
  moreover have "moved sent inbox l [] [] (l\<lparr>sys := ?s, remaining := timersub (tout l) ?d\<rparr>)"
    using peerD(1) [OF assms(1), of "sys l"] unfolding moved_def quiet_def
    by (intro exI [of _ "timersub (tout l) ?d"] exI [of _ ?s]) simp
  ultimately show ?thesis using that by blast
qed

lemma moved_sys:
  assumes "quiet sent inbox (sys l) s"
  shows "moved sent inbox l [] [] (l\<lparr>sys := s\<rparr>)"
  using assms unfolding moved_def quiet_def by (intro exI [of _ "remaining l"] exI [of _ s]) simp

lemma set_timeout_peer:
  assumes "peer S sent inbox"
  obtains l1 where "vv_set_timeout S l = (True, l1)" "moved sent inbox l [] [] l1"
proof (cases "fc_timeout (fc l) = 0")
  case True
  then show ?thesis using that by (simp add: vv_set_timeout_def moved_refl)
next
  case False
  obtain a s1 where a: "sys_sockopt S (sock l) True (remaining l) (sys l) = (a, s1)" by fastforce
  obtain b s2 where b: "sys_sockopt S (sock l) False (remaining l) s1 = (b, s2)" by fastforce
  have "a" "quiet sent inbox (sys l) s1"
    using peerD(2) [OF assms, of "sock l" True "remaining l" "sys l"] peerD(3) [OF assms, of "sys l" "sock l" True "remaining l"] a
    by auto
  moreover have "b" "quiet sent inbox s1 s2"
    using peerD(2) [OF assms, of "sock l" False "remaining l" s1] peerD(3) [OF assms, of s1 "sock l" False "remaining l"] b
    by auto
  ultimately have "vv_set_timeout S l = (True, l\<lparr>sys := s2\<rparr>)" "quiet sent inbox (sys l) s2"
    using False a b quiet_trans by (auto simp: vv_set_timeout_def fc_sys_def)
  then show ?thesis using that [OF _ moved_sys] by simp
qed

lemma write_loop_peer:
  assumes "peer S sent inbox" "on_time S l" "written < length b"
  shows "\<exists>l1. write_loop S b written l = Some (int (length b), l1) \<and> moved sent inbox l (drop written b) [] l1"
  using assms(2,3)
proof (induction "length b - written" arbitrary: written l rule: less_induct)
  case less
  have "drop written b \<noteq> []" using less.prems by simp
  then obtain n s1 where w: "sys_write S (sock l) (drop written b) (sys l) = (Sys_ok n, s1)" "0 < n"
    "n \<le> length b - written" "sent s1 = sent (sys l) @ take n (drop written b)" "inbox s1 = inbox (sys l)"
    using peer_write [OF assms(1)] by (metis length_drop)
  let ?l1 = "l\<lparr>sys := s1\<rparr>"
  have m1: "moved sent inbox l (take n (drop written b)) [] ?l1"
    unfolding moved_def by (intro exI [of _ "remaining l"] exI [of _ s1]) (simp add: w)
  show ?case
  proof (cases "written + n \<ge> length b")
    case True
    then have "take n (drop written b) = drop written b" by simp
    then show ?thesis using True w(1) m1 by (simp add: write_loop.simps [of S b written l] fc_sys_def)
  next
    case False
    obtain l2 where l2: "vv_check_timeout S False ?l1 = (True, l2)" "moved sent inbox ?l1 [] [] l2"
      using check_timeout_peer [OF assms(1)] moved_on_time [OF m1] less.prems by metis
    obtain l3 where l3: "vv_set_timeout S l2 = (True, l3)" "moved sent inbox l2 [] [] l3"
      using set_timeout_peer [OF assms(1)] by metis
    have m3: "moved sent inbox l (take n (drop written b)) [] l3"
      using moved_trans [OF moved_trans [OF m1 l2(2)] l3(2)] by simp
    have "on_time S l3" using moved_on_time [OF m3] less.prems by simp
    moreover have "length b - (written + n) < length b - written" using less.prems(2) w(2) by linarith
    ultimately obtain l4 where l4: "write_loop S b (written + n) l3 = Some (int (length b), l4)"
      "moved sent inbox l3 (drop (written + n) b) [] l4"
      using less.hyps [of "written + n" l3] False by auto
    have "write_loop S b written l = Some (int (length b), l4)"
      using False w(1) l2 l3 l4 by (subst write_loop.simps) (simp add: fc_sys_def)
    moreover have "take n (drop written b) @ drop (written + n) b = drop written b"
      by (metis add.commute append_take_drop_id drop_drop)
    ultimately show ?thesis using moved_trans [OF m3 l4(2)] by simp
  qed
qed

lemma total_write:
  assumes "peer S sent inbox" "on_time S l" "b \<noteq> []" "\<And>l1. moved sent inbox l b [] l1 \<Longrightarrow> Q (int (length b)) l1"
  shows "total (vv_write_socket S b) Q l"
  using write_loop_peer [OF assms(1,2), of 0 b] assms(3,4) by (auto simp: total_def vv_write_socket_def)

text \<open>A read has as many bytes as it wants, or all there are and then the end.\<close>

lemma read_loop_peer:
  assumes "peer S sent inbox" "on_time S l" "errno l \<noteq> EINTR" "length got < len"
  shows "if len - length got \<le> length (inbox (sys l))
    then \<exists>l1. read_loop S len got l = Some ((int len, got @ take (len - length got) (inbox (sys l))), l1) \<and>
      moved sent inbox l [] (take (len - length got) (inbox (sys l))) l1
    else \<exists>l1. read_loop S len got l = Some ((0, got @ inbox (sys l)), check_read 0 l1) \<and>
      moved sent inbox l [] (inbox (sys l)) l1"
  using assms(2-)
proof (induction "len - length got" arbitrary: got l rule: less_induct)
  case less
  obtain bs s1 where r: "sys_read S (sock l) (len - length got) (sys l) = (Sys_ok bs, s1)" "length bs \<le> len - length got"
    "bs = [] \<longleftrightarrow> inbox (sys l) = []" "inbox (sys l) = bs @ inbox s1" "sent s1 = sent (sys l)"
    using peer_read [OF assms(1)] less.prems(3) by (metis zero_less_diff)
  let ?l1 = "l\<lparr>sys := s1\<rparr>"
  have m1: "moved sent inbox l [] bs ?l1"
    unfolding moved_def by (intro exI [of _ "remaining l"] exI [of _ s1]) (simp add: r)
  have t1: "on_time S ?l1" using moved_on_time [OF m1] less.prems by simp
  obtain l2 where l2: "vv_check_timeout S False ?l1 = (True, l2)" "moved sent inbox ?l1 [] [] l2"
    using check_timeout_peer [OF assms(1) t1] by metis
  have m2: "moved sent inbox l [] bs l2" using moved_trans [OF m1 l2(2)] by simp
  consider (eof) "bs = []" | (all) "bs \<noteq> []" "length (got @ bs) \<ge> len" | (more) "bs \<noteq> []" "\<not> length (got @ bs) \<ge> len"
    by blast
  then show ?case
  proof cases
    case eof
    then have "read_loop S len got l = Some ((0, got), check_read 0 l2)"
      using r(1) l2(1) less.prems(2) by (subst read_loop.simps) (simp add: fc_sys_def read_failed_def)
    then show ?thesis using eof r(3) m2 less.prems(3) by auto
  next
    case all
    then have n: "length bs = len - length got" using r(2) less.prems(3) by simp
    then have "bs = take (len - length got) (inbox (sys l))" "len - length got \<le> length (inbox (sys l))"
      using r(4) by simp_all
    moreover have "read_loop S len got l = Some ((int len, got @ bs), ?l1)"
      using r(1) all by (subst read_loop.simps) (simp add: fc_sys_def)
    ultimately show ?thesis using m1 by auto
  next
    case more
    obtain l3 where l3: "vv_set_timeout S l2 = (True, l3)" "moved sent inbox l2 [] [] l3"
      using set_timeout_peer [OF assms(1)] by metis
    have m3: "moved sent inbox l [] bs l3" using moved_trans [OF m2 l3(2)] by simp
    have again: "read_loop S len got l = read_loop S len (got @ bs) l3"
      using r(1) more l2 l3 by (subst read_loop.simps) (simp add: fc_sys_def)
    have "on_time S l3" "errno l3 \<noteq> EINTR" using m3 less.prems moved_on_time [OF m3] by (auto simp: moved_def)
    moreover have "inbox (sys l3) = inbox s1" using m3 r(4) by (auto simp: moved_def)
    moreover have "len - length (got @ bs) < len - length got" using more less.prems(3) by (cases bs) auto
    ultimately have ih: "if len - length (got @ bs) \<le> length (inbox s1)
      then \<exists>l1. read_loop S len (got @ bs) l3 = Some ((int len, (got @ bs) @ take (len - length (got @ bs)) (inbox s1)), l1) \<and>
        moved sent inbox l3 [] (take (len - length (got @ bs)) (inbox s1)) l1
      else \<exists>l1. read_loop S len (got @ bs) l3 = Some ((0, (got @ bs) @ inbox s1), check_read 0 l1) \<and>
        moved sent inbox l3 [] (inbox s1) l1"
      using less.hyps [of "got @ bs" l3] more by auto
    have tk: "take (len - length got) (inbox (sys l)) = bs @ take (len - length (got @ bs)) (inbox s1)"
      using r(2,4) by simp
    have le: "len - length got \<le> length (inbox (sys l)) \<longleftrightarrow> len - length (got @ bs) \<le> length (inbox s1)"
      using r(2,4) by auto
    show ?thesis
    proof (cases "len - length got \<le> length (inbox (sys l))")
      case True
      then obtain l4 where "read_loop S len (got @ bs) l3 = Some ((int len, (got @ bs) @ take (len - length (got @ bs)) (inbox s1)), l4)"
        "moved sent inbox l3 [] (take (len - length (got @ bs)) (inbox s1)) l4" using ih le by auto
      then have "read_loop S len got l = Some ((int len, got @ take (len - length got) (inbox (sys l))), l4) \<and>
        moved sent inbox l [] (take (len - length got) (inbox (sys l))) l4"
        using again tk moved_trans [OF m3] by fastforce
      then show ?thesis using True by auto
    next
      case False
      then obtain l4 where "read_loop S len (got @ bs) l3 = Some ((0, (got @ bs) @ inbox s1), check_read 0 l4)"
        "moved sent inbox l3 [] (inbox s1) l4" using ih le by auto
      then have "read_loop S len got l = Some ((0, got @ inbox (sys l)), check_read 0 l4) \<and> moved sent inbox l [] (inbox (sys l)) l4"
        using again r(4) moved_trans [OF m3] by fastforce
      then show ?thesis using False by auto
    qed
  qed
qed

end
