(* ===== verification/FcgiSend.thy ===== *)
theory FcgiSend
  imports FcgiPeer
begin

text \<open>
  What the FastCGI client sends.  A server of the FastCGI protocol reads the records of what was sent, the stream of
  parameters and the stream of the body, each up to its empty record; it finds there the parameters and the body of the
  request.
\<close>

section \<open>What a server reads\<close>

function fcgi_records :: "string \<Rightarrow> (int \<times> string) list option" where
  "fcgi_records b =
     (if b = [] then Some []
      else if length b < 8 \<or> uchar (b ! 0) \<noteq> 1 \<or> uchar (b ! 2) * 256 + uchar (b ! 3) \<noteq> 1 then None
      else (let n = nat (uchar (b ! 4) * 256 + uchar (b ! 5)); p = nat (uchar (b ! 6)); r = drop 8 b in
        if length r < n + p then None
        else map_option (Cons (uchar (b ! 1), take n r)) (fcgi_records (drop (n + p) r))))"
  by pat_completeness auto
termination by (relation "measure length") auto

declare fcgi_records.simps [simp del]

text \<open>The contents of the records of a type up to an empty one, and what follows.\<close>

fun read_stream :: "int \<Rightarrow> (int \<times> string) list \<Rightarrow> (string \<times> (int \<times> string) list) option" where
  "read_stream t [] = None"
| "read_stream t ((u, b) # rs) =
     (if u \<noteq> t then None else if b = [] then Some ([], rs)
      else map_option (\<lambda>(c, rs1). (b @ c, rs1)) (read_stream t rs))"

fun read_length :: "string \<Rightarrow> (nat \<times> string) option" where
  "read_length [] = None"
| "read_length (a # cs) =
     (if uchar a < 128 then Some (nat (uchar a), cs)
      else (case cs of
          b # c # d # ds \<Rightarrow> Some (nat ((uchar a - 128) * 16777216 + uchar b * 65536 + uchar c * 256 + uchar d), ds)
        | _ \<Rightarrow> None))"

lemma read_length_shorter: "read_length b = Some (n, r) \<Longrightarrow> length r < length b"
  by (cases b) (auto split: if_splits list.splits)

function fcgi_params :: "string \<Rightarrow> (string \<times> string) list option" where
  "fcgi_params b =
     (if b = [] then Some []
      else (case read_length b of
          None \<Rightarrow> None
        | Some (n, r) \<Rightarrow> (case read_length r of
              None \<Rightarrow> None
            | Some (v, r1) \<Rightarrow>
                if length r1 < n + v then None
                else map_option (Cons (take n r1, take v (drop n r1))) (fcgi_params (drop (n + v) r1)))))"
  by pat_completeness auto
termination by (relation "measure length") (auto dest!: read_length_shorter)

declare fcgi_params.simps [simp del]

text \<open>The parameters, and the body if its stream was sent.  The role is that of a responder, and the connection is not
  kept.\<close>

definition server_view :: "string \<Rightarrow> ((string \<times> string) list \<times> string option) option" where
  "server_view b =
     (case fcgi_records b of
        Some ((t, beg) # rs) \<Rightarrow>
          (if t = 1 \<and> map uchar beg = [0, 1, 0, 0, 0, 0, 0, 0] then
             (case read_stream 4 rs of
                None \<Rightarrow> None
              | Some (p, rs1) \<Rightarrow> (case fcgi_params p of
                    None \<Rightarrow> None
                  | Some env \<Rightarrow>
                      if rs1 = [] then Some (env, None)
                      else (case read_stream 5 rs1 of Some (body, []) \<Rightarrow> Some (env, Some body) | _ \<Rightarrow> None)))
           else None)
      | _ \<Rightarrow> None)"

section \<open>What a request is\<close>

text \<open>The path of a URL payload goes up to the first question mark after its last slash; without a slash all is a query
  string.\<close>

definition after_slash :: "string \<Rightarrow> string" where
  "after_slash p = rev (takeWhile (\<lambda>c. c \<noteq> CHR ''/'') (rev p))"

definition url_path :: "string \<Rightarrow> string" where
  "url_path p = (if CHR ''/'' \<in> set p
     then take (length p - length (after_slash p)) p @ takeWhile (\<lambda>c. c \<noteq> CHR ''?'') (after_slash p) else [])"

definition url_query :: "string \<Rightarrow> string" where
  "url_query p = (if CHR ''/'' \<in> set p then drop 1 (dropWhile (\<lambda>c. c \<noteq> CHR ''?'') (after_slash p)) else p)"

definition payload :: "'s vv_fc \<Rightarrow> string" where
  "payload c = (case url_payload c of None \<Rightarrow> [] | Some p \<Rightarrow> p)"

fun pairs :: "string list \<Rightarrow> (string \<times> string) list" where
  "pairs (n # v # ps) = (n, v) # pairs ps"
| "pairs ps = []"

definition request_params :: "'s vv_fc \<Rightarrow> (string \<times> string) list" where
  "request_params c =
     [(''REQUEST_METHOD'', req_method c), (''SCRIPT_NAME'', app_path c), (''PATH_INFO'', fc_req c @ url_path (payload c))]
     @ (if url_query (payload c) \<noteq> [] then [(''QUERY_STRING'', url_query (payload c))] else [])
     @ (if has_body c then [(''CONTENT_LENGTH'', snprintf_text 30 (decimal_text (fc_content_len c))),
          (''CONTENT_TYPE'', the (fc_content_type c))] else [])
     @ (case fc_env c of None \<Rightarrow> [] | Some ps \<Rightarrow> pairs ps)"

definition request_body :: "'s vv_fc \<Rightarrow> string option" where
  "request_body c = (if has_body c then Some (take (nat (fc_content_len c)) (the (req_body c))) else None)"

section \<open>Its bytes\<close>

definition hdr_bytes :: "int \<Rightarrow> nat \<Rightarrow> string" where
  "hdr_bytes t n = [char_store 1, char_store t, NUL, char_store 1, char_store (int n div 256), char_store (int n mod 256), NUL, NUL]"

definition param_bytes :: "string \<times> string \<Rightarrow> string" where
  "param_bytes = (\<lambda>(n, v). env_length (length n) @ env_length (length v) @ n @ v)"

definition params_bytes :: "'s vv_fc \<Rightarrow> string" where
  "params_bytes c = concat (map param_bytes (request_params c))"

function body_bytes :: "string \<Rightarrow> string" where
  "body_bytes b = (if b = [] then [] else hdr_bytes 5 (min 65527 (length b)) @ take 65527 b @ body_bytes (drop 65527 b))"
  by pat_completeness auto
termination by (relation "measure length") auto

declare body_bytes.simps [simp del]

definition request_bytes :: "'s vv_fc \<Rightarrow> string" where
  "request_bytes c =
     hdr_bytes 1 8 @ begin_request @ hdr_bytes 4 (length (params_bytes c)) @ params_bytes c @ hdr_bytes 4 0
     @ (case request_body c of None \<Rightarrow> [] | Some b \<Rightarrow> body_bytes b @ hdr_bytes 5 0)"

text \<open>A request that can be sent: the environment is made of pairs, the parameters fit into one record, the body has the
  length that is given for it, and the name of a socket is not too long.\<close>

definition sendable :: "'s vv_fc \<Rightarrow> bool" where
  "sendable c \<longleftrightarrow>
     (case fc_env c of None \<Rightarrow> True | Some ps \<Rightarrow> even (length ps)) \<and>
     length (params_bytes c) < 65527 \<and>
     (has_body c \<longrightarrow> 0 \<le> fc_content_len c \<and> nat (fc_content_len c) \<le> length (the (req_body c))) \<and>
     (CHR '':'' \<in> set (fcgi_server c) \<or> length (fcgi_server c) \<le> 108) \<and>
     0 \<le> fc_timeout c \<and> fc_timeout c \<le> 86400"

section \<open>Reading back\<close>

lemma records_Cons:
  assumes "length x < 65536" "0 \<le> t" "t < 256"
  shows "fcgi_records (hdr_bytes t (length x) @ x @ r) = map_option (Cons (t, x)) (fcgi_records r)"
proof -
  have "int (length x) div 256 mod 256 = int (length x) div 256" using assms(1) by simp
  moreover have "uchar NUL = 0" by (simp add: uchar_def)
  ultimately show ?thesis
    using assms by (subst fcgi_records.simps) (simp add: hdr_bytes_def)
qed

lemma records_end: "0 \<le> t \<Longrightarrow> t < 256 \<Longrightarrow> fcgi_records (hdr_bytes t 0 @ r) = map_option (Cons (t, [])) (fcgi_records r)"
  using records_Cons [of "[]"] by simp

lemma four_digits: "b = x * 256 + y \<Longrightarrow> c = b * 256 + z \<Longrightarrow> a = c * 256 + w \<Longrightarrow>
  x * 16777216 + y * 65536 + z * 256 + w = (a::int)"
  by simp

lemma shifted_byte:
  fixes a :: int
  assumes "0 \<le> a" "a < 2147483648"
  shows "((a div 16777216 + 128) mod 256 - 128) * 16777216 + (a div 65536) mod 256 * 65536 + (a div 256) mod 256 * 256 + a mod 256 = a"
proof -
  have "a div 16777216 < 128" "0 \<le> a div 16777216" using assms by auto
  then have t: "(a div 16777216 + 128) mod 256 - 128 = a div 16777216" by simp
  have "a div 65536 = a div 16777216 * 256 + a div 65536 mod 256"
    using div_mult_mod_eq [of "a div 65536" 256] zdiv_zmult2_eq [of 256 a 65536] by simp
  moreover have "a div 256 = a div 65536 * 256 + a div 256 mod 256"
    using div_mult_mod_eq [of "a div 256" 256] zdiv_zmult2_eq [of 256 a 256] by simp
  moreover have "a = a div 256 * 256 + a mod 256" by simp
  ultimately show ?thesis unfolding t by (rule four_digits)
qed

lemma high_bit: "0 \<le> (a::int) \<Longrightarrow> a < 128 \<Longrightarrow> a OR 128 = a + 128"
proof -
  assume a: "0 \<le> a" "a < 128"
  have "a AND 128 = 0"
  proof (rule bit_eqI)
    fix n
    have "bit (128::int) n \<longleftrightarrow> n = 7" using bit_exp_iff [of 7 n, where ?'a = int] by simp
    moreover have "\<not> bit a 7" using a by (simp add: bit_iff_odd)
    ultimately show "bit (a AND 128) n = bit (0::int) n" by (auto simp: bit_and_iff)
  qed
  then show ?thesis using plus_and_or [of a 128] by simp
qed

lemma read_env_length:
  assumes "n < 2147483648"
  shows "read_length (env_length n @ r) = Some (n, r)"
proof (cases "n < 128")
  case True
  then show ?thesis by (simp add: env_length_def)
next
  case False
  let ?a = "int n"
  have l: "?a div 16777216 < 128" "0 \<le> ?a div 16777216" using assms by auto
  then have h: "drop_bit 24 ?a OR 128 = ?a div 16777216 + 128" by (simp add: drop_bit_eq_div high_bit)
  have "uchar (char_store (?a div 16777216 + 128)) = ?a div 16777216 + 128" using l by simp
  then have "\<not> uchar (char_store (?a div 16777216 + 128)) < 128" using l(2) by linarith
  then have "read_length (env_length n @ r) = Some (nat ((uchar (char_store (?a div 16777216 + 128)) - 128) * 16777216
      + uchar (char_store (?a div 65536)) * 65536 + uchar (char_store (?a div 256)) * 256 + uchar (char_store ?a)), r)"
    using False unfolding env_length_def h by (simp add: drop_bit_eq_div del: uchar_char_store)
  moreover have "?a < 2147483648" using assms by simp
  ultimately show ?thesis using shifted_byte [of ?a] unfolding uchar_char_store by (metis nat_int of_nat_0_le_iff)
qed

lemma params_Cons:
  assumes "length n < 2147483648" "length v < 2147483648"
  shows "fcgi_params (param_bytes (n, v) @ r) = map_option (Cons (n, v)) (fcgi_params r)"
proof -
  have "env_length (length n) \<noteq> []" by (simp add: env_length_def)
  then show ?thesis using assms by (subst fcgi_params.simps) (simp add: param_bytes_def read_env_length)
qed

lemma params_read:
  assumes "\<forall>(n, v) \<in> set ps. length n < 2147483648 \<and> length v < 2147483648"
  shows "fcgi_params (concat (map param_bytes ps)) = Some ps"
  using assms
proof (induction ps)
  case Nil
  then show ?case by (simp add: fcgi_params.simps)
next
  case (Cons p ps)
  obtain n v where p: "p = (n, v)" by fastforce
  then have "length n < 2147483648" "length v < 2147483648" "fcgi_params (concat (map param_bytes ps)) = Some ps"
    using Cons by auto
  then show ?case using p by (simp add: params_Cons)
qed

lemma param_lengths:
  assumes "length (concat (map param_bytes ps)) < 65527" "(n, v) \<in> set ps"
  shows "length n < 2147483648 \<and> length v < 2147483648"
proof -
  have "length (param_bytes (n, v)) \<le> length (concat (map param_bytes ps))"
    using assms(2) by (induction ps) auto
  then show ?thesis using assms(1) by (simp add: param_bytes_def)
qed

text \<open>The records of a body.\<close>

function body_records :: "string \<Rightarrow> (int \<times> string) list" where
  "body_records b = (if b = [] then [] else (5, take 65527 b) # body_records (drop 65527 b))"
  by pat_completeness auto
termination by (relation "measure length") auto

declare body_records.simps [simp del]

lemma records_body: "fcgi_records (body_bytes b @ r) = map_option ((@) (body_records b)) (fcgi_records r)"
proof (induction b rule: body_bytes.induct)
  case (1 b)
  show ?case
  proof (cases "b = []")
    case True
    then show ?thesis by (cases "fcgi_records r") (simp_all add: body_bytes.simps body_records.simps)
  next
    case False
    have n: "min 65527 (length b) = length (take 65527 b)" by simp
    have "fcgi_records (body_bytes b @ r)
      = fcgi_records (hdr_bytes 5 (length (take 65527 b)) @ take 65527 b @ body_bytes (drop 65527 b) @ r)"
      using False by (subst body_bytes.simps) (simp only: n if_False append_assoc)
    also have "\<dots> = map_option (Cons (5, take 65527 b)) (fcgi_records (body_bytes (drop 65527 b) @ r))"
      by (rule records_Cons) auto
    also have "\<dots> = map_option ((@) (body_records b)) (fcgi_records r)"
      using 1 False by (cases "fcgi_records r") (simp_all add: body_records.simps [of b])
    finally show ?thesis .
  qed
qed

lemma read_body: "read_stream 5 (body_records b @ (5, []) # rs) = Some (b, rs)"
proof (induction b rule: body_records.induct)
  case (1 b)
  show ?case
  proof (cases "b = []")
    case True
    then show ?thesis by (simp add: body_records.simps)
  next
    case False
    then show ?thesis using 1 by (subst body_records.simps) simp
  qed
qed

lemma begin_bytes: "map uchar begin_request = [0, 1, 0, 0, 0, 0, 0, 0]"
  by (simp add: begin_request_def VV_FC_RESPONDER_def uchar_def eval_nat_numeral char_store_def)

theorem server_reads:
  assumes "sendable c"
  shows "server_view (request_bytes c) = Some (request_params c, request_body c)"
proof -
  let ?b = "case request_body c of None \<Rightarrow> [] | Some b \<Rightarrow> body_records b @ [(5, [])]"
  have n: "length (params_bytes c) < 65527" using assms by (simp add: sendable_def)
  then have ps: "fcgi_params (params_bytes c) = Some (request_params c)"
    using param_lengths unfolding params_bytes_def by (intro params_read) blast
  have "length begin_request = 8" by (simp add: begin_request_def)
  then have beg: "fcgi_records (hdr_bytes 1 8 @ begin_request @ r) = map_option (Cons (1, begin_request)) (fcgi_records r)" for r
    using records_Cons [of begin_request 1 r] by simp
  have "fcgi_records (case request_body c of None \<Rightarrow> [] | Some b \<Rightarrow> body_bytes b @ hdr_bytes 5 0) = Some ?b"
    using records_end [of 5 "[]"] by (cases "request_body c") (simp_all add: records_body fcgi_records.simps [of "[]"])
  then have rs: "fcgi_records (request_bytes c) = Some ((1, begin_request) # (4, params_bytes c) # (4, []) # ?b)"
    using n by (simp add: request_bytes_def beg records_Cons records_end)
  have "params_bytes c \<noteq> []"
    by (simp add: params_bytes_def request_params_def param_bytes_def)
  then show ?thesis
    using ps begin_bytes read_body by (cases "request_body c") (simp_all add: server_view_def rs)
qed

end
