(* ===== verification/FcgiWrite.thy ===== *)
theory FcgiWrite
  imports FcgiSend
begin

text \<open>The bytes of a request are those that the client sends, in any number of writes.\<close>

section \<open>The payload of the URL\<close>

lemma question_loop_length: "question_loop b p = p + length (takeWhile (\<lambda>c. c \<noteq> CHR ''?'') b)"
  by (induction b p rule: question_loop.induct) auto

lemma slash_loop_none: "CHR ''/'' \<notin> set q \<Longrightarrow> n \<le> length q \<Longrightarrow> slash_loop q n = 0"
  by (induction n) (auto simp: cat_def in_set_conv_nth)

lemma slash_loop_last:
  assumes "CHR ''/'' \<notin> set b" "k \<le> length b"
  shows "slash_loop (a @ CHR ''/'' # b) (length a + 1 + k) = length a + 1 + length (takeWhile (\<lambda>c. c \<noteq> CHR ''?'') b)"
  using assms(2)
proof (induction k)
  case 0
  then show ?case by (simp add: question_loop_length cat_def)
next
  case (Suc k)
  have "cat (a @ CHR ''/'' # b) (length a + 1 + k) = b ! k" using Suc.prems by (simp add: cat_def nth_append)
  moreover have "b ! k \<noteq> CHR ''/''" using assms(1) Suc.prems nth_mem by (metis Suc_le_lessD)
  ultimately show ?case using Suc by simp
qed

lemma after_last_slash: 
  assumes "CHR ''/'' \<notin> set b"
  shows "after_slash (a @ CHR ''/'' # b) = b"
proof -
  have "takeWhile (\<lambda>c. c \<noteq> CHR ''/'') (rev b @ CHR ''/'' # rev a) = rev b @ takeWhile (\<lambda>c. c \<noteq> CHR ''/'') (CHR ''/'' # rev a)"
    by (rule takeWhile_append2) (use assms in auto)
  then show ?thesis by (simp add: after_slash_def)
qed

lemma slash_loop_path:
  "slash_loop q (length q) = length (url_path q)" "take (length (url_path q)) q = url_path q"
  "url_path q \<noteq> [] \<Longrightarrow> url_query q = (if length (url_path q) < length q then drop (length (url_path q) + 1) q else [])"
  "url_path q = [] \<Longrightarrow> url_query q = q"
proof -
  have "slash_loop q (length q) = length (url_path q) \<and> take (length (url_path q)) q = url_path q \<and>
    (url_path q \<noteq> [] \<longrightarrow> url_query q = (if length (url_path q) < length q then drop (length (url_path q) + 1) q else [])) \<and>
    (url_path q = [] \<longrightarrow> url_query q = q)"
  proof (cases "CHR ''/'' \<in> set q")
    case False
    then show ?thesis by (simp add: slash_loop_none url_path_def url_query_def)
  next
    case True
    obtain a b where q: "q = a @ CHR ''/'' # b" "CHR ''/'' \<notin> set b" using split_list_last [OF True] by blast
    let ?w = "takeWhile (\<lambda>c. c \<noteq> CHR ''?'') b"
    have p: "url_path q = a @ CHR ''/'' # ?w" using q by (simp add: url_path_def after_last_slash)
    have u: "url_query q = drop 1 (dropWhile (\<lambda>c. c \<noteq> CHR ''?'') b)" using q by (simp add: url_query_def after_last_slash)
    have "take (length ?w) b = ?w" by (metis append_eq_conv_conj takeWhile_dropWhile_id)
    moreover have "dropWhile (\<lambda>c. c \<noteq> CHR ''?'') b = drop (length ?w) b" by (rule dropWhile_eq_drop)
    ultimately show ?thesis
      using slash_loop_last [OF q(2), of "length b" a] q(1) unfolding p u by (simp add: drop_drop not_less)
  qed
  then show "slash_loop q (length q) = length (url_path q)" "take (length (url_path q)) q = url_path q"
    "url_path q \<noteq> [] \<Longrightarrow> url_query q = (if length (url_path q) < length q then drop (length (url_path q) + 1) q else [])"
    "url_path q = [] \<Longrightarrow> url_query q = q"
    by blast+
qed

lemma total_alloc:
  assumes "peer S sent inbox" "\<And>s. quiet sent inbox (sys l) s \<Longrightarrow> Q True (l\<lparr>sys := s\<rparr>)"
  shows "total (fc_alloc S n) Q l"
proof (cases "sys_memory S n (sys l)")
  case (Pair a s)
  then have "a" "quiet sent inbox (sys l) s"
    using peerD(8) [OF assms(1), of n "sys l"] peerD(9) [OF assms(1), of "sys l" n] by auto
  then show ?thesis using Pair assms(2) by (simp add: fc_alloc_def total_lift fc_sys_def)
qed

definition query_of :: "'s fc_local \<Rightarrow> string" where
  "query_of l = (case fc_query_string l of None \<Rightarrow> [] | Some q \<Rightarrow> q)"

lemma has_query_of: "has_query l \<longleftrightarrow> query_of l \<noteq> []" "has_query l \<Longrightarrow> the (fc_query_string l) = query_of l"
  by (auto simp: has_query_def query_of_def split: option.splits)

lemma parse_payload_text:
  assumes "fc_query_string l = Some p" "p \<noteq> []"
  shows "parse_payload S m n l =
         (let l_payload = slash_loop p (length p) in
          if l_payload > 0 then
            (let q1 = (if l_payload < length p then drop (l_payload + 1) p else []) in
             fc_bind (fc_do (\<lambda>l. l\<lparr>just_query_path := True\<rparr>)) (\<lambda>_.
             fc_bind (fc_alloc S (length q1 + 1)) (\<lambda>good.
               if \<not> good then fc_bind (fc_do (\<lambda>l. shut_sock S (l\<lparr>fc_query_string := None\<rparr>)))
                 (\<lambda>_. fc_return (VV_FC_ERR_OUT_MEM, length q1, n))
               else
                 fc_bind (fc_do (\<lambda>l. l\<lparr>fc_query_string := Some q1\<rparr>)) (\<lambda>_.
                 fc_bind (fc_alloc S (n + l_payload + 1)) (\<lambda>good.
                   if \<not> good then fc_bind (fc_do (shut_sock S))
                     (\<lambda>_. fc_return (VV_FC_ERR_OUT_MEM, length q1, n + l_payload))
                   else fc_bind (fc_do (\<lambda>l. l\<lparr>fc_path_info := take n (fc_path_info l) @ take l_payload p,
                       path_owned := True\<rparr>))
                     (\<lambda>_. fc_return (VV_OKAY, length q1, n + l_payload)))))))
          else fc_return (VV_OKAY, length p, n)) l"
proof -
  obtain c cs where p: "p = c # cs" using assms(2) by (cases p) auto
  show ?thesis unfolding parse_payload_def fc_get_def assms(1) p option.case list.case ..
qed

lemma total_payload:
  assumes P: "peer S sent inbox" and l: "\<not> just_query_path l" "fc_path_info l = req"
    and Q: "\<And>j q s. quiet sent inbox (sys l) s \<Longrightarrow> query_of (l\<lparr>fc_query_string := q\<rparr>) = url_query (query_of l) \<Longrightarrow>
      Q (VV_OKAY, length (url_query (query_of l)), length (req @ url_path (query_of l)))
        (l\<lparr>just_query_path := j, fc_query_string := q, sys := s, fc_path_info := req @ url_path (query_of l),
          path_owned := path_owned l \<or> j\<rparr>)"
  shows "total (parse_payload S 0 (length req)) Q l"
proof -
  have same: "l\<lparr>just_query_path := False, fc_path_info := req\<rparr> = l" using l by (cases l) simp
  show ?thesis
proof (cases "fc_query_string l = None \<or> fc_query_string l = Some []")
  case True
  then have "query_of l = []" by (auto simp: query_of_def)
  moreover have "url_path [] = []" "url_query [] = []" by (simp_all add: url_path_def url_query_def)
  ultimately have "Q (VV_OKAY, 0, length req) l"
    using Q [of "sys l" "fc_query_string l" False] l same by (simp add: query_of_def)
  then show ?thesis using True by (auto simp: parse_payload_def totals)
next
  case False
  then obtain c cs where q: "fc_query_string l = Some (c # cs)" by (metis list.exhaust not_Some_eq)
  define p where "p = c # cs"
  have p: "fc_query_string l = Some p" and qp: "query_of l = p" "p \<noteq> []" using q by (simp_all add: query_of_def p_def)
  show ?thesis
  proof (cases "url_path p = []")
    case True
    have "query_of (l\<lparr>fc_query_string := fc_query_string l\<rparr>) = url_query (query_of l)"
      using qp slash_loop_path(4) [OF True] by simp
    then have "Q (VV_OKAY, length p, length req) l"
      using Q [of "sys l" "fc_query_string l" False] l same qp True slash_loop_path(4) [OF True] by simp
    then show ?thesis
      using True p qp(2) unfolding total_def parse_payload_text [OF p qp(2)]
      by (simp add: fc_return_def slash_loop_path(1))
  next
    case some: False
    let ?u = "if length (url_path p) < length p then drop (length (url_path p) + 1) p else []"
    have u: "url_query p = ?u" by (rule slash_loop_path(3) [OF some])
    have "Q (VV_OKAY, length ?u, length req + length (url_path p)) (l\<lparr>just_query_path := True,
        fc_query_string := Some ?u, sys := s2, fc_path_info := req @ url_path p, path_owned := True\<rparr>)"
      if "quiet sent inbox (sys l) s" "quiet sent inbox s s2" for s s2
      using Q [of s2 "Some ?u" True] that l qp u quiet_trans [OF that] by (simp add: query_of_def)
    then show ?thesis
      using some l unfolding total_def parse_payload_text [OF p qp(2)]
      unfolding Let_def slash_loop_path(1) total_def [symmetric]
      by (auto simp: totals slash_loop_path(2) intro!: total_alloc [OF P])
  qed
qed
qed

section \<open>The parameters\<close>

lemma env_length_size: "length (env_length n) = (if n < 128 then 1 else 4)"
  by (simp add: env_length_def)

lemma total_size_env:
  assumes "param_len l + int (length (param_bytes (n, v))) \<le> INT_MAX"
    "Q () (l\<lparr>param_len := param_len l + int (length (param_bytes (n, v)))\<rparr>)"
  shows "total (vv_size_env (length n) (length v)) Q l"
proof -
  have "param_len l + (if length n < 128 then 1 else 4) + (if length v < 128 then 1 else 4) + int (length n) + int (length v)
    = param_len l + int (length (param_bytes (n, v)))"
    by (simp add: param_bytes_def env_length_size)
  then show ?thesis using assms by (simp only: vv_size_env_def total_get Let_def not_less [symmetric] if_False total_do simp_thms)
qed

abbreviation params_size :: "(string \<times> string) list \<Rightarrow> int" where
  "params_size ps \<equiv> int (length (concat (map param_bytes ps)))"

definition pair_lengths :: "(string \<times> string) list \<Rightarrow> (nat \<times> nat) list" where
  "pair_lengths = map (\<lambda>(n, v). (length n, length v))"

lemma total_size_pairs:
  assumes "param_len l + params_size (pairs ps) \<le> INT_MAX"
    "Q () (l\<lparr>param_len := param_len l + params_size (pairs ps), env_lens := env_lens l @ pair_lengths (pairs ps)\<rparr>)"
  shows "total (size_pairs ps) Q l"
  using assms
proof (induction ps arbitrary: l rule: pairs.induct)
  case (1 n v ps)
  then show ?case
    by (auto simp: totals pair_lengths_def add.assoc intro!: total_size_env)
qed (simp_all add: totals pair_lengths_def)

text \<open>What was written of the parameters.\<close>

definition filled :: "string \<Rightarrow> nat \<Rightarrow> string \<Rightarrow> nat \<Rightarrow> bool" where
  "filled mem p b m \<longleftrightarrow> take p mem = b \<and> p = length b \<and> length mem = m"

lemma total_env_put:
  assumes "filled (fc_env_mem l) (env_p l) b m" "length b + length x \<le> m"
    "\<And>mem p. filled mem p (b @ x) m \<Longrightarrow> Q () (l\<lparr>fc_env_mem := mem, env_p := p\<rparr>)"
  shows "total (env_put x) Q l"
proof -
  let ?mem = "take (env_p l) (fc_env_mem l) @ x @ drop (env_p l + length x) (fc_env_mem l)"
  have "memput (fc_env_mem l) (env_p l) x = Inr ?mem" using assms(1,2) by (simp add: memput_def filled_def)
  moreover have "filled ?mem (env_p l + length x) (b @ x) m" using assms(1,2) by (auto simp: filled_def)
  ultimately show ?thesis using assms(3) by (simp add: env_put_def totals)
qed

lemma total_send_env:
  assumes "filled (fc_env_mem l) (env_p l) b m" "length b + length (param_bytes (n, v)) \<le> m"
    "\<And>mem p. filled mem p (b @ param_bytes (n, v)) m \<Longrightarrow> Q () (l\<lparr>fc_env_mem := mem, env_p := p\<rparr>)"
  shows "total (vv_send_env n (length n) v (length v)) Q l"
proof -
  let ?h = "env_length (length n) @ env_length (length v)"
  have "total (env_put ?h) (\<lambda>_. total (env_put n) (\<lambda>_. total (env_put v) Q)) l"
  proof (rule total_env_put [OF assms(1)])
    fix mem p assume 1: "filled mem p (b @ ?h) m"
    show "total (env_put n) (\<lambda>_. total (env_put v) Q) (l\<lparr>fc_env_mem := mem, env_p := p\<rparr>)"
    proof (rule total_env_put)
      show "filled (fc_env_mem (l\<lparr>fc_env_mem := mem, env_p := p\<rparr>)) (env_p (l\<lparr>fc_env_mem := mem, env_p := p\<rparr>)) (b @ ?h) m"
        using 1 by simp
      fix mem2 p2 assume 2: "filled mem2 p2 ((b @ ?h) @ n) m"
      show "total (env_put v) Q (l\<lparr>fc_env_mem := mem, env_p := p, fc_env_mem := mem2, env_p := p2\<rparr>)"
        using 2 assms(2,3) by (intro total_env_put [of _ "(b @ ?h) @ n" m]) (auto simp: param_bytes_def)
    qed (use assms(2) in \<open>simp add: param_bytes_def\<close>)
  qed (use assms(2) in \<open>simp add: param_bytes_def\<close>)
  then show ?thesis by (simp add: vv_send_env_def totals)
qed

text \<open>Parameters one after the other.\<close>

fun send_all :: "(string \<times> string) list \<Rightarrow> (unit, 's) fc_act" where
  "send_all [] = fc_return ()"
| "send_all ((n, v) # ps) = fc_bind (vv_send_env n (length n) v (length v)) (\<lambda>_. send_all ps)"

lemma total_send_all:
  assumes "filled (fc_env_mem l) (env_p l) b m" "length b + length (concat (map param_bytes ps)) \<le> m"
    "\<And>mem p. filled mem p (b @ concat (map param_bytes ps)) m \<Longrightarrow> Q () (l\<lparr>fc_env_mem := mem, env_p := p\<rparr>)"
  shows "total (send_all ps) Q l"
  using assms
proof (induction ps arbitrary: l b)
  case Nil
  then show ?case using Nil(3) [of "fc_env_mem l" "env_p l"] by (simp add: totals)
next
  case (Cons a ps)
  obtain n v where a: "a = (n, v)" by fastforce
  have "total (send_all ps) Q (l\<lparr>fc_env_mem := mem, env_p := p\<rparr>)"
    if "filled mem p (b @ param_bytes (n, v)) m" for mem p
    by (rule Cons.IH [of _ "b @ param_bytes (n, v)"]) (use that Cons.prems a in auto)
  then show ?case
    using Cons.prems a by (auto simp: totals intro!: total_send_env [OF Cons.prems(1)])
qed

lemma send_pairs_all: "send_pairs ps (pair_lengths (pairs ps)) = send_all (pairs ps)"
  by (induction ps rule: pairs.induct) (simp_all add: pair_lengths_def)

text \<open>The parameters that the client makes itself.\<close>

definition own_params :: "'s fc_local \<Rightarrow> bool \<Rightarrow> string \<Rightarrow> (string \<times> string) list" where
  "own_params l body clen =
     [(''REQUEST_METHOD'', req_method (fc l)), (''SCRIPT_NAME'', app_path (fc l)), (''PATH_INFO'', fc_path_info l)]
     @ (if query_of l \<noteq> [] then [(''QUERY_STRING'', query_of l)] else [])
     @ (if body then [(''CONTENT_LENGTH'', clen), (''CONTENT_TYPE'', the (fc_content_type (fc l)))] else [])"

fun size_all :: "(string \<times> string) list \<Rightarrow> (unit, 's) fc_act" where
  "size_all [] = fc_return ()"
| "size_all ((n, v) # ps) = fc_bind (vv_size_env (length n) (length v)) (\<lambda>_. size_all ps)"

lemma total_size_all:
  assumes "param_len l + params_size ps \<le> INT_MAX" "Q () (l\<lparr>param_len := param_len l + params_size ps\<rparr>)"
  shows "total (size_all ps) Q l"
  using assms
proof (induction ps arbitrary: l)
  case (Cons a ps)
  obtain n v where a: "a = (n, v)" by fastforce
  have "total (size_all ps) Q (l\<lparr>param_len := param_len l + int (length (param_bytes (n, v)))\<rparr>)"
    by (rule Cons.IH) (use Cons.prems a in \<open>auto simp: add.assoc\<close>)
  then show ?case using Cons.prems a by (auto simp: totals intro!: total_size_env)
qed (simp add: totals)

lemma total_size_params:
  assumes "params_size (own_params l body clen) \<le> INT_MAX"
    "Q () (l\<lparr>param_len := params_size (own_params l body clen)\<rparr>)"
  shows "total (size_params body clen (length (query_of l)) (length (fc_path_info l))) Q l"
proof -
  have "total (size_all (own_params l body clen)) Q (l\<lparr>param_len := 0\<rparr>)" by (rule total_size_all) (use assms in auto)
  then show ?thesis
    by (cases body; cases "query_of l = []")
      (simp_all add: size_params_def own_params_def totals Let_def has_query_of has_query_def query_of_def del: list.size)
qed

lemma send_params_all:
  assumes "total (send_all (own_params l body clen @ (case fc_env (fc l) of None \<Rightarrow> [] | Some ps \<Rightarrow> pairs ps))) Q l"
    "fc_env (fc l) \<noteq> None \<Longrightarrow> env_lens l = pair_lengths (pairs (the (fc_env (fc l))))"
  shows "total (send_params body clen (length (query_of l)) (length (fc_path_info l))) Q l"
  using assms
  by (cases body; cases "query_of l = []"; cases "fc_env (fc l)")
    (simp_all add: send_params_def own_params_def totals Let_def has_query_of send_pairs_all del: list.size)

section \<open>Records\<close>

lemma total_fc_write:
  assumes "peer S sent inbox" "on_time S l" "b \<noteq> []"
    "\<And>r s. sent s = sent (sys l) @ b \<Longrightarrow> inbox s = inbox (sys l) \<Longrightarrow> Q VV_OKAY (l\<lparr>remaining := r, sys := s\<rparr>)"
  shows "total (fc_write S b) Q l" "total (fc_write_body S b) Q l"
  using assms(4) unfolding fc_write_def fc_write_body_def
  by (auto simp: totals moved_def intro!: total_write [OF assms(1-3)])

lemma build_hdr_bytes:
  assumes "fc_req_id l = 1" "0 \<le> n" "n < 65536"
  shows "header_bytes (build_hdr n t l) = hdr_bytes t (nat n)"
proof -
  have a: "x AND 255 = x mod 256" for x :: int using take_bit_eq_mask [of 8 x] take_bit_eq_mod [of 8 x] by (simp add: mask_eq_exp_minus_1)
  have "drop_bit 8 n AND 255 = n div 256" using assms by (simp add: a drop_bit_eq_div)
  then show ?thesis using assms by (simp add: header_bytes_def build_hdr_def hdr_bytes_def VV_FC_VER_1_def a)
qed

lemma hdr_bytes_some [simp]: "hdr_bytes t n \<noteq> []"
  by (simp add: hdr_bytes_def)

text \<open>A body, in records.\<close>

lemma total_body:
  assumes P: "peer S sent inbox"
  shows "on_time S l \<Longrightarrow> fc_req_id l = 1 \<Longrightarrow> nat n \<le> length b \<Longrightarrow>
    (\<And>r s. sent s = sent (sys l) @ body_bytes (take (nat n) b) \<Longrightarrow> inbox s = inbox (sys l) \<Longrightarrow>
      Q VV_OKAY (l\<lparr>remaining := r, sys := s\<rparr>)) \<Longrightarrow>
    total (body_loop S b n) Q l"
proof (induction "nat n" arbitrary: n b l Q rule: less_induct)
  case less
  show ?case
  proof (cases "n > 0")
    case False
    have "l\<lparr>remaining := remaining l, sys := sys l\<rparr> = l" by simp
    then have "Q VV_OKAY l" using less.prems(4) [of "sys l" "remaining l"] False by (simp add: body_bytes.simps)
    then show ?thesis using False by (simp add: body_loop.simps [of S b n] totals)
  next
    case True
    define k where "k = (if n > VV_FC_MAX_LEN - 8 then VV_FC_MAX_LEN - 8 else n)"
    have k: "0 < k" "k \<le> n" "k \<le> 65527" "n = k \<or> k = 65527" using True by (auto simp: k_def VV_FC_MAX_LEN_def)
    have t: "nat k \<le> length b" "take (nat k) b \<noteq> []" using k less.prems(3) by auto
    have bb: "body_bytes (take (nat n) b)
      = hdr_bytes 5 (nat k) @ take (nat k) b @ body_bytes (take (nat (n - k)) (drop (nat k) b))"
    proof -
      have "take (nat n) b \<noteq> []" "min 65527 (length (take (nat n) b)) = nat k" "take 65527 (take (nat n) b) = take (nat k) b"
        "drop 65527 (take (nat n) b) = take (nat (n - k)) (drop (nat k) b)"
        using k less.prems(3) True t by (auto simp: drop_take nat_diff_distrib)
      then show ?thesis by (subst body_bytes.simps) simp
    qed
    have h: "header_bytes (build_hdr k VV_FC_STDIN l) = hdr_bytes 5 (nat k)"
      using build_hdr_bytes [OF less.prems(2)] k by (simp add: VV_FC_STDIN_def)
    have rest: "total (body_loop S (drop (nat k) b) (n - k)) Q (l\<lparr>remaining := r2, sys := s2\<rparr>)"
      if s: "sent s1 = sent (sys l) @ hdr_bytes 5 (nat k)" "inbox s1 = inbox (sys l)"
        "sent s2 = sent s1 @ take (nat k) b" "inbox s2 = inbox s1" for s1 s2 r2
    proof (rule less.hyps)
      show "nat (n - k) < nat n" using k True by simp
      show "on_time S (l\<lparr>remaining := r2, sys := s2\<rparr>)" using less.prems(1) by (simp add: on_time_def)
      show "fc_req_id (l\<lparr>remaining := r2, sys := s2\<rparr>) = 1" using less.prems(2) by simp
      show "nat (n - k) \<le> length (drop (nat k) b)" using k less.prems(3) by auto
      fix r s assume "sent s = sent (sys (l\<lparr>remaining := r2, sys := s2\<rparr>)) @ body_bytes (take (nat (n - k)) (drop (nat k) b))"
        "inbox s = inbox (sys (l\<lparr>remaining := r2, sys := s2\<rparr>))"
      then show "Q VV_OKAY (l\<lparr>remaining := r2, sys := s2, remaining := r, sys := s\<rparr>)"
        using less.prems(4) [of s r] s by (simp add: bb)
    qed
    have "on_time S (l\<lparr>remaining := r, sys := s\<rparr>)" for r s using less.prems(1) by (simp add: on_time_def)
    then have "total (fc_get (\<lambda>l. fc_then (fc_write_body S (header_bytes (build_hdr k VV_FC_STDIN l)))
      (if nat k > length b then fc_fault Out_of_bounds
       else fc_then (fc_write_body S (take (nat k) b)) (body_loop S (drop (nat k) b) (n - k))))) Q l"
      using t rest by (auto simp: totals h intro!: total_fc_write [OF P] less.prems(1))
    then show ?thesis by (subst body_loop.simps) (simp only: Let_def k_def [symmetric] True if_True)
  qed
qed

section \<open>The whole request\<close>

lemma pairs_size:
  assumes "params_size (own_params l body clen @ ps) \<le> INT_MAX"
  shows "params_size (own_params l body clen) \<le> INT_MAX"
  using assms by simp

lemma total_env_sized:
  assumes P: "peer S sent inbox" and ev: "case fc_env (fc l) of None \<Rightarrow> True | Some ps \<Rightarrow> even (length ps)"
    and ps: "ps = (case fc_env (fc l) of None \<Rightarrow> [] | Some xs \<Rightarrow> pairs xs)" "param_len l + params_size ps \<le> INT_MAX"
    and Q: "\<And>s ls. quiet sent inbox (sys l) s \<Longrightarrow>
      (fc_env (fc l) \<noteq> None \<Longrightarrow> ls = env_lens l @ pair_lengths ps) \<Longrightarrow>
      Q VV_OKAY (l\<lparr>sys := s, param_len := param_len l + params_size ps, env_lens := ls\<rparr>)"
  shows "total (size_env S) Q l"
proof (cases "fc_env (fc l)")
  case None
  then show ?thesis using Q [of "sys l" "env_lens l"] ps by (simp add: size_env_def totals)
next
  case (Some xs)
  have "total (size_pairs xs) (\<lambda>_. Q VV_OKAY) (l\<lparr>sys := s2\<rparr>)" if "quiet sent inbox (sys l) s2" for s2
    by (rule total_size_pairs) (use Q [OF that] ps Some in auto)
  then show ?thesis
    using Some ev unfolding size_env_def by (auto simp: totals even_iff_mod_2_eq_zero intro!: total_alloc [OF P] dest: quiet_trans)
qed

lemma total_send_params:
  assumes P: "peer S sent inbox" and l: "on_time S l" "fc_req_id l = 1" "env_lens l = [] @ pair_lengths ps \<or> fc_env (fc l) = None"
    and ps: "ps = (case fc_env (fc l) of None \<Rightarrow> [] | Some xs \<Rightarrow> pairs xs)"
      "param_len l = params_size (own_params l body clen @ ps)" "param_len l < 65527"
    and Q: "\<And>mem p r s. sent s = sent (sys l) @ hdr_bytes 4 (nat (param_len l)) @ concat (map param_bytes (own_params l body clen @ ps))
        @ hdr_bytes 4 0 \<Longrightarrow> inbox s = inbox (sys l) \<Longrightarrow>
      Q VV_OKAY (l\<lparr>fc_env_mem := mem, env_p := p, remaining := r, sys := s\<rparr>)"
  shows "total (fc_send_env S body clen (length (query_of l)) (length (fc_path_info l))) Q l"
proof -
  let ?ps = "own_params l body clen @ ps"
  let ?m = "nat (param_len l)"
  have m: "length (concat (map param_bytes ?ps)) = ?m" "0 \<le> param_len l" using ps(2) by auto
  have ne: "concat (map param_bytes ?ps) \<noteq> []" by (simp add: own_params_def param_bytes_def)
  have h: "header_bytes (build_hdr (param_len l) VV_FC_PARAM l) = hdr_bytes 4 ?m"
    using build_hdr_bytes [OF l(2) m(2)] ps(3) by (simp add: VV_FC_PARAM_def)
  have e: "header_bytes (build_hdr 0 VV_FC_PARAM k) = hdr_bytes 4 0" if "fc_req_id k = 1" for k :: "'a fc_local"
    using build_hdr_bytes [OF that, of 0] by (simp add: VV_FC_PARAM_def)
  have fin: "total (fc_get (\<lambda>l. fc_then (fc_write S (take (env_p l) (fc_env_mem l)))
      (fc_get (\<lambda>l. fc_write S (header_bytes (build_hdr 0 VV_FC_PARAM l)))))) Q (l\<lparr>remaining := r, sys := s, fc_env_mem := mem, env_p := p\<rparr>)"
    if f: "filled mem p (concat (map param_bytes ?ps)) ?m"
      and s: "sent s = sent (sys l) @ hdr_bytes 4 ?m" "inbox s = inbox (sys l)" for mem p r s
  proof -
    have "take p mem = concat (map param_bytes ?ps)" using f unfolding filled_def by blast
    then show ?thesis
      using s ne l Q by (auto simp: totals e on_time_def intro!: total_fc_write [OF P])
  qed
  have put: "total (send_params body clen (length (query_of l)) (length (fc_path_info l)))
      (\<lambda>_. total (fc_get (\<lambda>l. fc_then (fc_write S (take (env_p l) (fc_env_mem l)))
        (fc_get (\<lambda>l. fc_write S (header_bytes (build_hdr 0 VV_FC_PARAM l)))))) Q)
      (l\<lparr>remaining := r, sys := s, fc_env_mem := replicate ?m (sys_junk S), env_p := 0\<rparr>)"
    if s: "sent s = sent (sys l) @ hdr_bytes 4 ?m" "inbox s = inbox (sys l)" for r s
  proof -
    let ?l = "l\<lparr>remaining := r, sys := s, fc_env_mem := replicate ?m (sys_junk S), env_p := 0\<rparr>"
    have same: "query_of ?l = query_of l" "own_params ?l body clen = own_params l body clen"
      by (simp_all add: query_of_def own_params_def)
    show ?thesis
    proof (rule send_params_all [where l = ?l and body = body and clen = clen, unfolded same, simplified])
      show "total (send_all (own_params l body clen @ (case fc_env (fc l) of None \<Rightarrow> [] | Some xs \<Rightarrow> pairs xs)))
        (\<lambda>_. total (fc_get (\<lambda>l. fc_then (fc_write S (take (env_p l) (fc_env_mem l)))
          (fc_get (\<lambda>l. fc_write S (header_bytes (build_hdr 0 VV_FC_PARAM l)))))) Q) ?l"
        unfolding ps(1) [symmetric]
      proof (rule total_send_all [of _ "[]" ?m])
        fix mem p assume "filled mem p ([] @ concat (map param_bytes ?ps)) ?m"
        then show "total (fc_get (\<lambda>l. fc_then (fc_write S (take (env_p l) (fc_env_mem l)))
          (fc_get (\<lambda>l. fc_write S (header_bytes (build_hdr 0 VV_FC_PARAM l)))))) Q (?l\<lparr>fc_env_mem := mem, env_p := p\<rparr>)"
          using fin [OF _ s] by simp
      qed (use m in \<open>simp_all add: filled_def\<close>)
    qed (use l(3) ps(1) in auto)
  qed
  have "\<not> param_len l \<ge> VV_FC_MAX_LEN - 8" using ps(3) by (simp add: VV_FC_MAX_LEN_def)
  then show ?thesis
    using put unfolding fc_send_env_def totals
    by (auto simp: h totals quiet_def intro!: total_fc_write [OF P l(1)] total_alloc [OF P] split del: if_split)
qed

text \<open>Sending keeps what reading needs.\<close>

definition reading :: "'s fc_local \<Rightarrow> bool \<times> int \<times> int \<times> int \<times> bool \<times> timeval \<times> timeval \<times> bool \<times> int" where
  "reading l = (done_header l, msg_remain l, padding_len l, fc_req_id l, read_done l, tout l, begin_time l, interrupted l, errno l)"

definition no_body :: "'s vv_fc \<Rightarrow> 's vv_fc" where
  "no_body c = (if has_body c then c else c\<lparr>fc_content_len := 0, fc_content_type := None\<rparr>)"

lemma total_send:
  assumes P: "peer S sent inbox" and c: "sendable (fc l)" and l: "on_time S l" "fc_req_id l = 1" "env_lens l = []"
    and Q: "\<And>l1. reading l1 = reading l \<Longrightarrow> fc l1 = no_body (fc l) \<Longrightarrow> (just_query_path l1 \<longrightarrow> path_owned l1) \<Longrightarrow>
      sent (sys l1) = sent (sys l) @ hdr_bytes 4 (length (params_bytes (fc l))) @ params_bytes (fc l) @ hdr_bytes 4 0
        @ (case request_body (fc l) of None \<Rightarrow> [] | Some b \<Rightarrow> body_bytes b @ hdr_bytes 5 0) \<Longrightarrow>
      inbox (sys l1) = inbox (sys l) \<Longrightarrow> Q VV_OKAY l1"
  shows "total (fc_send S) Q l"
proof -
  let ?c = "fc l" and ?body = "has_body (fc l)"
  let ?clen = "if ?body then snprintf_text 30 (decimal_text (fc_content_len ?c)) else []"
  let ?path = "fc_req ?c @ url_path (payload ?c)" and ?q = "url_query (payload ?c)"
  let ?ps = "case fc_env ?c of None \<Rightarrow> [] | Some xs \<Rightarrow> pairs xs"
  let ?l0 = "l\<lparr>fc := no_body ?c, just_query_path := False, path_owned := False, fc_query_string := url_payload ?c,
    fc_path_info := fc_req ?c\<rparr>"
  have own: "own_params k ?body ?clen @ ?ps = request_params ?c"
    if "fc k = no_body ?c" "fc_path_info k = ?path" "query_of k = ?q" for k :: "'a fc_local"
    using that by (auto simp: own_params_def request_params_def no_body_def)
  have size: "length (params_bytes ?c) < 65527" using c by (simp add: sendable_def)
  have fcs: "fc_env (no_body ?c) = fc_env ?c" "fc_timeout (no_body ?c) = fc_timeout ?c" "url_payload (no_body ?c) = url_payload ?c"
    "fc_req (no_body ?c) = fc_req ?c" "fc_content_len (no_body ?c) = (if ?body then fc_content_len ?c else 0)"
    by (simp_all add: no_body_def)
  have body: "total (fc_send_body S (if ?body then req_body ?c else None)) Q k"
    if k: "reading k = reading l" "fc k = no_body ?c" "just_query_path k \<longrightarrow> path_owned k" "inbox (sys k) = inbox (sys l)"
      "sent (sys k) = sent (sys l) @ hdr_bytes 4 (length (params_bytes ?c)) @ params_bytes ?c @ hdr_bytes 4 0" for k
  proof (cases ?body)
    case False
    then show ?thesis using k Q [of k] by (simp add: fc_send_body_def totals request_body_def)
  next
    case True
    obtain b where b: "req_body ?c = Some b" using True by (auto simp: has_body_def)
    have on: "on_time S k" "fc_req_id k = 1" using k(1,2) l(1,2) fcs by (auto simp: on_time_def reading_def)
    have e: "header_bytes (build_hdr 0 VV_FC_STDIN j) = hdr_bytes 5 0" if "fc_req_id j = 1" for j :: "'a fc_local"
      using build_hdr_bytes [OF that, of 0] by (simp add: VV_FC_STDIN_def)
    have n: "nat (fc_content_len ?c) \<le> length b" using c True b by (simp add: sendable_def)
    have "total (fc_get (\<lambda>l. fc_write_body S (header_bytes (build_hdr 0 VV_FC_STDIN l)))) Q (k\<lparr>remaining := r, sys := s\<rparr>)"
      if s: "sent s = sent (sys k) @ body_bytes (take (nat (fc_content_len ?c)) b)" "inbox s = inbox (sys k)" for r s
      using on e s k Q True b by (auto simp: totals on_time_def reading_def request_body_def intro!: total_fc_write [OF P])
    then show ?thesis
      using True b k fcs unfolding fc_send_body_def by (auto simp: totals intro!: total_body [OF P on n] split del: if_split)
  qed
  have send: "total (fc_then (size_env S) (fc_then (fc_send_env S ?body ?clen (length ?q) (length ?path))
      (fc_send_body S (if ?body then req_body ?c else None)))) Q (k\<lparr>param_len := params_size (own_params k ?body ?clen)\<rparr>)"
    if k: "reading k = reading l" "fc k = no_body ?c" "just_query_path k \<longrightarrow> path_owned k" "quiet sent inbox (sys l) (sys k)"
      "fc_path_info k = ?path" "query_of k = ?q" "env_lens k = []" for k
  proof -
    let ?o = "own_params k ?body ?clen"
    have o: "?o @ ?ps = request_params ?c" using own k by blast
    then have n: "params_size (?o @ ?ps) = int (length (params_bytes ?c))" unfolding params_bytes_def o by simp
    have on: "on_time S k" "fc_req_id k = 1" using k(1,2) l(1,2) fcs by (auto simp: on_time_def reading_def)
    have env: "total (fc_send_env S ?body ?clen (length ?q) (length ?path))
        (\<lambda>st. if st \<noteq> VV_OKAY then Q st else total (fc_send_body S (if ?body then req_body ?c else None)) Q)
        (k\<lparr>sys := s, param_len := params_size ?o + params_size ?ps, env_lens := ls\<rparr>)" (is "total _ _ ?k")
      if s: "quiet sent inbox (sys k) s" "fc_env ?c \<noteq> None \<Longrightarrow> ls = pair_lengths ?ps" for s ls
    proof -
      have same: "query_of ?k = ?q" "fc_path_info ?k = ?path" "own_params ?k ?body ?clen = ?o" "fc_env (fc ?k) = fc_env ?c"
        using k(2,5,6) fcs by (simp_all add: query_of_def own_params_def)
      have b: "concat (map param_bytes (?o @ ?ps)) = params_bytes ?c" unfolding o params_bytes_def ..
      have "nat (param_len ?k) = length (params_bytes ?c)" using n by simp
      note snd = total_send_params [OF P, of ?k ?ps ?body ?clen, unfolded this same b]
      show ?thesis
      proof (rule snd)
        show "on_time S ?k" "fc_req_id ?k = 1" using on by (simp_all add: on_time_def)
        show "env_lens ?k = [] @ pair_lengths ?ps \<or> fc_env ?c = None" using s(2) by auto
        show "param_len ?k = int (length (params_bytes ?c))" "param_len ?k < 65527" using n size by simp_all
        fix mem p r s1 
        assume s1: "sent s1 = sent (sys ?k) @ hdr_bytes 4 (length (params_bytes ?c)) @ params_bytes ?c @ hdr_bytes 4 0"
          "inbox s1 = inbox (sys ?k)"
        show "(if VV_OKAY \<noteq> VV_OKAY then Q VV_OKAY else total (fc_send_body S (if ?body then req_body ?c else None)) Q)
          (?k\<lparr>fc_env_mem := mem, env_p := p, remaining := r, sys := s1\<rparr>)"
          unfolding simp_thms if_False
          by (rule body) (use s1 s(1) k in \<open>simp_all add: reading_def quiet_def\<close>)
      qed simp
    qed
    have "total (size_env S) (\<lambda>st. if st \<noteq> VV_OKAY then Q st else total (fc_send_env S ?body ?clen (length ?q) (length ?path))
        (\<lambda>st. if st \<noteq> VV_OKAY then Q st else total (fc_send_body S (if ?body then req_body ?c else None)) Q))
      (k\<lparr>param_len := params_size ?o\<rparr>)"
    proof (rule total_env_sized [OF P, where ps = ?ps])
      show "case fc_env (fc (k\<lparr>param_len := params_size ?o\<rparr>)) of None \<Rightarrow> True | Some ps \<Rightarrow> even (length ps)"
        "?ps = (case fc_env (fc (k\<lparr>param_len := params_size ?o\<rparr>)) of None \<Rightarrow> [] | Some xs \<Rightarrow> pairs xs)"
        using c k(2) fcs by (simp_all add: sendable_def)
      show "param_len (k\<lparr>param_len := params_size ?o\<rparr>) + params_size ?ps \<le> INT_MAX"
        using n size by (simp add: INT_MAX_def)
      fix s ls
      let ?k = "k\<lparr>param_len := params_size ?o\<rparr>"
      assume s: "quiet sent inbox (sys ?k) s" "fc_env (fc ?k) \<noteq> None \<Longrightarrow> ls = env_lens ?k @ pair_lengths ?ps"
      have eq: "?k\<lparr>sys := s, param_len := param_len ?k + params_size ?ps, env_lens := ls\<rparr>
        = k\<lparr>sys := s, param_len := params_size ?o + params_size ?ps, env_lens := ls\<rparr>" by simp
      show "(if VV_OKAY \<noteq> VV_OKAY then Q VV_OKAY
          else total (fc_send_env S ?body ?clen (length ?q) (length ?path))
            (\<lambda>st. if st \<noteq> VV_OKAY then Q st else total (fc_send_body S (if ?body then req_body ?c else None)) Q))
        (?k\<lparr>sys := s, param_len := param_len ?k + params_size ?ps, env_lens := ls\<rparr>)"
        unfolding eq simp_thms if_False by (rule env) (use s k(2,7) fcs in simp_all)
    qed
    then show ?thesis unfolding totals .
  qed
  have parsed: "total (fc_bind (size_params ?body ?clen (length ?q) (length ?path)) (\<lambda>_.
      fc_then (size_env S) (fc_then (fc_send_env S ?body ?clen (length ?q) (length ?path))
        (fc_send_body S (if ?body then req_body ?c else None))))) Q k"
    if k: "reading k = reading l" "fc k = no_body ?c" "just_query_path k \<longrightarrow> path_owned k" "quiet sent inbox (sys l) (sys k)"
      "fc_path_info k = ?path" "query_of k = ?q" "env_lens k = []" for k
    unfolding total_bind
  proof (rule total_size_params [of k ?body ?clen, unfolded k(5,6)])
    have "params_size (own_params k ?body ?clen @ ?ps) = int (length (params_bytes ?c))"
      using own [OF k(2,5,6)] unfolding params_bytes_def by simp
    then show "params_size (own_params k ?body ?clen) \<le> INT_MAX" using size by (simp add: INT_MAX_def)
  qed (rule send [OF k])
  have sent: "total (parse_payload S 0 (length (fc_req ?c))) (\<lambda>(rp, query_string_l, path_info_l).
      if rp \<noteq> VV_OKAY then Q rp else total (fc_bind (size_params ?body ?clen query_string_l path_info_l) (\<lambda>_.
        fc_then (size_env S) (fc_then (fc_send_env S ?body ?clen query_string_l path_info_l)
          (fc_send_body S (if ?body then req_body ?c else None))))) Q) ?l0"
  proof (rule total_payload [OF P])
    have q0: "query_of ?l0 = payload ?c" by (simp add: query_of_def payload_def)
    fix j q s assume "quiet sent inbox (sys ?l0) s" "query_of (?l0\<lparr>fc_query_string := q\<rparr>) = url_query (query_of ?l0)"
    then show "(case (VV_OKAY, length (url_query (query_of ?l0)), length (fc_req ?c @ url_path (query_of ?l0))) of
        (rp, query_string_l, path_info_l) \<Rightarrow> if rp \<noteq> VV_OKAY then Q rp
          else total (fc_bind (size_params ?body ?clen query_string_l path_info_l) (\<lambda>_.
            fc_then (size_env S) (fc_then (fc_send_env S ?body ?clen query_string_l path_info_l)
              (fc_send_body S (if ?body then req_body ?c else None))))) Q)
        (?l0\<lparr>just_query_path := j, fc_query_string := q, sys := s, fc_path_info := fc_req ?c @ url_path (query_of ?l0),
          path_owned := path_owned ?l0 \<or> j\<rparr>)"
      unfolding q0 prod.case simp_thms if_False
      by (intro parsed) (use l(3) q0 in \<open>simp_all add: reading_def query_of_def\<close>)
  qed simp_all
  show ?thesis
  proof (cases ?body)
    case True
    then have b: "?body = True" by simp
    show ?thesis using sent unfolding fc_send_def fc_check_body_def Let_def no_body_def b if_True totals by simp
  next
    case False
    then have b: "?body = False" by simp
    show ?thesis using sent unfolding fc_send_def fc_check_body_def Let_def no_body_def b if_False totals by simp
  qed
qed

end
