(* ===== verification/FcgiRead.thy ===== *)
theory FcgiRead
  imports FcgiPeer
begin

text \<open>
  What the FastCGI client makes of the bytes of a server, which may be any: the reply is that of a reader of the records
  one by one (\<open>reply_of\<close>), in whatever pieces the bytes arrive, and the client returns.
\<close>

section \<open>The reply in the bytes of a server\<close>

record reply =
  rdata :: string
  rerror :: string
  rother :: string
  rstatus :: int

definition add_content :: "int \<Rightarrow> string \<Rightarrow> reply \<Rightarrow> reply" where
  "add_content t x R =
     (if t = 6 then R\<lparr>rdata := rdata R @ x\<rparr> else if t = 7 then R\<lparr>rerror := rerror R @ x\<rparr> else R\<lparr>rother := rother R @ x\<rparr>)"

definition content_len :: "string \<Rightarrow> nat" where
  "content_len b = nat (uchar (b ! 5) + 256 * uchar (b ! 4))"

definition padding_of :: "string \<Rightarrow> nat" where
  "padding_of b = nat (uchar (b ! 6))"

text \<open>The content of a record, after its header: what it makes of the reply, and the status with which reading ends, if it
  ends there.\<close>

definition reply_content :: "int \<Rightarrow> string \<Rightarrow> reply \<Rightarrow> reply \<times> int option" where
  "reply_content t x R =
     (if x = [] then (R, if t = 11 then Some VV_FC_ERR_UNK else None)
      else if t = 3 then
        (if length x \<noteq> 8 then (R, Some VV_FC_ERR_PROT_ERR)
         else if uchar (x ! 4) \<noteq> 0 then (R, Some VV_FC_ERR_SRV) else (R\<lparr>rstatus := app_status x\<rparr>, None))
      else (add_content t x R, if t = 11 then Some VV_FC_ERR_UNK else None))"

function reply_of :: "string \<Rightarrow> reply \<Rightarrow> reply \<times> int" where
  "reply_of b R =
     (if length b < 8 then (R, VV_FC_ERR_PROT_ERR)
      else if uchar (b ! 0) \<noteq> 1 then (R, VV_FC_ERR_BAD_VER)
      else if uchar (b ! 3) + 256 * uchar (b ! 2) \<noteq> 1 then (R, VV_FC_ERR_PROT_ERR)
      else (let t = uchar (b ! 1); n = content_len b; p = padding_of b; c = drop 8 b in
        if length c < n then (R, VV_FC_ERR_PROT_ERR)
        else (case reply_content t (take n c) R of
            (R1, Some st) \<Rightarrow> (R1, st)
          | (R1, None) \<Rightarrow>
              if length c < n + p then (R1, VV_FC_ERR_PROT_ERR)
              else if t = 3 \<and> n > 0 then (R1, VV_OKAY)
              else reply_of (drop (n + p) c) R1)))"
  by pat_completeness auto
termination by (relation "measure (\<lambda>(b, R). length b)") auto

declare reply_of.simps [simp del]

section \<open>The buffers\<close>

text \<open>A buffer with a text of a length, and at least \<open>k\<close> bytes more.\<close>

definition buf :: "string option \<Rightarrow> int \<Rightarrow> string \<Rightarrow> nat \<Rightarrow> bool" where
  "buf b n s k \<longleftrightarrow> n = int (length s) \<and> (\<exists>t. b = Some (s @ t) \<and> k \<le> length t)"

lemma buf_mono: "buf b n s k \<Longrightarrow> j \<le> k \<Longrightarrow> buf b n s j"
  by (auto simp: buf_def)

lemma buf_resized: "buf b n s k \<Longrightarrow> 0 \<le> m \<Longrightarrow> buf (resized S b (nat (n + m + 1))) n s (nat m + 1)"
  by (auto simp: buf_def resized_def nat_add_distrib)

lemma buf_put:
  assumes "buf b n s k" "length x \<le> k"
  obtains b1 where "buffer_put b n x = Inr b1" "buf b1 n s k" "buf b1 (n + int (length x)) (s @ x) (k - length x)"
proof -
  obtain t where t: "n = int (length s)" "b = Some (s @ t)" "k \<le> length t" using assms(1) by (auto simp: buf_def)
  then have "buffer_put b n x = Inr (Some (s @ x @ drop (length x) t))"
    using assms(2) by (simp add: buffer_put_def memput_def res_bind_def)
  then show ?thesis using that t assms(2) by (simp add: buf_def)
qed

definition bufs :: "'s vv_fc \<Rightarrow> reply \<Rightarrow> nat \<Rightarrow> nat \<Rightarrow> nat \<Rightarrow> bool" where
  "bufs c R i j k \<longleftrightarrow>
     buf (fc_data c) (data_len c) (rdata R) i \<and> buf (fc_error c) (error_len c) (rerror R) j \<and>
     buf (other c) (other_len c) (rother R) k \<and> req_status c = rstatus R"

section \<open>The call meanwhile\<close>

text \<open>What reading leaves alone, and hooks that do not touch the connection.\<close>

definition same_call :: "('s \<Rightarrow> string) \<Rightarrow> 's fc_local \<Rightarrow> 's fc_local \<Rightarrow> bool" where
  "same_call sent l l1 \<longleftrightarrow>
     tout l1 = tout l \<and> begin_time l1 = begin_time l \<and> fc_req_id l1 = fc_req_id l \<and> interrupted l1 = interrupted l \<and>
     errno l1 = errno l \<and> just_query_path l1 = just_query_path l \<and> path_owned l1 = path_owned l \<and>
     fc_timeout (fc l1) = fc_timeout (fc l) \<and> out_hook (fc l1) = out_hook (fc l) \<and> err_hook (fc l1) = err_hook (fc l) \<and>
     done_hook (fc l1) = done_hook (fc l) \<and> sent (sys l1) = sent (sys l)"

definition quiet_hooks :: "('s \<Rightarrow> string) \<Rightarrow> ('s \<Rightarrow> string) \<Rightarrow> 's vv_fc \<Rightarrow> bool" where
  "quiet_hooks sent inbox c \<longleftrightarrow>
     (\<forall>h b s. out_hook c = Some h \<or> err_hook c = Some h \<longrightarrow> quiet sent inbox s (h b s)) \<and>
     (\<forall>h d e s. done_hook c = Some h \<longrightarrow> quiet sent inbox s (h d e s))"

definition ended :: "('s \<Rightarrow> string) \<Rightarrow> 's fc_local \<Rightarrow> reply \<times> int \<Rightarrow> 's fc_local \<Rightarrow> bool" where
  "ended sent l0 r l \<longleftrightarrow> same_call sent l0 l \<and> bufs (fc l) (fst r) 0 0 0 \<and> read_status (fc l) = snd r"

definition idle :: "'s fc_os \<Rightarrow> ('s \<Rightarrow> string) \<Rightarrow> ('s \<Rightarrow> string) \<Rightarrow> 's fc_local \<Rightarrow> reply \<Rightarrow> 's fc_local \<Rightarrow> bool" where
  "idle S sent inbox l0 R l \<longleftrightarrow>
     same_call sent l0 l \<and> on_time S l \<and> quiet_hooks sent inbox (fc l) \<and> errno l \<noteq> EINTR \<and> fc_req_id l = 1 \<and>
     msg_remain l = 0 \<and> padding_len l = 0 \<and> \<not> read_done l \<and> bufs (fc l) R 1 1 0 \<and> read_status (fc l) = VV_OKAY"

lemma total_read:
  assumes "peer S sent inbox" "on_time S l" "errno l \<noteq> EINTR" "0 < n"
    "\<And>r s. nat n \<le> length (inbox (sys l)) \<Longrightarrow> sent s = sent (sys l) \<Longrightarrow> inbox s = drop (nat n) (inbox (sys l)) \<Longrightarrow>
      Q (n, take (nat n) (inbox (sys l))) (l\<lparr>remaining := r, sys := s\<rparr>)"
    "\<And>r s. length (inbox (sys l)) < nat n \<Longrightarrow> sent s = sent (sys l) \<Longrightarrow> inbox s = [] \<Longrightarrow>
      Q (0, inbox (sys l)) (check_read 0 (l\<lparr>remaining := r, sys := s\<rparr>))"
  shows "total (vv_read_socket S n) Q l"
proof (cases "nat n \<le> length (inbox (sys l))")
  case True
  then obtain l1 where "read_loop S (nat n) [] l = Some ((n, take (nat n) (inbox (sys l))), l1)"
    "moved sent inbox l [] (take (nat n) (inbox (sys l))) l1"
    using read_loop_peer [OF assms(1-3), of "[]" "nat n"] assms(4) by auto
  moreover from this(2) have "\<exists>r s. l1 = l\<lparr>remaining := r, sys := s\<rparr> \<and> sent s = sent (sys l) \<and> inbox s = drop (nat n) (inbox (sys l))"
    unfolding moved_def by (metis append.right_neutral append_take_drop_id same_append_eq)
  ultimately show ?thesis using assms(5) True by (auto simp: total_def vv_read_socket_def)
next
  case False
  then obtain l1 where "read_loop S (nat n) [] l = Some ((0, inbox (sys l)), check_read 0 l1)"
    "moved sent inbox l [] (inbox (sys l)) l1"
    using read_loop_peer [OF assms(1-3), of "[]" "nat n"] assms(4) by auto
  moreover from this(2) have "\<exists>r s. l1 = l\<lparr>remaining := r, sys := s\<rparr> \<and> sent s = sent (sys l) \<and> inbox s = []"
    unfolding moved_def by (metis append.right_neutral append_self_conv)
  ultimately show ?thesis using assms(6) False by (auto simp: total_def vv_read_socket_def)
qed

lemma check_read_end:
  "done_header l \<or> \<not> read_done l \<Longrightarrow> check_read 0 l = l\<lparr>fc := (fc l)\<lparr>read_status := VV_FC_ERR_PROT_ERR\<rparr>\<rparr>"
  by (auto simp: check_read_def)

section \<open>A header\<close>

lemma total_status [totals]: "total (set_status st) Q = (\<lambda>l. Q False (l\<lparr>fc := (fc l)\<lparr>read_status := st\<rparr>\<rparr>))"
  by (simp add: set_status_def totals)

definition pending :: "'s fc_os \<Rightarrow> ('s \<Rightarrow> string) \<Rightarrow> ('s \<Rightarrow> string) \<Rightarrow> 's fc_local \<Rightarrow> reply \<Rightarrow> int \<Rightarrow> nat \<Rightarrow> nat \<Rightarrow> 's fc_local \<Rightarrow> bool" where
  "pending S sent inbox l0 R t n p l \<longleftrightarrow>
     same_call sent l0 l \<and> on_time S l \<and> quiet_hooks sent inbox (fc l) \<and> errno l \<noteq> EINTR \<and> fc_req_id l = 1 \<and>
     done_header l \<and> uchar (ftype (header l)) = t \<and> msg_remain l = int n \<and> padding_len l = int p \<and> \<not> read_done l \<and>
     bufs (fc l) R (if t = 6 then n + 1 else 1) (if t = 7 then n + 1 else 1) (if t = 6 \<or> t = 7 then 0 else n + 1) \<and>
     read_status (fc l) = VV_OKAY"

lemma total_alloc':
  assumes "peer S sent inbox" "\<And>s. quiet sent inbox (sys l) s \<Longrightarrow> Q True (l\<lparr>sys := s\<rparr>)"
  shows "total (fc_alloc S n) Q l"
proof (cases "sys_memory S n (sys l)")
  case (Pair a s)
  then have "a" "quiet sent inbox (sys l) s"
    using peerD(8) [OF assms(1), of n "sys l"] peerD(9) [OF assms(1), of "sys l" n] by auto
  then show ?thesis using Pair assms(2) by (simp add: fc_alloc_def total_lift fc_sys_def)
qed

lemma total_grow:
  assumes P: "peer S sent inbox"
    and b: "bufs (fc l) R 1 1 0" "0 \<le> msg_remain l" "other_len (fc l) + msg_remain l + 1 \<le> INT_MAX"
    and Q: "\<And>c s. quiet sent inbox (sys l) s \<Longrightarrow>
      bufs c R (if uchar (ftype (header l)) = 6 then nat (msg_remain l) + 1 else 1)
        (if uchar (ftype (header l)) = 7 then nat (msg_remain l) + 1 else 1)
        (if uchar (ftype (header l)) = 6 \<or> uchar (ftype (header l)) = 7 then 0 else nat (msg_remain l) + 1) \<Longrightarrow>
      fc_timeout c = fc_timeout (fc l) \<Longrightarrow> out_hook c = out_hook (fc l) \<Longrightarrow> err_hook c = err_hook (fc l) \<Longrightarrow>
      done_hook c = done_hook (fc l) \<Longrightarrow> read_status c = read_status (fc l) \<Longrightarrow> Q True (l\<lparr>sys := s, fc := c\<rparr>)"
  shows "total (grow_reply S) Q l"
proof -
  let ?c = "fc l" and ?t = "uchar (ftype (header l))"
  have bd: "buf (fc_data ?c) (data_len ?c) (rdata R) 1" "buf (fc_error ?c) (error_len ?c) (rerror R) 1"
    "buf (other ?c) (other_len ?c) (rother R) 0" "req_status ?c = rstatus R"
    using b(1) by (auto simp: bufs_def)
  note g = buf_resized [OF bd(1) b(2), of S] buf_resized [OF bd(2) b(2), of S] buf_resized [OF bd(3) b(2), of S]
  have len: "length_add (other_len ?c + msg_remain l) 1 = Inr (other_len ?c + msg_remain l + 1)"
    using b(3) by (simp add: length_add_def)
  consider "?t = 6" | "?t = 7" | "?t \<noteq> 6" "?t \<noteq> 7" by blast
  then show ?thesis
  proof cases
    case 1
    then show ?thesis using bd g unfolding grow_reply_def totals
      by (auto simp: totals Let_def VV_FC_STDOUT_def bufs_def intro!: total_alloc' [OF P] Q)
  next
    case 2
    then show ?thesis using bd g unfolding grow_reply_def totals
      by (auto simp: totals Let_def VV_FC_STDOUT_def VV_FC_STDERR_def bufs_def intro!: total_alloc' [OF P] Q)
  next
    case 3
    then show ?thesis using bd g unfolding grow_reply_def totals
      by (auto simp: totals Let_def VV_FC_STDOUT_def VV_FC_STDERR_def bufs_def len intro!: total_alloc' [OF P] Q)
  qed
qed

lemma total_header:
  assumes P: "peer S sent inbox" and l: "idle S sent inbox l0 R l" "\<not> done_header l"
    and size: "other_len (fc l) + 65536 \<le> INT_MAX"
    and short: "\<And>l1. length (inbox (sys l)) < 8 \<Longrightarrow> ended sent l0 (R, VV_FC_ERR_PROT_ERR) l1 \<Longrightarrow> Q False l1"
    and ver: "\<And>l1. 8 \<le> length (inbox (sys l)) \<Longrightarrow> uchar (inbox (sys l) ! 0) \<noteq> 1 \<Longrightarrow> ended sent l0 (R, VV_FC_ERR_BAD_VER) l1 \<Longrightarrow> Q False l1"
    and id: "\<And>l1. 8 \<le> length (inbox (sys l)) \<Longrightarrow> uchar (inbox (sys l) ! 0) = 1 \<Longrightarrow>
      uchar (inbox (sys l) ! 3) + 256 * uchar (inbox (sys l) ! 2) \<noteq> 1 \<Longrightarrow> ended sent l0 (R, VV_FC_ERR_PROT_ERR) l1 \<Longrightarrow> Q False l1"
    and good: "\<And>l1. 8 \<le> length (inbox (sys l)) \<Longrightarrow> uchar (inbox (sys l) ! 0) = 1 \<Longrightarrow>
      uchar (inbox (sys l) ! 3) + 256 * uchar (inbox (sys l) ! 2) = 1 \<Longrightarrow>
      pending S sent inbox l0 R (uchar (inbox (sys l) ! 1)) (content_len (inbox (sys l))) (padding_of (inbox (sys l))) l1 \<Longrightarrow>
      inbox (sys l1) = drop 8 (inbox (sys l)) \<Longrightarrow> Q True l1"
  shows "total (fc_read_header S) Q l"
proof -
  let ?b = "inbox (sys l)"
  let ?h = "header_of (take 8 ?b)"
  let ?n = "uchar (cont_len_0 ?h) + push_bit 8 (uchar (cont_len_1 ?h))"
  have i: "on_time S l" "errno l \<noteq> EINTR" "quiet_hooks sent inbox (fc l)" "fc_req_id l = 1" "bufs (fc l) R 1 1 0" "same_call sent l0 l"
    "\<not> read_done l" "read_status (fc l) = VV_OKAY"
    using l(1) by (simp_all add: idle_def)
  have weak: "bufs (fc l) R 0 0 0" using i(5) by (auto simp: bufs_def intro: buf_mono)
  have h: "ver ?h = ?b ! 0" "ftype ?h = ?b ! 1" "req_id_1 ?h = ?b ! 2" "req_id_0 ?h = ?b ! 3" "cont_len_1 ?h = ?b ! 4"
    "cont_len_0 ?h = ?b ! 5" "pad_len ?h = ?b ! 6" by (simp_all add: header_of_def)
  have n: "?n = int (content_len ?b)" by (simp add: content_len_def h push_bit_eq_mult algebra_simps)
  have "uchar (?b ! 5) \<le> 255" "uchar (?b ! 4) \<le> 255" by simp_all
  then have nb: "int (content_len ?b) < 65536" unfolding content_len_def by linarith
  show ?thesis unfolding fc_read_header_def total_bind
  proof (rule total_read [OF P i(1,2)])
    fix r s assume s: "length ?b < nat 8" "sent s = sent (sys l)" "inbox s = []"
    have "ended sent l0 (R, VV_FC_ERR_PROT_ERR) (check_read 0 (l\<lparr>remaining := r, sys := s\<rparr>))"
      using s i weak by (simp add: check_read_end ended_def same_call_def bufs_def)
    then show "total (fc_take_header S (0, ?b)) Q (check_read 0 (l\<lparr>remaining := r, sys := s\<rparr>))"
      using short s by (simp add: fc_take_header_def totals)
  next
    fix r s assume s: "nat 8 \<le> length ?b" "sent s = sent (sys l)" "inbox s = drop (nat 8) ?b"
    have le: "8 \<le> length ?b" using s(1) by simp
    have bad: "ended sent l0 (R, st) (l\<lparr>remaining := r, sys := s, header := ?h, fc := (fc l)\<lparr>read_status := st\<rparr>\<rparr>)" for st
      using s i weak by (simp add: ended_def same_call_def bufs_def)
    have grow: "total (grow_reply S) (\<lambda>good. if \<not> good then Q False else (\<lambda>l. Q True (l\<lparr>done_header := True\<rparr>)))
        (l\<lparr>remaining := r, sys := s, header := ?h, msg_remain := ?n, padding_len := uchar (pad_len ?h)\<rparr>)"
      if "uchar (?b ! 0) = 1" "uchar (?b ! 3) + 256 * uchar (?b ! 2) = 1"
      by (rule total_grow [OF P])
        (use s i n nb size that le h in \<open>auto intro!: good simp: pending_def same_call_def on_time_def quiet_hooks_def padding_of_def quiet_def\<close>)
    show "total (fc_take_header S (8, take (nat 8) ?b)) Q (l\<lparr>remaining := r, sys := s\<rparr>)"
    proof (cases "uchar (?b ! 0) = 1 \<and> uchar (?b ! 3) + 256 * uchar (?b ! 2) = 1")
      case True
      then have ok: "uchar (ver ?h) = VV_FC_VER_1" "uchar (req_id_0 ?h) + push_bit 8 (uchar (req_id_1 ?h)) = fc_req_id l"
        using h i(4) by (simp_all add: VV_FC_VER_1_def push_bit_eq_mult mult.commute)
      show ?thesis using grow True ok by (simp add: fc_take_header_def totals Let_def cong: if_cong)
    next
      case False
      then show ?thesis using bad ver [OF le] id [OF le] h i(4)
        by (cases "uchar (?b ! 0) = 1")
          (simp_all add: fc_take_header_def totals Let_def VV_FC_VER_1_def push_bit_eq_mult mult.commute)
    qed
  qed simp
qed

section \<open>A content\<close>

definition after_content :: "'s fc_os \<Rightarrow> ('s \<Rightarrow> string) \<Rightarrow> ('s \<Rightarrow> string) \<Rightarrow> 's fc_local \<Rightarrow> reply \<Rightarrow> int \<Rightarrow> nat \<Rightarrow> bool \<Rightarrow> 's fc_local \<Rightarrow> bool" where
  "after_content S sent inbox l0 R t p d l \<longleftrightarrow>
     same_call sent l0 l \<and> on_time S l \<and> quiet_hooks sent inbox (fc l) \<and> errno l \<noteq> EINTR \<and> fc_req_id l = 1 \<and>
     done_header l \<and> uchar (ftype (header l)) = t \<and> msg_remain l = 0 \<and> padding_len l = int p \<and> read_done l = d \<and>
     bufs (fc l) R 1 1 0 \<and> read_status (fc l) = VV_OKAY"

text \<open>How long texts may get.\<close>

definition fits :: "reply \<Rightarrow> nat \<Rightarrow> bool" where
  "fits R n \<longleftrightarrow> int (length (rdata R) + length (rerror R) + length (rother R) + n) + 65536 \<le> INT_MAX"

definition put_into :: "'s vv_fc \<Rightarrow> int \<Rightarrow> string \<Rightarrow> reply \<Rightarrow> nat \<Rightarrow> nat \<Rightarrow> nat \<Rightarrow> 's vv_fc \<Rightarrow> bool" where
  "put_into c0 t x R i j k c \<longleftrightarrow>
     bufs c R i j k \<and>
     (t = 6 \<longrightarrow> bufs (c\<lparr>data_len := data_len c0 + int (length x)\<rparr>) (add_content t x R) (i - length x) j k) \<and>
     (t = 7 \<longrightarrow> bufs (c\<lparr>error_len := error_len c0 + int (length x)\<rparr>) (add_content t x R) i (j - length x) k) \<and>
     (t \<noteq> 6 \<and> t \<noteq> 7 \<longrightarrow> bufs (c\<lparr>other_len := other_len c0 + int (length x)\<rparr>) (add_content t x R) i j (k - length x)) \<and>
     fc_timeout c = fc_timeout c0 \<and> out_hook c = out_hook c0 \<and> err_hook c = err_hook c0 \<and> done_hook c = done_hook c0 \<and>
     read_status c = read_status c0 \<and> data_len c = data_len c0 \<and> error_len c = error_len c0 \<and> other_len c = other_len c0"

lemma total_put:
  assumes b: "bufs (fc l) R i j k" "length x \<le> (if t = 6 then i else if t = 7 then j else k)"
    and Q: "\<And>c. put_into (fc l) t x R i j k c \<Longrightarrow> Q () (l\<lparr>fc := c\<rparr>)"
  shows "total (put_content t x) Q l"
proof -
  let ?c = "fc l"
  have bd: "buf (fc_data ?c) (data_len ?c) (rdata R) i" "buf (fc_error ?c) (error_len ?c) (rerror R) j"
    "buf (other ?c) (other_len ?c) (rother R) k" "req_status ?c = rstatus R"
    using b(1) by (auto simp: bufs_def)
  consider "t = 6" | "t = 7" | "t \<noteq> 6" "t \<noteq> 7" by blast
  then show ?thesis
  proof cases
    case 1
    then have "length x \<le> i" using b(2) by simp
    then obtain d where "buffer_put (fc_data ?c) (data_len ?c) x = Inr d" "buf d (data_len ?c) (rdata R) i"
      "buf d (data_len ?c + int (length x)) (rdata R @ x) (i - length x)" using buf_put [OF bd(1)] by blast
    then show ?thesis using 1 bd Q [of "?c\<lparr>fc_data := d\<rparr>"]
      by (simp add: put_content_def put_into_def totals VV_FC_STDOUT_def bufs_def add_content_def)
  next
    case 2
    then have "length x \<le> j" using b(2) by simp
    then obtain d where "buffer_put (fc_error ?c) (error_len ?c) x = Inr d" "buf d (error_len ?c) (rerror R) j"
      "buf d (error_len ?c + int (length x)) (rerror R @ x) (j - length x)" using buf_put [OF bd(2)] by blast
    then show ?thesis using 2 bd Q [of "?c\<lparr>fc_error := d\<rparr>"]
      by (simp add: put_content_def put_into_def totals VV_FC_STDOUT_def VV_FC_STDERR_def bufs_def add_content_def)
  next
    case 3
    then have "length x \<le> k" using b(2) by simp
    then obtain d where "buffer_put (other ?c) (other_len ?c) x = Inr d" "buf d (other_len ?c) (rother R) k"
      "buf d (other_len ?c + int (length x)) (rother R @ x) (k - length x)" using buf_put [OF bd(3)] by blast
    then show ?thesis using 3 bd Q [of "?c\<lparr>other := d\<rparr>"]
      by (simp add: put_content_def put_into_def totals VV_FC_STDOUT_def VV_FC_STDERR_def bufs_def add_content_def)
  qed
qed

lemma total_hook:
  assumes "\<And>h s. hk = Some h \<Longrightarrow> quiet sent inbox s (h b s)" "\<And>s. quiet sent inbox (sys l) s \<Longrightarrow> Q () (l\<lparr>sys := s\<rparr>)"
  shows "total (run_hook hk b) Q l"
proof (cases hk)
  case None
  then show ?thesis using assms(2) [of "sys l"] by (simp add: run_hook_def totals)
next
  case (Some h)
  then show ?thesis using assms by (simp add: run_hook_def totals)
qed

lemma total_end_reply:
  assumes l: "bufs (fc l) R 1 1 k" "quiet_hooks sent inbox (fc l)" and x: "length x = nat cnt" "0 < cnt"
    and bad: "\<And>c d st. snd (reply_content 3 x R) = Some st \<Longrightarrow> bufs c R 1 1 k \<Longrightarrow> fc_timeout c = fc_timeout (fc l) \<Longrightarrow>
      out_hook c = out_hook (fc l) \<Longrightarrow> err_hook c = err_hook (fc l) \<Longrightarrow> done_hook c = done_hook (fc l) \<Longrightarrow> read_status c = st \<Longrightarrow>
      Q False (l\<lparr>read_done := d, fc := c\<rparr>)"
    and good: "\<And>c s. snd (reply_content 3 x R) = None \<Longrightarrow> bufs c (fst (reply_content 3 x R)) 1 1 k \<Longrightarrow>
      fc_timeout c = fc_timeout (fc l) \<Longrightarrow>
      out_hook c = out_hook (fc l) \<Longrightarrow> err_hook c = err_hook (fc l) \<Longrightarrow> done_hook c = done_hook (fc l) \<Longrightarrow>
      read_status c = read_status (fc l) \<Longrightarrow> quiet sent inbox (sys l) s \<Longrightarrow> Q True (l\<lparr>read_done := True, fc := c, sys := s\<rparr>)"
  shows "total (end_reply cnt x) Q l"
proof -
  let ?c = "fc l"
  have bd: "buf (fc_data ?c) (data_len ?c) (rdata R) 1" "buf (fc_error ?c) (error_len ?c) (rerror R) 1"
    "buf (other ?c) (other_len ?c) (rother R) k" "req_status ?c = rstatus R"
    using l(1) by (auto simp: bufs_def)
  obtain d where d: "buffer_put (fc_data ?c) (data_len ?c) [NUL] = Inr d" "buf d (data_len ?c) (rdata R) 1"
    using buf_put [OF bd(1), of "[NUL]"] by auto
  obtain e where e: "buffer_put (fc_error ?c) (error_len ?c) [NUL] = Inr e" "buf e (error_len ?c) (rerror R) 1"
    using buf_put [OF bd(2), of "[NUL]"] by auto
  let ?c1 = "?c\<lparr>fc_data := d, fc_error := e\<rparr>"
  have c1: "bufs ?c1 R 1 1 k" using d e bd by (simp add: bufs_def)
  have ne: "x \<noteq> []" using x by auto
  have c8: "cnt \<noteq> 8 \<longleftrightarrow> length x \<noteq> 8" using x by auto
  have same: "l\<lparr>read_done := read_done l, fc := c\<rparr> = l\<lparr>fc := c\<rparr>" for c by simp
  have st: "bufs (?c1\<lparr>read_status := st\<rparr>) R 1 1 k" for st using c1 by (simp add: bufs_def)
  consider "cnt \<noteq> 8" | "cnt = 8" "uchar (x ! 4) \<noteq> 0" | "cnt = 8" "uchar (x ! 4) = 0" by blast
  then show ?thesis
  proof cases
    case 1
    then have r: "snd (reply_content 3 x R) = Some VV_FC_ERR_PROT_ERR" using ne c8 by (simp add: reply_content_def)
    show ?thesis using 1 d e bad [OF r st, where d = "read_done l"] by (simp add: end_reply_def totals same)
  next
    case 2
    then have r: "snd (reply_content 3 x R) = Some VV_FC_ERR_SRV" using ne c8 by (simp add: reply_content_def)
    show ?thesis using 2 d e bad [OF r st, where d = True]
      by (simp add: end_reply_def totals VV_FC_REQ_DONE_def)
  next
    case 3
    let ?c2 = "?c1\<lparr>req_status := app_status x\<rparr>"
    have r: "reply_content 3 x R = (R\<lparr>rstatus := app_status x\<rparr>, None)" using 3 ne c8 by (simp add: reply_content_def)
    have c2: "bufs ?c2 (R\<lparr>rstatus := app_status x\<rparr>) 1 1 k" using c1 by (simp add: bufs_def)
    have "total (run_hook (out_hook ?c) []) (\<lambda>_. Q True) (l\<lparr>read_done := True, fc := ?c2\<rparr>)"
    proof (rule total_hook)
      show "quiet sent inbox s (h [] s)" if "out_hook ?c = Some h" for h s using l(2) that by (simp add: quiet_hooks_def)
      fix s assume "quiet sent inbox (sys (l\<lparr>read_done := True, fc := ?c2\<rparr>)) s"
      then show "Q True (l\<lparr>read_done := True, fc := ?c2, sys := s\<rparr>)" using good [of ?c2 s] c2 r by simp
    qed
    then show ?thesis using 3 d e by (simp add: end_reply_def totals VV_FC_REQ_DONE_def)
  qed
qed

lemma length_adds: "buf b n s k \<Longrightarrow> int (length s) + int m + 65536 \<le> INT_MAX \<Longrightarrow> length_add n (int m) = Inr (n + int m)"
  by (auto simp: buf_def length_add_def)

lemma total_take_content:
  assumes l: "pending S sent inbox l0 R t n p l" "0 < n" "length x = n" "fits R n"
    and bad: "\<And>l1 R1 st. reply_content t x R = (R1, Some st) \<Longrightarrow> t = 3 \<Longrightarrow> ended sent l0 (R1, st) l1 \<Longrightarrow> Q False l1"
    and good: "\<And>l1 R1. fst (reply_content t x R) = R1 \<Longrightarrow> t = 3 \<longrightarrow> snd (reply_content t x R) = None \<Longrightarrow>
      after_content S sent inbox l0 R1 t p (t = 3) l1 \<Longrightarrow> inbox (sys l1) = inbox (sys l) \<Longrightarrow> Q True l1"
  shows "total (fc_take_content t (int n, x)) Q l"
proof -
  have i: "on_time S l" "errno l \<noteq> EINTR" "quiet_hooks sent inbox (fc l)" "fc_req_id l = 1" "same_call sent l0 l" "done_header l"
    "\<not> read_done l" "read_status (fc l) = VV_OKAY" "uchar (ftype (header l)) = t" "padding_len l = int p"
    "bufs (fc l) R (if t = 6 then n + 1 else 1) (if t = 7 then n + 1 else 1) (if t = 6 \<or> t = 7 then 0 else n + 1)"
    using l(1) by (simp_all add: pending_def)
  have ne: "x \<noteq> []" using l(2,3) by auto
  have len: "t = 6 \<Longrightarrow> length_add (data_len (fc l)) (int n) = Inr (data_len (fc l) + int n)"
    "t = 7 \<Longrightarrow> length_add (error_len (fc l)) (int n) = Inr (error_len (fc l) + int n)"
    "length_add (other_len (fc l)) (int n) = Inr (other_len (fc l) + int n)"
    using i(11) l(4) by (auto simp: bufs_def fits_def intro!: length_adds)
  consider (out) "t = 6" | (err) "t = 7" | (fin) "t = 3" | (oth) "t \<noteq> 6" "t \<noteq> 7" "t \<noteq> 3" by blast
  then show ?thesis
  proof cases
    case out
    have "total (put_content 6 x) (\<lambda>_ l. total (fc_res (length_add (data_len (fc l)) (int n))) (\<lambda>k l1.
        total (run_hook (out_hook (fc l)) x) (\<lambda>_ l2. Q True (l2\<lparr>msg_remain := 0\<rparr>)) (l1\<lparr>fc := (fc l1)\<lparr>data_len := k\<rparr>\<rparr>)) l) l"
    proof (rule total_put [OF i(11)])
      fix c assume c: "put_into (fc l) 6 x R (if t = 6 then n + 1 else 1) (if t = 7 then n + 1 else 1) (if t = 6 \<or> t = 7 then 0 else n + 1) c"
      then have "total (run_hook (out_hook c) x) (\<lambda>_ l2. Q True (l2\<lparr>msg_remain := 0\<rparr>)) (l\<lparr>fc := c\<lparr>data_len := data_len c + int n\<rparr>\<rparr>)"
        by (intro total_hook [where sent = sent and inbox = inbox] good)
          (use i out l(3) ne in \<open>auto simp: put_into_def quiet_hooks_def after_content_def same_call_def on_time_def
            quiet_def reply_content_def\<close>)
      then show "total (fc_res (length_add (data_len (fc (l\<lparr>fc := c\<rparr>))) (int n))) (\<lambda>k l1.
        total (run_hook (out_hook (fc (l\<lparr>fc := c\<rparr>))) x) (\<lambda>_ l2. Q True (l2\<lparr>msg_remain := 0\<rparr>))
          (l1\<lparr>fc := (fc l1)\<lparr>data_len := k\<rparr>\<rparr>)) (l\<lparr>fc := c\<rparr>)"
        using c len(1) [OF out] by (simp add: totals put_into_def)
    qed (use out l(3) in simp)
    then show ?thesis using out l(2) by (simp add: fc_take_content_def totals VV_FC_STDOUT_def)
  next
    case err
    have "total (put_content 7 x) (\<lambda>_ l. total (fc_res (length_add (error_len (fc l)) (int n))) (\<lambda>k l1.
        total (run_hook (err_hook (fc l)) x) (\<lambda>_ l2. Q True (l2\<lparr>msg_remain := 0\<rparr>)) (l1\<lparr>fc := (fc l1)\<lparr>error_len := k\<rparr>\<rparr>)) l) l"
    proof (rule total_put [OF i(11)])
      fix c assume c: "put_into (fc l) 7 x R (if t = 6 then n + 1 else 1) (if t = 7 then n + 1 else 1) (if t = 6 \<or> t = 7 then 0 else n + 1) c"
      then have "total (run_hook (err_hook c) x) (\<lambda>_ l2. Q True (l2\<lparr>msg_remain := 0\<rparr>)) (l\<lparr>fc := c\<lparr>error_len := error_len c + int n\<rparr>\<rparr>)"
        by (intro total_hook [where sent = sent and inbox = inbox] good)
          (use i err l(3) ne in \<open>auto simp: put_into_def quiet_hooks_def after_content_def same_call_def on_time_def
            quiet_def reply_content_def\<close>)
      then show "total (fc_res (length_add (error_len (fc (l\<lparr>fc := c\<rparr>))) (int n))) (\<lambda>k l1.
        total (run_hook (err_hook (fc (l\<lparr>fc := c\<rparr>))) x) (\<lambda>_ l2. Q True (l2\<lparr>msg_remain := 0\<rparr>))
          (l1\<lparr>fc := (fc l1)\<lparr>error_len := k\<rparr>\<rparr>)) (l\<lparr>fc := c\<rparr>)"
        using c len(2) [OF err] by (simp add: totals put_into_def)
    qed (use err l(3) in simp)
    then show ?thesis using err l(2) by (simp add: fc_take_content_def totals VV_FC_STDOUT_def VV_FC_STDERR_def)
  next
    case oth
    have "total (put_content t x) (\<lambda>_ l. total (fc_res (length_add (other_len (fc l)) (int n)))
        (\<lambda>k l1. Q True (l1\<lparr>fc := (fc l1)\<lparr>other_len := k\<rparr>, msg_remain := 0\<rparr>)) l) l"
    proof (rule total_put [OF i(11)])
      fix c assume c: "put_into (fc l) t x R (if t = 6 then n + 1 else 1) (if t = 7 then n + 1 else 1) (if t = 6 \<or> t = 7 then 0 else n + 1) c"
      then have "Q True (l\<lparr>fc := c\<lparr>other_len := other_len c + int n\<rparr>, msg_remain := 0\<rparr>)"
        by (intro good) (use i oth l(3) ne in \<open>auto simp: put_into_def quiet_hooks_def after_content_def same_call_def on_time_def
            reply_content_def bufs_def elim: buf_mono\<close>)
      then show "total (fc_res (length_add (other_len (fc (l\<lparr>fc := c\<rparr>))) (int n)))
        (\<lambda>k l1. Q True (l1\<lparr>fc := (fc l1)\<lparr>other_len := k\<rparr>, msg_remain := 0\<rparr>)) (l\<lparr>fc := c\<rparr>)"
        using c len(3) by (simp add: totals put_into_def)
    qed (use oth l(3) in simp)
    then show ?thesis using oth l(2)
      by (simp add: fc_take_content_def totals VV_FC_STDOUT_def VV_FC_STDERR_def VV_FC_END_REQ_def)
  next
    case fin
    have "total (put_content 3 x) (\<lambda>_. total (end_reply (int n) x)
        (\<lambda>good. if \<not> good then Q False else (\<lambda>l. Q True (l\<lparr>msg_remain := 0\<rparr>)))) l"
    proof (rule total_put [OF i(11)])
      fix c assume c: "put_into (fc l) 3 x R (if t = 6 then n + 1 else 1) (if t = 7 then n + 1 else 1) (if t = 6 \<or> t = 7 then 0 else n + 1) c"
      then have b: "bufs c R 1 1 (n + 1)" using fin by (simp add: put_into_def)
      show "total (end_reply (int n) x) (\<lambda>good. if \<not> good then Q False else (\<lambda>l. Q True (l\<lparr>msg_remain := 0\<rparr>))) (l\<lparr>fc := c\<rparr>)"
      proof (rule total_end_reply [where R = R and k = "n + 1" and sent = sent and inbox = inbox])
        show "bufs (fc (l\<lparr>fc := c\<rparr>)) R 1 1 (n + 1)" "length x = nat (int n)" "0 < int n" using b l by simp_all
        show "quiet_hooks sent inbox (fc (l\<lparr>fc := c\<rparr>))" using i(3) c by (simp add: quiet_hooks_def put_into_def)
      next
        fix c1 d st assume r: "snd (reply_content 3 x R) = Some st" and c1: "bufs c1 R 1 1 (n + 1)" "fc_timeout c1 = fc_timeout (fc (l\<lparr>fc := c\<rparr>))"
          "out_hook c1 = out_hook (fc (l\<lparr>fc := c\<rparr>))" "err_hook c1 = err_hook (fc (l\<lparr>fc := c\<rparr>))" "done_hook c1 = done_hook (fc (l\<lparr>fc := c\<rparr>))"
          "read_status c1 = st"
        have "reply_content t x R = (R, Some st)" using r fin ne by (auto simp: reply_content_def split: if_splits)
        then have "Q False (l\<lparr>fc := c, read_done := d, fc := c1\<rparr>)" using fin
          by (rule bad) (use c c1 i in \<open>auto simp: put_into_def ended_def same_call_def bufs_def elim: buf_mono\<close>)
        then show "(if \<not> False then Q False else (\<lambda>l. Q True (l\<lparr>msg_remain := 0\<rparr>))) (l\<lparr>fc := c, read_done := d, fc := c1\<rparr>)"
          by simp
      next
        fix c1 s assume r: "snd (reply_content 3 x R) = None" and c1: "bufs c1 (fst (reply_content 3 x R)) 1 1 (n + 1)"
          "fc_timeout c1 = fc_timeout (fc (l\<lparr>fc := c\<rparr>))" "out_hook c1 = out_hook (fc (l\<lparr>fc := c\<rparr>))"
          "err_hook c1 = err_hook (fc (l\<lparr>fc := c\<rparr>))" "done_hook c1 = done_hook (fc (l\<lparr>fc := c\<rparr>))"
          "read_status c1 = read_status (fc (l\<lparr>fc := c\<rparr>))" "quiet sent inbox (sys (l\<lparr>fc := c\<rparr>)) s"
        have "Q True (l\<lparr>fc := c, read_done := True, fc := c1, sys := s, msg_remain := 0\<rparr>)"
          by (rule good [OF refl])
            (use r c c1 i fin in \<open>auto simp: put_into_def after_content_def same_call_def on_time_def quiet_hooks_def quiet_def bufs_def elim: buf_mono\<close>)
        then show "(if \<not> True then Q False else (\<lambda>l. Q True (l\<lparr>msg_remain := 0\<rparr>))) (l\<lparr>fc := c, read_done := True, fc := c1, sys := s\<rparr>)"
          by simp
      qed
    qed (use fin l(3) in simp)
    then show ?thesis using fin l(2)
      by (simp add: fc_take_content_def totals VV_FC_STDOUT_def VV_FC_STDERR_def VV_FC_END_REQ_def cong: if_cong)
  qed
qed

section \<open>A record\<close>

lemma pending_empty: "pending S sent inbox l0 R t 0 p l \<Longrightarrow> after_content S sent inbox l0 R t p False l"
  by (auto simp: pending_def after_content_def bufs_def elim: buf_mono)

text \<open>The end of the bytes in a content or in padding.\<close>

lemma total_content_end:
  assumes l: "pending S sent inbox l0 R t n p l" "length x < n" and that: "sent s = sent (sys l)"
    and bad: "\<And>l1. ended sent l0 (R, VV_FC_ERR_PROT_ERR) l1 \<Longrightarrow> Q False l1"
  shows "total (fc_take_content t (0, x)) Q (check_read 0 (l\<lparr>remaining := r, sys := s\<rparr>))"
proof -
  have i: "same_call sent l0 l" "done_header l"
    "bufs (fc l) R (if t = 6 then n + 1 else 1) (if t = 7 then n + 1 else 1) (if t = 6 \<or> t = 7 then 0 else n + 1)"
    using l(1) by (simp_all add: pending_def)
  have c: "check_read 0 (l\<lparr>remaining := r, sys := s\<rparr>)
    = l\<lparr>remaining := r, sys := s, fc := (fc l)\<lparr>read_status := VV_FC_ERR_PROT_ERR\<rparr>\<rparr>" (is "_ = ?l")
    using i(2) by (simp add: check_read_end)
  have "total (put_content t x) (\<lambda>_. Q False) ?l"
  proof (rule total_put [of _ R "if t = 6 then n + 1 else 1" "if t = 7 then n + 1 else 1" "if t = 6 \<or> t = 7 then 0 else n + 1"])
    fix c assume "put_into (fc ?l) t x R (if t = 6 then n + 1 else 1) (if t = 7 then n + 1 else 1) (if t = 6 \<or> t = 7 then 0 else n + 1) c"
    then show "Q False (?l\<lparr>fc := c\<rparr>)"
      by (intro bad) (use that i in \<open>auto simp: put_into_def ended_def same_call_def bufs_def elim: buf_mono\<close>)
  qed (use i l(2) in \<open>auto simp: bufs_def\<close>)
  then show ?thesis by (simp add: c fc_take_content_def totals)
qed

lemma total_padding:
  assumes P: "peer S sent inbox" and l: "after_content S sent inbox l0 R t p d l"
    and bad: "\<And>l1. length (inbox (sys l)) < p \<Longrightarrow> ended sent l0 (R, VV_FC_ERR_PROT_ERR) l1 \<Longrightarrow> Q False l1"
    and good: "\<And>l1. p \<le> length (inbox (sys l)) \<Longrightarrow> after_content S sent inbox l0 R t 0 d l1 \<Longrightarrow>
      inbox (sys l1) = drop p (inbox (sys l)) \<Longrightarrow> Q True l1"
  shows "total (fc_read_padding S) Q l"
proof -
  have i: "on_time S l" "errno l \<noteq> EINTR" "padding_len l = int p" "done_header l"
    using l by (simp_all add: after_content_def)
  show ?thesis
  proof (cases "p = 0")
    case True
    then show ?thesis using good [of l] l i(3) by (simp add: fc_read_padding_def totals)
  next
    case False
    have "total (vv_read_socket S (int p)) (\<lambda>(cnt, bs). if cnt \<le> 0 then Q False else (\<lambda>l. Q True (l\<lparr>padding_len := 0\<rparr>))) l"
    proof (rule total_read [OF P i(1,2)])
      show "0 < int p" using False by simp
    next
      fix r s assume s: "nat (int p) \<le> length (inbox (sys l))" "sent s = sent (sys l)" "inbox s = drop (nat (int p)) (inbox (sys l))"
      have "Q True (l\<lparr>remaining := r, sys := s, padding_len := 0\<rparr>)"
        by (rule good) (use s l in \<open>auto simp: after_content_def same_call_def on_time_def\<close>)
      then show "(case (int p, take (nat (int p)) (inbox (sys l))) of (cnt, bs) \<Rightarrow> if cnt \<le> 0 then Q False else (\<lambda>l. Q True (l\<lparr>padding_len := 0\<rparr>)))
        (l\<lparr>remaining := r, sys := s\<rparr>)" using False by simp
    next
      fix r s assume s: "length (inbox (sys l)) < nat (int p)" "sent s = sent (sys l)" "inbox s = []"
      have "Q False (check_read 0 (l\<lparr>remaining := r, sys := s\<rparr>))"
        by (rule bad) (use s l i(4) in \<open>auto simp: check_read_end after_content_def ended_def same_call_def bufs_def elim: buf_mono\<close>)
      then show "(case (0, inbox (sys l)) of (cnt, bs) \<Rightarrow> if cnt \<le> (0::int) then Q False else (\<lambda>l. Q True (l\<lparr>padding_len := 0\<rparr>)))
        (check_read 0 (l\<lparr>remaining := r, sys := s\<rparr>))" by simp
    qed
    then show ?thesis using False i(3) by (simp add: fc_read_padding_def totals cong: if_cong)
  qed
qed

text \<open>What follows a content.\<close>

lemma total_after:
  assumes P: "peer S sent inbox" and l: "after_content S sent inbox l0 R t p d l"
    and unk: "\<And>l1. t = 11 \<Longrightarrow> ended sent l0 (R, VV_FC_ERR_UNK) l1 \<Longrightarrow> Q False l1"
    and bad: "\<And>l1. t \<noteq> 11 \<Longrightarrow> length (inbox (sys l)) < p \<Longrightarrow> ended sent l0 (R, VV_FC_ERR_PROT_ERR) l1 \<Longrightarrow> Q False l1"
    and last: "\<And>l1. t \<noteq> 11 \<Longrightarrow> p \<le> length (inbox (sys l)) \<Longrightarrow> d \<Longrightarrow> ended sent l0 (R, VV_OKAY) l1 \<Longrightarrow> read_done l1 \<Longrightarrow> Q True l1"
    and good: "\<And>l1. t \<noteq> 11 \<Longrightarrow> p \<le> length (inbox (sys l)) \<Longrightarrow> \<not> d \<Longrightarrow> idle S sent inbox l0 R l1 \<Longrightarrow> \<not> done_header l1 \<Longrightarrow>
      inbox (sys l1) = drop p (inbox (sys l)) \<Longrightarrow> Q True l1"
  shows "total (if t = VV_FC_UNK_TYPE then set_status VV_FC_ERR_UNK
       else fc_bind (fc_read_padding S) (\<lambda>good. if \<not> good then fc_return False
         else fc_bind (fc_do (\<lambda>l. l\<lparr>done_header := False\<rparr>)) (\<lambda>_. fc_return True))) Q l"
proof (cases "t = 11")
  case True
  have "ended sent l0 (R, VV_FC_ERR_UNK) (l\<lparr>fc := (fc l)\<lparr>read_status := VV_FC_ERR_UNK\<rparr>\<rparr>)"
    using l by (auto simp: after_content_def ended_def same_call_def bufs_def elim: buf_mono)
  then show ?thesis using unk [OF True] True l by (simp add: totals after_content_def VV_FC_UNK_TYPE_def)
next
  case False
  have "total (fc_read_padding S) (\<lambda>good. if \<not> good then Q False else (\<lambda>l. Q True (l\<lparr>done_header := False\<rparr>))) l"
  proof (rule total_padding [OF P l])
    fix l1 assume "p \<le> length (inbox (sys l))" and l1: "after_content S sent inbox l0 R t 0 d l1" "inbox (sys l1) = drop p (inbox (sys l))"
    then have "Q True (l1\<lparr>done_header := False\<rparr>)"
    proof (cases d)
      case True
      then show ?thesis using l1 \<open>p \<le> _\<close> False
        by (intro last) (auto simp: after_content_def ended_def same_call_def bufs_def elim: buf_mono)
    next
      case no: False
      then show ?thesis using l1 \<open>p \<le> _\<close> False
        by (intro good) (auto simp: after_content_def idle_def same_call_def on_time_def)
    qed
    then show "(if \<not> True then Q False else (\<lambda>l. Q True (l\<lparr>done_header := False\<rparr>))) l1" by simp
  qed (use bad False in simp)
  then show ?thesis using False l by (simp add: totals after_content_def VV_FC_UNK_TYPE_def cong: if_cong)
qed

text \<open>A record after its header: the reply and the status at which reading ends, or the reply so far and the bytes that
  follow.\<close>

definition record_result :: "int \<Rightarrow> nat \<Rightarrow> nat \<Rightarrow> string \<Rightarrow> reply \<Rightarrow> reply \<times> int + reply \<times> string" where
  "record_result t n p c R =
     (if length c < n then Inl (R, VV_FC_ERR_PROT_ERR)
      else (case reply_content t (take n c) R of
          (R1, Some st) \<Rightarrow> Inl (R1, st)
        | (R1, None) \<Rightarrow>
            if length c < n + p then Inl (R1, VV_FC_ERR_PROT_ERR)
            else if t = 3 \<and> n > 0 then Inl (R1, VV_OKAY) else Inr (R1, drop (n + p) c)))"

lemma reply_of_record:
  assumes "8 \<le> length b" "uchar (b ! 0) = 1" "uchar (b ! 3) + 256 * uchar (b ! 2) = 1"
  shows "reply_of b R = (case record_result (uchar (b ! 1)) (content_len b) (padding_of b) (drop 8 b) R of
    Inl r \<Rightarrow> r | Inr (R1, c) \<Rightarrow> reply_of c R1)"
proof -
  obtain R1 st where "reply_content (uchar (b ! 1)) (take (content_len b) (drop 8 b)) R = (R1, st)" by fastforce
  then show ?thesis
    using assms unfolding reply_of.simps [of b R] record_result_def Let_def by (cases st) simp_all
qed

lemma total_record:
  assumes P: "peer S sent inbox" and l: "pending S sent inbox l0 R t n p l" "fits R (length (inbox (sys l)))"
    and fin: "\<And>l1 r g. record_result t n p (inbox (sys l)) R = Inl r \<Longrightarrow> ended sent l0 r l1 \<Longrightarrow> g \<longrightarrow> read_done l1 \<Longrightarrow> Q g l1"
    and again: "\<And>l1 R1 c. record_result t n p (inbox (sys l)) R = Inr (R1, c) \<Longrightarrow> idle S sent inbox l0 R1 l1 \<Longrightarrow> \<not> done_header l1 \<Longrightarrow>
      inbox (sys l1) = c \<Longrightarrow> Q True l1"
  shows "total (fc_read_body S) Q l"
proof -
  let ?b = "inbox (sys l)"
  let ?rest = "if t = VV_FC_UNK_TYPE then set_status VV_FC_ERR_UNK
       else fc_bind (fc_read_padding S) (\<lambda>good. if \<not> good then fc_return False
         else fc_bind (fc_do (\<lambda>l. l\<lparr>done_header := False\<rparr>)) (\<lambda>_. fc_return True))"
  have i: "on_time S l" "errno l \<noteq> EINTR" "msg_remain l = int n" "uchar (ftype (header l)) = t"
    using l(1) by (simp_all add: pending_def)
  have rest: "total (?rest) Q k"
    if k: "after_content S sent inbox l0 R1 t p (t = 3 \<and> n > 0) k" "n \<le> length ?b" "inbox (sys k) = drop n ?b"
      "fst (reply_content t (take n ?b) R) = R1" "t \<noteq> 11 \<longrightarrow> snd (reply_content t (take n ?b) R) = None" for k R1
  proof -
    have u: "reply_content t (take n ?b) R = (R1, if t = 11 then Some VV_FC_ERR_UNK else None)"
      using k(4,5) by (cases "t = 11") (auto simp: reply_content_def prod_eq_iff)
    show ?thesis
    proof (rule total_after [OF P k(1)])
      fix l1 assume "t = 11" "ended sent l0 (R1, VV_FC_ERR_UNK) l1"
      then show "Q False l1" using u k(2) by (intro fin) (simp_all add: record_result_def)
    next
      fix l1 assume "t \<noteq> 11" "length (inbox (sys k)) < p" "ended sent l0 (R1, VV_FC_ERR_PROT_ERR) l1"
      then show "Q False l1" using u k(2,3) by (intro fin) (auto simp add: record_result_def)
    next
      fix l1 assume "t \<noteq> 11" "p \<le> length (inbox (sys k))" "t = 3 \<and> n > 0" "ended sent l0 (R1, VV_OKAY) l1" "read_done l1"
      then show "Q True l1" using u k(2,3) by (intro fin) (auto simp add: record_result_def)
    next
      fix l1 assume "t \<noteq> 11" "p \<le> length (inbox (sys k))" "\<not> (t = 3 \<and> n > 0)" "idle S sent inbox l0 R1 l1" "\<not> done_header l1"
        "inbox (sys l1) = drop p (inbox (sys k))"
      then show "Q True l1" using u k(2,3) by (intro again [of R1 "drop (n + p) ?b"]) (auto simp add: record_result_def add.commute)
    qed
  qed
  show ?thesis
  proof (cases "n = 0")
    case True
    then have "after_content S sent inbox l0 R t p (t = 3 \<and> n > 0) l" using l(1) pending_empty by simp
    then have "total ?rest Q l" using True by (intro rest [of R]) (simp_all add: reply_content_def)
    then show ?thesis using True i(3,4) by (simp add: fc_read_body_def totals cong: if_cong)
  next
    case False
    have "total (vv_read_socket S (int n)) (\<lambda>x. total (fc_take_content t x) (\<lambda>good. if \<not> good then Q False else total ?rest Q)) l"
    proof (rule total_read [OF P i(1,2)])
      show "0 < int n" using False by simp
    next
      fix r s assume s: "length ?b < nat (int n)" "sent s = sent (sys l)" "inbox s = []"
      then show "total (fc_take_content t (0, ?b)) (\<lambda>good. if \<not> good then Q False else total ?rest Q)
          (check_read 0 (l\<lparr>remaining := r, sys := s\<rparr>))"
        by (intro total_content_end [OF l(1)]) (auto intro!: fin simp: record_result_def)
    next
      fix r s assume s: "nat (int n) \<le> length ?b" "sent s = sent (sys l)" "inbox s = drop (nat (int n)) ?b"
      let ?l = "l\<lparr>remaining := r, sys := s\<rparr>"
      have n: "n \<le> length ?b" using s(1) by simp
      have "total (fc_take_content t (int n, take n ?b)) (\<lambda>good. if \<not> good then Q False else total ?rest Q) ?l"
      proof (rule total_take_content)
        show "pending S sent inbox l0 R t n p ?l" using l(1) s(2) by (auto simp: pending_def same_call_def on_time_def)
        show "0 < n" "length (take n ?b) = n" using False n by simp_all
        show "fits R n" using l(2) n by (simp add: fits_def)
      next
        fix l1 R1 st assume "reply_content t (take n ?b) R = (R1, Some st)" "t = 3" "ended sent l0 (R1, st) l1"
        then show "(if \<not> False then Q False else total ?rest Q) l1" using n by (simp add: fin record_result_def)
      next
        fix l1 R1 assume r: "fst (reply_content t (take n ?b) R) = R1" "t = 3 \<longrightarrow> snd (reply_content t (take n ?b) R) = None"
          "after_content S sent inbox l0 R1 t p (t = 3) l1" "inbox (sys l1) = inbox (sys ?l)"
        then have "total ?rest Q l1"
          using n False s(3) by (intro rest [of R1]) (auto simp: reply_content_def split: if_splits)
        then show "(if \<not> True then Q False else total ?rest Q) l1" by simp
      qed
      then show "total (fc_take_content t (int n, take (nat (int n)) ?b)) (\<lambda>good. if \<not> good then Q False else total ?rest Q) ?l"
        by simp
    qed
    then show ?thesis using False i(3,4) unfolding fc_read_body_def fc_read_content_def totals
      by (simp add: totals cong: if_cong split del: if_split)
  qed
qed

section \<open>All records\<close>

lemma total_server_loop: "total (fc_server_read S) Q = total (fc_read_turn S) (\<lambda>again. if again then total (fc_server_read S) Q else Q ())"
proof
  fix l
  show "total (fc_server_read S) Q l = total (fc_read_turn S) (\<lambda>again. if again then total (fc_server_read S) Q else Q ()) l"
    unfolding total_def by (subst fc_server_read.simps) (auto split: option.splits sum.splits)
qed

lemma total_turn: "total (fc_read_turn S) Q l
  = total (if done_header l then fc_read_body S else fc_read_header S) (\<lambda>g l. Q (g \<and> \<not> read_done l) l) l"
  by (simp add: fc_read_turn_def totals)

lemma fits_step:
  assumes "fits R (length b)" "8 \<le> length b" "record_result t n p (drop 8 b) R = Inr (R1, c)"
  shows "fits R1 (length c)" "length c < length b"
proof -
  have "length c < length b \<and> fits R1 (length c)"
    using assms unfolding record_result_def reply_content_def add_content_def fits_def
    by (auto split: if_splits simp: Let_def)
  then show "fits R1 (length c)" "length c < length b" by simp_all
qed

lemma total_server_read:
  assumes P: "peer S sent inbox"
  shows "idle S sent inbox l0 R l \<Longrightarrow> \<not> done_header l \<Longrightarrow> fits R (length (inbox (sys l))) \<Longrightarrow>
    total (fc_server_read S) (\<lambda>_. ended sent l0 (reply_of (inbox (sys l)) R)) l"
proof (induction "length (inbox (sys l))" arbitrary: l R rule: less_induct)
  case less
  let ?b = "inbox (sys l)" and ?Q = "\<lambda>_. ended sent l0 (reply_of (inbox (sys l)) R)"
  let ?go = "\<lambda>again. if again then total (fc_server_read S) ?Q else ?Q ()"
  have i: "\<not> read_done l" "bufs (fc l) R 1 1 0" using less.prems(1) by (simp_all add: idle_def)
  have "total (fc_read_header S) (\<lambda>g l. ?go (g \<and> \<not> read_done l) l) l"
  proof (rule total_header [OF P less.prems(1,2)])
    show "other_len (fc l) + 65536 \<le> INT_MAX" using i(2) less.prems(3) by (auto simp: bufs_def buf_def fits_def)
    fix l1 assume l1: "8 \<le> length ?b" "uchar (?b ! 0) = 1" "uchar (?b ! 3) + 256 * uchar (?b ! 2) = 1"
      "pending S sent inbox l0 R (uchar (?b ! 1)) (content_len ?b) (padding_of ?b) l1" "inbox (sys l1) = drop 8 ?b"
    note r = reply_of_record [OF l1(1-3), of R]
    have d: "done_header l1" "\<not> read_done l1" using l1(4) by (simp_all add: pending_def)
    have "fits R (length (inbox (sys l1)))" using less.prems(3) by (simp add: l1(5) fits_def)
    then have "total (fc_read_body S) (\<lambda>g l. ?go (g \<and> \<not> read_done l) l) l1"
    proof (rule total_record [OF P l1(4)])
      fix l2 q g assume "record_result (uchar (?b ! 1)) (content_len ?b) (padding_of ?b) (inbox (sys l1)) R = Inl q"
        "ended sent l0 q l2" "g \<longrightarrow> read_done l2"
      then show "?go (g \<and> \<not> read_done l2) l2" using r l1(5) by auto
    next
      fix l2 R1 c assume l2: "record_result (uchar (?b ! 1)) (content_len ?b) (padding_of ?b) (inbox (sys l1)) R = Inr (R1, c)"
        "idle S sent inbox l0 R1 l2" "\<not> done_header l2" "inbox (sys l2) = c"
      note f = fits_step [OF less.prems(3) l1(1) l2(1) [unfolded l1(5)]]
      have "total (fc_server_read S) (\<lambda>_. ended sent l0 (reply_of (inbox (sys l2)) R1)) l2"
        using less.hyps [of l2 R1] f l2 by simp
      then show "?go (True \<and> \<not> read_done l2) l2" using l2 r l1(5) by (simp add: idle_def)
    qed
    then have "total (fc_server_read S) ?Q l1" by (simp add: total_server_loop total_turn d)
    then show "?go (True \<and> \<not> read_done l1) l1" using d by simp
  qed (simp_all add: reply_of.simps)
  then show ?case by (simp add: total_server_loop total_turn less.prems(2))
qed

end
