(* ===== verification/FcgiReply.thy ===== *)
theory FcgiReply
  imports FcgiWrite FcgiRead
begin

text \<open>
  A request of the FastCGI client and its reply, with a system that does its work and a server that may send any bytes:
  the call returns, the server finds the request in what was sent, and the caller has the reply that is in what the server
  sent.
\<close>

section \<open>The start and the end\<close>

text \<open>The clock, if there is a timeout: the call is over before.\<close>

definition in_time :: "'s fc_os \<Rightarrow> 's vv_fc \<Rightarrow> 's \<Rightarrow> bool" where
  "in_time S c s \<longleftrightarrow>
     fc_timeout c = 0 \<or>
     (\<forall>s1. proper (fst (sys_time S s1)) \<and> usecs (fst (sys_time S s1)) < usecs (fst (sys_time S s)) + fc_timeout c * 1000000)"

definition first_reply :: "'s vv_fc \<Rightarrow> reply" where
  "first_reply c = \<lparr>rdata = [], rerror = [], rother = [], rstatus = req_status c\<rparr>"

text \<open>The reply that the caller has.\<close>

definition reply_in :: "'s vv_fc \<Rightarrow> string \<times> string \<times> int" where
  "reply_in c = (buffer_text (fc_data c) (data_len c), buffer_text (fc_error c) (error_len c), req_status c)"

lemma bufs_reply: "bufs c R i j k \<Longrightarrow> reply_in c = (rdata R, rerror R, rstatus R)"
  by (auto simp: bufs_def buf_def reply_in_def buffer_text_def)

text \<open>The call before it reads or writes.\<close>

definition started :: "'s vv_fc \<Rightarrow> 's vv_fc" where
  "started c = c\<lparr>read_status := VV_OKAY, fc_data := Some [NUL], data_len := 0, fc_error := Some [NUL], error_len := 0,
     other := Some [NUL], other_len := 0, fc_done := False, return_code := VV_OKAY\<rparr>"

lemma started_simps:
  "sendable (started c) = sendable c" "request_bytes (started c) = request_bytes c" "params_bytes (started c) = params_bytes c"
  "request_body (started c) = request_body c" "fc_timeout (started c) = fc_timeout c"
  "bufs (started c) (first_reply c) 1 1 0" "fcgi_server (started c) = fcgi_server c" "has_body (started c) = has_body c"
  by (simp_all add: started_def sendable_def request_bytes_def params_bytes_def request_params_def request_body_def
      has_body_def payload_def bufs_def buf_def first_reply_def)

lemma total_start:
  assumes P: "peer S sent inbox" and t: "0 \<le> fc_timeout (fc l)" "fc_timeout (fc l) \<le> 86400"
    and Q: "\<And>l1. quiet sent inbox (sys l) (sys l1) \<Longrightarrow> fc l1 = started (fc l) \<Longrightarrow> sock l1 = -1 \<Longrightarrow> \<not> read_done l1 \<Longrightarrow>
      env_lens l1 = [] \<Longrightarrow> fc_req_id l1 = 1 \<Longrightarrow> \<not> done_header l1 \<Longrightarrow> tout l1 = \<lparr>tv_sec = fc_timeout (fc l), tv_usec = 0\<rparr> \<Longrightarrow>
      \<not> interrupted l1 \<Longrightarrow> begin_time l1 = begin_time l \<Longrightarrow> msg_remain l1 = msg_remain l \<Longrightarrow> padding_len l1 = padding_len l \<Longrightarrow>
      just_query_path l1 = just_query_path l \<Longrightarrow> errno l1 = errno l \<Longrightarrow> Q VV_OKAY l1"
  shows "total (fc_edge_start S (fc_timeout (fc l))) Q l"
proof -
  have arm: "total (fc_arm S (fc_timeout (fc l))) Q k"
    if "fc k = (started (fc l))\<lparr>other_len := other_len (fc l), fc_done := fc_done (fc l), return_code := return_code (fc l)\<rparr>"
      "quiet sent inbox (sys l) (sys k)" "begin_time k = begin_time l" "msg_remain k = msg_remain l" "padding_len k = padding_len l"
      "just_query_path k = just_query_path l" "errno k = errno l" for k
    using that t by (auto simp: fc_arm_def totals vv_check_timeout_def started_def intro!: Q)
  show ?thesis unfolding fc_edge_start_def
    by (auto simp: totals intro!: total_alloc [OF P] arm) (auto simp: started_def dest: quiet_trans)
qed

lemma total_fc_connect:
  assumes P: "peer S sent inbox" and l: "on_time S l"
    and Q: "\<And>k r s. quiet sent inbox (sys l) s \<Longrightarrow> Q VV_OKAY (l\<lparr>sock := k, remaining := r, sys := s\<rparr>)"
  shows "total (fc_connect S inet a) Q l"
proof -
  obtain k s1 where k: "sys_socket S inet (sys l) = (Sys_ok k, s1)" "quiet sent inbox (sys l) s1"
    using P unfolding peer_def by (metis prod.collapse)
  let ?l1 = "l\<lparr>sys := s1, sock := k\<rparr>"
  have "on_time S ?l1" using l by (simp add: on_time_def)
  then obtain l2 where l2: "vv_check_timeout S False ?l1 = (True, l2)" "moved sent inbox ?l1 [] [] l2"
    using check_timeout_peer [OF P] by metis
  obtain l3 where l3: "vv_set_timeout S l2 = (True, l3)" "moved sent inbox l2 [] [] l3"
    using set_timeout_peer [OF P] by metis
  have "moved sent inbox ?l1 [] [] l3" using moved_trans [OF l2(2) l3(2)] by simp
  then obtain r s3 where s3: "l3 = ?l1\<lparr>remaining := r, sys := s3\<rparr>" "quiet sent inbox s1 s3"
    by (auto simp: moved_def quiet_def)
  obtain u s4 where s4: "sys_connect S k a s3 = (Sys_ok u, s4)" "quiet sent inbox s3 s4"
    using P unfolding peer_def by (metis prod.collapse)
  have "Q VV_OKAY (l\<lparr>sock := k, remaining := r, sys := s4\<rparr>)"
    using Q quiet_trans [OF k(2) quiet_trans [OF s3(2) s4(2)]] by simp
  moreover have "l\<lparr>sock := k, remaining := r, sys := s4\<rparr> = l3\<lparr>sys := s4\<rparr>" by (simp add: s3)
  moreover have "sys l3 = s3" "sock l3 = k" by (simp_all add: s3)
  then have "fc_connect S inet a l = Some (Inr (VV_OKAY, l3\<lparr>sys := s4\<rparr>))"
    using k(1) l2(1) l3(1) s4(1)
    by (simp add: fc_connect_def fc_bind_def fc_lift_def fc_do_def fc_return_def fc_errno_def fc_sys_def)
  ultimately show ?thesis by (simp add: total_def)
qed

lemma total_connect:
  assumes P: "peer S sent inbox" and l: "on_time S l" "CHR '':'' \<in> set b \<or> length b \<le> 108"
    and Q: "\<And>k r s. quiet sent inbox (sys l) s \<Longrightarrow> Q VV_OKAY (l\<lparr>sock := k, remaining := r, sys := s\<rparr>)"
  shows "total (vv_connect_socket S b) Q l"
proof -
  have con: "total (fc_connect S inet a) Q (l\<lparr>sock := -1, sys := s\<rparr>)" if "quiet sent inbox (sys l) s" for inet a s
    using l(1) Q quiet_trans [OF that] by (intro total_fc_connect [OF P]) (auto simp: on_time_def)
  show ?thesis
  proof (cases "CHR '':'' \<in> set b")
    case False
    then show ?thesis using con [of "sys l"] l(2) by (simp add: vv_connect_socket_def totals)
  next
    case True
    let ?h = "takeWhile (\<lambda>c. c \<noteq> CHR '':'') b" and ?p = "drop 1 (dropWhile (\<lambda>c. c \<noteq> CHR '':'') b)"
    have "total (fc_bind (fc_lift (fc_sys (sys_resolve S ?h ?p))) (\<lambda>found. case found of
         None \<Rightarrow> fc_return VV_FC_ERR_RESOLVE_ADDR
       | Some addrs \<Rightarrow> (case inet_address addrs of None \<Rightarrow> fc_return VV_FC_ERR_RESOLVE_ADDR
           | Some a \<Rightarrow> fc_connect S True a))) Q (l\<lparr>sock := -1, sys := s\<rparr>)" if s: "quiet sent inbox (sys l) s" for s
    proof -
      obtain as a s1 where a: "sys_resolve S ?h ?p s = (Some as, s1)" "inet_address as = Some a" "quiet sent inbox s s1"
        using P unfolding peer_def by (metis not_None_eq prod.collapse)
      show ?thesis using con [OF quiet_trans [OF s a(3)]] a(1,2) by (simp add: totals fc_sys_def)
    qed
    then show ?thesis using True unfolding vv_connect_socket_def
      by (auto simp: totals intro!: total_alloc [OF P] cong: if_cong)
  qed
qed

text \<open>The end of a call.\<close>

lemma total_ret:
  assumes P: "peer S sent inbox" and l: "just_query_path l \<longrightarrow> path_owned l" "\<not> interrupted l" "quiet_hooks sent inbox (fc l)"
    and Q: "\<And>l1. quiet sent inbox (sys l) (sys l1) \<Longrightarrow> reply_in (fc l1) = reply_in (fc l) \<Longrightarrow> fc_done (fc l1) \<Longrightarrow>
      return_code (fc l1) = r \<Longrightarrow> sock l1 = -1 \<Longrightarrow> Q r l1"
  shows "total (VV_FC_RET S r) Q l"
proof -
  obtain s where s: "shut_sock S l = l\<lparr>sys := s, sock := -1\<rparr>" "quiet sent inbox (sys l) s"
  proof (cases "sock l = -1")
    case True
    then have "shut_sock S l = l\<lparr>sys := sys l, sock := -1\<rparr>" by (simp add: shut_sock_def)
    then show ?thesis using that [of "sys l"] by simp
  next
    case False
    then show ?thesis using that peerD(7) [OF P] by (simp add: shut_sock_def)
  qed
  define c where "c = (fc l)\<lparr>other := None, fc_done := True, return_code := r,
    fc_errm := (if r \<noteq> VV_OKAY then fc_message (nat (- r)) else Some [])\<rparr>"
  define s1 where "s1 = (case done_hook (fc l) of None \<Rightarrow> s | Some h \<Rightarrow> if r \<noteq> VV_OKAY then s
    else h (buffer_text (fc_data (fc l)) (data_len (fc l))) (buffer_text (fc_error (fc l)) (error_len (fc l))) s)"
  let ?l = "l\<lparr>sys := s, sock := -1, fc := (fc l)\<lparr>other := None, fc_done := True\<rparr>\<rparr>"
  have e: "fc_edge_end S l = Some (Inr ((), ?l))"
    using l(1) s(1) by (cases "just_query_path l")
      (simp_all add: fc_edge_end_def fc_bind_def fc_get_def fc_do_def set_fc_def)
  have "VV_FC_RET S r l = Some (Inr (r, l\<lparr>sys := s1, sock := -1, fc := c\<rparr>))"
    using l(2) by (cases "done_hook (fc l)")
      (simp_all add: VV_FC_RET_def e fc_bind_def [of "fc_edge_end S"] fc_bind_def fc_get_def fc_do_def fc_return_def set_fc_def
        Let_def c_def s1_def)
  moreover have "quiet sent inbox (sys l) s1"
    using l(3) s(2) by (auto simp: s1_def quiet_hooks_def quiet_def split: option.splits)
  then have "Q r (l\<lparr>sys := s1, sock := -1, fc := c\<rparr>)" by (intro Q) (simp_all add: c_def reply_in_def)
  ultimately show ?thesis by (simp add: total_def)
qed

section \<open>A call\<close>

lemma total_send_begin:
  assumes P: "peer S sent inbox" and l: "on_time S l" "fc_req_id l = 1"
    and Q: "\<And>r s. sent s = sent (sys l) @ hdr_bytes 1 8 @ begin_request \<Longrightarrow> inbox s = inbox (sys l) \<Longrightarrow>
      Q VV_OKAY (l\<lparr>remaining := r, sys := s\<rparr>)"
  shows "total (fc_send_begin S) Q l"
proof -
  have "header_bytes (build_hdr 8 VV_FC_BEG_REQ l) = hdr_bytes 1 8"
    using build_hdr_bytes [OF l(2), of 8] by (simp add: VV_FC_BEG_REQ_def)
  then show ?thesis using Q by (auto simp: fc_send_begin_def totals intro!: total_fc_write [OF P l(1)])
qed

text \<open>From the connection on.\<close>

lemma total_call:
  assumes P: "peer S sent inbox" and c: "sendable c" "quiet_hooks sent inbox c" "fits (first_reply c) (length (inbox (sys l)))"
    and Q: "\<And>l1 r. r = reply_of (inbox (sys l)) (first_reply c) \<Longrightarrow> sent (sys l1) = sent (sys l) @ request_bytes c \<Longrightarrow>
      reply_in (fc l1) = (rdata (fst r), rerror (fst r), rstatus (fst r)) \<Longrightarrow> fc_done (fc l1) \<Longrightarrow>
      return_code (fc l1) = snd r \<Longrightarrow> Q (snd r) l1"
    and l: "fc l = started c" "on_time S l" "fc_req_id l = 1" "env_lens l = []" "\<not> done_header l" "\<not> read_done l"
      "\<not> interrupted l" "msg_remain l = 0" "padding_len l = 0" "errno l \<noteq> EINTR"
  shows "total (fc_then (vv_connect_socket S (fcgi_server c)) (fc_then (fc_send_begin S) (fc_send S)))
    (\<lambda>st. if st \<noteq> VV_OKAY then total (VV_FC_RET S st) Q
      else total (fc_server_read S) (\<lambda>_ l. total (VV_FC_RET S (read_status (fc l))) Q l)) l"
proof -
  let ?b = "inbox (sys l)" and ?R = "first_reply c"
  let ?tail = "total (fc_server_read S) (\<lambda>_ l. total (VV_FC_RET S (read_status (fc l))) Q l)"
  have read: "?tail k"
    if k: "reading k = reading l" "fc k = no_body (started c)" "just_query_path k \<longrightarrow> path_owned k"
      "sent (sys k) = sent (sys l) @ request_bytes c" "inbox (sys k) = ?b" for k
  proof -
    have nb: "bufs (no_body (started c)) ?R 1 1 0" "fc_timeout (no_body (started c)) = fc_timeout c"
      "quiet_hooks sent inbox (no_body (started c))" "read_status (no_body (started c)) = VV_OKAY"
      using started_simps(6) [of c] c(2) by (auto simp: no_body_def bufs_def started_def quiet_hooks_def)
    have "idle S sent inbox k ?R k" "\<not> done_header k"
      using k(1,2) l nb by (auto simp: idle_def same_call_def on_time_def reading_def started_simps)
    moreover have "fits ?R (length (inbox (sys k)))" using c(3) k(5) by simp
    ultimately have "total (fc_server_read S) (\<lambda>_. ended sent k (reply_of ?b ?R)) k"
      using total_server_read [OF P] k(5) by metis
    moreover have "total (VV_FC_RET S (read_status (fc j))) Q j" if j: "ended sent k (reply_of ?b ?R) j" for j
    proof (rule total_ret [OF P])
      show "just_query_path j \<longrightarrow> path_owned j" using j k(3) by (simp add: ended_def same_call_def)
      show "\<not> interrupted j" using j k(1) l(7) by (simp add: ended_def same_call_def reading_def)
      show "quiet_hooks sent inbox (fc j)"
        using j k(2) nb(3) by (simp add: ended_def same_call_def quiet_hooks_def)
      fix l1 :: "'a fc_local"
      assume l1: "quiet sent inbox (sys j) (sys l1)" "reply_in (fc l1) = reply_in (fc j)" "fc_done (fc l1)"
        "return_code (fc l1) = read_status (fc j)"
      have e: "read_status (fc j) = snd (reply_of ?b ?R)" "sent (sys j) = sent (sys k)" "bufs (fc j) (fst (reply_of ?b ?R)) 0 0 0"
        using j by (simp_all add: ended_def same_call_def)
      show "Q (read_status (fc j)) l1" unfolding e(1)
        by (rule Q [OF refl]) (use l1 e k(4) bufs_reply [OF e(3)] in \<open>auto simp: quiet_def\<close>)
    qed
    ultimately show ?thesis by (rule total_mono)
  qed
  have send: "total (fc_send S) (\<lambda>st. if st \<noteq> VV_OKAY then total (VV_FC_RET S st) Q else ?tail) k"
    if k: "k = l\<lparr>sock := sk, remaining := r, sys := s\<rparr>" "sent s = sent (sys l) @ hdr_bytes 1 8 @ begin_request" "inbox s = ?b" for k sk r s
  proof (rule total_send [OF P])
    show "sendable (fc k)" "on_time S k" "fc_req_id k = 1" "env_lens k = []"
      using k l c(1) by (simp_all add: started_simps on_time_def)
    fix l1 :: "'a fc_local"
    assume l1: "reading l1 = reading k" "fc l1 = no_body (fc k)" "just_query_path l1 \<longrightarrow> path_owned l1"
      "sent (sys l1) = sent (sys k) @ hdr_bytes 4 (length (params_bytes (fc k))) @ params_bytes (fc k) @ hdr_bytes 4 0
        @ (case request_body (fc k) of None \<Rightarrow> [] | Some b \<Rightarrow> body_bytes b @ hdr_bytes 5 0)" "inbox (sys l1) = inbox (sys k)"
    have "?tail l1"
      by (rule read) (use l1 k l(1) in \<open>simp_all add: reading_def started_simps request_bytes_def\<close>)
    then show "(if VV_OKAY \<noteq> VV_OKAY then total (VV_FC_RET S VV_OKAY) Q else ?tail) l1" by simp
  qed
  have beg: "total (fc_send_begin S) (\<lambda>st. if st \<noteq> VV_OKAY then (if st \<noteq> VV_OKAY then total (VV_FC_RET S st) Q else ?tail)
      else total (fc_send S) (\<lambda>st. if st \<noteq> VV_OKAY then total (VV_FC_RET S st) Q else ?tail)) (l\<lparr>sock := sk, remaining := r, sys := s\<rparr>)"
    if "quiet sent inbox (sys l) s" for sk r s
    using that l send by (intro total_send_begin [OF P]) (auto simp: on_time_def quiet_def)
  have "total (vv_connect_socket S (fcgi_server c)) (\<lambda>st. if st \<noteq> VV_OKAY then (if st \<noteq> VV_OKAY then total (VV_FC_RET S st) Q else ?tail)
      else total (fc_send_begin S) (\<lambda>st. if st \<noteq> VV_OKAY then (if st \<noteq> VV_OKAY then total (VV_FC_RET S st) Q else ?tail)
        else total (fc_send S) (\<lambda>st. if st \<noteq> VV_OKAY then total (VV_FC_RET S st) Q else ?tail))) l"
  proof (rule total_connect [OF P l(2)])
    show "CHR '':'' \<in> set (fcgi_server c) \<or> length (fcgi_server c) \<le> 108" using c(1) by (simp add: sendable_def)
    fix k r s assume "quiet sent inbox (sys l) s"
    from beg [OF this, where sk = k and r = r]
    show "(if VV_OKAY \<noteq> VV_OKAY then (if VV_OKAY \<noteq> VV_OKAY then total (VV_FC_RET S VV_OKAY) Q else ?tail)
      else total (fc_send_begin S) (\<lambda>st. if st \<noteq> VV_OKAY then (if st \<noteq> VV_OKAY then total (VV_FC_RET S st) Q else ?tail)
        else total (fc_send S) (\<lambda>st. if st \<noteq> VV_OKAY then total (VV_FC_RET S st) Q else ?tail))) (l\<lparr>sock := k, remaining := r, sys := s\<rparr>)"
      by (simp only: simp_thms if_False)
  qed
  then show ?thesis unfolding totals .
qed

text \<open>What a call needs: a system that does its work in time, a request that can be sent, hooks that leave the connection
  alone, no interrupted call of the system, and a reply that is not longer than an integer.\<close>

definition served :: "'s fc_os \<Rightarrow> ('s \<Rightarrow> string) \<Rightarrow> ('s \<Rightarrow> string) \<Rightarrow> 's vv_fc \<Rightarrow> int \<Rightarrow> 's \<Rightarrow> bool" where
  "served S sent inbox c e s \<longleftrightarrow>
     peer S sent inbox \<and> sendable c \<and> quiet_hooks sent inbox c \<and> in_time S c s \<and> e \<noteq> EINTR \<and>
     fits (first_reply c) (length (inbox s))"

lemma exchange:
  assumes "served S sent inbox c e s"
  shows "\<exists>l. vv_fc_request S c e s = Some (Inr (snd (reply_of (inbox s) (first_reply c)), l)) \<and>
    sent (sys l) = sent s @ request_bytes c \<and>
    reply_in (fc l) = (let R = fst (reply_of (inbox s) (first_reply c)) in (rdata R, rerror R, rstatus R))"
proof -
  let ?r = "reply_of (inbox s) (first_reply c)"
  let ?Q = "\<lambda>st l. st = snd ?r \<and> sent (sys l) = sent s @ request_bytes c \<and>
    reply_in (fc l) = (rdata (fst ?r), rerror (fst ?r), rstatus (fst ?r))"
  have a: "peer S sent inbox" "sendable c" "quiet_hooks sent inbox c" "in_time S c s" "e \<noteq> EINTR"
    "fits (first_reply c) (length (inbox s))"
    using assms by (simp_all add: served_def)
  obtain now s1 where t: "sys_time S s = (now, s1)" "quiet sent inbox s s1"
    using peerD(1) [OF a(1), of s] by (metis snd_conv surj_pair)
  let ?l = "(fc_start c e s)\<lparr>sys := s1, begin_time := now\<rparr>"
  have "total (fc_edge_start S (fc_timeout (fc ?l))) (\<lambda>init. if init \<noteq> VV_OKAY then ?Q init
      else total (fc_then (vv_connect_socket S (fcgi_server c)) (fc_then (fc_send_begin S) (fc_send S)))
        (\<lambda>st. if st \<noteq> VV_OKAY then total (VV_FC_RET S st) ?Q
          else total (fc_server_read S) (\<lambda>_ l. total (VV_FC_RET S (read_status (fc l))) ?Q l))) ?l"
  proof (rule total_start [OF a(1)])
    show "0 \<le> fc_timeout (fc ?l)" "fc_timeout (fc ?l) \<le> 86400" using a(2) by (simp_all add: fc_start_def sendable_def)
    fix l1 :: "'a fc_local"
    assume l1: "quiet sent inbox (sys ?l) (sys l1)" "fc l1 = started (fc ?l)" "sock l1 = -1" "\<not> read_done l1" "env_lens l1 = []"
      "fc_req_id l1 = 1" "\<not> done_header l1" "tout l1 = \<lparr>tv_sec = fc_timeout (fc ?l), tv_usec = 0\<rparr>" "\<not> interrupted l1"
      "begin_time l1 = begin_time ?l" "msg_remain l1 = msg_remain ?l" "padding_len l1 = padding_len ?l"
      "just_query_path l1 = just_query_path ?l" "errno l1 = errno ?l"
    have on: "on_time S l1"
      using l1(2,8,10) a(4) t(1) by (auto simp: on_time_def timely_def fc_start_def started_simps in_time_def usecs_def proper_def)
        (metis fst_conv)+
    have q: "inbox (sys l1) = inbox s" "sent (sys l1) = sent s" using l1(1) t(2) by (simp_all add: quiet_def)
    have "total (fc_then (vv_connect_socket S (fcgi_server c)) (fc_then (fc_send_begin S) (fc_send S)))
        (\<lambda>st. if st \<noteq> VV_OKAY then total (VV_FC_RET S st) ?Q
          else total (fc_server_read S) (\<lambda>_ l. total (VV_FC_RET S (read_status (fc l))) ?Q l)) l1"
      by (rule total_call [OF a(1,2,3)]) (use l1 on q a(5,6) in \<open>simp_all add: fc_start_def\<close>)
    then show "(if VV_OKAY \<noteq> VV_OKAY then ?Q VV_OKAY
      else total (fc_then (vv_connect_socket S (fcgi_server c)) (fc_then (fc_send_begin S) (fc_send S)))
        (\<lambda>st. if st \<noteq> VV_OKAY then total (VV_FC_RET S st) ?Q
          else total (fc_server_read S) (\<lambda>_ l. total (VV_FC_RET S (read_status (fc l))) ?Q l))) l1"
      by simp
  qed
  then have "total (vv_fc_request_act S) ?Q (fc_start c e s)"
    unfolding vv_fc_request_act_def totals by (simp add: fc_sys_def t(1) fc_start_def totals cong: if_cong)
  then show ?thesis unfolding total_def vv_fc_request_def Let_def by auto
qed

end
