(* ===== verification/FcgiProps.thy ===== *)
theory FcgiProps
  imports FcgiReply
begin

text \<open>
  What a caller of the FastCGI client can rely on: the server finds the request in what was sent, the reply is that of a
  reader of the records, and an interrupted call of the system can make the client run for ever.
\<close>

section \<open>A system to try it on\<close>

text \<open>It sends at most seven bytes at a time and reads at most five.\<close>

record demo_net =
  net_sent :: string
  net_inbox :: string

definition demo_os :: "demo_net fc_os" where
  "demo_os = \<lparr>sys_read = (\<lambda>k n s. (Sys_ok (take (min n 5) (net_inbox s)), s\<lparr>net_inbox := drop (min n 5) (net_inbox s)\<rparr>)),
     sys_write = (\<lambda>k b s. (Sys_ok (min 7 (length b)), s\<lparr>net_sent := net_sent s @ take 7 b\<rparr>)),
     sys_time = (\<lambda>s. (\<lparr>tv_sec = 1000, tv_usec = 5\<rparr>, s)), sys_sockopt = (\<lambda>k b t s. (True, s)),
     sys_resolve = (\<lambda>h p s. (Some [Other_family, Inet 80 h], s)), sys_socket = (\<lambda>b s. (Sys_ok 3, s)),
     sys_connect = (\<lambda>k a s. (Sys_ok (), s)), sys_close = (\<lambda>k s. s), sys_memory = (\<lambda>n s. (True, s)), sys_junk = CHR 0x01\<rparr>"

definition demo_fc :: "demo_net vv_fc" where
  "demo_fc = \<lparr>fcgi_server = ''/sock'', req_method = ''POST'', app_path = ''/app'', fc_req = ''/req'', url_payload = Some ''/a=1?b=2'',
     fc_content_type = Some ''text'', fc_content_len = 5, req_body = Some ''hello'', fc_env = Some [''A'', ''1''],
     fc_timeout = 10, req_status = 0, data_len = 0, error_len = 0, other = None, other_len = 0, fc_errm = None,
     out_hook = None, err_hook = None, done_hook = None, fc_done = False, return_code = 0, fc_data = None, fc_error = None,
     read_status = 0\<rparr>"

definition demo_reply :: string where
  "demo_reply = map char_store [1, 6, 0, 1, 0, 2, 3, 0, 104, 105, 0, 0, 0, 1, 3, 0, 1, 0, 8, 0, 0, 0, 0, 0, 9, 0, 0, 0, 0]"

lemma demo_peer: "peer demo_os net_sent net_inbox"
  unfolding peer_def demo_os_def quiet_def by (auto simp: min_def)

lemma demo_served:
  assumes "length b < 1000"
  shows "served demo_os net_sent net_inbox demo_fc 0 \<lparr>net_sent = [], net_inbox = b\<rparr>"
proof -
  have "sendable demo_fc"
    by (simp add: sendable_def demo_fc_def params_bytes_def request_params_def payload_def url_path_def url_query_def
        after_slash_def has_body_def param_bytes_def env_length_def snprintf_text_def decimal_text_def decimal_digits.simps)
  moreover have "fits (first_reply demo_fc) (length b)" using assms by (simp add: fits_def first_reply_def INT_MAX_def)
  ultimately show ?thesis
    using demo_peer by (simp add: served_def quiet_hooks_def in_time_def demo_fc_def demo_os_def EINTR_def proper_def usecs_def)
qed

section \<open>The request and the reply\<close>

text \<open>C7: The server finds the request in what the client sent.  When the system does its work, in any number of writes, a call
  sends bytes in which a server of the FastCGI protocol reads the parameters of the request (the method, the application,
  the path and the query string into which the URL payload is split, the length and the type of the body, the environment
  of the caller) and its body, if it has one.\<close>

theorem fcgi_request_sent:
  assumes "served S sent inbox c e s"
  shows "\<exists>st l. vv_fc_request S c e s = Some (Inr (st, l)) \<and>
    server_view (drop (length (sent s)) (sent (sys l))) = Some (request_params c, request_body c)"
proof -
  have "sendable c" using assms by (simp add: served_def)
  then have "server_view (request_bytes c) = Some (request_params c, request_body c)" by (rule server_reads)
  moreover obtain l where "vv_fc_request S c e s = Some (Inr (snd (reply_of (inbox s) (first_reply c)), l))"
    "sent (sys l) = sent s @ request_bytes c"
    using exchange [OF assms] by blast
  ultimately show ?thesis by auto
qed

lemma fcgi_request_sent_witness:
  "\<exists>st l. vv_fc_request demo_os demo_fc 0 \<lparr>net_sent = [], net_inbox = []\<rparr> = Some (Inr (st, l)) \<and>
    server_view (net_sent (sys l)) =
      Some ([(''REQUEST_METHOD'', ''POST''), (''SCRIPT_NAME'', ''/app''), (''PATH_INFO'', ''/req/a=1''), (''QUERY_STRING'', ''b=2''),
        (''CONTENT_LENGTH'', ''5''), (''CONTENT_TYPE'', ''text''), (''A'', ''1'')], Some ''hello'')"
  using fcgi_request_sent [OF demo_served [of "[]"]]
  by (simp add: request_params_def request_body_def demo_fc_def payload_def url_path_def url_query_def after_slash_def
      has_body_def snprintf_text_def decimal_text_def decimal_digits.simps char_store_def char_of_def)

text \<open>C8: The reply is that of a reader of the records, whatever the server sends.  When the system does its work, a call
  returns for any bytes of the server, in whatever pieces they arrive and with any padding; it returns the status with
  which the reader of the records ends (an end before that of the request is a protocol error), and the caller has the
  data, the errors and the status of the request that this reader collects, cut off where it ends.\<close>

theorem fcgi_reply_exact:
  assumes "served S sent inbox c e s"
  shows "\<exists>l. vv_fc_request S c e s = Some (Inr (snd (reply_of (inbox s) (first_reply c)), l)) \<and>
    reply_in (fc l) = (let R = fst (reply_of (inbox s) (first_reply c)) in (rdata R, rerror R, rstatus R))"
  using exchange [OF assms] by blast

lemma demo_reply_of: "reply_of demo_reply (first_reply demo_fc) = (\<lparr>rdata = ''hi'', rerror = [], rother = [], rstatus = 9\<rparr>, VV_OKAY)"
  by (simp add: demo_reply_def reply_of.simps content_len_def padding_of_def reply_content_def add_content_def first_reply_def
      demo_fc_def app_status_def Let_def INT_MAX_def char_store_def uchar_def char_of_def)

lemma fcgi_reply_exact_witness:
  "\<exists>l. vv_fc_request demo_os demo_fc 0 \<lparr>net_sent = [], net_inbox = demo_reply\<rparr> = Some (Inr (VV_OKAY, l)) \<and>
    reply_in (fc l) = (''hi'', [], 9)"
  using fcgi_reply_exact [OF demo_served [of demo_reply]] by (simp add: demo_reply_of) (simp add: demo_reply_def)

section \<open>A call that does not return\<close>

lemma read_never_ends:
  assumes "read_loop S n got l = Some y"
  shows "(\<forall>k n s. fst (sys_read S k n s) = Sys_ok []) \<longrightarrow> errno l \<noteq> EINTR"
  using assms
proof (rule read_loop.raw_induct [rotated])
  fix again :: "'a fc_os \<Rightarrow> nat \<Rightarrow> string \<Rightarrow> 'a fc_local \<Rightarrow> ((int \<times> string) \<times> 'a fc_local) option" and S :: "'a fc_os" and n :: nat and got :: string and y and l :: "'a fc_local"
  assume IH: "\<And>(S :: 'a fc_os) n got (l :: 'a fc_local) y. again S n got l = Some y \<Longrightarrow>
    (\<forall>k n s. fst (sys_read S k n s) = Sys_ok []) \<longrightarrow> errno l \<noteq> EINTR"
  assume y: "(case fc_sys (sys_read S (sock l) (n - length got)) l of (r, l1) \<Rightarrow>
      (case r of
         Sys_err e \<Rightarrow> (if e = EINTR then again S n got (l1\<lparr>errno := e\<rparr>) else Some (read_failed S (-1) got (l1\<lparr>errno := e\<rparr>)))
       | Sys_ok bs \<Rightarrow>
           (if bs = [] then (if errno l1 = EINTR then again S n got l1 else Some (read_failed S 0 got l1))
            else if length (got @ bs) \<ge> n then Some ((int n, got @ bs), l1)
            else (case vv_check_timeout S False l1 of (intime, l2) \<Rightarrow>
              if \<not> intime then Some ((-1, got @ bs), l2)
              else (case vv_set_timeout S l2 of (good, l3) \<Rightarrow>
                if \<not> good then Some ((-1, got @ bs), check_read (-1) l3) else again S n (got @ bs) l3))))) = Some y"
  show "(\<forall>k n s. fst (sys_read S k n s) = Sys_ok []) \<longrightarrow> errno l \<noteq> EINTR"
  proof (intro impI notI)
    assume a: "\<forall>k n s. fst (sys_read S k n s) = Sys_ok []" and e: "errno l = EINTR"
    obtain s where "sys_read S (sock l) (n - length got) (sys l) = (Sys_ok [], s)" using a by (metis prod.collapse)
    then have "again S n got (l\<lparr>sys := s\<rparr>) = Some y" using y e by (simp add: fc_sys_def)
    then show False using IH a e by fastforce
  qed
qed

lemma socket_never_ends:
  assumes "\<And>k n s. fst (sys_read S k n s) = Sys_ok []" "errno l = EINTR"
  shows "vv_read_socket S len l = None"
  using read_never_ends [of S "nat len" "[]" l] assms
  by (cases "read_loop S (nat len) [] l") (auto simp: vv_read_socket_def)

text \<open>A call up to where it waits for the reply.\<close>

definition before_read :: "'s fc_os \<Rightarrow> (int, 's) fc_act" where
  "before_read S = fc_bind (fc_lift (fc_sys (sys_time S))) (\<lambda>now.
     fc_bind (fc_do (\<lambda>l. l\<lparr>begin_time := now\<rparr>)) (\<lambda>_. fc_get (\<lambda>l.
     fc_bind (fc_edge_start S (fc_timeout (fc l))) (\<lambda>init. if init \<noteq> VV_OKAY then fc_return init else
       fc_then (vv_connect_socket S (fcgi_server (fc l))) (fc_then (fc_send_begin S) (fc_send S))))))"

lemma request_waits:
  assumes "before_read S l = Some (Inr (VV_OKAY, l1))"
  shows "vv_fc_request_act S l = fc_bind (fc_server_read S) (\<lambda>_. fc_get (\<lambda>l. VV_FC_RET S (read_status (fc l)))) l1"
proof -
  obtain now l2 where t: "fc_sys (sys_time S) l = (now, l2)" by fastforce
  let ?l = "l2\<lparr>begin_time := now\<rparr>"
  obtain x where x: "fc_edge_start S (fc_timeout (fc ?l)) ?l = Some (Inr x)"
    using assms t by (auto simp: before_read_def fc_bind_def fc_lift_def fc_do_def fc_get_def run_bind_def
        split: option.splits sum.splits)
  obtain init l3 where i: "x = (init, l3)" by fastforce
  have "init = VV_OKAY"
    using assms t x i by (auto simp: before_read_def fc_bind_def fc_lift_def fc_do_def fc_get_def fc_return_def run_bind_def
        split: if_splits)
  then show ?thesis
    using assms t x i
    by (simp add: before_read_def vv_fc_request_act_def fc_bind_def fc_lift_def fc_do_def fc_get_def)
qed

text \<open>C36: After an interrupted call of the system a request may never return.  The end of a connection is not an error, so it
  leaves \<^verbatim>\<open>errno\<close> as it is; when an earlier call of the system was interrupted, which is not a failure of the request, and
  the server closes the connection instead of answering, reading starts again for ever, whatever the timeout is.\<close>

theorem closed_after_interrupt:
  assumes "\<And>k n s. fst (sys_read S k n s) = Sys_ok []"
    "before_read S (fc_start c e s) = Some (Inr (VV_OKAY, l))" "errno l = EINTR" "\<not> done_header l"
  shows "vv_fc_request S c e s = None"
proof -
  have "vv_read_socket S 8 l = None" using socket_never_ends [OF assms(1,3)] .
  then have "fc_read_turn S l = None"
    using assms(4) by (simp add: fc_read_turn_def fc_read_header_def fc_bind_def fc_get_def)
  then have "fc_server_read S l = None" by (simp add: fc_server_read.simps)
  then show ?thesis by (simp add: vv_fc_request_def request_waits [OF assms(2)] fc_bind_def)
qed

text \<open>A system in which the first write is interrupted, and the server closes the connection without an answer.\<close>

definition signal_os :: "(bool \<times> demo_net) fc_os" where
  "signal_os = \<lparr>sys_read = (\<lambda>k n s. (Sys_ok [], s)),
     sys_write = (\<lambda>k b (i, s). if i then (Sys_ok (length b), i, s\<lparr>net_sent := net_sent s @ b\<rparr>) else (Sys_err EINTR, True, s)),
     sys_time = (\<lambda>s. (\<lparr>tv_sec = 1000, tv_usec = 5\<rparr>, s)), sys_sockopt = (\<lambda>k b t s. (True, s)),
     sys_resolve = (\<lambda>h p s. (None, s)), sys_socket = (\<lambda>b s. (Sys_ok 3, s)),
     sys_connect = (\<lambda>k a s. (Sys_ok (), s)), sys_close = (\<lambda>k s. s), sys_memory = (\<lambda>n s. (True, s)), sys_junk = NUL\<rparr>"

definition signal_fc :: "'s vv_fc" where
  "signal_fc = \<lparr>fcgi_server = ''/s'', req_method = ''GET'', app_path = [], fc_req = [], url_payload = None,
     fc_content_type = None, fc_content_len = 0, req_body = None, fc_env = None,
     fc_timeout = 10, req_status = 0, data_len = 0, error_len = 0, other = None, other_len = 0, fc_errm = None,
     out_hook = None, err_hook = None, done_hook = None, fc_done = False, return_code = 0, fc_data = None, fc_error = None,
     read_status = 0\<rparr>"

lemma signal_before: "(case before_read signal_os (fc_start signal_fc 0 (False, \<lparr>net_sent = [], net_inbox = []\<rparr>)) of
    Some (Inr (st, l)) \<Rightarrow> st = VV_OKAY \<and> errno l = EINTR \<and> \<not> done_header l \<and> \<not> read_done l | _ \<Rightarrow> False)"
  by code_simp

lemma closed_after_interrupt_witness:
  "vv_fc_request signal_os signal_fc 0 (False, \<lparr>net_sent = [], net_inbox = []\<rparr>) = None"
proof -
  obtain l where "before_read signal_os (fc_start signal_fc 0 (False, \<lparr>net_sent = [], net_inbox = []\<rparr>)) = Some (Inr (VV_OKAY, l))"
    "errno l = EINTR" "\<not> done_header l"
    using signal_before by (auto split: option.splits sum.splits)
  then show ?thesis by (rule closed_after_interrupt [rotated]) (simp add: signal_os_def)
qed

end
