(* ===== verification/Spec2Isabelle.thy ===== *)
theory Spec2Isabelle
  imports Prelude Utf8 Codec Strings Fifo Mem Maps HashTab AvlTree AvlStore JsonText Json JsonDoc
    SqlText Req Cookies Output Response Answer WriteString Params Path DbBase Db Contract Trans Lite LiteRows DbRequests Pg PgCommit Maria MariaRows SqlRun
    Fcgi FcgiPeer FcgiSend FcgiWrite FcgiRead FcgiReply FcgiProps
begin

text \<open>
  The verification development of Vely, a framework for web applications in C (src/README.md).

  A program of Vely is C code with statements, which the preprocessor (v1.c) turns into calls of a runtime library.  A
  process of the application takes requests one after the other: it reads the input of a request, runs the program of the
  request, and finishes its output; the runtime keeps memory, databases and containers for the program.  What is modelled is
  that runtime: the routines on texts, the memory manager, the containers, the JSON parser, the input and the output of a
  request, the databases with their three drivers, and the client that calls other FastCGI applications.

  \<^bold>\<open>Conventions.\<close>  A C string is the list of its bytes before the zero byte; code that writes into memory is given the whole
  buffer, and \<open>memput\<close> (theory Prelude) is a fault when it writes outside of it.  A byte that nobody wrote is an argument
  (\<open>x\<close>, \<open>sys_junk\<close>), so what is proved holds for any.  A result is \<open>Inl\<close> of a fault (outside of memory, overflow of a signed
  integer, a null pointer, a reported error that ends the request) or \<open>Inr\<close> of a value; \<open>None\<close> in front of that is code that
  does not return.  State is a record that is passed on; the larger components have a monad for it (\<open>act\<close> in Output,
  \<open>db_act\<close> in DbBase, \<open>fc_act\<close> in Fcgi).  Integers have the width of the code where it matters: words in Utf8, a
  remainder for the height of a tree node, integers with the overflow as a fault elsewhere.  Libraries and the system that src/ does not hold
  are parameters: the allocator of C (\<open>os\<close> in Mem), the streams of FastCGI (\<open>dev\<close> in Output), SQLite (\<open>sqlite\<close> in Lite),
  the client libraries of PostgreSQL (\<open>libpq\<close> in Pg) and MariaDB (\<open>mysql\<close> in Maria; both \<open>escape_lib\<close> in SqlRun), files, and sockets and the clock (\<open>fc_os\<close> in Fcgi).  What is asked of
  them is a hypothesis with a name: \<open>os_fresh\<close>, that live blocks do not overlap; \<open>answer\<close>, the rows that SQLite has for a
  statement; \<open>peer\<close>, a system whose calls succeed, each of them with some of the bytes.

  \<^bold>\<open>Texts.\<close>
  \<^item> Prelude: characters as the compiler of this program reads them (signed), classes of characters, statuses, faults,
    writes into a buffer, decimal numbers.
  \<^item> Utf8 (utf8.c): Unicode values and UTF-8 both ways, which are inverse to each other.
  \<^item> Codec (\<^verbatim>\<open>vely_encode\<close>, \<^verbatim>\<open>vely_decode\<close>, \<^verbatim>\<open>vely_hex2bin\<close>, \<^verbatim>\<open>vely_bin2hex\<close>, \<^verbatim>\<open>vely_num2str\<close>): decoding in place inverts
    encoding, for web texts always, for URLs up to the first byte above 127; web-encoded text has no markup in it.
  \<^item> Strings (velyrtc.c, velyrt.c): counting, replacing, trimming, and the checks of names and numbers.

  \<^bold>\<open>Memory and containers.\<close>
  \<^item> Mem (velymem.c): the table of blocks, the list of its free entries, blocks of the request and of the process, open
    files.  \<open>mem_ok\<close> is the invariant, \<open>mem_step\<close> a call of the manager; every reachable state is well formed, a block is
    released once and never leaked, and the end of a request leaves exactly what belongs to the process.
  \<^item> Maps: contracts of containers as locales: \<open>keyed_map\<close> (what is found after an insertion and a deletion),
    \<open>counted_map\<close>, \<open>enumerator\<close> (a cursor visits everything once), \<open>simulation\<close> (a history of operations).
  \<^item> Fifo (\<^verbatim>\<open>vely_store\<close>, \<^verbatim>\<open>vely_retrieve\<close>, \<^verbatim>\<open>vely_rewind\<close>): interprets \<open>sequential_store\<close>.
  \<^item> HashTab (hash.c): the table, its cursor, resizing; interprets \<open>counted_map\<close> and \<open>enumerator\<close>.  A history of operations
    answers as a finite map does.
  \<^item> AvlTree, AvlStore (tree.c): nodes with addresses, rotations, the sorted list through the tree.  The order of the keys is
    the locale \<open>key_order\<close>, interpreted by the two comparisons of the code.  A height is a field of seven bits (\<open>mod 128\<close>); up to
    \<open>2 ^ 51\<close> keys it does not wrap, because the tree is balanced (\<open>tree_balanced\<close>), and the theorems have this bound.

  \<^bold>\<open>JSON (json.c).\<close>  JsonText has numbers and strings with their escapes, in both directions.  Json has the parser: a record of
  its static variables, a text into which it writes, and the stack of names.  Its recursion has fuel, and \<open>json_returns\<close>
  shows that one more than the length of the text is always enough, and that the reading of a string, which has no
  fuel, returns as well.  JsonDoc has a grammar of documents (\<open>spelled\<close>: objects and arrays that are not empty, arrays only as the
  value of a name, names without escapes, strings with any escapes, white space anywhere but after a document that is no object),
  the nodes a document stands for, the theorem that the parser records exactly these, the look-up of a node by its name, and
  documents that the parser takes though they are none, or refuses.

  \<^bold>\<open>A request (velyrt.c).\<close>
  \<^item> Req: the records of a request (vely.h).  Params: the query string is decoded in place into names and values, in
    whatever way the client wrote them, which are then found by name, also when a name is repeated (\<^verbatim>\<open>vely_get_input\<close>, \<^verbatim>\<open>vely_get_input_param\<close>, \<^verbatim>\<open>vely_set_input\<close>).  Path: the name of the request and the
    parameters in the path of the URL, which is read as \<^verbatim>\<open>vely_decorate_path\<close> writes it.
  \<^item> Cookies: reading, setting, finding and deleting, in an array of 256.
  \<^item> Output: headers, the data of a page or of a file, reported errors, the end of a request; the client sees a sequence of
    calls on its stream.  WriteString: strings that are written instead of the output, up to five of them one in the other;
    it refines a stack of texts.
  \<^item> Response, Answer: whole requests, a program being the list of its calls, and the loop that v1.c generates around it.
    The response of a program that does not finish its output itself or send silent headers has its headers, the end of them
    and its data, in this order; what is seen of an error.

  \<^bold>\<open>Databases.\<close>
  \<^item> SqlText (db.c, \<^verbatim>\<open>vely_lite_escape\<close>): a statement with its arguments is read by the database as the statement that was
    written, whatever the arguments are; \<open>escape_contract\<close> and \<open>escaper\<close> are the contracts of an escaping routine.  SqlRun:
    the same on a connection, which the first argument makes, with the routine chosen by its type.
  \<^item> DbBase, Db: connections, transactions, statements, queries and their errors, for any driver.  Contract: the locale
    \<open>database\<close>, what db.c relies on in a driver, and what follows from it for every operation.  Trans: a request leaves no
    transaction open, and a transaction stays in its session until it is ended, whatever is done on other connections between.
  \<^item> Lite (lite.c), Pg (pg.c), Maria (mys.c): the drivers of SQLite, PostgreSQL and MariaDB; all interpret \<open>database\<close>.
    LiteRows: the rows of a run-time query without arguments reach the program as SQLite has them.  MariaRows: the rows of a
    prepared query of MariaDB, and a row that is lost because all its fields are empty.  PgCommit: a commit whose connection is lost.
    DbRequests: the properties of requests, for SQLite.

  \<^bold>\<open>The FastCGI client (fcli.c).\<close>  Fcgi models \<^verbatim>\<open>vv_fc_request\<close> with all it calls, over a system that may fail at any point.
  FcgiPeer has a calculus for calls that return (\<open>total\<close>) and the systems for which they do; FcgiSend what a server of the
  protocol reads in a sequence of bytes; FcgiWrite that the client sends the bytes of the request; FcgiRead a reader of the
  records of a reply; FcgiReply a whole exchange; FcgiProps the properties: the server finds the request in what was sent,
  and the caller has the reply that is in what the server sent, in whatever pieces it came.  The hypotheses bound the
  parameters of a request by a record (65527 bytes), as the code does, and the reply by 2147483647 bytes.

  \<^bold>\<open>Not modelled.\<close>  The preprocessor v1.c (only the order of the calls that it generates), the process manager vf.c, the
  threads in which several FastCGI requests run, and what is a call of a library or of the system with
  little around it: curl.c, pcre2.c, sec.c, files, programs, uploads, the trace and the crash handler.
\<close>

end
